(* ===== verification/Prelude.thy ===== *)
theory Prelude
  imports Main "HOL-Library.Word" "HOL-Library.Monad_Syntax"
begin

text \<open>
  Shared vocabulary of the development: the machine types of the code as words, byte
  strings, the byte orders of the wire formats, memory reads and writes that fail when they
  leave the buffer, and 32-bit arithmetic on indices with the wrap-around written out.
\<close>

unbundle bit_operations_syntax

named_theorems wrap_simps "32-bit index arithmetic that does not wrap"
named_theorems mem_simps "reads and writes of byte buffers"

section \<open>Machine types\<close>

type_synonym byte = "8 word"
type_synonym bytes = "byte list"
type_synonym u16 = "16 word"
type_synonym u32 = "32 word"
type_synonym u64 = "64 word"

lemma ucast_of_nat_unat: "(ucast w :: 'b::len word) = of_nat (unat w)" for w :: "'a::len word"
  by simp

section \<open>32-bit index arithmetic\<close>

text \<open>
  Offsets and lengths that the code keeps in \<open>uint32_t\<close> variables are natural numbers below
  \<open>2 ^ 32\<close>; every sum and difference is reduced as the C++ type reduces it.
\<close>

definition wrap32 :: "nat \<Rightarrow> nat" where
  "wrap32 n = n mod 2 ^ 32"

definition sub32 :: "nat \<Rightarrow> nat \<Rightarrow> nat" where
  "sub32 a b = nat ((int a - int b) mod 2 ^ 32)"

lemma wrap32_id [wrap_simps]: "n < 2 ^ 32 \<Longrightarrow> wrap32 n = n"
  by (simp add: wrap32_def)

lemma wrap32_less: "wrap32 n < 2 ^ 32"
  by (simp add: wrap32_def)

lemma wrap32_le: "wrap32 n \<le> n"
  by (simp add: wrap32_def)

lemma sub32_id [wrap_simps]: "b \<le> a \<Longrightarrow> a < 2 ^ 32 \<Longrightarrow> sub32 a b = a - b"
  by (simp add: sub32_def nat_diff_distrib of_nat_diff [symmetric] del: of_nat_diff)

lemma sub32_self [simp]: "sub32 a a = 0"
  by (simp add: sub32_def)

section \<open>Cutting at multiples of a page size\<close>

lemma div_fill: "a mod P + c = P \<Longrightarrow> 0 < P \<Longrightarrow> (a + c) div P = Suc (a div P)" for a :: nat
proof -
  assume "a mod P + c = P" "0 < P"
  then have "a + c = P * Suc (a div P)"
    by (metis add.assoc add.commute div_mult_mod_eq mult.commute mult_Suc_right)
  then show ?thesis using \<open>0 < P\<close> by simp
qed

lemma div_inside: "a mod P + c < P \<Longrightarrow> (a + c) div P = a div P" for a :: nat
proof -
  assume h: "a mod P + c < P"
  have "a + c = P * (a div P) + (a mod P + c)" by simp
  then have "(a + c) div P = a div P + (a mod P + c) div P"
    using h by (metis div_mult_self4 add.commute not_less_zero)
  then show ?thesis using h by simp
qed

lemma div_crosses:
  "a div P < (a + c) div P \<Longrightarrow> 0 < P \<Longrightarrow> P - a mod P \<le> c" for a :: nat
  by (rule ccontr) (use div_inside [of a P c] in \<open>auto simp: not_le less_diff_conv add.commute\<close>)

lemma div_stays: "a div P = (a + c) div P \<Longrightarrow> 0 < P \<Longrightarrow> a mod P + c < P" for a :: nat
proof (rule ccontr)
  assume e: "a div P = (a + c) div P" and p: "0 < P" and n: "\<not> a mod P + c < P"
  then obtain r where "c = (P - a mod P) + r"
    by (metis le_Suc_ex le_diff_conv not_less add.commute)
  then have "(a + (P - a mod P)) div P \<le> (a + c) div P"
    by (simp add: div_le_mono)
  moreover have "(a + (P - a mod P)) div P = Suc (a div P)"
    using p by (intro div_fill) (auto simp: less_imp_le)
  ultimately show False using e by simp
qed

text \<open>Indices into a ring are distinct within a window of its length.\<close>

lemma mod_window:
  fixes a b c :: nat
  assumes "a mod c = b mod c" and "a \<le> b" and "b < a + c"
  shows "a = b"
proof -
  have "c dvd b - a" using assms(1,2) by (metis mod_eq_dvd_iff_nat)
  moreover have "b - a < c" using assms(2,3) by simp
  ultimately have "b - a = 0" using nat_dvd_not_less by blast
  then show ?thesis using assms(2) by simp
qed

lemma mod_window_neq:
  fixes a b c :: nat
  shows "a \<noteq> b \<Longrightarrow> lo \<le> a \<Longrightarrow> a < lo + c \<Longrightarrow> lo \<le> b \<Longrightarrow> b < lo + c \<Longrightarrow> a mod c \<noteq> b mod c"
  using mod_window [of a c b] mod_window [of b c a] by (cases "a \<le> b") auto

section \<open>Byte orders\<close>

text \<open>
  \<open>memcpy\<close> of an integer writes its bytes in the host's order, which is little-endian on the
  code's targets; the page tails are written byte by byte, most significant first.
\<close>

definition le_bytes :: "nat \<Rightarrow> 'a::len word \<Rightarrow> bytes" where
  "le_bytes n w = map (\<lambda>i. ucast (drop_bit (8 * i) w)) [0..<n]"

primrec of_le :: "bytes \<Rightarrow> 'a::len word" where
  "of_le [] = 0"
| "of_le (b # bs) = ucast b OR push_bit 8 (of_le bs)"

definition be_bytes :: "nat \<Rightarrow> 'a::len word \<Rightarrow> bytes" where
  "be_bytes n w = rev (le_bytes n w)"

definition of_be :: "bytes \<Rightarrow> 'a::len word" where
  "of_be bs = of_le (rev bs)"

lemma length_le_bytes [simp]: "length (le_bytes n w) = n"
  by (simp add: le_bytes_def)

lemma length_be_bytes [simp]: "length (be_bytes n w) = n"
  by (simp add: be_bytes_def)

lemma bit_of_le:
  "bit (of_le bs :: 'a::len word) k \<longleftrightarrow>
     k < LENGTH('a) \<and> k div 8 < length bs \<and> bit (bs ! (k div 8)) (k mod 8)"
proof (induction bs arbitrary: k)
  case Nil
  then show ?case by simp
next
  case (Cons b bs)
  show ?case
  proof (cases "k < 8")
    case True
    then show ?thesis
      by (auto simp: bit_or_iff bit_push_bit_iff bit_ucast_iff)
  next
    case False
    then obtain j where j: "k = j + 8"
      by (metis add.commute le_Suc_ex not_less)
    have "\<not> bit b k"
      using False bit_imp_le_length [of b k] by auto
    moreover have "(j + 8) div 8 = Suc (j div 8)" by simp
    ultimately show ?thesis
      using j Cons.IH [of j] by (auto simp: bit_or_iff bit_push_bit_iff bit_ucast_iff)
  qed
qed

lemma of_le_le_bytes [simp]:
  assumes "LENGTH('a::len) \<le> 8 * n"
  shows "of_le (le_bytes n (w :: 'a word)) = w"
proof (rule bit_word_eqI)
  fix k assume k: "k < LENGTH('a)"
  have "k div 8 < n" using k assms by linarith
  moreover have "k mod 8 < 8" by simp
  ultimately show "bit (of_le (le_bytes n w) :: 'a word) k = bit w k"
    using k by (simp add: bit_of_le le_bytes_def bit_ucast_iff bit_drop_bit_eq)
qed

lemma of_be_be_bytes [simp]:
  "LENGTH('a::len) \<le> 8 * n \<Longrightarrow> of_be (be_bytes n (w :: 'a word)) = w"
  by (simp add: of_be_def be_bytes_def)

text \<open>The shift-and-or expressions of the code are these readers.\<close>

lemma of_be_4:
  "(of_be [a, b, c, d] :: u32) =
     push_bit 24 (ucast a) OR push_bit 16 (ucast b) OR push_bit 8 (ucast c) OR ucast d"
  by (rule bit_word_eqI) (auto simp: of_be_def bit_or_iff bit_push_bit_iff bit_ucast_iff)

lemma of_be_2: "(of_be [a, b] :: u16) = push_bit 8 (ucast a) OR ucast b"
  by (rule bit_word_eqI) (auto simp: of_be_def bit_or_iff bit_push_bit_iff bit_ucast_iff)

section \<open>Buffers\<close>

text \<open>
  \<open>memcpy\<close> into and out of a buffer. An access that leaves the buffer is undefined behaviour
  in C++; it is \<open>None\<close> here, so a run that yields \<open>Some\<close> made no such access.
\<close>

definition put_bytes :: "bytes \<Rightarrow> nat \<Rightarrow> bytes \<Rightarrow> bytes option" where
  "put_bytes dst at bs =
     (if at + length bs \<le> length dst
      then Some (take at dst @ bs @ drop (at + length bs) dst) else None)"

definition get_bytes :: "bytes \<Rightarrow> nat \<Rightarrow> nat \<Rightarrow> bytes option" where
  "get_bytes src at n = (if at + n \<le> length src then Some (take n (drop at src)) else None)"

lemma put_bytes_length: "put_bytes dst at bs = Some dst' \<Longrightarrow> length dst' = length dst"
  by (auto simp: put_bytes_def split: if_splits)

lemma put_bytes_append [mem_simps]:
  "length pre = at \<Longrightarrow> length bs \<le> length rest \<Longrightarrow>
     put_bytes (pre @ rest) at bs = Some (pre @ bs @ drop (length bs) rest)"
  by (simp add: put_bytes_def)

lemma get_bytes_Some [mem_simps]:
  "at + n \<le> length src \<Longrightarrow> get_bytes src at n = Some (take n (drop at src))"
  by (simp add: get_bytes_def)

lemma get_bytes_length: "get_bytes src at n = Some bs \<Longrightarrow> length bs = n"
  by (auto simp: get_bytes_def split: if_splits)

text \<open>A freshly allocated buffer holds indeterminate bytes, given by \<open>junk\<close>.\<close>

definition fresh_buffer :: "(nat \<Rightarrow> byte) \<Rightarrow> nat \<Rightarrow> bytes" where
  "fresh_buffer junk n = map junk [0..<n]"

lemma length_fresh_buffer [simp]: "length (fresh_buffer junk n) = n"
  by (simp add: fresh_buffer_def)

end
