(* ===== verification/Interfaces.thy ===== *)
theory Interfaces
  imports Prelude
begin

text \<open>
  The interfaces between the components, as locales: the operations a client calls, the laws
  their provider promises, and the client lemmas proved from the laws alone. Each locale is
  interpreted on the model of the code in the theory of the component that provides it.
\<close>

section \<open>Iterating a fallible operation\<close>

primrec foldM :: "('s \<Rightarrow> 'a \<Rightarrow> 's option) \<Rightarrow> 's \<Rightarrow> 'a list \<Rightarrow> 's option" where
  "foldM f s [] = Some s"
| "foldM f s (x # xs) = do { s \<leftarrow> f s x; foldM f s xs }"

primrec mapM :: "('s \<Rightarrow> 'a \<Rightarrow> ('s \<times> 'b) option) \<Rightarrow> 's \<Rightarrow> 'a list \<Rightarrow> ('s \<times> 'b list) option" where
  "mapM f s [] = Some (s, [])"
| "mapM f s (x # xs) =
     do { (s, y) \<leftarrow> f s x; (s, ys) \<leftarrow> mapM f s xs; Some (s, y # ys) }"

lemma foldM_append: "foldM f s (xs @ ys) = do { s \<leftarrow> foldM f s xs; foldM f s ys }"
  by (induction xs arbitrary: s) (auto split: bind_split)

section \<open>A byte stream written and read field by field\<close>

text \<open>
  \<open>written w d\<close>: the writer has laid down exactly the data \<open>d\<close>; \<open>fits d\<close>: the stream has
  room for \<open>d\<close>; \<open>unread r s\<close>: the data not yet read is \<open>s\<close>. The serialisers are sequences
  of \<open>put\<close> and the deserialisers sequences of \<open>get\<close>; the two lemmas are all they need to
  know of the codec underneath.
\<close>

locale byte_stream =
  fixes put :: "'w \<Rightarrow> bytes \<Rightarrow> 'w option"
    and get :: "'r \<Rightarrow> nat \<Rightarrow> ('r \<times> bytes) option"
    and written :: "'w \<Rightarrow> bytes \<Rightarrow> bool"
    and fits :: "bytes \<Rightarrow> bool"
    and unread :: "'r \<Rightarrow> bytes \<Rightarrow> bool"
  assumes put_law: "written w d \<Longrightarrow> fits (d @ f) \<Longrightarrow> \<exists>w'. put w f = Some w' \<and> written w' (d @ f)"
    and fits_prefix: "fits (d @ f) \<Longrightarrow> fits d"
    and get_law: "unread r (f @ s) \<Longrightarrow> \<exists>r'. get r (length f) = Some (r', f) \<and> unread r' s"
begin

lemma put_all:
  "written w d \<Longrightarrow> fits (d @ concat fs) \<Longrightarrow>
     \<exists>w'. foldM put w fs = Some w' \<and> written w' (d @ concat fs)"
proof (induction fs arbitrary: w d)
  case Nil
  then show ?case by simp
next
  case (Cons f fs)
  then have "fits (d @ f)"
    using fits_prefix [of "d @ f" "concat fs"] by simp
  then obtain w1 where w1: "put w f = Some w1" "written w1 (d @ f)"
    using put_law [OF Cons.prems(1)] by blast
  with Cons.IH [of w1 "d @ f"] Cons.prems(2) show ?case by auto
qed

lemma get_all:
  "unread r (concat fs @ s) \<Longrightarrow>
     \<exists>r'. mapM get r (map length fs) = Some (r', fs) \<and> unread r' s"
proof (induction fs arbitrary: r)
  case Nil
  then show ?case by simp
next
  case (Cons f fs)
  then obtain r1 where r1: "get r (length f) = Some (r1, f)" "unread r1 (concat fs @ s)"
    using get_law [of r f "concat fs @ s"] by auto
  with Cons.IH [of r1] show ?case by auto
qed

end

section \<open>Transition systems\<close>

text \<open>
  A system given by its initial states and its steps. An invariant is a property of the
  initial states that every step keeps; it then holds in every state a run reaches.
\<close>

inductive reach :: "('s \<Rightarrow> bool) \<Rightarrow> ('s \<Rightarrow> 's \<Rightarrow> bool) \<Rightarrow> 's \<Rightarrow> bool"
  for init step where
  reach_init: "init s \<Longrightarrow> reach init step s"
| reach_step: "reach init step s \<Longrightarrow> step s t \<Longrightarrow> reach init step t"

locale step_invariant =
  fixes init :: "'s \<Rightarrow> bool"
    and step :: "'s \<Rightarrow> 's \<Rightarrow> bool"
    and inv :: "'s \<Rightarrow> bool"
  assumes inv_init: "init s \<Longrightarrow> inv s"
    and inv_step: "inv s \<Longrightarrow> step s t \<Longrightarrow> inv t"
begin

lemma reach_inv: "reach init step s \<Longrightarrow> inv s"
  by (induction rule: reach.induct) (auto intro: inv_init inv_step)

end

end
