(* ===== verification/QueueContract.thy ===== *)
theory QueueContract
  imports Interfaces
begin

text \<open>
  The contract of a queue of received samples, which its clients rely on: it keeps the last
  samples pushed, up to its capacity, and gives them back in order.
\<close>

text \<open>
  \<open>inv n q\<close>: the queue is consistent and takes \<open>n\<close> more elements; \<open>content q\<close>: what it holds,
  oldest first. A push into a full queue drops the oldest element; \<open>got\<close> and \<open>waits\<close> are the two
  results of \<open>take_one\<close>.
\<close>

locale keep_last_queue =
  fixes inv :: "nat \<Rightarrow> 'q \<Rightarrow> bool"
    and content :: "'q \<Rightarrow> 'm list"
    and cap :: "'q \<Rightarrow> nat"
    and put_one :: "'m \<Rightarrow> 'q \<Rightarrow> 'q option"
    and take_one :: "'q \<Rightarrow> ('r \<times> 'q) option"
    and got :: "'m \<Rightarrow> 'r"
    and waits :: 'r
  assumes push_law: "inv (Suc n) q \<Longrightarrow> \<exists>q'. put_one m q = Some q' \<and> inv n q' \<and> cap q' = cap q \<and>
      content q' = drop (length (content q) + 1 - cap q) (content q @ [m])"
    and pop_law: "inv n q \<Longrightarrow> content q = m # ms \<Longrightarrow>
      \<exists>q'. take_one q = Some (got m, q') \<and> inv n q' \<and> cap q' = cap q \<and> content q' = ms"
    and wait_law: "inv n q \<Longrightarrow> content q = [] \<Longrightarrow> take_one q = Some (waits, q)"
    and bound_law: "inv n q \<Longrightarrow> length (content q) \<le> cap q"
begin

lemma push_all:
  "inv (length ms + n) q \<Longrightarrow> \<exists>q'. foldM (\<lambda>q m. put_one m q) q ms = Some q' \<and> inv n q' \<and> cap q' = cap q \<and>
     content q' = drop (length (content q) + length ms - cap q) (content q @ ms)"
proof (induction ms arbitrary: q)
  case Nil
  then show ?case using bound_law [of n q] by simp
next
  case (Cons m ms)
  let ?d = "length (content q) + 1 - cap q"
  obtain q1 where q1: "put_one m q = Some q1" "inv (length ms + n) q1" "cap q1 = cap q"
      "content q1 = drop ?d (content q @ [m])"
    using push_law [of "length ms + n" q m] Cons.prems by auto
  obtain q2 where q2: "foldM (\<lambda>q m. put_one m q) q1 ms = Some q2" "inv n q2" "cap q2 = cap q1"
      "content q2 = drop (length (content q1) + length ms - cap q1) (content q1 @ ms)"
    using Cons.IH [OF q1(2)] by blast
  have le: "length (content q) \<le> cap q" using bound_law Cons.prems by blast
  have "content q2 = drop (length (content q) + length (m # ms) - cap q) (content q @ m # ms)"
  proof (cases "length (content q) < cap q")
    case True
    then show ?thesis using q1(3,4) q2(4) by simp
  next
    case False
    then have l: "length (content q) = cap q" using le by simp
    show ?thesis
    proof (cases "content q")
      case Nil
      then show ?thesis using q1(3,4) q2(4) l by simp
    next
      case (Cons x xs)
      then show ?thesis using q1(3,4) q2(4) l by (simp flip: l)
    qed
  qed
  then show ?case using q1(1,3) q2(1-3) by simp
qed

lemma pop_all:
  "inv n q \<Longrightarrow> \<exists>q'. mapM (\<lambda>q _. map_option (\<lambda>(r, q). (q, r)) (take_one q)) q [0..<length (content q) + 1] =
     Some (q', map got (content q) @ [waits])"
proof -
  have "inv n q \<Longrightarrow> length ks = length (content q) + 1 \<Longrightarrow>
      \<exists>q'. mapM (\<lambda>q _. map_option (\<lambda>(r, q). (q, r)) (take_one q)) q ks = Some (q', map got (content q) @ [waits])"
    for ks :: "nat list"
  proof (induction ks arbitrary: q)
    case Nil
    then show ?case by simp
  next
    case (Cons k ks)
    show ?case
    proof (cases "content q")
      case Nil
      then show ?thesis using wait_law [OF Cons.prems(1) Nil] Cons.prems(2) by simp
    next
      case c: (Cons m ms)
      obtain q1 where q1: "take_one q = Some (got m, q1)" "inv n q1" "content q1 = ms"
        using pop_law [OF Cons.prems(1) c] by blast
      then show ?thesis using Cons.IH [OF q1(2)] Cons.prems(2) c by auto
    qed
  qed
  then show "inv n q \<Longrightarrow> ?thesis" by simp
qed

end

end
