(* ===== verification/MsgBase.thy ===== *)
theory MsgBase
  imports Interfaces
begin

text \<open>
  The page codec every TLV message is built on (\<open>IpcMsgBase\<close> in
  \<open>include/ipc_msg/ipc_msg_base/ipc_msg_base.hpp\<close>). A serialised message is a stream of data
  bytes cut into pages of 1460 bytes, each page followed by a 12-byte tail. The definitions
  follow the member functions; the lemmas show that the writer lays the stream out as
  \<open>frames\<close> describes, that the reader takes any field back out of it, and that neither leaves
  its buffer.
\<close>

section \<open>State and tail\<close>

text \<open>
  The members \<open>_total_size\<close>, \<open>_total_page_cnt\<close>, \<open>_deser_overflow\<close> and \<open>dz_ipc_msg_id\<close>.
\<close>

record msg_base =
  mb_total_size :: u32
  mb_page_cnt :: u16
  mb_overflow :: bool
  mb_msg_id :: u32

definition msg_base_init :: "u32 \<Rightarrow> msg_base" where
  "msg_base_init i =
     \<lparr>mb_total_size = 0, mb_page_cnt = 0, mb_overflow = False, mb_msg_id = i\<rparr>"

record tail_msg =
  tm_page_cnt :: u16
  tm_now_page :: u16
  tm_total_size :: u32
  tm_msg_id :: u32

text \<open>\<open>TAIL_MSG_SIZE\<close> and \<open>IPC_MSG_MAX_SIZE\<close>.\<close>

abbreviation (input) TAIL_MSG_SIZE :: nat where "TAIL_MSG_SIZE \<equiv> 12"
abbreviation (input) IPC_MSG_MAX_SIZE :: nat where "IPC_MSG_MAX_SIZE \<equiv> 1460"

definition check_id :: "bytes \<Rightarrow> u32 \<Rightarrow> bool" where
  "check_id data expected_id =
     (if length data < 12 then False
      else of_be (drop (length data - 4) data) = expected_id)"

text \<open>\<open>deserialize_ok\<close>.\<close>

definition deserialize_ok :: "msg_base \<Rightarrow> bool" where
  "deserialize_ok m = (\<not> mb_overflow m)"

definition correct_total_size :: "u32 \<Rightarrow> u16 \<times> u32" where
  "correct_total_size total_data_len =
     (let total_page = ucast (total_data_len div 1460) + (1 :: u16)
      in (total_page, total_data_len + ucast total_page * 12))"

text \<open>The twelve bytes \<open>add_tail_msg\<close> stores at its destination.\<close>

definition tail_bytes :: "msg_base \<Rightarrow> u16 \<Rightarrow> bytes" where
  "tail_bytes m page =
     be_bytes 2 (mb_page_cnt m) @ be_bytes 2 page @ be_bytes 4 (mb_total_size m)
     @ be_bytes 4 (mb_msg_id m)"

definition add_tail_msg :: "msg_base \<Rightarrow> bytes \<Rightarrow> nat \<Rightarrow> u16 \<Rightarrow> bytes option" where
  "add_tail_msg m dst at page = put_bytes dst at (tail_bytes m page)"

text \<open>\<open>get_tail_msg\<close>: a buffer of 1 to 11 bytes would be read before its start, which is \<open>None\<close>.\<close>

definition get_tail_msg :: "bytes \<Rightarrow> tail_msg option" where
  "get_tail_msg data =
     (if data = [] then Some \<lparr>tm_page_cnt = 0, tm_now_page = 0, tm_total_size = 0, tm_msg_id = 0\<rparr>
      else if length data < 12 then None
      else (let t = drop (length data - 12) data in
        Some \<lparr>tm_page_cnt = of_be (take 2 t), tm_now_page = of_be (take 2 (drop 2 t)),
              tm_total_size = of_be (take 4 (drop 4 t)), tm_msg_id = of_be (drop 8 t)\<rparr>))"

section \<open>Writing\<close>

text \<open>
  \<open>adapt_memcpy_tos\<close>: the data position is recomputed from the physical offset and the page
  number, the field is cut at the page boundaries it crosses, and a tail is written at each.
  \<open>tos_cuts\<close> is the \<open>for\<close> loop; its state is the buffer, the page, the physical offset, the
  data offset and the bytes of the field already copied.
\<close>

primrec tos_cuts ::
  "nat \<Rightarrow> msg_base \<Rightarrow> bytes \<Rightarrow> bytes \<Rightarrow> u16 \<Rightarrow> nat \<Rightarrow> nat \<Rightarrow> nat \<Rightarrow>
     (bytes \<times> u16 \<times> nat \<times> nat) option" where
  "tos_cuts 0 m src dst page offset pure has = Some (dst, page, offset, has)"
| "tos_cuts (Suc k) m src dst page offset pure has =
     (let copy = min (IPC_MSG_MAX_SIZE - pure mod IPC_MSG_MAX_SIZE) (sub32 (length src) has) in
      do {
        dst \<leftarrow> put_bytes dst offset (take copy (drop has src));
        dst \<leftarrow> add_tail_msg m dst (wrap32 (offset + copy)) (page + 1);
        tos_cuts k m src dst (page + 1) (wrap32 (wrap32 (offset + copy) + TAIL_MSG_SIZE))
          (wrap32 (pure + copy)) (wrap32 (has + copy))
      })"

definition tos_pure_offset :: "u16 \<Rightarrow> nat \<Rightarrow> nat" where
  "tos_pure_offset page offset = nat ((int offset - (uint page - 1) * 12) mod 2 ^ 32)"

definition adapt_memcpy_tos ::
  "msg_base \<Rightarrow> bytes \<Rightarrow> bytes \<Rightarrow> u16 \<Rightarrow> nat \<Rightarrow> (bytes \<times> u16 \<times> nat) option" where
  "adapt_memcpy_tos m dst src page offset =
     (let pure = tos_pure_offset page offset;
          cut_cnt = sub32 (wrap32 (pure + length src) div IPC_MSG_MAX_SIZE)
                          (pure div IPC_MSG_MAX_SIZE) in
      do {
        (dst, page, offset, has) \<leftarrow> tos_cuts cut_cnt m src dst page offset pure 0;
        let remaining_size = sub32 (length src) has;
        if 0 < remaining_size
        then do {
          dst \<leftarrow> put_bytes dst offset (take remaining_size (drop has src));
          Some (dst, page, wrap32 (offset + remaining_size))
        }
        else Some (dst, page, offset)
      })"

definition serialize_data_cut :: "(nat \<Rightarrow> byte) \<Rightarrow> msg_base \<Rightarrow> u32 \<Rightarrow> msg_base \<times> bytes" where
  "serialize_data_cut junk m total_data_len =
     (let (page_cnt, total_size) = correct_total_size total_data_len
      in (m\<lparr>mb_total_size := total_size, mb_page_cnt := page_cnt\<rparr>,
          fresh_buffer junk (unat total_size)))"

section \<open>Reading\<close>

definition tods_in_range :: "msg_base \<Rightarrow> nat \<Rightarrow> nat \<Rightarrow> bool" where
  "tods_in_range m at len =
     (at \<le> unat (mb_total_size m) \<and> len \<le> unat (mb_total_size m) - at)"

definition tods_count_ok :: "msg_base \<Rightarrow> nat \<Rightarrow> int \<Rightarrow> nat \<Rightarrow> msg_base \<times> bool" where
  "tods_count_ok m at count min_elem_size =
     (if count < 0 then (m\<lparr>mb_overflow := True\<rparr>, False)
      else (let need = (nat count * (if min_elem_size = 0 then 1 else min_elem_size)) mod 2 ^ 64 in
        if 0xFFFFFFFF < need \<or> \<not> tods_in_range m at need
        then (m\<lparr>mb_overflow := True\<rparr>, False) else (m, True)))"

text \<open>
  \<open>adapt_memcpy_tods\<close>: the loop \<open>tods_cuts\<close> and the remaining part. The result is the state
  (the overflow flag), the bytes the destination holds afterwards and the new offset. An
  out-of-range part of the field is not read: the flag is set and the rest is zeroed.
\<close>

primrec tods_cuts ::
  "nat \<Rightarrow> msg_base \<Rightarrow> bytes \<Rightarrow> nat \<Rightarrow> bytes \<Rightarrow> nat \<Rightarrow> nat \<Rightarrow> nat \<Rightarrow>
     (msg_base \<times> bytes \<times> nat) option" where
  "tods_cuts 0 m src len dst offset pure has =
     (let remaining_size = sub32 len has in
      if 0 < remaining_size then
        (if \<not> tods_in_range m offset remaining_size
         then Some (m\<lparr>mb_overflow := True\<rparr>, dst @ replicate remaining_size 0, offset)
         else do {
           bs \<leftarrow> get_bytes src offset remaining_size;
           Some (m, dst @ bs, wrap32 (offset + remaining_size))
         })
      else Some (m, dst, offset))"
| "tods_cuts (Suc k) m src len dst offset pure has =
     (let copy = min (IPC_MSG_MAX_SIZE - pure mod IPC_MSG_MAX_SIZE) (sub32 len has) in
      if \<not> tods_in_range m offset copy
      then Some (m\<lparr>mb_overflow := True\<rparr>, dst @ replicate (sub32 len has) 0, offset)
      else do {
        bs \<leftarrow> get_bytes src offset copy;
        tods_cuts k m src len (dst @ bs) (wrap32 (offset + copy + TAIL_MSG_SIZE))
          (wrap32 (pure + copy)) (wrap32 (has + copy))
      })"

definition to_pure_offset :: "nat \<Rightarrow> nat" where
  "to_pure_offset physical_offset =
     (let passed_tails = physical_offset div (IPC_MSG_MAX_SIZE + TAIL_MSG_SIZE)
      in sub32 physical_offset (wrap32 (passed_tails * TAIL_MSG_SIZE)))"

definition adapt_memcpy_tods ::
  "msg_base \<Rightarrow> bool \<Rightarrow> bytes option \<Rightarrow> nat \<Rightarrow> nat \<Rightarrow> (msg_base \<times> bytes \<times> nat) option" where
  "adapt_memcpy_tods m dst_null src offset len =
     (if dst_null then Some (m\<lparr>mb_overflow := True\<rparr>, [], offset)
      else (case src of
        None \<Rightarrow> Some (m\<lparr>mb_overflow := True\<rparr>, replicate len 0, offset)
      | Some src \<Rightarrow>
          (let pure = to_pure_offset offset;
               cut_cnt = sub32 (wrap32 (pure + len) div IPC_MSG_MAX_SIZE)
                               (pure div IPC_MSG_MAX_SIZE)
           in tods_cuts cut_cnt m src len [] offset pure 0)))"

definition deserialize_data_cut :: "msg_base \<Rightarrow> u32 \<Rightarrow> msg_base" where
  "deserialize_data_cut m total_data_len =
     m\<lparr>mb_overflow := False, mb_total_size := total_data_len,
       mb_page_cnt := ucast (total_data_len div 1472) + 1\<rparr>"

definition region_is_contiguous :: "nat \<Rightarrow> nat \<Rightarrow> bool" where
  "region_is_contiguous physical_offset len =
     (wrap32 (to_pure_offset physical_offset mod IPC_MSG_MAX_SIZE + len) < IPC_MSG_MAX_SIZE)"

section \<open>The framed stream\<close>

text \<open>
  The layout the writer produces: \<open>frames m page d\<close> is the data \<open>d\<close> with a tail after every
  full page, numbered from \<open>page + 1\<close>; \<open>phys p\<close> is the physical position of data byte \<open>p\<close>.
\<close>

definition phys :: "nat \<Rightarrow> nat" where
  "phys p = p + TAIL_MSG_SIZE * (p div IPC_MSG_MAX_SIZE)"

function frames :: "msg_base \<Rightarrow> u16 \<Rightarrow> bytes \<Rightarrow> bytes" where
  "frames m page d =
     (if length d < IPC_MSG_MAX_SIZE then d
      else take IPC_MSG_MAX_SIZE d @ tail_bytes m (page + 1)
           @ frames m (page + 1) (drop IPC_MSG_MAX_SIZE d))"
  by pat_completeness auto
termination by (relation "measure (\<lambda>(m, page, d). length d)") auto

declare frames.simps [simp del]

definition page_after :: "nat \<Rightarrow> u16" where
  "page_after n = 1 + of_nat (n div IPC_MSG_MAX_SIZE)"

lemma length_tail_bytes [simp]: "length (tail_bytes m page) = 12"
  by (simp add: tail_bytes_def)

lemma frames_short: "length d < 1460 \<Longrightarrow> frames m page d = d"
  by (simp add: frames.simps [of m page d])

lemma frames_long:
  "1460 \<le> length d \<Longrightarrow>
     frames m page d =
       take 1460 d @ tail_bytes m (page + 1) @ frames m (page + 1) (drop 1460 d)"
  by (simp add: frames.simps [of m page d])

lemma frames_Nil [simp]: "frames m page [] = []"
  by (simp add: frames_short)

lemma page_drop_mod: "1460 \<le> (n :: nat) \<Longrightarrow> (n - 1460) mod 1460 = n mod 1460"
  by (simp add: le_mod_geq)

lemma page_drop_div: "1460 \<le> (n :: nat) \<Longrightarrow> n div 1460 = Suc ((n - 1460) div 1460)"
  by (simp add: le_div_geq)

lemma phys_drop: "1460 \<le> n \<Longrightarrow> phys n = 1472 + phys (n - 1460)"
  by (simp add: phys_def page_drop_div)

lemma phys_mono: "a \<le> b \<Longrightarrow> phys a \<le> phys b"
  by (simp add: phys_def add_mono div_le_mono)

lemma phys_0 [simp]: "phys 0 = 0"
  by (simp add: phys_def)

lemma length_frames [simp]: "length (frames m page d) = phys (length d)"
proof (induction m page d rule: frames.induct)
  case (1 m page d)
  show ?case
  proof (cases "length d < 1460")
    case True
    then show ?thesis by (simp add: frames_short phys_def)
  next
    case False
    with 1 show ?thesis by (simp add: frames_long phys_drop [of "length d"])
  qed
qed

lemma frames_append_inside:
  "length d mod 1460 + length s < 1460 \<Longrightarrow> frames m page (d @ s) = frames m page d @ s"
proof (induction m page d rule: frames.induct)
  case (1 m page d)
  show ?case
  proof (cases "length d < 1460")
    case True
    with "1.prems" show ?thesis by (simp add: frames_short)
  next
    case False
    with 1 show ?thesis by (simp add: frames_long page_drop_mod)
  qed
qed

lemma frames_append_fill:
  "length d mod 1460 + length s = 1460 \<Longrightarrow>
     frames m page (d @ s) =
       frames m page d @ s @ tail_bytes m (page + 1 + of_nat (length d div 1460))"
proof (induction m page d rule: frames.induct)
  case (1 m page d)
  show ?case
  proof (cases "length d < 1460")
    case True
    with "1.prems" show ?thesis by (simp add: frames_long frames_short)
  next
    case False
    then have "frames m (page + 1) (drop 1460 d @ s) =
        frames m (page + 1) (drop 1460 d) @ s @ tail_bytes m (page + 1 + 1 + of_nat (length (drop 1460 d) div 1460))"
      using 1 by (simp add: page_drop_mod)
    with False show ?thesis
      by (simp add: frames_long page_drop_div [of "length d"] add_ac)
  qed
qed

lemma take_drop_prefix:
  "p + n \<le> k \<Longrightarrow> k \<le> length d \<Longrightarrow> take n (drop p (take k d @ x)) = take n (drop p d)"
  by (simp add: take_drop min_def del: drop_append)

text \<open>A field that does not cross a page end is contiguous in the stream.\<close>

lemma frames_take_drop:
  "p mod 1460 + n \<le> 1460 \<Longrightarrow> p + n \<le> length d \<Longrightarrow>
     take n (drop (phys p) (frames m page d @ rest)) = take n (drop p d)"
proof (induction m page d arbitrary: p rule: frames.induct)
  case (1 m page d)
  show ?case
  proof (cases "length d < 1460")
    case True
    with "1.prems" have "p < 1460 \<or> n = 0" by simp
    with True "1.prems" show ?thesis by (auto simp: frames_short phys_def)
  next
    case long: False
    show ?thesis
    proof (cases "p < 1460")
      case True
      then have "phys p = p" by (simp add: phys_def)
      with long True "1.prems" show ?thesis
        by (simp add: frames_long take_drop_prefix del: drop_append take_append)
    next
      case False
      then have "take n (drop (phys (p - 1460)) (frames m (page + 1) (drop 1460 d) @ rest)) =
          take n (drop (p - 1460) (drop 1460 d))"
        using long "1.prems" by (intro "1.IH") (auto simp: page_drop_mod)
      with False long show ?thesis
        by (simp add: frames_long phys_drop [of p])
    qed
  qed
qed

section \<open>What the writer produces\<close>

text \<open>
  \<open>max_payload\<close> is the number of data bytes below which the 16-bit page number cannot wrap:
  65535 pages of 1460 bytes.
\<close>

definition max_payload :: nat where "max_payload = 65535 * 1460"

lemma phys_inside: "a mod 1460 + c < 1460 \<Longrightarrow> phys (a + c) = phys a + c"
  by (simp add: phys_def div_inside)

lemma phys_fill: "a mod 1460 + c = 1460 \<Longrightarrow> phys (a + c) = phys a + c + 12"
  by (simp add: phys_def div_fill)

lemma phys_bound: "n < max_payload \<Longrightarrow> phys n < 2 ^ 30"
  using div_le_dividend [of n 1460] by (simp add: phys_def max_payload_def)

lemma max_payload_small: "n < max_payload \<Longrightarrow> n < 2 ^ 30"
  by (simp add: max_payload_def)

lemma page_after_fill:
  "a mod 1460 + c = 1460 \<Longrightarrow> page_after (a + c) = page_after a + 1"
  by (simp add: page_after_def div_fill)

lemma frames_append_fill_page:
  "length d mod 1460 + length s = 1460 \<Longrightarrow>
     frames m 1 (d @ s) = frames m 1 d @ s @ tail_bytes m (page_after (length d) + 1)"
  by (simp add: frames_append_fill page_after_def add_ac)

text \<open>One turn of the loop: a part that fills the current page, and its tail.\<close>

lemma tos_cuts_step:
  assumes fill: "length d mod 1460 + c = 1460" and c: "c \<le> length src - has" "has \<le> length src"
    and small: "phys (length d + c) < 2 ^ 30" "length src < 2 ^ 30"
    and room: "c + 12 \<le> length rest"
  shows "tos_cuts (Suc k) m src (frames m 1 d @ rest) (page_after (length d))
      (phys (length d)) (length d) has =
    tos_cuts k m src (frames m 1 (d @ take c (drop has src)) @ drop (c + 12) rest)
      (page_after (length d + c)) (phys (length d + c)) (length d + c) (has + c)"
proof -
  let ?s = "take c (drop has src)"
  have ls: "length ?s = c" using c by simp
  have "length d mod 1460 < 1460" by simp
  then have copy: "min (1460 - length d mod 1460) (sub32 (length src) has) = c"
    using fill c small(2) by (simp add: wrap_simps)
  have pf: "phys (length d + c) = phys (length d) + c + 12" by (rule phys_fill [OF fill])
  have le: "length d + c \<le> phys (length d + c)" by (simp add: phys_def)
  have p1: "put_bytes (frames m 1 d @ rest) (phys (length d)) ?s =
      Some ((frames m 1 d @ ?s) @ drop c rest)"
    using ls room by (simp add: mem_simps)
  have w: "wrap32 (phys (length d) + c) = phys (length d) + c"
    using pf small by (simp add: wrap_simps)
  have p2: "add_tail_msg m ((frames m 1 d @ ?s) @ drop c rest) (phys (length d) + c)
        (page_after (length d) + 1) =
      Some (frames m 1 (d @ ?s) @ drop (c + 12) rest)"
    using put_bytes_append [of "frames m 1 d @ ?s" "phys (length d) + c"
        "tail_bytes m (page_after (length d) + 1)" "drop c rest"] ls room fill
    by (simp add: add_tail_msg_def frames_append_fill_page add.commute)
  show ?thesis
    using small pf le c
    unfolding tos_cuts.simps copy Let_def
    by (simp add: p1 p2 [unfolded append_assoc] w page_after_fill [OF fill] wrap_simps)
qed

lemma tos_cuts_frames:
  assumes "has \<le> length src" and "length d + (length src - has) < max_payload" "length src < 2 ^ 30"
    and "phys (length d + (length src - has)) \<le> phys (length d) + length rest"
    and "k = (length d + (length src - has)) div 1460 - length d div 1460"
  shows "\<exists>c. tos_cuts k m src (frames m 1 d @ rest) (page_after (length d)) (phys (length d))
        (length d) has =
      Some (frames m 1 (d @ take c (drop has src)) @ drop (phys (length d + c) - phys (length d)) rest,
            page_after (length d + c), phys (length d + c), has + c) \<and>
      has + c \<le> length src \<and>
      (length d + c) div 1460 = (length d + (length src - has)) div 1460"
  using assms
proof (induction k arbitrary: d has rest)
  case 0
  have "length d div 1460 = (length d + (length src - has)) div 1460"
    using "0.prems"(5) div_le_mono [of "length d" "length d + (length src - has)" 1460] by simp
  with "0.prems" show ?case by (intro exI [of _ 0]) simp
next
  case (Suc k)
  let ?N = "length d + (length src - has)"
  define c where "c = 1460 - length d mod 1460"
  have fill: "length d mod 1460 + c = 1460" unfolding c_def by simp
  have cs: "c \<le> length src - has"
    using Suc.prems(5) div_crosses [of "length d" 1460 "length src - has"] unfolding c_def by simp
  let ?d = "d @ take c (drop has src)"
  have ld: "length ?d = length d + c" using cs by simp
  have pf: "phys (length d + c) = phys (length d) + c + 12" by (rule phys_fill [OF fill])
  have pl: "phys (length d + c) \<le> phys ?N" by (rule phys_mono) (use cs in simp)
  have lt: "phys ?N < 2 ^ 30" by (rule phys_bound [OF Suc.prems(2)])
  have N: "length d + c + (length src - (has + c)) = ?N" using cs by simp
  have kk: "k = ?N div 1460 - (length d + c) div 1460"
    using Suc.prems(5) div_fill [OF fill] by linarith
  have room: "c + 12 \<le> length rest" using pf pl Suc.prems(4) by simp
  have hc: "has + c \<le> length src" using cs Suc.prems(1) by simp
  have rm: "phys ?N \<le> phys (length d + c) + length (drop (c + 12) rest)"
    using Suc.prems(4) room pf by simp
  note IH = Suc.IH [of "has + c" ?d "drop (c + 12) rest", unfolded ld N]
  obtain c' where IH: "tos_cuts k m src (frames m 1 ?d @ drop (c + 12) rest)
        (page_after (length d + c)) (phys (length d + c)) (length d + c) (has + c) =
      Some (frames m 1 (?d @ take c' (drop (has + c) src))
          @ drop (phys (length d + c + c') - phys (length d + c)) (drop (c + 12) rest),
        page_after (length d + c + c'), phys (length d + c + c'), has + c + c')"
      "has + c + c' \<le> length src" "(length d + c + c') div 1460 = ?N div 1460"
    using IH [OF hc Suc.prems(2,3) rm kk] by blast
  have "phys (length d + c) \<le> phys (length d + c + c')" by (rule phys_mono) simp
  then have ar: "phys (length d + c + c') - phys (length d + c) + c + 12 =
      phys (length d + c + c') - phys (length d)"
    using pf by simp
  have tk: "?d @ take c' (drop (has + c) src) = d @ take (c + c') (drop has src)"
    by (simp add: take_add add.commute [of has c])
  show ?case
    using IH(2,3) tos_cuts_step [OF fill cs Suc.prems(1) le_less_trans [OF pl lt] Suc.prems(3) room, of k m]
    by (intro exI [of _ "c + c'"]) (simp add: IH(1) ar tk [symmetric] add.assoc [symmetric])
qed


lemma unat_of_nat_u16: "n < 65536 \<Longrightarrow> unat (of_nat n :: u16) = n"
  by (simp add: unat_of_nat)

lemma uint_page_after:
  "n < max_payload \<Longrightarrow> uint (page_after n) = 1 + int (n div 1460)"
proof -
  assume "n < max_payload"
  then have "1 + n div 1460 < 65536" by (simp add: max_payload_def div_less_iff_less_mult)
  then have "unat (page_after n) = 1 + n div 1460"
    unfolding page_after_def by (metis of_nat_1 of_nat_add unat_of_nat_u16)
  then show ?thesis by (metis of_nat_1 of_nat_add uint_nat)
qed

lemma tos_pure_offset_page_after:
  assumes "n < max_payload"
  shows "tos_pure_offset (page_after n) (phys n) = n"
proof -
  have "int (phys n) - (uint (page_after n) - 1) * 12 = int n"
    using uint_page_after [OF assms] by (simp add: phys_def)
  then show ?thesis
    using max_payload_small [OF assms] by (simp add: tos_pure_offset_def)
qed

text \<open>Writing a field extends the framed stream by its bytes.\<close>

lemma adapt_memcpy_tos_frames:
  assumes "length d + length src < max_payload"
    and "phys (length d + length src) \<le> phys (length d) + length rest"
  shows "adapt_memcpy_tos m (frames m 1 d @ rest) src (page_after (length d)) (phys (length d)) =
    Some (frames m 1 (d @ src) @ drop (phys (length d + length src) - phys (length d)) rest,
          page_after (length d + length src), phys (length d + length src))"
proof -
  let ?N = "length d + length src"
  have small: "?N < 2 ^ 30" by (rule max_payload_small [OF assms(1)])
  have ps: "phys ?N < 2 ^ 30" by (rule phys_bound [OF assms(1)])
  have pure: "tos_pure_offset (page_after (length d)) (phys (length d)) = length d"
    by (rule tos_pure_offset_page_after) (use assms(1) in simp)
  have le: "length d div 1460 \<le> ?N div 1460" by (rule div_le_mono) simp
  have "?N div 1460 < 2 ^ 32" by (rule le_less_trans [OF div_le_dividend]) (use small in simp)
  then have cut: "sub32 (wrap32 ?N div 1460) (length d div 1460) = ?N div 1460 - length d div 1460"
    using small le by (simp add: wrap_simps)
  obtain c where cuts: "tos_cuts (?N div 1460 - length d div 1460) m src (frames m 1 d @ rest)
        (page_after (length d)) (phys (length d)) (length d) 0 =
      Some (frames m 1 (d @ take c src) @ drop (phys (length d + c) - phys (length d)) rest,
            page_after (length d + c), phys (length d + c), c)"
    and c: "c \<le> length src" and dv: "(length d + c) div 1460 = ?N div 1460"
    using tos_cuts_frames [of 0 src d rest "?N div 1460 - length d div 1460" m] assms small by auto
  have st: "(length d + c) mod 1460 + (length src - c) < 1460"
    by (rule div_stays) (use c dv in simp_all)
  have pN: "phys ?N = phys (length d + c) + (length src - c)"
    using phys_inside [OF st] c by simp
  have pg: "page_after ?N = page_after (length d + c)"
    using dv by (simp add: page_after_def)
  have mono: "phys (length d) \<le> phys (length d + c)" by (rule phys_mono) simp
  have fr: "frames m 1 (d @ src) = frames m 1 (d @ take c src) @ drop c src"
    using frames_append_inside [of "d @ take c src" "drop c src" m 1] st c by simp
  show ?thesis
  proof (cases "c = length src")
    case True
    with cuts show ?thesis
      by (simp add: adapt_memcpy_tos_def Let_def pure cut)
  next
    case False
    then have rem: "sub32 (length src) c = length src - c" "0 < length src - c"
      using c small by (simp_all add: wrap_simps)
    have "put_bytes (frames m 1 (d @ take c src)
          @ drop (phys (length d + c) - phys (length d)) rest) (phys (length d + c)) (drop c src) =
        Some (frames m 1 (d @ src) @ drop (phys ?N - phys (length d)) rest)"
      using c pN mono assms(2) by (simp add: put_bytes_append fr ac_simps)
    with rem cuts pN ps show ?thesis
      by (simp add: adapt_memcpy_tos_def Let_def pure cut pg wrap_simps)
  qed
qed

section \<open>What the reader returns\<close>

lemma phys_decomp: "phys p = 1472 * (p div 1460) + p mod 1460"
proof -
  have "1460 * (p div 1460) + p mod 1460 = p" by simp
  then show ?thesis unfolding phys_def by linarith
qed

lemma to_pure_offset_phys: "phys p < 2 ^ 32 \<Longrightarrow> to_pure_offset (phys p) = p"
proof -
  assume b: "phys p < 2 ^ 32"
  have q: "phys p div 1472 = p div 1460"
    unfolding phys_decomp by (simp add: div_mult_self4 mod_less [symmetric] less_trans [OF mod_less_divisor])
  have "12 * (p div 1460) \<le> phys p" by (simp add: phys_def)
  with b show ?thesis
    by (simp add: to_pure_offset_def q wrap_simps mult.commute) (simp add: phys_def)
qed

lemma tods_cuts_frames:
  assumes "has \<le> len" and "p + (len - has) \<le> length d" and "length d < max_payload" and "len < 2 ^ 30"
    and "phys (length d) \<le> unat (mb_total_size m)"
    and "k = (p + (len - has)) div 1460 - p div 1460"
  shows "tods_cuts k m (frames mm pg d @ rest) len acc (phys p) p has =
    Some (m, acc @ take (len - has) (drop p d), phys (p + (len - has)))"
  using assms
proof (induction k arbitrary: has p acc)
  case 0
  let ?r = "len - has"
  have dv: "p div 1460 = (p + ?r) div 1460"
    using "0.prems"(6) div_le_mono [of p "p + ?r" 1460] by simp
  have st: "p mod 1460 + ?r < 1460" by (rule div_stays [OF dv]) simp
  have pr: "phys (p + ?r) = phys p + ?r" by (rule phys_inside [OF st])
  have le: "phys (p + ?r) \<le> phys (length d)" by (rule phys_mono [OF "0.prems"(2)])
  have lt: "phys (length d) < 2 ^ 30" by (rule phys_bound [OF "0.prems"(3)])
  have sr: "sub32 len has = ?r" using "0.prems"(1,4) by (simp add: wrap_simps)
  have g: "get_bytes (frames mm pg d @ rest) (phys p) ?r = Some (take ?r (drop p d))"
    using le pr frames_take_drop [of p ?r d mm pg rest] st "0.prems"(2)
    by (simp add: get_bytes_def del: drop_append take_append)
  have w: "wrap32 (phys p + ?r) = phys (p + ?r)" using pr le lt by (simp add: wrap_simps)
  show ?case
  proof (cases "?r = 0")
    case True
    then show ?thesis using "0.prems"(1) by (simp add: Let_def)
  next
    case False
    moreover have "tods_in_range m (phys p) ?r"
      using pr le "0.prems"(5) by (simp add: tods_in_range_def)
    ultimately show ?thesis by (simp only: tods_cuts.simps Let_def sr g w bind.simps) simp
  qed
next
  case (Suc k)
  let ?r = "len - has"
  define c where "c = 1460 - p mod 1460"
  have fill: "p mod 1460 + c = 1460" unfolding c_def by simp
  have cr: "c \<le> ?r"
    using Suc.prems(6) div_crosses [of p 1460 ?r] unfolding c_def by simp
  have sr: "sub32 len has = ?r" using Suc.prems(1,4) by (simp add: wrap_simps)
  have cm: "min (1460 - p mod 1460) (sub32 len has) = c" using cr unfolding sr c_def by simp
  have pf: "phys (p + c) = phys p + c + 12" by (rule phys_fill [OF fill])
  have le: "phys (p + c) \<le> phys (length d)" by (rule phys_mono) (use cr Suc.prems(2) in simp)
  have lt: "phys (length d) < 2 ^ 30" by (rule phys_bound [OF Suc.prems(3)])
  have g: "get_bytes (frames mm pg d @ rest) (phys p) c = Some (take c (drop p d))"
    using le pf frames_take_drop [of p c d mm pg rest] fill cr Suc.prems(2)
    by (simp add: get_bytes_def del: drop_append take_append)
  have rng: "tods_in_range m (phys p) c"
    using pf le Suc.prems(5) by (simp add: tods_in_range_def)
  have pd: "p \<le> phys p" by (simp add: phys_def)
  have w: "wrap32 (phys p + c + 12) = phys (p + c)" "wrap32 (p + c) = p + c" "wrap32 (has + c) = has + c"
    using pf le lt pd cr Suc.prems(1,4) by (simp_all add: wrap_simps)
  have hc: "has + c \<le> len" using cr Suc.prems(1) by simp
  have nx: "p + c + (len - (has + c)) = p + ?r" using cr by simp
  have kk: "k = (p + ?r) div 1460 - (p + c) div 1460"
    using Suc.prems(6) div_fill [OF fill] by linarith
  have "tods_cuts k m (frames mm pg d @ rest) len (acc @ take c (drop p d)) (phys (p + c)) (p + c) (has + c) =
      Some (m, (acc @ take c (drop p d)) @ take (len - (has + c)) (drop (p + c) d), phys (p + ?r))"
    by (rule Suc.IH [of "has + c" "p + c", unfolded nx, OF hc Suc.prems(2-5) kk])
  moreover have "take ?r (drop p d) = take c (drop p d) @ take (len - (has + c)) (drop (p + c) d)"
    using take_add [of c "len - (has + c)" "drop p d"] cr hc by (simp add: add.commute [of p c])
  ultimately show ?case
    unfolding tods_cuts.simps cm Let_def by (simp add: rng g w)
qed

text \<open>Reading a field of the framed stream yields its bytes and moves past them.\<close>

lemma adapt_memcpy_tods_frames:
  assumes "p + len \<le> length d" and "length d < max_payload"
    and "phys (length d) \<le> unat (mb_total_size m)"
  shows "adapt_memcpy_tods m False (Some (frames mm pg d @ rest)) (phys p) len =
    Some (m, take len (drop p d), phys (p + len))"
proof -
  have small: "length d < 2 ^ 30" by (rule max_payload_small [OF assms(2)])
  have ps: "phys p < 2 ^ 32"
    using phys_mono [of p "length d"] phys_bound [OF assms(2)] assms(1) by simp
  have le: "p div 1460 \<le> (p + len) div 1460" by (rule div_le_mono) simp
  have "(p + len) div 1460 < 2 ^ 32"
    by (rule le_less_trans [OF div_le_dividend]) (use small assms(1) in simp)
  then have cut: "sub32 (wrap32 (p + len) div 1460) (p div 1460) = (p + len) div 1460 - p div 1460"
    using small assms(1) le by (simp add: wrap_simps)
  show ?thesis
    using tods_cuts_frames [of 0 len p d m "(p + len) div 1460 - p div 1460" mm pg rest "[]"] assms small
    by (simp add: adapt_memcpy_tods_def to_pure_offset_phys [OF ps] cut)
qed

section \<open>Memory safety of the reader\<close>

lemma tods_cuts_safe:
  "unat (mb_total_size m) \<le> length src \<Longrightarrow>
     \<exists>r. tods_cuts k m src len acc offset pure has = Some r"
proof (induction k arbitrary: acc offset pure has)
  case 0
  then show ?case by (auto simp: Let_def tods_in_range_def get_bytes_def)
next
  case (Suc k)
  then show ?case by (auto simp: Let_def tods_in_range_def get_bytes_def)
qed

lemma adapt_memcpy_tods_safe:
  "unat (mb_total_size m) \<le> length src \<Longrightarrow>
     \<exists>r. adapt_memcpy_tods m dst_null (Some src) offset len = Some r"
  using tods_cuts_safe by (simp add: adapt_memcpy_tods_def Let_def)

lemma tods_cuts_total:
  "tods_cuts k m src len acc offset pure has = Some (m', bs, offset') \<Longrightarrow>
     mb_total_size m' = mb_total_size m \<and> mb_msg_id m' = mb_msg_id m \<and> (mb_overflow m \<longrightarrow> mb_overflow m')"
proof (induction k arbitrary: acc offset pure has)
  case 0
  then show ?case by (auto simp: Let_def split: if_splits bind_splits)
next
  case (Suc k)
  then show ?case by (auto simp: Let_def split: if_splits bind_splits)
qed

lemma adapt_memcpy_tods_total:
  "adapt_memcpy_tods m dn src offset len = Some (m', bs, offset') \<Longrightarrow>
     mb_total_size m' = mb_total_size m \<and> mb_msg_id m' = mb_msg_id m \<and> (mb_overflow m \<longrightarrow> mb_overflow m')"
  by (auto simp: adapt_memcpy_tods_def Let_def split: if_splits option.splits dest: tods_cuts_total)

lemma tods_cuts_length:
  "tods_cuts k m src len acc offset pure has = Some (m', bs, offset') \<Longrightarrow>
     length acc = has \<Longrightarrow> has \<le> len \<Longrightarrow> len < 2 ^ 32 \<Longrightarrow> length bs = len"
proof (induction k arbitrary: acc offset pure has)
  case 0
  then show ?case
    by (auto simp: Let_def wrap_simps split: if_splits bind_splits dest: get_bytes_length)
next
  case (Suc k)
  then show ?case
    by (auto simp: Let_def wrap_simps split: if_splits bind_splits dest!: get_bytes_length)
qed

text \<open>A destination is always filled completely, with zeros after an overflow.\<close>

lemma adapt_memcpy_tods_length:
  "adapt_memcpy_tods m False src offset len = Some (m', bs, offset') \<Longrightarrow> len < 2 ^ 32 \<Longrightarrow>
     length bs = len"
  by (auto simp: adapt_memcpy_tods_def Let_def split: option.splits dest: tods_cuts_length)


section \<open>A message as a sequence of fields\<close>

text \<open>
  The shape shared by the hand-written and the generated \<open>serialize\<close> functions: compute the
  size, cut, copy the fields one after the other and close the last page; and of their
  \<open>deserialize\<close> functions: copy the fields out one after the other. The writer state is the
  triple of the buffer, the page and the offset; the reader state the base object and the
  offset.
\<close>

definition put_field :: "msg_base \<Rightarrow> bytes \<times> u16 \<times> nat \<Rightarrow> bytes \<Rightarrow> (bytes \<times> u16 \<times> nat) option" where
  "put_field m w f = (case w of (dst, page, offset) \<Rightarrow> adapt_memcpy_tos m dst f page offset)"

definition get_field :: "bytes option \<Rightarrow> msg_base \<times> nat \<Rightarrow> nat \<Rightarrow> ((msg_base \<times> nat) \<times> bytes) option" where
  "get_field src r n =
     (case r of (m, offset) \<Rightarrow>
       do { (m, bs, offset) \<leftarrow> adapt_memcpy_tods m False src offset n; Some ((m, offset), bs) })"

definition serialize_fields ::
  "(nat \<Rightarrow> byte) \<Rightarrow> msg_base \<Rightarrow> u32 \<Rightarrow> bytes list \<Rightarrow> (msg_base \<times> bytes) option" where
  "serialize_fields junk m n fs =
     (let (m, data) = serialize_data_cut junk m n in
      do {
        (data, page, offset) \<leftarrow> foldM (put_field m) (data, 1, 0) fs;
        data \<leftarrow> add_tail_msg m data offset page;
        Some (m, data)
      })"

definition stream_written :: "msg_base \<Rightarrow> nat \<Rightarrow> bytes \<times> u16 \<times> nat \<Rightarrow> bytes \<Rightarrow> bool" where
  "stream_written m cap w d \<longleftrightarrow>
     (\<exists>rest. w = (frames m 1 d @ rest, page_after (length d), phys (length d)) \<and>
             phys (length d) + length rest = cap)"

definition stream_fits :: "nat \<Rightarrow> bytes \<Rightarrow> bool" where
  "stream_fits cap d \<longleftrightarrow> length d < max_payload \<and> phys (length d) \<le> cap"

definition stream_unread :: "msg_base \<Rightarrow> bytes \<Rightarrow> msg_base \<Rightarrow> msg_base \<times> nat \<Rightarrow> bytes \<Rightarrow> bool" where
  "stream_unread mm d m r s \<longleftrightarrow>
     (\<exists>p. r = (m, phys p) \<and> p \<le> length d \<and> drop p d = s \<and> length d < max_payload \<and>
          phys (length d) \<le> unat (mb_total_size m))"

interpretation paged: byte_stream "put_field m" "get_field (Some (frames mm pg d @ trail))"
    "stream_written m cap" "stream_fits cap" "stream_unread mm d m0"
  for m cap mm pg d trail m0
proof unfold_locales
  fix w e f
  assume "stream_written m cap w e" "stream_fits cap (e @ f)"
  then obtain rest where w: "w = (frames m 1 e @ rest, page_after (length e), phys (length e))"
      "phys (length e) + length rest = cap"
    and fit: "length e + length f < max_payload" "phys (length e + length f) \<le> cap"
    by (auto simp: stream_written_def stream_fits_def)
  have "phys (length e) \<le> phys (length e + length f)" by (rule phys_mono) simp
  then show "\<exists>w'. put_field m w f = Some w' \<and> stream_written m cap w' (e @ f)"
    using adapt_memcpy_tos_frames [OF fit(1), of rest m] fit w
    by (simp add: put_field_def stream_written_def)
next
  fix e f
  assume "stream_fits cap (e @ f)"
  moreover have "phys (length e) \<le> phys (length e + length f)" by (rule phys_mono) simp
  ultimately show "stream_fits cap e" by (simp add: stream_fits_def)
next
  fix r f s
  assume "stream_unread mm d m0 r (f @ s)"
  then obtain p where r: "r = (m0, phys p)" and p: "p \<le> length d" and s: "drop p d = f @ s"
    and b: "length d < max_payload" "phys (length d) \<le> unat (mb_total_size m0)"
    by (auto simp: stream_unread_def)
  have "length (drop p d) = length f + length s" unfolding s by simp
  then have pl: "p + length f \<le> length d" using p by simp
  have "take (length f) (drop p d) = f" "drop (p + length f) d = s"
    using s drop_drop [of "length f" p d] by (simp_all add: add.commute)
  then show "\<exists>r'. get_field (Some (frames mm pg d @ trail)) r (length f) = Some (r', f) \<and>
      stream_unread mm d m0 r' s"
    using adapt_memcpy_tods_frames [OF pl b(1) b(2), of mm pg trail] pl b r
    by (auto simp: get_field_def stream_unread_def)
qed

section \<open>Serialised messages\<close>

definition cut_base :: "msg_base \<Rightarrow> nat \<Rightarrow> msg_base" where
  "cut_base m n = m\<lparr>mb_total_size := of_nat (phys n + 12), mb_page_cnt := page_after n\<rparr>"

text \<open>The bytes of a message with the data \<open>d\<close>.\<close>

definition wire :: "msg_base \<Rightarrow> bytes \<Rightarrow> bytes" where
  "wire m d = frames (cut_base m (length d)) 1 d
     @ tail_bytes (cut_base m (length d)) (page_after (length d))"

lemma length_wire [simp]: "length (wire m d) = phys (length d) + 12"
  by (simp add: wire_def)

lemma ucast_of_nat_div: "n < 2 ^ 32 \<Longrightarrow> (ucast ((of_nat n :: u32) div 1460) :: u16) = of_nat (n div 1460)"
proof -
  assume n: "n < 2 ^ 32"
  then have "unat ((of_nat n :: u32) div 1460) = n div 1460"
    by (simp add: unat_div unat_of_nat)
  then show ?thesis
    by (simp only: ucast_of_nat_unat)
qed

lemma unat_page_after: "n < max_payload \<Longrightarrow> unat (page_after n) = 1 + n div 1460"
  using uint_page_after [of n] by (metis of_nat_1 of_nat_add of_nat_eq_iff uint_nat)

lemma correct_total_size_ok:
  assumes "n < max_payload"
  shows "correct_total_size (of_nat n) = (page_after n, of_nat (phys n + 12))"
proof -
  have b: "n < 2 ^ 32" using max_payload_small [OF assms] by simp
  have "(ucast (page_after n) :: u32) = of_nat (1 + n div 1460)"
    using unat_page_after [OF assms] by (simp only: ucast_of_nat_unat)
  then show ?thesis
    by (simp add: correct_total_size_def Let_def ucast_of_nat_div [OF b] page_after_def phys_def
        algebra_simps)
qed

lemma serialize_data_cut_ok:
  "n < max_payload \<Longrightarrow>
     serialize_data_cut junk m (of_nat n) = (cut_base m n, fresh_buffer junk (phys n + 12))"
  using phys_bound [of n] by (simp add: serialize_data_cut_def correct_total_size_ok cut_base_def unat_of_nat del: of_nat_add)

lemma serialize_fields_wire:
  assumes "length (concat fs) < max_payload"
  shows "serialize_fields junk m (of_nat (length (concat fs))) fs =
    Some (cut_base m (length (concat fs)), wire m (concat fs))"
proof -
  let ?n = "length (concat fs)" let ?m = "cut_base m ?n"
  have "stream_written ?m (phys ?n + 12) (fresh_buffer junk (phys ?n + 12), 1, 0) []"
    by (simp add: stream_written_def page_after_def)
  moreover have "stream_fits (phys ?n + 12) ([] @ concat fs)"
    using assms by (simp add: stream_fits_def)
  ultimately obtain w where "foldM (put_field ?m) (fresh_buffer junk (phys ?n + 12), 1, 0) fs = Some w"
      "stream_written ?m (phys ?n + 12) w ([] @ concat fs)"
    using paged.put_all by blast
  then obtain rest where
      "foldM (put_field ?m) (fresh_buffer junk (phys ?n + 12), 1, 0) fs =
        Some (frames ?m 1 (concat fs) @ rest, page_after ?n, phys ?n)" "length rest = 12"
    by (auto simp: stream_written_def)
  then show ?thesis
    by (simp add: serialize_fields_def serialize_data_cut_ok [OF assms] add_tail_msg_def
        put_bytes_append wire_def)
qed

text \<open>Reading the fields of a message, in a buffer that may continue.\<close>

lemma get_fields_wire:
  fixes m m' :: msg_base
  assumes "length (concat fs @ s) < max_payload"
  defines "m0 \<equiv> deserialize_data_cut m' (of_nat (length (wire m (concat fs @ s))))"
  shows "mapM (get_field (Some (wire m (concat fs @ s)))) (m0, 0) (map length fs) =
    Some ((m0, phys (length (concat fs))), fs)"
proof -
  let ?d = "concat fs @ s"
  have tot: "unat (mb_total_size m0) = phys (length ?d) + 12"
    using phys_bound [OF assms(1)] by (simp add: m0_def deserialize_data_cut_def unat_of_nat del: of_nat_add)
  have "stream_unread (cut_base m (length ?d)) ?d m0 (m0, 0) ?d"
    unfolding stream_unread_def using assms(1) tot by (intro exI [of _ 0]) simp
  then obtain r where r: "mapM (get_field (Some (wire m ?d))) (m0, 0) (map length fs) = Some (r, fs)"
      "stream_unread (cut_base m (length ?d)) ?d m0 r s"
    using paged.get_all [of "cut_base m (length ?d)" ?d m0 "(m0, 0)" fs s] unfolding wire_def by blast
  then obtain p where p: "r = (m0, phys p)" "p \<le> length ?d" "drop p ?d = s"
    by (auto simp: stream_unread_def)
  then have "length ?d - p = length s" by (metis length_drop)
  then have "p = length (concat fs)" using p(2) by (simp)
  with r(1) p(1) show ?thesis by simp
qed


text \<open>On any bytes at all, reading fields stays inside the buffer.\<close>

lemma get_fields_safe:
  "unat (mb_total_size m) \<le> length src \<Longrightarrow>
     \<exists>r. mapM (get_field (Some src)) (m, offset) ns = Some r"
proof (induction ns arbitrary: m offset)
  case Nil
  then show ?case by simp
next
  case (Cons n ns)
  then obtain m' bs off' where g: "adapt_memcpy_tods m False (Some src) offset n = Some (m', bs, off')"
    using adapt_memcpy_tods_safe [of m src False offset n] by (metis prod_cases3)
  then have "unat (mb_total_size m') \<le> length src"
    using adapt_memcpy_tods_total Cons.prems by metis
  then show ?case using Cons.IH [of m' off'] g by (auto simp: get_field_def)
qed

lemma deserialize_data_cut_total:
  "length src < 2 ^ 32 \<Longrightarrow>
     unat (mb_total_size (deserialize_data_cut m (of_nat (length src)))) = length src"
  by (simp add: deserialize_data_cut_def unat_of_nat)

lemma drop_wire_tail:
  "drop (length (wire m d) - 12) (wire m d) =
     tail_bytes (cut_base m (length d)) (page_after (length d))"
  by (simp add: wire_def)

lemma mb_msg_id_cut_base [simp]: "mb_msg_id (cut_base m n) = mb_msg_id m"
  by (simp add: cut_base_def)

lemma check_id_wire: "check_id (wire m d) i \<longleftrightarrow> mb_msg_id m = i"
proof -
  have "drop (length (wire m d) - 4) (wire m d) =
      drop 8 (drop (length (wire m d) - 12) (wire m d))"
    by simp
  also have "\<dots> = be_bytes 4 (mb_msg_id m)"
    unfolding drop_wire_tail by (simp add: tail_bytes_def)
  finally show ?thesis by (simp add: check_id_def)
qed

lemma be_bytes_eq_Nil [simp]: "be_bytes n w = [] \<longleftrightarrow> n = 0"
  using length_be_bytes [of n w] by (metis length_0_conv)

lemma get_tail_msg_tail_bytes:
  "get_tail_msg (d @ tail_bytes m page) =
     Some \<lparr>tm_page_cnt = mb_page_cnt m, tm_now_page = page, tm_total_size = mb_total_size m,
           tm_msg_id = mb_msg_id m\<rparr>"
  by (simp add: get_tail_msg_def Let_def tail_bytes_def)

section \<open>Properties of the page codec\<close>

text \<open>
  C8. Round trip of the page codec. Any list of fields below the page-number bound, of any
  sizes and crossing any page ends, is serialised without leaving the allocated buffer and
  whatever that buffer held before; reading fields of the same sizes from the result yields
  the fields again, reaches the end of the data and raises no overflow.
\<close>

theorem serialize_roundtrip:
  assumes "length (concat fs) < max_payload"
  shows "\<exists>data. serialize_fields junk m (of_nat (length (concat fs))) fs =
        Some (cut_base m (length (concat fs)), data) \<and>
      (let r = deserialize_data_cut m' (of_nat (length data)) in
        mapM (get_field (Some data)) (r, 0) (map length fs) =
          Some ((r, phys (length (concat fs))), fs) \<and> deserialize_ok r)"
proof -
  have "mapM (get_field (Some (wire m (concat fs))))
      (deserialize_data_cut m' (of_nat (length (wire m (concat fs)))), 0) (map length fs) =
    Some ((deserialize_data_cut m' (of_nat (length (wire m (concat fs)))), phys (length (concat fs))), fs)"
    using get_fields_wire [of fs "[]" m m'] assms by simp
  then show ?thesis
    using serialize_fields_wire [OF assms, of junk m]
    by (simp add: Let_def deserialize_ok_def deserialize_data_cut_def)
qed

theorem serialize_roundtrip_witness:
  "\<exists>data. serialize_fields (\<lambda>i. 255) (msg_base_init 7) (of_nat (length (concat [[1, 2], [3 :: byte]]))) [[1, 2], [3]] =
        Some (cut_base (msg_base_init 7) (length (concat [[1, 2], [3 :: byte]])), data) \<and>
      (let r = deserialize_data_cut (msg_base_init 0) (of_nat (length data)) in
        mapM (get_field (Some data)) (r, 0) (map length [[1, 2], [3 :: byte]]) =
          Some ((r, phys (length (concat [[1, 2], [3 :: byte]]))), [[1, 2], [3]]) \<and> deserialize_ok r)"
  by (rule serialize_roundtrip) (simp add: max_payload_def)

text \<open>
  C9. Memory safety of deserialisation. Whatever bytes a peer sent, reading any sequence of
  fields from them never reads outside the buffer: the bounds checks cover every access.
\<close>

theorem deserialize_in_bounds:
  assumes "length data < 2 ^ 32"
  shows "mapM (get_field (Some data)) (deserialize_data_cut m (of_nat (length data)), 0) ns \<noteq> None"
  using get_fields_safe [of "deserialize_data_cut m (of_nat (length data))" data 0 ns]
    deserialize_data_cut_total [OF assms, of m] by auto

theorem deserialize_in_bounds_witness:
  "mapM (get_field (Some [1, 2, 3])) (deserialize_data_cut (msg_base_init 5) 3, 0) [2, 4000] \<noteq> None"
  using deserialize_in_bounds [of "[1, 2, 3]" "msg_base_init 5" "[2, 4000]"] by simp

text \<open>
  C40. The size the serialiser allocates. It is the size of the framed stream with its last
  tail exactly when the payload is below 65535 pages of data; from that size on the 16-bit page
  count wraps and the buffer is smaller than the stream that is then written into it.
\<close>

theorem correct_total_size_exact_iff:
  assumes "n < 2 ^ 31"
  shows "unat (snd (correct_total_size (of_nat n))) = phys n + 12 \<longleftrightarrow> n < max_payload"
proof
  assume "n < max_payload"
  then show "unat (snd (correct_total_size (of_nat n))) = phys n + 12"
    using phys_bound [of n] by (simp add: correct_total_size_ok unat_of_nat del: of_nat_add)
next
  assume eq: "unat (snd (correct_total_size (of_nat n))) = phys n + 12"
  show "n < max_payload"
  proof (rule ccontr)
    assume "\<not> n < max_payload"
    then have "65535 \<le> n div 1460" by (simp add: max_payload_def less_eq_div_iff_mult_less_eq)
    then have big: "12 * 65536 \<le> phys n + 12 - n" by (simp add: phys_def)
    have b: "n < 2 ^ 32" using assms by simp
    define t where "t = (of_nat (n div 1460) + 1 :: u16)"
    have snd: "snd (correct_total_size (of_nat n)) = of_nat (n + 12 * unat t)"
      by (simp add: correct_total_size_def Let_def ucast_of_nat_div [OF b] t_def mult.commute)
    have "unat t < 65536" using unsigned_less [of t, where ?'a = nat] by simp
    then have "n + 12 * unat t < 2 ^ 32" using assms by simp
    then have "unat (snd (correct_total_size (of_nat n))) = n + 12 * unat t"
      unfolding snd by (simp add: unat_of_nat del: of_nat_add of_nat_mult)
    with eq big \<open>unat t < 65536\<close> show False by simp
  qed
qed

theorem correct_total_size_exact_iff_witness:
  "unat (snd (correct_total_size (of_nat 95681100))) \<noteq> phys 95681100 + 12"
  using correct_total_size_exact_iff [of 95681100] by (simp add: max_payload_def)

text \<open>
  Zero-copy reads. Where \<open>region_is_contiguous\<close> accepts a field, the field's bytes are
  contiguous in the received buffer at its physical offset, so aliasing them there is sound.
\<close>

theorem region_is_contiguous_sound:
  assumes "region_is_contiguous (phys p) len" and "p + len \<le> length d" and "length d < max_payload"
  shows "take len (drop (phys p) (wire m d)) = take len (drop p d)"
proof -
  have ps: "phys p < 2 ^ 32"
    using phys_mono [of p "length d"] phys_bound [OF assms(3)] assms(2) by simp
  have "p mod 1460 + len < 2 ^ 32"
    using max_payload_small [OF assms(3)] assms(2) mod_less_eq_dividend [of p 1460] by simp
  then have "p mod 1460 + len \<le> 1460"
    using assms(1) by (simp add: region_is_contiguous_def to_pure_offset_phys [OF ps] wrap_simps)
  then show ?thesis unfolding wire_def by (rule frames_take_drop) (rule assms(2))
qed

theorem region_is_contiguous_sound_witness:
  "take 2 (drop (phys 1) (wire (msg_base_init 7) [10, 20, 30])) = [20, 30]"
  using region_is_contiguous_sound [of 1 2 "[10, 20, 30]" "msg_base_init 7"]
  by (simp add: region_is_contiguous_def to_pure_offset_def phys_def sub32_def wrap32_def max_payload_def)

text \<open>
  The allocation guard. When \<open>tods_count_ok\<close> accepts a 32-bit element count read from the
  wire, the elements fit in what is left of the buffer; otherwise the message is marked bad.
\<close>

theorem tods_count_ok_bound:
  assumes "-(2 ^ 31) \<le> count" and "count < 2 ^ 31" and "0 < k" and "k < 2 ^ 32"
  shows "tods_count_ok m at count k =
    (if 0 \<le> count \<and> at + nat count * k \<le> unat (mb_total_size m)
     then (m, True) else (m\<lparr>mb_overflow := True\<rparr>, False))"
proof (cases "count < 0")
  case True
  then show ?thesis by (simp add: tods_count_ok_def)
next
  case False
  have "nat count * k \<le> 2 ^ 31 * 2 ^ 32"
    using False assms by (intro mult_le_mono) auto
  then have "nat count * k < 2 ^ 64" by simp
  then have m: "nat count * k mod 18446744073709551616 = nat count * k" by simp
  have t: "unat (mb_total_size m) < 2 ^ 32" using unsigned_less [of "mb_total_size m", where ?'a = nat] by simp
  show ?thesis using False assms(3) t
    by (simp add: tods_count_ok_def m tods_in_range_def Let_def) auto
qed

theorem tods_count_ok_bound_witness:
  "tods_count_ok (deserialize_data_cut (msg_base_init 1) 40) 4 0x20000000 8 =
     ((deserialize_data_cut (msg_base_init 1) 40)\<lparr>mb_overflow := True\<rparr>, False)"
  using tods_count_ok_bound [of "0x20000000" 8 "deserialize_data_cut (msg_base_init 1) 40" 4]
  by (simp add: deserialize_data_cut_def)

end
