(* ===== verification/DzFlat.thy ===== *)
theory DzFlat
  imports MsgBase
begin

text \<open>
  The flat shared-memory layout (\<open>include/ipc_msg/ipc_msg_base/dzflat.h\<close>): a segment is a
  32-byte header, a fixed root and a variable part that the writer appends to and the reader,
  which does not trust the segment, bounds-checks. Also the decision between the flat and the
  page-coded wire on receipt (\<open>src/dzIPC/common/wire_accept.cc\<close>).
\<close>

section \<open>Header\<close>

definition kMagic :: u32 where "kMagic = 0x4C465A44"
definition kLayoutVer :: u16 where "kLayoutVer = 1"

definition align_up :: "nat \<Rightarrow> nat" where
  "align_up n = wrap32 (n + 7) div 8 * 8"

definition align_to :: "nat \<Rightarrow> nat \<Rightarrow> nat" where
  "align_to n a = (n + a - 1) div a * a"

record seg_header =
  sh_magic :: u32
  sh_schema_hash :: u32
  sh_root_off :: u32
  sh_root_size :: u32
  sh_total_size :: u32
  sh_layout_ver :: u16
  sh_flags :: u16
  sh_msg_id :: u32
  sh_reserved :: u32

text \<open>The object representation of a header, which \<open>memcpy\<close> moves.\<close>

definition header_bytes :: "seg_header \<Rightarrow> bytes" where
  "header_bytes h =
     le_bytes 4 (sh_magic h) @ le_bytes 4 (sh_schema_hash h) @ le_bytes 4 (sh_root_off h)
     @ le_bytes 4 (sh_root_size h) @ le_bytes 4 (sh_total_size h) @ le_bytes 2 (sh_layout_ver h)
     @ le_bytes 2 (sh_flags h) @ le_bytes 4 (sh_msg_id h) @ le_bytes 4 (sh_reserved h)"

definition header_of :: "bytes \<Rightarrow> seg_header" where
  "header_of p =
     \<lparr>sh_magic = of_le (take 4 p), sh_schema_hash = of_le (take 4 (drop 4 p)),
      sh_root_off = of_le (take 4 (drop 8 p)), sh_root_size = of_le (take 4 (drop 12 p)),
      sh_total_size = of_le (take 4 (drop 16 p)), sh_layout_ver = of_le (take 2 (drop 20 p)),
      sh_flags = of_le (take 2 (drop 22 p)), sh_msg_id = of_le (take 4 (drop 24 p)),
      sh_reserved = of_le (take 4 (drop 28 p))\<rparr>"

definition has_dzflat_magic :: "bytes option \<Rightarrow> bool" where
  "has_dzflat_magic p =
     (case p of None \<Rightarrow> False | Some p \<Rightarrow>
        if length p < 4 then False else of_le (take 4 p) = kMagic)"

definition looks_like_dzflat :: "bytes option \<Rightarrow> bool" where
  "looks_like_dzflat p =
     (case p of None \<Rightarrow> False | Some p \<Rightarrow>
        if length p < 32 then False
        else (let h = header_of p in
          sh_magic h = kMagic \<and> sh_layout_ver h = kLayoutVer \<and> unat (sh_total_size h) \<le> length p \<and>
          sh_root_off h = 32))"

definition dzflat_peek_msg_id :: "bytes option \<Rightarrow> u32 option" where
  "dzflat_peek_msg_id seg =
     (if \<not> looks_like_dzflat seg then None
      else map_option (\<lambda>p. sh_msg_id (header_of p)) seg)"

definition check_dzflat_id :: "u32 \<Rightarrow> bytes option \<Rightarrow> bool" where
  "check_dzflat_id msg_id data = (dzflat_peek_msg_id data = Some msg_id)"

definition write_header :: "bytes \<Rightarrow> u32 \<Rightarrow> u32 \<Rightarrow> u32 \<Rightarrow> u32 \<Rightarrow> bytes option" where
  "write_header seg schema_hash root_size total_size msg_id =
     put_bytes seg 0 (header_bytes
       \<lparr>sh_magic = kMagic, sh_schema_hash = schema_hash, sh_root_off = 32, sh_root_size = root_size,
        sh_total_size = total_size, sh_layout_ver = kLayoutVer, sh_flags = 0, sh_msg_id = msg_id,
        sh_reserved = 0\<rparr>)"

section \<open>Schema hash\<close>

definition kFnvOffset :: u32 where "kFnvOffset = 2166136261"
definition kFnvPrime :: u32 where "kFnvPrime = 16777619"

primrec fnv1a :: "bytes \<Rightarrow> u32 \<Rightarrow> u32" where
  "fnv1a [] h = h"
| "fnv1a (c # s) h = fnv1a s ((h XOR ucast c) * kFnvPrime)"

definition fnv1a_u32 :: "u32 \<Rightarrow> u32 \<Rightarrow> u32" where
  "fnv1a_u32 v h =
     (let h = (h XOR (v AND 0xFF)) * kFnvPrime;
          h = (h XOR (drop_bit 8 v AND 0xFF)) * kFnvPrime;
          h = (h XOR (drop_bit 16 v AND 0xFF)) * kFnvPrime
      in (h XOR (drop_bit 24 v AND 0xFF)) * kFnvPrime)"

primrec mix_nested :: "u32 list \<Rightarrow> u32 \<Rightarrow> u32" where
  "mix_nested [] h = h"
| "mix_nested (first # rest) h = mix_nested rest (fnv1a_u32 first h)"

definition schema_hash :: "bytes \<Rightarrow> u32 list \<Rightarrow> u32" where
  "schema_hash canon nested = mix_nested nested (fnv1a canon kFnvOffset)"

section \<open>Writer\<close>

record dz_writer =
  wr_seg :: bytes
  wr_cap :: nat
  wr_cur :: nat
  wr_ok :: bool

record var_ref =
  vr_off :: nat
  vr_cnt :: nat

definition null_ref :: var_ref where "null_ref = \<lparr>vr_off = 0, vr_cnt = 0\<rparr>"

text \<open>\<open>Writer::reserve\<close>; the padding is written, so \<open>None\<close> is a write outside the segment.\<close>

definition reserve :: "dz_writer \<Rightarrow> nat \<Rightarrow> (dz_writer \<times> nat) option" where
  "reserve w bytes =
     (let at = align_up (wr_cur w) in
      if at < wr_cur w \<or> wr_cap w < bytes \<or> wr_cap w - bytes < at
      then Some (w\<lparr>wr_ok := False\<rparr>, 0)
      else do {
        seg \<leftarrow> (if wr_cur w < at then put_bytes (wr_seg w) (wr_cur w) (replicate (at - wr_cur w) 0)
               else Some (wr_seg w));
        Some (w\<lparr>wr_seg := seg, wr_cur := wrap32 (at + bytes)\<rparr>, at)
      })"

text \<open>\<open>alloc_array\<close> for elements of \<open>k\<close> bytes; the result's span is its offset and count.\<close>

definition alloc_array :: "nat \<Rightarrow> dz_writer \<Rightarrow> nat \<Rightarrow> (dz_writer \<times> var_ref \<times> nat) option" where
  "alloc_array k w n =
     (if n = 0 then Some (w, null_ref, 0)
      else if 0xFFFFFFFF div k < n then Some (w, null_ref, 0)
      else do {
        (w, off) \<leftarrow> reserve w (n * k);
        if off = 0 then Some (w, null_ref, 0)
        else Some (w, \<lparr>vr_off = off, vr_cnt = n\<rparr>, n)
      })"

definition put_string :: "dz_writer \<Rightarrow> bytes \<Rightarrow> (dz_writer \<times> var_ref \<times> bool) option" where
  "put_string w sv =
     (let n = wrap32 (length sv) in
      if n = 0 then Some (w, null_ref, True)
      else do {
        (w, off) \<leftarrow> reserve w n;
        if off = 0 then Some (w, null_ref, False)
        else do {
          seg \<leftarrow> put_bytes (wr_seg w) off (take n sv);
          Some (w\<lparr>wr_seg := seg\<rparr>, \<lparr>vr_off = off, vr_cnt = n\<rparr>, True)
        }
      })"

definition ref_bytes :: "var_ref \<Rightarrow> bytes" where
  "ref_bytes r = le_bytes 4 (of_nat (vr_off r) :: u32) @ le_bytes 4 (of_nat (vr_cnt r) :: u32)"

definition alloc_string_table :: "dz_writer \<Rightarrow> nat \<Rightarrow> (dz_writer \<times> var_ref \<times> bool) option" where
  "alloc_string_table w n =
     do {
       (w, ref, size) \<leftarrow> alloc_array 8 w n;
       if n \<noteq> 0 \<and> size = 0 then Some (w, ref, False)
       else do {
         seg \<leftarrow> foldM (\<lambda>seg i. put_bytes seg (vr_off ref + 8 * i) (ref_bytes null_ref)) (wr_seg w) [0..<size];
         Some (w\<lparr>wr_seg := seg\<rparr>, ref, True)
       }
     }"

definition put_string_at :: "dz_writer \<Rightarrow> var_ref \<Rightarrow> nat \<Rightarrow> bytes \<Rightarrow> (dz_writer \<times> bool) option" where
  "put_string_at w table i sv =
     (if vr_cnt table \<le> i \<or> vr_off table = 0 then Some (w, False)
      else do {
        (w, ref, ok) \<leftarrow> put_string w sv;
        seg \<leftarrow> put_bytes (wr_seg w) (vr_off table + 8 * i) (ref_bytes ref);
        Some (w\<lparr>wr_seg := seg\<rparr>, ok)
      })"

text \<open>The writable address of element \<open>i\<close>, as an offset in the segment.\<close>

definition elem_ptr :: "nat \<Rightarrow> var_ref \<Rightarrow> nat \<Rightarrow> nat option" where
  "elem_ptr k ref i =
     (if vr_cnt ref \<le> i \<or> vr_off ref = 0 then None else Some (vr_off ref + k * i))"

definition varlen_start :: "nat \<Rightarrow> nat" where
  "varlen_start root_size = align_up (wrap32 (32 + root_size))"


section \<open>Reader\<close>

record dz_reader =
  rd_seg :: "bytes option"
  rd_size :: nat

definition null_reader :: dz_reader where "null_reader = \<lparr>rd_seg = None, rd_size = 0\<rparr>"

definition reader_valid :: "dz_reader \<Rightarrow> bool" where
  "reader_valid rd = (rd_seg rd \<noteq> None)"

definition in_bounds :: "dz_reader \<Rightarrow> nat \<Rightarrow> nat \<Rightarrow> nat \<Rightarrow> bool" where
  "in_bounds rd off cnt stride =
     (if rd_seg rd = None \<or> off = 0 then False
      else if rd_size rd \<le> off then False
      else if stride \<noteq> 0 \<and> sub32 (rd_size rd) off div stride < cnt then False
      else True)"

text \<open>
  The bytes a view reads: empty for a null or rejected reference; \<open>None\<close> is a read outside the
  segment.
\<close>

definition as_span :: "nat \<Rightarrow> dz_reader \<Rightarrow> var_ref \<Rightarrow> bytes option" where
  "as_span k rd r =
     (if vr_cnt r = 0 then Some []
      else if \<not> in_bounds rd (vr_off r) (vr_cnt r) k then Some []
      else get_bytes (the (rd_seg rd)) (vr_off r) (vr_cnt r * k))"

definition as_string :: "dz_reader \<Rightarrow> var_ref \<Rightarrow> bytes option" where
  "as_string rd r =
     (if vr_cnt r = 0 then Some []
      else if \<not> in_bounds rd (vr_off r) (vr_cnt r) 1 then Some []
      else get_bytes (the (rd_seg rd)) (vr_off r) (vr_cnt r))"

definition elem_at :: "nat \<Rightarrow> dz_reader \<Rightarrow> var_ref \<Rightarrow> nat \<Rightarrow> nat option" where
  "elem_at k rd r i =
     (if vr_cnt r \<le> i then None
      else if \<not> in_bounds rd (vr_off r) (vr_cnt r) k then None
      else Some (vr_off r + k * i))"

text \<open>
  The header is copied out of the segment twice: the copy that \<open>looks_like_dzflat\<close> checks against the size, and the
  copy whose fields are used. A writer of the segment may come between; \<open>bind_segment\<close> is the case that none does.
\<close>

definition bind_copies :: "bytes option \<Rightarrow> bytes option \<Rightarrow> u32 \<Rightarrow> nat \<Rightarrow> dz_reader" where
  "bind_copies p p' expect_hash root_size =
     (if \<not> looks_like_dzflat p then null_reader
      else (let h = header_of (the p') in
        if sh_schema_hash h \<noteq> expect_hash then null_reader
        else if unat (sh_root_size h) \<noteq> root_size then null_reader
        else if unat (sh_total_size h) < 32 + root_size then null_reader
        else \<lparr>rd_seg = p', rd_size = unat (sh_total_size h)\<rparr>))"

definition bind_segment :: "bytes option \<Rightarrow> u32 \<Rightarrow> nat \<Rightarrow> dz_reader" where
  "bind_segment p expect_hash root_size = bind_copies p p expect_hash root_size"

section \<open>Choosing the wire on receipt\<close>

datatype rx_event =
  kDzFlatAccepted | kDzFlatIdSkipped | kDzFlatHeaderBad | kDzFlatSchemaDrop
  | kTlvAccepted | kTlvIdSkipped | kTlvCorruptDrop | kCount

text \<open>
  \<open>AcceptWire\<close>: the virtual \<open>dzflat_read\<close> and \<open>deserialize\<close> of the receiving message are
  parameters, each returning the new message and whether it was read well.
\<close>

definition AcceptWire ::
  "('m \<Rightarrow> bytes \<Rightarrow> 'm \<times> bool) \<Rightarrow> ('m \<Rightarrow> bytes \<Rightarrow> 'm \<times> bool) \<Rightarrow> bytes \<Rightarrow> u32 \<Rightarrow> 'm \<Rightarrow>
     'm \<times> bool \<times> rx_event" where
  "AcceptWire dzflat_read deserialize raw expected_msg_id sink =
     (if looks_like_dzflat (Some raw) then
        (if dzflat_peek_msg_id (Some raw) \<noteq> Some expected_msg_id
         then (sink, False, kDzFlatIdSkipped)
         else (let (sink, ok) = dzflat_read sink raw in
           if \<not> ok then (sink, False, kDzFlatSchemaDrop) else (sink, True, kDzFlatAccepted)))
      else if has_dzflat_magic (Some raw) then (sink, False, kDzFlatHeaderBad)
      else if \<not> check_id raw expected_msg_id then (sink, False, kTlvIdSkipped)
      else (let (sink, ok) = deserialize sink raw in
        if \<not> ok then (sink, False, kTlvCorruptDrop) else (sink, True, kTlvAccepted)))"

section \<open>Properties\<close>

lemma header_bytes_length [simp]: "length (header_bytes h) = 32"
  by (simp add: header_bytes_def)

lemma header_of_bytes [simp]: "header_of (header_bytes h @ rest) = h"
  by (simp add: header_bytes_def header_of_def)

text \<open>The segments a reader is bound to hold at least \<open>rd_size\<close> bytes.\<close>

definition reader_wf :: "dz_reader \<Rightarrow> bool" where
  "reader_wf rd \<longleftrightarrow> (case rd_seg rd of None \<Rightarrow> True | Some s \<Rightarrow> rd_size rd \<le> length s)"

lemma bind_segment_wf: "reader_wf (bind_segment p h n)"
  by (auto simp: bind_segment_def bind_copies_def reader_wf_def null_reader_def looks_like_dzflat_def Let_def
      split: option.splits if_splits)

lemma sub32_le:
  assumes "b \<le> a"
  shows "sub32 a b \<le> a - b"
proof -
  note assms
  then have "(int a - int b) mod 2 ^ 32 = int ((a - b) mod 2 ^ 32)" unfolding of_nat_mod by (simp only: of_nat_diff of_nat_power of_nat_numeral)
  then have e: "sub32 a b = (a - b) mod 2 ^ 32" unfolding sub32_def by (simp only: nat_int)
  show ?thesis unfolding e by (rule mod_less_eq_dividend)
qed

lemma sub32_diff:
  assumes "b \<le> a" and "a < 2 ^ 32"
  shows "sub32 a b = a - b"
proof -
  have "(int a - int b) mod 2 ^ 32 = int a - int b" by (rule mod_pos_pos_trivial) (use assms in auto)
  then show ?thesis unfolding sub32_def using assms(1) by simp
qed

lemma in_bounds_sound:
  assumes "in_bounds rd off cnt k" and "reader_wf rd" and "0 < k"
  shows "\<exists>s. rd_seg rd = Some s \<and> 0 < off \<and> off + cnt * k \<le> length s"
proof -
  obtain s where s: "rd_seg rd = Some s" and off: "0 < off" "off < rd_size rd"
    and c: "cnt \<le> sub32 (rd_size rd) off div k"
    using assms by (auto simp: in_bounds_def split: if_splits)
  have "cnt * k \<le> sub32 (rd_size rd) off div k * k" using c by simp
  also have "\<dots> \<le> sub32 (rd_size rd) off" by simp
  also have "\<dots> \<le> rd_size rd - off" by (rule sub32_le) (use off in simp)
  finally show ?thesis using s off assms(2) by (auto simp: reader_wf_def)
qed

text \<open>
  C34. A reader does not trust its segment: on any bytes at all, with any header, and for any
  reference and element size, binding the segment and reading a span or a string, or taking
  the address of an element and its size, stays inside the bytes given.
\<close>

theorem dzflat_reads_in_bounds:
  "let rd = bind_segment (Some raw) h n in
     as_span (Suc k) rd r \<noteq> None \<and> as_string rd r \<noteq> None \<and>
     (case elem_at (Suc k) rd r i of None \<Rightarrow> True | Some at \<Rightarrow> at + Suc k \<le> length raw)"
proof -
  define rd where "rd = bind_segment (Some raw) h n"
  have wf: "reader_wf rd" unfolding rd_def by (rule bind_segment_wf)
  have seg: "rd_seg rd = Some s \<Longrightarrow> s = raw" for s
    by (auto simp: rd_def bind_segment_def bind_copies_def null_reader_def Let_def split: if_splits)
  have "as_span (Suc k) rd r \<noteq> None"
    using in_bounds_sound [OF _ wf, of "vr_off r" "vr_cnt r" "Suc k"]
    by (auto simp: as_span_def get_bytes_def)
  moreover have "as_string rd r \<noteq> None"
    using in_bounds_sound [OF _ wf, of "vr_off r" "vr_cnt r" 1] by (auto simp: as_string_def get_bytes_def)
  moreover have "at + Suc k \<le> length raw" if "elem_at (Suc k) rd r i = Some at" for at
  proof -
    have b: "in_bounds rd (vr_off r) (vr_cnt r) (Suc k)" "i < vr_cnt r" "at = vr_off r + Suc k * i"
      using that by (auto simp: elem_at_def split: if_splits)
    obtain s where s: "rd_seg rd = Some s" "vr_off r + vr_cnt r * Suc k \<le> length s"
      using in_bounds_sound [OF b(1) wf] by auto
    have "Suc k * i + Suc k = Suc k * Suc i" by simp
    also have "\<dots> \<le> Suc k * vr_cnt r" using b(2) by (intro mult_le_mono2) simp
    finally show ?thesis using s seg [OF s(1)] b(3) by (simp only: mult.commute [of "vr_cnt r"])
  qed
  ultimately show ?thesis by (simp add: rd_def [symmetric] Let_def split: option.split)
qed


text \<open>
  The size is checked on the first copy of the header and used from the second: when the process that owns the segment
  changes it in between, the reader that is handed out reaches beyond the bytes, and a string of it is read there.
\<close>

definition torn_header :: "u32 \<Rightarrow> bytes" where
  "torn_header n =
     header_bytes \<lparr>sh_magic = kMagic, sh_schema_hash = 0, sh_root_off = 32, sh_root_size = 8, sh_total_size = n,
                   sh_layout_ver = kLayoutVer, sh_flags = 0, sh_msg_id = 0, sh_reserved = 0\<rparr>"

theorem size_changed_after_check:
  "let rd = bind_copies (Some (torn_header 40 @ replicate 8 0)) (Some (torn_header 4096 @ replicate 8 0)) 0 8
   in rd_size rd = 4096 \<and> as_string rd \<lparr>vr_off = 1000, vr_cnt = 8\<rparr> = None"
  by (simp add: bind_copies_def looks_like_dzflat_def torn_header_def Let_def as_string_def in_bounds_def sub32_def get_bytes_def)

subsection \<open>What the writer keeps\<close>

definition writer_wf :: "dz_writer \<Rightarrow> bool" where
  "writer_wf w \<longleftrightarrow> length (wr_seg w) = wr_cap w \<and> wr_cap w < 2 ^ 32 \<and> 32 \<le> wr_cur w \<and> wr_cur w \<le> wr_cap w"

text \<open>\<open>w'\<close> comes after \<open>w\<close>: it has not changed what \<open>w\<close> had written, nor undone a failure.\<close>

definition extends :: "dz_writer \<Rightarrow> dz_writer \<Rightarrow> bool" where
  "extends w w' \<longleftrightarrow> wr_cur w \<le> wr_cur w' \<and> wr_cap w' = wr_cap w \<and>
     take (wr_cur w) (wr_seg w') = take (wr_cur w) (wr_seg w) \<and> (wr_ok w' \<longrightarrow> wr_ok w)"

lemma extends_refl: "extends w w"
  by (simp add: extends_def)

lemma extends_trans:
  assumes "extends u v" and "extends v w"
  shows "extends u w"
proof -
  have "take (wr_cur u) (wr_seg w) = take (wr_cur u) (take (wr_cur v) (wr_seg w))"
    using assms(1) by (simp add: extends_def min_def)
  also have "\<dots> = take (wr_cur u) (wr_seg v)"
    using assms by (simp add: extends_def min_def)
  finally show ?thesis using assms by (auto simp: extends_def)
qed

lemma align_up_bounds:
  assumes "n + 7 < 2 ^ 32"
  shows "n \<le> align_up n" "align_up n < n + 8" "align_up n mod 8 = 0"
  using assms by (simp_all add: align_up_def wrap32_id)

lemma align_up_wraps: "n < 2 ^ 32 \<Longrightarrow> 2 ^ 32 \<le> n + 7 \<Longrightarrow> align_up n = 0"
proof -
  assume n: "n < 2 ^ 32" "2 ^ 32 \<le> n + 7"
  then have "(n + 7) mod 2 ^ 32 = n + 7 - 2 ^ 32"
    by (simp add: le_mod_geq)
  then show ?thesis using n by (simp add: align_up_def wrap32_def)
qed

lemma take_put_bytes:
  "put_bytes dst at bs = Some dst' \<Longrightarrow> n \<le> at \<Longrightarrow> take n dst' = take n dst"
  by (auto simp: put_bytes_def min_def split: if_splits)

lemma reserve_ok:
  assumes wf: "writer_wf w"
  shows "reserve w b = Some (w\<lparr>wr_ok := False\<rparr>, 0) \<or>
    (\<exists>w' at. reserve w b = Some (w', at) \<and> writer_wf w' \<and> extends w w' \<and> wr_ok w' = wr_ok w \<and>
       32 \<le> at \<and> at mod 8 = 0 \<and> wr_cur w \<le> at \<and> wr_cur w' = at + b)"
proof (cases "align_up (wr_cur w) < wr_cur w \<or> wr_cap w < b \<or> wr_cap w - b < align_up (wr_cur w)")
  case True
  then show ?thesis by (simp add: reserve_def Let_def)
next
  case False
  let ?at = "align_up (wr_cur w)"
  have "wr_cur w + 7 < 2 ^ 32"
    using align_up_wraps [of "wr_cur w"] wf False by (cases "wr_cur w + 7 < 2 ^ 32") (auto simp: writer_wf_def)
  then have al: "wr_cur w \<le> ?at" "?at mod 8 = 0" using align_up_bounds by auto
  have fit: "?at + b \<le> wr_cap w" using False by linarith
  obtain seg where seg: "(if wr_cur w < ?at then put_bytes (wr_seg w) (wr_cur w) (replicate (?at - wr_cur w) 0)
      else Some (wr_seg w)) = Some seg" "length seg = length (wr_seg w)"
    "take (wr_cur w) seg = take (wr_cur w) (wr_seg w)"
  proof (cases "wr_cur w < ?at")
    case True
    have "put_bytes (wr_seg w) (wr_cur w) (replicate (?at - wr_cur w) 0) =
        Some (take (wr_cur w) (wr_seg w) @ replicate (?at - wr_cur w) 0 @ drop ?at (wr_seg w))"
      using fit wf True by (simp add: writer_wf_def put_bytes_def)
    then show ?thesis using that True fit wf by (simp add: writer_wf_def min_def)
  next
    case False
    then show ?thesis using that by simp
  qed
  have "reserve w b = Some (w\<lparr>wr_seg := seg, wr_cur := ?at + b\<rparr>, ?at)"
    using False seg(1) fit wf by (simp add: reserve_def Let_def writer_wf_def wrap32_id)
  then show ?thesis
    using seg(2,3) wf fit al by (auto simp: writer_wf_def extends_def)
qed

text \<open>The bytes a reference stands for in a segment.\<close>

definition ref_view :: "bytes \<Rightarrow> var_ref \<Rightarrow> bytes" where
  "ref_view seg r = take (vr_cnt r) (drop (vr_off r) seg)"

lemma put_string_ok:
  assumes wf: "writer_wf w" and len: "length sv < 2 ^ 32"
  shows "\<exists>w' r ok. put_string w sv = Some (w', r, ok) \<and> writer_wf w' \<and> extends w w' \<and>
    (ok \<longrightarrow> ref_view (wr_seg w') r = sv \<and> vr_off r + vr_cnt r \<le> wr_cur w' \<and> vr_cnt r = length sv \<and>
       (sv \<noteq> [] \<longrightarrow> 0 < vr_off r)) \<and>
    (\<not> ok \<longrightarrow> \<not> wr_ok w')"
proof (cases "sv = []")
  case True
  then show ?thesis
    using wf extends_refl [of w]
    by (intro exI [of _ w] exI [of _ null_ref] exI [of _ True])
       (simp add: put_string_def wrap32_def null_ref_def ref_view_def)
next
  case False
  have n: "wrap32 (length sv) = length sv" using len by (rule wrap32_id)
  consider "reserve w (length sv) = Some (w\<lparr>wr_ok := False\<rparr>, 0)"
    | w' at where "reserve w (length sv) = Some (w', at)" "writer_wf w'" "extends w w'"
        "32 \<le> at" "wr_cur w \<le> at" "wr_cur w' = at + length sv"
    using reserve_ok [OF wf, of "length sv"] by auto
  then show ?thesis
  proof cases
    case 1
    then show ?thesis using False wf
      by (intro exI [of _ "w\<lparr>wr_ok := False\<rparr>"] exI [of _ null_ref] exI [of _ False])
         (simp add: put_string_def Let_def n writer_wf_def extends_def)
  next
    case 2
    have fits: "at + length sv \<le> length (wr_seg w')" using 2 by (simp add: writer_wf_def)
    then obtain seg where seg: "put_bytes (wr_seg w') at sv = Some seg"
        "seg = take at (wr_seg w') @ sv @ drop (at + length sv) (wr_seg w')"
      by (simp add: put_bytes_def)
    have "take (wr_cur w) seg = take (wr_cur w) (wr_seg w')"
      using take_put_bytes [OF seg(1) 2(5)] .
    then have "extends w (w'\<lparr>wr_seg := seg\<rparr>)" using 2(3) by (simp add: extends_def)
    moreover have "writer_wf (w'\<lparr>wr_seg := seg\<rparr>)"
      using 2(2) put_bytes_length [OF seg(1)] by (simp add: writer_wf_def)
    moreover have "ref_view seg \<lparr>vr_off = at, vr_cnt = length sv\<rparr> = sv"
      using fits unfolding seg(2) by (simp add: ref_view_def min_def)
    ultimately show ?thesis
      using False seg(1) 2
      by (intro exI [of _ "w'\<lparr>wr_seg := seg\<rparr>"] exI [of _ "\<lparr>vr_off = at, vr_cnt = length sv\<rparr>"] exI [of _ True])
         (simp add: put_string_def Let_def n)
  qed
qed


lemma ref_view_extends:
  assumes "extends w w'" and "vr_off r + vr_cnt r \<le> wr_cur w"
  shows "ref_view (wr_seg w') r = ref_view (wr_seg w) r"
proof -
  have v: "ref_view seg r = drop (vr_off r) (take (vr_off r + vr_cnt r) seg)" for seg
    by (simp add: ref_view_def take_drop add.commute)
  have "take (vr_off r + vr_cnt r) (take (wr_cur w) (wr_seg w')) =
      take (vr_off r + vr_cnt r) (take (wr_cur w) (wr_seg w))"
    using assms(1) by (simp add: extends_def)
  then show ?thesis using assms(2) by (simp add: v min_def)
qed

lemma as_string_view:
  assumes "writer_wf w" "vr_off r + vr_cnt r \<le> wr_cur w" "0 < vr_cnt r \<longrightarrow> 0 < vr_off r"
  shows "as_string \<lparr>rd_seg = Some (wr_seg w), rd_size = wr_cur w\<rparr> r = Some (ref_view (wr_seg w) r)"
  using assms by (auto simp: as_string_def in_bounds_def get_bytes_def writer_wf_def ref_view_def sub32_diff)

lemma mapM_put_string:
  "writer_wf w \<Longrightarrow> \<forall>sv\<in>set svs. length sv < 2 ^ 32 \<Longrightarrow>
     \<exists>w' rs. mapM put_string w svs = Some (w', rs) \<and> writer_wf w' \<and> extends w w' \<and>
       (wr_ok w' \<longrightarrow> map (\<lambda>r. as_string \<lparr>rd_seg = Some (wr_seg w'), rd_size = wr_cur w'\<rparr> (fst r)) rs = map Some svs)"
proof (induction svs arbitrary: w)
  case Nil
  then show ?case by (simp add: extends_refl)
next
  case (Cons sv svs)
  obtain w1 r ok where p: "put_string w sv = Some (w1, r, ok)" "writer_wf w1" "extends w w1"
      "ok \<longrightarrow> ref_view (wr_seg w1) r = sv \<and> vr_off r + vr_cnt r \<le> wr_cur w1 \<and> vr_cnt r = length sv \<and>
         (sv \<noteq> [] \<longrightarrow> 0 < vr_off r)" "\<not> ok \<longrightarrow> \<not> wr_ok w1"
    using put_string_ok [of w sv] Cons.prems by auto
  obtain w2 rs where q: "mapM put_string w1 svs = Some (w2, rs)" "writer_wf w2" "extends w1 w2"
      "wr_ok w2 \<longrightarrow> map (\<lambda>r. as_string \<lparr>rd_seg = Some (wr_seg w2), rd_size = wr_cur w2\<rparr> (fst r)) rs = map Some svs"
    using Cons.IH [OF p(2)] Cons.prems by auto
  have "as_string \<lparr>rd_seg = Some (wr_seg w2), rd_size = wr_cur w2\<rparr> r = Some sv" if "wr_ok w2"
  proof -
    have ok: ok using that q(3) p(5) by (auto simp: extends_def)
    then have b: "vr_off r + vr_cnt r \<le> wr_cur w2" using p(4) q(3) by (auto simp: extends_def)
    have "0 < vr_cnt r \<longrightarrow> 0 < vr_off r" using ok p(4) by auto
    with as_string_view [OF q(2) b] ref_view_extends [OF q(3)] ok p(4) show ?thesis by simp
  qed
  then show ?case using p(1) q extends_trans [OF p(3) q(3)] by auto
qed

text \<open>
  Strings written one after the other into a segment are read back by a reader of the
  segment as they were, none overwriting another, unless the writer reports a failure; no
  write leaves the segment, however small it is.
\<close>

theorem dzflat_strings_roundtrip:
  assumes "writer_wf w" and "\<forall>sv\<in>set svs. length sv < 2 ^ 32"
  shows "case mapM put_string w svs of
      None \<Rightarrow> False
    | Some (w', rs) \<Rightarrow> if wr_ok w'
        then map (\<lambda>r. as_string \<lparr>rd_seg = Some (wr_seg w'), rd_size = wr_cur w'\<rparr> (fst r)) rs = map Some svs
        else True"
  using mapM_put_string [OF assms] by auto

theorem dzflat_strings_roundtrip_witness:
  "case mapM put_string \<lparr>wr_seg = replicate 64 9, wr_cap = 64, wr_cur = 33, wr_ok = True\<rparr> [[1, 2, 3], [], [4]] of
      None \<Rightarrow> False
    | Some (w', rs) \<Rightarrow> if wr_ok w'
        then map (\<lambda>r. as_string \<lparr>rd_seg = Some (wr_seg w'), rd_size = wr_cur w'\<rparr> (fst r)) rs =
          map Some [[1, 2, 3], [], [4]]
        else True"
  by (rule dzflat_strings_roundtrip) (simp_all add: writer_wf_def)

text \<open>
  Sizes that overflow 32 bits. \<open>alloc_array\<close> refuses them with an empty reference, but on
  this branch it leaves the writer's success flag as it was, unlike on every other failure.
\<close>

theorem alloc_array_overflow_keeps_ok:
  assumes "2 ^ 32 \<le> n * k" and "0 < k"
  shows "alloc_array k w n = Some (w, null_ref, 0)"
proof -
  have "0xFFFFFFFF div k < n"
    using assms by (simp add: div_less_iff_less_mult)
  moreover have "n \<noteq> 0" using assms by (cases n) auto
  ultimately show ?thesis by (simp add: alloc_array_def)
qed

theorem alloc_array_overflow_keeps_ok_witness:
  "alloc_array 8 \<lparr>wr_seg = [], wr_cap = 0, wr_cur = 0, wr_ok = True\<rparr> (2 ^ 29) =
     Some (\<lparr>wr_seg = [], wr_cap = 0, wr_cur = 0, wr_ok = True\<rparr>, null_ref, 0)"
  by (rule alloc_array_overflow_keeps_ok) simp_all

lemma alloc_array_fails_not_ok:
  assumes "writer_wf w" and "n * k < 2 ^ 32" and "0 < n" and "0 < k"
    and "alloc_array k w n = Some (w', null_ref, 0)"
  shows "\<not> wr_ok w'"
proof -
  have "\<not> 0xFFFFFFFF div k < n"
    using assms(2,4) by (simp add: not_less less_eq_div_iff_mult_less_eq)
  then show ?thesis
    using reserve_ok [OF assms(1), of "n * k"] assms(3,5)
    by (auto simp: alloc_array_def null_ref_def)
qed

subsection \<open>A header that was written is recognised\<close>

lemma write_header_ok:
  assumes "length seg = unat n" and "32 \<le> unat n"
  shows "\<exists>seg'. write_header seg h rs n i = Some seg' \<and> looks_like_dzflat (Some seg') \<and>
    dzflat_peek_msg_id (Some seg') = Some i \<and> length seg' = length seg"
proof -
  let ?h = "\<lparr>sh_magic = kMagic, sh_schema_hash = h, sh_root_off = 32, sh_root_size = rs,
    sh_total_size = n, sh_layout_ver = kLayoutVer, sh_flags = 0, sh_msg_id = i, sh_reserved = 0\<rparr>"
  have w: "write_header seg h rs n i = Some (header_bytes ?h @ drop 32 seg)"
    using assms by (simp add: write_header_def put_bytes_def)
  moreover have "looks_like_dzflat (Some (header_bytes ?h @ drop 32 seg))"
    using assms by (simp add: looks_like_dzflat_def)
  ultimately show ?thesis using assms by (simp add: dzflat_peek_msg_id_def)
qed

text \<open>
  The receive decision. A buffer is handed to the page decoder only when it does not start
  with the flat layout's magic number, to the flat decoder only when its header carries the
  topic's message id, and a message is accepted only if the decoder it went to accepted it;
  on every other path the receiving message is untouched.
\<close>

theorem AcceptWire_decides:
  "AcceptWire fr td raw expected sink =
     (if looks_like_dzflat (Some raw) \<and> check_dzflat_id expected (Some raw)
      then (fst (fr sink raw), snd (fr sink raw), if snd (fr sink raw) then kDzFlatAccepted else kDzFlatSchemaDrop)
      else if \<not> has_dzflat_magic (Some raw) \<and> check_id raw expected
      then (fst (td sink raw), snd (td sink raw), if snd (td sink raw) then kTlvAccepted else kTlvCorruptDrop)
      else (sink, False,
        if looks_like_dzflat (Some raw) then kDzFlatIdSkipped
        else if has_dzflat_magic (Some raw) then kDzFlatHeaderBad else kTlvIdSkipped))"
proof -
  have "looks_like_dzflat (Some raw) \<Longrightarrow> has_dzflat_magic (Some raw)"
    by (auto simp: looks_like_dzflat_def has_dzflat_magic_def header_of_def Let_def split: if_splits)
  then show ?thesis
    by (auto simp: AcceptWire_def check_dzflat_id_def split: prod.splits)
qed

end
