(* ===== verification/RtpsMsgs.thy ===== *)
theory RtpsMsgs
  imports MsgBase
begin

text \<open>
  The control frames of the reliable UDP protocol
  (\<open>include/ipc_msg/ipc_msg_base/udp_rtps_ack_msg.hpp\<close>): the explicit and the bitmap NACK,
  the ACK with its congestion-feedback variant and the heartbeat. Each class is a record over
  the page codec; its \<open>serialize\<close> and \<open>deserialize\<close> are sequences of field copies.
\<close>

section \<open>Reading and writing words\<close>

declare mapM.simps [simp del]

text \<open>A run of field reads: the state after it and the bytes of each field.\<close>

abbreviation read_fields ::
  "bytes \<Rightarrow> msg_base \<times> nat \<Rightarrow> nat list \<Rightarrow> ((msg_base \<times> nat) \<times> bytes list) option" where
  "read_fields buffer \<equiv> mapM (get_field (Some buffer))"

lemma get_fields_at:
  fixes m m' :: msg_base
  assumes "length (e @ concat fs @ s) < max_payload"
  defines "m0 \<equiv> deserialize_data_cut m' (of_nat (length (wire m (e @ concat fs @ s))))"
  shows "read_fields (wire m (e @ concat fs @ s)) (m0, phys (length e)) (map length fs) =
    Some ((m0, phys (length e + length (concat fs))), fs)"
proof -
  let ?d = "e @ concat fs @ s"
  have tot: "unat (mb_total_size m0) = phys (length ?d) + 12"
    using phys_bound [OF assms(1)] by (simp add: m0_def deserialize_data_cut_def unat_of_nat del: of_nat_add)
  have "stream_unread (cut_base m (length ?d)) ?d m0 (m0, phys (length e)) (concat fs @ s)"
    unfolding stream_unread_def using assms(1) tot by (intro exI [of _ "length e"]) simp
  then obtain r where r: "read_fields (wire m ?d) (m0, phys (length e)) (map length fs) = Some (r, fs)"
      "stream_unread (cut_base m (length ?d)) ?d m0 r s"
    using paged.get_all [of "cut_base m (length ?d)" ?d m0 "(m0, phys (length e))" fs s]
    unfolding wire_def by blast
  then obtain p where p: "r = (m0, phys p)" "p \<le> length ?d" "drop p ?d = s"
    by (auto simp: stream_unread_def)
  then have "length ?d - p = length s" by (metis length_drop)
  then have "p = length e + length (concat fs)" using p(2) by simp
  with r(1) p(1) show ?thesis by simp
qed

text \<open>The two reading phases of a deserialiser: a fixed header and a variable rest.\<close>

lemma read_header:
  assumes "length (concat fs @ s) < max_payload" and "ns = map length fs"
    and "n = length (wire m (concat fs @ s))" and "k = length (concat fs)"
  shows "read_fields (wire m (concat fs @ s)) (deserialize_data_cut m' (of_nat n), 0) ns =
    Some ((deserialize_data_cut m' (of_nat n), phys k), fs)"
  using get_fields_at [of "[]" fs s m m'] assms by simp

lemma read_rest:
  assumes "length (e @ concat fs) < max_payload" and "ns = map length fs"
    and "n = length (wire m (e @ concat fs))" and "k = length e"
  shows "read_fields (wire m (e @ concat fs)) (deserialize_data_cut m' (of_nat n), phys k) ns =
    Some ((deserialize_data_cut m' (of_nat n), phys (k + length (concat fs))), fs)"
  using get_fields_at [of e fs "[]" m m'] assms by simp

section \<open>The explicit NACK\<close>

definition kRtpsNackMsgId :: u32 where "kRtpsNackMsgId = 0x445A4E4B"
definition kMaxMissingPages :: nat where "kMaxMissingPages = 256"

record nack_msg =
  nk_base :: msg_base
  nk_page_cnt :: u16
  nk_total_size :: u32
  nk_data_msg_id :: u32
  nk_receiver_id :: u32
  nk_sequence :: u32
  nk_missing_pages :: "u16 list"

definition IpcRtpsNackMsg :: nack_msg where
  "IpcRtpsNackMsg = \<lparr>nk_base = msg_base_init kRtpsNackMsgId, nk_page_cnt = 0, nk_total_size = 0,
     nk_data_msg_id = 0, nk_receiver_id = 0, nk_sequence = 0, nk_missing_pages = []\<rparr>"

definition check_nk_id :: "bytes \<Rightarrow> bool" where
  "check_nk_id data = check_id data kRtpsNackMsgId"

definition nack_serialize :: "(nat \<Rightarrow> byte) \<Rightarrow> nack_msg \<Rightarrow> (nack_msg \<times> bytes) option" where
  "nack_serialize junk m =
     (let miss_cnt = of_nat (min (length (nk_missing_pages m)) kMaxMissingPages) :: u16;
          total_size = of_nat (2 + 4 + 4 + 4 + 4 + 2) + ucast miss_cnt * 2 in
      do {
        (b, data) \<leftarrow> serialize_fields junk (nk_base m) total_size
          ([le_bytes 2 (nk_page_cnt m), le_bytes 4 (nk_total_size m), le_bytes 4 (nk_data_msg_id m),
            le_bytes 4 (nk_receiver_id m), le_bytes 4 (nk_sequence m), le_bytes 2 miss_cnt]
           @ map (le_bytes 2) (take (unat miss_cnt) (nk_missing_pages m)));
        Some (m\<lparr>nk_base := b\<rparr>, data)
      })"

definition nack_deserialize :: "nack_msg \<Rightarrow> bytes \<Rightarrow> nack_msg option" where
  "nack_deserialize m buffer =
     do {
       (r, fs) \<leftarrow> read_fields buffer (deserialize_data_cut (nk_base m) (of_nat (length buffer)), 0)
         [2, 4, 4, 4, 4, 2];
       let clamp_cnt = min (unat (of_le (fs ! 5) :: u16)) kMaxMissingPages;
       (r, ps) \<leftarrow> read_fields buffer r (replicate clamp_cnt 2);
       Some \<lparr>nk_base = fst r, nk_page_cnt = of_le (fs ! 0), nk_total_size = of_le (fs ! 1),
         nk_data_msg_id = of_le (fs ! 2), nk_receiver_id = of_le (fs ! 3),
         nk_sequence = of_le (fs ! 4), nk_missing_pages = map of_le ps\<rparr>
     }"

lemma length_concat_le_bytes [simp]: "length (concat (map (le_bytes n) ws)) = n * length ws"
  by (induction ws) simp_all

lemma map_of_le_bytes [simp]: "map (of_le \<circ> le_bytes 2) (ws :: u16 list) = ws"
  by (induction ws) simp_all

lemma map_length_le_bytes [simp]: "map (length \<circ> le_bytes n) ws = replicate (length ws) n"
  by (induction ws) simp_all

text \<open>The data bytes of an explicit NACK.\<close>

definition nack_payload :: "nack_msg \<Rightarrow> bytes" where
  "nack_payload m =
     concat [le_bytes 2 (nk_page_cnt m), le_bytes 4 (nk_total_size m), le_bytes 4 (nk_data_msg_id m),
       le_bytes 4 (nk_receiver_id m), le_bytes 4 (nk_sequence m),
       le_bytes 2 (of_nat (min (length (nk_missing_pages m)) kMaxMissingPages) :: u16)]
     @ concat (map (le_bytes 2) (take kMaxMissingPages (nk_missing_pages m)))"

lemma length_nack_payload:
  "length (nack_payload m) = 20 + 2 * min (length (nk_missing_pages m)) kMaxMissingPages"
  by (simp add: nack_payload_def)

lemma unat_miss_cnt: "unat (of_nat (min n kMaxMissingPages) :: u16) = min n kMaxMissingPages"
  by (simp add: unat_of_nat kMaxMissingPages_def)

lemma nack_serialize_wire:
  "nack_serialize junk m =
     Some (m\<lparr>nk_base := cut_base (nk_base m) (length (nack_payload m))\<rparr>,
           wire (nk_base m) (nack_payload m))"
proof -
  let ?c = "min (length (nk_missing_pages m)) kMaxMissingPages"
  let ?fs = "[le_bytes 2 (nk_page_cnt m), le_bytes 4 (nk_total_size m), le_bytes 4 (nk_data_msg_id m),
    le_bytes 4 (nk_receiver_id m), le_bytes 4 (nk_sequence m), le_bytes 2 (of_nat ?c :: u16)]
    @ map (le_bytes 2) (take ?c (nk_missing_pages m))"
  have tk: "take ?c (nk_missing_pages m) = take kMaxMissingPages (nk_missing_pages m)"
    by (simp add: min_def)
  have cf: "concat ?fs = nack_payload m" unfolding tk by (simp add: nack_payload_def)
  have "of_nat (length (concat ?fs)) = of_nat (2 + 4 + 4 + 4 + 4 + 2) + ucast (of_nat ?c :: u16) * (2 :: u32)"
    unfolding ucast_of_nat_unat [of "of_nat ?c :: u16"] unat_miss_cnt by simp
  moreover have "length (concat ?fs) < max_payload"
    unfolding cf length_nack_payload by (simp add: max_payload_def kMaxMissingPages_def)
  ultimately show ?thesis
    using serialize_fields_wire [of ?fs junk "nk_base m"] unfolding cf
    by (simp only: nack_serialize_def Let_def unat_miss_cnt) simp
qed

lemma nack_deserialize_wire:
  "nack_deserialize r (wire (nk_base m) (nack_payload m)) =
     Some (m\<lparr>nk_base := deserialize_data_cut (nk_base r) (of_nat (length (wire (nk_base m) (nack_payload m)))),
             nk_missing_pages := take kMaxMissingPages (nk_missing_pages m)\<rparr>)"
proof -
  let ?c = "min (length (nk_missing_pages m)) kMaxMissingPages"
  let ?fs = "[le_bytes 2 (nk_page_cnt m), le_bytes 4 (nk_total_size m), le_bytes 4 (nk_data_msg_id m),
    le_bytes 4 (nk_receiver_id m), le_bytes 4 (nk_sequence m), le_bytes 2 (of_nat ?c :: u16)]"
  let ?ps = "map (le_bytes 2) (take kMaxMissingPages (nk_missing_pages m))"
  define w where "w = wire (nk_base m) (concat ?fs @ concat ?ps)"
  define b where "b = deserialize_data_cut (nk_base r) (of_nat (length w))"
  have p: "nack_payload m = concat ?fs @ concat ?ps" by (simp add: nack_payload_def)
  have small: "length (concat ?fs @ concat ?ps) < max_payload"
    unfolding p [symmetric] length_nack_payload by (simp add: max_payload_def kMaxMissingPages_def)
  have h: "read_fields w (b, 0) [2, 4, 4, 4, 4, 2] = Some ((b, phys 20), ?fs)"
    unfolding w_def b_def by (rule read_header [OF small]) simp_all
  have r: "read_fields w (b, phys 20) (replicate ?c 2) =
      Some ((b, phys (20 + length (concat ?ps))), ?ps)"
    unfolding w_def b_def by (rule read_rest [OF small]) (simp_all add: min.commute)
  have "nack_deserialize r w =
      Some (m\<lparr>nk_base := b, nk_missing_pages := take kMaxMissingPages (nk_missing_pages m)\<rparr>)"
    using r by (simp add: nack_deserialize_def h unat_miss_cnt flip: b_def)
  then show ?thesis unfolding p b_def w_def by simp
qed

text \<open>
  Round trip of the explicit NACK: the receiver of the frame reads back every field, and of
  the missing pages the first 256, which is all the frame carries.
\<close>

theorem nack_roundtrip:
  "\<exists>m2 data. nack_serialize junk m = Some (m2, data) \<and>
     nack_deserialize r data =
       Some (m\<lparr>nk_base := deserialize_data_cut (nk_base r) (of_nat (length data)),
               nk_missing_pages := take kMaxMissingPages (nk_missing_pages m)\<rparr>)"
  unfolding nack_serialize_wire using nack_deserialize_wire [of r m] by simp

section \<open>The bitmap NACK\<close>

definition kRtpsNackBitmapMsgId :: u32 where "kRtpsNackBitmapMsgId = 0x445A4E42"
definition kMaxWireBytes :: nat where "kMaxWireBytes = 1459"
definition kFixedFieldBytes :: nat where "kFixedFieldBytes = 2 + 4 + 4 + 4 + 4 + 2 + 2"
definition kMaxBitmapBytes :: nat where "kMaxBitmapBytes = kMaxWireBytes - kFixedFieldBytes"
definition kMaxBitmapBits :: nat where "kMaxBitmapBits = kMaxBitmapBytes * 8"

lemmas bitmap_bounds =
  kMaxBitmapBits_def kMaxBitmapBytes_def kMaxWireBytes_def kFixedFieldBytes_def

record nack_bitmap_msg =
  nb_base :: msg_base
  nb_page_cnt :: u16
  nb_total_size :: u32
  nb_data_msg_id :: u32
  nb_receiver_id :: u32
  nb_sequence :: u32
  nb_base_page :: u16
  nb_bit_cnt :: u16
  nb_bitmap :: bytes

definition IpcRtpsNackBitmapMsg :: nack_bitmap_msg where
  "IpcRtpsNackBitmapMsg = \<lparr>nb_base = msg_base_init kRtpsNackBitmapMsgId, nb_page_cnt = 0,
     nb_total_size = 0, nb_data_msg_id = 0, nb_receiver_id = 0, nb_sequence = 0,
     nb_base_page = 0, nb_bit_cnt = 0, nb_bitmap = []\<rparr>"

definition check_nb_id :: "bytes \<Rightarrow> bool" where
  "check_nb_id data = check_id data kRtpsNackBitmapMsgId"

definition reset_window :: "nack_bitmap_msg \<Rightarrow> u16 \<Rightarrow> nat \<Rightarrow> nack_bitmap_msg" where
  "reset_window m base bits =
     (let bit_cnt = of_nat (min bits kMaxBitmapBits) :: u16 in
      m\<lparr>nb_base_page := base, nb_bit_cnt := bit_cnt,
        nb_bitmap := replicate ((unat bit_cnt + 7) div 8) 0\<rparr>)"

text \<open>\<open>set_missing\<close> indexes the vector without a check of its own: \<open>None\<close> is out of range.\<close>

definition set_missing :: "nack_bitmap_msg \<Rightarrow> u16 \<Rightarrow> nack_bitmap_msg option" where
  "set_missing m page =
     (if page < nb_base_page m then Some m
      else (let idx = unat page - unat (nb_base_page m) in
        if unat (nb_bit_cnt m) \<le> idx then Some m
        else if length (nb_bitmap m) \<le> drop_bit 3 idx then None
        else Some (m\<lparr>nb_bitmap := (nb_bitmap m)
          [drop_bit 3 idx := nb_bitmap m ! drop_bit 3 idx OR push_bit (idx AND 7) 1]\<rparr>)))"

definition is_missing :: "nack_bitmap_msg \<Rightarrow> u16 \<Rightarrow> bool" where
  "is_missing m page =
     (if page < nb_base_page m then False
      else (let idx = unat page - unat (nb_base_page m) in
        if unat (nb_bit_cnt m) \<le> idx \<or> length (nb_bitmap m) \<le> drop_bit 3 idx then False
        else nb_bitmap m ! drop_bit 3 idx AND push_bit (idx AND 7) 1 \<noteq> 0))"

text \<open>The number of bitmap bytes \<open>serialize\<close> sends.\<close>

definition nb_map_bytes :: "nack_bitmap_msg \<Rightarrow> u16" where
  "nb_map_bytes m =
     (let bits = of_nat (min (unat (nb_bit_cnt m)) kMaxBitmapBits) :: u16;
          want_bytes = (unat bits + 7) div 8
      in of_nat (min want_bytes (length (nb_bitmap m))))"

definition nack_bitmap_serialize ::
  "(nat \<Rightarrow> byte) \<Rightarrow> nack_bitmap_msg \<Rightarrow> (nack_bitmap_msg \<times> bytes) option" where
  "nack_bitmap_serialize junk m =
     (let map_bytes = nb_map_bytes m;
          total_size = of_nat (2 + 4 + 4 + 4 + 4 + 2 + 2) + ucast map_bytes in
      do {
        (b, data) \<leftarrow> serialize_fields junk (nb_base m) total_size
          ([le_bytes 2 (nb_page_cnt m), le_bytes 4 (nb_total_size m), le_bytes 4 (nb_data_msg_id m),
            le_bytes 4 (nb_receiver_id m), le_bytes 4 (nb_sequence m), le_bytes 2 (nb_base_page m),
            le_bytes 2 map_bytes]
           @ (if 0 < map_bytes then [take (unat map_bytes) (nb_bitmap m)] else []));
        Some (m\<lparr>nb_base := b\<rparr>, data)
      })"

definition nack_bitmap_deserialize :: "nack_bitmap_msg \<Rightarrow> bytes \<Rightarrow> nack_bitmap_msg option" where
  "nack_bitmap_deserialize m buffer =
     (if length buffer < kFixedFieldBytes + 12 then Some m
      else do {
        (r, fs) \<leftarrow> read_fields buffer (deserialize_data_cut (nb_base m) (of_nat (length buffer)), 0)
          [2, 4, 4, 4, 4, 2, 2];
        let avail = length buffer - kFixedFieldBytes - 12;
        let take_n = min (min (unat (of_le (fs ! 6) :: u16)) avail) kMaxBitmapBytes;
        (r, bm) \<leftarrow> read_fields buffer r (if 0 < take_n then [take_n] else []);
        Some \<lparr>nb_base = fst r, nb_page_cnt = of_le (fs ! 0), nb_total_size = of_le (fs ! 1),
          nb_data_msg_id = of_le (fs ! 2), nb_receiver_id = of_le (fs ! 3),
          nb_sequence = of_le (fs ! 4), nb_base_page = of_le (fs ! 5),
          nb_bit_cnt = of_nat (take_n * 8), nb_bitmap = concat bm\<rparr>
      })"

subsection \<open>The window\<close>

text \<open>
  The states a receiver builds: the bitmap has the bytes its bit count needs, within one page,
  and the bits past the count are clear.
\<close>

definition bitmap_wf :: "nack_bitmap_msg \<Rightarrow> bool" where
  "bitmap_wf m \<longleftrightarrow> unat (nb_bit_cnt m) \<le> kMaxBitmapBits \<and>
     length (nb_bitmap m) = (unat (nb_bit_cnt m) + 7) div 8 \<and>
     (\<forall>i < 8 * length (nb_bitmap m). unat (nb_bit_cnt m) \<le> i \<longrightarrow>
        \<not> bit (nb_bitmap m ! (i div 8)) (i mod 8))"

definition window_idx :: "nack_bitmap_msg \<Rightarrow> u16 \<Rightarrow> nat \<Rightarrow> bool" where
  "window_idx m page i \<longleftrightarrow> nb_base_page m \<le> page \<and> i = unat page - unat (nb_base_page m)"

lemma idx_split: "drop_bit 3 i = i div 8" "i AND 7 = i mod 8" for i :: nat
  using take_bit_eq_mask [of 3 i] by (simp_all add: drop_bit_eq_div take_bit_eq_mod mask_eq_exp_minus_1)

lemma is_missing_bit:
  "is_missing m page \<longleftrightarrow> nb_base_page m \<le> page \<and>
     (let i = unat page - unat (nb_base_page m) in
       i < unat (nb_bit_cnt m) \<and> i div 8 < length (nb_bitmap m) \<and> bit (nb_bitmap m ! (i div 8)) (i mod 8))"
  by (auto simp: is_missing_def Let_def idx_split and_exp_eq_0_iff_not_bit not_less not_le)

lemma bit_cnt_bound: "unat (of_nat (min bits kMaxBitmapBits) :: u16) = min bits kMaxBitmapBits"
  by (simp add: unat_of_nat bitmap_bounds)

lemma reset_window_wf: "bitmap_wf (reset_window m base bits)"
  by (simp add: bitmap_wf_def reset_window_def Let_def bit_cnt_bound less_mult_imp_div_less mult.commute)

lemma reset_window_clear: "\<not> is_missing (reset_window m base bits) page"
  by (auto simp: is_missing_bit reset_window_def Let_def)

lemma cover_idx: "i < n \<Longrightarrow> i div 8 < (n + 7) div 8" for i n :: nat
  by linarith

lemma same_byte_bit: "i div 8 = j div 8 \<Longrightarrow> i mod 8 = j mod 8 \<Longrightarrow> i = j" for i j :: nat
  by (metis div_mult_mod_eq)

text \<open>The page numbers the window of \<open>m\<close> covers.\<close>

definition in_window :: "nack_bitmap_msg \<Rightarrow> u16 \<Rightarrow> bool" where
  "in_window m page \<longleftrightarrow>
     nb_base_page m \<le> page \<and> unat page < unat (nb_base_page m) + unat (nb_bit_cnt m)"

lemma set_missing_ok:
  assumes wf: "bitmap_wf m"
  shows "\<exists>m'. set_missing m page = Some m' \<and> bitmap_wf m' \<and>
    nb_base_page m' = nb_base_page m \<and> nb_bit_cnt m' = nb_bit_cnt m \<and>
    (\<forall>q. is_missing m' q \<longleftrightarrow> is_missing m q \<or> q = page \<and> in_window m page)"
proof (cases "in_window m page")
  case False
  then have "set_missing m page = Some m"
    by (auto simp: set_missing_def in_window_def Let_def not_less not_le)
  with False wf show ?thesis by auto
next
  case True
  define i where "i = unat page - unat (nb_base_page m)"
  have le: "unat (nb_base_page m) \<le> unat page" and "nb_base_page m \<le> page"
    using True by (auto simp: in_window_def word_le_nat_alt)
  then have i: "i < unat (nb_bit_cnt m)" using True by (auto simp: in_window_def i_def)
  have len: "i div 8 < length (nb_bitmap m)"
    using cover_idx [OF i] wf by (simp add: bitmap_wf_def)
  let ?m = "m\<lparr>nb_bitmap := (nb_bitmap m)[i div 8 := nb_bitmap m ! (i div 8) OR push_bit (i mod 8) 1]\<rparr>"
  have bits: "bit (nb_bitmap ?m ! (j div 8)) (j mod 8) \<longleftrightarrow>
      bit (nb_bitmap m ! (j div 8)) (j mod 8) \<or> j = i" if "j div 8 < length (nb_bitmap m)" for j
    using len that same_byte_bit [of j i]
    by (auto simp: nth_list_update bit_or_iff bit_exp_iff possible_bit_def)
  have bi: "bit (nb_bitmap m ! (i div 8) OR 2 ^ (i mod 8)) (i mod 8)"
    by (simp add: bit_or_iff bit_exp_iff possible_bit_def)
  have "set_missing m page = Some ?m"
    using \<open>nb_base_page m \<le> page\<close> i len
    by (simp add: set_missing_def Let_def idx_split not_less flip: i_def)
  moreover have "bitmap_wf ?m"
    using wf bits i by (auto simp: bitmap_wf_def less_mult_imp_div_less mult.commute)
  moreover have "is_missing ?m q \<longleftrightarrow> is_missing m q \<or> q = page \<and> in_window m page" for q
  proof -
    have "unat q - unat (nb_base_page m) = i \<longleftrightarrow> q = page" if "nb_base_page m \<le> q"
      using that le by (auto simp: i_def word_le_nat_alt word_unat_eq_iff)
    then show ?thesis
      using bits True len \<open>nb_base_page m \<le> page\<close> bi
      by (auto simp: is_missing_bit Let_def i_def [symmetric] i)
  qed
  ultimately show ?thesis by auto
qed


lemma set_missing_all:
  "bitmap_wf m \<Longrightarrow> \<exists>m'. foldM set_missing m pages = Some m' \<and> bitmap_wf m' \<and>
     (\<forall>q. is_missing m' q \<longleftrightarrow> is_missing m q \<or> q \<in> set pages \<and> in_window m q)"
proof (induction pages arbitrary: m)
  case Nil
  then show ?case by simp
next
  case (Cons p pages)
  then obtain m1 where m1: "set_missing m p = Some m1" "bitmap_wf m1"
      "nb_base_page m1 = nb_base_page m" "nb_bit_cnt m1 = nb_bit_cnt m"
      "\<forall>q. is_missing m1 q \<longleftrightarrow> is_missing m q \<or> q = p \<and> in_window m p"
    using set_missing_ok by blast
  with Cons.IH [OF m1(2)] show ?case by (auto simp: in_window_def)
qed

text \<open>
  The bitmap a receiver builds: after opening a window and marking any list of pages, a page
  is reported missing exactly when it was marked and lies in the window, no mark falls outside
  the bitmap, and the state is well formed.
\<close>

theorem bitmap_window_exact:
  "\<exists>m'. foldM set_missing (reset_window m base bits) pages = Some m' \<and> bitmap_wf m' \<and>
     (\<forall>q. is_missing m' q \<longleftrightarrow> q \<in> set pages \<and> base \<le> q \<and>
        unat q < unat base + min bits kMaxBitmapBits)"
  using set_missing_all [OF reset_window_wf, of m base bits pages] reset_window_clear [of m base bits]
  by (simp add: in_window_def reset_window_def Let_def bit_cnt_bound)

subsection \<open>The frame\<close>

definition nb_header :: "nack_bitmap_msg \<Rightarrow> bytes list" where
  "nb_header m = [le_bytes 2 (nb_page_cnt m), le_bytes 4 (nb_total_size m), le_bytes 4 (nb_data_msg_id m),
     le_bytes 4 (nb_receiver_id m), le_bytes 4 (nb_sequence m), le_bytes 2 (nb_base_page m),
     le_bytes 2 (nb_map_bytes m)]"

definition nb_sent :: "nack_bitmap_msg \<Rightarrow> bytes" where
  "nb_sent m = take (unat (nb_map_bytes m)) (nb_bitmap m)"

definition nb_payload :: "nack_bitmap_msg \<Rightarrow> bytes" where
  "nb_payload m = concat (nb_header m) @ nb_sent m"

lemma unat_nb_map_bytes:
  "unat (nb_map_bytes m) =
     min ((min (unat (nb_bit_cnt m)) kMaxBitmapBits + 7) div 8) (length (nb_bitmap m))"
proof -
  have "(min (unat (nb_bit_cnt m)) kMaxBitmapBits + 7) div 8 < 2 ^ 16"
    by (simp add: bitmap_bounds min_def) linarith
  then have "min ((min (unat (nb_bit_cnt m)) kMaxBitmapBits + 7) div 8) (length (nb_bitmap m)) < 2 ^ 16"
    by simp
  moreover have "min (unat (nb_bit_cnt m)) kMaxBitmapBits mod 65536 = min (unat (nb_bit_cnt m)) kMaxBitmapBits"
    by (simp add: bitmap_bounds)
  ultimately show ?thesis by (simp add: nb_map_bytes_def Let_def unat_of_nat)
qed

lemma nb_map_bytes_bounds:
  "unat (nb_map_bytes m) \<le> kMaxBitmapBytes" "unat (nb_map_bytes m) \<le> length (nb_bitmap m)"
proof -
  have "(min (unat (nb_bit_cnt m)) kMaxBitmapBits + 7) div 8 \<le> kMaxBitmapBytes"
    using div_le_mono [of "min (unat (nb_bit_cnt m)) kMaxBitmapBits + 7" "kMaxBitmapBits + 7" 8]
    by (simp add: bitmap_bounds)
  then show "unat (nb_map_bytes m) \<le> kMaxBitmapBytes" unfolding unat_nb_map_bytes by simp
qed (simp add: unat_nb_map_bytes)

lemma length_nb_sent [simp]: "length (nb_sent m) = unat (nb_map_bytes m)"
  using nb_map_bytes_bounds (2) [of m] by (simp add: nb_sent_def)

lemma length_nb_header [simp]: "length (concat (nb_header m)) = 22"
  by (simp add: nb_header_def)


lemma nb_payload_small: "length (nb_payload m) < 1460" "length (nb_payload m) < max_payload"
  using nb_map_bytes_bounds (1) [of m] by (simp_all add: nb_payload_def bitmap_bounds max_payload_def)

lemma nack_bitmap_serialize_wire:
  "nack_bitmap_serialize junk m =
     Some (m\<lparr>nb_base := cut_base (nb_base m) (length (nb_payload m))\<rparr>,
           wire (nb_base m) (nb_payload m))"
proof -
  let ?fs = "nb_header m @ (if 0 < nb_map_bytes m then [nb_sent m] else [])"
  have cf: "concat ?fs = nb_payload m"
    by (auto simp: nb_payload_def nb_sent_def word_greater_zero_iff)
  have "(of_nat (length (nb_payload m)) :: u32) =
      of_nat (2 + 4 + 4 + 4 + 4 + 2 + 2) + ucast (nb_map_bytes m)"
    unfolding ucast_of_nat_unat [of "nb_map_bytes m"] by (simp add: nb_payload_def)
  then show ?thesis
    using serialize_fields_wire [of ?fs junk "nb_base m"] nb_payload_small (2) [of m] unfolding cf
    by (simp only: nack_bitmap_serialize_def Let_def nb_header_def nb_sent_def) simp
qed

lemma nack_bitmap_deserialize_wire:
  "nack_bitmap_deserialize r (wire (nb_base m) (nb_payload m)) =
     Some (m\<lparr>nb_base := deserialize_data_cut (nb_base r) (of_nat (length (wire (nb_base m) (nb_payload m)))),
              nb_bit_cnt := of_nat (unat (nb_map_bytes m) * 8), nb_bitmap := nb_sent m\<rparr>)"
proof -
  define w where "w = wire (nb_base m) (concat (nb_header m) @ concat [nb_sent m])"
  define b where "b = deserialize_data_cut (nb_base r) (of_nat (length w))"
  have p: "nb_payload m = concat (nb_header m) @ concat [nb_sent m]" by (simp add: nb_payload_def)
  have small: "length (concat (nb_header m) @ concat [nb_sent m]) < max_payload"
    unfolding p [symmetric] by (rule nb_payload_small)
  have lw: "length w = 34 + unat (nb_map_bytes m)"
    using nb_payload_small (1) [of m] unfolding w_def length_wire p [symmetric]
    by (simp add: phys_def nb_payload_def)
  have h: "read_fields w (b, 0) [2, 4, 4, 4, 4, 2, 2] = Some ((b, phys 22), nb_header m)"
    unfolding w_def b_def by (rule read_header [OF small]) (simp_all add: nb_header_def)
  have r: "read_fields w (b, phys 22) [unat (nb_map_bytes m)] =
      Some ((b, phys (22 + length (concat [nb_sent m]))), [nb_sent m])"
    unfolding w_def b_def by (rule read_rest [OF small]) simp_all
  have "nb_header m ! 6 = le_bytes 2 (nb_map_bytes m)" by (simp add: nb_header_def)
  then have t: "min (min (unat (of_le (nb_header m ! 6) :: u16)) (length w - kFixedFieldBytes - 12))
      kMaxBitmapBytes = unat (nb_map_bytes m)"
    using nb_map_bytes_bounds (1) [of m] by (simp add: lw kFixedFieldBytes_def)
  have ge: "\<not> length w < kFixedFieldBytes + 12" unfolding lw kFixedFieldBytes_def by simp
  have e: "(if 0 < unat (nb_map_bytes m) then [unat (nb_map_bytes m)] else []) =
      (if nb_map_bytes m = 0 then [] else [unat (nb_map_bytes m)])"
    by (simp add: unat_gt_0)
  have s0: "nb_sent m = []" if "nb_map_bytes m = 0"
    using that by (simp add: nb_sent_def)
  have "nack_bitmap_deserialize r w =
      Some (m\<lparr>nb_base := b, nb_bit_cnt := of_nat (unat (nb_map_bytes m) * 8), nb_bitmap := nb_sent m\<rparr>)"
    unfolding nack_bitmap_deserialize_def b_def [symmetric] h if_not_P [OF ge]
    by (simp only: Option.bind.simps prod.case Let_def t e)
       (auto simp: r [simplified] mapM.simps(1) nb_header_def s0)
  then show ?thesis unfolding p b_def w_def .
qed


lemma bitmap_wf_sent: "bitmap_wf m \<Longrightarrow> unat (nb_map_bytes m) = length (nb_bitmap m)"
  by (simp add: bitmap_wf_def unat_nb_map_bytes min_absorb1)

lemma nack_bitmap_reports:
  assumes wf: "bitmap_wf m"
  shows "\<exists>m2 data m3. nack_bitmap_serialize junk m = Some (m2, data) \<and>
    length data \<le> 1471 \<and> nack_bitmap_deserialize r data = Some m3 \<and>
    nb_page_cnt m3 = nb_page_cnt m \<and> nb_total_size m3 = nb_total_size m \<and>
    nb_data_msg_id m3 = nb_data_msg_id m \<and> nb_receiver_id m3 = nb_receiver_id m \<and>
    nb_sequence m3 = nb_sequence m \<and> nb_base_page m3 = nb_base_page m \<and>
    (\<forall>q. is_missing m3 q = is_missing m q)"
proof -
  define m3 where "m3 = m\<lparr>nb_base := deserialize_data_cut (nb_base r)
      (of_nat (length (wire (nb_base m) (nb_payload m)))),
    nb_bit_cnt := of_nat (unat (nb_map_bytes m) * 8), nb_bitmap := nb_sent m\<rparr>"
  have sent: "nb_sent m = nb_bitmap m" by (simp add: nb_sent_def bitmap_wf_sent [OF wf])
  have len: "length (nb_bitmap m) \<le> kMaxBitmapBytes"
    using nb_map_bytes_bounds (1) [of m] bitmap_wf_sent [OF wf] by simp
  then have cnt: "unat (of_nat (length (nb_bitmap m) * 8) :: u16) = length (nb_bitmap m) * 8"
    by (simp add: unat_of_nat bitmap_bounds del: of_nat_mult)
  have le: "i < unat (nb_bit_cnt m) \<Longrightarrow> i < length (nb_bitmap m) * 8" for i
    using wf by (simp add: bitmap_wf_def)
  have pad: "i < unat (nb_bit_cnt m)"
    if "i < 8 * length (nb_bitmap m)" "bit (nb_bitmap m ! (i div 8)) (i mod 8)" for i
    using wf that unfolding bitmap_wf_def by (metis not_le)
  have "is_missing m3 q = is_missing m q" for q
    using cnt le pad
    by (auto simp: is_missing_bit m3_def Let_def sent bitmap_wf_sent [OF wf] mult.commute
        simp del: of_nat_mult)
  moreover have "length (wire (nb_base m) (nb_payload m)) \<le> 1471"
    using nb_payload_small (1) [of m] by (simp add: phys_def)
  ultimately show ?thesis
    unfolding nack_bitmap_serialize_wire using nack_bitmap_deserialize_wire [of r m]
    by (simp add: m3_def)
qed

text \<open>
  Round trip of the bitmap NACK: every header field and the missing status of every page
  number survive, although the bit count is rounded up to a byte; the frame is one datagram.
\<close>

theorem nack_bitmap_roundtrip:
  assumes wf: "bitmap_wf m"
  shows "\<exists>m2 data m3. nack_bitmap_serialize junk m = Some (m2, data) \<and>
    length data \<le> 1471 \<and> nack_bitmap_deserialize r data = Some m3 \<and>
    nb_page_cnt m3 = nb_page_cnt m \<and> nb_total_size m3 = nb_total_size m \<and>
    nb_data_msg_id m3 = nb_data_msg_id m \<and> nb_receiver_id m3 = nb_receiver_id m \<and>
    nb_sequence m3 = nb_sequence m \<and> nb_base_page m3 = nb_base_page m \<and>
    (\<forall>q. is_missing m3 q = is_missing m q)"
  by (rule nack_bitmap_reports [OF wf])

theorem nack_bitmap_roundtrip_witness:
  "\<exists>m2 data m3. nack_bitmap_serialize (\<lambda>i. 9) (reset_window IpcRtpsNackBitmapMsg 7 300) = Some (m2, data) \<and>
    length data \<le> 1471 \<and> nack_bitmap_deserialize IpcRtpsNackBitmapMsg data = Some m3 \<and>
    nb_base_page m3 = 7 \<and> \<not> is_missing m3 8"
  using nack_bitmap_roundtrip [OF reset_window_wf [of IpcRtpsNackBitmapMsg 7 300], of "\<lambda>i. 9" IpcRtpsNackBitmapMsg]
    reset_window_clear [of IpcRtpsNackBitmapMsg 7 300]
  by (auto simp: reset_window_def Let_def IpcRtpsNackBitmapMsg_def)

section \<open>The ACK\<close>

definition kRtpsAckMsgId :: u32 where "kRtpsAckMsgId = 0x445A414B"

record ack_msg =
  ak_base :: msg_base
  ak_page_cnt :: u16
  ak_total_size :: u32
  ak_data_msg_id :: u32
  ak_receiver_id :: u32
  ak_sequence :: u32
  ak_integrity_flags :: byte
  ak_payload_crc32c :: u32

definition IpcRtpsAckMsg :: ack_msg where
  "IpcRtpsAckMsg = \<lparr>ak_base = msg_base_init kRtpsAckMsgId, ak_page_cnt = 0, ak_total_size = 0,
     ak_data_msg_id = 0, ak_receiver_id = 0, ak_sequence = 0, ak_integrity_flags = 0,
     ak_payload_crc32c = 0\<rparr>"

definition check_ak_id :: "bytes \<Rightarrow> bool" where
  "check_ak_id data = check_id data kRtpsAckMsgId"

definition ack_fields :: "ack_msg \<Rightarrow> bytes list" where
  "ack_fields m = [le_bytes 2 (ak_page_cnt m), le_bytes 4 (ak_total_size m),
     le_bytes 4 (ak_data_msg_id m), le_bytes 4 (ak_receiver_id m), le_bytes 4 (ak_sequence m),
     le_bytes 1 (ak_integrity_flags m), le_bytes 4 (ak_payload_crc32c m)]"

definition ack_serialize :: "(nat \<Rightarrow> byte) \<Rightarrow> ack_msg \<Rightarrow> (ack_msg \<times> bytes) option" where
  "ack_serialize junk m =
     do {
       (b, data) \<leftarrow> serialize_fields junk (ak_base m) (of_nat (2 + 4 + 4 + 4 + 4 + 1 + 4)) (ack_fields m);
       Some (m\<lparr>ak_base := b\<rparr>, data)
     }"

text \<open>
  The sequence and the two integrity fields are read only when the frame has room for all of
  them: \<open>min_size_for_seq\<close> and \<open>min_size_for_crc\<close> are the same sum in the code, and the last
  branch needs an even larger frame, so it is never taken. A field not read keeps its value.
\<close>

definition min_size_for_seq :: nat where "min_size_for_seq = 2 + 4 + 4 + 4 + 4 + 1 + 4 + 12"
definition min_size_for_crc :: nat where "min_size_for_crc = 2 + 4 + 4 + 4 + 4 + 1 + 4 + 12"

definition ack_deserialize :: "ack_msg \<Rightarrow> bytes \<Rightarrow> ack_msg option" where
  "ack_deserialize m buffer =
     do {
       (r, fs) \<leftarrow> read_fields buffer (deserialize_data_cut (ak_base m) (of_nat (length buffer)), 0)
         [2, 4, 4, 4];
       let m = m\<lparr>ak_page_cnt := of_le (fs ! 0), ak_total_size := of_le (fs ! 1),
         ak_data_msg_id := of_le (fs ! 2), ak_receiver_id := of_le (fs ! 3)\<rparr>;
       (r, m) \<leftarrow> (if min_size_for_seq \<le> length buffer
         then do { (r, fs) \<leftarrow> read_fields buffer r [4]; Some (r, m\<lparr>ak_sequence := of_le (fs ! 0)\<rparr>) }
         else Some (r, m));
       (r, m) \<leftarrow> (if min_size_for_crc \<le> length buffer \<or> min_size_for_seq + 1 + 4 \<le> length buffer
         then do {
           (r, fs) \<leftarrow> read_fields buffer r [1, 4];
           Some (r, m\<lparr>ak_integrity_flags := of_le (fs ! 0), ak_payload_crc32c := of_le (fs ! 1)\<rparr>)
         }
         else Some (r, m));
       Some (m\<lparr>ak_base := fst r\<rparr>)
     }"


lemma ack_fields_length: "length (concat (ack_fields m)) = 23" "map length (ack_fields m) = [2, 4, 4, 4, 4, 1, 4]"
  by (simp_all add: ack_fields_def)

text \<open>A message of fixed-size fields, serialised and read back.\<close>

lemma serialize_fields_fixed:
  assumes "length (concat fs) < max_payload" and "n = of_nat (length (concat fs))"
  shows "serialize_fields junk m n fs =
    Some (cut_base m (length (concat fs)), wire m (concat fs))"
  using serialize_fields_wire [OF assms(1), of junk m] assms(2) by simp

lemma read_fixed:
  assumes "length (concat fs) < max_payload" and "ns = map length fs"
    and "n = length (wire m (concat fs))"
  shows "read_fields (wire m (concat fs)) (deserialize_data_cut m' (of_nat n), 0) ns =
    Some ((deserialize_data_cut m' (of_nat n), phys (length (concat fs))), fs)"
  using read_header [of fs "[]" ns n m "length (concat fs)" m'] assms by simp

lemma mapM_append:
  "mapM f s (xs @ ys) = do { (s, as) \<leftarrow> mapM f s xs; (s, bs) \<leftarrow> mapM f s ys; Some (s, as @ bs) }"
proof (induction xs arbitrary: s)
  case Nil
  then show ?case by (simp add: mapM.simps split: bind_split)
next
  case (Cons x xs)
  then show ?case by (auto simp: mapM.simps split: bind_splits)
qed

lemma ack_serialize_wire:
  "ack_serialize junk m =
     Some (m\<lparr>ak_base := cut_base (ak_base m) 23\<rparr>, wire (ak_base m) (concat (ack_fields m)))"
  by (simp add: ack_serialize_def serialize_fields_fixed ack_fields_length max_payload_def)

lemma ack_deserialize_wire:
  "ack_deserialize r (wire b (concat (ack_fields m))) =
     Some (m\<lparr>ak_base := deserialize_data_cut (ak_base r) 35\<rparr>)"
proof -
  define w where "w = wire b (concat (ack_fields m))"
  define c where "c = deserialize_data_cut (ak_base r) (of_nat (length w))"
  have lw: "length w = 35" by (simp add: w_def ack_fields_length phys_def)
  let ?f1 = "take 4 (ack_fields m)" let ?f2 = "[ack_fields m ! 4]" let ?f3 = "drop 5 (ack_fields m)"
  have small: "length (concat (ack_fields m)) < max_payload"
    by (simp add: ack_fields_length max_payload_def)
  have all: "concat (ack_fields m) = concat ?f1 @ concat (?f2 @ ?f3)"
    "concat (ack_fields m) = concat ?f1 @ concat ?f2 @ concat ?f3"
    "concat (ack_fields m) = concat (?f1 @ ?f2) @ concat ?f3"
    by (simp_all add: ack_fields_def)
  have r1: "read_fields w (c, 0) [2, 4, 4, 4] = Some ((c, phys 14), ?f1)"
    unfolding w_def c_def all(1)
    by (rule read_header [OF small [unfolded all(1)]]) (simp_all add: ack_fields_def)
  have r2: "read_fields w (c, phys 14) [4] = Some ((c, phys (14 + length (concat ?f2))), ?f2)"
    using get_fields_at [of "concat ?f1" ?f2 "concat ?f3" b "ak_base r"] small
    unfolding w_def c_def all(2) by (simp add: ack_fields_def)
  have r3: "read_fields w (c, phys 18) [1, 4] = Some ((c, phys (18 + length (concat ?f3))), ?f3)"
    unfolding w_def c_def all(3)
    by (rule read_rest [OF small [unfolded all(3)]]) (simp_all add: ack_fields_def)
  have "length (concat ?f2) = 4" by (simp add: ack_fields_def)
  then have "ack_deserialize r w = Some (m\<lparr>ak_base := c\<rparr>)"
    unfolding ack_deserialize_def c_def [symmetric] r1
    by (simp add: r2 r3 [unfolded One_nat_def] lw min_size_for_seq_def min_size_for_crc_def) (simp add: ack_fields_def)
  moreover have "c = deserialize_data_cut (ak_base r) 35" by (simp add: c_def lw)
  ultimately show ?thesis by (simp add: w_def)
qed

text \<open>Round trip of the ACK: every field is read back as it was sent.\<close>

theorem ack_roundtrip:
  "\<exists>m2 data. ack_serialize junk m = Some (m2, data) \<and>
     ack_deserialize r data = Some (m\<lparr>ak_base := deserialize_data_cut (ak_base r) (of_nat (length data))\<rparr>)"
  unfolding ack_serialize_wire by (simp add: ack_deserialize_wire ack_fields_length phys_def)

lemma read_fields_safe:
  assumes "length buffer < 2 ^ 32"
  shows "\<exists>r fs. read_fields buffer (deserialize_data_cut m (of_nat (length buffer)), off) ns = Some (r, fs)"
  using get_fields_safe [of "deserialize_data_cut m (of_nat (length buffer))" buffer off ns]
    deserialize_data_cut_total [OF assms, of m] by auto

text \<open>
  Frames of the formats before the integrity fields: a frame of fewer than 35 bytes, such
  as the 30-byte frame without a sequence or the 34-byte frame with one, is read without an
  access outside it and leaves sequence, flags and checksum at the values they had.
\<close>

theorem ack_short_frame_keeps_sequence:
  assumes "length buffer < 35"
  shows "\<exists>m'. ack_deserialize m buffer = Some m' \<and> ak_sequence m' = ak_sequence m \<and>
    ak_integrity_flags m' = ak_integrity_flags m \<and> ak_payload_crc32c m' = ak_payload_crc32c m"
proof -
  obtain r fs where "read_fields buffer (deserialize_data_cut (ak_base m) (of_nat (length buffer)), 0)
      [2, 4, 4, 4] = Some (r, fs)"
    using read_fields_safe [of buffer "ak_base m" 0 "[2, 4, 4, 4]"] assms by auto
  then show ?thesis
    using assms by (simp add: ack_deserialize_def min_size_for_seq_def min_size_for_crc_def)
qed

theorem ack_short_frame_keeps_sequence_witness:
  "\<exists>m'. ack_deserialize IpcRtpsAckMsg (replicate 34 1) = Some m' \<and> ak_sequence m' = 0"
  using ack_short_frame_keeps_sequence [of "replicate 34 1" IpcRtpsAckMsg]
  by (auto simp: IpcRtpsAckMsg_def)


section \<open>The ACK with congestion feedback\<close>

definition kRtpsAck2MsgId :: u32 where "kRtpsAck2MsgId = 0x445A4132"
definition ack2_kWireSize :: nat where "ack2_kWireSize = 2 + 4 + 4 + 4 + 4 + 1 + 4 + 2 + 4 + 12"

record ack2_msg =
  a2_ack :: ack_msg
  a2_lost_pages :: u16
  a2_observed_bps :: u32

definition IpcRtpsAck2Msg :: ack2_msg where
  "IpcRtpsAck2Msg = \<lparr>a2_ack = IpcRtpsAckMsg\<lparr>ak_base := msg_base_init kRtpsAck2MsgId\<rparr>,
     a2_lost_pages = 0, a2_observed_bps = 0\<rparr>"

definition check_ak2_id :: "bytes \<Rightarrow> bool" where
  "check_ak2_id data = check_id data kRtpsAck2MsgId"

definition ack2_fields :: "ack2_msg \<Rightarrow> bytes list" where
  "ack2_fields m = ack_fields (a2_ack m) @ [le_bytes 2 (a2_lost_pages m), le_bytes 4 (a2_observed_bps m)]"

definition ack2_serialize :: "(nat \<Rightarrow> byte) \<Rightarrow> ack2_msg \<Rightarrow> (ack2_msg \<times> bytes) option" where
  "ack2_serialize junk m =
     do {
       (b, data) \<leftarrow> serialize_fields junk (ak_base (a2_ack m))
         (of_nat (2 + 4 + 4 + 4 + 4 + 1 + 4 + 2 + 4)) (ack2_fields m);
       Some (m\<lparr>a2_ack := (a2_ack m)\<lparr>ak_base := b\<rparr>\<rparr>, data)
     }"

definition ack2_deserialize :: "ack2_msg \<Rightarrow> bytes \<Rightarrow> ack2_msg option" where
  "ack2_deserialize m buffer =
     (if length buffer \<noteq> ack2_kWireSize then Some m
      else do {
        (r, fs) \<leftarrow> read_fields buffer
          (deserialize_data_cut (ak_base (a2_ack m)) (of_nat (length buffer)), 0)
          [2, 4, 4, 4, 4, 1, 4, 2, 4];
        Some \<lparr>a2_ack = \<lparr>ak_base = fst r, ak_page_cnt = of_le (fs ! 0), ak_total_size = of_le (fs ! 1),
            ak_data_msg_id = of_le (fs ! 2), ak_receiver_id = of_le (fs ! 3),
            ak_sequence = of_le (fs ! 4), ak_integrity_flags = of_le (fs ! 5),
            ak_payload_crc32c = of_le (fs ! 6)\<rparr>,
          a2_lost_pages = of_le (fs ! 7), a2_observed_bps = of_le (fs ! 8)\<rparr>
      })"

lemma ack2_fields_length:
  "length (concat (ack2_fields m)) = 29" "map length (ack2_fields m) = [2, 4, 4, 4, 4, 1, 4, 2, 4]"
  by (simp_all add: ack2_fields_def ack_fields_def)

lemma ack2_serialize_wire:
  "ack2_serialize junk m =
     Some (m\<lparr>a2_ack := (a2_ack m)\<lparr>ak_base := cut_base (ak_base (a2_ack m)) 29\<rparr>\<rparr>,
           wire (ak_base (a2_ack m)) (concat (ack2_fields m)))"
  by (simp add: ack2_serialize_def serialize_fields_fixed ack2_fields_length max_payload_def)

lemma ack2_deserialize_wire:
  "ack2_deserialize r (wire b (concat (ack2_fields m))) =
     Some (m\<lparr>a2_ack := (a2_ack m)\<lparr>ak_base := deserialize_data_cut (ak_base (a2_ack r)) (of_nat ack2_kWireSize)\<rparr>\<rparr>)"
proof -
  define w where "w = wire b (concat (ack2_fields m))"
  define c where "c = deserialize_data_cut (ak_base (a2_ack r)) (of_nat (length w))"
  have lw: "length w = ack2_kWireSize"
    by (simp add: w_def ack2_fields_length phys_def ack2_kWireSize_def)
  have rd: "read_fields w (c, 0) [2, 4, 4, 4, 4, 1, 4, 2, 4] =
      Some ((c, phys (length (concat (ack2_fields m)))), ack2_fields m)"
    unfolding w_def c_def
    by (rule read_fixed) (simp_all add: ack2_fields_length max_payload_def)
  have "ack2_deserialize r w = Some (m\<lparr>a2_ack := (a2_ack m)\<lparr>ak_base := c\<rparr>\<rparr>)"
    using lw unfolding ack2_deserialize_def c_def [symmetric] rd
    by (simp add: ack2_fields_def ack_fields_def)
  then show ?thesis by (simp add: w_def [symmetric] c_def lw)
qed

text \<open>
  Round trip of the ACK with congestion feedback; its first 23 bytes are those of the plain
  ACK with the same fields, so the sender matches and checks both kinds by the same code.
\<close>

theorem ack2_roundtrip:
  "\<exists>m2 data. ack2_serialize junk m = Some (m2, data) \<and>
     take 23 data = concat (ack_fields (a2_ack m)) \<and>
     ack2_deserialize r data = Some (m\<lparr>a2_ack := (a2_ack m)\<lparr>ak_base :=
       deserialize_data_cut (ak_base (a2_ack r)) (of_nat (length data))\<rparr>\<rparr>)"
proof -
  let ?w = "wire (ak_base (a2_ack m)) (concat (ack2_fields m))"
  have "take 23 ?w = concat (ack_fields (a2_ack m))"
    by (simp add: wire_def frames_short ack2_fields_length) (simp add: ack2_fields_def ack_fields_length)
  moreover have "length ?w = ack2_kWireSize" by (simp add: ack2_fields_length phys_def ack2_kWireSize_def)
  ultimately show ?thesis
    unfolding ack2_serialize_wire using ack2_deserialize_wire [of r "ak_base (a2_ack m)" m] by simp
qed

section \<open>The heartbeat\<close>

definition kRtpsHeartbeatMsgId :: u32 where "kRtpsHeartbeatMsgId = 0x445A4842"
definition kFlagReliable :: byte where "kFlagReliable = 1"
definition kFlagFinal :: byte where "kFlagFinal = 2"
definition kFlagBitmapNack :: byte where "kFlagBitmapNack = 4"
definition kFlagRateFeedback :: byte where "kFlagRateFeedback = 8"
definition hb_kWireSize :: nat where "hb_kWireSize = 2 + 4 + 4 + 4 + 4 + 1 + 2 + 12"

record heartbeat_msg =
  hb_base :: msg_base
  hb_page_cnt :: u16
  hb_total_size :: u32
  hb_data_msg_id :: u32
  hb_sender_id :: u32
  hb_sequence :: u32
  hb_flags :: byte
  hb_round :: u16

definition IpcRtpsHeartbeatMsg :: heartbeat_msg where
  "IpcRtpsHeartbeatMsg = \<lparr>hb_base = msg_base_init kRtpsHeartbeatMsgId, hb_page_cnt = 0,
     hb_total_size = 0, hb_data_msg_id = 0, hb_sender_id = 0, hb_sequence = 0, hb_flags = 0,
     hb_round = 0\<rparr>"

definition check_hb_id :: "bytes \<Rightarrow> bool" where
  "check_hb_id data = check_id data kRtpsHeartbeatMsgId"

definition hb_fields :: "heartbeat_msg \<Rightarrow> bytes list" where
  "hb_fields m = [le_bytes 2 (hb_page_cnt m), le_bytes 4 (hb_total_size m),
     le_bytes 4 (hb_data_msg_id m), le_bytes 4 (hb_sender_id m), le_bytes 4 (hb_sequence m),
     le_bytes 1 (hb_flags m), le_bytes 2 (hb_round m)]"

definition heartbeat_serialize :: "(nat \<Rightarrow> byte) \<Rightarrow> heartbeat_msg \<Rightarrow> (heartbeat_msg \<times> bytes) option" where
  "heartbeat_serialize junk m =
     do {
       (b, data) \<leftarrow> serialize_fields junk (hb_base m) (of_nat (2 + 4 + 4 + 4 + 4 + 1 + 2)) (hb_fields m);
       Some (m\<lparr>hb_base := b\<rparr>, data)
     }"

definition heartbeat_deserialize :: "heartbeat_msg \<Rightarrow> bytes \<Rightarrow> heartbeat_msg option" where
  "heartbeat_deserialize m buffer =
     (if length buffer \<noteq> hb_kWireSize then Some m
      else do {
        (r, fs) \<leftarrow> read_fields buffer (deserialize_data_cut (hb_base m) (of_nat (length buffer)), 0)
          [2, 4, 4, 4, 4, 1, 2];
        Some \<lparr>hb_base = fst r, hb_page_cnt = of_le (fs ! 0), hb_total_size = of_le (fs ! 1),
          hb_data_msg_id = of_le (fs ! 2), hb_sender_id = of_le (fs ! 3),
          hb_sequence = of_le (fs ! 4), hb_flags = of_le (fs ! 5), hb_round = of_le (fs ! 6)\<rparr>
      })"

lemma hb_fields_length:
  "length (concat (hb_fields m)) = 21" "map length (hb_fields m) = [2, 4, 4, 4, 4, 1, 2]"
  by (simp_all add: hb_fields_def)

lemma heartbeat_serialize_wire:
  "heartbeat_serialize junk m =
     Some (m\<lparr>hb_base := cut_base (hb_base m) 21\<rparr>, wire (hb_base m) (concat (hb_fields m)))"
  by (simp add: heartbeat_serialize_def serialize_fields_fixed hb_fields_length max_payload_def)

lemma heartbeat_deserialize_wire:
  "heartbeat_deserialize r (wire b (concat (hb_fields m))) =
     Some (m\<lparr>hb_base := deserialize_data_cut (hb_base r) (of_nat hb_kWireSize)\<rparr>)"
proof -
  define w where "w = wire b (concat (hb_fields m))"
  define c where "c = deserialize_data_cut (hb_base r) (of_nat (length w))"
  have lw: "length w = hb_kWireSize"
    by (simp add: w_def hb_fields_length phys_def hb_kWireSize_def)
  have rd: "read_fields w (c, 0) [2, 4, 4, 4, 4, 1, 2] =
      Some ((c, phys (length (concat (hb_fields m)))), hb_fields m)"
    unfolding w_def c_def
    by (rule read_fixed) (simp_all add: hb_fields_length max_payload_def)
  have "heartbeat_deserialize r w = Some (m\<lparr>hb_base := c\<rparr>)"
    using lw unfolding heartbeat_deserialize_def c_def [symmetric] rd
    by (simp add: hb_fields_def)
  then show ?thesis by (simp add: w_def [symmetric] c_def lw)
qed

text \<open>
  Round trip of the heartbeat, the only frame that carries the sequence number from sender
  to receiver: every field is read back as it was sent, from a single datagram.
\<close>

theorem heartbeat_roundtrip:
  "\<exists>m2 data. heartbeat_serialize junk m = Some (m2, data) \<and> length data = hb_kWireSize \<and>
     heartbeat_deserialize r data =
       Some (m\<lparr>hb_base := deserialize_data_cut (hb_base r) (of_nat hb_kWireSize)\<rparr>)"
  unfolding heartbeat_serialize_wire using heartbeat_deserialize_wire [of r "hb_base m" m]
  by (simp add: hb_fields_length phys_def hb_kWireSize_def)

section \<open>Telling the frames apart\<close>

definition is_rtps_control_frame :: "u32 \<Rightarrow> bool" where
  "is_rtps_control_frame msg_id \<longleftrightarrow>
     msg_id = kRtpsHeartbeatMsgId \<or> msg_id = kRtpsAckMsgId \<or> msg_id = kRtpsAck2MsgId \<or>
     msg_id = kRtpsNackMsgId \<or> msg_id = kRtpsNackBitmapMsgId"

lemmas control_ids = kRtpsHeartbeatMsgId_def kRtpsAckMsgId_def kRtpsAck2MsgId_def
  kRtpsNackMsgId_def kRtpsNackBitmapMsgId_def

lemmas control_checks = check_hb_id_def check_ak_id_def check_ak2_id_def check_nk_id_def check_nb_id_def

text \<open>
  The receivers tell data and control frames apart by the message id in the tail: a frame
  that any message serialises passes at most one of the five checks, and passes one exactly
  when its id is in the reserved range.
\<close>

theorem control_frames_distinct:
  "let w = wire m d;
       checks = [check_hb_id w, check_ak_id w, check_ak2_id w, check_nk_id w, check_nb_id w]
   in length (filter id checks) = (if is_rtps_control_frame (mb_msg_id m) then 1 else 0)"
  by (auto simp: Let_def control_checks check_id_wire is_rtps_control_frame_def control_ids)

end
