(* ===== verification/Fragments.thy ===== *)
theory Fragments
  imports DzFlat RtpsMsgs
begin

text \<open>
  Fragmentation and reassembly of messages over UDP (\<open>src/dzIPC/common/data_rev.cc\<close>): the
  split of a serialised message into datagrams with corrected page numbers, the placement of
  received pages, and the statistics of missing fragments.
\<close>

section \<open>Constants and state\<close>

definition UDP_MAX_SIZE :: nat where "UDP_MAX_SIZE = 1472"
definition TAIL_SIZE :: nat where "TAIL_SIZE = 12"
definition MAX_RECV_TOTAL_SIZE :: nat where "MAX_RECV_TOTAL_SIZE = 64 * 1024 * 1024"

lemmas udp_consts = UDP_MAX_SIZE_def TAIL_SIZE_def MAX_RECV_TOTAL_SIZE_def

record chunk_meta =
  cm_page_cnt :: u16
  cm_total_size :: u32
  cm_msg_id :: u32
  cm_sequence :: u32

definition parse_tail :: "bytes \<Rightarrow> tail_msg option" where
  "parse_tail buf =
     (if length buf < TAIL_SIZE then None
      else (let t = drop (length buf - 12) buf in
        Some \<lparr>tm_page_cnt = of_be (take 2 t), tm_now_page = of_be (take 2 (drop 2 t)),
              tm_total_size = of_be (take 4 (drop 4 t)), tm_msg_id = of_be (drop 8 t)\<rparr>))"

text \<open>
  \<open>write_now_page\<close>, in a build without assertions; \<open>write_now_page_assert\<close> is the condition it
  asserts of the page it corrects.
\<close>

definition write_now_page :: "bytes \<Rightarrow> u16 \<Rightarrow> bytes" where
  "write_now_page chunk now_page =
     (if length chunk < TAIL_SIZE then chunk
      else (let n = length chunk in
        take (n - 10) chunk @ be_bytes 2 now_page @ drop (n - 8) chunk))"

definition write_now_page_assert :: "bytes \<Rightarrow> u16 \<Rightarrow> bool" where
  "write_now_page_assert chunk now_page =
     (length chunk < TAIL_SIZE \<or>
      1 \<le> now_page \<and> now_page \<le> of_be (take 2 (drop (length chunk - 12) chunk)))"

definition valid_chunk_meta :: "tail_msg \<Rightarrow> bool" where
  "valid_chunk_meta tail =
     (if tm_page_cnt tail = 0 \<or> unat (tm_total_size tail) < TAIL_SIZE then False
      else if MAX_RECV_TOTAL_SIZE < unat (tm_total_size tail) then False
      else (let page_cnt = unat (tm_page_cnt tail);
                total_size = unat (tm_total_size tail);
                max_total = page_cnt * UDP_MAX_SIZE;
                min_total = (if page_cnt = 0 then TAIL_SIZE else (page_cnt - 1) * UDP_MAX_SIZE + TAIL_SIZE)
            in min_total \<le> total_size \<and> total_size \<le> max_total))"

text \<open>Sizes are \<open>size_t\<close>; the offset of the page is computed from a signed difference.\<close>

definition wrap64 :: "int \<Rightarrow> nat" where "wrap64 i = nat (i mod 2 ^ 64)"

definition expected_page_size :: "chunk_meta \<Rightarrow> u16 \<Rightarrow> nat" where
  "expected_page_size meta now_page =
     (if now_page = cm_page_cnt meta
      then wrap64 (int (unat (cm_total_size meta)) - int (wrap64 (uint now_page - 1)) * int UDP_MAX_SIZE)
      else UDP_MAX_SIZE)"

record assembly =
  asm_bytes :: bytes
  asm_received :: "byte list"
  asm_cnt :: nat

definition fresh_assembly :: "chunk_meta \<Rightarrow> assembly" where
  "fresh_assembly meta =
     \<lparr>asm_bytes = replicate (unat (cm_total_size meta)) 0,
      asm_received = replicate (unat (cm_page_cnt meta) + 1) 0, asm_cnt = 0\<rparr>"

text \<open>\<open>place_page\<close>; \<open>None\<close> is an access outside \<open>assembled\<close> or \<open>received\<close>.\<close>

definition place_page :: "bytes \<Rightarrow> chunk_meta \<Rightarrow> assembly \<Rightarrow> (assembly \<times> bool) option" where
  "place_page page_buf meta a =
     (case parse_tail page_buf of
        None \<Rightarrow> Some (a, False)
      | Some tail \<Rightarrow>
          if tm_page_cnt tail \<noteq> cm_page_cnt meta \<or> tm_total_size tail \<noteq> cm_total_size meta
             \<or> tm_msg_id tail \<noteq> cm_msg_id meta then Some (a, False)
          else if tm_now_page tail = 0 \<or> cm_page_cnt meta < tm_now_page tail then Some (a, False)
          else if length page_buf \<noteq> expected_page_size meta (tm_now_page tail) then Some (a, False)
          else if length (asm_received a) \<le> unat (tm_now_page tail) then None
          else if asm_received a ! unat (tm_now_page tail) \<noteq> 0 then Some (a, True)
          else do {
            bs \<leftarrow> put_bytes (asm_bytes a) ((unat (tm_now_page tail) - 1) * UDP_MAX_SIZE) page_buf;
            Some (a\<lparr>asm_bytes := bs, asm_received := (asm_received a)[unat (tm_now_page tail) := 1],
                    asm_cnt := asm_cnt a + 1\<rparr>, True)
          })"

text \<open>The split at the head of \<open>chunk_send_ex\<close>, and its correction of the page numbers in place.\<close>

function split_chunks :: "bytes \<Rightarrow> bytes list" where
  "split_chunks data =
     (if data = [] then [] else take UDP_MAX_SIZE data # split_chunks (drop UDP_MAX_SIZE data))"
  by pat_completeness auto
termination by (relation "measure length") (auto simp: UDP_MAX_SIZE_def)

declare split_chunks.simps [simp del]

definition correct_pages :: "bytes list \<Rightarrow> bytes list option" where
  "correct_pages chunks =
     (if \<exists>c\<in>set chunks. length c < TAIL_SIZE then None
      else Some (map (\<lambda>i. write_now_page (chunks ! i) (of_nat (i + 1))) [0..<length chunks]))"

text \<open>\<open>make_owned_copy\<close> and the extraction of a flat segment from a framed stream.\<close>

function de_frame_loop :: "bytes \<Rightarrow> nat \<Rightarrow> nat \<Rightarrow> nat \<Rightarrow> bytes \<Rightarrow> bytes option" where
  "de_frame_loop stream seg_len dne rd mem =
     (if dne < seg_len
      then (let n = min (UDP_MAX_SIZE - TAIL_SIZE) (seg_len - dne) in
        do { bs \<leftarrow> get_bytes stream rd n;
             de_frame_loop stream seg_len (dne + n) (rd + (n + TAIL_SIZE)) (mem @ bs) })
      else Some mem)"
  by pat_completeness auto
termination by (relation "measure (\<lambda>(stream, seg_len, dne, rd, mem). seg_len - dne)")
  (auto simp: udp_consts min_def)

declare de_frame_loop.simps [simp del]

text \<open>The outer option is a read outside the stream, the inner one the function's result.\<close>

definition de_frame_dzflat :: "bytes \<Rightarrow> nat \<Rightarrow> bytes option option" where
  "de_frame_dzflat stream seg_len =
     (if seg_len < 32 then Some None
      else (let pages = seg_len div (UDP_MAX_SIZE - TAIL_SIZE) + 1 in
        if length stream < seg_len + pages * TAIL_SIZE then Some None
        else map_option Some (de_frame_loop stream seg_len 0 0 [])))"

definition wire_is_dzflat :: "bytes \<Rightarrow> bool" where
  "wire_is_dzflat frame = (0 < length frame \<and> looks_like_dzflat (Some frame))"


section \<open>Metadata that was accepted\<close>

definition meta_wf :: "chunk_meta \<Rightarrow> bool" where
  "meta_wf meta \<longleftrightarrow> 0 < unat (cm_page_cnt meta) \<and>
     (unat (cm_page_cnt meta) - 1) * 1472 + 12 \<le> unat (cm_total_size meta) \<and>
     unat (cm_total_size meta) \<le> unat (cm_page_cnt meta) * 1472 \<and>
     unat (cm_total_size meta) \<le> MAX_RECV_TOTAL_SIZE"

definition meta_of_tail :: "tail_msg \<Rightarrow> u32 \<Rightarrow> chunk_meta" where
  "meta_of_tail tail seqn =
     \<lparr>cm_page_cnt = tm_page_cnt tail, cm_total_size = tm_total_size tail, cm_msg_id = tm_msg_id tail,
      cm_sequence = seqn\<rparr>"

lemma valid_chunk_meta_wf: "valid_chunk_meta tail \<longleftrightarrow> meta_wf (meta_of_tail tail seqn)"
  by (auto simp: valid_chunk_meta_def meta_wf_def meta_of_tail_def Let_def udp_consts unat_gt_0)

lemma wrap64_nat: "n < 2 ^ 64 \<Longrightarrow> wrap64 (int n) = n"
  by (simp add: wrap64_def)

lemma expected_page_size_eq:
  assumes "meta_wf meta" and "1 \<le> unat now" and "unat now \<le> unat (cm_page_cnt meta)"
  shows "expected_page_size meta now =
    (if unat now = unat (cm_page_cnt meta) then unat (cm_total_size meta) - (unat now - 1) * 1472 else 1472)"
proof (cases "now = cm_page_cnt meta")
  case True
  have u: "uint now - 1 = int (unat now - 1)"
    using assms(2) by (simp only: of_nat_diff uint_nat of_nat_1)
  have nb: "unat now < 65536" using unsigned_less [of now, where ?'a = nat] by simp
  have w: "wrap64 (uint now - 1) = unat now - 1"
    unfolding u by (rule wrap64_nat) (use nb in simp)
  have le: "(unat now - 1) * 1472 \<le> unat (cm_total_size meta)"
    using assms(1) True by (simp add: meta_wf_def)
  have tb: "unat (cm_total_size meta) < 4294967296"
    using unsigned_less [of "cm_total_size meta", where ?'a = nat] by simp
  have "int (unat (cm_total_size meta)) - int ((unat now - 1) * 1472) =
      int (unat (cm_total_size meta) - (unat now - 1) * 1472)"
    using le by (rule of_nat_diff [symmetric])
  then have "wrap64 (int (unat (cm_total_size meta)) - int (unat now - 1) * 1472) =
      unat (cm_total_size meta) - (unat now - 1) * 1472"
    using wrap64_nat [of "unat (cm_total_size meta) - (unat now - 1) * 1472"] tb by simp
  then show ?thesis using True w by (simp add: expected_page_size_def udp_consts)
next
  case False
  then show ?thesis by (simp add: expected_page_size_def udp_consts word_unat_eq_iff)
qed

text \<open>
  Bounds of accepted metadata. Every announcement the receiver accepts has at most 45591
  pages, so its page loops over 16-bit counters end, the last page has between 12 and 1472
  bytes, and the page sizes add up to the announced total.
\<close>

theorem accepted_meta_bounds:
  assumes "valid_chunk_meta tail" and "meta = meta_of_tail tail seqn"
  shows "unat (cm_page_cnt meta) \<le> 45591 \<and>
    12 \<le> expected_page_size meta (cm_page_cnt meta) \<and>
    expected_page_size meta (cm_page_cnt meta) \<le> 1472 \<and>
    (unat (cm_page_cnt meta) - 1) * 1472 + expected_page_size meta (cm_page_cnt meta) = unat (cm_total_size meta)"
proof -
  have wf: "meta_wf meta" using assms valid_chunk_meta_wf [of tail seqn] by simp
  have "unat (cm_page_cnt meta) \<le> 45591" using wf unfolding meta_wf_def udp_consts diff_mult_distrib by linarith
  moreover have n: "1 \<le> unat (cm_page_cnt meta)" using wf by (simp add: meta_wf_def)
  moreover have "expected_page_size meta (cm_page_cnt meta) =
      unat (cm_total_size meta) - (unat (cm_page_cnt meta) - 1) * 1472"
    using expected_page_size_eq [OF wf n] by simp
  moreover have "(unat (cm_page_cnt meta) - 1) * 1472 + 12 \<le> unat (cm_total_size meta)"
    "unat (cm_total_size meta) \<le> (unat (cm_page_cnt meta) - 1) * 1472 + 1472"
    using wf n unfolding meta_wf_def by (simp_all add: diff_mult_distrib)
  ultimately show ?thesis by linarith
qed

theorem accepted_meta_bounds_witness:
  "expected_page_size (meta_of_tail \<lparr>tm_page_cnt = 2, tm_now_page = 1, tm_total_size = 1500, tm_msg_id = 7\<rparr> 0) 2 = 28"
  using accepted_meta_bounds [of "\<lparr>tm_page_cnt = 2, tm_now_page = 1, tm_total_size = 1500, tm_msg_id = 7\<rparr>" _ 0, OF _ refl]
  by (simp add: valid_chunk_meta_def meta_of_tail_def Let_def udp_consts)

section \<open>Placing pages is memory safe\<close>

definition assembly_wf :: "chunk_meta \<Rightarrow> assembly \<Rightarrow> bool" where
  "assembly_wf meta a \<longleftrightarrow>
     length (asm_bytes a) = unat (cm_total_size meta) \<and>
     length (asm_received a) = unat (cm_page_cnt meta) + 1"

lemma fresh_assembly_wf: "assembly_wf meta (fresh_assembly meta)"
  by (simp add: assembly_wf_def fresh_assembly_def)

lemma page_fits:
  assumes "meta_wf meta" and "1 \<le> unat now" and "unat now \<le> unat (cm_page_cnt meta)"
  shows "(unat now - 1) * 1472 + expected_page_size meta now \<le> unat (cm_total_size meta)"
proof (cases "unat now = unat (cm_page_cnt meta)")
  case True
  then show ?thesis using assms by (simp add: expected_page_size_eq [OF assms] meta_wf_def)
next
  case False
  then have "(unat now - 1) * 1472 + 1472 \<le> (unat (cm_page_cnt meta) - 1) * 1472"
    using assms by (simp add: diff_mult_distrib)
  then show ?thesis using False assms by (simp add: expected_page_size_eq [OF assms] meta_wf_def)
qed

text \<open>
  Whatever datagram arrives, placing it in an assembly that was set up from accepted
  metadata writes only inside the assembled buffer and the received map, and keeps their sizes.
\<close>

theorem place_page_safe:
  assumes "meta_wf meta" and "assembly_wf meta a"
  shows "\<exists>a' ok. place_page buf meta a = Some (a', ok) \<and> assembly_wf meta a'"
proof (cases "parse_tail buf")
  case None
  then have "place_page buf meta a = Some (a, False)" by (simp add: place_page_def)
  then show ?thesis using assms by blast
next
  case (Some tail)
  let ?now = "tm_now_page tail"
  show ?thesis
  proof (cases "?now = 0 \<or> cm_page_cnt meta < ?now \<or> length buf \<noteq> expected_page_size meta ?now")
    case True
    then show ?thesis using Some assms by (auto simp: place_page_def)
  next
    case False
    then have now: "1 \<le> unat ?now" "unat ?now \<le> unat (cm_page_cnt meta)" "length buf = expected_page_size meta ?now"
      by (auto simp: word_less_nat_alt word_unat_eq_iff Suc_le_eq)
    have "(unat ?now - 1) * 1472 + length buf \<le> length (asm_bytes a)"
      using page_fits [OF assms(1) now(1,2)] assms(2) now(3) by (simp add: assembly_wf_def)
    then obtain bs where "put_bytes (asm_bytes a) ((unat ?now - 1) * 1472) buf = Some bs"
        "length bs = length (asm_bytes a)"
      by (simp add: put_bytes_def)
    then show ?thesis
      using Some assms(2) now(2) by (auto simp: place_page_def assembly_wf_def udp_consts)
  qed
qed

theorem place_page_safe_witness:
  "\<exists>a' ok. place_page (replicate 1500 0)
      \<lparr>cm_page_cnt = 2, cm_total_size = 1500, cm_msg_id = 0, cm_sequence = 0\<rparr>
      (fresh_assembly \<lparr>cm_page_cnt = 2, cm_total_size = 1500, cm_msg_id = 0, cm_sequence = 0\<rparr>) = Some (a', ok)"
  using place_page_safe [OF _ fresh_assembly_wf, of "\<lparr>cm_page_cnt = 2, cm_total_size = 1500, cm_msg_id = 0, cm_sequence = 0\<rparr>"]
  by (fastforce simp: meta_wf_def udp_consts)


section \<open>Reassembly\<close>

text \<open>
  The pages of one message: as many as announced, each with the announced header, its own
  number and the size expected of it.
\<close>

definition page_tail :: "chunk_meta \<Rightarrow> nat \<Rightarrow> tail_msg" where
  "page_tail meta i = \<lparr>tm_page_cnt = cm_page_cnt meta, tm_now_page = of_nat (i + 1),
     tm_total_size = cm_total_size meta, tm_msg_id = cm_msg_id meta\<rparr>"

definition message_pages :: "chunk_meta \<Rightarrow> bytes list \<Rightarrow> bool" where
  "message_pages meta pages \<longleftrightarrow> meta_wf meta \<and> length pages = unat (cm_page_cnt meta) \<and>
     (\<forall>i < length pages. parse_tail (pages ! i) = Some (page_tail meta i) \<and>
        length (pages ! i) = expected_page_size meta (of_nat (i + 1)))"

text \<open>Other traffic on the channel: datagrams whose tail announces something else.\<close>

definition alien :: "chunk_meta \<Rightarrow> bytes \<Rightarrow> bool" where
  "alien meta buf \<longleftrightarrow> (case parse_tail buf of None \<Rightarrow> True
     | Some t \<Rightarrow> tm_page_cnt t \<noteq> cm_page_cnt meta \<or> tm_total_size t \<noteq> cm_total_size meta
         \<or> tm_msg_id t \<noteq> cm_msg_id meta)"

definition receive_all :: "chunk_meta \<Rightarrow> assembly \<Rightarrow> bytes list \<Rightarrow> assembly option" where
  "receive_all meta = foldM (\<lambda>a buf. map_option fst (place_page buf meta a))"

definition placed :: "chunk_meta \<Rightarrow> bytes list \<Rightarrow> nat set \<Rightarrow> assembly \<Rightarrow> bool" where
  "placed meta pages S a \<longleftrightarrow> S \<subseteq> {..<length pages} \<and> asm_cnt a = card S \<and>
     length (asm_received a) = length pages + 1 \<and>
     (\<forall>i < length pages. asm_received a ! (i + 1) \<noteq> 0 \<longleftrightarrow> i \<in> S) \<and>
     (\<exists>bs. length bs = length pages \<and> (\<forall>i < length pages. length (bs ! i) = length (pages ! i)) \<and>
        asm_bytes a = concat bs \<and> (\<forall>i \<in> S. bs ! i = pages ! i))"

lemma concat_update:
  "i < length bs \<Longrightarrow> length b = length (bs ! i) \<Longrightarrow>
     put_bytes (concat bs) (length (concat (take i bs))) b = Some (concat (bs[i := b]))"
proof (induction bs arbitrary: i)
  case Nil
  then show ?case by simp
next
  case (Cons x bs)
  show ?case
  proof (cases i)
    case 0
    then show ?thesis using Cons.prems by (simp add: put_bytes_def)
  next
    case (Suc j)
    then have "put_bytes (concat bs) (length (concat (take j bs))) b = Some (concat (bs[j := b]))"
      using Cons by simp
    then show ?thesis using Suc by (auto simp: put_bytes_def split: if_splits)
  qed
qed

lemma length_concat_take:
  "i \<le> length bs \<Longrightarrow> (\<And>j. j < i \<Longrightarrow> length (bs ! j) = c) \<Longrightarrow> length (concat (take i bs)) = i * c"
  by (induction i) (simp_all add: take_Suc_conv_app_nth)

lemma now_of_index:
  "message_pages meta pages \<Longrightarrow> i < length pages \<Longrightarrow> unat (of_nat (i + 1) :: u16) = i + 1"
  using unsigned_less [of "cm_page_cnt meta", where ?'a = nat]
  by (simp add: message_pages_def unat_of_nat del: of_nat_add of_nat_Suc)

lemma page_length:
  assumes "message_pages meta pages" and "i < length pages"
  shows "length (pages ! i) =
    (if i + 1 = length pages then unat (cm_total_size meta) - i * 1472 else 1472)"
proof -
  have "expected_page_size meta (of_nat (i + 1)) =
      (if i + 1 = unat (cm_page_cnt meta) then unat (cm_total_size meta) - i * 1472 else 1472)"
    using expected_page_size_eq [of meta "of_nat (i + 1)"] assms
    unfolding now_of_index [OF assms] add_diff_cancel_right' by (simp add: message_pages_def del: of_nat_add of_nat_Suc)
  then show ?thesis using assms by (simp add: message_pages_def del: of_nat_add of_nat_Suc)
qed

lemma place_page_message:
  assumes mp: "message_pages meta pages" and i: "i < length pages" and a: "placed meta pages S a"
  shows "\<exists>a'. place_page (pages ! i) meta a = Some (a', True) \<and> placed meta pages (insert i S) a'"
proof -
  have n: "unat (of_nat (i + 1) :: u16) = i + 1" by (rule now_of_index [OF mp i])
  have t: "parse_tail (pages ! i) = Some (page_tail meta i)"
    "length (pages ! i) = expected_page_size meta (of_nat (i + 1))"
    using mp i by (auto simp: message_pages_def)
  have le: "i + 1 \<le> unat (cm_page_cnt meta)" "length pages = unat (cm_page_cnt meta)"
    using mp i by (auto simp: message_pages_def)
  have r: "length (asm_received a) = length pages + 1"
    "asm_received a ! (i + 1) \<noteq> 0 \<longleftrightarrow> i \<in> S" "S \<subseteq> {..<length pages}" "asm_cnt a = card S"
    using a i by (auto simp: placed_def)
  have ok: "\<not> (of_nat (i + 1) = (0 :: u16) \<or> cm_page_cnt meta < of_nat (i + 1))"
    using n le by (simp add: word_less_nat_alt word_unat_eq_iff del: of_nat_add of_nat_Suc)
  have pl: "place_page (pages ! i) meta a =
      (if asm_received a ! (i + 1) \<noteq> 0 then Some (a, True)
       else do {
         bs \<leftarrow> put_bytes (asm_bytes a) (i * 1472) (pages ! i);
         Some (a\<lparr>asm_bytes := bs, asm_received := (asm_received a)[i + 1 := 1], asm_cnt := asm_cnt a + 1\<rparr>, True)
       })"
    using t ok n r(1) i
    by (simp add: place_page_def page_tail_def UDP_MAX_SIZE_def del: of_nat_add of_nat_Suc)
  show ?thesis
  proof (cases "i \<in> S")
    case True
    then show ?thesis using pl r(2) a by (simp add: insert_absorb)
  next
    case False
    obtain bs where bs: "length bs = length pages" "\<forall>i < length pages. length (bs ! i) = length (pages ! i)"
        "asm_bytes a = concat bs" "\<forall>i \<in> S. bs ! i = pages ! i"
      using a by (auto simp: placed_def)
    have "length (concat (take i bs)) = i * 1472"
      using bs(1,2) i page_length [OF mp] by (intro length_concat_take) auto
    then have pb: "put_bytes (asm_bytes a) (i * 1472) (pages ! i) = Some (concat (bs[i := pages ! i]))"
      using concat_update [of i bs "pages ! i"] bs i by simp
    let ?a = "a\<lparr>asm_bytes := concat (bs[i := pages ! i]), asm_received := (asm_received a)[i + 1 := 1],
      asm_cnt := asm_cnt a + 1\<rparr>"
    have "finite S" using r(3) finite_subset by blast
    then have "card (insert i S) = asm_cnt a + 1" using False r(4) by simp
    moreover have "\<exists>cs. length cs = length pages \<and> (\<forall>j < length pages. length (cs ! j) = length (pages ! j)) \<and>
        concat (bs[i := pages ! i]) = concat cs \<and> (\<forall>j \<in> insert i S. cs ! j = pages ! j)"
      using bs i r(3) by (intro exI [of _ "bs[i := pages ! i]"]) (auto simp: nth_list_update)
    moreover have "(asm_received a)[i + 1 := 1] ! (j + 1) \<noteq> 0 \<longleftrightarrow> j \<in> insert i S" if "j < length pages" for j
      using that a i r(1) by (auto simp: placed_def nth_list_update)
    ultimately have "placed meta pages (insert i S) ?a"
      using r i by (simp add: placed_def)
    then show ?thesis using pl pb False r(2) by simp
  qed
qed

lemma place_page_alien: "alien meta buf \<Longrightarrow> place_page buf meta a = Some (a, False)"
  by (auto simp: alien_def place_page_def split: option.splits)


lemma receive_all_placed:
  assumes mp: "message_pages meta pages"
  shows "placed meta pages S a \<Longrightarrow> \<forall>f\<in>set frs. f \<in> set pages \<or> alien meta f \<Longrightarrow>
    \<exists>a'. receive_all meta a frs = Some a' \<and>
       placed meta pages (S \<union> {i. i < length pages \<and> pages ! i \<in> set frs}) a'"
proof (induction frs arbitrary: S a)
  case Nil
  then show ?case by (simp add: receive_all_def)
next
  case (Cons f frs)
  have inj: "i = j" if "i < length pages" "j < length pages" "pages ! i = pages ! j" for i j
  proof -
    have "Some (page_tail meta i) = Some (page_tail meta j)"
      using mp that unfolding message_pages_def by metis
    then have "unat (of_nat (i + 1) :: u16) = unat (of_nat (j + 1) :: u16)" by (simp add: page_tail_def)
    then show ?thesis unfolding now_of_index [OF mp that(1)] now_of_index [OF mp that(2)] by simp
  qed
  show ?case
  proof (cases "f \<in> set pages")
    case True
    then obtain i where i: "i < length pages" "f = pages ! i" by (auto simp: in_set_conv_nth)
    obtain a1 where a1: "place_page f meta a = Some (a1, True)" "placed meta pages (insert i S) a1"
      using place_page_message [OF mp i(1) Cons.prems(1)] i(2) by auto
    have eq: "insert i S \<union> {j. j < length pages \<and> pages ! j \<in> set frs} =
        S \<union> {j. j < length pages \<and> pages ! j \<in> set (f # frs)}"
      using i inj by auto
    show ?thesis
      using Cons.IH [OF a1(2)] Cons.prems(2) a1(1) unfolding eq by (simp add: receive_all_def)
  next
    case False
    then have "alien meta f" using Cons.prems(2) by simp
    then have p: "place_page f meta a = Some (a, False)" by (rule place_page_alien)
    have eq: "{j. j < length pages \<and> pages ! j \<in> set frs} = {j. j < length pages \<and> pages ! j \<in> set (f # frs)}"
      using False by (auto simp: in_set_conv_nth)
    show ?thesis
      using Cons.IH [OF Cons.prems(1)] Cons.prems(2) p unfolding eq by (simp add: receive_all_def)
  qed
qed

lemma zero_blocks:
  "\<exists>bs. length bs = length ps \<and> (\<forall>i < length ps. length (bs ! i) = length (ps ! i)) \<and>
     replicate (length (concat ps)) (0 :: byte) = concat bs"
proof (intro exI [of _ "map (\<lambda>p. replicate (length p) 0) ps"] conjI)
  show "replicate (length (concat ps)) (0 :: byte) = concat (map (\<lambda>p. replicate (length p) 0) ps)"
    by (induction ps) (simp_all add: replicate_add)
qed simp_all

lemma pages_total:
  assumes "message_pages meta pages"
  shows "length (concat pages) = unat (cm_total_size meta)"
proof -
  have wf: "meta_wf meta" and n: "length pages = unat (cm_page_cnt meta)"
    using assms by (auto simp: message_pages_def)
  define k where "k = length pages - 1"
  have k: "length pages = Suc k" "k < length pages" using wf n by (auto simp: k_def meta_wf_def)
  have "length (concat (take k pages)) = k * 1472"
    using page_length [OF assms] k by (intro length_concat_take) auto
  moreover have "length (pages ! k) = unat (cm_total_size meta) - k * 1472"
    using page_length [OF assms k(2)] k by simp
  moreover have "k * 1472 \<le> unat (cm_total_size meta)"
    using wf unfolding meta_wf_def k_def n by linarith
  moreover have "pages = take k pages @ [pages ! k]"
    using k take_Suc_conv_app_nth [of k pages] by simp
  then have "length (concat pages) = length (concat (take k pages)) + length (pages ! k)"
    by (metis concat_append length_append concat.simps append_Nil2)
  ultimately show ?thesis by simp
qed

lemma fresh_placed:
  assumes mp: "message_pages meta pages"
  shows "placed meta pages {} (fresh_assembly meta)"
  using zero_blocks [of pages] mp
  unfolding placed_def fresh_assembly_def pages_total [OF mp, symmetric] message_pages_def
  by (auto simp: nth_append simp del: replicate_Suc)

lemma reassembly_facts:
  assumes "message_pages meta pages" and "\<forall>f\<in>set frs. f \<in> set pages \<or> alien meta f"
  shows "\<exists>a. receive_all meta (fresh_assembly meta) frs = Some a \<and>
    asm_cnt a = card {i. i < length pages \<and> pages ! i \<in> set frs} \<and>
    (asm_cnt a = unat (cm_page_cnt meta) \<longrightarrow> asm_bytes a = concat pages) \<and>
    (set pages \<subseteq> set frs \<longrightarrow> asm_cnt a = unat (cm_page_cnt meta))"
proof -
  let ?S = "{i. i < length pages \<and> pages ! i \<in> set frs}"
  obtain a where a: "receive_all meta (fresh_assembly meta) frs = Some a" "placed meta pages ?S a"
    using receive_all_placed [OF assms(1) fresh_placed [OF assms(1)] assms(2)] by auto
  have n: "length pages = unat (cm_page_cnt meta)" using assms(1) by (simp add: message_pages_def)
  have "asm_bytes a = concat pages" if "card ?S = length pages"
  proof -
    have "?S = {..<length pages}"
      using that by (intro card_subset_eq) auto
    moreover obtain bs where "length bs = length pages" "asm_bytes a = concat bs"
        "\<forall>i \<in> ?S. bs ! i = pages ! i"
      using a(2) by (auto simp: placed_def)
    ultimately have "bs = pages" by (intro nth_equalityI) auto
    then show ?thesis using \<open>asm_bytes a = concat bs\<close> by simp
  qed
  moreover have "card ?S = length pages" if "set pages \<subseteq> set frs"
  proof -
    have "?S = {..<length pages}" using that by auto
    then show ?thesis by simp
  qed
  moreover have "asm_cnt a = card ?S" using a(2) by (simp add: placed_def)
  ultimately show ?thesis using a(1) n by auto
qed

lemma reassembly_exact:
  assumes "message_pages meta pages" and "\<forall>f\<in>set frs. f \<in> set pages \<or> alien meta f"
    and "set pages \<subseteq> set frs"
  shows "\<exists>a. receive_all meta (fresh_assembly meta) frs = Some a \<and>
    asm_cnt a = unat (cm_page_cnt meta) \<and> asm_bytes a = concat pages"
  using reassembly_facts [OF assms(1,2)] assms(3) by auto

section \<open>The pages a sender puts on the wire\<close>

text \<open>
  The datagrams of the message with the data \<open>d\<close>: 1460 bytes of data each, the tails numbered
  from 1.
\<close>

definition wire_pages :: "msg_base \<Rightarrow> bytes \<Rightarrow> bytes list" where
  "wire_pages m d =
     map (\<lambda>i. take 1460 (drop (1460 * i) d) @ tail_bytes (cut_base m (length d)) (of_nat (i + 1)))
       [0..<length d div 1460 + 1]"

lemma split_chunks_frames:
  assumes "length t = 12"
  shows "split_chunks (frames b p d @ t) =
    map (\<lambda>i. take 1460 (drop (1460 * i) d) @ (if i < length d div 1460 then tail_bytes b (p + of_nat (i + 1)) else t))
      [0..<length d div 1460 + 1]"
proof (induction b p d rule: frames.induct)
  case (1 b p d)
  show ?case
  proof (cases "length d < 1460")
    case True
    have "d @ t \<noteq> []" using assms by auto
    then have "split_chunks (d @ t) = [d @ t]"
      using True assms by (simp add: split_chunks.simps [of "d @ t"] split_chunks.simps [of "[]"] UDP_MAX_SIZE_def)
    then show ?thesis using True by (simp add: frames_short)
  next
    case False
    let ?x = "take 1460 d @ tail_bytes b (p + 1)"
    let ?r = "frames b (p + 1) (drop 1460 d) @ t"
    have lx: "length ?x = 1472" using False by simp
    have "split_chunks (?x @ ?r) = ?x # split_chunks ?r"
    proof -
      have "?x @ ?r \<noteq> []" using lx by auto
      moreover have "take UDP_MAX_SIZE (?x @ ?r) = ?x" "drop UDP_MAX_SIZE (?x @ ?r) = ?r"
        using append_eq_conv_conj [of ?x ?r "?x @ ?r"] unfolding lx UDP_MAX_SIZE_def by metis+
      ultimately show ?thesis by (subst split_chunks.simps) (simp only: if_False)
    qed
    moreover have "frames b p d @ t = ?x @ ?r" using False by (simp add: frames_long)
    moreover have "length d div 1460 = Suc (length (drop 1460 d) div 1460)"
      using False by (simp add: page_drop_div)
    moreover have "[0..<Suc n + 1] = 0 # map Suc [0..<n + 1]" for n
      by (simp add: map_Suc_upt upt_conv_Cons del: upt_Suc)
    ultimately show ?thesis
      using "1.IH" [OF False] by (simp add: drop_drop add.commute mult.commute add_ac del: upt_Suc)
  qed
qed

lemma split_chunks_wire:
  "split_chunks (wire m d) =
    map (\<lambda>i. take 1460 (drop (1460 * i) d) @
      tail_bytes (cut_base m (length d)) (if i < length d div 1460 then of_nat (i + 2) else page_after (length d)))
      [0..<length d div 1460 + 1]"
  unfolding wire_def by (subst split_chunks_frames) (auto simp: add_ac intro!: map_cong)

lemma write_now_page_tail:
  "write_now_page (x @ tail_bytes b q) pg = x @ tail_bytes b pg"
proof -
  have a: "take (length x + 2) (x @ tail_bytes b q) = x @ be_bytes 2 (mb_page_cnt b)"
    by (simp add: tail_bytes_def)
  have b: "drop (length x + 4) (x @ tail_bytes b q) = be_bytes 4 (mb_total_size b) @ be_bytes 4 (mb_msg_id b)"
    by (simp add: tail_bytes_def)
  have l: "length x + 12 - 10 = length x + 2" "length x + 12 - 8 = length x + 4" by simp_all
  show ?thesis
    unfolding write_now_page_def Let_def length_append length_tail_bytes l a b TAIL_SIZE_def
    by (simp add: tail_bytes_def)
qed

lemma correct_pages_wire: "correct_pages (split_chunks (wire m d)) = Some (wire_pages m d)"
proof -
  have "\<not> (\<exists>c\<in>set (split_chunks (wire m d)). length c < TAIL_SIZE)"
    by (auto simp: split_chunks_wire TAIL_SIZE_def)
  then show ?thesis
    unfolding correct_pages_def
    by (simp add: split_chunks_wire write_now_page_tail wire_pages_def nth_append del: upt_Suc cong: map_cong)
qed

lemma concat_split_chunks: "concat (split_chunks x) = x"
proof (induction x rule: split_chunks.induct)
  case (1 x)
  then show ?case by (cases "x = []") (simp_all add: split_chunks.simps [of x] split_chunks.simps [of "[]"])
qed

lemma wire_pages_frames:
  "wire_pages m d = split_chunks (frames (cut_base m (length d)) 0 d
     @ tail_bytes (cut_base m (length d)) (page_after (length d)))"
  by (subst split_chunks_frames) (auto simp: wire_pages_def page_after_def intro!: map_cong)

text \<open>The corrected message: the stream with its tails numbered from 1.\<close>

lemma concat_wire_pages:
  "concat (wire_pages m d) = frames (cut_base m (length d)) 0 d
     @ tail_bytes (cut_base m (length d)) (page_after (length d))"
  unfolding wire_pages_frames by (rule concat_split_chunks)


lemma parse_tail_bytes:
  "parse_tail (x @ tail_bytes b q) =
     Some \<lparr>tm_page_cnt = mb_page_cnt b, tm_now_page = q, tm_total_size = mb_total_size b,
           tm_msg_id = mb_msg_id b\<rparr>"
  by (simp add: parse_tail_def TAIL_SIZE_def Let_def tail_bytes_def)

definition wire_meta :: "msg_base \<Rightarrow> nat \<Rightarrow> u32 \<Rightarrow> chunk_meta" where
  "wire_meta m n seqn = \<lparr>cm_page_cnt = page_after n, cm_total_size = of_nat (phys n + 12),
     cm_msg_id = mb_msg_id m, cm_sequence = seqn\<rparr>"

lemma wire_meta_wf:
  assumes "phys n + 12 \<le> MAX_RECV_TOTAL_SIZE"
  shows "n < max_payload" "meta_wf (wire_meta m n seqn)"
    "unat (cm_page_cnt (wire_meta m n seqn)) = 1 + n div 1460"
    "unat (cm_total_size (wire_meta m n seqn)) = phys n + 12"
proof -
  have "n \<le> phys n" by (simp add: phys_def)
  then show mp: "n < max_payload" using assms by (simp add: max_payload_def udp_consts)
  show pc: "unat (cm_page_cnt (wire_meta m n seqn)) = 1 + n div 1460"
    using unat_page_after [OF mp] by (simp add: wire_meta_def)
  show ts: "unat (cm_total_size (wire_meta m n seqn)) = phys n + 12"
    using assms by (simp add: wire_meta_def unat_of_nat udp_consts del: of_nat_add)
  have q: "n = 1460 * (n div 1460) + n mod 1460" "n mod 1460 < 1460" by simp_all
  have "n div 1460 * 1472 + 12 \<le> n + 12 * (n div 1460) + 12" using q by linarith
  moreover have "n + 12 * (n div 1460) + 12 \<le> (1 + n div 1460) * 1472"
    using q unfolding add_mult_distrib by linarith
  ultimately show "meta_wf (wire_meta m n seqn)"
    using assms unfolding meta_wf_def pc ts phys_def add_diff_cancel_left' by simp
qed

lemma wire_pages_message:
  assumes "phys (length d) + 12 \<le> MAX_RECV_TOTAL_SIZE"
  shows "message_pages (wire_meta m (length d) seqn) (wire_pages m d)"
proof -
  let ?n = "length d" let ?meta = "wire_meta m ?n seqn"
  note w = wire_meta_wf (1) [OF assms] wire_meta_wf (2-4) [OF assms, of m seqn]
  have pl: "parse_tail (wire_pages m d ! i) = Some (page_tail ?meta i)"
    "length (wire_pages m d ! i) = min 1460 (?n - 1460 * i) + 12" if "i < ?n div 1460 + 1" for i
    using that by (simp_all add: wire_pages_def nth_append parse_tail_bytes page_tail_def wire_meta_def
        cut_base_def del: upt_Suc)
  have "min 1460 (?n - 1460 * i) + 12 = expected_page_size ?meta (of_nat (i + 1))" if i: "i < ?n div 1460 + 1" for i
  proof -
    have b: "i + 1 < 65536" using i w(1) by (simp add: max_payload_def)
    then have u: "unat (of_nat (i + 1) :: u16) = i + 1" by (simp add: unat_of_nat del: of_nat_add of_nat_Suc)
    have "expected_page_size ?meta (of_nat (i + 1)) =
        (if i = ?n div 1460 then phys ?n + 12 - i * 1472 else 1472)"
      using expected_page_size_eq [OF w(2), of "of_nat (i + 1)"] i unfolding u w(3,4) by simp
    also have "\<dots> = min 1460 (?n - 1460 * i) + 12"
    proof (cases "i = ?n div 1460")
      case True
      have "?n = 1460 * (?n div 1460) + ?n mod 1460" "?n mod 1460 < 1460" by simp_all
      then show ?thesis unfolding True phys_def by simp
    next
      case False
      then have "i + 1 \<le> ?n div 1460" using i by simp
      then have "1460 * (i + 1) \<le> ?n" by (metis mult.commute less_eq_div_iff_mult_less_eq zero_less_numeral)
      then show ?thesis using False by simp
    qed
    finally show ?thesis ..
  qed
  then show ?thesis
    unfolding message_pages_def using w(2,3) pl by (simp add: wire_pages_def del: of_nat_add of_nat_Suc)
qed

text \<open>
  C10. Reassembly. Let the pages of a message arrive in any order, any of them repeatedly or
  not at all, mixed with datagrams of other messages. No access leaves the buffers, the page
  counter is the number of different pages that arrived, and once it reaches the announced
  count the buffer is the message.
\<close>

theorem reassembly:
  assumes "message_pages meta pages" and "\<forall>f\<in>set frs. f \<in> set pages \<or> alien meta f"
  shows "\<exists>a. receive_all meta (fresh_assembly meta) frs = Some a \<and>
    asm_cnt a = card {i. i < length pages \<and> pages ! i \<in> set frs} \<and>
    (asm_cnt a = unat (cm_page_cnt meta) \<longrightarrow> asm_bytes a = concat pages) \<and>
    (set pages \<subseteq> set frs \<longrightarrow> asm_cnt a = unat (cm_page_cnt meta))"
  using assms by (rule reassembly_facts)

theorem reassembly_witness:
  "\<exists>a. receive_all (wire_meta (msg_base_init 7) 2000 0) (fresh_assembly (wire_meta (msg_base_init 7) 2000 0))
      (rev (wire_pages (msg_base_init 7) (replicate 2000 5)) @ [[1, 2, 3]]) = Some a \<and>
    (asm_cnt a = unat (cm_page_cnt (wire_meta (msg_base_init 7) 2000 0)) \<longrightarrow>
      asm_bytes a = concat (wire_pages (msg_base_init 7) (replicate 2000 5)))"
proof -
  have m: "message_pages (wire_meta (msg_base_init 7) 2000 0) (wire_pages (msg_base_init 7) (replicate 2000 5))"
    using wire_pages_message [of "replicate 2000 5" "msg_base_init 7" 0] by (simp add: phys_def udp_consts)
  have "\<forall>f\<in>set (rev (wire_pages (msg_base_init 7) (replicate 2000 5)) @ [[1, 2, 3]]).
      f \<in> set (wire_pages (msg_base_init 7) (replicate 2000 5)) \<or> alien (wire_meta (msg_base_init 7) 2000 0) f"
    by (auto simp: alien_def parse_tail_def TAIL_SIZE_def)
  from reassembly [OF m this] show ?thesis by blast
qed

text \<open>Reading fields does not depend on the numbers in the tails it skips.\<close>

lemma read_corrected:
  assumes "length (concat fs) < max_payload"
  shows "read_fields (concat (wire_pages m (concat fs)))
      (deserialize_data_cut m' (of_nat (phys (length (concat fs)) + 12)), 0) (map length fs) =
    Some ((deserialize_data_cut m' (of_nat (phys (length (concat fs)) + 12)), phys (length (concat fs))), fs)"
proof -
  let ?d = "concat fs" let ?m0 = "deserialize_data_cut m' (of_nat (phys (length ?d) + 12))"
  have tot: "unat (mb_total_size ?m0) = phys (length ?d) + 12"
    using phys_bound [OF assms] by (simp add: deserialize_data_cut_def unat_of_nat del: of_nat_add)
  have "stream_unread (cut_base m (length ?d)) ?d ?m0 (?m0, 0) (concat fs @ [])"
    unfolding stream_unread_def using assms tot by (intro exI [of _ 0]) simp
  from paged.get_all [OF this, of 0 "tail_bytes (cut_base m (length ?d)) (page_after (length ?d))"]
  obtain r where r: "read_fields (concat (wire_pages m ?d)) (?m0, 0) (map length fs) = Some (r, fs)"
      "stream_unread (cut_base m (length ?d)) ?d ?m0 r []"
    unfolding concat_wire_pages by blast
  then obtain p where "r = (?m0, phys p)" "p \<le> length ?d" "drop p ?d = []"
    by (auto simp: stream_unread_def)
  then show ?thesis using r(1) by simp
qed


text \<open>
  C1. From the sender's fields to the receiver's. A message of any fields whose framed size
  the receiver admits is serialised, split into datagrams and its page numbers corrected as
  the sender does; if every datagram arrives at least once, in any order and mixed with other
  traffic, the receiver's buffer deserialises to the fields that were sent.
\<close>

theorem fragment_transport:
  assumes "phys (length (concat fs)) + 12 \<le> MAX_RECV_TOTAL_SIZE"
  shows "\<exists>b data chunks. serialize_fields junk m (of_nat (length (concat fs))) fs = Some (b, data) \<and>
    correct_pages (split_chunks data) = Some chunks \<and>
    (\<forall>frs. set chunks \<subseteq> set frs \<and> (\<forall>f\<in>set frs - set chunks. alien (wire_meta m (length (concat fs)) seqn) f) \<longrightarrow>
      (\<exists>a. receive_all (wire_meta m (length (concat fs)) seqn)
            (fresh_assembly (wire_meta m (length (concat fs)) seqn)) frs = Some a \<and>
         asm_cnt a = length chunks \<and> asm_bytes a = concat chunks \<and>
         map_option snd (read_fields (asm_bytes a)
           (deserialize_data_cut m' (of_nat (length (asm_bytes a))), 0) (map length fs)) = Some fs))"
proof -
  let ?d = "concat fs" let ?meta = "wire_meta m (length ?d) seqn"
  have mp: "length ?d < max_payload" by (rule wire_meta_wf (1) [OF assms])
  have msg: "message_pages ?meta (wire_pages m ?d)" by (rule wire_pages_message [OF assms])
  have n: "length (wire_pages m ?d) = unat (cm_page_cnt ?meta)" using msg by (simp add: message_pages_def)
  have l: "length (concat (wire_pages m ?d)) = phys (length ?d) + 12"
    unfolding concat_wire_pages by simp
  have "\<exists>a. receive_all ?meta (fresh_assembly ?meta) frs = Some a \<and>
      asm_cnt a = length (wire_pages m ?d) \<and> asm_bytes a = concat (wire_pages m ?d) \<and>
      map_option snd (read_fields (asm_bytes a)
        (deserialize_data_cut m' (of_nat (length (asm_bytes a))), 0) (map length fs)) = Some fs"
    if "set (wire_pages m ?d) \<subseteq> set frs" "\<forall>f\<in>set frs - set (wire_pages m ?d). alien ?meta f" for frs
  proof -
    have "\<forall>f\<in>set frs. f \<in> set (wire_pages m ?d) \<or> alien ?meta f" using that(2) by auto
    from reassembly_exact [OF msg this that(1)]
    obtain a where a: "receive_all ?meta (fresh_assembly ?meta) frs = Some a"
        "asm_cnt a = unat (cm_page_cnt ?meta)" "asm_bytes a = concat (wire_pages m ?d)"
      by auto
    then show ?thesis using read_corrected [OF mp, of m m'] l n by auto
  qed
  then show ?thesis
    using serialize_fields_wire [OF mp, of junk m] correct_pages_wire [of m ?d] by auto
qed

theorem fragment_transport_witness:
  "\<exists>b data chunks. serialize_fields (\<lambda>i. 0) (msg_base_init 7) (of_nat (length (concat [[1, 2], replicate 3000 (5 :: byte)]))) [[1, 2], replicate 3000 (5 :: byte)] = Some (b, data) \<and>
    correct_pages (split_chunks data) = Some chunks \<and>
    (\<exists>a. receive_all (wire_meta (msg_base_init 7) (length (concat [[1, 2], replicate 3000 (5 :: byte)])) 0)
            (fresh_assembly (wire_meta (msg_base_init 7) (length (concat [[1, 2], replicate 3000 (5 :: byte)])) 0))
            (rev chunks) = Some a \<and> asm_cnt a = length chunks)"
proof -
  have "phys (length (concat [[1, 2], replicate 3000 (5 :: byte)])) + 12 \<le> MAX_RECV_TOTAL_SIZE"
    by (simp add: phys_def udp_consts)
  from fragment_transport [OF this, of "\<lambda>i. 0" "msg_base_init 7" 0 "msg_base_init 0"]
  obtain b data chunks where c: "serialize_fields (\<lambda>i. 0) (msg_base_init 7) (of_nat (length (concat [[1, 2], replicate 3000 (5 :: byte)]))) [[1, 2], replicate 3000 (5 :: byte)] = Some (b, data)"
      "correct_pages (split_chunks data) = Some chunks"
      "\<forall>frs. set chunks \<subseteq> set frs \<and> (\<forall>f\<in>set frs - set chunks. alien (wire_meta (msg_base_init 7) (length (concat [[1, 2], replicate 3000 (5 :: byte)])) 0) f) \<longrightarrow>
        (\<exists>a. receive_all (wire_meta (msg_base_init 7) (length (concat [[1, 2], replicate 3000 (5 :: byte)])) 0)
            (fresh_assembly (wire_meta (msg_base_init 7) (length (concat [[1, 2], replicate 3000 (5 :: byte)])) 0)) frs = Some a \<and>
         asm_cnt a = length chunks \<and> asm_bytes a = concat chunks \<and>
         map_option snd (read_fields (asm_bytes a)
           (deserialize_data_cut (msg_base_init 0) (of_nat (length (asm_bytes a))), 0)
           (map length [[1, 2], replicate 3000 (5 :: byte)])) = Some [[1, 2], replicate 3000 (5 :: byte)])"
    by blast
  have "set chunks \<subseteq> set (rev chunks) \<and> (\<forall>f\<in>set (rev chunks) - set chunks.
      alien (wire_meta (msg_base_init 7) (length (concat [[1, 2], replicate 3000 (5 :: byte)])) 0) f)"
    by simp
  from mp [OF spec [OF c(3)] this] show ?thesis using c(1,2) by blast
qed


section \<open>Flat segments in a framed stream\<close>

lemma de_frame_loop_frames:
  assumes "drop rd stream = frames b p d @ t" and "length t = 12" and "rd \<le> length stream"
  shows "de_frame_loop stream (dne + length d) dne rd mem = Some (mem @ d)"
  using assms(1,3)
proof (induction b p d arbitrary: dne rd mem rule: frames.induct)
  case (1 b p d)
  show ?case
  proof (cases "length d < 1460")
    case True
    have "length stream - rd = length d + 12"
      using True assms(2) arg_cong [OF "1.prems"(1), of length] by (simp add: phys_def)
    then have "rd + length d \<le> length stream" using "1.prems"(2) by linarith
    then have "get_bytes stream rd (length d) = Some d"
      using True "1.prems" by (simp add: get_bytes_def frames_short)
    then show ?thesis
      using True by (simp add: de_frame_loop.simps [of _ _ dne] de_frame_loop.simps [of _ _ "dne + length d"] udp_consts Let_def)
  next
    case False
    have l: "length stream - rd = phys (length d) + 12"
      using assms(2) arg_cong [OF "1.prems"(1), of length] by simp
    have "1472 \<le> phys (length d)" using False by (simp add: phys_drop)
    then have l2: "rd + 1472 \<le> length stream" using l "1.prems"(2) by linarith
    have g: "get_bytes stream rd 1460 = Some (take 1460 d)"
      using False "1.prems" l2 by (simp add: get_bytes_def frames_long)
    have "drop (rd + 1472) stream = drop 1472 (drop rd stream)" by (simp add: add.commute)
    also have "\<dots> = frames b (p + 1) (drop 1460 d) @ t"
      unfolding "1.prems"(1) using False by (simp add: frames_long)
    finally have "de_frame_loop stream (dne + 1460 + length (drop 1460 d)) (dne + 1460) (rd + 1472) (mem @ take 1460 d) =
        Some ((mem @ take 1460 d) @ drop 1460 d)"
      using "1.IH" [OF False _ l2] by simp
    then show ?thesis
      using False g by (simp add: de_frame_loop.simps [of _ _ dne] udp_consts Let_def)
  qed
qed

lemma de_frame_loop_safe:
  assumes "dne \<le> seg_len" and "rd + phys (seg_len - dne) \<le> length stream"
  shows "\<exists>seg. de_frame_loop stream seg_len dne rd mem = Some seg \<and> length seg = length mem + (seg_len - dne)"
  using assms
proof (induction stream seg_len dne rd mem rule: de_frame_loop.induct)
  case (1 stream seg_len dne rd mem)
  show ?case
  proof (cases "dne < seg_len")
    case True
    let ?n = "min 1460 (seg_len - dne)"
    have r: "rd + ?n \<le> length stream \<and> rd + (?n + 12) + phys (seg_len - (dne + ?n)) \<le> length stream \<or>
        rd + ?n \<le> length stream \<and> dne + ?n = seg_len"
    proof (cases "1460 \<le> seg_len - dne")
      case True
      then show ?thesis using "1.prems" phys_drop [OF True] by simp
    next
      case False
      then show ?thesis using "1.prems" by (simp add: phys_def)
    qed
    then obtain bs where g: "get_bytes stream rd ?n = Some bs" "length bs = ?n"
      by (auto simp: get_bytes_def)
    show ?thesis
    proof (cases "dne + ?n = seg_len")
      case True2: True
      then show ?thesis
        using True g by (simp add: de_frame_loop.simps [of _ _ dne] de_frame_loop.simps [of _ seg_len seg_len] udp_consts Let_def)
    next
      case False
      have "dne + ?n \<le> seg_len" using True by simp
      then show ?thesis
        using "1.IH" [OF True refl, of bs] r False g True
        by (auto simp: de_frame_loop.simps [of _ _ dne] udp_consts Let_def)
    qed
  next
    case False
    then show ?thesis using "1.prems" by (subst de_frame_loop.simps) simp
  qed
qed

text \<open>
  Extraction of a flat segment never reads outside the stream; it succeeds iff the
  stream has room for the segment and all its tails, the empty last page included, and then it
  returns the data that was framed.
\<close>

theorem de_frame_dzflat_exact:
  "(\<exists>r. de_frame_dzflat stream seg_len = Some r \<and>
      (r \<noteq> None \<longleftrightarrow> 32 \<le> seg_len \<and> seg_len + 12 * (seg_len div 1460 + 1) \<le> length stream) \<and>
      (\<forall>seg. r = Some seg \<longrightarrow> length seg = seg_len)) \<and>
   (32 \<le> length d \<longrightarrow> de_frame_dzflat (concat (wire_pages m d)) (length d) = Some (Some d))"
proof
  show "\<exists>r. de_frame_dzflat stream seg_len = Some r \<and>
      (r \<noteq> None \<longleftrightarrow> 32 \<le> seg_len \<and> seg_len + 12 * (seg_len div 1460 + 1) \<le> length stream) \<and>
      (\<forall>seg. r = Some seg \<longrightarrow> length seg = seg_len)"
    using de_frame_loop_safe [of 0 seg_len 0 stream "[]"]
    by (auto simp: de_frame_dzflat_def udp_consts Let_def phys_def)
next
  have "de_frame_loop (concat (wire_pages m d)) (0 + length d) 0 0 [] = Some ([] @ d)"
    by (rule de_frame_loop_frames [where t = "tail_bytes (cut_base m (length d)) (page_after (length d))"])
      (simp_all add: concat_wire_pages)
  moreover have "length (concat (wire_pages m d)) = phys (length d) + 12" by (simp add: concat_wire_pages)
  ultimately show "32 \<le> length d \<longrightarrow> de_frame_dzflat (concat (wire_pages m d)) (length d) = Some (Some d)"
    by (auto simp: de_frame_dzflat_def udp_consts Let_def phys_def)
qed

theorem de_frame_dzflat_exact_witness:
  "de_frame_dzflat (concat (wire_pages (msg_base_init 3) (replicate 40 7))) 40 = Some (Some (replicate 40 7))"
  using de_frame_dzflat_exact [of "[]" 0 "replicate 40 7" "msg_base_init 3"] by simp

section \<open>Statistics of missing fragments\<close>

record frag_track_state =
  gap_hist :: "u64 list"
  messages_complete :: u64
  messages_incomplete :: u64
  fragments_expected :: u64
  fragments_missing :: u64
  gaps_total :: u64
  gap_max :: u64
  nack_explicit_sent :: u64
  nack_bitmap_sent :: u64
  nack_explicit_truncated :: u64
  nack_bitmap_truncated :: u64
  nack_suppressed :: u64
  pages_retransmitted_again :: u64
  rate_reductions :: u64
  rate_increments :: u64
  rate_floor_warns :: u64
  retransmit_bytes :: u64
  rate_bps_now :: nat
  observed_bps_now :: nat
  runs_now :: nat
  lost_now :: nat

definition kGapBuckets :: nat where "kGapBuckets = 7"

definition frag_track_init :: frag_track_state where
  "frag_track_init =
    \<lparr>gap_hist = replicate kGapBuckets 0,
     messages_complete = 0, messages_incomplete = 0, fragments_expected = 0, fragments_missing = 0,
     gaps_total = 0, gap_max = 0, nack_explicit_sent = 0, nack_bitmap_sent = 0,
     nack_explicit_truncated = 0, nack_bitmap_truncated = 0, nack_suppressed = 0,
     pages_retransmitted_again = 0, rate_reductions = 0, rate_increments = 0, rate_floor_warns = 0, retransmit_bytes = 0,
     rate_bps_now = 0, observed_bps_now = 0, runs_now = 0, lost_now = 0\<rparr>"

text \<open>
  \<open>get_fragment_loss_stats\<close> copies the counters one by one into a struct with the same fields;
  \<open>reset_fragment_loss_stats\<close> stores 0 in each.
\<close>

definition get_fragment_loss_stats :: "frag_track_state \<Rightarrow> frag_track_state" where
  "get_fragment_loss_stats st =
    frag_track_init
      \<lparr>gap_hist := map (\<lambda>i. gap_hist st ! i) [0..<kGapBuckets],
       messages_complete := messages_complete st,
       messages_incomplete := messages_incomplete st,
       fragments_expected := fragments_expected st,
       fragments_missing := fragments_missing st,
       gaps_total := gaps_total st,
       gap_max := gap_max st,
       nack_explicit_sent := nack_explicit_sent st,
       nack_bitmap_sent := nack_bitmap_sent st,
       nack_explicit_truncated := nack_explicit_truncated st,
       nack_bitmap_truncated := nack_bitmap_truncated st,
       nack_suppressed := nack_suppressed st,
       pages_retransmitted_again := pages_retransmitted_again st,
       rate_reductions := rate_reductions st,
       rate_increments := rate_increments st,
       rate_floor_warns := rate_floor_warns st,
       retransmit_bytes := retransmit_bytes st,
       rate_bps_now := rate_bps_now st,
       observed_bps_now := observed_bps_now st,
       runs_now := runs_now st,
       lost_now := lost_now st\<rparr>"

definition reset_fragment_loss_stats :: "frag_track_state \<Rightarrow> frag_track_state" where
  "reset_fragment_loss_stats st =
    st\<lparr>gap_hist := map (\<lambda>i. 0) [0..<kGapBuckets],
       messages_complete := 0,
       messages_incomplete := 0,
       fragments_expected := 0,
       fragments_missing := 0,
       gaps_total := 0,
       gap_max := 0,
       nack_explicit_sent := 0,
       nack_bitmap_sent := 0,
       nack_explicit_truncated := 0,
       nack_bitmap_truncated := 0,
       nack_suppressed := 0,
       pages_retransmitted_again := 0,
       rate_reductions := 0,
       rate_increments := 0,
       rate_floor_warns := 0,
       retransmit_bytes := 0,
       rate_bps_now := 0,
       observed_bps_now := 0,
       runs_now := 0,
       lost_now := 0\<rparr>"

definition gap_bucket_of :: "nat \<Rightarrow> nat" where
  "gap_bucket_of n =
     (if n \<le> 1 then 0 else if n \<le> 5 then 1 else if n \<le> 15 then 2 else if n \<le> 31 then 3
      else if n \<le> 63 then 4 else if n \<le> 255 then 5 else 6)"

definition count_gap :: "frag_track_state \<Rightarrow> nat \<Rightarrow> frag_track_state" where
  "count_gap st run =
     st\<lparr>gap_hist := (gap_hist st)[gap_bucket_of run := gap_hist st ! gap_bucket_of run + 1],
        gaps_total := gaps_total st + 1\<rparr>"

record gap_scan =
  gs_st :: frag_track_state
  gs_run :: nat
  gs_missing :: nat
  gs_local_max :: nat

definition gap_step :: "byte list \<Rightarrow> gap_scan \<Rightarrow> nat \<Rightarrow> gap_scan option" where
  "gap_step received g i =
     (if length received \<le> i then None
      else if received ! i = 0
      then Some (g\<lparr>gs_run := gs_run g + 1, gs_missing := gs_missing g + 1\<rparr>)
      else if 0 < gs_run g
      then Some (g\<lparr>gs_st := count_gap (gs_st g) (gs_run g),
                  gs_local_max := max (gs_local_max g) (gs_run g), gs_run := 0\<rparr>)
      else Some g)"

text \<open>The loop of compare-and-swaps at the end keeps the maximum when no other thread interferes.\<close>

definition record_fragment_gaps ::
    "bool \<Rightarrow> frag_track_state \<Rightarrow> byte list \<Rightarrow> u16 \<Rightarrow> bool \<Rightarrow> frag_track_state option" where
  "record_fragment_gaps enabled st received page_cnt complete =
     (if \<not> enabled then Some st
      else do {
        let st = st\<lparr>fragments_expected := fragments_expected st + ucast page_cnt\<rparr>;
        let st = (if complete then st\<lparr>messages_complete := messages_complete st + 1\<rparr>
                  else st\<lparr>messages_incomplete := messages_incomplete st + 1\<rparr>);
        g \<leftarrow> foldM (gap_step received)
               \<lparr>gs_st = st, gs_run = 0, gs_missing = 0, gs_local_max = 0\<rparr> [1..<unat page_cnt + 1];
        let g = (if 0 < gs_run g
                 then g\<lparr>gs_st := count_gap (gs_st g) (gs_run g), gs_local_max := max (gs_local_max g) (gs_run g)\<rparr>
                 else g);
        let st = gs_st g;
        let st = st\<lparr>fragments_missing := fragments_missing st + of_nat (gs_missing g)\<rparr>;
        Some (if gap_max st < of_nat (gs_local_max g) then st\<lparr>gap_max := of_nat (gs_local_max g)\<rparr> else st)
      })"

text \<open>The missing pages, and the first page of each maximal run of them.\<close>

definition missing_pages :: "byte list \<Rightarrow> nat \<Rightarrow> nat set" where
  "missing_pages received n = {i. 1 \<le> i \<and> i \<le> n \<and> received ! i = 0}"

definition run_starts :: "byte list \<Rightarrow> nat \<Rightarrow> nat set" where
  "run_starts received n = {i \<in> missing_pages received n. i = 1 \<or> received ! (i - 1) \<noteq> 0}"

definition gap_inv :: "byte list \<Rightarrow> frag_track_state \<Rightarrow> nat \<Rightarrow> gap_scan \<Rightarrow> bool" where
  "gap_inv received st k g \<longleftrightarrow>
     gs_missing g = card (missing_pages received k) \<and>
     (0 < gs_run g \<longleftrightarrow> 0 < k \<and> received ! k = 0) \<and>
     (\<exists>c. card (run_starts received k) = c + (if 0 < gs_run g then 1 else 0) \<and>
        gaps_total (gs_st g) = gaps_total st + of_nat c \<and>
        sum_list (gap_hist (gs_st g)) = sum_list (gap_hist st) + of_nat c) \<and>
     length (gap_hist (gs_st g)) = kGapBuckets \<and>
     fragments_missing (gs_st g) = fragments_missing st \<and>
     fragments_expected (gs_st g) = fragments_expected st"

lemma missing_pages_Suc:
  "missing_pages received (Suc k) =
     (if received ! Suc k = 0 then insert (Suc k) (missing_pages received k) else missing_pages received k)"
  by (auto simp: missing_pages_def le_Suc_eq)

lemma run_starts_Suc:
  "run_starts received (Suc k) =
     (if received ! Suc k = 0 \<and> (k = 0 \<or> received ! k \<noteq> 0) then insert (Suc k) (run_starts received k)
      else run_starts received k)"
  by (auto simp: run_starts_def missing_pages_Suc)

lemma finite_missing [simp]: "finite (missing_pages received k)"
  by (simp add: missing_pages_def)

lemma finite_run_starts [simp]: "finite (run_starts received k)"
  by (simp add: run_starts_def)

lemma not_in_missing [simp]: "Suc k \<notin> missing_pages received k" "Suc k \<notin> run_starts received k"
  by (simp_all add: missing_pages_def run_starts_def)

lemma sum_list_increment:
  "i < length xs \<Longrightarrow> sum_list (xs[i := 1 + xs ! i]) = 1 + sum_list (xs :: u64 list)"
  by (induction xs arbitrary: i) (auto simp: add_ac split: nat.split)

lemma gap_bucket_less: "gap_bucket_of n < kGapBuckets"
  by (simp add: gap_bucket_of_def kGapBuckets_def)

lemma no_pages [simp]: "missing_pages received 0 = {}" "run_starts received 0 = {}"
  by (auto simp: missing_pages_def run_starts_def)

lemma gap_step_inv:
  assumes "gap_inv received st k g" and "Suc k < length received"
  shows "\<exists>g'. gap_step received g (Suc k) = Some g' \<and> gap_inv received st (Suc k) g'"
  using assms gap_bucket_less [of "gs_run g"]
  by (auto simp: gap_step_def gap_inv_def missing_pages_Suc run_starts_Suc count_gap_def sum_list_increment add_ac)

lemma gap_scan_inv:
  assumes "gap_inv received st 0 g" and "k < length received"
  shows "\<exists>g'. foldM (gap_step received) g [1..<k + 1] = Some g' \<and> gap_inv received st k g'"
  using assms(2)
proof (induction k)
  case 0
  then show ?case using assms(1) by simp
next
  case (Suc k)
  then obtain g' where "foldM (gap_step received) g [1..<k + 1] = Some g'" "gap_inv received st k g'" by auto
  then show ?case using gap_step_inv [of received st k g'] Suc.prems by (auto simp: foldM_append)
qed

lemma gap_scan_total:
  "k < length received \<Longrightarrow> \<exists>g'. foldM (gap_step received) g [1..<k + 1] = Some g'"
proof (induction k)
  case 0
  then show ?case by simp
next
  case (Suc k)
  then obtain g' where g: "foldM (gap_step received) g [1..<k + 1] = Some g'" by auto
  have "\<exists>g2. gap_step received g' (k + 1) = Some g2" using Suc.prems by (simp add: gap_step_def)
  then show ?case using g by (auto simp: foldM_append)
qed

lemma record_fragment_gaps_total:
  "length received = unat page_cnt + 1 \<Longrightarrow> \<exists>st'. record_fragment_gaps enabled st received page_cnt complete = Some st'"
proof -
  assume "length received = unat page_cnt + 1"
  then have "\<forall>g. \<exists>g'. foldM (gap_step received) g [1..<unat page_cnt + 1] = Some g'"
    using gap_scan_total by simp
  then obtain F where "\<And>g. foldM (gap_step received) g [1..<unat page_cnt + 1] = Some (F g)" by metis
  then show ?thesis by (simp add: record_fragment_gaps_def Let_def del: upt_Suc)
qed

text \<open>
  The statistics of one message count every missing page once and every maximal run of
  missing pages once, each run in exactly one bucket of the histogram.
\<close>

theorem record_fragment_gaps_counts:
  assumes "length received = unat page_cnt + 1" and "length (gap_hist st) = kGapBuckets"
  shows "\<exists>st'. record_fragment_gaps True st received page_cnt complete = Some st' \<and>
    fragments_expected st' = fragments_expected st + ucast page_cnt \<and>
    fragments_missing st' = fragments_missing st + of_nat (card (missing_pages received (unat page_cnt))) \<and>
    gaps_total st' = gaps_total st + of_nat (card (run_starts received (unat page_cnt))) \<and>
    sum_list (gap_hist st') = sum_list (gap_hist st) + of_nat (card (run_starts received (unat page_cnt)))"
proof -
  let ?n = "unat page_cnt"
  define st1 where "st1 = (let st = st\<lparr>fragments_expected := fragments_expected st + ucast page_cnt\<rparr> in
    if complete then st\<lparr>messages_complete := messages_complete st + 1\<rparr>
    else st\<lparr>messages_incomplete := messages_incomplete st + 1\<rparr>)"
  define g0 where "g0 = \<lparr>gs_st = st1, gs_run = 0, gs_missing = 0, gs_local_max = 0\<rparr>"
  have "gap_inv received st1 0 g0"
    using assms(2) by (simp add: gap_inv_def g0_def st1_def Let_def)
  from gap_scan_inv [OF this, of ?n] assms(1)
  obtain g where g: "foldM (gap_step received) g0 [1..<?n + 1] = Some g" "gap_inv received st1 ?n g" by auto
  have st1: "gaps_total st1 = gaps_total st" "gap_hist st1 = gap_hist st"
    "fragments_missing st1 = fragments_missing st"
    "fragments_expected st1 = fragments_expected st + ucast page_cnt"
    by (simp_all add: st1_def Let_def)
  show ?thesis
    using g gap_bucket_less [of "gs_run g"]
    unfolding record_fragment_gaps_def Let_def not_True_eq_False if_False
      st1_def [unfolded Let_def, symmetric] g0_def [symmetric]
    by (auto simp: gap_inv_def st1 count_gap_def sum_list_increment add_ac)
qed

theorem record_fragment_gaps_counts_witness:
  "\<exists>st'. record_fragment_gaps True
      frag_track_init [0, 0, 0, 1, 0] 4 False = Some st' \<and>
    fragments_missing st' = of_nat (card (missing_pages [0, 0, 0, 1, 0] 4))"
  using record_fragment_gaps_counts [of "[0, 0, 0, 1, 0]" 4
      "frag_track_init" False]
  by (auto simp: kGapBuckets_def frag_track_init_def)


text \<open>A snapshot is the state; after a reset it is the initial state.\<close>

lemma get_fragment_loss_stats_snapshot:
  "length (gap_hist st) = kGapBuckets \<Longrightarrow> get_fragment_loss_stats st = st"
  by (cases st) (simp add: get_fragment_loss_stats_def frag_track_init_def list_eq_iff_nth_eq)

lemma get_after_reset: "get_fragment_loss_stats (reset_fragment_loss_stats st) = frag_track_init"
proof -
  have "reset_fragment_loss_stats st = frag_track_init"
    by (cases st) (simp add: reset_fragment_loss_stats_def frag_track_init_def map_replicate_const)
  then show ?thesis
    using get_fragment_loss_stats_snapshot [of frag_track_init] by (simp add: frag_track_init_def)
qed

end
