(* ===== verification/RateControl.thy ===== *)
theory RateControl
  imports Complex_Main Fragments "HOL-Library.Mapping" "HOL-Library.Signed_Division"
begin

text \<open>
  Timing and rate control of the reliable sender (\<open>src/dzIPC/common/data_rev.cc\<close>): the windows
  derived from a rate limit, the retransmission timeout, the table of peers, and the DCTCP-like
  control law that adapts the sending rate to the reported loss.
\<close>

section \<open>Constants\<close>

definition RTPS_MAX_NACK_ROUND :: nat where "RTPS_MAX_NACK_ROUND = 5"
definition ACK_FAST_WAIT_MS :: nat where "ACK_FAST_WAIT_MS = 5"
definition kRateFloorDivisor :: nat where "kRateFloorDivisor = 32"
definition kCleanMessagesPerIncrement :: u32 where "kCleanMessagesPerIncrement = 3"
definition kMinPagesForRateSignal :: u16 where "kMinPagesForRateSignal = 8"
definition kRateRecoverAlpha :: u32 where "kRateRecoverAlpha = 1"
definition kRateRecoverAlphaSentinel :: u32 where "kRateRecoverAlphaSentinel = 256"
definition kRateRecoverStepDivisor :: nat where "kRateRecoverStepDivisor = 320"
definition kRatePlan3RunsOn :: nat where "kRatePlan3RunsOn = 1"
definition kRatePlan3Sentinel :: nat where "kRatePlan3Sentinel = 4096"
definition kRunsCaptureEnabled :: bool where "kRunsCaptureEnabled = (kRatePlan3RunsOn < kRatePlan3Sentinel)"
definition kRatePlan3RunsRandom :: nat where "kRatePlan3RunsRandom = 579"
definition kMaxTauDelayRounds :: nat where "kMaxTauDelayRounds = 32"
definition kMinRtoUs :: nat where "kMinRtoUs = 200"
definition kMaxRtoUs :: nat where "kMaxRtoUs = 20000"
definition kInitialRtoUs :: nat where "kInitialRtoUs = ACK_FAST_WAIT_MS * 1000"
definition invalid_value :: nat where "invalid_value = 2 ^ 32 - 1"

lemmas rate_consts =
  kRateFloorDivisor_def kCleanMessagesPerIncrement_def kMinPagesForRateSignal_def kRateRecoverAlpha_def
  kRateRecoverAlphaSentinel_def kRateRecoverStepDivisor_def kRatePlan3RunsOn_def kRatePlan3Sentinel_def
  kRunsCaptureEnabled_def kRatePlan3RunsRandom_def kMaxTauDelayRounds_def

text \<open>Sums, differences and products of \<open>size_t\<close>, as natural numbers.\<close>

definition add64 :: "nat \<Rightarrow> nat \<Rightarrow> nat" where "add64 a b = (a + b) mod 2 ^ 64"
definition mul64 :: "nat \<Rightarrow> nat \<Rightarrow> nat" where "mul64 a b = a * b mod 2 ^ 64"
definition sub64 :: "nat \<Rightarrow> nat \<Rightarrow> nat" where "sub64 a b = wrap64 (int a - int b)"

lemma add64_id: "a + b < 2 ^ 64 \<Longrightarrow> add64 a b = a + b"
  by (simp add: add64_def)

lemma mul64_id: "a * b < 2 ^ 64 \<Longrightarrow> mul64 a b = a * b"
  by (simp add: mul64_def)

lemma sub64_id: "b \<le> a \<Longrightarrow> a < 2 ^ 64 \<Longrightarrow> sub64 a b = a - b"
  by (simp add: sub64_def of_nat_diff [symmetric] wrap64_nat del: of_nat_diff)


section \<open>Windows derived from the rate\<close>

text \<open>\<open>glob\<close> is the process-wide limit; a rate of 0 is no limit.\<close>

definition rate_limited_transit_ms :: "nat \<Rightarrow> u16 \<Rightarrow> nat \<Rightarrow> nat" where
  "rate_limited_transit_ms glob page_cnt bps =
     (let bps = (if bps = 0 then glob else bps) in
      if bps = 0 then 0
      else (let bytes = unat page_cnt * UDP_MAX_SIZE in bytes * 1000 div bps))"

definition pages_wait_ms :: "u16 \<Rightarrow> nat" where
  "pages_wait_ms page_cnt = max 20 (min 200 (unat page_cnt * 4))"

definition calc_round_wait_ms :: "nat \<Rightarrow> u16 \<Rightarrow> nat \<Rightarrow> nat" where
  "calc_round_wait_ms glob page_cnt tm =
     (let by_pages = pages_wait_ms page_cnt;
          transit_ms = rate_limited_transit_ms glob page_cnt 0;
          floor_ms = transit_ms + transit_ms div 2
      in if tm = invalid_value then max by_pages floor_ms
         else (let by_budget = max 10 (tm div (RTPS_MAX_NACK_ROUND + 1)) in
           max (min by_pages by_budget) floor_ms))"

definition calc_nack_wait_ms :: "nat \<Rightarrow> u16 \<Rightarrow> nat \<Rightarrow> nat" where
  "calc_nack_wait_ms glob page_cnt bps =
     (let by_pages = pages_wait_ms page_cnt;
          transit_ms = rate_limited_transit_ms glob page_cnt bps
      in max by_pages (transit_ms + transit_ms div 2))"

definition scaled_loss_fraction :: "u32 \<Rightarrow> u16 \<Rightarrow> u32" where
  "scaled_loss_fraction count page_cnt =
     (if page_cnt = 0 then 0
      else (let cnt = min (unat count) (unat page_cnt) in of_nat (min 256 (cnt * 256 div unat page_cnt))))"

definition window_floor_bps :: "nat \<Rightarrow> u16 \<Rightarrow> nat" where
  "window_floor_bps glob page_cnt =
     (let bytes = unat page_cnt * UDP_MAX_SIZE;
          transit_g = rate_limited_transit_ms glob page_cnt 0;
          deadline_est_ms = max 50 (transit_g + transit_g div 2 + 20)
      in bytes * 1500 div deadline_est_ms)"

section \<open>The retransmission timeout\<close>

text \<open>
  The estimator keeps its averages as \<open>double\<close>; they are rationals here, rounded after every
  operation by a parameter \<open>rnd\<close>.
\<close>

record rtt_estimator =
  srtt_us :: rat
  rttvar_us :: rat
  rto_us :: nat
  has_sample :: bool

definition rtt_initial :: rtt_estimator where
  "rtt_initial = \<lparr>srtt_us = 0, rttvar_us = 0, rto_us = kInitialRtoUs, has_sample = False\<rparr>"

definition observe :: "(rat \<Rightarrow> rat) \<Rightarrow> rtt_estimator \<Rightarrow> nat \<Rightarrow> rtt_estimator" where
  "observe rnd e sample_us =
     (if sample_us = 0 then e
      else (let s = rnd (of_nat sample_us);
                e = (if \<not> has_sample e
                     then e\<lparr>srtt_us := s, rttvar_us := rnd (s / 2), has_sample := True\<rparr>
                     else e\<lparr>rttvar_us := rnd (rnd ((1 - 1 / 4) * rttvar_us e) + rnd (1 / 4 * \<bar>rnd (srtt_us e - s)\<bar>)),
                            srtt_us := rnd (rnd ((1 - 1 / 8) * srtt_us e) + rnd (1 / 8 * s))\<rparr>);
                rto = rnd (srtt_us e + rnd (4 * rttvar_us e))
            in e\<lparr>rto_us := min kMaxRtoUs (max kMinRtoUs (nat \<lfloor>rto\<rfloor>))\<rparr>))"

definition ack_first_wait_ms :: "rtt_estimator \<Rightarrow> nat" where
  "ack_first_wait_ms e = max 1 ((rto_us e + 999) div 1000)"

section \<open>Peers\<close>

text \<open>Clock readings are nanoseconds; a default-constructed one is 0.\<close>

record peer_state =
  highest_acked_seq :: u32
  last_ack_ts :: int
  last_nack_ts :: int
  ack_count :: u64

type_synonym peer_table = "(u32, peer_state) mapping"

definition new_peer :: peer_state where
  "new_peer = \<lparr>highest_acked_seq = 0, last_ack_ts = 0, last_nack_ts = 0, ack_count = 0\<rparr>"

definition record_peer_ack :: "int \<Rightarrow> peer_table \<Rightarrow> u32 \<Rightarrow> u32 \<Rightarrow> peer_table" where
  "record_peer_ack now table receiver_id sequence =
     (let peer = Mapping.lookup_default new_peer table receiver_id;
          peer = (if highest_acked_seq peer < sequence then peer\<lparr>highest_acked_seq := sequence\<rparr> else peer)
      in Mapping.update receiver_id (peer\<lparr>last_ack_ts := now, ack_count := ack_count peer + 1\<rparr>) table)"

definition record_peer_nack :: "int \<Rightarrow> peer_table \<Rightarrow> u32 \<Rightarrow> peer_table" where
  "record_peer_nack now table receiver_id =
     (let peer = Mapping.lookup_default new_peer table receiver_id
      in Mapping.update receiver_id (peer\<lparr>last_nack_ts := now\<rparr>) table)"

definition peer_is_known :: "peer_table \<Rightarrow> u32 \<Rightarrow> bool" where
  "peer_is_known table receiver_id = (Mapping.lookup table receiver_id \<noteq> None)"

definition peer_count :: "peer_table \<Rightarrow> nat" where
  "peer_count table = Mapping.size table"

definition peer_is_live :: "int \<Rightarrow> peer_table \<Rightarrow> u32 \<Rightarrow> nat \<Rightarrow> bool" where
  "peer_is_live now table receiver_id lease_ms =
     (case Mapping.lookup table receiver_id of
        None \<Rightarrow> False
      | Some peer \<Rightarrow>
          if last_ack_ts peer = 0 then False
          else (let age_ms = (now - last_ack_ts peer) sdiv 1000000 in
            0 \<le> age_ms \<and> age_ms < int lease_ms))"


text \<open>The snapshot of the table for the user, in ascending order of the receivers.\<close>

definition get_peer_ack_info :: "peer_table \<Rightarrow> (u32 \<times> u32 \<times> u64) list" where
  "get_peer_ack_info table =
     map (\<lambda>r. let st = Mapping.lookup_default new_peer table r in (r, highest_acked_seq st, ack_count st))
       (sorted_list_of_set (Mapping.keys table))"

text \<open>
  \<open>rtt_of\<close>, \<open>peers_of\<close> and \<open>rate_state_of\<close>: the per-node state, created on first use.
\<close>

definition node_state :: "'s \<Rightarrow> ('n, 's) mapping \<Rightarrow> 'n \<Rightarrow> 's \<times> ('n, 's) mapping" where
  "node_state initial m node =
     (case Mapping.lookup m node of
        None \<Rightarrow> (initial, Mapping.update node initial m)
      | Some s \<Rightarrow> (s, m))"

section \<open>The state of the rate limiter\<close>

record rate_limit_state =
  initial_bps :: nat
  bps :: nat
  static_floor_bps :: nat
  clean_count :: u32
  floor_warned :: bool
  alpha_scaled :: u32
  additive_step_bps :: nat
  observed_bps_last :: nat
  runs_last :: nat
  lost_last :: nat
  alpha_accum :: u32
  tau_delay_buf :: "u32 list"
  tau_delay_head :: nat

definition rate_limit_init :: rate_limit_state where
  "rate_limit_init =
     \<lparr>initial_bps = 0, bps = 0, static_floor_bps = 0, clean_count = 0, floor_warned = False,
      alpha_scaled = 0, additive_step_bps = 0, observed_bps_last = 0, runs_last = 0, lost_last = 0,
      alpha_accum = 0, tau_delay_buf = replicate kMaxTauDelayRounds 0, tau_delay_head = 0\<rparr>"

text \<open>The argument of \<open>tau_delay_rounds\<close> is the number in the environment variable, if it is set.\<close>

definition tau_delay_rounds :: "nat option \<Rightarrow> nat" where
  "tau_delay_rounds env =
     (case env of None \<Rightarrow> 0 | Some v \<Rightarrow> min (v mod 2 ^ 32) kMaxTauDelayRounds)"

definition effective_rate_bps :: "nat \<Rightarrow> rate_limit_state \<Rightarrow> nat \<Rightarrow> nat \<times> rate_limit_state" where
  "effective_rate_bps glob st options_bps =
     (if options_bps \<noteq> 0 then (options_bps, st)
      else if glob = 0 then (0, st)
      else (let st = (if initial_bps st \<noteq> glob
              then st\<lparr>initial_bps := glob, bps := glob, static_floor_bps := glob div kRateFloorDivisor,
                      clean_count := 0, floor_warned := False, alpha_scaled := 0, alpha_accum := 0,
                      additive_step_bps := max 1 (glob div 16), observed_bps_last := 0, runs_last := 0,
                      lost_last := 0\<rparr>
              else st)
            in (bps st, st)))"

section \<open>The control law\<close>

text \<open>One message's outcome, the arguments of \<open>adapt_rate_dctcp\<close>.\<close>

record rate_report =
  rr_page_cnt :: u16
  rr_f_max :: u32
  rr_clean :: bool
  rr_at_floor_timeout :: bool
  rr_observed :: nat
  rr_runs :: nat
  rr_lost :: nat

text \<open>The delay line, bypassed when the delay is 0.\<close>

definition delay_line :: "nat \<Rightarrow> u32 \<Rightarrow> rate_limit_state \<Rightarrow> u32 \<times> rate_limit_state" where
  "delay_line d f_scaled st =
     (if d = 0 then (f_scaled, st)
      else (let slot = (tau_delay_head st + kMaxTauDelayRounds - d) mod kMaxTauDelayRounds in
        (tau_delay_buf st ! slot,
         st\<lparr>tau_delay_buf := (tau_delay_buf st)[tau_delay_head st := f_scaled],
            tau_delay_head := (tau_delay_head st + 1) mod kMaxTauDelayRounds\<rparr>)))"

definition ewma_step :: "u32 \<Rightarrow> u32 \<Rightarrow> u32" where
  "ewma_step accum f_ewma = accum + word_of_int ((sint f_ewma * 16 - sint accum) sdiv 16)"

definition inc_step :: "rate_limit_state \<Rightarrow> nat" where
  "inc_step st =
     (if kRateRecoverAlphaSentinel \<le> kRateRecoverAlpha then additive_step_bps st
      else max 1 (initial_bps st div kRateRecoverStepDivisor))"

definition runs_random :: "rate_report \<Rightarrow> bool" where
  "runs_random r =
     (kRunsCaptureEnabled \<and> 0 < rr_runs r \<and> 0 < rr_lost r \<and>
      mul64 kRatePlan3RunsRandom (rr_lost r) < mul64 (rr_runs r) 1000)"

text \<open>A warning is printed and counted at most once between reseedings.\<close>

definition warn_floor :: "bool \<Rightarrow> rate_limit_state \<times> frag_track_state \<Rightarrow> rate_limit_state \<times> frag_track_state" where
  "warn_floor track sf =
     (let (st, fs) = sf in
      (st\<lparr>floor_warned := True\<rparr>,
       if track then fs\<lparr>rate_floor_warns := rate_floor_warns fs + 1\<rparr> else fs))"

definition raise_rate :: "bool \<Rightarrow> rate_limit_state \<times> frag_track_state \<Rightarrow> rate_limit_state \<times> frag_track_state" where
  "raise_rate track sf =
     (let (st, fs) = sf;
          old_bps = bps st;
          st = st\<lparr>bps := min (initial_bps st) (add64 (bps st) (inc_step st)), clean_count := 0\<rparr>
      in (st, if track \<and> bps st \<noteq> old_bps then fs\<lparr>rate_increments := rate_increments fs + 1\<rparr> else fs))"

definition lower_rate ::
    "bool \<Rightarrow> nat \<Rightarrow> bool \<Rightarrow> rate_limit_state \<times> frag_track_state \<Rightarrow> rate_limit_state \<times> frag_track_state" where
  "lower_rate track floor_bps random sf =
     (let (st, fs) = sf;
          old_bps = bps st;
          alpha_eff = (if random then 1 else max (unat (alpha_scaled st)) 1);
          drp = add64 (mul64 (bps st) alpha_eff) 511 div 512;
          st = st\<lparr>bps := max floor_bps (sub64 (bps st) drp), clean_count := 0\<rparr>;
          (st, fs) = (if bps st = floor_bps \<and> \<not> floor_warned st then warn_floor track (st, fs) else (st, fs))
      in (st, if track \<and> bps st \<noteq> old_bps then fs\<lparr>rate_reductions := rate_reductions fs + 1\<rparr> else fs))"

text \<open>The condition of the additive increase; its first alternative counts clean messages.\<close>

definition recover_gate :: "rate_limit_state \<Rightarrow> bool \<times> rate_limit_state" where
  "recover_gate st =
     (if kRateRecoverAlphaSentinel \<le> kRateRecoverAlpha
      then (let st = st\<lparr>clean_count := clean_count st + 1\<rparr> in (kCleanMessagesPerIncrement \<le> clean_count st, st))
      else (drop_bit 4 (alpha_accum st) \<le> kRateRecoverAlpha, st))"

definition adapt_rate_dctcp ::
    "nat \<Rightarrow> nat \<Rightarrow> bool \<Rightarrow> rate_report \<Rightarrow> rate_limit_state \<times> frag_track_state
       \<Rightarrow> rate_limit_state \<times> frag_track_state" where
  "adapt_rate_dctcp glob d track r sf =
     (let (st, fs) = sf in
      if bps st = 0 then (st, fs)
      else
       (let floor_bps = max (static_floor_bps st) (window_floor_bps glob (rr_page_cnt r));
            at_floor = bps st \<le> floor_bps;
            f_scaled = min (rr_f_max r) 256;
            (f_ewma, st) = delay_line d f_scaled st;
            st = st\<lparr>alpha_accum := ewma_step (alpha_accum st) f_ewma\<rparr>;
            st = st\<lparr>alpha_scaled := drop_bit 4 (alpha_accum st)\<rparr>;
            (st, fs) =
              (if 0 < f_ewma
               then (let sf = lower_rate track floor_bps (runs_random r) (st, fs)
                     in if runs_random r then raise_rate track sf else sf)
               else (let (gate, st) = (if rr_clean r \<and> kMinPagesForRateSignal \<le> rr_page_cnt r
                                       then recover_gate st else (False, st))
                     in if gate then raise_rate track (st, fs)
                        else if rr_at_floor_timeout r \<and> at_floor \<and> \<not> floor_warned st
                        then warn_floor track (st, fs) else (st, fs)));
            st = st\<lparr>observed_bps_last := rr_observed r, runs_last := rr_runs r, lost_last := rr_lost r\<rparr>
        in (st, if track
                then fs\<lparr>rate_bps_now := bps st, observed_bps_now := observed_bps_last st,
                        runs_now := runs_last st, lost_now := lost_last st\<rparr>
                else fs)))"


section \<open>Arithmetic of the control law\<close>

lemma sint_small:
  fixes w :: u32
  assumes "unat w < 2 ^ 31"
  shows "sint w = int (unat w)"
proof -
  have "sint w = signed_take_bit 31 (int (unat w))" by (simp add: sint_uint)
  also have "\<dots> = int (unat w)"
  proof (rule signed_take_bit_int_eq_self)
    have "int (unat w) < int (2 ^ 31)" using assms by (simp only: of_nat_less_iff)
    then show "int (unat w) < 2 ^ 31" by simp
    have "- (2 ^ 31) \<le> (0 :: int)" by simp
    then show "- (2 ^ 31) \<le> int (unat w)" by (rule order_trans) (rule of_nat_0_le_iff)
  qed
  finally show ?thesis .
qed

lemma of_int_div_16: "(of_int (int n div 16) :: u32) = of_nat (n div 16)"
  by (metis of_int_of_nat_eq of_nat_numeral zdiv_int)

lemma sdiv_16: "x sdiv 16 = (if 0 \<le> x then x div 16 else - ((- x) div 16))" for x :: int
  by (cases "x = 0") (simp_all add: signed_divide_int_def sgn_if)

lemma unat_ewma_step:
  assumes "unat a \<le> 4096" and "unat f \<le> 256"
  shows "unat (ewma_step a f) =
    (if unat a \<le> unat f * 16 then unat a + (unat f * 16 - unat a) div 16
     else unat a - (unat a - unat f * 16) div 16)"
proof -
  have si: "sint a = int (unat a)" "sint f = int (unat f)"
    by (rule sint_small, use assms in simp)+
  show ?thesis
  proof (cases "unat a \<le> unat f * 16")
    case True
    have "sint f * 16 - sint a = int (unat f * 16 - unat a)" using True unfolding si by simp
    then have "ewma_step a f = a + of_nat ((unat f * 16 - unat a) div 16)"
      unfolding ewma_step_def sdiv_16 by (simp only: of_nat_0_le_iff if_True of_int_div_16)
    then show ?thesis
      using True assms by (simp add: unat_word_ariths unat_of_nat)
  next
    case False
    have d: "(unat a - unat f * 16) div 16 \<le> unat a" by (meson div_le_dividend diff_le_self le_trans)
    obtain k where k: "unat a = unat f * 16 + k" "0 < k"
      using False less_imp_add_positive [of "unat f * 16" "unat a"] unfolding not_le by metis
    have "sint f * 16 - sint a = - int (unat a - unat f * 16)" "\<not> 0 \<le> - int (unat a - unat f * 16)"
      unfolding si k(1) using k(2) by (simp_all del: of_nat_unat)
    then have "ewma_step a f = a - of_nat ((unat a - unat f * 16) div 16)"
      unfolding ewma_step_def sdiv_16 by (simp only: if_False minus_minus of_int_minus of_int_div_16 add_uminus_conv_diff)
    also have "\<dots> = of_nat (unat a - (unat a - unat f * 16) div 16)"
      using d by (simp add: of_nat_diff)
    finally show ?thesis
      using False assms by (simp add: unat_of_nat del: of_nat_diff)
  qed
qed

lemma ewma_step_bounds:
  assumes "unat a \<le> 4096" and "unat f \<le> 256"
  shows "unat (ewma_step a f) \<le> 4096"
  using assms by (auto simp: unat_ewma_step)

lemma ewma_step_clean: "unat a \<le> 4096 \<Longrightarrow> unat (ewma_step a 0) = unat a - unat a div 16"
  by (cases "unat a = 0") (simp_all add: unat_ewma_step)

lemma unat_drop_bit_4: "unat (drop_bit 4 a) = unat a div 16" for a :: u32
  by (simp add: unat_drop_bit_eq flip: drop_bit_eq_div) (simp add: drop_bit_eq_div)

lemma window_floor_less:
  assumes "0 < glob"
  shows "window_floor_bps glob page_cnt < glob"
proof -
  define b where "b = unat page_cnt * 1472"
  define t where "t = b * 1000 div glob"
  define D where "D = max 50 (t + t div 2 + 20)"
  have lt: "b * 1000 < (t + 1) * glob"
    using assms dividend_less_div_times [of glob "b * 1000"] by (simp add: t_def add.commute)
  have td: "3 * t + 39 \<le> 2 * D" unfolding D_def by (simp add: max_def) presburger
  have "b * 3000 \<le> 3 * (t + 1) * glob" using lt unfolding mult.assoc by linarith
  also have "\<dots> < (2 * D) * glob" using td assms by simp
  finally have "b * 1500 < D * glob" by simp
  then have "b * 1500 div D < glob" by (simp add: div_less_iff_less_mult D_def mult.commute)
  then show ?thesis
    using assms by (simp add: window_floor_bps_def rate_limited_transit_ms_def Let_def udp_consts b_def t_def D_def)
qed

lemma window_floor_unlimited: "window_floor_bps 0 page_cnt \<le> 2 ^ 55"
proof -
  have "unat page_cnt < 65536" using unsigned_less [of page_cnt, where ?'a = nat] by simp
  then have "unat page_cnt * 1472 * 1500 div 50 \<le> 65536 * 1472 * 1500 div 50" by (intro div_le_mono) simp
  then show ?thesis by (simp add: window_floor_bps_def rate_limited_transit_ms_def Let_def udp_consts)
qed

lemma window_floor_bound: "glob \<le> 2 ^ 55 \<Longrightarrow> window_floor_bps glob page_cnt \<le> 2 ^ 55"
  using window_floor_less [of glob page_cnt] window_floor_unlimited [of page_cnt] by (cases "glob = 0") auto

lemma rate_drop:
  assumes "b \<le> 2 ^ 55" and "1 \<le> b" and "1 \<le> a" and "a \<le> 256"
  shows "add64 (mul64 b a) 511 div 512 = (b * a + 511) div 512"
    "1 \<le> (b * a + 511) div 512" "(b * a + 511) div 512 \<le> b"
    "sub64 b (add64 (mul64 b a) 511 div 512) = b - (b * a + 511) div 512"
proof -
  have p: "b * a \<le> 2 ^ 55 * 256" using assms by (intro mult_le_mono) auto
  then show e: "add64 (mul64 b a) 511 div 512 = (b * a + 511) div 512"
    by (simp add: add64_id mul64_id)
  have "1 \<le> b * a" using assms by (metis mult_le_mono nat_mult_1)
  then show "1 \<le> (b * a + 511) div 512" using div_le_mono [of 512 "b * a + 511" 512] by simp
  have "b * a \<le> b * 256" using assms(4) by (rule mult_le_mono2)
  moreover have "b * 256 + 511 < 512 * (b + 1)" by simp
  ultimately have "b * a + 511 < 512 * (b + 1)" by (rule order_le_less_trans [OF add_right_mono])
  then show le: "(b * a + 511) div 512 \<le> b"
    by (metis add.commute less_Suc_eq_le less_mult_imp_div_less mult.commute plus_1_eq_Suc)
  show "sub64 b (add64 (mul64 b a) 511 div 512) = b - (b * a + 511) div 512"
    unfolding e using le assms(1) by (intro sub64_id) simp_all
qed


section \<open>What one message does to the rate\<close>

definition rate_wf :: "rate_limit_state \<Rightarrow> bool" where
  "rate_wf st \<longleftrightarrow>
     static_floor_bps st \<le> bps st \<and> bps st \<le> 2 ^ 55 \<and> initial_bps st \<le> 2 ^ 55 \<and>
     static_floor_bps st = initial_bps st div 32 \<and>
     unat (alpha_accum st) \<le> 4096 \<and> alpha_scaled st = drop_bit 4 (alpha_accum st) \<and>
     length (tau_delay_buf st) = 32 \<and> tau_delay_head st < 32 \<and>
     (\<forall>x\<in>set (tau_delay_buf st). unat x \<le> 256)"

lemma unat_min: "unat (min a b) = min (unat a) (unat b)"
  by (simp add: min_def word_le_nat_alt)

lemma delay_line_bound:
  assumes "rate_wf st" and "unat f \<le> 256"
  shows "unat (fst (delay_line d f st)) \<le> 256"
proof -
  have "(tau_delay_head st + 32 - d) mod 32 < length (tau_delay_buf st)"
    using assms(1) by (simp add: rate_wf_def)
  then have "tau_delay_buf st ! ((tau_delay_head st + 32 - d) mod 32) \<in> set (tau_delay_buf st)" by (rule nth_mem)
  then show ?thesis using assms by (simp add: delay_line_def rate_consts Let_def rate_wf_def)
qed

lemma delay_line_fields [simp]:
  "bps (snd (delay_line d f st)) = bps st" "initial_bps (snd (delay_line d f st)) = initial_bps st"
  "static_floor_bps (snd (delay_line d f st)) = static_floor_bps st"
  "alpha_accum (snd (delay_line d f st)) = alpha_accum st"
  by (simp_all add: delay_line_def Let_def)

lemma delay_line_buffer:
  assumes "rate_wf st" and "unat f \<le> 256"
  shows "length (tau_delay_buf (snd (delay_line d f st))) = 32 \<and> tau_delay_head (snd (delay_line d f st)) < 32 \<and>
    (\<forall>x\<in>set (tau_delay_buf (snd (delay_line d f st))). unat x \<le> 256)"
  using assms by (auto simp: delay_line_def rate_consts Let_def rate_wf_def dest!: set_update_subset_insert [THEN subsetD])

text \<open>The rates after one message, without the bookkeeping.\<close>

definition lowered :: "rate_limit_state \<Rightarrow> nat \<Rightarrow> u32 \<Rightarrow> bool \<Rightarrow> nat" where
  "lowered st floor_bps accum random =
     max floor_bps (bps st - (bps st * (if random then 1 else max (unat accum div 16) 1) + 511) div 512)"

definition raised :: "rate_limit_state \<Rightarrow> nat \<Rightarrow> nat" where
  "raised st b = min (initial_bps st) (b + max 1 (initial_bps st div 320))"

definition next_bps :: "nat \<Rightarrow> nat \<Rightarrow> rate_report \<Rightarrow> rate_limit_state \<Rightarrow> nat" where
  "next_bps glob d r st =
     (let floor_bps = max (static_floor_bps st) (window_floor_bps glob (rr_page_cnt r));
          f = fst (delay_line d (min (rr_f_max r) 256) st);
          accum = ewma_step (alpha_accum st) f
      in if 0 < f
         then (if runs_random r then raised st (lowered st floor_bps accum True) else lowered st floor_bps accum False)
         else if rr_clean r \<and> 8 \<le> rr_page_cnt r \<and> unat accum < 32 then raised st (bps st)
         else bps st)"

lemma inc_step_eq: "inc_step st = max 1 (initial_bps st div 320)"
  by (simp add: inc_step_def rate_consts word_le_nat_alt)

lemma raise_rate_fields:
  assumes "bps (fst sf) \<le> 2 ^ 55" and "initial_bps (fst sf) \<le> 2 ^ 55"
  shows "bps (fst (raise_rate track sf)) = raised (fst sf) (bps (fst sf))"
proof -
  have "initial_bps (fst sf) div 320 \<le> 2 ^ 55" using assms(2) by (meson div_le_dividend le_trans)
  then have "bps (fst sf) + max 1 (initial_bps (fst sf) div 320) < 2 ^ 64" using assms(1) by simp
  then show ?thesis by (simp add: raise_rate_def Let_def inc_step_eq raised_def add64_id split_beta)
qed

lemma raise_rate_other [simp]:
  "initial_bps (fst (raise_rate track sf)) = initial_bps (fst sf)"
  "static_floor_bps (fst (raise_rate track sf)) = static_floor_bps (fst sf)"
  "alpha_accum (fst (raise_rate track sf)) = alpha_accum (fst sf)"
  "alpha_scaled (fst (raise_rate track sf)) = alpha_scaled (fst sf)"
  "tau_delay_buf (fst (raise_rate track sf)) = tau_delay_buf (fst sf)"
  "tau_delay_head (fst (raise_rate track sf)) = tau_delay_head (fst sf)"
  by (cases sf; simp add: raise_rate_def Let_def)+

lemma warn_floor_other [simp]:
  "initial_bps (fst (warn_floor track sf)) = initial_bps (fst sf)"
  "static_floor_bps (fst (warn_floor track sf)) = static_floor_bps (fst sf)"
  "alpha_accum (fst (warn_floor track sf)) = alpha_accum (fst sf)"
  "alpha_scaled (fst (warn_floor track sf)) = alpha_scaled (fst sf)"
  "tau_delay_buf (fst (warn_floor track sf)) = tau_delay_buf (fst sf)"
  "tau_delay_head (fst (warn_floor track sf)) = tau_delay_head (fst sf)"
  "bps (fst (warn_floor track sf)) = bps (fst sf)"
  by (cases sf; simp add: warn_floor_def Let_def)+

lemma lower_rate_other [simp]:
  "initial_bps (fst (lower_rate track fl random sf)) = initial_bps (fst sf)"
  "static_floor_bps (fst (lower_rate track fl random sf)) = static_floor_bps (fst sf)"
  "alpha_accum (fst (lower_rate track fl random sf)) = alpha_accum (fst sf)"
  "alpha_scaled (fst (lower_rate track fl random sf)) = alpha_scaled (fst sf)"
  "tau_delay_buf (fst (lower_rate track fl random sf)) = tau_delay_buf (fst sf)"
  "tau_delay_head (fst (lower_rate track fl random sf)) = tau_delay_head (fst sf)"
  by (cases sf; simp add: lower_rate_def Let_def split_beta)+

lemma bps_if_warn: "bps (fst (if c then warn_floor track (s, fs) else (s, fs))) = bps s"
  by simp

lemma if_pair_False: "(if c then (g, s) else (False, s)) = (c \<and> g, s)"
  by simp

lemma lower_rate_bps_raw:
  "bps (fst (lower_rate track fl random (st, fs))) =
     max fl (sub64 (bps st) (add64 (mul64 (bps st) (if random then 1 else max (unat (alpha_scaled st)) 1)) 511 div 512))"
  by (simp only: lower_rate_def Let_def split_beta fst_conv snd_conv bps_if_warn prod.collapse) simp

lemma lower_rate_bps:
  assumes "bps st \<le> 2 ^ 55" and "1 \<le> bps st" and "alpha_scaled st = drop_bit 4 (alpha_accum st)"
    and "unat (alpha_accum st) \<le> 4096"
  shows "bps (fst (lower_rate track fl random (st, fs))) = lowered st fl (alpha_accum st) random"
proof -
  have "1 \<le> (if random then 1 else max (unat (alpha_scaled st)) 1)"
    "(if random then 1 else max (unat (alpha_scaled st)) 1) \<le> 256"
    using assms(3) div_le_mono [OF assms(4), of 16] by (simp_all add: unat_drop_bit_4)
  from rate_drop (4) [OF assms(1,2) this] show ?thesis
    unfolding lower_rate_bps_raw lowered_def unat_drop_bit_4 assms(3) by simp
qed

lemma lowered_bounds:
  assumes "bps st \<le> 2 ^ 55" and "1 \<le> bps st" and "unat accum \<le> 4096"
  shows "lowered st fl accum random \<le> max fl (bps st - 1)" "fl \<le> lowered st fl accum random"
proof -
  have "1 \<le> (if random then 1 else max (unat accum div 16) 1)"
    "(if random then 1 else max (unat accum div 16) 1) \<le> 256"
    using div_le_mono [OF assms(3), of 16] by simp_all
  from diff_le_mono2 [OF rate_drop (2) [OF assms(1,2) this], of "bps st"]
  show "lowered st fl accum random \<le> max fl (bps st - 1)"
    unfolding lowered_def by (intro max.mono order_refl)
  show "fl \<le> lowered st fl accum random" by (simp add: lowered_def)
qed

lemma adapt_rate_fields:
  assumes wf: "rate_wf st" and "1 \<le> bps st" and "glob \<le> 2 ^ 55"
    and st': "st' = fst (adapt_rate_dctcp glob d track r (st, fs))"
  shows "bps st' = next_bps glob d r st" "initial_bps st' = initial_bps st"
    "static_floor_bps st' = static_floor_bps st"
    "alpha_accum st' = ewma_step (alpha_accum st) (fst (delay_line d (min (rr_f_max r) 256) st))"
    "alpha_scaled st' = drop_bit 4 (alpha_accum st')"
    "tau_delay_buf st' = tau_delay_buf (snd (delay_line d (min (rr_f_max r) 256) st))"
    "tau_delay_head st' = tau_delay_head (snd (delay_line d (min (rr_f_max r) 256) st))"
proof -
  define f where "f = min (rr_f_max r) 256"
  define p where "p = delay_line d f st"
  define acc where "acc = ewma_step (alpha_accum st) (fst p)"
  define st1 where "st1 = (snd p)\<lparr>alpha_accum := acc, alpha_scaled := drop_bit 4 acc\<rparr>"
  define fl where "fl = max (static_floor_bps st) (window_floor_bps glob (rr_page_cnt r))"
  have uf: "unat f \<le> 256" by (simp add: f_def unat_min)
  have "unat (fst p) \<le> 256" unfolding p_def by (rule delay_line_bound [OF wf uf])
  then have acc: "unat acc \<le> 4096"
    unfolding acc_def using wf by (intro ewma_step_bounds) (simp_all add: rate_wf_def)
  have b: "bps st1 = bps st" "initial_bps st1 = initial_bps st" "static_floor_bps st1 = static_floor_bps st"
    "alpha_accum st1 = acc" "alpha_scaled st1 = drop_bit 4 acc"
    "tau_delay_buf st1 = tau_delay_buf (snd p)" "tau_delay_head st1 = tau_delay_head (snd p)"
    by (simp_all add: st1_def p_def)
  have bnd: "bps st \<le> 2 ^ 55" "initial_bps st \<le> 2 ^ 55" using wf by (simp_all add: rate_wf_def)
  have low: "bps (fst (lower_rate track fl random (st1, fs))) = lowered st fl acc random" for random
    using lower_rate_bps [of st1 track fl random fs] assms(2) bnd acc b by (simp add: lowered_def)
  have "fl \<le> 2 ^ 55" using wf window_floor_bound [OF assms(3)] by (simp add: fl_def rate_wf_def)
  then have lowb: "lowered st fl acc random \<le> 2 ^ 55" for random
    using lowered_bounds(1) [OF bnd(1) assms(2) acc, of fl random] bnd(1) by simp
  have gate: "(drop_bit 4 acc \<le> 1) = (unat acc < 32)"
    by (simp add: word_le_nat_alt unat_drop_bit_4) linarith
  have unf: "st' = (let sf = (if 0 < fst p
           then (let sf = lower_rate track fl (runs_random r) (st1, fs)
                 in if runs_random r then raise_rate track sf else sf)
           else if rr_clean r \<and> 8 \<le> rr_page_cnt r \<and> unat acc < 32 then raise_rate track (st1, fs)
           else if rr_at_floor_timeout r \<and> bps st \<le> fl \<and> \<not> floor_warned st1
           then warn_floor track (st1, fs) else (st1, fs))
      in fst sf\<lparr>observed_bps_last := rr_observed r, runs_last := rr_runs r, lost_last := rr_lost r\<rparr>)"
  proof -
    have g: "recover_gate st1 = (unat acc < 32, st1)"
      using gate b(4) by (simp add: recover_gate_def rate_consts word_le_nat_alt)
    have nz: "bps st \<noteq> 0" using assms(2) by simp
    have adapt: "adapt_rate_dctcp glob d track r (st, fs) =
       (let (st, fs) =
              (if 0 < fst p
               then (let sf = lower_rate track fl (runs_random r) (st1, fs)
                     in if runs_random r then raise_rate track sf else sf)
               else (let (gate, st) = (if rr_clean r \<and> kMinPagesForRateSignal \<le> rr_page_cnt r
                                       then recover_gate st1 else (False, st1))
                     in if gate then raise_rate track (st, fs)
                        else if rr_at_floor_timeout r \<and> bps st1 \<le> fl \<and> \<not> floor_warned st
                        then warn_floor track (st, fs) else (st, fs)));
            st = st\<lparr>observed_bps_last := rr_observed r, runs_last := rr_runs r, lost_last := rr_lost r\<rparr>
        in (st, if track
                then fs\<lparr>rate_bps_now := bps st, observed_bps_now := observed_bps_last st,
                        runs_now := runs_last st, lost_now := lost_last st\<rparr>
                else fs))"
      using nz unfolding fl_def st1_def acc_def p_def f_def adapt_rate_dctcp_def Let_def split_beta
      by (simp split del: if_split cong: if_cong)
    show ?thesis
      unfolding st' adapt Let_def split_beta fst_conv g if_pair_False kMinPagesForRateSignal_def b(1)
      by (simp split del: if_split cong: if_cong)
  qed
  show "bps st' = next_bps glob d r st"
    using low lowb bnd b
    unfolding unf next_bps_def Let_def fl_def [symmetric] f_def [symmetric] p_def [symmetric] acc_def [symmetric]
    by (simp add: raise_rate_fields raised_def)
  show "initial_bps st' = initial_bps st" "static_floor_bps st' = static_floor_bps st"
    "alpha_accum st' = ewma_step (alpha_accum st) (fst (delay_line d (min (rr_f_max r) 256) st))"
    "alpha_scaled st' = drop_bit 4 (alpha_accum st')"
    "tau_delay_buf st' = tau_delay_buf (snd (delay_line d (min (rr_f_max r) 256) st))"
    "tau_delay_head st' = tau_delay_head (snd (delay_line d (min (rr_f_max r) 256) st))"
    unfolding unf f_def [symmetric] p_def [symmetric] acc_def [symmetric]
    by (simp_all add: Let_def b)
qed

end
