(* ===== verification/CircularQueue.thy ===== *)
theory CircularQueue
  imports QueueContract RateControl
begin

text \<open>
  The queue of received samples (\<open>src/include/dzIPC/common/circularqueue.h\<close>): a ring of cells
  with sequence numbers, whose \<open>push\<close> drops the oldest sample when the ring is full. One thread at
  a time is modelled, so that a compare-and-swap of a position just read succeeds.
\<close>

section \<open>The ring\<close>

record 'm cell =
  cell_seq :: nat
  cell_data :: "'m option"

record 'm circular_queue =
  cq_capacity :: nat
  cq_cells :: "'m cell list"
  cq_enqueue :: nat
  cq_dequeue :: nat

text \<open>Positions and sequences are \<open>size_t\<close>, read as \<open>intptr_t\<close> by the comparisons.\<close>

definition as_signed :: "nat \<Rightarrow> int" where
  "as_signed n = (if n < 2 ^ 63 then int n else int n - 2 ^ 64)"

definition CircularQueue :: "nat \<Rightarrow> 'm circular_queue" where
  "CircularQueue capacity =
     (let c = (if capacity = 0 then 1 else capacity)
      in \<lparr>cq_capacity = c, cq_cells = map (\<lambda>i. \<lparr>cell_seq = i, cell_data = None\<rparr>) [0..<c], cq_enqueue = 0, cq_dequeue = 0\<rparr>)"

definition cell_at :: "'m circular_queue \<Rightarrow> nat \<Rightarrow> 'm cell" where
  "cell_at q pos = cq_cells q ! (pos mod cq_capacity q)"

definition set_cell :: "'m circular_queue \<Rightarrow> nat \<Rightarrow> 'm cell \<Rightarrow> 'm circular_queue" where
  "set_cell q pos c = q\<lparr>cq_cells := (cq_cells q)[pos mod cq_capacity q := c]\<rparr>"

text \<open>
  The loops read the position again when the cell is ahead of it; with no other thread they read
  the same one, so they end within the first round or never. The first argument bounds the
  rounds, \<open>None\<close> is a loop that has not ended.
\<close>

primrec try_enqueue :: "nat \<Rightarrow> 'm \<Rightarrow> 'm circular_queue \<Rightarrow> (bool \<times> 'm circular_queue) option" where
  "try_enqueue 0 msg q = None"
| "try_enqueue (Suc n) msg q =
     (let pos = cq_enqueue q;
          diff = as_signed (cell_seq (cell_at q pos)) - as_signed pos
      in if diff = 0
         then Some (True, set_cell (q\<lparr>cq_enqueue := add64 pos 1\<rparr>) pos
                            \<lparr>cell_seq = add64 pos 1, cell_data = Some msg\<rparr>)
         else if diff < 0 then Some (False, q)
         else try_enqueue n msg q)"

primrec try_dequeue :: "nat \<Rightarrow> 'm circular_queue \<Rightarrow> ('m option option \<times> 'm circular_queue) option" where
  "try_dequeue 0 q = None"
| "try_dequeue (Suc n) q =
     (let pos = cq_dequeue q;
          diff = as_signed (cell_seq (cell_at q pos)) - as_signed (add64 pos 1)
      in if diff = 0
         then Some (Some (cell_data (cell_at q pos)),
                    set_cell (q\<lparr>cq_dequeue := add64 pos 1\<rparr>) pos
                      \<lparr>cell_seq = add64 pos (cq_capacity q), cell_data = None\<rparr>)
         else if diff < 0 then Some (None, q)
         else try_dequeue n q)"

primrec push_owned :: "nat \<Rightarrow> 'm \<Rightarrow> 'm circular_queue \<Rightarrow> 'm circular_queue option" where
  "push_owned 0 msg q = None"
| "push_owned (Suc n) msg q =
     do {
       (done, q) \<leftarrow> try_enqueue (Suc n) msg q;
       if done then Some q
       else do { (dropped, q) \<leftarrow> try_dequeue (Suc n) q; push_owned n msg q }
     }"

definition queue_size :: "'m circular_queue \<Rightarrow> nat" where
  "queue_size q = (let used = sub64 (cq_enqueue q) (cq_dequeue q) in if cq_capacity q < used then cq_capacity q else used)"

definition queue_empty :: "'m circular_queue \<Rightarrow> bool" where
  "queue_empty q = (cq_enqueue q = cq_dequeue q)"

text \<open>A \<open>pop\<close> gets a sample, or waits for one: until a deadline, or with no bound.\<close>

datatype 'm popped = Popped 'm | PopWaits

definition pop :: "nat \<Rightarrow> 'm circular_queue \<Rightarrow> ('m option popped \<times> 'm circular_queue) option" where
  "pop n q =
     do {
       (out, q) \<leftarrow> try_dequeue n q;
       case out of
         Some m \<Rightarrow> Some (Popped m, q)
       | None \<Rightarrow> if queue_empty q then Some (PopWaits, q) else None
     }"

section \<open>The content\<close>

text \<open>
  The samples in the ring, oldest first. \<open>cq_inv n q\<close>: the ring is consistent, and \<open>n\<close> more
  samples can be pushed before a position reaches \<open>2 ^ 63\<close>.
\<close>

definition queue_content :: "'m circular_queue \<Rightarrow> 'm list" where
  "queue_content q = map (\<lambda>pos. the (cell_data (cell_at q pos))) [cq_dequeue q..<cq_enqueue q]"

definition cq_inv :: "nat \<Rightarrow> 'm circular_queue \<Rightarrow> bool" where
  "cq_inv n q \<longleftrightarrow>
     2 \<le> cq_capacity q \<and> length (cq_cells q) = cq_capacity q \<and>
     cq_dequeue q \<le> cq_enqueue q \<and> cq_enqueue q \<le> cq_dequeue q + cq_capacity q \<and>
     cq_enqueue q + n + cq_capacity q < 2 ^ 63 \<and>
     (\<forall>pos. cq_dequeue q \<le> pos \<and> pos < cq_enqueue q \<longrightarrow>
        cell_seq (cell_at q pos) = pos + 1 \<and> cell_data (cell_at q pos) \<noteq> None) \<and>
     (\<forall>pos. cq_enqueue q \<le> pos \<and> pos < cq_dequeue q + cq_capacity q \<longrightarrow> cell_seq (cell_at q pos) = pos)"

lemma cell_at_set [simp]:
  "cell_at (set_cell q pos c) p =
     (if p mod cq_capacity q = pos mod cq_capacity q \<and> pos mod cq_capacity q < length (cq_cells q) then c else cell_at q p)"
  by (cases "pos mod cq_capacity q < length (cq_cells q)") (auto simp: cell_at_def set_cell_def nth_list_update list_update_beyond not_less)

lemma set_cell_fields [simp]:
  "cq_capacity (set_cell q pos c) = cq_capacity q" "length (cq_cells (set_cell q pos c)) = length (cq_cells q)"
  "cq_enqueue (set_cell q pos c) = cq_enqueue q" "cq_dequeue (set_cell q pos c) = cq_dequeue q"
  by (simp_all add: set_cell_def)

lemma cell_at_positions [simp]:
  "cell_at (q\<lparr>cq_enqueue := e\<rparr>) p = cell_at q p" "cell_at (q\<lparr>cq_dequeue := d\<rparr>) p = cell_at q p"
  by (simp_all add: cell_at_def)

lemma as_signed_small: "n < 2 ^ 63 \<Longrightarrow> as_signed n = int n"
  by (simp add: as_signed_def)

lemma CircularQueue_inv:
  assumes "2 \<le> c" and "n + c < 2 ^ 63"
  shows "cq_inv n (CircularQueue c)" "queue_content (CircularQueue c) = []"
  using assms by (auto simp: cq_inv_def CircularQueue_def queue_content_def cell_at_def Let_def)

text \<open>Enqueueing into a ring that is not full appends.\<close>

lemma try_enqueue_room:
  assumes "cq_inv (Suc n) q" and "cq_enqueue q < cq_dequeue q + cq_capacity q"
  shows "\<exists>q'. try_enqueue (Suc k) m q = Some (True, q') \<and> cq_inv n q' \<and>
    queue_content q' = queue_content q @ [m] \<and> cq_capacity q' = cq_capacity q"
proof -
  let ?e = "cq_enqueue q" and ?d = "cq_dequeue q" and ?c = "cq_capacity q"
  note i = assms(1) [unfolded cq_inv_def]
  have s: "cell_seq (cell_at q ?e) = ?e" using i assms(2) by auto
  have a: "add64 ?e 1 = ?e + 1" using i by (intro add64_id) auto
  have c0: "0 < ?c" using i by auto
  define q' where "q' = set_cell (q\<lparr>cq_enqueue := ?e + 1\<rparr>) ?e \<lparr>cell_seq = ?e + 1, cell_data = Some m\<rparr>"
  have r: "try_enqueue (Suc k) m q = Some (True, q')" using s a by (simp add: q'_def Let_def)
  have cells: "cell_at q' p = (if p = ?e then \<lparr>cell_seq = ?e + 1, cell_data = Some m\<rparr> else cell_at q p)"
    if "?d \<le> p" "p < ?d + ?c" for p
    using mod_window_neq [of p ?e ?d ?c] that assms(2) i c0 by (auto simp: q'_def)
  have f: "cq_enqueue q' = ?e + 1" "cq_dequeue q' = ?d" "cq_capacity q' = ?c" "length (cq_cells q') = length (cq_cells q)"
    by (simp_all add: q'_def)
  have "cq_inv n q'"
    unfolding cq_inv_def f
  proof (intro conjI allI impI; (elim conjE)?)
    fix p assume p: "?d \<le> p" "p < ?e + 1"
    show "cell_seq (cell_at q' p) = p + 1" "cell_data (cell_at q' p) \<noteq> None"
      using p i assms(2) cells [of p] by auto
  next
    fix p assume p: "?e + 1 \<le> p" "p < ?d + ?c"
    then show "cell_seq (cell_at q' p) = p" using i cells [of p] by auto
  qed (use i assms(2) in auto)
  moreover have "queue_content q' = queue_content q @ [m]"
  proof -
    have "map (\<lambda>p. the (cell_data (cell_at q' p))) [?d..<?e] = queue_content q"
      unfolding queue_content_def using i assms(2) cells by (intro map_cong) auto
    then show ?thesis using i assms(2) cells [of ?e] unfolding queue_content_def f by simp
  qed
  ultimately show ?thesis using r f(3) by blast
qed

text \<open>A full ring refuses; this is where a capacity of at least two is needed.\<close>

lemma try_enqueue_full:
  assumes "cq_inv n q" and "cq_enqueue q = cq_dequeue q + cq_capacity q"
  shows "try_enqueue (Suc k) m q = Some (False, q)"
proof -
  note i = assms(1) [unfolded cq_inv_def]
  have "cell_at q (cq_enqueue q) = cell_at q (cq_dequeue q)" using assms(2) by (simp add: cell_at_def)
  then have "cell_seq (cell_at q (cq_enqueue q)) = cq_dequeue q + 1" using i assms(2) by auto
  then have "as_signed (cell_seq (cell_at q (cq_enqueue q))) - as_signed (cq_enqueue q) < 0"
    using i assms(2) by (auto simp: as_signed_small)
  then show ?thesis by (simp add: Let_def)
qed

lemma try_dequeue_some:
  assumes "cq_inv n q" and "queue_content q = m # ms"
  shows "\<exists>q'. try_dequeue (Suc k) q = Some (Some (Some m), q') \<and> cq_inv n q' \<and> queue_content q' = ms \<and>
    cq_capacity q' = cq_capacity q \<and> cq_enqueue q' < cq_dequeue q' + cq_capacity q'"
proof -
  let ?e = "cq_enqueue q" and ?d = "cq_dequeue q" and ?c = "cq_capacity q"
  note i = assms(1) [unfolded cq_inv_def]
  have de: "?d < ?e" using assms(2) by (auto simp: queue_content_def intro: ccontr)
  have s: "cell_seq (cell_at q ?d) = ?d + 1" "cell_data (cell_at q ?d) = Some m"
    using i de assms(2) by (auto simp: queue_content_def upt_conv_Cons)
  have "?d + ?c < 2 ^ 63" using i de by linarith
  then have a: "add64 ?d 1 = ?d + 1" "add64 ?d ?c = ?d + ?c" using i by (auto simp: add64_def)
  have c0: "0 < ?c" using i by auto
  define q' where "q' = set_cell (q\<lparr>cq_dequeue := ?d + 1\<rparr>) ?d \<lparr>cell_seq = ?d + ?c, cell_data = None\<rparr>"
  have r: "try_dequeue (Suc k) q = Some (Some (Some m), q')" using s a by (simp add: q'_def Let_def)
  have f: "cq_enqueue q' = ?e" "cq_dequeue q' = ?d + 1" "cq_capacity q' = ?c" "length (cq_cells q') = length (cq_cells q)"
    by (simp_all add: q'_def)
  have cells: "cell_at q' p = (if p = ?d + ?c then \<lparr>cell_seq = ?d + ?c, cell_data = None\<rparr> else cell_at q p)"
    if "?d + 1 \<le> p" "p < ?d + 1 + ?c" for p
  proof (cases "p = ?d + ?c")
    case True
    then show ?thesis using i c0 by (simp add: q'_def)
  next
    case False
    then have "p mod ?c \<noteq> ?d mod ?c" using mod_window_neq [of p ?d ?d ?c] that c0 by auto
    then show ?thesis using False by (simp add: q'_def)
  qed
  have "cq_inv n q'"
    unfolding cq_inv_def f
  proof (intro conjI allI impI; (elim conjE)?)
    fix p assume p: "?d + 1 \<le> p" "p < ?e"
    then have "p \<noteq> ?d + ?c" using i by auto
    then show "cell_seq (cell_at q' p) = p + 1" "cell_data (cell_at q' p) \<noteq> None"
      using p i cells [of p] by auto
  next
    fix p assume p: "?e \<le> p" "p < ?d + 1 + ?c"
    then show "cell_seq (cell_at q' p) = p" using i de cells [of p] by auto
  qed (use i de in auto)
  moreover have "queue_content q' = ms"
  proof -
    have "queue_content q' = map (\<lambda>p. the (cell_data (cell_at q p))) [?d + 1..<?e]"
      unfolding queue_content_def f using i cells by (intro map_cong) auto
    then show ?thesis using assms(2) de by (simp add: queue_content_def upt_conv_Cons)
  qed
  ultimately show ?thesis using r f i de by auto
qed

lemma try_dequeue_empty:
  assumes "cq_inv n q" and "queue_content q = []"
  shows "try_dequeue (Suc k) q = Some (None, q)" "queue_empty q"
proof -
  note i = assms(1) [unfolded cq_inv_def]
  have e: "cq_enqueue q = cq_dequeue q" using i assms(2) by (auto simp: queue_content_def)
  then have "cell_seq (cell_at q (cq_dequeue q)) = cq_dequeue q" using i by auto
  moreover have "add64 (cq_dequeue q) 1 = cq_dequeue q + 1" using i e by (intro add64_id) auto
  ultimately show "try_dequeue (Suc k) q = Some (None, q)" using i e by (auto simp: as_signed_small Let_def)
  show "queue_empty q" using e by (simp add: queue_empty_def)
qed

section \<open>The contract\<close>

lemma queue_content_length: "cq_inv n q \<Longrightarrow> length (queue_content q) = cq_enqueue q - cq_dequeue q"
  by (simp add: queue_content_def)

lemma cq_inv_mono: "cq_inv n q \<Longrightarrow> m \<le> n \<Longrightarrow> cq_inv m q"
  by (simp add: cq_inv_def)

lemma push_keeps_last:
  assumes "cq_inv (Suc n) q"
  shows "\<exists>q'. push_owned (Suc (Suc k)) m q = Some q' \<and> cq_inv n q' \<and> cq_capacity q' = cq_capacity q \<and>
    queue_content q' = drop (length (queue_content q) + 1 - cq_capacity q) (queue_content q @ [m])"
proof (cases "cq_enqueue q < cq_dequeue q + cq_capacity q")
  case True
  then have "length (queue_content q) + 1 - cq_capacity q = 0"
    using queue_content_length [OF assms] assms by (auto simp: cq_inv_def)
  then show ?thesis using try_enqueue_room [OF assms True, of "Suc k" m] by (auto simp del: try_enqueue.simps)
next
  case False
  then have full: "cq_enqueue q = cq_dequeue q + cq_capacity q" using assms by (auto simp: cq_inv_def)
  have len: "length (queue_content q) = cq_capacity q" "2 \<le> cq_capacity q"
    using queue_content_length [OF assms] full assms by (auto simp: cq_inv_def)
  then obtain x xs where x: "queue_content q = x # xs" by (cases "queue_content q") auto
  obtain q1 where q1: "try_dequeue (Suc (Suc k)) q = Some (Some (Some x), q1)" "cq_inv (Suc n) q1" "queue_content q1 = xs"
      "cq_capacity q1 = cq_capacity q" "cq_enqueue q1 < cq_dequeue q1 + cq_capacity q1"
    using try_dequeue_some [OF assms x] by blast
  obtain q2 where q2: "try_enqueue (Suc k) m q1 = Some (True, q2)" "cq_inv n q2" "queue_content q2 = xs @ [m]"
      "cq_capacity q2 = cq_capacity q1"
    using try_enqueue_room [OF q1(2,5), of k m] q1(3) by auto
  have "push_owned (Suc (Suc k)) m q = Some q2"
    unfolding push_owned.simps try_enqueue_full [OF assms full] q1(1) bind.bind_lunit prod.case if_False q2(1) by simp
  then show ?thesis using q2 q1(4) len x by auto
qed

lemma pop_oldest:
  assumes "cq_inv n q"
  shows "case queue_content q of
      [] \<Rightarrow> pop (Suc k) q = Some (PopWaits, q)
    | m # ms \<Rightarrow> \<exists>q'. pop (Suc k) q = Some (Popped (Some m), q') \<and> cq_inv n q' \<and> cq_capacity q' = cq_capacity q \<and> queue_content q' = ms"
proof (cases "queue_content q")
  case Nil
  then show ?thesis using try_dequeue_empty(1) [OF assms Nil, of k] try_dequeue_empty(2) [OF assms Nil]
    by (simp add: pop_def del: try_dequeue.simps)
next
  case (Cons m ms)
  then show ?thesis using try_dequeue_some [OF assms Cons, of k] by (auto simp add: pop_def simp del: try_dequeue.simps)
qed

interpretation cq: keep_last_queue cq_inv queue_content cq_capacity "push_owned 2" "\<lambda>q. pop 1 q" "\<lambda>m. Popped (Some m)" PopWaits
proof unfold_locales
  fix n m and q :: "'a circular_queue" assume i: "cq_inv (Suc n) q"
  then show "\<exists>q'. push_owned 2 m q = Some q' \<and> cq_inv n q' \<and> cq_capacity q' = cq_capacity q \<and>
    queue_content q' = drop (length (queue_content q) + 1 - cq_capacity q) (queue_content q @ [m])"
    using push_keeps_last [OF i, of 0 m] by (simp add: numeral_2_eq_2)
next
  fix n and q :: "'a circular_queue" and m ms assume "cq_inv n q" "queue_content q = m # ms"
  then show "\<exists>q'. pop 1 q = Some (Popped (Some m), q') \<and> cq_inv n q' \<and> cq_capacity q' = cq_capacity q \<and> queue_content q' = ms"
    using pop_oldest [of n q 0] by simp
next
  fix n and q :: "'a circular_queue" assume "cq_inv n q" "queue_content q = []"
  then show "pop 1 q = Some (PopWaits, q)" using pop_oldest [of n q 0] by simp
next
  fix n and q :: "'a circular_queue" assume "cq_inv n q"
  then show "length (queue_content q) \<le> cq_capacity q" using queue_content_length [of n q] by (auto simp: cq_inv_def)
qed

text \<open>
  C31. The queue keeps the last samples: from any state, after pushing the samples \<open>ms\<close> it holds the
  newest of the old content and \<open>ms\<close>, as many as fit, and popping returns them oldest first until
  it waits. The capacity is at least two, and the positions stay below \<open>2 ^ 63\<close>.
\<close>

theorem queue_keeps_last:
  assumes "2 \<le> c" and "length ms + c < 2 ^ 63"
  shows "\<exists>q q'. foldM (\<lambda>q m. push_owned 2 m q) (CircularQueue c) ms = Some q \<and>
    mapM (\<lambda>q _. map_option (\<lambda>(r, q). (q, r)) (pop 1 q)) q [0..<min c (length ms) + 1] =
      Some (q', map (\<lambda>m. Popped (Some m)) (drop (length ms - c) ms) @ [PopWaits])"
proof -
  have c: "cq_capacity (CircularQueue c) = c" using assms by (simp add: CircularQueue_def Let_def)
  have i: "cq_inv (length ms + 0) (CircularQueue c)" using CircularQueue_inv(1) [OF assms] by simp
  obtain q where q: "foldM (\<lambda>q m. push_owned 2 m q) (CircularQueue c) ms = Some q" "cq_inv 0 q"
      "queue_content q = drop (length ms - c) ms"
    using cq.push_all [OF i] unfolding c CircularQueue_inv(2) [OF assms] by auto
  have "length (queue_content q) = min c (length ms)" using q(3) by simp
  then show ?thesis using cq.pop_all [OF q(2)] q(1,3) by (metis)
qed

theorem queue_keeps_last_witness:
  "\<exists>q q'. foldM (\<lambda>q m. push_owned 2 m q) (CircularQueue 2) [1, 2, 3 :: nat] = Some q \<and>
    mapM (\<lambda>q _. map_option (\<lambda>(r, q). (q, r)) (pop 1 q)) q [0..<3] = Some (q', [Popped (Some 2), Popped (Some 3), PopWaits])"
  using queue_keeps_last [of 2 "[1, 2, 3 :: nat]"] by (simp add: numeral_3_eq_3)

section \<open>A queue of one sample\<close>

text \<open>
  With one cell the test for a full ring never holds, as the sequence after a push is the next
  position: the second \<open>push\<close> overwrites the cell and leaves it ahead of the read position, and the
  next \<open>pop\<close> reads the same position for ever. The code uses this capacity for replies, and a
  subscriber with \<open>queue_size\<close> 1 gets it, as does one with 0.
\<close>

theorem queue_of_one_hangs:
  assumes "c \<le> 1" and "2 \<le> fuel"
  shows "\<exists>q. foldM (\<lambda>q m. push_owned fuel m q) (CircularQueue c) [a, b] = Some q \<and> (\<forall>n. pop n q = None)"
proof -
  have one: "CircularQueue c = \<lparr>cq_capacity = 1, cq_cells = [\<lparr>cell_seq = 0, cell_data = None\<rparr>], cq_enqueue = 0, cq_dequeue = 0\<rparr>"
    using assms(1) by (cases c) (auto simp: CircularQueue_def Let_def)
  obtain k where k: "fuel = Suc k" using assms(2) by (cases fuel) auto
  let ?q = "\<lparr>cq_capacity = 1, cq_cells = [\<lparr>cell_seq = 2, cell_data = Some b\<rparr>], cq_enqueue = 2, cq_dequeue = 0\<rparr>"
  have "foldM (\<lambda>q m. push_owned fuel m q) (CircularQueue c) [a, b] = Some ?q"
    unfolding one k by (simp add: cell_at_def set_cell_def add64_def as_signed_def)
  moreover have "try_dequeue n ?q = None" for n
    by (induction n) (simp_all add: cell_at_def add64_def as_signed_def)
  ultimately show ?thesis by (auto simp: pop_def)
qed

theorem queue_of_one_hangs_witness:
  "\<exists>q. foldM (\<lambda>q m. push_owned 5 m q) (CircularQueue 1) [True, False] = Some q \<and> pop 1000 q = None"
  using queue_of_one_hangs [of 1 5 True False] by auto

end
