(* ===== verification/InitMsg.thy ===== *)
theory InitMsg
  imports RtpsMsgs
begin

text \<open>
  The handshake frame of the publisher/subscriber and client/server paths
  (\<open>include/ipc_msg/ipc_msg_base/udp_id_init_msg.hpp\<close>): three flags and, in a fourth byte that
  older programs do not send, the state of the path negotiation.
\<close>

text \<open>\<open>PathState\<close> has \<open>uint8_t\<close> as its underlying type, so a cast from a byte can hold any byte.\<close>

datatype path_state =
    Unknown | ProposeShm | ConfirmShm | ConfirmSocket | WithdrawToSocket
  | WithdrawChannelOccupied | WithdrawEstablishFailed | WithdrawRendezvousTimeout
  | WithdrawRuntimeDisconnect | Unnamed byte

primrec path_state_byte :: "path_state \<Rightarrow> byte" where
  "path_state_byte Unknown = 0"
| "path_state_byte ProposeShm = 1"
| "path_state_byte ConfirmShm = 2"
| "path_state_byte ConfirmSocket = 3"
| "path_state_byte WithdrawToSocket = 4"
| "path_state_byte WithdrawChannelOccupied = 5"
| "path_state_byte WithdrawEstablishFailed = 6"
| "path_state_byte WithdrawRendezvousTimeout = 7"
| "path_state_byte WithdrawRuntimeDisconnect = 8"
| "path_state_byte (Unnamed b) = b"

definition path_state_of :: "byte \<Rightarrow> path_state" where
  "path_state_of b =
     (let names = [Unknown, ProposeShm, ConfirmShm, ConfirmSocket, WithdrawToSocket,
        WithdrawChannelOccupied, WithdrawEstablishFailed, WithdrawRendezvousTimeout,
        WithdrawRuntimeDisconnect]
      in if unat b < length names then names ! unat b else Unnamed b)"

definition path_state_wf :: "path_state \<Rightarrow> bool" where
  "path_state_wf s \<longleftrightarrow> path_state_of (path_state_byte s) = s"

lemma path_state_wf_iff: "path_state_wf s \<longleftrightarrow> (\<forall>b. s = Unnamed b \<longrightarrow> 8 < b)"
  by (cases s) (auto simp: path_state_wf_def path_state_of_def word_less_nat_alt nth_Cons split: nat.splits)

lemma path_state_byte_of [simp]: "path_state_byte (path_state_of b) = b"
proof (cases "unat b < 9")
  case True
  then have "unat b \<in> {0, 1, 2, 3, 4, 5, 6, 7, 8}" by auto
  then have "b \<in> {0, 1, 2, 3, 4, 5, 6, 7, 8}" by (auto simp: word_unat_eq_iff)
  then show ?thesis by (auto simp: path_state_of_def)
next
  case False
  then show ?thesis by (simp add: path_state_of_def)
qed

record init_msg =
  im_base :: msg_base
  im_host_flag :: bool
  im_cli_flag :: bool
  im_run_status :: bool
  im_path_state :: path_state

definition IpcPubSubIdInitMsg :: init_msg where
  "IpcPubSubIdInitMsg = \<lparr>im_base = msg_base_init 0, im_host_flag = False, im_cli_flag = False,
     im_run_status = True, im_path_state = Unknown\<rparr>"

text \<open>The unchecked accesses to the first three bytes; \<open>None\<close> is a read past the buffer.\<close>

definition raw_flag :: "nat \<Rightarrow> bytes \<Rightarrow> bool option" where
  "raw_flag i raw = (if i < length raw then Some (raw ! i = 1) else None)"

definition check_host :: "bytes \<Rightarrow> bool option" where "check_host = raw_flag 0"
definition check_cli :: "bytes \<Rightarrow> bool option" where "check_cli = raw_flag 1"
definition check_run_status :: "bytes \<Rightarrow> bool option" where "check_run_status = raw_flag 2"

definition pure_payload_size :: "bytes \<Rightarrow> nat" where
  "pure_payload_size raw =
     (if length raw < 12 then 0
      else (let t = drop (length raw - 12) raw;
                page_cnt = unat (of_be (take 2 t) :: u32);
                total_size = unat (of_be (take 4 (drop 4 t)) :: u32);
                tails = wrap32 (page_cnt * 12)
            in if total_size < tails \<or> total_size \<noteq> wrap32 (length raw) then 0
               else total_size - tails))"

definition has_path_state :: "bytes \<Rightarrow> bool" where
  "has_path_state raw = (4 \<le> pure_payload_size raw)"

definition peek_path_state :: "bytes \<Rightarrow> path_state option" where
  "peek_path_state raw =
     (if \<not> has_path_state raw then Some Unknown
      else if 3 < length raw then Some (path_state_of (raw ! 3)) else None)"

definition flag_byte :: "bool \<Rightarrow> byte" where
  "flag_byte b = (if b then 1 else 0)"

definition init_fields :: "init_msg \<Rightarrow> bytes list" where
  "init_fields m = [[flag_byte (im_host_flag m)], [flag_byte (im_cli_flag m)],
     [flag_byte (im_run_status m)], [path_state_byte (im_path_state m)]]"

definition init_serialize :: "(nat \<Rightarrow> byte) \<Rightarrow> init_msg \<Rightarrow> (init_msg \<times> bytes) option" where
  "init_serialize junk m =
     do {
       (b, data) \<leftarrow> serialize_fields junk (im_base m) (of_nat (1 * 4)) (init_fields m);
       Some (m\<lparr>im_base := b\<rparr>, data)
     }"

definition init_deserialize :: "init_msg \<Rightarrow> bytes \<Rightarrow> init_msg option" where
  "init_deserialize m buffer =
     do {
       (r, fs) \<leftarrow> read_fields buffer (deserialize_data_cut (im_base m) (of_nat (length buffer)), 0)
         [1, 1, 1];
       let m = m\<lparr>im_host_flag := (fs ! 0 = [1]), im_cli_flag := (fs ! 1 = [1]),
         im_run_status := (fs ! 2 = [1])\<rparr>;
       if \<not> has_path_state buffer then Some (m\<lparr>im_base := fst r, im_path_state := Unknown\<rparr>)
       else do {
         (r, fs) \<leftarrow> read_fields buffer r [1];
         Some (m\<lparr>im_base := fst r, im_path_state := path_state_of (of_le (fs ! 0))\<rparr>)
       }
     }"


section \<open>The payload length a frame announces\<close>

lemma of_be_be_bytes_wide:
  "8 * n \<le> LENGTH('b::len) \<Longrightarrow> 8 * n = LENGTH('a::len) \<Longrightarrow>
     (of_be (be_bytes n (w :: 'a word)) :: 'b word) = ucast w"
proof (rule bit_word_eqI)
  fix k assume h: "8 * n \<le> LENGTH('b)" "8 * n = LENGTH('a)" "k < LENGTH('b)"
  show "bit (of_be (be_bytes n w) :: 'b word) k = bit (ucast w :: 'b word) k"
  proof (cases "k div 8 < n")
    case True
    have "k mod 8 < 8" by simp
    with True h show ?thesis
      by (simp add: of_be_def be_bytes_def bit_of_le le_bytes_def bit_ucast_iff bit_drop_bit_eq)
  next
    case False
    then have "\<not> bit w k" using h bit_imp_le_length [of w k] by auto
    with False h show ?thesis by (simp add: of_be_def be_bytes_def bit_of_le bit_ucast_iff)
  qed
qed

lemma pure_payload_size_wire:
  assumes "length d < max_payload"
  shows "pure_payload_size (wire m d) = length d"
proof -
  let ?n = "length d"
  define b where "b = cut_base m ?n"
  have t: "drop (length (wire m d) - 12) (wire m d) = tail_bytes b (page_after ?n)"
    unfolding b_def by (rule drop_wire_tail)
  have "(of_be (take 2 (tail_bytes b (page_after ?n))) :: u32) = ucast (page_after ?n)"
    by (simp add: tail_bytes_def b_def cut_base_def of_be_be_bytes_wide)
  then have pc: "unat (of_be (take 2 (tail_bytes b (page_after ?n))) :: u32) = 1 + ?n div 1460"
    using unat_page_after [OF assms] unsigned_less [of "page_after ?n", where ?'a = nat]
    by (simp only: ucast_of_nat_unat) (simp add: unat_of_nat flip: of_nat_Suc)
  have pb: "phys ?n < 2 ^ 30" by (rule phys_bound [OF assms])
  have ts: "unat (of_be (take 4 (drop 4 (tail_bytes b (page_after ?n)))) :: u32) = phys ?n + 12"
    using pb by (simp add: tail_bytes_def b_def cut_base_def unat_of_nat del: of_nat_add)
  have le: "12 * (?n div 1460) \<le> phys ?n" by (simp add: phys_def)
  have "wrap32 ((1 + ?n div 1460) * 12) = 12 + 12 * (?n div 1460)"
    using le pb by (simp add: wrap32_id)
  moreover have "wrap32 (length (wire m d)) = phys ?n + 12"
    using pb by (simp add: wrap32_id)
  ultimately show ?thesis
    unfolding pure_payload_size_def t Let_def pc ts
    by (simp add: phys_def)
qed

lemma has_path_state_wire:
  "length d < max_payload \<Longrightarrow> has_path_state (wire m d) \<longleftrightarrow> 4 \<le> length d"
  by (simp add: has_path_state_def pure_payload_size_wire)

lemma init_serialize_wire:
  "init_serialize junk m =
     Some (m\<lparr>im_base := cut_base (im_base m) 4\<rparr>, wire (im_base m) (concat (init_fields m)))"
proof -
  have "length (concat (init_fields m)) = 4" by (simp add: init_fields_def)
  then show ?thesis
    using serialize_fields_fixed [of "init_fields m" "of_nat (1 * 4)" junk "im_base m"]
    by (simp add: init_serialize_def max_payload_def)
qed

lemma flag_byte_eq [simp]: "(flag_byte b = 1) = b"
  by (simp add: flag_byte_def)

text \<open>
  Round trip of the handshake frame, and what the unchecked accessors of the receive path
  read from it: all three flags and the path state come back.
\<close>

theorem init_roundtrip:
  assumes "path_state_wf (im_path_state m)"
  shows "\<exists>m2 data. init_serialize junk m = Some (m2, data) \<and>
    init_deserialize r data =
      Some (m\<lparr>im_base := deserialize_data_cut (im_base r) (of_nat (length data))\<rparr>) \<and>
    check_host data = Some (im_host_flag m) \<and> check_cli data = Some (im_cli_flag m) \<and>
    check_run_status data = Some (im_run_status m) \<and>
    peek_path_state data = Some (im_path_state m)"
proof -
  define w where "w = wire (im_base m) (concat (init_fields m))"
  define c where "c = deserialize_data_cut (im_base r) (of_nat (length w))"
  have len: "length (concat (init_fields m)) = 4" by (simp add: init_fields_def)
  have all: "concat (init_fields m) = concat (take 3 (init_fields m)) @ concat (drop 3 (init_fields m))"
    by (simp add: init_fields_def)
  have small: "length (concat (take 3 (init_fields m)) @ concat (drop 3 (init_fields m))) < max_payload"
    unfolding all [symmetric] len by (simp add: max_payload_def)
  have r1: "read_fields w (c, 0) [1, 1, 1] = Some ((c, phys 3), take 3 (init_fields m))"
    unfolding w_def c_def all by (rule read_header [OF small]) (simp_all add: init_fields_def)
  have r2: "read_fields w (c, phys 3) [1] = Some ((c, phys (3 + length (concat (drop 3 (init_fields m))))),
      drop 3 (init_fields m))"
    unfolding w_def c_def all by (rule read_rest [OF small]) (simp_all add: init_fields_def)
  have h: "has_path_state w"
    unfolding w_def using has_path_state_wire [of "concat (init_fields m)" "im_base m"] len
    by (simp add: max_payload_def)
  have w4: "w = concat (init_fields m) @ tail_bytes (cut_base (im_base m) 4) (page_after 4)"
    by (simp add: w_def wire_def frames_short len)
  have "init_deserialize r w = Some (m\<lparr>im_base := c\<rparr>)"
    using assms unfolding init_deserialize_def c_def [symmetric]
    by (simp add: r1 [unfolded One_nat_def] r2 [unfolded One_nat_def] h)
       (simp add: init_fields_def path_state_wf_def)
  moreover have "peek_path_state w = Some (im_path_state m)"
    using h assms by (simp add: peek_path_state_def) (simp add: w4 init_fields_def path_state_wf_def)
  moreover have "check_host w = Some (im_host_flag m)" "check_cli w = Some (im_cli_flag m)"
    "check_run_status w = Some (im_run_status m)"
    by (simp_all add: check_host_def check_cli_def check_run_status_def raw_flag_def)
       (simp_all add: w4 init_fields_def flag_byte_def)
  ultimately show ?thesis unfolding init_serialize_wire by (simp add: w_def c_def)
qed

theorem init_roundtrip_witness:
  "\<exists>m2 data. init_serialize (\<lambda>i. 0) (IpcPubSubIdInitMsg\<lparr>im_path_state := ProposeShm\<rparr>) = Some (m2, data) \<and>
    peek_path_state data = Some ProposeShm"
  using init_roundtrip [of "IpcPubSubIdInitMsg\<lparr>im_path_state := ProposeShm\<rparr>" "\<lambda>i. 0" IpcPubSubIdInitMsg]
  by (auto simp: path_state_wf_iff)

text \<open>
  Frames of programs older than the path negotiation, whose payload is three bytes: though
  the buffer is longer than four bytes (the tail follows), the path state is reported as
  unknown and not as a byte of the tail.
\<close>

theorem init_back_compat:
  "init_deserialize r (wire b [h, c, s]) =
     Some (r\<lparr>im_base := deserialize_data_cut (im_base r) 15, im_host_flag := (h = 1),
       im_cli_flag := (c = 1), im_run_status := (s = 1), im_path_state := Unknown\<rparr>) \<and>
   peek_path_state (wire b [h, c, s]) = Some Unknown \<and> 4 \<le> length (wire b [h, c, s])"
proof -
  define w where "w = wire b (concat [[h], [c], [s]])"
  define m0 where "m0 = deserialize_data_cut (im_base r) (of_nat (length w))"
  have lw: "length w = 15" by (simp add: w_def phys_def)
  have r1: "read_fields w (m0, 0) [1, 1, 1] = Some ((m0, phys (length (concat [[h], [c], [s]]))), [[h], [c], [s]])"
    unfolding w_def m0_def by (rule read_fixed) (simp_all add: max_payload_def)
  have n: "\<not> has_path_state w"
    using has_path_state_wire [of "concat [[h], [c], [s]]" b] by (simp add: w_def max_payload_def)
  have "m0 = deserialize_data_cut (im_base r) 15" by (simp add: m0_def lw)
  moreover have "init_deserialize r w = Some (r\<lparr>im_base := m0, im_host_flag := (h = 1),
      im_cli_flag := (c = 1), im_run_status := (s = 1), im_path_state := Unknown\<rparr>)"
    unfolding init_deserialize_def m0_def [symmetric]
    by (simp add: r1 [unfolded One_nat_def] n)
  ultimately show ?thesis using n lw by (simp add: w_def peek_path_state_def)
qed

end
