(* ===== verification/Naming.thy ===== *)
theory Naming
  imports Prelude
begin

text \<open>
  Names and addresses derived from topic names: the FNV-1a hash, the UDP port and multicast
  address of a topic (\<open>src/dzIPC/common/hash.cc\<close>, \<open>include/dzIPC/common/hash.h\<close>) and the names
  of shared-memory segments (\<open>src/dzIPC/common/name_operator.cc\<close>).
\<close>

text \<open>\<open>std::to_string\<close> of an unsigned number.\<close>

function to_string :: "nat \<Rightarrow> string" where
  "to_string n =
     (if n < 10 then [char_of (48 + n)] else to_string (n div 10) @ [char_of (48 + n mod 10)])"
  by pat_completeness auto
termination by (relation "measure id") auto

declare to_string.simps [simp del]

lemma to_string_digits: "c \<in> set (to_string n) \<Longrightarrow> \<exists>d<10. c = char_of (48 + d :: nat)"
proof (induction n rule: to_string.induct)
  case (1 n)
  show ?case
  proof (cases "n < 10")
    case True
    then show ?thesis using "1.prems" by (intro exI [of _ n]) (simp add: to_string.simps [of n])
  next
    case False
    then consider "c \<in> set (to_string (n div 10))" | "c = char_of (48 + n mod 10)"
      using "1.prems" by (auto simp: to_string.simps [of n])
    then show ?thesis using "1.IH" [OF False] by cases (auto intro: exI [of _ "n mod 10"])
  qed
qed

section \<open>Hashes, ports and addresses\<close>

definition kFnvOffsetBasis64 :: u64 where "kFnvOffsetBasis64 = 14695981039346656037"
definition kFnvPrime64 :: u64 where "kFnvPrime64 = 1099511628211"

definition fnv1a64 :: "string \<Rightarrow> u64" where
  "fnv1a64 data = foldl (\<lambda>hash c. (hash XOR of_char c) * kFnvPrime64) kFnvOffsetBasis64 data"

definition UDP_DISCOVERY_BASE_PORT :: nat where "UDP_DISCOVERY_BASE_PORT = 11451"
definition kUdpPortOffsetMax :: nat where "kUdpPortOffsetMax = 4"
definition kUdpPortBaseMax :: nat where "kUdpPortBaseMax = 65535 - kUdpPortOffsetMax"
definition kUdpPortWindow :: nat where
  "kUdpPortWindow = kUdpPortBaseMax - UDP_DISCOVERY_BASE_PORT + 1"

lemmas port_consts = UDP_DISCOVERY_BASE_PORT_def kUdpPortOffsetMax_def kUdpPortBaseMax_def kUdpPortWindow_def

definition udp_discovery_port_calculate :: "string \<Rightarrow> int \<Rightarrow> u16" where
  "udp_discovery_port_calculate topic_name domain_id =
     (let hash_value = fnv1a64 topic_name mod 10000;
          offset = of_int domain_id * hash_value :: u64;
          base = of_nat UDP_DISCOVERY_BASE_PORT;
          window = of_nat kUdpPortWindow;
          folded = if offset < window then offset else offset mod window
      in ucast (base + folded))"

definition udp_discovery_addr_calculate :: "string \<Rightarrow> string" where
  "udp_discovery_addr_calculate topic_name =
     (let mid = fnv1a64 (topic_name @ ''_mid'') mod 254;
          endh = fnv1a64 (topic_name @ ''_end'') mod 254
      in ''239.255.'' @ to_string (unat mid) @ ''.'' @ to_string (unat endh))"

text \<open>
  The port of a topic. For a valid domain it is the base plus the domain times the topic's
  hash, folded into the window, so the topic's five ports always stay below 65536; for the
  inputs on which the earlier formula did not overflow it is that formula's value.
\<close>

theorem udp_port_formula:
  assumes "0 \<le> domain_id" and "domain_id < 2 ^ 31"
  shows "unat (udp_discovery_port_calculate topic domain_id) =
      UDP_DISCOVERY_BASE_PORT + nat domain_id * (unat (fnv1a64 topic) mod 10000) mod kUdpPortWindow \<and>
    unat (udp_discovery_port_calculate topic domain_id) + kUdpPortOffsetMax \<le> 65535"
proof -
  define h where "h = unat (fnv1a64 topic) mod 10000"
  define off where "off = nat domain_id * h"
  have h: "h < 10000" by (simp add: h_def)
  have "off \<le> 2 ^ 31 * 10000"
    unfolding off_def using assms h by (intro mult_le_mono) auto
  then have ob: "off < 2 ^ 64" by simp
  have "fnv1a64 topic mod 10000 = (of_nat h :: u64)"
    by (simp add: h_def word_unat_eq_iff unat_mod unat_of_nat)
  moreover have "(of_int domain_id :: u64) = of_nat (nat domain_id)" using assms by simp
  ultimately have o: "of_int domain_id * (fnv1a64 topic mod 10000) = (of_nat off :: u64)"
    by (simp only: off_def of_nat_mult)
  have u: "unat (of_nat off :: u64) = off" using ob by (simp add: unat_of_nat)
  have w: "unat (of_nat kUdpPortWindow :: u64) = kUdpPortWindow" by (simp add: port_consts)
  have fold: "(if (of_nat off :: u64) < of_nat kUdpPortWindow then of_nat off
      else of_nat off mod of_nat kUdpPortWindow) = (of_nat (off mod kUdpPortWindow) :: u64)"
  proof -
    have "(of_nat off :: u64) mod of_nat kUdpPortWindow = of_nat (off mod kUdpPortWindow)"
      using le_less_trans [OF mod_less_eq_dividend ob, of kUdpPortWindow]
      unfolding word_unat_eq_iff unat_mod u w by (simp add: unat_of_nat mod_less)
    then show ?thesis using u w by (auto simp: word_less_nat_alt)
  qed
  have m: "off mod kUdpPortWindow < 54081" by (simp add: port_consts)
  have "udp_discovery_port_calculate topic domain_id =
      ucast (of_nat (UDP_DISCOVERY_BASE_PORT + off mod kUdpPortWindow) :: u64)"
    unfolding udp_discovery_port_calculate_def Let_def o fold by simp
  moreover have "unat (of_nat (UDP_DISCOVERY_BASE_PORT + off mod kUdpPortWindow) :: u64) =
      UDP_DISCOVERY_BASE_PORT + off mod kUdpPortWindow"
    using m by (simp add: unat_of_nat UDP_DISCOVERY_BASE_PORT_def del: of_nat_add)
  ultimately have "unat (udp_discovery_port_calculate topic domain_id) =
      UDP_DISCOVERY_BASE_PORT + off mod kUdpPortWindow"
    using m by (simp only: ucast_of_nat_unat) (simp add: UDP_DISCOVERY_BASE_PORT_def unat_of_nat del: of_nat_add)
  then show ?thesis using m by (simp add: off_def h_def) (simp add: port_consts)
qed

theorem udp_port_formula_witness:
  "unat (udp_discovery_port_calculate ''chatter'' 32) + kUdpPortOffsetMax \<le> 65535"
  using udp_port_formula [of 32 "''chatter''"] by simp


section \<open>Segment names\<close>

text \<open>\<open>rfind("::")\<close>: the last position at which the separator stands.\<close>

definition rfind_colons :: "string \<Rightarrow> nat option" where
  "rfind_colons s =
     (let ps = filter (\<lambda>i. take 2 (drop i s) = ''::'') [0..<length s]
      in if ps = [] then None else Some (last ps))"

definition extract_last_segment :: "string \<Rightarrow> string" where
  "extract_last_segment full_name =
     (case rfind_colons full_name of Some pos \<Rightarrow> drop (pos + 2) full_name | None \<Rightarrow> full_name)"

definition char_between :: "char \<Rightarrow> char \<Rightarrow> char \<Rightarrow> bool" where
  "char_between lo hi ch \<longleftrightarrow> (of_char lo :: nat) \<le> of_char ch \<and> (of_char ch :: nat) \<le> of_char hi"

definition is_alnum :: "char \<Rightarrow> bool" where
  "is_alnum ch \<longleftrightarrow> char_between CHR ''0'' CHR ''9'' ch \<or> char_between CHR ''A'' CHR ''Z'' ch
     \<or> char_between CHR ''a'' CHR ''z'' ch"

definition sanitize_topic_name :: "string \<Rightarrow> string" where
  "sanitize_topic_name topic_name =
     map (\<lambda>ch. if is_alnum ch \<or> ch = CHR ''_'' \<or> ch = CHR ''-'' \<or> ch = CHR ''.'' then ch else CHR ''_'')
       topic_name"

definition shm_topic_segment_name :: "string \<Rightarrow> nat \<Rightarrow> string" where
  "shm_topic_segment_name topic_name domain_id =
     ''dz_ipc_d'' @ to_string domain_id @ ''_'' @ sanitize_topic_name topic_name @ ''_topic''"

text \<open>The POSIX branch of \<open>minimal_segment_sanitize\<close>.\<close>

definition minimal_segment_sanitize :: "string \<Rightarrow> string" where
  "minimal_segment_sanitize name = map (\<lambda>ch. if ch = CHR ''/'' then CHR ''_'' else ch) name"

definition shm_service_prefix :: "string \<Rightarrow> nat \<Rightarrow> string" where
  "shm_service_prefix topic_name domain_id =
     ''dz_ipc_d'' @ to_string domain_id @ ''_'' @ minimal_segment_sanitize topic_name"

definition shm_service_legacy_prefix :: "string \<Rightarrow> nat \<Rightarrow> string" where
  "shm_service_legacy_prefix topic_name domain_id =
     ''dz_ipc_d'' @ to_string domain_id @ ''_'' @ topic_name"

definition shm_topic_control_name :: "string \<Rightarrow> nat \<Rightarrow> string" where
  "shm_topic_control_name topic_name domain_id =
     shm_topic_segment_name topic_name domain_id @ ''_control2''"

lemma no_slash_to_string: "CHR ''/'' \<notin> set (to_string n)"
proof
  assume "CHR ''/'' \<in> set (to_string n)"
  then obtain d :: nat where d: "d < 10" "CHR ''/'' = char_of (48 + d)"
    using to_string_digits by blast
  have "(of_char (char_of (48 + d) :: char) :: nat) = 48 + d" using d(1) by simp
  moreover have "(of_char (CHR ''/'') :: nat) = 47" by simp
  ultimately show False using d(2) by simp
qed

lemma no_slash_sanitize: "CHR ''/'' \<notin> set (sanitize_topic_name s)"
  by (auto simp: sanitize_topic_name_def is_alnum_def char_between_def)

lemma no_slash_minimal: "CHR ''/'' \<notin> set (minimal_segment_sanitize s)"
  by (auto simp: minimal_segment_sanitize_def)

text \<open>
  Segment names: none contains a slash, which the POSIX call would refuse; cleaning a name
  twice is cleaning it once; and a service name is renamed by the cleaning exactly when its
  topic contains a slash, so every name that worked before keeps its segment.
\<close>

theorem segment_names_safe:
  "CHR ''/'' \<notin> set (shm_topic_segment_name t d) \<and> CHR ''/'' \<notin> set (shm_topic_control_name t d) \<and>
   CHR ''/'' \<notin> set (shm_service_prefix t d) \<and>
   sanitize_topic_name (sanitize_topic_name t) = sanitize_topic_name t \<and>
   (shm_service_prefix t d = shm_service_legacy_prefix t d \<longleftrightarrow> CHR ''/'' \<notin> set t)"
proof -
  have "minimal_segment_sanitize t = t \<longleftrightarrow> CHR ''/'' \<notin> set t"
  proof
    assume "minimal_segment_sanitize t = t"
    then show "CHR ''/'' \<notin> set t" using no_slash_minimal [of t] by simp
  qed (auto simp: minimal_segment_sanitize_def intro!: map_idI)
  moreover have "sanitize_topic_name (sanitize_topic_name t) = sanitize_topic_name t"
    by (simp add: sanitize_topic_name_def)
  ultimately show ?thesis
    using no_slash_to_string [of d] no_slash_sanitize [of t] no_slash_minimal [of t]
    by (auto simp: shm_topic_segment_name_def shm_topic_control_name_def shm_service_prefix_def
        shm_service_legacy_prefix_def)
qed

lemma sorted_le_last: "sorted xs \<Longrightarrow> x \<in> set xs \<Longrightarrow> x \<le> last xs"
  by (induction xs) auto

text \<open>The last segment of a qualified name contains no separator.\<close>

lemma extract_last_segment_plain:
  "take 2 (drop i (extract_last_segment s)) \<noteq> ''::''"
proof (cases "rfind_colons s")
  case None
  then have "\<And>j. j < length s \<Longrightarrow> take 2 (drop j s) \<noteq> ''::''"
    by (auto simp: rfind_colons_def Let_def filter_empty_conv split: if_splits)
  then show ?thesis using None by (cases "i < length s") (auto simp: extract_last_segment_def)
next
  case (Some p)
  let ?ps = "filter (\<lambda>i. take 2 (drop i s) = ''::'') [0..<length s]"
  have p: "p = last ?ps" "?ps \<noteq> []" using Some by (auto simp: rfind_colons_def Let_def split: if_splits)
  have "sorted ?ps" by (rule sorted_wrt_filter) simp
  have mx: "j \<le> p" if "j \<in> set ?ps" for j
    unfolding p(1) by (rule sorted_le_last [OF \<open>sorted ?ps\<close> that])
  show ?thesis
  proof
    assume a: "take 2 (drop i (extract_last_segment s)) = ''::''"
    then have b: "take 2 (drop (p + 2 + i) s) = ''::''"
      using Some by (simp add: extract_last_segment_def add.commute add.left_commute)
    then have "p + 2 + i < length s" by (cases "p + 2 + i < length s") simp_all
    with b mx [of "p + 2 + i"] show False by simp
  qed
qed

end
