(* ===== verification/RateLaws.thy ===== *)
theory RateLaws
  imports RateControl Interfaces
begin

text \<open>
  What the control law guarantees: the bounds of the rate in every reachable state, the
  reaction to loss, and the recovery of the configured rate; and the laws of the peer table and
  of the timeout.
\<close>

section \<open>The limiter as a transition system\<close>

text \<open>
  The state is the process-wide limit, the limiter and the statistics. The limit may be changed
  at any time, a message starts by reading its rate, and ends with a report; another thread may
  change the limit in between.
\<close>

type_synonym rate_system = "nat \<times> rate_limit_state \<times> frag_track_state"

inductive rate_step :: "rate_system \<Rightarrow> rate_system \<Rightarrow> bool" where
  configure: "g \<le> 2 ^ 55 \<Longrightarrow> rate_step (glob, st, fs) (g, st, fs)"
| start: "effective_rate_bps glob st opt = (rate, st') \<Longrightarrow> rate_step (glob, st, fs) (glob, st', fs)"
| finish: "adapt_rate_dctcp glob d track r (st, fs) = (st', fs') \<Longrightarrow> rate_step (glob, st, fs) (glob, st', fs')"

inductive_cases rate_stepE: "rate_step s t"

definition rate_start :: "rate_system \<Rightarrow> bool" where
  "rate_start s \<longleftrightarrow> (\<exists>fs. s = (0, rate_limit_init, fs))"

definition rate_inv :: "rate_system \<Rightarrow> bool" where
  "rate_inv s \<longleftrightarrow> fst s \<le> 2 ^ 55 \<and> rate_wf (fst (snd s))"

lemma effective_rate_wf:
  assumes "rate_wf st" and "glob \<le> 2 ^ 55" and "effective_rate_bps glob st opt = (rate, st')"
  shows "rate_wf st'"
  using assms by (auto simp: effective_rate_bps_def rate_wf_def rate_consts Let_def split: if_splits)

lemma next_bps_wf:
  assumes wf: "rate_wf st" and "1 \<le> bps st" and "glob \<le> 2 ^ 55"
  shows "static_floor_bps st \<le> next_bps glob d r st" "next_bps glob d r st \<le> 2 ^ 55"
proof -
  define f where "f = fst (delay_line d (min (rr_f_max r) 256) st)"
  define acc where "acc = ewma_step (alpha_accum st) f"
  define fl where "fl = max (static_floor_bps st) (window_floor_bps glob (rr_page_cnt r))"
  have "unat f \<le> 256" unfolding f_def by (rule delay_line_bound [OF wf]) (simp add: unat_min)
  then have acc: "unat acc \<le> 4096"
    unfolding acc_def using wf by (intro ewma_step_bounds) (simp_all add: rate_wf_def)
  have b: "bps st \<le> 2 ^ 55" "initial_bps st \<le> 2 ^ 55" "static_floor_bps st \<le> bps st"
    "static_floor_bps st \<le> initial_bps st" using wf by (simp_all add: rate_wf_def)
  have "fl \<le> 2 ^ 55" using b window_floor_bound [OF assms(3)] by (simp add: fl_def)
  then have "max fl (bps st - 1) \<le> 2 ^ 55" using b(1) by simp
  then have low: "lowered st fl acc random \<le> 2 ^ 55" "static_floor_bps st \<le> lowered st fl acc random" for random
    using lowered_bounds [OF b(1) assms(2) acc, of fl random] by (auto simp: fl_def)
  show "next_bps glob d r st \<le> 2 ^ 55" "static_floor_bps st \<le> next_bps glob d r st"
    using low b unfolding next_bps_def Let_def f_def [symmetric] acc_def [symmetric] fl_def [symmetric]
    by (auto simp: raised_def min_le_iff_disj intro: le_trans [OF _ le_add1])
qed

lemma adapt_rate_wf:
  assumes wf: "rate_wf st" and "glob \<le> 2 ^ 55" and "adapt_rate_dctcp glob d track r (st, fs) = (st', fs')"
  shows "rate_wf st'"
proof (cases "bps st = 0")
  case True
  then show ?thesis using assms by (simp add: adapt_rate_dctcp_def)
next
  case False
  then have one: "1 \<le> bps st" by simp
  have st': "st' = fst (adapt_rate_dctcp glob d track r (st, fs))" using assms(3) by simp
  note fields = adapt_rate_fields [OF wf one assms(2) st']
  let ?f = "min (rr_f_max r) 256"
  have uf: "unat ?f \<le> 256" by (simp add: unat_min)
  have "unat (alpha_accum st') \<le> 4096"
    unfolding fields using wf delay_line_bound [OF wf uf] by (intro ewma_step_bounds) (simp_all add: rate_wf_def)
  then show ?thesis
    using next_bps_wf [OF wf one assms(2), of d r] delay_line_buffer [OF wf uf, of d] wf fields(5)
    unfolding rate_wf_def fields(1-3,6,7) by blast
qed

interpretation rate: step_invariant rate_start rate_step rate_inv
proof unfold_locales
  fix s assume "rate_start s"
  then show "rate_inv s"
    by (auto simp: rate_start_def rate_inv_def rate_wf_def rate_limit_init_def rate_consts)
next
  fix s t assume "rate_inv s" "rate_step s t"
  then show "rate_inv t"
    by (elim rate_stepE) (auto simp: rate_inv_def dest: effective_rate_wf adapt_rate_wf)
qed

text \<open>
  C32. Bounds of the rate. However configuration changes, messages and reports of any kind are
  interleaved, as long as the configured limits are at most \<open>2 ^ 55\<close>: the rate is never below a
  32nd of the limit it was seeded with nor above \<open>2 ^ 55\<close>, the congestion estimate stays within
  0 and 1, and the products of the control law do not wrap around.
\<close>

theorem rate_reachable_bounds:
  assumes "reach rate_start rate_step (glob, st, fs)"
  shows "initial_bps st div 32 \<le> bps st \<and> bps st \<le> 2 ^ 55 \<and>
    unat (alpha_scaled st) \<le> 256 \<and> unat (alpha_accum st) \<le> 4096 \<and>
    bps st * unat (alpha_scaled st) + 511 < 2 ^ 64"
proof -
  have wf: "rate_wf st" using rate.reach_inv [OF assms] by (simp add: rate_inv_def)
  have a: "unat (alpha_scaled st) \<le> 256"
    using wf div_le_mono [of "unat (alpha_accum st)" 4096 16] by (simp add: rate_wf_def unat_drop_bit_4)
  have "bps st * unat (alpha_scaled st) \<le> 2 ^ 55 * 256"
    using wf a unfolding rate_wf_def by (intro mult_le_mono) auto
  then show ?thesis using wf a unfolding rate_wf_def by simp
qed

theorem rate_reachable_bounds_witness:
  "\<exists>st fs. reach rate_start rate_step (1000, st, fs) \<and> bps st = 1000 \<and> unat (alpha_accum st) \<le> 4096"
proof -
  let ?fs = frag_track_init
  have "reach rate_start rate_step (0, rate_limit_init, ?fs)" by (rule reach_init) (simp add: rate_start_def)
  then have "reach rate_start rate_step (1000, rate_limit_init, ?fs)"
    by (rule reach_step) (rule configure, simp)
  then have r: "reach rate_start rate_step (1000, snd (effective_rate_bps 1000 rate_limit_init 0), ?fs)"
    by (rule reach_step) (rule start, rule prod.collapse [symmetric])
  then show ?thesis using rate_reachable_bounds [OF r]
    by (intro exI [of _ "snd (effective_rate_bps 1000 rate_limit_init 0)"] exI [of _ ?fs])
      (simp add: effective_rate_bps_def rate_limit_init_def)
qed


section \<open>Reaction to loss\<close>

text \<open>
  Reaction to loss, the delay line being off. A report of loss that does not look random
  moves a rate above the floor down by the fraction \<open>alpha / 2\<close>, at least a 512th, and never
  below the floor; a rate at or below the floor of the message is set to the floor. The limit
  configured is never exceeded while it is the one the limiter was seeded with.
\<close>

theorem adapt_rate_loss:
  assumes "rate_wf st" and "1 \<le> bps st" and "glob = initial_bps st" and "0 < rr_f_max r" and "\<not> runs_random r"
    and "floor_bps = max (static_floor_bps st) (window_floor_bps glob (rr_page_cnt r))"
    and "adapt_rate_dctcp glob 0 track r (st, fs) = (st', fs')"
  shows "bps st' = max floor_bps (bps st - (bps st * max (unat (alpha_scaled st')) 1 + 511) div 512) \<and>
    (if floor_bps < bps st then bps st' < bps st else bps st' = floor_bps) \<and>
    (bps st \<le> initial_bps st \<longrightarrow> bps st' \<le> initial_bps st)"
proof (intro conjI impI)
  have g: "glob \<le> 2 ^ 55" using assms(1,3) by (simp add: rate_wf_def)
  have st': "st' = fst (adapt_rate_dctcp glob 0 track r (st, fs))" using assms(7) by simp
  note fields = adapt_rate_fields [OF assms(1,2) g st']
  let ?f = "min (rr_f_max r) 256"
  have f: "fst (delay_line 0 ?f st) = ?f" "0 < ?f" using assms(4) by (simp_all add: delay_line_def min_def)
  let ?acc = "ewma_step (alpha_accum st) ?f"
  have uf: "unat ?f \<le> 256" by (simp add: unat_min)
  have acc: "unat ?acc \<le> 4096" using assms(1) uf by (intro ewma_step_bounds) (simp_all add: rate_wf_def)
  have eq: "bps st' = lowered st floor_bps ?acc False"
    using assms(5) f unfolding fields(1) next_bps_def Let_def f(1) assms(6) by simp
  have b: "bps st \<le> 2 ^ 55" using assms(1) by (simp add: rate_wf_def)
  note low = lowered_bounds [OF b assms(2) acc, of floor_bps False, folded eq]
  show "bps st' = max floor_bps (bps st - (bps st * max (unat (alpha_scaled st')) 1 + 511) div 512)"
    unfolding eq lowered_def fields(4,5) f(1) unat_drop_bit_4 by simp
  show "if floor_bps < bps st then bps st' < bps st else bps st' = floor_bps" using low assms(2) by auto
  assume that: "bps st \<le> initial_bps st"
  show "bps st' \<le> initial_bps st"
  proof -
    have "0 < glob" using that assms(2,3) by simp
    then have "window_floor_bps glob (rr_page_cnt r) < glob" by (rule window_floor_less)
    moreover have "static_floor_bps st \<le> initial_bps st" using assms(1) by (simp add: rate_wf_def)
    ultimately have "floor_bps \<le> initial_bps st" using assms(3,6) by simp
    then show ?thesis using low(1) that by simp
  qed
qed

definition seeded :: "nat \<Rightarrow> rate_limit_state" where
  "seeded g = snd (effective_rate_bps g rate_limit_init 0)"

lemma seeded_wf:
  assumes "0 < g" and "g \<le> 2 ^ 55"
  shows "rate_wf (seeded g)" "bps (seeded g) = g" "initial_bps (seeded g) = g"
  using assms by (simp_all add: seeded_def effective_rate_bps_def rate_limit_init_def rate_wf_def rate_consts Let_def)

definition loss_report :: "u16 \<Rightarrow> u32 \<Rightarrow> rate_report" where
  "loss_report page_cnt f = \<lparr>rr_page_cnt = page_cnt, rr_f_max = f, rr_clean = False, rr_at_floor_timeout = False,
     rr_observed = 0, rr_runs = 0, rr_lost = 0\<rparr>"

theorem adapt_rate_loss_witness:
  "bps (fst (adapt_rate_dctcp 1000000 0 False (loss_report 10 64) (seeded 1000000, frag_track_init))) < 1000000"
proof -
  have "window_floor_bps 1000000 10 < 1000000" by (rule window_floor_less) simp
  then show ?thesis
    using adapt_rate_loss [of "seeded 1000000" 1000000 "loss_report 10 64"
        "max (static_floor_bps (seeded 1000000)) (window_floor_bps 1000000 (rr_page_cnt (loss_report 10 64)))" False frag_track_init
        "fst (adapt_rate_dctcp 1000000 0 False (loss_report 10 64) (seeded 1000000, frag_track_init))"
        "snd (adapt_rate_dctcp 1000000 0 False (loss_report 10 64) (seeded 1000000, frag_track_init))"]
    using seeded_wf [of 1000000]
    by (simp add: loss_report_def runs_random_def rate_wf_def)
qed

section \<open>Recovery\<close>

text \<open>The rate after a run of clean, large messages of the same size, delay line off.\<close>

definition clean_report :: "u16 \<Rightarrow> rate_report" where
  "clean_report page_cnt = \<lparr>rr_page_cnt = page_cnt, rr_f_max = 0, rr_clean = True, rr_at_floor_timeout = False,
     rr_observed = 0, rr_runs = 0, rr_lost = 0\<rparr>"

definition clean_message :: "bool \<Rightarrow> u16 \<Rightarrow> rate_limit_state \<times> frag_track_state \<Rightarrow> rate_limit_state \<times> frag_track_state" where
  "clean_message track page_cnt sf = adapt_rate_dctcp (initial_bps (fst sf)) 0 track (clean_report page_cnt) sf"

definition decay :: "nat \<Rightarrow> nat" where "decay a = a - a div 16"

lemma decay_mono: "a \<le> b \<Longrightarrow> decay a \<le> decay b"
proof -
  assume "a \<le> b"
  moreover have "b div 16 \<le> a div 16 + (b - a)"
    using \<open>a \<le> b\<close> div_le_mono [of b "a + (b - a) * 16" 16] by simp
  ultimately show ?thesis unfolding decay_def by linarith
qed

lemma decay_iter_mono: "a \<le> b \<Longrightarrow> (decay ^^ n) a \<le> (decay ^^ n) b"
  by (induction n) (auto intro: decay_mono)

lemma decay_numeral:
  "(decay ^^ numeral k) (numeral a) = (decay ^^ pred_numeral k) (numeral a - numeral a div 16)"
  by (simp only: numeral_eq_Suc [of k] funpow_Suc_right comp_apply decay_def)

lemma decay_80: "(decay ^^ 80) 4096 = 31"
  by (simp add: decay_numeral) (simp add: decay_def)

lemma decay_le: "decay a \<le> a"
  by (simp add: decay_def)


lemma clean_message_step:
  assumes wf: "rate_wf st" and one: "1 \<le> bps st" and le: "bps st \<le> initial_bps st"
    and big: "8 \<le> page_cnt" and cm: "clean_message track page_cnt (st, fs) = (st', fs')"
  shows "rate_wf st'" "initial_bps st' = initial_bps st" "unat (alpha_accum st') = decay (unat (alpha_accum st))"
    "bps st \<le> bps st'" "bps st' \<le> initial_bps st"
    "unat (alpha_accum st) \<le> 31 \<Longrightarrow> bps st' = min (initial_bps st) (bps st + max 1 (initial_bps st div 320))"
proof -
  let ?r = "clean_report page_cnt"
  have g: "initial_bps st \<le> 2 ^ 55" using wf by (simp add: rate_wf_def)
  have eq: "adapt_rate_dctcp (initial_bps st) 0 track ?r (st, fs) = (st', fs')"
    using cm by (simp add: clean_message_def)
  then have st': "st' = fst (adapt_rate_dctcp (initial_bps st) 0 track ?r (st, fs))" by simp
  note fields = adapt_rate_fields [OF wf one g st']
  have f: "fst (delay_line 0 (min (rr_f_max ?r) 256) st) = 0" by (simp add: delay_line_def clean_report_def)
  have a: "unat (alpha_accum st) \<le> 4096" using wf by (simp add: rate_wf_def)
  have acc: "unat (ewma_step (alpha_accum st) 0) = decay (unat (alpha_accum st))"
    using ewma_step_clean [OF a] by (simp add: decay_def)
  show "rate_wf st'" by (rule adapt_rate_wf [OF wf g eq])
  show "initial_bps st' = initial_bps st" by (rule fields(2))
  show "unat (alpha_accum st') = decay (unat (alpha_accum st))" unfolding fields(4) f by (rule acc)
  have b: "bps st' = (if unat (ewma_step (alpha_accum st) 0) < 32 then raised st (bps st) else bps st)"
    using big unfolding fields(1) next_bps_def Let_def f by (simp add: clean_report_def)
  show "bps st \<le> bps st'" "bps st' \<le> initial_bps st" using le unfolding b by (simp_all add: raised_def)
  show "bps st' = min (initial_bps st) (bps st + max 1 (initial_bps st div 320))" if "unat (alpha_accum st) \<le> 31"
    using that decay_le [of "unat (alpha_accum st)"] unfolding b acc raised_def by simp
qed

lemma clean_run:
  assumes "rate_wf st" and "1 \<le> bps st" and "bps st \<le> initial_bps st" and "8 \<le> page_cnt"
  shows "\<exists>st' fs'. (clean_message track page_cnt ^^ n) (st, fs) = (st', fs') \<and> rate_wf st' \<and>
    initial_bps st' = initial_bps st \<and> unat (alpha_accum st') = (decay ^^ n) (unat (alpha_accum st)) \<and>
    bps st \<le> bps st' \<and> bps st' \<le> initial_bps st \<and>
    (unat (alpha_accum st) \<le> 31 \<longrightarrow>
       min (initial_bps st) (bps st + n * max 1 (initial_bps st div 320)) \<le> bps st')"
proof (induction n)
  case 0
  then show ?case using assms by simp
next
  case (Suc n)
  then obtain s f where s: "(clean_message track page_cnt ^^ n) (st, fs) = (s, f)" "rate_wf s"
    "initial_bps s = initial_bps st" "unat (alpha_accum s) = (decay ^^ n) (unat (alpha_accum st))"
    "bps st \<le> bps s" "bps s \<le> initial_bps st"
    "unat (alpha_accum st) \<le> 31 \<Longrightarrow> min (initial_bps st) (bps st + n * max 1 (initial_bps st div 320)) \<le> bps s"
    by blast
  obtain s' f' where s': "clean_message track page_cnt (s, f) = (s', f')" by fastforce
  have "1 \<le> bps s" "bps s \<le> initial_bps s" using assms(2) s by simp_all
  note step = clean_message_step [OF s(2) this assms(4) s']
  have "unat (alpha_accum s) \<le> 31" if "unat (alpha_accum st) \<le> 31"
    unfolding s(4) using that by (induction n) (auto intro: le_trans [OF decay_le])
  then have "min (initial_bps st) (bps st + Suc n * max 1 (initial_bps st div 320)) \<le> bps s'"
    if "unat (alpha_accum st) \<le> 31"
    using step(6) s(7) that unfolding s(3) by (simp add: min_le_iff_disj algebra_simps) linarith
  then show ?case
    using s(1,5) step(1-5) unfolding s(3,4) by (auto simp: s' intro: le_trans)
qed

text \<open>
  Recovery. From any reachable rate, 80 clean messages of at least 8 pages let the
  congestion estimate decay below the threshold, and 640 more restore the configured rate; the
  rate never falls on the way. The bound does not depend on the rate.
\<close>

theorem rate_recovers:
  assumes "rate_wf st" and "1 \<le> bps st" and "bps st \<le> initial_bps st" and "8 \<le> page_cnt" and "720 \<le> n"
  shows "bps (fst ((clean_message track page_cnt ^^ n) (st, fs))) = initial_bps st"
proof -
  obtain s f where s: "(clean_message track page_cnt ^^ 80) (st, fs) = (s, f)" "rate_wf s"
    "initial_bps s = initial_bps st" "unat (alpha_accum s) = (decay ^^ 80) (unat (alpha_accum st))"
    "bps st \<le> bps s" "bps s \<le> initial_bps st"
    using clean_run [OF assms(1-4), where n = 80] by blast
  have "unat (alpha_accum st) \<le> 4096" using assms(1) by (simp add: rate_wf_def)
  then have a: "unat (alpha_accum s) \<le> 31"
    unfolding s(4) using decay_iter_mono [of _ 4096 80] decay_80 by metis
  have "1 \<le> bps s" "bps s \<le> initial_bps s" using s assms(2) by simp_all
  from clean_run [OF s(2) this assms(4), where n = "n - 80" and track = track and fs = f] a
  obtain t g where t: "(clean_message track page_cnt ^^ (n - 80)) (s, f) = (t, g)" "bps t \<le> initial_bps s"
    "min (initial_bps s) (bps s + (n - 80) * max 1 (initial_bps s div 320)) \<le> bps t" by blast
  have "initial_bps s \<le> 640 * max 1 (initial_bps s div 320)"
    using div_mult_mod_eq [of "initial_bps s" 320] mod_less_divisor [of 320 "initial_bps s"] by linarith
  also have "\<dots> \<le> (n - 80) * max 1 (initial_bps s div 320)" using assms(5) by (intro mult_le_mono) auto
  finally have "bps t = initial_bps st" using t s(3) by simp
  moreover have "(clean_message track page_cnt ^^ n) (st, fs) = (t, g)"
  proof -
    have "n = (n - 80) + 80" using assms(5) by simp
    then have "(clean_message track page_cnt ^^ n) (st, fs) =
        (clean_message track page_cnt ^^ (n - 80)) ((clean_message track page_cnt ^^ 80) (st, fs))"
      by (metis comp_apply funpow_add)
    then show ?thesis using s(1) t(1) by simp
  qed
  ultimately show ?thesis by simp
qed


theorem rate_recovers_witness:
  "bps (fst ((clean_message False 10 ^^ 720) (seeded 1000000, frag_track_init))) = 1000000"
  using rate_recovers [of "seeded 1000000" 10 720 False frag_track_init] seeded_wf [of 1000000]
  by (simp add: word_le_nat_alt)

section \<open>The floor and the receiver's deadline\<close>

text \<open>
  The floor keeps messages deliverable. At any rate above the window floor of a message,
  sending its pages takes no longer, with half as much again for jitter, than the time the
  receiver is assumed to wait. The floor itself is below every positive limit (\<open>window_floor_less\<close>), so a rate above it
  exists.
\<close>

theorem window_floor_meets_deadline:
  assumes "window_floor_bps glob page_cnt < rate"
  shows "rate_limited_transit_ms glob page_cnt rate + rate_limited_transit_ms glob page_cnt rate div 2
    \<le> max 50 (rate_limited_transit_ms glob page_cnt 0 + rate_limited_transit_ms glob page_cnt 0 div 2 + 20)"
proof -
  define b where "b = unat page_cnt * 1472"
  define D where "D = max 50 (rate_limited_transit_ms glob page_cnt 0 + rate_limited_transit_ms glob page_cnt 0 div 2 + 20)"
  have D: "0 < D" by (simp add: D_def)
  have "b * 1500 div D < rate" using assms by (simp add: window_floor_bps_def Let_def udp_consts b_def D_def)
  then have lt: "b * 1500 < rate * D" using D by (simp add: div_less_iff_less_mult)
  have t: "rate_limited_transit_ms glob page_cnt rate = b * 1000 div rate"
    using assms by (simp add: rate_limited_transit_ms_def Let_def udp_consts b_def)
  have "(b * 1000 div rate) * rate \<le> b * 1000" by (simp add: div_times_less_eq_dividend)
  then have "3 * ((b * 1000 div rate) * rate) < 2 * (rate * D)" using lt by linarith
  then have "(3 * (b * 1000 div rate)) * rate < (2 * D) * rate" by (simp only: ac_simps)
  then have "3 * (b * 1000 div rate) < 2 * D" by (simp only: mult_less_cancel2)
  then have "b * 1000 div rate + b * 1000 div rate div 2 \<le> D" by linarith
  then show ?thesis unfolding t D_def .
qed

theorem window_floor_meets_deadline_witness:
  "rate_limited_transit_ms 1000000 100 950000 + rate_limited_transit_ms 1000000 100 950000 div 2 \<le> 240"
  using window_floor_meets_deadline [of 1000000 100 950000]
  by (simp add: window_floor_bps_def rate_limited_transit_ms_def Let_def udp_consts)

section \<open>Peers and the timeout\<close>

lemma record_peer_ack_lookup:
  "Mapping.lookup (record_peer_ack now t r q) r' =
     (if r' = r
      then (let p = Mapping.lookup_default new_peer t r in
        Some (p\<lparr>highest_acked_seq := max (highest_acked_seq p) q, last_ack_ts := now, ack_count := ack_count p + 1\<rparr>))
      else Mapping.lookup t r')"
  by (simp add: record_peer_ack_def Let_def lookup_update' max_def)

lemma record_peer_nack_lookup:
  "Mapping.lookup (record_peer_nack now t r) r' =
     (if r' = r then Some ((Mapping.lookup_default new_peer t r)\<lparr>last_nack_ts := now\<rparr>) else Mapping.lookup t r')"
  by (simp add: record_peer_nack_def Let_def lookup_update')

text \<open>A NACK makes a peer known but never live; only a recent ACK does.\<close>

lemma live_after_ack:
  "0 < now \<Longrightarrow> peer_is_live now (record_peer_ack now t r q) r lease \<longleftrightarrow> 0 < lease"
  by (simp add: peer_is_live_def record_peer_ack_lookup Let_def signed_divide_int_def)

lemma nack_not_live:
  "\<not> peer_is_known t r \<Longrightarrow> \<not> peer_is_live now (record_peer_nack now' t r) r lease \<and> peer_is_known (record_peer_nack now' t r) r"
  by (simp add: peer_is_live_def peer_is_known_def record_peer_nack_lookup lookup_default_def new_peer_def)

definition rtt_ok :: "rtt_estimator \<Rightarrow> bool" where
  "rtt_ok e \<longleftrightarrow> kMinRtoUs \<le> rto_us e \<and> rto_us e \<le> kMaxRtoUs"

lemma observe_bounds: "rtt_ok e \<Longrightarrow> rtt_ok (observe rnd e s)"
  by (simp add: observe_def Let_def rtt_ok_def kMinRtoUs_def kMaxRtoUs_def)

lemma rtt_initial_ok: "rtt_ok rtt_initial"
  by (simp add: rtt_ok_def rtt_initial_def kMinRtoUs_def kMaxRtoUs_def kInitialRtoUs_def ACK_FAST_WAIT_MS_def)

lemma first_wait_bounds: "rtt_ok e \<Longrightarrow> 1 \<le> ack_first_wait_ms e \<and> ack_first_wait_ms e \<le> 20"
  using div_le_mono [of "rto_us e + 999" 20999 1000]
  by (simp add: ack_first_wait_ms_def rtt_ok_def kMaxRtoUs_def)

lemma node_state_get:
  "node_state initial m node = (s, m') \<Longrightarrow> Mapping.lookup m' node = Some s"
  "node_state initial m node = (s, m') \<Longrightarrow> other \<noteq> node \<Longrightarrow> Mapping.lookup m' other = Mapping.lookup m other"
  by (auto simp: node_state_def lookup_update' split: option.splits)

end
