(* ===== verification/Feedback.thy ===== *)
theory Feedback
  imports RateControl
begin

text \<open>
  What the two ends of the reliable protocol tell each other
  (\<open>src/dzIPC/common/data_rev.cc\<close>): sending a datagram with retries and paced bursts, the ACK
  and heartbeat frames, the two encodings of the missing pages and the choice between them, and
  the collection of late feedback.
\<close>

section \<open>The outgoing side of a socket\<close>

text \<open>
  \<open>ok k\<close> is the result of the \<open>k\<close>-th call of \<open>UDPNode::send\<close>; the state counts the calls and
  keeps the datagrams the socket accepted.
\<close>

definition SEND_RETRY_MAX :: nat where "SEND_RETRY_MAX = 10"
definition SEND_BURST_BEFORE_YIELD :: nat where "SEND_BURST_BEFORE_YIELD = 64"

record socket =
  sk_calls :: nat
  sk_out :: "bytes list"

definition node_send :: "(nat \<Rightarrow> bool) \<Rightarrow> socket \<Rightarrow> bytes \<Rightarrow> bool \<times> socket" where
  "node_send ok s chunk =
     (ok (sk_calls s),
      if ok (sk_calls s) then \<lparr>sk_calls = sk_calls s + 1, sk_out = sk_out s @ [chunk]\<rparr>
      else s\<lparr>sk_calls := sk_calls s + 1\<rparr>)"

primrec send_attempts :: "nat \<Rightarrow> (nat \<Rightarrow> bool) \<Rightarrow> socket \<Rightarrow> bytes \<Rightarrow> bool \<times> socket" where
  "send_attempts 0 ok s chunk = (False, s)"
| "send_attempts (Suc n) ok s chunk =
     (let (sent, s) = node_send ok s chunk in if sent then (True, s) else send_attempts n ok s chunk)"

definition send_chunk_with_retry :: "(nat \<Rightarrow> bool) \<Rightarrow> socket \<Rightarrow> bytes \<Rightarrow> bool \<times> socket" where
  "send_chunk_with_retry ok s chunk = send_attempts SEND_RETRY_MAX ok s chunk"

text \<open>
  The paced burst: \<open>elapsed_us i\<close> is the clock read before chunk \<open>i\<close>; the result lists the
  pauses requested, one for every chunk but the first.
\<close>

primrec send_from :: "(nat \<Rightarrow> bool) \<Rightarrow> (nat \<Rightarrow> nat) \<Rightarrow> nat \<Rightarrow> nat \<Rightarrow> nat \<Rightarrow> nat \<Rightarrow> socket \<Rightarrow> bytes list
    \<Rightarrow> bool \<times> socket \<times> nat list" where
  "send_from ok elapsed_us rate_limit_bps i prev bytes_sent s [] = (True, s, [])"
| "send_from ok elapsed_us rate_limit_bps i prev bytes_sent s (c # cs) =
     (let pace = 0 < rate_limit_bps \<and> 0 < i;
          bytes_sent = (if pace then bytes_sent + prev else bytes_sent);
          budget_us = mul64 bytes_sent 1000000 div rate_limit_bps;
          wait_us = (if pace then budget_us - elapsed_us i else 0);
          (sent, s) = send_chunk_with_retry ok s c
      in if \<not> sent then (False, s, [wait_us])
         else (let (r, s, ws) = send_from ok elapsed_us rate_limit_bps (i + 1) (length c) bytes_sent s cs
               in (r, s, wait_us # ws)))"

definition send_all_chunks ::
    "(nat \<Rightarrow> bool) \<Rightarrow> (nat \<Rightarrow> nat) \<Rightarrow> socket \<Rightarrow> bytes list \<Rightarrow> nat \<Rightarrow> bool \<times> socket \<times> nat list" where
  "send_all_chunks ok elapsed_us s chunks rate_limit_bps =
     send_from ok elapsed_us rate_limit_bps 0 0 0 s chunks"

text \<open>
  What a non-blocking read finds: the datagrams queued, then nothing. An empty datagram ends
  the draining like an empty queue.
\<close>

primrec drain_loop :: "nat \<Rightarrow> bytes list \<Rightarrow> bytes list" where
  "drain_loop 0 queue = queue"
| "drain_loop (Suc n) queue =
     (case queue of [] \<Rightarrow> [] | buf # rest \<Rightarrow> if buf = [] then rest else drain_loop n rest)"

definition kMaxDrain :: nat where "kMaxDrain = 8192"

definition drain_self_loopback :: "bytes list \<Rightarrow> bytes list" where
  "drain_self_loopback queue = drain_loop kMaxDrain queue"


section \<open>Acknowledgements and heartbeats\<close>

definition INTEGRITY_FLAG_CRC32C :: byte where "INTEGRITY_FLAG_CRC32C = 1"

text \<open>\<open>me\<close> is \<open>local_node_id()\<close>, \<open>junk\<close> the uninitialised bytes of a new buffer.\<close>

definition ack_frame :: "u32 \<Rightarrow> chunk_meta \<Rightarrow> u32 \<Rightarrow> ack_msg" where
  "ack_frame me meta payload_crc32c =
     IpcRtpsAckMsg\<lparr>ak_page_cnt := cm_page_cnt meta, ak_total_size := cm_total_size meta,
       ak_data_msg_id := cm_msg_id meta, ak_receiver_id := me, ak_sequence := cm_sequence meta,
       ak_integrity_flags := INTEGRITY_FLAG_CRC32C, ak_payload_crc32c := payload_crc32c\<rparr>"

definition send_ack ::
    "(nat \<Rightarrow> bool) \<Rightarrow> (nat \<Rightarrow> byte) \<Rightarrow> u32 \<Rightarrow> socket \<Rightarrow> chunk_meta \<Rightarrow> u32 \<Rightarrow> bool \<Rightarrow> u16 \<Rightarrow> u32 \<Rightarrow> socket option" where
  "send_ack ok junk me s meta payload_crc32c use_dza2 lost_pages observed_bps =
     (if use_dza2
      then do {
        (m, data) \<leftarrow> ack2_serialize junk
          \<lparr>a2_ack = (ack_frame me meta payload_crc32c)\<lparr>ak_base := ak_base (a2_ack IpcRtpsAck2Msg)\<rparr>,
           a2_lost_pages = lost_pages, a2_observed_bps = observed_bps\<rparr>;
        Some (snd (send_chunk_with_retry ok s data))
      }
      else do {
        (m, data) \<leftarrow> ack_serialize junk (ack_frame me meta payload_crc32c);
        Some (snd (send_chunk_with_retry ok s data))
      })"

definition send_heartbeat ::
    "(nat \<Rightarrow> bool) \<Rightarrow> (nat \<Rightarrow> byte) \<Rightarrow> u32 \<Rightarrow> socket \<Rightarrow> chunk_meta \<Rightarrow> bool \<Rightarrow> bool \<Rightarrow> u16 \<Rightarrow> socket option" where
  "send_heartbeat ok junk me s meta reliable final_hb round_no =
     do {
       (m, data) \<leftarrow> heartbeat_serialize junk
         (IpcRtpsHeartbeatMsg\<lparr>hb_page_cnt := cm_page_cnt meta, hb_total_size := cm_total_size meta,
            hb_data_msg_id := cm_msg_id meta, hb_sender_id := me, hb_sequence := cm_sequence meta,
            hb_flags := (if reliable then kFlagReliable else 0) OR (if final_hb then kFlagFinal else 0)
              OR kFlagBitmapNack OR kFlagRateFeedback,
            hb_round := round_no\<rparr>);
       Some (snd (send_chunk_with_retry ok s data))
     }"

section \<open>Reports of missing pages\<close>

text \<open>
  The loops over the pages count with 16 bits and end only when the page count is below 65535;
  \<open>None\<close> is a loop that would not end.
\<close>

definition page_range :: "u16 \<Rightarrow> nat list option" where
  "page_range page_cnt = (if page_cnt = 65535 then None else Some [1..<unat page_cnt + 1])"

primrec collect_missing :: "byte list \<Rightarrow> u16 \<Rightarrow> u16 list \<Rightarrow> nat list \<Rightarrow> (u16 list \<times> bool) option" where
  "collect_missing received page_cnt acc [] = Some (acc, False)"
| "collect_missing received page_cnt acc (i # is) =
     (if length received \<le> i then None
      else if received ! i = 0
      then (let acc = acc @ [of_nat i] in
        if kMaxMissingPages \<le> length acc then Some (acc, i < unat page_cnt)
        else collect_missing received page_cnt acc is)
      else collect_missing received page_cnt acc is)"

definition send_nack_for_missing ::
    "(nat \<Rightarrow> bool) \<Rightarrow> (nat \<Rightarrow> byte) \<Rightarrow> u32 \<Rightarrow> bool \<Rightarrow> chunk_meta \<Rightarrow> byte list \<Rightarrow> nack_msg
      \<Rightarrow> socket \<times> frag_track_state \<Rightarrow> (nack_msg \<times> socket \<times> frag_track_state) option" where
  "send_nack_for_missing ok junk me track meta received nack_msg sf =
     do {
       let (s, fs) = sf;
       pages \<leftarrow> page_range (cm_page_cnt meta);
       (missing, truncated) \<leftarrow> collect_missing received (cm_page_cnt meta) [] pages;
       let nack_msg = nack_msg\<lparr>nk_page_cnt := cm_page_cnt meta, nk_total_size := cm_total_size meta,
         nk_data_msg_id := cm_msg_id meta, nk_receiver_id := me, nk_sequence := cm_sequence meta,
         nk_missing_pages := missing\<rparr>;
       let fs = (if truncated \<and> track
                 then fs\<lparr>nack_explicit_truncated := nack_explicit_truncated fs + 1\<rparr> else fs);
       if missing = [] then Some (nack_msg, s, fs)
       else do {
         let fs = (if track then fs\<lparr>nack_explicit_sent := nack_explicit_sent fs + 1\<rparr> else fs);
         (nack_msg, data) \<leftarrow> nack_serialize junk nack_msg;
         Some (nack_msg, snd (send_chunk_with_retry ok s data), fs)
       }
     }"

text \<open>The scan for the missing pages: their number, the first and the last.\<close>

definition scan_step :: "byte list \<Rightarrow> nat \<times> nat \<times> nat \<Rightarrow> nat \<Rightarrow> (nat \<times> nat \<times> nat) option" where
  "scan_step received st i =
     (let (miss_cnt, first_missing, last_missing) = st in
      if length received \<le> i then None
      else if received ! i = 0
      then Some (miss_cnt + 1, if first_missing = 0 then i else first_missing, i)
      else Some st)"

definition scan_missing :: "byte list \<Rightarrow> u16 \<Rightarrow> (nat \<times> nat \<times> nat) option" where
  "scan_missing received page_cnt =
     do { pages \<leftarrow> page_range page_cnt; foldM (scan_step received) (0, 0, 0) pages }"

definition mark_step :: "byte list \<Rightarrow> nack_bitmap_msg \<Rightarrow> nat \<Rightarrow> nack_bitmap_msg option" where
  "mark_step received nb i =
     (if length received \<le> i then None
      else if received ! i = 0 then set_missing nb (of_nat i) else Some nb)"

definition send_nack_bitmap_for_missing ::
    "(nat \<Rightarrow> bool) \<Rightarrow> (nat \<Rightarrow> byte) \<Rightarrow> u32 \<Rightarrow> bool \<Rightarrow> chunk_meta \<Rightarrow> byte list \<Rightarrow> nack_bitmap_msg
      \<Rightarrow> socket \<times> frag_track_state \<Rightarrow> (bool \<times> nack_bitmap_msg \<times> socket \<times> frag_track_state) option" where
  "send_nack_bitmap_for_missing ok junk me track meta received nb_msg sf =
     do {
       let (s, fs) = sf;
       (miss_cnt, first_missing, last_missing) \<leftarrow> scan_missing received (cm_page_cnt meta);
       if first_missing = 0 then Some (False, nb_msg, s, fs)
       else do {
         let nb_msg = nb_msg\<lparr>nb_page_cnt := cm_page_cnt meta, nb_total_size := cm_total_size meta,
           nb_data_msg_id := cm_msg_id meta, nb_receiver_id := me, nb_sequence := cm_sequence meta\<rparr>;
         let span = last_missing - first_missing + 1;
         let nb_msg = reset_window nb_msg (of_nat first_missing) span;
         nb_msg \<leftarrow> foldM (mark_step received) nb_msg [first_missing..<last_missing + 1];
         let fs = (if track
                   then (let fs = fs\<lparr>nack_bitmap_sent := nack_bitmap_sent fs + 1\<rparr> in
                     if kMaxBitmapBits < span
                     then fs\<lparr>nack_bitmap_truncated := nack_bitmap_truncated fs + 1\<rparr> else fs)
                   else fs);
         (nb_msg, data) \<leftarrow> nack_bitmap_serialize junk nb_msg;
         Some (True, nb_msg, snd (send_chunk_with_retry ok s data), fs)
       }
     }"

text \<open>The pages the window of a bitmap covers, when it does not reach the last missing one.\<close>

definition cover_step :: "byte list \<Rightarrow> nat \<Rightarrow> nat \<Rightarrow> nat option" where
  "cover_step received n i =
     (if length received \<le> i then None else Some (if received ! i = 0 then n + 1 else n))"

definition send_nack_auto ::
    "(nat \<Rightarrow> bool) \<Rightarrow> (nat \<Rightarrow> byte) \<Rightarrow> u32 \<Rightarrow> bool \<Rightarrow> chunk_meta \<Rightarrow> byte list \<Rightarrow> nack_msg \<Rightarrow> nack_bitmap_msg
      \<Rightarrow> bool \<Rightarrow> socket \<times> frag_track_state
      \<Rightarrow> (nack_msg \<times> nack_bitmap_msg \<times> socket \<times> frag_track_state) option" where
  "send_nack_auto ok junk me track meta received nack_msg nb_msg peer_supports_bitmap sf =
     (let list_nack = (\<lambda>nb sf. do {
            (nk, s, fs) \<leftarrow> send_nack_for_missing ok junk me track meta received nack_msg sf;
            Some (nk, nb, s, fs) })
      in if \<not> peer_supports_bitmap then list_nack nb_msg sf
      else do {
        (miss_cnt, first_missing, last_missing) \<leftarrow> scan_missing received (cm_page_cnt meta);
        if miss_cnt = 0 then Some (nack_msg, nb_msg, sf)
        else do {
          let span = last_missing - first_missing + 1;
          let bitmap_bits = min span kMaxBitmapBits;
          let bitmap_bytes = (bitmap_bits + 7) div 8;
          bitmap_cover \<leftarrow>
            (if kMaxBitmapBits < span
             then foldM (cover_step received) 0
               [first_missing..<min (first_missing + bitmap_bits) (unat (cm_page_cnt meta) + 1)]
             else Some miss_cnt);
          let list_cover = min miss_cnt kMaxMissingPages;
          let list_bytes = list_cover * 2;
          let use_bitmap = list_cover < bitmap_cover \<or> bitmap_cover = list_cover \<and> bitmap_bytes < list_bytes;
          if use_bitmap
          then do {
            (sent, nb, sf) \<leftarrow> send_nack_bitmap_for_missing ok junk me track meta received nb_msg sf;
            if sent then Some (nack_msg, nb, sf) else list_nack nb sf
          }
          else list_nack nb_msg sf
        }
      })"


section \<open>Runs of missing pages\<close>

record runs_first =
  rf_captured :: bool
  rf_runs :: nat
  rf_lost :: nat

text \<open>The page numbers of a bitmap the loop visits, up to the first one out of range.\<close>

definition bitmap_pages :: "nack_bitmap_msg \<Rightarrow> nat \<Rightarrow> nat list" where
  "bitmap_pages nb page_cnt =
     takeWhile (\<lambda>p. \<not> (p = 0 \<or> page_cnt < p)) (map (\<lambda>b. unat (nb_base_page nb) + b) [0..<unat (nb_bit_cnt nb)])"

definition count_bitmap_runs :: "nack_bitmap_msg \<Rightarrow> nat \<Rightarrow> nat" where
  "count_bitmap_runs nb page_cnt =
     fst (foldl (\<lambda>(runs, prev_missing) page_id.
         let missing = is_missing nb (of_nat page_id)
         in (if missing \<and> \<not> prev_missing then runs + 1 else runs, missing))
       (0, False) (bitmap_pages nb page_cnt))"

definition count_explicit_runs :: "u16 list \<Rightarrow> nat \<Rightarrow> nat" where
  "count_explicit_runs pages page_cnt =
     fst (foldl (\<lambda>(runs, have_prev, prev) page.
         if page = 0 \<or> page_cnt < unat page then (runs, have_prev, prev)
         else (if \<not> have_prev \<or> page \<noteq> prev + 1 then runs + 1 else runs, True, page))
       (0, False, 0) pages)"

text \<open>The peer with the smallest ratio of runs to lost pages; the order of the peers is any.\<close>

definition aggregate_runs_first :: "(u32 \<times> runs_first) list \<Rightarrow> nat \<times> nat" where
  "aggregate_runs_first m =
     (let (any, best_runs, best_lost) =
        foldl (\<lambda>(any, best_runs, best_lost) (r, rf).
            if \<not> rf_captured rf \<or> rf_lost rf = 0 then (any, best_runs, best_lost)
            else if \<not> any \<or> mul64 (rf_runs rf) best_lost < mul64 best_runs (rf_lost rf)
            then (True, rf_runs rf, rf_lost rf) else (any, best_runs, best_lost))
          (False, 0, 0) m
      in if any then (best_runs, best_lost) else (0, 0))"

section \<open>Collecting feedback\<close>

text \<open>
  The message objects a loop reuses for the frames it parses (a frame of a wrong size leaves
  the fields of the last one), and what it collects: the table of peers, the peers counted for
  this message, the worst loss, the last rate observed and the first pattern of each peer.
\<close>

record rx_msgs =
  rx_ack :: ack_msg
  rx_ack2 :: ack2_msg
  rx_nack :: nack_msg
  rx_nb :: nack_bitmap_msg

definition rx_fresh :: rx_msgs where
  "rx_fresh = \<lparr>rx_ack = IpcRtpsAckMsg, rx_ack2 = IpcRtpsAck2Msg, rx_nack = IpcRtpsNackMsg,
     rx_nb = IpcRtpsNackBitmapMsg\<rparr>"

record feedback =
  fb_peers :: peer_table
  fb_seen :: "u32 list"
  fb_f_max :: u32
  fb_observed :: u32
  fb_runs :: "(u32 \<times> runs_first) list"

definition ack_matches :: "ack_msg \<Rightarrow> chunk_meta \<Rightarrow> bool" where
  "ack_matches a meta =
     (ak_page_cnt a = cm_page_cnt meta \<and> ak_total_size a = cm_total_size meta \<and>
      ak_data_msg_id a = cm_msg_id meta \<and> ak_sequence a = cm_sequence meta)"

definition nack_matches :: "nack_msg \<Rightarrow> chunk_meta \<Rightarrow> bool" where
  "nack_matches n meta =
     (nk_page_cnt n = cm_page_cnt meta \<and> nk_total_size n = cm_total_size meta \<and>
      nk_data_msg_id n = cm_msg_id meta \<and> nk_sequence n = cm_sequence meta)"

definition nb_matches :: "nack_bitmap_msg \<Rightarrow> chunk_meta \<Rightarrow> bool" where
  "nb_matches n meta =
     (nb_page_cnt n = cm_page_cnt meta \<and> nb_total_size n = cm_total_size meta \<and>
      nb_data_msg_id n = cm_msg_id meta \<and> nb_sequence n = cm_sequence meta)"

definition count_peer :: "int \<Rightarrow> u32 \<Rightarrow> u32 \<Rightarrow> feedback \<Rightarrow> feedback" where
  "count_peer now receiver_id sequence fb =
     (if receiver_id \<in> set (fb_seen fb) then fb
      else fb\<lparr>fb_seen := receiver_id # fb_seen fb,
              fb_peers := record_peer_ack now (fb_peers fb) receiver_id sequence\<rparr>)"

text \<open>The loss a NACK shows, taken from live peers only; the first pattern of each is kept.\<close>

definition collect_loss :: "int \<Rightarrow> nat \<Rightarrow> u16 \<Rightarrow> u32 \<Rightarrow> nat \<Rightarrow> nat \<Rightarrow> feedback \<Rightarrow> feedback" where
  "collect_loss now lease_ms page_cnt receiver_id miss_cnt runs fb =
     (if 0 < miss_cnt \<and> peer_is_live now (fb_peers fb) receiver_id lease_ms
      then (let fb = fb\<lparr>fb_f_max := max (fb_f_max fb) (scaled_loss_fraction (of_nat miss_cnt) page_cnt)\<rparr> in
        if kRunsCaptureEnabled \<and> map_of (fb_runs fb) receiver_id = None
        then fb\<lparr>fb_runs := (receiver_id, \<lparr>rf_captured = True, rf_runs = runs, rf_lost = miss_cnt\<rparr>) # fb_runs fb\<rparr>
        else fb)
      else fb)"

definition drain_frame ::
    "chunk_meta \<Rightarrow> nat \<Rightarrow> int \<Rightarrow> bytes \<Rightarrow> rx_msgs \<times> feedback \<Rightarrow> (rx_msgs \<times> feedback) option" where
  "drain_frame meta lease_ms now buf st =
     (let (rx, fb) = st in
      if check_ak2_id buf
      then do {
        m \<leftarrow> ack2_deserialize (rx_ack2 rx) buf;
        let rx = rx\<lparr>rx_ack2 := m\<rparr>;
        if ack_matches (a2_ack m) meta
        then (let fb = count_peer now (ak_receiver_id (a2_ack m)) (cm_sequence meta) fb in
          Some (rx, fb\<lparr>fb_f_max := max (fb_f_max fb) (scaled_loss_fraction (ucast (a2_lost_pages m)) (cm_page_cnt meta)),
                       fb_observed := a2_observed_bps m\<rparr>))
        else Some (rx, fb)
      }
      else if check_ak_id buf
      then do {
        m \<leftarrow> ack_deserialize (rx_ack rx) buf;
        let rx = rx\<lparr>rx_ack := m\<rparr>;
        if ack_matches m meta then Some (rx, count_peer now (ak_receiver_id m) (cm_sequence meta) fb)
        else Some (rx, fb)
      }
      else if lease_ms = 0 then Some (rx, fb)
      else if check_nk_id buf
      then do {
        m \<leftarrow> nack_deserialize (rx_nack rx) buf;
        let rx = rx\<lparr>rx_nack := m\<rparr>;
        if nack_matches m meta
        then (let miss_cnt = length (filter (\<lambda>p. \<not> (p = 0 \<or> cm_page_cnt meta < p)) (nk_missing_pages m)) in
          Some (rx, collect_loss now lease_ms (cm_page_cnt meta) (nk_receiver_id m) miss_cnt
                      (count_explicit_runs (nk_missing_pages m) (unat (cm_page_cnt meta))) fb))
        else Some (rx, fb)
      }
      else if check_nb_id buf
      then do {
        m \<leftarrow> nack_bitmap_deserialize (rx_nb rx) buf;
        let rx = rx\<lparr>rx_nb := m\<rparr>;
        if nb_matches m meta
        then (let miss_cnt = length (filter (\<lambda>p. is_missing m (of_nat p)) (bitmap_pages m (unat (cm_page_cnt meta)))) in
          Some (rx, collect_loss now lease_ms (cm_page_cnt meta) (nb_receiver_id m) miss_cnt
                      (count_bitmap_runs m (unat (cm_page_cnt meta))) fb))
        else Some (rx, fb)
      }
      else Some (rx, fb))"

text \<open>
  The queue gives each datagram with the clock at the time it is processed; the rest of the
  queue is returned.
\<close>

definition kMaxAckDrain :: nat where "kMaxAckDrain = 1024"

primrec drain_record_loop ::
    "nat \<Rightarrow> chunk_meta \<Rightarrow> nat \<Rightarrow> (bytes \<times> int) list \<Rightarrow> rx_msgs \<times> feedback
      \<Rightarrow> ((bytes \<times> int) list \<times> feedback) option" where
  "drain_record_loop 0 meta lease_ms queue st = Some (queue, snd st)"
| "drain_record_loop (Suc n) meta lease_ms queue st =
     (case queue of
        [] \<Rightarrow> Some ([], snd st)
      | (buf, now) # rest \<Rightarrow>
          if buf = [] then Some (rest, snd st)
          else do { st \<leftarrow> drain_frame meta lease_ms now buf st; drain_record_loop n meta lease_ms rest st })"

definition drain_record_acks ::
    "chunk_meta \<Rightarrow> nat \<Rightarrow> (bytes \<times> int) list \<Rightarrow> feedback \<Rightarrow> ((bytes \<times> int) list \<times> feedback) option" where
  "drain_record_acks meta lease_ms queue fb = drain_record_loop kMaxAckDrain meta lease_ms queue (rx_fresh, fb)"

end
