(* ===== verification/FeedbackLaws.thy ===== *)
theory FeedbackLaws
  imports Feedback
begin

text \<open>
  Laws of the feedback: what a retried and a paced send put on the wire, which missing pages a
  NACK reports to the sender that parses it, and which frames may move the sender's state.
\<close>

section \<open>Sending\<close>

lemma send_attempts_spec:
  "send_attempts n ok s chunk = (b, s') \<Longrightarrow>
     (b \<longleftrightarrow> (\<exists>k<n. ok (sk_calls s + k))) \<and> sk_out s' = sk_out s @ (if b then [chunk] else []) \<and>
     sk_calls s' \<le> sk_calls s + n"
proof (induction n arbitrary: s)
  case 0
  then show ?case by auto
next
  case (Suc n)
  show ?case
  proof (cases "ok (sk_calls s)")
    case True
    then show ?thesis using Suc.prems by (auto simp: node_send_def intro: exI [of _ 0])
  next
    case False
    let ?s = "s\<lparr>sk_calls := sk_calls s + 1\<rparr>"
    have ih: "(b \<longleftrightarrow> (\<exists>k<n. ok (sk_calls ?s + k))) \<and> sk_out s' = sk_out ?s @ (if b then [chunk] else []) \<and>
       sk_calls s' \<le> sk_calls ?s + n"
      using Suc.prems False by (intro Suc.IH) (simp add: node_send_def)
    have "(\<exists>k<Suc n. ok (sk_calls s + k)) \<longleftrightarrow> (\<exists>k<n. ok (sk_calls s + Suc k))"
      using False by (auto simp: less_Suc_eq_0_disj)
    then show ?thesis using ih by simp
  qed
qed

lemma send_chunk_with_retry_out:
  "send_chunk_with_retry ok s chunk = (b, s') \<Longrightarrow> sk_out s' = sk_out s @ (if b then [chunk] else [])"
  using send_attempts_spec [of SEND_RETRY_MAX ok s chunk b s'] by (simp add: send_chunk_with_retry_def)

lemma send_from_spec:
  assumes "send_from ok el rate i prev sent s cs = (r, s', ws)"
  shows "\<exists>k\<le>length cs. (r \<longleftrightarrow> k = length cs) \<and> sk_out s' = sk_out s @ take k cs \<and> length ws \<le> length cs \<and>
    (r \<longrightarrow> length ws = length cs)"
  using assms
proof (induction cs arbitrary: i prev sent s r s' ws)
  case Nil
  then show ?case by simp
next
  case (Cons c cs)
  obtain b t where t: "send_chunk_with_retry ok s c = (b, t)" by fastforce
  note out = send_chunk_with_retry_out [OF t]
  show ?case
  proof (cases b)
    case False
    then show ?thesis
      using Cons.prems t out by (auto simp: Let_def split_beta intro!: exI [of _ 0])
  next
    case True
    let ?sent = "if 0 < rate \<and> 0 < i then sent + prev else sent"
    obtain r2 s2 ws2 where rec: "send_from ok el rate (i + 1) (length c) ?sent t cs = (r2, s2, ws2)"
      using prod_cases3 by blast
    from Cons.IH [OF this] obtain k where "k \<le> length cs" "r2 \<longleftrightarrow> k = length cs"
      "sk_out s2 = sk_out t @ take k cs" "length ws2 \<le> length cs" "r2 \<longrightarrow> length ws2 = length cs" by blast
    then show ?thesis
      using Cons.prems t rec out True by (auto simp: Let_def intro!: exI [of _ "Suc k"])
  qed
qed

lemma send_from_paced:
  assumes "send_from ok el rate i prev sent s cs = (r, s', ws)" and "0 < rate"
    and "(sent + prev + sum_list (map length cs)) * 1000000 < 2 ^ 64" and "i = 0 \<Longrightarrow> prev = 0 \<and> sent = 0"
    and "j < length ws" and "0 < i + j"
  shows "(sent + prev + sum_list (map length (take j cs))) * 1000000 div rate \<le> el (i + j) + ws ! j"
  using assms
proof (induction cs arbitrary: i prev sent s r s' ws j)
  case Nil
  then show ?case by simp
next
  case (Cons c cs)
  obtain b t where t: "send_chunk_with_retry ok s c = (b, t)" by fastforce
  let ?sent = "if 0 < i then sent + prev else sent"
  have sp: "?sent = sent + prev" using Cons.prems(4) by auto
  define w where "w = (if 0 < i then mul64 (sent + prev) 1000000 div rate - el i else 0)"
  have w: "\<exists>ws2. ws = w # ws2 \<and> (b \<longrightarrow> (\<exists>r2 s2. send_from ok el rate (i + 1) (length c) (sent + prev) t cs = (r2, s2, ws2))) \<and>
      (\<not> b \<longrightarrow> ws2 = [])"
    using Cons.prems(1,2) t sp by (cases b) (auto simp: Let_def w_def split: prod.splits if_splits)
  then obtain ws2 where ws2: "ws = w # ws2" "\<not> b \<longrightarrow> ws2 = []"
    "b \<longrightarrow> (\<exists>r2 s2. send_from ok el rate (i + 1) (length c) (sent + prev) t cs = (r2, s2, ws2))" by blast
  show ?case
  proof (cases j)
    case 0
    have "mul64 (sent + prev) 1000000 = (sent + prev) * 1000000"
      using Cons.prems(3) by (intro mul64_id) (simp add: algebra_simps)
    then show ?thesis using 0 ws2 Cons.prems(6) by (simp add: w_def)
  next
    case (Suc l)
    then have b using ws2 Cons.prems(5) by auto
    then obtain r2 s2 where rec: "send_from ok el rate (i + 1) (length c) (sent + prev) t cs = (r2, s2, ws2)"
      using ws2 by blast
    have "(sent + prev + length c + sum_list (map length (take l cs))) * 1000000 div rate \<le> el (i + 1 + l) + ws2 ! l"
      using Suc Cons.prems(3,5) ws2
      by (intro Cons.IH [OF rec Cons.prems(2)]) (simp_all add: algebra_simps)
    then show ?thesis using Suc ws2 by (simp add: algebra_simps)
  qed
qed

text \<open>
  A burst that succeeds puts exactly its chunks on the wire, in order, and a burst that
  fails a prefix of them; under a rate limit every chunk after the first is held back until the
  bytes before it fit the rate.
\<close>

theorem send_all_chunks_paced:
  assumes "send_all_chunks ok el s chunks rate = (r, s', ws)"
    and "sum_list (map length chunks) * 1000000 < 2 ^ 64"
  shows "(\<exists>k\<le>length chunks. (r \<longleftrightarrow> k = length chunks) \<and> sk_out s' = sk_out s @ take k chunks) \<and>
    (\<forall>j<length ws. 0 < rate \<and> 0 < j \<longrightarrow>
       sum_list (map length (take j chunks)) * 1000000 div rate \<le> el j + ws ! j)"
  using send_from_spec [OF assms(1) [unfolded send_all_chunks_def]]
    send_from_paced [OF assms(1) [unfolded send_all_chunks_def]] assms(2)
  by auto

theorem send_all_chunks_paced_witness:
  "\<exists>r s' ws. send_all_chunks (\<lambda>k. True) (\<lambda>i. 5 * i) \<lparr>sk_calls = 0, sk_out = []\<rparr> [[1, 2], [3]] 1000 = (r, s', ws) \<and>
     (\<forall>j<length ws. 0 < j \<longrightarrow> sum_list (map length (take j [[1 :: byte, 2], [3]])) * 1000000 div 1000 \<le> 5 * j + ws ! j)"
proof -
  obtain r s' ws where e: "send_all_chunks (\<lambda>k. True) (\<lambda>i. 5 * i) \<lparr>sk_calls = 0, sk_out = []\<rparr> [[1, 2], [3]] 1000 = (r, s', ws)"
    using prod_cases3 by blast
  from send_all_chunks_paced [OF e] show ?thesis using e by auto
qed


section \<open>What a NACK reports\<close>

definition missing_list :: "byte list \<Rightarrow> nat \<Rightarrow> nat list" where
  "missing_list received n = filter (\<lambda>i. received ! i = 0) [1..<n + 1]"

lemma missing_list_Suc:
  "missing_list received (Suc n) = missing_list received n @ (if received ! Suc n = 0 then [Suc n] else [])"
  by (simp add: missing_list_def)

lemma missing_list_range: "i \<in> set (missing_list received n) \<Longrightarrow> 1 \<le> i \<and> i \<le> n"
  by (auto simp: missing_list_def)

lemma sorted_missing_list: "sorted (missing_list received n)" "distinct (missing_list received n)"
  unfolding missing_list_def by (auto intro!: sorted_wrt_filter simp del: upt_Suc)

lemma scan_loop:
  assumes "n < length received"
  shows "foldM (scan_step received) (0, 0, 0) [1..<n + 1] =
    (let M = missing_list received n in
      Some (length M, if M = [] then 0 else hd M, if M = [] then 0 else last M))"
  using assms
proof (induction n)
  case 0
  then show ?case by (simp add: missing_list_def)
next
  case (Suc n)
  have "M \<noteq> [] \<Longrightarrow> M = missing_list received n \<Longrightarrow> hd M \<noteq> 0" for M
    using missing_list_range [of "hd M" received n] by auto
  then show ?case
    using Suc by (auto simp: foldM_append scan_step_def Let_def missing_list_Suc hd_append)
qed

lemma scan_missing_list:
  assumes "length received = unat pc + 1" and "pc \<noteq> 65535"
  shows "scan_missing received pc =
    (let M = missing_list received (unat pc) in
      Some (length M, if M = [] then 0 else hd M, if M = [] then 0 else last M))"
  using scan_loop [of "unat pc" received] assms by (simp add: scan_missing_def page_range_def)

lemma collect_missing_list:
  assumes "\<forall>i\<in>set is. i < length received" and "length acc < 256"
  shows "\<exists>t. collect_missing received pc acc is =
    Some (take 256 (acc @ map of_nat (filter (\<lambda>i. received ! i = 0) is)), t)"
  using assms
proof (induction "is" arbitrary: acc)
  case Nil
  then show ?case by (auto intro!: exI [of _ False])
next
  case (Cons i "is")
  show ?case
  proof (cases "received ! i = 0 \<and> 256 \<le> length (acc @ [of_nat i :: u16])")
    case True
    then have "length acc = 255" using Cons.prems(2) by simp
    then have "256 - length acc = Suc 0" by simp
    then have "take 256 (acc @ of_nat i # map of_nat (filter (\<lambda>i. received ! i = 0) is)) = acc @ [of_nat i]"
      using Cons.prems(2) by simp
    then show ?thesis using True Cons.prems(1) by (simp add: kMaxMissingPages_def Let_def)
  next
    case False
    then show ?thesis
      using Cons.IH [of "acc @ [of_nat i]"] Cons.IH [of acc] Cons.prems
      by (auto simp: kMaxMissingPages_def Let_def)
  qed
qed

text \<open>
  The pages a frame reports to the sender of the message \<open>meta\<close>, whatever objects it parses the
  frame with.
\<close>

definition frame_reports :: "chunk_meta \<Rightarrow> bytes \<Rightarrow> nat set \<Rightarrow> bool" where
  "frame_reports meta frame R \<longleftrightarrow>
     (\<forall>nk nb. if check_nb_id frame
        then \<not> check_nk_id frame \<and> (\<exists>m. nack_bitmap_deserialize nb frame = Some m \<and> nb_matches m meta \<and>
               R = {p. p < 65536 \<and> is_missing m (of_nat p)})
        else check_nk_id frame \<and> (\<exists>m. nack_deserialize nk frame = Some m \<and> nack_matches m meta \<and>
               R = unat ` set (nk_missing_pages m)))"

lemma of_nat_inj_u16: "a < 65536 \<Longrightarrow> unat (of_nat a :: u16) = a"
  by (simp add: unat_of_nat)

lemma unat_less_u16: "unat (w :: u16) < 65536"
  using unsigned_less [of w, where ?'a = nat] by simp

lemma send_nack_reports:
  assumes "length received = unat (cm_page_cnt meta) + 1" and "cm_page_cnt meta \<noteq> 65535"
    and "missing_list received (unat (cm_page_cnt meta)) \<noteq> []" (is "?M \<noteq> []")
    and "mb_msg_id (nk_base nack_msg) = kRtpsNackMsgId"
  shows "\<exists>nk b s' fs' frame. send_nack_for_missing ok junk me track meta received nack_msg (s, fs) = Some (nk, s', fs') \<and>
    send_chunk_with_retry ok s frame = (b, s') \<and> frame_reports meta frame (set (take 256 ?M)) \<and>
    mb_msg_id (nk_base nk) = kRtpsNackMsgId"
proof -
  define pages where "pages = [1..<unat (cm_page_cnt meta) + 1]"
  have pr: "page_range (cm_page_cnt meta) = Some pages" using assms(2) by (simp add: page_range_def pages_def)
  obtain t where c: "collect_missing received (cm_page_cnt meta) [] pages = Some (take 256 (map of_nat ?M), t)"
    unfolding pages_def
    using collect_missing_list [of "[1..<unat (cm_page_cnt meta) + 1]" received "[]"] assms(1)
    by (auto simp: missing_list_def simp del: upt_Suc)
  define m where "m = nack_msg\<lparr>nk_page_cnt := cm_page_cnt meta, nk_total_size := cm_total_size meta,
    nk_data_msg_id := cm_msg_id meta, nk_receiver_id := me, nk_sequence := cm_sequence meta,
    nk_missing_pages := take 256 (map of_nat ?M)\<rparr>"
  let ?frame = "wire (nk_base m) (nack_payload m)"
  have ne: "take 256 (map of_nat ?M) \<noteq> ([] :: u16 list)" using assms(3) by simp
  have ids: "check_nk_id ?frame" "\<not> check_nb_id ?frame"
    using assms(4) by (simp_all add: check_nk_id_def check_nb_id_def check_id_wire m_def
        kRtpsNackMsgId_def kRtpsNackBitmapMsgId_def)
  have "unat ` set (take 256 (map (of_nat :: nat \<Rightarrow> u16) ?M)) = set (take 256 ?M)"
  proof -
    have "\<forall>i\<in>set (take 256 ?M). unat (of_nat i :: u16) = i"
    proof
      fix i assume "i \<in> set (take 256 ?M)"
      then have "i \<le> unat (cm_page_cnt meta)" using missing_list_range set_take_subset by fast
      then show "unat (of_nat i :: u16) = i" using unat_less_u16 [of "cm_page_cnt meta"] by (intro of_nat_inj_u16) simp
    qed
    then show ?thesis by (simp add: take_map image_image)
  qed
  then have "frame_reports meta ?frame (set (take 256 ?M))"
    using ids nack_deserialize_wire [of _ m]
    by (simp add: frame_reports_def nack_matches_def m_def kMaxMissingPages_def)
  moreover obtain b s' where "send_chunk_with_retry ok s ?frame = (b, s')" by fastforce
  moreover have "\<exists>nk fs'. send_nack_for_missing ok junk me track meta received nack_msg (s, fs) =
      Some (nk, snd (send_chunk_with_retry ok s ?frame), fs') \<and> mb_msg_id (nk_base nk) = kRtpsNackMsgId"
    using assms(4) ne unfolding send_nack_for_missing_def
    by (simp add: pr c Let_def m_def [symmetric] nack_serialize_wire) (simp add: m_def)
  ultimately show ?thesis by fastforce
qed


lemma mark_loop:
  assumes "\<forall>i\<in>set is. i < length received"
  shows "foldM (mark_step received) nb is = foldM set_missing nb (map of_nat (filter (\<lambda>i. received ! i = 0) is))"
  using assms
proof (induction "is" arbitrary: nb)
  case Nil
  then show ?case by simp
next
  case (Cons i "is")
  have "foldM (mark_step received) m is = foldM set_missing m (map of_nat (filter (\<lambda>i. received ! i = 0) is))" for m
    using Cons by simp
  moreover have "mark_step received nb i = (if received ! i = 0 then set_missing nb (of_nat i) else Some nb)"
    using Cons.prems by (simp add: mark_step_def)
  ultimately show ?case by simp
qed

lemma sorted_hd_last:
  fixes xs :: "nat list"
  shows "sorted xs \<Longrightarrow> x \<in> set xs \<Longrightarrow> hd xs \<le> x \<and> x \<le> last xs"
  by (induction xs) (auto split: if_splits)

lemma missing_segment:
  assumes "missing_list received n \<noteq> []" (is "?M \<noteq> []")
  shows "filter (\<lambda>i. received ! i = 0) [hd ?M..<last ?M + 1] = ?M" "1 \<le> hd ?M" "last ?M \<le> n" "hd ?M \<le> last ?M"
proof -
  have bounds: "hd ?M \<le> i \<and> i \<le> last ?M" if "i \<in> set ?M" for i
    using sorted_hd_last [OF sorted_missing_list(1) that] .
  have r: "1 \<le> hd ?M" "hd ?M \<le> n" "last ?M \<le> n" "1 \<le> last ?M"
    using missing_list_range [of "hd ?M" received n] missing_list_range [of "last ?M" received n] assms by simp_all
  show "1 \<le> hd ?M" "last ?M \<le> n" by (fact r)+
  show le: "hd ?M \<le> last ?M" using bounds [of "last ?M"] assms by simp
  show "filter (\<lambda>i. received ! i = 0) [hd ?M..<last ?M + 1] = ?M"
  proof (rule sorted_distinct_set_unique)
    show "set (filter (\<lambda>i. received ! i = 0) [hd ?M..<last ?M + 1]) = set ?M"
      using bounds r by (force simp: missing_list_def simp del: upt_Suc)
  qed (auto intro!: sorted_wrt_filter simp: sorted_missing_list simp del: upt_Suc)
qed

lemma set_missing_header: "set_missing m p = Some m' \<Longrightarrow> \<exists>bs. m' = m\<lparr>nb_bitmap := bs\<rparr>"
  by (cases m) (auto simp: set_missing_def Let_def split: if_splits)

lemma set_missing_all_header: "foldM set_missing m ps = Some m' \<Longrightarrow> \<exists>bs. m' = m\<lparr>nb_bitmap := bs\<rparr>"
proof (induction ps arbitrary: m)
  case Nil
  then show ?case by (cases m) auto
next
  case (Cons p ps)
  then obtain m1 where "set_missing m p = Some m1" "foldM set_missing m1 ps = Some m'"
    by (auto split: bind_splits)
  with Cons.IH [of m1] set_missing_header [of m p m1] show ?case by auto
qed

text \<open>The pages of \<open>M\<close> the window of a bitmap reaches.\<close>

definition window_pages :: "nat list \<Rightarrow> nat set" where
  "window_pages M = {p \<in> set M. p < hd M + kMaxBitmapBits}"

lemma send_nack_bitmap_reports:
  assumes "length received = unat (cm_page_cnt meta) + 1" and "cm_page_cnt meta \<noteq> 65535"
    and "missing_list received (unat (cm_page_cnt meta)) \<noteq> []" (is "?M \<noteq> []")
    and "mb_msg_id (nb_base nb_msg) = kRtpsNackBitmapMsgId"
  shows "\<exists>nb b s' fs' frame. send_nack_bitmap_for_missing ok junk me track meta received nb_msg (s, fs) =
      Some (True, nb, s', fs') \<and>
    send_chunk_with_retry ok s frame = (b, s') \<and> frame_reports meta frame (window_pages ?M) \<and>
    mb_msg_id (nb_base nb) = kRtpsNackBitmapMsgId"
proof -
  let ?n = "unat (cm_page_cnt meta)"
  note seg = missing_segment [OF assms(3)]
  have scan: "scan_missing received (cm_page_cnt meta) = Some (length ?M, hd ?M, last ?M)"
    using scan_missing_list [OF assms(1,2)] assms(3) by (simp add: Let_def)
  define nb1 where "nb1 = nb_msg\<lparr>nb_page_cnt := cm_page_cnt meta, nb_total_size := cm_total_size meta,
    nb_data_msg_id := cm_msg_id meta, nb_receiver_id := me, nb_sequence := cm_sequence meta\<rparr>"
  define nb2 where "nb2 = reset_window nb1 (of_nat (hd ?M)) (last ?M - hd ?M + 1)"
  have n: "?n < 65536" by (rule unat_less_u16)
  have small: "i < 65536" if "i \<in> set ?M" for i using missing_list_range [OF that] n by simp
  have "\<forall>i\<in>set [hd ?M..<last ?M + 1]. i < length received" using seg assms(1) by simp
  from mark_loop [OF this, of nb2]
  have mark: "foldM (mark_step received) nb2 [hd ?M..<last ?M + 1] = foldM set_missing nb2 (map of_nat ?M)"
    unfolding seg(1) .
  from set_missing_all [OF reset_window_wf, of nb1 "of_nat (hd ?M)" "last ?M - hd ?M + 1" "map of_nat ?M"]
  obtain m where m: "foldM set_missing nb2 (map of_nat ?M) = Some m" "bitmap_wf m"
    "\<forall>q. is_missing m q \<longleftrightarrow> q \<in> set (map of_nat ?M) \<and> in_window nb2 q"
    using reset_window_clear [of nb1 "of_nat (hd ?M)" "last ?M - hd ?M + 1"] unfolding nb2_def by auto
  obtain bs where hdr: "m = nb2\<lparr>nb_bitmap := bs\<rparr>" using set_missing_all_header [OF m(1)] by blast
  have head: "hd ?M < 65536" using small assms(3) by simp
  have win: "p < 65536 \<and> is_missing m (of_nat p) \<longleftrightarrow> p \<in> window_pages ?M" for p
  proof (cases "p < 65536")
    case True
    then have p: "unat (of_nat p :: u16) = p" by (simp add: of_nat_inj_u16)
    have "(of_nat p :: u16) \<in> set (map of_nat ?M) \<longleftrightarrow> p \<in> set ?M"
      using p small of_nat_inj_u16 by (auto simp del: of_nat_eq_iff)
    moreover have "in_window nb2 (of_nat p) \<longleftrightarrow> p < hd ?M + kMaxBitmapBits" if "p \<in> set ?M"
    proof -
      have "hd ?M \<le> p" "p \<le> last ?M" using sorted_hd_last [OF sorted_missing_list(1) that] by simp_all
      then show ?thesis
        using p of_nat_inj_u16 [OF head] by (auto simp: in_window_def nb2_def reset_window_def Let_def bit_cnt_bound word_le_nat_alt)
    qed
    ultimately show ?thesis using m(3) True by (auto simp: window_pages_def)
  next
    case False
    then show ?thesis using small by (auto simp: window_pages_def)
  qed
  let ?frame = "wire (nb_base m) (nb_payload m)"
  have ids: "check_nb_id ?frame" "\<not> check_nk_id ?frame"
    using assms(4) by (simp_all add: check_nk_id_def check_nb_id_def check_id_wire hdr nb2_def nb1_def reset_window_def
        Let_def kRtpsNackMsgId_def kRtpsNackBitmapMsgId_def)
  have "frame_reports meta ?frame (window_pages ?M)"
  proof -
    have "\<exists>m3. nack_bitmap_deserialize nb ?frame = Some m3 \<and> nb_matches m3 meta \<and> (\<forall>q. is_missing m3 q = is_missing m q)" for nb
      using nack_bitmap_reports [OF m(2), of "\<lambda>i. 0" nb] unfolding nack_bitmap_serialize_wire
      by (auto simp: nb_matches_def hdr nb2_def nb1_def reset_window_def Let_def)
    then show ?thesis using ids win unfolding frame_reports_def by (simp add: set_eq_iff) metis
  qed
  moreover obtain b s' where "send_chunk_with_retry ok s ?frame = (b, s')" by fastforce
  moreover have "\<exists>nb fs'. send_nack_bitmap_for_missing ok junk me track meta received nb_msg (s, fs) =
      Some (True, nb, snd (send_chunk_with_retry ok s ?frame), fs') \<and> mb_msg_id (nb_base nb) = kRtpsNackBitmapMsgId"
  proof -
    have "foldM (mark_step received) nb2 [hd ?M..<Suc (last ?M)] = Some m" using mark m(1) by simp
    moreover have id: "mb_msg_id (nb_base m) = kRtpsNackBitmapMsgId"
      using assms(4) by (simp add: hdr nb2_def nb1_def reset_window_def Let_def)
    moreover have "reset_window nb1 (of_nat (hd ?M)) (Suc (last ?M - hd ?M)) = nb2" by (simp add: nb2_def)
    ultimately show ?thesis
      using seg(2) unfolding send_nack_bitmap_for_missing_def
      by (simp add: scan Let_def nb1_def [symmetric] nack_bitmap_serialize_wire id del: upt_Suc)
  qed
  ultimately show ?thesis by fastforce
qed

lemma cover_loop:
  assumes "\<forall>i\<in>set is. i < length received"
  shows "foldM (cover_step received) k is = Some (k + length (filter (\<lambda>i. received ! i = 0) is))"
  using assms
proof (induction "is" arbitrary: k)
  case Nil
  then show ?case by simp
next
  case (Cons i "is")
  then have "foldM (cover_step received) j is = Some (j + length (filter (\<lambda>i. received ! i = 0) is))" for j by simp
  moreover have "cover_step received k i = Some (if received ! i = 0 then k + 1 else k)"
    using Cons.prems by (simp add: cover_step_def)
  ultimately show ?case by simp
qed

lemma window_cover:
  assumes "missing_list received n \<noteq> []" (is "?M \<noteq> []")
  shows "length (filter (\<lambda>i. received ! i = 0) [hd ?M..<min (hd ?M + kMaxBitmapBits) (n + 1)]) = card (window_pages ?M)"
proof -
  let ?L = "filter (\<lambda>i. received ! i = 0) [hd ?M..<min (hd ?M + kMaxBitmapBits) (n + 1)]"
  note seg = missing_segment [OF assms]
  have "set ?L = window_pages ?M"
    using seg(2) sorted_hd_last [OF sorted_missing_list(1) [of received n]]
    by (force simp: window_pages_def missing_list_def simp del: upt_Suc)
  then show ?thesis by (metis distinct_card distinct_filter distinct_upt)
qed

lemma window_pages_all: "last M < hd M + kMaxBitmapBits \<Longrightarrow> sorted M \<Longrightarrow> window_pages M = set M"
  using sorted_hd_last by (fastforce simp: window_pages_def)

lemma send_nack_auto_facts:
  assumes "length received = unat (cm_page_cnt meta) + 1" and "cm_page_cnt meta \<noteq> 65535"
    and "M = missing_list received (unat (cm_page_cnt meta))" and "M \<noteq> []"
    and "mb_msg_id (nk_base nack_msg) = kRtpsNackMsgId" and "mb_msg_id (nb_base nb_msg) = kRtpsNackBitmapMsgId"
  shows "\<exists>nk nb b s' fs' frame R.
    send_nack_auto ok junk me track meta received nack_msg nb_msg bitmap_ok (s, fs) = Some (nk, nb, s', fs') \<and>
    send_chunk_with_retry ok s frame = (b, s') \<and> frame_reports meta frame R \<and>
    R \<subseteq> set M \<and> hd M \<in> R \<and> min (length M) 256 \<le> card R \<and>
    (length M \<le> 256 \<or> bitmap_ok \<and> last M < hd M + kMaxBitmapBits \<longrightarrow> R = set M) \<and>
    mb_msg_id (nk_base nk) = kRtpsNackMsgId \<and> mb_msg_id (nb_base nb) = kRtpsNackBitmapMsgId"
proof -
  let ?n = "unat (cm_page_cnt meta)"
  note M = assms(3)
  have d: "distinct M" "sorted M" unfolding M by (fact sorted_missing_list)+
  obtain nk b1 s1 fs1 frame1 where list:
    "send_nack_for_missing ok junk me track meta received nack_msg (s, fs) = Some (nk, s1, fs1)"
    "send_chunk_with_retry ok s frame1 = (b1, s1)" "frame_reports meta frame1 (set (take 256 M))" "mb_msg_id (nk_base nk) = kRtpsNackMsgId"
    using send_nack_reports [OF assms(1,2) _ assms(5), of ok junk me track s fs] assms(4) unfolding M by blast
  obtain nb b2 s2 fs2 frame2 where bmap:
    "send_nack_bitmap_for_missing ok junk me track meta received nb_msg (s, fs) = Some (True, nb, s2, fs2)"
    "send_chunk_with_retry ok s frame2 = (b2, s2)" "frame_reports meta frame2 (window_pages M)" "mb_msg_id (nb_base nb) = kRtpsNackBitmapMsgId"
    using send_nack_bitmap_reports [OF assms(1,2) _ assms(6), of ok junk me track s fs] assms(4) unfolding M by blast
  have list_props: "set (take 256 M) \<subseteq> set M" "hd M \<in> set (take 256 M)" "card (set (take 256 M)) = min (length M) 256"
    "length M \<le> 256 \<Longrightarrow> set (take 256 M) = set M"
    using assms(4) d by (auto simp: distinct_card hd_conv_nth in_set_conv_nth dest: in_set_takeD intro!: exI [of _ 0])
  have win_props: "window_pages M \<subseteq> set M" "hd M \<in> window_pages M"
    using assms(4) by (auto simp: window_pages_def bitmap_bounds)
  have len: "card (set M) = length M" by (rule distinct_card [OF d(1)])
  have scan: "scan_missing received (cm_page_cnt meta) = Some (length M, hd M, last M)"
    using scan_missing_list [OF assms(1,2)] assms(4) unfolding M by (simp add: Let_def)
  define cov where "cov = (if kMaxBitmapBits < last M - hd M + 1 then card (window_pages M) else length M)"
  have hl: "hd M \<le> last M" using missing_segment(4) assms(4) unfolding M by blast
  have win_all: "window_pages M = set M" if "\<not> kMaxBitmapBits < last M - hd M + 1"
    using that hl by (intro window_pages_all [OF _ d(2)]) linarith
  have cover: "(if kMaxBitmapBits < last M - hd M + 1
      then foldM (cover_step received) 0 [hd M..<min (hd M + min (last M - hd M + 1) kMaxBitmapBits) (?n + 1)]
      else Some (length M)) = Some cov"
    using cover_loop [of "[hd M..<min (hd M + kMaxBitmapBits) (?n + 1)]" received 0]
      window_cover [of received ?n] assms(1,4) by (simp add: cov_def M del: upt_Suc)
  have cov_le: "cov \<le> length M"
    using card_mono [OF _ win_props(1)] len by (simp add: cov_def)
  have cov_card: "cov = card (window_pages M)" using win_all len by (simp add: cov_def)
  define use where "use = (min (length M) kMaxMissingPages < cov \<or> cov = min (length M) kMaxMissingPages \<and>
      (min (last M - hd M + 1) kMaxBitmapBits + 7) div 8 < min (length M) kMaxMissingPages * 2)"
  have eq: "send_nack_auto ok junk me track meta received nack_msg nb_msg bitmap_ok (s, fs) =
      (if bitmap_ok \<and> use then Some (nack_msg, nb, s2, fs2) else Some (nk, nb_msg, s1, fs1))"
  proof (cases bitmap_ok)
    case True
    have "length M \<noteq> 0" using assms(4) by simp
    then have "send_nack_auto ok junk me track meta received nack_msg nb_msg bitmap_ok (s, fs) =
      (if use then do { (sent, nb, sf) \<leftarrow> send_nack_bitmap_for_missing ok junk me track meta received nb_msg (s, fs);
           if sent then Some (nack_msg, nb, sf)
           else do { (nk, s, fs) \<leftarrow> send_nack_for_missing ok junk me track meta received nack_msg sf; Some (nk, nb, s, fs) } }
       else do { (nk, s, fs) \<leftarrow> send_nack_for_missing ok junk me track meta received nack_msg (s, fs); Some (nk, nb_msg, s, fs) })"
      using True unfolding use_def
      by (simp only: send_nack_auto_def Let_def scan cover Option.bind.simps prod.case not_True_eq_False if_False)
    then show ?thesis using True bmap(1) list(1) by simp
  next
    case False
    then show ?thesis using list(1) by (simp add: send_nack_auto_def Let_def)
  qed
  show ?thesis
  proof (cases "bitmap_ok \<and> (min (length M) kMaxMissingPages < cov \<or> cov = min (length M) kMaxMissingPages \<and>
      (min (last M - hd M + 1) kMaxBitmapBits + 7) div 8 < min (length M) kMaxMissingPages * 2)")
    case True
    have "window_pages M = set M" if "length M \<le> 256"
    proof -
      have "card (window_pages M) = card (set M)"
        using True that cov_le unfolding cov_card len kMaxMissingPages_def by auto
      then show ?thesis using win_props(1) by (intro card_subset_eq) auto
    qed
    moreover have "window_pages M = set M" if "last M < hd M + kMaxBitmapBits" using that d(2) by (rule window_pages_all)
    moreover have "min (length M) 256 \<le> card (window_pages M)"
      using True unfolding cov_card kMaxMissingPages_def by auto
    moreover have "send_nack_auto ok junk me track meta received nack_msg nb_msg bitmap_ok (s, fs) =
        Some (nack_msg, nb, s2, fs2)"
      using True unfolding eq use_def by (simp only: if_True simp_thms)
    ultimately show ?thesis using bmap(2-4) win_props assms(5) by blast
  next
    case False
    have eq1: "send_nack_auto ok junk me track meta received nack_msg nb_msg bitmap_ok (s, fs) =
        Some (nk, nb_msg, s1, fs1)"
      using False unfolding eq use_def by (simp only: if_False)
    have "set (take 256 M) = set M" if "bitmap_ok" "last M < hd M + kMaxBitmapBits"
    proof -
      have "\<not> kMaxBitmapBits < last M - hd M + 1" using that hl by linarith
      then have "cov = length M" unfolding cov_def by (simp only: if_False)
      then have "length M \<le> 256" using False that(1) by (auto simp: kMaxMissingPages_def)
      then show ?thesis by (rule list_props(4))
    qed
    then show ?thesis using eq1 list(2-4) list_props assms(6) by (metis order_refl)
  qed
qed


text \<open>
  The choice of the encoding loses nothing it could report. When pages are missing, one
  frame is sent; the sender that parses it, whatever frames it parsed before, takes it for this
  message and learns only pages that are missing, among them the first one and at least 256 if
  so many are missing; and it learns all of them when there are at most 256, or when the sender
  understands bitmaps and they lie within one window.
\<close>

theorem send_nack_auto_reports:
  assumes "length received = unat (cm_page_cnt meta) + 1" and "cm_page_cnt meta \<noteq> 65535"
    and "M = missing_list received (unat (cm_page_cnt meta))" and "M \<noteq> []"
    and "mb_msg_id (nk_base nack_msg) = kRtpsNackMsgId" and "mb_msg_id (nb_base nb_msg) = kRtpsNackBitmapMsgId"
  shows "\<exists>nk nb b s' fs' frame R.
    send_nack_auto ok junk me track meta received nack_msg nb_msg bitmap_ok (s, fs) = Some (nk, nb, s', fs') \<and>
    send_chunk_with_retry ok s frame = (b, s') \<and> frame_reports meta frame R \<and>
    R \<subseteq> set M \<and> hd M \<in> R \<and> min (length M) 256 \<le> card R \<and>
    (length M \<le> 256 \<or> bitmap_ok \<and> last M < hd M + kMaxBitmapBits \<longrightarrow> R = set M)"
  using send_nack_auto_facts [OF assms, of ok junk me track bitmap_ok s fs] by blast

theorem send_nack_auto_reports_witness:
  "\<exists>nk nb b s' fs' frame R.
    send_nack_auto (\<lambda>k. True) (\<lambda>k. 0) 9 False \<lparr>cm_page_cnt = 4, cm_total_size = 5000, cm_msg_id = 3, cm_sequence = 1\<rparr>
      [0, 1, 0, 1, 0] IpcRtpsNackMsg IpcRtpsNackBitmapMsg True (\<lparr>sk_calls = 0, sk_out = []\<rparr>, frag_track_init) = Some (nk, nb, s', fs') \<and>
    send_chunk_with_retry (\<lambda>k. True) \<lparr>sk_calls = 0, sk_out = []\<rparr> frame = (b, s') \<and>
    frame_reports \<lparr>cm_page_cnt = 4, cm_total_size = 5000, cm_msg_id = 3, cm_sequence = 1\<rparr> frame R \<and> R = {2, 4}"
proof -
  let ?meta = "\<lparr>cm_page_cnt = 4, cm_total_size = 5000, cm_msg_id = 3, cm_sequence = 1\<rparr>"
  have M: "[2, 4] = missing_list [0, 1, 0, 1, 0] (unat (cm_page_cnt ?meta))"
    by code_simp
  have len: "length [0 :: byte, 1, 0, 1, 0] = unat (cm_page_cnt ?meta) + 1" "cm_page_cnt ?meta \<noteq> 65535" by simp_all
  have ids: "mb_msg_id (nk_base IpcRtpsNackMsg) = kRtpsNackMsgId" "mb_msg_id (nb_base IpcRtpsNackBitmapMsg) = kRtpsNackBitmapMsgId"
    by (simp_all add: IpcRtpsNackMsg_def IpcRtpsNackBitmapMsg_def msg_base_init_def)
  obtain nk nb b s' fs' frame R where
    "send_nack_auto (\<lambda>k. True) (\<lambda>k. 0) 9 False ?meta [0, 1, 0, 1, 0] IpcRtpsNackMsg IpcRtpsNackBitmapMsg True
      (\<lparr>sk_calls = 0, sk_out = []\<rparr>, frag_track_init) = Some (nk, nb, s', fs')"
    "send_chunk_with_retry (\<lambda>k. True) \<lparr>sk_calls = 0, sk_out = []\<rparr> frame = (b, s')" "frame_reports ?meta frame R"
    "length [2 :: nat, 4] \<le> 256 \<longrightarrow> R = set [2, 4]"
    using send_nack_auto_reports [OF len M _ ids, of "\<lambda>k. True" "\<lambda>k. 0" 9 False True "\<lparr>sk_calls = 0, sk_out = []\<rparr>" frag_track_init]
    by blast
  moreover have "R = {2, 4}" using calculation(4) by simp
  ultimately show ?thesis by blast
qed

end
