(* ===== verification/Checksums.thy ===== *)
theory Checksums
  imports Prelude
begin

text \<open>
  CRC-32C over message payloads (\<open>src/dzIPC/common/crc32c.cc\<close>): the table-driven and the
  hardware path, shown equal to the bitwise definition, and the errors the sum detects.
\<close>

section \<open>CRC-32C\<close>

definition kCrc32cPolynomial :: u32 where "kCrc32cPolynomial = 0x82F63B78"

text \<open>One turn of the inner loop of \<open>make_table\<close>.\<close>

definition crc_bit :: "u32 \<Rightarrow> u32" where
  "crc_bit crc = drop_bit 1 crc XOR (if crc AND 1 = 0 then 0 else kCrc32cPolynomial)"

definition make_table :: "u32 list" where
  "make_table = map (\<lambda>i. (crc_bit ^^ 8) (of_nat i)) [0..<256]"

definition crc_sw_byte :: "u32 \<Rightarrow> byte \<Rightarrow> u32" where
  "crc_sw_byte crc b = drop_bit 8 crc XOR make_table ! unat ((crc XOR ucast b) AND 0xFF)"

definition crc32c_sw :: "bytes \<Rightarrow> u32" where
  "crc32c_sw data = NOT (foldl crc_sw_byte 0xFFFFFFFF data)"

text \<open>
  The hardware path, over the instructions \<open>_mm_crc32_u8\<close> and \<open>_mm_crc32_u64\<close> as parameters:
  eight bytes at a time while they last, then single bytes.
\<close>

function crc32c_hw_loop :: "(u32 \<Rightarrow> byte \<Rightarrow> u32) \<Rightarrow> (u32 \<Rightarrow> u64 \<Rightarrow> u64) \<Rightarrow> u32 \<Rightarrow> bytes \<Rightarrow> u32" where
  "crc32c_hw_loop u8 u64 crc data =
     (if 8 \<le> length data
      then crc32c_hw_loop u8 u64 (ucast (u64 crc (of_le (take 8 data)))) (drop 8 data)
      else foldl u8 crc data)"
  by pat_completeness auto
termination by (relation "measure (\<lambda>(u8, u64, crc, data). length data)") auto

declare crc32c_hw_loop.simps [simp del]


definition crc32c_hw :: "(u32 \<Rightarrow> byte \<Rightarrow> u32) \<Rightarrow> (u32 \<Rightarrow> u64 \<Rightarrow> u64) \<Rightarrow> bytes \<Rightarrow> u32" where
  "crc32c_hw u8 u64 data = NOT (crc32c_hw_loop u8 u64 0xFFFFFFFF data)"

text \<open>The entry point: a null pointer with a size gives 0; the path is chosen once per process.\<close>

definition crc32c ::
  "bool \<Rightarrow> (u32 \<Rightarrow> byte \<Rightarrow> u32) \<Rightarrow> (u32 \<Rightarrow> u64 \<Rightarrow> u64) \<Rightarrow> bytes option \<Rightarrow> nat \<Rightarrow> u32" where
  "crc32c has_sse42 u8 u64 data n =
     (case data of
        None \<Rightarrow> if n \<noteq> 0 then 0 else if has_sse42 then crc32c_hw u8 u64 [] else crc32c_sw []
      | Some d \<Rightarrow> if has_sse42 then crc32c_hw u8 u64 (take n d) else crc32c_sw (take n d))"

subsection \<open>The bitwise definition\<close>

definition crc_byte :: "u32 \<Rightarrow> byte \<Rightarrow> u32" where
  "crc_byte crc b = (crc_bit ^^ 8) (crc XOR ucast b)"

subsection \<open>The instructions\<close>

text \<open>
  The two instructions as the manual of the processor documents them, without reference to the program: source and
  register are reflected, the source is shifted left by 32 and the register by the width of the source, and the
  reflected remainder modulo 2 by the polynomial \<open>11EDC6F41H\<close> is the new register. Dividends are lists of
  bits, the highest first, so that the reflected source begins with its bit 0.
\<close>

definition dividend :: "u32 \<Rightarrow> bool list \<Rightarrow> bool list" where
  "dividend crc src = map (\<lambda>j. (j < length src \<and> src ! j) \<noteq> (j < 32 \<and> bit crc j)) [0..<length src + 32]"

text \<open>One step of the division: the highest bit is cleared by the polynomial, whose own highest bit is \<open>x ^ 32\<close>.\<close>

definition divide_step :: "bool list \<Rightarrow> bool list" where
  "divide_step xs = map (\<lambda>j. xs ! Suc j \<noteq> (xs ! 0 \<and> j < 32 \<and> bit (0x1EDC6F41 :: u32) (31 - j))) [0..<length xs - 1]"

definition crc32_insn :: "u32 \<Rightarrow> bool list \<Rightarrow> u32" where
  "crc32_insn crc src = horner_sum of_bool 2 ((divide_step ^^ length src) (dividend crc src))"

definition crc32_insn_ok :: "(u32 \<Rightarrow> byte \<Rightarrow> u32) \<Rightarrow> (u32 \<Rightarrow> u64 \<Rightarrow> u64) \<Rightarrow> bool" where
  "crc32_insn_ok u8 u64 \<longleftrightarrow>
     (\<forall>c b. u8 c b = crc32_insn c (map (bit b) [0..<8])) \<and>
     (\<forall>c w. u64 c w = ucast (crc32_insn c (map (bit w) [0..<64])))"

lemma crc_bit_bit: "crc_bit x = drop_bit 1 x XOR (if bit x 0 then kCrc32cPolynomial else 0)"
  by (simp add: crc_bit_def bit_0 even_iff_mod_2_eq_zero and_one_eq)

lemma crc_bit_xor: "crc_bit (x XOR y) = crc_bit x XOR crc_bit y"
  unfolding crc_bit_bit
  by (rule bit_word_eqI) (auto simp: bit_xor_iff bit_drop_bit_eq)

lemma crc_bits_xor: "(crc_bit ^^ n) (x XOR y) = (crc_bit ^^ n) x XOR (crc_bit ^^ n) y"
  by (induction n arbitrary: x y) (simp_all add: crc_bit_xor del: funpow.simps add: funpow_Suc_right funpow_0)

lemma crc_bit_inj: "crc_bit x = crc_bit y \<Longrightarrow> x = y"
proof (rule bit_word_eqI)
  fix k assume e: "crc_bit x = crc_bit y" and k: "k < LENGTH(32)"
  have top: "bit (crc_bit z) 31 = bit z 0" for z
    using bit_imp_le_length [of z 32] unfolding crc_bit_bit
    by (auto simp add: bit_xor_iff bit_drop_bit_eq kCrc32cPolynomial_def)
  have undo: "drop_bit 1 z = crc_bit z XOR (if bit z 0 then kCrc32cPolynomial else 0)" for z
    unfolding crc_bit_bit by (simp add: xor.assoc)
  have b0: "bit x 0 = bit y 0" using top [of x] top [of y] e by simp
  then have d: "drop_bit 1 x = drop_bit 1 y"
    using undo [of x] undo [of y] e by simp
  show "bit x k = bit y k"
  proof (cases k)
    case 0
    then show ?thesis using b0 by simp
  next
    case (Suc j)
    then show ?thesis using arg_cong [OF d, of "\<lambda>z. bit z j"] by (simp add: bit_drop_bit_eq)
  qed
qed

lemma crc_bits_inj: "(crc_bit ^^ n) x = (crc_bit ^^ n) y \<Longrightarrow> x = y"
  by (induction n) (auto dest: crc_bit_inj)

text \<open>Low zero bits are shifted out without a reduction.\<close>

lemma crc_bits_push:
  "n \<le> 32 \<Longrightarrow> (\<And>i. 32 - n \<le> i \<Longrightarrow> \<not> bit y i) \<Longrightarrow> (crc_bit ^^ n) (push_bit n y) = y"
proof (induction n)
  case 0
  then show ?case by simp
next
  case (Suc n)
  have "crc_bit (push_bit (Suc n) y) = push_bit n y"
  proof (rule bit_word_eqI)
    fix i assume i: "i < LENGTH(32)"
    have "i = 31 \<Longrightarrow> \<not> bit y (i - n)" using Suc.prems by simp
    then show "bit (crc_bit (push_bit (Suc n) y)) i = bit (push_bit n y) i"
      using i unfolding crc_bit_bit
      by (cases "i = 31") (auto simp: bit_xor_iff bit_drop_bit_eq bit_push_bit_iff bit_0 simp del: push_bit_Suc)
  qed
  then have "(crc_bit ^^ Suc n) (push_bit (Suc n) y) = (crc_bit ^^ n) (push_bit n y)"
    by (simp add: funpow_Suc_right del: funpow.simps)
  also have "\<dots> = y" using Suc by simp
  finally show ?case .
qed


lemma split_low_byte:
  fixes c :: u32 and b :: byte
  shows "c XOR ucast b = push_bit 8 (drop_bit 8 c) XOR ((c XOR ucast b) AND 0xFF)" (is "?l = ?r")
proof (rule bit_word_eqI)
  fix k assume k: "k < LENGTH(32)"
  have m: "bit (0xFF :: u32) k \<longleftrightarrow> k < 8"
    using bit_mask_iff [of 8 k, where 'a = "32 word"] k by (simp add: mask_eq_exp_minus_1 possible_bit_def)
  have u: "bit b k \<Longrightarrow> k < 8" using bit_imp_le_length [of b k] by simp
  show "bit ?l k = bit ?r k"
    using k m u
    by (cases "k < 8") (auto simp: bit_xor_iff bit_and_iff bit_push_bit_iff bit_drop_bit_eq bit_ucast_iff)
qed

lemma low_byte_less: "unat (x AND 0xFF :: u32) < 256"
proof -
  have "x AND 0xFF \<le> (0xFF :: u32)" by (rule word_and_le1)
  then show ?thesis by (simp add: word_le_nat_alt)
qed

lemma drop_bit_high: "32 - n \<le> i \<Longrightarrow> \<not> bit (drop_bit n c) i" for c :: u32
  using bit_imp_le_length [of c "n + i"] by (auto simp: bit_drop_bit_eq)

text \<open>A table step is eight bit steps.\<close>

lemma crc_sw_byte_eq: "crc_sw_byte c b = crc_byte c b"
proof -
  let ?x = "(c XOR ucast b) AND 0xFF"
  have "crc_byte c b = (crc_bit ^^ 8) (push_bit 8 (drop_bit 8 c) XOR ?x)"
    unfolding crc_byte_def by (subst split_low_byte) (rule refl)
  also have "\<dots> = drop_bit 8 c XOR (crc_bit ^^ 8) ?x"
    by (simp only: crc_bits_xor crc_bits_push [OF _ drop_bit_high])
  also have "(crc_bit ^^ 8) ?x = make_table ! unat ?x"
    using low_byte_less [of "c XOR ucast b"] by (simp add: make_table_def)
  finally show ?thesis by (simp add: crc_sw_byte_def)
qed

lemma crc32c_sw_eq: "crc32c_sw data = NOT (foldl crc_byte 0xFFFFFFFF data)"
proof -
  have "crc_sw_byte = crc_byte" by (intro ext) (rule crc_sw_byte_eq)
  then show ?thesis by (simp add: crc32c_sw_def)
qed

lemma le_bytes_of_le: "length bs = n \<Longrightarrow> LENGTH('a::len) = 8 * n \<Longrightarrow> le_bytes n (of_le bs :: 'a word) = bs"
proof (rule nth_equalityI)
  fix i assume h: "length bs = n" "LENGTH('a) = 8 * n" "i < length (le_bytes n (of_le bs :: 'a word))"
  show "le_bytes n (of_le bs :: 'a word) ! i = bs ! i"
  proof (rule bit_word_eqI)
    fix k assume "k < LENGTH(8)"
    with h show "bit (le_bytes n (of_le bs :: 'a word) ! i) k = bit (bs ! i) k"
      by (simp add: le_bytes_def bit_ucast_iff bit_drop_bit_eq bit_of_le)
  qed
qed simp

lemma ucast_up_down: "(ucast (ucast x :: u64) :: u32) = x"
  by (rule bit_word_eqI) (simp add: bit_ucast_iff)

subsection \<open>The division is the shift register\<close>

lemma reflected_polynomial: "j < 32 \<Longrightarrow> bit (0x1EDC6F41 :: u32) (31 - j) = bit kCrc32cPolynomial j"
proof -
  have "list_all (\<lambda>j. bit (0x1EDC6F41 :: u32) (31 - j) = bit (0x82F63B78 :: u32) j) [0..<32]" by code_simp
  then show "j < 32 \<Longrightarrow> bit (0x1EDC6F41 :: u32) (31 - j) = bit kCrc32cPolynomial j"
    unfolding kCrc32cPolynomial_def list_all_iff set_upt by (auto simp only: Ball_def atLeastLessThan_iff)
qed

lemma divide_step_dividend: "divide_step (dividend c (d # ds)) = dividend (crc_bit (c XOR of_bool d)) ds"
proof (rule nth_equalityI)
  fix j assume j: "j < length (divide_step (dividend c (d # ds)))"
  have low: "bit (c XOR of_bool d) 0 = (bit c 0 \<noteq> d)" by (simp only: bit_xor_iff bit_of_bool_iff) simp
  have high: "bit (c XOR of_bool d) (Suc k) = bit c (Suc k)" for k by (simp add: bit_xor_iff bit_of_bool_iff)
  have top: "k \<ge> 32 \<Longrightarrow> \<not> bit c k" for k using bit_imp_le_length [of c k] by auto
  have "bit (crc_bit (c XOR of_bool d)) j = (bit c (Suc j) \<noteq> ((bit c 0 \<noteq> d) \<and> bit kCrc32cPolynomial j))"
    unfolding crc_bit_bit low by (auto simp: bit_xor_iff bit_drop_bit_eq high)
  then show "divide_step (dividend c (d # ds)) ! j = dividend (crc_bit (c XOR of_bool d)) ds ! j"
    using j reflected_polynomial [of j] top [of "Suc j"] by (auto simp: divide_step_def dividend_def)
qed (simp add: divide_step_def dividend_def)

lemma divide_all: "(divide_step ^^ length bs) (dividend c bs) = map (bit (foldl (\<lambda>c d. crc_bit (c XOR of_bool d)) c bs)) [0..<32]"
proof (induction bs arbitrary: c)
  case Nil
  then show ?case by (simp add: dividend_def)
next
  case (Cons d ds)
  then show ?case by (simp add: funpow_Suc_right divide_step_dividend del: funpow.simps)
qed

lemma crc32_insn_fold: "crc32_insn c bs = foldl (\<lambda>c d. crc_bit (c XOR of_bool d)) c bs"
proof -
  have "horner_sum of_bool 2 (map (bit w) [0..<32]) = w" for w :: u32
    by (rule bit_word_eqI) (simp add: bit_horner_sum_bit_word_iff)
  then show ?thesis by (simp add: crc32_insn_def divide_all)
qed

text \<open>Bits that come in one after the other, or all at once.\<close>

lemma crc_bits_fold:
  "length bs \<le> 32 \<Longrightarrow> foldl (\<lambda>c d. crc_bit (c XOR of_bool d)) c bs = (crc_bit ^^ length bs) (c XOR horner_sum of_bool 2 bs)"
proof (induction bs arbitrary: c)
  case Nil
  then show ?case by simp
next
  case (Cons d ds)
  let ?h = "horner_sum of_bool 2 ds :: u32"
  have split: "horner_sum of_bool 2 (d # ds) = of_bool d XOR push_bit 1 ?h"
  proof (rule bit_word_eqI)
    fix k assume "k < LENGTH(32)"
    then show "bit (horner_sum of_bool 2 (d # ds) :: u32) k = bit (of_bool d XOR push_bit 1 ?h) k"
      unfolding bit_horner_sum_bit_word_iff bit_xor_iff bit_push_bit_iff bit_of_bool_iff by (cases k) auto
  qed
  have push: "crc_bit (push_bit 1 ?h) = ?h"
    using crc_bits_push [of 1 ?h] Cons.prems by (simp add: bit_horner_sum_bit_word_iff)
  have "foldl (\<lambda>c d. crc_bit (c XOR of_bool d)) c (d # ds) = (crc_bit ^^ length ds) (crc_bit (c XOR of_bool d) XOR ?h)"
    using Cons by simp
  also have "crc_bit (c XOR of_bool d) XOR ?h = crc_bit (c XOR horner_sum of_bool 2 (d # ds))"
    unfolding split by (simp only: crc_bit_xor push xor.assoc)
  finally show ?case by (simp add: funpow_Suc_right del: funpow.simps)
qed

lemma crc32_insn_byte: "crc32_insn c (map (bit b) [0..<8]) = crc_byte c b" for b :: byte
proof -
  have "horner_sum of_bool 2 (map (bit b) [0..<8]) = (ucast b :: u32)"
  proof (rule bit_word_eqI)
    fix k assume "k < LENGTH(32)"
    then show "bit (horner_sum of_bool 2 (map (bit b) [0..<8]) :: u32) k = bit (ucast b :: u32) k"
      using bit_imp_le_length [of b k] by (auto simp: bit_horner_sum_bit_word_iff bit_ucast_iff)
  qed
  then show ?thesis by (simp add: crc32_insn_fold crc_bits_fold crc_byte_def del: upt_rec_numeral)
qed

lemma crc32_insn_append: "crc32_insn c (xs @ ys) = crc32_insn (crc32_insn c xs) ys"
  by (simp add: crc32_insn_fold)

lemma crc32_insn_bytes: "crc32_insn c (concat (map (\<lambda>b. map (bit b) [0..<8]) bs)) = foldl crc_byte c bs" for bs :: bytes
proof (induction bs arbitrary: c)
  case Nil
  then show ?case by (simp add: crc32_insn_fold)
next
  case (Cons b bs)
  then show ?case by (simp only: list.map concat.simps crc32_insn_append crc32_insn_byte foldl.simps)
qed

lemma word_bits: "map (bit w) [0..<64] = concat (map (\<lambda>b. map (bit b) [0..<8]) (le_bytes 8 w))" for w :: u64
proof -
  have "[0..<64] = concat (map (\<lambda>i. map (\<lambda>j. 8 * i + j) [0..<8]) [0..<8])" by code_simp
  then have "map (bit w) [0..<64] = concat (map (\<lambda>i. map (\<lambda>j. bit w (8 * i + j)) [0..<8]) [0..<8])"
    by (simp only: map_concat map_map comp_def)
  also have "\<dots> = concat (map (\<lambda>i. map (bit (ucast (drop_bit (8 * i) w) :: byte)) [0..<8]) [0..<8])"
    by (intro arg_cong [of _ _ concat] map_cong refl) (simp add: bit_ucast_iff bit_drop_bit_eq)
  finally show ?thesis by (simp only: le_bytes_def map_map comp_def)
qed

lemma crc32_insn_okD:
  assumes "crc32_insn_ok u8 u64"
  shows "u8 = crc_byte" and "u64 c w = ucast (foldl crc_byte c (le_bytes 8 w))"
  using assms by (auto simp: crc32_insn_ok_def fun_eq_iff crc32_insn_byte word_bits crc32_insn_bytes)

lemma crc32c_hw_loop_eq:
  "crc32_insn_ok f8 f64 \<Longrightarrow> crc32c_hw_loop f8 f64 c data = foldl crc_byte c data"
proof (induction f8 f64 c data rule: crc32c_hw_loop.induct)
  case (1 f8 f64 c data)
  have f: "f8 = crc_byte" "\<And>c w. f64 c w = ucast (foldl crc_byte c (le_bytes 8 w))"
    using crc32_insn_okD [OF "1.prems"] by auto
  show ?case
  proof (cases "8 \<le> length data")
    case True
    then have "le_bytes 8 (of_le (take 8 data) :: u64) = take 8 data"
      by (intro le_bytes_of_le) simp_all
    then have "(ucast (f64 c (of_le (take 8 data))) :: u32) = foldl crc_byte c (take 8 data)"
      by (simp add: f(2) ucast_up_down)
    moreover have "foldl crc_byte (foldl crc_byte c (take 8 data)) (drop 8 data) = foldl crc_byte c data"
      by (simp flip: foldl_append)
    ultimately show ?thesis
      using True "1.IH" [OF True "1.prems"] by (simp add: crc32c_hw_loop.simps [of f8 f64 c data])
  next
    case False
    then show ?thesis by (subst crc32c_hw_loop.simps) (simp add: f(1))
  qed
qed

text \<open>
  C37. The checksum does not depend on the machine: with instructions that divide by the Castagnoli polynomial, as the
  processor's manual documents them, the eight-bytes-at-a-time hardware path computes what the table-driven path
  computes, so two peers that chose different paths agree.
\<close>

theorem crc32c_paths_agree:
  assumes "crc32_insn_ok f8 f64"
  shows "crc32c True f8 f64 data n = crc32c False f8 f64 data n"
  by (simp add: crc32c_def crc32c_hw_def crc32c_hw_loop_eq [OF assms] crc32c_sw_eq split: option.split)

theorem crc32c_paths_agree_witness:
  "crc32c True (\<lambda>c b. crc32_insn c (map (bit b) [0..<8])) (\<lambda>c w. ucast (crc32_insn c (map (bit w) [0..<64]))) (Some [1, 2, 3]) 3 =
   crc32c False (\<lambda>c b. crc32_insn c (map (bit b) [0..<8])) (\<lambda>c w. ucast (crc32_insn c (map (bit w) [0..<64]))) (Some [1, 2, 3]) 3"
  by (rule crc32c_paths_agree) (simp add: crc32_insn_ok_def)


subsection \<open>Errors the sum detects\<close>

text \<open>Up to four bytes go into the register as one word, so a window of them is injective.\<close>

lemma of_le_Cons_xor: "of_le (b # bs) = (ucast b :: u32) XOR push_bit 8 (of_le bs)"
proof (rule bit_word_eqI)
  fix k assume "k < LENGTH(32)"
  moreover have "bit b k \<Longrightarrow> k < 8" using bit_imp_le_length [of b k] by simp
  ultimately show "bit (of_le (b # bs) :: u32) k = bit ((ucast b :: u32) XOR push_bit 8 (of_le bs)) k"
    by (auto simp: bit_or_iff bit_xor_iff bit_push_bit_iff bit_ucast_iff)
qed

lemma crc_window:
  "length bs \<le> 4 \<Longrightarrow> foldl crc_byte c bs = (crc_bit ^^ (8 * length bs)) (c XOR of_le bs)"
proof (induction bs arbitrary: c)
  case Nil
  then show ?case by simp
next
  case (Cons b bs)
  have "(crc_bit ^^ 8) (push_bit 8 (of_le bs)) = (of_le bs :: u32)"
    using Cons.prems by (intro crc_bits_push) (auto simp: bit_of_le)
  then have "(crc_bit ^^ 8) (c XOR of_le (b # bs)) = crc_byte c b XOR of_le bs"
    unfolding of_le_Cons_xor crc_byte_def by (simp only: crc_bits_xor xor.assoc)
  then show ?case
    using Cons by (simp add: funpow_add add.commute [of 8] del: of_le.simps)
qed

lemma of_le_inj:
  assumes "length bs = length bs'" "length bs \<le> 4" "(of_le bs :: u32) = of_le bs'"
  shows "bs = bs'"
proof (rule nth_equalityI)
  fix i assume i: "i < length bs"
  show "bs ! i = bs' ! i"
  proof (rule bit_word_eqI)
    fix k assume "k < LENGTH(8)"
    then show "bit (bs ! i) k = bit (bs' ! i) k"
      using bit_of_le [of bs "8 * i + k", where 'a = 32] bit_of_le [of bs' "8 * i + k", where 'a = 32]
        i assms by simp
  qed
qed (rule assms(1))

lemma xor_cancel: "x XOR a = y XOR a \<Longrightarrow> x = y" for x :: u32
proof -
  assume "x XOR a = y XOR a"
  then have "(x XOR a) XOR a = (y XOR a) XOR a" by (rule arg_cong)
  then show ?thesis by (simp only: xor.assoc xor_self_eq xor.right_neutral)
qed

lemma xor_cancel_left: "a XOR x = a XOR y \<Longrightarrow> x = y" for x :: u32
  by (rule xor_cancel [of _ a]) (simp only: xor.commute [of _ a])

lemma crc_window_inj:
  assumes "length bs = length bs'" "length bs \<le> 4"
    and "foldl crc_byte c bs = foldl crc_byte c bs'"
  shows "bs = bs'"
proof -
  have l: "length bs' \<le> 4" using assms(1,2) by simp
  have "c XOR of_le bs = c XOR of_le bs'"
    using assms(3) unfolding crc_window [OF assms(2)] crc_window [OF l] assms(1) by (rule crc_bits_inj)
  then have "(of_le bs :: u32) = of_le bs'" by (rule xor_cancel_left)
  then show ?thesis by (rule of_le_inj [OF assms(1,2)])
qed

lemma crc_tail_inj: "foldl crc_byte c bs = foldl crc_byte c' bs \<Longrightarrow> c = c'"
proof (induction bs arbitrary: c c')
  case Nil
  then show ?case by simp
next
  case (Cons b bs)
  then have "crc_byte c b = crc_byte c' b" by simp
  then have "c XOR ucast b = c' XOR ucast b"
    unfolding crc_byte_def by (rule crc_bits_inj)
  then show ?case by (rule xor_cancel)
qed

text \<open>
  Burst errors: a corruption of a payload that is confined to four consecutive bytes always
  changes the checksum, whatever the bytes before and after it.
\<close>

theorem crc32c_detects_bursts:
  assumes "length w = length w'" and "length w \<le> 4" and "w \<noteq> w'"
  shows "crc32c_sw (p @ w @ s) \<noteq> crc32c_sw (p @ w' @ s)"
proof
  assume "crc32c_sw (p @ w @ s) = crc32c_sw (p @ w' @ s)"
  then have "foldl crc_byte 0xFFFFFFFF (p @ w @ s) = foldl crc_byte 0xFFFFFFFF (p @ w' @ s)"
    by (simp add: crc32c_sw_eq)
  then have "foldl crc_byte (foldl crc_byte 0xFFFFFFFF p) w = foldl crc_byte (foldl crc_byte 0xFFFFFFFF p) w'"
    unfolding foldl_append by (rule crc_tail_inj)
  then show False using crc_window_inj [OF assms(1,2)] assms(3) by blast
qed

theorem crc32c_detects_bursts_witness:
  "crc32c_sw ([1, 2] @ [3, 4] @ [5]) \<noteq> crc32c_sw ([1, 2] @ [4, 3] @ [5])"
  by (rule crc32c_detects_bursts) simp_all

end
