(* ===== verification/Sender.thy ===== *)
theory Sender
  imports FeedbackLaws Checksums
begin

text \<open>
  The sending driver (\<open>chunk_send_ex\<close> of \<open>src/dzIPC/common/data_rev.cc\<close>): the checks of the
  message, its burst with heartbeats, the rounds in which acknowledgements are collected and
  missing pages sent again, and the transfer of the outcome to the rate control.
\<close>

section \<open>The environment\<close>

text \<open>
  \<open>sc_clk k\<close> is the \<open>k\<close>-th reading of the steady clock from the first round on, in nanoseconds;
  \<open>sc_burst_us\<close> and \<open>sc_resend_us\<close> are the microseconds since the start of the burst, and of a
  batch of retransmissions, before each page. \<open>sc_order k\<close> is the order in which the \<open>k\<close>-th
  round visits the hash set of the missing pages. \<open>sc_queued\<close> is the number of datagrams
  already received when the queue is emptied, before the message and after it.
\<close>

datatype delivery_mode = BestEffort | Reliable
datatype integrity_mode = IntegrityNone | IntegrityCRC32C
datatype send_status =
  SentUnconfirmed | DeliveredAcked | FailedTimeout | FailedLocalSend | FailedIntegrity | FailedInvalidArgument

record send_options =
  so_delivery :: delivery_mode
  so_integrity :: integrity_mode
  so_ack_timeout_ms :: nat
  so_rate_limit_bps :: nat
  so_send_heartbeat :: bool

definition SocketSendOptions :: send_options where
  "SocketSendOptions = \<lparr>so_delivery = BestEffort, so_integrity = IntegrityNone, so_ack_timeout_ms = invalid_value,
     so_rate_limit_bps = 0, so_send_heartbeat = True\<rparr>"

record send_report =
  sr_status :: send_status
  sr_crc32c :: u32
  sr_ack_crc32c :: u32
  sr_sequence :: u32

definition report_ok :: "send_report \<Rightarrow> bool" where
  "report_ok r = (sr_status r = SentUnconfirmed \<or> sr_status r = DeliveredAcked)"

record send_ctx =
  sc_clk :: "nat \<Rightarrow> nat"
  sc_burst_us :: "nat \<Rightarrow> nat"
  sc_resend_us :: "nat \<Rightarrow> nat \<Rightarrow> nat"
  sc_order :: "nat \<Rightarrow> u16 list \<Rightarrow> u16 list"
  sc_queued :: "nat \<times> nat"
  sc_ok :: "nat \<Rightarrow> bool"
  sc_junk :: "nat \<Rightarrow> byte"
  sc_me :: u32
  sc_track :: bool
  sc_glob :: nat
  sc_delay :: nat
  sc_rnd :: "rat \<Rightarrow> rat"
  sc_sse42 :: bool
  sc_u8 :: "u32 \<Rightarrow> byte \<Rightarrow> u32"
  sc_u64 :: "u32 \<Rightarrow> u64 \<Rightarrow> u64"

text \<open>What the process keeps between messages: the sequence counter, the state of the node, the statistics.\<close>

record sender =
  sd_counter :: u32
  sd_rtt :: rtt_estimator
  sd_peers :: peer_table
  sd_rate :: rate_limit_state
  sd_stats :: frag_track_state
  sd_sock :: socket

definition kMaxHeartbeatRepeat :: nat where "kMaxHeartbeatRepeat = 3"
definition kBestEffortHeartbeatMinPages :: u16 where "kBestEffortHeartbeatMinPages = 16"
definition kLeaseTimeoutMultiple :: nat where "kLeaseTimeoutMultiple = 3"

definition send_crc :: "send_ctx \<Rightarrow> bytes \<Rightarrow> u32" where
  "send_crc ctx data = crc32c (sc_sse42 ctx) (sc_u8 ctx) (sc_u64 ctx) (Some data) (length data)"

text \<open>What stays fixed while one message is confirmed.\<close>

record send_job =
  sj_meta :: chunk_meta
  sj_chunks :: "bytes list"
  sj_crc :: u32
  sj_delivery :: delivery_mode
  sj_integrity :: integrity_mode
  sj_heartbeat :: bool
  sj_rate :: nat
  sj_first_wait :: nat
  sj_nack_wait :: nat
  sj_timeout :: nat
  sj_lease :: nat
  sj_begin :: nat

text \<open>
  The locals of the rounds. \<open>ss_last\<close> is the round in which each page was last sent again, if it
  was; \<open>ss_pauses\<close> lists the pauses requested between retransmissions.
\<close>

record send_state =
  ss_ticks :: nat
  ss_inbox :: "bytes list"
  ss_sock :: socket
  ss_stats :: frag_track_state
  ss_rtt :: rtt_estimator
  ss_fb :: feedback
  ss_rx :: rx_msgs
  ss_ack_crc :: u32
  ss_matched :: "ack_msg option"
  ss_got_nack :: bool
  ss_unknown :: bool
  ss_union :: "u16 list"
  ss_round :: nat
  ss_hb_repeat :: nat
  ss_last :: "nat option list"
  ss_pauses :: "nat list"

definition sent_elapsed_ms :: "send_ctx \<Rightarrow> nat \<Rightarrow> nat \<Rightarrow> nat" where
  "sent_elapsed_ms ctx ticks begin_ns = (sc_clk ctx ticks - begin_ns) div 1000000"

section \<open>Acknowledgements\<close>

text \<open>
  An ACK that matches, of either kind: the peer is recorded, and in the first round the time
  since the burst is a sample for the timeout.
\<close>

definition note_ack :: "send_ctx \<Rightarrow> send_job \<Rightarrow> ack_msg \<Rightarrow> send_state \<Rightarrow> send_state" where
  "note_ack ctx j a v =
     (let v = v\<lparr>ss_matched := Some a, ss_ack_crc := ak_payload_crc32c a\<rparr>;
          fb = ss_fb v;
          v = v\<lparr>ss_fb := fb\<lparr>fb_peers := record_peer_ack (int (sc_clk ctx (ss_ticks v))) (fb_peers fb)
                   (ak_receiver_id a) (cm_sequence (sj_meta j)),
                 fb_seen := (if ak_receiver_id a \<in> set (fb_seen fb) then fb_seen fb
                             else ak_receiver_id a # fb_seen fb)\<rparr>,
               ss_ticks := ss_ticks v + 1\<rparr>
      in if ss_round v = 0
         then (let rtt = (sc_clk ctx (ss_ticks v) - sj_begin j) div 1000;
                   v = v\<lparr>ss_ticks := ss_ticks v + 1\<rparr>
               in if 0 < rtt then v\<lparr>ss_rtt := observe (sc_rnd ctx) (ss_rtt v) rtt\<rparr> else v)
         else v)"

text \<open>A NACK that matches: the receiver, its missing pages within range, and their number of runs.\<close>

definition note_nack :: "send_ctx \<Rightarrow> send_job \<Rightarrow> u32 \<Rightarrow> u16 list \<Rightarrow> nat \<Rightarrow> send_state \<Rightarrow> send_state" where
  "note_nack ctx j receiver_id pages runs v =
     (let v = v\<lparr>ss_got_nack := True,
                ss_unknown := ss_unknown v \<or> \<not> peer_is_known (fb_peers (ss_fb v)) receiver_id\<rparr>;
          fb = ss_fb v;
          v = v\<lparr>ss_fb := fb\<lparr>fb_peers := record_peer_nack (int (sc_clk ctx (ss_ticks v))) (fb_peers fb) receiver_id\<rparr>,
                ss_ticks := ss_ticks v + 1,
                ss_union := foldl (\<lambda>u p. if p \<in> set u then u else u @ [p]) (ss_union v) pages\<rparr>
      in if 0 < length pages
         then v\<lparr>ss_fb := collect_loss (int (sc_clk ctx (ss_ticks v))) (sj_lease j) (cm_page_cnt (sj_meta j)) receiver_id
                  (length pages) runs (ss_fb v),
                ss_ticks := ss_ticks v + 1\<rparr>
         else v)"

text \<open>The missing pages of a bitmap; the loop stops at the first page past the message.\<close>

definition nb_missing :: "nack_bitmap_msg \<Rightarrow> nat \<Rightarrow> u16 list" where
  "nb_missing nb page_cnt =
     map of_nat (filter (\<lambda>p. 0 < p \<and> is_missing nb (of_nat p))
       (takeWhile (\<lambda>p. p \<le> page_cnt) (map (\<lambda>b. unat (nb_base_page nb) + b) [0..<unat (nb_bit_cnt nb)])))"

definition nk_missing :: "nack_msg \<Rightarrow> nat \<Rightarrow> u16 list" where
  "nk_missing nk page_cnt = filter (\<lambda>p. 0 < p \<and> unat p \<le> page_cnt) (nk_missing_pages nk)"

text \<open>One datagram on the ACK side; the flag tells that a matching ACK ended the collection.\<close>

definition take_feedback :: "send_ctx \<Rightarrow> send_job \<Rightarrow> bytes \<Rightarrow> send_state \<Rightarrow> (bool \<times> send_state) option" where
  "take_feedback ctx j buf v =
     (let rx = ss_rx v; n = length (sj_chunks j) in
      if check_ak_id buf
      then do {
        m \<leftarrow> ack_deserialize (rx_ack rx) buf;
        let v = v\<lparr>ss_rx := rx\<lparr>rx_ack := m\<rparr>\<rparr>;
        if ack_matches m (sj_meta j) then Some (True, note_ack ctx j m v) else Some (False, v)
      }
      else if check_ak2_id buf
      then do {
        m \<leftarrow> ack2_deserialize (rx_ack2 rx) buf;
        let v = v\<lparr>ss_rx := rx\<lparr>rx_ack2 := m\<rparr>\<rparr>;
        if ack_matches (a2_ack m) (sj_meta j)
        then (let v = note_ack ctx j (a2_ack m) v; fb = ss_fb v in
          Some (True, v\<lparr>ss_fb := fb\<lparr>fb_f_max := max (fb_f_max fb)
              (scaled_loss_fraction (ucast (a2_lost_pages m)) (cm_page_cnt (sj_meta j))),
            fb_observed := a2_observed_bps m\<rparr>\<rparr>))
        else Some (False, v)
      }
      else if \<not> check_nk_id buf
      then (if \<not> check_nb_id buf then Some (False, v)
            else do {
              m \<leftarrow> nack_bitmap_deserialize (rx_nb rx) buf;
              let v = v\<lparr>ss_rx := rx\<lparr>rx_nb := m\<rparr>\<rparr>;
              if nb_matches m (sj_meta j)
              then Some (False, note_nack ctx j (nb_receiver_id m) (nb_missing m n) (count_bitmap_runs m n) v)
              else Some (False, v)
            })
      else do {
        m \<leftarrow> nack_deserialize (rx_nack rx) buf;
        let v = v\<lparr>ss_rx := rx\<lparr>rx_nack := m\<rparr>\<rparr>;
        if nack_matches m (sj_meta j)
        then Some (False, note_nack ctx j (nk_receiver_id m) (nk_missing m n)
               (count_explicit_runs (nk_missing_pages m) n) v)
        else Some (False, v)
      })"

datatype collect_exit = CollectOver | CollectExpired | CollectAcked

definition collect_timeout :: "send_ctx \<Rightarrow> send_job \<Rightarrow> nat \<Rightarrow> nat \<Rightarrow> send_state \<Rightarrow> collect_exit option \<times> send_state" where
  "collect_timeout ctx j round_begin round_wait v =
     (let reliable = (sj_delivery j = Reliable);
          expired = (reliable \<and> sj_timeout j \<le> sent_elapsed_ms ctx (ss_ticks v) (sj_begin j));
          v = (if reliable then v\<lparr>ss_ticks := ss_ticks v + 1\<rparr> else v)
      in if expired then (Some CollectExpired, v)
         else if round_wait \<le> sent_elapsed_ms ctx (ss_ticks v) round_begin
         then (Some CollectOver, v\<lparr>ss_ticks := ss_ticks v + 1\<rparr>)
         else (let v = v\<lparr>ss_ticks := ss_ticks v + 1\<rparr>;
                   expired = (reliable \<and> sj_timeout j \<le> sent_elapsed_ms ctx (ss_ticks v) (sj_begin j));
                   v = (if reliable then v\<lparr>ss_ticks := ss_ticks v + 1\<rparr> else v)
               in if expired then (Some CollectExpired, v) else (None, v)))"

text \<open>
  The collection of one round. The datagrams to come are the last argument; an empty one is a
  read that timed out, and so is every read after the last.
\<close>

primrec collect_feedback ::
    "send_ctx \<Rightarrow> send_job \<Rightarrow> nat \<Rightarrow> nat \<Rightarrow> send_state \<Rightarrow> bytes list \<Rightarrow> (collect_exit \<times> send_state) option" where
  "collect_feedback ctx j round_begin round_wait v [] =
     (case collect_timeout ctx j round_begin round_wait v of
        (Some e, v) \<Rightarrow> Some (e, v\<lparr>ss_inbox := []\<rparr>)
      | (None, v) \<Rightarrow> Some (CollectOver, v\<lparr>ss_inbox := []\<rparr>))"
| "collect_feedback ctx j round_begin round_wait v (buf # rest) =
     (case collect_timeout ctx j round_begin round_wait v of
        (Some e, v) \<Rightarrow> Some (e, v\<lparr>ss_inbox := buf # rest\<rparr>)
      | (None, v) \<Rightarrow>
          if buf = [] then Some (CollectOver, v\<lparr>ss_inbox := rest\<rparr>)
          else do {
            (acked, v) \<leftarrow> take_feedback ctx j buf v;
            if acked then Some (CollectAcked, v\<lparr>ss_inbox := rest\<rparr>)
            else collect_feedback ctx j round_begin round_wait v rest
          })"

section \<open>Retransmission\<close>

definition is_suppressed :: "send_state \<Rightarrow> bool \<Rightarrow> u16 \<Rightarrow> bool" where
  "is_suppressed v enabled miss =
     (enabled \<and> \<not> ss_unknown v \<and> 0 < ss_round v \<and> ss_last v ! unat miss = Some (ss_round v - 1))"

definition count_resent :: "bool \<Rightarrow> u16 \<Rightarrow> nat \<Rightarrow> send_state \<Rightarrow> send_state" where
  "count_resent track miss bytes v =
     (let fs = ss_stats v;
          fs = (if track then fs\<lparr>retransmit_bytes := retransmit_bytes fs + of_nat bytes\<rparr> else fs);
          fs = (if ss_last v ! unat miss \<noteq> None \<and> track
                then fs\<lparr>pages_retransmitted_again := pages_retransmitted_again fs + 1\<rparr> else fs)
      in v\<lparr>ss_stats := fs, ss_last := (ss_last v)[unat miss := Some (ss_round v)]\<rparr>)"

text \<open>The batch of one round; the result tells whether every send succeeded. \<open>None\<close> is a page out of range.\<close>

primrec resend_pages ::
    "send_ctx \<Rightarrow> send_job \<Rightarrow> bool \<Rightarrow> nat \<Rightarrow> nat \<Rightarrow> send_state \<Rightarrow> u16 list \<Rightarrow> (bool \<times> send_state) option" where
  "resend_pages ctx j enabled resent resent_bytes v [] = Some (True, v)"
| "resend_pages ctx j enabled resent resent_bytes v (miss # ms) =
     (if miss = 0 \<or> length (sj_chunks j) < unat miss \<or> length (ss_last v) \<le> unat miss then None
      else (let budget_us = mul64 resent_bytes 1000000 div sj_rate j;
                v = (if 0 < sj_rate j \<and> 0 < resent
                     then v\<lparr>ss_pauses := ss_pauses v @ [budget_us - sc_resend_us ctx (ss_round v) resent]\<rparr> else v)
            in if is_suppressed v enabled miss
               then resend_pages ctx j enabled resent resent_bytes
                 (if sc_track ctx then v\<lparr>ss_stats := (ss_stats v)\<lparr>nack_suppressed := nack_suppressed (ss_stats v) + 1\<rparr>\<rparr> else v) ms
               else (let page = sj_chunks j ! (unat miss - 1);
                         v = count_resent (sc_track ctx) miss (length page) v;
                         (sent, s) = send_chunk_with_retry (sc_ok ctx) (ss_sock v) page;
                         v = v\<lparr>ss_sock := s\<rparr>
                     in if \<not> sent then Some (False, v)
                        else resend_pages ctx j enabled (resent + 1) (resent_bytes + length page) v ms)))"

section \<open>The end of a message\<close>

definition finish_rate :: "send_ctx \<Rightarrow> send_job \<Rightarrow> bool \<Rightarrow> bool \<Rightarrow> nat \<Rightarrow> send_state \<Rightarrow> rate_limit_state \<Rightarrow> send_state \<times> rate_limit_state" where
  "finish_rate ctx j clean at_floor_timeout observed v rate =
     (let (runs_f, lost_f) = aggregate_runs_first (fb_runs (ss_fb v));
          (rate, fs) = adapt_rate_dctcp (sc_glob ctx) (sc_delay ctx) (sc_track ctx)
            \<lparr>rr_page_cnt = cm_page_cnt (sj_meta j), rr_f_max = fb_f_max (ss_fb v), rr_clean = clean,
             rr_at_floor_timeout = at_floor_timeout, rr_observed = observed, rr_runs = runs_f, rr_lost = lost_f\<rparr>
            (rate, ss_stats v)
      in (v\<lparr>ss_stats := fs\<rparr>, rate))"

definition drain_queue :: "nat \<Rightarrow> bytes list \<Rightarrow> bytes list" where
  "drain_queue n inbox = drain_self_loopback (take n inbox) @ drop n inbox"

definition finish_timeout :: "send_ctx \<Rightarrow> send_job \<Rightarrow> send_state \<Rightarrow> rate_limit_state \<Rightarrow> send_status \<times> send_state \<times> rate_limit_state" where
  "finish_timeout ctx j v rate =
     (let (v, rate) = finish_rate ctx j False True 0 v rate
      in (FailedTimeout, v\<lparr>ss_inbox := drain_queue (snd (sc_queued ctx)) (ss_inbox v)\<rparr>, rate))"

definition finish_acked :: "send_ctx \<Rightarrow> send_job \<Rightarrow> ack_msg \<Rightarrow> send_state \<Rightarrow> rate_limit_state
    \<Rightarrow> (send_status \<times> send_state \<times> rate_limit_state) option" where
  "finish_acked ctx j a v rate =
     (let n = snd (sc_queued ctx);
          queue = zip (take n (ss_inbox v)) (map (\<lambda>i. int (sc_clk ctx (ss_ticks v + i))) [0..<n])
      in do {
        (left, fb) \<leftarrow> drain_record_acks (sj_meta j) (sj_lease j) queue (ss_fb v);
        let v = v\<lparr>ss_fb := fb, ss_inbox := map fst left @ drop n (ss_inbox v), ss_ticks := ss_ticks v + n\<rparr>;
        if sj_integrity j = IntegrityCRC32C \<and>
           (ak_integrity_flags a AND INTEGRITY_FLAG_CRC32C = 0 \<or> ss_ack_crc v \<noteq> sj_crc j)
        then Some (FailedIntegrity, v, rate)
        else (let (v, rate) = finish_rate ctx j (fb_f_max fb = 0) False (unat (fb_observed fb)) v rate
              in Some (DeliveredAcked, v, rate))
      })"

definition final_notice :: "send_ctx \<Rightarrow> send_job \<Rightarrow> send_state \<Rightarrow> rate_limit_state
    \<Rightarrow> (send_status \<times> send_state \<times> rate_limit_state) option" where
  "final_notice ctx j v rate =
     do {
       s \<leftarrow> (if sj_heartbeat j \<and> sj_delivery j = Reliable
             then send_heartbeat (sc_ok ctx) (sc_junk ctx) (sc_me ctx) (ss_sock v) (sj_meta j) False True (of_nat (ss_round v + 2))
             else Some (ss_sock v));
       let v = v\<lparr>ss_sock := s\<rparr>;
       let (v, rate) = (if sj_delivery j = Reliable then finish_rate ctx j False True 0 v rate else (v, rate));
       let v = v\<lparr>ss_inbox := drain_queue (snd (sc_queued ctx)) (ss_inbox v)\<rparr>;
       Some (if sj_delivery j = Reliable then FailedTimeout else SentUnconfirmed, v, rate)
     }"

definition repeat_heartbeat :: "send_ctx \<Rightarrow> send_job \<Rightarrow> send_state \<Rightarrow> send_state option" where
  "repeat_heartbeat ctx j v =
     do {
       s \<leftarrow> send_heartbeat (sc_ok ctx) (sc_junk ctx) (sc_me ctx) (ss_sock v) (sj_meta j) True False (of_nat (ss_round v + 2));
       Some (v\<lparr>ss_sock := s\<rparr>)
     }"

section \<open>The rounds\<close>

text \<open>The first argument bounds the number of rounds; \<open>None\<close> is a run past it, or an access outside a buffer.\<close>

primrec send_rounds ::
    "nat \<Rightarrow> send_ctx \<Rightarrow> send_job \<Rightarrow> send_state \<Rightarrow> rate_limit_state
      \<Rightarrow> (send_status \<times> send_state \<times> rate_limit_state) option" where
  "send_rounds 0 ctx j v rate = None"
| "send_rounds (Suc n) ctx j v rate =
     do {
       let round_begin = sc_clk ctx (ss_ticks v);
       let v = v\<lparr>ss_ticks := ss_ticks v + 1, ss_matched := None, ss_got_nack := False, ss_unknown := False, ss_union := []\<rparr>;
       (e, v) \<leftarrow> collect_feedback ctx j round_begin (if ss_round v = 0 then sj_first_wait j else sj_nack_wait j) v (ss_inbox v);
       if e = CollectExpired then Some (finish_timeout ctx j v rate)
       else (case ss_matched v of
           Some a \<Rightarrow> finish_acked ctx j a v rate
         | None \<Rightarrow>
             if \<not> ss_got_nack v \<or> ss_union v = []
             then (if sj_delivery j = BestEffort then final_notice ctx j v rate
                   else do {
                     v \<leftarrow> (if sj_heartbeat j \<and> ss_hb_repeat v < kMaxHeartbeatRepeat
                           then repeat_heartbeat ctx j (v\<lparr>ss_hb_repeat := ss_hb_repeat v + 1\<rparr>) else Some v);
                     send_rounds n ctx j (v\<lparr>ss_round := ss_round v + 1\<rparr>) rate
                   })
             else do {
               let enabled = (2 \<le> peer_count (fb_peers (ss_fb v)));
               (sent, v) \<leftarrow> resend_pages ctx j enabled 0 0 v (sc_order ctx (ss_round v) (ss_union v));
               if \<not> sent then Some (FailedLocalSend, v, rate)
               else do {
                 v \<leftarrow> (if sj_heartbeat j then repeat_heartbeat ctx j v else Some v);
                 let v = v\<lparr>ss_round := ss_round v + 1\<rparr>;
                 if sj_delivery j = BestEffort \<and> RTPS_MAX_NACK_ROUND \<le> ss_round v
                 then final_notice ctx j v rate
                 else send_rounds n ctx j v rate
               }
             })
     }"

section \<open>The driver\<close>

text \<open>
  The result: the report, the state left, and the datagrams left on the ACK side. \<open>fuel\<close> is the
  bound on the rounds.
\<close>

definition confirm_message ::
    "nat \<Rightarrow> send_ctx \<Rightarrow> send_options \<Rightarrow> chunk_meta \<Rightarrow> bytes list \<Rightarrow> u32 \<Rightarrow> nat \<Rightarrow> send_report \<Rightarrow> sender \<Rightarrow> bytes list
      \<Rightarrow> (send_report \<times> sender \<times> bytes list) option" where
  "confirm_message fuel ctx opts meta chunks crc rate_limit report sd inbox =
     (let page_cnt = cm_page_cnt meta;
          nack_wait = calc_nack_wait_ms (sc_glob ctx) page_cnt rate_limit;
          first_wait = ack_first_wait_ms (sd_rtt sd) + unat page_cnt div 64;
          transit = rate_limited_transit_ms (sc_glob ctx) page_cnt rate_limit;
          first_wait = (if 0 < transit then first_wait + transit + transit div 2 else first_wait);
          timeout = (if so_ack_timeout_ms opts = invalid_value then first_wait + nack_wait * RTPS_MAX_NACK_ROUND
                     else so_ack_timeout_ms opts);
          lease = mul64 kLeaseTimeoutMultiple timeout;
          j = \<lparr>sj_meta = meta, sj_chunks = chunks, sj_crc = crc, sj_delivery = so_delivery opts,
               sj_integrity = so_integrity opts, sj_heartbeat = so_send_heartbeat opts, sj_rate = rate_limit,
               sj_first_wait = first_wait, sj_nack_wait = nack_wait, sj_timeout = timeout, sj_lease = lease,
               sj_begin = sc_clk ctx 0\<rparr>;
          v = \<lparr>ss_ticks = 1, ss_inbox = inbox, ss_sock = sd_sock sd, ss_stats = sd_stats sd, ss_rtt = sd_rtt sd,
               ss_fb = \<lparr>fb_peers = sd_peers sd, fb_seen = [], fb_f_max = 0, fb_observed = 0, fb_runs = []\<rparr>,
               ss_rx = rx_fresh, ss_ack_crc = 0, ss_matched = None, ss_got_nack = False, ss_unknown = False,
               ss_union = [], ss_round = 0, ss_hb_repeat = 0, ss_last = replicate (length chunks + 1) None,
               ss_pauses = []\<rparr>
      in do {
        (status, v, rate) \<leftarrow> send_rounds fuel ctx j v (sd_rate sd);
        Some (report\<lparr>sr_status := status, sr_ack_crc32c := ss_ack_crc v\<rparr>,
              sd\<lparr>sd_sock := ss_sock v, sd_stats := ss_stats v, sd_rtt := ss_rtt v, sd_peers := fb_peers (ss_fb v),
                 sd_rate := rate\<rparr>, ss_inbox v)
      })"

definition chunk_send_ex ::
    "nat \<Rightarrow> send_ctx \<Rightarrow> send_options \<Rightarrow> bytes \<Rightarrow> sender \<Rightarrow> bytes list
      \<Rightarrow> (send_report \<times> sender \<times> bytes list) option" where
  "chunk_send_ex fuel ctx opts publish_data sd inbox =
     (let report = \<lparr>sr_status = FailedInvalidArgument, sr_crc32c = 0, sr_ack_crc32c = 0, sr_sequence = sd_counter sd\<rparr>;
          sd = sd\<lparr>sd_counter := sd_counter sd + 1\<rparr>
      in if publish_data = [] \<or> length publish_data < TAIL_SIZE then Some (report, sd, inbox)
         else (case correct_pages (split_chunks publish_data) of
             None \<Rightarrow> Some (report, sd, inbox)
           | Some chunks \<Rightarrow>
               (let crc = send_crc ctx (concat chunks);
                    report = (if so_integrity opts = IntegrityCRC32C then report\<lparr>sr_crc32c := crc\<rparr> else report)
                in case parse_tail (hd chunks) of
                    None \<Rightarrow> Some (report, sd, inbox)
                  | Some tail \<Rightarrow>
                      if \<not> valid_chunk_meta tail \<or> unat (tm_page_cnt tail) \<noteq> length chunks then Some (report, sd, inbox)
                      else do {
                        let inbox = drain_queue (fst (sc_queued ctx)) inbox;
                        let meta = meta_of_tail tail (sr_sequence report);
                        let reliable = (so_delivery opts = Reliable);
                        s \<leftarrow> (if so_send_heartbeat opts \<and> reliable
                              then send_heartbeat (sc_ok ctx) (sc_junk ctx) (sc_me ctx) (sd_sock sd) meta True False 0
                              else Some (sd_sock sd));
                        let (rate_limit, rate) = effective_rate_bps (sc_glob ctx) (sd_rate sd) (so_rate_limit_bps opts);
                        let (sent, s, pauses) = send_all_chunks (sc_ok ctx) (sc_burst_us ctx) s chunks rate_limit;
                        let sd = sd\<lparr>sd_rate := rate, sd_sock := s\<rparr>;
                        if \<not> sent then Some (report\<lparr>sr_status := FailedLocalSend\<rparr>, sd, inbox)
                        else do {
                          s \<leftarrow> (if so_send_heartbeat opts \<and> (reliable \<or> kBestEffortHeartbeatMinPages \<le> cm_page_cnt meta)
                                then send_heartbeat (sc_ok ctx) (sc_junk ctx) (sc_me ctx) s meta reliable (\<not> reliable) 1
                                else Some s);
                          let sd = sd\<lparr>sd_sock := s\<rparr>;
                          if so_delivery opts = BestEffort
                          then Some (report\<lparr>sr_status := SentUnconfirmed\<rparr>, sd, drain_queue (snd (sc_queued ctx)) inbox)
                          else confirm_message fuel ctx opts meta chunks (sr_crc32c report) rate_limit report sd inbox
                        }
                      })))"

definition chunk_send :: "nat \<Rightarrow> send_ctx \<Rightarrow> bytes \<Rightarrow> sender \<Rightarrow> bytes list \<Rightarrow> (bool \<times> sender \<times> bytes list) option" where
  "chunk_send fuel ctx publish_data sd inbox =
     do {
       (report, sd, inbox) \<leftarrow> chunk_send_ex fuel ctx
         (SocketSendOptions\<lparr>so_delivery := BestEffort, so_integrity := IntegrityNone\<rparr>) publish_data sd inbox;
       Some (report_ok report, sd, inbox)
     }"

definition chunk_send_reliable ::
    "nat \<Rightarrow> send_ctx \<Rightarrow> nat \<Rightarrow> bytes \<Rightarrow> sender \<Rightarrow> bytes list \<Rightarrow> (bool \<times> sender \<times> bytes list) option" where
  "chunk_send_reliable fuel ctx ack_timeout_ms publish_data sd inbox =
     do {
       (report, sd, inbox) \<leftarrow> chunk_send_ex fuel ctx
         (SocketSendOptions\<lparr>so_delivery := Reliable, so_integrity := IntegrityCRC32C,
            so_ack_timeout_ms := ack_timeout_ms\<rparr>) publish_data sd inbox;
       Some (report_ok report, sd, inbox)
     }"

end
