(* ===== verification/Receiver.thy ===== *)
theory Receiver
  imports FeedbackLaws Checksums
begin

text \<open>
  The receiving drivers (\<open>src/dzIPC/common/data_rev.cc\<close>): waiting for the first page, the rounds
  of assembly with heartbeats and NACKs, the delivery with its ACK, and the passive receiver of
  the command-line tools.
\<close>

section \<open>The environment\<close>

text \<open>
  \<open>rc_clk k\<close> is the \<open>k\<close>-th reading of the steady clock, in nanoseconds. The datagrams to come
  are a list: each read takes the next one, an empty one is a read that timed out, and at the
  end of the list the driver is still waiting. \<open>None\<close> is an access outside a buffer.
\<close>

record recv_ctx =
  rc_clk :: "nat \<Rightarrow> nat"
  rc_ok :: "nat \<Rightarrow> bool"
  rc_junk :: "nat \<Rightarrow> byte"
  rc_me :: u32
  rc_track :: bool
  rc_glob :: nat
  rc_msg_id :: u32
  rc_want_payload :: bool
  rc_sse42 :: bool
  rc_u8 :: "u32 \<Rightarrow> byte \<Rightarrow> u32"
  rc_u64 :: "u32 \<Rightarrow> u64 \<Rightarrow> u64"

definition rc_crc :: "recv_ctx \<Rightarrow> bytes \<Rightarrow> u32" where
  "rc_crc ctx data = crc32c (rc_sse42 ctx) (rc_u8 ctx) (rc_u64 ctx) (Some data) (length data)"

definition elapsed_ms :: "recv_ctx \<Rightarrow> nat \<Rightarrow> nat \<Rightarrow> nat" where
  "elapsed_ms ctx ticks begin_ns = (rc_clk ctx ticks - begin_ns) div 1000000"

definition kHbGraceMs :: nat where "kHbGraceMs = 2"
definition kFruitlessRoundLimit :: nat where "kFruitlessRoundLimit = 2"

definition hb_matches :: "heartbeat_msg \<Rightarrow> chunk_meta \<Rightarrow> bool" where
  "hb_matches hb meta =
     (hb_data_msg_id hb = cm_msg_id meta \<and> hb_page_cnt hb = cm_page_cnt meta \<and>
      hb_total_size hb = cm_total_size meta)"

definition hb_flag :: "heartbeat_msg \<Rightarrow> byte \<Rightarrow> bool" where
  "hb_flag hb f = (hb_flags hb AND f \<noteq> 0)"

section \<open>The first page\<close>

text \<open>
  The pending heartbeat is a copy of the last one parsed, so one variable holds both.
\<close>

datatype first_exit = FirstBlocked | FirstFailed | FirstFound chunk_meta bytes

primrec wait_first_data_chunk ::
    "recv_ctx \<Rightarrow> nat \<Rightarrow> nat \<Rightarrow> nat \<Rightarrow> heartbeat_msg \<Rightarrow> bool \<Rightarrow> bytes list
      \<Rightarrow> (first_exit \<times> nat \<times> heartbeat_msg \<times> bool \<times> bytes list) option" where
  "wait_first_data_chunk ctx begin_ns tm ticks hb have_hb [] =
     (if tm \<noteq> invalid_value \<and> tm \<le> elapsed_ms ctx ticks begin_ns
      then Some (FirstFailed, ticks + 1, hb, have_hb, [])
      else Some (FirstBlocked, ticks, hb, have_hb, []))"
| "wait_first_data_chunk ctx begin_ns tm ticks hb have_hb (buf # rest) =
     (if tm \<noteq> invalid_value \<and> tm \<le> elapsed_ms ctx ticks begin_ns
      then Some (FirstFailed, ticks + 1, hb, have_hb, buf # rest)
      else (let ticks = (if tm \<noteq> invalid_value then ticks + 1 else ticks) in
        if buf = [] then Some (FirstFailed, ticks, hb, have_hb, rest)
        else if check_hb_id buf
        then do { hb \<leftarrow> heartbeat_deserialize hb buf;
                  wait_first_data_chunk ctx begin_ns tm ticks hb True rest }
        else if \<not> check_id buf (rc_msg_id ctx)
        then wait_first_data_chunk ctx begin_ns tm ticks hb have_hb rest
        else (case parse_tail buf of
            None \<Rightarrow> wait_first_data_chunk ctx begin_ns tm ticks hb have_hb rest
          | Some tail \<Rightarrow>
              if \<not> valid_chunk_meta tail
              then wait_first_data_chunk ctx begin_ns tm ticks hb have_hb rest
              else if tm_now_page tail = 0 \<or> tm_page_cnt tail < tm_now_page tail
              then wait_first_data_chunk ctx begin_ns tm ticks hb have_hb rest
              else (let tentative = meta_of_tail tail 0 in
                if length buf \<noteq> expected_page_size tentative (tm_now_page tail)
                then wait_first_data_chunk ctx begin_ns tm ticks hb have_hb rest
                else (let tentative = (if have_hb \<and> hb_matches hb tentative
                                       then tentative\<lparr>cm_sequence := hb_sequence hb\<rparr> else tentative)
                      in Some (FirstFound tentative buf, ticks, hb, have_hb, rest))))))"

section \<open>Delivery\<close>

text \<open>
  What the caller gets: the buffer given to the message's \<open>deserialize\<close>, or the flat segment
  handed out without one.
\<close>

datatype delivery = Deserialized bytes | Borrowed bytes

datatype recv_result = RecvBlocked | RecvFailed | Received delivery

definition deliver :: "recv_ctx \<Rightarrow> bytes \<Rightarrow> delivery option option" where
  "deliver ctx buf =
     (if wire_is_dzflat buf \<and> rc_want_payload ctx
      then do {
        out \<leftarrow> de_frame_dzflat buf (unat (sh_total_size (header_of buf)));
        Some (map_option Borrowed out)
      }
      else Some (Some (Deserialized buf)))"

record recv_state =
  rv_ticks :: nat
  rv_inbox :: "bytes list"
  rv_sock :: socket
  rv_stats :: frag_track_state
  rv_meta :: chunk_meta
  rv_asm :: assembly
  rv_hb :: heartbeat_msg
  rv_hb_seen :: bool
  rv_reliable :: bool
  rv_final :: bool
  rv_bitmap_ok :: bool
  rv_feedback_ok :: bool
  rv_nack :: nack_msg
  rv_nb :: nack_bitmap_msg
  rv_lost :: u16
  rv_fruitless :: nat

definition recv_complete :: "recv_state \<Rightarrow> bool" where
  "recv_complete v \<longleftrightarrow> unat (cm_page_cnt (rv_meta v)) \<le> asm_cnt (rv_asm v)"

text \<open>The end of a failed assembly.\<close>

definition give_up :: "recv_ctx \<Rightarrow> recv_state \<Rightarrow> (recv_result \<times> recv_state) option" where
  "give_up ctx v =
     do {
       st \<leftarrow> record_fragment_gaps (rc_track ctx) (rv_stats v) (asm_received (rv_asm v)) (cm_page_cnt (rv_meta v)) False;
       Some (RecvFailed, v\<lparr>rv_stats := st\<rparr>)
     }"

section \<open>One round\<close>

text \<open>A heartbeat within a round: it is adopted if it announces this message.\<close>

definition take_heartbeat :: "recv_ctx \<Rightarrow> nat \<Rightarrow> bytes \<Rightarrow> recv_state \<times> nat \<Rightarrow> (recv_state \<times> nat) option" where
  "take_heartbeat ctx round_begin page vb =
     do {
       let (v, budget) = vb;
       hb \<leftarrow> heartbeat_deserialize (rv_hb v) page;
       let v = v\<lparr>rv_hb := hb\<rparr>;
       if hb_matches hb (rv_meta v)
       then do {
         let v = v\<lparr>rv_meta := (rv_meta v)\<lparr>cm_sequence := hb_sequence hb\<rparr>,
                   rv_reliable := hb_flag hb kFlagReliable, rv_final := hb_flag hb kFlagFinal,
                   rv_bitmap_ok := hb_flag hb kFlagBitmapNack, rv_feedback_ok := hb_flag hb kFlagRateFeedback\<rparr>;
         if rv_hb_seen v then Some (v, budget)
         else Some (v\<lparr>rv_hb_seen := True, rv_ticks := rv_ticks v + 1\<rparr>,
                    min budget (elapsed_ms ctx (rv_ticks v) round_begin + kHbGraceMs))
       }
       else Some (v, budget)
     }"

datatype round_exit = RoundOver | RoundExpired | RoundBlocked

text \<open>
  The inner loop; the datagrams still to come are its last argument and returned with the state.
\<close>

definition round_timeout :: "recv_ctx \<Rightarrow> nat \<Rightarrow> nat \<Rightarrow> nat \<Rightarrow> recv_state \<Rightarrow> nat \<Rightarrow> (round_exit option \<times> recv_state)" where
  "round_timeout ctx round_begin asm_begin eff_tm v budget =
     (if recv_complete v then (Some RoundOver, v)
      else if budget \<le> elapsed_ms ctx (rv_ticks v) round_begin then (Some RoundOver, v\<lparr>rv_ticks := rv_ticks v + 1\<rparr>)
      else if eff_tm \<noteq> invalid_value
      then (if eff_tm \<le> elapsed_ms ctx (rv_ticks v + 1) asm_begin
            then (Some RoundExpired, v\<lparr>rv_ticks := rv_ticks v + 2\<rparr>)
            else (None, v\<lparr>rv_ticks := rv_ticks v + 2\<rparr>))
      else (None, v\<lparr>rv_ticks := rv_ticks v + 1\<rparr>))"

primrec recv_round ::
    "recv_ctx \<Rightarrow> nat \<Rightarrow> nat \<Rightarrow> nat \<Rightarrow> recv_state \<Rightarrow> nat \<Rightarrow> bytes list \<Rightarrow> (round_exit \<times> recv_state) option" where
  "recv_round ctx round_begin asm_begin eff_tm v budget [] =
     (case round_timeout ctx round_begin asm_begin eff_tm v budget of
        (Some e, v) \<Rightarrow> Some (e, v\<lparr>rv_inbox := []\<rparr>)
      | (None, v) \<Rightarrow> Some (RoundBlocked, v\<lparr>rv_inbox := []\<rparr>))"
| "recv_round ctx round_begin asm_begin eff_tm v budget (page # rest) =
     (case round_timeout ctx round_begin asm_begin eff_tm v budget of
        (Some e, v) \<Rightarrow> Some (e, v\<lparr>rv_inbox := page # rest\<rparr>)
      | (None, v) \<Rightarrow>
          if page = [] then Some (RoundOver, v\<lparr>rv_inbox := rest\<rparr>)
          else if check_hb_id page
          then do {
            (v, budget) \<leftarrow> take_heartbeat ctx round_begin page (v, budget);
            recv_round ctx round_begin asm_begin eff_tm v budget rest
          }
          else if \<not> check_id page (rc_msg_id ctx)
          then recv_round ctx round_begin asm_begin eff_tm v budget rest
          else do {
            (a, placed) \<leftarrow> place_page page (rv_meta v) (rv_asm v);
            recv_round ctx round_begin asm_begin eff_tm (v\<lparr>rv_asm := a\<rparr>) budget rest
          })"

section \<open>The rounds\<close>

definition send_round_nack :: "recv_ctx \<Rightarrow> recv_state \<Rightarrow> recv_state option" where
  "send_round_nack ctx v =
     do {
       let v = (if rv_lost v = 0
                then v\<lparr>rv_lost := of_nat (unat (cm_page_cnt (rv_meta v)) - asm_cnt (rv_asm v))\<rparr> else v);
       (nk, nb, s, fs) \<leftarrow> send_nack_auto (rc_ok ctx) (rc_junk ctx) (rc_me ctx) (rc_track ctx) (rv_meta v)
         (asm_received (rv_asm v)) (rv_nack v) (rv_nb v) (rv_bitmap_ok v) (rv_sock v, rv_stats v);
       Some (v\<lparr>rv_nack := nk, rv_nb := nb, rv_sock := s, rv_stats := fs\<rparr>)
     }"

text \<open>\<open>Inl\<close> is a return from the driver, \<open>Inr\<close> the state before the next round.\<close>

definition after_round ::
    "recv_ctx \<Rightarrow> nat \<Rightarrow> nat \<Rightarrow> nat \<Rightarrow> nat \<Rightarrow> recv_state \<Rightarrow> ((recv_result \<times> recv_state) + recv_state) option" where
  "after_round ctx asm_begin eff_tm round_no received_before v =
     (let (expired, v) = (if eff_tm \<noteq> invalid_value
                          then (eff_tm \<le> elapsed_ms ctx (rv_ticks v) asm_begin, v\<lparr>rv_ticks := rv_ticks v + 1\<rparr>)
                          else (False, v))
      in if expired then map_option Inl (give_up ctx v)
         else if rv_hb_seen v
         then (if \<not> rv_reliable v \<or> rv_final v then map_option Inl (give_up ctx v)
               else map_option Inr (send_round_nack ctx v))
         else (let v = (if 1 \<le> round_no
                        then (if asm_cnt (rv_asm v) = received_before
                              then v\<lparr>rv_fruitless := rv_fruitless v + 1\<rparr> else v\<lparr>rv_fruitless := 0\<rparr>)
                        else v)
               in if 1 \<le> round_no \<and> asm_cnt (rv_asm v) = received_before \<and> kFruitlessRoundLimit \<le> rv_fruitless v
                  then map_option Inl (give_up ctx v)
                  else map_option Inr (send_round_nack ctx v)))"

text \<open>The result \<open>None\<close> in the pair: the loop ended without a return.\<close>

primrec recv_rounds ::
    "nat \<Rightarrow> recv_ctx \<Rightarrow> nat \<Rightarrow> nat \<Rightarrow> nat \<Rightarrow> recv_state \<Rightarrow> (recv_result option \<times> recv_state) option" where
  "recv_rounds 0 ctx asm_begin eff_tm round_wait_ms v = Some (None, v)"
| "recv_rounds (Suc n) ctx asm_begin eff_tm round_wait_ms v =
     (if recv_complete v then Some (None, v)
      else do {
        let round_begin = rc_clk ctx (rv_ticks v);
        (e, v') \<leftarrow> recv_round ctx round_begin asm_begin eff_tm
          (v\<lparr>rv_ticks := rv_ticks v + 1, rv_hb_seen := False\<rparr>) round_wait_ms (rv_inbox v);
        case e of
          RoundBlocked \<Rightarrow> Some (Some RecvBlocked, v')
        | RoundExpired \<Rightarrow> do { (r, v') \<leftarrow> give_up ctx v'; Some (Some r, v') }
        | RoundOver \<Rightarrow>
            if recv_complete v' then Some (None, v')
            else do {
              next \<leftarrow> after_round ctx asm_begin eff_tm (RTPS_MAX_NACK_ROUND - Suc n) (asm_cnt (rv_asm v)) v';
              case next of
                Inl (r, v') \<Rightarrow> Some (Some r, v')
              | Inr v' \<Rightarrow> recv_rounds n ctx asm_begin eff_tm round_wait_ms v'
            }
      })"


section \<open>The driver\<close>

definition effective_tm :: "nat \<Rightarrow> u16 \<Rightarrow> nat \<Rightarrow> nat" where
  "effective_tm glob page_cnt tm =
     (if tm = invalid_value then tm
      else (let transit_ms = rate_limited_transit_ms glob page_cnt 0 in
        if 0 < transit_ms then max tm (transit_ms + transit_ms div 2 + 20) else tm))"

definition observed_rate :: "u32 \<Rightarrow> nat \<Rightarrow> u32" where
  "observed_rate total_size asm_ms =
     (if 1 \<le> asm_ms then of_nat (unat (total_size * 1000) div asm_ms) else 0)"

text \<open>A message of one page: no assembly, the ACK carries no loss.\<close>

definition recv_single ::
    "recv_ctx \<Rightarrow> chunk_meta \<Rightarrow> bytes \<Rightarrow> heartbeat_msg \<Rightarrow> bool \<Rightarrow> socket \<Rightarrow> (recv_result \<times> socket) option" where
  "recv_single ctx meta first_page hb have_hb s =
     (if length first_page \<noteq> unat (cm_total_size meta) then Some (RecvFailed, s)
      else do {
        let fb_ok = (have_hb \<and> hb_matches hb meta \<and> hb_flag hb kFlagRateFeedback);
        out \<leftarrow> deliver ctx first_page;
        case out of
          None \<Rightarrow> Some (RecvFailed, s)
        | Some d \<Rightarrow> do {
            s \<leftarrow> send_ack (rc_ok ctx) (rc_junk ctx) (rc_me ctx) s meta (rc_crc ctx first_page) fb_ok 0 0;
            Some (Received d, s)
          }
      })"

definition start_assembly ::
    "nat \<Rightarrow> bytes list \<Rightarrow> socket \<Rightarrow> frag_track_state \<Rightarrow> chunk_meta \<Rightarrow> heartbeat_msg \<Rightarrow> bool \<Rightarrow> assembly \<Rightarrow> recv_state" where
  "start_assembly ticks inbox s fs meta hb have_hb a =
     (let known = have_hb \<and> hb_matches hb meta in
      \<lparr>rv_ticks = ticks, rv_inbox = inbox, rv_sock = s, rv_stats = fs, rv_meta = meta, rv_asm = a,
       rv_hb = IpcRtpsHeartbeatMsg, rv_hb_seen = False,
       rv_reliable = known \<and> hb_flag hb kFlagReliable, rv_final = False,
       rv_bitmap_ok = known \<and> hb_flag hb kFlagBitmapNack,
       rv_feedback_ok = known \<and> hb_flag hb kFlagRateFeedback,
       rv_nack = IpcRtpsNackMsg, rv_nb = IpcRtpsNackBitmapMsg, rv_lost = 0, rv_fruitless = 0\<rparr>)"

definition recv_finish :: "recv_ctx \<Rightarrow> nat \<Rightarrow> recv_state \<Rightarrow> (recv_result \<times> recv_state) option" where
  "recv_finish ctx asm_begin v =
     (if \<not> recv_complete v then give_up ctx v
      else do {
        st \<leftarrow> record_fragment_gaps (rc_track ctx) (rv_stats v) (asm_received (rv_asm v)) (cm_page_cnt (rv_meta v)) True;
        let v = v\<lparr>rv_stats := st\<rparr>;
        let data = asm_bytes (rv_asm v);
        out \<leftarrow> deliver ctx data;
        case out of
          None \<Rightarrow> Some (RecvFailed, v)
        | Some d \<Rightarrow> do {
            let asm_ms = elapsed_ms ctx (rv_ticks v) asm_begin;
            s \<leftarrow> send_ack (rc_ok ctx) (rc_junk ctx) (rc_me ctx) (rv_sock v) (rv_meta v) (rc_crc ctx data)
              (rv_feedback_ok v) (rv_lost v) (observed_rate (cm_total_size (rv_meta v)) asm_ms);
            Some (Received d, v\<lparr>rv_ticks := rv_ticks v + 1, rv_sock := s\<rparr>)
          }
      })"

text \<open>
  The result, the datagrams left, the ACK socket and the statistics. \<open>s\<close> is the socket the ACKs
  go to, the data socket unless another is given.
\<close>

definition recv_chunk_common_impl ::
    "recv_ctx \<Rightarrow> nat \<Rightarrow> bytes list \<Rightarrow> socket \<Rightarrow> frag_track_state
      \<Rightarrow> (recv_result \<times> bytes list \<times> socket \<times> frag_track_state) option" where
  "recv_chunk_common_impl ctx tm inbox s fs =
     do {
       let begin_ns = rc_clk ctx 0;
       (e, ticks, hb, have_hb, inbox) \<leftarrow> wait_first_data_chunk ctx begin_ns tm 1 IpcRtpsHeartbeatMsg False inbox;
       case e of
         FirstBlocked \<Rightarrow> Some (RecvBlocked, inbox, s, fs)
       | FirstFailed \<Rightarrow> Some (RecvFailed, inbox, s, fs)
       | FirstFound meta first_page \<Rightarrow>
           if cm_page_cnt meta = 1
           then do { (r, s) \<leftarrow> recv_single ctx meta first_page hb have_hb s; Some (r, inbox, s, fs) }
           else do {
             (a, placed) \<leftarrow> place_page first_page meta (fresh_assembly meta);
             if \<not> placed then Some (RecvFailed, inbox, s, fs)
             else do {
               let asm_begin = rc_clk ctx ticks;
               let eff_tm = effective_tm (rc_glob ctx) (cm_page_cnt meta) tm;
               let round_wait_ms = calc_round_wait_ms (rc_glob ctx) (cm_page_cnt meta) eff_tm;
               (r, v) \<leftarrow> recv_rounds RTPS_MAX_NACK_ROUND ctx asm_begin eff_tm round_wait_ms
                 (start_assembly (ticks + 1) inbox s fs meta hb have_hb a);
               (r, v) \<leftarrow> (case r of Some r \<Rightarrow> Some (r, v) | None \<Rightarrow> recv_finish ctx asm_begin v);
               Some (r, rv_inbox v, rv_sock v, rv_stats v)
             }
           }
     }"

text \<open>
  The entry points: a message of a topic, with or without the flat payload, and the request
  (\<open>ser_or_cli\<close>) or response of a service. ACKs and NACKs go to the socket given, else to the
  data socket; the messages are known by their type ids.
\<close>

definition chunk_rev_topic ::
    "recv_ctx \<Rightarrow> u32 \<Rightarrow> bool \<Rightarrow> nat \<Rightarrow> bytes list \<Rightarrow> socket \<Rightarrow> socket option \<Rightarrow> frag_track_state
      \<Rightarrow> (recv_result \<times> bytes list \<times> socket \<times> frag_track_state) option" where
  "chunk_rev_topic ctx topic_id out_payload tm inbox node ack_node fs =
     recv_chunk_common_impl (ctx\<lparr>rc_msg_id := topic_id, rc_want_payload := out_payload\<rparr>) tm inbox
       (case ack_node of None \<Rightarrow> node | Some s \<Rightarrow> s) fs"

definition chunk_rev_server ::
    "recv_ctx \<Rightarrow> u32 \<Rightarrow> u32 \<Rightarrow> nat \<Rightarrow> bool \<Rightarrow> bytes list \<Rightarrow> socket \<Rightarrow> socket option \<Rightarrow> frag_track_state
      \<Rightarrow> (recv_result \<times> bytes list \<times> socket \<times> frag_track_state) option" where
  "chunk_rev_server ctx request_id response_id tm ser_or_cli inbox node ack_node fs =
     recv_chunk_common_impl (ctx\<lparr>rc_msg_id := if ser_or_cli then request_id else response_id,
         rc_want_payload := False\<rparr>) tm inbox
       (case ack_node of None \<Rightarrow> node | Some s \<Rightarrow> s) fs"

section \<open>The passive receiver\<close>

datatype sniff_result = SniffBlocked | Sniffed bytes

record sniff_state =
  sn_ticks :: nat
  sn_have_meta :: bool
  sn_meta :: chunk_meta
  sn_asm :: assembly
  sn_begin :: nat
  sn_budget :: nat

definition sniff_timeout :: "recv_ctx \<Rightarrow> nat \<Rightarrow> nat \<Rightarrow> sniff_state \<Rightarrow> bool \<times> sniff_state" where
  "sniff_timeout ctx first_begin tm v =
     (if sn_have_meta v
      then (sn_budget v \<le> elapsed_ms ctx (sn_ticks v) (sn_begin v), v\<lparr>sn_ticks := sn_ticks v + 1\<rparr>)
      else if tm = invalid_value then (False, v)
      else (tm \<le> elapsed_ms ctx (sn_ticks v) first_begin, v\<lparr>sn_ticks := sn_ticks v + 1\<rparr>))"

text \<open>A first page: a complete message, or the start of an assembly.\<close>

definition sniff_first :: "recv_ctx \<Rightarrow> chunk_meta \<Rightarrow> bytes \<Rightarrow> sniff_state \<Rightarrow> (bytes option \<times> sniff_state) option" where
  "sniff_first ctx tentative page v =
     (let v = v\<lparr>sn_meta := tentative, sn_have_meta := True\<rparr> in
      if cm_page_cnt tentative = 1
      then (if length page \<noteq> unat (cm_total_size tentative) then Some (None, v\<lparr>sn_have_meta := False\<rparr>)
            else Some (Some page, v))
      else do {
        (a, placed) \<leftarrow> place_page page tentative (fresh_assembly tentative);
        let v = v\<lparr>sn_asm := a, sn_begin := rc_clk ctx (sn_ticks v), sn_ticks := sn_ticks v + 1,
                  sn_budget := min 500 (max 50 (unat (cm_page_cnt tentative) * 2))\<rparr>;
        if unat (cm_page_cnt tentative) \<le> asm_cnt a
        then Some (Some (asm_bytes a), v) else Some (None, v)
      })"

primrec sniff_loop ::
    "recv_ctx \<Rightarrow> nat \<Rightarrow> nat \<Rightarrow> sniff_state \<Rightarrow> bytes list \<Rightarrow> (sniff_result \<times> bytes list) option" where
  "sniff_loop ctx first_begin tm v [] =
     (if fst (sniff_timeout ctx first_begin tm v) then Some (Sniffed [], []) else Some (SniffBlocked, []))"
| "sniff_loop ctx first_begin tm v (page # rest) =
     (case sniff_timeout ctx first_begin tm v of
        (True, v) \<Rightarrow> Some (Sniffed [], page # rest)
      | (False, v) \<Rightarrow>
          if page = [] then Some (Sniffed [], rest)
          else (case parse_tail page of
              None \<Rightarrow> sniff_loop ctx first_begin tm v rest
            | Some tail \<Rightarrow>
                if \<not> valid_chunk_meta tail then sniff_loop ctx first_begin tm v rest
                else if is_rtps_control_frame (tm_msg_id tail) then sniff_loop ctx first_begin tm v rest
                else if tm_now_page tail = 0 \<or> tm_page_cnt tail < tm_now_page tail
                then sniff_loop ctx first_begin tm v rest
                else (let tentative = meta_of_tail tail 0 in
                  if length page \<noteq> expected_page_size tentative (tm_now_page tail)
                  then sniff_loop ctx first_begin tm v rest
                  else if \<not> sn_have_meta v
                  then (if tm_now_page tail \<noteq> 1 then sniff_loop ctx first_begin tm v rest
                        else do {
                          (out, v) \<leftarrow> sniff_first ctx tentative page v;
                          case out of Some b \<Rightarrow> Some (Sniffed b, rest) | None \<Rightarrow> sniff_loop ctx first_begin tm v rest
                        })
                  else if tm_msg_id tail = cm_msg_id (sn_meta v) \<and> tm_page_cnt tail = cm_page_cnt (sn_meta v)
                    \<and> tm_total_size tail = cm_total_size (sn_meta v)
                  then do {
                    (a, placed) \<leftarrow> place_page page (sn_meta v) (sn_asm v);
                    if unat (cm_page_cnt (sn_meta v)) \<le> asm_cnt a then Some (Sniffed (asm_bytes a), rest)
                    else sniff_loop ctx first_begin tm (v\<lparr>sn_asm := a\<rparr>) rest
                  }
                  else if tm_now_page tail = 1
                  then do {
                    (out, v) \<leftarrow> sniff_first ctx tentative page v;
                    case out of Some b \<Rightarrow> Some (Sniffed b, rest) | None \<Rightarrow> sniff_loop ctx first_begin tm v rest
                  }
                  else Some (Sniffed [], rest))))"

definition chunk_rev_sniff :: "recv_ctx \<Rightarrow> nat \<Rightarrow> bytes list \<Rightarrow> (sniff_result \<times> bytes list) option" where
  "chunk_rev_sniff ctx tm inbox =
     sniff_loop ctx (rc_clk ctx 0) tm
       \<lparr>sn_ticks = 1, sn_have_meta = False,
        sn_meta = \<lparr>cm_page_cnt = 0, cm_total_size = 0, cm_msg_id = 0, cm_sequence = 0\<rparr>,
        sn_asm = \<lparr>asm_bytes = [], asm_received = [], asm_cnt = 0\<rparr>, sn_begin = 0, sn_budget = 0\<rparr> inbox"

end
