(* ===== verification/ReceiverLaws.thy ===== *)
theory ReceiverLaws
  imports Receiver "HOL-Library.Sublist"
begin

text \<open>
  The receiving drivers never leave their buffers, and what they deliver is a complete message
  of received pages, acknowledged with its checksum.
\<close>

section \<open>Assemblies of received pages\<close>

definition asm_from :: "bytes set \<Rightarrow> chunk_meta \<Rightarrow> assembly \<Rightarrow> bool" where
  "asm_from seen meta a \<longleftrightarrow>
     (\<exists>pages S. message_pages meta pages \<and> placed meta pages S a \<and> (\<forall>i\<in>S. pages ! i \<in> seen))"

lemma message_pages_sequence [simp]:
  "message_pages (meta\<lparr>cm_sequence := q\<rparr>) pages = message_pages meta pages"
  by (simp add: message_pages_def meta_wf_def page_tail_def expected_page_size_def)

lemma asm_from_sequence [simp]: "asm_from seen (meta\<lparr>cm_sequence := q\<rparr>) a = asm_from seen meta a"
  by (simp add: asm_from_def placed_def)

lemma asm_from_mono: "asm_from seen meta a \<Longrightarrow> seen \<subseteq> seen' \<Longrightarrow> asm_from seen' meta a"
  unfolding asm_from_def by blast

text \<open>Pages that were not received yet may be anything; these stand in for them.\<close>

definition filler_page :: "chunk_meta \<Rightarrow> nat \<Rightarrow> bytes" where
  "filler_page meta i =
     replicate (expected_page_size meta (of_nat (i + 1)) - 12) 0 @
     tail_bytes \<lparr>mb_total_size = cm_total_size meta, mb_page_cnt = cm_page_cnt meta, mb_overflow = False,
                 mb_msg_id = cm_msg_id meta\<rparr> (of_nat (i + 1))"

lemma filler_message:
  assumes "meta_wf meta"
  shows "message_pages meta (map (filler_page meta) [0..<unat (cm_page_cnt meta)])"
proof -
  have "12 \<le> expected_page_size meta (of_nat (i + 1))" if "i < unat (cm_page_cnt meta)" for i
  proof -
    have u: "unat (of_nat (i + 1) :: u16) = i + 1"
      using that unat_less_u16 [of "cm_page_cnt meta"] by (intro of_nat_inj_u16) simp
    show ?thesis
      using expected_page_size_eq [OF assms, of "of_nat (i + 1)"] that assms
      unfolding u by (auto simp: meta_wf_def)
  qed
  then show ?thesis
    using assms by (simp add: message_pages_def filler_page_def parse_tail_bytes page_tail_def del: of_nat_add of_nat_Suc upt_Suc)
qed

lemma asm_from_fresh: "meta_wf meta \<Longrightarrow> asm_from {} meta (fresh_assembly meta)"
  using fresh_placed [OF filler_message, of meta] filler_message [of meta] unfolding asm_from_def by blast

lemma asm_from_page:
  assumes "asm_from seen meta a"
  shows "\<exists>a' ok. place_page f meta a = Some (a', ok) \<and> asm_from (insert f seen) meta a' \<and> asm_cnt a \<le> asm_cnt a'"
proof -
  obtain pages S where p: "message_pages meta pages" "placed meta pages S a" "\<forall>i\<in>S. pages ! i \<in> seen"
    using assms by (auto simp: asm_from_def)
  have same: ?thesis if "place_page f meta a = Some (a, ok)" for ok
    using that asm_from_mono [OF assms, of "insert f seen"] by auto
  have n: "length pages = unat (cm_page_cnt meta)" using p(1) by (simp add: message_pages_def)
  show ?thesis
  proof (cases "parse_tail f")
    case None
    then show ?thesis by (intro same [of False]) (simp add: place_page_def)
  next
    case (Some tail)
    let ?now = "tm_now_page tail"
    show ?thesis
    proof (cases "tm_page_cnt tail \<noteq> cm_page_cnt meta \<or> tm_total_size tail \<noteq> cm_total_size meta \<or>
        tm_msg_id tail \<noteq> cm_msg_id meta \<or> ?now = 0 \<or> cm_page_cnt meta < ?now \<or> length f \<noteq> expected_page_size meta ?now")
      case True
      then show ?thesis using Some by (intro same [of False]) (auto simp: place_page_def)
    next
      case False
      define i where "i = unat ?now - 1"
      have now: "1 \<le> unat ?now" "unat ?now \<le> unat (cm_page_cnt meta)"
        using False by (auto simp: word_less_nat_alt word_unat_eq_iff Suc_le_eq)
      then have i: "i < length pages" "i + 1 = unat ?now" using n by (simp_all add: i_def)
      have w: "of_nat (i + 1) = ?now" unfolding i(2) by simp
      have ft: "parse_tail f = Some (page_tail meta i)" "length f = expected_page_size meta (of_nat (i + 1))"
        using Some False w by (simp_all add: page_tail_def del: of_nat_add of_nat_Suc)
      show ?thesis
      proof (cases "i \<in> S")
        case True
        have "asm_received a ! (i + 1) \<noteq> 0" "length (asm_received a) = length pages + 1"
          using p(2) i True by (auto simp: placed_def)
        then show ?thesis
          using Some False i by (intro same [of True]) (simp add: place_page_def i(2) [symmetric])
      next
        case notin: False
        let ?pages = "pages[i := f]"
        have mp: "message_pages meta ?pages"
          using p(1) ft i(1) unfolding message_pages_def by (simp add: nth_list_update)
        have eqlen: "length f = length (pages ! i)" using p(1) ft(2) i(1) by (simp add: message_pages_def)
        obtain bs where bs: "length bs = length pages" "\<forall>i < length pages. length (bs ! i) = length (pages ! i)"
            "asm_bytes a = concat bs" "\<forall>i \<in> S. bs ! i = pages ! i"
          using p(2) by (auto simp: placed_def)
        have "\<exists>bs. length bs = length ?pages \<and> (\<forall>j < length ?pages. length (bs ! j) = length (?pages ! j)) \<and>
            asm_bytes a = concat bs \<and> (\<forall>j \<in> S. bs ! j = ?pages ! j)"
        proof (intro exI [of _ bs] conjI allI ballI impI)
          show "length (bs ! j) = length (?pages ! j)" if "j < length ?pages" for j
            using that bs(2) eqlen by (cases "j = i") simp_all
          show "bs ! j = ?pages ! j" if "j \<in> S" for j using that bs(4) notin by (cases "j = i") auto
        qed (use bs(1,3) in simp_all)
        then have pl: "placed meta ?pages S a" using p(2) by (simp add: placed_def)
        obtain a' where a': "place_page (?pages ! i) meta a = Some (a', True)" "placed meta ?pages (insert i S) a'"
          using place_page_message [OF mp _ pl, of i] i(1) by auto
        have "\<forall>j\<in>insert i S. ?pages ! j \<in> insert f seen" using p(3) i(1) notin by (auto simp: nth_list_update)
        then have "asm_from (insert f seen) meta a'" using mp a'(2) unfolding asm_from_def by blast
        moreover have "finite S" using p(2) finite_subset [of S "{..<length pages}"] by (auto simp: placed_def)
        then have "asm_cnt a \<le> asm_cnt a'"
          using a'(2) p(2) card_mono [of "insert i S" S] by (auto simp: placed_def)
        ultimately show ?thesis using a'(1) i(1) by auto
      qed
    qed
  qed
qed

lemma asm_from_complete:
  assumes "asm_from seen meta a" and "unat (cm_page_cnt meta) \<le> asm_cnt a"
  shows "\<exists>pages. message_pages meta pages \<and> set pages \<subseteq> seen \<and> asm_bytes a = concat pages"
proof -
  obtain pages S where p: "message_pages meta pages" "placed meta pages S a" "\<forall>i\<in>S. pages ! i \<in> seen"
    using assms by (auto simp: asm_from_def)
  have "length pages = unat (cm_page_cnt meta)" "S \<subseteq> {..<length pages}" "asm_cnt a = card S"
    using p(1,2) by (auto simp: message_pages_def placed_def)
  then have S: "S = {..<length pages}"
    using assms(2) card_mono [of "{..<length pages}" S] by (intro card_subset_eq) auto
  obtain bs where "length bs = length pages" "asm_bytes a = concat bs" "\<forall>i \<in> S. bs ! i = pages ! i"
    using p(2) by (auto simp: placed_def)
  then have "bs = pages" unfolding S by (intro nth_equalityI) auto
  moreover have "set pages \<subseteq> seen" using p(3) unfolding S by (auto simp: in_set_conv_nth)
  ultimately show ?thesis using p(1) \<open>asm_bytes a = concat bs\<close> by blast
qed

lemma asm_from_missing:
  assumes "asm_from seen meta a"
  shows "length (asm_received a) = unat (cm_page_cnt meta) + 1" "meta_wf meta"
    "asm_cnt a < unat (cm_page_cnt meta) \<Longrightarrow> missing_list (asm_received a) (unat (cm_page_cnt meta)) \<noteq> []"
proof -
  obtain pages S where p: "message_pages meta pages" "placed meta pages S a" using assms by (auto simp: asm_from_def)
  then have n: "length pages = unat (cm_page_cnt meta)" by (simp add: message_pages_def)
  show "length (asm_received a) = unat (cm_page_cnt meta) + 1" using p(2) n by (simp add: placed_def)
  show "meta_wf meta" using p(1) by (simp add: message_pages_def)
  show "missing_list (asm_received a) (unat (cm_page_cnt meta)) \<noteq> []" if "asm_cnt a < unat (cm_page_cnt meta)"
  proof -
    have "S \<noteq> {..<length pages}" "S \<subseteq> {..<length pages}" using that p(2) n by (auto simp: placed_def)
    then obtain i where i: "i < length pages" "i \<notin> S" by auto
    then have "asm_received a ! (i + 1) = 0" using p(2) by (auto simp: placed_def)
    then have "i + 1 \<in> set (missing_list (asm_received a) (unat (cm_page_cnt meta)))"
      using i n by (simp add: missing_list_def del: upt_Suc)
    then show ?thesis by force
  qed
qed

section \<open>The ACK and the NACK sent\<close>

text \<open>
  A frame the sender of \<open>meta\<close> accepts as an ACK with the checksum \<open>crc\<close>, whatever objects it
  parses the frame with.
\<close>

definition acknowledges :: "chunk_meta \<Rightarrow> u32 \<Rightarrow> bytes \<Rightarrow> bool" where
  "acknowledges meta crc frame \<longleftrightarrow>
     (\<forall>r r2. if check_ak2_id frame
        then (\<exists>m. ack2_deserialize r2 frame = Some m \<and> ack_matches (a2_ack m) meta \<and>
               ak_integrity_flags (a2_ack m) = INTEGRITY_FLAG_CRC32C \<and> ak_payload_crc32c (a2_ack m) = crc)
        else check_ak_id frame \<and> (\<exists>m. ack_deserialize r frame = Some m \<and> ack_matches m meta \<and>
               ak_integrity_flags m = INTEGRITY_FLAG_CRC32C \<and> ak_payload_crc32c m = crc))"

lemma send_ack_acknowledges:
  "\<exists>s' frame b. send_ack ok junk me s meta crc dza2 lost obs = Some s' \<and>
     send_chunk_with_retry ok s frame = (b, s') \<and> acknowledges meta crc frame"
proof (cases dza2)
  case True
  let ?m = "\<lparr>a2_ack = (ack_frame me meta crc)\<lparr>ak_base := ak_base (a2_ack IpcRtpsAck2Msg)\<rparr>,
    a2_lost_pages = lost, a2_observed_bps = obs\<rparr>"
  let ?w = "wire (ak_base (a2_ack ?m)) (concat (ack2_fields ?m))"
  have "acknowledges meta crc ?w"
    using ack2_deserialize_wire [of _ "ak_base (a2_ack ?m)" ?m]
    by (auto simp: acknowledges_def check_ak2_id_def check_id_wire IpcRtpsAck2Msg_def msg_base_init_def
        ack_frame_def ack_matches_def)
  moreover have "send_ack ok junk me s meta crc dza2 lost obs = Some (snd (send_chunk_with_retry ok s ?w))"
    using True by (simp add: send_ack_def ack2_serialize_wire)
  ultimately show ?thesis by (metis prod.collapse)
next
  case False
  let ?m = "ack_frame me meta crc"
  let ?w = "wire (ak_base ?m) (concat (ack_fields ?m))"
  have "acknowledges meta crc ?w"
    using ack_deserialize_wire [of _ "ak_base ?m" ?m]
    by (auto simp: acknowledges_def check_ak2_id_def check_ak_id_def check_id_wire IpcRtpsAckMsg_def msg_base_init_def
        ack_frame_def ack_matches_def kRtpsAckMsgId_def kRtpsAck2MsgId_def)
  moreover have "send_ack ok junk me s meta crc dza2 lost obs = Some (snd (send_chunk_with_retry ok s ?w))"
    using False by (simp add: send_ack_def ack_serialize_wire)
  ultimately show ?thesis by (metis prod.collapse)
qed

section \<open>The rounds of an assembly\<close>

text \<open>
  What every step of an assembly keeps: the pages placed are among the datagrams received, the
  message is the one announced by the first page (heartbeats may renew its sequence number),
  and the objects for the NACKs keep their kind.
\<close>

definition recv_inv :: "bytes set \<Rightarrow> chunk_meta \<Rightarrow> recv_state \<Rightarrow> bool" where
  "recv_inv seen meta v \<longleftrightarrow>
     asm_from seen meta (rv_asm v) \<and> (\<exists>q. rv_meta v = meta\<lparr>cm_sequence := q\<rparr>) \<and>
     mb_msg_id (nk_base (rv_nack v)) = kRtpsNackMsgId \<and>
     mb_msg_id (nb_base (rv_nb v)) = kRtpsNackBitmapMsgId"

lemma heartbeat_deserialize_total: "\<exists>hb'. heartbeat_deserialize hb buf = Some hb'"
proof (cases "length buf = hb_kWireSize")
  case True
  obtain r fs where "read_fields buf (deserialize_data_cut (hb_base hb) (of_nat (length buf)), 0)
      [2, 4, 4, 4, 4, 1, 2] = Some (r, fs)"
    using read_fields_safe [of buf "hb_base hb" 0 "[2, 4, 4, 4, 4, 1, 2]"] True by (auto simp: hb_kWireSize_def)
  then show ?thesis using True by (simp add: heartbeat_deserialize_def)
qed (simp add: heartbeat_deserialize_def)

lemma take_heartbeat_keeps:
  assumes "recv_inv seen meta v"
  shows "\<exists>v' budget'. take_heartbeat ctx rb page (v, budget) = Some (v', budget') \<and>
    recv_inv seen meta v' \<and> rv_inbox v' = rv_inbox v \<and> asm_cnt (rv_asm v') = asm_cnt (rv_asm v) \<and> budget' \<le> budget"
proof -
  obtain hb' where "heartbeat_deserialize (rv_hb v) page = Some hb'"
    using heartbeat_deserialize_total by blast
  then show ?thesis using assms by (auto simp: take_heartbeat_def recv_inv_def Let_def)
qed

lemma round_timeout_keeps:
  "round_timeout ctx rb ab etm v budget = (e, v') \<Longrightarrow> \<exists>t. v' = v\<lparr>rv_ticks := t\<rparr>"
  by (auto simp: round_timeout_def split: if_splits intro: exI [of _ "rv_ticks v"])

lemma recv_inv_ticks [simp]: "recv_inv seen meta (v\<lparr>rv_ticks := t\<rparr>) = recv_inv seen meta v"
  by (simp add: recv_inv_def)

lemma recv_inv_inbox [simp]: "recv_inv seen meta (v\<lparr>rv_inbox := t\<rparr>) = recv_inv seen meta v"
  by (simp add: recv_inv_def)

lemma recv_round_keeps:
  assumes "recv_inv seen meta v" and "set inbox \<subseteq> seen"
  shows "\<exists>e v'. recv_round ctx rb ab etm v budget inbox = Some (e, v') \<and> recv_inv seen meta v' \<and>
    suffix (rv_inbox v') inbox \<and> asm_cnt (rv_asm v) \<le> asm_cnt (rv_asm v')"
  using assms
proof (induction inbox arbitrary: v budget)
  case Nil
  obtain e v' where r: "round_timeout ctx rb ab etm v budget = (e, v')" by fastforce
  then show ?case using round_timeout_keeps [OF r] Nil.prems by (cases e) auto
next
  case (Cons page rest)
  obtain e v1 where r: "round_timeout ctx rb ab etm v budget = (e, v1)" by fastforce
  then obtain t where t: "v1 = v\<lparr>rv_ticks := t\<rparr>" using round_timeout_keeps by blast
  have i1: "recv_inv seen meta v1" using Cons.prems(1) t by simp
  have suf: "suffix q rest \<Longrightarrow> suffix q (page # rest)" for q by (simp add: suffix_ConsI)
  show ?case
  proof (cases e)
    case (Some x)
    then show ?thesis using r i1 t by simp
  next
    case None
    consider "page = []" | "page \<noteq> []" "check_hb_id page"
      | "page \<noteq> []" "\<not> check_hb_id page" "\<not> check_id page (rc_msg_id ctx)"
      | "page \<noteq> []" "\<not> check_hb_id page" "check_id page (rc_msg_id ctx)" by blast
    then show ?thesis
    proof cases
      case 1
      then show ?thesis using r None i1 t by (simp add: suffix_ConsI)
    next
      case 2
      obtain v2 b2 where h: "take_heartbeat ctx rb page (v1, budget) = Some (v2, b2)" "recv_inv seen meta v2"
          "asm_cnt (rv_asm v2) = asm_cnt (rv_asm v1)"
        using take_heartbeat_keeps [OF i1] by blast
      show ?thesis using Cons.IH [OF h(2), of b2] Cons.prems(2) r None 2 h t suf by auto
    next
      case 3
      then show ?thesis using Cons.IH [OF i1, of budget] Cons.prems(2) r None t suf by auto
    next
      case 4
      have "asm_from seen (rv_meta v1) (rv_asm v1)" using i1 by (auto simp: recv_inv_def)
      from asm_from_page [OF this, of page]
      obtain a ok where a: "place_page page (rv_meta v1) (rv_asm v1) = Some (a, ok)"
          "asm_from (insert page seen) (rv_meta v1) a" "asm_cnt (rv_asm v1) \<le> asm_cnt a" by blast
      have "insert page seen = seen" using Cons.prems(2) by auto
      then have "recv_inv seen meta (v1\<lparr>rv_asm := a\<rparr>)" using a(2) i1 by (auto simp: recv_inv_def)
      from Cons.IH [OF this, of budget] show ?thesis using Cons.prems(2) r None 4 a t suf by fastforce
    qed
  qed
qed

lemma meta_wf_page_cnt: "meta_wf meta \<Longrightarrow> cm_page_cnt meta \<noteq> 65535"
  by (auto simp: meta_wf_def udp_consts)

lemma recv_inv_lengths:
  assumes "recv_inv seen meta v"
  shows "length (asm_received (rv_asm v)) = unat (cm_page_cnt (rv_meta v)) + 1" "cm_page_cnt (rv_meta v) \<noteq> 65535"
    "cm_page_cnt (rv_meta v) = cm_page_cnt meta" "meta_wf meta"
    "\<not> recv_complete v \<Longrightarrow>
       missing_list (asm_received (rv_asm v)) (unat (cm_page_cnt (rv_meta v))) \<noteq> []"
  using assms asm_from_missing [of seen meta "rv_asm v"] meta_wf_page_cnt [of meta]
  by (auto simp: recv_inv_def recv_complete_def)

lemma send_round_nack_keeps:
  assumes "recv_inv seen meta v" and "\<not> recv_complete v"
  shows "\<exists>v'. send_round_nack ctx v = Some v' \<and> recv_inv seen meta v' \<and> rv_inbox v' = rv_inbox v"
proof -
  define v1 where "v1 = (if rv_lost v = 0
    then v\<lparr>rv_lost := of_nat (unat (cm_page_cnt (rv_meta v)) - asm_cnt (rv_asm v))\<rparr> else v)"
  have i: "recv_inv seen meta v1" "\<not> recv_complete v1" "rv_inbox v1 = rv_inbox v"
    using assms by (simp_all add: v1_def recv_inv_def recv_complete_def)
  note l = recv_inv_lengths [OF i(1)]
  have ids: "mb_msg_id (nk_base (rv_nack v1)) = kRtpsNackMsgId"
    "mb_msg_id (nb_base (rv_nb v1)) = kRtpsNackBitmapMsgId"
    using i(1) by (auto simp: recv_inv_def)
  obtain nk nb s' fs' where
    "send_nack_auto (rc_ok ctx) (rc_junk ctx) (rc_me ctx) (rc_track ctx) (rv_meta v1) (asm_received (rv_asm v1))
        (rv_nack v1) (rv_nb v1) (rv_bitmap_ok v1) (rv_sock v1, rv_stats v1) = Some (nk, nb, s', fs')"
    "mb_msg_id (nk_base nk) = kRtpsNackMsgId" "mb_msg_id (nb_base nb) = kRtpsNackBitmapMsgId"
    using send_nack_auto_facts [OF l(1,2) refl l(5) ids, OF i(2)] by blast
  then show ?thesis
    using i unfolding send_round_nack_def v1_def [symmetric] Let_def by (auto simp: recv_inv_def)
qed

lemma give_up_fails:
  assumes "recv_inv seen meta v"
  shows "\<exists>v'. give_up ctx v = Some (RecvFailed, v') \<and> rv_inbox v' = rv_inbox v"
proof -
  obtain st where "record_fragment_gaps (rc_track ctx) (rv_stats v) (asm_received (rv_asm v)) (cm_page_cnt (rv_meta v))
      False = Some st"
    using record_fragment_gaps_total [OF recv_inv_lengths(1) [OF assms]] by blast
  then show ?thesis by (simp add: give_up_def)
qed

text \<open>What a round ends with: a failed return, or a state for the next round.\<close>

definition round_result :: "bytes set \<Rightarrow> chunk_meta \<Rightarrow> bytes list \<Rightarrow> ((recv_result \<times> recv_state) + recv_state) option \<Rightarrow> bool" where
  "round_result seen meta inbox x \<longleftrightarrow>
     (\<exists>v'. rv_inbox v' = inbox \<and> (x = Some (Inl (RecvFailed, v')) \<or> x = Some (Inr v') \<and> recv_inv seen meta v'))"

lemma round_result_give_up:
  "recv_inv seen meta w \<Longrightarrow> rv_inbox w = inbox \<Longrightarrow> round_result seen meta inbox (map_option Inl (give_up ctx w))"
  using give_up_fails [of seen meta w ctx] by (auto simp: round_result_def)

lemma round_result_nack:
  "recv_inv seen meta w \<Longrightarrow> \<not> recv_complete w \<Longrightarrow> rv_inbox w = inbox \<Longrightarrow>
     round_result seen meta inbox (map_option Inr (send_round_nack ctx w))"
  using send_round_nack_keeps [of seen meta w ctx] by (auto simp: round_result_def)

lemma after_round_keeps:
  assumes "recv_inv seen meta v" and "\<not> recv_complete v"
  shows "round_result seen meta (rv_inbox v) (after_round ctx ab etm n before v)"
  using assms unfolding after_round_def Let_def
  by (auto intro!: round_result_give_up round_result_nack simp: recv_inv_def recv_complete_def)

lemma recv_rounds_keeps:
  assumes "recv_inv seen meta v" and "set (rv_inbox v) \<subseteq> seen"
  shows "\<exists>r v'. recv_rounds n ctx ab etm wait v = Some (r, v') \<and> suffix (rv_inbox v') (rv_inbox v) \<and>
    (case r of None \<Rightarrow> recv_inv seen meta v' | Some x \<Rightarrow> x = RecvBlocked \<or> x = RecvFailed)"
  using assms
proof (induction n arbitrary: v)
  case 0
  then show ?case by simp
next
  case (Suc n)
  show ?case
  proof (cases "recv_complete v")
    case True
    then show ?thesis using Suc.prems by simp
  next
    case False
    let ?v0 = "v\<lparr>rv_ticks := rv_ticks v + 1, rv_hb_seen := False\<rparr>"
    have "recv_inv seen meta ?v0" using Suc.prems(1) by (simp add: recv_inv_def)
    from recv_round_keeps [OF this Suc.prems(2)]
    obtain e v1 where r: "recv_round ctx (rc_clk ctx (rv_ticks v)) ab etm ?v0 wait (rv_inbox v) = Some (e, v1)"
        "recv_inv seen meta v1" "suffix (rv_inbox v1) (rv_inbox v)" by blast
    have sub: "set (rv_inbox v1) \<subseteq> seen" using set_mono_suffix [OF r(3)] Suc.prems(2) by blast
    show ?thesis
    proof (cases e)
      case RoundBlocked
      then show ?thesis using False r by simp
    next
      case RoundExpired
      obtain v2 where "give_up ctx v1 = Some (RecvFailed, v2)" "rv_inbox v2 = rv_inbox v1"
        using give_up_fails [OF r(2)] by blast
      then show ?thesis using RoundExpired False r by simp
    next
      case RoundOver
      show ?thesis
      proof (cases "recv_complete v1")
        case True
        then show ?thesis using RoundOver False r by simp
      next
        case nc: False
        from after_round_keeps [OF r(2) nc, of ctx ab etm "RTPS_MAX_NACK_ROUND - Suc n" "asm_cnt (rv_asm v)"]
        obtain v2 where v2: "rv_inbox v2 = rv_inbox v1"
            "after_round ctx ab etm (RTPS_MAX_NACK_ROUND - Suc n) (asm_cnt (rv_asm v)) v1 = Some (Inl (RecvFailed, v2)) \<or>
             after_round ctx ab etm (RTPS_MAX_NACK_ROUND - Suc n) (asm_cnt (rv_asm v)) v1 = Some (Inr v2) \<and> recv_inv seen meta v2"
          by (auto simp: round_result_def)
        then show ?thesis
        proof (elim disjE conjE)
          assume "after_round ctx ab etm (RTPS_MAX_NACK_ROUND - Suc n) (asm_cnt (rv_asm v)) v1 = Some (Inl (RecvFailed, v2))"
          then show ?thesis using RoundOver False nc r v2(1) by simp
        next
          assume a: "after_round ctx ab etm (RTPS_MAX_NACK_ROUND - Suc n) (asm_cnt (rv_asm v)) v1 = Some (Inr v2)"
            "recv_inv seen meta v2"
          have "suffix x (rv_inbox v2) \<Longrightarrow> suffix x (rv_inbox v)" for x
            using r(3) v2(1) suffix_order.trans by metis
          then show ?thesis using Suc.IH [OF a(2)] sub v2(1) RoundOver False nc r(1) a(1) by fastforce
        qed
      qed
    qed
  qed
qed

section \<open>What is delivered\<close>

text \<open>
  A datagram sequence that makes up the message the first page announced, and the payload handed
  to the caller: the framed stream for the message's own \<open>deserialize\<close>, or its flat segment.
\<close>

definition delivers :: "bytes list \<Rightarrow> chunk_meta \<Rightarrow> delivery \<Rightarrow> bool" where
  "delivers pages meta d \<longleftrightarrow> message_pages meta pages \<and>
     (case d of Deserialized b \<Rightarrow> b = concat pages
      | Borrowed seg \<Rightarrow> wire_is_dzflat (concat pages) \<and> de_frame_dzflat (concat pages) (length seg) = Some (Some seg))"

lemma de_frame_total:
  "\<exists>r. de_frame_dzflat stream n = Some r \<and> (\<forall>seg. r = Some seg \<longrightarrow> length seg = n)"
  using de_frame_loop_safe [of 0 n 0 stream "[]"] by (auto simp: de_frame_dzflat_def udp_consts Let_def phys_def)

lemma deliver_total:
  assumes "message_pages meta pages"
  shows "\<exists>out. deliver ctx (concat pages) = Some out \<and> (\<forall>d. out = Some d \<longrightarrow> delivers pages meta d)"
  using assms de_frame_total [of "concat pages" "unat (sh_total_size (header_of (concat pages)))"]
  by (auto simp: deliver_def delivers_def)

definition received_ok :: "recv_ctx \<Rightarrow> bytes set \<Rightarrow> socket \<Rightarrow> delivery \<Rightarrow> bool" where
  "received_ok ctx seen s' d \<longleftrightarrow>
     (\<exists>meta pages s frame b. delivers pages meta d \<and> set pages \<subseteq> seen \<and> cm_msg_id meta = rc_msg_id ctx \<and>
        send_chunk_with_retry (rc_ok ctx) s frame = (b, s') \<and> acknowledges meta (rc_crc ctx (concat pages)) frame)"

lemma recv_finish_ok:
  assumes "recv_inv seen meta v" and "cm_msg_id meta = rc_msg_id ctx"
  shows "\<exists>r v'. recv_finish ctx ab v = Some (r, v') \<and> rv_inbox v' = rv_inbox v \<and>
    (r = RecvFailed \<or> (\<exists>d. r = Received d \<and> received_ok ctx seen (rv_sock v') d))"
proof (cases "recv_complete v")
  case False
  then show ?thesis using give_up_fails [OF assms(1), of ctx] by (auto simp: recv_finish_def)
next
  case True
  obtain st where st: "record_fragment_gaps (rc_track ctx) (rv_stats v) (asm_received (rv_asm v))
      (cm_page_cnt (rv_meta v)) True = Some st"
    using record_fragment_gaps_total [OF recv_inv_lengths(1) [OF assms(1)]] by blast
  have m: "asm_from seen (rv_meta v) (rv_asm v)" "cm_msg_id (rv_meta v) = rc_msg_id ctx"
    using assms by (auto simp: recv_inv_def)
  obtain pages where p: "message_pages (rv_meta v) pages" "set pages \<subseteq> seen" "asm_bytes (rv_asm v) = concat pages"
    using asm_from_complete [OF m(1)] True by (auto simp: recv_complete_def)
  obtain out where out: "deliver ctx (concat pages) = Some out" "\<And>d. out = Some d \<Longrightarrow> delivers pages (rv_meta v) d"
    using deliver_total [OF p(1)] by blast
  show ?thesis
  proof (cases out)
    case None
    then show ?thesis using True st p(3) out by (simp add: recv_finish_def Let_def)
  next
    case (Some d)
    define obs where "obs = observed_rate (cm_total_size (rv_meta v)) (elapsed_ms ctx (rv_ticks v) ab)"
    obtain s' frame b where a: "send_ack (rc_ok ctx) (rc_junk ctx) (rc_me ctx) (rv_sock v) (rv_meta v)
          (rc_crc ctx (concat pages)) (rv_feedback_ok v) (rv_lost v) obs = Some s'"
        "send_chunk_with_retry (rc_ok ctx) (rv_sock v) frame = (b, s')"
        "acknowledges (rv_meta v) (rc_crc ctx (concat pages)) frame"
      using send_ack_acknowledges by blast
    have "received_ok ctx seen s' d"
      using a p(2) m(2) out(2) [OF Some] unfolding received_ok_def by blast
    then show ?thesis
      using True st p(3) out(1) Some a(1) by (simp add: recv_finish_def Let_def obs_def)
  qed
qed

section \<open>The first page\<close>

definition first_page_ok :: "recv_ctx \<Rightarrow> bytes set \<Rightarrow> chunk_meta \<Rightarrow> bytes \<Rightarrow> bool" where
  "first_page_ok ctx seen meta page \<longleftrightarrow> page \<in> seen \<and> meta_wf meta \<and> check_id page (rc_msg_id ctx) \<and>
     (\<exists>q tail. parse_tail page = Some tail \<and> meta = (meta_of_tail tail 0)\<lparr>cm_sequence := q\<rparr> \<and> tm_now_page tail \<noteq> 0 \<and>
        tm_now_page tail \<le> tm_page_cnt tail \<and> length page = expected_page_size meta (tm_now_page tail))"

lemma expected_page_size_sequence [simp]:
  "expected_page_size (meta\<lparr>cm_sequence := q\<rparr>) now = expected_page_size meta now"
  by (simp add: expected_page_size_def)

lemma meta_wf_sequence [simp]: "meta_wf (meta\<lparr>cm_sequence := q\<rparr>) = meta_wf meta"
  by (simp add: meta_wf_def)

lemma wait_first_data_chunk_ok:
  assumes "set inbox \<subseteq> seen"
  shows "\<exists>e ticks' hb' have' inbox'.
    wait_first_data_chunk ctx begin_ns tm ticks hb have_hb inbox = Some (e, ticks', hb', have', inbox') \<and>
    suffix inbox' inbox \<and> (\<forall>meta page. e = FirstFound meta page \<longrightarrow> first_page_ok ctx seen meta page)"
  using assms
proof (induction inbox arbitrary: ticks hb have_hb)
  case Nil
  then show ?case by simp
next
  case (Cons buf rest)
  have IH: "\<exists>e ticks' hb' have' inbox'.
      wait_first_data_chunk ctx begin_ns tm t h hv rest = Some (e, ticks', hb', have', inbox') \<and>
      suffix inbox' (buf # rest) \<and> (\<forall>meta page. e = FirstFound meta page \<longrightarrow> first_page_ok ctx seen meta page)" for t h hv
    using Cons.IH [of t h hv] Cons.prems by (fastforce intro: suffix_ConsI)
  show ?case
  proof (cases "tm \<noteq> invalid_value \<and> tm \<le> elapsed_ms ctx ticks begin_ns \<or> buf = []")
    case True
    then show ?thesis by (auto simp: Let_def suffix_ConsI)
  next
    case False
    define t1 where "t1 = (if tm \<noteq> invalid_value then ticks + 1 else ticks)"
    have fst1: "\<not> (tm \<noteq> invalid_value \<and> tm \<le> elapsed_ms ctx ticks begin_ns)" "buf \<noteq> []" using False by auto
    note unf = wait_first_data_chunk.simps(2) if_not_P [OF fst1(1)] if_not_P [OF fst1(2)] Let_def t1_def [symmetric]
    obtain hb1 where hb1: "heartbeat_deserialize hb buf = Some hb1" using heartbeat_deserialize_total by blast
    show ?thesis
    proof (cases "\<not> check_hb_id buf \<and> check_id buf (rc_msg_id ctx) \<and> (\<exists>tail. parse_tail buf = Some tail \<and>
        valid_chunk_meta tail \<and> \<not> (tm_now_page tail = 0 \<or> tm_page_cnt tail < tm_now_page tail) \<and>
        length buf = expected_page_size (meta_of_tail tail 0) (tm_now_page tail))")
      case True
      then obtain tail where t: "parse_tail buf = Some tail" "valid_chunk_meta tail" "tm_now_page tail \<noteq> 0"
          "tm_now_page tail \<le> tm_page_cnt tail" "length buf = expected_page_size (meta_of_tail tail 0) (tm_now_page tail)"
        by auto
      define meta where "meta = (if have_hb \<and> hb_matches hb (meta_of_tail tail 0)
        then (meta_of_tail tail 0)\<lparr>cm_sequence := hb_sequence hb\<rparr> else meta_of_tail tail 0)"
      have mq: "\<exists>q. meta = (meta_of_tail tail 0)\<lparr>cm_sequence := q\<rparr>"
        by (auto simp: meta_def meta_of_tail_def)
      have w: "meta_wf (meta_of_tail tail 0)" using t(2) valid_chunk_meta_wf [of tail 0] by simp
      have "first_page_ok ctx seen meta buf"
        using True t mq w Cons.prems by (auto simp: first_page_ok_def)
      moreover have "wait_first_data_chunk ctx begin_ns tm ticks hb have_hb (buf # rest) =
          Some (FirstFound meta buf, t1, hb, have_hb, rest)"
        using True t unfolding unf by (auto simp: meta_def)
      ultimately show ?thesis by (simp add: suffix_ConsI)
    next
      case False
      then have "\<exists>h hv. wait_first_data_chunk ctx begin_ns tm ticks hb have_hb (buf # rest) =
          wait_first_data_chunk ctx begin_ns tm t1 h hv rest"
        using hb1 unfolding unf by (auto split: option.split)
      then show ?thesis using IH by metis
    qed
  qed
qed

lemma recv_single_ok:
  assumes "first_page_ok ctx seen meta page" and "cm_page_cnt meta = 1" and "cm_msg_id meta = rc_msg_id ctx"
  shows "\<exists>r s'. recv_single ctx meta page hb have_hb s = Some (r, s') \<and>
    (r = RecvFailed \<or> (\<exists>d. r = Received d \<and> received_ok ctx seen s' d))"
proof -
  obtain q tail where t: "parse_tail page = Some tail" "meta = (meta_of_tail tail 0)\<lparr>cm_sequence := q\<rparr>"
      "tm_now_page tail \<noteq> 0" "tm_now_page tail \<le> tm_page_cnt tail" "length page = expected_page_size meta (tm_now_page tail)"
      "meta_wf meta" "page \<in> seen"
    using assms(1) by (auto simp: first_page_ok_def)
  have "tm_page_cnt tail = 1" using t(2) assms(2) by (simp add: meta_of_tail_def)
  then have now: "tm_now_page tail = 1" using t(3,4) by (simp add: word_le_nat_alt word_unat_eq_iff)
  have mp: "message_pages meta [page]"
    using t now assms(2) by (simp add: message_pages_def page_tail_def meta_of_tail_def)
  obtain out where out: "deliver ctx page = Some out" "\<And>d. out = Some d \<Longrightarrow> delivers [page] meta d"
    using deliver_total [OF mp, of ctx] by auto
  show ?thesis
  proof (cases "length page \<noteq> unat (cm_total_size meta) \<or> out = None")
    case True
    then show ?thesis using out by (auto simp: recv_single_def Let_def)
  next
    case False
    then obtain d where d: "out = Some d" by auto
    define fb where "fb = (have_hb \<and> hb_matches hb meta \<and> hb_flag hb kFlagRateFeedback)"
    obtain s' frame b where a: "send_ack (rc_ok ctx) (rc_junk ctx) (rc_me ctx) s meta (rc_crc ctx page) fb 0 0 = Some s'"
        "send_chunk_with_retry (rc_ok ctx) s frame = (b, s')" "acknowledges meta (rc_crc ctx page) frame"
      using send_ack_acknowledges by blast
    have "received_ok ctx seen s' d"
      unfolding received_ok_def using out(2) [OF d] t(7) assms(3) a(2,3)
      by (intro exI [of _ meta] exI [of _ "[page]"] exI [of _ s] exI [of _ frame] exI [of _ b]) simp
    then show ?thesis using False d out(1) a(1) by (simp add: recv_single_def fb_def Let_def)
  qed
qed

section \<open>The drivers\<close>

lemma check_id_tail: "check_id page i \<Longrightarrow> parse_tail page = Some tail \<Longrightarrow> tm_msg_id tail = i"
  by (auto simp: check_id_def parse_tail_def udp_consts split: if_splits)

lemma recv_impl_ok:
  "\<exists>r inbox' s' fs'. recv_chunk_common_impl ctx tm inbox s fs = Some (r, inbox', s', fs') \<and> suffix inbox' inbox \<and>
     (r = RecvBlocked \<or> r = RecvFailed \<or> (\<exists>d. r = Received d \<and> received_ok ctx (set inbox) s' d))"
proof -
  obtain e ticks hb have_hb inbox1 where w:
      "wait_first_data_chunk ctx (rc_clk ctx 0) tm 1 IpcRtpsHeartbeatMsg False inbox = Some (e, ticks, hb, have_hb, inbox1)"
      "suffix inbox1 inbox" "\<And>meta page. e = FirstFound meta page \<Longrightarrow> first_page_ok ctx (set inbox) meta page"
    using wait_first_data_chunk_ok [OF subset_refl] by blast
  show ?thesis
  proof (cases e)
    case (FirstFound meta page)
    then have fp: "first_page_ok ctx (set inbox) meta page" using w(3) by blast
    then have mf: "meta_wf meta" "page \<in> set inbox" "cm_msg_id meta = rc_msg_id ctx"
      using check_id_tail by (auto simp: first_page_ok_def meta_of_tail_def)
    show ?thesis
    proof (cases "cm_page_cnt meta = 1")
      case True
      then show ?thesis
        using recv_single_ok [OF fp True mf(3), of hb have_hb s] FirstFound w(1,2)
        by (auto simp: recv_chunk_common_impl_def)
    next
      case multi: False
      obtain a ok where a: "place_page page meta (fresh_assembly meta) = Some (a, ok)" "asm_from (insert page {}) meta a"
        using asm_from_page [OF asm_from_fresh [OF mf(1)], of page] by blast
      define v0 where "v0 = start_assembly (ticks + 1) inbox1 s fs meta hb have_hb a"
      have "asm_from (set inbox) meta a" using asm_from_mono [OF a(2)] mf(2) by simp
      then have i0: "recv_inv (set inbox) meta v0"
        by (auto simp: v0_def recv_inv_def start_assembly_def Let_def IpcRtpsNackMsg_def IpcRtpsNackBitmapMsg_def msg_base_init_def
            intro: exI [of _ "cm_sequence meta"])
      have ib0: "rv_inbox v0 = inbox1" by (simp add: v0_def start_assembly_def Let_def)
      define etm where "etm = effective_tm (rc_glob ctx) (cm_page_cnt meta) tm"
      define wt where "wt = calc_round_wait_ms (rc_glob ctx) (cm_page_cnt meta) etm"
      have "set (rv_inbox v0) \<subseteq> set inbox" using ib0 w(2) set_mono_suffix by metis
      from recv_rounds_keeps [OF i0 this]
      obtain r v1 where r: "recv_rounds RTPS_MAX_NACK_ROUND ctx (rc_clk ctx ticks) etm wt v0 = Some (r, v1)"
          "suffix (rv_inbox v1) inbox1" "case r of None \<Rightarrow> recv_inv (set inbox) meta v1 | Some x \<Rightarrow> x = RecvBlocked \<or> x = RecvFailed"
        unfolding ib0 by blast
      have suf: "suffix (rv_inbox v1) inbox" using r(2) w(2) suffix_order.trans by blast
      show ?thesis
      proof (cases ok)
        case False
        then show ?thesis using FirstFound w(1,2) multi a(1) by (simp add: recv_chunk_common_impl_def)
      next
        case True
        have run: "recv_chunk_common_impl ctx tm inbox s fs =
            do { (r, v) \<leftarrow> (case r of Some r \<Rightarrow> Some (r, v1) | None \<Rightarrow> recv_finish ctx (rc_clk ctx ticks) v1);
                 Some (r, rv_inbox v, rv_sock v, rv_stats v) }"
          using r(1) a(1) True multi unfolding recv_chunk_common_impl_def Let_def w(1) FirstFound etm_def wt_def v0_def
          by simp
        show ?thesis
        proof (cases r)
          case None
          then show ?thesis using recv_finish_ok [of "set inbox" meta v1 ctx "rc_clk ctx ticks"] r(3) mf(3) suf
            unfolding run by auto
        next
          case (Some x)
          then show ?thesis using r(3) suf unfolding run by auto
        qed
      qed
    qed
  qed (use w in \<open>simp_all add: recv_chunk_common_impl_def\<close>)
qed

text \<open>
  C4. Whatever datagrams arrive, the reliable receiver reads and writes within its buffers. When it
  delivers, the payload is a complete message of the expected type, put together from datagrams
  that were received, and the last frame it handed to the socket is an ACK the sender of that
  message accepts, with the checksum of the payload.
\<close>

theorem recv_delivers_message:
  "\<exists>r inbox' s' fs'. recv_chunk_common_impl ctx tm inbox s fs = Some (r, inbox', s', fs') \<and> suffix inbox' inbox \<and>
     (\<forall>d. r = Received d \<longrightarrow> received_ok ctx (set inbox) s' d)"
  using recv_impl_ok [of ctx tm inbox s fs] by auto

definition example_ctx :: recv_ctx where
  "example_ctx = \<lparr>rc_clk = (\<lambda>k. 0), rc_ok = (\<lambda>k. True), rc_junk = (\<lambda>k. 0), rc_me = 9, rc_track = True, rc_glob = 0,
     rc_msg_id = 7, rc_want_payload = False, rc_sse42 = False, rc_u8 = (\<lambda>c b. c), rc_u64 = (\<lambda>c b. 0)\<rparr>"

lemma example_wire: "wire (msg_base_init 7) [1, 2, 3] = [1, 2, 3, 0, 1, 0, 1, 0, 0, 0, 15, 0, 0, 0, 7]"
  by code_simp

lemma example_frame:
  fixes f defines "f \<equiv> [1, 2, 3, 0, 1, 0, 1, 0, 0, 0, 15, 0, 0, 0, (7 :: byte)]"
  shows "length f = 15" "f \<noteq> []" "\<not> check_hb_id f" "check_id f 7" "\<not> check_hb_id [1]" "\<not> check_id [1] 7"
    "\<not> wire_is_dzflat f" "parse_tail [1] = None"
    "parse_tail f = Some \<lparr>tm_page_cnt = 1, tm_now_page = 1, tm_total_size = 15, tm_msg_id = 7\<rparr>"
  unfolding f_def by code_simp+

lemma example_received:
  "\<exists>s'. recv_chunk_common_impl example_ctx 100 [[1], wire (msg_base_init 7) [1, 2, 3], [4]] \<lparr>sk_calls = 0, sk_out = []\<rparr> frag_track_init =
     Some (Received (Deserialized (wire (msg_base_init 7) [1, 2, 3])), [[4]], s', frag_track_init)"
proof -
  define f where "f = [1, 2, 3, 0, 1, 0, 1, 0, 0, 0, 15, 0, 0, 0, (7 :: byte)]"
  obtain s' where s': "send_ack (\<lambda>k. True) (\<lambda>k. 0) 9 \<lparr>sk_calls = 0, sk_out = []\<rparr>
      \<lparr>cm_page_cnt = 1, cm_total_size = 15, cm_msg_id = 7, cm_sequence = 0\<rparr> (rc_crc example_ctx f) False 0 0 = Some s'"
    using send_ack_acknowledges by blast
  have ctx: "rc_clk example_ctx k = 0" "rc_ok example_ctx = (\<lambda>k. True)" "rc_junk example_ctx = (\<lambda>k. 0)" "rc_me example_ctx = 9"
    "rc_msg_id example_ctx = 7" "\<not> rc_want_payload example_ctx" for k by (simp_all add: example_ctx_def)
  show ?thesis
    unfolding example_wire f_def [symmetric]
    by (simp add: recv_chunk_common_impl_def ctx example_frame [folded f_def] invalid_value_def elapsed_ms_def valid_chunk_meta_def
      udp_consts meta_of_tail_def expected_page_size_def wrap64_def recv_single_def deliver_def s')
qed

theorem recv_delivers_message_witness:
  "\<exists>s'. received_ok example_ctx (set [[1], wire (msg_base_init 7) [1, 2, 3], [4]]) s'
     (Deserialized (wire (msg_base_init 7) [1, 2, 3]))"
  using recv_delivers_message [of example_ctx 100 "[[1], wire (msg_base_init 7) [1, 2, 3], [4]]"
      "\<lparr>sk_calls = 0, sk_out = []\<rparr>" frag_track_init] example_received
  by auto

section \<open>The passive receiver\<close>

definition sniff_inv :: "bytes set \<Rightarrow> sniff_state \<Rightarrow> bool" where
  "sniff_inv seen v \<longleftrightarrow> (sn_have_meta v \<longrightarrow> asm_from seen (sn_meta v) (sn_asm v))"

definition sniffed_ok :: "bytes set \<Rightarrow> bytes \<Rightarrow> bool" where
  "sniffed_ok seen b \<longleftrightarrow> (\<exists>meta pages. message_pages meta pages \<and> set pages \<subseteq> seen \<and> b = concat pages)"

lemma sniff_page_ok:
  assumes "asm_from seen meta a" and "page \<in> seen"
  shows "\<exists>a' ok. place_page page meta a = Some (a', ok) \<and> asm_from seen meta a' \<and>
    (unat (cm_page_cnt meta) \<le> asm_cnt a' \<longrightarrow> sniffed_ok seen (asm_bytes a'))"
proof -
  obtain a' ok where a: "place_page page meta a = Some (a', ok)" "asm_from (insert page seen) meta a'"
    using asm_from_page [OF assms(1)] by blast
  have "asm_from seen meta a'" using a(2) assms(2) by (simp add: insert_absorb)
  then show ?thesis using a(1) asm_from_complete unfolding sniffed_ok_def by blast
qed

lemma sniff_first_ok:
  assumes "page \<in> seen" and "parse_tail page = Some tail" and "valid_chunk_meta tail"
    and "length page = expected_page_size (meta_of_tail tail 0) (tm_now_page tail)" and "tm_now_page tail = 1"
  shows "\<exists>out v'. sniff_first ctx (meta_of_tail tail 0) page v = Some (out, v') \<and>
    (case out of None \<Rightarrow> sniff_inv seen v' | Some b \<Rightarrow> sniffed_ok seen b)"
proof -
  define meta where "meta = meta_of_tail tail 0"
  have wf: "meta_wf meta" using assms(3) valid_chunk_meta_wf [of tail 0] by (simp add: meta_def)
  show ?thesis
  proof (cases "cm_page_cnt meta = 1")
    case True
    have "message_pages meta [page]"
      using assms wf True by (simp add: message_pages_def page_tail_def meta_def meta_of_tail_def)
    then have "sniffed_ok seen page"
      using assms(1) unfolding sniffed_ok_def by (intro exI [of _ meta] exI [of _ "[page]"]) simp
    then show ?thesis
      using True by (auto simp: sniff_first_def meta_def [symmetric] Let_def sniff_inv_def)
  next
    case False
    have "asm_from seen meta (fresh_assembly meta)" using asm_from_mono [OF asm_from_fresh [OF wf]] by simp
    then obtain a ok where "place_page page meta (fresh_assembly meta) = Some (a, ok)" "asm_from seen meta a"
        "unat (cm_page_cnt meta) \<le> asm_cnt a \<longrightarrow> sniffed_ok seen (asm_bytes a)"
      using sniff_page_ok [OF _ assms(1)] by blast
    then show ?thesis
      using False by (auto simp: sniff_first_def meta_def [symmetric] Let_def sniff_inv_def)
  qed
qed

lemma sniff_timeout_keeps: "sniff_timeout ctx fb tm v = (e, v') \<Longrightarrow> \<exists>t. v' = v\<lparr>sn_ticks := t\<rparr>"
  by (auto simp: sniff_timeout_def split: if_splits intro: exI [of _ "sn_ticks v"])

definition sniff_result_ok :: "bytes set \<Rightarrow> bytes list \<Rightarrow> (sniff_result \<times> bytes list) option \<Rightarrow> bool" where
  "sniff_result_ok seen inbox x \<longleftrightarrow> (\<exists>r inbox'. x = Some (r, inbox') \<and> suffix inbox' inbox \<and>
     (\<forall>b. r = Sniffed b \<longrightarrow> b = [] \<or> sniffed_ok seen b))"

lemma sniff_result_later: "sniff_result_ok seen rest x \<Longrightarrow> sniff_result_ok seen (page # rest) x"
  by (auto simp: sniff_result_ok_def suffix_ConsI)

lemma sniff_result_now [simp]:
  "sniff_result_ok seen inbox (Some (Sniffed b, inbox')) \<longleftrightarrow> suffix inbox' inbox \<and> (b = [] \<or> sniffed_ok seen b)"
  "sniff_result_ok seen inbox (Some (SniffBlocked, inbox')) \<longleftrightarrow> suffix inbox' inbox"
  by (auto simp: sniff_result_ok_def)

lemma sniff_loop_ok:
  assumes "sniff_inv seen v" and "set inbox \<subseteq> seen"
  shows "sniff_result_ok seen inbox (sniff_loop ctx fb tm v inbox)"
  using assms
proof (induction inbox arbitrary: v)
  case Nil
  then show ?case by simp
next
  case (Cons page rest)
  obtain e v1 where r: "sniff_timeout ctx fb tm v = (e, v1)" by fastforce
  have i1: "sniff_inv seen v1" using Cons.prems(1) sniff_timeout_keeps [OF r] by (auto simp: sniff_inv_def)
  have next_ok: "sniff_inv seen v2 \<Longrightarrow> sniff_result_ok seen (page # rest) (sniff_loop ctx fb tm v2 rest)" for v2
    using Cons.IH [of v2] Cons.prems(2) sniff_result_later by auto
  have pin: "page \<in> seen" using Cons.prems(2) by simp
  have first: "sniff_result_ok seen (page # rest)
      (do { (out, v) \<leftarrow> sniff_first ctx (meta_of_tail tail 0) page v1;
            case out of Some b \<Rightarrow> Some (Sniffed b, rest) | None \<Rightarrow> sniff_loop ctx fb tm v rest })"
    if parse: "parse_tail page = Some tail" and valid: "valid_chunk_meta tail" and one: "tm_now_page tail = 1"
      and size: "length page = expected_page_size (meta_of_tail tail 0) (tm_now_page tail)" for tail
  proof -
    obtain out v2 where o: "sniff_first ctx (meta_of_tail tail 0) page v1 = Some (out, v2)"
        "case out of None \<Rightarrow> sniff_inv seen v2 | Some b \<Rightarrow> sniffed_ok seen b"
      using sniff_first_ok [OF pin parse valid size one] by blast
    then show ?thesis using next_ok by (cases out) (simp_all add: suffix_ConsI)
  qed
  have more: "sniff_result_ok seen (page # rest)
      (do { (a, placed) \<leftarrow> place_page page (sn_meta v1) (sn_asm v1);
            if unat (cm_page_cnt (sn_meta v1)) \<le> asm_cnt a then Some (Sniffed (asm_bytes a), rest)
            else sniff_loop ctx fb tm (v1\<lparr>sn_asm := a\<rparr>) rest })" if "sn_have_meta v1"
  proof -
    have "asm_from seen (sn_meta v1) (sn_asm v1)" using i1 that by (simp add: sniff_inv_def)
    then obtain a ok where a: "place_page page (sn_meta v1) (sn_asm v1) = Some (a, ok)" "asm_from seen (sn_meta v1) a"
        "unat (cm_page_cnt (sn_meta v1)) \<le> asm_cnt a \<longrightarrow> sniffed_ok seen (asm_bytes a)"
      using sniff_page_ok [OF _ pin] by blast
    then show ?thesis using next_ok [of "v1\<lparr>sn_asm := a\<rparr>"] by (simp add: sniff_inv_def suffix_ConsI)
  qed
  show ?case
  proof (cases e)
    case True
    then show ?thesis using r by simp
  next
    case False
    show ?thesis
      using next_ok [OF i1] first more
      by (auto simp: r False Let_def suffix_ConsI split: option.split simp del: bind_split)
  qed
qed

text \<open>
  The passive receiver stays within its buffers on every sequence of datagrams; what it returns is
  empty (a timeout, or a message given up) or one complete message made of datagrams it read.
\<close>

theorem sniff_returns_message:
  "\<exists>r inbox'. chunk_rev_sniff ctx tm inbox = Some (r, inbox') \<and> suffix inbox' inbox \<and>
     (\<forall>b. r = Sniffed b \<longrightarrow> b = [] \<or> sniffed_ok (set inbox) b)"
  using sniff_loop_ok [of "set inbox" "\<lparr>sn_ticks = 1, sn_have_meta = False,
        sn_meta = \<lparr>cm_page_cnt = 0, cm_total_size = 0, cm_msg_id = 0, cm_sequence = 0\<rparr>,
        sn_asm = \<lparr>asm_bytes = [], asm_received = [], asm_cnt = 0\<rparr>, sn_begin = 0, sn_budget = 0\<rparr>" inbox]
  by (simp add: chunk_rev_sniff_def sniff_result_ok_def sniff_inv_def)

theorem sniff_returns_message_witness:
  "sniffed_ok (set [[1], wire (msg_base_init 7) [1, 2, 3]]) (wire (msg_base_init 7) [1, 2, 3])"
proof -
  have "chunk_rev_sniff example_ctx 100 [[1], wire (msg_base_init 7) [1, 2, 3]] =
      Some (Sniffed (wire (msg_base_init 7) [1, 2, 3]), [])"
    unfolding example_wire
    by (simp add: chunk_rev_sniff_def sniff_timeout_def example_frame example_ctx_def invalid_value_def elapsed_ms_def
      valid_chunk_meta_def is_rtps_control_frame_def control_ids udp_consts meta_of_tail_def expected_page_size_def
      wrap64_def sniff_first_def)
  then show ?thesis
    using sniff_returns_message [of example_ctx 100 "[[1], wire (msg_base_init 7) [1, 2, 3]]"]
    by (auto simp: example_wire)
qed

end
