(* ===== verification/SenderLaws.thy ===== *)
theory SenderLaws
  imports Sender ReceiverLaws
begin

text \<open>
  What the sending driver guarantees: it returns, a confirmed message was acknowledged by a frame
  that carries its sequence number and checksum, and every datagram it sends belongs to the
  message.
\<close>

section \<open>Reading frames of any content\<close>

lemma read_fields_any:
  assumes "unat (mb_total_size (fst r)) \<le> length buf"
  shows "\<exists>r' fs. read_fields buf r ns = Some (r', fs) \<and> mb_total_size (fst r') = mb_total_size (fst r) \<and>
    mb_msg_id (fst r') = mb_msg_id (fst r)"
  using assms
proof (induction ns arbitrary: r)
  case Nil
  then show ?case by simp
next
  case (Cons n ns)
  obtain m off where r: "r = (m, off)" by fastforce
  obtain m' bs off' where g: "adapt_memcpy_tods m False (Some buf) off n = Some (m', bs, off')"
    using adapt_memcpy_tods_safe [of m buf False off n] Cons.prems r by (auto simp: split_paired_Ex)
  then have t: "mb_total_size m' = mb_total_size m" "mb_msg_id m' = mb_msg_id m"
    using adapt_memcpy_tods_total by metis+
  then show ?case using Cons.IH [of "(m', off')"] Cons.prems r g by (auto simp: get_field_def)
qed

lemma cut_total: "length buf < 2 ^ 32 \<Longrightarrow> unat (mb_total_size (deserialize_data_cut m (of_nat (length buf)))) \<le> length buf"
  using deserialize_data_cut_total [of buf m] by simp

lemma cut_same_id:
  "mb_msg_id m = mb_msg_id m' \<Longrightarrow> deserialize_data_cut m n = deserialize_data_cut m' n"
  by (simp add: deserialize_data_cut_def)

lemma cut_id [simp]: "mb_msg_id (deserialize_data_cut m n) = mb_msg_id m"
  by (simp add: deserialize_data_cut_def)

lemma ack_deserialize_any:
  assumes "length buf < 2 ^ 32"
  shows "\<exists>m'. ack_deserialize m buf = Some m' \<and> mb_msg_id (ak_base m') = mb_msg_id (ak_base m) \<and>
    (if 35 \<le> length buf
     then \<forall>m0. mb_msg_id (ak_base m0) = mb_msg_id (ak_base m) \<longrightarrow> ack_deserialize m0 buf = Some m'
     else ak_sequence m' = ak_sequence m \<and> ak_integrity_flags m' = ak_integrity_flags m \<and>
          ak_payload_crc32c m' = ak_payload_crc32c m) \<and>
    (\<forall>m0. mb_msg_id (ak_base m0) = mb_msg_id (ak_base m) \<longrightarrow>
       (\<exists>m1. ack_deserialize m0 buf = Some m1 \<and> ak_page_cnt m1 = ak_page_cnt m' \<and> ak_total_size m1 = ak_total_size m' \<and>
          ak_data_msg_id m1 = ak_data_msg_id m' \<and> (min_size_for_seq \<le> length buf \<longrightarrow> ak_sequence m1 = ak_sequence m')))"
proof -
  let ?b = "deserialize_data_cut (ak_base m) (of_nat (length buf))"
  obtain r1 fs1 where r1: "read_fields buf (?b, 0) [2, 4, 4, 4] = Some (r1, fs1)"
      "mb_total_size (fst r1) = mb_total_size ?b" "mb_msg_id (fst r1) = mb_msg_id ?b"
    using read_fields_any [of "(?b, 0)" buf] cut_total [OF assms] by fastforce
  then obtain r2 fs2 where r2: "read_fields buf r1 [4] = Some (r2, fs2)"
      "mb_total_size (fst r2) = mb_total_size ?b" "mb_msg_id (fst r2) = mb_msg_id ?b"
    using read_fields_any [of r1 buf] cut_total [OF assms] by metis
  then obtain r3 fs3 where r3: "read_fields buf r2 [1, 4] = Some (r3, fs3)" "mb_msg_id (fst r3) = mb_msg_id ?b"
    using read_fields_any [of r2 buf] cut_total [OF assms] by metis
  have "\<exists>m'. ack_deserialize m buf = Some m' \<and> mb_msg_id (ak_base m') = mb_msg_id (ak_base m) \<and>
    (if 35 \<le> length buf
     then \<forall>m0. mb_msg_id (ak_base m0) = mb_msg_id (ak_base m) \<longrightarrow> ack_deserialize m0 buf = Some m'
     else ak_sequence m' = ak_sequence m \<and> ak_integrity_flags m' = ak_integrity_flags m \<and>
          ak_payload_crc32c m' = ak_payload_crc32c m)"
  proof (cases "35 \<le> length buf")
    case True
    define m' where "m' = \<lparr>ak_base = fst r3, ak_page_cnt = of_le (fs1 ! 0), ak_total_size = of_le (fs1 ! 1),
      ak_data_msg_id = of_le (fs1 ! 2), ak_receiver_id = of_le (fs1 ! 3), ak_sequence = of_le (fs2 ! 0),
      ak_integrity_flags = of_le (fs3 ! 0), ak_payload_crc32c = of_le (fs3 ! 1)\<rparr>"
    have "ack_deserialize m0 buf = Some m'" if id: "mb_msg_id (ak_base m0) = mb_msg_id (ak_base m)" for m0
      using True r1(1) r2(1) r3(1) unfolding ack_deserialize_def cut_same_id [OF id] m'_def
      by (cases m0) (simp add: min_size_for_seq_def min_size_for_crc_def Let_def del: mapM.simps)
    moreover have "mb_msg_id (ak_base m') = mb_msg_id (ak_base m)" using r3(2) by (simp add: m'_def)
    ultimately show ?thesis using True by (intro exI [of _ m']) simp
  next
    case False
    then show ?thesis using r1 by (simp add: ack_deserialize_def min_size_for_seq_def min_size_for_crc_def Let_def del: mapM.simps)
  qed
  then obtain m' where m': "ack_deserialize m buf = Some m'" "mb_msg_id (ak_base m') = mb_msg_id (ak_base m)"
      "if 35 \<le> length buf
       then \<forall>m0. mb_msg_id (ak_base m0) = mb_msg_id (ak_base m) \<longrightarrow> ack_deserialize m0 buf = Some m'
       else ak_sequence m' = ak_sequence m \<and> ak_integrity_flags m' = ak_integrity_flags m \<and>
            ak_payload_crc32c m' = ak_payload_crc32c m" by blast
  have "\<exists>m1. ack_deserialize m0 buf = Some m1 \<and> ak_page_cnt m1 = of_le (fs1 ! 0) \<and> ak_total_size m1 = of_le (fs1 ! 1) \<and>
      ak_data_msg_id m1 = of_le (fs1 ! 2) \<and> (min_size_for_seq \<le> length buf \<longrightarrow> ak_sequence m1 = of_le (fs2 ! 0))"
    if id: "mb_msg_id (ak_base m0) = mb_msg_id (ak_base m)" for m0
    using r1(1) r2(1) r3(1) unfolding ack_deserialize_def cut_same_id [OF id]
    by (cases m0) (auto simp: min_size_for_seq_def min_size_for_crc_def Let_def simp del: mapM.simps)
  note others = this
  obtain m1 where "ack_deserialize m buf = Some m1" "ak_page_cnt m1 = of_le (fs1 ! 0)" "ak_total_size m1 = of_le (fs1 ! 1)"
      "ak_data_msg_id m1 = of_le (fs1 ! 2)" "min_size_for_seq \<le> length buf \<longrightarrow> ak_sequence m1 = of_le (fs2 ! 0)"
    using others [OF refl] by blast
  with m'(1) have f: "ak_page_cnt m' = of_le (fs1 ! 0)" "ak_total_size m' = of_le (fs1 ! 1)" "ak_data_msg_id m' = of_le (fs1 ! 2)"
      "min_size_for_seq \<le> length buf \<longrightarrow> ak_sequence m' = of_le (fs2 ! 0)" by auto
  have "\<forall>m0. mb_msg_id (ak_base m0) = mb_msg_id (ak_base m) \<longrightarrow>
       (\<exists>m1. ack_deserialize m0 buf = Some m1 \<and> ak_page_cnt m1 = ak_page_cnt m' \<and> ak_total_size m1 = ak_total_size m' \<and>
          ak_data_msg_id m1 = ak_data_msg_id m' \<and> (min_size_for_seq \<le> length buf \<longrightarrow> ak_sequence m1 = ak_sequence m'))"
    using others f by auto
  then show ?thesis using m' by blast
qed

lemma ack2_deserialize_any:
  assumes "length buf < 2 ^ 32"
  shows "\<exists>m'. ack2_deserialize m buf = Some m' \<and> mb_msg_id (ak_base (a2_ack m')) = mb_msg_id (ak_base (a2_ack m)) \<and>
    (m' = m \<or> (\<forall>m0. mb_msg_id (ak_base (a2_ack m0)) = mb_msg_id (ak_base (a2_ack m)) \<longrightarrow> ack2_deserialize m0 buf = Some m'))"
proof (cases "length buf = ack2_kWireSize")
  case True
  let ?b = "deserialize_data_cut (ak_base (a2_ack m)) (of_nat (length buf))"
  obtain r fs where r: "read_fields buf (?b, 0) [2, 4, 4, 4, 4, 1, 4, 2, 4] = Some (r, fs)" "mb_msg_id (fst r) = mb_msg_id ?b"
    using read_fields_any [of "(?b, 0)" buf] cut_total [OF assms] by fastforce
  obtain m' where m': "ack2_deserialize m buf = Some m'" "ak_base (a2_ack m') = fst r"
    using True r(1) by (simp add: ack2_deserialize_def del: mapM.simps)
  have "ack2_deserialize m0 buf = Some m'" if id: "mb_msg_id (ak_base (a2_ack m0)) = mb_msg_id (ak_base (a2_ack m))" for m0
    using True m'(1) unfolding ack2_deserialize_def cut_same_id [OF id] by (simp del: mapM.simps)
  then show ?thesis using m' r(2) by (intro exI [of _ m']) simp
next
  case False
  then show ?thesis by (simp add: ack2_deserialize_def)
qed

lemma nack_deserialize_any:
  assumes "length buf < 2 ^ 32"
  shows "\<exists>m'. nack_deserialize m buf = Some m'"
proof -
  let ?b = "deserialize_data_cut (nk_base m) (of_nat (length buf))"
  obtain r fs where r: "read_fields buf (?b, 0) [2, 4, 4, 4, 4, 2] = Some (r, fs)" "mb_total_size (fst r) = mb_total_size ?b"
    using read_fields_any [of "(?b, 0)" buf] cut_total [OF assms] by fastforce
  define ns where "ns = replicate (min (unat (of_le (fs ! 5) :: u16)) kMaxMissingPages) (2 :: nat)"
  obtain r' ps where "read_fields buf r ns = Some (r', ps)"
    using read_fields_any [of r buf ns] cut_total [OF assms, of "nk_base m"] r(2) by auto
  then show ?thesis using r(1) by (simp add: nack_deserialize_def ns_def Let_def del: mapM.simps)
qed

lemma nack_bitmap_deserialize_any:
  assumes "length buf < 2 ^ 32"
  shows "\<exists>m'. nack_bitmap_deserialize m buf = Some m'"
proof (cases "length buf < kFixedFieldBytes + 12")
  case True
  then show ?thesis by (simp add: nack_bitmap_deserialize_def)
next
  case False
  let ?b = "deserialize_data_cut (nb_base m) (of_nat (length buf))"
  obtain r fs where r: "read_fields buf (?b, 0) [2, 4, 4, 4, 4, 2, 2] = Some (r, fs)" "mb_total_size (fst r) = mb_total_size ?b"
    using read_fields_any [of "(?b, 0)" buf] cut_total [OF assms] by fastforce
  have "\<exists>x. read_fields buf r ns = Some x" for ns
    using read_fields_any [of r buf ns] cut_total [OF assms, of "nb_base m"] r(2) by auto
  then obtain F where "\<And>ns. read_fields buf r ns = Some (F ns)" by metis
  then show ?thesis using False r(1) unfolding nack_bitmap_deserialize_def if_not_P [OF False]
    by (simp add: Let_def split_beta del: mapM.simps)
qed

section \<open>Where an acknowledgement comes from\<close>

text \<open>
  \<open>acked_in seen a\<close>: sequence, flags and checksum of \<open>a\<close> are those of one frame received. The
  objects the driver parses with keep these three fields when a frame is too short for them.
\<close>

definition ack_read :: "bytes \<Rightarrow> ack_msg \<Rightarrow> bool" where
  "ack_read f m \<longleftrightarrow> check_ak_id f \<and> ack_deserialize IpcRtpsAckMsg f = Some m \<or>
     check_ak2_id f \<and> (\<exists>m2. ack2_deserialize IpcRtpsAck2Msg f = Some m2 \<and> m = a2_ack m2)"

definition acked_in :: "bytes set \<Rightarrow> ack_msg \<Rightarrow> bool" where
  "acked_in seen a \<longleftrightarrow> (\<exists>f\<in>seen. \<exists>m. ack_read f m \<and> ak_sequence m = ak_sequence a \<and>
     ak_integrity_flags m = ak_integrity_flags a \<and> ak_payload_crc32c m = ak_payload_crc32c a)"

text \<open>
  \<open>confirms_message f meta\<close>: the frame \<open>f\<close> is an acknowledgement that names the message: read with a fresh object it has
  the message's pages, size and identifier, and its sequence number when it is long enough to carry one.
\<close>

definition names_message :: "bytes \<Rightarrow> u16 \<Rightarrow> u32 \<Rightarrow> u32 \<Rightarrow> u32 \<Rightarrow> bool" where
  "names_message f pages n msg_id seqn \<longleftrightarrow>
     (\<exists>m. ack_read f m \<and> ak_page_cnt m = pages \<and> ak_total_size m = n \<and> ak_data_msg_id m = msg_id \<and>
        (min_size_for_seq \<le> length f \<longrightarrow> ak_sequence m = seqn))"

definition confirms_message :: "bytes \<Rightarrow> chunk_meta \<Rightarrow> bool" where
  "confirms_message f meta \<longleftrightarrow> names_message f (cm_page_cnt meta) (cm_total_size meta) (cm_msg_id meta) (cm_sequence meta)"

definition framed :: "bytes set \<Rightarrow> ack_msg \<Rightarrow> bool" where
  "framed seen a \<longleftrightarrow> (\<exists>f \<in> seen. names_message f (ak_page_cnt a) (ak_total_size a) (ak_data_msg_id a) (ak_sequence a))"

lemma framed_confirms_message: "framed seen a \<Longrightarrow> ack_matches a meta \<Longrightarrow> \<exists>f \<in> seen. confirms_message f meta"
  by (auto simp: framed_def confirms_message_def ack_matches_def)

definition ack_origin :: "bytes set \<Rightarrow> ack_msg \<Rightarrow> bool" where
  "ack_origin seen a \<longleftrightarrow> ak_integrity_flags a = 0 \<or> acked_in seen a"

definition rx_wf :: "bytes set \<Rightarrow> rx_msgs \<Rightarrow> bool" where
  "rx_wf seen rx \<longleftrightarrow> mb_msg_id (ak_base (rx_ack rx)) = kRtpsAckMsgId \<and> ack_origin seen (rx_ack rx) \<and>
     mb_msg_id (ak_base (a2_ack (rx_ack2 rx))) = kRtpsAck2MsgId \<and> ack_origin seen (a2_ack (rx_ack2 rx)) \<and>
     (ak_page_cnt (a2_ack (rx_ack2 rx)) = 0 \<or> framed seen (a2_ack (rx_ack2 rx)))"

lemma rx_fresh_wf: "rx_wf seen rx_fresh"
  by (simp add: rx_wf_def rx_fresh_def IpcRtpsAckMsg_def IpcRtpsAck2Msg_def msg_base_init_def ack_origin_def)

lemma ack_parse_origin:
  assumes "length buf < 2 ^ 32" and "rx_wf seen rx" and "buf \<in> seen" and "check_ak_id buf"
  shows "\<exists>m. ack_deserialize (rx_ack rx) buf = Some m \<and> rx_wf seen (rx\<lparr>rx_ack := m\<rparr>) \<and> framed seen m"
proof -
  obtain m where m: "ack_deserialize (rx_ack rx) buf = Some m" "mb_msg_id (ak_base m) = mb_msg_id (ak_base (rx_ack rx))"
    "if 35 \<le> length buf
     then \<forall>m0. mb_msg_id (ak_base m0) = mb_msg_id (ak_base (rx_ack rx)) \<longrightarrow> ack_deserialize m0 buf = Some m
     else ak_sequence m = ak_sequence (rx_ack rx) \<and> ak_integrity_flags m = ak_integrity_flags (rx_ack rx) \<and>
          ak_payload_crc32c m = ak_payload_crc32c (rx_ack rx)"
    and f: "\<forall>m0. mb_msg_id (ak_base m0) = mb_msg_id (ak_base (rx_ack rx)) \<longrightarrow>
       (\<exists>m1. ack_deserialize m0 buf = Some m1 \<and> ak_page_cnt m1 = ak_page_cnt m \<and> ak_total_size m1 = ak_total_size m \<and>
          ak_data_msg_id m1 = ak_data_msg_id m \<and> (min_size_for_seq \<le> length buf \<longrightarrow> ak_sequence m1 = ak_sequence m))"
    using ack_deserialize_any [OF assms(1), of "rx_ack rx"] by blast
  have id: "mb_msg_id (ak_base IpcRtpsAckMsg) = mb_msg_id (ak_base (rx_ack rx))"
    using assms(2) by (simp add: rx_wf_def IpcRtpsAckMsg_def msg_base_init_def)
  then have "ack_origin seen m"
    using m(3) assms unfolding ack_origin_def acked_in_def ack_read_def rx_wf_def by (auto split: if_splits)
  moreover have "framed seen m"
    using spec [OF f, of IpcRtpsAckMsg] id assms(3,4) unfolding framed_def names_message_def ack_read_def by blast
  ultimately show ?thesis using m(1,2) assms(2) by (auto simp: rx_wf_def)
qed

lemma ack2_parse_origin:
  assumes "length buf < 2 ^ 32" and "rx_wf seen rx" and "buf \<in> seen" and "check_ak2_id buf"
  shows "\<exists>m. ack2_deserialize (rx_ack2 rx) buf = Some m \<and> rx_wf seen (rx\<lparr>rx_ack2 := m\<rparr>) \<and>
    (ak_page_cnt (a2_ack m) \<noteq> 0 \<longrightarrow> framed seen (a2_ack m))"
proof -
  obtain m where m: "ack2_deserialize (rx_ack2 rx) buf = Some m"
    "mb_msg_id (ak_base (a2_ack m)) = mb_msg_id (ak_base (a2_ack (rx_ack2 rx)))"
    "m = rx_ack2 rx \<or> (\<forall>m0. mb_msg_id (ak_base (a2_ack m0)) = mb_msg_id (ak_base (a2_ack (rx_ack2 rx))) \<longrightarrow>
        ack2_deserialize m0 buf = Some m)"
    using ack2_deserialize_any [OF assms(1), of "rx_ack2 rx"] by blast
  have "mb_msg_id (ak_base (a2_ack IpcRtpsAck2Msg)) = mb_msg_id (ak_base (a2_ack (rx_ack2 rx)))"
    using assms(2) by (simp add: rx_wf_def IpcRtpsAck2Msg_def msg_base_init_def)
  then have "ack_origin seen (a2_ack m) \<and> (ak_page_cnt (a2_ack m) \<noteq> 0 \<longrightarrow> framed seen (a2_ack m))"
    using m(3) assms unfolding ack_origin_def acked_in_def framed_def names_message_def ack_read_def rx_wf_def by auto
  then show ?thesis using m(1,2) assms(2) by (auto simp: rx_wf_def)
qed

section \<open>What is sent\<close>

text \<open>A heartbeat of the message \<open>meta\<close>, whatever object it is parsed with.\<close>

definition announces :: "chunk_meta \<Rightarrow> bool \<Rightarrow> bool \<Rightarrow> bytes \<Rightarrow> bool" where
  "announces meta reliable final_hb f \<longleftrightarrow> check_hb_id f \<and>
     (\<forall>r. \<exists>hb. heartbeat_deserialize r f = Some hb \<and> hb_matches hb meta \<and> hb_sequence hb = cm_sequence meta \<and>
        hb_flag hb kFlagReliable = reliable \<and> hb_flag hb kFlagFinal = final_hb)"

lemma send_heartbeat_announces:
  "\<exists>s' f. send_heartbeat ok junk me s meta reliable final_hb rnd = Some s' \<and> announces meta reliable final_hb f \<and>
     set (sk_out s') \<subseteq> insert f (set (sk_out s)) \<and> set (sk_out s) \<subseteq> set (sk_out s')"
proof -
  define hb where "hb = IpcRtpsHeartbeatMsg\<lparr>hb_page_cnt := cm_page_cnt meta, hb_total_size := cm_total_size meta,
    hb_data_msg_id := cm_msg_id meta, hb_sender_id := me, hb_sequence := cm_sequence meta,
    hb_flags := (if reliable then kFlagReliable else 0) OR (if final_hb then kFlagFinal else 0)
      OR kFlagBitmapNack OR kFlagRateFeedback,
    hb_round := rnd\<rparr>"
  define w where "w = wire (hb_base hb) (concat (hb_fields hb))"
  obtain b s' where s: "send_chunk_with_retry ok s w = (b, s')" by fastforce
  have "announces meta reliable final_hb w"
    using heartbeat_deserialize_wire [of _ "hb_base hb" hb]
    by (auto simp: announces_def w_def check_hb_id_def check_id_wire hb_def IpcRtpsHeartbeatMsg_def msg_base_init_def
        hb_matches_def hb_flag_def kFlagReliable_def kFlagFinal_def kFlagBitmapNack_def kFlagRateFeedback_def)
  moreover have "send_heartbeat ok junk me s meta reliable final_hb rnd = Some s'"
    using s by (simp add: send_heartbeat_def heartbeat_serialize_wire flip: hb_def) (simp add: w_def)
  ultimately show ?thesis using send_chunk_with_retry_out [OF s] by (auto split: if_splits)
qed

section \<open>The rounds\<close>

text \<open>
  What the rounds keep. The pages wanted are pages of the message, the acknowledgements come from
  datagrams received, and everything sent is a page or a heartbeat of the message that does not
  end it.
\<close>

definition job_wf :: "send_job \<Rightarrow> bool" where
  "job_wf j \<longleftrightarrow> sj_delivery j = Reliable \<and> length (sj_chunks j) < 65536 \<and> cm_page_cnt (sj_meta j) \<noteq> 0"

definition belongs :: "send_job \<Rightarrow> bytes \<Rightarrow> bool" where
  "belongs j f \<longleftrightarrow> f \<in> set (sj_chunks j) \<or> announces (sj_meta j) True False f"

definition send_inv :: "send_job \<Rightarrow> bytes set \<Rightarrow> bytes set \<Rightarrow> send_state \<Rightarrow> bool" where
  "send_inv j seen sent v \<longleftrightarrow>
     set (ss_union v) \<subseteq> {p. 0 < p \<and> unat p \<le> length (sj_chunks j)} \<and>
     length (ss_last v) = length (sj_chunks j) + 1 \<and> rx_wf seen (ss_rx v) \<and> set (ss_inbox v) \<subseteq> seen \<and>
     (\<forall>a. ss_matched v = Some a \<longrightarrow> ack_origin seen a \<and> framed seen a \<and> ack_matches a (sj_meta j) \<and> ss_ack_crc v = ak_payload_crc32c a) \<and>
     sent \<subseteq> set (sk_out (ss_sock v)) \<and> (\<forall>f\<in>set (sk_out (ss_sock v)) - sent. belongs j f)"

lemma send_inv_update [simp]:
  "send_inv j seen sent (v\<lparr>ss_ticks := t\<rparr>) = send_inv j seen sent v"
  "send_inv j seen sent (v\<lparr>ss_hb_repeat := n\<rparr>) = send_inv j seen sent v"
  "send_inv j seen sent (v\<lparr>ss_round := n\<rparr>) = send_inv j seen sent v"
  "send_inv j seen sent (v\<lparr>ss_stats := fs\<rparr>) = send_inv j seen sent v"
  "send_inv j seen sent (v\<lparr>ss_fb := fb\<rparr>) = send_inv j seen sent v"
  "send_inv j seen sent (v\<lparr>ss_rtt := e\<rparr>) = send_inv j seen sent v"
  "send_inv j seen sent (v\<lparr>ss_pauses := ps\<rparr>) = send_inv j seen sent v"
  "send_inv j seen sent (v\<lparr>ss_got_nack := b\<rparr>) = send_inv j seen sent v"
  "send_inv j seen sent (v\<lparr>ss_unknown := b\<rparr>) = send_inv j seen sent v"
  by (simp_all add: send_inv_def)

lemma note_ack_keeps:
  assumes "send_inv j seen sent v" and "ack_origin seen a" and "framed seen a" and "ack_matches a (sj_meta j)"
  shows "send_inv j seen sent (note_ack ctx j a v)" "ss_matched (note_ack ctx j a v) = Some a"
    "ss_ticks v \<le> ss_ticks (note_ack ctx j a v)"
  using assms by (auto simp: note_ack_def Let_def send_inv_def)

lemma set_add_pages: "set (foldl (\<lambda>u p. if p \<in> set u then u else u @ [p]) us ps) = set us \<union> set ps"
  by (induction ps arbitrary: us) auto

lemma note_nack_keeps:
  assumes "send_inv j seen sent v" and "set pages \<subseteq> {p. 0 < p \<and> unat p \<le> length (sj_chunks j)}"
  shows "send_inv j seen sent (note_nack ctx j r pages runs v)" "ss_matched (note_nack ctx j r pages runs v) = ss_matched v"
    "ss_ticks v \<le> ss_ticks (note_nack ctx j r pages runs v)"
  using assms by (auto simp: note_nack_def Let_def send_inv_def set_add_pages)

lemma nb_missing_range:
  assumes "n < 65536"
  shows "set (nb_missing m n) \<subseteq> {p. 0 < p \<and> unat p \<le> n}"
proof
  fix p assume "p \<in> set (nb_missing m n)"
  then obtain q where q: "p = of_nat q" "0 < q" "q \<le> n"
    by (auto simp: nb_missing_def dest: set_takeWhileD)
  then have "unat p = q" using assms of_nat_inj_u16 [of q] by simp
  then show "p \<in> {p. 0 < p \<and> unat p \<le> n}" using q by (auto simp: word_less_nat_alt)
qed

lemma nk_missing_range: "set (nk_missing m n) \<subseteq> {p. 0 < p \<and> unat p \<le> n}"
  by (auto simp: nk_missing_def)

lemma take_feedback_keeps:
  assumes "job_wf j" and "send_inv j seen sent v" and "buf \<in> seen" and "length buf < 2 ^ 32" and "ss_matched v = None"
  shows "\<exists>acked v'. take_feedback ctx j buf v = Some (acked, v') \<and> send_inv j seen sent v' \<and>
    (acked \<longleftrightarrow> ss_matched v' \<noteq> None) \<and> ss_ticks v \<le> ss_ticks v'"
proof -
  have rx: "rx_wf seen (ss_rx v)" using assms(2) by (simp add: send_inv_def)
  have n: "length (sj_chunks j) < 65536" using assms(1) by (simp add: job_wf_def)
  have keep: "rx_wf seen rx' \<Longrightarrow> send_inv j seen sent (v\<lparr>ss_rx := rx'\<rparr>)" for rx'
    using assms(2) by (simp add: send_inv_def)
  consider (ack) "check_ak_id buf" | (ack2) "\<not> check_ak_id buf" "check_ak2_id buf"
    | (nb) "\<not> check_ak_id buf" "\<not> check_ak2_id buf" "\<not> check_nk_id buf" "check_nb_id buf"
    | (nk) "\<not> check_ak_id buf" "\<not> check_ak2_id buf" "check_nk_id buf"
    | (other) "\<not> check_ak_id buf" "\<not> check_ak2_id buf" "\<not> check_nk_id buf" "\<not> check_nb_id buf" by blast
  then show ?thesis
  proof cases
    case ack
    obtain m where m: "ack_deserialize (rx_ack (ss_rx v)) buf = Some m" "rx_wf seen ((ss_rx v)\<lparr>rx_ack := m\<rparr>)" "framed seen m"
      using ack_parse_origin [OF assms(4) rx assms(3) ack] by blast
    have "ack_origin seen m" using m(2) by (simp add: rx_wf_def)
    then show ?thesis
      using ack m(1,3) assms(5) note_ack_keeps [OF keep [OF m(2)], of m ctx] keep [OF m(2)]
      by (simp add: take_feedback_def Let_def)
  next
    case ack2
    obtain m where m: "ack2_deserialize (rx_ack2 (ss_rx v)) buf = Some m" "rx_wf seen ((ss_rx v)\<lparr>rx_ack2 := m\<rparr>)"
        "ak_page_cnt (a2_ack m) \<noteq> 0 \<longrightarrow> framed seen (a2_ack m)"
      using ack2_parse_origin [OF assms(4) rx assms(3) ack2(2)] by blast
    have "ack_origin seen (a2_ack m)" using m(2) by (simp add: rx_wf_def)
    moreover have "ack_matches (a2_ack m) (sj_meta j) \<Longrightarrow> framed seen (a2_ack m)"
      using m(3) assms(1) by (simp add: ack_matches_def job_wf_def)
    ultimately show ?thesis
      using ack2 m(1) assms(5) note_ack_keeps [OF keep [OF m(2)], of "a2_ack m" ctx] keep [OF m(2)]
      by (simp add: take_feedback_def Let_def)
  next
    case nb
    obtain m where m: "nack_bitmap_deserialize (rx_nb (ss_rx v)) buf = Some m"
      using nack_bitmap_deserialize_any [OF assms(4)] by blast
    have k: "send_inv j seen sent (v\<lparr>ss_rx := (ss_rx v)\<lparr>rx_nb := m\<rparr>\<rparr>)" using rx by (intro keep) (simp add: rx_wf_def)
    show ?thesis
      using nb m assms(5) k note_nack_keeps [OF k nb_missing_range [OF n]] by (simp add: take_feedback_def Let_def)
  next
    case nk
    obtain m where m: "nack_deserialize (rx_nack (ss_rx v)) buf = Some m"
      using nack_deserialize_any [OF assms(4)] by blast
    have k: "send_inv j seen sent (v\<lparr>ss_rx := (ss_rx v)\<lparr>rx_nack := m\<rparr>\<rparr>)" using rx by (intro keep) (simp add: rx_wf_def)
    show ?thesis
      using nk m assms(5) k note_nack_keeps [OF k nk_missing_range] by (simp add: take_feedback_def Let_def)
  next
    case other
    then have "take_feedback ctx j buf v = Some (False, v)" by (simp add: take_feedback_def)
    then show ?thesis using assms(2,5) by blast
  qed
qed

lemma collect_timeout_keeps:
  assumes "collect_timeout ctx j rb wait v = (e, v')" and "job_wf j"
  shows "\<exists>t. v' = v\<lparr>ss_ticks := t\<rparr> \<and> ss_ticks v \<le> t" "e \<noteq> Some CollectAcked"
    "e \<noteq> Some CollectExpired \<Longrightarrow> sent_elapsed_ms ctx (ss_ticks v) (sj_begin j) < sj_timeout j"
  using assms by (auto simp: collect_timeout_def Let_def job_wf_def split: if_splits intro: exI [of _ "ss_ticks v"])

text \<open>How a collection ends.\<close>

definition collected :: "send_ctx \<Rightarrow> send_job \<Rightarrow> bytes set \<Rightarrow> bytes set \<Rightarrow> nat \<Rightarrow> (collect_exit \<times> send_state) option \<Rightarrow> bool" where
  "collected ctx j seen sent ticks x \<longleftrightarrow>
     (\<exists>e v'. x = Some (e, v') \<and> send_inv j seen sent v' \<and> (e = CollectAcked \<longleftrightarrow> ss_matched v' \<noteq> None) \<and> ticks \<le> ss_ticks v' \<and>
        (e \<noteq> CollectExpired \<longrightarrow> sent_elapsed_ms ctx ticks (sj_begin j) < sj_timeout j))"

lemma send_inv_inbox: "send_inv j seen sent v \<Longrightarrow> set xs \<subseteq> seen \<Longrightarrow> send_inv j seen sent (v\<lparr>ss_inbox := xs\<rparr>)"
  by (simp add: send_inv_def)

lemma collect_feedback_keeps:
  assumes "job_wf j" and "\<forall>f\<in>seen. length f < 2 ^ 32"
  shows "send_inv j seen sent v \<Longrightarrow> set inbox \<subseteq> seen \<Longrightarrow> ss_matched v = None \<Longrightarrow>
    collected ctx j seen sent (ss_ticks v) (collect_feedback ctx j rb wait v inbox)"
proof (induction inbox arbitrary: v)
  case Nil
  obtain e v1 where t: "collect_timeout ctx j rb wait v = (e, v1)" by fastforce
  note k = collect_timeout_keeps [OF t assms(1)]
  obtain t1 where "v1 = v\<lparr>ss_ticks := t1\<rparr>" "ss_ticks v \<le> t1" using k(1) by blast
  then show ?case using Nil t k(2,3) by (cases e) (auto simp: collected_def send_inv_inbox)
next
  case (Cons buf rest)
  obtain e v1 where t: "collect_timeout ctx j rb wait v = (e, v1)" by fastforce
  note k = collect_timeout_keeps [OF t assms(1)]
  obtain t1 where v1: "v1 = v\<lparr>ss_ticks := t1\<rparr>" "ss_ticks v \<le> t1" using k(1) by blast
  have i1: "send_inv j seen sent v1" "ss_matched v1 = None" using Cons.prems v1 by simp_all
  have sub: "set rest \<subseteq> seen" "buf \<in> seen" using Cons.prems by simp_all
  show ?case
  proof (cases e)
    case (Some x)
    then show ?thesis using t k(2,3) Cons.prems i1 v1 by (auto simp: collected_def send_inv_inbox)
  next
    case None
    have lt: "sent_elapsed_ms ctx (ss_ticks v) (sj_begin j) < sj_timeout j" using k(3) None by simp
    show ?thesis
    proof (cases "buf = []")
      case True
      then show ?thesis using t None i1 v1 lt sub by (auto simp: collected_def send_inv_inbox)
    next
      case False
      obtain acked v2 where f: "take_feedback ctx j buf v1 = Some (acked, v2)" "send_inv j seen sent v2"
          "acked \<longleftrightarrow> ss_matched v2 \<noteq> None" "ss_ticks v1 \<le> ss_ticks v2"
        using take_feedback_keeps [OF assms(1) i1(1) sub(2) _ i1(2)] assms(2) sub(2) by blast
      show ?thesis
      proof (cases acked)
        case True
        then show ?thesis using t None False f lt sub v1 by (auto simp: collected_def send_inv_inbox)
      next
        case na: False
        then have "collected ctx j seen sent (ss_ticks v2) (collect_feedback ctx j rb wait v2 rest)"
          using Cons.IH [OF f(2) sub(1)] f(3) by simp
        moreover have "ss_ticks v \<le> ss_ticks v2" using f(4) v1 by simp
        ultimately show ?thesis
          using t None False f(1) na lt by (auto simp: collected_def)
      qed
    qed
  qed
qed

lemma resend_pages_keeps:
  assumes "job_wf j"
  shows "send_inv j seen sent v \<Longrightarrow> set ps \<subseteq> {p. 0 < p \<and> unat p \<le> length (sj_chunks j)} \<Longrightarrow>
    \<exists>b v'. resend_pages ctx j enabled resent n v ps = Some (b, v') \<and> send_inv j seen sent v' \<and> ss_ticks v' = ss_ticks v"
proof (induction ps arbitrary: resent n v)
  case Nil
  then have "resend_pages ctx j enabled resent n v [] = Some (True, v)" by simp
  then show ?case using Nil(1) by blast
next
  case (Cons miss ms)
  define v1 where "v1 = (if 0 < sj_rate j \<and> 0 < resent
    then v\<lparr>ss_pauses := ss_pauses v @ [mul64 n 1000000 div sj_rate j - sc_resend_us ctx (ss_round v) resent]\<rparr> else v)"
  have i1: "send_inv j seen sent v1" "ss_ticks v1 = ss_ticks v" using Cons.prems(1) by (simp_all add: v1_def)
  have m: "miss \<noteq> 0" "unat miss \<le> length (sj_chunks j)" "0 < miss" using Cons.prems(2) by auto
  then have um: "0 < unat miss" by (simp add: unat_gt_0)
  have ok: "\<not> (miss = 0 \<or> length (sj_chunks j) < unat miss \<or> length (ss_last v) \<le> unat miss)"
    using m Cons.prems(1) by (auto simp: send_inv_def)
  have sub: "set ms \<subseteq> {p. 0 < p \<and> unat p \<le> length (sj_chunks j)}" using Cons.prems(2) by simp
  note unf = resend_pages.simps(2) if_not_P [OF ok] Let_def v1_def [symmetric]
  show ?case
  proof (cases "is_suppressed v1 enabled miss")
    case True
    define v2 where "v2 = (if sc_track ctx then v1\<lparr>ss_stats := (ss_stats v1)\<lparr>nack_suppressed := nack_suppressed (ss_stats v1) + 1\<rparr>\<rparr> else v1)"
    have i2: "send_inv j seen sent v2" "ss_ticks v2 = ss_ticks v" using i1 by (simp_all add: v2_def)
    show ?thesis using Cons.IH [OF i2(1) sub] True i2(2) unfolding unf by (simp flip: v2_def)
  next
    case False
    define page where "page = sj_chunks j ! (unat miss - 1)"
    have pin: "page \<in> set (sj_chunks j)" using m um by (simp add: page_def)
    define v2 where "v2 = count_resent (sc_track ctx) miss (length page) v1"
    have i2: "send_inv j seen sent v2" "ss_ticks v2 = ss_ticks v" "ss_sock v2 = ss_sock v1"
      using i1 by (simp_all add: v2_def count_resent_def Let_def send_inv_def)
    obtain b s where s: "send_chunk_with_retry (sc_ok ctx) (ss_sock v2) page = (b, s)" by fastforce
    have i3: "send_inv j seen sent (v2\<lparr>ss_sock := s\<rparr>)"
      using i2(1) send_chunk_with_retry_out [OF s] pin by (auto simp: send_inv_def belongs_def)
    have e: "resend_pages ctx j enabled resent n v (miss # ms) =
        (if \<not> b then Some (False, v2\<lparr>ss_sock := s\<rparr>)
         else resend_pages ctx j enabled (resent + 1) (n + length page) (v2\<lparr>ss_sock := s\<rparr>) ms)"
      unfolding unf if_not_P [OF False] page_def [symmetric] v2_def [symmetric] s prod.case by (rule refl)
    show ?thesis
    proof (cases b)
      case True
      then show ?thesis
        using Cons.IH [OF i3 sub, of "resent + 1" "n + length page"] i2(2) unfolding e by simp
    next
      case nb: False
      then show ?thesis using i2(2) i3 unfolding e by auto
    qed
  qed
qed

lemma repeat_heartbeat_keeps:
  assumes "send_inv j seen sent v"
  shows "\<exists>v'. repeat_heartbeat ctx j v = Some v' \<and> send_inv j seen sent v' \<and> ss_ticks v' = ss_ticks v"
proof -
  obtain s f where s: "send_heartbeat (sc_ok ctx) (sc_junk ctx) (sc_me ctx) (ss_sock v) (sj_meta j) True False
        (of_nat (ss_round v + 2)) = Some s" "announces (sj_meta j) True False f"
      "set (sk_out s) \<subseteq> insert f (set (sk_out (ss_sock v)))" "set (sk_out (ss_sock v)) \<subseteq> set (sk_out s)"
    using send_heartbeat_announces by blast
  have "send_inv j seen sent (v\<lparr>ss_sock := s\<rparr>)"
    using assms s(2-4) by (auto simp: send_inv_def belongs_def)
  then show ?thesis using s(1) by (simp add: repeat_heartbeat_def)
qed

lemma drain_frame_any:
  assumes "length buf < 2 ^ 32"
  shows "\<exists>st'. drain_frame meta lease now buf st = Some st'"
proof -
  obtain rx fb where st: "st = (rx, fb)" by fastforce
  obtain a where "ack_deserialize (rx_ack rx) buf = Some a" using ack_deserialize_any [OF assms] by blast
  moreover obtain a2 where "ack2_deserialize (rx_ack2 rx) buf = Some a2" using ack2_deserialize_any [OF assms] by blast
  moreover obtain n where "nack_deserialize (rx_nack rx) buf = Some n" using nack_deserialize_any [OF assms] by blast
  moreover obtain nb where "nack_bitmap_deserialize (rx_nb rx) buf = Some nb"
    using nack_bitmap_deserialize_any [OF assms] by blast
  ultimately show ?thesis by (simp add: drain_frame_def st Let_def)
qed

lemma drain_record_loop_any:
  "\<forall>(f, t)\<in>set queue. length f < 2 ^ 32 \<Longrightarrow> \<exists>left fb. drain_record_loop n meta lease queue st = Some (left, fb)"
proof (induction n arbitrary: queue st)
  case 0
  then show ?case by simp
next
  case (Suc n)
  show ?case
  proof (cases queue)
    case Nil
    then show ?thesis by simp
  next
    case (Cons q rest)
    obtain buf t where q: "q = (buf, t)" by fastforce
    have len: "length buf < 2 ^ 32" "\<forall>(f, t)\<in>set rest. length f < 2 ^ 32" using Suc.prems Cons q by simp_all
    obtain st' where st': "drain_frame meta lease t buf st = Some st'" using drain_frame_any [OF len(1)] by blast
    obtain left fb where "drain_record_loop n meta lease rest st' = Some (left, fb)" using Suc.IH [OF len(2)] by blast
    then have "buf \<noteq> [] \<Longrightarrow> drain_record_loop (Suc n) meta lease queue st = Some (left, fb)"
      unfolding Cons q drain_record_loop.simps list.case prod.case st' by simp
    moreover have "buf = [] \<Longrightarrow> drain_record_loop (Suc n) meta lease queue st = Some (rest, snd st)"
      unfolding Cons q drain_record_loop.simps list.case prod.case by simp
    ultimately show ?thesis by blast
  qed
qed

text \<open>The checksum test at the end of a confirmed message.\<close>

definition integrity_ok :: "send_job \<Rightarrow> ack_msg \<Rightarrow> bool" where
  "integrity_ok j a \<longleftrightarrow> (sj_integrity j = IntegrityCRC32C \<longrightarrow>
     ak_integrity_flags a AND INTEGRITY_FLAG_CRC32C \<noteq> 0 \<and> ak_payload_crc32c a = sj_crc j)"

lemma finish_rate_sock [simp]: "ss_sock (fst (finish_rate ctx j clean flr obs v rate)) = ss_sock v"
  by (simp add: finish_rate_def Let_def split_beta)

lemma finish_acked_result:
  assumes "\<forall>f\<in>seen. length f < 2 ^ 32" and "set (ss_inbox v) \<subseteq> seen" and "ss_ack_crc v = ak_payload_crc32c a"
  shows "\<exists>status v' rate'. finish_acked ctx j a v rate = Some (status, v', rate') \<and> ss_sock v' = ss_sock v \<and>
    (status = FailedIntegrity \<and> \<not> integrity_ok j a \<or> status = DeliveredAcked \<and> integrity_ok j a)"
proof -
  define n where "n = snd (sc_queued ctx)"
  define queue where "queue = zip (take n (ss_inbox v)) (map (\<lambda>i. int (sc_clk ctx (ss_ticks v + i))) [0..<n])"
  have "\<forall>(f, t)\<in>set queue. length f < 2 ^ 32"
    using assms(1,2) set_take_subset [of n "ss_inbox v"] by (fastforce simp: queue_def dest: set_zip_leftD)
  then obtain left fb where d: "drain_record_acks (sj_meta j) (sj_lease j) queue (ss_fb v) = Some (left, fb)"
    using drain_record_loop_any unfolding drain_record_acks_def by metis
  define v1 where "v1 = v\<lparr>ss_fb := fb, ss_inbox := map fst left @ drop n (ss_inbox v), ss_ticks := ss_ticks v + n\<rparr>"
  have f: "ss_sock v1 = ss_sock v" "ss_ack_crc v1 = ss_ack_crc v" by (simp_all add: v1_def)
  have e: "finish_acked ctx j a v rate =
     (if sj_integrity j = IntegrityCRC32C \<and>
           (ak_integrity_flags a AND INTEGRITY_FLAG_CRC32C = 0 \<or> ss_ack_crc v1 \<noteq> sj_crc j)
        then Some (FailedIntegrity, v1, rate)
        else (let (v, rate) = finish_rate ctx j (fb_f_max fb = 0) False (unat (fb_observed fb)) v1 rate
              in Some (DeliveredAcked, v, rate)))"
    using d unfolding finish_acked_def Let_def n_def [symmetric] queue_def [symmetric] v1_def by simp
  obtain v2 rate2 where fr: "finish_rate ctx j (fb_f_max fb = 0) False (unat (fb_observed fb)) v1 rate = (v2, rate2)" by fastforce
  then have f2: "ss_sock v2 = ss_sock v" using f(1) finish_rate_sock by (metis fst_conv)
  show ?thesis
  proof (cases "integrity_ok j a")
    case True
    then show ?thesis using assms(3) f(2) f2 unfolding e fr integrity_ok_def by (auto simp: Let_def)
  next
    case False
    then show ?thesis using assms(3) f unfolding e integrity_ok_def by auto
  qed
qed

text \<open>
  The result of the rounds: a confirmation with an acknowledgement that was received, or a
  failure; or the bound on the rounds was too small, which a clock that advances with every
  reading excludes.
\<close>

definition clock_advances :: "send_ctx \<Rightarrow> bool" where
  "clock_advances ctx \<longleftrightarrow> (\<forall>k. sc_clk ctx k < sc_clk ctx (Suc k))"

lemma clock_advances_by: "clock_advances ctx \<Longrightarrow> k \<le> sc_clk ctx k - sc_clk ctx 0"
proof (induction k)
  case 0
  then show ?case by simp
next
  case (Suc k)
  then have "k \<le> sc_clk ctx k - sc_clk ctx 0" "sc_clk ctx k < sc_clk ctx (Suc k)" by (simp_all add: clock_advances_def)
  moreover have "sc_clk ctx 0 \<le> sc_clk ctx k"
    using Suc.prems lift_Suc_mono_le [of "sc_clk ctx" 0 k] by (simp add: clock_advances_def less_imp_le)
  ultimately show ?case by linarith
qed

definition confirmed :: "send_job \<Rightarrow> bytes set \<Rightarrow> bytes set \<Rightarrow> send_status \<Rightarrow> socket \<Rightarrow> bool" where
  "confirmed j seen sent status s \<longleftrightarrow>
     status \<in> {DeliveredAcked, FailedTimeout, FailedLocalSend, FailedIntegrity} \<and>
     (status = DeliveredAcked \<longrightarrow> (\<exists>a. ack_origin seen a \<and> framed seen a \<and> ack_matches a (sj_meta j) \<and> integrity_ok j a)) \<and>
     sent \<subseteq> set (sk_out s) \<and> (\<forall>f\<in>set (sk_out s) - sent. belongs j f)"

definition rounds_result :: "send_ctx \<Rightarrow> send_job \<Rightarrow> bytes set \<Rightarrow> bytes set \<Rightarrow> nat \<Rightarrow> nat
    \<Rightarrow> (send_status \<times> send_state \<times> rate_limit_state) option \<Rightarrow> bool" where
  "rounds_result ctx j seen sent n ticks x \<longleftrightarrow>
     (case x of None \<Rightarrow> clock_advances ctx \<longrightarrow> n = 0 \<or> ticks + n \<le> sj_timeout j * 1000000
      | Some (status, v, rate) \<Rightarrow> confirmed j seen sent status (ss_sock v))"

lemma rounds_result_fail:
  "send_inv j seen sent v \<Longrightarrow> status \<in> {FailedTimeout, FailedLocalSend} \<Longrightarrow> ss_sock v' = ss_sock v \<Longrightarrow>
     rounds_result ctx j seen sent n ticks (Some (status, v', rate))"
  by (auto simp: rounds_result_def confirmed_def send_inv_def)

lemma send_rounds_result:
  assumes "job_wf j" and "\<forall>f\<in>seen. length f < 2 ^ 32" and "sj_begin j = sc_clk ctx 0"
    and "\<forall>k ps. set (sc_order ctx k ps) = set ps"
  shows "send_inv j seen sent v \<Longrightarrow> rounds_result ctx j seen sent n (ss_ticks v) (send_rounds n ctx j v rate)"
proof (induction n arbitrary: v rate)
  case 0
  then show ?case by (simp add: rounds_result_def)
next
  case (Suc n)
  define v0 where "v0 = v\<lparr>ss_ticks := ss_ticks v + 1, ss_matched := None, ss_got_nack := False, ss_unknown := False, ss_union := []\<rparr>"
  have i0: "send_inv j seen sent v0" "ss_matched v0 = None" "set (ss_inbox v0) \<subseteq> seen" "ss_ticks v0 = ss_ticks v + 1"
    using Suc.prems by (simp_all add: v0_def send_inv_def)
  define wait where "wait = (if ss_round v0 = 0 then sj_first_wait j else sj_nack_wait j)"
  obtain e v1 where c: "collect_feedback ctx j (sc_clk ctx (ss_ticks v)) wait v0 (ss_inbox v0) = Some (e, v1)"
      "send_inv j seen sent v1" "e = CollectAcked \<longleftrightarrow> ss_matched v1 \<noteq> None" "ss_ticks v + 1 \<le> ss_ticks v1"
      "e \<noteq> CollectExpired \<Longrightarrow> sent_elapsed_ms ctx (ss_ticks v + 1) (sj_begin j) < sj_timeout j"
    using collect_feedback_keeps [OF assms(1,2) i0(1,3,2), of ctx "sc_clk ctx (ss_ticks v)" wait] i0(4)
    by (auto simp: collected_def)
  note unf = send_rounds.simps(2) Let_def v0_def [symmetric] wait_def [symmetric] c(1) bind.bind_lunit prod.case
  have step: "rounds_result ctx j seen sent (Suc n) (ss_ticks v) (send_rounds n ctx j v2 rate2)"
    if "send_inv j seen sent v2" "ss_ticks v1 \<le> ss_ticks v2" "e \<noteq> CollectExpired" for v2 rate2
  proof -
    have r: "rounds_result ctx j seen sent n (ss_ticks v2) (send_rounds n ctx j v2 rate2)" using Suc.IH that(1) .
    have "ss_ticks v + 1 \<le> sj_timeout j * 1000000" if adv: "clock_advances ctx"
    proof -
      have "(sc_clk ctx (ss_ticks v + 1) - sc_clk ctx 0) div 1000000 < sj_timeout j"
        using c(5) that \<open>e \<noteq> CollectExpired\<close> by (simp add: sent_elapsed_ms_def assms(3))
      then have "sc_clk ctx (ss_ticks v + 1) - sc_clk ctx 0 < sj_timeout j * 1000000"
        by (simp add: div_less_iff_less_mult)
      then show ?thesis using clock_advances_by [OF adv, of "ss_ticks v + 1"] by linarith
    qed
    then show ?thesis
      using r c(4) that(2) by (auto simp: rounds_result_def split: option.splits)
  qed
  show ?case
  proof (cases "e = CollectExpired")
    case True
    then have "send_rounds (Suc n) ctx j v rate = Some (finish_timeout ctx j v1 rate)" unfolding unf by simp
    moreover obtain v' rate' where "finish_timeout ctx j v1 rate = (FailedTimeout, v', rate')" "ss_sock v' = ss_sock v1"
      by (simp add: finish_timeout_def split_beta)
    ultimately show ?thesis using rounds_result_fail [OF c(2)] by simp
  next
    case ne: False
    show ?thesis
    proof (cases "ss_matched v1")
      case (Some a)
      then have a: "ack_origin seen a" "ack_matches a (sj_meta j)" "ss_ack_crc v1 = ak_payload_crc32c a" "set (ss_inbox v1) \<subseteq> seen"
          "framed seen a"
        using c(2) by (auto simp: send_inv_def)
      obtain status v' rate' where f: "finish_acked ctx j a v1 rate = Some (status, v', rate')" "ss_sock v' = ss_sock v1"
          "status = FailedIntegrity \<and> \<not> integrity_ok j a \<or> status = DeliveredAcked \<and> integrity_ok j a"
        using finish_acked_result [OF assms(2) a(4,3)] by blast
      have "send_rounds (Suc n) ctx j v rate = Some (status, v', rate')" using ne Some f(1) unfolding unf by simp
      then show ?thesis
        using f(2,3) a(1,2,5) c(2) by (auto simp: rounds_result_def confirmed_def send_inv_def)
    next
      case None
      show ?thesis
      proof (cases "\<not> ss_got_nack v1 \<or> ss_union v1 = []")
        case True
        define v2 where "v2 = v1\<lparr>ss_hb_repeat := ss_hb_repeat v1 + 1\<rparr>"
        obtain v3 where h: "repeat_heartbeat ctx j v2 = Some v3" "send_inv j seen sent v3" "ss_ticks v3 = ss_ticks v2"
          using repeat_heartbeat_keeps [of j seen sent v2 ctx] c(2) by (auto simp: v2_def)
        have rel: "sj_delivery j \<noteq> BestEffort" using assms(1) by (simp add: job_wf_def)
        have "send_rounds (Suc n) ctx j v rate =
            send_rounds n ctx j ((if sj_heartbeat j \<and> ss_hb_repeat v1 < kMaxHeartbeatRepeat then v3 else v1)\<lparr>ss_round :=
              ss_round (if sj_heartbeat j \<and> ss_hb_repeat v1 < kMaxHeartbeatRepeat then v3 else v1) + 1\<rparr>) rate"
          using ne None True rel h(1) unfolding unf v2_def by simp
        then show ?thesis using step ne h(2,3) c(2) by (simp add: v2_def)
      next
        case nak: False
        define ps where "ps = sc_order ctx (ss_round v1) (ss_union v1)"
        define enabled where "enabled = (2 \<le> peer_count (fb_peers (ss_fb v1)))"
        have "set ps \<subseteq> {p. 0 < p \<and> unat p \<le> length (sj_chunks j)}"
          using c(2) assms(4) by (simp add: ps_def send_inv_def)
        then obtain b v2 where r: "resend_pages ctx j enabled 0 0 v1 ps = Some (b, v2)" "send_inv j seen sent v2"
            "ss_ticks v2 = ss_ticks v1"
          using resend_pages_keeps [OF assms(1) c(2)] by blast
        obtain v3 where h: "repeat_heartbeat ctx j v2 = Some v3" "send_inv j seen sent v3" "ss_ticks v3 = ss_ticks v2"
          using repeat_heartbeat_keeps [OF r(2)] by blast
        have rel: "sj_delivery j \<noteq> BestEffort" using assms(1) by (simp add: job_wf_def)
        show ?thesis
        proof (cases b)
          case False
          then have "send_rounds (Suc n) ctx j v rate = Some (FailedLocalSend, v2, rate)"
            using ne None nak r(1) unfolding unf ps_def enabled_def by simp
          then show ?thesis using rounds_result_fail [OF r(2)] by simp
        next
          case True
          then have "send_rounds (Suc n) ctx j v rate =
              send_rounds n ctx j ((if sj_heartbeat j then v3 else v2)\<lparr>ss_round := ss_round (if sj_heartbeat j then v3 else v2) + 1\<rparr>) rate"
            using ne None nak rel r(1) h(1) unfolding unf ps_def enabled_def by simp
          then show ?thesis using step ne r(2,3) h(2,3) by simp
        qed
      qed
    qed
  qed
qed

section \<open>The driver\<close>

text \<open>What the datagrams sent are, and what a confirmation means.\<close>

definition own_frames :: "delivery_mode \<Rightarrow> chunk_meta \<Rightarrow> bytes list \<Rightarrow> socket \<Rightarrow> socket \<Rightarrow> bool" where
  "own_frames mode meta chunks s s' \<longleftrightarrow> (\<forall>f\<in>set (sk_out s') - set (sk_out s).
     f \<in> set chunks \<or> announces meta (mode = Reliable) (mode = BestEffort) f)"

definition confirmed_by :: "bytes set \<Rightarrow> chunk_meta \<Rightarrow> integrity_mode \<Rightarrow> u32 \<Rightarrow> bool" where
  "confirmed_by seen meta integrity crc \<longleftrightarrow>
     (\<exists>f \<in> seen. confirms_message f meta) \<and>
     (\<exists>a. ack_matches a meta \<and> (integrity = IntegrityCRC32C \<longrightarrow> acked_in seen a \<and> ak_payload_crc32c a = crc))"

lemma drain_loop_subset: "set (drain_loop n q) \<subseteq> set q"
proof (induction n arbitrary: q)
  case (Suc n)
  show ?case using Suc.IH [of "tl q"] by (cases q) auto
qed simp

lemma drain_queue_subset: "set (drain_queue n q) \<subseteq> set q"
  using drain_loop_subset [of kMaxDrain "take n q"] set_take_subset [of n q] set_drop_subset [of n q]
  by (auto simp: drain_queue_def drain_self_loopback_def)

lemma heartbeat_step:
  "\<exists>s' f. (if c then send_heartbeat ok junk me s meta reliable fin rnd else Some s) = Some s' \<and>
     announces meta reliable fin f \<and> set (sk_out s) \<subseteq> set (sk_out s') \<and> set (sk_out s') \<subseteq> insert f (set (sk_out s))"
  using send_heartbeat_announces [of ok junk me s meta reliable fin rnd] by (cases c) auto

lemma confirm_message_rounds:
  assumes "so_delivery opts = Reliable"
  shows "\<exists>j v. (\<forall>fuel. confirm_message fuel ctx opts meta chunks crc rate report sd inbox =
      do { (status, v, rate) \<leftarrow> send_rounds fuel ctx j v (sd_rate sd);
        Some (report\<lparr>sr_status := status, sr_ack_crc32c := ss_ack_crc v\<rparr>,
              sd\<lparr>sd_sock := ss_sock v, sd_stats := ss_stats v, sd_rtt := ss_rtt v, sd_peers := fb_peers (ss_fb v),
                 sd_rate := rate\<rparr>, ss_inbox v) }) \<and>
      sj_meta j = meta \<and> sj_chunks j = chunks \<and> sj_crc j = crc \<and> sj_delivery j = Reliable \<and> sj_integrity j = so_integrity opts \<and>
      sj_begin j = sc_clk ctx 0 \<and> 1 \<le> sj_first_wait j \<and>
      (so_ack_timeout_ms opts \<noteq> invalid_value \<longrightarrow> sj_timeout j = so_ack_timeout_ms opts) \<and>
      ss_ticks v = 1 \<and> ss_round v = 0 \<and> ss_inbox v = inbox \<and> ss_sock v = sd_sock sd \<and> ss_rx v = rx_fresh \<and>
      ss_matched v = None \<and> ss_union v = [] \<and> ss_last v = replicate (length chunks + 1) None"
proof -
  show ?thesis unfolding confirm_message_def Let_def
    by (intro exI conjI allI, rule refl) (simp_all add: assms ack_first_wait_ms_def trans_le_add1)
qed

lemma confirm_message_result:
  assumes "\<forall>f\<in>seen. length f < 2 ^ 32" and "\<forall>k ps. set (sc_order ctx k ps) = set ps"
    and "set inbox \<subseteq> seen" and "length chunks < 65536 \<and> cm_page_cnt meta \<noteq> 0" and "so_delivery opts = Reliable"
    and "set (sk_out s0) \<subseteq> set (sk_out (sd_sock sd))" and "own_frames Reliable meta chunks s0 (sd_sock sd)"
  shows "\<exists>N. \<forall>fuel. case confirm_message fuel ctx opts meta chunks crc rate report sd inbox of
       None \<Rightarrow> clock_advances ctx \<longrightarrow> fuel \<le> N
     | Some (rep, sd', rest) \<Rightarrow> sr_status rep \<in> {DeliveredAcked, FailedTimeout, FailedLocalSend, FailedIntegrity} \<and>
         sr_sequence rep = sr_sequence report \<and> sr_crc32c rep = sr_crc32c report \<and>
         own_frames Reliable meta chunks s0 (sd_sock sd') \<and> set (sk_out (sd_sock sd)) \<subseteq> set (sk_out (sd_sock sd')) \<and>
         (sr_status rep = DeliveredAcked \<longrightarrow> confirmed_by seen meta (so_integrity opts) crc)"
proof -
  obtain j v where jv: "\<And>fuel. confirm_message fuel ctx opts meta chunks crc rate report sd inbox =
      do { (status, v, rate) \<leftarrow> send_rounds fuel ctx j v (sd_rate sd);
        Some (report\<lparr>sr_status := status, sr_ack_crc32c := ss_ack_crc v\<rparr>,
              sd\<lparr>sd_sock := ss_sock v, sd_stats := ss_stats v, sd_rtt := ss_rtt v, sd_peers := fb_peers (ss_fb v),
                 sd_rate := rate\<rparr>, ss_inbox v) }"
      "sj_meta j = meta" "sj_chunks j = chunks" "sj_crc j = crc" "sj_delivery j = Reliable" "sj_integrity j = so_integrity opts"
      "sj_begin j = sc_clk ctx 0" "ss_ticks v = 1" "ss_inbox v = inbox" "ss_sock v = sd_sock sd" "ss_rx v = rx_fresh"
      "ss_matched v = None" "ss_union v = []" "ss_last v = replicate (length chunks + 1) None"
    using confirm_message_rounds [OF assms(5), of ctx meta chunks crc rate report sd inbox] by blast
  define sent where "sent = set (sk_out (sd_sock sd))"
  have "job_wf j" using jv assms(4) by (simp add: job_wf_def)
  moreover have "send_inv j seen sent v" using jv assms(3) rx_fresh_wf by (simp add: send_inv_def sent_def)
  ultimately have r: "rounds_result ctx j seen sent fuel (ss_ticks v) (send_rounds fuel ctx j v (sd_rate sd))" for fuel
    using send_rounds_result assms(1,2) jv(7) by blast
  show ?thesis
  proof (intro exI [of _ "sj_timeout j * 1000000"] allI)
    fix fuel
    show "case confirm_message fuel ctx opts meta chunks crc rate report sd inbox of
       None \<Rightarrow> clock_advances ctx \<longrightarrow> fuel \<le> sj_timeout j * 1000000
     | Some (rep, sd', rest) \<Rightarrow> sr_status rep \<in> {DeliveredAcked, FailedTimeout, FailedLocalSend, FailedIntegrity} \<and>
         sr_sequence rep = sr_sequence report \<and> sr_crc32c rep = sr_crc32c report \<and>
         own_frames Reliable meta chunks s0 (sd_sock sd') \<and> set (sk_out (sd_sock sd)) \<subseteq> set (sk_out (sd_sock sd')) \<and>
         (sr_status rep = DeliveredAcked \<longrightarrow> confirmed_by seen meta (so_integrity opts) crc)"
    proof (cases "send_rounds fuel ctx j v (sd_rate sd)")
      case None
      then show ?thesis using r [of fuel] jv(8) by (auto simp: jv(1) rounds_result_def)
    next
      case (Some x)
      obtain status v' rate' where x: "x = (status, v', rate')" by (cases x)
      have c: "confirmed j seen sent status (ss_sock v')" using r [of fuel] Some x by (simp add: rounds_result_def)
      have "own_frames Reliable meta chunks s0 (ss_sock v')"
        unfolding own_frames_def
      proof
        fix f assume f: "f \<in> set (sk_out (ss_sock v')) - set (sk_out s0)"
        show "f \<in> set chunks \<or> announces meta (Reliable = Reliable) (Reliable = BestEffort) f"
        proof (cases "f \<in> sent")
          case True
          then show ?thesis using assms(7) f by (auto simp: own_frames_def sent_def)
        next
          case False
          then have "belongs j f" using c f by (auto simp: confirmed_def)
          then show ?thesis by (simp add: belongs_def jv(2,3))
        qed
      qed
      moreover have "confirmed_by seen meta (so_integrity opts) crc" if acked: "status = DeliveredAcked"
      proof -
        obtain a where a: "ack_origin seen a" "framed seen a" "ack_matches a (sj_meta j)" "integrity_ok j a"
          using c acked by (auto simp: confirmed_def)
        then have "\<exists>f \<in> seen. confirms_message f meta" using framed_confirms_message jv(2) by auto
        then show ?thesis
          using a jv(2,4,6) unfolding confirmed_by_def integrity_ok_def ack_origin_def by (intro conjI exI [of _ a]) auto
      qed
      ultimately show ?thesis using c Some x by (auto simp: jv(1) confirmed_def sent_def)
    qed
  qed
qed

text \<open>The outcomes of the driver, for every bound on the rounds.\<close>

definition send_outcome ::
    "send_ctx \<Rightarrow> send_options \<Rightarrow> bytes \<Rightarrow> sender \<Rightarrow> bytes set \<Rightarrow> send_report \<Rightarrow> sender \<Rightarrow> bool" where
  "send_outcome ctx opts data sd seen rep sd' \<longleftrightarrow> sr_sequence rep = sd_counter sd \<and>
     (sr_status rep = FailedInvalidArgument \<and> sd_sock sd' = sd_sock sd \<or>
      (\<exists>chunks tail. correct_pages (split_chunks data) = Some chunks \<and> parse_tail (hd chunks) = Some tail \<and>
         own_frames (so_delivery opts) (meta_of_tail tail (sd_counter sd)) chunks (sd_sock sd) (sd_sock sd') \<and>
         (sr_status rep = FailedLocalSend \<or> set chunks \<subseteq> set (sk_out (sd_sock sd'))) \<and>
         (sr_status rep = DeliveredAcked \<longrightarrow> so_delivery opts = Reliable \<and>
            confirmed_by seen (meta_of_tail tail (sd_counter sd)) (so_integrity opts) (send_crc ctx (concat chunks)))))"

lemma correct_pages_some:
  "correct_pages cs = Some chunks \<Longrightarrow> length chunks = length cs"
  by (auto simp: correct_pages_def split: if_splits)

lemma after_burst:
  fixes ctx :: send_ctx
  assumes "\<forall>f\<in>seen. length f < 2 ^ 32" and "\<forall>k ps. set (sc_order ctx k ps) = set ps"
    and "set inbox \<subseteq> seen" and "length chunks < 65536 \<and> cm_page_cnt meta \<noteq> 0"
    and "set (sk_out s0) \<subseteq> set (sk_out s)" and "own_frames (so_delivery opts) meta chunks s0 s" and "set chunks \<subseteq> set (sk_out s)"
    and "sr_crc32c report = (if so_integrity opts = IntegrityCRC32C then crc else 0)"
  shows "\<exists>N. \<forall>fuel. case do {
          s \<leftarrow> (if so_send_heartbeat opts \<and> (so_delivery opts = Reliable \<or> kBestEffortHeartbeatMinPages \<le> cm_page_cnt meta)
                then send_heartbeat (sc_ok ctx) (sc_junk ctx) (sc_me ctx) s meta (so_delivery opts = Reliable) (\<not> so_delivery opts = Reliable) 1
                else Some s);
          let sd = sd\<lparr>sd_sock := s\<rparr>;
          if so_delivery opts = BestEffort
          then Some (report\<lparr>sr_status := SentUnconfirmed\<rparr>, sd, drain_queue n inbox)
          else confirm_message fuel ctx opts meta chunks (sr_crc32c report) rate report sd inbox
        } of None \<Rightarrow> clock_advances ctx \<longrightarrow> fuel \<le> N
     | Some (rep, sd', rest) \<Rightarrow> sr_sequence rep = sr_sequence report \<and> sr_status rep \<noteq> FailedInvalidArgument \<and>
         own_frames (so_delivery opts) meta chunks s0 (sd_sock sd') \<and> set chunks \<subseteq> set (sk_out (sd_sock sd')) \<and>
         (sr_status rep = DeliveredAcked \<longrightarrow> so_delivery opts = Reliable \<and> confirmed_by seen meta (so_integrity opts) crc)"
    (is "\<exists>N. \<forall>fuel. ?R N fuel")
proof -
  define c where "c = (so_send_heartbeat opts \<and> (so_delivery opts = Reliable \<or> kBestEffortHeartbeatMinPages \<le> cm_page_cnt meta))"
  obtain s' f where h: "(if c then send_heartbeat (sc_ok ctx) (sc_junk ctx) (sc_me ctx) s meta (so_delivery opts = Reliable)
        (\<not> so_delivery opts = Reliable) 1 else Some s) = Some s'"
      "announces meta (so_delivery opts = Reliable) (\<not> so_delivery opts = Reliable) f"
      "set (sk_out s) \<subseteq> set (sk_out s')" "set (sk_out s') \<subseteq> insert f (set (sk_out s))"
    using heartbeat_step by blast
  have mode: "(so_delivery opts = BestEffort) = (\<not> so_delivery opts = Reliable)" by (cases "so_delivery opts") simp_all
  have own: "own_frames (so_delivery opts) meta chunks s0 s'"
    using assms(6) h(2,4) unfolding own_frames_def mode by auto
  have all: "set chunks \<subseteq> set (sk_out s')" "set (sk_out s0) \<subseteq> set (sk_out s')" using assms(5,7) h(3) by auto
  show ?thesis
  proof (cases "so_delivery opts")
    case BestEffort
    then show ?thesis using h(1) own all unfolding c_def [symmetric] by (simp add: Let_def)
  next
    case Reliable
    let ?sd = "sd\<lparr>sd_sock := s'\<rparr>"
    obtain N where N: "\<And>fuel. case confirm_message fuel ctx opts meta chunks (sr_crc32c report) rate report ?sd inbox of
       None \<Rightarrow> clock_advances ctx \<longrightarrow> fuel \<le> N
     | Some (rep, sd', rest) \<Rightarrow> sr_status rep \<in> {DeliveredAcked, FailedTimeout, FailedLocalSend, FailedIntegrity} \<and>
         sr_sequence rep = sr_sequence report \<and> sr_crc32c rep = sr_crc32c report \<and>
         own_frames Reliable meta chunks s0 (sd_sock sd') \<and> set (sk_out (sd_sock ?sd)) \<subseteq> set (sk_out (sd_sock sd')) \<and>
         (sr_status rep = DeliveredAcked \<longrightarrow> confirmed_by seen meta (so_integrity opts) (sr_crc32c report))"
      using confirm_message_result [OF assms(1-4) Reliable, of s0 ?sd] all(2) own Reliable by fastforce
    have cc: "confirmed_by seen meta (so_integrity opts) (sr_crc32c report) \<Longrightarrow> confirmed_by seen meta (so_integrity opts) crc"
      using assms(8) by (auto simp: confirmed_by_def)
    have e: "(do {
          s \<leftarrow> (if so_send_heartbeat opts \<and> (so_delivery opts = Reliable \<or> kBestEffortHeartbeatMinPages \<le> cm_page_cnt meta)
                then send_heartbeat (sc_ok ctx) (sc_junk ctx) (sc_me ctx) s meta (so_delivery opts = Reliable) (\<not> so_delivery opts = Reliable) 1
                else Some s);
          let sd = sd\<lparr>sd_sock := s\<rparr>;
          if so_delivery opts = BestEffort
          then Some (report\<lparr>sr_status := SentUnconfirmed\<rparr>, sd, drain_queue n inbox)
          else confirm_message fuel ctx opts meta chunks (sr_crc32c report) rate report sd inbox
        }) = confirm_message fuel ctx opts meta chunks (sr_crc32c report) rate report ?sd inbox" for fuel
      using h(1) Reliable unfolding c_def [symmetric] by (simp add: Let_def)
    show ?thesis
    proof (intro exI [of _ N] allI)
      fix fuel
      show "?R N fuel"
      proof (cases "confirm_message fuel ctx opts meta chunks (sr_crc32c report) rate report ?sd inbox")
        case None
        then show ?thesis using N [of fuel] unfolding e by simp
      next
        case (Some x)
        obtain rep sd' rest where x: "x = (rep, sd', rest)" by (cases x)
        show ?thesis
          using N [of fuel] cc all(1) Reliable unfolding e Some x option.case prod.case by auto
      qed
    qed
  qed
qed

lemma chunk_send_ex_outcome:
  assumes "\<forall>f\<in>set inbox. length f < 2 ^ 32" and "\<forall>k ps. set (sc_order ctx k ps) = set ps"
  shows "\<exists>N. \<forall>fuel. case chunk_send_ex fuel ctx opts data sd inbox of
     None \<Rightarrow> clock_advances ctx \<longrightarrow> fuel \<le> N
   | Some (rep, sd', rest) \<Rightarrow> send_outcome ctx opts data sd (set inbox) rep sd'"
proof -
  have invalid: "send_outcome ctx opts data sd seen (report\<lparr>sr_status := FailedInvalidArgument\<rparr>) (sd\<lparr>sd_counter := n\<rparr>)"
    if "sr_sequence report = sd_counter sd" for seen report n using that by (simp add: send_outcome_def)
  define report where "report = \<lparr>sr_status = FailedInvalidArgument, sr_crc32c = 0, sr_ack_crc32c = 0, sr_sequence = sd_counter sd\<rparr>"
  define sd1 where "sd1 = sd\<lparr>sd_counter := sd_counter sd + 1\<rparr>"
  show ?thesis
  proof (cases "data = [] \<or> length data < TAIL_SIZE \<or> correct_pages (split_chunks data) = None")
    case True
    then show ?thesis by (auto simp: chunk_send_ex_def Let_def send_outcome_def)
  next
    case False
    then obtain chunks where ch: "correct_pages (split_chunks data) = Some chunks" by auto
    define report1 where "report1 = (if so_integrity opts = IntegrityCRC32C then report\<lparr>sr_crc32c := send_crc ctx (concat chunks)\<rparr> else report)"
    have rp: "sr_sequence report1 = sd_counter sd" "sr_status report1 = FailedInvalidArgument"
      "sr_crc32c report1 = (if so_integrity opts = IntegrityCRC32C then send_crc ctx (concat chunks) else 0)"
      by (simp_all add: report1_def report_def)
    note unf = chunk_send_ex_def Let_def report_def [symmetric] sd1_def [symmetric] ch option.case report1_def [symmetric]
    show ?thesis
    proof (cases "parse_tail (hd chunks)")
      case None
      then show ?thesis using False rp unfolding unf by (auto simp: send_outcome_def sd1_def)
    next
      case (Some tail)
      show ?thesis
      proof (cases "\<not> valid_chunk_meta tail \<or> unat (tm_page_cnt tail) \<noteq> length chunks")
        case True
        then show ?thesis using False Some rp unfolding unf by (auto simp: send_outcome_def sd1_def)
      next
        case good: False
        define meta where "meta = meta_of_tail tail (sr_sequence report1)"
        define inbox1 where "inbox1 = drain_queue (fst (sc_queued ctx)) inbox"
        have lc: "length chunks < 65536 \<and> cm_page_cnt meta \<noteq> 0"
          using good unat_less_u16 [of "tm_page_cnt tail"] by (auto simp: meta_def valid_chunk_meta_wf [of tail "sr_sequence report1"] meta_wf_def)
        have sub: "set inbox1 \<subseteq> set inbox" unfolding inbox1_def by (rule drain_queue_subset)
        obtain s1 f where h: "(if so_send_heartbeat opts \<and> so_delivery opts = Reliable then send_heartbeat (sc_ok ctx) (sc_junk ctx)
              (sc_me ctx) (sd_sock sd1) meta True False 0 else Some (sd_sock sd1)) = Some s1"
            "announces meta True False f" "set (sk_out (sd_sock sd1)) \<subseteq> set (sk_out s1)"
            "set (sk_out s1) \<subseteq> insert f (set (sk_out (sd_sock sd1)))"
          using heartbeat_step by blast
        have h0: "so_delivery opts \<noteq> Reliable \<Longrightarrow> s1 = sd_sock sd1" using h(1) by auto
        obtain rate_limit rate where er: "effective_rate_bps (sc_glob ctx) (sd_rate sd1) (so_rate_limit_bps opts) = (rate_limit, rate)"
          by fastforce
        obtain sent s2 pauses where b: "send_all_chunks (sc_ok ctx) (sc_burst_us ctx) s1 chunks rate_limit = (sent, s2, pauses)"
          using prod_cases3 by blast
        then obtain k where k: "sent \<longleftrightarrow> k = length chunks" "sk_out s2 = sk_out s1 @ take k chunks"
          using send_from_spec unfolding send_all_chunks_def by metis
        have s0: "sd_sock sd1 = sd_sock sd" by (simp add: sd1_def)
        have own: "own_frames (so_delivery opts) meta chunks (sd_sock sd) s2"
          unfolding own_frames_def
        proof
          fix g assume "g \<in> set (sk_out s2) - set (sk_out (sd_sock sd))"
          then have g: "g \<in> set chunks \<or> g \<in> set (sk_out s1)" "g \<notin> set (sk_out (sd_sock sd))"
            using k(2) set_take_subset [of k chunks] by auto
          show "g \<in> set chunks \<or> announces meta (so_delivery opts = Reliable) (so_delivery opts = BestEffort) g"
          proof (cases "g \<in> set chunks")
            case False
            then have "g \<in> set (sk_out s1)" "s1 \<noteq> sd_sock sd1" using g s0 by auto
            then have "g = f" "so_delivery opts = Reliable" using h(4) h0 g(2) s0 by auto
            then show ?thesis using h(2) by simp
          qed simp
        qed
        note unf2 = unf Some if_not_P [OF good] meta_def [symmetric] inbox1_def [symmetric] h(1) bind.bind_lunit er b prod.case
        have nd: "\<not> (data = [] \<or> length data < TAIL_SIZE)" using False by blast
        have mm: "meta = meta_of_tail tail (sd_counter sd)" by (simp add: meta_def rp(1))
        show ?thesis
        proof (cases sent)
          case ns: False
          then have "\<exists>r sd' rest. \<forall>fuel. chunk_send_ex fuel ctx opts data sd inbox = Some (r, sd', rest) \<and>
              sr_sequence r = sd_counter sd \<and> sr_status r = FailedLocalSend \<and> sd_sock sd' = s2"
            using rp(1) unfolding unf2 if_not_P [OF nd] by simp
          then obtain r sd' rest where r: "\<And>fuel. chunk_send_ex fuel ctx opts data sd inbox = Some (r, sd', rest)"
              "sr_sequence r = sd_counter sd" "sr_status r = FailedLocalSend" "sd_sock sd' = s2" by blast
          have "send_outcome ctx opts data sd (set inbox) r sd'"
            using ch Some own mm r(2-4) unfolding send_outcome_def by auto
          then show ?thesis using r(1) by simp
        next
          case True
          have all: "set chunks \<subseteq> set (sk_out s2)" "set (sk_out (sd_sock sd)) \<subseteq> set (sk_out s2)"
            using True k h(3) s0 by auto
          let ?sd2 = "sd1\<lparr>sd_rate := rate, sd_sock := s2\<rparr>"
          obtain N where N: "\<And>fuel. case chunk_send_ex fuel ctx opts data sd inbox of
              None \<Rightarrow> clock_advances ctx \<longrightarrow> fuel \<le> N
            | Some (rep, sd', rest) \<Rightarrow> sr_sequence rep = sr_sequence report1 \<and> sr_status rep \<noteq> FailedInvalidArgument \<and>
                own_frames (so_delivery opts) meta chunks (sd_sock sd) (sd_sock sd') \<and> set chunks \<subseteq> set (sk_out (sd_sock sd')) \<and>
                (sr_status rep = DeliveredAcked \<longrightarrow> so_delivery opts = Reliable \<and>
                   confirmed_by (set inbox) meta (so_integrity opts) (send_crc ctx (concat chunks)))"
            using after_burst [OF assms sub lc all(2) own all(1) rp(3), of ?sd2 "snd (sc_queued ctx)" rate_limit] True
            unfolding unf2 if_not_P [OF nd] by (simp add: Let_def, blast)
          show ?thesis
          proof (intro exI [of _ N] allI)
            fix fuel
            show "case chunk_send_ex fuel ctx opts data sd inbox of None \<Rightarrow> clock_advances ctx \<longrightarrow> fuel \<le> N
              | Some (rep, sd', rest) \<Rightarrow> send_outcome ctx opts data sd (set inbox) rep sd'"
            proof (cases "chunk_send_ex fuel ctx opts data sd inbox")
              case None
              then show ?thesis using N [of fuel] by simp
            next
              case (Some x)
              then show ?thesis
                using N [of fuel] ch \<open>parse_tail (hd chunks) = Some tail\<close> mm rp(1) unfolding send_outcome_def
                by (cases x) auto
            qed
          qed
        qed
      qed
    qed
  qed
qed

lemma chunk_send_ex_result:
  assumes "\<forall>f\<in>set inbox. length f < 2 ^ 32" and "\<forall>k ps. set (sc_order ctx k ps) = set ps"
    and "chunk_send_ex fuel ctx opts data sd inbox = Some (rep, sd', rest)"
  shows "send_outcome ctx opts data sd (set inbox) rep sd'"
proof -
  obtain N where "\<And>fuel. case chunk_send_ex fuel ctx opts data sd inbox of
     None \<Rightarrow> clock_advances ctx \<longrightarrow> fuel \<le> N | Some (rep, sd', rest) \<Rightarrow> send_outcome ctx opts data sd (set inbox) rep sd'"
    using chunk_send_ex_outcome [OF assms(1,2)] by blast
  from this [of fuel] show ?thesis using assms(3) by simp
qed

text \<open>A larger bound on the rounds does not change a result: the bound only adds results.\<close>

definition le_result :: "'a option \<Rightarrow> 'a option \<Rightarrow> bool" where
  "le_result x y \<longleftrightarrow> x = None \<or> x = y"

named_theorems le_result_intros

lemma le_result_rules [le_result_intros]:
  "le_result x x" "(\<And>y. le_result (f y) (g y)) \<Longrightarrow> le_result (Option.bind z f) (Option.bind z g)"
  "le_result a b \<Longrightarrow> le_result c d \<Longrightarrow> le_result (if q then a else c) (if q then b else d)"
  "le_result a b \<Longrightarrow> (\<And>y. le_result (f y) (g y)) \<Longrightarrow> le_result (case z of None \<Rightarrow> a | Some y \<Rightarrow> f y) (case z of None \<Rightarrow> b | Some y \<Rightarrow> g y)"
  "(\<And>y y'. le_result (h y y') (k y y')) \<Longrightarrow> le_result (case p of (y, y') \<Rightarrow> h y y') (case p of (y, y') \<Rightarrow> k y y')"
  by (cases z; cases p; auto simp: le_result_def)+

lemma send_rounds_more: "n \<le> m \<Longrightarrow> le_result (send_rounds n ctx j v rate) (send_rounds m ctx j v rate)"
proof (induction n arbitrary: m v rate)
  case (Suc n)
  then obtain k where m: "m = Suc k" "n \<le> k" by (cases m) auto
  show ?case unfolding m(1) send_rounds.simps Let_def by (intro le_result_intros Suc.IH [OF m(2)])
qed (simp add: le_result_def)

lemma confirm_message_more:
  assumes "n \<le> m"
  shows "le_result (confirm_message n ctx opts meta chunks crc r report sd inbox) (confirm_message m ctx opts meta chunks crc r report sd inbox)"
proof -
  have b: "le_result x y \<Longrightarrow> le_result (Option.bind x f) (Option.bind y f)" for x y :: "'x option" and f :: "'x \<Rightarrow> 'y option"
    by (auto simp: le_result_def)
  show ?thesis unfolding confirm_message_def Let_def by (intro b send_rounds_more assms)
qed

lemma chunk_send_ex_more:
  assumes "n \<le> m" and "chunk_send_ex n ctx opts data sd inbox = Some r"
  shows "chunk_send_ex m ctx opts data sd inbox = Some r"
proof -
  have "le_result (chunk_send_ex n ctx opts data sd inbox) (chunk_send_ex m ctx opts data sd inbox)"
    unfolding chunk_send_ex_def Let_def by (intro le_result_intros confirm_message_more assms(1))
  then show ?thesis using assms(2) by (simp add: le_result_def)
qed

text \<open>One page, confirmed by one ACK.\<close>

definition example_send_ctx :: send_ctx where
  "example_send_ctx = \<lparr>sc_clk = (\<lambda>k. k), sc_burst_us = (\<lambda>k. 0), sc_resend_us = (\<lambda>r k. 0), sc_order = (\<lambda>k ps. ps),
     sc_queued = (0, 0), sc_ok = (\<lambda>k. True), sc_junk = (\<lambda>k. 0), sc_me = 9, sc_track = False, sc_glob = 0, sc_delay = 0,
     sc_rnd = (\<lambda>x. x), sc_sse42 = False, sc_u8 = (\<lambda>c b. c), sc_u64 = (\<lambda>c b. 0)\<rparr>"

definition example_sender :: sender where
  "example_sender = \<lparr>sd_counter = 5, sd_rtt = rtt_initial, sd_peers = Mapping.empty, sd_rate = rate_limit_init,
     sd_stats = frag_track_init, sd_sock = \<lparr>sk_calls = 0, sk_out = []\<rparr>\<rparr>"

definition example_opts :: send_options where
  "example_opts = SocketSendOptions\<lparr>so_delivery := Reliable, so_integrity := IntegrityCRC32C, so_ack_timeout_ms := 100\<rparr>"

definition example_page :: bytes where "example_page = [1, 2, 3, 0, 1, 0, 1, 0, 0, 0, 15, 0, 0, 0, 7]"

definition example_ack :: bytes where
  "example_ack = wire (msg_base_init kRtpsAckMsgId) (concat (ack_fields (ack_frame 9
     \<lparr>cm_page_cnt = 1, cm_total_size = 15, cm_msg_id = 7, cm_sequence = 5\<rparr> (send_crc example_send_ctx example_page))))"

lemma example_page_facts:
  "correct_pages (split_chunks example_page) = Some [example_page]" "example_page \<noteq> []" "length example_page = 15"
  "parse_tail example_page = Some \<lparr>tm_page_cnt = 1, tm_now_page = 1, tm_total_size = 15, tm_msg_id = 7\<rparr>"
  by code_simp+

lemma example_ack_facts:
  "length example_ack = 35" "example_ack \<noteq> []" "check_ak_id example_ack"
  "\<exists>m. ack_deserialize IpcRtpsAckMsg example_ack = Some m \<and> ak_receiver_id m = 9 \<and> ak_page_cnt m = 1 \<and> ak_total_size m = 15 \<and>
     ak_data_msg_id m = 7 \<and> ak_sequence m = 5 \<and> ak_integrity_flags m = 1 \<and>
     ak_payload_crc32c m = send_crc example_send_ctx example_page"
proof -
  show l: "length example_ack = 35" by (simp add: example_ack_def ack_fields_length phys_def)
  then show "example_ack \<noteq> []" by auto
  show "check_ak_id example_ack" by (simp add: example_ack_def check_ak_id_def check_id_wire msg_base_init_def)
  show "\<exists>m. ack_deserialize IpcRtpsAckMsg example_ack = Some m \<and> ak_receiver_id m = 9 \<and> ak_page_cnt m = 1 \<and> ak_total_size m = 15 \<and>
     ak_data_msg_id m = 7 \<and> ak_sequence m = 5 \<and> ak_integrity_flags m = 1 \<and>
     ak_payload_crc32c m = send_crc example_send_ctx example_page"
    unfolding example_ack_def ack_deserialize_wire by (simp add: ack_frame_def INTEGRITY_FLAG_CRC32C_def)
qed

lemma example_ctx_fields:
  "sc_clk example_send_ctx = (\<lambda>k. k)" "sc_queued example_send_ctx = (0, 0)" "sc_ok example_send_ctx = (\<lambda>k. True)"
  "sc_junk example_send_ctx = (\<lambda>k. 0)" "sc_me example_send_ctx = 9" "sc_glob example_send_ctx = 0"
  "sc_order example_send_ctx = (\<lambda>k ps. ps)"
  by (simp_all add: example_send_ctx_def)

definition example_meta :: chunk_meta where
  "example_meta = \<lparr>cm_page_cnt = 1, cm_total_size = 15, cm_msg_id = 7, cm_sequence = 5\<rparr>"

lemma example_rounds:
  assumes "sj_delivery j = Reliable" "sj_timeout j = 100" "sj_begin j = 0" "1 \<le> sj_first_wait j" "sj_meta j = example_meta"
    "sj_crc j = send_crc example_send_ctx example_page"
    and "ss_ticks v = 1" "ss_round v = 0" "ss_rx v = rx_fresh" "ss_inbox v = [example_ack]"
  shows "\<exists>v' rate'. send_rounds 1 example_send_ctx j v rate = Some (DeliveredAcked, v', rate')"
proof -
  obtain m where m: "ack_deserialize IpcRtpsAckMsg example_ack = Some m" "ak_page_cnt m = 1" "ak_total_size m = 15"
     "ak_data_msg_id m = 7" "ak_sequence m = 5" "ak_integrity_flags m = 1"
     "ak_payload_crc32c m = send_crc example_send_ctx example_page" using example_ack_facts(4) by blast
  have am: "ack_matches m (sj_meta j)" using m assms(5) by (simp add: ack_matches_def example_meta_def)
  define v0 where "v0 = v\<lparr>ss_ticks := ss_ticks v + 1, ss_matched := None, ss_got_nack := False, ss_unknown := False, ss_union := []\<rparr>"
  have t1: "collect_timeout example_send_ctx j 1 (sj_first_wait j) v0 = (None, v0\<lparr>ss_ticks := 5\<rparr>)"
    using assms by (simp add: collect_timeout_def Let_def sent_elapsed_ms_def example_ctx_fields v0_def)
  define v1 where "v1 = note_ack example_send_ctx j m (v0\<lparr>ss_ticks := 5, ss_rx := rx_fresh\<lparr>rx_ack := m\<rparr>\<rparr>)"
  have tf: "take_feedback example_send_ctx j example_ack (v0\<lparr>ss_ticks := 5\<rparr>) = Some (True, v1)"
    using assms(9) m(1) am example_ack_facts(3) by (simp add: take_feedback_def v0_def v1_def rx_fresh_def)
  have v1: "ss_matched v1 = Some m" "ss_ack_crc v1 = ak_payload_crc32c m"
    by (simp_all add: v1_def note_ack_def Let_def)
  have c: "collect_feedback example_send_ctx j 1 (sj_first_wait j) v0 [example_ack] = Some (CollectAcked, v1\<lparr>ss_inbox := []\<rparr>)"
    using t1 tf example_ack_facts(2) by simp
  have ok: "integrity_ok j m" using m(6,7) assms(6) by (simp add: integrity_ok_def INTEGRITY_FLAG_CRC32C_def)
  have "\<exists>status v' rate'. finish_acked example_send_ctx j m (v1\<lparr>ss_inbox := []\<rparr>) rate = Some (status, v', rate') \<and>
      ss_sock v' = ss_sock (v1\<lparr>ss_inbox := []\<rparr>) \<and>
    (status = FailedIntegrity \<and> \<not> integrity_ok j m \<or> status = DeliveredAcked \<and> integrity_ok j m)"
    by (rule finish_acked_result [of "{}"]) (simp_all add: v1)
  then obtain v' rate' where f: "finish_acked example_send_ctx j m (v1\<lparr>ss_inbox := []\<rparr>) rate = Some (DeliveredAcked, v', rate')"
    using ok by blast
  have "send_rounds (Suc 0) example_send_ctx j v rate = Some (DeliveredAcked, v', rate')"
    using assms(7,8,10) v1(1) f c unfolding send_rounds.simps(2) Let_def v0_def [symmetric]
    by (simp add: v0_def example_ctx_fields)
  then show ?thesis by simp
qed

lemma example_sent:
  "\<exists>rep sd' rest. chunk_send_ex 1 example_send_ctx example_opts example_page example_sender [example_ack] = Some (rep, sd', rest) \<and>
     sr_status rep = DeliveredAcked"
proof -
  have one: "SEND_RETRY_MAX = Suc 9" "kMaxDrain = Suc 8191" by (simp_all add: SEND_RETRY_MAX_def kMaxDrain_def)
  obtain s1 where s1: "send_heartbeat (\<lambda>k. True) (\<lambda>k. 0) 9 \<lparr>sk_calls = 0, sk_out = []\<rparr> example_meta True False 0 = Some s1"
    using send_heartbeat_announces by blast
  have "\<exists>s'. send_chunk_with_retry (\<lambda>k. True) s1 example_page = (True, s')"
    unfolding send_chunk_with_retry_def one send_attempts.simps by (simp add: node_send_def)
  then obtain s2 ps where b: "send_all_chunks (\<lambda>k. True) (sc_burst_us example_send_ctx) s1 [example_page] 0 = (True, s2, ps)"
    by (auto simp: send_all_chunks_def)
  obtain s3 where s3: "send_heartbeat (\<lambda>k. True) (\<lambda>k. 0) 9 s2 example_meta True False 1 = Some s3"
    using send_heartbeat_announces by blast
  have dq: "drain_queue 0 xs = xs" for xs
    unfolding drain_queue_def drain_self_loopback_def one drain_loop.simps take_0 drop_0 by simp
  have cm: "\<exists>rep sd' rest. confirm_message 1 example_send_ctx example_opts example_meta [example_page]
      (send_crc example_send_ctx example_page) r report sd [example_ack] = Some (rep, sd', rest) \<and> sr_status rep = DeliveredAcked"
    for r report sd
  proof -
    have o: "so_delivery example_opts = Reliable" "so_ack_timeout_ms example_opts = 100" "100 \<noteq> invalid_value"
      by (simp_all add: example_opts_def invalid_value_def)
    obtain j v where jv: "confirm_message 1 example_send_ctx example_opts example_meta [example_page]
        (send_crc example_send_ctx example_page) r report sd [example_ack] =
      do { (status, v, rate) \<leftarrow> send_rounds 1 example_send_ctx j v (sd_rate sd);
        Some (report\<lparr>sr_status := status, sr_ack_crc32c := ss_ack_crc v\<rparr>,
              sd\<lparr>sd_sock := ss_sock v, sd_stats := ss_stats v, sd_rtt := ss_rtt v, sd_peers := fb_peers (ss_fb v),
                 sd_rate := rate\<rparr>, ss_inbox v) }"
      and f: "sj_delivery j = Reliable" "sj_timeout j = 100" "sj_begin j = 0" "1 \<le> sj_first_wait j" "sj_meta j = example_meta"
        "sj_crc j = send_crc example_send_ctx example_page" "ss_ticks v = 1" "ss_round v = 0" "ss_rx v = rx_fresh"
        "ss_inbox v = [example_ack]"
      using confirm_message_rounds [OF o(1), of example_send_ctx example_meta "[example_page]" "send_crc example_send_ctx example_page"
          r report sd "[example_ack]"] o(2,3) unfolding example_ctx_fields by auto
    show ?thesis using example_rounds [OF f, of "sd_rate sd"] unfolding jv by fastforce
  qed
  show ?thesis
    by (simp add: chunk_send_ex_def example_page_facts example_opts_def SocketSendOptions_def example_sender_def udp_consts
       valid_chunk_meta_def meta_of_tail_def example_ctx_fields dq s1 effective_rate_bps_def Let_def b s3 flip: example_meta_def)
      (rule cm [unfolded example_opts_def SocketSendOptions_def, simplified])
qed

lemma example_inbox:
  "\<forall>f\<in>set [example_ack]. length f < 2 ^ 32" "\<forall>k ps. set (sc_order example_send_ctx k ps) = set ps"
  by (simp_all add: example_ack_facts example_ctx_fields)

text \<open>
  C33. The sender returns: on a clock that advances between two readings there is a number of rounds
  after which it has returned, whatever datagrams arrive and in whatever order the missing pages
  are visited; the result is the same for every larger bound.
\<close>

theorem sender_returns:
  assumes "\<forall>f\<in>set inbox. length f < 2 ^ 32" and "\<forall>k ps. set (sc_order ctx k ps) = set ps" and "clock_advances ctx"
  shows "\<exists>N rep sd' rest. \<forall>fuel > N. chunk_send_ex fuel ctx opts data sd inbox = Some (rep, sd', rest) \<and>
    sr_sequence rep = sd_counter sd"
proof -
  obtain N where N: "\<And>fuel. case chunk_send_ex fuel ctx opts data sd inbox of
     None \<Rightarrow> clock_advances ctx \<longrightarrow> fuel \<le> N | Some (rep, sd', rest) \<Rightarrow> send_outcome ctx opts data sd (set inbox) rep sd'"
    using chunk_send_ex_outcome [OF assms(1,2)] by blast
  obtain rep sd' rest where r: "chunk_send_ex (Suc N) ctx opts data sd inbox = Some (rep, sd', rest)"
      "sr_sequence rep = sd_counter sd"
    using N [of "Suc N"] assms(3) by (auto simp: send_outcome_def split: option.splits)
  then show ?thesis using chunk_send_ex_more [OF _ r(1)] by (metis Suc_leI)
qed

theorem sender_returns_witness:
  "\<exists>N rep sd' rest. \<forall>fuel > N. chunk_send_ex fuel example_send_ctx example_opts example_page example_sender [example_ack] =
     Some (rep, sd', rest) \<and> sr_sequence rep = 5"
proof -
  have "clock_advances example_send_ctx" by (simp add: clock_advances_def example_ctx_fields)
  from sender_returns [OF example_inbox this, of example_opts example_page example_sender]
  show ?thesis by (simp add: example_sender_def)
qed

text \<open>
  C3. A message reported as delivered was acknowledged, whatever datagrams arrived: the delivery was reliable and a frame
  was received that is an acknowledgement of this message (its pages, its size and its identifier, and its sequence
  number unless the frame is too short to carry one). When the checksum is asked for, the sequence number and a checksum
  equal to that of the pages sent were read from one received acknowledgement.
\<close>

theorem sender_confirms:
  assumes "\<forall>f\<in>set inbox. length f < 2 ^ 32" and "\<forall>k ps. set (sc_order ctx k ps) = set ps"
    and "chunk_send_ex fuel ctx opts data sd inbox = Some (rep, sd', rest)" and "sr_status rep = DeliveredAcked"
  shows "\<exists>chunks tail. correct_pages (split_chunks data) = Some chunks \<and> parse_tail (hd chunks) = Some tail \<and>
    so_delivery opts = Reliable \<and> (\<exists>f \<in> set inbox. confirms_message f (meta_of_tail tail (sd_counter sd))) \<and>
    (so_integrity opts = IntegrityCRC32C \<longrightarrow>
       (\<exists>a. ack_matches a (meta_of_tail tail (sd_counter sd)) \<and> acked_in (set inbox) a \<and>
          ak_payload_crc32c a = send_crc ctx (concat chunks)))"
proof -
  have "send_outcome ctx opts data sd (set inbox) rep sd'"
    by (rule chunk_send_ex_result) (use assms in simp_all)
  then show ?thesis using assms(4) by (auto simp: send_outcome_def confirmed_by_def)
qed

theorem sender_confirms_witness:
  "confirms_message example_ack example_meta \<and>
   (\<exists>a. ack_matches a example_meta \<and> acked_in {example_ack} a \<and> ak_payload_crc32c a = send_crc example_send_ctx example_page)"
proof -
  obtain rep sd' rest where r: "chunk_send_ex 1 example_send_ctx example_opts example_page example_sender [example_ack] = Some (rep, sd', rest)"
      "sr_status rep = DeliveredAcked" using example_sent by blast
  from sender_confirms [OF example_inbox r] show ?thesis
    by (auto simp: example_page_facts example_opts_def meta_of_tail_def example_sender_def example_meta_def)
qed

text \<open>
  Everything a call sends belongs to its message: a page with its number corrected, or a heartbeat
  of the message. A reliable sender's heartbeats all carry the reliable flag and never the final
  one, those of a best-effort sender are all final; unless a send failed, all pages were sent.
\<close>

theorem sender_frames:
  assumes "\<forall>f\<in>set inbox. length f < 2 ^ 32" and "\<forall>k ps. set (sc_order ctx k ps) = set ps"
    and "chunk_send_ex fuel ctx opts data sd inbox = Some (rep, sd', rest)" and "sr_status rep \<noteq> FailedInvalidArgument"
  shows "\<exists>chunks tail. correct_pages (split_chunks data) = Some chunks \<and> parse_tail (hd chunks) = Some tail \<and>
    (\<forall>f\<in>set (sk_out (sd_sock sd')) - set (sk_out (sd_sock sd)). f \<in> set chunks \<or>
       announces (meta_of_tail tail (sd_counter sd)) (so_delivery opts = Reliable) (so_delivery opts = BestEffort) f) \<and>
    (sr_status rep = FailedLocalSend \<or> set chunks \<subseteq> set (sk_out (sd_sock sd')))"
proof -
  have "send_outcome ctx opts data sd (set inbox) rep sd'"
    by (rule chunk_send_ex_result) (use assms in simp_all)
  then show ?thesis using assms(4) by (auto simp: send_outcome_def own_frames_def)
qed

theorem sender_frames_witness:
  "\<exists>rep sd' rest. chunk_send_ex 1 example_send_ctx example_opts example_page example_sender [example_ack] = Some (rep, sd', rest) \<and>
     example_page \<in> set (sk_out (sd_sock sd')) \<and>
     (\<forall>f\<in>set (sk_out (sd_sock sd')). f = example_page \<or> announces example_meta True False f)"
proof -
  obtain rep sd' rest where r: "chunk_send_ex 1 example_send_ctx example_opts example_page example_sender [example_ack] = Some (rep, sd', rest)"
      "sr_status rep = DeliveredAcked" using example_sent by blast
  then have n: "sr_status rep \<noteq> FailedInvalidArgument" by simp
  from sender_frames [OF example_inbox r(1) n] r show ?thesis
    by (auto simp: example_page_facts example_opts_def meta_of_tail_def example_sender_def example_meta_def)
qed

end
