(* ===== verification/AllocContract.thy ===== *)
theory AllocContract
  imports Interfaces
begin

text \<open>
  The contract of an allocator of a fixed number of slots: it hands out free slots, says when there
  is none, and takes back the slots it handed out. The chunks of large messages and the connection
  slots of a ring are both given out under it.
\<close>

section \<open>A client that keeps what it was given\<close>

datatype alloc_op = Take | Give nat

text \<open>
  One request of a client that owns the slots \<open>held\<close>: take a slot, or give back the \<open>k\<close>-th one
  it owns. \<open>None\<close> is an access outside the table.
\<close>

fun client_step :: "('p \<Rightarrow> (int \<times> 'p) option) \<Rightarrow> (int \<Rightarrow> 'p \<Rightarrow> (bool \<times> 'p) option) \<Rightarrow>
    'p \<times> nat list \<Rightarrow> alloc_op \<Rightarrow> ('p \<times> nat list) option" where
  "client_step acq rel (p, held) Take = do { (i, p) \<leftarrow> acq p; Some (p, if i < 0 then held else nat i # held) }"
| "client_step acq rel (p, held) (Give k) =
     (if k < length held
      then do { (r, p) \<leftarrow> rel (int (held ! k)) p; Some (p, take k held @ drop (Suc k) held) }
      else Some (p, held))"

lemma held_without:
  assumes "distinct held" and "k < length held"
  shows "distinct (take k held @ drop (Suc k) held)" and "set (take k held @ drop (Suc k) held) = set held - {held ! k}"
proof -
  have h: "held = take k held @ held ! k # drop (Suc k) held" using assms(2) by (rule id_take_nth_drop)
  have d: "distinct (take k held @ held ! k # drop (Suc k) held)" using assms(1) by (subst h [symmetric])
  have s: "set held = set (take k held @ held ! k # drop (Suc k) held)" by (subst h) (rule refl)
  show "distinct (take k held @ drop (Suc k) held)" using d by simp
  show "set (take k held @ drop (Suc k) held) = set held - {held ! k}" unfolding s using d by auto
qed

section \<open>The contract\<close>

text \<open>\<open>free p ids\<close>: the allocator \<open>p\<close> is consistent and its free slots are \<open>ids\<close>.\<close>

locale slot_allocator =
  fixes free :: "'p \<Rightarrow> nat set \<Rightarrow> bool"
    and slots :: nat
    and acq :: "'p \<Rightarrow> (int \<times> 'p) option"
    and rel :: "int \<Rightarrow> 'p \<Rightarrow> (bool \<times> 'p) option"
  assumes acquire_law: "free p ids \<Longrightarrow> ids \<noteq> {} \<Longrightarrow> \<exists>i \<in> ids. \<exists>p'. acq p = Some (int i, p') \<and> free p' (ids - {i})"
    and exhausted_law: "free p {} \<Longrightarrow> acq p = Some (- 1, p)"
    and release_law: "free p ids \<Longrightarrow> i < slots \<Longrightarrow> i \<notin> ids \<Longrightarrow>
      \<exists>p'. rel (int i) p = Some (True, p') \<and> free p' (insert i ids)"
    and free_bound: "free p ids \<Longrightarrow> ids \<subseteq> {..<slots}"
begin

text \<open>Every slot is free or owned, and not both.\<close>

lemma client_step_split:
  assumes "free p ({..<slots} - set held)" and "distinct held" and "set held \<subseteq> {..<slots}"
  shows "\<exists>p' held'. client_step acq rel (p, held) x = Some (p', held') \<and> free p' ({..<slots} - set held') \<and>
    distinct held' \<and> set held' \<subseteq> {..<slots}"
proof (cases x)
  case Take
  show ?thesis
  proof (cases "{..<slots} - set held = {}")
    case True
    then show ?thesis using Take assms exhausted_law [of p] by auto
  next
    case False
    then obtain i p' where i: "i \<in> {..<slots} - set held" and p': "acq p = Some (int i, p')"
        "free p' ({..<slots} - set held - {i})"
      using acquire_law [OF assms(1)] by blast
    have "{..<slots} - set held - {i} = {..<slots} - set (i # held)" by auto
    then show ?thesis using Take assms(2,3) i p'
      by (intro exI [of _ p'] exI [of _ "i # held"]) auto
  qed
next
  case (Give k)
  show ?thesis
  proof (cases "k < length held")
    case True
    then have m: "held ! k \<in> set held" by simp
    have "held ! k < slots" "held ! k \<notin> {..<slots} - set held" using assms(3) m by auto
    then obtain p' where p': "rel (int (held ! k)) p = Some (True, p')" "free p' (insert (held ! k) ({..<slots} - set held))"
      using release_law [OF assms(1)] by blast
    have "insert (held ! k) ({..<slots} - set held) = {..<slots} - set (take k held @ drop (Suc k) held)"
      using held_without(2) [OF assms(2) True] m assms(3) by auto
    then show ?thesis using Give True p' held_without [OF assms(2) True] assms(3) by auto
  next
    case False
    then show ?thesis using Give assms by auto
  qed
qed

lemma client_run_split:
  assumes "free p ({..<slots} - set held)" and "distinct held" and "set held \<subseteq> {..<slots}"
  shows "\<exists>p' held'. foldM (client_step acq rel) (p, held) xs = Some (p', held') \<and> free p' ({..<slots} - set held') \<and>
    distinct held' \<and> set held' \<subseteq> {..<slots}"
  using assms
proof (induction xs arbitrary: p held)
  case Nil
  then show ?case by auto
next
  case (Cons x xs)
  obtain p1 held1 where "client_step acq rel (p, held) x = Some (p1, held1)" and "free p1 ({..<slots} - set held1)"
      and "distinct held1" and "set held1 \<subseteq> {..<slots}"
    using client_step_split [OF Cons.prems, of x] by blast
  with Cons.IH [of p1 held1] show ?case by simp
qed

text \<open>The next slot is one the client does not own; there is none exactly when it owns all.\<close>

lemma next_slot:
  assumes "free p ({..<slots} - set held)" and "distinct held" and "set held \<subseteq> {..<slots}"
  shows "\<exists>i p'. acq p = Some (i, p') \<and> (if length held < slots then 0 \<le> i \<and> nat i < slots \<and> nat i \<notin> set held else i = - 1)"
proof -
  have c: "card (set held) = length held" using assms(2) by (rule distinct_card)
  show ?thesis
  proof (cases "length held < slots")
    case True
    then have "{..<slots} - set held \<noteq> {}" using c card_mono [of "set held" "{..<slots}"] by auto
    then obtain i p' where "i \<in> {..<slots} - set held" "acq p = Some (int i, p')" using acquire_law [OF assms(1)] by blast
    then show ?thesis using True by simp
  next
    case False
    then have "{..<slots} = set held" using assms(3) c card_seteq [of "{..<slots}" "set held"] by auto
    then show ?thesis using False assms(1) exhausted_law [of p] by simp
  qed
qed

lemma run_next:
  assumes "free p {..<slots}"
  shows "\<exists>p' held. foldM (client_step acq rel) (p, []) xs = Some (p', held) \<and> distinct held \<and> set held \<subseteq> {..<slots} \<and>
    (\<exists>i p''. acq p' = Some (i, p'') \<and>
       (if length held < slots then 0 \<le> i \<and> nat i < slots \<and> nat i \<notin> set held else i = - 1))"
proof -
  obtain p' held where "foldM (client_step acq rel) (p, []) xs = Some (p', held)" and h: "free p' ({..<slots} - set held)"
      "distinct held" "set held \<subseteq> {..<slots}"
    using client_run_split [of p "[]" xs] assms by auto
  with next_slot [OF h] show ?thesis by blast
qed

end

end
