(* ===== verification/Connections.thy ===== *)
theory Connections
  imports AllocContract
begin

text \<open>
  Who is connected to a ring (\<open>src/src/libipc/circ/elem_def.h\<close>, \<open>circ/elem_array.h\<close>,
  \<open>queue.h\<close>): a bit per reader where every reader gets every message, a count otherwise, and a
  flag for the only sender.
\<close>

section \<open>Counting and finding bits\<close>

text \<open>Adding one to a word carries through its lowest set bits.\<close>

lemma add_one_bits:
  fixes x :: "'a::len word"
  assumes "\<forall>j < k. bit x j" and "\<not> bit x k" and "k < LENGTH('a)"
  shows "bit (x + 1) j \<longleftrightarrow> (j = k \<or> k < j \<and> bit x j)"
proof -
  let ?r = "x AND NOT (mask k)"
  have x: "x = ?r + mask k"
  proof -
    have "?r AND mask k = 0" by (rule bit_word_eqI) (auto simp: bit_simps)
    then have "?r + mask k = ?r OR mask k" by (rule disjunctive_add_eq_or)
    moreover have "?r OR mask k = x" by (rule bit_word_eqI) (use assms(1) in \<open>auto simp: bit_simps\<close>)
    ultimately show ?thesis by simp
  qed
  have "?r AND push_bit k 1 = 0" by (rule bit_word_eqI) (use assms(2) in \<open>auto simp: bit_simps\<close>)
  then have "?r + push_bit k 1 = ?r OR push_bit k 1" by (rule disjunctive_add_eq_or)
  moreover have "x + 1 = ?r + push_bit k 1"
    by (subst x) (simp add: mask_eq_exp_minus_1 push_bit_eq_mult)
  ultimately have "bit (x + 1) j = bit (?r OR push_bit k 1) j" by simp
  also have "\<dots> \<longleftrightarrow> (j = k \<or> k < j \<and> bit x j)"
    using assms(2,3) bit_imp_le_length [of x j] by (auto simp: bit_simps not_less le_less)
  finally show ?thesis .
qed

lemma lowest_unset:
  fixes x :: "'a::len word"
  assumes "x \<noteq> - 1"
  obtains k where "k < LENGTH('a)" and "\<not> bit x k" and "\<forall>j < k. bit x j"
proof -
  have "\<exists>k. k < LENGTH('a) \<and> \<not> bit x k"
  proof (rule ccontr)
    assume "\<not> ?thesis"
    then have "x = - 1" by (intro bit_word_eqI) auto
    then show False using assms by simp
  qed
  then have "\<exists>k. (k < LENGTH('a) \<and> \<not> bit x k) \<and> (\<forall>j < k. \<not> (j < LENGTH('a) \<and> \<not> bit x j))"
    by (rule exists_least_iff [THEN iffD1])
  then show ?thesis using that by fastforce
qed

lemma sub_one_bits:
  fixes x :: "'a::len word"
  assumes "\<forall>j < k. \<not> bit x j" and "bit x k"
  shows "bit (x - 1) j \<longleftrightarrow> j < LENGTH('a) \<and> (j < k \<or> k < j \<and> bit x j)"
proof -
  have k: "k < LENGTH('a)" using assms(2) by (rule bit_imp_le_length)
  have "x - 1 = NOT (NOT x + 1)" unfolding not_eq_complement by simp
  moreover have "bit (NOT x + 1) i \<longleftrightarrow> i = k \<or> k < i \<and> bit (NOT x) i" for i
    using assms k by (intro add_one_bits) (auto simp: bit_not_iff)
  ultimately show ?thesis by (cases j k rule: linorder_cases) (auto simp: bit_not_iff)
qed

lemma drop_lowest_bit:
  fixes x :: "'a::len word"
  assumes "x \<noteq> 0"
  obtains k where "bit x k" and "\<And>j. bit (x AND (x - 1)) j \<longleftrightarrow> bit x j \<and> j \<noteq> k"
proof -
  have "\<exists>k. bit x k"
  proof (rule ccontr)
    assume "\<not> ?thesis"
    then have "x = 0" by (intro bit_word_eqI) auto
    then show False using assms by simp
  qed
  then obtain k where k: "bit x k" "\<forall>j < k. \<not> bit x j" by (metis exists_least_iff)
  have "bit (x AND (x - 1)) j \<longleftrightarrow> bit x j \<and> j \<noteq> k" for j
    using sub_one_bits [OF k(2,1), of j] k bit_imp_le_length [of x j] by (auto simp: bit_and_iff)
  then show ?thesis using that k(1) by blast
qed

section \<open>The head of a ring\<close>

datatype policy = Server | Route | Channel

primrec is_multi_producer :: "policy \<Rightarrow> bool" where
  "is_multi_producer Server = False" | "is_multi_producer Route = False" | "is_multi_producer Channel = True"

primrec is_multi_consumer :: "policy \<Rightarrow> bool" where
  "is_multi_consumer Server = False" | "is_multi_consumer Route = True" | "is_multi_consumer Channel = True"

primrec is_broadcast :: "policy \<Rightarrow> bool" where
  "is_broadcast Server = False" | "is_broadcast Route = True" | "is_broadcast Channel = True"

record conn_head =
  connections :: u32
  sender_flag :: bool
  receiver_flag :: bool

text \<open>Connecting takes the lowest free bit, or counts one more reader; 0 is a refusal.\<close>

definition head_connect :: "policy \<Rightarrow> u32 \<Rightarrow> u32 \<times> u32" where
  "head_connect pol cur =
     (if is_broadcast pol
      then let nxt = cur OR (cur + 1) in if nxt = cur then (0, cur) else (nxt XOR cur, nxt)
      else (cur + 1, cur + 1))"

definition head_disconnect :: "policy \<Rightarrow> u32 \<Rightarrow> u32 \<Rightarrow> u32 \<times> u32" where
  "head_disconnect pol cc_id cur =
     (if is_broadcast pol then (cur AND NOT cc_id, cur AND NOT cc_id)
      else if cc_id = NOT 0 then (0, 0) else (cur - 1, cur - 1))"

definition head_connected :: "policy \<Rightarrow> u32 \<Rightarrow> u32 \<Rightarrow> bool" where
  "head_connected pol cc_id cur = (if is_broadcast pol then cur AND cc_id \<noteq> 0 else cur \<noteq> 0 \<and> cc_id \<noteq> 0)"

function count_bits :: "u32 \<Rightarrow> u32 \<Rightarrow> u32" where
  "count_bits cnt cur = (if cur = 0 then cnt else count_bits (cnt + 1) (cur AND (cur - 1)))"
  by pat_completeness auto
termination
proof (relation "measure (\<lambda>(cnt, cur). unat cur)")
  show "((cnt + 1, cur AND (cur - 1)), (cnt, cur)) \<in> measure (\<lambda>(cnt, cur). unat cur)" if "cur \<noteq> 0" for cnt cur :: u32
  proof -
    have "cur AND (cur - 1) \<le> cur - 1" by (simp add: word_and_le1)
    moreover have "unat (cur - 1) = unat cur - 1" using that by (rule unat_minus_one)
    moreover have "unat cur \<noteq> 0" using that by (simp add: unat_eq_0)
    ultimately show ?thesis by (simp add: word_le_nat_alt)
  qed
qed simp

declare count_bits.simps [simp del]

definition conn_count :: "policy \<Rightarrow> u32 \<Rightarrow> u32" where
  "conn_count pol cur = (if is_broadcast pol then count_bits 0 cur else cur)"

text \<open>The sender and, where there is only one reader, the reader take a flag first.\<close>

definition connect_sender :: "policy \<Rightarrow> conn_head \<Rightarrow> bool \<times> conn_head" where
  "connect_sender pol h = (if is_multi_producer pol then (True, h) else (\<not> sender_flag h, h\<lparr>sender_flag := True\<rparr>))"

definition disconnect_sender :: "policy \<Rightarrow> conn_head \<Rightarrow> conn_head" where
  "disconnect_sender pol h = (if is_multi_producer pol then h else h\<lparr>sender_flag := False\<rparr>)"

definition connect_receiver :: "policy \<Rightarrow> conn_head \<Rightarrow> u32 \<times> conn_head" where
  "connect_receiver pol h =
     (if \<not> is_multi_consumer pol \<and> receiver_flag h then (0, h)
      else let (i, c) = head_connect pol (connections h)
           in (i, h\<lparr>connections := c, receiver_flag := (receiver_flag h \<or> \<not> is_multi_consumer pol)\<rparr>))"

definition disconnect_receiver :: "policy \<Rightarrow> u32 \<Rightarrow> conn_head \<Rightarrow> u32 \<times> conn_head" where
  "disconnect_receiver pol cc_id h =
     (let (i, c) = head_disconnect pol cc_id (connections h)
      in (i, h\<lparr>connections := c, receiver_flag := (receiver_flag h \<and> is_multi_consumer pol)\<rparr>))"

section \<open>An end of the queue\<close>

record queue_end =
  connected_id :: u32
  cursor :: u32
  sending :: bool

definition queue_end0 :: queue_end where
  "queue_end0 = \<lparr>connected_id = 0, cursor = 0, sending = False\<rparr>"

definition queue_connected :: "policy \<Rightarrow> queue_end \<Rightarrow> conn_head \<Rightarrow> bool" where
  "queue_connected pol q h = head_connected pol (connected_id q) (connections h)"

text \<open>\<open>at\<close> is the position of the writer, where a new reader starts.\<close>

definition queue_connect :: "policy \<Rightarrow> u32 \<Rightarrow> queue_end \<Rightarrow> conn_head \<Rightarrow> bool \<times> queue_end \<times> conn_head" where
  "queue_connect pol at q h =
     (if queue_connected pol q h then (True, q, h)
      else let (i, h) = connect_receiver pol h; q = q\<lparr>connected_id := i\<rparr>
           in if queue_connected pol q h then (True, q\<lparr>cursor := at\<rparr>, h) else (False, q, h))"

definition queue_disconnect :: "policy \<Rightarrow> queue_end \<Rightarrow> conn_head \<Rightarrow> bool \<times> queue_end \<times> conn_head" where
  "queue_disconnect pol q h =
     (if \<not> queue_connected pol q h then (False, q, h)
      else (True, q\<lparr>connected_id := 0\<rparr>, snd (disconnect_receiver pol (connected_id q) h)))"

definition ready_sending :: "policy \<Rightarrow> queue_end \<Rightarrow> conn_head \<Rightarrow> bool \<times> queue_end \<times> conn_head" where
  "ready_sending pol q h =
     (if sending q then (True, q, h) else let (r, h) = connect_sender pol h in (r, q\<lparr>sending := r\<rparr>, h))"

definition shut_sending :: "policy \<Rightarrow> queue_end \<Rightarrow> conn_head \<Rightarrow> queue_end \<times> conn_head" where
  "shut_sending pol q h = (if \<not> sending q then (q, h) else (q, disconnect_sender pol h))"

section \<open>Connection bits\<close>

lemma count_bits_card: "count_bits cnt cur = cnt + of_nat (card {k. bit cur k})"
proof (induction cnt cur rule: count_bits.induct)
  case (1 cnt cur)
  show ?case
  proof (cases "cur = 0")
    case True
    have none: "{k. bit (0 :: u32) k} = {}" by simp
    show ?thesis unfolding True none by (subst count_bits.simps) simp
  next
    case False
    then obtain k where k: "bit cur k" "\<And>j. bit (cur AND (cur - 1)) j \<longleftrightarrow> bit cur j \<and> j \<noteq> k"
      using drop_lowest_bit [of cur] by metis
    have "{j. bit cur j} = insert k {j. bit (cur AND (cur - 1)) j}" using k by auto
    moreover have "finite {j. bit (cur AND (cur - 1)) j}"
      using finite_subset [of "{j. bit (cur AND (cur - 1)) j}" "{..<32}"] by (auto dest: bit_imp_le_length)
    ultimately have "card {j. bit cur j} = Suc (card {j. bit (cur AND (cur - 1)) j})" using k(2) [of k] by simp
    then show ?thesis using 1 [OF False] False by (subst count_bits.simps) (simp add: algebra_simps)
  qed
qed

lemma connect_fresh:
  assumes "cc \<noteq> - 1"
  obtains k where "k < 32" and "\<not> bit cc k" and "head_connect Route cc = (push_bit k 1, cc OR push_bit k 1)"
proof -
  obtain k where k: "k < LENGTH(32)" "\<not> bit cc k" "\<forall>j < k. bit cc j" using lowest_unset [OF assms] by blast
  have n: "cc OR (cc + 1) = cc OR push_bit k 1"
    by (rule bit_word_eqI) (use k in \<open>auto simp: bit_simps add_one_bits [OF k(3,2,1)]\<close>)
  have "bit (cc OR push_bit k 1) k" using k(1) by (simp add: bit_simps)
  then have ne: "cc OR push_bit k 1 \<noteq> cc" using k(2) by metis
  have "(cc OR push_bit k 1) XOR cc = push_bit k 1"
    by (rule bit_word_eqI) (use k(2) in \<open>auto simp: bit_simps\<close>)
  then have "head_connect Route cc = (push_bit k 1, cc OR push_bit k 1)"
    using n ne by (simp add: head_connect_def Let_def)
  then show ?thesis using that k by simp
qed

lemma connect_full: "head_connect Route (- 1) = (0, - 1)"
  by (simp add: head_connect_def)

text \<open>The identifiers of readers as slots: slot \<open>k\<close> is the reader with the bit \<open>k\<close>.\<close>

definition take_slot :: "u32 \<Rightarrow> (int \<times> u32) option" where
  "take_slot cc = (case head_connect Route cc of (i, cc') \<Rightarrow>
     Some (if i = 0 then - 1 else int (length (takeWhile (\<lambda>k. \<not> bit i k) [0..<32])), cc'))"

definition drop_slot :: "int \<Rightarrow> u32 \<Rightarrow> (bool \<times> u32) option" where
  "drop_slot k cc = Some (True, snd (head_disconnect Route (push_bit (nat k) 1) cc))"

lemma first_bit: "k < 32 \<Longrightarrow> length (takeWhile (\<lambda>j. \<not> bit (push_bit k 1 :: u32) j) [0..<32]) = k"
proof -
  assume k: "k < 32"
  then have "[0..<32] = [0..<k] @ k # [Suc k..<32]" 
    by (metis le0 less_imp_le upt_add_eq_append upt_conv_Cons le_add_diff_inverse)
  moreover have "\<forall>j \<in> set [0..<k]. \<not> bit (push_bit k 1 :: u32) j" by (auto simp: bit_simps)
  moreover have "bit (push_bit k 1 :: u32) k" using k by (simp add: bit_simps)
  ultimately show ?thesis by (simp add: takeWhile_tail takeWhile_eq_all_conv [THEN iffD2])
qed

interpretation cs: slot_allocator "\<lambda>cc ids. ids = {k. k < 32 \<and> \<not> bit cc k}" 32 take_slot drop_slot
proof unfold_locales
  fix cc :: u32 and ids :: "nat set"
  assume ids: "ids = {k. k < 32 \<and> \<not> bit cc k}"
  show "ids \<subseteq> {..<32}" using ids by auto
  show "\<exists>i \<in> ids. \<exists>p'. take_slot cc = Some (int i, p') \<and> ids - {i} = {k. k < 32 \<and> \<not> bit p' k}" if "ids \<noteq> {}"
  proof -
    have "cc \<noteq> - 1" using that ids by auto
    then obtain k where k: "k < 32" "\<not> bit cc k" "head_connect Route cc = (push_bit k 1, cc OR push_bit k 1)"
      using connect_fresh by blast
    have "bit (push_bit k 1 :: u32) k" using k(1) by (simp add: bit_simps)
    then have nz: "push_bit k 1 \<noteq> (0 :: u32)" by (metis bit_0_eq bot_fun_def bot_bool_def)
    have "take_slot cc = Some (int k, cc OR push_bit k 1)"
      unfolding take_slot_def k(3) using nz first_bit [OF k(1)] by simp
    moreover have "ids - {k} = {j. j < 32 \<and> \<not> bit (cc OR push_bit k 1) j}" using ids by (auto simp: bit_simps)
    ultimately show ?thesis using k ids by blast
  qed
  show "\<exists>p'. drop_slot (int i) cc = Some (True, p') \<and> insert i ids = {k. k < 32 \<and> \<not> bit p' k}" if "i < 32" "i \<notin> ids" for i
    using that ids by (auto simp: drop_slot_def head_disconnect_def bit_simps)
next
  fix cc :: u32
  assume "{} = {k. k < 32 \<and> \<not> bit cc k}"
  then have "cc = - 1" by (intro bit_word_eqI) auto
  then show "take_slot cc = Some (- 1, cc)" by (simp add: take_slot_def connect_full)
qed

text \<open>
  However readers come and go, those connected to a broadcast ring have a bit each, no two the same;
  the count of the ring is their number, and a reader is refused exactly when there are 32.
\<close>

theorem readers_get_own_bits:
  "\<exists>cc held. foldM (client_step take_slot drop_slot) (0, []) xs = Some (cc, held) \<and>
     distinct held \<and> set held = {k. bit cc k} \<and> conn_count Route cc = of_nat (length held) \<and>
     (fst (head_connect Route cc) = 0 \<longleftrightarrow> length held = 32)"
proof -
  have "{..<32} = {k. k < 32 \<and> \<not> bit (0 :: u32) k}" by auto
  then obtain cc held where r: "foldM (client_step take_slot drop_slot) (0, []) xs = Some (cc, held)"
      "{..<32} - set held = {k. k < 32 \<and> \<not> bit cc k}" "distinct held" "set held \<subseteq> {..<32}"
    using cs.client_run_split [where p = "0 :: u32" and held = "[]" and xs = xs] by auto
  have held: "set held = {k. bit cc k}"
  proof (rule set_eqI)
    fix k
    have "k \<in> {..<32} - set held \<longleftrightarrow> k < 32 \<and> \<not> bit cc k" using r(2) by simp
    then show "k \<in> set held \<longleftrightarrow> k \<in> {k. bit cc k}" using r(4) bit_imp_le_length [of cc k] by auto
  qed
  have n: "conn_count Route cc = of_nat (length held)"
    using count_bits_card [of 0 cc] distinct_card [OF r(3)] held by (simp add: conn_count_def)
  have "fst (head_connect Route cc) = 0 \<longleftrightarrow> cc = - 1"
  proof (cases "cc = - 1")
    case True
    then show ?thesis by (simp add: connect_full)
  next
    case False
    then obtain k where k: "k < 32" "head_connect Route cc = (push_bit k 1, cc OR push_bit k 1)"
      using connect_fresh by blast
    have "bit (push_bit k 1 :: u32) k" using k(1) by (simp add: bit_simps)
    then have "push_bit k 1 \<noteq> (0 :: u32)" by (metis bit_0_eq bot_fun_def bot_bool_def)
    then show ?thesis using k False by simp
  qed
  also have "\<dots> \<longleftrightarrow> set held = {..<32}"
  proof
    assume "cc = - 1"
    then show "set held = {..<32}" unfolding held by auto
  next
    assume all: "set held = {..<32}"
    show "cc = - 1" by (rule bit_word_eqI) (use all held in auto)
  qed
  also have "\<dots> \<longleftrightarrow> length held = 32"
  proof
    assume "set held = {..<32}"
    then show "length held = 32" using distinct_card [OF r(3)] by simp
  next
    assume "length held = 32"
    then show "set held = {..<32}" using distinct_card [OF r(3)] card_subset_eq [OF _ r(4)] by simp
  qed
  finally show ?thesis using r(1,3) held n by blast
qed

text \<open>
  An end that stopped sending keeps its own flag, so that it goes on sending without asking after
  another end became the sender.
\<close>

theorem stopped_sender_still_sends:
  assumes "\<not> is_multi_producer pol" and "sending p" and "\<not> sending q"
    and "(p', h1) = shut_sending pol p h" and "(r, q', h2) = ready_sending pol q h1"
  shows "r \<and> sending q' \<and> fst (ready_sending pol p' h2)"
  using assms by (auto simp: shut_sending_def ready_sending_def connect_sender_def disconnect_sender_def)

end
