(* ===== verification/BroadcastRing.thy ===== *)
theory BroadcastRing
  imports Connections
begin

text \<open>
  The ring of a publisher with many readers (\<open>prod_cons_impl<wr<single, multi, broadcast>>\<close> of
  \<open>src/src/libipc/prod_cons.h\<close>): 256 slots, a position per reader, and in every slot the readers
  that have not released it. The operations are modelled one at a time, so that a compare-and-swap
  of a value just read succeeds; their interleaving is the subject of the theory \<open>RingRace\<close>.
\<close>

section \<open>Slots and positions\<close>

text \<open>Positions are 32-bit counters, of which the low 8 bits index the slots.\<close>

definition index_of :: "u32 \<Rightarrow> nat" where
  "index_of c = unat (ucast c :: byte)"

definition kRingSlots :: u32 where
  "kRingSlots = 256"

definition ep_mask :: u64 where
  "ep_mask = 0xffffffff"

definition ep_incr :: u64 where
  "ep_incr = 0x100000000"

record 'd slot =
  slot_data :: 'd
  slot_rc :: u64

record 'd ring =
  ring_wt :: u32
  ring_epoch :: u64
  ring_slots :: "'d slot list"

text \<open>The low half of a read counter is the set of readers, the high half the epoch.\<close>

definition rc_readers :: "u64 \<Rightarrow> u32" where
  "rc_readers rc = ucast (rc AND ep_mask)"

definition rc_epoch :: "u64 \<Rightarrow> u64" where
  "rc_epoch rc = rc AND NOT ep_mask"

definition new_ring :: "'d \<Rightarrow> u32 \<Rightarrow> 'd ring" where
  "new_ring d at = \<lparr>ring_wt = at, ring_epoch = 0, ring_slots = replicate 256 \<lparr>slot_data = d, slot_rc = 0\<rparr>\<rparr>"

section \<open>Writing\<close>

text \<open>
  A message in a slot replaces the one before. The writer's callback gets the old message and its
  remaining readers; they are the result here. \<open>None\<close> is a refusal.
\<close>

definition put_slot :: "'d \<Rightarrow> u64 \<Rightarrow> 'd ring \<Rightarrow> 'd ring" where
  "put_slot x rc r = r\<lparr>ring_slots := (ring_slots r)[index_of (ring_wt r) := \<lparr>slot_data = x, slot_rc = rc\<rparr>], ring_wt := ring_wt r + 1\<rparr>"

definition ring_push :: "u32 \<Rightarrow> 'd \<Rightarrow> 'd ring \<Rightarrow> (('d \<times> u32) option \<times> 'd ring)" where
  "ring_push cc x r =
     (if cc = 0 then (None, r)
      else let el = ring_slots r ! index_of (ring_wt r); cur_rc = slot_rc el; rem_cc = rc_readers cur_rc
           in if cc AND rem_cc \<noteq> 0 \<and> rc_epoch cur_rc = ring_epoch r then (None, r)
              else (Some (slot_data el, rem_cc), put_slot x (ring_epoch r OR ucast cc) r))"

definition ring_force_push :: "u32 \<Rightarrow> 'd \<Rightarrow> 'd ring \<Rightarrow> (('d \<times> u32) option \<times> 'd ring)" where
  "ring_force_push cc x r =
     (let r = r\<lparr>ring_epoch := ring_epoch r + ep_incr\<rparr>
      in if cc = 0 then (None, r)
         else let el = ring_slots r ! index_of (ring_wt r)
              in (Some (slot_data el, rc_readers (slot_rc el)), put_slot x (ring_epoch r OR ucast cc) r))"

definition ring_push_sniffer :: "'d \<Rightarrow> 'd ring \<Rightarrow> 'd ring" where
  "ring_push_sniffer x r = (let r = r\<lparr>ring_epoch := ring_epoch r + ep_incr\<rparr> in put_slot x (ring_epoch r) r)"

section \<open>Reading\<close>

text \<open>A reader that fell behind by more than the ring goes on with the oldest message left.\<close>

definition resync :: "u32 \<Rightarrow> u32 \<Rightarrow> u32" where
  "resync wt cur = (if kRingSlots < wt - cur then wt - kRingSlots else cur)"

text \<open>
  The loop skips slots the reader has released already. The result is the message and whether its
  last reader released it, \<open>None\<close> if there is none, and the new position.
\<close>

function pop_from :: "u32 \<Rightarrow> u32 \<Rightarrow> 'd ring \<Rightarrow> ('d \<times> bool) option \<times> u32 \<times> 'd ring" where
  "pop_from my cur r =
     (if cur = ring_wt r then (None, cur, r)
      else let i = index_of cur; el = ring_slots r ! i; cur = cur + 1; rc0 = slot_rc el
           in if my \<noteq> 0 \<and> rc0 AND ucast my = 0 then pop_from my cur r
              else if rc0 AND ep_mask = 0 then (Some (slot_data el, True), cur, r)
              else let nxt_rc = rc0 AND NOT (ucast my)
                   in (Some (slot_data el, nxt_rc AND ep_mask = 0), cur,
                       r\<lparr>ring_slots := (ring_slots r)[i := el\<lparr>slot_rc := nxt_rc\<rparr>]\<rparr>))"
  by pat_completeness auto
termination
proof (relation "measure (\<lambda>(my, cur, r). unat (ring_wt r - cur))")
  fix my cur :: u32 and r :: "'d ring" and x el y z
  assume c: "cur \<noteq> ring_wt r" "y = cur + 1"
  then have "unat (ring_wt r - cur - 1) = unat (ring_wt r - cur) - 1" by (intro unat_minus_one) simp
  moreover have "unat (ring_wt r - cur) \<noteq> 0" using c by (simp add: unat_eq_0)
  ultimately show "((my, y, r), my, cur, r) \<in> measure (\<lambda>(my, cur, r). unat (ring_wt r - cur))"
    by (simp add: c(2) algebra_simps)
qed simp

declare pop_from.simps [simp del]

definition ring_pop :: "u32 \<Rightarrow> u32 \<Rightarrow> 'd ring \<Rightarrow> ('d \<times> bool) option \<times> u32 \<times> 'd ring" where
  "ring_pop my cur r = pop_from my (resync (ring_wt r) cur) r"

section \<open>Words of readers and epochs\<close>

lemma bit_ep_mask [simp]: "bit ep_mask k \<longleftrightarrow> k < 32"
proof -
  have m: "ep_mask = mask 32" by (simp add: ep_mask_def mask_eq_exp_minus_1)
  show ?thesis unfolding m by (auto simp: bit_mask_iff)
qed

lemma word_zero_iff: "w = 0 \<longleftrightarrow> (\<forall>k < LENGTH('a). \<not> bit w k)" for w :: "'a::len word"
  by (auto intro: bit_word_eqI)

lemma bit_rc_readers [simp]: "bit (rc_readers rc) k \<longleftrightarrow> k < 32 \<and> bit rc k"
  by (auto simp: rc_readers_def bit_simps)

lemma bit_rc_epoch [simp]: "bit (rc_epoch rc) k \<longleftrightarrow> 32 \<le> k \<and> bit rc k"
  using bit_imp_le_length [of rc k] by (auto simp: rc_epoch_def bit_simps)

lemma rc_zero_iff: "rc AND ep_mask = 0 \<longleftrightarrow> rc_readers rc = 0"
  using bit_imp_le_length [of rc] by (fastforce simp: word_zero_iff bit_simps)

lemma rc_mine_iff: "rc AND ucast my = 0 \<longleftrightarrow> rc_readers rc AND my = 0" for my :: u32
  using bit_imp_le_length [of my] bit_imp_le_length [of rc] by (fastforce simp: word_zero_iff bit_simps)

lemma rc_readers_clear [simp]: "rc_readers (rc AND NOT (ucast my)) = rc_readers rc AND NOT my"
  by (rule bit_word_eqI) (auto simp: bit_simps)

lemma rc_epoch_clear [simp]: "rc_epoch (rc AND NOT (ucast (my :: u32))) = rc_epoch rc"
  by (rule bit_word_eqI) (auto simp: bit_simps dest: bit_imp_le_length)

definition epoch_ok :: "u64 \<Rightarrow> bool" where
  "epoch_ok e \<longleftrightarrow> rc_epoch e = e"

lemma epoch_low: "epoch_ok e \<Longrightarrow> k < 32 \<Longrightarrow> \<not> bit e k"
  using bit_rc_epoch [of e k] by (auto simp: epoch_ok_def)

lemma rc_made:
  assumes "epoch_ok e"
  shows "rc_readers (e OR ucast cc) = cc" "rc_epoch (e OR ucast (cc :: u32)) = e" "rc_readers e = 0"
proof -
  show "rc_readers (e OR ucast cc) = cc"
    by (rule bit_word_eqI) (auto simp: bit_simps epoch_low [OF assms])
  show "rc_epoch (e OR ucast (cc :: u32)) = e"
  proof (rule bit_word_eqI)
    fix k
    show "bit (rc_epoch (e OR ucast cc)) k = bit e k"
      using epoch_low [OF assms, of k] bit_imp_le_length [of cc k] by (auto simp: bit_simps not_le [symmetric])
  qed
  show "rc_readers e = 0" by (rule bit_word_eqI) (auto simp: epoch_low [OF assms])
qed

lemma epoch_ok_push: "epoch_ok e \<longleftrightarrow> (\<exists>w. e = push_bit 32 w)"
proof
  assume e: "epoch_ok e"
  have "e = push_bit 32 (drop_bit 32 e)"
  proof (rule bit_word_eqI)
    fix n assume "n < LENGTH(64)"
    then show "bit e n = bit (push_bit 32 (drop_bit 32 e)) n"
      using epoch_low [OF e, of n] by (cases "n < 32") (auto simp: bit_push_bit_iff bit_drop_bit_eq)
  qed
  then show "\<exists>w. e = push_bit 32 w" ..
next
  assume "\<exists>w. e = push_bit 32 w"
  then show "epoch_ok e" unfolding epoch_ok_def by (auto intro!: bit_word_eqI simp: bit_push_bit_iff)
qed

lemma epoch_next: "epoch_ok e \<Longrightarrow> epoch_ok (e + ep_incr)"
proof -
  assume "epoch_ok e"
  then obtain w where "e = push_bit 32 w" by (auto simp: epoch_ok_push)
  moreover have "ep_incr = push_bit 32 1" by (simp add: ep_incr_def push_bit_eq_mult)
  ultimately have "e + ep_incr = push_bit 32 (w + 1)" by (simp add: push_bit_add)
  then show ?thesis by (auto simp: epoch_ok_push)
qed

text \<open>Slots of positions less than 256 apart are distinct.\<close>

lemma index_of_pos: "index_of (w0 + of_nat q) = (unat w0 + q) mod 256"
proof -
  have "unat (w0 + of_nat q) = (unat w0 + q) mod 2 ^ 32"
    by (simp add: unat_word_ariths unsigned_of_nat take_bit_eq_mod mod_simps)
  moreover have "(unat w0 + q) mod 2 ^ 32 mod 256 = (unat w0 + q) mod 256"
    by (rule mod_mod_cancel) simp
  ultimately show ?thesis by (simp add: index_of_def unsigned_ucast_eq take_bit_eq_mod)
qed

lemma index_of_less: "index_of c < 256"
  using unsigned_less [of "ucast c :: byte"] by (simp add: index_of_def)

lemma index_of_neq: "p \<noteq> q \<Longrightarrow> lo \<le> p \<Longrightarrow> p < lo + 256 \<Longrightarrow> lo \<le> q \<Longrightarrow> q < lo + 256 \<Longrightarrow>
    index_of (w0 + of_nat p) \<noteq> index_of (w0 + of_nat q)"
  using mod_window_neq [of "unat w0 + p" "unat w0 + q" "unat w0 + lo" 256] by (simp add: index_of_pos)

section \<open>A ring with its ends\<close>

text \<open>
  A publisher and its readers: the head and the slots in shared memory, and the end of every reader
  that ever joined.
\<close>

record 'd bus =
  bus_head :: conn_head
  bus_ring :: "'d ring"
  bus_ends :: "queue_end list"

datatype 'd bus_event = Push 'd | ForcePush 'd | Pop nat | Join | Leave nat

datatype 'd bus_result = Accepted bool | Got "'d option" | Joined bool | Done

primrec bus_step :: "'d bus \<Rightarrow> 'd bus_event \<Rightarrow> 'd bus \<times> 'd bus_result" where
  "bus_step b (Push x) =
     (case ring_push (connections (bus_head b)) x (bus_ring b) of (old, r) \<Rightarrow> (b\<lparr>bus_ring := r\<rparr>, Accepted (old \<noteq> None)))"
| "bus_step b (ForcePush x) =
     (case ring_force_push (connections (bus_head b)) x (bus_ring b) of (old, r) \<Rightarrow> (b\<lparr>bus_ring := r\<rparr>, Accepted (old \<noteq> None)))"
| "bus_step b (Pop k) =
     (if k < length (bus_ends b) \<and> queue_connected Route (bus_ends b ! k) (bus_head b)
      then let q = bus_ends b ! k
           in case ring_pop (connected_id q) (cursor q) (bus_ring b) of (out, cur, r) \<Rightarrow>
                (b\<lparr>bus_ring := r, bus_ends := (bus_ends b)[k := q\<lparr>cursor := cur\<rparr>]\<rparr>, Got (map_option fst out))
      else (b, Done))"
| "bus_step b Join =
     (case queue_connect Route (ring_wt (bus_ring b)) queue_end0 (bus_head b) of (ok, q, h) \<Rightarrow>
        (b\<lparr>bus_head := h, bus_ends := bus_ends b @ [q]\<rparr>, Joined ok))"
| "bus_step b (Leave k) =
     (if k < length (bus_ends b)
      then case queue_disconnect Route (bus_ends b ! k) (bus_head b) of (ok, q, h) \<Rightarrow>
             (b\<lparr>bus_head := h, bus_ends := (bus_ends b)[k := q]\<rparr>, Done)
      else (b, Done))"

primrec bus_run :: "'d bus \<Rightarrow> 'd bus_event list \<Rightarrow> 'd bus \<times> 'd bus_result list" where
  "bus_run b [] = (b, [])"
| "bus_run b (e # es) = (let (b, y) = bus_step b e; (b, ys) = bus_run b es in (b, y # ys))"

definition new_bus :: "'d \<Rightarrow> u32 \<Rightarrow> 'd bus" where
  "new_bus d at = \<lparr>bus_head = \<lparr>connections = 0, sender_flag = False, receiver_flag = False\<rparr>, bus_ring = new_ring d at, bus_ends = []\<rparr>"

end
