(* ===== verification/BroadcastLaws.thy ===== *)
theory BroadcastLaws
  imports BroadcastRing
begin

text \<open>
  What the broadcast ring promises, as an abstract board of messages, and the proof that the ring
  with its ends implements it, also when its counters wrap around.
\<close>

section \<open>The board it implements\<close>

text \<open>
  What readers and writers may rely on: one list of all messages accepted, and the place of every
  reader in it. A reader gets the messages in order, from its place or from the last 256, whatever
  is later. \<open>None\<close> is a result that is not allowed.
\<close>

record 'd board =
  log :: "'d list"
  places :: "nat option list"

definition next_place :: "'d list \<Rightarrow> nat \<Rightarrow> nat" where
  "next_place xs p = max p (length xs - 256)"

fun board_step :: "'d board \<Rightarrow> 'd bus_event \<Rightarrow> 'd bus_result \<Rightarrow> 'd board option" where
  "board_step b (Push x) (Accepted ok) =
     (if ok \<and> set (places b) \<subseteq> {None} then None else Some (if ok then b\<lparr>log := log b @ [x]\<rparr> else b))"
| "board_step b (ForcePush x) (Accepted ok) =
     (if ok = (set (places b) \<subseteq> {None}) then None else Some (if ok then b\<lparr>log := log b @ [x]\<rparr> else b))"
| "board_step b (Pop k) (Got y) =
     (if k < length (places b)
      then case places b ! k of
             None \<Rightarrow> None
           | Some p \<Rightarrow>
               (if p = length (log b) then (if y = None then Some b else None)
                else if y = Some (log b ! next_place (log b) p)
                     then Some (b\<lparr>places := (places b)[k := Some (next_place (log b) p + 1)]\<rparr>) else None)
      else None)"
| "board_step b (Pop k) Done = (if k < length (places b) \<and> places b ! k \<noteq> None then None else Some b)"
| "board_step b Join (Joined ok) = Some (b\<lparr>places := places b @ [if ok then Some (length (log b)) else None]\<rparr>)"
| "board_step b (Leave k) Done = Some (b\<lparr>places := (places b)[k := None]\<rparr>)"
| "board_step b _ _ = None"

fun board_run :: "'d board \<Rightarrow> 'd bus_event list \<Rightarrow> 'd bus_result list \<Rightarrow> 'd board option" where
  "board_run b [] [] = Some b"
| "board_run b (e # es) (y # ys) = do { b \<leftarrow> board_step b e y; board_run b es ys }"
| "board_run b _ _ = None"

section \<open>The relation of the ring and the board\<close>

definition slot_at :: "u32 \<Rightarrow> 'd ring \<Rightarrow> nat \<Rightarrow> 'd slot" where
  "slot_at w0 r q = ring_slots r ! index_of (w0 + of_nat q)"

definition ring_holds :: "u32 \<Rightarrow> 'd ring \<Rightarrow> 'd list \<Rightarrow> bool" where
  "ring_holds w0 r xs \<longleftrightarrow>
     length (ring_slots r) = 256 \<and> ring_wt r = w0 + of_nat (length xs) \<and> epoch_ok (ring_epoch r) \<and>
     (\<forall>q. length xs \<le> q + 256 \<longrightarrow> q < length xs \<longrightarrow> slot_data (slot_at w0 r q) = xs ! q)"

text \<open>\<open>end_at\<close>: the end of a reader at a place; \<open>n\<close> more messages keep it within \<open>2 ^ 32\<close>.\<close>

definition end_at :: "u32 \<Rightarrow> nat \<Rightarrow> u32 \<Rightarrow> 'd ring \<Rightarrow> nat \<Rightarrow> queue_end \<Rightarrow> nat option \<Rightarrow> bool" where
  "end_at w0 n cc r len q place \<longleftrightarrow>
     connected_id q AND cc = connected_id q \<and>
     (case place of
        None \<Rightarrow> connected_id q = 0
      | Some p \<Rightarrow> connected_id q \<noteq> 0 \<and> p \<le> len \<and> len + n < 2 ^ 32 + p \<and> cursor q = w0 + of_nat p \<and>
          (\<forall>k. p \<le> k \<longrightarrow> len \<le> k + 256 \<longrightarrow> k < len \<longrightarrow>
             rc_readers (slot_rc (slot_at w0 r k)) AND connected_id q = connected_id q))"

definition bus_rel :: "u32 \<Rightarrow> nat \<Rightarrow> 'd bus \<Rightarrow> 'd board \<Rightarrow> bool" where
  "bus_rel w0 n b a \<longleftrightarrow>
     n < 2 ^ 32 \<and> ring_holds w0 (bus_ring b) (log a) \<and> length (bus_ends b) = length (places a) \<and>
     (\<forall>k < length (places a).
        end_at w0 n (connections (bus_head b)) (bus_ring b) (length (log a)) (bus_ends b ! k) (places a ! k)) \<and>
     (\<forall>j < length (places a). \<forall>k < length (places a). j \<noteq> k \<longrightarrow>
        connected_id (bus_ends b ! j) AND connected_id (bus_ends b ! k) = 0) \<and>
     (\<forall>i. bit (connections (bus_head b)) i \<longrightarrow> (\<exists>k < length (places a). bit (connected_id (bus_ends b ! k)) i))"

lemma slot_at_put:
  assumes "ring_holds w0 r xs" and "length xs < q + 256" and "q \<le> length xs"
  shows "slot_at w0 (put_slot x rc r) q = (if q = length xs then \<lparr>slot_data = x, slot_rc = rc\<rparr> else slot_at w0 r q)"
proof (cases "q = length xs")
  case True
  then show ?thesis using assms(1) index_of_less by (simp add: slot_at_def put_slot_def ring_holds_def)
next
  case False
  then have "index_of (w0 + of_nat q) \<noteq> index_of (w0 + of_nat (length xs))"
    using assms by (intro index_of_neq [of _ _ q]) auto
  then show ?thesis using False assms(1) by (simp add: slot_at_def put_slot_def ring_holds_def)
qed

lemma ring_holds_put:
  assumes "ring_holds w0 r xs"
  shows "ring_holds w0 (put_slot x rc r) (xs @ [x])"
  unfolding ring_holds_def
proof (intro conjI allI impI)
  show "slot_data (slot_at w0 (put_slot x rc r) q) = (xs @ [x]) ! q"
    if "length (xs @ [x]) \<le> q + 256" "q < length (xs @ [x])" for q
  proof -
    have "length xs < q + 256" "q \<le> length xs" using that by auto
    then show ?thesis using slot_at_put [OF assms] assms by (auto simp: nth_append ring_holds_def)
  qed
qed (use assms in \<open>auto simp: ring_holds_def put_slot_def\<close>)

lemma end_at_put:
  assumes "ring_holds w0 r xs" and "end_at w0 (Suc n) cc r (length xs) q place" and "rc_readers rc = cc"
  shows "end_at w0 n cc (put_slot x rc r) (length xs + 1) q place"
proof (cases place)
  case None
  then show ?thesis using assms(2) by (simp add: end_at_def)
next
  case (Some p)
  have "rc_readers (slot_rc (slot_at w0 (put_slot x rc r) k)) AND connected_id q = connected_id q"
    if "p \<le> k" "length xs + 1 \<le> k + 256" "k < length xs + 1" for k
    using that slot_at_put [OF assms(1), of k x rc] assms(2,3) Some by (auto simp: end_at_def and.commute)
  then show ?thesis using assms(2) Some by (auto simp: end_at_def)
qed

lemma end_at_less: "end_at w0 n cc r len q place \<Longrightarrow> m \<le> n \<Longrightarrow> end_at w0 m cc r len q place"
  by (auto simp: end_at_def split: option.splits)

section \<open>Every step\<close>

text \<open>What a reader at place \<open>p\<close> gets, and what it leaves to the other readers.\<close>

lemma resync_place:
  assumes "ring_holds w0 r xs" and "p \<le> length xs" and "length xs < 2 ^ 32 + p"
  shows "resync (ring_wt r) (w0 + of_nat p) = w0 + of_nat (next_place xs p)"
proof -
  have d: "ring_wt r - (w0 + of_nat p) = of_nat (length xs - p)" using assms(1,2) by (simp add: ring_holds_def of_nat_diff)
  have "unat (of_nat (length xs - p) :: u32) = length xs - p"
    using assms(3) by (simp add: unsigned_of_nat take_bit_nat_eq_self)
  then have "kRingSlots < of_nat (length xs - p) \<longleftrightarrow> 256 < length xs - p" by (simp add: kRingSlots_def word_less_nat_alt)
  with d have lag: "kRingSlots < ring_wt r - (w0 + of_nat p) \<longleftrightarrow> 256 < length xs - p" by simp
  show ?thesis
  proof (cases "256 < length xs - p")
    case True
    then have "next_place xs p = length xs - 256" "256 \<le> length xs" by (auto simp: next_place_def)
    then show ?thesis using lag True assms(1) by (simp add: resync_def ring_holds_def of_nat_diff kRingSlots_def)
  next
    case False
    then have "next_place xs p = p" by (simp add: next_place_def)
    then show ?thesis using lag False by (simp add: resync_def)
  qed
qed

lemma of_nat_close: "of_nat a = (of_nat b :: u32) \<Longrightarrow> a \<le> b \<Longrightarrow> b < a + 2 ^ 32 \<Longrightarrow> a = b"
proof -
  assume h: "of_nat a = (of_nat b :: u32)" "a \<le> b" "b < a + 2 ^ 32"
  then have "(of_nat (b - a) :: u32) = 0" by (simp add: of_nat_diff)
  then have "unat (of_nat (b - a) :: u32) = 0" by simp
  moreover have "b - a < 2 ^ 32" using h(2,3) by simp
  then have "unat (of_nat (b - a) :: u32) = b - a" by (simp add: unsigned_of_nat take_bit_nat_eq_self)
  ultimately show "a = b" using h(2) by simp
qed

lemma pop_at:
  assumes h: "ring_holds w0 r xs" and e: "end_at w0 n cc r (length xs) q (Some p)"
  defines "p0 \<equiv> next_place xs p"
  shows "ring_pop (connected_id q) (cursor q) r =
    (if p = length xs then (None, cursor q, r)
     else let nxt = slot_rc (slot_at w0 r p0) AND NOT (ucast (connected_id q))
          in (Some (xs ! p0, rc_readers nxt = 0), w0 + of_nat (p0 + 1),
              r\<lparr>ring_slots := (ring_slots r)[index_of (w0 + of_nat p0) := (slot_at w0 r p0)\<lparr>slot_rc := nxt\<rparr>]\<rparr>))"
proof -
  have p: "p \<le> length xs" "length xs < 2 ^ 32 + p" "cursor q = w0 + of_nat p" "connected_id q \<noteq> 0"
    and bits: "\<And>k. p \<le> k \<Longrightarrow> length xs \<le> k + 256 \<Longrightarrow> k < length xs \<Longrightarrow>
      rc_readers (slot_rc (slot_at w0 r k)) AND connected_id q = connected_id q"
    using e by (auto simp: end_at_def)
  have s: "resync (ring_wt r) (cursor q) = w0 + of_nat p0"
    using resync_place [OF h p(1,2)] p(3) by (simp add: p0_def)
  show ?thesis
  proof (cases "p = length xs")
    case True
    then have "p0 = length xs" by (simp add: p0_def next_place_def)
    then have "w0 + of_nat p0 = ring_wt r" using h by (simp add: ring_holds_def)
    then show ?thesis unfolding ring_pop_def s using True p(3) \<open>p0 = length xs\<close> by (subst pop_from.simps) simp
  next
    case False
    then have p0: "p \<le> p0" "length xs \<le> p0 + 256" "p0 < length xs" using p(1) by (auto simp: p0_def next_place_def)
    have "of_nat p0 \<noteq> (of_nat (length xs) :: u32)" using of_nat_close [of p0 "length xs"] p0 by auto
    then have ne: "w0 + of_nat p0 \<noteq> ring_wt r" using h by (simp add: ring_holds_def)
    have b: "rc_readers (slot_rc (slot_at w0 r p0)) AND connected_id q = connected_id q" using bits p0 by blast
    then have "slot_rc (slot_at w0 r p0) AND ucast (connected_id q) \<noteq> 0"
        and "slot_rc (slot_at w0 r p0) AND ep_mask \<noteq> 0"
      using p(4) by (auto simp: rc_mine_iff rc_zero_iff)
    moreover have "slot_data (slot_at w0 r p0) = xs ! p0" using h p0 by (simp add: ring_holds_def)
    ultimately show ?thesis unfolding ring_pop_def s using False ne
      by (subst pop_from.simps) (simp add: Let_def slot_at_def rc_zero_iff add.assoc)
  qed
qed

lemma connections_zero:
  assumes "bus_rel w0 n b a"
  shows "connections (bus_head b) = 0 \<longleftrightarrow> set (places a) \<subseteq> {None}"
proof -
  have e: "end_at w0 n (connections (bus_head b)) (bus_ring b) (length (log a)) (bus_ends b ! k) (places a ! k)"
    if "k < length (places a)" for k using assms that by (simp add: bus_rel_def)
  show ?thesis
  proof
    assume z: "connections (bus_head b) = 0"
    have "places a ! k = None" if "k < length (places a)" for k
      using e [OF that] z by (auto simp: end_at_def split: option.splits)
    then show "set (places a) \<subseteq> {None}" by (auto simp: in_set_conv_nth)
  next
    assume none: "set (places a) \<subseteq> {None}"
    have "connected_id (bus_ends b ! k) = 0" if "k < length (places a)" for k
    proof -
      have "places a ! k = None" using none that nth_mem by blast
      then show ?thesis using e [OF that] by (simp add: end_at_def)
    qed
    then have "\<not> bit (connections (bus_head b)) i" for i using assms by (auto simp: bus_rel_def)
    then show "connections (bus_head b) = 0" by (intro bit_word_eqI) simp
  qed
qed

lemma bus_rel_put:
  assumes "bus_rel w0 (Suc n) b a" and "epoch_ok e" and "rc = e OR ucast (connections (bus_head b))"
  shows "bus_rel w0 n (b\<lparr>bus_ring := put_slot x rc (bus_ring b\<lparr>ring_epoch := e\<rparr>)\<rparr>) (a\<lparr>log := log a @ [x]\<rparr>)"
proof -
  let ?r = "bus_ring b\<lparr>ring_epoch := e\<rparr>"
  have same: "slot_at w0 ?r k = slot_at w0 (bus_ring b) k" for k by (simp add: slot_at_def)
  have h: "ring_holds w0 ?r (log a)" using assms(1,2) by (auto simp: bus_rel_def ring_holds_def same)
  have e: "end_at w0 (Suc n) (connections (bus_head b)) ?r (length (log a)) (bus_ends b ! k) (places a ! k)"
    if "k < length (places a)" for k
    using assms(1) that by (auto simp: bus_rel_def end_at_def same split: option.splits)
  have "rc_readers rc = connections (bus_head b)" using rc_made(1) [OF assms(2)] assms(3) by simp
  then show ?thesis
    using assms(1) ring_holds_put [OF h] end_at_put [OF h e] by (simp add: bus_rel_def)
qed

lemma bus_rel_less: "bus_rel w0 (Suc n) b a \<Longrightarrow> bus_rel w0 n b a"
  by (auto simp: bus_rel_def intro: end_at_less)

lemma bus_rel_epoch:
  assumes "bus_rel w0 n b a" and "epoch_ok e"
  shows "bus_rel w0 n (b\<lparr>bus_ring := bus_ring b\<lparr>ring_epoch := e\<rparr>\<rparr>) a"
  using assms by (auto simp: bus_rel_def ring_holds_def end_at_def slot_at_def split: option.splits)

lemma push_rel:
  assumes "bus_rel w0 (Suc n) b a"
  shows "\<exists>a'. board_step a (Push x) (snd (bus_step b (Push x))) = Some a' \<and> bus_rel w0 n (fst (bus_step b (Push x))) a'"
proof -
  have ep: "epoch_ok (ring_epoch (bus_ring b))" using assms by (simp add: bus_rel_def ring_holds_def)
  obtain old r where p: "ring_push (connections (bus_head b)) x (bus_ring b) = (old, r)" by fastforce
  show ?thesis
  proof (cases old)
    case None
    then have "r = bus_ring b" using p by (auto simp: ring_push_def Let_def split: if_splits)
    then show ?thesis using p None bus_rel_less [OF assms] by simp
  next
    case (Some y)
    then have r: "connections (bus_head b) \<noteq> 0"
        "r = put_slot x (ring_epoch (bus_ring b) OR ucast (connections (bus_head b))) (bus_ring b)"
      using p by (auto simp: ring_push_def Let_def split: if_splits)
    then show ?thesis
      using p Some bus_rel_put [OF assms ep refl, of x] connections_zero [OF assms] by simp
  qed
qed

lemma force_rel:
  assumes "bus_rel w0 (Suc n) b a"
  shows "\<exists>a'. board_step a (ForcePush x) (snd (bus_step b (ForcePush x))) = Some a' \<and>
    bus_rel w0 n (fst (bus_step b (ForcePush x))) a'"
proof -
  let ?e = "ring_epoch (bus_ring b) + ep_incr"
  have ep: "epoch_ok ?e" using assms epoch_next by (simp add: bus_rel_def ring_holds_def)
  show ?thesis
  proof (cases "connections (bus_head b) = 0")
    case True
    then show ?thesis using connections_zero [OF assms] bus_rel_epoch [OF bus_rel_less [OF assms] ep]
      by (simp add: ring_force_push_def)
  next
    case False
    then show ?thesis using connections_zero [OF assms] bus_rel_put [OF assms ep refl, of x]
      by (simp add: ring_force_push_def Let_def)
  qed
qed

lemma slot_at_update:
  assumes "ring_holds w0 r xs" and "length xs \<le> k + 256" "k < length xs" and "length xs \<le> p + 256" "p < length xs"
  shows "slot_at w0 (r\<lparr>ring_slots := (ring_slots r)[index_of (w0 + of_nat p) := s]\<rparr>) k = (if k = p then s else slot_at w0 r k)"
proof (cases "k = p")
  case True
  then show ?thesis using assms(1) index_of_less by (simp add: slot_at_def ring_holds_def)
next
  case False
  then have "index_of (w0 + of_nat k) \<noteq> index_of (w0 + of_nat p)"
    using assms by (intro index_of_neq [of _ _ "length xs - 256"]) auto
  then show ?thesis using False by (simp add: slot_at_def)
qed

lemma and_keep: "a AND b = (0 :: u32) \<Longrightarrow> w AND b = b \<Longrightarrow> (w AND NOT a) AND b = b"
  by (auto simp: bit_eq_iff bit_simps)

text \<open>The end of one reader moves and the slots change, within the relation of every end.\<close>

lemma bus_rel_end:
  assumes rel: "bus_rel w0 n b a" and k: "k < length (places a)" and h: "ring_holds w0 r (log a)"
    and e: "end_at w0 n (connections (bus_head b)) r (length (log a)) q place"
    and id: "connected_id q = connected_id (bus_ends b ! k)"
    and others: "\<And>j. j < length (places a) \<Longrightarrow> j \<noteq> k \<Longrightarrow>
      end_at w0 n (connections (bus_head b)) r (length (log a)) (bus_ends b ! j) (places a ! j)"
  shows "bus_rel w0 n (b\<lparr>bus_ring := r, bus_ends := (bus_ends b)[k := q]\<rparr>) (a\<lparr>places := (places a)[k := place]\<rparr>)"
    (is "bus_rel _ _ ?b ?a")
proof -
  have le: "length (bus_ends b) = length (places a)" using rel by (simp add: bus_rel_def)
  have ids: "connected_id (bus_ends ?b ! j) = connected_id (bus_ends b ! j)" if "j < length (places a)" for j
    using that le id by (cases "j = k") auto
  show ?thesis unfolding bus_rel_def
  proof (intro conjI allI impI)
    show "end_at w0 n (connections (bus_head ?b)) (bus_ring ?b) (length (log ?a)) (bus_ends ?b ! j) (places ?a ! j)"
      if "j < length (places ?a)" for j using that e others [of j] le by (cases "j = k") auto
    show "connected_id (bus_ends ?b ! i) AND connected_id (bus_ends ?b ! j) = 0"
      if "i < length (places ?a)" "j < length (places ?a)" "i \<noteq> j" for i j
      using that rel ids [of i] ids [of j] by (simp add: bus_rel_def)
    show "\<exists>j < length (places ?a). bit (connected_id (bus_ends ?b ! j)) m" if m: "bit (connections (bus_head ?b)) m" for m
    proof -
      obtain j where "j < length (places a)" "bit (connected_id (bus_ends b ! j)) m" using rel m by (auto simp: bus_rel_def)
      then show ?thesis using ids [of j] by (intro exI [of _ j]) (simp del: bus.select_convs bus.update_convs)
    qed
  qed (use rel h le in \<open>auto simp: bus_rel_def\<close>)
qed

lemma pop_rel:
  assumes rel: "bus_rel w0 (Suc n) b a"
  shows "\<exists>a'. board_step a (Pop k) (snd (bus_step b (Pop k))) = Some a' \<and> bus_rel w0 n (fst (bus_step b (Pop k))) a'"
proof -
  let ?cc = "connections (bus_head b)" and ?q = "bus_ends b ! k" and ?xs = "log a" and ?r = "bus_ring b"
  have len: "length (bus_ends b) = length (places a)" and h: "ring_holds w0 ?r ?xs" using rel by (auto simp: bus_rel_def)
  have e: "end_at w0 n ?cc ?r (length ?xs) (bus_ends b ! j) (places a ! j)" if "j < length (places a)" for j
    using bus_rel_less [OF rel] that by (simp add: bus_rel_def)
  have ids: "connected_id ?q AND connected_id (bus_ends b ! j) = 0"
    if "j < length (places a)" "k < length (places a)" "j \<noteq> k" for j using rel that by (simp add: bus_rel_def)
  have conn: "queue_connected Route ?q (bus_head b) \<longleftrightarrow> places a ! k \<noteq> None" if "k < length (places a)"
    using e [OF that] by (auto simp: queue_connected_def head_connected_def end_at_def and.commute split: option.splits)
  show ?thesis
  proof (cases "k < length (places a) \<and> places a ! k \<noteq> None")
    case False
    then show ?thesis using conn len bus_rel_less [OF rel] by auto
  next
    case True
    then obtain p where k: "k < length (places a)" and p: "places a ! k = Some p" by auto
    note ek = e [OF k, unfolded p]
    show ?thesis
    proof (cases "p = length ?xs")
      case full: True
      have "(bus_ends b)[k := ?q\<lparr>cursor := cursor ?q\<rparr>] = bus_ends b" by simp
      then show ?thesis using pop_at [OF h ek] conn k p len full bus_rel_less [OF rel] by simp
    next
      case False
      let ?p0 = "next_place ?xs p"
      let ?nxt = "slot_rc (slot_at w0 ?r ?p0) AND NOT (ucast (connected_id ?q))"
      let ?r' = "?r\<lparr>ring_slots := (ring_slots ?r)[index_of (w0 + of_nat ?p0) := (slot_at w0 ?r ?p0)\<lparr>slot_rc := ?nxt\<rparr>]\<rparr>"
      let ?q' = "?q\<lparr>cursor := w0 + of_nat (?p0 + 1)\<rparr>"
      have p0: "p \<le> ?p0" "length ?xs \<le> ?p0 + 256" "?p0 < length ?xs"
        using False ek by (auto simp: next_place_def end_at_def)
      have sl: "slot_at w0 ?r' j = (if j = ?p0 then (slot_at w0 ?r ?p0)\<lparr>slot_rc := ?nxt\<rparr> else slot_at w0 ?r j)"
        if "length ?xs \<le> j + 256" "j < length ?xs" for j using slot_at_update [OF h that p0(2,3)] .
      have h': "ring_holds w0 ?r' ?xs" unfolding ring_holds_def
      proof (intro conjI allI impI)
        show "slot_data (slot_at w0 ?r' j) = ?xs ! j" if "length ?xs \<le> j + 256" "j < length ?xs" for j
          using sl [OF that] h that by (auto simp: ring_holds_def)
      qed (use h in \<open>auto simp: ring_holds_def\<close>)
      have mine: "end_at w0 n ?cc ?r' (length ?xs) ?q' (Some (?p0 + 1))"
      proof -
        have "rc_readers (slot_rc (slot_at w0 ?r' j)) AND connected_id ?q = connected_id ?q"
          if "?p0 + 1 \<le> j" "length ?xs \<le> j + 256" "j < length ?xs" for j
          using sl [OF that(2,3)] ek p0 that by (auto simp: end_at_def)
        then show ?thesis using ek p0 by (auto simp: end_at_def)
      qed
      have other: "end_at w0 n ?cc ?r' (length ?xs) (bus_ends b ! j) (places a ! j)"
        if j: "j < length (places a)" "j \<noteq> k" for j
      proof (cases "places a ! j")
        case None
        then show ?thesis using e [OF j(1)] by (simp add: end_at_def)
      next
        case (Some m)
        have "rc_readers (slot_rc (slot_at w0 ?r' i)) AND connected_id (bus_ends b ! j) = connected_id (bus_ends b ! j)"
          if "m \<le> i" "length ?xs \<le> i + 256" "i < length ?xs" for i
          using sl [OF that(2,3)] e [OF j(1)] Some that ids [OF j(1) k j(2)]
          by (cases "i = ?p0") (auto simp: end_at_def and_keep)
        then show ?thesis using e [OF j(1)] Some by (auto simp: end_at_def)
      qed
      have step: "bus_step b (Pop k) = (b\<lparr>bus_ring := ?r', bus_ends := (bus_ends b)[k := ?q']\<rparr>, Got (Some (?xs ! ?p0)))"
        using pop_at [OF h ek] conn k p len False by (simp add: Let_def)
      have "bus_rel w0 n (b\<lparr>bus_ring := ?r', bus_ends := (bus_ends b)[k := ?q']\<rparr>) (a\<lparr>places := (places a)[k := Some (?p0 + 1)]\<rparr>)"
        by (rule bus_rel_end [OF bus_rel_less [OF rel] k h' mine _ other]) simp_all
      then show ?thesis using step k p False by simp
    qed
  qed
qed

lemma join_rel:
  assumes rel: "bus_rel w0 (Suc n) b a"
  shows "\<exists>a'. board_step a Join (snd (bus_step b Join)) = Some a' \<and> bus_rel w0 n (fst (bus_step b Join)) a'"
proof -
  let ?cc = "connections (bus_head b)"
  obtain i c where c: "head_connect Route ?cc = (i, c)" by fastforce
  have i: "i AND ?cc = 0" "c = ?cc OR i"
    using c by (auto simp: head_connect_def Let_def bit_eq_iff bit_simps split: if_splits)
  have ci: "c AND i = i" using i(2) by (auto simp: bit_eq_iff bit_simps)
  define q where "q = (if i = 0 then queue_end0 else \<lparr>connected_id = i, cursor = ring_wt (bus_ring b), sending = False\<rparr>)"
  have step: "bus_step b Join = (b\<lparr>bus_head := bus_head b\<lparr>connections := c\<rparr>, bus_ends := bus_ends b @ [q]\<rparr>, Joined (i \<noteq> 0))"
    using c ci by (auto simp: queue_connect_def queue_connected_def head_connected_def connect_receiver_def queue_end0_def q_def)
  have le: "length (bus_ends b) = length (places a)" and h: "ring_holds w0 (bus_ring b) (log a)" using rel by (auto simp: bus_rel_def)
  have n: "n < 2 ^ 32" using rel by (simp add: bus_rel_def)
  have new: "end_at w0 n c (bus_ring b) (length (log a)) q (if i \<noteq> 0 then Some (length (log a)) else None)"
    using ci h n by (auto simp: end_at_def q_def queue_end0_def ring_holds_def and.commute)
  have id: "connected_id q = i" by (simp add: q_def queue_end0_def)
  have old: "end_at w0 n c (bus_ring b) (length (log a)) (bus_ends b ! k) (places a ! k)" if "k < length (places a)" for k
  proof -
    have "end_at w0 n ?cc (bus_ring b) (length (log a)) (bus_ends b ! k) (places a ! k)"
      using bus_rel_less [OF rel] that by (simp add: bus_rel_def)
    moreover have "connected_id (bus_ends b ! k) AND c = connected_id (bus_ends b ! k)"
      if "connected_id (bus_ends b ! k) AND ?cc = connected_id (bus_ends b ! k)"
      using that i(2) by (auto simp: bit_eq_iff bit_simps)
    ultimately show ?thesis by (simp add: end_at_def)
  qed
  have dis: "connected_id (bus_ends b ! k) AND i = 0" if "k < length (places a)" for k
  proof -
    have "connected_id (bus_ends b ! k) AND ?cc = connected_id (bus_ends b ! k)"
      using rel that by (auto simp: bus_rel_def end_at_def)
    then show ?thesis using i(1) by (auto simp: bit_eq_iff bit_simps)
  qed
  let ?a' = "a\<lparr>places := places a @ [if i \<noteq> 0 then Some (length (log a)) else None]\<rparr>"
  let ?b' = "b\<lparr>bus_head := bus_head b\<lparr>connections := c\<rparr>, bus_ends := bus_ends b @ [q]\<rparr>"
  have "bus_rel w0 n ?b' ?a'"
    unfolding bus_rel_def
  proof (intro conjI allI impI)
    show "end_at w0 n (connections (bus_head ?b')) (bus_ring ?b') (length (log ?a')) (bus_ends ?b' ! k) (places ?a' ! k)"
      if "k < length (places ?a')" for k
      using that new old le by (cases "k = length (places a)") (auto simp: nth_append)
    show "connected_id (bus_ends ?b' ! j) AND connected_id (bus_ends ?b' ! k) = 0"
      if "j < length (places ?a')" "k < length (places ?a')" "j \<noteq> k" for j k
      using that rel dis [of j] dis [of k] le id
      by (cases "j = length (places a)"; cases "k = length (places a)") (auto simp: nth_append bus_rel_def and.commute)
    show "\<exists>k < length (places ?a'). bit (connected_id (bus_ends ?b' ! k)) m" if "bit (connections (bus_head ?b')) m" for m
    proof (cases "bit i m")
      case True
      then show ?thesis using le id by (intro exI [of _ "length (places a)"]) (simp add: nth_append)
    next
      case False
      then have "bit ?cc m" using that i(2) by (simp add: bit_or_iff)
      then obtain k where "k < length (places a)" "bit (connected_id (bus_ends b ! k)) m" using rel by (auto simp: bus_rel_def)
      then show ?thesis using le by (intro exI [of _ k]) (simp add: nth_append)
    qed
  qed (use n h le in auto)
  then show ?thesis using step by simp
qed

lemma leave_rel:
  assumes rel: "bus_rel w0 (Suc n) b a"
  shows "\<exists>a'. board_step a (Leave k) (snd (bus_step b (Leave k))) = Some a' \<and> bus_rel w0 n (fst (bus_step b (Leave k))) a'"
proof (cases "k < length (places a)")
  case False
  then show ?thesis using rel bus_rel_less [OF rel] by (auto simp: bus_rel_def)
next
  case k: True
  let ?cc = "connections (bus_head b)" and ?q = "bus_ends b ! k"
  have le: "length (bus_ends b) = length (places a)" using rel by (simp add: bus_rel_def)
  have e: "end_at w0 n ?cc (bus_ring b) (length (log a)) (bus_ends b ! j) (places a ! j)" if "j < length (places a)" for j
    using bus_rel_less [OF rel] that by (simp add: bus_rel_def)
  have sub: "connected_id ?q AND ?cc = connected_id ?q" using e [OF k] by (simp add: end_at_def)
  show ?thesis
  proof (cases "connected_id ?q = 0")
    case True
    then have "places a ! k = None" using e [OF k] by (auto simp: end_at_def split: option.splits)
    then have "(places a)[k := None] = places a" by (metis list_update_id)
    moreover have "fst (bus_step b (Leave k)) = b" "snd (bus_step b (Leave k)) = Done"
      using True k le by (simp_all add: queue_disconnect_def queue_connected_def head_connected_def)
    ultimately show ?thesis using bus_rel_less [OF rel] by simp
  next
    case False
    let ?c = "?cc AND NOT (connected_id ?q)" and ?q' = "?q\<lparr>connected_id := 0\<rparr>"
    let ?b' = "b\<lparr>bus_head := bus_head b\<lparr>connections := ?c\<rparr>, bus_ends := (bus_ends b)[k := ?q']\<rparr>"
    let ?a' = "a\<lparr>places := (places a)[k := None]\<rparr>"
    have "?cc AND connected_id ?q \<noteq> 0" using sub False by (simp add: and.commute)
    then have step: "bus_step b (Leave k) = (?b', Done)"
      using k le by (simp add: queue_disconnect_def queue_connected_def head_connected_def disconnect_receiver_def head_disconnect_def)
    have "bus_rel w0 n ?b' ?a'"
      unfolding bus_rel_def
    proof (intro conjI allI impI)
      fix j assume "j < length (places ?a')"
      then have j: "j < length (places a)" by simp
      show "end_at w0 n (connections (bus_head ?b')) (bus_ring ?b') (length (log ?a')) (bus_ends ?b' ! j) (places ?a' ! j)"
      proof (cases "j = k")
        case True
        then show ?thesis using j le by (simp add: end_at_def)
      next
        case False
        have "connected_id (bus_ends b ! j) AND connected_id ?q = 0" using rel j k False by (simp add: bus_rel_def)
        moreover have "connected_id (bus_ends b ! j) AND ?cc = connected_id (bus_ends b ! j)" using e [OF j] by (simp add: end_at_def)
        ultimately have "connected_id (bus_ends b ! j) AND ?c = connected_id (bus_ends b ! j)"
          by (auto simp: bit_eq_iff bit_simps)
        then show ?thesis using e [OF j] False by (simp add: end_at_def)
      qed
    next
      show "connected_id (bus_ends ?b' ! i) AND connected_id (bus_ends ?b' ! j) = 0"
        if "i < length (places ?a')" "j < length (places ?a')" "i \<noteq> j" for i j
        using that rel le by (cases "i = k"; cases "j = k") (auto simp: bus_rel_def)
      show "\<exists>j < length (places ?a'). bit (connected_id (bus_ends ?b' ! j)) m" if "bit (connections (bus_head ?b')) m" for m
      proof -
        have m: "bit ?cc m" "\<not> bit (connected_id ?q) m" using that by (auto simp: bit_simps)
        then obtain j where "j < length (places a)" "bit (connected_id (bus_ends b ! j)) m" using rel by (auto simp: bus_rel_def)
        then show ?thesis using m(2) by (intro exI [of _ j]) (cases "j = k", auto)
      qed
    qed (use rel in \<open>auto simp: bus_rel_def\<close>)
    then show ?thesis using step by simp
  qed
qed

lemma bus_step_rel:
  "bus_rel w0 (Suc n) b a \<Longrightarrow>
     \<exists>a'. board_step a e (snd (bus_step b e)) = Some a' \<and> bus_rel w0 n (fst (bus_step b e)) a'"
  by (cases e) (simp_all only: push_rel force_rel pop_rel join_rel leave_rel)

lemma bus_run_rel:
  "bus_rel w0 (length es + n) b a \<Longrightarrow>
     \<exists>a'. board_run a es (snd (bus_run b es)) = Some a' \<and> bus_rel w0 n (fst (bus_run b es)) a'"
proof (induction es arbitrary: b a)
  case Nil
  then show ?case by simp
next
  case (Cons e es)
  obtain a1 where "board_step a e (snd (bus_step b e)) = Some a1" "bus_rel w0 (length es + n) (fst (bus_step b e)) a1"
    using bus_step_rel [of w0 "length es + n" b a e] Cons.prems by auto
  with Cons.IH [of "fst (bus_step b e)" a1] show ?case by (auto simp: split_beta Let_def)
qed

lemma new_bus_rel: "n < 2 ^ 32 \<Longrightarrow> bus_rel at n (new_bus d at) \<lparr>log = [], places = []\<rparr>"
  by (auto simp: bus_rel_def new_bus_def new_ring_def ring_holds_def epoch_ok_def rc_epoch_def)

text \<open>
  C2. A ring with its readers is a board: whatever is pushed, forced, popped, and whoever joins and
  leaves, the results are those of one list of messages which every reader goes through in order
  from the place where it joined, losing only what is older than the last 256.
\<close>

theorem ring_refines_board:
  assumes "length es < 2 ^ 32"
  shows "\<exists>a. board_run \<lparr>log = [], places = []\<rparr> es (snd (bus_run (new_bus d at) es)) = Some a"
  using bus_run_rel [of at es 0 "new_bus d at"] new_bus_rel [OF assms, of at d] by auto

theorem ring_refines_board_witness:
  "\<exists>a. board_run \<lparr>log = [], places = []\<rparr> [Join, Push 1, Pop 0, Leave 0]
     (snd (bus_run (new_bus (0 :: nat) 4294967295) [Join, Push 1, Pop 0, Leave 0])) = Some a"
  using ring_refines_board [of "[Join, Push 1, Pop 0, Leave 0]" "0 :: nat"] by simp

section \<open>Without forcing nothing is lost\<close>

text \<open>All slots are of the current epoch, and no reader is more than a ring behind.\<close>

definition all_epoch :: "u64 \<Rightarrow> 'd slot list \<Rightarrow> bool" where
  "all_epoch e xs \<longleftrightarrow> (\<forall>s \<in> set xs. rc_epoch (slot_rc s) = e)"

definition calm :: "'d bus \<Rightarrow> 'd board \<Rightarrow> bool" where
  "calm b a \<longleftrightarrow>
     all_epoch (ring_epoch (bus_ring b)) (ring_slots (bus_ring b)) \<and>
     (\<forall>p. Some p \<in> set (places a) \<longrightarrow> length (log a) \<le> p + 256)"

lemma index_of_wt:
  assumes "ring_holds w0 r xs" and "length xs = p + 256"
  shows "index_of (ring_wt r) = index_of (w0 + of_nat p)"
proof -
  have "index_of (ring_wt r) = (unat w0 + p + 256) mod 256"
    using assms index_of_pos [of w0 "length xs"] by (simp add: ring_holds_def add.assoc)
  then show ?thesis by (simp add: index_of_pos)
qed

lemma held_slot_refuses:
  assumes rel: "bus_rel w0 n b a" and c: "calm b a" and p: "Some p \<in> set (places a)" "length (log a) = p + 256"
  shows "ring_push (connections (bus_head b)) x (bus_ring b) = (None, bus_ring b)"
proof -
  let ?cc = "connections (bus_head b)" and ?r = "bus_ring b"
  obtain k where k: "k < length (places a)" "places a ! k = Some p" using p(1) by (auto simp: in_set_conv_nth)
  have h: "ring_holds w0 ?r (log a)" using rel by (simp add: bus_rel_def)
  have "end_at w0 n ?cc ?r (length (log a)) (bus_ends b ! k) (Some p)" using rel k by (auto simp: bus_rel_def)
  then have id: "connected_id (bus_ends b ! k) AND ?cc = connected_id (bus_ends b ! k)" "connected_id (bus_ends b ! k) \<noteq> 0"
      "rc_readers (slot_rc (slot_at w0 ?r p)) AND connected_id (bus_ends b ! k) = connected_id (bus_ends b ! k)"
    using p(2) by (auto simp: end_at_def)
  have sl: "ring_slots ?r ! index_of (ring_wt ?r) = slot_at w0 ?r p" using index_of_wt [OF h p(2)] by (simp add: slot_at_def)
  then have "slot_at w0 ?r p \<in> set (ring_slots ?r)" using h index_of_less [of "ring_wt ?r"] by (metis nth_mem ring_holds_def)
  then have "rc_epoch (slot_rc (slot_at w0 ?r p)) = ring_epoch ?r" using c by (simp add: calm_def all_epoch_def)
  moreover have "?cc AND rc_readers (slot_rc (slot_at w0 ?r p)) \<noteq> 0"
  proof
    assume "?cc AND rc_readers (slot_rc (slot_at w0 ?r p)) = 0"
    then have "connected_id (bus_ends b ! k) = 0" using id(1,3) by (auto simp: bit_eq_iff bit_simps)
    then show False using id(2) by simp
  qed
  moreover have "?cc \<noteq> 0" using id(1,2) by auto
  ultimately show ?thesis using sl by (simp add: ring_push_def)
qed

lemma epochs_update:
  assumes "all_epoch e xs" and "rc_epoch (slot_rc t) = e"
  shows "all_epoch e (xs[i := t])"
  using assms set_update_subset_insert [of xs i t] by (auto simp: all_epoch_def)

lemma calm_push:
  assumes rel: "bus_rel w0 (Suc n) b a" and c: "calm b a" and st: "board_step a (Push x) (snd (bus_step b (Push x))) = Some a'"
  shows "calm (fst (bus_step b (Push x))) a'"
proof -
  let ?cc = "connections (bus_head b)" and ?r = "bus_ring b"
  have ep: "epoch_ok (ring_epoch ?r)" using rel by (simp add: bus_rel_def ring_holds_def)
  obtain old r where p: "ring_push ?cc x ?r = (old, r)" by fastforce
  show ?thesis
  proof (cases old)
    case None
    then have "r = ?r" using p by (auto simp: ring_push_def Let_def split: if_splits)
    then show ?thesis using p None st c by simp
  next
    case (Some y)
    then have r: "r = put_slot x (ring_epoch ?r OR ucast ?cc) ?r" using p by (auto simp: ring_push_def Let_def split: if_splits)
    have a': "a' = a\<lparr>log := log a @ [x]\<rparr>" using st p Some by (simp split: if_splits)
    have "length (log a) + 1 \<le> q + 256" if "Some q \<in> set (places a)" for q
    proof (rule ccontr)
      assume "\<not> length (log a) + 1 \<le> q + 256"
      then have "length (log a) = q + 256" using c that by (auto simp: calm_def)
      then show False using held_slot_refuses [OF rel c that, of x] p Some by simp
    qed
    moreover have "all_epoch (ring_epoch r) (ring_slots r)"
      using c rc_made(2) [OF ep] by (simp add: r put_slot_def calm_def epochs_update)
    ultimately show ?thesis using p Some a' by (simp add: calm_def)
  qed
qed

lemma calm_pop:
  assumes rel: "bus_rel w0 (Suc n) b a" and c: "calm b a" and st: "board_step a (Pop k) (snd (bus_step b (Pop k))) = Some a'"
  shows "calm (fst (bus_step b (Pop k))) a'"
proof (cases "k < length (bus_ends b) \<and> queue_connected Route (bus_ends b ! k) (bus_head b)")
  case False
  then have "fst (bus_step b (Pop k)) = b" "a' = a" using st by (auto split: if_splits)
  then show ?thesis using c by simp
next
  case True
  let ?r = "bus_ring b" and ?q = "bus_ends b ! k"
  have h: "ring_holds w0 ?r (log a)" and k: "k < length (places a)" using rel True by (auto simp: bus_rel_def)
  have e: "end_at w0 (Suc n) (connections (bus_head b)) ?r (length (log a)) ?q (places a ! k)" using rel k by (simp add: bus_rel_def)
  then obtain p where p: "places a ! k = Some p"
    using True by (cases "places a ! k") (auto simp: end_at_def queue_connected_def head_connected_def)
  have pk: "Some p \<in> set (places a)" using p k nth_mem by metis
  show ?thesis
  proof (cases "p = length (log a)")
    case full: True
    have "(bus_ends b)[k := ?q\<lparr>cursor := cursor ?q\<rparr>] = bus_ends b" by simp
    then show ?thesis using st pop_at [OF h e [unfolded p]] True full p k c by (simp split: if_splits)
  next
    case False
    let ?p0 = "next_place (log a) p"
    let ?rc = "slot_rc (slot_at w0 ?r ?p0)"
    have p0: "?p0 < length (log a)" "length (log a) \<le> ?p0 + 256" using False e p by (auto simp: next_place_def end_at_def)
    have "slot_at w0 ?r ?p0 \<in> set (ring_slots ?r)"
      using h index_of_less [of "w0 + of_nat ?p0"] by (simp add: slot_at_def ring_holds_def)
    then have "rc_epoch (?rc AND NOT (ucast (connected_id ?q))) = ring_epoch ?r" using c by (simp add: calm_def all_epoch_def)
    moreover have "fst (bus_step b (Pop k)) = b\<lparr>bus_ring := ?r\<lparr>ring_slots := (ring_slots ?r)[index_of (w0 + of_nat ?p0) :=
          (slot_at w0 ?r ?p0)\<lparr>slot_rc := ?rc AND NOT (ucast (connected_id ?q))\<rparr>]\<rparr>,
        bus_ends := (bus_ends b)[k := ?q\<lparr>cursor := w0 + of_nat (?p0 + 1)\<rparr>]\<rparr>"
      using pop_at [OF h e [unfolded p]] True False by (simp add: Let_def)
    moreover have "a' = a\<lparr>places := (places a)[k := Some (?p0 + 1)]\<rparr>"
      using st pop_at [OF h e [unfolded p]] True False p k by (simp add: Let_def)
    moreover have "length (log a) \<le> q + 256" if "Some q \<in> set ((places a)[k := Some (?p0 + 1)])" for q
      using that set_update_subset_insert [of "places a" k "Some (?p0 + 1)"] c p0 by (auto simp: calm_def)
    ultimately show ?thesis using c by (simp add: calm_def epochs_update)
  qed
qed

lemma calm_step:
  assumes rel: "bus_rel w0 (Suc n) b a" and c: "calm b a" and st: "board_step a e (snd (bus_step b e)) = Some a'"
    and e: "\<forall>x. e \<noteq> ForcePush x"
  shows "calm (fst (bus_step b e)) a'"
proof (cases e)
  case (Push x)
  then show ?thesis using calm_push [OF rel c] st by simp
next
  case (ForcePush x)
  then show ?thesis using e by simp
next
  case (Pop k)
  then show ?thesis using calm_pop [OF rel c] st by simp
next
  case Join
  then show ?thesis using st c by (auto simp: calm_def split: prod.splits if_splits)
next
  case (Leave k)
  have "bus_ring (fst (bus_step b (Leave k))) = bus_ring b" by (auto split: prod.splits)
  moreover have "a' = a\<lparr>places := (places a)[k := None]\<rparr>" using st Leave by (auto split: prod.splits if_splits)
  moreover have "Some p \<in> set (places a)" if "Some p \<in> set ((places a)[k := None])" for p
    using that set_update_subset_insert [of "places a" k None] by auto
  ultimately show ?thesis using c Leave by (simp add: calm_def)
qed

lemma calm_run:
  "bus_rel w0 (length es + n) b a \<Longrightarrow> calm b a \<Longrightarrow> \<forall>x. ForcePush x \<notin> set es \<Longrightarrow>
     \<exists>a'. board_run a es (snd (bus_run b es)) = Some a' \<and> calm (fst (bus_run b es)) a'"
proof (induction es arbitrary: b a)
  case Nil
  then show ?case by simp
next
  case (Cons e es)
  obtain a1 where a1: "board_step a e (snd (bus_step b e)) = Some a1" "bus_rel w0 (length es + n) (fst (bus_step b e)) a1"
    using bus_step_rel [of w0 "length es + n" b a e] Cons.prems(1) by auto
  have "\<forall>x. e \<noteq> ForcePush x" using Cons.prems(3) by auto
  then have "calm (fst (bus_step b e)) a1"
    using calm_step [of w0 "length es + n" b a e a1] Cons.prems(1,2) a1(1) by simp
  with Cons.IH [OF a1(2)] Cons.prems(3) a1(1) show ?case by (auto simp: split_beta Let_def)
qed

text \<open>
  Without forced pushes no reader ever falls more than the 256 slots behind: a push is refused
  instead of overwriting a message that a connected reader has not got.
\<close>

theorem ring_lossless:
  assumes "length es < 2 ^ 32" and "\<forall>x. ForcePush x \<notin> set es"
  shows "\<exists>a. board_run \<lparr>log = [], places = []\<rparr> es (snd (bus_run (new_bus d at) es)) = Some a \<and>
    (\<forall>p. Some p \<in> set (places a) \<longrightarrow> length (log a) \<le> p + 256)"
proof -
  have "bus_rel at (length es + 0) (new_bus d at) \<lparr>log = [], places = []\<rparr>" using new_bus_rel [OF assms(1)] by simp
  moreover have "calm (new_bus d at) \<lparr>log = [], places = []\<rparr>"
    by (simp add: calm_def all_epoch_def new_bus_def new_ring_def rc_epoch_def)
  ultimately show ?thesis using calm_run [OF _ _ assms(2)] unfolding calm_def by blast
qed

theorem ring_lossless_witness:
  "\<exists>a. board_run \<lparr>log = [], places = []\<rparr> [Join, Push 7] (snd (bus_run (new_bus (0 :: nat) 0) [Join, Push 7])) = Some a \<and>
    (\<forall>p. Some p \<in> set (places a) \<longrightarrow> length (log a) \<le> p + 256)"
  using ring_lossless [of "[Join, Push 7]" "0 :: nat" 0] by simp

end
