(* ===== verification/RingRace.thy ===== *)
theory RingRace
  imports BroadcastRing
begin

text \<open>
  The same ring (\<open>src/src/libipc/prod_cons.h\<close>) with a writer and a reader at the same time, one
  atomic access per step: the writer marks a slot, copies the message into it word by word and
  publishes it; the reader reads the counter of a slot, copies the message out word by word, reads
  the counter again and releases the slot.
\<close>

section \<open>Steps\<close>

datatype 'w writer = WIdle | WCopy "'w list" nat

text \<open>The flag says that the writer was not in the slot when the reader read its counter.\<close>

datatype 'w reader = RIdle | RTest | RLoad | RCopy nat u64 "'w list" bool | RClear nat u64 "'w list" bool

record 'w race =
  race_ring :: "'w list ring"
  race_writer :: "'w writer"
  race_reader :: "'w reader"
  race_cur :: u32
  race_got :: "('w list \<times> bool) list"
  race_sent :: "'w list set"
  race_forces :: nat

definition slot_in :: "'w race \<Rightarrow> nat \<Rightarrow> 'w list slot" where
  "slot_in s i = ring_slots (race_ring s) ! i"

definition set_slot :: "'w race \<Rightarrow> nat \<Rightarrow> 'w list slot \<Rightarrow> 'w race" where
  "set_slot s i el = s\<lparr>race_ring := (race_ring s)\<lparr>ring_slots := (ring_slots (race_ring s))[i := el]\<rparr>\<rparr>"

definition write_slot :: "'w race \<Rightarrow> nat" where
  "write_slot s = index_of (ring_wt (race_ring s))"

definition writing :: "'w race \<Rightarrow> nat \<Rightarrow> bool" where
  "writing s i \<longleftrightarrow> race_writer s \<noteq> WIdle \<and> write_slot s = i"

text \<open>
  \<open>cc\<close> are the connections, \<open>my\<close> the bit of the reader and \<open>len\<close> the words of a message. Other
  readers release slots at any time.
\<close>

inductive race_step :: "u32 \<Rightarrow> u32 \<Rightarrow> nat \<Rightarrow> 'w race \<Rightarrow> 'w race \<Rightarrow> bool" for cc my len where
  w_push: "race_writer s = WIdle \<Longrightarrow> length x = len \<Longrightarrow> el = slot_in s (write_slot s) \<Longrightarrow> e = ring_epoch (race_ring s) \<Longrightarrow>
     \<not> (cc AND rc_readers (slot_rc el) \<noteq> 0 \<and> rc_epoch (slot_rc el) = e) \<Longrightarrow>
     race_step cc my len s
       (set_slot s (write_slot s) (el\<lparr>slot_rc := e OR ucast cc\<rparr>)\<lparr>race_writer := WCopy x 0, race_sent := insert x (race_sent s)\<rparr>)"
| w_force: "race_writer s = WIdle \<Longrightarrow> length x = len \<Longrightarrow> el = slot_in s (write_slot s) \<Longrightarrow> e = ring_epoch (race_ring s) + ep_incr \<Longrightarrow>
     race_step cc my len s
       (set_slot (s\<lparr>race_ring := (race_ring s)\<lparr>ring_epoch := e\<rparr>, race_forces := race_forces s + 1\<rparr>) (write_slot s)
          (el\<lparr>slot_rc := e OR ucast cc\<rparr>)\<lparr>race_writer := WCopy x 0, race_sent := insert x (race_sent s)\<rparr>)"
| w_word: "race_writer s = WCopy x i \<Longrightarrow> i < len \<Longrightarrow> el = slot_in s (write_slot s) \<Longrightarrow>
     race_step cc my len s
       (set_slot s (write_slot s) (el\<lparr>slot_data := (slot_data el)[i := x ! i]\<rparr>)\<lparr>race_writer := WCopy x (i + 1)\<rparr>)"
| w_publish: "race_writer s = WCopy x len \<Longrightarrow>
     race_step cc my len s
       (s\<lparr>race_ring := (race_ring s)\<lparr>ring_wt := ring_wt (race_ring s) + 1\<rparr>, race_writer := WIdle\<rparr>)"
| r_enter: "race_reader s = RIdle \<Longrightarrow>
     race_step cc my len s (s\<lparr>race_cur := resync (ring_wt (race_ring s)) (race_cur s), race_reader := RTest\<rparr>)"
| r_test: "race_reader s = RTest \<Longrightarrow>
     race_step cc my len s (s\<lparr>race_reader := (if race_cur s = ring_wt (race_ring s) then RIdle else RLoad)\<rparr>)"
| r_load: "race_reader s = RLoad \<Longrightarrow> i = index_of (race_cur s) \<Longrightarrow> rc0 = slot_rc (slot_in s i) \<Longrightarrow>
     race_step cc my len s
       (s\<lparr>race_cur := race_cur s + 1,
          race_reader := (if rc0 AND ucast my = 0 then RTest else RCopy i rc0 [] (\<not> writing s i))\<rparr>)"
| r_word: "race_reader s = RCopy i rc0 buf ok \<Longrightarrow> length buf < len \<Longrightarrow>
     race_step cc my len s (s\<lparr>race_reader := RCopy i rc0 (buf @ [slot_data (slot_in s i) ! length buf]) ok\<rparr>)"
| r_check: "race_reader s = RCopy i rc0 buf ok \<Longrightarrow> length buf = len \<Longrightarrow>
     race_step cc my len s
       (s\<lparr>race_reader := (if rc_epoch (slot_rc (slot_in s i)) = rc_epoch rc0 then RClear i rc0 buf ok else RTest)\<rparr>)"
| r_lost: "race_reader s = RClear i rc0 buf ok \<Longrightarrow> rc_epoch (slot_rc (slot_in s i)) \<noteq> rc_epoch rc0 \<Longrightarrow>
     race_step cc my len s (s\<lparr>race_reader := RTest\<rparr>)"
| r_clear: "race_reader s = RClear i rc0 buf ok \<Longrightarrow> el = slot_in s i \<Longrightarrow> rc_epoch (slot_rc el) = rc_epoch rc0 \<Longrightarrow>
     race_step cc my len s
       (set_slot s i (el\<lparr>slot_rc := slot_rc el AND NOT (ucast my)\<rparr>)\<lparr>race_reader := RIdle, race_got := (buf, ok) # race_got s\<rparr>)"
| o_clear: "other AND my = 0 \<Longrightarrow> el = slot_in s i \<Longrightarrow> i < 256 \<Longrightarrow>
     race_step cc my len s (set_slot s i (el\<lparr>slot_rc := slot_rc el AND NOT (ucast (other :: u32))\<rparr>))"

definition race_start :: "'w \<Rightarrow> u32 \<Rightarrow> nat \<Rightarrow> 'w race \<Rightarrow> bool" where
  "race_start d at len s \<longleftrightarrow>
     s = \<lparr>race_ring = new_ring (replicate len d) at, race_writer = WIdle, race_reader = RIdle, race_cur = at, race_got = [],
          race_sent = {replicate len d}, race_forces = 0\<rparr>"

section \<open>Epochs as numbers\<close>

definition epoch_no :: "nat \<Rightarrow> u64" where
  "epoch_no f = push_bit 32 (of_nat f)"

lemma epoch_no_ok [simp]: "epoch_ok (epoch_no f)"
  by (auto simp: epoch_no_def epoch_ok_push)

lemma epoch_no_next: "epoch_no f + ep_incr = epoch_no (f + 1)"
  by (simp add: epoch_no_def ep_incr_def push_bit_eq_mult algebra_simps)

lemma epoch_no_inj:
  assumes "epoch_no f = epoch_no g" and "f < 2 ^ 32" and "g < 2 ^ 32"
  shows "f = g"
proof -
  have n: "unat (epoch_no h) = h * 2 ^ 32" if "h < 2 ^ 32" for h
  proof -
    have e: "epoch_no h = of_nat (h * 2 ^ 32)" by (simp add: epoch_no_def push_bit_eq_mult)
    have "take_bit 64 (h * 2 ^ 32) = h * 2 ^ 32" using that by (intro take_bit_nat_eq_self) simp
    then show ?thesis unfolding e unsigned_of_nat by simp
  qed
  have "f * 2 ^ 32 = g * 2 ^ 32" using n [OF assms(2)] n [OF assms(3)] unfolding assms(1) by (rule trans [OF sym])
  then show ?thesis by (rule mult_right_cancel [THEN iffD1, rotated]) simp
qed

section \<open>A copy that began in a quiet slot\<close>

text \<open>
  As long as the slot is of the epoch the reader saw, nobody wrote to it, and what the reader has
  copied is a part of the message there.
\<close>

definition quiet :: "u32 \<Rightarrow> 'w race \<Rightarrow> nat \<Rightarrow> u64 \<Rightarrow> 'w list \<Rightarrow> bool" where
  "quiet my s i rc0 buf \<longleftrightarrow>
     i < 256 \<and> (\<exists>f g. f \<le> g \<and> g \<le> race_forces s \<and> rc_epoch rc0 = epoch_no f \<and> rc_epoch (slot_rc (slot_in s i)) = epoch_no g \<and>
       (g = f \<longrightarrow> rc_readers (slot_rc (slot_in s i)) AND my \<noteq> 0 \<and> \<not> writing s i \<and> buf = take (length buf) (slot_data (slot_in s i))))"

definition reader_fine :: "u32 \<Rightarrow> nat \<Rightarrow> 'w race \<Rightarrow> bool" where
  "reader_fine my len s \<longleftrightarrow>
     (case race_reader s of
        RCopy i rc0 buf ok \<Rightarrow> i < 256 \<and> length buf \<le> len \<and> (ok \<longrightarrow> quiet my s i rc0 buf)
      | RClear i rc0 buf ok \<Rightarrow> i < 256 \<and> length buf = len \<and> (ok \<longrightarrow> quiet my s i rc0 buf)
      | _ \<Rightarrow> True)"

definition race_inv :: "u32 \<Rightarrow> u32 \<Rightarrow> nat \<Rightarrow> 'w race \<Rightarrow> bool" where
  "race_inv cc my len s \<longleftrightarrow>
     length (ring_slots (race_ring s)) = 256 \<and> ring_epoch (race_ring s) = epoch_no (race_forces s) \<and>
     (\<forall>i < 256. length (slot_data (slot_in s i)) = len \<and> (\<exists>g \<le> race_forces s. rc_epoch (slot_rc (slot_in s i)) = epoch_no g) \<and>
        (\<not> writing s i \<longrightarrow> slot_data (slot_in s i) \<in> race_sent s)) \<and>
     (\<forall>x i. race_writer s = WCopy x i \<longrightarrow> x \<in> race_sent s \<and> length x = len \<and> i \<le> len \<and>
        take i (slot_data (slot_in s (write_slot s))) = take i x) \<and>
     reader_fine my len s \<and> (\<forall>buf. (buf, True) \<in> set (race_got s) \<longrightarrow> buf \<in> race_sent s)"

lemma slot_in_set [simp]:
  "slot_in (set_slot s i el) j = (if j = i \<and> i < length (ring_slots (race_ring s)) then el else slot_in s j)"
  by (cases "i < length (ring_slots (race_ring s))") (auto simp: slot_in_def set_slot_def nth_list_update list_update_beyond not_less)

lemma set_slot_fields [simp]:
  "race_writer (set_slot s i el) = race_writer s" "race_reader (set_slot s i el) = race_reader s"
  "race_cur (set_slot s i el) = race_cur s" "race_got (set_slot s i el) = race_got s"
  "race_sent (set_slot s i el) = race_sent s" "race_forces (set_slot s i el) = race_forces s"
  "ring_wt (race_ring (set_slot s i el)) = ring_wt (race_ring s)"
  "ring_epoch (race_ring (set_slot s i el)) = ring_epoch (race_ring s)"
  "length (ring_slots (race_ring (set_slot s i el))) = length (ring_slots (race_ring s))"
  by (simp_all add: set_slot_def)

lemma slot_in_other [simp]:
  "slot_in (s\<lparr>race_writer := w\<rparr>) = slot_in s" "slot_in (s\<lparr>race_reader := r\<rparr>) = slot_in s"
  "slot_in (s\<lparr>race_cur := c\<rparr>) = slot_in s" "slot_in (s\<lparr>race_got := g\<rparr>) = slot_in s"
  "slot_in (s\<lparr>race_sent := m\<rparr>) = slot_in s" "slot_in (s\<lparr>race_forces := n\<rparr>) = slot_in s"
  "slot_in (s\<lparr>race_ring := (race_ring s)\<lparr>ring_wt := c\<rparr>\<rparr>) = slot_in s"
  "slot_in (s\<lparr>race_ring := (race_ring s)\<lparr>ring_epoch := e\<rparr>\<rparr>) = slot_in s"
  by (simp_all add: slot_in_def fun_eq_iff)

lemma write_slot_less [simp]: "write_slot s < 256"
  by (simp add: write_slot_def index_of_less)

text \<open>A step elsewhere leaves the copy alone.\<close>

lemma quiet_mono:
  assumes "quiet my s i rc0 buf" and "race_forces s \<le> race_forces t"
    and "slot_data (slot_in t i) = slot_data (slot_in s i)" and "rc_epoch (slot_rc (slot_in t i)) = rc_epoch (slot_rc (slot_in s i))"
    and "rc_readers (slot_rc (slot_in t i)) AND my = rc_readers (slot_rc (slot_in s i)) AND my"
    and "writing t i \<Longrightarrow> writing s i"
  shows "quiet my t i rc0 buf"
  using assms unfolding quiet_def by (auto intro: le_trans)

text \<open>A slot marked anew is of a later epoch than the one the reader saw.\<close>

lemma quiet_marked:
  assumes "quiet my s i rc0 buf" and "race_forces s \<le> race_forces t" and "rc_epoch (slot_rc (slot_in t i)) = epoch_no (race_forces t)"
    and "race_forces s < race_forces t \<or> cc AND rc_readers (slot_rc (slot_in s i)) = 0 \<or> rc_epoch (slot_rc (slot_in s i)) \<noteq> epoch_no (race_forces s)"
    and "my AND cc = my"
  shows "quiet my t i rc0 buf"
proof -
  obtain f g where i: "i < 256" and fg: "f \<le> g" "g \<le> race_forces s" "rc_epoch rc0 = epoch_no f"
      "rc_epoch (slot_rc (slot_in s i)) = epoch_no g"
      "g = f \<Longrightarrow> rc_readers (slot_rc (slot_in s i)) AND my \<noteq> 0"
    using assms(1) by (auto simp: quiet_def)
  have "f \<noteq> race_forces t"
  proof
    assume f: "f = race_forces t"
    then have g: "g = f" "race_forces s = f" using fg(1,2) assms(2) by auto
    then have "cc AND rc_readers (slot_rc (slot_in s i)) = 0" using assms(4) fg(4) f by simp
    then have "rc_readers (slot_rc (slot_in s i)) AND my = 0" using assms(5) by (auto simp: bit_eq_iff bit_simps)
    then show False using fg(5) [OF g(1)] by simp
  qed
  then show ?thesis using i fg(1-3) assms(2,3) unfolding quiet_def
    by (intro conjI exI [of _ f] exI [of _ "race_forces t"]) auto
qed

lemma race_invD:
  assumes "race_inv cc my len s"
  shows "length (ring_slots (race_ring s)) = 256" "ring_epoch (race_ring s) = epoch_no (race_forces s)"
    "\<And>i. i < 256 \<Longrightarrow> length (slot_data (slot_in s i)) = len"
    "\<And>i. i < 256 \<Longrightarrow> \<exists>g \<le> race_forces s. rc_epoch (slot_rc (slot_in s i)) = epoch_no g"
    "\<And>i. i < 256 \<Longrightarrow> \<not> writing s i \<Longrightarrow> slot_data (slot_in s i) \<in> race_sent s"
    "\<And>x i. race_writer s = WCopy x i \<Longrightarrow> x \<in> race_sent s \<and> length x = len \<and> i \<le> len \<and>
        take i (slot_data (slot_in s (write_slot s))) = take i x"
    "reader_fine my len s" "\<And>buf. (buf, True) \<in> set (race_got s) \<Longrightarrow> buf \<in> race_sent s"
  using assms by (auto simp: race_inv_def)

text \<open>The writer marks its slot, in the current epoch or in a new one.\<close>

lemma mark_inv:
  assumes inv: "race_inv cc my len s" and idle: "race_writer s = WIdle" and x: "length x = len" and my: "my AND cc = my"
    and f: "race_forces s \<le> f" "e = epoch_no f"
    and free: "race_forces s < f \<or> cc AND rc_readers (slot_rc (slot_in s (write_slot s))) = 0 \<or>
      rc_epoch (slot_rc (slot_in s (write_slot s))) \<noteq> epoch_no (race_forces s)"
    and t: "t = set_slot (s\<lparr>race_ring := (race_ring s)\<lparr>ring_epoch := e\<rparr>, race_forces := f\<rparr>) (write_slot s)
      ((slot_in s (write_slot s))\<lparr>slot_rc := e OR ucast cc\<rparr>)\<lparr>race_writer := WCopy x 0, race_sent := insert x (race_sent s)\<rparr>"
  shows "race_inv cc my len t"
proof -
  note I = race_invD [OF inv]
  have w: "write_slot t = write_slot s" by (simp add: t write_slot_def)
  have fields: "race_forces t = f" "race_reader t = race_reader s" "race_got t = race_got s" "race_sent t = insert x (race_sent s)"
      "race_writer t = WCopy x 0" by (simp_all add: t)
  have sl: "slot_in t i = (if i = write_slot s then (slot_in s i)\<lparr>slot_rc := e OR ucast cc\<rparr> else slot_in s i)" for i
    using I(1) by (simp add: t slot_in_def set_slot_def nth_list_update)
  have wr: "writing t i \<longleftrightarrow> i = write_slot s" "\<not> writing s i" for i using w idle by (auto simp: writing_def fields)
  have ep: "rc_epoch (e OR ucast cc) = epoch_no f" using f(2) rc_made(2) [of "epoch_no f" cc] by simp
  have q: "quiet my t i rc0 buf" if "quiet my s i rc0 buf" for i rc0 buf
  proof (cases "i = write_slot s")
    case True
    then show ?thesis using that quiet_marked [OF that, of t cc] free my ep sl [of i] f(1) fields(1) by auto
  next
    case False
    then show ?thesis using quiet_mono [OF that, of t] sl [of i] wr f(1) fields(1) by simp
  qed
  have rd: "reader_fine my len t" using I(7) q by (auto simp: reader_fine_def fields split: reader.splits)
  have each: "length (slot_data (slot_in t i)) = len" "\<exists>g \<le> f. rc_epoch (slot_rc (slot_in t i)) = epoch_no g"
      "\<not> writing t i \<longrightarrow> slot_data (slot_in t i) \<in> race_sent t" if "i < 256" for i
    using I(3) [OF that] I(4) [OF that] I(5) [OF that] sl [of i] ep f(1) wr fields(4) by (auto intro: le_trans)
  have "length (ring_slots (race_ring t)) = 256" "ring_epoch (race_ring t) = epoch_no f" using I(1) f(2) by (simp_all add: t)
  then show ?thesis using each rd I(8) x unfolding race_inv_def fields by (auto simp: fields)
qed

text \<open>Steps that leave the slots as they are, up to the readers of other slots or other readers.\<close>

lemma keep_inv:
  assumes inv: "race_inv cc my len s"
    and sl: "\<And>i. slot_data (slot_in t i) = slot_data (slot_in s i)" "\<And>i. rc_epoch (slot_rc (slot_in t i)) = rc_epoch (slot_rc (slot_in s i))"
    and same: "length (ring_slots (race_ring t)) = length (ring_slots (race_ring s))" "ring_epoch (race_ring t) = ring_epoch (race_ring s)"
      "ring_wt (race_ring t) = ring_wt (race_ring s)"
      "race_writer t = race_writer s" "race_sent t = race_sent s" "race_forces t = race_forces s"
    and rd: "reader_fine my len t" and got: "\<And>buf. (buf, True) \<in> set (race_got t) \<Longrightarrow> buf \<in> race_sent s"
  shows "race_inv cc my len t"
proof -
  have "write_slot t = write_slot s" "writing t = writing s" using same by (auto simp: writing_def write_slot_def)
  then show ?thesis using race_invD [OF inv] sl same rd got unfolding race_inv_def by simp
qed

lemma word_inv:
  assumes inv: "race_inv cc my len s" and w: "race_writer s = WCopy x i" and i: "i < len"
    and t: "t = set_slot s (write_slot s) ((slot_in s (write_slot s))\<lparr>slot_data := (slot_data (slot_in s (write_slot s)))[i := x ! i]\<rparr>)
      \<lparr>race_writer := WCopy x (i + 1)\<rparr>"
  shows "race_inv cc my len t"
proof -
  note I = race_invD [OF inv]
  have ws: "write_slot t = write_slot s" by (simp add: t write_slot_def)
  have wr: "writing t j \<longleftrightarrow> j = write_slot s" "writing s j \<longleftrightarrow> j = write_slot s" for j
    using w ws by (auto simp: writing_def t)
  have sl: "slot_in t j = (if j = write_slot s then (slot_in s j)\<lparr>slot_data := (slot_data (slot_in s j))[i := x ! i]\<rparr> else slot_in s j)" for j
    using I(1) by (simp add: t)
  have q: "quiet my t j rc0 buf" if h: "quiet my s j rc0 buf" for j rc0 buf
  proof (cases "j = write_slot s")
    case True
    then show ?thesis using h wr sl [of j] unfolding quiet_def by (auto simp: t)
  next
    case False
    then show ?thesis using quiet_mono [OF h, of t] sl [of j] wr by (simp add: t)
  qed
  have rd: "reader_fine my len t" using I(7) q by (auto simp: reader_fine_def t split: reader.splits)
  have "length (slot_data (slot_in s (write_slot s))) = len" using I(3) by simp
  then have "take (i + 1) ((slot_data (slot_in s (write_slot s)))[i := x ! i]) = take (i + 1) x"
    using I(6) [OF w] i by (simp add: take_Suc_conv_app_nth)
  then have wx: "take (i + 1) (slot_data (slot_in t (write_slot t))) = take (i + 1) x" using sl ws by simp
  have each: "length (slot_data (slot_in t j)) = len" "\<exists>g \<le> race_forces t. rc_epoch (slot_rc (slot_in t j)) = epoch_no g"
      "\<not> writing t j \<longrightarrow> slot_data (slot_in t j) \<in> race_sent t" if "j < 256" for j
    using I(3) [OF that] I(4) [OF that] I(5) [OF that] sl [of j] wr by (auto simp: t)
  show ?thesis using each rd wx I(1,2,8) I(6) [OF w] i unfolding race_inv_def by (auto simp: t)
qed

lemma publish_inv:
  assumes inv: "race_inv cc my len s" and w: "race_writer s = WCopy x len"
    and t: "t = s\<lparr>race_ring := (race_ring s)\<lparr>ring_wt := ring_wt (race_ring s) + 1\<rparr>, race_writer := WIdle\<rparr>"
  shows "race_inv cc my len t"
proof -
  note I = race_invD [OF inv]
  have sl: "slot_in t = slot_in s" by (simp add: t slot_in_def fun_eq_iff)
  have wr: "\<not> writing t j" "writing s j \<longleftrightarrow> j = write_slot s" for j using w by (auto simp: writing_def t)
  have "slot_data (slot_in s (write_slot s)) = x" using I(6) [OF w] I(3) [of "write_slot s"] by simp
  then have sent: "slot_data (slot_in s j) \<in> race_sent s" if "j < 256" for j
    using I(5) [OF that] I(6) [OF w] wr(2) [of j] by auto
  have q: "quiet my t j rc0 buf" if h: "quiet my s j rc0 buf" for j rc0 buf
    using quiet_mono [OF h, of t] sl wr(1) [of j] by (simp add: t)
  have rd: "reader_fine my len t" using I(7) q by (auto simp: reader_fine_def t split: reader.splits)
  show ?thesis using rd sent I(1-4,8) unfolding race_inv_def sl by (simp add: t)
qed

lemma quiet_cong:
  "slot_in t i = slot_in s i \<Longrightarrow> writing t i = writing s i \<Longrightarrow> race_forces t = race_forces s \<Longrightarrow>
     quiet my t i rc0 buf = quiet my s i rc0 buf"
  by (simp add: quiet_def)

lemma load_fine:
  assumes inv: "race_inv cc my len s" and i: "i < 256" and m: "slot_rc (slot_in s i) AND ucast my \<noteq> 0" and w: "\<not> writing s i"
  shows "quiet my s i (slot_rc (slot_in s i)) []"
  using race_invD(4) [OF inv i] i m w by (auto simp: quiet_def rc_mine_iff)

lemma quiet_word:
  assumes inv: "race_inv cc my len s" and q: "quiet my s i rc0 buf" and l: "length buf < len"
  shows "quiet my s i rc0 (buf @ [slot_data (slot_in s i) ! length buf])"
proof -
  have "i < 256" using q by (simp add: quiet_def)
  then have "length (slot_data (slot_in s i)) = len" using race_invD(3) [OF inv] by blast
  then have "buf = take (length buf) (slot_data (slot_in s i)) \<Longrightarrow>
      buf @ [slot_data (slot_in s i) ! length buf] = take (length buf + 1) (slot_data (slot_in s i))"
    using l by (metis Suc_eq_plus1 take_Suc_conv_app_nth)
  then show ?thesis using q unfolding quiet_def by auto
qed

text \<open>A copy whose slot is still of the epoch it began in is the whole message.\<close>

lemma quiet_whole:
  assumes inv: "race_inv cc my len s" and q: "quiet my s i rc0 buf" and l: "length buf = len"
    and e: "rc_epoch (slot_rc (slot_in s i)) = rc_epoch rc0" and f: "race_forces s < 2 ^ 32"
  shows "buf \<in> race_sent s"
proof -
  obtain g h where i: "i < 256" and gh: "g \<le> h" "h \<le> race_forces s" "rc_epoch rc0 = epoch_no g"
      "rc_epoch (slot_rc (slot_in s i)) = epoch_no h"
      "h = g \<Longrightarrow> \<not> writing s i \<and> buf = take (length buf) (slot_data (slot_in s i))"
    using q by (auto simp: quiet_def)
  have "h = g" using gh e f by (intro epoch_no_inj) auto
  then have "buf = slot_data (slot_in s i)" "\<not> writing s i" using gh(5) l race_invD(3) [OF inv i] by auto
  then show ?thesis using race_invD(5) [OF inv i] by simp
qed

lemma release_inv:
  assumes inv: "race_inv cc my len s" and i: "i < 256" and t: "t = set_slot s i ((slot_in s i)\<lparr>slot_rc := slot_rc (slot_in s i) AND NOT (ucast (m :: u32))\<rparr>)"
    and rd: "reader_fine my len (t\<lparr>race_reader := r\<rparr>)" and got: "\<And>buf. (buf, True) \<in> set g \<Longrightarrow> buf \<in> race_sent s"
  shows "race_inv cc my len (t\<lparr>race_reader := r, race_got := g\<rparr>)"
proof (rule keep_inv [OF inv])
  show "reader_fine my len (t\<lparr>race_reader := r, race_got := g\<rparr>)"
    using rd by (auto simp: reader_fine_def quiet_def writing_def write_slot_def split: reader.splits)
qed (use race_invD(1) [OF inv] got in \<open>auto simp: t\<close>)

lemma race_step_inv:
  assumes st: "race_step cc my len s t" and inv: "race_inv cc my len s" and my: "my AND cc = my" and f: "race_forces t < 2 ^ 32"
  shows "race_inv cc my len t"
  using st
proof cases
  case (w_push x el e)
  have id: "s\<lparr>race_ring := (race_ring s)\<lparr>ring_epoch := e\<rparr>, race_forces := race_forces s\<rparr> = s" using w_push(5) by simp
  have e: "e = epoch_no (race_forces s)" using w_push(5) race_invD(2) [OF inv] by simp
  have free: "race_forces s < race_forces s \<or> cc AND rc_readers (slot_rc (slot_in s (write_slot s))) = 0 \<or>
      rc_epoch (slot_rc (slot_in s (write_slot s))) \<noteq> epoch_no (race_forces s)"
    using w_push(4,6) e by auto
  show ?thesis by (rule mark_inv [OF inv w_push(2,3) my order_refl e free]) (use w_push(1,4) in \<open>simp add: id\<close>)
next
  case (w_force x el e)
  then show ?thesis using mark_inv [OF inv w_force(2,3) my, of "race_forces s + 1" e t] race_invD(2) [OF inv] epoch_no_next by simp
next
  case (w_word x i el)
  then show ?thesis using word_inv [OF inv] by blast
next
  case (w_publish x)
  then show ?thesis using publish_inv [OF inv] by blast
next
  case r_enter
  then show ?thesis by (auto intro!: keep_inv [OF inv] simp: reader_fine_def race_invD(8) [OF inv])
next
  case r_test
  then show ?thesis by (auto intro!: keep_inv [OF inv] simp: reader_fine_def race_invD(8) [OF inv])
next
  case (r_load i rc0)
  have i: "i < 256" using r_load(3) index_of_less by simp
  have "quiet my t i rc0 [] = quiet my s i rc0 []" using r_load(1) by (intro quiet_cong) (auto simp: writing_def write_slot_def slot_in_def)
  then have "reader_fine my len t" using r_load(1,4) i load_fine [OF inv i] by (auto simp: reader_fine_def)
  then show ?thesis using r_load(1) by (intro keep_inv [OF inv]) (auto simp: race_invD(8) [OF inv] slot_in_def)
next
  case (r_word i rc0 buf ok)
  have "reader_fine my len s" by (rule race_invD(7) [OF inv])
  then have h: "i < 256" "ok \<Longrightarrow> quiet my s i rc0 buf" using r_word(2) by (auto simp: reader_fine_def)
  have "quiet my t i rc0 b = quiet my s i rc0 b" for b using r_word(1) by (intro quiet_cong) (auto simp: writing_def write_slot_def)
  then have "reader_fine my len t" using r_word h quiet_word [OF inv] by (auto simp: reader_fine_def)
  then show ?thesis using r_word(1) by (intro keep_inv [OF inv]) (auto simp: race_invD(8) [OF inv])
next
  case (r_check i rc0 buf ok)
  have "reader_fine my len s" by (rule race_invD(7) [OF inv])
  then have h: "i < 256" "ok \<Longrightarrow> quiet my s i rc0 buf" using r_check(2) by (auto simp: reader_fine_def)
  have "quiet my t i rc0 b = quiet my s i rc0 b" for b using r_check(1) by (intro quiet_cong) (auto simp: writing_def write_slot_def)
  then have "reader_fine my len t" using r_check h by (auto simp: reader_fine_def)
  then show ?thesis using r_check(1) by (intro keep_inv [OF inv]) (auto simp: race_invD(8) [OF inv])
next
  case (r_lost i rc0 buf ok)
  then show ?thesis by (intro keep_inv [OF inv]) (auto simp: reader_fine_def race_invD(8) [OF inv])
next
  case (r_clear i rc0 buf ok el)
  have "reader_fine my len s" by (rule race_invD(7) [OF inv])
  then have h: "i < 256" "length buf = len" "ok \<Longrightarrow> quiet my s i rc0 buf" using r_clear(2) by (auto simp: reader_fine_def)
  have "race_forces s < 2 ^ 32" using f r_clear(1) by simp
  then have "ok \<Longrightarrow> buf \<in> race_sent s" using quiet_whole [OF inv h(3,2)] r_clear(3,4) by simp
  then have got: "\<And>b. (b, True) \<in> set ((buf, ok) # race_got s) \<Longrightarrow> b \<in> race_sent s" using race_invD(8) [OF inv] by auto
  show ?thesis unfolding r_clear(1,3) by (rule release_inv [OF inv h(1) refl _ got]) (simp_all add: reader_fine_def)
next
  case (o_clear other el i)
  let ?t = "set_slot s i ((slot_in s i)\<lparr>slot_rc := slot_rc (slot_in s i) AND NOT (ucast other)\<rparr>)"
  have q: "quiet my ?t j rc0 buf" if "quiet my s j rc0 buf" for j rc0 buf
  proof (rule quiet_mono [OF that])
    have "(w AND NOT other) AND my = w AND my" for w using o_clear(2) by (auto simp: bit_eq_iff bit_simps)
    then show "rc_readers (slot_rc (slot_in ?t j)) AND my = rc_readers (slot_rc (slot_in s j)) AND my" by simp
  qed (auto simp: writing_def write_slot_def)
  have same: "?t\<lparr>race_reader := race_reader s\<rparr> = ?t" by (simp add: set_slot_def)
  have "reader_fine my len (?t\<lparr>race_reader := race_reader s\<rparr>)"
    unfolding same using race_invD(7) [OF inv] q by (auto simp: reader_fine_def split: reader.splits)
  then have "race_inv cc my len (?t\<lparr>race_reader := race_reader s, race_got := race_got s\<rparr>)"
    using release_inv [OF inv o_clear(4) refl] race_invD(8) [OF inv] by blast
  then show ?thesis using o_clear(1,3) by (simp add: set_slot_def)
qed

lemma forces_mono: "race_step cc my len s t \<Longrightarrow> race_forces s \<le> race_forces t"
  by (induction rule: race_step.induct) auto

lemma race_start_inv: "race_start d at len s \<Longrightarrow> race_inv cc my len s"
  by (auto simp: race_start_def race_inv_def reader_fine_def new_ring_def slot_in_def epoch_no_def rc_epoch_def)

interpretation rr: step_invariant "race_start d at len" "race_step cc my len"
    "\<lambda>s. my AND cc = my \<longrightarrow> race_forces s < 2 ^ 32 \<longrightarrow> race_inv cc my len s" for d at len cc my
proof unfold_locales
  show "my AND cc = my \<longrightarrow> race_forces s < 2 ^ 32 \<longrightarrow> race_inv cc my len s" if "race_start d at len s" for s
    using race_start_inv [OF that] by blast
  show "my AND cc = my \<longrightarrow> race_forces t < 2 ^ 32 \<longrightarrow> race_inv cc my len t"
    if "my AND cc = my \<longrightarrow> race_forces s < 2 ^ 32 \<longrightarrow> race_inv cc my len s" "race_step cc my len s t" for s t
    using race_step_inv [OF that(2)] that(1) forces_mono [OF that(2)] by (meson le_less_trans)
qed

section \<open>What the reader gets\<close>

text \<open>
  C6. A message that the reader began to copy while the writer was not in its slot is handed out only
  if it is whole: overwriting it is always noticed, unless \<open>2 ^ 32\<close> pushes are forced meanwhile.
\<close>

theorem copy_intact:
  assumes "reach (race_start d at len) (race_step cc my len) s" and "my AND cc = my" and "race_forces s < 2 ^ 32"
    and "(buf, True) \<in> set (race_got s)"
  shows "buf \<in> race_sent s"
  using rr.reach_inv [OF assms(1)] assms(2-4) race_invD(8) by blast

section \<open>Two executions\<close>

text \<open>Messages of two words, one reader with the bit 1.\<close>

definition race0 :: "nat race" where
  "race0 = \<lparr>race_ring = new_ring [0, 0] 0, race_writer = WIdle, race_reader = RIdle, race_cur = 0, race_got = [],
     race_sent = {[0, 0]}, race_forces = 0\<rparr>"

abbreviation reached :: "nat race \<Rightarrow> bool" where
  "reached \<equiv> reach (race_start 0 0 2) (race_step 1 1 2)"

lemma reached0: "reached race0"
  by (rule reach_init) (simp add: race_start_def race0_def numeral_2_eq_2)

lemma reached_push:
  assumes r: "reached s" and w: "race_writer s = WIdle" and l: "length (ring_slots (race_ring s)) = 256"
    and d: "length (slot_data (slot_in s (write_slot s))) = 2" "rc_readers (slot_rc (slot_in s (write_slot s))) = 0"
  shows "reached (s\<lparr>race_ring := put_slot [a, b] (ring_epoch (race_ring s) OR 1) (race_ring s), race_sent := insert [a, b] (race_sent s)\<rparr>)"
proof -
  let ?i = "write_slot s" and ?rc = "ring_epoch (race_ring s) OR 1"
  obtain u v where "slot_data (slot_in s ?i) = [u, v]" using d(1) by (cases "slot_data (slot_in s ?i)") (auto simp: length_Suc_conv numeral_2_eq_2)
  then obtain rc0 where uv: "slot_in s ?i = \<lparr>slot_data = [u, v], slot_rc = rc0\<rparr>" by (cases "slot_in s ?i") auto
  define s1 where "s1 = set_slot s ?i ((slot_in s ?i)\<lparr>slot_rc := ?rc\<rparr>)\<lparr>race_writer := WCopy [a, b] 0, race_sent := insert [a, b] (race_sent s)\<rparr>"
  define s2 where "s2 = set_slot s1 ?i ((slot_in s1 ?i)\<lparr>slot_data := (slot_data (slot_in s1 ?i))[0 := a]\<rparr>)\<lparr>race_writer := WCopy [a, b] 1\<rparr>"
  define s3 where "s3 = set_slot s2 ?i ((slot_in s2 ?i)\<lparr>slot_data := (slot_data (slot_in s2 ?i))[1 := b]\<rparr>)\<lparr>race_writer := WCopy [a, b] 2\<rparr>"
  define s4 where "s4 = s3\<lparr>race_ring := (race_ring s3)\<lparr>ring_wt := ring_wt (race_ring s3) + 1\<rparr>, race_writer := WIdle\<rparr>"
  have i: "write_slot s1 = ?i" "write_slot s2 = ?i" by (simp_all add: s1_def s2_def write_slot_def)
  have w1: "race_writer s1 = WCopy [a, b] 0" and w2: "race_writer s2 = WCopy [a, b] 1" and w3: "race_writer s3 = WCopy [a, b] 2"
    by (simp_all add: s1_def s2_def s3_def)
  have 1: "race_step 1 1 2 s s1" unfolding s1_def using w_push [OF w, of "[a, b]" 2 _ _ 1 1] d(2) by simp
  have 2: "race_step 1 1 2 s1 s2" unfolding s2_def using w_word [OF w1, of 2 "slot_in s1 ?i" 1 1] by (simp add: i)
  have 3: "race_step 1 1 2 s2 s3" unfolding s3_def using w_word [OF w2, of 2 "slot_in s2 ?i" 1 1] by (simp add: i numeral_2_eq_2)
  have 4: "race_step 1 1 2 s3 s4" unfolding s4_def by (rule w_publish [OF w3])
  have "s4 = s\<lparr>race_ring := put_slot [a, b] ?rc (race_ring s), race_sent := insert [a, b] (race_sent s)\<rparr>"
    using l uv w index_of_less
    by (cases s) (simp add: s1_def s2_def s3_def s4_def set_slot_def put_slot_def slot_in_def write_slot_def)
  then show ?thesis using reach_step [OF reach_step [OF reach_step [OF reach_step [OF r 1] 2] 3] 4] by simp
qed

text \<open>The ring after \<open>n\<close> messages of zeros, none of them read.\<close>

definition filled :: "nat \<Rightarrow> nat race" where
  "filled n = race0\<lparr>race_ring := \<lparr>ring_wt = of_nat n, ring_epoch = 0,
     ring_slots = replicate n \<lparr>slot_data = [0, 0], slot_rc = 1\<rparr> @ replicate (256 - n) \<lparr>slot_data = [0, 0], slot_rc = 0\<rparr>\<rparr>\<rparr>"

lemma reached_filled: "n \<le> 256 \<Longrightarrow> reached (filled n)"
proof (induction n)
  case 0
  have "filled 0 = race0" by (simp add: filled_def race0_def new_ring_def)
  then show ?case using reached0 by simp
next
  case (Suc n)
  have n: "n < 256" using Suc.prems by simp
  then have i: "write_slot (filled n) = n" using index_of_pos [of 0 n] by (simp add: write_slot_def filled_def)
  have sl: "slot_in (filled n) n = \<lparr>slot_data = [0, 0], slot_rc = 0\<rparr>" using n by (simp add: slot_in_def filled_def nth_append)
  have len: "length (ring_slots (race_ring (filled n))) = 256" using n by (simp add: filled_def)
  have "replicate (256 - n) y = y # replicate (256 - Suc n) y" for y :: "nat list slot"
    using n by (metis Suc_diff_Suc replicate_Suc)
  then have upd: "(replicate n x @ replicate (256 - n) y)[n := x] = replicate (Suc n) x @ replicate (256 - Suc n) y" for x y :: "nat list slot"
    by (simp add: list_update_append replicate_append_same)
  have "race_writer (filled n) = WIdle" by (simp add: filled_def race0_def)
  from reached_push [OF Suc.IH this len, of 0 0] sl i n
  have "reached ((filled n)\<lparr>race_ring := put_slot [0, 0] (ring_epoch (race_ring (filled n)) OR 1) (race_ring (filled n)),
      race_sent := insert [0, 0] (race_sent (filled n))\<rparr>)"
    by (simp add: rc_readers_def)
  moreover have "(filled n)\<lparr>race_ring := put_slot [0, 0] (ring_epoch (race_ring (filled n)) OR 1) (race_ring (filled n)),
      race_sent := insert [0, 0] (race_sent (filled n))\<rparr> = filled (Suc n)"
    using i upd [of "\<lparr>slot_data = [0, 0], slot_rc = 1\<rparr>"] by (simp add: put_slot_def filled_def race0_def write_slot_def)
  ultimately show ?case by simp
qed

text \<open>A reader runs through while the writer stands still, wherever it is.\<close>

lemma reached_read:
  assumes r: "reached s" and rd: "race_reader s = RIdle" and cur: "resync (ring_wt (race_ring s)) (race_cur s) = race_cur s"
    and ne: "race_cur s \<noteq> ring_wt (race_ring s)" and i: "i = index_of (race_cur s)"
    and sl: "slot_in s i = \<lparr>slot_data = [a, b], slot_rc = rc\<rparr>" and rc: "rc AND 1 \<noteq> 0"
  shows "\<exists>t. reached t \<and> race_got t = ([a, b], \<not> writing s i) # race_got s \<and> race_sent t = race_sent s \<and> race_forces t = race_forces s"
proof -
  let ?ok = "\<not> writing s i"
  define st where "st = (\<lambda>r c. s\<lparr>race_reader := r, race_cur := c\<rparr>)"
  have st: "race_reader (st r c) = r" "race_cur (st r c) = c" "race_ring (st r c) = race_ring s" "slot_in (st r c) = slot_in s"
      "writing (st r c) i = writing s i" for r c
    by (auto simp: st_def writing_def write_slot_def)
  have up: "(st r c)\<lparr>race_reader := r'\<rparr> = st r' c" "(st r c)\<lparr>race_cur := c', race_reader := r'\<rparr> = st r' c'" for r c r' c'
    by (simp_all add: st_def)
  let ?c = "race_cur s"
  have s0: "s = st RIdle ?c" using rd by (simp add: st_def)
  have 1: "race_step 1 1 2 (st RIdle ?c) (st RTest ?c)" using r_enter [of "st RIdle ?c" 1 1 2] cur st up by simp
  have 2: "race_step 1 1 2 (st RTest ?c) (st RLoad ?c)" using r_test [of "st RTest ?c" 1 1 2] ne st up by simp
  have 3: "race_step 1 1 2 (st RLoad ?c) (st (RCopy i rc [] ?ok) (?c + 1))"
    using r_load [of "st RLoad ?c" i rc 1 1 2] i rc sl st up by simp
  have 4: "race_step 1 1 2 (st (RCopy i rc [] ?ok) c) (st (RCopy i rc [a] ?ok) c)" for c
    using r_word [of "st (RCopy i rc [] ?ok) c" i rc "[]" ?ok 2 1 1] sl st up by simp
  have 5: "race_step 1 1 2 (st (RCopy i rc [a] ?ok) c) (st (RCopy i rc [a, b] ?ok) c)" for c
    using r_word [of "st (RCopy i rc [a] ?ok) c" i rc "[a]" ?ok 2 1 1] sl st up by simp
  have 6: "race_step 1 1 2 (st (RCopy i rc [a, b] ?ok) c) (st (RClear i rc [a, b] ?ok) c)" for c
    using r_check [of "st (RCopy i rc [a, b] ?ok) c" i rc "[a, b]" ?ok 2 1 1] sl st up by simp
  let ?u = "st (RClear i rc [a, b] ?ok) (?c + 1)"
  let ?t = "set_slot ?u i ((slot_in ?u i)\<lparr>slot_rc := slot_rc (slot_in ?u i) AND NOT (ucast (1 :: u32))\<rparr>)
    \<lparr>race_reader := RIdle, race_got := ([a, b], ?ok) # race_got ?u\<rparr>"
  have 7: "race_step 1 1 2 ?u ?t" by (rule r_clear [of ?u i rc "[a, b]" ?ok]) (use sl st in simp_all)
  have "reached (st RIdle ?c)" using r s0 by simp
  then have "reached (st RTest ?c)" using 1 by (rule reach_step)
  then have "reached (st RLoad ?c)" using 2 by (rule reach_step)
  then have "reached (st (RCopy i rc [] ?ok) (?c + 1))" using 3 by (rule reach_step)
  then have "reached (st (RCopy i rc [a] ?ok) (?c + 1))" using 4 by (rule reach_step)
  then have "reached (st (RCopy i rc [a, b] ?ok) (?c + 1))" using 5 by (rule reach_step)
  then have "reached ?u" using 6 by (rule reach_step)
  then have "reached ?t" using 7 by (rule reach_step)
  moreover have "race_got ?t = ([a, b], ?ok) # race_got s" "race_sent ?t = race_sent s" "race_forces ?t = race_forces s"
    by (simp_all add: st_def)
  ultimately show ?thesis by blast
qed

theorem copy_intact_witness:
  "\<exists>s. reach (race_start (0 :: nat) 0 2) (race_step 1 1 2) s \<and> ([0, 0], True) \<in> set (race_got s) \<and> [0, 0] \<in> race_sent s"
proof -
  have f: "race_writer (filled 1) = WIdle" "race_reader (filled 1) = RIdle" "race_cur (filled 1) = 0" "ring_wt (race_ring (filled 1)) = 1"
      "slot_in (filled 1) 0 = \<lparr>slot_data = [0, 0], slot_rc = 1\<rparr>" "race_forces (filled 1) = 0"
    by (simp_all add: filled_def race0_def slot_in_def)
  have "reached (filled 1)" by (rule reached_filled) simp
  from reached_read [OF this, of 0 0 0 1] f
  obtain t where t: "reached t" "([0, 0], True) \<in> set (race_got t)" "race_forces t = 0"
    by (auto simp: resync_def kRingSlots_def index_of_def writing_def)
  then show ?thesis using copy_intact [OF t(1) _ _ t(2)] by auto
qed

text \<open>
  A reader that is a whole ring behind reads the slot the writer is in: the writer has marked the
  slot with a new epoch and written one of two words when the reader copies it. The counter does not
  change any more, and the reader hands out a message that nobody sent.
\<close>

theorem torn_read:
  "\<exists>s. reach (race_start (0 :: nat) 0 2) (race_step 1 1 2) s \<and> ([1, 0], False) \<in> set (race_got s) \<and> race_sent s = {[0, 0], [1, 1]}"
proof -
  let ?z = "\<lparr>slot_data = [0, 0], slot_rc = 1\<rparr> :: nat list slot"
  let ?rc = "ep_incr OR ucast (1 :: u32)"
  have f: "race_writer (filled 256) = WIdle" "write_slot (filled 256) = 0" "ring_epoch (race_ring (filled 256)) = 0"
      "slot_in (filled 256) 0 = ?z" "length (ring_slots (race_ring (filled 256))) = 256"
    by (simp_all add: filled_def race0_def write_slot_def index_of_def slot_in_def)
  define s1 where "s1 = set_slot ((filled 256)\<lparr>race_ring := (race_ring (filled 256))\<lparr>ring_epoch := ep_incr\<rparr>, race_forces := race_forces (filled 256) + 1\<rparr>) 0
      (?z\<lparr>slot_rc := ?rc\<rparr>)\<lparr>race_writer := WCopy [1, 1] 0, race_sent := insert [1, 1] (race_sent (filled 256))\<rparr>"
  define s2 where "s2 = set_slot s1 0 \<lparr>slot_data = [1, 0], slot_rc = ?rc\<rparr>\<lparr>race_writer := WCopy [1, 1] 1\<rparr>"
  have w1: "race_writer s1 = WCopy [1, 1] 0" "slot_in s1 0 = \<lparr>slot_data = [0, 0], slot_rc = ?rc\<rparr>" "write_slot s1 = 0"
    using f by (simp_all add: s1_def write_slot_def slot_in_def set_slot_def)
  have 1: "race_step 1 1 2 (filled 256) s1" using w_force [OF f(1), of "[1, 1]" 2 ?z ep_incr 1 1] f by (simp add: s1_def)
  have 2: "race_step 1 1 2 s1 s2" using w_word [OF w1(1), of 2 "slot_in s1 0" 1 1] w1 by (simp add: s2_def)
  have "reached (filled 256)" by (rule reached_filled) simp
  from reach_step [OF reach_step [OF this 1] 2] have r: "reached s2" .
  have s2: "race_reader s2 = RIdle" "race_cur s2 = 0" "ring_wt (race_ring s2) = 256" "race_sent s2 = {[0, 0], [1, 1]}"
      "slot_in s2 0 = \<lparr>slot_data = [1, 0], slot_rc = ?rc\<rparr>" "writing s2 0"
    using f by (simp_all add: s2_def s1_def filled_def race0_def writing_def write_slot_def index_of_def insert_commute)
  then show ?thesis using reached_read [OF r s2(1), of 0 1 0 ?rc]
    by (auto simp: resync_def kRingSlots_def index_of_def ep_incr_def)
qed

end
