(* ===== verification/IdPool.thy ===== *)
theory IdPool
  imports AllocContract
begin

text \<open>
  The pool of identifiers behind the chunks of large messages
  (\<open>src/src/libipc/utility/id_pool.h\<close>): a free list threaded through a table of bytes in shared
  memory.
\<close>

section \<open>The pool\<close>

definition max_count :: nat where
  "max_count = min 32 255"

record id_pool =
  pool_next :: "byte list"
  pool_cursor :: byte
  pool_prepared :: bool

text \<open>Shared memory starts as zeros, so that a new pool looks like this.\<close>

definition zero_pool :: id_pool where
  "zero_pool = \<lparr>pool_next = replicate max_count 0, pool_cursor = 0, pool_prepared = False\<rparr>"

definition invalid :: "id_pool \<Rightarrow> bool" where
  "invalid p \<longleftrightarrow> p = zero_pool"

text \<open>The loop variable is read back from the byte just stored.\<close>

lemma unat_id [simp]: "i \<le> max_count \<Longrightarrow> unat (of_nat i :: byte) = i"
  by (simp add: unsigned_of_nat take_bit_nat_eq_self max_count_def)

function init_from :: "nat \<Rightarrow> byte list \<Rightarrow> byte list" where
  "init_from i nx =
     (if i < max_count then let v = of_nat (i + 1) in init_from (unat v) (nx[i := v]) else nx)"
  by pat_completeness auto
termination
  by (relation "measure (\<lambda>(i, nx). max_count - i)") (auto simp del: of_nat_Suc of_nat_add)

declare init_from.simps [simp del]

definition init_pool :: "id_pool \<Rightarrow> id_pool" where
  "init_pool p = p\<lparr>pool_next := init_from 0 (pool_next p)\<rparr>"

definition prepare :: "id_pool \<Rightarrow> id_pool" where
  "prepare p = (if \<not> pool_prepared p \<and> invalid p then init_pool p else p)\<lparr>pool_prepared := True\<rparr>"

definition pool_empty :: "id_pool \<Rightarrow> bool" where
  "pool_empty p \<longleftrightarrow> pool_cursor p = of_nat max_count"

text \<open>Identifiers are \<open>int32_t\<close>; an index outside the table is \<open>None\<close>.\<close>

definition acquire :: "id_pool \<Rightarrow> (int \<times> id_pool) option" where
  "acquire p =
     (if pool_empty p then Some (- 1, p)
      else let i = unat (pool_cursor p)
           in if i < length (pool_next p) then Some (int i, p\<lparr>pool_cursor := pool_next p ! i\<rparr>) else None)"

definition release :: "int \<Rightarrow> id_pool \<Rightarrow> (bool \<times> id_pool) option" where
  "release i p =
     (if i < 0 then Some (False, p)
      else if nat i < length (pool_next p)
           then Some (True, p\<lparr>pool_next := (pool_next p)[nat i := pool_cursor p], pool_cursor := of_int i\<rparr>)
           else None)"

section \<open>The free list\<close>

fun links :: "byte list \<Rightarrow> byte \<Rightarrow> nat list \<Rightarrow> bool" where
  "links nx c [] = (c = of_nat max_count)"
| "links nx c (i # ids) = (i < max_count \<and> c = of_nat i \<and> links nx (nx ! i) ids)"

definition free_list :: "id_pool \<Rightarrow> nat list \<Rightarrow> bool" where
  "free_list p ids \<longleftrightarrow> length (pool_next p) = max_count \<and> distinct ids \<and> links (pool_next p) (pool_cursor p) ids"

definition free_ids :: "id_pool \<Rightarrow> nat set \<Rightarrow> bool" where
  "free_ids p ids \<longleftrightarrow> (\<exists>xs. free_list p xs \<and> set xs = ids)"

lemma links_bound: "links nx c ids \<Longrightarrow> set ids \<subseteq> {..<max_count}"
  by (induction ids arbitrary: c) auto

lemma links_update: "links nx c ids \<Longrightarrow> i \<notin> set ids \<Longrightarrow> links (nx[i := v]) c ids"
  by (induction ids arbitrary: c) auto

lemma links_upt:
  "\<forall>j. i \<le> j \<longrightarrow> j < max_count \<longrightarrow> nx ! j = of_nat (j + 1) \<Longrightarrow> i \<le> max_count \<Longrightarrow>
     links nx (of_nat i) [i..<max_count]"
proof (induction "max_count - i" arbitrary: i)
  case 0
  then show ?case by simp
next
  case (Suc d)
  then have "i < max_count" by linarith
  then show ?case using Suc.prems Suc.hyps(1) [of "i + 1"] Suc.hyps(2) by (simp add: upt_conv_Cons)
qed

lemma init_from_nth:
  "length nx = max_count \<Longrightarrow> length (init_from i nx) = max_count \<and>
     (\<forall>j < max_count. init_from i nx ! j = (if i \<le> j then of_nat (j + 1) else nx ! j))"
proof (induction i nx rule: init_from.induct)
  case (1 i nx)
  show ?case
  proof (cases "i < max_count")
    case True
    then have "length (init_from (i + 1) (nx[i := of_nat (i + 1)])) = max_count \<and>
        (\<forall>j < max_count. init_from (i + 1) (nx[i := of_nat (i + 1)]) ! j =
           (if i + 1 \<le> j then of_nat (j + 1) else nx[i := of_nat (i + 1)] ! j))"
      using "1.IH" [OF True refl] "1.prems" by (simp del: of_nat_add of_nat_Suc)
    then show ?thesis using True "1.prems"
      by (subst (1 2) init_from.simps) (auto simp: Let_def nth_list_update not_le less_Suc_eq simp del: of_nat_add of_nat_Suc)
  next
    case False
    then show ?thesis using "1.prems" by (subst (1 2) init_from.simps) auto
  qed
qed

lemma prepare_zero_list: "free_list (prepare zero_pool) [0..<max_count]"
proof -
  have "length (pool_next zero_pool) = max_count" by (simp add: zero_pool_def)
  note n = init_from_nth [OF this, of 0]
  have p: "pool_next (prepare zero_pool) = init_from 0 (pool_next zero_pool)" "pool_cursor (prepare zero_pool) = 0"
    by (simp_all add: prepare_def invalid_def init_pool_def) (simp_all add: zero_pool_def)
  show ?thesis using n links_upt [of 0 "init_from 0 (pool_next zero_pool)"] by (simp add: free_list_def p del: of_nat_Suc of_nat_add)
qed

text \<open>Preparing again changes nothing, whatever the state of the pool.\<close>

lemma prepare_again: "pool_prepared p \<Longrightarrow> prepare p = p"
  by (simp add: prepare_def)

lemma prepared_kept:
  "pool_prepared (prepare p)" "acquire p = Some (i, p') \<Longrightarrow> pool_prepared p' = pool_prepared p"
  "release j p = Some (r, p') \<Longrightarrow> pool_prepared p' = pool_prepared p"
  by (auto simp: prepare_def acquire_def release_def Let_def split: if_splits)

section \<open>The pool keeps the contract\<close>

lemma acquire_free: "free_list p (i # ids) \<Longrightarrow> \<exists>p'. acquire p = Some (int i, p') \<and> free_list p' ids"
proof -
  assume h: "free_list p (i # ids)"
  then have i: "i < max_count" "pool_cursor p = of_nat i" by (auto simp: free_list_def)
  have "\<not> pool_empty p"
  proof
    assume "pool_empty p"
    then have "unat (of_nat i :: byte) = unat (of_nat max_count :: byte)" using i(2) by (simp add: pool_empty_def)
    then show False using i(1) by simp
  qed
  then show ?thesis using h i by (auto simp: acquire_def free_list_def)
qed

lemma acquire_none: "free_list p [] \<Longrightarrow> acquire p = Some (- 1, p)"
  by (simp add: acquire_def pool_empty_def free_list_def)

lemma release_free:
  assumes "free_list p ids" and "i < max_count" and "i \<notin> set ids"
  shows "\<exists>p'. release (int i) p = Some (True, p') \<and> free_list p' (i # ids)"
  using assms links_update [of "pool_next p" "pool_cursor p" ids i "pool_cursor p"] by (auto simp: release_def free_list_def)

interpretation ip: slot_allocator free_ids max_count acquire release
proof unfold_locales
  fix p :: id_pool and S :: "nat set"
  assume "free_ids p S"
  then obtain xs where xs: "free_list p xs" "set xs = S" by (auto simp: free_ids_def)
  then have d: "distinct xs" by (simp add: free_list_def)
  show "S \<subseteq> {..<max_count}" using xs links_bound unfolding free_list_def by blast
  show "\<exists>i \<in> S. \<exists>p'. acquire p = Some (int i, p') \<and> free_ids p' (S - {i})" if "S \<noteq> {}"
  proof (cases xs)
    case Nil
    then show ?thesis using that xs by simp
  next
    case (Cons i ys)
    then have "set ys = S - {i}" "i \<in> S" using xs(2) d by auto
    then show ?thesis using acquire_free [of p i ys] xs(1) Cons unfolding free_ids_def by blast
  qed
  show "\<exists>p'. release (int i) p = Some (True, p') \<and> free_ids p' (insert i S)" if "i < max_count" "i \<notin> S" for i
  proof -
    have "set (i # xs) = insert i S" using xs(2) by simp
    then show ?thesis using release_free [OF xs(1) that(1)] that(2) xs(2) unfolding free_ids_def by blast
  qed
next
  show "acquire p = Some (- 1, p)" if "free_ids p {}" for p
    using that acquire_none [of p] by (auto simp: free_ids_def)
qed

lemma prepare_zero: "free_ids (prepare zero_pool) {..<max_count}"
  unfolding free_ids_def using prepare_zero_list lessThan_atLeast0 by force

text \<open>
  From a new pool, a client that gives back only what it was given runs without an access outside
  the table: the identifiers it holds are distinct and below 32, the next one is one it does not
  hold, and there is none exactly when it holds all 32.
\<close>

theorem pool_hands_out_once:
  "\<exists>p held. foldM (client_step acquire release) (prepare zero_pool, []) xs = Some (p, held) \<and>
     distinct held \<and> set held \<subseteq> {..<32} \<and>
     (\<exists>i p'. acquire p = Some (i, p') \<and>
        (if length held < 32 then 0 \<le> i \<and> nat i < 32 \<and> nat i \<notin> set held else i = - 1))"
proof -
  have m: "max_count = 32" by (simp add: max_count_def)
  show ?thesis using ip.run_next [OF prepare_zero, of xs] unfolding m .
qed

text \<open>
  An identifier given back twice closes the free list on itself: from then on every acquire
  hands out that identifier, to all callers.
\<close>

theorem double_release_shares:
  assumes "length (pool_next p) = 32" and "i < 32"
  shows "\<exists>p1 p2. release (int i) p = Some (True, p1) \<and> release (int i) p1 = Some (True, p2) \<and>
    acquire p2 = Some (int i, p2)"
proof -
  have m: "max_count = 32" by (simp add: max_count_def)
  have "unat (of_nat i :: byte) = i" using assms(2) m by simp
  moreover have "of_nat i \<noteq> (of_nat max_count :: byte)"
    using \<open>unat (of_nat i :: byte) = i\<close> assms(2) m by (metis less_irrefl order_refl unat_id)
  ultimately show ?thesis using assms m by (auto simp: release_def acquire_def pool_empty_def)
qed

theorem double_release_shares_witness:
  "\<exists>p1 p2. release 3 (prepare zero_pool) = Some (True, p1) \<and> release 3 p1 = Some (True, p2) \<and> acquire p2 = Some (3, p2)"
  using double_release_shares [of "prepare zero_pool" 3] prepare_zero_list by (simp add: free_list_def max_count_def)

end
