(* ===== verification/ChunkStorage.thy ===== *)
theory ChunkStorage
  imports IdPool BroadcastRing
begin

text \<open>
  The storage of large messages (\<open>src/src/libipc/ipc.cpp\<close>): for every size class a segment with a
  pool of 32 identifiers and a chunk for each, with the readers that still have to release it.
\<close>

section \<open>Size classes\<close>

text \<open>Sizes are \<open>size_t\<close>; \<open>max_align_t\<close> is aligned to 16 bytes.\<close>

definition make_align :: "u64 \<Rightarrow> u64 \<Rightarrow> u64" where
  "make_align align sz = (sz + align - 1) AND NOT (align - 1)"

definition align_chunk_size :: "u64 \<Rightarrow> u64" where
  "align_chunk_size sz = ((sz - 1) div 1024 + 1) * 1024"

definition calc_chunk_size :: "u64 \<Rightarrow> u64" where
  "calc_chunk_size sz = make_align 16 (align_chunk_size (make_align 16 4 + sz))"

text \<open>The doubling loop is \<open>None\<close> where it does not end.\<close>

partial_function (option) grow_class :: "u64 \<Rightarrow> u64 \<Rightarrow> u64 option" where
  "grow_class sz c =
     (if c < sz then let nxt = push_bit 1 c in if nxt < c then Some sz else grow_class sz nxt else Some c)"

definition loan_size_class :: "u64 \<Rightarrow> u64 option" where
  "loan_size_class sz =
     (if sz \<le> 64 * 1024 then Some (((sz + 1024 - 1) div 1024) * 1024) else grow_class sz (128 * 1024))"

section \<open>Segments\<close>

record chunk =
  chunk_conns :: u32
  chunk_data :: bytes

record chunk_info =
  ci_pool :: id_pool
  ci_chunks :: "chunk list"

text \<open>The segment of every chunk size, \<open>None\<close> where it cannot be mapped.\<close>

type_synonym storages = "u64 \<Rightarrow> chunk_info option"

definition zero_info :: "u64 \<Rightarrow> chunk_info" where
  "zero_info cs = \<lparr>ci_pool = zero_pool, ci_chunks = replicate max_count \<lparr>chunk_conns = 0, chunk_data = replicate (unat cs - 16) 0\<rparr>\<rparr>"

text \<open>
  Operations on the chunk of an identifier are \<open>None\<close> when the identifier is outside the segment.
  Acquiring gives an identifier and whether there is a chunk.
\<close>

definition set_conns :: "int \<Rightarrow> u32 \<Rightarrow> chunk_info \<Rightarrow> chunk_info option" where
  "set_conns i c info =
     (if nat i < length (ci_chunks info)
      then Some (info\<lparr>ci_chunks := (ci_chunks info)[nat i := (ci_chunks info ! nat i)\<lparr>chunk_conns := c\<rparr>]\<rparr>) else None)"

definition get_conns :: "int \<Rightarrow> chunk_info \<Rightarrow> u32 option" where
  "get_conns i info = (if nat i < length (ci_chunks info) then Some (chunk_conns (ci_chunks info ! nat i)) else None)"

definition acquire_storage :: "u64 \<Rightarrow> u32 \<Rightarrow> storages \<Rightarrow> ((int \<times> bool) \<times> storages) option" where
  "acquire_storage sz conns st =
     (let cs = calc_chunk_size sz
      in case st cs of
           None \<Rightarrow> Some ((0, False), st)
         | Some info \<Rightarrow>
             do {
               (i, p) \<leftarrow> acquire (prepare (ci_pool info));
               if i < 0 then Some ((0, False), st(cs \<mapsto> info\<lparr>ci_pool := p\<rparr>))
               else do { info \<leftarrow> set_conns i conns (info\<lparr>ci_pool := p\<rparr>); Some ((i, True), st(cs \<mapsto> info)) }
             })"

definition release_in :: "int \<Rightarrow> u64 \<Rightarrow> chunk_info \<Rightarrow> storages \<Rightarrow> storages option" where
  "release_in i cs info st = do { (r, p) \<leftarrow> release i (ci_pool info); Some (st(cs \<mapsto> info\<lparr>ci_pool := p\<rparr>)) }"

definition release_storage :: "int \<Rightarrow> u64 \<Rightarrow> storages \<Rightarrow> storages option" where
  "release_storage i sz st =
     (if i < 0 then Some st
      else let cs = calc_chunk_size sz in case st cs of None \<Rightarrow> Some st | Some info \<Rightarrow> release_in i cs info st)"

definition sub_rc :: "policy \<Rightarrow> u32 \<Rightarrow> u32 \<Rightarrow> u32 \<Rightarrow> bool \<times> u32" where
  "sub_rc pol conns cur_conns conn_id =
     (if is_broadcast pol
      then let last_conns = cur_conns AND NOT conn_id; c = conns AND last_conns in (c = 0, c)
      else (True, conns))"

definition recycle_storage :: "policy \<Rightarrow> int \<Rightarrow> u64 \<Rightarrow> u32 \<Rightarrow> u32 \<Rightarrow> storages \<Rightarrow> storages option" where
  "recycle_storage pol i sz cur_conns conn_id st =
     (if i < 0 then Some st
      else let cs = calc_chunk_size sz
           in case st cs of
                None \<Rightarrow> Some st
              | Some info \<Rightarrow>
                  do {
                    c \<leftarrow> get_conns i info;
                    (case sub_rc pol c cur_conns conn_id of (done, c) \<Rightarrow>
                       do {
                         info \<leftarrow> set_conns i c info;
                         if done then release_in i cs info st else Some (st(cs \<mapsto> info))
                       })
                  })"

definition discard_storage :: "int \<Rightarrow> u64 \<Rightarrow> u32 \<Rightarrow> storages \<Rightarrow> storages option" where
  "discard_storage i sz rem_cc st =
     (if i < 0 \<or> rem_cc = 0 then Some st
      else let cs = calc_chunk_size sz
           in case st cs of
                None \<Rightarrow> Some st
              | Some info \<Rightarrow>
                  do {
                    c \<leftarrow> get_conns i info;
                    let nxt = c AND NOT rem_cc;
                    info \<leftarrow> set_conns i nxt info;
                    if nxt \<noteq> 0 then Some (st(cs \<mapsto> info)) else release_in i cs info st
                  })"

section \<open>The life of chunks\<close>

text \<open>
  A message in a chunk: the readers that have not taken it from the ring yet, those that hold it, and whether
  its slot still stands in the ring. A reader connects, the writer sends (with nobody connected it gets no
  chunk), a reader takes a message or drops what it holds, and the writer overwrites a slot: the readers that
  are left in it never get the message, and \<open>clear_message\<close> hands them to \<open>discard_storage\<close>, which is called
  with none when all of them have taken it. The messages sent are kept, in their order.
\<close>

record live =
  lv_size :: u64
  lv_id :: nat
  lv_pending :: u32
  lv_holding :: u32
  lv_slot :: bool

datatype life_op = Connect u32 | Send u64 | Receive nat u32 | Drop nat u32 | Overwrite nat

definition lv_conns :: "live \<Rightarrow> u32" where
  "lv_conns l = lv_pending l OR lv_holding l"

type_synonym life = "u32 \<times> storages \<times> live list"

fun life_step :: "life \<Rightarrow> life_op \<Rightarrow> life option" where
  "life_step (cc, st, ls) (Connect r) = Some (cc OR r, st, ls)"
| "life_step (cc, st, ls) (Send sz) =
     (if cc = 0 then Some (cc, st, ls)
      else do {
        ((i, ok), st) \<leftarrow> acquire_storage sz cc st;
        Some (cc, st, if ok then ls @ [\<lparr>lv_size = sz, lv_id = nat i, lv_pending = cc, lv_holding = 0, lv_slot = True\<rparr>] else ls)
      })"
| "life_step (cc, st, ls) (Receive k r) =
     (if k < length ls \<and> r \<noteq> 0 \<and> r AND lv_pending (ls ! k) = r
      then Some (cc, st, ls[k := (ls ! k)\<lparr>lv_pending := lv_pending (ls ! k) AND NOT r, lv_holding := lv_holding (ls ! k) OR r\<rparr>])
      else Some (cc, st, ls))"
| "life_step (cc, st, ls) (Drop k r) =
     (if k < length ls \<and> r \<noteq> 0 \<and> r AND lv_holding (ls ! k) = r
      then do {
        st \<leftarrow> recycle_storage Route (int (lv_id (ls ! k))) (lv_size (ls ! k)) cc r st;
        Some (cc, st, ls[k := (ls ! k)\<lparr>lv_holding := lv_holding (ls ! k) AND NOT r\<rparr>])
      }
      else Some (cc, st, ls))"
| "life_step (cc, st, ls) (Overwrite k) =
     (if k < length ls \<and> lv_slot (ls ! k)
      then do {
        st \<leftarrow> discard_storage (int (lv_id (ls ! k))) (lv_size (ls ! k)) (lv_pending (ls ! k)) st;
        Some (cc, st, ls[k := (ls ! k)\<lparr>lv_pending := 0, lv_slot := False\<rparr>])
      }
      else Some (cc, st, ls))"

text \<open>The chunks of one size whose message a reader still waits for or holds.\<close>

definition ids_in :: "u64 \<Rightarrow> live list \<Rightarrow> nat list" where
  "ids_in cs ls = map lv_id (filter (\<lambda>l. calc_chunk_size (lv_size l) = cs \<and> lv_conns l \<noteq> 0) ls)"

definition info_ok :: "chunk_info \<Rightarrow> nat list \<Rightarrow> bool" where
  "info_ok info ids \<longleftrightarrow>
     length (ci_chunks info) = max_count \<and> distinct ids \<and> set ids \<subseteq> {..<max_count} \<and>
     free_ids (prepare (ci_pool info)) ({..<max_count} - set ids) \<and> (ids \<noteq> [] \<longrightarrow> pool_prepared (ci_pool info))"

definition live_ok :: "u32 \<Rightarrow> storages \<Rightarrow> live \<Rightarrow> bool" where
  "live_ok cc st l \<longleftrightarrow>
     (lv_conns l \<noteq> 0 \<longrightarrow>
       (\<exists>info. st (calc_chunk_size (lv_size l)) = Some info \<and> get_conns (int (lv_id l)) info = Some (lv_conns l))) \<and>
     lv_pending l AND lv_holding l = 0 \<and> lv_conns l AND cc = lv_conns l"

definition life_inv :: "u32 \<Rightarrow> storages \<Rightarrow> live list \<Rightarrow> bool" where
  "life_inv cc st ls \<longleftrightarrow>
     (\<forall>cs info. st cs = Some info \<longrightarrow> info_ok info (ids_in cs ls)) \<and> (\<forall>l \<in> set ls. live_ok cc st l)"

lemma life_invD: "life_inv cc st ls \<Longrightarrow> st cs = Some info \<Longrightarrow> info_ok info (ids_in cs ls)"
  by (simp add: life_inv_def)

lemma set_conns_ok:
  assumes "info_ok info ids" and "i < max_count"
  shows "\<exists>info'. set_conns (int i) c info = Some info' \<and> ci_pool info' = ci_pool info \<and> info_ok info' ids \<and>
    (\<forall>j. get_conns (int j) info' = (if j = i then Some c else get_conns (int j) info))"
  using assms by (auto simp: set_conns_def get_conns_def info_ok_def nth_list_update)

lemma get_conns_pool [simp]: "get_conns j (info\<lparr>ci_pool := p\<rparr>) = get_conns j info"
  by (simp add: get_conns_def)

lemma prepare_twice [simp]: "prepare (prepare p) = prepare p"
  by (rule prepare_again) (simp add: prepared_kept)

lemma acquire_prepared: "acquire (prepare p) = Some (i, p') \<Longrightarrow> prepare p' = p' \<and> pool_prepared p'"
  using prepared_kept(1) [of p] prepared_kept(2) [of "prepare p" i p'] prepare_again [of p'] by simp

lemma acquire_cursor:
  assumes "length (pool_next p) = max_count" and "pool_cursor p = of_nat j" and "j < max_count"
  shows "\<exists>p'. acquire p = Some (int j, p')"
proof -
  have "unat (of_nat j :: byte) \<noteq> unat (of_nat max_count :: byte)" using assms(3) by simp
  then have "\<not> pool_empty p" using assms(2) by (metis pool_empty_def)
  then show ?thesis using assms by (simp add: acquire_def)
qed

lemma acquire_ok:
  assumes "info_ok info ids"
  shows "\<exists>i p. acquire (prepare (ci_pool info)) = Some (i, p) \<and>
    (if i < 0 then info_ok (info\<lparr>ci_pool := p\<rparr>) ids
     else nat i < max_count \<and> nat i \<notin> set ids \<and> info_ok (info\<lparr>ci_pool := p\<rparr>) (ids @ [nat i]))"
proof (cases "{..<max_count} - set ids = {}")
  case True
  have "free_ids (prepare (ci_pool info)) {}" using assms unfolding info_ok_def True by blast
  then have "acquire (prepare (ci_pool info)) = Some (- 1, prepare (ci_pool info))" by (rule ip.exhausted_law)
  moreover have "info_ok (info\<lparr>ci_pool := prepare (ci_pool info)\<rparr>) ids"
    using assms prepared_kept(1) by (simp add: info_ok_def)
  ultimately show ?thesis by auto
next
  case False
  then obtain i p where i: "i \<in> {..<max_count} - set ids" "acquire (prepare (ci_pool info)) = Some (int i, p)"
      "free_ids p ({..<max_count} - set ids - {i})"
    using ip.acquire_law [of "prepare (ci_pool info)" "{..<max_count} - set ids"] assms by (auto simp: info_ok_def)
  have "{..<max_count} - set ids - {i} = {..<max_count} - set (ids @ [i])" by auto
  then have "info_ok (info\<lparr>ci_pool := p\<rparr>) (ids @ [i])"
    using assms i acquire_prepared [OF i(2)] by (auto simp: info_ok_def)
  then show ?thesis using i by auto
qed

lemma release_ok:
  assumes "info_ok info (xs @ i # ys)"
  shows "\<exists>p. release (int i) (ci_pool info) = Some (True, p) \<and> release_in (int i) cs info st = Some (st(cs \<mapsto> info\<lparr>ci_pool := p\<rparr>)) \<and> info_ok (info\<lparr>ci_pool := p\<rparr>) (xs @ ys)"
proof -
  have pr: "prepare (ci_pool info) = ci_pool info" "pool_prepared (ci_pool info)"
    using assms prepare_again by (auto simp: info_ok_def)
  then obtain p where p: "release (int i) (ci_pool info) = Some (True, p)"
      "free_ids p (insert i ({..<max_count} - set (xs @ i # ys)))"
    using ip.release_law [of "ci_pool info" "{..<max_count} - set (xs @ i # ys)" i] assms by (auto simp: info_ok_def)
  have "insert i ({..<max_count} - set (xs @ i # ys)) = {..<max_count} - set (xs @ ys)" using assms by (auto simp: info_ok_def)
  then have "info_ok (info\<lparr>ci_pool := p\<rparr>) (xs @ ys)"
    using assms p prepared_kept(3) [OF p(1)] pr prepare_again [of p] by (auto simp: info_ok_def)
  then show ?thesis using p(1) by (auto simp: release_in_def)
qed

lemma ids_in_append [simp]: "ids_in cs (xs @ ys) = ids_in cs xs @ ids_in cs ys"
  by (simp add: ids_in_def)

lemma ids_in_Cons:
  "ids_in cs (l # ls) = (if calc_chunk_size (lv_size l) = cs \<and> lv_conns l \<noteq> 0 then lv_id l # ids_in cs ls else ids_in cs ls)"
  by (simp add: ids_in_def)

lemma ids_in_Nil [simp]: "ids_in cs [] = []"
  by (simp add: ids_in_def)

lemma ids_in_mem: "m \<in> set ls \<Longrightarrow> calc_chunk_size (lv_size m) = cs \<Longrightarrow> lv_conns m \<noteq> 0 \<Longrightarrow> lv_id m \<in> set (ids_in cs ls)"
  by (auto simp: ids_in_def)

text \<open>A chunk of another message keeps its connections.\<close>

lemma live_ok_other:
  assumes inv: "life_inv cc st (xs @ l # ys)" and o: "m \<in> set (xs @ ys)" and cs: "cs = calc_chunk_size (lv_size l)" and info: "st cs = Some info"
    and l: "lv_conns l \<noteq> 0" and get: "\<And>j. j \<noteq> lv_id l \<Longrightarrow> get_conns (int j) info' = get_conns (int j) info"
  shows "live_ok cc (st(cs \<mapsto> info')) m"
proof -
  have m: "live_ok cc st m" using inv o by (auto simp: life_inv_def)
  have "distinct (ids_in cs (xs @ l # ys))" using inv info by (auto simp: life_inv_def info_ok_def)
  then have "lv_id l \<notin> set (ids_in cs (xs @ ys))" using cs l by (auto simp: ids_in_Cons)
  then have "lv_id m \<noteq> lv_id l" if "calc_chunk_size (lv_size m) = cs" "lv_conns m \<noteq> 0" using ids_in_mem [OF o that] by metis
  then show ?thesis using m info get by (auto simp: live_ok_def)
qed

text \<open>
  The chunk of a message gets new connections: it is kept while there are any, and given back with
  the last one. Both ways of letting go of a chunk are of this form.
\<close>

definition update_conns :: "int \<Rightarrow> u64 \<Rightarrow> u32 \<Rightarrow> chunk_info \<Rightarrow> storages \<Rightarrow> storages option" where
  "update_conns i cs c info st =
     do { info \<leftarrow> set_conns i c info; if c = 0 then release_in i cs info st else Some (st(cs \<mapsto> info)) }"

text \<open>A message of the list gets the segment's new state.\<close>

lemma life_inv_update:
  assumes inv: "life_inv cc st (xs @ l # ys)" and cs: "cs = calc_chunk_size (lv_size l)" and info: "st cs = Some info"
    and l: "lv_conns l \<noteq> 0" and get: "\<And>j. j \<noteq> lv_id l \<Longrightarrow> get_conns (int j) info' = get_conns (int j) info"
    and ok: "info_ok info' (ids_in cs (xs @ l' # ys))" and l': "lv_size l' = lv_size l"
    and lok: "live_ok cc (st(cs \<mapsto> info')) l'"
  shows "life_inv cc (st(cs \<mapsto> info')) (xs @ l' # ys)"
proof -
  have "ids_in c (xs @ l' # ys) = ids_in c (xs @ l # ys)" if "c \<noteq> cs" for c using that cs l' by (simp add: ids_in_Cons)
  then show ?thesis using inv ok lok live_ok_other [OF inv _ cs info l get] unfolding life_inv_def by auto
qed

lemma update_conns_inv:
  assumes inv: "life_inv cc st (xs @ l # ys)" and l: "lv_conns l \<noteq> 0" and l': "lv_size l' = lv_size l" "lv_id l' = lv_id l"
    and info: "st (calc_chunk_size (lv_size l)) = Some info"
    and c: "c = lv_conns l'" "lv_pending l' AND lv_holding l' = 0" "c AND cc = c"
  shows "\<exists>st'. update_conns (int (lv_id l)) (calc_chunk_size (lv_size l)) c info st = Some st' \<and>
    life_inv cc st' (xs @ l' # ys)"
proof -
  let ?cs = "calc_chunk_size (lv_size l)"
  have ok: "info_ok info (ids_in ?cs xs @ lv_id l # ids_in ?cs ys)"
    using life_invD [OF inv info] l by (simp add: ids_in_Cons)
  then have "lv_id l < max_count" by (simp add: info_ok_def)
  then obtain info' where i': "set_conns (int (lv_id l)) c info = Some info'" "info_ok info' (ids_in ?cs xs @ lv_id l # ids_in ?cs ys)"
      "\<And>j. get_conns (int j) info' = (if j = lv_id l then Some c else get_conns (int j) info)"
    using set_conns_ok [OF ok] by blast
  show ?thesis
  proof (cases "c = 0")
    case True
    obtain p where p: "release_in (int (lv_id l)) ?cs info' st = Some (st(?cs \<mapsto> info'\<lparr>ci_pool := p\<rparr>))"
        "info_ok (info'\<lparr>ci_pool := p\<rparr>) (ids_in ?cs xs @ ids_in ?cs ys)"
      using release_ok [OF i'(2)] by blast
    have "live_ok cc (st(?cs \<mapsto> info'\<lparr>ci_pool := p\<rparr>)) l'" using True c by (simp add: live_ok_def)
    then have "life_inv cc (st(?cs \<mapsto> info'\<lparr>ci_pool := p\<rparr>)) (xs @ l' # ys)"
      using life_inv_update [OF inv refl info l, of "info'\<lparr>ci_pool := p\<rparr>" l'] i'(3) p(2) l' c(1) True by (simp add: ids_in_Cons)
    then show ?thesis using True i'(1) p(1) by (simp add: update_conns_def)
  next
    case False
    have "live_ok cc (st(?cs \<mapsto> info')) l'" using False c l' i'(3) by (simp add: live_ok_def)
    then have "life_inv cc (st(?cs \<mapsto> info')) (xs @ l' # ys)"
      using life_inv_update [OF inv refl info l, of info' l'] i'(2,3) l' c(1) False by (simp add: ids_in_Cons)
    then show ?thesis using False i'(1) by (simp add: update_conns_def)
  qed
qed

lemma recycle_update:
  assumes "st (calc_chunk_size sz) = Some info" and "get_conns (int i) info = Some c"
  shows "recycle_storage Route (int i) sz cc r st = update_conns (int i) (calc_chunk_size sz) (c AND (cc AND NOT r)) info st"
  using assms by (simp add: recycle_storage_def sub_rc_def update_conns_def Let_def)

lemma discard_update:
  assumes "st (calc_chunk_size sz) = Some info" and "get_conns (int i) info = Some c" and "r \<noteq> 0"
  shows "discard_storage (int i) sz r st = update_conns (int i) (calc_chunk_size sz) (c AND NOT r) info st"
  using assms by (auto simp: discard_storage_def update_conns_def Let_def intro!: Option.bind_cong)

lemma message_at:
  assumes "k < length ls"
  obtains xs l ys where "ls = xs @ l # ys" and "ls ! k = l" and "\<And>m. ls[k := m] = xs @ m # ys"
  using that [of "take k ls" "ls ! k" "drop (Suc k) ls"] id_take_nth_drop [OF assms] upd_conv_take_nth_drop [OF assms] by simp

lemma life_inv_at: "life_inv cc st (xs @ l # ys) \<Longrightarrow> live_ok cc st l"
  by (simp add: life_inv_def)

text \<open>A change of a message that leaves its readers as they are leaves the storage as it is.\<close>

lemma life_inv_same:
  assumes "life_inv cc st (xs @ l # ys)" and "lv_size m = lv_size l" "lv_id m = lv_id l" "lv_conns m = lv_conns l" "lv_pending m AND lv_holding m = 0"
  shows "life_inv cc st (xs @ m # ys)"
proof -
  have "ids_in cs (xs @ m # ys) = ids_in cs (xs @ l # ys)" for cs using assms by (simp add: ids_in_Cons)
  moreover have "live_ok cc st m" using life_inv_at [OF assms(1)] assms(2-) by (simp add: live_ok_def)
  ultimately show ?thesis using assms(1) by (simp add: life_inv_def)
qed

lemma or_zero: "a OR b = 0 \<longleftrightarrow> a = 0 \<and> b = 0" for a b :: u32
  by (auto simp: word_zero_iff bit_or_iff)

lemma connect_inv: "life_inv cc st ls \<Longrightarrow> life_inv (cc OR r) st ls"
proof -
  have "c AND (cc OR r) = c" if "c AND cc = c" for c
    using that by (auto simp: bit_eq_iff bit_simps)
  then show "life_inv cc st ls \<Longrightarrow> life_inv (cc OR r) st ls" by (auto simp: life_inv_def live_ok_def)
qed

lemma send_inv:
  assumes inv: "life_inv cc st ls"
  shows "\<exists>st' ls'. life_step (cc, st, ls) (Send sz) = Some (cc, st', ls') \<and> life_inv cc st' ls'"
proof (cases "cc = 0 \<or> st (calc_chunk_size sz) = None")
  case True
  then show ?thesis using inv by (auto simp: acquire_storage_def)
next
  case F: False
  let ?cs = "calc_chunk_size sz"
  obtain info where cc: "cc \<noteq> 0" and Some: "st ?cs = Some info" using F by auto
  obtain i p where a: "acquire (prepare (ci_pool info)) = Some (i, p)" and
    ok: "if i < 0 then info_ok (info\<lparr>ci_pool := p\<rparr>) (ids_in ?cs ls)
         else nat i < max_count \<and> nat i \<notin> set (ids_in ?cs ls) \<and> info_ok (info\<lparr>ci_pool := p\<rparr>) (ids_in ?cs ls @ [nat i])"
    using acquire_ok [OF life_invD [OF inv Some]] by blast
  show ?thesis
  proof (cases "i < 0")
    case True
    have "live_ok cc (st(?cs \<mapsto> info\<lparr>ci_pool := p\<rparr>)) l" if "l \<in> set ls" for l
      using inv that Some by (auto simp: life_inv_def live_ok_def)
    then have "life_inv cc (st(?cs \<mapsto> info\<lparr>ci_pool := p\<rparr>)) ls" using inv ok True by (auto simp: life_inv_def)
    then show ?thesis using a True Some cc by (simp add: acquire_storage_def)
  next
    case False
    let ?l = "\<lparr>lv_size = sz, lv_id = nat i, lv_pending = cc, lv_holding = 0, lv_slot = True\<rparr>"
    have i: "nat i < max_count" "nat i \<notin> set (ids_in ?cs ls)" "info_ok (info\<lparr>ci_pool := p\<rparr>) (ids_in ?cs ls @ [nat i])"
      using ok False by auto
    obtain info' where i': "set_conns i cc (info\<lparr>ci_pool := p\<rparr>) = Some info'" "info_ok info' (ids_in ?cs ls @ [nat i])"
        "\<And>j. get_conns (int j) info' = (if j = nat i then Some cc else get_conns (int j) info)"
      using set_conns_ok [OF i(3,1), of cc] False by auto
    have "live_ok cc (st(?cs \<mapsto> info')) l" if l: "l \<in> set ls" for l
    proof -
      have "lv_id l \<noteq> nat i" if "calc_chunk_size (lv_size l) = ?cs" "lv_conns l \<noteq> 0" using ids_in_mem [OF l that] i(2) by metis
      then show ?thesis using inv l Some i'(3) by (auto simp: life_inv_def live_ok_def)
    qed
    moreover have "live_ok cc (st(?cs \<mapsto> info')) ?l" using cc False i'(3) [of "nat i"] by (simp add: live_ok_def lv_conns_def)
    ultimately have "life_inv cc (st(?cs \<mapsto> info')) (ls @ [?l])" using inv i'(2) cc by (auto simp: life_inv_def ids_in_Cons lv_conns_def)
    then show ?thesis using a False Some i'(1) cc by (simp add: acquire_storage_def)
  qed
qed

lemma receive_inv:
  assumes inv: "life_inv cc st ls"
  shows "\<exists>ls'. life_step (cc, st, ls) (Receive k r) = Some (cc, st, ls') \<and> life_inv cc st ls'"
proof (cases "k < length ls \<and> r \<noteq> 0 \<and> r AND lv_pending (ls ! k) = r")
  case True
  then obtain xs l ys where ls: "ls = xs @ l # ys" "ls ! k = l" "\<And>m. ls[k := m] = xs @ m # ys"
    using message_at by blast
  let ?m = "l\<lparr>lv_pending := lv_pending l AND NOT r, lv_holding := lv_holding l OR r\<rparr>"
  have l: "live_ok cc st l" and r: "r AND lv_pending l = r" using life_inv_at inv True ls(1,2) by auto
  have "lv_conns ?m = lv_conns l" and "lv_pending ?m AND lv_holding ?m = 0"
    using r l by (auto simp: live_ok_def lv_conns_def bit_eq_iff bit_simps)
  then have "life_inv cc st (xs @ ?m # ys)" using life_inv_same [OF inv [unfolded ls(1)], of ?m] by simp
  then show ?thesis using True ls(2,3) by simp
qed (use inv in auto)

text \<open>A message loses readers, and its chunk loses them with it.\<close>

lemma lose_inv:
  assumes inv: "life_inv cc st (xs @ l # ys)" and l: "lv_conns l \<noteq> 0"
    and m: "lv_size m = lv_size l" "lv_id m = lv_id l" "lv_pending m AND lv_holding m = 0" "lv_conns m AND cc = lv_conns m"
    and f: "\<And>info. st (calc_chunk_size (lv_size l)) = Some info \<Longrightarrow> get_conns (int (lv_id l)) info = Some (lv_conns l) \<Longrightarrow>
      f = update_conns (int (lv_id l)) (calc_chunk_size (lv_size l)) (lv_conns m) info st"
  shows "\<exists>st'. f = Some st' \<and> life_inv cc st' (xs @ m # ys)"
proof -
  obtain info where i: "st (calc_chunk_size (lv_size l)) = Some info" "get_conns (int (lv_id l)) info = Some (lv_conns l)"
    using life_inv_at [OF inv] l by (auto simp: live_ok_def)
  show ?thesis using update_conns_inv [OF inv l m(1,2) i(1) refl m(3,4)] f [OF i] by simp
qed

lemma drop_inv:
  assumes inv: "life_inv cc st ls"
  shows "\<exists>st' ls'. life_step (cc, st, ls) (Drop k r) = Some (cc, st', ls') \<and> life_inv cc st' ls'"
proof (cases "k < length ls \<and> r \<noteq> 0 \<and> r AND lv_holding (ls ! k) = r")
  case True
  then obtain xs l ys where ls: "ls = xs @ l # ys" "ls ! k = l" "\<And>m. ls[k := m] = xs @ m # ys"
    using message_at by blast
  let ?m = "l\<lparr>lv_holding := lv_holding l AND NOT r\<rparr>"
  note inv' = inv [unfolded ls(1)]
  have r: "r AND lv_holding l = r" "r \<noteq> 0" using True ls(2) by auto
  have l: "lv_conns l \<noteq> 0" using r by (auto simp: lv_conns_def or_zero)
  have c: "lv_conns l AND (cc AND NOT r) = lv_conns ?m" "lv_pending ?m AND lv_holding ?m = 0" "lv_conns ?m AND cc = lv_conns ?m"
    using r life_inv_at [OF inv'] by (auto simp: live_ok_def lv_conns_def bit_eq_iff bit_simps)
  obtain st' where "recycle_storage Route (int (lv_id l)) (lv_size l) cc r st = Some st'" "life_inv cc st' (xs @ ?m # ys)"
    using lose_inv [OF inv' l, of ?m "recycle_storage Route (int (lv_id l)) (lv_size l) cc r st"] c recycle_update [of st "lv_size l"] by auto
  then show ?thesis using True ls(2,3) by simp
qed (use inv in auto)

text \<open>A slot that all its readers have left is overwritten without touching the storage.\<close>

lemma discard_none: "discard_storage i sz 0 st = Some st"
  by (simp add: discard_storage_def)

lemma overwrite_inv:
  assumes inv: "life_inv cc st ls"
  shows "\<exists>st' ls'. life_step (cc, st, ls) (Overwrite k) = Some (cc, st', ls') \<and> life_inv cc st' ls'"
proof (cases "k < length ls \<and> lv_slot (ls ! k)")
  case True
  then obtain xs l ys where ls: "ls = xs @ l # ys" "ls ! k = l" "\<And>m. ls[k := m] = xs @ m # ys"
    using message_at by blast
  let ?m = "l\<lparr>lv_pending := 0, lv_slot := False\<rparr>"
  note inv' = inv [unfolded ls(1)]
  show ?thesis
  proof (cases "lv_pending l = 0")
    case z: True
    then have "life_inv cc st (xs @ ?m # ys)" using life_inv_same [OF inv', of ?m] by (simp add: lv_conns_def)
    then show ?thesis using True ls(2,3) z by (simp add: discard_none)
  next
    case False
    then have l: "lv_conns l \<noteq> 0" by (simp add: lv_conns_def or_zero)
    have c: "lv_conns l AND NOT (lv_pending l) = lv_conns ?m" "lv_pending ?m AND lv_holding ?m = 0" "lv_conns ?m AND cc = lv_conns ?m"
      using life_inv_at [OF inv'] by (auto simp: live_ok_def lv_conns_def bit_eq_iff bit_simps)
    obtain st' where "discard_storage (int (lv_id l)) (lv_size l) (lv_pending l) st = Some st'" "life_inv cc st' (xs @ ?m # ys)"
      using lose_inv [OF inv' l, of ?m "discard_storage (int (lv_id l)) (lv_size l) (lv_pending l) st"] c False
        discard_update [of st "lv_size l" _ "lv_id l" "lv_conns l" "lv_pending l"] by auto
    then show ?thesis using True ls(2,3) by simp
  qed
qed (use inv in auto)

lemma life_run:
  "life_inv cc st ls \<Longrightarrow> \<exists>cc' st' ls'. foldM life_step (cc, st, ls) ops = Some (cc', st', ls') \<and> life_inv cc' st' ls'"
proof (induction ops arbitrary: cc st ls)
  case Nil
  then show ?case by simp
next
  case (Cons x ops)
  have "\<exists>cc' st' ls'. life_step (cc, st, ls) x = Some (cc', st', ls') \<and> life_inv cc' st' ls'"
  proof (cases x)
    case (Connect r)
    then show ?thesis using connect_inv [OF Cons.prems] by simp
  next
    case (Send sz)
    then show ?thesis using send_inv [OF Cons.prems] by (simp only:) blast
  next
    case (Receive k r)
    then show ?thesis using receive_inv [OF Cons.prems, of k r] by (simp only:) blast
  next
    case (Drop k r)
    then show ?thesis using drop_inv [OF Cons.prems, of k r] by (simp only:) blast
  next
    case (Overwrite k)
    then show ?thesis using overwrite_inv [OF Cons.prems, of k] by (simp only:) blast
  qed
  then show ?case using Cons.IH by fastforce
qed

lemma life_start: "\<forall>cs info. st cs = Some info \<longrightarrow> info = zero_info cs \<Longrightarrow> life_inv cc st []"
proof -
  assume z: "\<forall>cs info. st cs = Some info \<longrightarrow> info = zero_info cs"
  have "info_ok (zero_info cs) []" for cs using prepare_zero by (simp add: info_ok_def zero_info_def)
  then show ?thesis using z by (auto simp: life_inv_def)
qed



section \<open>A reader that left\<close>

text \<open>
  The connections that count are those at the time a reader takes the message. If all other readers
  disconnected before, its drop gives the chunk back and the next message of the size gets it,
  even when one of those readers still holds the message.
\<close>

theorem held_chunk_reused:
  assumes "st (calc_chunk_size sz) = Some info" and "info_ok info ids" and "acquire_storage sz cc st = Some ((i, True), st1)"
  shows "\<exists>st2 st3. recycle_storage Route i sz r r st1 = Some st2 \<and> acquire_storage sz cc' st2 = Some ((i, True), st3)"
proof -
  let ?cs = "calc_chunk_size sz"
  obtain p info1 where a: "acquire (prepare (ci_pool info)) = Some (i, p)" "\<not> i < 0" "set_conns i cc (info\<lparr>ci_pool := p\<rparr>) = Some info1"
      "st1 = st(?cs \<mapsto> info1)"
    using assms(1,3) by (auto simp: acquire_storage_def Let_def bind_eq_Some_conv split: if_splits)
  have ok: "nat i < max_count" "info_ok (info\<lparr>ci_pool := p\<rparr>) (ids @ [nat i])"
    using acquire_ok [OF assms(2)] a(1,2) by auto
  obtain info1' where i1: "set_conns (int (nat i)) cc (info\<lparr>ci_pool := p\<rparr>) = Some info1'" "info_ok info1' (ids @ [nat i])"
      and g: "\<forall>j. get_conns (int j) info1' = (if j = nat i then Some cc else get_conns (int j) (info\<lparr>ci_pool := p\<rparr>))"
    using set_conns_ok [OF ok(2,1), of cc] by blast
  have g1: "get_conns (int (nat i)) info1' = Some cc" using spec [OF g, of "nat i"] by (simp only: if_True refl)
  have info1: "info1 = info1'" using a(2,3) i1(1) by simp
  obtain info2 where i2: "set_conns (int (nat i)) 0 info1 = Some info2" "info_ok info2 (ids @ [nat i])"
    using set_conns_ok [OF i1(2) ok(1), of 0] info1 by auto
  obtain q where q: "release (int (nat i)) (ci_pool info2) = Some (True, q)" "info_ok (info2\<lparr>ci_pool := q\<rparr>) ids"
    using release_ok [of info2 ids "nat i" "[]" ?cs st1] i2(2) by (simp only: append_Nil2) blast
  have rec: "recycle_storage Route i sz r r st1 = Some (st1(?cs \<mapsto> info2\<lparr>ci_pool := q\<rparr>))"
    using a(2,4) g1 i2(1) q(1) info1 by (simp add: recycle_storage_def sub_rc_def release_in_def)
  have pr: "prepare q = q" using i2(2) prepared_kept(3) [OF q(1)] prepare_again [of q] by (simp add: info_ok_def)
  have "length (pool_next (ci_pool info2)) = max_count" "pool_cursor q = of_nat (nat i)" "length (pool_next q) = max_count"
    using q(1) i2(2) by (auto simp: release_def info_ok_def free_ids_def free_list_def prepare_again split: if_splits)
  then have "\<exists>q'. acquire q = Some (int (nat i), q')"
    using acquire_cursor ok(1) by blast
  then obtain q' where q': "acquire q = Some (i, q')" using a(2) by auto
  have "\<exists>info3. set_conns i cc' (info2\<lparr>ci_pool := q'\<rparr>) = Some info3"
    using i2(2) ok(1) by (simp add: set_conns_def info_ok_def)
  then show ?thesis using rec q' a(2) pr by (auto simp: acquire_storage_def)
qed

theorem held_chunk_reused_witness:
  "\<exists>st1 st2 st3. acquire_storage 100 3 (\<lambda>cs. Some (zero_info cs)) = Some ((0, True), st1) \<and>
     recycle_storage Route 0 100 1 1 st1 = Some st2 \<and> acquire_storage 100 3 st2 = Some ((0, True), st3)"
proof -
  have ok: "info_ok (zero_info (calc_chunk_size 100)) []" using prepare_zero by (simp add: info_ok_def zero_info_def)
  have "acquire (prepare zero_pool) = Some (0, (prepare zero_pool)\<lparr>pool_cursor := pool_next (prepare zero_pool) ! 0\<rparr>)"
    using prepare_zero_list by (auto simp: free_list_def upt_conv_Cons max_count_def acquire_def pool_empty_def Let_def)
  then have "\<exists>st1. acquire_storage 100 3 (\<lambda>cs. Some (zero_info cs)) = Some ((0, True), st1)"
    by (simp add: acquire_storage_def zero_info_def set_conns_def max_count_def Let_def)
  then obtain st1 where "acquire_storage 100 3 (\<lambda>cs. Some (zero_info cs)) = Some ((0, True), st1)" ..
  with held_chunk_reused [OF refl ok this] show ?thesis by blast
qed

section \<open>Room in a chunk\<close>

lemma make_align_16:
  assumes "unat x + 15 < 2 ^ 64"
  shows "unat (make_align 16 x) = (unat x + 15) div 16 * 16"
proof -
  let ?w = "x + 15 :: u64"
  have w: "unat ?w = unat x + 15" using assms by (simp add: unat_word_ariths)
  have m: "NOT (16 - 1) = NOT (mask 4 :: u64)" by (simp add: mask_eq_exp_minus_1)
  have "(?w AND NOT (mask 4)) AND take_bit 4 ?w = 0" by (rule bit_word_eqI) (auto simp: bit_simps)
  then have "(?w AND NOT (mask 4)) + take_bit 4 ?w = (?w AND NOT (mask 4)) OR take_bit 4 ?w" by (rule disjunctive_add_eq_or)
  also have "\<dots> = ?w" by (rule bit_word_eqI) (auto simp: bit_simps)
  finally have d: "?w AND NOT (mask 4) = ?w - take_bit 4 ?w" by (metis add_diff_cancel_right')
  have t: "unat (take_bit 4 ?w) = unat ?w mod 16" unfolding unsigned_take_bit_eq by (simp add: take_bit_eq_mod)
  have s: "unat (?w - take_bit 4 ?w) = unat ?w - unat (take_bit 4 ?w)"
    by (rule unat_sub) (simp add: word_le_nat_alt t)
  have "x + 16 - 1 = ?w" by simp
  then have "unat (make_align 16 x) = unat ?w - unat ?w mod 16" unfolding make_align_def m by (simp only: d s t)
  then show ?thesis using w by (simp add: minus_mod_eq_div_mult)
qed

lemma chunk_size_value:
  assumes "unat sz < 2 ^ 63"
  shows "unat (calc_chunk_size sz) = ((unat sz + 15) div 1024 + 1) * 1024"
proof -
  have h: "make_align 16 4 = 16" by (simp add: make_align_def)
  have n: "unat (16 + sz - 1) = unat sz + 15"
  proof -
    have "16 + sz - 1 = sz + 15" by simp
    then show ?thesis using assms by (simp add: unat_word_ariths)
  qed
  have al: "unat (align_chunk_size (16 + sz)) = ((unat sz + 15) div 1024 + 1) * 1024"
  proof -
    let ?q = "(unat sz + 15) div 1024"
    have q: "?q \<le> 2 ^ 53" using assms by simp
    have d: "unat ((16 + sz - 1) div 1024) = ?q" using n by (simp add: unat_div)
    then have v: "unat ((16 + sz - 1) div 1024 + 1) = ?q + 1" using q by (simp add: unat_word_ariths)
    have m: "unat (v * 1024) = unat v * 1024" if "unat v \<le> 2 ^ 53 + 1" for v :: u64
      using that by (simp add: unat_word_ariths)
    show ?thesis unfolding align_chunk_size_def using m [of "(16 + sz - 1) div 1024 + 1"] q v by (simp only: add_le_mono1)
  qed
  have b: "((unat sz + 15) div 1024 + 1) * 1024 + 15 < 2 ^ 64" using assms by simp
  have r: "(k * 1024 + 15) div 16 * 16 = k * 1024" for k :: nat
  proof -
    have "(15 + (k * 64) * 16) div 16 = k * 64 + 15 div 16" by (rule div_mult_self1) simp
    moreover have "k * 1024 + 15 = 15 + (k * 64) * 16" by simp
    ultimately show ?thesis by simp
  qed
  show ?thesis unfolding calc_chunk_size_def h using make_align_16 [of "align_chunk_size (16 + sz)"] b by (simp only: al r)
qed

text \<open>A chunk has room for its message behind its header, and is never a kilobyte larger than needed.\<close>

theorem chunk_has_room:
  assumes "unat sz < 2 ^ 63"
  shows "unat sz + 16 \<le> unat (calc_chunk_size sz) \<and> unat (calc_chunk_size sz) \<le> unat sz + 16 + 1023 \<and> 1024 dvd unat (calc_chunk_size sz)"
proof -
  define q r where "q = (unat sz + 15) div 1024" and "r = (unat sz + 15) mod 1024"
  have s: "unat sz + 15 = q * 1024 + r" "r < 1024" by (simp_all add: q_def r_def)
  have c: "unat (calc_chunk_size sz) = (q + 1) * 1024" using chunk_size_value [OF assms] by (simp add: q_def)
  show ?thesis using s c by simp
qed

theorem chunk_has_room_witness: "unat (calc_chunk_size 5000) = 5120 \<and> 5000 + 16 \<le> unat (calc_chunk_size 5000)"
  using chunk_has_room [of 5000] chunk_size_value [of 5000] by simp

lemma grow_class_returns:
  "k \<le> 63 \<Longrightarrow> \<exists>c. grow_class sz (2 ^ k) = Some c \<and> sz \<le> c"
proof (induction "63 - k" arbitrary: k)
  case 0
  then have k: "k = 63" by simp
  have "push_bit 1 (2 ^ 63 :: u64) < 2 ^ 63" by (simp add: push_bit_eq_mult)
  then show ?case using k by (subst grow_class.simps) (simp add: Let_def not_less)
next
  case (Suc d)
  then have d: "d = 63 - (k + 1)" "k + 1 \<le> 63" by auto
  have p: "push_bit 1 (2 ^ k :: u64) = 2 ^ (k + 1)" by (simp add: push_bit_eq_mult)
  have u: "unat (2 ^ j :: u64) = 2 ^ j" if "j \<le> 63" for j
  proof -
    have "j < 64" using that by simp
    then have "unat (of_nat (2 ^ j) :: u64) = 2 ^ j" unfolding unsigned_of_nat by simp
    then show ?thesis by simp
  qed
  have "\<not> (2 ^ (k + 1) :: u64) < 2 ^ k" using d(2) u [of k] u [of "k + 1"] unfolding word_less_nat_alt by simp
  then show ?case using Suc.hyps(1) [OF d] by (subst grow_class.simps) (simp only: Let_def p if_False, auto simp: not_less)
qed

text \<open>The size class of a loan is found for every size, and is not smaller.\<close>

theorem loan_size_class_returns: "\<exists>c. loan_size_class sz = Some c \<and> sz \<le> c"
proof (cases "sz \<le> 64 * 1024")
  case True
  then have n: "unat sz \<le> 65536" by (simp add: word_le_nat_alt)
  have "unat (sz + 1024 - 1) = unat sz + 1023"
  proof -
    have "sz + 1024 - 1 = sz + 1023" by simp
    then show ?thesis using n by (simp add: unat_word_ariths)
  qed
  then have "unat (((sz + 1024 - 1) div 1024) * 1024) = (unat sz + 1023) div 1024 * 1024"
    using n by (simp add: unat_word_ariths unat_div)
  moreover have "unat sz \<le> (unat sz + 1023) div 1024 * 1024" by linarith
  ultimately have "sz \<le> ((sz + 1024 - 1) div 1024) * 1024" by (simp only: word_le_nat_alt)
  then show ?thesis using True by (simp add: loan_size_class_def)
next
  case False
  have "(128 * 1024 :: u64) = 2 ^ 17" by simp
  then show ?thesis using False grow_class_returns [of 17 sz] unfolding loan_size_class_def by simp
qed

end
