(* ===== verification/UnicastRing.thy ===== *)
theory UnicastRing
  imports BroadcastRing
begin

text \<open>
  The ring of a service, with one writer and one reader
  (\<open>prod_cons_impl<wr<single, single, unicast>>\<close> of \<open>src/src/libipc/prod_cons.h\<close>): its
  operations as functions, and the same operations one atomic access at a time with both ends
  working at once.
\<close>

section \<open>The operations\<close>

record 'd uring =
  u_rd :: u32
  u_wt :: u32
  u_slots :: "'d list"

definition uni_push :: "'d \<Rightarrow> 'd uring \<Rightarrow> bool \<times> 'd uring" where
  "uni_push x u =
     (let cur_wt = index_of (u_wt u)
      in if cur_wt = index_of (u_rd u - 1) then (False, u)
         else (True, u\<lparr>u_slots := (u_slots u)[cur_wt := x], u_wt := u_wt u + 1\<rparr>))"

definition uni_pop :: "'d uring \<Rightarrow> 'd option \<times> 'd uring" where
  "uni_pop u =
     (let cur_rd = index_of (u_rd u)
      in if cur_rd = index_of (u_wt u) then (None, u) else (Some (u_slots u ! cur_rd), u\<lparr>u_rd := u_rd u + 1\<rparr>))"

text \<open>Forcing gives the reader up: every connection is dropped and the message refused.\<close>

definition uni_force_push :: "conn_head \<Rightarrow> bool \<times> conn_head" where
  "uni_force_push h = (False, snd (disconnect_receiver Server (NOT 0) h))"

section \<open>The content\<close>

definition holds :: "'d uring \<Rightarrow> 'd list \<Rightarrow> bool" where
  "holds u xs \<longleftrightarrow>
     length (u_slots u) = 256 \<and> length xs \<le> 255 \<and> u_wt u = u_rd u + of_nat (length xs) \<and>
     (\<forall>i < length xs. u_slots u ! index_of (u_rd u + of_nat i) = xs ! i)"

lemma index_apart: "i < 256 \<Longrightarrow> j < 256 \<Longrightarrow> i \<noteq> j \<Longrightarrow> index_of (c + of_nat i) \<noteq> index_of (c + of_nat j)"
  by (rule index_of_neq [of _ _ 0]) auto

lemma index_before: "index_of (c - 1) = index_of (c + of_nat 255)"
  using index_of_pos [of "c - 1" 256] index_of_pos [of "c - 1" 0] by (simp add: add.commute)

lemma full_iff: "holds u xs \<Longrightarrow> index_of (u_wt u) = index_of (u_rd u - 1) \<longleftrightarrow> length xs = 255"
  using index_apart [of "length xs" 255 "u_rd u"] by (auto simp: holds_def index_before)

lemma empty_iff: "holds u xs \<Longrightarrow> index_of (u_rd u) = index_of (u_wt u) \<longleftrightarrow> xs = []"
  using index_apart [of 0 "length xs" "u_rd u"] by (auto simp: holds_def)

lemma holds_push:
  assumes "holds u xs" and "length xs < 255" and "slots ! index_of (u_wt u) = x" and "length slots = 256"
    and "\<And>i. i < 256 \<Longrightarrow> i \<noteq> index_of (u_wt u) \<Longrightarrow> slots ! i = u_slots u ! i"
  shows "holds (u\<lparr>u_slots := slots, u_wt := u_wt u + 1\<rparr>) (xs @ [x])"
proof -
  have "slots ! index_of (u_rd u + of_nat i) = (xs @ [x]) ! i" if "i < length xs + 1" for i
  proof (cases "i = length xs")
    case True
    then show ?thesis using assms(1,3) by (simp add: holds_def)
  next
    case False
    then have "index_of (u_rd u + of_nat i) \<noteq> index_of (u_wt u)"
      using index_apart [of i "length xs" "u_rd u"] assms(1,2) that by (auto simp: holds_def)
    then show ?thesis using assms(1) assms(5) [OF index_of_less, of "u_rd u + of_nat i"] that False by (auto simp: holds_def nth_append)
  qed
  then show ?thesis using assms(1,2,4) by (simp add: holds_def)
qed

lemma holds_pop: "holds u (x # xs) \<Longrightarrow> holds (u\<lparr>u_rd := u_rd u + 1\<rparr>) xs"
proof -
  assume h: "holds u (x # xs)"
  have "u_slots u ! index_of (u_rd u + 1 + of_nat i) = xs ! i" if "i < length xs" for i
  proof -
    have "u_slots u ! index_of (u_rd u + of_nat (Suc i)) = (x # xs) ! Suc i" using h that by (simp add: holds_def del: of_nat_Suc)
    then show ?thesis by (simp add: algebra_simps)
  qed
  then show ?thesis using h by (simp add: holds_def algebra_simps)
qed

section \<open>A bounded queue\<close>

datatype 'd queue_op = Enq 'd | Deq

primrec uni_step :: "'d uring \<Rightarrow> 'd queue_op \<Rightarrow> 'd uring \<times> 'd option \<times> bool" where
  "uni_step u (Enq x) = (let (ok, u) = uni_push x u in (u, None, ok))"
| "uni_step u Deq = (let (y, u) = uni_pop u in (u, y, y \<noteq> None))"

primrec uni_run :: "'d uring \<Rightarrow> 'd queue_op list \<Rightarrow> ('d option \<times> bool) list" where
  "uni_run u [] = []"
| "uni_run u (e # es) = (let (u, y) = uni_step u e in y # uni_run u es)"

text \<open>The queue it implements: at most 255 messages, first in, first out.\<close>

primrec fifo_step :: "'d list \<Rightarrow> 'd queue_op \<Rightarrow> 'd list \<times> 'd option \<times> bool" where
  "fifo_step xs (Enq x) = (if length xs < 255 then (xs @ [x], None, True) else (xs, None, False))"
| "fifo_step xs Deq = (case xs of [] \<Rightarrow> ([], None, False) | x # xs \<Rightarrow> (xs, Some x, True))"

primrec fifo_run :: "'d list \<Rightarrow> 'd queue_op list \<Rightarrow> ('d option \<times> bool) list" where
  "fifo_run xs [] = []"
| "fifo_run xs (e # es) = (let (xs, y) = fifo_step xs e in y # fifo_run xs es)"

lemma uni_step_fifo:
  assumes "holds u xs"
  shows "snd (uni_step u e) = snd (fifo_step xs e)" and "holds (fst (uni_step u e)) (fst (fifo_step xs e))"
proof -
  have "snd (uni_step u e) = snd (fifo_step xs e) \<and> holds (fst (uni_step u e)) (fst (fifo_step xs e))"
  proof (cases e)
    case (Enq x)
    have len: "length (u_slots u) = 256" "length xs \<le> 255" using assms by (auto simp: holds_def)
    show ?thesis
    proof (cases "length xs = 255")
      case True
      then show ?thesis using Enq full_iff [OF assms] assms by (simp add: uni_push_def)
    next
      case False
      have "holds (u\<lparr>u_slots := (u_slots u)[index_of (u_wt u) := x], u_wt := u_wt u + 1\<rparr>) (xs @ [x])"
        using False len index_of_less by (intro holds_push [OF assms]) auto
      then show ?thesis using Enq full_iff [OF assms] False len by (simp add: uni_push_def)
    qed
  next
    case Deq
    show ?thesis
    proof (cases xs)
      case Nil
      then show ?thesis using Deq empty_iff [OF assms] assms by (simp add: uni_pop_def)
    next
      case (Cons x ys)
      then have "u_slots u ! index_of (u_rd u) = x" using assms by (auto simp: holds_def)
      then show ?thesis using Deq empty_iff [OF assms] holds_pop assms Cons by (simp add: uni_pop_def)
    qed
  qed
  then show "snd (uni_step u e) = snd (fifo_step xs e)" "holds (fst (uni_step u e)) (fst (fifo_step xs e))" by blast+
qed

text \<open>
  Wherever its counters start, an empty ring behaves as a queue of at most 255 messages: every push
  and pop has the result of the queue, also across the wrap-around of the counters.
\<close>

theorem ring_is_fifo:
  assumes "length slots = 256"
  shows "uni_run \<lparr>u_rd = c, u_wt = c, u_slots = slots\<rparr> es = fifo_run [] es"
proof -
  have "uni_run u es = fifo_run xs es" if "holds u xs" for u xs
    using that
  proof (induction es arbitrary: u xs)
    case (Cons e es)
    then show ?case using uni_step_fifo [OF Cons.prems, of e] by (simp add: split_beta Let_def)
  qed simp
  then show ?thesis using assms by (simp add: holds_def)
qed

theorem ring_is_fifo_witness:
  "uni_run \<lparr>u_rd = 4294967295, u_wt = 4294967295, u_slots = replicate 256 0\<rparr> [Enq 1, Enq (2 :: nat), Deq, Deq, Deq] =
     [(None, True), (None, True), (Some 1, True), (Some 2, True), (None, False)]"
  using ring_is_fifo [of "replicate 256 (0 :: nat)" 4294967295 "[Enq 1, Enq 2, Deq, Deq, Deq]"] by simp

section \<open>Both ends at once\<close>

text \<open>
  The writer tests for room, copies its message into the slot word by word and publishes it; the
  reader tests for a message, copies it out word by word and gives the slot back. \<open>us_put\<close> are the
  messages published and \<open>us_got\<close> those handed out, in order.
\<close>

datatype 'w uwriter = UIdle | UWrite "'w list" nat

datatype 'w ureader = VIdle | VRead "'w list"

record 'w ustate =
  us_ring :: "'w list uring"
  us_writer :: "'w uwriter"
  us_reader :: "'w ureader"
  us_put :: "'w list list"
  us_got :: "'w list list"

inductive uni_race :: "nat \<Rightarrow> 'w ustate \<Rightarrow> 'w ustate \<Rightarrow> bool" for len where
  u_full: "us_writer s = UIdle \<Longrightarrow> index_of (u_wt (us_ring s)) = index_of (u_rd (us_ring s) - 1) \<Longrightarrow> uni_race len s s"
| u_room: "us_writer s = UIdle \<Longrightarrow> index_of (u_wt (us_ring s)) \<noteq> index_of (u_rd (us_ring s) - 1) \<Longrightarrow> length x = len \<Longrightarrow>
     uni_race len s (s\<lparr>us_writer := UWrite x 0\<rparr>)"
| u_word: "us_writer s = UWrite x i \<Longrightarrow> i < len \<Longrightarrow> k = index_of (u_wt (us_ring s)) \<Longrightarrow>
     uni_race len s
       (s\<lparr>us_ring := (us_ring s)\<lparr>u_slots := (u_slots (us_ring s))[k := (u_slots (us_ring s) ! k)[i := x ! i]]\<rparr>, us_writer := UWrite x (i + 1)\<rparr>)"
| u_publish: "us_writer s = UWrite x len \<Longrightarrow>
     uni_race len s (s\<lparr>us_ring := (us_ring s)\<lparr>u_wt := u_wt (us_ring s) + 1\<rparr>, us_writer := UIdle, us_put := us_put s @ [x]\<rparr>)"
| v_empty: "us_reader s = VIdle \<Longrightarrow> index_of (u_rd (us_ring s)) = index_of (u_wt (us_ring s)) \<Longrightarrow> uni_race len s s"
| v_some: "us_reader s = VIdle \<Longrightarrow> index_of (u_rd (us_ring s)) \<noteq> index_of (u_wt (us_ring s)) \<Longrightarrow>
     uni_race len s (s\<lparr>us_reader := VRead []\<rparr>)"
| v_word: "us_reader s = VRead buf \<Longrightarrow> length buf < len \<Longrightarrow> k = index_of (u_rd (us_ring s)) \<Longrightarrow>
     uni_race len s (s\<lparr>us_reader := VRead (buf @ [u_slots (us_ring s) ! k ! length buf])\<rparr>)"
| v_done: "us_reader s = VRead buf \<Longrightarrow> length buf = len \<Longrightarrow>
     uni_race len s (s\<lparr>us_ring := (us_ring s)\<lparr>u_rd := u_rd (us_ring s) + 1\<rparr>, us_reader := VIdle, us_got := us_got s @ [buf]\<rparr>)"

definition uni_start :: "'w \<Rightarrow> u32 \<Rightarrow> nat \<Rightarrow> 'w ustate \<Rightarrow> bool" where
  "uni_start d c len s \<longleftrightarrow>
     s = \<lparr>us_ring = \<lparr>u_rd = c, u_wt = c, u_slots = replicate 256 (replicate len d)\<rparr>, us_writer = UIdle, us_reader = VIdle,
          us_put = [], us_got = []\<rparr>"

text \<open>What is in the ring is what was put and not got.\<close>

definition uni_inv :: "nat \<Rightarrow> 'w ustate \<Rightarrow> bool" where
  "uni_inv len s \<longleftrightarrow>
     (\<exists>xs. holds (us_ring s) xs \<and> us_put s = us_got s @ xs \<and> (\<forall>y \<in> set (u_slots (us_ring s)). length y = len) \<and>
        (case us_writer s of
           UIdle \<Rightarrow> True
         | UWrite x i \<Rightarrow> length xs < 255 \<and> length x = len \<and> i \<le> len \<and>
             take i (u_slots (us_ring s) ! index_of (u_wt (us_ring s))) = take i x) \<and>
        (case us_reader s of
           VIdle \<Rightarrow> True
         | VRead buf \<Rightarrow> xs \<noteq> [] \<and> length buf \<le> len \<and> buf = take (length buf) (hd xs)))"

lemma uni_invI:
  assumes "holds (us_ring s) xs" "us_put s = us_got s @ xs" "\<forall>y \<in> set (u_slots (us_ring s)). length y = len"
    "\<And>x i. us_writer s = UWrite x i \<Longrightarrow> length xs < 255 \<and> length x = len \<and> i \<le> len \<and>
      take i (u_slots (us_ring s) ! index_of (u_wt (us_ring s))) = take i x"
    "\<And>buf. us_reader s = VRead buf \<Longrightarrow> xs \<noteq> [] \<and> length buf \<le> len \<and> buf = take (length buf) (hd xs)"
  shows "uni_inv len s"
  unfolding uni_inv_def using assms by (intro exI [of _ xs]) (auto split: uwriter.splits ureader.splits)

lemma holds_other:
  assumes "holds u xs" and "length xs < 255" and "length slots = 256"
    and "\<And>i. i < 256 \<Longrightarrow> i \<noteq> index_of (u_wt u) \<Longrightarrow> slots ! i = u_slots u ! i"
  shows "holds (u\<lparr>u_slots := slots\<rparr>) xs"
proof -
  have "slots ! index_of (u_rd u + of_nat i) = xs ! i" if "i < length xs" for i
  proof -
    have "index_of (u_rd u + of_nat i) \<noteq> index_of (u_wt u)"
      using index_apart [of i "length xs" "u_rd u"] assms(1,2) that by (auto simp: holds_def)
    then show ?thesis using assms(1) assms(4) [OF index_of_less, of "u_rd u + of_nat i"] that by (simp add: holds_def)
  qed
  then show ?thesis using assms(1,3) by (simp add: holds_def)
qed

lemma uni_race_inv:
  assumes st: "uni_race len s t" and inv: "uni_inv len s"
  shows "uni_inv len t"
proof -
  obtain xs where h: "holds (us_ring s) xs" and p: "us_put s = us_got s @ xs" and l: "\<forall>y \<in> set (u_slots (us_ring s)). length y = len"
    and w: "\<And>x i. us_writer s = UWrite x i \<Longrightarrow> length xs < 255 \<and> length x = len \<and> i \<le> len \<and>
      take i (u_slots (us_ring s) ! index_of (u_wt (us_ring s))) = take i x"
    and r: "\<And>buf. us_reader s = VRead buf \<Longrightarrow> xs \<noteq> [] \<and> length buf \<le> len \<and> buf = take (length buf) (hd xs)"
    using inv unfolding uni_inv_def by (elim exE conjE) (rule that, auto)
  have len: "length (u_slots (us_ring s)) = 256" "length xs \<le> 255" using h by (auto simp: holds_def)
  have each: "length (u_slots (us_ring s) ! index_of c) = len" for c using l len(1) index_of_less by simp
  from st show ?thesis
  proof cases
    case u_full
    then show ?thesis using inv by simp
  next
    case (u_room x)
    then show ?thesis using full_iff [OF h] h p l r len by (intro uni_invI [of _ xs]) auto
  next
    case (u_word x i k)
    let ?slots = "(u_slots (us_ring s))[k := (u_slots (us_ring s) ! k)[i := x ! i]]"
    have "holds ((us_ring s)\<lparr>u_slots := ?slots\<rparr>) xs"
      using w [OF u_word(2)] len u_word(4) by (intro holds_other [OF h]) auto
    moreover have "take (i + 1) (?slots ! k) = take (i + 1) x"
      using w [OF u_word(2)] u_word(3,4) len(1) each index_of_less by (simp add: take_Suc_conv_app_nth)
    moreover have "\<forall>y \<in> set ?slots. length y = len"
      using l each u_word(4) set_update_subset_insert [of "u_slots (us_ring s)" k "(u_slots (us_ring s) ! k)[i := x ! i]"] by auto
    ultimately show ?thesis using u_word p w [OF u_word(2)] r by (intro uni_invI [of _ xs]) auto
  next
    case (u_publish x)
    have x: "u_slots (us_ring s) ! index_of (u_wt (us_ring s)) = x" "length xs < 255" using w [OF u_publish(2)] each by auto
    have "holds ((us_ring s)\<lparr>u_slots := u_slots (us_ring s), u_wt := u_wt (us_ring s) + 1\<rparr>) (xs @ [x])"
      by (rule holds_push [OF h x(2,1) len(1)]) simp
    then show ?thesis using u_publish p l r by (intro uni_invI [of _ "xs @ [x]"]) (auto simp: hd_append)
  next
    case v_empty
    then show ?thesis using inv by simp
  next
    case v_some
    then show ?thesis using empty_iff [OF h] h p l w by (intro uni_invI [of _ xs]) auto
  next
    case (v_word buf k)
    have hd: "u_slots (us_ring s) ! k = hd xs" using r [OF v_word(2)] h v_word(4) by (cases xs) (auto simp: holds_def)
    then have "length (hd xs) = len" using each v_word(4) by metis
    then have "buf @ [hd xs ! length buf] = take (length buf + 1) (hd xs)"
      using r [OF v_word(2)] v_word(3) by (metis Suc_eq_plus1 take_Suc_conv_app_nth)
    then show ?thesis using v_word hd h p l w r [OF v_word(2)] by (intro uni_invI [of _ xs]) auto
  next
    case (v_done buf)
    obtain y ys where xs: "xs = y # ys" using r [OF v_done(2)] by (cases xs) auto
    have "u_slots (us_ring s) ! index_of (u_rd (us_ring s)) = y" using h xs by (auto simp: holds_def)
    then have "length y = len" using each by metis
    then have "buf = y" using r [OF v_done(2)] v_done(3) xs by simp
    then show ?thesis using v_done holds_pop [OF h [unfolded xs]] p l w xs by (intro uni_invI [of _ ys]) auto
  qed
qed

interpretation ur: step_invariant "uni_start d c len" "uni_race len" "uni_inv len" for d c len
proof unfold_locales
  show "uni_inv len s" if "uni_start d c len s" for s
    using that by (intro uni_invI [of _ "[]"]) (auto simp: uni_start_def holds_def)
qed (rule uni_race_inv)

text \<open>
  C11. With the writer and the reader working at once, what the reader has got is a beginning of what the
  writer has published, every message whole and in order, and at most 255 are on the way.
\<close>

theorem spsc_order:
  assumes "reach (uni_start d c len) (uni_race len) s"
  shows "\<exists>xs. us_put s = us_got s @ xs \<and> length xs \<le> 255"
  using ur.reach_inv [OF assms] by (auto simp: uni_inv_def holds_def)

theorem spsc_order_witness:
  "\<exists>s. reach (uni_start (0 :: nat) 5 0) (uni_race 0) s \<and> us_put s = [[]] \<and> (\<exists>xs. us_put s = us_got s @ xs \<and> length xs \<le> 255)"
proof -
  define s0 where "s0 = \<lparr>us_ring = \<lparr>u_rd = 5, u_wt = 5, u_slots = replicate 256 ([] :: nat list)\<rparr>, us_writer = UIdle, us_reader = VIdle,
     us_put = [], us_got = []\<rparr>"
  have 0: "reach (uni_start 0 5 0) (uni_race 0) s0" by (rule reach_init) (simp add: uni_start_def s0_def)
  have 1: "uni_race 0 s0 (s0\<lparr>us_writer := UWrite [] 0\<rparr>)" by (rule u_room) (simp_all add: s0_def index_of_def)
  have 2: "uni_race 0 (s0\<lparr>us_writer := UWrite [] 0\<rparr>) (s0\<lparr>us_ring := (us_ring s0)\<lparr>u_wt := 6\<rparr>, us_writer := UIdle, us_put := [[]]\<rparr>)"
    using u_publish [of "s0\<lparr>us_writer := UWrite [] 0\<rparr>" "[]" 0] by (simp add: s0_def)
  note r = reach_step [OF reach_step [OF 0 1] 2]
  moreover have "us_put (s0\<lparr>us_ring := (us_ring s0)\<lparr>u_wt := 6\<rparr>, us_writer := UIdle, us_put := [[]]\<rparr>) = [[]]" by simp
  ultimately show ?thesis using spsc_order [OF r] by blast
qed

end
