(* ===== verification/Channel.thy ===== *)
theory Channel
  imports ChunkStorage UnicastRing
begin

text \<open>
  Messages over a ring (\<open>src/src/libipc/ipc.cpp\<close>): a message of up to 64 bytes is one slot, a
  larger one is a chunk whose identifier is in the slot, or fragments of 64 bytes when there is no
  chunk; the receiver puts fragments together again.
\<close>

section \<open>Messages in slots\<close>

definition data_length :: nat where
  "data_length = 64"

definition large_msg_limit :: nat where
  "large_msg_limit = data_length"

definition sniffer_payload_limit :: nat where
  "sniffer_payload_limit = data_length * 256"

record msg =
  msg_cc_id :: u32
  msg_id :: u32
  msg_remain :: u32
  msg_storage :: bool
  msg_data :: bytes

text \<open>A slot gets the identifier of a chunk or some bytes.\<close>

datatype payload = Ref int | Frag bytes

definition pad_to :: "nat \<Rightarrow> bytes \<Rightarrow> bytes" where
  "pad_to n bs = bs @ replicate (n - length bs) 0"

fun make_msg :: "u32 \<Rightarrow> u32 \<Rightarrow> u32 \<times> payload \<Rightarrow> msg" where
  "make_msg cc_id i (remain, Ref chunk_id) =
     \<lparr>msg_cc_id = cc_id, msg_id = i, msg_remain = remain, msg_storage = True,
      msg_data = pad_to data_length (le_bytes 4 (of_int chunk_id :: u32))\<rparr>"
| "make_msg cc_id i (remain, Frag bs) =
     \<lparr>msg_cc_id = cc_id, msg_id = i, msg_remain = remain, msg_storage = (bs = []), msg_data = pad_to data_length bs\<rparr>"

definition msg_chunk_id :: "msg \<Rightarrow> int" where
  "msg_chunk_id m = sint (of_le (take 4 (msg_data m)) :: u32)"

text \<open>The size is an \<open>int32_t\<close> sum, negative remainders included.\<close>

definition msg_size :: "msg \<Rightarrow> int" where
  "msg_size m = int data_length + sint (msg_remain m)"

section \<open>Overwritten messages\<close>

definition clear_message :: "policy \<Rightarrow> msg \<Rightarrow> u32 \<Rightarrow> storages \<Rightarrow> storages option" where
  "clear_message pol m rem_cc st =
     (if msg_storage m \<and> rem_cc \<noteq> 0
      then if msg_size m \<le> 0 then Some st
           else if is_broadcast pol then discard_storage (msg_chunk_id m) (of_int (msg_size m)) rem_cc st
           else release_storage (msg_chunk_id m) (of_int (msg_size m)) st
      else Some st)"

section \<open>Sending\<close>

record 'r chan =
  ch_head :: conn_head
  ch_end :: queue_end
  ch_acc :: u32
  ch_store :: storages
  ch_ring :: 'r

text \<open>Bytes of a chunk, written and read behind its header; outside of it is \<open>None\<close>.\<close>

definition write_chunk :: "u64 \<Rightarrow> int \<Rightarrow> bytes \<Rightarrow> storages \<Rightarrow> storages option" where
  "write_chunk cs i bs st =
     (case st cs of
        None \<Rightarrow> None
      | Some info \<Rightarrow>
          if nat i < length (ci_chunks info)
          then do {
            d \<leftarrow> put_bytes (chunk_data (ci_chunks info ! nat i)) 0 bs;
            Some (st(cs \<mapsto> info\<lparr>ci_chunks := (ci_chunks info)[nat i := (ci_chunks info ! nat i)\<lparr>chunk_data := d\<rparr>]\<rparr>))
          }
          else None)"

definition read_chunk :: "u64 \<Rightarrow> int \<Rightarrow> nat \<Rightarrow> storages \<Rightarrow> bytes option" where
  "read_chunk cs i n st =
     (case st cs of
        None \<Rightarrow> None
      | Some info \<Rightarrow> if nat i < length (ci_chunks info) then get_bytes (chunk_data (ci_chunks info ! nat i)) 0 n else None)"

text \<open>
  \<open>tp\<close> is the way a frame is pushed. The fragments of 64 bytes come first; the offset after them is
  part of the result.
\<close>

primrec push_fragments :: "(u32 \<times> payload \<Rightarrow> 'r chan \<Rightarrow> (bool \<times> 'r chan) option) \<Rightarrow> bytes \<Rightarrow> nat \<Rightarrow> nat \<Rightarrow> 'r chan \<Rightarrow>
    (bool \<times> nat \<times> 'r chan) option" where
  "push_fragments tp data offset 0 ch = Some (True, offset, ch)"
| "push_fragments tp data offset (Suc n) ch =
     do {
       d \<leftarrow> get_bytes data offset data_length;
       (ok, ch) \<leftarrow> tp (of_nat (length data) - of_nat offset - of_nat data_length, Frag d) ch;
       if ok then push_fragments tp data (offset + data_length) n ch else Some (False, offset, ch)
     }"

definition send_fragments :: "(u32 \<times> payload \<Rightarrow> 'r chan \<Rightarrow> (bool \<times> 'r chan) option) \<Rightarrow> bytes \<Rightarrow> 'r chan \<Rightarrow> (bool \<times> 'r chan) option" where
  "send_fragments tp data ch =
     do {
       (ok, offset, ch) \<leftarrow> push_fragments tp data 0 (length data div data_length) ch;
       let remain = length data - offset;
       if \<not> ok then Some (False, ch)
       else if 0 < remain
       then do { d \<leftarrow> get_bytes data offset remain; tp (of_nat remain - of_nat data_length, Frag d) ch }
       else Some (True, ch)
     }"

definition send_payload :: "(u32 \<times> payload \<Rightarrow> 'r chan \<Rightarrow> (bool \<times> 'r chan) option) \<Rightarrow> bool \<Rightarrow> u32 \<Rightarrow> bytes \<Rightarrow> 'r chan \<Rightarrow> (bool \<times> 'r chan) option" where
  "send_payload tp chunks conns data ch =
     (let sz = of_nat (length data)
      in if chunks \<and> large_msg_limit < length data
         then do {
           ((i, ok), st) \<leftarrow> acquire_storage sz conns (ch_store ch);
           if ok
           then do {
             st \<leftarrow> write_chunk (calc_chunk_size sz) i data st;
             tp (of_nat (length data) - of_nat data_length, Ref i) (ch\<lparr>ch_store := st\<rparr>)
           }
           else send_fragments tp data (ch\<lparr>ch_store := st\<rparr>)
         }
         else send_fragments tp data ch)"

text \<open>The checks of \<open>send\<close>, and the number of the message; \<open>gp\<close> is given that number.\<close>

definition send :: "policy \<Rightarrow> (u32 \<Rightarrow> u32 \<times> payload \<Rightarrow> 'r chan \<Rightarrow> (bool \<times> 'r chan) option) \<Rightarrow> bytes \<Rightarrow> 'r chan \<Rightarrow> (bool \<times> 'r chan) option" where
  "send pol gp data ch =
     (if data = [] then Some (False, ch)
      else let (ready, q, h) = ready_sending pol (ch_end ch) (ch_head ch); ch = ch\<lparr>ch_end := q, ch_head := h\<rparr>
           in if \<not> ready then Some (False, ch)
              else if connections h = 0 then Some (False, ch)
              else send_payload (gp (ch_acc ch)) True (connections h) data (ch\<lparr>ch_acc := ch_acc ch + 1\<rparr>))"

definition no_member_send :: "policy \<Rightarrow> (u32 \<Rightarrow> u32 \<times> payload \<Rightarrow> 'r chan \<Rightarrow> (bool \<times> 'r chan) option) \<Rightarrow> bytes \<Rightarrow> 'r chan \<Rightarrow> (bool \<times> 'r chan) option" where
  "no_member_send pol gp data ch =
     (if data = [] then Some (False, ch)
      else let (ready, q, h) = ready_sending pol (ch_end ch) (ch_head ch); ch = ch\<lparr>ch_end := q, ch_head := h\<rparr>
           in if \<not> ready then Some (False, ch)
              else let sniffer_only = connections h = 0
                   in if sniffer_only \<and> sniffer_payload_limit < length data then Some (False, ch)
                      else send_payload (gp (ch_acc ch)) (\<not> sniffer_only) (connections h) data (ch\<lparr>ch_acc := ch_acc ch + 1\<rparr>))"

section \<open>Pushing on a broadcast ring\<close>

text \<open>One attempt, with the chunk of an overwritten message given back.\<close>

definition after_push :: "(msg \<times> u32) option \<times> msg ring \<Rightarrow> msg ring chan \<Rightarrow> (bool \<times> msg ring chan) option" where
  "after_push res ch =
     (case res of
        (None, r) \<Rightarrow> Some (False, ch\<lparr>ch_ring := r\<rparr>)
      | (Some (old, rem_cc), r) \<Rightarrow>
          do { st \<leftarrow> clear_message Route old rem_cc (ch_store ch); Some (True, ch\<lparr>ch_ring := r, ch_store := st\<rparr>) })"

definition route_push :: "u32 \<Rightarrow> u32 \<Rightarrow> u32 \<times> payload \<Rightarrow> msg ring chan \<Rightarrow> (bool \<times> msg ring chan) option" where
  "route_push cc_id i f ch = after_push (ring_push (connections (ch_head ch)) (make_msg cc_id i f) (ch_ring ch)) ch"

definition route_force :: "u32 \<Rightarrow> u32 \<Rightarrow> u32 \<times> payload \<Rightarrow> msg ring chan \<Rightarrow> (bool \<times> msg ring chan) option" where
  "route_force cc_id i f ch = after_push (ring_force_push (connections (ch_head ch)) (make_msg cc_id i f) (ch_ring ch)) ch"

text \<open>
  Waiting for room: up to \<open>n\<close> more attempts before the time is over; \<open>env k\<close> is what readers do
  before the next one.
\<close>

primrec wait_push :: "(nat \<Rightarrow> 'r chan \<Rightarrow> 'r chan) \<Rightarrow> nat \<Rightarrow> ('r chan \<Rightarrow> (bool \<times> 'r chan) option) \<Rightarrow> 'r chan \<Rightarrow> (bool \<times> 'r chan) option" where
  "wait_push env 0 push ch = push ch"
| "wait_push env (Suc n) push ch =
     do { (ok, ch) \<leftarrow> push ch; if ok then Some (True, ch) else wait_push env n push (env n ch) }"

definition try_push :: "(nat \<Rightarrow> msg ring chan \<Rightarrow> msg ring chan) \<Rightarrow> nat \<Rightarrow> u32 \<Rightarrow> u32 \<Rightarrow> u32 \<times> payload \<Rightarrow> msg ring chan \<Rightarrow> (bool \<times> msg ring chan) option" where
  "try_push env n cc_id i f = wait_push env n (route_push cc_id i f)"

definition push_or_force :: "(nat \<Rightarrow> msg ring chan \<Rightarrow> msg ring chan) \<Rightarrow> nat \<Rightarrow> u32 \<Rightarrow> u32 \<Rightarrow> u32 \<times> payload \<Rightarrow> msg ring chan \<Rightarrow> (bool \<times> msg ring chan) option" where
  "push_or_force env n cc_id i f ch =
     do { (ok, ch) \<leftarrow> try_push env n cc_id i f ch; if ok then Some (True, ch) else route_force cc_id i f ch }"

definition push_no_member :: "(nat \<Rightarrow> msg ring chan \<Rightarrow> msg ring chan) \<Rightarrow> nat \<Rightarrow> bool \<Rightarrow> u32 \<Rightarrow> u32 \<Rightarrow> u32 \<times> payload \<Rightarrow> msg ring chan \<Rightarrow>
    (bool \<times> msg ring chan) option" where
  "push_no_member env n sniffer_only cc_id i f ch =
     (if sniffer_only then Some (True, ch\<lparr>ch_ring := ring_push_sniffer (make_msg cc_id i f) (ch_ring ch)\<rparr>)
      else push_or_force env n cc_id i f ch)"

definition route_send :: "(nat \<Rightarrow> msg ring chan \<Rightarrow> msg ring chan) \<Rightarrow> nat \<Rightarrow> u32 \<Rightarrow> bytes \<Rightarrow> msg ring chan \<Rightarrow> (bool \<times> msg ring chan) option" where
  "route_send env n cc_id = send Route (push_or_force env n cc_id)"

definition route_try_send :: "(nat \<Rightarrow> msg ring chan \<Rightarrow> msg ring chan) \<Rightarrow> nat \<Rightarrow> u32 \<Rightarrow> bytes \<Rightarrow> msg ring chan \<Rightarrow> (bool \<times> msg ring chan) option" where
  "route_try_send env n cc_id = send Route (try_push env n cc_id)"

definition no_member_try_send :: "(nat \<Rightarrow> msg ring chan \<Rightarrow> msg ring chan) \<Rightarrow> nat \<Rightarrow> u32 \<Rightarrow> bytes \<Rightarrow> msg ring chan \<Rightarrow> (bool \<times> msg ring chan) option" where
  "no_member_try_send env n cc_id data ch =
     no_member_send Route (push_no_member env n (connections (ch_head ch) = 0) cc_id) data ch"

section \<open>Pushing on the ring of a service\<close>

definition server_push :: "u32 \<Rightarrow> u32 \<Rightarrow> u32 \<times> payload \<Rightarrow> msg uring chan \<Rightarrow> (bool \<times> msg uring chan) option" where
  "server_push cc_id i f ch = (let (ok, r) = uni_push (make_msg cc_id i f) (ch_ring ch) in Some (ok, ch\<lparr>ch_ring := r\<rparr>))"

definition server_try_send :: "(nat \<Rightarrow> msg uring chan \<Rightarrow> msg uring chan) \<Rightarrow> nat \<Rightarrow> u32 \<Rightarrow> bytes \<Rightarrow> msg uring chan \<Rightarrow> (bool \<times> msg uring chan) option" where
  "server_try_send env n cc_id = send Server (\<lambda>i f. wait_push env n (server_push cc_id i f))"

section \<open>Receiving\<close>

text \<open>Partly received messages, by their number: how much is there, and the buffer.\<close>

type_synonym recv_cache = "(u32 \<times> nat \<times> bytes) list"

definition make_cache :: "(nat \<Rightarrow> byte) \<Rightarrow> bytes \<Rightarrow> nat \<Rightarrow> bytes" where
  "make_cache junk data n = take (min data_length n) data @ drop (min data_length n) (fresh_buffer junk n)"

definition cache_append :: "nat \<times> bytes \<Rightarrow> bytes \<Rightarrow> nat \<Rightarrow> nat \<times> bytes" where
  "cache_append c data n =
     (case c of (fill, buff) \<Rightarrow>
        if length buff \<le> fill \<or> n = 0 then c
        else let new_fill = min (fill + n) (length buff)
             in (new_fill, take fill buff @ take (new_fill - fill) data @ drop new_fill buff))"

text \<open>Old entries are dropped when there are more than 1024.\<close>

definition cache_gc :: "u32 \<Rightarrow> recv_cache \<Rightarrow> recv_cache" where
  "cache_gc i rc =
     (if 1024 < length rc then filter (\<lambda>(j, _). \<not> 8192 < max i j - min i j) rc else rc)"

text \<open>
  What a popped message leads to: nothing yet, an error, a message put together, or a chunk with
  its size.
\<close>

datatype received = More | Failed | Whole bytes | Chunk int nat

definition recv_msg :: "(nat \<Rightarrow> byte) \<Rightarrow> u32 \<Rightarrow> storages \<Rightarrow> msg \<Rightarrow> recv_cache \<Rightarrow> received \<times> recv_cache" where
  "recv_msg junk cc_id st m rc =
     (if msg_cc_id m = cc_id then (More, rc)
      else if msg_size m \<le> 0 then (Failed, rc)
      else let n = nat (msg_size m)
           in if msg_storage m
              then if msg_chunk_id m < 0 \<or> st (calc_chunk_size (of_nat n)) = None then (More, rc) else (Chunk (msg_chunk_id m) n, rc)
              else case map_of rc (msg_id m) of
                     None \<Rightarrow>
                       if n \<le> data_length then (Whole (make_cache junk (msg_data m) n), rc)
                       else (More, (msg_id m, data_length, make_cache junk (msg_data m) n) # cache_gc (msg_id m) rc)
                   | Some c \<Rightarrow>
                       if sint (msg_remain m) \<le> 0
                       then (Whole (snd (cache_append c (msg_data m) n)), filter (\<lambda>(j, _). j \<noteq> msg_id m) rc)
                       else (More, (msg_id m, cache_append c (msg_data m) data_length) # filter (\<lambda>(j, _). j \<noteq> msg_id m) rc))"

text \<open>The loop of \<open>recv\<close> over the messages popped, until one is complete or none is left.\<close>

primrec recv_loop :: "(nat \<Rightarrow> byte) \<Rightarrow> u32 \<Rightarrow> storages \<Rightarrow> msg list \<Rightarrow> recv_cache \<Rightarrow> received \<times> recv_cache \<times> msg list" where
  "recv_loop junk cc_id st [] rc = (Failed, rc, [])"
| "recv_loop junk cc_id st (m # ms) rc =
     (case recv_msg junk cc_id st m rc of
        (More, rc) \<Rightarrow> recv_loop junk cc_id st ms rc
      | (y, rc) \<Rightarrow> (y, rc, ms))"

section \<open>Loans\<close>

record loan =
  loan_id :: int
  loan_size :: u64

definition loan_chunk :: "policy \<Rightarrow> u64 \<Rightarrow> 'r chan \<Rightarrow> (loan option \<times> 'r chan) option" where
  "loan_chunk pol sz ch =
     (let (ready, q, h) = ready_sending pol (ch_end ch) (ch_head ch); ch = ch\<lparr>ch_end := q, ch_head := h\<rparr>
      in if \<not> ready then Some (None, ch)
         else if connections h = 0 then Some (None, ch)
         else let sz = (if sz \<le> of_nat large_msg_limit then of_nat large_msg_limit + 1 else sz)
              in do {
                   cap \<leftarrow> loan_size_class sz;
                   ((i, ok), st) \<leftarrow> acquire_storage cap (connections h) (ch_store ch);
                   Some (if ok then Some \<lparr>loan_id = i, loan_size = cap\<rparr> else None, ch\<lparr>ch_store := st\<rparr>)
                 })"

definition discard_loan :: "loan \<Rightarrow> 'r chan \<Rightarrow> 'r chan option" where
  "discard_loan lo ch = do { st \<leftarrow> release_storage (loan_id lo) (loan_size lo) (ch_store ch); Some (ch\<lparr>ch_store := st\<rparr>) }"

definition publish_loan :: "(nat \<Rightarrow> msg ring chan \<Rightarrow> msg ring chan) \<Rightarrow> nat \<Rightarrow> u32 \<Rightarrow> loan \<Rightarrow> msg ring chan \<Rightarrow> (bool \<times> msg ring chan) option" where
  "publish_loan env n cc_id lo ch =
     (let i = ch_acc ch; f = (ucast (loan_size lo) - of_nat data_length, Ref (loan_id lo))
      in do {
           (ok, ch) \<leftarrow> push_or_force env n cc_id i f (ch\<lparr>ch_acc := i + 1\<rparr>);
           if ok then Some (True, ch) else do { ch \<leftarrow> discard_loan lo ch; Some (False, ch) }
         })"

end
