(* ===== verification/ChannelLaws.thy ===== *)
theory ChannelLaws
  imports Channel
begin

text \<open>
  What goes into a channel comes out: messages in fragments and messages in chunks; and what happens
  when a fragment is lost or a send is refused.
\<close>

section \<open>Fragments\<close>

definition frame_at :: "bytes \<Rightarrow> nat \<Rightarrow> u32 \<times> payload" where
  "frame_at data off = (of_nat (length data) - of_nat off - 64, Frag (take 64 (drop off data)))"

definition frames_of :: "bytes \<Rightarrow> (u32 \<times> payload) list" where
  "frames_of data = map (\<lambda>k. frame_at data (64 * k)) [0..<(length data + 63) div 64]"

text \<open>A channel that takes every frame and remembers it.\<close>

definition record_push :: "u32 \<times> payload \<Rightarrow> (u32 \<times> payload) list chan \<Rightarrow> (bool \<times> (u32 \<times> payload) list chan) option" where
  "record_push f ch = Some (True, ch\<lparr>ch_ring := ch_ring ch @ [f]\<rparr>)"

lemma push_fragments_record:
  "64 * (k + m) \<le> length data \<Longrightarrow>
     push_fragments record_push data (64 * k) m ch =
       Some (True, 64 * (k + m), ch\<lparr>ch_ring := ch_ring ch @ map (\<lambda>j. frame_at data (64 * j)) [k..<k + m]\<rparr>)"
proof (induction m arbitrary: k ch)
  case 0
  then show ?case by simp
next
  case (Suc m)
  have "[k..<k + Suc m] = k # [Suc k..<Suc k + m]" by (simp add: upt_conv_Cons)
  moreover have "get_bytes data (64 * k) 64 = Some (take 64 (drop (64 * k) data))" using Suc.prems by (simp add: get_bytes_def)
  ultimately show ?case
    using Suc.IH [of "Suc k" "ch\<lparr>ch_ring := ch_ring ch @ [frame_at data (64 * k)]\<rparr>"] Suc.prems
    by (simp add: data_length_def record_push_def frame_at_def algebra_simps)
qed

lemma send_fragments_record:
  "send_fragments record_push data ch = Some (True, ch\<lparr>ch_ring := ch_ring ch @ frames_of data\<rparr>)"
proof -
  let ?n = "length data" and ?q = "length data div 64"
  have q: "64 * ?q \<le> ?n" by simp
  have p: "push_fragments record_push data 0 ?q ch =
      Some (True, 64 * ?q, ch\<lparr>ch_ring := ch_ring ch @ map (\<lambda>j. frame_at data (64 * j)) [0..<?q]\<rparr>)"
    using push_fragments_record [of 0 ?q data ch] q by simp
  show ?thesis
  proof (cases "?n - 64 * ?q = 0")
    case True
    then have "(?n + 63) div 64 = ?q" using q by linarith
    moreover have "\<not> 64 * ?q < ?n" using True by simp
    ultimately show ?thesis using p by (simp add: send_fragments_def data_length_def frames_of_def)
  next
    case False
    have r: "?n - 64 * ?q < 64" by (simp add: minus_mult_div_eq_mod)
    then have "(?n + 63) div 64 = ?q + 1" using False by linarith
    moreover have "get_bytes data (64 * ?q) (?n - 64 * ?q) = Some (drop (64 * ?q) data)" using q by (simp add: get_bytes_def)
    moreover have "take 64 (drop (64 * ?q) data) = drop (64 * ?q) data" using r by simp
    ultimately show ?thesis using p False
      by (simp add: send_fragments_def data_length_def frames_of_def record_push_def frame_at_def of_nat_diff)
  qed
qed

lemma frame_size:
  assumes "off < length data" and "length data < 2 ^ 31"
  shows "msg_size (make_msg c i (frame_at data off)) = int (length data) - int off"
    and "sint (msg_remain (make_msg c i (frame_at data off))) = int (length data) - int off - 64"
    and "msg_storage (make_msg c i (frame_at data off)) = False"
proof -
  let ?x = "int (length data) - int off - 64"
  have "- (2 ^ 31) \<le> ?x" "?x < 2 ^ 31" using assms by auto
  then have "sint (of_int ?x :: u32) = ?x" by (simp add: signed_of_int signed_take_bit_int_eq_self del: of_int_diff)
  moreover have "(of_int ?x :: u32) = of_nat (length data) - of_nat off - 64" by simp
  ultimately have s: "sint (of_nat (length data) - of_nat off - 64 :: u32) = ?x" by simp
  show "msg_size (make_msg c i (frame_at data off)) = int (length data) - int off"
    "sint (msg_remain (make_msg c i (frame_at data off))) = ?x"
    using s by (simp_all add: frame_at_def msg_size_def data_length_def)
  show "msg_storage (make_msg c i (frame_at data off)) = False" using assms(1) by (simp add: frame_at_def)
qed

lemma frame_fields [simp]:
  "msg_cc_id (make_msg c i (frame_at data off)) = c" "msg_id (make_msg c i (frame_at data off)) = i"
  "msg_data (make_msg c i (frame_at data off)) = pad_to 64 (take 64 (drop off data))"
  by (simp_all add: frame_at_def data_length_def)

lemma append_frame:
  assumes "take off buff = take off data" and "length buff = length data" and "off < length data" and "off + n \<le> length data" and "0 < n" and "n \<le> 64"
  shows "\<exists>buff'. cache_append (off, buff) (pad_to 64 (take 64 (drop off data))) n = (off + n, buff') \<and>
    length buff' = length data \<and> take (off + n) buff' = take (off + n) data"
proof -
  have t: "take n (pad_to 64 (take 64 (drop off data))) = take n (drop off data)"
  proof -
    have "n \<le> length data - off" using assms(4) by simp
    then show ?thesis using assms(6) by (simp add: pad_to_def min_def)
  qed
  have "take off buff @ take n (drop off data) = take (off + n) data" using assms(1) by (simp add: take_add)
  then have "length (take off data @ take n (drop off data)) = off + n" using assms(4) by simp
  then show ?thesis using assms t \<open>take off buff @ _ = _\<close> by (simp add: cache_append_def min_def Let_def)
qed

lemma recv_rest:
  assumes c: "c \<noteq> my" and n: "length data < 2 ^ 31"
  shows "map_of rc i = Some (64 * k, buff) \<Longrightarrow> length buff = length data \<Longrightarrow> take (64 * k) buff = take (64 * k) data \<Longrightarrow> 64 * k < length data \<Longrightarrow>
    \<exists>rc'. recv_loop junk my st (map (\<lambda>j. make_msg c i (frame_at data (64 * j))) [k..<(length data + 63) div 64] @ ms) rc = (Whole data, rc', ms) \<and>
      map_of rc' i = None"
proof (induction "(length data + 63) div 64 - k" arbitrary: k rc buff)
  case 0
  then show ?case by linarith
next
  case (Suc d)
  let ?K = "(length data + 63) div 64" and ?m = "make_msg c i (frame_at data (64 * k))"
  note f = frame_size [OF Suc.prems(4) n, of c i]
  have K: "k < ?K" using Suc.hyps(2) by linarith
  then have up: "[k..<?K] = k # [Suc k..<?K]" by (simp add: upt_conv_Cons)
  have size: "nat (msg_size ?m) = length data - 64 * k" "0 < msg_size ?m" using f Suc.prems(4) by auto
  have erased: "map_of (filter (\<lambda>(j, _). j \<noteq> i) rc) i = None" by (simp add: map_of_eq_None_iff) auto
  show ?case
  proof (cases "length data - 64 * k \<le> 64")
    case True
    obtain b where b: "cache_append (64 * k, buff) (pad_to 64 (take 64 (drop (64 * k) data))) (length data - 64 * k) = (length data, b)"
        "length b = length data" "take (length data) b = take (length data) data"
      using append_frame [OF Suc.prems(3,2,4), of "length data - 64 * k"] True Suc.prems(4) by auto
    have "b = data" using b by simp
    then have "recv_msg junk my st ?m rc = (Whole data, filter (\<lambda>(j, _). j \<noteq> i) rc)"
      using c f True Suc.prems(1) b(1) size by (simp add: recv_msg_def Let_def)
    moreover have "[Suc k..<?K] = []" using True by simp
    ultimately show ?thesis using up erased by simp
  next
    case False
    then have le: "64 * k + 64 \<le> length data" "64 * Suc k < length data" by auto
    obtain b where b: "cache_append (64 * k, buff) (pad_to 64 (take 64 (drop (64 * k) data))) 64 = (64 * Suc k, b)"
        "length b = length data" "take (64 * Suc k) b = take (64 * Suc k) data"
      using append_frame [OF Suc.prems(3,2,4), of 64] le by (auto simp: add.commute)
    let ?rc = "(i, 64 * Suc k, b) # filter (\<lambda>(j, _). j \<noteq> i) rc"
    have "recv_msg junk my st ?m rc = (More, ?rc)"
      using c f False Suc.prems(1) b(1) size by (simp add: recv_msg_def Let_def data_length_def)
    moreover have "d = ?K - Suc k" using Suc.hyps(2) by linarith
    ultimately show ?thesis using Suc.hyps(1) [of "Suc k" ?rc b] b le up by simp
  qed
qed

lemma recv_frames:
  assumes "data \<noteq> []" and "length data < 2 ^ 31" and "c \<noteq> my" and "map_of rc i = None"
  shows "\<exists>rc'. recv_loop junk my st (map (make_msg c i) (frames_of data) @ ms) rc = (Whole data, rc', ms) \<and> map_of rc' i = None"
proof -
  let ?K = "(length data + 63) div 64" and ?m = "make_msg c i (frame_at data 0)"
  have len: "0 < length data" using assms(1) by simp
  then have "0 < ?K" by linarith
  then have up: "[0..<?K] = 0 # [Suc 0..<?K]" by (simp add: upt_conv_Cons)
  note f = frame_size [OF len assms(2), of c i]
  have first: "make_cache junk (pad_to 64 (take 64 data)) (length data) = take 64 data @ drop 64 (fresh_buffer junk (length data))"
    by (cases "length data < 64") (auto simp: make_cache_def data_length_def pad_to_def min_def)
  show ?thesis
  proof (cases "length data \<le> 64")
    case True
    then have "?K = 1" using len by linarith
    moreover have "recv_msg junk my st ?m rc = (Whole data, rc)"
      using assms(3,4) f first True len by (simp add: recv_msg_def Let_def data_length_def)
    ultimately show ?thesis using assms(4) by (simp add: frames_of_def)
  next
    case False
    let ?b = "take 64 data @ drop 64 (fresh_buffer junk (length data))"
    let ?rc = "(i, 64, ?b) # cache_gc i rc"
    have "recv_msg junk my st ?m rc = (More, ?rc)"
      using assms(3,4) f first False len by (simp add: recv_msg_def Let_def data_length_def)
    moreover have "\<exists>rc'. recv_loop junk my st (map (\<lambda>j. make_msg c i (frame_at data (64 * j))) [1..<?K] @ ms) ?rc = (Whole data, rc', ms) \<and> map_of rc' i = None"
      using recv_rest [OF assms(3,2), of ?rc i 1 ?b] False by simp
    ultimately show ?thesis using up by (simp add: frames_of_def comp_def)
  qed
qed

text \<open>
  C30. A message of any size below \<open>2 ^ 31\<close> that is sent in fragments is received as it was sent, if its
  number is not in use; the receiver forgets it then.
\<close>

theorem fragments_roundtrip:
  assumes "data \<noteq> []" and "length data < 2 ^ 31" and "c \<noteq> my" and "map_of rc i = None" and "ch_ring ch = []"
  shows "\<exists>ch' rc'. send_fragments record_push data ch = Some (True, ch') \<and>
    recv_loop junk my st (map (make_msg c i) (ch_ring ch') @ ms) rc = (Whole data, rc', ms) \<and> map_of rc' i = None"
  using recv_frames [OF assms(1-4), of junk st ms] send_fragments_record [of data ch] assms(5) by simp

definition example_chan :: "'r \<Rightarrow> 'r chan" where
  "example_chan r = \<lparr>ch_head = \<lparr>connections = 1, sender_flag = True, receiver_flag = False\<rparr>,
     ch_end = queue_end0\<lparr>sending := True\<rparr>, ch_acc = 0, ch_store = (\<lambda>cs. Some (zero_info cs)), ch_ring = r\<rparr>"

theorem fragments_roundtrip_witness:
  "\<exists>ch' rc'. send_fragments record_push (replicate 100 7) (example_chan []) = Some (True, ch') \<and>
    recv_loop (\<lambda>_. 0) 1 (\<lambda>_. None) (map (make_msg 2 5) (ch_ring ch')) [] = (Whole (replicate 100 7), rc', []) \<and> map_of rc' 5 = None"
  using fragments_roundtrip [of "replicate 100 7" 2 1 "[]" 5 "example_chan []" "\<lambda>_. 0" "\<lambda>_. None" "[]"] by (simp add: example_chan_def)

text \<open>
  The fragments after the first are those of the rest of the message: a reader that lost the first
  one, which a forced push can overwrite, takes the rest for the whole message.
\<close>

lemma frames_tail:
  assumes "64 < length data"
  shows "tl (frames_of data) = frames_of (drop 64 data)"
proof -
  let ?K = "(length data + 63) div 64"
  have K: "?K = Suc ((length (drop 64 data) + 63) div 64)" using assms by simp
  have "tl [0..<?K] = map Suc [0..<(length (drop 64 data) + 63) div 64]" unfolding K by (simp add: map_Suc_upt)
  moreover have "frame_at data (64 * Suc k) = frame_at (drop 64 data) (64 * k)" for k
    using assms by (simp add: frame_at_def of_nat_diff algebra_simps)
  ultimately show ?thesis by (simp add: frames_of_def map_tl [symmetric])
qed

theorem lost_fragment_truncates:
  assumes "64 < length data" and "length data < 2 ^ 31" and "c \<noteq> my" and "map_of rc i = None" and "ch_ring ch = []"
  shows "\<exists>ch' rc'. send_fragments record_push data ch = Some (True, ch') \<and>
    recv_loop junk my st (map (make_msg c i) (tl (ch_ring ch')) @ ms) rc = (Whole (drop 64 data), rc', ms)"
proof -
  have "drop 64 data \<noteq> []" "length (drop 64 data) < 2 ^ 31" using assms(1,2) by auto
  from recv_frames [OF this assms(3,4)] show ?thesis
    using send_fragments_record [of data ch] frames_tail [OF assms(1)] assms(5) by fastforce
qed

theorem lost_fragment_truncates_witness:
  "\<exists>ch' rc'. send_fragments record_push (replicate 100 7) (example_chan []) = Some (True, ch') \<and>
    recv_loop (\<lambda>_. 0) 1 (\<lambda>_. None) (map (make_msg 2 5) (tl (ch_ring ch'))) [] = (Whole (replicate 36 7), rc', [])"
  using lost_fragment_truncates [of "replicate 100 7" 2 1 "[]" 5 "example_chan []" "\<lambda>_. 0" "\<lambda>_. None" "[]"] by (simp add: example_chan_def)

section \<open>Chunks\<close>

lemma chunk_id_msg:
  assumes "0 \<le> k" and "k < 32"
  shows "msg_chunk_id (make_msg c i (r, Ref k)) = k"
proof -
  have "take 4 (pad_to data_length (le_bytes 4 (of_int k :: u32))) = le_bytes 4 (of_int k :: u32)" by (simp add: pad_to_def)
  moreover have "sint (of_int k :: u32) = k" using assms by (simp add: signed_of_int signed_take_bit_int_eq_self)
  ultimately show ?thesis by (simp add: msg_chunk_id_def)
qed

definition roomy :: "u64 \<Rightarrow> chunk_info \<Rightarrow> bool" where
  "roomy cs info \<longleftrightarrow> (\<forall>c \<in> set (ci_chunks info). length (chunk_data c) = unat cs - 16)"

lemma set_conns_roomy: "set_conns i c info = Some info' \<Longrightarrow> roomy cs info \<Longrightarrow> roomy cs info'"
  by (auto simp: set_conns_def roomy_def split: if_splits dest!: set_update_subset_insert [THEN subsetD])

lemma acquire_room:
  assumes "info_ok info ids" and "length ids < max_count"
  shows "\<exists>k p info'. acquire (prepare (ci_pool info)) = Some (int k, p) \<and> k < max_count \<and> k \<notin> set ids \<and>
    set_conns (int k) cc (info\<lparr>ci_pool := p\<rparr>) = Some info' \<and> info_ok info' (ids @ [k])"
proof -
  have "card (set ids) < card {..<max_count}" using assms(2) card_length [of ids] by simp
  then have "{..<max_count} - set ids \<noteq> {}" by (metis Diff_eq_empty_iff List.finite_set card_mono leD)
  then obtain k p where k: "acquire (prepare (ci_pool info)) = Some (int k, p)"
    using ip.acquire_law [of "prepare (ci_pool info)" "{..<max_count} - set ids"] assms(1) by (auto simp: info_ok_def)
  then have ok: "k < max_count" "k \<notin> set ids" "info_ok (info\<lparr>ci_pool := p\<rparr>) (ids @ [k])"
    using acquire_ok [OF assms(1)] by auto
  then show ?thesis using k set_conns_ok [OF ok(3,1), of cc] by blast
qed

lemma acquire_storage_room:
  assumes "st (calc_chunk_size sz) = Some info" and "info_ok info ids" and "length ids < max_count" and "roomy (calc_chunk_size sz) info"
  shows "\<exists>k info'. acquire_storage sz cc st = Some ((int k, True), st(calc_chunk_size sz \<mapsto> info')) \<and> k < max_count \<and> k \<notin> set ids \<and>
    info_ok info' (ids @ [k]) \<and> roomy (calc_chunk_size sz) info'"
proof -
  obtain k p info' where k: "acquire (prepare (ci_pool info)) = Some (int k, p)" "k < max_count" "k \<notin> set ids"
      "set_conns (int k) cc (info\<lparr>ci_pool := p\<rparr>) = Some info'" "info_ok info' (ids @ [k])"
    using acquire_room [OF assms(2,3)] by blast
  have "roomy (calc_chunk_size sz) (info\<lparr>ci_pool := p\<rparr>)" using assms(4) by (simp add: roomy_def)
  then have "roomy (calc_chunk_size sz) info'" using set_conns_roomy k(4) by blast
  then show ?thesis using assms(1) k by (auto simp: acquire_storage_def)
qed

lemma write_chunk_roomy:
  assumes "st cs = Some info" and "info_ok info ids" and "k < max_count" and "roomy cs info" and "length bs + 16 \<le> unat cs"
  shows "\<exists>info'. write_chunk cs (int k) bs st = Some (st(cs \<mapsto> info')) \<and> info_ok info' ids \<and> roomy cs info' \<and>
    (\<forall>n st'. read_chunk cs (int k) (length bs) (st'(cs \<mapsto> info')) = Some bs)"
proof -
  let ?c = "ci_chunks info ! k"
  have k: "k < length (ci_chunks info)" using assms(2,3) by (simp add: info_ok_def)
  then have len: "length (chunk_data ?c) = unat cs - 16" using assms(4) nth_mem by (fastforce simp: roomy_def)
  let ?d = "bs @ drop (length bs) (chunk_data ?c)"
  let ?info = "info\<lparr>ci_chunks := (ci_chunks info)[k := ?c\<lparr>chunk_data := ?d\<rparr>]\<rparr>"
  have d: "put_bytes (chunk_data ?c) 0 bs = Some ?d" "length ?d = unat cs - 16" using len assms(5) by (auto simp: put_bytes_def)
  have "info_ok ?info ids" using assms(2) by (simp add: info_ok_def)
  moreover have "roomy cs ?info"
    using assms(4) d(2) by (auto simp: roomy_def dest!: set_update_subset_insert [THEN subsetD])
  ultimately show ?thesis using assms(1) k d(1) by (auto simp: write_chunk_def read_chunk_def get_bytes_def)
qed

lemma room_for:
  assumes "length data < 2 ^ 31"
  shows "length data + 16 \<le> unat (calc_chunk_size (of_nat (length data)))"
proof -
  have u: "unat (of_nat (length data) :: u64) = length data" using assms unfolding unsigned_of_nat by (simp add: take_bit_eq_mod)
  then have "unat (of_nat (length data) :: u64) < 2 ^ 63" using assms by simp
  from chunk_size_value [OF this] have "unat (calc_chunk_size (of_nat (length data))) = ((length data + 15) div 1024 + 1) * 1024" by (simp only: u)
  moreover have "n + 16 \<le> ((n + 15) div 1024 + 1) * 1024" for n :: nat
    using div_mult_mod_eq [of "n + 15" 1024] mod_less_divisor [of 1024 "n + 15"] by simp
  ultimately show ?thesis by (simp only:)
qed

text \<open>What a send of a large message does to the storage, before the frame is pushed.\<close>

lemma send_payload_chunk:
  assumes big: "64 < length data" and n: "length data < 2 ^ 31" and info: "ch_store ch (calc_chunk_size (of_nat (length data))) = Some info"
    and ok: "info_ok info ids" and room: "length ids < max_count" and r: "roomy (calc_chunk_size (of_nat (length data))) info"
  shows "\<exists>k info'. send_payload tp True cc data ch =
      tp (of_nat (length data) - 64, Ref (int k)) (ch\<lparr>ch_store := (ch_store ch)(calc_chunk_size (of_nat (length data)) \<mapsto> info')\<rparr>) \<and>
    k < max_count \<and> k \<notin> set ids \<and> info_ok info' (ids @ [k]) \<and> roomy (calc_chunk_size (of_nat (length data))) info' \<and>
    (\<forall>st'. read_chunk (calc_chunk_size (of_nat (length data))) (int k) (length data) (st'(calc_chunk_size (of_nat (length data)) \<mapsto> info')) = Some data)"
proof -
  let ?cs = "calc_chunk_size (of_nat (length data))"
  obtain k info1 where k: "acquire_storage (of_nat (length data)) cc (ch_store ch) = Some ((int k, True), (ch_store ch)(?cs \<mapsto> info1))"
      "k < max_count" "k \<notin> set ids" "info_ok info1 (ids @ [k])" "roomy ?cs info1"
    using acquire_storage_room [where st = "ch_store ch", OF info ok room r] by blast
  obtain info2 where w: "write_chunk ?cs (int k) data ((ch_store ch)(?cs \<mapsto> info1)) = Some ((ch_store ch)(?cs \<mapsto> info1, ?cs \<mapsto> info2))"
      "info_ok info2 (ids @ [k])" "roomy ?cs info2" "\<forall>st'. read_chunk ?cs (int k) (length data) (st'(?cs \<mapsto> info2)) = Some data"
    using write_chunk_roomy [where st = "(ch_store ch)(?cs \<mapsto> info1)", OF _ k(4,2,5) room_for [OF n]] by (auto simp del: fun_upd_upd)
  show ?thesis
    using big k(1-3) w by (auto simp: send_payload_def large_msg_limit_def data_length_def Let_def)
qed

text \<open>
  A large message that gets a chunk takes one frame: the receiver of the frame gets the identifier
  of that chunk, which no other message has, and the size, and finds the bytes that were sent.
\<close>

theorem chunk_roundtrip:
  assumes "64 < length data" and "length data < 2 ^ 31" and "c \<noteq> my" and "ch_ring ch = []"
    and "ch_store ch (calc_chunk_size (of_nat (length data))) = Some info" and "info_ok info ids" and "length ids < max_count"
    and "roomy (calc_chunk_size (of_nat (length data))) info"
  shows "\<exists>ch' k. send_payload record_push True cc data ch = Some (True, ch') \<and> k \<notin> set ids \<and>
    recv_loop junk my (ch_store ch') (map (make_msg c i) (ch_ring ch') @ ms) rc = (Chunk (int k) (length data), rc, ms) \<and>
    read_chunk (calc_chunk_size (of_nat (length data))) (int k) (length data) (ch_store ch') = Some data"
proof -
  let ?cs = "calc_chunk_size (of_nat (length data))"
  obtain k info' where k: "send_payload record_push True cc data ch =
        record_push (of_nat (length data) - 64, Ref (int k)) (ch\<lparr>ch_store := (ch_store ch)(?cs \<mapsto> info')\<rparr>)"
      "k < max_count" "k \<notin> set ids" "\<forall>st'. read_chunk ?cs (int k) (length data) (st'(?cs \<mapsto> info')) = Some data"
    using send_payload_chunk [OF assms(1,2,5-8), of record_push cc] by blast
  let ?m = "make_msg c i (of_nat (length data) - 64, Ref (int k))"
  have id: "msg_chunk_id ?m = int k" using chunk_id_msg [of "int k"] k(2) by (simp add: max_count_def)
  have "sint (of_int (int (length data) - 64) :: u32) = int (length data) - 64"
    using assms(1,2) by (simp add: signed_of_int signed_take_bit_int_eq_self del: of_int_diff)
  then have size: "msg_size ?m = int (length data)" by (simp add: msg_size_def data_length_def)
  have "recv_msg junk my ((ch_store ch)(?cs \<mapsto> info')) ?m rc = (Chunk (int k) (length data), rc)"
    using assms(1,3) id size by (cases "data = []") (simp_all add: recv_msg_def Let_def)
  then show ?thesis using k(1,3,4) assms(4) by (auto simp: record_push_def)
qed

lemma zero_info_ok: "info_ok (zero_info cs) []" "roomy cs (zero_info cs)"
  using prepare_zero by (simp_all add: info_ok_def zero_info_def roomy_def)

theorem chunk_roundtrip_witness:
  "\<exists>ch' k. send_payload record_push True 1 (replicate 100 7) (example_chan []) = Some (True, ch') \<and>
    recv_loop (\<lambda>_. 0) 1 (ch_store ch') (map (make_msg 2 5) (ch_ring ch')) [] = (Chunk (int k) 100, [], []) \<and>
    read_chunk (calc_chunk_size 100) (int k) 100 (ch_store ch') = Some (replicate 100 7)"
  using chunk_roundtrip [of "replicate 100 7" 2 1 "example_chan []" "zero_info (calc_chunk_size 100)" "[]" 1 "\<lambda>_. 0" 5 "[]" "[]"] zero_info_ok
  by (auto simp: example_chan_def max_count_def)

section \<open>Refused sends\<close>

text \<open>Sends that all have to be refused.\<close>

primrec refused_sends :: "u32 \<Rightarrow> bytes \<Rightarrow> nat \<Rightarrow> msg ring chan \<Rightarrow> msg ring chan option" where
  "refused_sends cc_id data 0 ch = Some ch"
| "refused_sends cc_id data (Suc n) ch =
     do { (ok, ch) \<leftarrow> route_try_send (\<lambda>_ ch. ch) 0 cc_id data ch; if ok then None else refused_sends cc_id data n ch }"

lemma refused_send:
  assumes "64 < length data" and "length data < 2 ^ 31" and "sending (ch_end ch)" and "connections (ch_head ch) \<noteq> 0"
    and full: "\<And>m. ring_push (connections (ch_head ch)) m (ch_ring ch) = (None, ch_ring ch)"
    and "ch_store ch (calc_chunk_size (of_nat (length data))) = Some info" and "info_ok info ids" and "length ids < max_count"
    and "roomy (calc_chunk_size (of_nat (length data))) info"
  shows "\<exists>k acc info'. route_try_send env 0 cc_id data ch =
      Some (False, ch\<lparr>ch_acc := acc, ch_store := (ch_store ch)(calc_chunk_size (of_nat (length data)) \<mapsto> info')\<rparr>) \<and>
    info_ok info' (ids @ [k]) \<and> roomy (calc_chunk_size (of_nat (length data))) info'"
proof -
  let ?tp = "try_push env 0 cc_id (ch_acc ch)" and ?cs = "calc_chunk_size (of_nat (length data))" and ?ch = "ch\<lparr>ch_acc := ch_acc ch + 1\<rparr>"
  have "send Route (try_push env 0 cc_id) data ch = send_payload ?tp True (connections (ch_head ch)) data ?ch"
    using assms(1,3,4) by (auto simp: send_def ready_sending_def)
  moreover have "ch_store ?ch ?cs = Some info" using assms(6) by simp
  then obtain k info' where "send_payload ?tp True (connections (ch_head ch)) data ?ch =
        ?tp (of_nat (length data) - 64, Ref (int k)) (?ch\<lparr>ch_store := (ch_store ?ch)(?cs \<mapsto> info')\<rparr>)"
      "info_ok info' (ids @ [k])" "roomy ?cs info'"
    using send_payload_chunk [OF assms(1,2) _ assms(7-9), of ?ch ?tp "connections (ch_head ch)"] by blast
  moreover have "?tp f (?ch\<lparr>ch_store := st\<rparr>) = Some (False, ?ch\<lparr>ch_store := st\<rparr>)" for f st
    using full by (simp add: try_push_def route_push_def after_push_def)
  ultimately show ?thesis by (auto simp: route_try_send_def)
qed

lemma refused_sends_lose:
  assumes "64 < length data" and "length data < 2 ^ 31"
  shows "sending (ch_end ch) \<Longrightarrow> connections (ch_head ch) \<noteq> 0 \<Longrightarrow>
    (\<And>m. ring_push (connections (ch_head ch)) m (ch_ring ch) = (None, ch_ring ch)) \<Longrightarrow>
    ch_store ch (calc_chunk_size (of_nat (length data))) = Some info \<Longrightarrow> info_ok info ids \<Longrightarrow> length ids + n \<le> max_count \<Longrightarrow>
    roomy (calc_chunk_size (of_nat (length data))) info \<Longrightarrow>
    \<exists>ch' info' ids'. refused_sends cc_id data n ch = Some ch' \<and> ch_ring ch' = ch_ring ch \<and>
      ch_store ch' (calc_chunk_size (of_nat (length data))) = Some info' \<and> info_ok info' ids' \<and> length ids' = length ids + n"
proof (induction n arbitrary: ch info ids)
  case 0
  then show ?case by auto
next
  case (Suc n)
  let ?cs = "calc_chunk_size (of_nat (length data))"
  have "length ids < max_count" using Suc.prems(6) by simp
  then obtain k acc info' where s: "route_try_send (\<lambda>_ ch. ch) 0 cc_id data ch =
        Some (False, ch\<lparr>ch_acc := acc, ch_store := (ch_store ch)(?cs \<mapsto> info')\<rparr>)" "info_ok info' (ids @ [k])" "roomy ?cs info'"
    using refused_send [OF assms Suc.prems(1-5) _ Suc.prems(7)] by blast
  let ?ch = "ch\<lparr>ch_acc := acc, ch_store := (ch_store ch)(?cs \<mapsto> info')\<rparr>"
  have "\<exists>ch' info'' ids'. refused_sends cc_id data n ?ch = Some ch' \<and> ch_ring ch' = ch_ring ?ch \<and>
      ch_store ch' ?cs = Some info'' \<and> info_ok info'' ids' \<and> length ids' = length (ids @ [k]) + n"
    using Suc.IH [of ?ch info' "ids @ [k]"] Suc.prems s(2,3) by simp
  then show ?case using s(1) by auto
qed

text \<open>
  A refused send of a large message keeps the chunk it acquired: after 32 of them, made while the
  ring was full, no chunk of the size is left although no message is under way in one.
\<close>

theorem refused_sends_leak:
  assumes "64 < length data" and "length data < 2 ^ 31" and "sending (ch_end ch)" and "connections (ch_head ch) \<noteq> 0"
    and full: "\<forall>m. ring_push (connections (ch_head ch)) m (ch_ring ch) = (None, ch_ring ch)"
    and "ch_store ch (calc_chunk_size (of_nat (length data))) = Some (zero_info (calc_chunk_size (of_nat (length data))))"
  shows "\<exists>ch' st. refused_sends cc_id data 32 ch = Some ch' \<and> ch_ring ch' = ch_ring ch \<and>
    acquire_storage (of_nat (length data)) cc (ch_store ch') = Some ((0, False), st)"
proof -
  let ?cs = "calc_chunk_size (of_nat (length data))"
  obtain ch' info ids where r: "refused_sends cc_id data 32 ch = Some ch'" "ch_ring ch' = ch_ring ch" "ch_store ch' ?cs = Some info"
      "info_ok info ids" "length ids = 32"
    using refused_sends_lose [OF assms(1-4) spec [OF full] assms(6) zero_info_ok(1) _ zero_info_ok(2), of 32 cc_id] by (auto simp: max_count_def)
  have "set ids = {..<max_count}"
    using r(4,5) by (intro card_subset_eq) (auto simp: info_ok_def max_count_def distinct_card)
  then have "free_ids (prepare (ci_pool info)) {}" using r(4) by (simp add: info_ok_def)
  then have "acquire (prepare (ci_pool info)) = Some (- 1, prepare (ci_pool info))" by (rule ip.exhausted_law)
  then show ?thesis using r by (auto simp: acquire_storage_def)
qed

definition full_chan :: "msg ring chan" where
  "full_chan = example_chan \<lparr>ring_wt = 0, ring_epoch = 0, ring_slots = replicate 256 \<lparr>slot_data = make_msg 2 0 (0, Frag [7]), slot_rc = 1\<rparr>\<rparr>"

theorem refused_sends_leak_witness:
  "\<exists>ch' st. refused_sends 2 (replicate 100 7) 32 full_chan = Some ch' \<and> acquire_storage 100 1 (ch_store ch') = Some ((0, False), st)"
proof -
  have "\<forall>m. ring_push (connections (ch_head full_chan)) m (ch_ring full_chan) = (None, ch_ring full_chan)"
    by (simp add: full_chan_def example_chan_def ring_push_def index_of_def rc_readers_def rc_epoch_def ep_mask_def)
  with refused_sends_leak [of "replicate 100 7" full_chan 2 1] show ?thesis by (auto simp: full_chan_def example_chan_def)
qed

end
