(* ===== verification/GenericMsg.thy ===== *)
theory GenericMsg
  imports DzFlat
begin

text \<open>
  Self-describing messages (\<open>include/ipc_msg/ipc_msg_base/generic_message.hpp\<close>): a list of named
  fields with a type code and the bytes of a value, the typed setters and getters, the page-coded
  wire format, and the flat segment that a message may carry instead of fields.
\<close>

section \<open>Fields\<close>

record field =
  f_name :: bytes
  f_type :: byte
  f_data :: bytes

text \<open>The segment is owned (\<open>gm_seg\<close>) or borrowed, with the length of its content.\<close>

record generic_message =
  gm_base :: msg_base
  gm_fields :: "field list"
  gm_seg :: bytes
  gm_borrow :: "bytes option"
  gm_len :: u32
  gm_hash :: u32

text \<open>The codes of \<open>FieldType\<close>.\<close>

definition FT_BOOL :: byte where "FT_BOOL = 1"
definition FT_INT8 :: byte where "FT_INT8 = 2"
definition FT_UINT8 :: byte where "FT_UINT8 = 3"
definition FT_INT16 :: byte where "FT_INT16 = 4"
definition FT_UINT16 :: byte where "FT_UINT16 = 5"
definition FT_INT32 :: byte where "FT_INT32 = 6"
definition FT_UINT32 :: byte where "FT_UINT32 = 7"
definition FT_INT64 :: byte where "FT_INT64 = 8"
definition FT_UINT64 :: byte where "FT_UINT64 = 9"
definition FT_FLOAT32 :: byte where "FT_FLOAT32 = 10"
definition FT_FLOAT64 :: byte where "FT_FLOAT64 = 11"
definition FT_STRING :: byte where "FT_STRING = 12"
definition FT_BOOL_ARRAY :: byte where "FT_BOOL_ARRAY = 13"
definition FT_INT8_ARRAY :: byte where "FT_INT8_ARRAY = 14"
definition FT_UINT8_ARRAY :: byte where "FT_UINT8_ARRAY = 15"
definition FT_INT16_ARRAY :: byte where "FT_INT16_ARRAY = 16"
definition FT_UINT16_ARRAY :: byte where "FT_UINT16_ARRAY = 17"
definition FT_INT32_ARRAY :: byte where "FT_INT32_ARRAY = 18"
definition FT_UINT32_ARRAY :: byte where "FT_UINT32_ARRAY = 19"
definition FT_INT64_ARRAY :: byte where "FT_INT64_ARRAY = 20"
definition FT_UINT64_ARRAY :: byte where "FT_UINT64_ARRAY = 21"
definition FT_FLOAT32_ARRAY :: byte where "FT_FLOAT32_ARRAY = 22"
definition FT_FLOAT64_ARRAY :: byte where "FT_FLOAT64_ARRAY = 23"
definition FT_STRING_ARRAY :: byte where "FT_STRING_ARRAY = 24"
definition FT_NESTED :: byte where "FT_NESTED = 25"
definition FT_NESTED_ARRAY :: byte where "FT_NESTED_ARRAY = 26"

lemmas field_type_defs =
  FT_BOOL_def FT_INT8_def FT_UINT8_def FT_INT16_def FT_UINT16_def FT_INT32_def
  FT_UINT32_def FT_INT64_def FT_UINT64_def FT_FLOAT32_def FT_FLOAT64_def FT_STRING_def
  FT_BOOL_ARRAY_def FT_INT8_ARRAY_def FT_UINT8_ARRAY_def FT_INT16_ARRAY_def FT_UINT16_ARRAY_def FT_INT32_ARRAY_def
  FT_UINT32_ARRAY_def FT_INT64_ARRAY_def FT_UINT64_ARRAY_def FT_FLOAT32_ARRAY_def FT_FLOAT64_ARRAY_def FT_STRING_ARRAY_def
  FT_NESTED_def FT_NESTED_ARRAY_def

definition new_message :: generic_message where
  "new_message =
     \<lparr>gm_base = msg_base_init 0, gm_fields = [], gm_seg = [], gm_borrow = None, gm_len = 0, gm_hash = 0\<rparr>"

definition clear_fields :: "generic_message \<Rightarrow> generic_message" where
  "clear_fields g = g\<lparr>gm_fields := [], gm_seg := [], gm_hash := 0\<rparr>"

primrec find_from :: "nat \<Rightarrow> bytes \<Rightarrow> field list \<Rightarrow> nat option" where
  "find_from i name [] = None"
| "find_from i name (f # fs) = (if f_name f = name then Some i else find_from (i + 1) name fs)"

definition find_field :: "bytes \<Rightarrow> generic_message \<Rightarrow> nat option" where
  "find_field name g = find_from 0 name (gm_fields g)"

text \<open>The setters replace the first field of the name or append a field.\<close>

definition store_field :: "bytes \<Rightarrow> byte \<Rightarrow> bytes \<Rightarrow> generic_message \<Rightarrow> generic_message" where
  "store_field name t d g =
     (let f = \<lparr>f_name = name, f_type = t, f_data = d\<rparr>
      in case find_field name g of
           None \<Rightarrow> g\<lparr>gm_fields := gm_fields g @ [f]\<rparr>
         | Some i \<Rightarrow> g\<lparr>gm_fields := (gm_fields g)[i := f]\<rparr>)"

definition append_raw :: "bytes \<Rightarrow> nat \<Rightarrow> 'a::len word \<Rightarrow> bytes" where
  "append_raw dst n v = dst @ le_bytes n v"

definition set_scalar :: "bytes \<Rightarrow> byte \<Rightarrow> nat \<Rightarrow> 'a::len word \<Rightarrow> generic_message \<Rightarrow> generic_message" where
  "set_scalar name t n v g = store_field name t (append_raw [] n v) g"

text \<open>Sizes are stored as \<open>int32_t\<close>.\<close>

definition size_bytes :: "nat \<Rightarrow> bytes" where
  "size_bytes n = le_bytes 4 (of_nat n :: u32)"

definition set_string_impl :: "bytes \<Rightarrow> byte \<Rightarrow> bytes \<Rightarrow> generic_message \<Rightarrow> generic_message" where
  "set_string_impl name t s g = store_field name t (size_bytes (length s) @ s) g"

definition set_array_impl :: "bytes \<Rightarrow> byte \<Rightarrow> nat \<Rightarrow> 'a::len word list \<Rightarrow> generic_message \<Rightarrow> generic_message" where
  "set_array_impl name t n vs g = store_field name t (size_bytes (length vs) @ concat (map (le_bytes n) vs)) g"

definition set_strings_impl :: "bytes \<Rightarrow> byte \<Rightarrow> bytes list \<Rightarrow> generic_message \<Rightarrow> generic_message" where
  "set_strings_impl name t ss g =
     store_field name t (size_bytes (length ss) @ concat (map (\<lambda>s. size_bytes (length s) @ s) ss)) g"

section \<open>The wire format\<close>

text \<open>
  Every field is the size of its name, the name, the type and the data. A message without fields is
  the buffer alone, \<open>junk\<close> being what it held.
\<close>

definition field_pieces :: "field \<Rightarrow> bytes list" where
  "field_pieces f =
     [size_bytes (length (f_name f)), f_name f, [f_type f]] @ (if f_data f = [] then [] else [f_data f])"

definition gm_serialize :: "(nat \<Rightarrow> byte) \<Rightarrow> generic_message \<Rightarrow> (generic_message \<times> bytes) option" where
  "gm_serialize junk g =
     (if gm_fields g = []
      then let (m, data) = serialize_data_cut junk (gm_base g) 0 in Some (g\<lparr>gm_base := m\<rparr>, data)
      else let total = (\<Sum>f\<leftarrow>gm_fields g. 4 + of_nat (length (f_name f)) + 1 + of_nat (length (f_data f)))
           in do {
                (m, data) \<leftarrow> serialize_fields junk (gm_base g) total (concat (map field_pieces (gm_fields g)));
                Some (g\<lparr>gm_base := m\<rparr>, data)
              })"

section \<open>Paged reads\<close>

text \<open>
  \<open>read_paged\<close>, \<open>read_string_paged\<close> and \<open>read_bytes_paged\<close>: bytes that are not there are zeros.
  The sums are those of \<open>uint32_t\<close>.
\<close>

definition paged_rest :: "bytes \<Rightarrow> nat \<Rightarrow> bytes \<Rightarrow> nat \<Rightarrow> (bytes \<times> nat) option" where
  "paged_rest buf n acc offset =
     (let r = sub32 n (length acc)
      in if 0 < r \<and> wrap32 (offset + r) \<le> wrap32 (length buf)
         then do { bs \<leftarrow> get_bytes buf offset r; Some (acc @ bs, wrap32 (offset + r)) }
         else Some (acc @ replicate r 0, offset))"

primrec paged_cuts :: "nat \<Rightarrow> bytes \<Rightarrow> nat \<Rightarrow> bytes \<Rightarrow> nat \<Rightarrow> nat \<Rightarrow> (bytes \<times> nat) option" where
  "paged_cuts 0 buf n acc offset pure = paged_rest buf n acc offset"
| "paged_cuts (Suc k) buf n acc offset pure =
     (let copy = min (1460 - pure mod 1460) (sub32 n (length acc))
      in if wrap32 (length buf) < wrap32 (offset + copy) then paged_rest buf n acc offset
         else do {
           bs \<leftarrow> get_bytes buf offset copy;
           paged_cuts k buf n (acc @ bs) (wrap32 (wrap32 (offset + copy) + 12)) (wrap32 (pure + copy))
         })"

definition read_paged :: "bytes \<Rightarrow> nat \<Rightarrow> nat \<Rightarrow> (bytes \<times> nat) option" where
  "read_paged buf n offset =
     (let passed = offset div 1472; pure = sub32 offset (wrap32 (passed * 12));
          cut_cnt = sub32 (wrap32 (pure + n) div 1460) (pure div 1460)
      in paged_cuts cut_cnt buf n [] offset pure)"

definition read_int32 :: "bytes \<Rightarrow> nat \<Rightarrow> (int \<times> nat) option" where
  "read_int32 buf offset = do { (bs, offset) \<leftarrow> read_paged buf 4 offset; Some (sint (of_le bs :: u32), offset) }"

definition read_string_paged :: "bytes \<Rightarrow> nat \<Rightarrow> int \<Rightarrow> (bytes \<times> nat) option" where
  "read_string_paged buf offset sz = (if sz \<le> 0 then Some ([], offset) else read_paged buf (nat sz) offset)"

section \<open>Values\<close>

text \<open>
  The cases of \<open>deserialize\<close> by the form of the value: a scalar or an array of elements of some
  bytes, a string or nested message, several of them.
\<close>

datatype shape = Scalar nat | Str | Array nat | Strs

definition shape_of :: "byte \<Rightarrow> shape option" where
  "shape_of t =
     (if t \<in> {FT_BOOL, FT_INT8, FT_UINT8} then Some (Scalar 1)
      else if t \<in> {FT_INT16, FT_UINT16} then Some (Scalar 2)
      else if t \<in> {FT_INT32, FT_UINT32, FT_FLOAT32} then Some (Scalar 4)
      else if t \<in> {FT_INT64, FT_UINT64, FT_FLOAT64} then Some (Scalar 8)
      else if t \<in> {FT_STRING, FT_NESTED} then Some Str
      else if t \<in> {FT_BOOL_ARRAY, FT_INT8_ARRAY, FT_UINT8_ARRAY} then Some (Array 1)
      else if t \<in> {FT_INT16_ARRAY, FT_UINT16_ARRAY} then Some (Array 2)
      else if t \<in> {FT_INT32_ARRAY, FT_UINT32_ARRAY, FT_FLOAT32_ARRAY} then Some (Array 4)
      else if t \<in> {FT_INT64_ARRAY, FT_UINT64_ARRAY, FT_FLOAT64_ARRAY} then Some (Array 8)
      else if t \<in> {FT_STRING_ARRAY, FT_NESTED_ARRAY} then Some Strs
      else None)"

text \<open>The check before an element: single bytes stop at the end, others at the end of a further tail.\<close>

definition beyond :: "bytes \<Rightarrow> nat \<Rightarrow> nat \<Rightarrow> bool" where
  "beyond buf offset n =
     ((if n = 1 then wrap32 (length buf) else wrap32 (wrap32 (length buf) + 12)) < wrap32 (offset + n))"

text \<open>The inner \<open>None\<close> is a \<open>return\<close> out of \<open>deserialize\<close>.\<close>

primrec read_elems :: "nat \<Rightarrow> bytes \<Rightarrow> nat \<Rightarrow> nat \<Rightarrow> (bytes \<times> nat) option option" where
  "read_elems 0 buf n offset = Some (Some ([], offset))"
| "read_elems (Suc k) buf n offset =
     (if beyond buf offset n then Some None
      else do {
        (b, offset) \<leftarrow> read_paged buf n offset;
        more \<leftarrow> read_elems k buf n offset;
        Some (map_option (\<lambda>(bs, offset). (b @ bs, offset)) more)
      })"

definition read_str :: "bytes \<Rightarrow> nat \<Rightarrow> (bytes \<times> nat) option option" where
  "read_str buf offset =
     (if beyond buf offset 4 then Some None
      else do {
        (sz, offset) \<leftarrow> read_int32 buf offset;
        if sz < 0 then Some None
        else do { (s, offset) \<leftarrow> read_string_paged buf offset sz; Some (Some (size_bytes (length s) @ s, offset)) }
      })"

primrec read_strs :: "nat \<Rightarrow> bytes \<Rightarrow> nat \<Rightarrow> (bytes \<times> nat) option option" where
  "read_strs 0 buf offset = Some (Some ([], offset))"
| "read_strs (Suc k) buf offset =
     do {
       one \<leftarrow> read_str buf offset;
       (case one of
          None \<Rightarrow> Some None
        | Some (b, offset) \<Rightarrow>
            do { more \<leftarrow> read_strs k buf offset; Some (map_option (\<lambda>(bs, offset). (b @ bs, offset)) more) })
     }"

text \<open>An array is its count and then its elements.\<close>

definition read_counted :: "(nat \<Rightarrow> nat \<Rightarrow> (bytes \<times> nat) option option) \<Rightarrow> bytes \<Rightarrow> nat \<Rightarrow> (bytes \<times> nat) option option" where
  "read_counted elems buf offset =
     (if beyond buf offset 4 then Some None
      else do {
        (count, offset) \<leftarrow> read_int32 buf offset;
        if count < 0 then Some None
        else do {
          more \<leftarrow> elems (nat count) offset;
          Some (map_option (\<lambda>(bs, offset). (size_bytes (nat count) @ bs, offset)) more)
        }
      })"

primrec read_value :: "shape \<Rightarrow> bytes \<Rightarrow> nat \<Rightarrow> (bytes \<times> nat) option option" where
  "read_value (Scalar n) buf offset =
     (if beyond buf offset n then Some None else do { v \<leftarrow> read_paged buf n offset; Some (Some v) })"
| "read_value Str buf offset = read_str buf offset"
| "read_value (Array n) buf offset = read_counted (\<lambda>k. read_elems k buf n) buf offset"
| "read_value Strs buf offset = read_counted (\<lambda>k. read_strs k buf) buf offset"

section \<open>Reading a message\<close>

text \<open>One round of the loop: the end, a tail skipped, or a field.\<close>

datatype round = Stop | Skip nat | Got_field field nat

definition read_round :: "bytes \<Rightarrow> nat \<Rightarrow> round option" where
  "read_round buf offset =
     (if 1460 \<le> offset mod 1472 then Some (Skip (wrap32 (offset + (1472 - offset mod 1472))))
      else if wrap32 (length buf) < wrap32 (offset + 4) then Some Stop
      else do {
        (name_size, offset) \<leftarrow> read_int32 buf offset;
        if name_size \<le> 0 \<or> wrap32 (length buf) < wrap32 (offset + nat name_size) then Some Stop
        else do {
          (name, offset) \<leftarrow> read_string_paged buf offset name_size;
          if wrap32 (length buf) < wrap32 (offset + 1) then Some Stop
          else do {
            (t, offset) \<leftarrow> read_paged buf 1 offset;
            (case shape_of (hd t) of
               None \<Rightarrow> Some Stop
             | Some sh \<Rightarrow>
                 do {
                   v \<leftarrow> read_value sh buf offset;
                   (case v of
                      None \<Rightarrow> Some Stop
                    | Some (d, offset) \<Rightarrow> Some (Got_field \<lparr>f_name = name, f_type = hd t, f_data = d\<rparr> offset))
                 })
          }
        }
      })"

partial_function (option) read_fields_from :: "bytes \<Rightarrow> nat \<Rightarrow> field list option" where
  "read_fields_from buf offset =
     (if wrap32 (offset + 12) < wrap32 (length buf)
      then do {
        r \<leftarrow> read_round buf offset;
        (case r of
           Stop \<Rightarrow> Some []
         | Skip offset \<Rightarrow> read_fields_from buf offset
         | Got_field f offset \<Rightarrow> do { fs \<leftarrow> read_fields_from buf offset; Some (f # fs) })
      }
      else Some [])"

definition gm_deserialize :: "bytes \<Rightarrow> generic_message \<Rightarrow> generic_message option" where
  "gm_deserialize buf g =
     (let g = g\<lparr>gm_fields := []\<rparr>
      in if length buf < 12 then Some g
         else do {
           fs \<leftarrow> read_fields_from buf 0;
           Some (g\<lparr>gm_fields := fs, gm_base := deserialize_data_cut (gm_base g) (of_nat (length buf))\<rparr>)
         })"

section \<open>Getters\<close>

text \<open>
  What a getter throws: \<open>runtime_error\<close>s, and \<open>length_error\<close> of a container of negative size. Reads
  outside the data of a field are \<open>None\<close>.
\<close>

datatype gm_error = Field_not_found | Data_too_short | Data_truncated | Length_error

definition read_raw :: "nat \<Rightarrow> bytes \<Rightarrow> nat \<Rightarrow> 'a::len word" where
  "read_raw n src at = (if at + n \<le> length src then of_le (take n (drop at src)) else 0)"

definition with_field :: "bytes \<Rightarrow> nat \<Rightarrow> (bytes \<Rightarrow> (gm_error + 'b) option) \<Rightarrow> generic_message \<Rightarrow> (gm_error + 'b) option" where
  "with_field name n get g =
     (case find_field name g of
        None \<Rightarrow> Some (Inl Field_not_found)
      | Some i \<Rightarrow> let d = f_data (gm_fields g ! i) in if length d < n then Some (Inl Data_too_short) else get d)"

definition get_scalar :: "nat \<Rightarrow> bytes \<Rightarrow> generic_message \<Rightarrow> (gm_error + 'a::len word) option" where
  "get_scalar n name g = with_field name n (\<lambda>d. Some (Inr (read_raw n d 0))) g"

definition get_array_impl :: "nat \<Rightarrow> bytes \<Rightarrow> generic_message \<Rightarrow> (gm_error + 'a::len word list) option" where
  "get_array_impl n name g =
     with_field name 4 (\<lambda>d.
       let count = sint (read_raw 4 d 0 :: u32)
       in if count < 0 then Some (Inl Length_error)
          else if length d < 4 + nat count * n then Some (Inl Data_truncated)
          else Some (Inr (map (\<lambda>i. read_raw n d (4 + i * n)) [0..<nat count]))) g"

definition get_string :: "bytes \<Rightarrow> generic_message \<Rightarrow> (gm_error + bytes) option" where
  "get_string name g =
     with_field name 4 (\<lambda>d.
       let sz = sint (read_raw 4 d 0 :: u32)
       in if sz < 0 then Some (Inr []) else map_option Inr (get_bytes d 4 (nat sz))) g"

definition get_nested :: "bytes \<Rightarrow> generic_message \<Rightarrow> (gm_error + generic_message) option" where
  "get_nested name g =
     with_field name 4 (\<lambda>d.
       let sz = sint (read_raw 4 d 0 :: u32)
       in if sz < 0 \<or> length d < 4 + nat sz then Some (Inl Data_truncated)
          else do { nested \<leftarrow> gm_deserialize (take (nat sz) (drop 4 d)) new_message; Some (Inr nested) }) g"

text \<open>
  The loop over the strings of an array. The test adds the signed size to an unsigned 64-bit
  offset; a negative size that gets past it is the size of a string.
\<close>

primrec strings_from :: "nat \<Rightarrow> bytes \<Rightarrow> nat \<Rightarrow> gm_error + bytes list" where
  "strings_from 0 d off = Inr []"
| "strings_from (Suc k) d off =
     (if length d < off + 4 then Inr []
      else let sz = sint (read_raw 4 d off :: u32); off = off + 4
           in if length d < nat ((int off + sz) mod 2 ^ 64) then Inr []
              else if sz < 0 then Inl Length_error
              else case strings_from k d (off + nat sz) of
                     Inl e \<Rightarrow> Inl e
                   | Inr ss \<Rightarrow> Inr (take (nat sz) (drop off d) # ss))"

definition get_string_array :: "bytes \<Rightarrow> generic_message \<Rightarrow> (gm_error + bytes list) option" where
  "get_string_array name g =
     with_field name 4 (\<lambda>d.
       let count = sint (read_raw 4 d 0 :: u32)
       in Some (if count < 0 then Inl Length_error else strings_from (nat count) d 4)) g"

primrec nested_from :: "nat \<Rightarrow> bytes \<Rightarrow> nat \<Rightarrow> generic_message list option" where
  "nested_from 0 d off = Some []"
| "nested_from (Suc k) d off =
     (if length d < off + 4 then Some []
      else let sz = sint (read_raw 4 d off :: u32); off = off + 4
           in if sz < 0 \<or> length d < off + nat sz then Some []
              else do {
                nested \<leftarrow> gm_deserialize (take (nat sz) (drop off d)) new_message;
                more \<leftarrow> nested_from k d (off + nat sz);
                Some (nested # more)
              })"

definition get_nested_array :: "bytes \<Rightarrow> generic_message \<Rightarrow> (gm_error + generic_message list) option" where
  "get_nested_array name g =
     with_field name 4 (\<lambda>d.
       let count = sint (read_raw 4 d 0 :: u32)
       in if count < 0 then Some (Inl Length_error) else map_option Inr (nested_from (nat count) d 4)) g"

section \<open>The setters and getters of each type\<close>

text \<open>Floating-point values are their bit patterns.\<close>

definition set_bool :: "bytes \<Rightarrow> bool \<Rightarrow> generic_message \<Rightarrow> generic_message" where
  "set_bool name v = set_scalar name FT_BOOL 1 (if v then 1 else 0 :: byte)"

definition get_bool :: "bytes \<Rightarrow> generic_message \<Rightarrow> (gm_error + bool) option" where
  "get_bool name g = map_option (map_sum id (\<lambda>v. v \<noteq> (0 :: byte))) (get_scalar 1 name g)"

definition set_int8 :: "bytes \<Rightarrow> byte \<Rightarrow> generic_message \<Rightarrow> generic_message" where
  "set_int8 name v = set_scalar name FT_INT8 1 v"

definition get_int8 :: "bytes \<Rightarrow> generic_message \<Rightarrow> (gm_error + byte) option" where
  "get_int8 name = get_scalar 1 name"

definition set_uint8 :: "bytes \<Rightarrow> byte \<Rightarrow> generic_message \<Rightarrow> generic_message" where
  "set_uint8 name v = set_scalar name FT_UINT8 1 v"

definition get_uint8 :: "bytes \<Rightarrow> generic_message \<Rightarrow> (gm_error + byte) option" where
  "get_uint8 name = get_scalar 1 name"

definition set_int16 :: "bytes \<Rightarrow> u16 \<Rightarrow> generic_message \<Rightarrow> generic_message" where
  "set_int16 name v = set_scalar name FT_INT16 2 v"

definition get_int16 :: "bytes \<Rightarrow> generic_message \<Rightarrow> (gm_error + u16) option" where
  "get_int16 name = get_scalar 2 name"

definition set_uint16 :: "bytes \<Rightarrow> u16 \<Rightarrow> generic_message \<Rightarrow> generic_message" where
  "set_uint16 name v = set_scalar name FT_UINT16 2 v"

definition get_uint16 :: "bytes \<Rightarrow> generic_message \<Rightarrow> (gm_error + u16) option" where
  "get_uint16 name = get_scalar 2 name"

definition set_int32 :: "bytes \<Rightarrow> u32 \<Rightarrow> generic_message \<Rightarrow> generic_message" where
  "set_int32 name v = set_scalar name FT_INT32 4 v"

definition get_int32 :: "bytes \<Rightarrow> generic_message \<Rightarrow> (gm_error + u32) option" where
  "get_int32 name = get_scalar 4 name"

definition set_uint32 :: "bytes \<Rightarrow> u32 \<Rightarrow> generic_message \<Rightarrow> generic_message" where
  "set_uint32 name v = set_scalar name FT_UINT32 4 v"

definition get_uint32 :: "bytes \<Rightarrow> generic_message \<Rightarrow> (gm_error + u32) option" where
  "get_uint32 name = get_scalar 4 name"

definition set_int64 :: "bytes \<Rightarrow> u64 \<Rightarrow> generic_message \<Rightarrow> generic_message" where
  "set_int64 name v = set_scalar name FT_INT64 8 v"

definition get_int64 :: "bytes \<Rightarrow> generic_message \<Rightarrow> (gm_error + u64) option" where
  "get_int64 name = get_scalar 8 name"

definition set_uint64 :: "bytes \<Rightarrow> u64 \<Rightarrow> generic_message \<Rightarrow> generic_message" where
  "set_uint64 name v = set_scalar name FT_UINT64 8 v"

definition get_uint64 :: "bytes \<Rightarrow> generic_message \<Rightarrow> (gm_error + u64) option" where
  "get_uint64 name = get_scalar 8 name"

definition set_float32 :: "bytes \<Rightarrow> u32 \<Rightarrow> generic_message \<Rightarrow> generic_message" where
  "set_float32 name v = set_scalar name FT_FLOAT32 4 v"

definition get_float32 :: "bytes \<Rightarrow> generic_message \<Rightarrow> (gm_error + u32) option" where
  "get_float32 name = get_scalar 4 name"

definition set_float64 :: "bytes \<Rightarrow> u64 \<Rightarrow> generic_message \<Rightarrow> generic_message" where
  "set_float64 name v = set_scalar name FT_FLOAT64 8 v"

definition get_float64 :: "bytes \<Rightarrow> generic_message \<Rightarrow> (gm_error + u64) option" where
  "get_float64 name = get_scalar 8 name"

definition set_bool_array :: "bytes \<Rightarrow> byte list \<Rightarrow> generic_message \<Rightarrow> generic_message" where
  "set_bool_array name vs = set_array_impl name FT_BOOL_ARRAY 1 vs"

definition get_bool_array :: "bytes \<Rightarrow> generic_message \<Rightarrow> (gm_error + byte list) option" where
  "get_bool_array name = get_array_impl 1 name"

definition set_int8_array :: "bytes \<Rightarrow> byte list \<Rightarrow> generic_message \<Rightarrow> generic_message" where
  "set_int8_array name vs = set_array_impl name FT_INT8_ARRAY 1 vs"

definition get_int8_array :: "bytes \<Rightarrow> generic_message \<Rightarrow> (gm_error + byte list) option" where
  "get_int8_array name = get_array_impl 1 name"

definition set_uint8_array :: "bytes \<Rightarrow> byte list \<Rightarrow> generic_message \<Rightarrow> generic_message" where
  "set_uint8_array name vs = set_array_impl name FT_UINT8_ARRAY 1 vs"

definition get_uint8_array :: "bytes \<Rightarrow> generic_message \<Rightarrow> (gm_error + byte list) option" where
  "get_uint8_array name = get_array_impl 1 name"

definition set_int16_array :: "bytes \<Rightarrow> u16 list \<Rightarrow> generic_message \<Rightarrow> generic_message" where
  "set_int16_array name vs = set_array_impl name FT_INT16_ARRAY 2 vs"

definition get_int16_array :: "bytes \<Rightarrow> generic_message \<Rightarrow> (gm_error + u16 list) option" where
  "get_int16_array name = get_array_impl 2 name"

definition set_uint16_array :: "bytes \<Rightarrow> u16 list \<Rightarrow> generic_message \<Rightarrow> generic_message" where
  "set_uint16_array name vs = set_array_impl name FT_UINT16_ARRAY 2 vs"

definition get_uint16_array :: "bytes \<Rightarrow> generic_message \<Rightarrow> (gm_error + u16 list) option" where
  "get_uint16_array name = get_array_impl 2 name"

definition set_int32_array :: "bytes \<Rightarrow> u32 list \<Rightarrow> generic_message \<Rightarrow> generic_message" where
  "set_int32_array name vs = set_array_impl name FT_INT32_ARRAY 4 vs"

definition get_int32_array :: "bytes \<Rightarrow> generic_message \<Rightarrow> (gm_error + u32 list) option" where
  "get_int32_array name = get_array_impl 4 name"

definition set_uint32_array :: "bytes \<Rightarrow> u32 list \<Rightarrow> generic_message \<Rightarrow> generic_message" where
  "set_uint32_array name vs = set_array_impl name FT_UINT32_ARRAY 4 vs"

definition get_uint32_array :: "bytes \<Rightarrow> generic_message \<Rightarrow> (gm_error + u32 list) option" where
  "get_uint32_array name = get_array_impl 4 name"

definition set_int64_array :: "bytes \<Rightarrow> u64 list \<Rightarrow> generic_message \<Rightarrow> generic_message" where
  "set_int64_array name vs = set_array_impl name FT_INT64_ARRAY 8 vs"

definition get_int64_array :: "bytes \<Rightarrow> generic_message \<Rightarrow> (gm_error + u64 list) option" where
  "get_int64_array name = get_array_impl 8 name"

definition set_uint64_array :: "bytes \<Rightarrow> u64 list \<Rightarrow> generic_message \<Rightarrow> generic_message" where
  "set_uint64_array name vs = set_array_impl name FT_UINT64_ARRAY 8 vs"

definition get_uint64_array :: "bytes \<Rightarrow> generic_message \<Rightarrow> (gm_error + u64 list) option" where
  "get_uint64_array name = get_array_impl 8 name"

definition set_float32_array :: "bytes \<Rightarrow> u32 list \<Rightarrow> generic_message \<Rightarrow> generic_message" where
  "set_float32_array name vs = set_array_impl name FT_FLOAT32_ARRAY 4 vs"

definition get_float32_array :: "bytes \<Rightarrow> generic_message \<Rightarrow> (gm_error + u32 list) option" where
  "get_float32_array name = get_array_impl 4 name"

definition set_float64_array :: "bytes \<Rightarrow> u64 list \<Rightarrow> generic_message \<Rightarrow> generic_message" where
  "set_float64_array name vs = set_array_impl name FT_FLOAT64_ARRAY 8 vs"

definition get_float64_array :: "bytes \<Rightarrow> generic_message \<Rightarrow> (gm_error + u64 list) option" where
  "get_float64_array name = get_array_impl 8 name"

definition set_string :: "bytes \<Rightarrow> bytes \<Rightarrow> generic_message \<Rightarrow> generic_message" where
  "set_string name s = set_string_impl name FT_STRING s"

definition set_string_array :: "bytes \<Rightarrow> bytes list \<Rightarrow> generic_message \<Rightarrow> generic_message" where
  "set_string_array name ss = set_strings_impl name FT_STRING_ARRAY ss"

definition set_nested :: "(nat \<Rightarrow> byte) \<Rightarrow> bytes \<Rightarrow> generic_message \<Rightarrow> generic_message \<Rightarrow> generic_message option" where
  "set_nested junk name v g = do { (v, s) \<leftarrow> gm_serialize junk v; Some (set_string_impl name FT_NESTED s g) }"

definition set_nested_array :: "(nat \<Rightarrow> byte) \<Rightarrow> bytes \<Rightarrow> generic_message list \<Rightarrow> generic_message \<Rightarrow> generic_message option" where
  "set_nested_array junk name vs g =
     do { (u, ss) \<leftarrow> mapM (\<lambda>_ v. do { (v, s) \<leftarrow> gm_serialize junk v; Some ((), s) }) () vs;
          Some (set_strings_impl name FT_NESTED_ARRAY ss g) }"

section \<open>Flat segments\<close>

definition gm_dzflat_read :: "bytes option \<Rightarrow> generic_message \<Rightarrow> bool \<times> generic_message" where
  "gm_dzflat_read seg g =
     (case seg of
        Some p \<Rightarrow>
          if looks_like_dzflat seg
          then (True, g\<lparr>gm_seg := take (unat (sh_total_size (header_of p))) p, gm_hash := sh_schema_hash (header_of p),
                        gm_borrow := None, gm_fields := []\<rparr>)
          else (False, g)
      | None \<Rightarrow> (False, g))"

definition gm_dzflat_adopt :: "bytes option \<Rightarrow> u32 \<Rightarrow> generic_message \<Rightarrow> bool \<times> generic_message" where
  "gm_dzflat_adopt buf hash g =
     (case buf of
        Some p \<Rightarrow>
          if looks_like_dzflat buf
          then (True, g\<lparr>gm_borrow := Some p, gm_len := sh_total_size (header_of p), gm_hash := hash,
                        gm_seg := [], gm_fields := []\<rparr>)
          else (False, g)
      | None \<Rightarrow> (False, g))"

definition has_dzflat :: "generic_message \<Rightarrow> bool" where
  "has_dzflat g \<longleftrightarrow> gm_seg g \<noteq> [] \<or> gm_borrow g \<noteq> None"

definition dzflat_is_borrowed :: "generic_message \<Rightarrow> bool" where
  "dzflat_is_borrowed g \<longleftrightarrow> gm_borrow g \<noteq> None"

definition dzflat_data :: "generic_message \<Rightarrow> bytes option" where
  "dzflat_data g = (case gm_borrow g of Some p \<Rightarrow> Some p | None \<Rightarrow> if gm_seg g = [] then None else Some (gm_seg g))"

definition dzflat_len :: "generic_message \<Rightarrow> nat" where
  "dzflat_len g = (if gm_borrow g \<noteq> None then unat (gm_len g) else length (gm_seg g))"

end
