(* ===== verification/GenericLaws.thy ===== *)
theory GenericLaws
  imports GenericMsg "HOL-Library.Sublist"
begin

text \<open>
  Self-describing messages: what a getter returns after a setter, that every message is well-typed
  whatever it was read from, that reading ends and stays inside the buffer, and the round trip
  through the wire format.
\<close>

section \<open>Fields by name\<close>

primrec update_fields :: "field \<Rightarrow> field list \<Rightarrow> field list" where
  "update_fields f [] = [f]"
| "update_fields f (x # xs) = (if f_name x = f_name f then f # xs else x # update_fields f xs)"

definition field_of :: "bytes \<Rightarrow> generic_message \<Rightarrow> field option" where
  "field_of name g = find (\<lambda>f. f_name f = name) (gm_fields g)"

lemma find_from_range: "find_from i name fs = Some j \<Longrightarrow> i \<le> j \<and> j < i + length fs"
  by (induction fs arbitrary: i) (fastforce split: if_splits)+

lemma find_from_find:
  "map_option (\<lambda>j. fs ! (j - i)) (find_from i name fs) = find (\<lambda>f. f_name f = name) fs"
proof (induction fs arbitrary: i)
  case Nil
  then show ?case by simp
next
  case (Cons f fs)
  have "(f # fs) ! (j - i) = fs ! (j - (i + 1))" if h: "find_from (i + 1) name fs = Some j" for j
  proof -
    obtain k where "j = i + 1 + k" using find_from_range [OF h] le_Suc_ex by blast
    then show ?thesis by simp
  qed
  then have "map_option (\<lambda>j. (f # fs) ! (j - i)) (find_from (i + 1) name fs) = map_option (\<lambda>j. fs ! (j - (i + 1))) (find_from (i + 1) name fs)"
    by (cases "find_from (i + 1) name fs") auto
  then show ?case using Cons.IH [of "i + 1"] by simp
qed

lemma field_of_find: "field_of name g = map_option (\<lambda>i. gm_fields g ! i) (find_field name g)"
  using find_from_find [of "gm_fields g" 0 name] by (simp add: field_of_def find_field_def)

lemma find_from_update:
  "(case find_from i (f_name f) fs of None \<Rightarrow> fs @ [f] | Some j \<Rightarrow> fs[j - i := f]) = update_fields f fs"
proof (induction fs arbitrary: i)
  case Nil
  then show ?case by simp
next
  case (Cons x fs)
  have "(x # fs)[j - i := f] = x # fs[j - (i + 1) := f]" if h: "find_from (i + 1) (f_name f) fs = Some j" for j
  proof -
    obtain k where "j = i + 1 + k" using find_from_range [OF h] le_Suc_ex by blast
    then show ?thesis by simp
  qed
  then show ?case using Cons.IH [of "i + 1"] by (auto split: option.splits)
qed

lemma store_fields: "gm_fields (store_field name t d g) = update_fields \<lparr>f_name = name, f_type = t, f_data = d\<rparr> (gm_fields g)"
  using find_from_update [where i = 0 and f = "\<lparr>f_name = name, f_type = t, f_data = d\<rparr>" and fs = "gm_fields g"]
  by (simp add: store_field_def find_field_def Let_def split: option.splits)

lemma find_update: "find (\<lambda>x. f_name x = name) (update_fields f fs) =
    (if f_name f = name then Some f else find (\<lambda>x. f_name x = name) fs)"
  by (induction fs) auto

lemma field_of_store: "field_of name (store_field name' t d g) =
    (if name' = name then Some \<lparr>f_name = name, f_type = t, f_data = d\<rparr> else field_of name g)"
  by (simp add: field_of_def store_fields find_update)

lemma with_field_of:
  "with_field name n get g =
     (case field_of name g of None \<Rightarrow> Some (Inl Field_not_found)
      | Some f \<Rightarrow> if length (f_data f) < n then Some (Inl Data_too_short) else get (f_data f))"
  by (simp add: with_field_def field_of_find Let_def split: option.splits)

section \<open>Types\<close>

text \<open>The data that belong to a form of value.\<close>

definition sized :: "bytes \<Rightarrow> bytes" where
  "sized s = size_bytes (length s) @ s"

inductive typed :: "shape \<Rightarrow> bytes \<Rightarrow> bool" where
  typed_scalar: "length d = n \<Longrightarrow> typed (Scalar n) d"
| typed_str: "length s < 2 ^ 31 \<Longrightarrow> typed Str (sized s)"
| typed_array: "c < 2 ^ 31 \<Longrightarrow> length d = c * n \<Longrightarrow> typed (Array n) (size_bytes c @ d)"
| typed_strs: "length ss < 2 ^ 31 \<Longrightarrow> \<forall>s \<in> set ss. length s < 2 ^ 31 \<Longrightarrow>
     typed Strs (size_bytes (length ss) @ concat (map sized ss))"

inductive_simps typed_simps: "typed (Scalar n) d" "typed Str d" "typed (Array n) d" "typed Strs d"

definition field_typed :: "field \<Rightarrow> bool" where
  "field_typed f \<longleftrightarrow> (\<exists>sh. shape_of (f_type f) = Some sh \<and> typed sh (f_data f))"

definition msg_typed :: "generic_message \<Rightarrow> bool" where
  "msg_typed g \<longleftrightarrow> (\<forall>f \<in> set (gm_fields g). field_typed f)"

lemma set_update_fields: "set (update_fields f fs) \<subseteq> insert f (set fs)"
  by (induction fs) auto

lemma store_typed:
  "msg_typed g \<Longrightarrow> shape_of t = Some sh \<Longrightarrow> typed sh d \<Longrightarrow> msg_typed (store_field name t d g)"
  using set_update_fields by (fastforce simp: msg_typed_def store_fields field_typed_def)

lemma length_size_bytes [simp]: "length (size_bytes n) = 4"
  by (simp add: size_bytes_def)

lemma size_value: "n < 2 ^ 31 \<Longrightarrow> sint (of_le (size_bytes n) :: u32) = int n"
  by (simp add: size_bytes_def signed_of_nat signed_take_bit_int_eq_self)

lemma read_size: "n < 2 ^ 31 \<Longrightarrow> sint (read_raw 4 (size_bytes n @ s) 0 :: u32) = int n"
  using size_value by (simp add: read_raw_def)

section \<open>Reading ends inside the buffer\<close>

text \<open>
  A read yields the bytes asked for, does not go back, and goes forward when a byte other than
  zero was read.
\<close>

definition advances :: "bytes \<Rightarrow> nat \<Rightarrow> nat \<Rightarrow> bool" where
  "advances buf off off' \<longleftrightarrow> off \<le> off' \<and> off' \<le> length buf + 12"

lemma advances_trans: "advances buf a b \<Longrightarrow> advances buf b c \<Longrightarrow> advances buf a c"
  by (simp add: advances_def)

lemma advances_bound: "advances buf a b \<Longrightarrow> b \<le> length buf + 12"
  by (simp add: advances_def)

lemma paged_rest_total:
  assumes "length buf < 2 ^ 30" and "n < 2 ^ 31" and "off \<le> length buf + 12" and "length acc \<le> n"
  shows "\<exists>bs off'. paged_rest buf n acc off = Some (acc @ bs, off') \<and> length (acc @ bs) = n \<and> advances buf off off' \<and>
    (off' = off \<longrightarrow> set bs \<subseteq> {0})"
proof -
  have w: "wrap32 (off + (n - length acc)) = off + (n - length acc)" "wrap32 (length buf) = length buf" "sub32 n (length acc) = n - length acc"
    using assms by (simp_all add: wrap_simps)
  show ?thesis
  proof (cases "0 < n - length acc \<and> off + (n - length acc) \<le> length buf")
    case True
    then show ?thesis using w assms(4) by (auto simp: paged_rest_def get_bytes_def advances_def Let_def)
  next
    case False
    then have "paged_rest buf n acc off = Some (acc @ replicate (n - length acc) 0, off)"
      using w by (auto simp: paged_rest_def Let_def)
    then show ?thesis using assms(3,4) by (auto simp: advances_def)
  qed
qed

lemma paged_cuts_total:
  assumes "length buf < 2 ^ 30" and "n < 2 ^ 31"
  shows "off \<le> length buf + 12 \<Longrightarrow> length acc \<le> n \<Longrightarrow>
    \<exists>bs off'. paged_cuts k buf n acc off pure = Some (acc @ bs, off') \<and> length (acc @ bs) = n \<and> advances buf off off' \<and>
      (off' = off \<longrightarrow> set bs \<subseteq> {0})"
proof (induction k arbitrary: acc off pure)
  case 0
  then show ?case using paged_rest_total [OF assms] by simp
next
  case (Suc k)
  define copy where "copy = min (1460 - pure mod 1460) (n - length acc)"
  have w: "wrap32 (off + copy) = off + copy" "wrap32 (length buf) = length buf" "sub32 n (length acc) = n - length acc" "wrap32 (off + copy + 12) = off + copy + 12"
    using Suc.prems assms by (simp_all add: wrap_simps copy_def)
  show ?case
  proof (cases "length buf < off + copy")
    case True
    then have "paged_cuts (Suc k) buf n acc off pure = paged_rest buf n acc off"
      using w by (simp add: copy_def [symmetric])
    then show ?thesis using paged_rest_total [OF assms Suc.prems] by simp
  next
    case False
    let ?b = "take copy (drop off buf)"
    have b: "length ?b = copy" "copy \<le> n - length acc" using False by (auto simp: copy_def)
    have step: "paged_cuts (Suc k) buf n acc off pure = paged_cuts k buf n (acc @ ?b) (off + copy + 12) (wrap32 (pure + copy))"
      using False w by (simp add: copy_def [symmetric] get_bytes_def)
    have "off + copy + 12 \<le> length buf + 12" "length (acc @ ?b) \<le> n" using False b Suc.prems(2) by auto
    then obtain bs off' where r: "paged_cuts k buf n (acc @ ?b) (off + copy + 12) (wrap32 (pure + copy)) = Some ((acc @ ?b) @ bs, off')"
        "length ((acc @ ?b) @ bs) = n" "advances buf (off + copy + 12) off'"
      using Suc.IH [of "off + copy + 12" "acc @ ?b" "wrap32 (pure + copy)"] by blast
    then have "off < off'" "advances buf off off'" by (auto simp: advances_def)
    then show ?thesis using step r by auto
  qed
qed

lemma read_paged_total:
  assumes "length buf < 2 ^ 30" and "n < 2 ^ 31" and "off \<le> length buf + 12"
  shows "\<exists>bs off'. read_paged buf n off = Some (bs, off') \<and> length bs = n \<and> advances buf off off' \<and> (off' = off \<longrightarrow> set bs \<subseteq> {0})"
  using paged_cuts_total [OF assms(1,2), of off "[]"] assms(3) by (fastforce simp: read_paged_def Let_def)

lemma of_le_zeros: "set bs \<subseteq> {0} \<Longrightarrow> of_le bs = (0 :: 'a::len word)"
  by (induction bs) auto

lemma sint_u32_bound: "sint (w :: u32) < 2 ^ 31"
  using sint_lt [of w] by simp

lemma read_int32_total:
  assumes "length buf < 2 ^ 30" and "off \<le> length buf + 12"
  shows "\<exists>i off'. read_int32 buf off = Some (i, off') \<and> i < 2 ^ 31 \<and> advances buf off off' \<and> (off' = off \<longrightarrow> i = 0)"
proof -
  obtain bs off' where r: "read_paged buf 4 off = Some (bs, off')" "advances buf off off'" "off' = off \<longrightarrow> set bs \<subseteq> {0}"
    using read_paged_total [OF assms(1) _ assms(2), of 4] by auto
  have "off' = off \<longrightarrow> (of_le bs :: u32) = 0" using r(3) of_le_zeros by blast
  then show ?thesis using r sint_u32_bound by (auto simp: read_int32_def)
qed

lemma read_string_total:
  assumes "length buf < 2 ^ 30" and "off \<le> length buf + 12" and "i < 2 ^ 31"
  shows "\<exists>s off'. read_string_paged buf off i = Some (s, off') \<and> length s = nat i \<and> advances buf off off'"
proof (cases "i \<le> 0")
  case True
  then show ?thesis using assms(2) by (simp add: read_string_paged_def advances_def)
next
  case False
  then have "nat i < 2 ^ 31" using assms(3) by simp
  then show ?thesis using read_paged_total [OF assms(1) _ assms(2), of "nat i"] False by (auto simp: read_string_paged_def)
qed

text \<open>The outcome of reading a value: nothing, or data of its form further on.\<close>

definition value_ok :: "bytes \<Rightarrow> nat \<Rightarrow> (bytes \<Rightarrow> bool) \<Rightarrow> (bytes \<times> nat) option option \<Rightarrow> bool" where
  "value_ok buf off P v \<longleftrightarrow> (v = Some None \<or> (\<exists>d off'. v = Some (Some (d, off')) \<and> P d \<and> advances buf off off'))"

lemma value_okI: "P d \<Longrightarrow> advances buf off off' \<Longrightarrow> value_ok buf off P (Some (Some (d, off')))"
  by (auto simp: value_ok_def)

lemma value_ok_none [simp]: "value_ok buf off P (Some None)"
  by (simp add: value_ok_def)

lemma value_ok_map:
  assumes "value_ok buf off P v" and "advances buf off0 off" and "\<And>d. P d \<Longrightarrow> Q (f d)"
  shows "value_ok buf off0 Q (v \<bind> (\<lambda>more. Some (map_option (\<lambda>(d, off). (f d, off)) more)))"
  using assms advances_trans by (fastforce simp: value_ok_def)

lemma read_elems_total:
  assumes "length buf < 2 ^ 30" and "n < 2 ^ 31"
  shows "off \<le> length buf + 12 \<Longrightarrow> value_ok buf off (\<lambda>d. length d = k * n) (read_elems k buf n off)"
proof (induction k arbitrary: off)
  case 0
  then show ?case by (auto simp: value_ok_def advances_def)
next
  case (Suc k)
  obtain bs off' where r: "read_paged buf n off = Some (bs, off')" "length bs = n" "advances buf off off'"
    using read_paged_total [OF assms Suc.prems] by blast
  have "value_ok buf off' (\<lambda>d. length d = k * n) (read_elems k buf n off')" using Suc.IH advances_bound [OF r(3)] .
  from value_ok_map [OF this r(3), of "\<lambda>d. length d = Suc k * n" "\<lambda>d. bs @ d"] show ?case using r by simp
qed

lemma read_str_total:
  assumes "length buf < 2 ^ 30" and "off \<le> length buf + 12"
  shows "value_ok buf off (\<lambda>d. \<exists>s. length s < 2 ^ 31 \<and> d = sized s) (read_str buf off)"
proof -
  obtain i off1 where i: "read_int32 buf off = Some (i, off1)" "i < 2 ^ 31" "advances buf off off1"
    using read_int32_total [OF assms] by blast
  obtain s off2 where s: "read_string_paged buf off1 i = Some (s, off2)" "length s = nat i" "advances buf off1 off2"
    using read_string_total [OF assms(1) advances_bound [OF i(3)] i(2)] by blast
  have "length s < 2 ^ 31" using s(2) i(2) by simp
  moreover have "advances buf off off2" using advances_trans [OF i(3) s(3)] .
  ultimately have "value_ok buf off (\<lambda>d. \<exists>s. length s < 2 ^ 31 \<and> d = sized s) (Some (Some (sized s, off2)))"
    by (intro value_okI) auto
  then show ?thesis using i(1) s(1) by (simp add: read_str_def sized_def)
qed

lemma read_strs_total:
  assumes "length buf < 2 ^ 30"
  shows "off \<le> length buf + 12 \<Longrightarrow>
    value_ok buf off (\<lambda>d. \<exists>ss. length ss = k \<and> (\<forall>s \<in> set ss. length s < 2 ^ 31) \<and> d = concat (map sized ss)) (read_strs k buf off)"
proof (induction k arbitrary: off)
  case 0
  then show ?case by (auto simp: value_ok_def advances_def)
next
  case (Suc k)
  let ?P = "\<lambda>k d. \<exists>ss. length ss = k \<and> (\<forall>s \<in> set ss. length s < 2 ^ 31) \<and> d = concat (map sized ss)"
  show ?case
  proof (cases "read_str buf off = Some None")
    case True
    then show ?thesis by simp
  next
    case False
    then obtain s off1 where s: "read_str buf off = Some (Some (sized s, off1))" "length s < 2 ^ 31" "advances buf off off1"
      using read_str_total [OF assms Suc.prems] by (auto simp: value_ok_def)
    have "value_ok buf off1 (?P k) (read_strs k buf off1)" using Suc.IH advances_bound [OF s(3)] .
    moreover have "?P (Suc k) (sized s @ d)" if h: "?P k d" for d
    proof -
      obtain ss where "length ss = k" "\<forall>s \<in> set ss. length s < 2 ^ 31" "d = concat (map sized ss)" using h by blast
      then show ?thesis using s(2) by (intro exI [of _ "s # ss"]) simp
    qed
    ultimately have "value_ok buf off (?P (Suc k)) (read_strs k buf off1 \<bind> (\<lambda>more. Some (map_option (\<lambda>(d, off). (sized s @ d, off)) more)))"
      by (rule value_ok_map [OF _ s(3)])
    then show ?thesis using s(1) by simp
  qed
qed

lemma read_counted_total:
  assumes "length buf < 2 ^ 30" and "off \<le> length buf + 12"
    and elems: "\<And>c off. c < 2 ^ 31 \<Longrightarrow> off \<le> length buf + 12 \<Longrightarrow> value_ok buf off (P c) (elems c off)"
  shows "value_ok buf off (\<lambda>d. \<exists>c e. c < 2 ^ 31 \<and> P c e \<and> d = size_bytes c @ e) (read_counted elems buf off)"
proof -
  obtain i off1 where i: "read_int32 buf off = Some (i, off1)" "i < 2 ^ 31" "advances buf off off1"
    using read_int32_total [OF assms(1,2)] by blast
  have c: "nat i < 2 ^ 31" using i(2) by simp
  have "value_ok buf off (\<lambda>d. \<exists>c e. c < 2 ^ 31 \<and> P c e \<and> d = size_bytes c @ e)
      (elems (nat i) off1 \<bind> (\<lambda>more. Some (map_option (\<lambda>(d, off). (size_bytes (nat i) @ d, off)) more)))"
    by (rule value_ok_map [OF elems [OF c advances_bound [OF i(3)]] i(3)]) (use c in blast)
  then show ?thesis using i(1) by (simp add: read_counted_def)
qed

lemma read_value_total:
  assumes "length buf < 2 ^ 30" and "off \<le> length buf + 12" and "shape_of t = Some sh"
  shows "value_ok buf off (typed sh) (read_value sh buf off)"
proof -
  have n: "(sh = Scalar n \<or> sh = Array n) \<Longrightarrow> n < 2 ^ 31" for n
    using assms(3) by (auto simp: shape_of_def split: if_splits)
  have weaken: "value_ok buf off Q v" if "value_ok buf off P v" "\<And>d. P d \<Longrightarrow> Q d" for P Q v
    using that by (auto simp: value_ok_def)
  show ?thesis
  proof (cases sh)
    case (Scalar n)
    then obtain bs off' where "read_paged buf n off = Some (bs, off')" "length bs = n" "advances buf off off'"
      using read_paged_total [OF assms(1) _ assms(2), of n] n by blast
    then show ?thesis using Scalar by (auto simp: typed_simps intro!: value_okI)
  next
    case Str
    then show ?thesis using weaken [OF read_str_total [OF assms(1,2)], of "typed Str"] by (auto simp: typed_simps)
  next
    case (Array n)
    have "value_ok buf off (\<lambda>d. \<exists>c e. c < 2 ^ 31 \<and> length e = c * n \<and> d = size_bytes c @ e) (read_counted (\<lambda>k. read_elems k buf n) buf off)"
      by (rule read_counted_total [OF assms(1,2)]) (use read_elems_total [OF assms(1)] n Array in blast)
    then show ?thesis using Array weaken [of _ _ "typed (Array n)"] by (auto simp: typed_simps)
  next
    case Strs
    have "value_ok buf off (\<lambda>d. \<exists>c e. c < 2 ^ 31 \<and> (\<exists>ss. length ss = c \<and> (\<forall>s \<in> set ss. length s < 2 ^ 31) \<and> e = concat (map sized ss)) \<and>
        d = size_bytes c @ e) (read_counted (\<lambda>k. read_strs k buf) buf off)"
      by (rule read_counted_total [OF assms(1,2)]) (use read_strs_total [OF assms(1)] in blast)
    then have "value_ok buf off (typed Strs) (read_counted (\<lambda>k. read_strs k buf) buf off)"
      by (rule weaken) (auto simp: typed_simps)
    then show ?thesis using Strs by simp
  qed
qed

lemma read_round_total:
  assumes "length buf < 2 ^ 30" and "off + 12 < length buf"
  shows "\<exists>r. read_round buf off = Some r \<and>
    (case r of Stop \<Rightarrow> True | Skip off' \<Rightarrow> off < off' \<and> off' \<le> length buf + 12
     | Got_field f off' \<Rightarrow> field_typed f \<and> off < off' \<and> off' \<le> length buf + 12)"
proof (cases "1460 \<le> off mod 1472")
  case True
  have m: "off mod 1472 < 1472" by simp
  then have "wrap32 (off + (1472 - off mod 1472)) = off + (1472 - off mod 1472)" using assms True by (intro wrap32_id) simp
  then show ?thesis using assms True m by (auto simp: read_round_def)
next
  case False
  have off: "off \<le> length buf + 12" using assms(2) by simp
  obtain i off1 where i: "read_int32 buf off = Some (i, off1)" "i < 2 ^ 31" "advances buf off off1" "off1 = off \<longrightarrow> i = 0"
    using read_int32_total [OF assms(1) off] by blast
  obtain name off2 where n: "read_string_paged buf off1 i = Some (name, off2)" "advances buf off1 off2"
    using read_string_total [OF assms(1) advances_bound [OF i(3)] i(2)] by blast
  obtain t off3 where t: "read_paged buf 1 off2 = Some (t, off3)" "advances buf off2 off3"
    using read_paged_total [OF assms(1) _ advances_bound [OF n(2)], of 1] by auto
  have adv: "advances buf off off3" using advances_trans [OF i(3) advances_trans [OF n(2) t(2)]] .
  show ?thesis
  proof (cases "i \<le> 0")
    case True
    then show ?thesis using False i(1) by (auto simp: read_round_def)
  next
    case pos: False
    then have "off < off1" using i(3,4) by (cases "off1 = off") (auto simp: advances_def)
    then have lt: "off < off3" using n(2) t(2) by (simp add: advances_def)
    show ?thesis
    proof (cases "shape_of (hd t)")
      case None
      then show ?thesis using False i(1) n(1) t(1) by (auto simp: read_round_def)
    next
      case (Some sh)
      from read_value_total [OF assms(1) advances_bound [OF adv] Some]
      consider "read_value sh buf off3 = Some None" | d off4 where "read_value sh buf off3 = Some (Some (d, off4))" "typed sh d" "advances buf off3 off4"
        by (auto simp: value_ok_def)
      then show ?thesis
      proof cases
        case 1
        then show ?thesis using False i(1) n(1) t(1) Some by (auto simp: read_round_def)
      next
        case 2
        then show ?thesis using False i(1) n(1) t(1) Some lt by (auto simp: read_round_def field_typed_def advances_def)
      qed
    qed
  qed
qed

lemma read_fields_total:
  assumes "length buf < 2 ^ 30"
  shows "off \<le> length buf + 12 \<Longrightarrow> \<exists>fs. read_fields_from buf off = Some fs \<and> (\<forall>f \<in> set fs. field_typed f)"
proof (induction "length buf + 12 - off" arbitrary: off rule: less_induct)
  case less
  have w: "wrap32 (off + 12) = off + 12" "wrap32 (length buf) = length buf" using less.prems assms by (simp_all add: wrap_simps)
  show ?case
  proof (cases "off + 12 < length buf")
    case False
    then show ?thesis using w by (subst read_fields_from.simps) simp
  next
    case True
    obtain r where r: "read_round buf off = Some r"
        "case r of Stop \<Rightarrow> True | Skip off' \<Rightarrow> off < off' \<and> off' \<le> length buf + 12
         | Got_field f off' \<Rightarrow> field_typed f \<and> off < off' \<and> off' \<le> length buf + 12"
      using read_round_total [OF assms True] by blast
    have rest: "\<exists>fs. read_fields_from buf off' = Some fs \<and> (\<forall>f \<in> set fs. field_typed f)" if "off < off'" "off' \<le> length buf + 12" for off'
      using less.hyps [of off'] that by simp
    show ?thesis
    proof (cases r)
      case Stop
      then show ?thesis using True w r(1) by (subst read_fields_from.simps) simp
    next
      case (Skip off')
      then show ?thesis using True w r rest by (subst read_fields_from.simps) simp
    next
      case (Got_field f off')
      then show ?thesis using True w r rest [of off'] by (subst read_fields_from.simps) auto
    qed
  qed
qed

lemma gm_deserialize_total:
  assumes "length buf < 2 ^ 30"
  shows "\<exists>g'. gm_deserialize buf g = Some g' \<and> msg_typed g'"
  using read_fields_total [OF assms, of 0] by (auto simp: gm_deserialize_def msg_typed_def Let_def)

section \<open>Values of every type\<close>

datatype gm_value =
    V_bool bool
  | V_int8 byte
  | V_uint8 byte
  | V_int16 u16
  | V_uint16 u16
  | V_int32 u32
  | V_uint32 u32
  | V_int64 u64
  | V_uint64 u64
  | V_float32 u32
  | V_float64 u64
  | V_string bytes
  | V_bool_array "byte list"
  | V_int8_array "byte list"
  | V_uint8_array "byte list"
  | V_int16_array "u16 list"
  | V_uint16_array "u16 list"
  | V_int32_array "u32 list"
  | V_uint32_array "u32 list"
  | V_int64_array "u64 list"
  | V_uint64_array "u64 list"
  | V_float32_array "u32 list"
  | V_float64_array "u64 list"
  | V_string_array "bytes list"

primrec value_type :: "gm_value \<Rightarrow> byte" where
  "value_type (V_bool v) = FT_BOOL"
| "value_type (V_int8 v) = FT_INT8"
| "value_type (V_uint8 v) = FT_UINT8"
| "value_type (V_int16 v) = FT_INT16"
| "value_type (V_uint16 v) = FT_UINT16"
| "value_type (V_int32 v) = FT_INT32"
| "value_type (V_uint32 v) = FT_UINT32"
| "value_type (V_int64 v) = FT_INT64"
| "value_type (V_uint64 v) = FT_UINT64"
| "value_type (V_float32 v) = FT_FLOAT32"
| "value_type (V_float64 v) = FT_FLOAT64"
| "value_type (V_string v) = FT_STRING"
| "value_type (V_bool_array v) = FT_BOOL_ARRAY"
| "value_type (V_int8_array v) = FT_INT8_ARRAY"
| "value_type (V_uint8_array v) = FT_UINT8_ARRAY"
| "value_type (V_int16_array v) = FT_INT16_ARRAY"
| "value_type (V_uint16_array v) = FT_UINT16_ARRAY"
| "value_type (V_int32_array v) = FT_INT32_ARRAY"
| "value_type (V_uint32_array v) = FT_UINT32_ARRAY"
| "value_type (V_int64_array v) = FT_INT64_ARRAY"
| "value_type (V_uint64_array v) = FT_UINT64_ARRAY"
| "value_type (V_float32_array v) = FT_FLOAT32_ARRAY"
| "value_type (V_float64_array v) = FT_FLOAT64_ARRAY"
| "value_type (V_string_array v) = FT_STRING_ARRAY"

primrec set_value :: "bytes \<Rightarrow> gm_value \<Rightarrow> generic_message \<Rightarrow> generic_message" where
  "set_value name (V_bool v) = set_bool name v"
| "set_value name (V_int8 v) = set_int8 name v"
| "set_value name (V_uint8 v) = set_uint8 name v"
| "set_value name (V_int16 v) = set_int16 name v"
| "set_value name (V_uint16 v) = set_uint16 name v"
| "set_value name (V_int32 v) = set_int32 name v"
| "set_value name (V_uint32 v) = set_uint32 name v"
| "set_value name (V_int64 v) = set_int64 name v"
| "set_value name (V_uint64 v) = set_uint64 name v"
| "set_value name (V_float32 v) = set_float32 name v"
| "set_value name (V_float64 v) = set_float64 name v"
| "set_value name (V_string v) = set_string name v"
| "set_value name (V_bool_array v) = set_bool_array name v"
| "set_value name (V_int8_array v) = set_int8_array name v"
| "set_value name (V_uint8_array v) = set_uint8_array name v"
| "set_value name (V_int16_array v) = set_int16_array name v"
| "set_value name (V_uint16_array v) = set_uint16_array name v"
| "set_value name (V_int32_array v) = set_int32_array name v"
| "set_value name (V_uint32_array v) = set_uint32_array name v"
| "set_value name (V_int64_array v) = set_int64_array name v"
| "set_value name (V_uint64_array v) = set_uint64_array name v"
| "set_value name (V_float32_array v) = set_float32_array name v"
| "set_value name (V_float64_array v) = set_float64_array name v"
| "set_value name (V_string_array v) = set_string_array name v"

definition get_value :: "byte \<Rightarrow> bytes \<Rightarrow> generic_message \<Rightarrow> (gm_error + gm_value) option" where
  "get_value t name g =
     (if t = FT_BOOL then map_option (map_sum id V_bool) (get_bool name g)
      else if t = FT_INT8 then map_option (map_sum id V_int8) (get_int8 name g)
      else if t = FT_UINT8 then map_option (map_sum id V_uint8) (get_uint8 name g)
      else if t = FT_INT16 then map_option (map_sum id V_int16) (get_int16 name g)
      else if t = FT_UINT16 then map_option (map_sum id V_uint16) (get_uint16 name g)
      else if t = FT_INT32 then map_option (map_sum id V_int32) (get_int32 name g)
      else if t = FT_UINT32 then map_option (map_sum id V_uint32) (get_uint32 name g)
      else if t = FT_INT64 then map_option (map_sum id V_int64) (get_int64 name g)
      else if t = FT_UINT64 then map_option (map_sum id V_uint64) (get_uint64 name g)
      else if t = FT_FLOAT32 then map_option (map_sum id V_float32) (get_float32 name g)
      else if t = FT_FLOAT64 then map_option (map_sum id V_float64) (get_float64 name g)
      else if t = FT_STRING then map_option (map_sum id V_string) (get_string name g)
      else if t = FT_BOOL_ARRAY then map_option (map_sum id V_bool_array) (get_bool_array name g)
      else if t = FT_INT8_ARRAY then map_option (map_sum id V_int8_array) (get_int8_array name g)
      else if t = FT_UINT8_ARRAY then map_option (map_sum id V_uint8_array) (get_uint8_array name g)
      else if t = FT_INT16_ARRAY then map_option (map_sum id V_int16_array) (get_int16_array name g)
      else if t = FT_UINT16_ARRAY then map_option (map_sum id V_uint16_array) (get_uint16_array name g)
      else if t = FT_INT32_ARRAY then map_option (map_sum id V_int32_array) (get_int32_array name g)
      else if t = FT_UINT32_ARRAY then map_option (map_sum id V_uint32_array) (get_uint32_array name g)
      else if t = FT_INT64_ARRAY then map_option (map_sum id V_int64_array) (get_int64_array name g)
      else if t = FT_UINT64_ARRAY then map_option (map_sum id V_uint64_array) (get_uint64_array name g)
      else if t = FT_FLOAT32_ARRAY then map_option (map_sum id V_float32_array) (get_float32_array name g)
      else if t = FT_FLOAT64_ARRAY then map_option (map_sum id V_float64_array) (get_float64_array name g)
      else if t = FT_STRING_ARRAY then map_option (map_sum id V_string_array) (get_string_array name g)
      else None)"

lemmas setter_defs =
  set_bool_def set_int8_def set_uint8_def set_int16_def
  set_uint16_def set_int32_def set_uint32_def set_int64_def
  set_uint64_def set_float32_def set_float64_def set_string_def
  set_bool_array_def set_int8_array_def set_uint8_array_def set_int16_array_def
  set_uint16_array_def set_int32_array_def set_uint32_array_def set_int64_array_def
  set_uint64_array_def set_float32_array_def set_float64_array_def set_string_array_def

lemmas getter_defs =
  get_bool_def get_int8_def get_uint8_def get_int16_def
  get_uint16_def get_int32_def get_uint32_def get_int64_def
  get_uint64_def get_float32_def get_float64_def 
  get_bool_array_def get_int8_array_def get_uint8_array_def get_int16_array_def
  get_uint16_array_def get_int32_array_def get_uint32_array_def get_int64_array_def
  get_uint64_array_def get_float32_array_def get_float64_array_def 

text \<open>Sizes that fit their 32-bit fields.\<close>

fun value_fits :: "gm_value \<Rightarrow> bool" where
  "value_fits (V_string s) = (length s < 2 ^ 31)"
| "value_fits (V_string_array ss) = (length ss < 2 ^ 31 \<and> (\<forall>s \<in> set ss. length s < 2 ^ 31))"
| "value_fits (V_bool_array vs) = (length vs < 2 ^ 31)"
| "value_fits (V_int8_array vs) = (length vs < 2 ^ 31)"
| "value_fits (V_uint8_array vs) = (length vs < 2 ^ 31)"
| "value_fits (V_int16_array vs) = (length vs < 2 ^ 31)"
| "value_fits (V_uint16_array vs) = (length vs < 2 ^ 31)"
| "value_fits (V_int32_array vs) = (length vs < 2 ^ 31)"
| "value_fits (V_uint32_array vs) = (length vs < 2 ^ 31)"
| "value_fits (V_int64_array vs) = (length vs < 2 ^ 31)"
| "value_fits (V_uint64_array vs) = (length vs < 2 ^ 31)"
| "value_fits (V_float32_array vs) = (length vs < 2 ^ 31)"
| "value_fits (V_float64_array vs) = (length vs < 2 ^ 31)"
| "value_fits _ = True"


lemma length_blocks: "length (concat (map (le_bytes n) vs)) = length vs * n"
  by (induction vs) simp_all

lemma typed_values:
  "typed (Scalar n) (le_bytes n v)"
  "length s < 2 ^ 31 \<Longrightarrow> typed Str (size_bytes (length s) @ s)"
  "length vs < 2 ^ 31 \<Longrightarrow> typed (Array n) (size_bytes (length vs) @ concat (map (le_bytes n) vs))"
  "length ss < 2 ^ 31 \<Longrightarrow> \<forall>s \<in> set ss. length s < 2 ^ 31 \<Longrightarrow>
     typed Strs (size_bytes (length ss) @ concat (map (\<lambda>s. size_bytes (length s) @ s) ss))"
  using typed_scalar [of "le_bytes n v" n] typed_str [of s] typed_array [of "length vs" "concat (map (le_bytes n) vs)" n] typed_strs [of ss]
  by (simp_all add: sized_def length_blocks cong: map_cong)

lemma set_value_store:
  "\<exists>d. set_value name v g = store_field name (value_type v) d g \<and>
    (value_fits v \<longrightarrow> (\<exists>sh. shape_of (value_type v) = Some sh \<and> typed sh d))"
proof -
  note defs = setter_defs set_scalar_def set_string_impl_def set_array_impl_def set_strings_impl_def shape_of_def field_type_defs append_raw_def
  show ?thesis by (cases v) (auto simp: defs intro!: exI intro: typed_values [simplified])
qed

section \<open>What the getters read\<close>

lemma read_raw_le: "LENGTH('a::len) \<le> 8 * n \<Longrightarrow> read_raw n (le_bytes n (v :: 'a word)) 0 = v"
  by (simp add: read_raw_def)

lemma block_at: "i < length vs \<Longrightarrow> take n (drop (i * n) (concat (map (le_bytes n) vs))) = le_bytes n (vs ! i)"
proof (induction vs arbitrary: i)
  case Nil
  then show ?case by simp
next
  case (Cons v vs)
  then show ?case by (cases i) (simp_all add: add.commute)
qed

lemma read_blocks:
  assumes "LENGTH('a::len) \<le> 8 * n"
  shows "map (\<lambda>i. read_raw n (size_bytes c @ concat (map (le_bytes n) vs)) (4 + i * n)) [0..<length vs] = (vs :: 'a word list)"
proof (rule nth_equalityI)
  fix i assume "i < length (map (\<lambda>i. read_raw n (size_bytes c @ concat (map (le_bytes n) vs)) (4 + i * n) :: 'a word) [0..<length vs])"
  then have i: "i < length vs" by simp
  then have "Suc i * n \<le> length vs * n" by (intro mult_le_mono1) simp
  then have "i * n + n \<le> length vs * n" by simp
  then show "map (\<lambda>i. read_raw n (size_bytes c @ concat (map (le_bytes n) vs)) (4 + i * n)) [0..<length vs] ! i = vs ! i"
    using i assms block_at [OF i, of n] by (simp add: read_raw_def length_blocks)
qed simp

lemma strings_from_sized:
  assumes "length d < 2 ^ 63"
  shows "d = pre @ concat (map sized ss) \<Longrightarrow> \<forall>s \<in> set ss. length s < 2 ^ 31 \<Longrightarrow> strings_from (length ss) d (length pre) = Inr ss"
proof (induction ss arbitrary: pre)
  case Nil
  then show ?case by simp
next
  case (Cons s ss)
  let ?off = "length pre + 4"
  have d: "d = (pre @ sized s) @ concat (map sized ss)" using Cons.prems(1) by simp
  have len: "?off + length s \<le> length d" using d by (simp add: sized_def)
  have sz: "sint (read_raw 4 d (length pre) :: u32) = int (length s)"
    using Cons.prems size_value by (simp add: read_raw_def sized_def)
  have "strings_from (length ss) d (?off + length s) = Inr ss"
    using Cons.IH [OF d] Cons.prems(2) by (simp add: sized_def add.assoc)
  moreover have "nat ((int ?off + int (length s)) mod 2 ^ 64) = ?off + length s"
    using len assms by (simp flip: of_nat_add)
  moreover have "take (length s) (drop ?off d) = s" using Cons.prems(1) by (simp add: sized_def)
  ultimately show ?case using len sz by (simp add: Let_def nat_add_distrib)
qed

lemma length_sized_concat:
  "\<forall>s \<in> set ss. length s < 2 ^ 31 \<Longrightarrow> length (concat (map sized ss)) \<le> length ss * (2 ^ 31 + 4)"
  by (induction ss) (auto simp: sized_def)

lemma strings_all:
  assumes "length ss < 2 ^ 31" and "\<forall>s \<in> set ss. length s < 2 ^ 31"
  shows "strings_from (length ss) (size_bytes (length ss) @ concat (map sized ss)) 4 = Inr ss"
proof -
  have "length ss * (2 ^ 31 + 4) \<le> 2 ^ 31 * (2 ^ 31 + 4)" using assms(1) by (intro mult_le_mono1) simp
  then have "length (size_bytes (length ss) @ concat (map sized ss)) < 2 ^ 63"
    using length_sized_concat [OF assms(2)] by simp
  from strings_from_sized [OF this refl assms(2)] show ?thesis by simp
qed

lemma get_array_at:
  assumes "field_of name g = Some f" and "f_data f = size_bytes c @ e" and "c < 2 ^ 31" and "length e = c * n"
  shows "get_array_impl n name g = Some (Inr (map (\<lambda>i. read_raw n (size_bytes c @ e) (4 + i * n)) [0..<c]))"
  using assms read_size [of c e] by (simp add: get_array_impl_def with_field_of)

lemma get_string_at:
  "field_of name g = Some f \<Longrightarrow> f_data f = sized s \<Longrightarrow> length s < 2 ^ 31 \<Longrightarrow> get_string name g = Some (Inr s)"
  using read_size [of "length s" s] by (simp add: get_string_def with_field_of sized_def get_bytes_def)

lemma get_strings_at:
  "field_of name g = Some f \<Longrightarrow> f_data f = size_bytes (length ss) @ concat (map sized ss) \<Longrightarrow> length ss < 2 ^ 31 \<Longrightarrow>
     \<forall>s \<in> set ss. length s < 2 ^ 31 \<Longrightarrow> get_string_array name g = Some (Inr ss)"
  using read_size [of "length ss" "concat (map sized ss)"] strings_all by (simp add: get_string_array_def with_field_of)

lemma get_scalar_at:
  "field_of name g = Some f \<Longrightarrow> length (f_data f) = n \<Longrightarrow> get_scalar n name g = Some (Inr (read_raw n (f_data f) 0))"
  by (simp add: get_scalar_def with_field_of)

lemma get_after_set_value:
  assumes "value_fits v"
  shows "get_value (value_type v) name (set_value name v g) = Some (Inr v) \<and>
    (\<forall>other. other \<noteq> name \<longrightarrow> field_of other (set_value name v g) = field_of other g)"
proof
  have f: "field_of name (store_field name t d g) = Some \<lparr>f_name = name, f_type = t, f_data = d\<rparr>" for t d
    by (simp add: field_of_store)
  have scalar: "get_scalar n name (set_scalar name t n w g) = Some (Inr w)" if "LENGTH('a) \<le> 8 * n" for w :: "'a::len word" and n t
    using that by (simp add: set_scalar_def append_raw_def get_scalar_at [OF f] read_raw_le)
  have arr: "get_array_impl n name (set_array_impl name t n ws g) = Some (Inr ws)"
    if "LENGTH('a) \<le> 8 * n" "length ws < 2 ^ 31" for ws :: "'a::len word list" and n t
    using that by (simp add: set_array_impl_def get_array_at [OF f, where c = "length ws" and e = "concat (map (le_bytes n) ws)" and n = n] read_blocks length_blocks)
  have str: "get_string name (set_string_impl name t s g) = Some (Inr s)" if "length s < 2 ^ 31" for s t
    using that by (simp add: set_string_impl_def get_string_at [OF f, where s = s] sized_def)
  have strs: "get_string_array name (set_strings_impl name t ss g) = Some (Inr ss)"
    if "length ss < 2 ^ 31" "\<forall>s \<in> set ss. length s < 2 ^ 31" for ss t
    using that by (simp add: set_strings_impl_def get_strings_at [OF f, where ss = ss] sized_def cong: map_cong)
  show "get_value (value_type v) name (set_value name v g) = Some (Inr v)"
    using assms by (cases v) (simp_all add: get_value_def field_type_defs setter_defs getter_defs scalar arr str strs)
  show "\<forall>other. other \<noteq> name \<longrightarrow> field_of other (set_value name v g) = field_of other g"
    using set_value_store [of name v g] field_of_store by (metis (no_types))
qed

text \<open>
  A value set under a name is what the getter of its type returns, bit for bit and for all the
  types; other names keep their fields.
\<close>

theorem get_after_set:
  assumes "value_fits v"
  shows "get_value (value_type v) name (set_value name v g) = Some (Inr v) \<and>
    (\<forall>other. other \<noteq> name \<longrightarrow> field_of other (set_value name v g) = field_of other g)"
  using get_after_set_value [OF assms] .

theorem get_after_set_witness:
  "get_value FT_STRING_ARRAY [110] (set_value [110] (V_string_array [[1, 2], []]) new_message) = Some (Inr (V_string_array [[1, 2], []]))"
  using get_after_set [of "V_string_array [[1, 2], []]" "[110]" new_message] by simp

section \<open>Every message is well-typed\<close>

text \<open>
  What can be done to a message. A nested message is written as its wire format, whose size is
  bounded by the codec.
\<close>

datatype gm_op =
    Set bytes gm_value
  | Set_nested bytes generic_message
  | Set_nested_array bytes "generic_message list"
  | Clear
  | Read bytes
  | Read_flat "bytes option"
  | Adopt_flat "bytes option" u32

primrec gm_step :: "(nat \<Rightarrow> byte) \<Rightarrow> generic_message \<Rightarrow> gm_op \<Rightarrow> generic_message option" where
  "gm_step junk g (Set name v) = Some (set_value name v g)"
| "gm_step junk g (Set_nested name v) = set_nested junk name v g"
| "gm_step junk g (Set_nested_array name vs) = set_nested_array junk name vs g"
| "gm_step junk g Clear = Some (clear_fields g)"
| "gm_step junk g (Read buf) = gm_deserialize buf g"
| "gm_step junk g (Read_flat seg) = Some (snd (gm_dzflat_read seg g))"
| "gm_step junk g (Adopt_flat buf hash) = Some (snd (gm_dzflat_adopt buf hash g))"

definition message_bytes :: "generic_message \<Rightarrow> bytes" where
  "message_bytes g = concat (concat (map field_pieces (gm_fields g)))"

primrec op_fits :: "gm_op \<Rightarrow> bool" where
  "op_fits (Set name v) = value_fits v"
| "op_fits (Set_nested name v) = (length (message_bytes v) < max_payload)"
| "op_fits (Set_nested_array name vs) = (length vs < 2 ^ 31 \<and> (\<forall>v \<in> set vs. length (message_bytes v) < max_payload))"
| "op_fits Clear = True"
| "op_fits (Read buf) = (length buf < 2 ^ 30)"
| "op_fits (Read_flat seg) = True"
| "op_fits (Adopt_flat buf hash) = True"

lemma length_field_pieces: "length (concat (field_pieces f)) = 4 + length (f_name f) + 1 + length (f_data f)"
  by (simp add: field_pieces_def)

lemma message_size:
  "(\<Sum>f\<leftarrow>gm_fields g. 4 + of_nat (length (f_name f)) + 1 + of_nat (length (f_data f))) = (of_nat (length (message_bytes g)) :: u32)"
proof -
  have "(\<Sum>f\<leftarrow>fs. 4 + of_nat (length (f_name f)) + 1 + of_nat (length (f_data f))) = (of_nat (length (concat (concat (map field_pieces fs)))) :: u32)" for fs
    by (induction fs) (simp_all add: length_field_pieces algebra_simps)
  then show ?thesis by (simp add: message_bytes_def)
qed

lemma gm_serialize_wire:
  assumes "length (message_bytes g) < max_payload" and "gm_fields g \<noteq> []"
  shows "gm_serialize junk g = Some (g\<lparr>gm_base := cut_base (gm_base g) (length (message_bytes g))\<rparr>, wire (gm_base g) (message_bytes g))"
  using serialize_fields_wire [of "concat (map field_pieces (gm_fields g))" junk "gm_base g"] assms message_size [of g]
  by (simp add: gm_serialize_def message_bytes_def)

lemma gm_serialize_total:
  assumes "length (message_bytes g) < max_payload"
  shows "\<exists>g' s. gm_serialize junk g = Some (g', s) \<and> length s < 2 ^ 31"
proof (cases "gm_fields g = []")
  case True
  then show ?thesis by (simp add: gm_serialize_def serialize_data_cut_def correct_total_size_def)
next
  case False
  have "length (wire (gm_base g) (message_bytes g)) < 2 ^ 31" using phys_bound [OF assms] by simp
  then show ?thesis using gm_serialize_wire [OF assms False] by simp
qed

lemma serialize_all_total:
  "\<forall>v \<in> set vs. length (message_bytes v) < max_payload \<Longrightarrow>
     \<exists>ss. mapM (\<lambda>_ v. do { (v, s) \<leftarrow> gm_serialize junk v; Some ((), s) }) () vs = Some ((), ss) \<and> length ss = length vs \<and>
       (\<forall>s \<in> set ss. length s < 2 ^ 31)"
proof (induction vs)
  case Nil
  then show ?case by simp
next
  case (Cons v vs)
  obtain v' s where "gm_serialize junk v = Some (v', s)" "length s < 2 ^ 31"
    using gm_serialize_total [of v junk] Cons.prems by auto
  then show ?case using Cons by auto
qed

lemma gm_step_typed:
  assumes "msg_typed g" and "op_fits op"
  shows "\<exists>g'. gm_step junk g op = Some g' \<and> msg_typed g'"
proof (cases op)
  case (Set name v)
  then show ?thesis using assms set_value_store [of name v g] store_typed by (auto; metis)
next
  case (Set_nested name v)
  then obtain v' s where s: "gm_serialize junk v = Some (v', s)" "length s < 2 ^ 31"
    using gm_serialize_total [of v junk] assms(2) by auto
  have "shape_of FT_NESTED = Some Str" by (simp add: shape_of_def field_type_defs)
  then have "msg_typed (set_string_impl name FT_NESTED s g)"
    unfolding set_string_impl_def by (rule store_typed [OF assms(1)]) (rule typed_values(2) [OF s(2)])
  then show ?thesis using Set_nested s(1) by (simp add: set_nested_def)
next
  case (Set_nested_array name vs)
  then obtain ss where ss: "mapM (\<lambda>_ v. do { (v, s) \<leftarrow> gm_serialize junk v; Some ((), s) }) () vs = Some ((), ss)"
      "length ss < 2 ^ 31" "\<forall>s \<in> set ss. length s < 2 ^ 31"
    using serialize_all_total [of vs junk] assms(2) by auto
  have "shape_of FT_NESTED_ARRAY = Some Strs" by (simp add: shape_of_def field_type_defs)
  then have "msg_typed (set_strings_impl name FT_NESTED_ARRAY ss g)"
    unfolding set_strings_impl_def by (rule store_typed [OF assms(1)]) (rule typed_values(4) [OF ss(2,3)])
  then show ?thesis using Set_nested_array ss(1) by (simp add: set_nested_array_def)
next
  case (Read buf)
  then show ?thesis using gm_deserialize_total assms(2) by simp
qed (use assms(1) in \<open>auto simp: msg_typed_def clear_fields_def gm_dzflat_read_def gm_dzflat_adopt_def split: option.splits\<close>)

lemma gm_run_typed:
  "msg_typed g \<Longrightarrow> \<forall>op \<in> set ops. op_fits op \<Longrightarrow> \<exists>g'. foldM (gm_step junk) g ops = Some g' \<and> msg_typed g'"
proof (induction ops arbitrary: g)
  case Nil
  then show ?case by simp
next
  case (Cons op ops)
  obtain g1 where "gm_step junk g op = Some g1" "msg_typed g1" using gm_step_typed [of g op junk] Cons.prems by auto
  then show ?case using Cons.IH [of g1] Cons.prems(2) by simp
qed

lemma get_typed:
  assumes "field_of name g = Some f" and "field_typed f" and "f_type f \<notin> {FT_NESTED, FT_NESTED_ARRAY}"
  shows "\<exists>v. get_value (f_type f) name g = Some (Inr v) \<and> value_type v = f_type f"
proof -
  obtain sh where sh: "shape_of (f_type f) = Some sh" "typed sh (f_data f)" using assms(2) by (auto simp: field_typed_def)
  let ?d = "f_data f"
  have scalar: "get_scalar n name g = Some (Inr (read_raw n ?d 0 :: 'a::len word))" if "sh = Scalar n" for n
    using get_scalar_at [OF assms(1)] sh(2) that by (auto simp: typed_simps)
  have arr: "get_array_impl n name g = Some (Inr (map (\<lambda>i. read_raw n ?d (4 + i * n) :: 'a::len word) [0..<nat (sint (read_raw 4 ?d 0 :: u32))]))"
    if h: "sh = Array n" for n
  proof -
    obtain c e where ce: "?d = size_bytes c @ e" "c < 2 ^ 31" "length e = c * n" using sh(2) h by (auto simp: typed_simps)
    have "get_array_impl n name g = Some (Inr (map (\<lambda>i. read_raw n (size_bytes c @ e) (4 + i * n) :: 'a::len word) [0..<c]))"
      by (rule get_array_at [OF assms(1) ce])
    then show ?thesis using read_size [OF ce(2), of e] by (simp add: ce(1))
  qed
  have str: "get_string name g = Some (Inr (drop 4 ?d))" if "sh = Str"
    using get_string_at [OF assms(1)] sh(2) that by (auto simp: typed_simps sized_def)
  have "\<exists>ss. sh = Strs \<longrightarrow> get_string_array name g = Some (Inr ss)"
    using get_strings_at [OF assms(1)] sh(2) by (cases sh) (auto simp: typed_simps)
  then obtain ss where strs: "sh = Strs \<Longrightarrow> get_string_array name g = Some (Inr ss)" by blast
  let ?all = "[FT_BOOL, FT_INT8, FT_UINT8, FT_INT16, FT_UINT16, FT_INT32, FT_UINT32, FT_INT64, FT_UINT64, FT_FLOAT32, FT_FLOAT64, FT_STRING,
    FT_BOOL_ARRAY, FT_INT8_ARRAY, FT_UINT8_ARRAY, FT_INT16_ARRAY, FT_UINT16_ARRAY, FT_INT32_ARRAY, FT_UINT32_ARRAY, FT_INT64_ARRAY, FT_UINT64_ARRAY,
    FT_FLOAT32_ARRAY, FT_FLOAT64_ARRAY, FT_STRING_ARRAY]"
  have "f_type f \<in> set ?all" using sh(1) assms(3) by (auto simp: shape_of_def split: if_splits)
  then show ?thesis
    using sh(1) unfolding list.set insert_iff empty_iff
    by (elim disjE) (simp_all add: get_value_def field_type_defs shape_of_def getter_defs scalar arr str strs)
qed

text \<open>
  C39. No message holds data that do not belong to their type: however it was set, read from bytes of a
  peer, cleared or given a segment, every field has the form of its type, no step leaves a buffer,
  and the getter of the type returns a value.
\<close>

theorem messages_well_typed:
  assumes "\<forall>op \<in> set ops. op_fits op"
  shows "\<exists>g. foldM (gm_step junk) new_message ops = Some g \<and> msg_typed g \<and>
    (\<forall>name f. field_of name g = Some f \<and> f_type f \<notin> {FT_NESTED, FT_NESTED_ARRAY} \<longrightarrow>
       (\<exists>v. get_value (f_type f) name g = Some (Inr v) \<and> value_type v = f_type f))"
proof -
  have "msg_typed new_message" by (simp add: msg_typed_def new_message_def)
  then obtain g where g: "foldM (gm_step junk) new_message ops = Some g" "msg_typed g"
    using gm_run_typed [OF _ assms] by blast
  have "field_typed f" if "field_of name g = Some f" for name f
    using that g(2) by (auto simp: field_of_def msg_typed_def find_Some_iff)
  then show ?thesis using g get_typed by blast
qed

theorem messages_well_typed_witness:
  "\<exists>g. foldM (gm_step (\<lambda>_. 0)) new_message [Set [110] (V_int32 7), Read [1, 2, 3], Clear] = Some g \<and> msg_typed g"
  using messages_well_typed [of "[Set [110] (V_int32 7), Read [1, 2, 3], Clear]" "\<lambda>_. 0"] by auto

text \<open>
  Reading a message from bytes always ends, inside the buffer, and every field it yields is typed.
\<close>

theorem deserialize_returns:
  assumes "length buf < 2 ^ 30"
  shows "\<exists>g'. gm_deserialize buf g = Some g' \<and> msg_typed g'"
  using gm_deserialize_total [OF assms] .

theorem deserialize_returns_witness: "\<exists>g'. gm_deserialize (replicate 2000 255) new_message = Some g' \<and> msg_typed g'"
  using deserialize_returns [of "replicate 2000 255"] by simp

section \<open>The round trip\<close>

text \<open>Reading on in framed data: at the rest \<open>s\<close> of the data \<open>d\<close>.\<close>

definition rest_at :: "bytes \<Rightarrow> bytes \<Rightarrow> nat" where
  "rest_at d s = phys (length d - length s)"

definition framed :: "bytes \<Rightarrow> bytes \<Rightarrow> bool" where
  "framed buf d \<longleftrightarrow> length d < max_payload \<and> (\<exists>mm pg t. buf = frames mm pg d @ t \<and> length t = 12)"

lemma framed_wire: "length d < max_payload \<Longrightarrow> framed (wire m d) d"
  unfolding framed_def wire_def by (metis length_tail_bytes)

lemma paged_rest_frames:
  assumes "framed buf d" and "length acc \<le> n" and "n < 2 ^ 30" and "p + (n - length acc) \<le> length d" and "p div 1460 = (p + (n - length acc)) div 1460"
  shows "paged_rest buf n acc (phys p) = Some (acc @ take (n - length acc) (drop p d), phys (p + (n - length acc)))"
proof -
  let ?r = "n - length acc"
  obtain mm pg t where buf: "buf = frames mm pg d @ t" "length t = 12" and d: "length d < max_payload"
    using assms(1) by (auto simp: framed_def)
  have st: "p mod 1460 + ?r < 1460" by (rule div_stays [OF assms(5)]) simp
  have pr: "phys (p + ?r) = phys p + ?r" by (rule phys_inside [OF st])
  have le: "phys (p + ?r) \<le> phys (length d)" by (rule phys_mono [OF assms(4)])
  have lt: "phys (length d) < 2 ^ 30" by (rule phys_bound [OF d])
  have w: "sub32 n (length acc) = ?r" "wrap32 (phys p + ?r) = phys p + ?r" "wrap32 (length buf) = length buf"
    using assms(2,3) pr le lt buf by (simp_all add: wrap_simps)
  have g: "get_bytes buf (phys p) ?r = Some (take ?r (drop p d))"
    using le pr frames_take_drop [of p ?r d mm pg t] st assms(4) buf by (simp add: get_bytes_def del: drop_append take_append)
  have "phys p + ?r \<le> length buf" using pr le buf by simp
  then show ?thesis using w g pr by (auto simp: paged_rest_def Let_def)
qed

lemma paged_cuts_frames:
  assumes "framed buf d"
  shows "length acc \<le> n \<Longrightarrow> n < 2 ^ 30 \<Longrightarrow> p + (n - length acc) \<le> length d \<Longrightarrow> k = (p + (n - length acc)) div 1460 - p div 1460 \<Longrightarrow>
    paged_cuts k buf n acc (phys p) p = Some (acc @ take (n - length acc) (drop p d), phys (p + (n - length acc)))"
proof (induction k arbitrary: acc p)
  case 0
  then have "p div 1460 = (p + (n - length acc)) div 1460" using div_le_mono [of p "p + (n - length acc)" 1460] by simp
  then show ?case using paged_rest_frames [OF assms] 0 by simp
next
  case (Suc k)
  let ?r = "n - length acc"
  obtain mm pg t where buf: "buf = frames mm pg d @ t" "length t = 12" and d: "length d < max_payload"
    using assms by (auto simp: framed_def)
  define c where "c = 1460 - p mod 1460"
  have fill: "p mod 1460 + c = 1460" unfolding c_def by simp
  have cr: "c \<le> ?r" using Suc.prems(4) div_crosses [of p 1460 ?r] unfolding c_def by simp
  have pf: "phys (p + c) = phys p + c + 12" by (rule phys_fill [OF fill])
  have le: "phys (p + c) \<le> phys (length d)" by (rule phys_mono) (use cr Suc.prems(3) in simp)
  have lt: "phys (length d) < 2 ^ 30" by (rule phys_bound [OF d])
  have pd: "p \<le> phys p" by (simp add: phys_def)
  have w: "sub32 n (length acc) = ?r" "wrap32 (phys p + c) = phys p + c" "wrap32 (phys p + c + 12) = phys (p + c)" "wrap32 (p + c) = p + c"
      "wrap32 (length buf) = length buf"
    using Suc.prems(1,2) pf le lt pd buf by (simp_all add: wrap_simps)
  have cm: "min (1460 - p mod 1460) ?r = c" using cr unfolding c_def by simp
  have g: "get_bytes buf (phys p) c = Some (take c (drop p d))"
    using le pf frames_take_drop [of p c d mm pg t] fill cr Suc.prems(3) buf by (simp add: get_bytes_def del: drop_append take_append)
  have in_buf: "\<not> length buf < phys p + c" using le pf buf by simp
  let ?b = "take c (drop p d)"
  have b: "length ?b = c" using cr Suc.prems(3) by simp
  have acc: "n - length (acc @ ?b) = ?r - c" "length (acc @ ?b) \<le> n" using b cr Suc.prems(1) by auto
  have nx: "p + c + (?r - c) = p + ?r" using cr by simp
  have kk: "k = (p + ?r) div 1460 - (p + c) div 1460" using Suc.prems(4) div_fill [OF fill] by linarith
  have "paged_cuts k buf n (acc @ ?b) (phys (p + c)) (p + c) = Some ((acc @ ?b) @ take (?r - c) (drop (p + c) d), phys (p + ?r))"
    by (rule Suc.IH [of "acc @ ?b" "p + c", unfolded acc(1) nx, OF acc(2) Suc.prems(2,3) kk])
  moreover have "take ?r (drop p d) = ?b @ take (?r - c) (drop (p + c) d)"
  proof -
    have "c + (?r - c) = ?r" using cr by simp
    then show ?thesis using take_add [of c "?r - c" "drop p d"] by (simp only: drop_drop add.commute [of p c])
  qed
  ultimately show ?case using w cm g in_buf cr by (simp add: Let_def)
qed

lemma suffix_at:
  assumes "suffix (f @ s) d"
  shows "length d - length s = length d - length (f @ s) + length f" and "take (length f) (drop (length d - length (f @ s)) d) = f"
    and "suffix s d" and "length (f @ s) \<le> length d"
  using assms by (auto simp: suffix_def)

lemma read_paged_framed:
  assumes "framed buf d" and "suffix (f @ s) d"
  shows "read_paged buf (length f) (rest_at d (f @ s)) = Some (f, rest_at d s)"
proof -
  let ?p = "length d - length (f @ s)"
  note sf = suffix_at [OF assms(2)]
  have d: "length d < max_payload" using assms(1) by (simp add: framed_def)
  have small: "length d < 2 ^ 30" by (rule max_payload_small [OF d])
  have le: "length (f @ s) \<le> length d" by (rule sf(4))
  have ps: "phys ?p < 2 ^ 32" using phys_mono [of ?p "length d"] phys_bound [OF d] by simp
  have cut: "sub32 (wrap32 (?p + length f) div 1460) (?p div 1460) = (?p + length f) div 1460 - ?p div 1460"
  proof -
    have "?p div 1460 \<le> (?p + length f) div 1460" by (rule div_le_mono) simp
    moreover have "(?p + length f) div 1460 < 2 ^ 32" by (rule le_less_trans [OF div_le_dividend]) (use small le in simp)
    ultimately show ?thesis using small le by (simp add: wrap_simps)
  qed
  have "paged_cuts ((?p + length f) div 1460 - ?p div 1460) buf (length f) [] (phys ?p) ?p = Some (f, phys (?p + length f))"
    using paged_cuts_frames [OF assms(1), of "[]" "length f" ?p] small le sf(2) by simp
  then show ?thesis
    using to_pure_offset_phys [OF ps] cut sf(1) by (simp add: read_paged_def rest_at_def to_pure_offset_def Let_def)
qed

lemma phys_ahead: "phys p + n \<le> phys (p + n)"
  by (simp add: phys_def div_le_mono)

lemma framed_room:
  assumes "framed buf d" and "suffix (f @ s) d"
  shows "rest_at d (f @ s) + length f + 12 \<le> length buf" and "wrap32 (length buf) = length buf"
    and "n \<le> length f \<Longrightarrow> wrap32 (rest_at d (f @ s) + n) = rest_at d (f @ s) + n"
    and "rest_at d (f @ s) mod 1472 < 1460"
proof -
  let ?p = "length d - length (f @ s)"
  obtain mm pg t where buf: "buf = frames mm pg d @ t" "length t = 12" and d: "length d < max_payload"
    using assms(1) by (auto simp: framed_def)
  have "?p + length f \<le> length d" using suffix_at [OF assms(2)] by simp
  then have "phys ?p + length f \<le> phys (length d)" using phys_ahead [of ?p "length f"] phys_mono le_trans by blast
  then show r: "rest_at d (f @ s) + length f + 12 \<le> length buf" using buf by (simp add: rest_at_def)
  have lt: "length buf < 2 ^ 32" using phys_bound [OF d] buf by simp
  then show "wrap32 (length buf) = length buf" by (rule wrap32_id)
  show "n \<le> length f \<Longrightarrow> wrap32 (rest_at d (f @ s) + n) = rest_at d (f @ s) + n" by (rule wrap32_id) (use r lt in simp)
  show "rest_at d (f @ s) mod 1472 < 1460" by (simp add: rest_at_def phys_decomp)
qed

lemma not_beyond:
  assumes "framed buf d" and "suffix (f @ s) d" and "n \<le> length f"
  shows "\<not> beyond buf (rest_at d (f @ s)) n"
proof -
  have "rest_at d (f @ s) + n \<le> length buf" using framed_room(1) [OF assms(1,2)] assms(3) by simp
  moreover have "wrap32 (length buf + 12) = length buf + 12 \<or> True" by simp
  moreover obtain mm pg t where "buf = frames mm pg d @ t" "length t = 12" "length d < max_payload"
    using assms(1) by (auto simp: framed_def)
  then have "wrap32 (length buf + 12) = length buf + 12" using phys_bound [of "length d"] by (intro wrap32_id) simp
  ultimately show ?thesis using framed_room(2,3) [OF assms(1,2)] assms(3) by (simp add: beyond_def)
qed

lemma suffix_rest: "suffix (f @ s) d \<Longrightarrow> suffix s d"
  using suffix_at by blast

lemma read_int32_framed:
  assumes "framed buf d" and "suffix (size_bytes c @ s) d" and "c < 2 ^ 31"
  shows "read_int32 buf (rest_at d (size_bytes c @ s)) = Some (int c, rest_at d s)"
  using read_paged_framed [OF assms(1,2)] size_value [OF assms(3)] by (simp add: read_int32_def)

lemma read_string_framed:
  assumes "framed buf d" and "suffix (f @ s) d"
  shows "read_string_paged buf (rest_at d (f @ s)) (int (length f)) = Some (f, rest_at d s)"
  using read_paged_framed [OF assms] by (simp add: read_string_paged_def)

lemma read_elems_framed:
  assumes "framed buf d"
  shows "suffix (e @ s) d \<Longrightarrow> length e = k * n \<Longrightarrow> read_elems k buf n (rest_at d (e @ s)) = Some (Some (e, rest_at d s))"
proof (induction k arbitrary: e)
  case 0
  then show ?case by simp
next
  case (Suc k)
  let ?b = "take n e" and ?e = "drop n e"
  have len: "length ?b = n" "length ?e = k * n" using Suc.prems(2) by auto
  have e: "e @ s = ?b @ (?e @ s)" by simp
  have su: "suffix (?b @ (?e @ s)) d" using Suc.prems(1) by (simp only: e [symmetric])
  have "read_paged buf n (rest_at d (e @ s)) = Some (?b, rest_at d (?e @ s))"
    using read_paged_framed [OF assms su] len(1) by (simp only: e [symmetric])
  moreover have "n \<le> length ?b" using len(1) by simp
  then have "\<not> beyond buf (rest_at d (e @ s)) n" using not_beyond [OF assms su] by (simp only: e [symmetric] not_False_eq_True)
  moreover have "read_elems k buf n (rest_at d (?e @ s)) = Some (Some (?e, rest_at d s))" using Suc.IH [OF suffix_rest [OF su] len(2)] .
  ultimately show ?case by simp
qed

lemma read_str_framed:
  assumes "framed buf d" and "suffix (sized f @ s) d" and "length f < 2 ^ 31"
  shows "read_str buf (rest_at d (sized f @ s)) = Some (Some (sized f, rest_at d s))"
proof -
  have su: "suffix (size_bytes (length f) @ (f @ s)) d" using assms(2) by (simp add: sized_def)
  show ?thesis
    using not_beyond [OF assms(1) su, of 4] read_int32_framed [OF assms(1) su assms(3)] read_string_framed [OF assms(1) suffix_rest [OF su]]
    by (simp add: read_str_def sized_def)
qed

lemma read_strs_framed:
  assumes "framed buf d"
  shows "suffix (concat (map sized ss) @ s) d \<Longrightarrow> \<forall>f \<in> set ss. length f < 2 ^ 31 \<Longrightarrow>
    read_strs (length ss) buf (rest_at d (concat (map sized ss) @ s)) = Some (Some (concat (map sized ss), rest_at d s))"
proof (induction ss)
  case Nil
  then show ?case by simp
next
  case (Cons f ss)
  have su: "suffix (sized f @ (concat (map sized ss) @ s)) d" using Cons.prems(1) by simp
  show ?case using read_str_framed [OF assms su] Cons.IH [OF suffix_rest [OF su]] Cons.prems(2) by simp
qed

lemma read_counted_framed:
  assumes "framed buf d" and "suffix (size_bytes c @ (e @ s)) d" and "c < 2 ^ 31"
    and "elems c (rest_at d (e @ s)) = Some (Some (e, rest_at d s))"
  shows "read_counted elems buf (rest_at d (size_bytes c @ (e @ s))) = Some (Some (size_bytes c @ e, rest_at d s))"
  using not_beyond [OF assms(1,2), of 4] read_int32_framed [OF assms(1,2,3)] assms(4) by (simp add: read_counted_def)

lemma read_value_framed:
  assumes "framed buf d" and "suffix (v @ s) d" and "typed sh v"
  shows "read_value sh buf (rest_at d (v @ s)) = Some (Some (v, rest_at d s))"
  using assms(3)
proof (cases rule: typed.cases)
  case (typed_scalar n)
  then show ?thesis using not_beyond [OF assms(1,2), of n] read_paged_framed [OF assms(1,2)] by simp
next
  case (typed_str f)
  then show ?thesis using read_str_framed [OF assms(1), of f s] assms(2) by simp
next
  case (typed_array c e n)
  have su: "suffix (size_bytes c @ (e @ s)) d" using assms(2) typed_array by simp
  show ?thesis
    using read_counted_framed [where elems = "\<lambda>k. read_elems k buf n", OF assms(1) su typed_array(3) read_elems_framed [OF assms(1) suffix_rest [OF su] typed_array(4)]] typed_array(1,2) by simp
next
  case (typed_strs ss)
  have su: "suffix (size_bytes (length ss) @ (concat (map sized ss) @ s)) d" using assms(2) typed_strs by simp
  show ?thesis
    using read_counted_framed [where elems = "\<lambda>k. read_strs k buf", OF assms(1) su typed_strs(3) read_strs_framed [OF assms(1) suffix_rest [OF su] typed_strs(4)]] typed_strs(1,2) by simp
qed

lemma read_round_framed:
  assumes "framed buf d" and "suffix (concat (field_pieces f) @ s) d" and "field_typed f" and "f_name f \<noteq> []"
  shows "read_round buf (rest_at d (concat (field_pieces f) @ s)) = Some (Got_field f (rest_at d s))"
proof -
  obtain sh where sh: "shape_of (f_type f) = Some sh" "typed sh (f_data f)" using assms(3) by (auto simp: field_typed_def)
  let ?n = "size_bytes (length (f_name f))"
  have pieces: "concat (field_pieces f) @ s = ?n @ (f_name f @ ([f_type f] @ (f_data f @ s)))" by (simp add: field_pieces_def)
  have s1: "suffix (?n @ (f_name f @ ([f_type f] @ (f_data f @ s)))) d" using assms(2) unfolding pieces .
  note s2 = suffix_rest [OF s1] and s3 = suffix_rest [OF suffix_rest [OF s1]] and s4 = suffix_rest [OF suffix_rest [OF suffix_rest [OF s1]]]
  have "length d < 2 ^ 30" using assms(1) max_payload_small by (auto simp: framed_def)
  then have name: "length (f_name f) < 2 ^ 31" using suffix_at(4) [OF s2] by simp
  have 1: "read_int32 buf (rest_at d (?n @ (f_name f @ ([f_type f] @ (f_data f @ s))))) = Some (int (length (f_name f)), rest_at d (f_name f @ ([f_type f] @ (f_data f @ s))))"
    by (rule read_int32_framed [OF assms(1) s1 name])
  have 2: "read_string_paged buf (rest_at d (f_name f @ ([f_type f] @ (f_data f @ s)))) (int (length (f_name f))) = Some (f_name f, rest_at d ([f_type f] @ (f_data f @ s)))"
    by (rule read_string_framed [OF assms(1) s2])
  have 3: "read_paged buf 1 (rest_at d ([f_type f] @ (f_data f @ s))) = Some ([f_type f], rest_at d (f_data f @ s))"
    using read_paged_framed [OF assms(1) s3] by simp
  have 4: "read_value sh buf (rest_at d (f_data f @ s)) = Some (Some (f_data f, rest_at d s))"
    by (rule read_value_framed [OF assms(1) s4 sh(2)])
  note room = framed_room [OF assms(1) s1] framed_room [OF assms(1) s2] framed_room [OF assms(1) s3]
  show ?thesis
    unfolding pieces read_round_def using 1 2 3 4 sh(1) assms(4) room room(3) [of 4] room(7) [of "length (f_name f)"] room(11) [of 1]
    by (simp del: append.simps append_Cons)
qed

lemma read_fields_framed:
  assumes "framed buf d"
  shows "suffix (concat (concat (map field_pieces fs))) d \<Longrightarrow> \<forall>f \<in> set fs. field_typed f \<and> f_name f \<noteq> [] \<Longrightarrow>
    read_fields_from buf (rest_at d (concat (concat (map field_pieces fs)))) = Some fs"
proof (induction fs)
  case Nil
  obtain mm pg t where "buf = frames mm pg d @ t" "length t = 12" "length d < max_payload"
    using assms by (auto simp: framed_def)
  then have "wrap32 (rest_at d [] + 12) = wrap32 (length buf)" by (simp add: rest_at_def)
  then show ?case by (subst read_fields_from.simps) simp
next
  case (Cons f fs)
  let ?s = "concat (concat (map field_pieces fs))"
  have su: "suffix (concat (field_pieces f) @ ?s) d" using Cons.prems(1) by simp
  have r: "read_round buf (rest_at d (concat (field_pieces f) @ ?s)) = Some (Got_field f (rest_at d ?s))"
    using read_round_framed [OF assms su] Cons.prems(2) by simp
  have len: "5 \<le> length (concat (field_pieces f))" by (simp add: length_field_pieces)
  have lt: "wrap32 (rest_at d (concat (field_pieces f) @ ?s) + 12) < wrap32 (length buf)"
  proof -
    let ?o = "rest_at d (concat (field_pieces f) @ ?s)"
    have "?o + 12 < length buf" "wrap32 (length buf) = length buf" using framed_room(1,2) [OF assms su] len by auto
    moreover have "wrap32 (?o + 12) \<le> ?o + 12" by (rule wrap32_le)
    ultimately show ?thesis by simp
  qed
  have "read_fields_from buf (rest_at d ?s) = Some fs" using Cons.IH [OF suffix_rest [OF su]] Cons.prems(2) by simp
  then show ?case using r lt by (subst read_fields_from.simps) simp
qed

text \<open>
  C38. A typed message with named fields is written to the wire format and read back with the same
  fields, in order, whatever the reading message held.
\<close>

theorem generic_roundtrip:
  assumes "msg_typed g" and "\<forall>f \<in> set (gm_fields g). f_name f \<noteq> []" and "gm_fields g \<noteq> []" and "length (message_bytes g) < max_payload"
  shows "\<exists>g1 data h1. gm_serialize junk g = Some (g1, data) \<and> gm_deserialize data h = Some h1 \<and> gm_fields h1 = gm_fields g"
proof -
  let ?d = "message_bytes g" and ?w = "wire (gm_base g) (message_bytes g)"
  have "rest_at ?d ?d = 0" by (simp add: rest_at_def phys_def)
  then have "read_fields_from ?w 0 = Some (gm_fields g)"
    using read_fields_framed [OF framed_wire [OF assms(4)], of "gm_fields g"] assms(1,2) by (simp add: message_bytes_def msg_typed_def)
  moreover have "\<not> length ?w < 12" by simp
  ultimately show ?thesis using gm_serialize_wire [OF assms(4,3)] by (auto simp: gm_deserialize_def Let_def)
qed

theorem generic_roundtrip_witness:
  "\<exists>g1 data h1. gm_serialize (\<lambda>_. 0) (set_value [110] (V_int32 7) new_message) = Some (g1, data) \<and>
    gm_deserialize data new_message = Some h1 \<and> get_value FT_INT32 [110] h1 = Some (Inr (V_int32 7))"
proof -
  let ?g = "set_value [110] (V_int32 7) new_message"
  have f: "gm_fields ?g = [\<lparr>f_name = [110], f_type = FT_INT32, f_data = le_bytes 4 (7 :: u32)\<rparr>]"
    by (simp add: set_int32_def set_scalar_def store_fields new_message_def append_raw_def)
  have "msg_typed ?g" unfolding msg_typed_def f using typed_values(1) by (simp add: field_typed_def shape_of_def field_type_defs)
  moreover have "length (message_bytes ?g) < max_payload"
    unfolding message_bytes_def f by (simp add: field_pieces_def max_payload_def)
  ultimately obtain g1 data h1 where r: "gm_serialize (\<lambda>_. 0) ?g = Some (g1, data)" "gm_deserialize data new_message = Some h1" "gm_fields h1 = gm_fields ?g"
    using generic_roundtrip [of ?g "\<lambda>_. 0" new_message] unfolding f by auto
  have "get_value FT_INT32 [110] h1 = Some (Inr (V_int32 7))"
    using r(3) unfolding f by (simp add: get_value_def field_type_defs get_int32_def get_scalar_def with_field_of field_of_def read_raw_le)
  then show ?thesis using r by blast
qed

text \<open>The getter of strings does not look at the type: on a number it reads past the end of the data.\<close>

theorem get_string_of_number:
  assumes "0 < sint v"
  shows "get_string name (set_int32 name v g) = None"
proof -
  have "get_bytes (le_bytes 4 v) 4 (nat (sint v)) = None" using assms by (simp add: get_bytes_def)
  then show ?thesis using assms
    by (simp add: get_string_def with_field_of set_int32_def set_scalar_def field_of_store append_raw_def read_raw_le)
qed

theorem get_string_of_number_witness: "get_string [110] (set_int32 [110] 7 new_message) = None"
  using get_string_of_number [of 7 "[110]" new_message] by simp

text \<open>Clearing a message that borrowed a segment leaves it with the segment.\<close>

theorem clear_keeps_borrow:
  assumes "looks_like_dzflat (Some p)"
  shows "has_dzflat (clear_fields (snd (gm_dzflat_adopt (Some p) hash g)))"
  using assms by (simp add: gm_dzflat_adopt_def clear_fields_def has_dzflat_def)

text \<open>A message without fields is sent as whatever the buffer held: twelve bytes, without a tail.\<close>

theorem empty_message_junk:
  assumes "gm_fields g = []"
  shows "\<exists>g'. gm_serialize junk g = Some (g', fresh_buffer junk 12)"
  using assms by (simp add: gm_serialize_def serialize_data_cut_def correct_total_size_def)

end
