(* ===== verification/Sniffer.thy ===== *)
theory Sniffer
  imports Channel Naming
begin

text \<open>
  The passive observer of a channel (\<open>src/src/libipc/sniffer.cpp\<close>): it follows the ring of a sender
  without registering as a reader, so that the sender may overwrite slots while they are copied.
\<close>

section \<open>State\<close>

definition make_prefix :: "string \<Rightarrow> string list \<Rightarrow> string" where
  "make_prefix pref args = pref @ ''__IPC_SHM__'' @ concat args"

definition ring_segment :: "string \<Rightarrow> string \<Rightarrow> string" where
  "ring_segment pref nam =
     make_prefix pref [''QU_CONN__'', nam, ''__'', to_string data_length, ''__'', to_string (min data_length 16)]"

definition chunk_segment :: "string \<Rightarrow> u64 \<Rightarrow> string" where
  "chunk_segment pref cs = make_prefix pref [''CHUNK_INFO__'', to_string (unat cs)]"

datatype topology = Server_topology | Route_topology | Channel_topology

text \<open>Partly received messages are kept like those of a receiver: the filled bytes and the buffer.\<close>

record sniffer =
  sn_prefix :: string
  sn_name :: string
  sn_topo :: topology
  sn_reader :: bool
  sn_cur :: u32
  sn_primed :: bool
  sn_dropped :: u64
  sn_frags :: recv_cache

definition new_sniffer :: sniffer where
  "new_sniffer = \<lparr>sn_prefix = '''', sn_name = '''', sn_topo = Route_topology, sn_reader = False, sn_cur = 0,
     sn_primed = False, sn_dropped = 0, sn_frags = []\<rparr>"

text \<open>
  Closing keeps the position, opening sets it. \<open>mapped\<close> tells whether a segment of a name can be
  mapped, which is up to the operating system.
\<close>

definition sniffer_close :: "sniffer \<Rightarrow> sniffer" where
  "sniffer_close s =
     s\<lparr>sn_prefix := '''', sn_name := '''', sn_reader := False, sn_primed := False, sn_dropped := 0, sn_frags := []\<rparr>"

definition impl_open :: "(string \<Rightarrow> bool) \<Rightarrow> string \<Rightarrow> string \<Rightarrow> topology \<Rightarrow> sniffer \<Rightarrow> bool \<times> sniffer" where
  "impl_open mapped pref nam t s =
     (let s = (sniffer_close s)\<lparr>sn_prefix := pref, sn_name := nam, sn_topo := t\<rparr>
      in if t = Channel_topology then (False, s)
         else if \<not> mapped (ring_segment pref nam) then (False, s)
         else (True, s\<lparr>sn_reader := True, sn_primed := False, sn_cur := 0, sn_dropped := 0, sn_frags := []\<rparr>))"

text \<open>The handle is \<open>None\<close> before the first opening; an empty name opens nothing.\<close>

definition sniffer_open :: "(string \<Rightarrow> bool) \<Rightarrow> string \<Rightarrow> string \<Rightarrow> topology \<Rightarrow> sniffer option \<Rightarrow> bool \<times> sniffer option" where
  "sniffer_open mapped pref nam t p =
     (if nam = '''' then (False, p)
      else let (ok, s) = impl_open mapped pref nam t (case p of None \<Rightarrow> new_sniffer | Some s \<Rightarrow> s) in (ok, Some s))"

definition sniffer_valid :: "sniffer option \<Rightarrow> bool" where
  "sniffer_valid p = (case p of None \<Rightarrow> False | Some s \<Rightarrow> sn_reader s)"

definition get_topology :: "sniffer option \<Rightarrow> topology" where
  "get_topology p = (case p of None \<Rightarrow> Route_topology | Some s \<Rightarrow> sn_topo s)"

definition dropped :: "sniffer option \<Rightarrow> u64" where
  "dropped p = (case p of None \<Rightarrow> 0 | Some s \<Rightarrow> sn_dropped s)"

definition skip_to_latest :: "sniffer option \<Rightarrow> sniffer option" where
  "skip_to_latest p = map_option (\<lambda>s. s\<lparr>sn_primed := False, sn_frags := []\<rparr>) p"

section \<open>One message of the ring\<close>

text \<open>
  A chunk is copied, and never released. A negative identifier or a segment that cannot be mapped
  gives an empty buffer; an identifier outside the segment would be a read outside of it, \<open>None\<close>.
\<close>

definition fetch_storage :: "int \<Rightarrow> nat \<Rightarrow> storages \<Rightarrow> bytes option option" where
  "fetch_storage i n st =
     (let cs = calc_chunk_size (of_nat n)
      in if st cs = None \<or> i < 0 then Some None else map_option Some (read_chunk cs i n st))"

text \<open>What a message leads to: nothing yet, or a message for the caller.\<close>

datatype sniffed = Go_on recv_cache | Give bytes recv_cache

definition sniff_start :: "bytes \<Rightarrow> nat \<Rightarrow> bytes" where
  "sniff_start data n = take data_length data @ replicate (n - data_length) 0"

definition sniff_append :: "nat \<times> bytes \<Rightarrow> bytes \<Rightarrow> nat \<Rightarrow> nat \<times> bytes" where
  "sniff_append c data n =
     (case c of (fill, buf) \<Rightarrow>
        let n = (if length buf < fill + n then length buf - fill else n)
        in (fill + n, take fill buf @ take n data @ drop (fill + n) buf))"

definition sniff_msg :: "storages \<Rightarrow> msg \<Rightarrow> recv_cache \<Rightarrow> sniffed option" where
  "sniff_msg st m rc =
     (if msg_size m \<le> 0 then Some (Go_on rc)
      else let n = nat (msg_size m)
           in if msg_storage m
              then do {
                out \<leftarrow> fetch_storage (msg_chunk_id m) n st;
                Some (case out of None \<Rightarrow> Go_on rc | Some bs \<Rightarrow> Give bs rc)
              }
              else case map_of rc (msg_id m) of
                     None \<Rightarrow>
                       if n \<le> data_length then Some (Give (take n (msg_data m)) rc)
                       else Some (Go_on ((msg_id m, data_length, sniff_start (msg_data m) n) # rc))
                   | Some c \<Rightarrow>
                       (let last = (sint (msg_remain m) \<le> 0);
                            c = sniff_append c (msg_data m) (if last then n else data_length);
                            rest = filter (\<lambda>(j, _). j \<noteq> msg_id m) rc
                        in if last \<or> length (snd c) \<le> fst c then Some (Give (snd c) rest)
                           else Some (Go_on ((msg_id m, c) # rest))))"

section \<open>Following the ring\<close>

text \<open>
  The sender goes on while the observer reads. \<open>watch\<close> is what the observer sees at its n-th access
  to shared memory: the write index, the bytes a copy of a slot yields, and the chunks.
\<close>

record watch =
  w_index :: "nat \<Rightarrow> u32"
  w_slot :: "nat \<Rightarrow> u32 \<Rightarrow> msg"
  w_store :: "nat \<Rightarrow> storages"

text \<open>A message for the caller with its \<open>meta\<close>.\<close>

record sniffer_result =
  sr_cc_id :: u32
  sr_msg_id :: u32
  sr_dropped :: u64
  sr_bytes :: bytes

partial_function (option) sniff_from :: "watch \<Rightarrow> nat \<Rightarrow> sniffer \<Rightarrow> (sniffer_result option \<times> sniffer \<times> nat) option" where
  "sniff_from W n s =
     (if sn_cur s = w_index W n then Some (None, s, Suc n)
      else let this = sn_cur s; m = w_slot W (n + 1) this; after = w_index W (n + 2); s = s\<lparr>sn_cur := this + 1\<rparr>
           in if kRingSlots < after - this
              then sniff_from W (n + 3) (s\<lparr>sn_dropped := sn_dropped s + 1, sn_frags := []\<rparr>)
              else do {
                r \<leftarrow> sniff_msg (w_store W (n + 3)) m (sn_frags s);
                (case r of
                   Go_on rc \<Rightarrow> sniff_from W (n + 4) (s\<lparr>sn_frags := rc\<rparr>)
                 | Give bs rc \<Rightarrow>
                     Some (Some \<lparr>sr_cc_id = msg_cc_id m, sr_msg_id = msg_id m, sr_dropped = sn_dropped s, sr_bytes = bs\<rparr>,
                           s\<lparr>sn_frags := rc\<rparr>, n + 4))
              })"

text \<open>A new observer starts at the write index; one that was lapped drops everything up to it.\<close>

definition sniff_resync :: "u32 \<Rightarrow> sniffer \<Rightarrow> sniffer" where
  "sniff_resync wt s =
     (let lag = wt - sn_cur s
      in if kRingSlots < lag then s\<lparr>sn_dropped := sn_dropped s + ucast lag, sn_cur := wt, sn_frags := []\<rparr> else s)"

definition try_recv_one :: "watch \<Rightarrow> nat \<Rightarrow> sniffer \<Rightarrow> (sniffer_result option \<times> sniffer \<times> nat) option" where
  "try_recv_one W n s =
     (if \<not> sn_reader s then Some (None, s, n)
      else if \<not> sn_primed s then Some (None, s\<lparr>sn_cur := w_index W n, sn_primed := True\<rparr>, n + 1)
      else sniff_from W (n + 1) (sniff_resync (w_index W n) s))"

definition sniffer_try_recv :: "watch \<Rightarrow> nat \<Rightarrow> sniffer option \<Rightarrow> (sniffer_result option \<times> sniffer option \<times> nat) option" where
  "sniffer_try_recv W n p =
     (case p of None \<Rightarrow> Some (None, None, n)
      | Some s \<Rightarrow> map_option (\<lambda>(r, s, n). (r, Some s, n)) (try_recv_one W n s))"

text \<open>The waits change nothing; \<open>late k\<close> is whether the deadline is over after the k-th of them.\<close>

partial_function (option) recv_rounds_from :: "watch \<Rightarrow> (nat \<Rightarrow> bool) \<Rightarrow> nat \<Rightarrow> nat \<Rightarrow> sniffer \<Rightarrow> (sniffer_result option \<times> sniffer \<times> nat) option" where
  "recv_rounds_from W late k n s =
     do {
       (r, s, n) \<leftarrow> try_recv_one W n s;
       if r \<noteq> None \<or> late k then Some (r, s, n) else recv_rounds_from W late (k + 1) n s
     }"

definition sniffer_recv :: "watch \<Rightarrow> (nat \<Rightarrow> bool) \<Rightarrow> nat \<Rightarrow> sniffer option \<Rightarrow> (sniffer_result option \<times> sniffer option \<times> nat) option" where
  "sniffer_recv W late n p =
     (case p of None \<Rightarrow> Some (None, None, n)
      | Some s \<Rightarrow>
          do {
            (r, s, n) \<leftarrow> try_recv_one W n s;
            if r \<noteq> None then Some (r, Some s, n)
            else map_option (\<lambda>(r, s, n). (r, Some s, n)) (recv_rounds_from W late 0 n s)
          })"

end
