(* ===== verification/SnifferLaws.thy ===== *)
theory SnifferLaws
  imports Sniffer ChannelLaws
begin

text \<open>
  What an observer sees of a channel. The messages of the sender are laid out in a log of frames,
  of which the ring holds the last 256, and the observer that is not lapped returns them in order.
\<close>

section \<open>Frames of one message\<close>

definition frame_count :: "bytes \<Rightarrow> nat" where
  "frame_count data = (length data + 63) div 64"

text \<open>After \<open>j\<close> frames of a message the observer keeps its beginning, and nothing else.\<close>

definition begun :: "u32 \<Rightarrow> bytes \<Rightarrow> nat \<Rightarrow> recv_cache \<Rightarrow> bool" where
  "begun i data j rc \<longleftrightarrow>
     (if j = 0 then rc = [] else \<exists>b. rc = [(i, 64 * j, b)] \<and> length b = length data \<and> take (64 * j) b = take (64 * j) data)"

lemma frame_count_less: "j < frame_count data \<longleftrightarrow> 64 * j < length data"
  by (simp add: frame_count_def) linarith

lemma sniff_append_frame:
  assumes "take off b = take off data" and "length b = length data" and "off + n \<le> length data" and "n \<le> 64"
  shows "\<exists>b'. sniff_append (off, b) (pad_to 64 (take 64 (drop off data))) n = (off + n, b') \<and>
    length b' = length data \<and> take (off + n) b' = take (off + n) data"
proof -
  have t: "take n (pad_to 64 (take 64 (drop off data))) = take n (drop off data)"
  proof -
    have "n \<le> length data - off" using assms(3) by simp
    then show ?thesis using assms(4) by (simp add: pad_to_def min_def)
  qed
  have "take off b @ take n (drop off data) = take (off + n) data" using assms(1) by (simp add: take_add)
  moreover have "length (take off data @ take n (drop off data)) = off + n" using assms(3) by simp
  ultimately show ?thesis using assms t by (simp add: sniff_append_def Let_def)
qed

lemma sniff_frame:
  assumes b: "begun i data j rc" and j: "64 * j < length data" and n: "length data < 2 ^ 31"
  shows "length data \<le> 64 * j + 64 \<Longrightarrow> sniff_msg st (make_msg c i (frame_at data (64 * j))) rc = Some (Give data [])"
    and "64 * j + 64 < length data \<Longrightarrow>
      \<exists>rc'. sniff_msg st (make_msg c i (frame_at data (64 * j))) rc = Some (Go_on rc') \<and> begun i data (Suc j) rc'"
proof -
  let ?m = "make_msg c i (frame_at data (64 * j))"
  note f = frame_size [OF j n, of c i]
  have size: "nat (msg_size ?m) = length data - 64 * j" "0 < msg_size ?m" using f(1) j by auto
  show "sniff_msg st ?m rc = Some (Give data [])" if last: "length data \<le> 64 * j + 64"
  proof (cases "j = 0")
    case True
    then show ?thesis using b f(3) size last
      by (simp add: begun_def sniff_msg_def Let_def data_length_def pad_to_def)
  next
    case False
    then obtain a where a: "rc = [(i, 64 * j, a)]" "length a = length data" "take (64 * j) a = take (64 * j) data"
      using b by (auto simp: begun_def)
    have e: "64 * j + (length data - 64 * j) = length data" "length data \<le> length data" "length data - 64 * j \<le> 64" using j last by auto
    obtain a' where a': "sniff_append (64 * j, a) (pad_to 64 (take 64 (drop (64 * j) data))) (length data - 64 * j) = (length data, a')"
        "length a' = length data" "take (length data) a' = take (length data) data"
      using sniff_append_frame [OF a(3,2), of "length data - 64 * j", unfolded e(1), OF e(2,3)] by blast
    then show ?thesis using a(1) f(2,3) size last by (simp add: sniff_msg_def Let_def)
  qed
  show "\<exists>rc'. sniff_msg st ?m rc = Some (Go_on rc') \<and> begun i data (Suc j) rc'" if more: "64 * j + 64 < length data"
  proof (cases "j = 0")
    case True
    then have "sniff_msg st ?m rc = Some (Go_on [(i, 64, sniff_start (pad_to 64 (take 64 data)) (length data))])"
      using b f(3) size more by (simp add: begun_def sniff_msg_def Let_def data_length_def)
    moreover have "begun i data (Suc j) [(i, 64, sniff_start (pad_to 64 (take 64 data)) (length data))]"
      using True more by (simp add: begun_def sniff_start_def data_length_def pad_to_def)
    ultimately show ?thesis by blast
  next
    case False
    then obtain a where a: "rc = [(i, 64 * j, a)]" "length a = length data" "take (64 * j) a = take (64 * j) data"
      using b by (auto simp: begun_def)
    obtain a' where a': "sniff_append (64 * j, a) (pad_to 64 (take 64 (drop (64 * j) data))) 64 = (64 * j + 64, a')"
        "length a' = length data" "take (64 * j + 64) a' = take (64 * j + 64) data"
      using sniff_append_frame [OF a(3,2), of 64] more by auto
    then have "sniff_msg st ?m rc = Some (Go_on [(i, 64 * j + 64, a')])"
      using a(1) f(2,3) size more by (simp add: sniff_msg_def Let_def data_length_def)
    moreover have "begun i data (Suc j) [(i, 64 * j + 64, a')]" using a' by (simp add: begun_def add.commute)
    ultimately show ?thesis by blast
  qed
qed

section \<open>A log of messages\<close>

text \<open>
  The writer has published \<open>w n\<close> frames of the log at access \<open>n\<close>, and is writing the next one when
  it is busy. A slot holds the frame of its position until the writer comes round to it.
\<close>

definition follows :: "watch \<Rightarrow> (nat \<Rightarrow> nat) \<Rightarrow> (nat \<Rightarrow> bool) \<Rightarrow> (nat \<Rightarrow> msg) \<Rightarrow> bool" where
  "follows W w busy log \<longleftrightarrow> mono w \<and> (\<forall>n. w_index W n = of_nat (w n)) \<and>
     (\<forall>n k. k < w n \<and> w n + of_bool (busy n) \<le> k + 256 \<longrightarrow> w_slot W n (of_nat k) = log k)"

text \<open>
  A message goes through the ring as fragments, or as one slot with the identifier of its chunk and its size. The
  bytes of a message in a chunk are those that the chunk holds when it is copied.
\<close>

datatype wire = In_frames bytes | In_chunk nat nat

fun slot_count :: "wire \<Rightarrow> nat" where
  "slot_count (In_frames data) = frame_count data"
| "slot_count (In_chunk k sz) = 1"

fun wire_ok :: "wire \<Rightarrow> bool" where
  "wire_ok (In_frames data) \<longleftrightarrow> data \<noteq> [] \<and> length data < 2 ^ 31"
| "wire_ok (In_chunk k sz) \<longleftrightarrow> k < 32 \<and> 0 < sz \<and> sz < 2 ^ 31"

fun slot_of :: "u32 \<Rightarrow> u32 \<Rightarrow> wire \<Rightarrow> nat \<Rightarrow> msg" where
  "slot_of c i (In_frames data) j = make_msg c i (frame_at data (64 * j))"
| "slot_of c i (In_chunk k sz) j = make_msg c i (of_nat sz - of_nat data_length, Ref (int k))"

fun wire_bytes :: "storages \<Rightarrow> wire \<Rightarrow> bytes option option" where
  "wire_bytes st (In_frames data) = Some (Some data)"
| "wire_bytes st (In_chunk k sz) = fetch_storage (int k) sz st"

fun begun_wire :: "u32 \<Rightarrow> wire \<Rightarrow> nat \<Rightarrow> recv_cache \<Rightarrow> bool" where
  "begun_wire i (In_frames data) j rc \<longleftrightarrow> begun i data j rc"
| "begun_wire i (In_chunk k sz) j rc \<longleftrightarrow> rc = []"

text \<open>Message \<open>q\<close> (its sender, its number and the way it takes) begins at position \<open>start q\<close>.\<close>

definition laid_out :: "(nat \<Rightarrow> u32 \<times> u32 \<times> wire) \<Rightarrow> (nat \<Rightarrow> nat) \<Rightarrow> (nat \<Rightarrow> msg) \<Rightarrow> bool" where
  "laid_out sent start log \<longleftrightarrow>
     (\<forall>q. case sent q of (c, i, x) \<Rightarrow>
        wire_ok x \<and> start (Suc q) = start q + slot_count x \<and> (\<forall>j < slot_count x. log (start q + j) = slot_of c i x j))"

text \<open>The segments of the chunks stay mapped; what the chunks hold may change.\<close>

definition chunks_mapped :: "watch \<Rightarrow> (nat \<Rightarrow> u32 \<times> u32 \<times> wire) \<Rightarrow> bool" where
  "chunks_mapped W sent \<longleftrightarrow> (\<forall>q n. \<exists>bs. wire_bytes (w_store W n) (snd (snd (sent q))) = Some (Some bs))"

text \<open>
  The writer does not lap an observer that reads up to \<open>c\<close> slots from position \<open>p\<close> on, four accesses for each from
  access \<open>n\<close> on: while a slot that is there is copied the writer has not come round to it, and neither when the index
  is read again after the copy.
\<close>

definition unlapped :: "(nat \<Rightarrow> nat) \<Rightarrow> (nat \<Rightarrow> bool) \<Rightarrow> nat \<Rightarrow> nat \<Rightarrow> nat \<Rightarrow> bool" where
  "unlapped w busy n p c \<longleftrightarrow>
     (\<forall>k < c. (\<forall>k' \<le> k. p + k' < w (n + 4 * k')) \<longrightarrow>
        w (n + 4 * k + 1) + of_bool (busy (n + 4 * k + 1)) \<le> p + k + 256 \<and> w (n + 4 * k + 2) \<le> p + k + 256)"

lemma unlapped_first:
  "unlapped w busy n p c \<Longrightarrow> 0 < c \<Longrightarrow> p < w n \<Longrightarrow> w (n + 1) + of_bool (busy (n + 1)) \<le> p + 256 \<and> w (n + 2) \<le> p + 256"
  unfolding unlapped_def by (drule spec [of _ 0]) simp

lemma unlapped_rest:
  assumes "unlapped w busy n p c" "p < w n"
  shows "unlapped w busy (n + 4) (Suc p) (c - 1)"
  unfolding unlapped_def
proof (intro allI impI)
  fix k assume k: "k < c - 1" "\<forall>k' \<le> k. Suc p + k' < w (n + 4 + 4 * k')"
  have "p + k' < w (n + 4 * k')" if "k' \<le> Suc k" for k'
    using that k(2) assms(2) by (cases k') (auto simp: algebra_simps)
  moreover have e: "n + 4 * Suc k = n + 4 + 4 * k" "p + Suc k = Suc p + k" by simp_all
  ultimately show "w (n + 4 + 4 * k + 1) + of_bool (busy (n + 4 + 4 * k + 1)) \<le> Suc p + k + 256 \<and> w (n + 4 + 4 * k + 2) \<le> Suc p + k + 256"
    using assms(1) [unfolded unlapped_def, rule_format, of "Suc k"] k(1) unfolding e by simp
qed

text \<open>The observer has returned the messages before \<open>q\<close> and seen \<open>j\<close> frames of it.\<close>

definition seen :: "(nat \<Rightarrow> u32 \<times> u32 \<times> wire) \<Rightarrow> (nat \<Rightarrow> nat) \<Rightarrow> nat \<Rightarrow> nat \<Rightarrow> sniffer \<Rightarrow> bool" where
  "seen sent start q j s \<longleftrightarrow> sn_reader s \<and> sn_primed s \<and> sn_cur s = of_nat (start q + j) \<and>
     (case sent q of (c, i, x) \<Rightarrow> j < slot_count x \<and> begun_wire i x j (sn_frags s))"

text \<open>What the observer returns for a message that it copies from the storage \<open>st\<close>.\<close>

definition result_of :: "u64 \<Rightarrow> u32 \<times> u32 \<times> wire \<Rightarrow> storages \<Rightarrow> sniffer_result \<Rightarrow> bool" where
  "result_of d s st r \<longleftrightarrow>
     (case s of (c, i, x) \<Rightarrow> sr_cc_id r = c \<and> sr_msg_id r = i \<and> sr_dropped r = d \<and> wire_bytes st x = Some (Some (sr_bytes r)))"

lemma slot_fields [simp]: "msg_cc_id (slot_of c i x j) = c" "msg_id (slot_of c i x j) = i"
  by (cases x; simp)+

lemma slot_count_pos: "wire_ok x \<Longrightarrow> 0 < slot_count x"
  using frame_count_less [of 0] by (cases x) auto

lemma begun_wire_start [simp]: "begun_wire i x 0 []"
  by (cases x) (auto simp: begun_def)

text \<open>One slot of a message: the last one gives the message, the others are kept.\<close>

lemma sniff_slot:
  assumes b: "begun_wire i x j rc" and j: "j < slot_count x" and ok: "wire_ok x" and st: "wire_bytes st x = Some (Some bs)"
  shows "Suc j = slot_count x \<Longrightarrow> sniff_msg st (slot_of c i x j) rc = Some (Give bs [])"
    and "Suc j < slot_count x \<Longrightarrow> \<exists>rc'. sniff_msg st (slot_of c i x j) rc = Some (Go_on rc') \<and> begun_wire i x (Suc j) rc'"
proof -
  show "sniff_msg st (slot_of c i x j) rc = Some (Give bs [])" if last: "Suc j = slot_count x"
  proof (cases x)
    case (In_frames data)
    then have "64 * j < length data" "length data \<le> 64 * j + 64"
      using j last frame_count_less [of "Suc j" data] frame_count_less [of j data] by auto
    then show ?thesis using sniff_frame(1) [of i data j rc] b ok st In_frames by simp
  next
    case (In_chunk k sz)
    let ?m = "make_msg c i (of_nat sz - of_nat data_length, Ref (int k))"
    have "sint (of_int (int sz - 64) :: u32) = int sz - 64"
      using ok In_chunk by (simp add: signed_of_int signed_take_bit_int_eq_self del: of_int_diff)
    then have "msg_size ?m = int sz" by (simp add: msg_size_def data_length_def)
    then show ?thesis using b ok st In_chunk chunk_id_msg [of "int k" c i] by (simp add: sniff_msg_def Let_def)
  qed
  show "\<exists>rc'. sniff_msg st (slot_of c i x j) rc = Some (Go_on rc') \<and> begun_wire i x (Suc j) rc'" if more: "Suc j < slot_count x"
  proof (cases x)
    case (In_frames data)
    then have "64 * j + 64 < length data" using more frame_count_less [of "Suc j" data] by simp
    then show ?thesis using sniff_frame(2) [of i data j rc] b ok In_frames by simp
  next
    case (In_chunk k sz)
    then show ?thesis using more by simp
  qed
qed

lemma ring_distance:
  assumes "p \<le> (v :: nat)" and "v \<le> p + 256"
  shows "((of_nat v :: u32) - of_nat p) = of_nat (v - p)" and "\<not> kRingSlots < (of_nat v :: u32) - of_nat p"
    and "(of_nat p :: u32) = of_nat v \<longleftrightarrow> p = v"
proof -
  show e: "((of_nat v :: u32) - of_nat p) = of_nat (v - p)" using assms(1) by (simp add: of_nat_diff)
  have u: "unat (of_nat (v - p) :: u32) = v - p" using assms by (simp add: unat_of_nat del: of_nat_diff)
  then show "\<not> kRingSlots < (of_nat v :: u32) - of_nat p" unfolding e using assms by (simp add: word_less_nat_alt kRingSlots_def)
  have "(of_nat p :: u32) = of_nat v \<longleftrightarrow> (of_nat (v - p) :: u32) = 0" unfolding e [symmetric] by auto
  also have "\<dots> \<longleftrightarrow> v - p = 0" using u by (metis unat_eq_zero of_nat_0)
  finally show "(of_nat p :: u32) = of_nat v \<longleftrightarrow> p = v" using assms(1) by auto
qed

lemma sniff_from_step:
  assumes "follows W w busy log" and "sn_cur s = of_nat p" and "p < w n" and "w (n + 1) + of_bool (busy (n + 1)) \<le> p + 256 \<and> w (n + 2) \<le> p + 256"
  shows "sniff_from W n s =
    do {
      r \<leftarrow> sniff_msg (w_store W (n + 3)) (log p) (sn_frags s);
      (case r of
         Go_on rc \<Rightarrow> sniff_from W (n + 4) (s\<lparr>sn_cur := of_nat (Suc p), sn_frags := rc\<rparr>)
       | Give bs rc \<Rightarrow>
           Some (Some \<lparr>sr_cc_id = msg_cc_id (log p), sr_msg_id = msg_id (log p), sr_dropped = sn_dropped s, sr_bytes = bs\<rparr>,
                 s\<lparr>sn_cur := of_nat (Suc p), sn_frags := rc\<rparr>, n + 4))
    }"
proof -
  have mono: "w n \<le> w (n + 1)" "w n \<le> w (n + 2)" using assms(1) by (auto simp: follows_def mono_def)
  have lim: "w n \<le> p + 256" "w (n + 1) + of_bool (busy (n + 1)) \<le> p + 256" "w (n + 2) \<le> p + 256"
    using assms(4) mono by auto
  have slot: "w_slot W (n + 1) (of_nat p) = log p" using assms(1,3) mono(1) lim(2) by (simp add: follows_def)
  have idx: "w_index W m = of_nat (w m)" for m using assms(1) by (simp add: follows_def)
  have ne: "(of_nat p :: u32) \<noteq> of_nat (w n)" using ring_distance(3) [of p "w n"] assms(3) lim(1) by simp
  have lag: "\<not> kRingSlots < (of_nat (w (n + 2)) :: u32) - of_nat p"
    by (rule ring_distance(2)) (use assms(3) mono(2) lim(3) in auto)
  have one: "(of_nat p :: u32) + 1 = of_nat (Suc p)" by simp
  show ?thesis
    apply (subst sniff_from.simps)
    apply (simp only: Let_def assms(2) idx ne lag slot one if_False)
    apply simp
    done
qed

text \<open>What stays: the reader is open and has not lost anything.\<close>

lemma sniff_from_seen:
  assumes W: "follows W w busy log" and L: "laid_out sent start log" and C: "chunks_mapped W sent"
  shows "seen sent start q j s \<Longrightarrow> start q + j \<le> w n \<Longrightarrow> unlapped w busy n (start q + j) (slot_count (snd (snd (sent q))) - j) \<Longrightarrow>
    \<exists>r s' n'. sniff_from W n s = Some (r, s', n') \<and> n < n' \<and> sn_dropped s' = sn_dropped s \<and>
      (case r of
         None \<Rightarrow> \<exists>j'. j \<le> j' \<and> seen sent start q j' s' \<and> w n \<le> start q + j' \<and> start q + j' \<le> w n'
       | Some x \<Rightarrow> (\<exists>m. n < m \<and> m < n' \<and> result_of (sn_dropped s) (sent q) (w_store W m) x) \<and>
                   seen sent start (Suc q) 0 s' \<and> start (Suc q) \<le> w n')"
proof (induction "slot_count (snd (snd (sent q))) - j" arbitrary: j s n rule: less_induct)
  case less
  obtain c i x where x: "sent q = (c, i, x)" by (cases "sent q")
  have l: "wire_ok x" "start (Suc q) = start q + slot_count x" "\<And>k. k < slot_count x \<Longrightarrow> log (start q + k) = slot_of c i x k"
    using L [unfolded laid_out_def, rule_format, of q] x by auto
  have s: "sn_reader s" "sn_primed s" "sn_cur s = of_nat (start q + j)" "j < slot_count x" "begun_wire i x j (sn_frags s)"
    using less.prems(1) x by (auto simp: seen_def)
  have mono: "m \<le> m' \<Longrightarrow> w m \<le> w m'" for m m' using W by (simp add: follows_def mono_def)
  show ?case
  proof (cases "start q + j = w n")
    case True
    then have "sniff_from W n s = Some (None, s, Suc n)"
      using s(3) W by (subst sniff_from.simps) (simp add: follows_def)
    moreover have "\<exists>j'. j \<le> j' \<and> seen sent start q j' s \<and> w n \<le> start q + j' \<and> start q + j' \<le> w (Suc n)"
      using less.prems(1) True mono [of n "Suc n"] by (intro exI [of _ j]) auto
    ultimately show ?thesis by (intro exI conjI) auto
  next
    case False
    then have lt: "start q + j < w n" using less.prems(2) by simp
    let ?p = "start q + j"
    have log: "log ?p = slot_of c i x j" using l(3) s(4) by simp
    obtain bs where bs: "wire_bytes (w_store W (n + 3)) x = Some (Some bs)"
      using C [unfolded chunks_mapped_def, rule_format, of "n + 3" q] x by auto
    have un: "unlapped w busy n ?p (slot_count x - j)" using less.prems(3) x by simp
    note step = sniff_from_step [OF W s(3) lt unlapped_first [OF un _ lt], unfolded log]
    note slot = sniff_slot [OF s(5,4) l(1) bs, of c]
    show ?thesis
    proof (cases "Suc j = slot_count x")
      case True
      let ?s = "s\<lparr>sn_cur := of_nat (Suc ?p), sn_frags := []\<rparr>"
      let ?r = "\<lparr>sr_cc_id = c, sr_msg_id = i, sr_dropped = sn_dropped s, sr_bytes = bs\<rparr>"
      have r: "sniff_from W n s = Some (Some ?r, ?s, n + 4)"
        using slot(1) [OF True] s(4) by (simp add: step)
      have res: "result_of (sn_dropped s) (sent q) (w_store W (n + 3)) ?r" using bs x by (simp add: result_of_def)
      obtain c' i' x' where y: "sent (Suc q) = (c', i', x')" by (cases "sent (Suc q)")
      have "wire_ok x'" using L [unfolded laid_out_def, rule_format, of "Suc q"] y by auto
      then have "0 < slot_count x'" by (rule slot_count_pos)
      moreover have "Suc ?p = start (Suc q)" using l(2) True by simp
      ultimately have "seen sent start (Suc q) 0 ?s" using s(1,2) y by (simp add: seen_def del: of_nat_Suc of_nat_add)
      moreover have "start (Suc q) \<le> w (n + 4)" using lt l(2) True mono [of n "n + 4"] by simp
      moreover have "\<exists>m. n < m \<and> m < n + 4 \<and> result_of (sn_dropped s) (sent q) (w_store W m) ?r"
        using res by (intro exI [of _ "n + 3"]) simp
      ultimately show ?thesis using r by (simp del: of_nat_Suc of_nat_add)
    next
      case more: False
      then have lt': "Suc j < slot_count x" using s(4) by simp
      obtain rc where rc: "sniff_msg (w_store W (n + 3)) (slot_of c i x j) (sn_frags s) = Some (Go_on rc)" "begun_wire i x (Suc j) rc"
        using slot(2) [OF lt'] by auto
      let ?s = "s\<lparr>sn_cur := of_nat (Suc ?p), sn_frags := rc\<rparr>"
      have go: "sniff_from W n s = sniff_from W (n + 4) ?s" using rc(1) s(4) by (simp add: step)
      have seen: "seen sent start q (Suc j) ?s" using s lt' rc(2) x by (simp add: seen_def)
      have w: "w n \<le> w (n + 4)" using mono by simp
      have un': "unlapped w busy (n + 4) (start q + Suc j) (slot_count (snd (snd (sent q))) - Suc j)"
        using unlapped_rest [OF un lt] x by simp
      have smaller: "slot_count (snd (snd (sent q))) - Suc j < slot_count (snd (snd (sent q))) - j"
        using s(4) x by simp
      have d: "sn_dropped ?s = sn_dropped s" by simp
      have "start q + Suc j \<le> w (n + 4)" using lt w by simp
      from less.hyps [OF smaller seen this un', unfolded d] obtain r s' n' where r: "sniff_from W (n + 4) ?s = Some (r, s', n')" "n + 4 < n'" "sn_dropped s' = sn_dropped s"
        and c: "case r of
         None \<Rightarrow> \<exists>j'. Suc j \<le> j' \<and> seen sent start q j' s' \<and> w (n + 4) \<le> start q + j' \<and> start q + j' \<le> w n'
       | Some x \<Rightarrow> (\<exists>m. n + 4 < m \<and> m < n' \<and> result_of (sn_dropped s) (sent q) (w_store W m) x) \<and>
                   seen sent start (Suc q) 0 s' \<and> start (Suc q) \<le> w n'"
        by blast
      have "case r of
         None \<Rightarrow> \<exists>j'. j \<le> j' \<and> seen sent start q j' s' \<and> w n \<le> start q + j' \<and> start q + j' \<le> w n'
       | Some x \<Rightarrow> (\<exists>m. n < m \<and> m < n' \<and> result_of (sn_dropped s) (sent q) (w_store W m) x) \<and>
                   seen sent start (Suc q) 0 s' \<and> start (Suc q) \<le> w n'"
        using c w by (cases r) (auto intro: Suc_leD order_trans, meson add_lessD1)
      then show ?thesis using go r by (intro exI conjI) auto
    qed
  qed
qed

text \<open>
  C13. An observer that the writer does not lap gets the messages of the channel in order, those in fragments and those
  in chunks, whatever is published meanwhile: a call returns the next message when it is there (its bytes as they were
  sent, or for a message in a chunk the bytes that the chunk holds when it is copied), and otherwise remembers the
  frames it has seen. That the writer does not lap it is asked only of the accesses of this call.
\<close>

theorem sniffer_in_order:
  assumes "follows W w busy log" and "laid_out sent start log" and "chunks_mapped W sent" and "seen sent start q j s"
    and "start q + j \<le> w n" and "w n \<le> start q + j + 256"
    and "unlapped w busy (n + 1) (start q + j) (slot_count (snd (snd (sent q))) - j)"
  shows "\<exists>r s' n'. try_recv_one W n s = Some (r, s', n') \<and> n < n' \<and> sn_dropped s' = sn_dropped s \<and>
    (start (Suc q) \<le> w n \<longrightarrow> r \<noteq> None) \<and>
    (case r of
       None \<Rightarrow> \<exists>j'. j \<le> j' \<and> seen sent start q j' s' \<and> start q + j' \<le> w n'
     | Some x \<Rightarrow> (\<exists>m. n < m \<and> m < n' \<and> result_of (sn_dropped s) (sent q) (w_store W m) x) \<and>
                 seen sent start (Suc q) 0 s' \<and> start (Suc q) \<le> w n')"
proof -
  have mono: "m \<le> m' \<Longrightarrow> w m \<le> w m'" for m m' using assms(1) by (simp add: follows_def mono_def)
  have s: "sn_reader s" "sn_primed s" "sn_cur s = of_nat (start q + j)" using assms(4) by (auto simp: seen_def)
  have "sniff_resync (w_index W n) s = s"
    using ring_distance(2) [OF assms(5,6)] s(3) assms(1) by (simp add: sniff_resync_def follows_def Let_def)
  then have one: "try_recv_one W n s = sniff_from W (n + 1) s" using s by (simp add: try_recv_one_def)
  have "start q + j \<le> w (n + 1)" using assms(5) mono [of n "n + 1"] by simp
  then obtain r s' n' where r: "sniff_from W (n + 1) s = Some (r, s', n')" "n + 1 < n'" "sn_dropped s' = sn_dropped s"
    and c: "case r of
       None \<Rightarrow> \<exists>j'. j \<le> j' \<and> seen sent start q j' s' \<and> w (n + 1) \<le> start q + j' \<and> start q + j' \<le> w n'
     | Some x \<Rightarrow> (\<exists>m. n + 1 < m \<and> m < n' \<and> result_of (sn_dropped s) (sent q) (w_store W m) x) \<and>
                 seen sent start (Suc q) 0 s' \<and> start (Suc q) \<le> w n'"
    using sniff_from_seen [OF assms(1-4), of "n + 1"] assms(7) by blast
  have "r \<noteq> None" if "start (Suc q) \<le> w n"
  proof
    assume "r = None"
    then obtain j' where j': "seen sent start q j' s'" "w (n + 1) \<le> start q + j'" using c by auto
    have "start q + j' < start (Suc q)" using j'(1) assms(2) [unfolded laid_out_def, rule_format, of q] by (auto simp: seen_def)
    then show False using that j'(2) mono [of n "n + 1"] by simp
  qed
  moreover have "case r of
       None \<Rightarrow> \<exists>j'. j \<le> j' \<and> seen sent start q j' s' \<and> start q + j' \<le> w n'
     | Some x \<Rightarrow> (\<exists>m. n < m \<and> m < n' \<and> result_of (sn_dropped s) (sent q) (w_store W m) x) \<and>
                 seen sent start (Suc q) 0 s' \<and> start (Suc q) \<le> w n'"
    using c by (cases r) (auto dest: Suc_lessD)
  ultimately show ?thesis using one r(1,3) r(2) by (intro exI conjI) auto
qed

text \<open>A ring at rest with two messages of two frames.\<close>

definition example_log :: "nat \<Rightarrow> msg" where
  "example_log k = make_msg 2 (of_nat (k div 2)) (frame_at (replicate 100 7) (64 * (k mod 2)))"

definition example_watch :: watch where
  "example_watch = \<lparr>w_index = (\<lambda>_. 4), w_slot = (\<lambda>_ p. example_log (unat p)), w_store = (\<lambda>_ _. None)\<rparr>"

definition example_sniffer :: sniffer where
  "example_sniffer = new_sniffer\<lparr>sn_reader := True, sn_primed := True\<rparr>"

lemma example_follows: "follows example_watch (\<lambda>_. 4) (\<lambda>_. False) example_log"
  by (auto simp: follows_def example_watch_def mono_def unat_of_nat)

lemma example_laid_out: "laid_out (\<lambda>q. (2, of_nat q, In_frames (replicate 100 7))) (\<lambda>q. 2 * q) example_log"
proof -
  have "frame_count (replicate 100 (7 :: byte)) = 2" by (simp add: frame_count_def)
  moreover have "j < 2 \<Longrightarrow> (2 * q + j) div 2 = q \<and> (2 * q + j) mod 2 = j" for q j :: nat by auto
  ultimately show ?thesis by (simp add: laid_out_def example_log_def)
qed

theorem sniffer_in_order_witness:
  "\<exists>s' n'. try_recv_one example_watch 0 example_sniffer =
     Some (Some \<lparr>sr_cc_id = 2, sr_msg_id = 0, sr_dropped = 0, sr_bytes = replicate 100 7\<rparr>, s', n')"
proof -
  have "seen (\<lambda>q. (2, of_nat q, In_frames (replicate 100 7))) (\<lambda>q. 2 * q) 0 0 example_sniffer"
    by (simp add: seen_def example_sniffer_def new_sniffer_def frame_count_def begun_def)
  moreover have "chunks_mapped example_watch (\<lambda>q. (2, of_nat q, In_frames (replicate 100 7)))" by (simp add: chunks_mapped_def)
  ultimately obtain r s' n' where r: "try_recv_one example_watch 0 example_sniffer = Some (r, s', n')" "r \<noteq> None"
    "case r of None \<Rightarrow> True | Some x \<Rightarrow> \<exists>st. result_of (sn_dropped example_sniffer) (2, 0, In_frames (replicate 100 7)) st x"
    using sniffer_in_order [OF example_follows example_laid_out, of 0 0 example_sniffer 0]
    by (auto simp: unlapped_def split: option.splits, blast+)
  then show ?thesis
    by (cases r) (auto simp: result_of_def example_sniffer_def new_sniffer_def intro!: sniffer_result.equality)
qed

section \<open>A chunk that is used again\<close>

text \<open>
  An observer is not one of the readers of a chunk: when they have dropped it, the next message of the size is written
  into it, and an observer that the writer has not lapped returns that message's bytes under the old number.
\<close>

theorem sniffer_chunk_reused:
  assumes "laid_out sent start log" and "sent q = (c, i, In_chunk k sz)" and "follows W w busy log" and "sn_reader s" "sn_primed s"
    and "sn_cur s = of_nat (start q)" "sn_frags s = []" and "start q < w n" "w n \<le> start q + 256"
    and "unlapped w busy (n + 1) (start q) 1"
    and "fetch_storage (int k) sz (w_store W (n + 4)) = Some (Some other)"
  shows "\<exists>s' n'. try_recv_one W n s = Some (Some \<lparr>sr_cc_id = c, sr_msg_id = i, sr_dropped = sn_dropped s, sr_bytes = other\<rparr>, s', n')"
proof -
  have idx: "w_index W n = of_nat (w n)" and mono: "w n \<le> w (n + 1)" using assms(3) by (auto simp: follows_def mono_def)
  have "sniff_resync (w_index W n) s = s"
    using ring_distance(2) [of "start q" "w n"] assms(6,8,9) idx by (simp add: sniff_resync_def Let_def)
  then have one: "try_recv_one W n s = sniff_from W (n + 1) s" using assms(4,5) by (simp add: try_recv_one_def)
  have l: "wire_ok (In_chunk k sz)" "log (start q) = slot_of c i (In_chunk k sz) 0"
    using assms(1) [unfolded laid_out_def, rule_format, of q] assms(2) by auto
  have st: "wire_bytes (w_store W (n + 1 + 3)) (In_chunk k sz) = Some (Some other)"
  proof -
    have "n + 1 + 3 = n + 4" by simp
    then show ?thesis using assms(11) by (simp only: wire_bytes.simps)
  qed
  have b: "begun_wire i (In_chunk k sz) 0 (sn_frags s)" using assms(7) by simp
  have give: "sniff_msg (w_store W (n + 1 + 3)) (slot_of c i (In_chunk k sz) 0) (sn_frags s) = Some (Give other [])"
    by (rule sniff_slot(1) [OF b _ l(1) st]) simp_all
  have lt: "start q < w (n + 1)" using assms(8) mono by simp
  note step = sniff_from_step [OF assms(3,6) lt unlapped_first [OF assms(10) _ lt, OF zero_less_one]]
  show ?thesis unfolding one step l(2) give slot_fields bind.bind_lunit sniffed.case by blast
qed

theorem sniffer_chunk_reused_witness:
  "\<exists>W s' n'. try_recv_one W 0 example_sniffer =
     Some (Some \<lparr>sr_cc_id = 2, sr_msg_id = 5, sr_dropped = 0, sr_bytes = replicate 100 0\<rparr>, s', n')"
proof -
  let ?st = "\<lambda>cs. Some (zero_info cs)" and ?log = "\<lambda>_ :: nat. slot_of 2 5 (In_chunk 0 100) 0"
  let ?W = "\<lparr>w_index = (\<lambda>_. 1), w_slot = (\<lambda>_ _. ?log 0), w_store = (\<lambda>_. ?st)\<rparr>"
  have "laid_out (\<lambda>_. (2, 5, In_chunk 0 100)) (\<lambda>q. q) ?log" by (simp add: laid_out_def)
  moreover have "follows ?W (\<lambda>_. 1) (\<lambda>_. False) ?log" by (simp add: follows_def mono_def)
  moreover have "fetch_storage (int 0) 100 ?st = Some (Some (replicate 100 0))"
    using chunk_size_value [of 100]
    by (simp add: fetch_storage_def read_chunk_def zero_info_def max_count_def get_bytes_def)
  ultimately show ?thesis
    using sniffer_chunk_reused [of "\<lambda>_. (2, 5, In_chunk 0 100)" "\<lambda>q. q" ?log 0 2 5 0 100 ?W "\<lambda>_. 1" "\<lambda>_. False" example_sniffer 0 "replicate 100 0"]
    by (auto simp: example_sniffer_def new_sniffer_def unlapped_def)
qed

section \<open>Lapped observers\<close>

text \<open>
  The observer notices in the middle of the loop that a slot was overwritten, drops it and goes on
  with the next slot, which may hold the rest of a message: it is returned as a whole one.
\<close>

theorem sniffer_truncates:
  assumes "64 < length data" and "length data \<le> 128"
    and "log k = make_msg c i (frame_at data 0)" and "log (Suc k) = make_msg c i (frame_at data 64)"
    and "follows W w busy log" and "\<And>m. \<not> busy m" and "w 0 = k + 256" and "w 1 = k + 256" and "\<And>m. 1 < m \<Longrightarrow> w m = k + 257"
    and "sn_reader s" and "sn_primed s" and "sn_cur s = of_nat k"
  shows "\<exists>s' n'. try_recv_one W 0 s =
    Some (Some \<lparr>sr_cc_id = c, sr_msg_id = i, sr_dropped = sn_dropped s + 1, sr_bytes = drop 64 data\<rparr>, s', n')"
proof -
  have idx: "w_index W m = of_nat (w m)" for m using assms(5) by (simp add: follows_def)
  have far: "((of_nat (k + 257) :: u32) - of_nat k) = 257" by simp
  have "\<not> kRingSlots < (of_nat (k + 256) :: u32) - of_nat k" by (rule ring_distance(2)) auto
  then have "sniff_resync (w_index W 0) s = s" using assms(7,12) idx by (simp add: sniff_resync_def Let_def)
  then have one: "try_recv_one W 0 s = sniff_from W 1 s" using assms(10,11) by (simp add: try_recv_one_def)
  let ?s = "s\<lparr>sn_cur := of_nat (Suc k), sn_dropped := sn_dropped s + 1, sn_frags := []\<rparr>"
  have ne: "(of_nat k :: u32) \<noteq> of_nat (k + 256)" using ring_distance(3) [of k "k + 256"] by simp
  have at: "w_index W 1 = of_nat (k + 256)" "w_index W (1 + 2) = of_nat (k + 257)" using idx [of 1] idx [of "1 + 2"] assms(8,9) by simp_all
  have lapped: "kRingSlots < (of_nat (k + 257) :: u32) - of_nat k" unfolding far by (simp add: kRingSlots_def)
  have drop: "sniff_from W 1 s = sniff_from W 4 ?s"
    apply (subst sniff_from.simps)
    apply (simp only: Let_def assms(12) at ne lapped if_True if_False)
    apply (simp add: add.commute)
    done
  have e: "frame_at data 64 = frame_at (drop 64 data) (64 * 0)" using assms(1) by (simp add: frame_at_def of_nat_diff algebra_simps)
  have "sniff_msg st (log (Suc k)) [] = Some (Give (drop 64 data) [])" for st
    unfolding assms(4) e by (rule sniff_frame(1)) (use assms(1,2) in \<open>auto simp: begun_def\<close>)
  moreover have "Suc k < w 4" "w (4 + 1) + of_bool (busy (4 + 1)) \<le> Suc k + 256 \<and> w (4 + 2) \<le> Suc k + 256" using assms(6,9) by auto
  ultimately have "sniff_from W 4 ?s = Some (Some \<lparr>sr_cc_id = c, sr_msg_id = i, sr_dropped = sn_dropped s + 1, sr_bytes = drop 64 data\<rparr>,
      ?s\<lparr>sn_cur := of_nat (Suc (Suc k)), sn_frags := []\<rparr>, 8)"
    using sniff_from_step [OF assms(5), of ?s "Suc k" 4] assms(4) by simp
  then show ?thesis using one drop by simp
qed

definition lapping_watch :: watch where
  "lapping_watch = \<lparr>w_index = (\<lambda>n. if n \<le> 1 then 256 else 257), w_slot = (\<lambda>_ p. example_log (unat p)), w_store = (\<lambda>_ _. None)\<rparr>"

theorem sniffer_truncates_witness:
  "\<exists>s' n'. try_recv_one lapping_watch 0 example_sniffer =
    Some (Some \<lparr>sr_cc_id = 2, sr_msg_id = 0, sr_dropped = 1, sr_bytes = replicate 36 7\<rparr>, s', n')"
proof -
  have "follows lapping_watch (\<lambda>n. if n \<le> 1 then 256 else 257) (\<lambda>_. False) example_log"
    by (auto simp: follows_def lapping_watch_def mono_def unat_of_nat split: if_splits)
  from sniffer_truncates [OF _ _ _ _ this, of "replicate 100 7" 0 2 0 example_sniffer]
  show ?thesis by (simp add: example_log_def example_sniffer_def new_sniffer_def)
qed

text \<open>
  The test after the copy accepts a slot that is exactly 256 behind, which the writer may be writing
  at that moment: whatever the copy then yields is returned.
\<close>

theorem sniffer_torn:
  assumes "\<not> msg_storage x" and "0 < msg_size x" and "msg_size x \<le> 64"
  shows "\<exists>W w busy s' n'. follows W w busy log \<and> try_recv_one W 0 example_sniffer =
    Some (Some \<lparr>sr_cc_id = msg_cc_id x, sr_msg_id = msg_id x, sr_dropped = 0, sr_bytes = take (nat (msg_size x)) (msg_data x)\<rparr>, s', n')"
proof -
  let ?W = "\<lparr>w_index = (\<lambda>_. 256), w_slot = (\<lambda>_ p. if p = 0 then x else log (unat p)), w_store = (\<lambda>_ _. None)\<rparr>"
  have zero: "(of_nat k :: u32) = 0 \<Longrightarrow> k < 256 \<Longrightarrow> k = 0" for k :: nat using ring_distance(3) [of 0 k] by simp
  have "follows ?W (\<lambda>_. 256) (\<lambda>_. True) log" using zero by (auto simp: follows_def mono_def unat_of_nat)
  moreover have "nat (msg_size x) \<le> data_length" using assms(3) by (simp add: data_length_def)
  then have "\<exists>s' n'. try_recv_one ?W 0 example_sniffer =
      Some (Some \<lparr>sr_cc_id = msg_cc_id x, sr_msg_id = msg_id x, sr_dropped = 0, sr_bytes = take (nat (msg_size x)) (msg_data x)\<rparr>, s', n')"
    using assms(1,2)
    by (simp add: try_recv_one_def example_sniffer_def new_sniffer_def sniff_resync_def kRingSlots_def sniff_from.simps sniff_msg_def Let_def)
  ultimately show ?thesis by blast
qed

theorem sniffer_torn_witness:
  "\<exists>W w busy s' n'. follows W w busy example_log \<and> try_recv_one W 0 example_sniffer =
    Some (Some \<lparr>sr_cc_id = 3, sr_msg_id = 9, sr_dropped = 0, sr_bytes = [1, 2]\<rparr>, s', n')"
  using sniffer_torn [of "make_msg 3 9 (of_nat 2 - of_nat 64, Frag [1, 2])" example_log]
  by (simp add: msg_size_def data_length_def pad_to_def)

section \<open>Returning\<close>

text \<open>Chunks in the slots are inside their segments.\<close>

definition refs_ok :: "watch \<Rightarrow> bool" where
  "refs_ok W \<longleftrightarrow> (\<forall>n m p rc. sniff_msg (w_store W n) (w_slot W m p) rc \<noteq> None)"

lemma sniff_from_returns:
  assumes "refs_ok W"
  shows "(\<And>m. n \<le> m \<Longrightarrow> w_index W m = wt) \<Longrightarrow> \<exists>x. sniff_from W n s = Some x"
proof (induction "unat (wt - sn_cur s)" arbitrary: n s rule: less_induct)
  case less
  show ?case
  proof (cases "sn_cur s = wt")
    case True
    then show ?thesis using less.prems [of n] by (subst sniff_from.simps) simp
  next
    case False
    have "unat (wt - (sn_cur s + 1)) < unat (wt - sn_cur s)"
    proof -
      have e: "wt - (sn_cur s + 1) = (wt - sn_cur s) - 1" by simp
      have "wt - sn_cur s \<noteq> 0" using False by simp
      then show ?thesis unfolding e by (rule measure_unat)
    qed
    then have on: "sn_cur s' = sn_cur s + 1 \<Longrightarrow> n \<le> n' \<Longrightarrow> \<exists>x. sniff_from W n' s' = Some x" for s' n'
      using less.hyps [of s' n'] less.prems by simp
    obtain y where y: "sniff_msg (w_store W (n + 3)) (w_slot W (n + 1) (sn_cur s)) (sn_frags s) = Some y"
      using assms by (fastforce simp: refs_ok_def)
    have idx: "w_index W n = wt" "w_index W (n + 2) = wt" using less.prems by simp_all
    show ?thesis
      using False on [of _ "n + 3"] on [of _ "n + 4"]
      by (subst sniff_from.simps) (cases y; simp add: Let_def idx y del: One_nat_def)
  qed
qed

theorem sniffer_returns:
  assumes "refs_ok W" and "\<forall>m \<ge> n. w_index W m = wt"
  shows "\<exists>x. try_recv_one W n s = Some x"
  using sniff_from_returns [OF assms(1), of "n + 1" wt] assms(2) by (simp add: try_recv_one_def)

end
