(* ===== verification/SlotTable.thy ===== *)
theory SlotTable
  imports AllocContract
begin

text \<open>
  Tables of records in shared memory, of which a process takes the first free one: the peers of a
  topic and the entries of the directory.
\<close>

primrec first_free :: "('e \<Rightarrow> bool) \<Rightarrow> nat \<Rightarrow> 'e list \<Rightarrow> nat option" where
  "first_free used i [] = None"
| "first_free used i (e # es) = (if used e then first_free used (Suc i) es else Some i)"

lemma first_free_some:
  "first_free used i es = Some k \<Longrightarrow> i \<le> k \<and> k < i + length es \<and> \<not> used (es ! (k - i)) \<and> (\<forall>j < k - i. used (es ! j))"
proof (induction es arbitrary: i)
  case Nil
  then show ?case by simp
next
  case (Cons e es)
  show ?case
  proof (cases "used e")
    case True
    then have k: "Suc i \<le> k" "k < Suc i + length es" "\<not> used (es ! (k - Suc i))" "\<forall>j < k - Suc i. used (es ! j)"
      using Cons.IH [of "Suc i"] Cons.prems by auto
    then have "k - i = Suc (k - Suc i)" by simp
    then show ?thesis using k True by (auto simp: less_Suc_eq_0_disj)
  next
    case False
    then show ?thesis using Cons.prems by simp
  qed
qed

lemma first_free_none: "first_free used i es = None \<longleftrightarrow> (\<forall>e \<in> set es. used e)"
  by (induction es arbitrary: i) auto

text \<open>The free slots of a table of \<open>n\<close> records.\<close>

definition free_slots :: "('e \<Rightarrow> bool) \<Rightarrow> nat \<Rightarrow> 'e list \<Rightarrow> nat set \<Rightarrow> bool" where
  "free_slots used n es ids \<longleftrightarrow> length es = n \<and> ids = {i. i < n \<and> \<not> used (es ! i)}"

lemma free_slots_take:
  assumes "free_slots used n es ids" and "ids \<noteq> {}"
  obtains i where "i \<in> ids" and "first_free used 0 es = Some i" and "\<And>e. used e \<Longrightarrow> free_slots used n (es[i := e]) (ids - {i})"
proof -
  have "\<exists>e \<in> set es. \<not> used e" using assms by (auto simp: free_slots_def intro: nth_mem)
  then obtain i where i: "first_free used 0 es = Some i" using first_free_none [of used 0 es] by (cases "first_free used 0 es") auto
  then have "i < length es" "\<not> used (es ! i)" using first_free_some by fastforce+
  moreover have "free_slots used n (es[i := e]) (ids - {i})" if "used e" for e
    using assms(1) that by (auto simp: free_slots_def) (metis nth_list_update_eq nth_list_update_neq)+
  ultimately show ?thesis using that [OF _ i] assms(1) by (simp add: free_slots_def)
qed

lemma free_slots_none: "free_slots used n es {} \<Longrightarrow> first_free used 0 es = None"
  by (auto simp: free_slots_def first_free_none in_set_conv_nth)

lemma free_slots_give:
  assumes "free_slots used n es ids" and "i < n" and "\<not> used e"
  shows "free_slots used n (es[i := e]) (insert i ids)"
  using assms by (auto simp: free_slots_def nth_list_update)

end
