(* ===== verification/ControlPlane.thy ===== *)
theory ControlPlane
  imports SlotTable
begin

text \<open>
  The control plane of a topic (\<open>control_plane.cc\<close>, \<open>control_plane.h\<close> under \<open>dzIPC/common\<close>): a
  segment with the state and the generation of the channel, the number of attached peers, and a
  slot per peer with its connection and its last heartbeat. Process identifiers and times are
  numbers; the clock, the caller and the processes that exist are arguments.
\<close>

section \<open>The segment\<close>

datatype TopicState = TS_Empty | TS_Clearing | TS_Ready | TS_Stopping

primrec state_code :: "TopicState \<Rightarrow> u32" where
  "state_code TS_Empty = 0"
| "state_code TS_Clearing = 1"
| "state_code TS_Ready = 2"
| "state_code TS_Stopping = 3"

record peer_slot =
  ps_in_use :: u32
  ps_cc_id :: u32
  ps_pid :: int
  ps_generation :: u32
  ps_heartbeat :: int

record topic_control =
  tc_magic :: u32
  tc_generation :: u32
  tc_state :: u32
  tc_owner :: int
  tc_heartbeat :: int
  tc_peer_count :: u32
  tc_peers :: "peer_slot list"

definition kTopicControlMagic :: u32 where
  "kTopicControlMagic = 0x445A4351"

definition kMaxPeerSlots :: nat where
  "kMaxPeerSlots = 64"

definition free_peer :: peer_slot where
  "free_peer = \<lparr>ps_in_use = 0, ps_cc_id = 0, ps_pid = 0, ps_generation = 0, ps_heartbeat = 0\<rparr>"

definition clear_all_peer_slots :: "topic_control \<Rightarrow> topic_control" where
  "clear_all_peer_slots c = c\<lparr>tc_peers := replicate kMaxPeerSlots free_peer\<rparr>"

definition initialize_if_needed :: "int \<Rightarrow> topic_control \<Rightarrow> topic_control" where
  "initialize_if_needed now c =
     (if tc_magic c = kTopicControlMagic then c
      else (clear_all_peer_slots
        (c\<lparr>tc_generation := 0, tc_state := state_code TS_Empty, tc_owner := 0, tc_heartbeat := now, tc_peer_count := 0\<rparr>))
        \<lparr>tc_magic := kTopicControlMagic\<rparr>)"

text \<open>A process maps the segment, or has none; then the operations do nothing.\<close>

definition plane_open :: "int \<Rightarrow> topic_control option \<Rightarrow> bool \<times> topic_control option" where
  "plane_open now seg = (case seg of None \<Rightarrow> (False, None) | Some c \<Rightarrow> (True, Some (initialize_if_needed now c)))"

section \<open>The publisher\<close>

text \<open>
  A rebuild waits for the peers to leave, up to 100 polls of 2 ms; \<open>env n\<close> is what the others do
  between two polls.
\<close>

primrec drain_peers :: "(nat \<Rightarrow> topic_control \<Rightarrow> topic_control) \<Rightarrow> nat \<Rightarrow> topic_control \<Rightarrow> topic_control" where
  "drain_peers env 0 c = c"
| "drain_peers env (Suc n) c = (if tc_peer_count c = 0 then c else drain_peers env n (env n c))"

definition begin_rebuild :: "(nat \<Rightarrow> topic_control \<Rightarrow> topic_control) \<Rightarrow> nat \<Rightarrow> int \<Rightarrow> int \<Rightarrow> int \<Rightarrow> topic_control \<Rightarrow> u32 \<times> topic_control" where
  "begin_rebuild env polls pid now later c =
     (let c = drain_peers env polls (c\<lparr>tc_state := state_code TS_Clearing, tc_owner := pid, tc_heartbeat := now\<rparr>);
          c = (clear_all_peer_slots (c\<lparr>tc_peer_count := 0\<rparr>))\<lparr>tc_heartbeat := later\<rparr>;
          c = c\<lparr>tc_generation := tc_generation c + 1\<rparr>
      in (tc_generation c, c))"

definition set_ready :: "int \<Rightarrow> topic_control \<Rightarrow> topic_control" where
  "set_ready now c = c\<lparr>tc_heartbeat := now, tc_state := state_code TS_Ready\<rparr>"

definition set_stopping :: "int \<Rightarrow> topic_control \<Rightarrow> topic_control" where
  "set_stopping now c = c\<lparr>tc_heartbeat := now, tc_state := state_code TS_Stopping\<rparr>"

definition plane_heartbeat :: "int \<Rightarrow> topic_control \<Rightarrow> topic_control" where
  "plane_heartbeat now c = c\<lparr>tc_heartbeat := now\<rparr>"

text \<open>
  A slot whose heartbeat is older than the timeout is freed, and its connection reported; a slot
  that is being filled is skipped.
\<close>

definition is_stale :: "int \<Rightarrow> int \<Rightarrow> peer_slot \<Rightarrow> bool" where
  "is_stale now timeout p \<longleftrightarrow>
     ps_in_use p \<noteq> 0 \<and> \<not> (ps_cc_id p = 0 \<or> ps_heartbeat p = 0) \<and> \<not> now - ps_heartbeat p < timeout"

primrec collect_from :: "int \<Rightarrow> int \<Rightarrow> u32 \<Rightarrow> peer_slot list \<Rightarrow> u32 \<times> peer_slot list" where
  "collect_from now timeout stale [] = (stale, [])"
| "collect_from now timeout stale (p # ps) =
     (if is_stale now timeout p
      then let (s, ps) = collect_from now timeout (stale OR ps_cc_id p) ps in (s, free_peer # ps)
      else let (s, ps) = collect_from now timeout stale ps in (s, p # ps))"

definition collect_stale_peers :: "int \<Rightarrow> int \<Rightarrow> topic_control \<Rightarrow> u32 \<times> topic_control" where
  "collect_stale_peers now timeout c =
     (if timeout \<le> 0 then (0, c)
      else let (s, ps) = collect_from now timeout 0 (tc_peers c) in (s, c\<lparr>tc_peers := ps\<rparr>))"

section \<open>Peers\<close>

definition add_peer :: "u32 \<Rightarrow> topic_control \<Rightarrow> bool \<times> topic_control" where
  "add_peer generation c =
     (if generation = 0 \<or> generation \<noteq> tc_generation c \<or> tc_state c \<noteq> state_code TS_Ready then (False, c)
      else (True, c\<lparr>tc_peer_count := tc_peer_count c + 1\<rparr>))"

definition remove_peer :: "u32 \<Rightarrow> topic_control \<Rightarrow> topic_control" where
  "remove_peer generation c =
     (if generation = 0 \<or> generation \<noteq> tc_generation c then c
      else if 0 < tc_peer_count c then c\<lparr>tc_peer_count := tc_peer_count c - 1\<rparr> else c)"

definition acquire_peer_slot :: "int \<Rightarrow> int \<Rightarrow> u32 \<Rightarrow> u32 \<Rightarrow> topic_control \<Rightarrow> int \<times> topic_control" where
  "acquire_peer_slot pid now generation cc_id c =
     (if cc_id = 0 then (- 1, c)
      else case first_free (\<lambda>p. ps_in_use p \<noteq> 0) 0 (tc_peers c) of
             None \<Rightarrow> (- 1, c)
           | Some i \<Rightarrow>
               (int i, c\<lparr>tc_peers := (tc_peers c)
                  [i := \<lparr>ps_in_use = 1, ps_cc_id = cc_id, ps_pid = pid, ps_generation = generation, ps_heartbeat = now\<rparr>]\<rparr>))"

definition peer_heartbeat :: "int \<Rightarrow> int \<Rightarrow> topic_control \<Rightarrow> topic_control" where
  "peer_heartbeat now slot c =
     (if slot < 0 \<or> kMaxPeerSlots \<le> nat slot then c
      else c\<lparr>tc_peers := (tc_peers c)[nat slot := (tc_peers c ! nat slot)\<lparr>ps_heartbeat := now\<rparr>]\<rparr>)"

definition release_peer_slot :: "int \<Rightarrow> topic_control \<Rightarrow> topic_control" where
  "release_peer_slot slot c =
     (if slot < 0 \<or> kMaxPeerSlots \<le> nat slot then c else c\<lparr>tc_peers := (tc_peers c)[nat slot := free_peer]\<rparr>)"

section \<open>Who owns a channel\<close>

definition pid_alive :: "(int \<Rightarrow> bool) \<Rightarrow> int \<Rightarrow> bool" where
  "pid_alive runs pid \<longleftrightarrow> \<not> pid \<le> 0 \<and> runs pid"

text \<open>
  \<open>seg\<close> is the segment of the name: none, one that cannot be read (too short, not mapped), or its
  contents.
\<close>

definition occupied_by_other :: "(int \<Rightarrow> bool) \<Rightarrow> (string \<Rightarrow> topic_control option option) \<Rightarrow> string \<Rightarrow> int \<Rightarrow> bool" where
  "occupied_by_other runs seg nam self_pid =
     (if nam = '''' \<or> self_pid \<le> 0 then True
      else case seg nam of
             None \<Rightarrow> False
           | Some None \<Rightarrow> True
           | Some (Some c) \<Rightarrow>
               if tc_magic c = kTopicControlMagic
               then (if tc_state c = state_code TS_Empty then False
                     else if tc_owner c = self_pid then False
                     else if \<not> pid_alive runs (tc_owner c) then False
                     else True)
               else True)"

end
