(* ===== verification/ShmHandshake.thy ===== *)
theory ShmHandshake
  imports ControlPlane Connections
begin

text \<open>
  The handshake of a shared-memory topic (\<open>pub_handshake\<close> and \<open>sub_handshake\<close> of
  \<open>src/src/dzIPC/shm_pub_sub_ipc.cc\<close>): the publisher rebuilds the channel and reaps the peers that
  died, a subscriber attaches to every generation, registers its connection and beats.
\<close>

section \<open>The rounds\<close>

text \<open>What the processes share: the control plane and the connections of the ring.\<close>

record shm_topic =
  tp_ctl :: topic_control
  tp_head :: conn_head

definition new_head :: conn_head where
  "new_head = \<lparr>connections = 0, sender_flag = False, receiver_flag = False\<rparr>"

text \<open>\<open>InitChannel\<close> of a publisher clears the storage of the ring and connects as its sender.\<close>

definition pub_init :: "(nat \<Rightarrow> topic_control \<Rightarrow> topic_control) \<Rightarrow> nat \<Rightarrow> int \<Rightarrow> int \<Rightarrow> topic_control \<Rightarrow> shm_topic" where
  "pub_init env polls pid now c =
     (let (g, c) = begin_rebuild env polls pid now now c
      in \<lparr>tp_ctl = set_ready now c, tp_head = snd (connect_sender Route new_head)\<rparr>)"

definition kPeerDeadTimeoutNs :: int where
  "kPeerDeadTimeoutNs = 2000000000"

text \<open>One round of the publisher; the result is whether it has a subscriber.\<close>

definition pub_round :: "int \<Rightarrow> shm_topic \<Rightarrow> bool \<times> shm_topic" where
  "pub_round now t =
     (let c = plane_heartbeat now (tp_ctl t);
          (stale, c) = collect_stale_peers now kPeerDeadTimeoutNs c;
          t = t\<lparr>tp_ctl := c\<rparr>;
          t = (if stale \<noteq> 0 then t\<lparr>tp_head := snd (disconnect_receiver Route stale (tp_head t))\<rparr> else t)
      in (0 < tc_peer_count c, t))"

definition pub_stop :: "int \<Rightarrow> shm_topic \<Rightarrow> shm_topic" where
  "pub_stop now t = t\<lparr>tp_ctl := set_stopping now (tp_ctl t)\<rparr>"

text \<open>A subscriber: what it is attached to, and its connection, 0 when it has none.\<close>

record subscriber =
  sb_generation :: u32
  sb_registered :: bool
  sb_slot :: int
  sb_done :: bool
  sb_cc :: u32

definition new_subscriber :: subscriber where
  "new_subscriber = \<lparr>sb_generation = 0, sb_registered = False, sb_slot = - 1, sb_done = False, sb_cc = 0\<rparr>"

definition unregister :: "subscriber \<Rightarrow> topic_control \<Rightarrow> subscriber \<times> topic_control" where
  "unregister b c =
     (if sb_registered b
      then (b\<lparr>sb_slot := - 1, sb_registered := False\<rparr>, release_peer_slot (sb_slot b) (remove_peer (sb_generation b) c))
      else (b, c))"

text \<open>
  Attaching opens the ring of the new generation; the old connection is dropped without touching
  the old ring. A subscriber that gets no connection tries again in the next round.
\<close>

definition attach :: "int \<Rightarrow> int \<Rightarrow> subscriber \<Rightarrow> shm_topic \<Rightarrow> bool \<times> subscriber \<times> shm_topic" where
  "attach pid now b t =
     (let (b, c) = unregister b (tp_ctl t);
          (cc, h) = connect_receiver Route (tp_head t);
          g = tc_generation c;
          b = b\<lparr>sb_cc := cc, sb_generation := g\<rparr>;
          (ok, c) = add_peer g c
      in if \<not> ok then (False, b\<lparr>sb_cc := 0\<rparr>, \<lparr>tp_ctl = c, tp_head = snd (disconnect_receiver Route cc h)\<rparr>)
         else let (i, c) = acquire_peer_slot pid now g cc c; b = b\<lparr>sb_slot := i\<rparr>
              in if cc = 0 then (False, b\<lparr>sb_registered := False\<rparr>, \<lparr>tp_ctl = remove_peer g c, tp_head = h\<rparr>)
                 else (True, b\<lparr>sb_registered := True, sb_done := True\<rparr>, \<lparr>tp_ctl = c, tp_head = h\<rparr>))"

definition detach :: "subscriber \<Rightarrow> shm_topic \<Rightarrow> subscriber \<times> shm_topic" where
  "detach b t =
     (let h = snd (disconnect_receiver Route (sb_cc b) (tp_head t)); (b, c) = unregister b (tp_ctl t)
      in (b\<lparr>sb_done := False, sb_cc := 0\<rparr>, \<lparr>tp_ctl = c, tp_head = h\<rparr>))"

definition beat :: "int \<Rightarrow> subscriber \<Rightarrow> shm_topic \<Rightarrow> shm_topic" where
  "beat now b t = t\<lparr>tp_ctl := peer_heartbeat now (sb_slot b) (tp_ctl t)\<rparr>"

definition sub_round :: "int \<Rightarrow> int \<Rightarrow> subscriber \<Rightarrow> shm_topic \<Rightarrow> subscriber \<times> shm_topic" where
  "sub_round pid now b t =
     (let c = tp_ctl t
      in if tc_state c = state_code TS_Ready \<and> tc_generation c \<noteq> 0
         then if \<not> sb_done b \<or> sb_generation b \<noteq> tc_generation c
              then let (ok, b, t) = attach pid now b t in (b, if ok then beat now b t else t)
              else (b, beat now b t)
         else let (b, t) = (if sb_done b then detach b t else (b, t)) in (b, beat now b t))"

text \<open>The end of the thread and the destructor.\<close>

definition sub_leave :: "subscriber \<Rightarrow> shm_topic \<Rightarrow> subscriber \<times> shm_topic" where
  "sub_leave b t =
     (let c = (if sb_registered b then remove_peer (sb_generation b) (tp_ctl t) else tp_ctl t);
          c = release_peer_slot (sb_slot b) c
      in (b\<lparr>sb_slot := - 1, sb_cc := 0\<rparr>,
          \<lparr>tp_ctl = c, tp_head = (if sb_cc b = 0 then tp_head t else snd (disconnect_receiver Route (sb_cc b) (tp_head t)))\<rparr>))"

section \<open>Reaping\<close>

lemma collect_from_eq:
  "collect_from now timeout s ps =
     (foldl (\<lambda>s p. if is_stale now timeout p then s OR ps_cc_id p else s) s ps,
      map (\<lambda>p. if is_stale now timeout p then free_peer else p) ps)"
  by (induction ps arbitrary: s) (auto simp: split_beta)

lemma bit_foldl_or:
  "bit (foldl (\<lambda>s p. if f p then s OR g p else s) (s :: u32) ps) k \<longleftrightarrow> bit s k \<or> (\<exists>p \<in> set ps. f p \<and> bit (g p) k)"
  by (induction ps arbitrary: s) (auto simp: bit_simps)

lemma collect_peers:
  assumes "0 < timeout"
  shows "tc_peers (snd (collect_stale_peers now timeout c)) = map (\<lambda>p. if is_stale now timeout p then free_peer else p) (tc_peers c)"
    and "bit (fst (collect_stale_peers now timeout c)) k \<longleftrightarrow> (\<exists>p \<in> set (tc_peers c). is_stale now timeout p \<and> bit (ps_cc_id p) k)"
    and "tc_generation (snd (collect_stale_peers now timeout c)) = tc_generation c"
    and "tc_state (snd (collect_stale_peers now timeout c)) = tc_state c"
    and "tc_peer_count (snd (collect_stale_peers now timeout c)) = tc_peer_count c"
  using assms by (simp_all add: collect_stale_peers_def collect_from_eq bit_foldl_or)

text \<open>
  A round of the publisher frees the slots that are stale and takes exactly their connections
  away; the number of peers stays as it was.
\<close>

lemma pub_round_reaps:
  shows "tc_peers (tp_ctl (snd (pub_round now t))) =
      map (\<lambda>p. if is_stale now kPeerDeadTimeoutNs p then free_peer else p) (tc_peers (tp_ctl t))"
    and "bit (connections (tp_head (snd (pub_round now t)))) k \<longleftrightarrow>
      bit (connections (tp_head t)) k \<and> \<not> (\<exists>p \<in> set (tc_peers (tp_ctl t)). is_stale now kPeerDeadTimeoutNs p \<and> bit (ps_cc_id p) k)"
    and "tc_generation (tp_ctl (snd (pub_round now t))) = tc_generation (tp_ctl t)"
    and "tc_state (tp_ctl (snd (pub_round now t))) = tc_state (tp_ctl t)"
    and "fst (pub_round now t) \<longleftrightarrow> 0 < tc_peer_count (tp_ctl t)"
    and "tc_peer_count (tp_ctl (snd (pub_round now t))) = tc_peer_count (tp_ctl t)"
proof -
  let ?c = "plane_heartbeat now (tp_ctl t)"
  obtain s c where sc: "collect_stale_peers now kPeerDeadTimeoutNs ?c = (s, c)" by force
  have pos: "0 < kPeerDeadTimeoutNs" by (simp add: kPeerDeadTimeoutNs_def)
  note p = collect_peers [OF pos, where c = ?c and now = now, unfolded sc]
  have r: "pub_round now t = (0 < tc_peer_count c,
      if s \<noteq> 0 then t\<lparr>tp_ctl := c, tp_head := snd (disconnect_receiver Route s (tp_head t))\<rparr> else t\<lparr>tp_ctl := c\<rparr>)"
    by (simp add: pub_round_def sc Let_def)
  have "s = 0 \<Longrightarrow> \<not> bit s k" for k by simp
  then show "bit (connections (tp_head (snd (pub_round now t)))) k \<longleftrightarrow>
      bit (connections (tp_head t)) k \<and> \<not> (\<exists>p \<in> set (tc_peers (tp_ctl t)). is_stale now kPeerDeadTimeoutNs p \<and> bit (ps_cc_id p) k)"
    using p(2) [of k] r by (auto simp: disconnect_receiver_def head_disconnect_def plane_heartbeat_def bit_simps is_broadcast_def
        possible_bit_def split_beta dest: bit_imp_le_length)
  show "tc_peers (tp_ctl (snd (pub_round now t))) =
      map (\<lambda>p. if is_stale now kPeerDeadTimeoutNs p then free_peer else p) (tc_peers (tp_ctl t))"
    "tc_generation (tp_ctl (snd (pub_round now t))) = tc_generation (tp_ctl t)"
    "tc_state (tp_ctl (snd (pub_round now t))) = tc_state (tp_ctl t)"
    "fst (pub_round now t) \<longleftrightarrow> 0 < tc_peer_count (tp_ctl t)"
    "tc_peer_count (tp_ctl (snd (pub_round now t))) = tc_peer_count (tp_ctl t)"
    using p r by (simp_all add: plane_heartbeat_def)
qed

section \<open>A topic and its subscribers\<close>

text \<open>
  A publisher that has built the channel, and any number of subscribers that start, run their
  rounds, leave or die, in any order. The publisher reaps; a subscriber that is alive has run its
  round within the timeout, which is 200 times its period.
\<close>

record system =
  sy_topic :: shm_topic
  sy_subs :: "nat \<Rightarrow> subscriber"
  sy_known :: "nat set"
  sy_live :: "nat set"
  sy_clock :: int
  sy_last :: "nat \<Rightarrow> int"

definition hs_start :: "system \<Rightarrow> bool" where
  "hs_start s \<longleftrightarrow> sy_known s = {} \<and> sy_live s = {} \<and> 0 < sy_clock s \<and>
     (\<exists>env polls pid now c. sy_topic s = pub_init env polls pid now c \<and> tc_generation (tp_ctl (sy_topic s)) \<noteq> 0)"

inductive hs_step :: "system \<Rightarrow> system \<Rightarrow> bool" where
  sub_starts: "i \<notin> sy_known s \<Longrightarrow>
     hs_step s (s\<lparr>sy_subs := (sy_subs s)(i := new_subscriber), sy_known := insert i (sy_known s), sy_live := insert i (sy_live s)\<rparr>)"
| sub_runs: "i \<in> sy_live s \<Longrightarrow> sy_clock s \<le> now \<Longrightarrow> sub_round pid now (sy_subs s i) (sy_topic s) = (b, t) \<Longrightarrow>
     hs_step s (s\<lparr>sy_topic := t, sy_subs := (sy_subs s)(i := b), sy_clock := now, sy_last := (sy_last s)(i := now)\<rparr>)"
| sub_dies: "i \<in> sy_live s \<Longrightarrow> hs_step s (s\<lparr>sy_live := sy_live s - {i}\<rparr>)"
| sub_leaves: "i \<in> sy_live s \<Longrightarrow> sub_leave (sy_subs s i) (sy_topic s) = (b, t) \<Longrightarrow>
     hs_step s (s\<lparr>sy_topic := t, sy_subs := (sy_subs s)(i := b), sy_live := sy_live s - {i}\<rparr>)"
| pub_reaps: "sy_clock s \<le> now \<Longrightarrow> \<forall>i \<in> sy_live s. sb_done (sy_subs s i) \<longrightarrow> now - sy_last s i < kPeerDeadTimeoutNs \<Longrightarrow>
     hs_step s (s\<lparr>sy_topic := snd (pub_round now (sy_topic s)), sy_clock := now\<rparr>)"

text \<open>One bit, which the ring has as a connection.\<close>

definition has_bit :: "shm_topic \<Rightarrow> u32 \<Rightarrow> bool" where
  "has_bit t cc \<longleftrightarrow> (\<exists>m < 32. cc = push_bit m 1 \<and> bit (connections (tp_head t)) m)"

definition used_slot :: "shm_topic \<Rightarrow> nat \<Rightarrow> bool" where
  "used_slot t k \<longleftrightarrow> k < 64 \<and> ps_in_use (tc_peers (tp_ctl t) ! k) \<noteq> 0"

definition slot_cc :: "shm_topic \<Rightarrow> nat \<Rightarrow> u32" where
  "slot_cc t k = ps_cc_id (tc_peers (tp_ctl t) ! k)"

text \<open>Every slot in use has a connection of its own.\<close>

definition slots_ok :: "shm_topic \<Rightarrow> bool" where
  "slots_ok t \<longleftrightarrow> length (tc_peers (tp_ctl t)) = 64 \<and> (\<forall>k. used_slot t k \<longrightarrow> has_bit t (slot_cc t k)) \<and>
     (\<forall>k k'. used_slot t k \<and> used_slot t k' \<and> slot_cc t k = slot_cc t k' \<longrightarrow> k = k')"

text \<open>A subscriber is connected, and its slot, if it has one, is the one with its connection and its beats.\<close>

definition sub_ok :: "shm_topic \<Rightarrow> int \<Rightarrow> subscriber \<Rightarrow> bool" where
  "sub_ok t lst b \<longleftrightarrow>
     (if sb_done b
      then sb_generation b = tc_generation (tp_ctl t) \<and> has_bit t (sb_cc b) \<and> 0 < lst \<and>
        (0 \<le> sb_slot b \<longrightarrow> used_slot t (nat (sb_slot b)) \<and> slot_cc t (nat (sb_slot b)) = sb_cc b \<and>
           ps_heartbeat (tc_peers (tp_ctl t) ! nat (sb_slot b)) = lst) \<and>
        (\<forall>k. used_slot t k \<and> slot_cc t k = sb_cc b \<longrightarrow> sb_slot b = int k)
      else sb_slot b = - 1 \<and> \<not> sb_registered b \<and> sb_cc b = 0)"

definition hs_inv :: "system \<Rightarrow> bool" where
  "hs_inv s \<longleftrightarrow> tc_state (tp_ctl (sy_topic s)) = state_code TS_Ready \<and> tc_generation (tp_ctl (sy_topic s)) \<noteq> 0 \<and>
     0 < sy_clock s \<and> sy_live s \<subseteq> sy_known s \<and> slots_ok (sy_topic s) \<and>
     (\<forall>i \<in> sy_live s. sub_ok (sy_topic s) (sy_last s i) (sy_subs s i)) \<and>
     (\<forall>i \<in> sy_live s. \<forall>j \<in> sy_live s. sb_done (sy_subs s i) \<and> sb_done (sy_subs s j) \<and> sb_cc (sy_subs s i) = sb_cc (sy_subs s j) \<longrightarrow> i = j)"

lemma bit_push: "m < 32 \<Longrightarrow> bit (push_bit m 1 :: u32) k \<longleftrightarrow> k = m"
  by (auto simp: bit_simps)

lemma push_inject: "m < 32 \<Longrightarrow> k < 32 \<Longrightarrow> push_bit m (1 :: u32) = push_bit k 1 \<longleftrightarrow> m = k"
  using bit_push [of m k] bit_push [of k k] by metis

lemma has_bit_nonzero: "has_bit t cc \<Longrightarrow> cc \<noteq> 0"
  using bit_push by (fastforce simp: has_bit_def)

subsection \<open>Leaving\<close>

lemma drop_connection:
  "bit (connections (snd (disconnect_receiver Route cc h))) k \<longleftrightarrow> bit (connections h) k \<and> \<not> bit cc k"
  by (auto simp: disconnect_receiver_def head_disconnect_def is_broadcast_def bit_simps possible_bit_def split_beta dest: bit_imp_le_length)

lemma has_bit_drop:
  assumes "has_bit t cc" and "\<And>k. bit (connections (tp_head t')) k \<longleftrightarrow> bit (connections (tp_head t)) k \<and> \<not> bit gone k" and "cc AND gone = 0"
  shows "has_bit t' cc"
proof -
  obtain m where m: "m < 32" "cc = push_bit m 1" "bit (connections (tp_head t)) m" using assms(1) by (auto simp: has_bit_def)
  have "\<not> bit gone m" using assms(3) m bit_push [OF m(1), of m] by (metis bit_and_iff bit_0_eq bot_fun_def bot_bool_def)
  then show ?thesis using m assms(2) by (auto simp: has_bit_def)
qed

lemma bits_disjoint:
  assumes "has_bit t a" and "has_bit t' b" and "a \<noteq> b"
  shows "a AND b = 0"
proof -
  obtain m k where m: "m < 32" "a = push_bit m 1" and k: "k < 32" "b = push_bit k 1" using assms(1,2) by (auto simp: has_bit_def)
  have "m \<noteq> k" using assms(3) m k by auto
  then show ?thesis unfolding m(2) k(2)
    by (intro bit_word_eqI) (simp only: bit_and_iff bit_push [OF m(1)] bit_push [OF k(1)], simp)
qed

text \<open>What the counters of the control plane do not touch.\<close>

lemma peer_fields [simp]:
  "tc_peers (remove_peer g c) = tc_peers c" "tc_generation (remove_peer g c) = tc_generation c" "tc_state (remove_peer g c) = tc_state c"
  "tc_peers (snd (add_peer g c)) = tc_peers c" "tc_generation (snd (add_peer g c)) = tc_generation c" "tc_state (snd (add_peer g c)) = tc_state c"
  "tc_generation (release_peer_slot i c) = tc_generation c" "tc_state (release_peer_slot i c) = tc_state c"
  "tc_generation (peer_heartbeat now i c) = tc_generation c" "tc_state (peer_heartbeat now i c) = tc_state c"
  by (simp_all add: remove_peer_def add_peer_def release_peer_slot_def peer_heartbeat_def)

lemma release_peers:
  "tc_peers (release_peer_slot i c) = (if i < 0 \<or> 64 \<le> nat i then tc_peers c else (tc_peers c)[nat i := free_peer])"
  by (simp add: release_peer_slot_def kMaxPeerSlots_def)

lemma view_cong:
  assumes "tc_peers (tp_ctl t') = tc_peers (tp_ctl t)" and "tc_generation (tp_ctl t') = tc_generation (tp_ctl t)"
    and "connections (tp_head t') = connections (tp_head t)"
  shows "slots_ok t' = slots_ok t" and "sub_ok t' = sub_ok t"
  by (auto simp: fun_eq_iff slots_ok_def sub_ok_def has_bit_def used_slot_def slot_cc_def assms)

text \<open>A subscriber is not concerned by what happens to the slots and the connections of others.\<close>

lemma sub_ok_other:
  assumes "sub_ok t l c" and "sb_done c" and "tc_generation (tp_ctl t') = tc_generation (tp_ctl t)" and "has_bit t' (sb_cc c)"
    and "0 \<le> sb_slot c \<Longrightarrow> used_slot t' (nat (sb_slot c)) \<and> tc_peers (tp_ctl t') ! nat (sb_slot c) = tc_peers (tp_ctl t) ! nat (sb_slot c)"
    and "\<And>k. used_slot t' k \<Longrightarrow> slot_cc t' k = sb_cc c \<Longrightarrow> used_slot t k \<and> slot_cc t k = sb_cc c"
  shows "sub_ok t' l c"
proof -
  have c: "sb_generation c = tc_generation (tp_ctl t)" "0 < l"
      "0 \<le> sb_slot c \<Longrightarrow> slot_cc t (nat (sb_slot c)) = sb_cc c \<and> ps_heartbeat (tc_peers (tp_ctl t) ! nat (sb_slot c)) = l"
      "\<And>k. used_slot t k \<Longrightarrow> slot_cc t k = sb_cc c \<Longrightarrow> sb_slot c = int k"
    using assms(1,2) by (auto simp: sub_ok_def)
  have "slot_cc t' (nat (sb_slot c)) = sb_cc c \<and> ps_heartbeat (tc_peers (tp_ctl t') ! nat (sb_slot c)) = l" if "0 \<le> sb_slot c"
    using assms(5) [OF that] c(3) [OF that] by (simp add: slot_cc_def)
  then show ?thesis unfolding sub_ok_def using assms(2-6) c(1,2,4) by auto
qed

lemma sub_okD:
  assumes "sub_ok t l b" and "sb_done b"
  shows "sb_generation b = tc_generation (tp_ctl t)" and "has_bit t (sb_cc b)" and "0 < l"
    and "0 \<le> sb_slot b \<Longrightarrow> used_slot t (nat (sb_slot b))" and "0 \<le> sb_slot b \<Longrightarrow> slot_cc t (nat (sb_slot b)) = sb_cc b"
    and "0 \<le> sb_slot b \<Longrightarrow> ps_heartbeat (tc_peers (tp_ctl t) ! nat (sb_slot b)) = l"
    and "used_slot t k \<Longrightarrow> slot_cc t k = sb_cc b \<Longrightarrow> sb_slot b = int k"
  using assms by (auto simp: sub_ok_def)

lemma slots_differ:
  assumes "sub_ok t l b" and "sb_done b" and "sub_ok t l' c" and "sb_done c" and "sb_cc c \<noteq> sb_cc b" and "0 \<le> sb_slot c"
  shows "sb_slot b \<noteq> int (nat (sb_slot c))"
proof
  assume "sb_slot b = int (nat (sb_slot c))"
  then have e: "sb_slot b = sb_slot c" using assms(6) by simp
  then have "slot_cc t (nat (sb_slot c)) = sb_cc b" using sub_okD(5) [OF assms(1,2)] assms(6) by simp
  then show False using sub_okD(5) [OF assms(3,4,6)] assms(5) by simp
qed

lemma leave_ok:
  assumes "slots_ok t" and "sub_ok t lst b" and "sub_leave b t = (b', t')"
  shows "slots_ok t'" and "sub_ok t l c \<Longrightarrow> sb_done b \<and> sb_done c \<longrightarrow> sb_cc c \<noteq> sb_cc b \<Longrightarrow> sub_ok t' l c"
    and "tc_generation (tp_ctl t') = tc_generation (tp_ctl t)" and "tc_state (tp_ctl t') = tc_state (tp_ctl t)"
proof -
  have ctl: "tp_ctl t' = release_peer_slot (sb_slot b) (if sb_registered b then remove_peer (sb_generation b) (tp_ctl t) else tp_ctl t)"
    and head: "tp_head t' = (if sb_cc b = 0 then tp_head t else snd (disconnect_receiver Route (sb_cc b) (tp_head t)))"
    using assms(3) by (auto simp: sub_leave_def Let_def)
  show g: "tc_generation (tp_ctl t') = tc_generation (tp_ctl t)" "tc_state (tp_ctl t') = tc_state (tp_ctl t)" using ctl by auto
  have peers: "tc_peers (tp_ctl t') = tc_peers (release_peer_slot (sb_slot b) (tp_ctl t))" using ctl by (simp add: release_peers)
  show "slots_ok t'" and "sub_ok t l c \<Longrightarrow> sb_done b \<and> sb_done c \<longrightarrow> sb_cc c \<noteq> sb_cc b \<Longrightarrow> sub_ok t' l c"
  proof -
    consider (idle) "\<not> sb_done b" | (on) "sb_done b" by blast
    then have "slots_ok t' \<and> (sub_ok t l c \<and> (sb_done b \<and> sb_done c \<longrightarrow> sb_cc c \<noteq> sb_cc b) \<longrightarrow> sub_ok t' l c)"
    proof cases
      case idle
      then have "sb_slot b = - 1" "sb_cc b = 0" using assms(2) by (auto simp: sub_ok_def)
      then have "tc_peers (tp_ctl t') = tc_peers (tp_ctl t)" "tp_head t' = tp_head t" using peers head by (auto simp: release_peers)
      then show ?thesis using view_cong [of t' t] g assms(1) by simp
    next
      case on
      have b: "has_bit t (sb_cc b)" "\<And>k. used_slot t k \<Longrightarrow> slot_cc t k = sb_cc b \<Longrightarrow> sb_slot b = int k"
          "0 \<le> sb_slot b \<Longrightarrow> used_slot t (nat (sb_slot b)) \<and> slot_cc t (nat (sb_slot b)) = sb_cc b"
        using assms(2) on by (auto simp: sub_ok_def)
      have len: "length (tc_peers (tp_ctl t)) = 64" using assms(1) by (simp add: slots_ok_def)
      have bits: "bit (connections (tp_head t')) k \<longleftrightarrow> bit (connections (tp_head t)) k \<and> \<not> bit (sb_cc b) k" for k
        using head drop_connection by auto
      have keep: "has_bit t' cc" if "has_bit t cc" "cc \<noteq> sb_cc b" for cc
        using has_bit_drop [OF that(1) bits] bits_disjoint [OF that(1) b(1) that(2)] by blast
      have used: "used_slot t' k \<longleftrightarrow> used_slot t k \<and> sb_slot b \<noteq> int k" for k
        using b(3) len by (auto simp: used_slot_def peers release_peers free_peer_def nth_list_update)
      have same: "tc_peers (tp_ctl t') ! k = tc_peers (tp_ctl t) ! k" if "sb_slot b \<noteq> int k" for k
        using that by (auto simp: peers release_peers nth_list_update)
      then have cc: "slot_cc t' k = slot_cc t k" if "sb_slot b \<noteq> int k" for k using that by (simp add: slot_cc_def)
      have "slots_ok t'" unfolding slots_ok_def
      proof (intro conjI allI impI)
        show "length (tc_peers (tp_ctl t')) = 64" using len by (simp add: peers release_peers)
        show "has_bit t' (slot_cc t' k)" if "used_slot t' k" for k
          using that used cc b(2) keep assms(1) by (simp add: slots_ok_def) metis
        show "k = k'" if "used_slot t' k \<and> used_slot t' k' \<and> slot_cc t' k = slot_cc t' k'" for k k'
          using that used cc assms(1) by (simp add: slots_ok_def) metis
      qed
      moreover have "sub_ok t' l c" if c: "sub_ok t l c" "sb_done b \<and> sb_done c \<longrightarrow> sb_cc c \<noteq> sb_cc b"
      proof (cases "sb_done c")
        case True
        then have ne: "sb_cc c \<noteq> sb_cc b" using c(2) on by simp
        note slot = slots_differ [OF assms(2) on c(1) True ne]
        note h = sub_okD(2,4) [OF c(1) True]
        show ?thesis
        proof (rule sub_ok_other [OF c(1) True g(1) keep [OF h(1) ne]])
          show "used_slot t' (nat (sb_slot c)) \<and> tc_peers (tp_ctl t') ! nat (sb_slot c) = tc_peers (tp_ctl t) ! nat (sb_slot c)" if "0 \<le> sb_slot c"
            using used same h(2) [OF that] slot [OF that] by blast
          show "used_slot t k \<and> slot_cc t k = sb_cc c" if "used_slot t' k" "slot_cc t' k = sb_cc c" for k
            using used [of k] cc [of k] that by simp
        qed
      qed (use c in \<open>simp add: sub_ok_def\<close>)
      ultimately show ?thesis by blast
    qed
    then show "slots_ok t'" and "sub_ok t l c \<Longrightarrow> sb_done b \<and> sb_done c \<longrightarrow> sb_cc c \<noteq> sb_cc b \<Longrightarrow> sub_ok t' l c" by auto
  qed
qed

subsection \<open>Reaping\<close>

lemma reap_ok:
  assumes "slots_ok t" and "t' = snd (pub_round now t)"
  shows "slots_ok t'" and "sub_ok t l c \<Longrightarrow> (sb_done c \<Longrightarrow> now - l < kPeerDeadTimeoutNs) \<Longrightarrow> sub_ok t' l c"
proof -
  let ?stale = "\<lambda>k. is_stale now kPeerDeadTimeoutNs (tc_peers (tp_ctl t) ! k)"
  note r = pub_round_reaps [of now t, folded assms(2)]
  have len: "length (tc_peers (tp_ctl t)) = 64" using assms(1) by (simp add: slots_ok_def)
  have used: "used_slot t' k \<longleftrightarrow> used_slot t k \<and> \<not> ?stale k" for k
    using len by (cases "?stale k") (auto simp: used_slot_def r(1) free_peer_def)
  have same: "tc_peers (tp_ctl t') ! k = tc_peers (tp_ctl t) ! k" if "k < 64" "\<not> ?stale k" for k
    using that len by (simp add: r(1))
  then have cc: "slot_cc t' k = slot_cc t k" if "used_slot t' k" for k
    using that used by (auto simp: slot_cc_def used_slot_def)
  have stale: "used_slot t k" if "k < 64" "?stale k" for k using that by (auto simp: used_slot_def is_stale_def)
  have keep: "has_bit t' c" if c: "has_bit t c" and other: "\<And>k. k < 64 \<Longrightarrow> ?stale k \<Longrightarrow> slot_cc t k \<noteq> c" for c
  proof -
    obtain m where m: "m < 32" "c = push_bit m 1" "bit (connections (tp_head t)) m" using c by (auto simp: has_bit_def)
    have "\<not> (is_stale now kPeerDeadTimeoutNs p \<and> bit (ps_cc_id p) m)" if mem: "p \<in> set (tc_peers (tp_ctl t))" for p
    proof
      assume p: "is_stale now kPeerDeadTimeoutNs p \<and> bit (ps_cc_id p) m"
      obtain k where k: "k < 64" "p = tc_peers (tp_ctl t) ! k" using mem len by (auto simp: in_set_conv_nth)
      have "has_bit t (slot_cc t k)" using assms(1) stale k p by (simp add: slots_ok_def)
      then obtain n where "n < 32" "slot_cc t k = push_bit n 1" by (auto simp: has_bit_def)
      then have "slot_cc t k = c" using p k(2) m(2) bit_push [of n m] by (simp only: slot_cc_def)
      then show False using other k p by blast
    qed
    then show ?thesis using m r(2) by (auto simp: has_bit_def)
  qed
  show "slots_ok t'" unfolding slots_ok_def
  proof (intro conjI allI impI)
    show "length (tc_peers (tp_ctl t')) = 64" using len r(1) by simp
    show "has_bit t' (slot_cc t' k)" if "used_slot t' k" for k
    proof -
      have k: "used_slot t k" "\<not> ?stale k" using that used by auto
      have "slot_cc t j \<noteq> slot_cc t k" if "j < 64" "?stale j" for j
        using assms(1) k stale [OF that] that(2) by (auto simp: slots_ok_def)
      then have "has_bit t' (slot_cc t k)" using keep assms(1) k(1) by (simp add: slots_ok_def)
      then show ?thesis using cc [OF that] by simp
    qed
    show "k = k'" if "used_slot t' k \<and> used_slot t' k' \<and> slot_cc t' k = slot_cc t' k'" for k k'
    proof -
      have "used_slot t k" "used_slot t k'" "slot_cc t k = slot_cc t k'" using that used cc by auto
      then show ?thesis using assms(1) by (simp add: slots_ok_def)
    qed
  qed
  show "sub_ok t' l c" if c: "sub_ok t l c" and live: "sb_done c \<Longrightarrow> now - l < kPeerDeadTimeoutNs"
  proof (cases "sb_done c")
    case True
    have own: "0 \<le> sb_slot c \<Longrightarrow> \<not> ?stale (nat (sb_slot c))"
      using c True live by (auto simp: sub_ok_def is_stale_def)
    have "slot_cc t k \<noteq> sb_cc c" if "k < 64" "?stale k" for k
    proof
      assume "slot_cc t k = sb_cc c"
      then have "sb_slot c = int k" using c True stale that by (simp add: sub_ok_def)
      then show False using own that by simp
    qed
    then have "has_bit t' (sb_cc c)" using keep c True by (simp add: sub_ok_def)
    then show ?thesis
    proof (rule sub_ok_other [OF c True r(3)])
      show "used_slot t' (nat (sb_slot c)) \<and> tc_peers (tp_ctl t') ! nat (sb_slot c) = tc_peers (tp_ctl t) ! nat (sb_slot c)" if "0 \<le> sb_slot c"
      proof -
        have "used_slot t (nat (sb_slot c))" using c True that by (simp add: sub_ok_def)
        then show ?thesis using used own [OF that] same by (simp add: used_slot_def)
      qed
      show "used_slot t k \<and> slot_cc t k = sb_cc c" if "used_slot t' k" "slot_cc t' k = sb_cc c" for k
        using used [of k] cc [of k] that by simp
    qed
  qed (use c in \<open>simp add: sub_ok_def\<close>)
qed

subsection \<open>Beating and attaching\<close>

lemma heartbeat_peers:
  "tc_peers (peer_heartbeat now i c) =
     (if i < 0 \<or> 64 \<le> nat i then tc_peers c else (tc_peers c)[nat i := (tc_peers c ! nat i)\<lparr>ps_heartbeat := now\<rparr>])"
  by (simp add: peer_heartbeat_def kMaxPeerSlots_def)

lemma beat_ok:
  assumes "slots_ok t" and "sub_ok t lst b" and "sb_done b" and "0 < now"
  shows "slots_ok (beat now b t)" and "sub_ok (beat now b t) now b"
    and "sub_ok t l c \<Longrightarrow> sb_done c \<longrightarrow> sb_cc c \<noteq> sb_cc b \<Longrightarrow> sub_ok (beat now b t) l c"
proof -
  let ?t = "beat now b t"
  have len: "length (tc_peers (tp_ctl t)) = 64" using assms(1) by (simp add: slots_ok_def)
  have conn: "has_bit ?t = has_bit t" by (simp add: fun_eq_iff has_bit_def beat_def)
  have nth: "tc_peers (tp_ctl ?t) ! k = (if sb_slot b = int k \<and> k < 64 then (tc_peers (tp_ctl t) ! k)\<lparr>ps_heartbeat := now\<rparr> else tc_peers (tp_ctl t) ! k)" for k
    using len by (auto simp: beat_def heartbeat_peers nth_list_update)
  have used: "used_slot ?t = used_slot t" and cc: "slot_cc ?t = slot_cc t" by (auto simp: fun_eq_iff used_slot_def slot_cc_def nth)
  show "slots_ok ?t" using assms(1) conn used cc by (simp add: slots_ok_def beat_def heartbeat_peers)
  show "sub_ok ?t now b"
  proof -
    note b = sub_okD [OF assms(2,3)]
    have "ps_heartbeat (tc_peers (tp_ctl ?t) ! nat (sb_slot b)) = now" if "0 \<le> sb_slot b"
      using b(4) [OF that] that nth [of "nat (sb_slot b)"] by (simp add: used_slot_def)
    then show ?thesis unfolding sub_ok_def using b assms(3,4) conn used cc by (simp add: beat_def)
  qed
  show "sub_ok ?t l c" if c: "sub_ok t l c" "sb_done c \<longrightarrow> sb_cc c \<noteq> sb_cc b"
  proof (cases "sb_done c")
    case True
    then have ne: "sb_cc c \<noteq> sb_cc b" using c(2) by simp
    note h = sub_okD [OF c(1) True]
    show ?thesis
    proof (rule sub_ok_other [OF c(1) True])
      show "tc_generation (tp_ctl ?t) = tc_generation (tp_ctl t)" by (simp add: beat_def)
      show "has_bit ?t (sb_cc c)" using h(2) conn by simp
      show "used_slot ?t (nat (sb_slot c)) \<and> tc_peers (tp_ctl ?t) ! nat (sb_slot c) = tc_peers (tp_ctl t) ! nat (sb_slot c)" if "0 \<le> sb_slot c"
        using h(4) [OF that] used nth [of "nat (sb_slot c)"] slots_differ [OF assms(2,3) c(1) True ne that] by presburger
      show "used_slot t k \<and> slot_cc t k = sb_cc c" if "used_slot ?t k" "slot_cc ?t k = sb_cc c" for k
        using that used cc by simp
    qed
  qed (use c in \<open>simp add: sub_ok_def\<close>)
qed

text \<open>What an unattached subscriber does in a round: it gets a fresh connection, or none.\<close>

lemma attach_full:
  assumes "tc_state (tp_ctl t) = state_code TS_Ready" and "tc_generation (tp_ctl t) \<noteq> 0" and "\<not> sb_registered b" and "sb_cc b = 0"
    and "connections (tp_head t) = - 1"
  shows "\<exists>b' t'. attach pid now b t = (False, b', t') \<and> sb_slot b' = - 1 \<and> \<not> sb_registered b' \<and> sb_cc b' = 0 \<and> sb_done b' = sb_done b \<and>
    tc_peers (tp_ctl t') = tc_peers (tp_ctl t) \<and> tc_generation (tp_ctl t') = tc_generation (tp_ctl t) \<and>
    tc_state (tp_ctl t') = tc_state (tp_ctl t) \<and> connections (tp_head t') = connections (tp_head t)"
  using assms connect_full
  by (simp add: attach_def unregister_def connect_receiver_def is_multi_consumer_def add_peer_def acquire_peer_slot_def Let_def)

lemma attach_fresh:
  assumes "tc_state (tp_ctl t) = state_code TS_Ready" and "tc_generation (tp_ctl t) \<noteq> 0" and "\<not> sb_registered b"
    and "connections (tp_head t) \<noteq> - 1" and "slots_ok t"
  shows "\<exists>m b' t'. attach pid now b t = (True, b', t') \<and> m < 32 \<and> \<not> bit (connections (tp_head t)) m \<and>
    connections (tp_head t') = connections (tp_head t) OR push_bit m 1 \<and> sb_cc b' = push_bit m 1 \<and> sb_done b' \<and>
    sb_generation b' = tc_generation (tp_ctl t) \<and> tc_generation (tp_ctl t') = tc_generation (tp_ctl t) \<and> tc_state (tp_ctl t') = tc_state (tp_ctl t) \<and>
    (if sb_slot b' < 0 then sb_slot b' = - 1 \<and> tc_peers (tp_ctl t') = tc_peers (tp_ctl t)
     else nat (sb_slot b') < 64 \<and> \<not> used_slot t (nat (sb_slot b')) \<and>
       tc_peers (tp_ctl t') = (tc_peers (tp_ctl t))[nat (sb_slot b') := \<lparr>ps_in_use = 1, ps_cc_id = push_bit m 1, ps_pid = pid, ps_generation = tc_generation (tp_ctl t), ps_heartbeat = now\<rparr>])"
proof -
  obtain m where m: "m < 32" "\<not> bit (connections (tp_head t)) m"
      "head_connect Route (connections (tp_head t)) = (push_bit m 1, connections (tp_head t) OR push_bit m 1)"
    using connect_fresh [OF assms(4)] by blast
  have nz: "push_bit m (1 :: u32) \<noteq> 0" using bit_push [OF m(1), of m] by (metis bit_0_eq bot_fun_def bot_bool_def)
  have conn: "connect_receiver Route (tp_head t) = (push_bit m 1, (tp_head t)\<lparr>connections := connections (tp_head t) OR push_bit m 1\<rparr>)"
    by (simp add: connect_receiver_def is_multi_consumer_def m(3))
  have len: "length (tc_peers (tp_ctl t)) = 64" using assms(5) by (simp add: slots_ok_def)
  show ?thesis
  proof (cases "first_free (\<lambda>p. ps_in_use p \<noteq> 0) 0 (tc_peers (tp_ctl t))")
    case None
    then have att: "attach pid now b t = (True, b\<lparr>sb_cc := push_bit m 1, sb_generation := tc_generation (tp_ctl t), sb_slot := - 1, sb_registered := True, sb_done := True\<rparr>,
        \<lparr>tp_ctl = snd (add_peer (tc_generation (tp_ctl t)) (tp_ctl t)), tp_head = (tp_head t)\<lparr>connections := connections (tp_head t) OR push_bit m 1\<rparr>\<rparr>)"
      using assms(1-3) nz by (simp add: attach_def unregister_def conn add_peer_def acquire_peer_slot_def Let_def del: push_bit_of_1)
    show ?thesis
      by (rule exI [of _ m], rule exI, rule exI, rule conjI, rule att) (use m(1,2) assms(1) in simp)
  next
    case (Some i)
    then have i: "i < 64" "\<not> used_slot t i" using first_free_some [OF Some] len by (auto simp: used_slot_def)
    have att: "attach pid now b t = (True, b\<lparr>sb_cc := push_bit m 1, sb_generation := tc_generation (tp_ctl t), sb_slot := int i, sb_registered := True, sb_done := True\<rparr>,
        \<lparr>tp_ctl = (snd (add_peer (tc_generation (tp_ctl t)) (tp_ctl t)))\<lparr>tc_peers := (tc_peers (tp_ctl t))
           [i := \<lparr>ps_in_use = 1, ps_cc_id = push_bit m 1, ps_pid = pid, ps_generation = tc_generation (tp_ctl t), ps_heartbeat = now\<rparr>]\<rparr>,
         tp_head = (tp_head t)\<lparr>connections := connections (tp_head t) OR push_bit m 1\<rparr>\<rparr>)"
      using assms(1-3) nz Some by (simp add: attach_def unregister_def conn add_peer_def acquire_peer_slot_def Let_def del: push_bit_of_1)
    show ?thesis
      by (rule exI [of _ m], rule exI, rule exI, rule conjI, rule att) (use m(1,2) assms(1) i in simp)
  qed
qed

lemma attach_ok:
  assumes "tc_state (tp_ctl t) = state_code TS_Ready" and "tc_generation (tp_ctl t) \<noteq> 0" and "slots_ok t" and "sub_ok t lst b" and "\<not> sb_done b"
    and "0 < now" and "attach pid now b t = (ok, b', t')"
  shows "slots_ok t'" and "sub_ok t' now b'" and "sub_ok t l c \<Longrightarrow> sub_ok t' l c" and "ok = sb_done b'"
    and "sub_ok t l c \<Longrightarrow> sb_done c \<Longrightarrow> sb_done b' \<Longrightarrow> sb_cc c \<noteq> sb_cc b'"
    and "tc_generation (tp_ctl t') = tc_generation (tp_ctl t)" and "tc_state (tp_ctl t') = tc_state (tp_ctl t)"
proof -
  have b: "\<not> sb_registered b" "sb_cc b = 0" using assms(4,5) by (auto simp: sub_ok_def)
  have "slots_ok t' \<and> sub_ok t' now b' \<and> (sub_ok t l c \<longrightarrow> sub_ok t' l c) \<and> ok = sb_done b' \<and>
    (sub_ok t l c \<and> sb_done c \<and> sb_done b' \<longrightarrow> sb_cc c \<noteq> sb_cc b') \<and>
    tc_generation (tp_ctl t') = tc_generation (tp_ctl t) \<and> tc_state (tp_ctl t') = tc_state (tp_ctl t)"
  proof (cases "connections (tp_head t) = - 1")
    case True
    then obtain b1 t1 where a: "attach pid now b t = (False, b1, t1)" "sb_slot b1 = - 1" "\<not> sb_registered b1" "sb_cc b1 = 0" "sb_done b1 = sb_done b"
      and t1: "tc_peers (tp_ctl t1) = tc_peers (tp_ctl t)" "tc_generation (tp_ctl t1) = tc_generation (tp_ctl t)"
        "tc_state (tp_ctl t1) = tc_state (tp_ctl t)" "connections (tp_head t1) = connections (tp_head t)"
      using attach_full [OF assms(1,2) b] by blast
    then show ?thesis using assms(3,5,7) view_cong [OF t1(1,2,4)] by (auto simp: sub_ok_def)
  next
    case False
    then obtain m b1 t1 where a: "attach pid now b t = (True, b1, t1)" and m: "m < 32" "\<not> bit (connections (tp_head t)) m"
        "connections (tp_head t1) = connections (tp_head t) OR push_bit m 1" "sb_cc b1 = push_bit m 1"
      and d: "sb_done b1" "sb_generation b1 = tc_generation (tp_ctl t)" "tc_generation (tp_ctl t1) = tc_generation (tp_ctl t)" "tc_state (tp_ctl t1) = tc_state (tp_ctl t)"
      and slot: "if sb_slot b1 < 0 then sb_slot b1 = - 1 \<and> tc_peers (tp_ctl t1) = tc_peers (tp_ctl t)
       else nat (sb_slot b1) < 64 \<and> \<not> used_slot t (nat (sb_slot b1)) \<and>
         tc_peers (tp_ctl t1) = (tc_peers (tp_ctl t))[nat (sb_slot b1) := \<lparr>ps_in_use = 1, ps_cc_id = push_bit m 1, ps_pid = pid, ps_generation = tc_generation (tp_ctl t), ps_heartbeat = now\<rparr>]"
      using attach_fresh [OF assms(1,2) b(1) _ assms(3)] by metis
    have e: "b' = b1" "t' = t1" "ok" using a assms(7) by auto
    have len: "length (tc_peers (tp_ctl t)) = 64" using assms(3) by (simp add: slots_ok_def)
    have bits: "bit (connections (tp_head t1)) k \<longleftrightarrow> bit (connections (tp_head t)) k \<or> k = m" for k
      by (simp only: m(3) bit_or_iff bit_push [OF m(1)])
    have keep: "has_bit t cc \<Longrightarrow> has_bit t1 cc \<and> cc \<noteq> push_bit m 1" for cc using bits m(1,2) push_inject by (auto simp: has_bit_def)
    have mine: "has_bit t1 (push_bit m 1)" using m(1) bits by (auto simp: has_bit_def)
    have nth: "tc_peers (tp_ctl t1) ! k = (if sb_slot b1 = int k \<and> k < 64 then \<lparr>ps_in_use = 1, ps_cc_id = push_bit m 1, ps_pid = pid, ps_generation = tc_generation (tp_ctl t), ps_heartbeat = now\<rparr>
        else tc_peers (tp_ctl t) ! k)" for k
      using slot len by (auto simp: nth_list_update split: if_splits)
    have used: "used_slot t1 k \<longleftrightarrow> used_slot t k \<or> (sb_slot b1 = int k \<and> k < 64)" for k by (simp add: used_slot_def nth) blast
    have fresh: "used_slot t k \<Longrightarrow> sb_slot b1 \<noteq> int k" for k using slot by (auto split: if_splits)
    have old: "used_slot t k \<Longrightarrow> tc_peers (tp_ctl t1) ! k = tc_peers (tp_ctl t) ! k" for k using nth fresh by simp
    then have cc: "used_slot t k \<Longrightarrow> slot_cc t1 k = slot_cc t k" for k by (simp add: slot_cc_def)
    have new: "sb_slot b1 = int k \<Longrightarrow> k < 64 \<Longrightarrow> slot_cc t1 k = push_bit m 1" for k by (simp add: slot_cc_def nth)
    have other: "used_slot t k \<Longrightarrow> has_bit t (slot_cc t k)" for k using assms(3) by (simp add: slots_ok_def)
    have "slots_ok t1" unfolding slots_ok_def
    proof (intro conjI allI impI)
      show "length (tc_peers (tp_ctl t1)) = 64" using slot len by (simp split: if_splits)
      show "has_bit t1 (slot_cc t1 k)" if "used_slot t1 k" for k using that used cc new keep other mine by metis
      show "k = k'" if u: "used_slot t1 k \<and> used_slot t1 k' \<and> slot_cc t1 k = slot_cc t1 k'" for k k'
      proof -
        have one: "k = k'" if "used_slot t k" "used_slot t1 k'" "slot_cc t1 k = slot_cc t1 k'" for k k'
        proof (cases "used_slot t k'")
          case True
          then show ?thesis using that cc assms(3) by (simp add: slots_ok_def)
        next
          case False
          then have "slot_cc t1 k' = push_bit m 1" using that(2) used new by blast
          then show ?thesis using that cc keep [OF other [OF that(1)]] by simp
        qed
        show ?thesis
        proof (cases "used_slot t k \<or> used_slot t k'")
          case True
          then show ?thesis using one [of k k'] one [of k' k] u by auto
        next
          case False
          then show ?thesis using u used by simp
        qed
      qed
    qed
    moreover have "sub_ok t1 now b1"
    proof -
      have "sb_slot b1 = int k" if "used_slot t1 k" "slot_cc t1 k = push_bit m 1" for k
        using that used cc keep other by metis
      moreover have "used_slot t1 (nat (sb_slot b1)) \<and> slot_cc t1 (nat (sb_slot b1)) = push_bit m 1 \<and> ps_heartbeat (tc_peers (tp_ctl t1) ! nat (sb_slot b1)) = now" if "0 \<le> sb_slot b1"
      proof -
        have "nat (sb_slot b1) < 64" "sb_slot b1 = int (nat (sb_slot b1))" using slot that by (auto split: if_splits)
        then show ?thesis using used new nth by simp
      qed
      ultimately show ?thesis unfolding sub_ok_def using d m(4) mine assms(6) by auto
    qed
    moreover have "sub_ok t1 l c \<and> (sb_done c \<longrightarrow> sb_cc c \<noteq> sb_cc b1)" if c: "sub_ok t l c"
    proof (cases "sb_done c")
      case True
      note h = sub_okD [OF c True]
      have "sub_ok t1 l c"
      proof (rule sub_ok_other [OF c True d(3)])
        show "has_bit t1 (sb_cc c)" using keep h(2) by blast
        show "used_slot t1 (nat (sb_slot c)) \<and> tc_peers (tp_ctl t1) ! nat (sb_slot c) = tc_peers (tp_ctl t) ! nat (sb_slot c)" if "0 \<le> sb_slot c"
          using h(4) [OF that] used old by blast
        show "used_slot t k \<and> slot_cc t k = sb_cc c" if "used_slot t1 k" "slot_cc t1 k = sb_cc c" for k
          using that used cc new keep h(2) by metis
      qed
      then show ?thesis using keep h(2) m(4) by simp
    qed (use c in \<open>simp add: sub_ok_def\<close>)
    ultimately show ?thesis using e d by auto
  qed
  then show "slots_ok t'" and "sub_ok t' now b'" and "sub_ok t l c \<Longrightarrow> sub_ok t' l c" and "ok = sb_done b'"
    and "sub_ok t l c \<Longrightarrow> sb_done c \<Longrightarrow> sb_done b' \<Longrightarrow> sb_cc c \<noteq> sb_cc b'"
    and "tc_generation (tp_ctl t') = tc_generation (tp_ctl t)" and "tc_state (tp_ctl t') = tc_state (tp_ctl t)" by auto
qed

subsection \<open>The invariant\<close>

lemma state_codes [simp]: "state_code TS_Clearing = 1" "state_code TS_Ready = 2"
  by simp_all

lemma round_idle:
  assumes "tc_state (tp_ctl t) = state_code TS_Ready" and "tc_generation (tp_ctl t) \<noteq> 0" and "sb_done b" and "sb_generation b = tc_generation (tp_ctl t)"
  shows "sub_round pid now b t = (b, beat now b t)"
  using assms by (simp add: sub_round_def)

lemma round_attach:
  assumes "tc_state (tp_ctl t) = state_code TS_Ready" and "tc_generation (tp_ctl t) \<noteq> 0" and "\<not> sb_done b" and "attach pid now b t = (ok, b', t')"
  shows "sub_round pid now b t = (b', if ok then beat now b' t' else t')"
  using assms by (simp add: sub_round_def)

lemma round_ok:
  assumes "tc_state (tp_ctl t) = state_code TS_Ready" and "tc_generation (tp_ctl t) \<noteq> 0" and "slots_ok t" and "sub_ok t lst b" and "0 < now"
    and "sub_round pid now b t = (b', t')"
  shows "slots_ok t'" and "sub_ok t' now b'" and "sub_ok t l c \<Longrightarrow> sb_done c \<and> sb_done b \<longrightarrow> sb_cc c \<noteq> sb_cc b \<Longrightarrow> sub_ok t' l c"
    and "sub_ok t l c \<Longrightarrow> sb_done c \<and> sb_done b \<longrightarrow> sb_cc c \<noteq> sb_cc b \<Longrightarrow> sb_done c \<and> sb_done b' \<longrightarrow> sb_cc c \<noteq> sb_cc b'"
    and "tc_generation (tp_ctl t') = tc_generation (tp_ctl t)" and "tc_state (tp_ctl t') = tc_state (tp_ctl t)"
proof -
  have "slots_ok t' \<and> sub_ok t' now b' \<and>
    (sub_ok t l c \<and> (sb_done c \<and> sb_done b \<longrightarrow> sb_cc c \<noteq> sb_cc b) \<longrightarrow> sub_ok t' l c \<and> (sb_done c \<and> sb_done b' \<longrightarrow> sb_cc c \<noteq> sb_cc b')) \<and>
    tc_generation (tp_ctl t') = tc_generation (tp_ctl t) \<and> tc_state (tp_ctl t') = tc_state (tp_ctl t)"
  proof (cases "sb_done b")
    case True
    then have "b' = b" "t' = beat now b t" using round_idle [OF assms(1,2) True] sub_okD(1) [OF assms(4) True] assms(6) by auto
    then show ?thesis using beat_ok [OF assms(3,4) True assms(5)] True by (auto simp: beat_def)
  next
    case False
    obtain ok b1 t1 where a: "attach pid now b t = (ok, b1, t1)" by (cases "attach pid now b t")
    then have e: "b' = b1" "t' = (if ok then beat now b1 t1 else t1)" using round_attach [OF assms(1,2) False a] assms(6) by auto
    note k = attach_ok [OF assms(1-4) False assms(5) a]
    show ?thesis
    proof (cases ok)
      case True
      then have d: "sb_done b1" using k(4) by simp
      note bt = beat_ok [OF k(1,2) d assms(5)]
      have "sub_ok (beat now b1 t1) l c \<and> sb_cc c \<noteq> sb_cc b1" if "sub_ok t l c" "sb_done c"
        using bt(3) [OF k(3) [OF that(1)]] k(5) [OF that d] by blast
      moreover have "sub_ok (beat now b1 t1) l c" if "sub_ok t l c" "\<not> sb_done c" using that by (simp add: sub_ok_def)
      ultimately show ?thesis using e True bt(1,2) k(6,7) by (auto simp: beat_def)
    next
      case False
      then show ?thesis using e k by auto
    qed
  qed
  then show "slots_ok t'" and "sub_ok t' now b'" and "sub_ok t l c \<Longrightarrow> sb_done c \<and> sb_done b \<longrightarrow> sb_cc c \<noteq> sb_cc b \<Longrightarrow> sub_ok t' l c"
    and "sub_ok t l c \<Longrightarrow> sb_done c \<and> sb_done b \<longrightarrow> sb_cc c \<noteq> sb_cc b \<Longrightarrow> sb_done c \<and> sb_done b' \<longrightarrow> sb_cc c \<noteq> sb_cc b'"
    and "tc_generation (tp_ctl t') = tc_generation (tp_ctl t)" and "tc_state (tp_ctl t') = tc_state (tp_ctl t)" by blast+
qed

lemma hs_inv_start:
  assumes "hs_start s"
  shows "hs_inv s"
proof -
  obtain env polls pid now c where t: "sy_topic s = pub_init env polls pid now c" using assms by (auto simp: hs_start_def)
  have "tc_peers (tp_ctl (sy_topic s)) = replicate 64 free_peer" "tc_state (tp_ctl (sy_topic s)) = state_code TS_Ready"
    unfolding t by (simp_all add: pub_init_def begin_rebuild_def set_ready_def clear_all_peer_slots_def kMaxPeerSlots_def Let_def)
  then show ?thesis using assms by (auto simp: hs_inv_def hs_start_def slots_ok_def used_slot_def free_peer_def)
qed

lemma hs_inv_step:
  assumes I: "hs_inv s" and S: "hs_step s s'"
  shows "hs_inv s'"
proof -
  let ?t = "sy_topic s"
  have r: "tc_state (tp_ctl ?t) = state_code TS_Ready" "tc_generation (tp_ctl ?t) \<noteq> 0" "0 < sy_clock s" "sy_live s \<subseteq> sy_known s" "slots_ok ?t"
    using I by (auto simp: hs_inv_def)
  have ok: "i \<in> sy_live s \<Longrightarrow> sub_ok ?t (sy_last s i) (sy_subs s i)" for i using I by (simp add: hs_inv_def)
  have ne: "i \<in> sy_live s \<Longrightarrow> j \<in> sy_live s \<Longrightarrow> i \<noteq> j \<Longrightarrow> sb_done (sy_subs s i) \<and> sb_done (sy_subs s j) \<longrightarrow> sb_cc (sy_subs s i) \<noteq> sb_cc (sy_subs s j)" for i j
    using I unfolding hs_inv_def by blast
  from S show ?thesis
  proof cases
    case (sub_starts i)
    have "sub_ok ?t l new_subscriber" for l by (simp add: sub_ok_def new_subscriber_def)
    then show ?thesis using I sub_starts by (auto simp: hs_inv_def new_subscriber_def)
  next
    case (sub_runs i now pid b t)
    have "0 < now" using r(3) sub_runs(3) by simp
    note k = round_ok [OF r(1,2,5) ok [OF sub_runs(2)] this sub_runs(4)]
    have other: "sub_ok t (sy_last s j) (sy_subs s j) \<and> (sb_done (sy_subs s j) \<and> sb_done b \<longrightarrow> sb_cc (sy_subs s j) \<noteq> sb_cc b)"
      if "j \<in> sy_live s" "j \<noteq> i" for j
      using k(3) [OF ok [OF that(1)] ne [OF that(1) sub_runs(2) that(2)]] k(4) [OF ok [OF that(1)] ne [OF that(1) sub_runs(2) that(2)]] by blast
    show ?thesis unfolding hs_inv_def sub_runs(1)
    proof (intro conjI ballI impI)
      show "x = y" if "x \<in> sy_live (s\<lparr>sy_topic := t, sy_subs := (sy_subs s)(i := b), sy_clock := now, sy_last := (sy_last s)(i := now)\<rparr>)"
        "y \<in> sy_live (s\<lparr>sy_topic := t, sy_subs := (sy_subs s)(i := b), sy_clock := now, sy_last := (sy_last s)(i := now)\<rparr>)" and
        "sb_done (sy_subs (s\<lparr>sy_topic := t, sy_subs := (sy_subs s)(i := b), sy_clock := now, sy_last := (sy_last s)(i := now)\<rparr>) x) \<and>
         sb_done (sy_subs (s\<lparr>sy_topic := t, sy_subs := (sy_subs s)(i := b), sy_clock := now, sy_last := (sy_last s)(i := now)\<rparr>) y) \<and>
         sb_cc (sy_subs (s\<lparr>sy_topic := t, sy_subs := (sy_subs s)(i := b), sy_clock := now, sy_last := (sy_last s)(i := now)\<rparr>) x) =
         sb_cc (sy_subs (s\<lparr>sy_topic := t, sy_subs := (sy_subs s)(i := b), sy_clock := now, sy_last := (sy_last s)(i := now)\<rparr>) y)" for x y
        using that other [of x] other [of y] ne [of x y] by (auto split: if_splits)
    qed (use k r \<open>0 < now\<close> other in auto)
  next
    case (sub_dies i)
    then show ?thesis using I by (auto simp: hs_inv_def)
  next
    case (sub_leaves i b t)
    note k = leave_ok [OF r(5) ok [OF sub_leaves(2)] sub_leaves(3)]
    have "sub_ok t (sy_last s j) (sy_subs s j)" if "j \<in> sy_live s" "j \<noteq> i" for j
      using k(2) [OF ok [OF that(1)]] ne [OF that(1) sub_leaves(2) that(2)] by blast
    then show ?thesis using I k sub_leaves(1) by (auto simp: hs_inv_def)
  next
    case (pub_reaps now)
    note k = reap_ok [OF r(5) refl, where now = now] and m = pub_round_reaps [of now ?t]
    have "sub_ok (snd (pub_round now ?t)) (sy_last s i) (sy_subs s i)" if "i \<in> sy_live s" for i
      using k(2) [OF ok [OF that]] pub_reaps(3) that by blast
    then show ?thesis using I k(1) m(3,4) pub_reaps(1,2) by (auto simp: hs_inv_def)
  qed
qed

interpretation hs: step_invariant hs_start hs_step hs_inv
  by unfold_locales (auto intro: hs_inv_start hs_inv_step)

text \<open>
  C12. A subscriber that has attached and beats in time keeps its own connection and its own slot,
  whatever the other subscribers do: start, leave, die, and be reaped.
\<close>

theorem live_subscribers_stay:
  assumes "reach hs_start hs_step s" and "i \<in> sy_live s" and "sb_done (sy_subs s i)"
  shows "\<exists>m < 32. sb_cc (sy_subs s i) = push_bit m 1 \<and> bit (connections (tp_head (sy_topic s))) m \<and>
    (\<forall>j \<in> sy_live s. j \<noteq> i \<and> sb_done (sy_subs s j) \<longrightarrow> sb_cc (sy_subs s j) \<noteq> sb_cc (sy_subs s i)) \<and>
    (0 \<le> sb_slot (sy_subs s i) \<longrightarrow>
      ps_cc_id (tc_peers (tp_ctl (sy_topic s)) ! nat (sb_slot (sy_subs s i))) = push_bit m 1 \<and>
      ps_heartbeat (tc_peers (tp_ctl (sy_topic s)) ! nat (sb_slot (sy_subs s i))) = sy_last s i)"
proof -
  have I: "hs_inv s" using hs.reach_inv [OF assms(1)] .
  then have "sub_ok (sy_topic s) (sy_last s i) (sy_subs s i)" using assms(2) by (simp add: hs_inv_def)
  note b = sub_okD [OF this assms(3)]
  obtain m where m: "m < 32" "sb_cc (sy_subs s i) = push_bit m 1" "bit (connections (tp_head (sy_topic s))) m" using b(2) by (auto simp: has_bit_def)
  have "\<forall>j \<in> sy_live s. j \<noteq> i \<and> sb_done (sy_subs s j) \<longrightarrow> sb_cc (sy_subs s j) \<noteq> sb_cc (sy_subs s i)"
    using I assms(2,3) unfolding hs_inv_def by blast
  then show ?thesis using m b(5,6) by (intro exI [of _ m]) (auto simp: slot_cc_def)
qed

text \<open>A run: a publisher starts on a new segment and a subscriber attaches.\<close>

definition example_plane :: topic_control where
  "example_plane = initialize_if_needed 1
     \<lparr>tc_magic = 0, tc_generation = 0, tc_state = 0, tc_owner = 0, tc_heartbeat = 0, tc_peer_count = 0, tc_peers = []\<rparr>"

definition example_topic :: shm_topic where
  "example_topic = pub_init (\<lambda>_ c. c) 0 10 1 example_plane"

lemma pub_init_eq:
  "pub_init (\<lambda>_ c. c) n pid now c = \<lparr>tp_ctl = c\<lparr>tc_state := 2, tc_owner := pid, tc_heartbeat := now, tc_peer_count := 0,
     tc_peers := free_peer # replicate 63 free_peer, tc_generation := tc_generation c + 1\<rparr>,
   tp_head = \<lparr>connections = 0, sender_flag = True, receiver_flag = False\<rparr>\<rparr>"
proof -
  have d: "drain_peers (\<lambda>_ c. c) n c' = c'" for c' by (induction n) auto
  have "replicate 64 free_peer = free_peer # replicate 63 free_peer" by (simp add: numeral_eq_Suc)
  then show ?thesis
    by (simp add: pub_init_def begin_rebuild_def d set_ready_def clear_all_peer_slots_def kMaxPeerSlots_def connect_sender_def is_multi_producer_def new_head_def)
qed

lemma first_attach:
  assumes "tc_state c = 2" and "tc_generation c \<noteq> 0" and "tc_peers c = free_peer # ps" and "\<not> sb_registered b" and "\<not> sb_done b"
  shows "sub_round pid now b \<lparr>tp_ctl = c, tp_head = \<lparr>connections = 0, sender_flag = f, receiver_flag = r\<rparr>\<rparr> =
    (\<lparr>sb_generation = tc_generation c, sb_registered = True, sb_slot = 0, sb_done = True, sb_cc = 1\<rparr>,
     \<lparr>tp_ctl = c\<lparr>tc_peer_count := tc_peer_count c + 1,
         tc_peers := \<lparr>ps_in_use = 1, ps_cc_id = 1, ps_pid = pid, ps_generation = tc_generation c, ps_heartbeat = now\<rparr> # ps\<rparr>,
      tp_head = \<lparr>connections = 1, sender_flag = f, receiver_flag = r\<rparr>\<rparr>)"
  using assms
  by (simp add: sub_round_def attach_def unregister_def connect_receiver_def is_multi_consumer_def head_connect_def is_broadcast_def
      add_peer_def acquire_peer_slot_def beat_def peer_heartbeat_def kMaxPeerSlots_def free_peer_def Let_def)

theorem live_subscribers_stay_witness:
  "\<exists>s. reach hs_start hs_step s \<and> sy_live s = {0} \<and> sb_done (sy_subs s 0) \<and>
    (\<exists>m < 32. sb_cc (sy_subs s 0) = push_bit m 1 \<and> bit (connections (tp_head (sy_topic s))) m)"
proof -
  let ?s0 = "\<lparr>sy_topic = example_topic, sy_subs = (\<lambda>_. new_subscriber), sy_known = {}, sy_live = {}, sy_clock = 1, sy_last = (\<lambda>_. 0)\<rparr>"
  have gen: "tc_generation (tp_ctl example_topic) = 1"
    by (simp add: example_topic_def pub_init_eq example_plane_def initialize_if_needed_def clear_all_peer_slots_def kTopicControlMagic_def)
  have "\<exists>env polls pid now c. example_topic = pub_init env polls pid now c" unfolding example_topic_def by blast
  then have "hs_start ?s0" using gen by (simp add: hs_start_def)
  then have "reach hs_start hs_step ?s0" by (rule reach_init)
  from reach_step [OF this sub_starts [of 0]]
  have r: "reach hs_start hs_step (?s0\<lparr>sy_known := {0}, sy_live := {0}\<rparr>)" by (simp add: fun_upd_idem)
  obtain b t where bt: "sub_round 20 2 new_subscriber example_topic = (b, t)" by force
  from reach_step [OF r sub_runs [of 0 _ 2 20 b t]] bt
  have r2: "reach hs_start hs_step (?s0\<lparr>sy_known := {0}, sy_live := {0}, sy_topic := t, sy_subs := (\<lambda>_. new_subscriber)(0 := b), sy_clock := 2, sy_last := (\<lambda>_. 0)(0 := 2)\<rparr>)"
    by simp
  have "sb_done b"
    using bt gen first_attach [of "tp_ctl example_topic" "replicate 63 free_peer" new_subscriber 20 2 True False]
    by (auto simp: example_topic_def pub_init_eq new_subscriber_def)
  moreover from this have "\<exists>m < 32. sb_cc b = push_bit m 1 \<and> bit (connections (tp_head t)) m"
    using live_subscribers_stay [OF r2, of 0] by auto
  ultimately have d: "sb_done b \<and> (\<exists>m < 32. sb_cc b = push_bit m 1 \<and> bit (connections (tp_head t)) m)" ..
  show ?thesis by (rule exI, rule conjI, rule r2) (use d in simp)
qed

section \<open>A new generation\<close>

text \<open>A rebuild frees all slots at once, so that a subscriber of the old generation no longer owns its slot.\<close>

lemma attach_unregistered:
  "attach pid now b t = attach pid now (fst (unregister b (tp_ctl t))) (t\<lparr>tp_ctl := snd (unregister b (tp_ctl t))\<rparr>)"
  by (cases "sb_registered b") (simp_all add: attach_def unregister_def Let_def split_beta)

lemma attach_sim:
  assumes "\<not> sb_registered b"
  shows "attach pid now (b\<lparr>sb_done := d, sb_cc := e\<rparr>) t =
    (let (ok, b', t') = attach pid now b t in (ok, if ok then b' else b'\<lparr>sb_done := d\<rparr>, t'))"
  using assms by (simp add: attach_def unregister_def Let_def split_beta)

text \<open>
  When it attaches again it gives back the slot of another subscriber that attached before: that
  one stays connected, and nobody takes its connection away when it dies.
\<close>

theorem rejoining_frees_other:
  assumes "tc_state (tp_ctl t) = state_code TS_Ready" and "tc_generation (tp_ctl t) \<noteq> 0" and "slots_ok t" and "used_slot t i" and "0 < now"
    and "sb_registered a" and "sb_slot a = int i" and "sb_generation a \<noteq> tc_generation (tp_ctl t)"
    and "sub_round pid now a t = (a', t')"
  shows "has_bit t' (slot_cc t i) \<and> (\<forall>k. used_slot t' k \<longrightarrow> slot_cc t' k \<noteq> slot_cc t i) \<and>
    (\<forall>later. has_bit (snd (pub_round later t')) (slot_cc t i))"
proof -
  let ?cc = "slot_cc t i"
  let ?a = "a\<lparr>sb_slot := - 1, sb_registered := False\<rparr>" and ?c = "release_peer_slot (int i) (remove_peer (sb_generation a) (tp_ctl t))"
  let ?t = "t\<lparr>tp_ctl := ?c\<rparr>" and ?idle = "a\<lparr>sb_slot := - 1, sb_registered := False, sb_done := False, sb_cc := 0\<rparr>"
  let ?other = "\<lparr>sb_generation = tc_generation (tp_ctl t), sb_registered = True, sb_slot = - 1, sb_done = True, sb_cc = ?cc\<rparr>"
  have i: "i < 64" using assms(4) by (simp add: used_slot_def)
  have len: "length (tc_peers (tp_ctl t)) = 64" using assms(3) by (simp add: slots_ok_def)
  have peers: "tc_peers ?c = (tc_peers (tp_ctl t))[i := free_peer]" using i by (simp add: release_peers)
  have used: "used_slot ?t k \<longleftrightarrow> used_slot t k \<and> k \<noteq> i" for k
    using len i by (auto simp: used_slot_def peers free_peer_def nth_list_update)
  have cc: "slot_cc ?t k = slot_cc t k" if "k \<noteq> i" for k using that by (simp add: slot_cc_def peers)
  have bit: "has_bit ?t = has_bit t" by (simp add: fun_eq_iff has_bit_def)
  have old: "used_slot t k \<Longrightarrow> has_bit t (slot_cc t k)" "used_slot t k \<Longrightarrow> used_slot t k' \<Longrightarrow> slot_cc t k = slot_cc t k' \<Longrightarrow> k = k'" for k k'
    using assms(3) by (auto simp: slots_ok_def)
  have ok: "slots_ok ?t" unfolding slots_ok_def
  proof (intro conjI allI impI)
    show "length (tc_peers (tp_ctl ?t)) = 64" using len by (simp add: peers)
    show "has_bit ?t (slot_cc ?t k)" if "used_slot ?t k" for k using that used cc bit old(1) by simp
    show "k = k'" if "used_slot ?t k \<and> used_slot ?t k' \<and> slot_cc ?t k = slot_cc ?t k'" for k k'
    proof -
      have u: "used_slot t k" "k \<noteq> i" "used_slot t k'" "k' \<noteq> i" using that used by blast+
      have "slot_cc t k = slot_cc t k'" using conjunct2 [OF conjunct2 [OF that]] unfolding cc [OF u(2)] cc [OF u(4)] .
      then show ?thesis by (rule old(2) [OF u(1,3)])
    qed
  qed
  have other: "sub_ok ?t l ?other" if "0 < l" for l
    using that used cc bit old(1) [OF assms(4)] old(2) [OF assms(4)] by (simp add: sub_ok_def) metis
  obtain okk b1 t1 where att: "attach pid now ?a ?t = (okk, b1, t1)" by (cases "attach pid now ?a ?t")
  have "attach pid now a t = (okk, b1, t1)"
    using att assms(6,7) by (subst attach_unregistered) (simp add: unregister_def)
  then have t': "t' = (if okk then beat now b1 t1 else t1)" using assms(1,2,8,9) by (simp add: sub_round_def Let_def split: if_splits)
  obtain b2 where att2: "attach pid now ?idle ?t = (okk, b2, t1)" "okk \<Longrightarrow> b2 = b1"
    using att attach_sim [of ?a pid now, where d = False and e = 0 and t = ?t] by auto
  have r: "tc_state (tp_ctl ?t) = state_code TS_Ready" "tc_generation (tp_ctl ?t) \<noteq> 0" "sub_ok ?t 0 ?idle" "\<not> sb_done ?idle"
    using assms(1,2) by (simp_all add: sub_ok_def)
  note k = attach_ok [OF r(1,2) ok r(3,4) assms(5) att2(1)]
  have o': "slots_ok t' \<and> sub_ok t' l ?other" if "0 < l" for l
  proof (cases okk)
    case True
    then have b: "b2 = b1" "sb_done b1" using att2(2) k(4) by auto
    have "sb_cc ?other \<noteq> sb_cc b1" using k(5) [OF other [OF that]] b by simp
    then show ?thesis using beat_ok [OF k(1,2) _ assms(5)] k(3) [OF other [OF that]] b t' True by simp
  next
    case False
    then show ?thesis using k(1) k(3) [OF other [OF that]] t' by simp
  qed
  have "has_bit (snd (pub_round later t')) ?cc" for later
  proof -
    have pos: "0 < max 1 later" by simp
    have "later - max 1 later < kPeerDeadTimeoutNs" by (simp add: kPeerDeadTimeoutNs_def)
    then have "sub_ok (snd (pub_round later t')) (max 1 later) ?other"
      using reap_ok(2) [OF conjunct1 [OF o' [OF pos]] refl conjunct2 [OF o' [OF pos]], of later] by simp
    then show ?thesis by (simp add: sub_ok_def)
  qed
  moreover have "has_bit t' ?cc \<and> (\<forall>k. used_slot t' k \<longrightarrow> slot_cc t' k \<noteq> ?cc)"
    using o' [of 1] by (auto simp: sub_ok_def)
  ultimately show ?thesis by blast
qed

text \<open>The publisher restarts, another subscriber attaches, and the old one comes back.\<close>

theorem rejoining_frees_other_witness:
  "\<exists>a t1 b t2 a' t3. sub_round 20 2 new_subscriber example_topic = (a, t1) \<and>
    sub_round 30 4 new_subscriber (pub_init (\<lambda>_ c. c) 0 10 3 (tp_ctl t1)) = (b, t2) \<and> sub_round 20 5 a t2 = (a', t3) \<and>
    sb_done b \<and> sb_slot b = 0 \<and> has_bit t3 (sb_cc b) \<and> (\<forall>later. has_bit (snd (pub_round later t3)) (sb_cc b))"
proof -
  let ?new = "new_subscriber"
  obtain a t1 where a: "sub_round 20 2 ?new example_topic = (a, t1)" by force
  have "sb_generation a = 1 \<and> sb_registered a \<and> sb_slot a = 0 \<and> tc_generation (tp_ctl t1) = 1"
    using a first_attach [of "tp_ctl example_topic" "replicate 63 free_peer" ?new 20 2 True False]
    by (auto simp: example_topic_def pub_init_eq new_subscriber_def example_plane_def initialize_if_needed_def clear_all_peer_slots_def kTopicControlMagic_def)
  then have a1: "sb_generation a = 1" "sb_registered a" "sb_slot a = int 0" "tc_generation (tp_ctl t1) = 1" by auto
  let ?p = "pub_init (\<lambda>_ c. c) 0 10 3 (tp_ctl t1)"
  obtain b t2 where b: "sub_round 30 4 ?new ?p = (b, t2)" by force
  have g: "tc_generation (tp_ctl ?p) = 2" using a1(4) by (simp add: pub_init_eq)
  have bt: "b = \<lparr>sb_generation = 2, sb_registered = True, sb_slot = 0, sb_done = True, sb_cc = 1\<rparr>"
    and t2: "tp_head t2 = \<lparr>connections = 1, sender_flag = True, receiver_flag = False\<rparr>" "tc_state (tp_ctl t2) = 2" "tc_generation (tp_ctl t2) = 2"
      "tc_peers (tp_ctl t2) = \<lparr>ps_in_use = 1, ps_cc_id = 1, ps_pid = 30, ps_generation = 2, ps_heartbeat = 4\<rparr> # replicate 63 free_peer"
    using b g first_attach [of "tp_ctl ?p" "replicate 63 free_peer" ?new 30 4 True False]
    by (auto simp: pub_init_eq new_subscriber_def)
  have used: "used_slot t2 k \<longleftrightarrow> k = 0" for k
    by (cases k) (auto simp: used_slot_def t2(4) free_peer_def)
  have cc: "slot_cc t2 0 = 1" by (simp add: slot_cc_def t2(4))
  have "has_bit t2 1" by (auto simp: has_bit_def t2(1) intro!: exI [of _ 0])
  then have ok: "slots_ok t2" using used cc by (simp add: slots_ok_def t2(4))
  obtain a' t3 where a': "sub_round 20 5 a t2 = (a', t3)" by force
  have r: "tc_state (tp_ctl t2) = state_code TS_Ready" "tc_generation (tp_ctl t2) \<noteq> 0" "used_slot t2 0" "(0 :: int) < 5" "sb_generation a \<noteq> tc_generation (tp_ctl t2)"
    using t2(2,3) used a1(1) by simp_all
  note x = rejoining_frees_other [OF r(1,2) ok r(3,4) a1(2,3) r(5) a']
  then show ?thesis using a b a' bt cc by (intro exI [of _ a] exI [of _ t1] exI [of _ b] exI [of _ t2] exI [of _ a'] exI [of _ t3]) simp
qed

text \<open>A peer that is reaped stays counted: the publisher goes on believing that it has a subscriber.\<close>

theorem reaped_peer_counted:
  assumes "0 < tc_peer_count (tp_ctl t)"
  shows "fst (pub_round now t)" and "fst (pub_round later (snd (pub_round now t)))"
  using assms by (simp_all add: pub_round_reaps)

end
