(* ===== verification/InfoPool.thy ===== *)
theory InfoPool
  imports SlotTable
begin

text \<open>
  The directory of topics and services of a machine (\<open>src/src/dzIPC/ipc_info_pool.cc\<close>): 512
  entries in shared memory with the process, the kind and the names of every publisher,
  subscriber, server and client, under a lock that the processes share. Process identifiers and
  times are numbers; the processes that run and the clock are arguments.
\<close>

section \<open>Entries\<close>

datatype EntryKind = Unknown | ShmPub | ShmSub | SocketPub | SocketSub | ShmServer | ShmClient | SocketServer | SocketClient

primrec kind_code :: "EntryKind \<Rightarrow> u32" where
  "kind_code Unknown = 0"
| "kind_code ShmPub = 1"
| "kind_code ShmSub = 2"
| "kind_code SocketPub = 3"
| "kind_code SocketSub = 4"
| "kind_code ShmServer = 5"
| "kind_code ShmClient = 6"
| "kind_code SocketServer = 7"
| "kind_code SocketClient = 8"

primrec get_type_from_kind :: "EntryKind \<Rightarrow> string" where
  "get_type_from_kind Unknown = ''invalid EntryKind''"
| "get_type_from_kind ShmPub = ''shm_pubsub''"
| "get_type_from_kind ShmSub = ''shm_pubsub''"
| "get_type_from_kind SocketPub = ''socket_pubsub''"
| "get_type_from_kind SocketSub = ''socket_pubsub''"
| "get_type_from_kind ShmServer = ''shm_sercli''"
| "get_type_from_kind ShmClient = ''shm_sercli''"
| "get_type_from_kind SocketServer = ''socket_sercli''"
| "get_type_from_kind SocketClient = ''socket_sercli''"

primrec kind_name :: "EntryKind \<Rightarrow> string" where
  "kind_name Unknown = ''unknown''"
| "kind_name ShmPub = ''shm_pub''"
| "kind_name ShmSub = ''shm_sub''"
| "kind_name SocketPub = ''socket_pub''"
| "kind_name SocketSub = ''socket_sub''"
| "kind_name ShmServer = ''shm_server''"
| "kind_name ShmClient = ''shm_client''"
| "kind_name SocketServer = ''socket_server''"
| "kind_name SocketClient = ''socket_client''"

definition kMaxTopicName :: nat where "kMaxTopicName = 128"
definition kMaxTypeName :: nat where "kMaxTypeName = 64"
definition kMaxExtra :: nat where "kMaxExtra = 64"
definition kMaxEntries :: nat where "kMaxEntries = 512"

text \<open>Names are arrays of characters, of which those before the first zero count.\<close>

record pool_entry =
  pe_in_use :: u32
  pe_pid :: int
  pe_kind :: u32
  pe_register_ts :: int
  pe_heartbeat :: int
  pe_topic :: bytes
  pe_type :: bytes
  pe_domain :: int
  pe_extra :: bytes

record register_info =
  ri_kind :: EntryKind
  ri_topic :: bytes
  ri_type :: bytes
  ri_domain :: int
  ri_extra :: bytes

definition copy_truncate :: "bytes \<Rightarrow> bytes \<Rightarrow> bytes" where
  "copy_truncate dst src =
     (if dst = [] then dst
      else let n = min (length src) (length dst - 1) in take n src @ [0] @ drop (n + 1) dst)"

definition c_string :: "bytes \<Rightarrow> bytes" where
  "c_string a = takeWhile (\<lambda>c. c \<noteq> 0) a"

definition cleared :: "bytes \<Rightarrow> bytes" where
  "cleared a = a[0 := 0]"

text \<open>An entry that is given back.\<close>

definition clear_entry :: "pool_entry \<Rightarrow> pool_entry" where
  "clear_entry e = \<lparr>pe_in_use = 0, pe_pid = 0, pe_kind = 0, pe_register_ts = 0, pe_heartbeat = 0,
     pe_topic = cleared (pe_topic e), pe_type = cleared (pe_type e), pe_domain = 0, pe_extra = cleared (pe_extra e)\<rparr>"

section \<open>The pool\<close>

record pool_segment =
  ps_init_state :: u32
  ps_magic :: u32
  ps_entries :: "pool_entry list"

definition kPoolMagic :: u32 where
  "kPoolMagic = 0x5A495044"

text \<open>
  The first process initialises the segment; the others wait for it, up to 2000 polls, \<open>env n\<close> being
  what happens between two of them. The result is whether the pool can be used.
\<close>

primrec wait_ready :: "(nat \<Rightarrow> pool_segment \<Rightarrow> pool_segment) \<Rightarrow> nat \<Rightarrow> pool_segment \<Rightarrow> pool_segment" where
  "wait_ready env 0 g = g"
| "wait_ready env (Suc n) g = (if ps_init_state g = 2 then g else wait_ready env n (env n g))"

definition pool_open :: "(nat \<Rightarrow> pool_segment \<Rightarrow> pool_segment) \<Rightarrow> pool_segment \<Rightarrow> bool \<times> pool_segment" where
  "pool_open env g =
     (if ps_init_state g = 0
      then (True, g\<lparr>ps_init_state := 2, ps_magic := kPoolMagic, ps_entries := map (\<lambda>e. e\<lparr>pe_in_use := 0\<rparr>) (ps_entries g)\<rparr>)
      else let g = wait_ready env 2000 g in (ps_init_state g = 2 \<and> ps_magic g = kPoolMagic, g))"

text \<open>The operations of a process whose pool is ready; \<open>locked\<close> is whether it got the lock.\<close>

definition register_entry :: "bool \<Rightarrow> int \<Rightarrow> int \<Rightarrow> register_info \<Rightarrow> pool_entry list \<Rightarrow> int \<times> pool_entry list" where
  "register_entry locked pid now info p =
     (if \<not> locked then (- 1, p)
      else case first_free (\<lambda>e. pe_in_use e \<noteq> 0) 0 p of
             None \<Rightarrow> (- 1, p)
           | Some i \<Rightarrow>
               (int i, p[i := \<lparr>pe_in_use = 1, pe_pid = pid, pe_kind = kind_code (ri_kind info), pe_register_ts = now, pe_heartbeat = now,
                  pe_topic = copy_truncate (pe_topic (p ! i)) (ri_topic info), pe_type = copy_truncate (pe_type (p ! i)) (ri_type info),
                  pe_domain = ri_domain info, pe_extra = copy_truncate (pe_extra (p ! i)) (ri_extra info)\<rparr>]))"

definition unregister_entry :: "bool \<Rightarrow> int \<Rightarrow> pool_entry list \<Rightarrow> pool_entry list" where
  "unregister_entry locked slot p =
     (if slot < 0 \<or> kMaxEntries \<le> nat slot then p
      else if \<not> locked then p
      else if pe_in_use (p ! nat slot) = 0 then p
      else p[nat slot := clear_entry (p ! nat slot)])"

definition entry_heartbeat :: "int \<Rightarrow> int \<Rightarrow> pool_entry list \<Rightarrow> pool_entry list" where
  "entry_heartbeat now slot p =
     (if slot < 0 \<or> kMaxEntries \<le> nat slot then p
      else if pe_in_use (p ! nat slot) = 0 then p
      else p[nat slot := (p ! nat slot)\<lparr>pe_heartbeat := now\<rparr>])"

definition entry_alive :: "(int \<Rightarrow> bool) \<Rightarrow> pool_entry \<Rightarrow> bool" where
  "entry_alive runs e \<longleftrightarrow> \<not> pe_pid e \<le> 0 \<and> runs (pe_pid e)"

record entry_snapshot =
  es_slot :: nat
  es_kind :: u32
  es_pid :: int
  es_register_ts :: int
  es_heartbeat :: int
  es_topic :: bytes
  es_type :: bytes
  es_domain :: int
  es_extra :: bytes
  es_alive :: bool

definition snapshot_of :: "(int \<Rightarrow> bool) \<Rightarrow> nat \<Rightarrow> pool_entry \<Rightarrow> entry_snapshot" where
  "snapshot_of runs i e = \<lparr>es_slot = i, es_kind = pe_kind e, es_pid = pe_pid e, es_register_ts = pe_register_ts e,
     es_heartbeat = pe_heartbeat e, es_topic = c_string (pe_topic e), es_type = c_string (pe_type e), es_domain = pe_domain e,
     es_extra = c_string (pe_extra e), es_alive = entry_alive runs e\<rparr>"

primrec snapshot_from :: "(int \<Rightarrow> bool) \<Rightarrow> bool \<Rightarrow> nat \<Rightarrow> pool_entry list \<Rightarrow> entry_snapshot list \<times> pool_entry list" where
  "snapshot_from runs gc i [] = ([], [])"
| "snapshot_from runs gc i (e # es) =
     (let (out, es) = snapshot_from runs gc (Suc i) es
      in if pe_in_use e = 0 then (out, e # es)
         else if \<not> entry_alive runs e \<and> gc then (out, clear_entry e # es)
         else (snapshot_of runs i e # out, e # es))"

definition snapshot :: "(int \<Rightarrow> bool) \<Rightarrow> bool \<Rightarrow> bool \<Rightarrow> pool_entry list \<Rightarrow> entry_snapshot list \<times> pool_entry list" where
  "snapshot runs locked gc p = (if \<not> locked then ([], p) else snapshot_from runs gc 0 p)"

primrec gc_from :: "(int \<Rightarrow> bool) \<Rightarrow> pool_entry list \<Rightarrow> nat \<times> pool_entry list" where
  "gc_from runs [] = (0, [])"
| "gc_from runs (e # es) =
     (let (n, es) = gc_from runs es
      in if pe_in_use e = 0 then (n, e # es)
         else if entry_alive runs e then (n, e # es)
         else (n + 1, clear_entry e # es))"

definition gc_dead :: "(int \<Rightarrow> bool) \<Rightarrow> bool \<Rightarrow> pool_entry list \<Rightarrow> nat \<times> pool_entry list" where
  "gc_dead runs locked p = (if \<not> locked then (0, p) else gc_from runs p)"

section \<open>Registrations that release themselves\<close>

text \<open>A \<open>ScopedRegistration\<close> is its slot; moving it leaves \<open>-1\<close> behind.\<close>

definition reset_registration :: "bool \<Rightarrow> int \<Rightarrow> pool_entry list \<Rightarrow> int \<times> pool_entry list" where
  "reset_registration locked slot p = (if 0 \<le> slot then (- 1, unregister_entry locked slot p) else (slot, p))"

definition rebind :: "bool \<Rightarrow> int \<Rightarrow> int \<Rightarrow> register_info \<Rightarrow> int \<Rightarrow> pool_entry list \<Rightarrow> int \<times> pool_entry list" where
  "rebind locked pid now info slot p = (let (slot, p) = reset_registration locked slot p in register_entry locked pid now info p)"

definition move_registration :: "bool \<Rightarrow> int \<Rightarrow> int \<Rightarrow> pool_entry list \<Rightarrow> (int \<times> int) \<times> pool_entry list" where
  "move_registration locked this other p = (let (this, p) = reset_registration locked this p in ((other, - 1), p))"

definition registration_heartbeat :: "int \<Rightarrow> int \<Rightarrow> pool_entry list \<Rightarrow> pool_entry list" where
  "registration_heartbeat now slot p = (if 0 \<le> slot then entry_heartbeat now slot p else p)"

section \<open>Who is listed\<close>

interpretation pool: slot_allocator "free_slots (\<lambda>e. pe_in_use e \<noteq> 0) kMaxEntries" kMaxEntries
    "\<lambda>p. Some (register_entry True pid now info p)" "\<lambda>i p. Some (True, unregister_entry True i p)" for pid now info
proof unfold_locales
  let ?free = "free_slots (\<lambda>e. pe_in_use e \<noteq> 0) kMaxEntries"
  fix p and ids :: "nat set"
  show "\<exists>i \<in> ids. \<exists>p'. Some (register_entry True pid now info p) = Some (int i, p') \<and> ?free p' (ids - {i})" if f: "?free p ids" "ids \<noteq> {}"
  proof -
    obtain i where i: "i \<in> ids" "first_free (\<lambda>e. pe_in_use e \<noteq> 0) 0 p = Some i"
        "\<And>e. pe_in_use e \<noteq> 0 \<Longrightarrow> ?free (p[i := e]) (ids - {i})"
      using free_slots_take [OF f] by blast
    show ?thesis by (rule bexI [OF _ i(1)]) (simp add: register_entry_def i(2,3))
  qed
  show "Some (register_entry True pid now info p) = Some (- 1, p)" if "?free p {}"
    using free_slots_none [OF that] by (simp add: register_entry_def)
  show "\<exists>p'. Some (True, unregister_entry True (int i) p) = Some (True, p') \<and> ?free p' (insert i ids)"
    if f: "?free p ids" "i < kMaxEntries" "i \<notin> ids" for i
  proof -
    have "pe_in_use (p ! i) \<noteq> 0" using f by (simp add: free_slots_def)
    then have "unregister_entry True (int i) p = p[i := clear_entry (p ! i)]" using f(2) by (simp add: unregister_entry_def)
    then show ?thesis using free_slots_give [OF f(1,2), of "clear_entry (p ! i)"] by (simp add: clear_entry_def)
  qed
  show "ids \<subseteq> {..<kMaxEntries}" if "?free p ids" using that by (auto simp: free_slots_def)
qed

text \<open>What the processes of a machine do with the pool.\<close>

datatype pool_op =
    Register bool int int register_info
  | Unregister bool int
  | Beat int int
  | Snap "int \<Rightarrow> bool" bool bool
  | Collect "int \<Rightarrow> bool" bool

primrec pool_step :: "pool_op \<Rightarrow> pool_entry list \<Rightarrow> pool_entry list" where
  "pool_step (Register locked pid now info) p = snd (register_entry locked pid now info p)"
| "pool_step (Unregister locked slot) p = unregister_entry locked slot p"
| "pool_step (Beat now slot) p = entry_heartbeat now slot p"
| "pool_step (Snap runs locked gc) p = snd (snapshot runs locked gc p)"
| "pool_step (Collect runs locked) p = snd (gc_dead runs locked p)"

text \<open>An operation that leaves slot \<open>k\<close> of process \<open>pid\<close> alone: nobody else unregisters it, and the process runs.\<close>

primrec spares :: "nat \<Rightarrow> int \<Rightarrow> pool_op \<Rightarrow> bool" where
  "spares k pid (Register locked pid' now info) = True"
| "spares k pid (Unregister locked slot) = (slot \<noteq> int k)"
| "spares k pid (Beat now slot) = True"
| "spares k pid (Snap runs locked gc) = runs pid"
| "spares k pid (Collect runs locked) = runs pid"

lemma snapshot_from_eq:
  "snd (snapshot_from runs gc i es) = map (\<lambda>e. if pe_in_use e \<noteq> 0 \<and> \<not> entry_alive runs e \<and> gc then clear_entry e else e) es"
  by (induction es arbitrary: i) (auto simp: split_beta)

lemma snapshot_from_lists:
  "x \<in> set (fst (snapshot_from runs gc i es)) \<longleftrightarrow>
     (\<exists>j < length es. pe_in_use (es ! j) \<noteq> 0 \<and> (entry_alive runs (es ! j) \<or> \<not> gc) \<and> x = snapshot_of runs (i + j) (es ! j))"
proof (induction es arbitrary: i)
  case Nil
  then show ?case by simp
next
  case (Cons e es)
  have "(\<exists>j < length (e # es). P j ((e # es) ! j)) \<longleftrightarrow> P 0 e \<or> (\<exists>j < length es. P (Suc j) (es ! j))" for P
    by (auto simp: less_Suc_eq_0_disj)
  from this [of "\<lambda>j e. pe_in_use e \<noteq> 0 \<and> (entry_alive runs e \<or> \<not> gc) \<and> x = snapshot_of runs (i + j) e"] Cons.IH [of "Suc i"]
  show ?case by (auto simp: split_beta)
qed

lemma gc_from_eq:
  "gc_from runs es = (length (filter (\<lambda>e. pe_in_use e \<noteq> 0 \<and> \<not> entry_alive runs e) es),
     map (\<lambda>e. if pe_in_use e \<noteq> 0 \<and> \<not> entry_alive runs e then clear_entry e else e) es)"
  by (induction es) (auto simp: split_beta)

text \<open>After a collection the entries in use are those of processes that run.\<close>

lemma gc_dead_leaves_live:
  "e \<in> set (snd (gc_dead runs True p)) \<Longrightarrow> pe_in_use e \<noteq> 0 \<Longrightarrow> entry_alive runs e"
  by (auto simp: gc_dead_def gc_from_eq clear_entry_def split: if_splits)

lemma pool_step_keeps:
  assumes "length p = kMaxEntries" and "k < kMaxEntries" and "pe_in_use (p ! k) \<noteq> 0" and "0 < pe_pid (p ! k)" and "spares k (pe_pid (p ! k)) x"
  shows "length (pool_step x p) = kMaxEntries \<and> (\<exists>hb. pool_step x p ! k = (p ! k)\<lparr>pe_heartbeat := hb\<rparr>)"
proof (cases x)
  case (Register locked pid now info)
  show ?thesis
  proof (cases "locked \<and> first_free (\<lambda>e. pe_in_use e \<noteq> 0) 0 p \<noteq> None")
    case True
    then obtain i where i: "first_free (\<lambda>e. pe_in_use e \<noteq> 0) 0 p = Some i" by blast
    have "i \<noteq> k" using first_free_some [OF i] assms(3) by auto
    then show ?thesis using Register assms(1) i True by (auto simp: register_entry_def intro!: exI [of _ "pe_heartbeat (p ! k)"])
  next
    case False
    then have "pool_step x p = p" using Register by (auto simp: register_entry_def)
    then show ?thesis using assms(1) by (auto intro!: exI [of _ "pe_heartbeat (p ! k)"])
  qed
next
  case (Unregister locked slot)
  then have "slot \<noteq> int k" using assms(5) by simp
  then have "pool_step x p ! k = p ! k" "length (pool_step x p) = length p" using Unregister by (auto simp: unregister_entry_def)
  then show ?thesis using assms(1) by (auto intro!: exI [of _ "pe_heartbeat (p ! k)"])
next
  case (Beat now slot)
  show ?thesis
  proof (cases "slot = int k")
    case True
    then show ?thesis using Beat assms(1-3) by (auto simp: entry_heartbeat_def)
  next
    case False
    then have "pool_step x p ! k = p ! k" "length (pool_step x p) = length p" using Beat by (auto simp: entry_heartbeat_def)
    then show ?thesis using assms(1) by (auto intro!: exI [of _ "pe_heartbeat (p ! k)"])
  qed
next
  case (Snap runs locked gc)
  then have "entry_alive runs (p ! k)" using assms(4,5) by (simp add: entry_alive_def)
  then have "pool_step x p ! k = p ! k" "length (pool_step x p) = length p"
    using Snap assms(1,2) by (auto simp: snapshot_def snapshot_from_eq)
  then show ?thesis using assms(1) by (auto intro!: exI [of _ "pe_heartbeat (p ! k)"])
next
  case (Collect runs locked)
  then have "entry_alive runs (p ! k)" using assms(4,5) by (simp add: entry_alive_def)
  then have "pool_step x p ! k = p ! k" "length (pool_step x p) = length p"
    using Collect assms(1,2) by (auto simp: gc_dead_def gc_from_eq)
  then show ?thesis using assms(1) by (auto intro!: exI [of _ "pe_heartbeat (p ! k)"])
qed

lemma pool_run_keeps:
  assumes "length p = kMaxEntries" and "k < kMaxEntries" and "pe_in_use (p ! k) \<noteq> 0" and "0 < pe_pid (p ! k)" and "\<forall>x \<in> set xs. spares k (pe_pid (p ! k)) x"
  shows "length (fold pool_step xs p) = kMaxEntries \<and> (\<exists>hb. fold pool_step xs p ! k = (p ! k)\<lparr>pe_heartbeat := hb\<rparr>)"
  using assms
proof (induction xs arbitrary: p)
  case Nil
  then show ?case by (auto intro!: exI [of _ "pe_heartbeat (p ! k)"])
next
  case (Cons x xs)
  obtain hb where hb: "length (pool_step x p) = kMaxEntries" "pool_step x p ! k = (p ! k)\<lparr>pe_heartbeat := hb\<rparr>"
    using pool_step_keeps [OF Cons.prems(1-4)] Cons.prems(5) by auto
  then show ?case using Cons.IH [of "pool_step x p"] Cons.prems(2-5) by auto
qed

lemma c_string_copy:
  assumes "a \<noteq> []"
  shows "c_string (copy_truncate a s) = takeWhile (\<lambda>c. c \<noteq> 0) (take (length a - 1) s)"
proof -
  have "take (min (length s) (length a - 1)) s = take (length a - 1) s" by (metis min.commute take_all_iff take_take min_def nat_le_linear)
  then show ?thesis using assms by (simp add: c_string_def copy_truncate_def Let_def takeWhile_append takeWhile_eq_all_conv [THEN iffD2])
qed

lemma registered_listed:
  assumes "length p = kMaxEntries" and "\<forall>e \<in> set p. length (pe_topic e) = kMaxTopicName \<and> length (pe_type e) = kMaxTypeName \<and> length (pe_extra e) = kMaxExtra"
    and "0 < pid" and "register_entry True pid now info p = (int k, p1)" and "\<forall>x \<in> set xs. spares k pid x" and "runs pid"
  shows "\<exists>x \<in> set (fst (snapshot runs True gc (fold pool_step xs p1))). es_slot x = k \<and> es_pid x = pid \<and> es_kind x = kind_code (ri_kind info) \<and>
    es_domain x = ri_domain info \<and> es_alive x \<and>
    es_topic x = takeWhile (\<lambda>c. c \<noteq> 0) (take 127 (ri_topic info)) \<and> es_type x = takeWhile (\<lambda>c. c \<noteq> 0) (take 63 (ri_type info)) \<and>
    es_extra x = takeWhile (\<lambda>c. c \<noteq> 0) (take 63 (ri_extra info))"
proof -
  obtain i where i: "first_free (\<lambda>e. pe_in_use e \<noteq> 0) 0 p = Some i" "i = k"
    using assms(4) by (auto simp: register_entry_def split: option.splits)
  have k: "k < kMaxEntries" using first_free_some [OF i(1)] assms(1) i(2) by simp
  then have m: "p ! k \<in> set p" using assms(1) by simp
  let ?e = "\<lparr>pe_in_use = 1, pe_pid = pid, pe_kind = kind_code (ri_kind info), pe_register_ts = now, pe_heartbeat = now,
      pe_topic = copy_truncate (pe_topic (p ! k)) (ri_topic info), pe_type = copy_truncate (pe_type (p ! k)) (ri_type info),
      pe_domain = ri_domain info, pe_extra = copy_truncate (pe_extra (p ! k)) (ri_extra info)\<rparr>"
  have "p1 = p[k := ?e]" using assms(4) i by (simp add: register_entry_def)
  then have p1: "length p1 = kMaxEntries" "p1 ! k = ?e" using assms(1) k by auto
  obtain hb where f: "length (fold pool_step xs p1) = kMaxEntries" "fold pool_step xs p1 ! k = ?e\<lparr>pe_heartbeat := hb\<rparr>"
    using pool_run_keeps [OF p1(1) k, of xs] assms(3,5) p1(2) by auto
  let ?x = "snapshot_of runs k (?e\<lparr>pe_heartbeat := hb\<rparr>)"
  have "entry_alive runs (?e\<lparr>pe_heartbeat := hb\<rparr>)" using assms(3,6) by (simp add: entry_alive_def)
  then have "?x \<in> set (fst (snapshot runs True gc (fold pool_step xs p1)))"
    using f k by (auto simp: snapshot_def snapshot_from_lists intro!: exI [of _ k])
  moreover have "length (pe_topic (p ! k)) = 128" "length (pe_type (p ! k)) = 64" "length (pe_extra (p ! k)) = 64"
    using assms(2) m by (auto simp: kMaxTopicName_def kMaxTypeName_def kMaxExtra_def)
  then have "c_string (copy_truncate (pe_topic (p ! k)) (ri_topic info)) = takeWhile (\<lambda>c. c \<noteq> 0) (take 127 (ri_topic info))"
      "c_string (copy_truncate (pe_type (p ! k)) (ri_type info)) = takeWhile (\<lambda>c. c \<noteq> 0) (take 63 (ri_type info))"
      "c_string (copy_truncate (pe_extra (p ! k)) (ri_extra info)) = takeWhile (\<lambda>c. c \<noteq> 0) (take 63 (ri_extra info))"
    using c_string_copy [of "pe_topic (p ! k)"] c_string_copy [of "pe_type (p ! k)"] c_string_copy [of "pe_extra (p ! k)"] by force+
  ultimately show ?thesis using \<open>entry_alive runs _\<close> by (intro bexI [of _ ?x]) (simp_all add: snapshot_of_def)
qed

text \<open>
  Whoever registers is listed from then on with its data, the names cut to the size of their
  fields, in every snapshot that anyone takes, until it unregisters or its process ends; whatever
  the other processes do, and however often the pool is cleaned.
\<close>

theorem registered_is_listed:
  assumes "length p = kMaxEntries" and "\<forall>e \<in> set p. length (pe_topic e) = kMaxTopicName \<and> length (pe_type e) = kMaxTypeName \<and> length (pe_extra e) = kMaxExtra"
    and "0 < pid" and "register_entry True pid now info p = (int k, p1)" and "\<forall>x \<in> set xs. spares k pid x" and "runs pid"
  shows "\<exists>x \<in> set (fst (snapshot runs True gc (fold pool_step xs p1))). es_slot x = k \<and> es_pid x = pid \<and> es_kind x = kind_code (ri_kind info) \<and>
    es_domain x = ri_domain info \<and> es_alive x \<and>
    es_topic x = takeWhile (\<lambda>c. c \<noteq> 0) (take 127 (ri_topic info)) \<and> es_type x = takeWhile (\<lambda>c. c \<noteq> 0) (take 63 (ri_type info)) \<and>
    es_extra x = takeWhile (\<lambda>c. c \<noteq> 0) (take 63 (ri_extra info))"
  by (rule registered_listed [where runs = runs and pid = pid, OF assms])

definition empty_pool :: "pool_entry list" where
  "empty_pool = replicate kMaxEntries \<lparr>pe_in_use = 0, pe_pid = 0, pe_kind = 0, pe_register_ts = 0, pe_heartbeat = 0,
     pe_topic = replicate 128 0, pe_type = replicate 64 0, pe_domain = 0, pe_extra = replicate 64 0\<rparr>"

theorem registered_is_listed_witness:
  "\<exists>x \<in> set (fst (snapshot (\<lambda>_. True) True True (fold pool_step [Beat 9 0, Collect (\<lambda>_. True) True]
      (snd (register_entry True 7 5 \<lparr>ri_kind = ShmPub, ri_topic = [104, 105], ri_type = [], ri_domain = 3, ri_extra = []\<rparr> empty_pool))))).
    es_slot x = 0 \<and> es_pid x = 7 \<and> es_topic x = [104, 105] \<and> es_alive x"
proof -
  let ?info = "\<lparr>ri_kind = ShmPub, ri_topic = [104, 105], ri_type = [], ri_domain = 3, ri_extra = []\<rparr>"
  have e: "empty_pool = \<lparr>pe_in_use = 0, pe_pid = 0, pe_kind = 0, pe_register_ts = 0, pe_heartbeat = 0,
     pe_topic = replicate 128 0, pe_type = replicate 64 0, pe_domain = 0, pe_extra = replicate 64 0\<rparr> # tl empty_pool"
    by (simp add: empty_pool_def kMaxEntries_def numeral_eq_Suc)
  have "first_free (\<lambda>e. pe_in_use e \<noteq> 0) 0 empty_pool = Some 0" by (subst e) simp
  then have "register_entry True 7 5 ?info empty_pool = (int 0, snd (register_entry True 7 5 ?info empty_pool))" by (simp add: register_entry_def)
  from registered_is_listed [OF _ _ _ this, of "[Beat 9 0, Collect (\<lambda>_. True) True]" "\<lambda>_. True" True]
  show ?thesis by (auto simp: empty_pool_def kMaxTopicName_def kMaxTypeName_def kMaxExtra_def)
qed

end
