(* ===== verification/PathSwitch.thy ===== *)
theory PathSwitch
  imports InfoPool ControlPlane InitMsg Naming
begin

text \<open>
  Switching the path of a service between sockets and shared memory: the state a path can be seen
  in (\<open>path_switch.h\<close>, \<open>path_signal.cc\<close>) and the two threads that decide
  (\<open>src/src/dzIPC/auto_ser_cli_ipc.cc\<close>), as functions from what they observe in one round.
\<close>

section \<open>The observable state\<close>

datatype State = St_Idle | St_Probe | St_Negotiate | St_Establish | St_Active | St_Withdraw | St_Teardown | St_Closed

primrec state_number :: "State \<Rightarrow> nat" where
  "state_number St_Idle = 0"
| "state_number St_Probe = 1"
| "state_number St_Negotiate = 2"
| "state_number St_Establish = 3"
| "state_number St_Active = 4"
| "state_number St_Withdraw = 5"
| "state_number St_Teardown = 6"
| "state_number St_Closed = 7"

text \<open>The states in the order of their numbers, S0 to S7.\<close>

instantiation State :: linorder
begin

definition less_eq_State :: "State \<Rightarrow> State \<Rightarrow> bool" where
  "less_eq_State a b \<longleftrightarrow> state_number a \<le> state_number b"

definition less_State :: "State \<Rightarrow> State \<Rightarrow> bool" where
  "less_State a b \<longleftrightarrow> state_number a < state_number b"

instance
proof
  show "a = b" if "a \<le> b" "b \<le> a" for a b :: State
    using that by (cases a; cases b; simp add: less_eq_State_def)
qed (auto simp: less_eq_State_def less_State_def)

end

datatype Kind = K_None | K_Socket | K_Shm

datatype DecisionReason = Pending | PeerInPool | NoEvidence | D_Timeout | ShmNotReady | ChannelOccupied

datatype FallbackReason =
    F_None | ShmEstablishFailed | ShmRendezvousTimeout | ShmChannelOccupied | RemoteIoFailure | WithdrawnByPeer

primrec State_to_string :: "State \<Rightarrow> string" where
  "State_to_string St_Idle = ''Idle''"
| "State_to_string St_Probe = ''Probe''"
| "State_to_string St_Negotiate = ''Negotiate''"
| "State_to_string St_Establish = ''Establish''"
| "State_to_string St_Active = ''Active''"
| "State_to_string St_Withdraw = ''Withdraw''"
| "State_to_string St_Teardown = ''Teardown''"
| "State_to_string St_Closed = ''Closed''"

primrec Kind_to_string :: "Kind \<Rightarrow> string" where
  "Kind_to_string K_None = ''None''"
| "Kind_to_string K_Socket = ''Socket''"
| "Kind_to_string K_Shm = ''Shm''"

primrec Decision_to_string :: "DecisionReason \<Rightarrow> string" where
  "Decision_to_string Pending = ''Pending''"
| "Decision_to_string PeerInPool = ''PeerInPool''"
| "Decision_to_string NoEvidence = ''NoEvidence''"
| "Decision_to_string D_Timeout = ''Timeout''"
| "Decision_to_string ShmNotReady = ''ShmNotReady''"
| "Decision_to_string ChannelOccupied = ''ChannelOccupied''"

primrec Fallback_to_string :: "FallbackReason \<Rightarrow> string" where
  "Fallback_to_string F_None = ''None''"
| "Fallback_to_string ShmEstablishFailed = ''ShmEstablishFailed''"
| "Fallback_to_string ShmRendezvousTimeout = ''ShmRendezvousTimeout''"
| "Fallback_to_string ShmChannelOccupied = ''ShmChannelOccupied''"
| "Fallback_to_string RemoteIoFailure = ''RemoteIoFailure''"
| "Fallback_to_string WithdrawnByPeer = ''WithdrawnByPeer''"

record evidence =
  ev_kind :: u32
  ev_pid :: int
  ev_ts :: int

definition no_evidence :: evidence where
  "no_evidence = \<lparr>ev_kind = 0, ev_pid = 0, ev_ts = 0\<rparr>"

text \<open>The counters are 64 bits wide and count switches, so that they are numbers here.\<close>

record path_status =
  st_state :: State
  st_selected :: Kind
  st_decision :: DecisionReason
  st_evidence :: evidence
  st_fallback :: FallbackReason
  st_cleanup_done :: bool
  st_cleanup_ts :: int
  st_attempts :: nat
  st_successes :: nat
  st_fallbacks :: nat
  st_window :: nat
  st_dup :: nat

definition new_status :: path_status where
  "new_status = \<lparr>st_state = St_Idle, st_selected = K_None, st_decision = Pending, st_evidence = no_evidence, st_fallback = F_None,
     st_cleanup_done = False, st_cleanup_ts = 0, st_attempts = 0, st_successes = 0, st_fallbacks = 0, st_window = 0, st_dup = 0\<rparr>"

definition mark_cleanup_done :: "int \<Rightarrow> path_status \<Rightarrow> path_status" where
  "mark_cleanup_done now st = st\<lparr>st_cleanup_ts := now, st_cleanup_done := True\<rparr>"

section \<open>Evidence and occupation\<close>

definition topic_bytes :: "string \<Rightarrow> bytes" where
  "topic_bytes t = map of_char t"

text \<open>The peer registered last, of those that run.\<close>

primrec newest_peer :: "string \<Rightarrow> int \<Rightarrow> EntryKind \<Rightarrow> entry_snapshot option \<Rightarrow> entry_snapshot list \<Rightarrow> entry_snapshot option" where
  "newest_peer topic domain k best [] = best"
| "newest_peer topic domain k best (e # es) =
     (if \<not> es_alive e \<or> es_kind e \<noteq> kind_code k then newest_peer topic domain k best es
      else if es_topic e \<noteq> topic_bytes topic \<or> es_domain e \<noteq> domain then newest_peer topic domain k best es
      else newest_peer topic domain k
        (case best of None \<Rightarrow> Some e | Some b \<Rightarrow> if es_register_ts b < es_register_ts e then Some e else Some b) es)"

definition find_peer :: "(int \<Rightarrow> bool) \<Rightarrow> bool \<Rightarrow> string \<Rightarrow> int \<Rightarrow> EntryKind \<Rightarrow> pool_entry list \<Rightarrow> evidence option" where
  "find_peer runs locked topic domain k p =
     map_option (\<lambda>e. \<lparr>ev_kind = es_kind e, ev_pid = es_pid e, ev_ts = es_register_ts e\<rparr>)
       (newest_peer topic domain k None (fst (snapshot runs locked False p)))"

definition ser_service_control_name :: "string \<Rightarrow> nat \<Rightarrow> string" where
  "ser_service_control_name topic domain = shm_service_prefix topic domain @ ''_ser_control2''"

definition occupies :: "string \<Rightarrow> int \<Rightarrow> int \<Rightarrow> entry_snapshot \<Rightarrow> bool" where
  "occupies topic domain self_pid e \<longleftrightarrow>
     es_alive e \<and> (es_kind e = kind_code ShmServer \<or> es_kind e = kind_code ShmClient) \<and>
     es_topic e = topic_bytes topic \<and> es_domain e = domain \<and> es_pid e \<noteq> self_pid"

definition shm_channel_occupied :: "(int \<Rightarrow> bool) \<Rightarrow> bool \<Rightarrow> (string \<Rightarrow> topic_control option option) \<Rightarrow> pool_entry list \<Rightarrow>
    string \<Rightarrow> nat \<Rightarrow> int \<Rightarrow> bool" where
  "shm_channel_occupied runs locked seg p topic domain self_pid =
     (if \<exists>e \<in> set (fst (snapshot runs locked False p)). occupies topic (int domain) self_pid e then True
      else occupied_by_other runs seg (ser_service_control_name topic domain) self_pid)"

section \<open>Reasons on the wire\<close>

primrec wire_signal_for_fallback :: "FallbackReason \<Rightarrow> byte" where
  "wire_signal_for_fallback ShmChannelOccupied = path_state_byte WithdrawChannelOccupied"
| "wire_signal_for_fallback ShmEstablishFailed = path_state_byte WithdrawEstablishFailed"
| "wire_signal_for_fallback ShmRendezvousTimeout = path_state_byte WithdrawRendezvousTimeout"
| "wire_signal_for_fallback RemoteIoFailure = path_state_byte WithdrawRuntimeDisconnect"
| "wire_signal_for_fallback WithdrawnByPeer = path_state_byte WithdrawToSocket"
| "wire_signal_for_fallback F_None = path_state_byte WithdrawToSocket"

definition decode_peer_withdraw :: "byte \<Rightarrow> (DecisionReason \<times> FallbackReason) option" where
  "decode_peer_withdraw sig =
     (case path_state_of sig of
        WithdrawToSocket \<Rightarrow> Some (ShmNotReady, WithdrawnByPeer)
      | WithdrawChannelOccupied \<Rightarrow> Some (ChannelOccupied, ShmChannelOccupied)
      | WithdrawEstablishFailed \<Rightarrow> Some (ShmNotReady, ShmEstablishFailed)
      | WithdrawRendezvousTimeout \<Rightarrow> Some (D_Timeout, ShmRendezvousTimeout)
      | WithdrawRuntimeDisconnect \<Rightarrow> Some (ShmNotReady, RemoteIoFailure)
      | _ \<Rightarrow> None)"

section \<open>The two threads\<close>

text \<open>
  Where a thread is: waiting for the handshake, deciding, waiting for the answer of the server
  (clients only), waiting for the new leg, watching the path, or at an end. The data plane of the
  socket leg and the leg in shared memory are each there or not.
\<close>

datatype phase = P_Probe | P_Decide | P_Answer | P_Establish | P_Watch | P_End

record path_end =
  pe_phase :: phase
  pe_attempted :: bool
  pe_use_shm :: bool
  pe_shm_leg :: bool
  pe_data_plane :: bool
  pe_signal :: byte
  pe_status :: path_status

record options =
  op_allow_shm :: bool
  op_force_no_evidence :: bool

text \<open>What a round observes: whether the thread is to go on, the handshakes of the legs, and the rest as it is asked.\<close>

record observed =
  ob_running :: bool
  ob_socket :: bool
  ob_shm :: bool
  ob_late :: bool
  ob_peer :: "evidence option"
  ob_occupied :: bool
  ob_throws :: bool
  ob_signal :: byte

definition path_init :: path_end where
  "path_init = \<lparr>pe_phase = P_Probe, pe_attempted = False, pe_use_shm = False, pe_shm_leg = False, pe_data_plane = True, pe_signal = 0,
     pe_status = new_status\<lparr>st_state := St_Probe, st_selected := K_Socket\<rparr>\<rparr>"

definition set_status :: "(path_status \<Rightarrow> path_status) \<Rightarrow> path_end \<Rightarrow> path_end" where
  "set_status f e = e\<lparr>pe_status := f (pe_status e)\<rparr>"

definition withdraw_to_socket :: "bool \<Rightarrow> FallbackReason \<Rightarrow> path_end \<Rightarrow> path_end" where
  "withdraw_to_socket server reason e =
     set_status (\<lambda>st. st\<lparr>st_selected := K_Socket, st_fallback := reason\<rparr>)
       (e\<lparr>pe_shm_leg := False, pe_data_plane := True, pe_use_shm := False,
          pe_signal := (if server then wire_signal_for_fallback reason else pe_signal e)\<rparr>)"

definition watch_path :: "path_end \<Rightarrow> path_end" where
  "watch_path e = (set_status (\<lambda>st. st\<lparr>st_state := St_Active\<rparr>) e)\<lparr>pe_phase := P_Watch\<rparr>"

definition count_fallback :: "path_end \<Rightarrow> path_end" where
  "count_fallback e = set_status (\<lambda>st. st\<lparr>st_fallbacks := st_fallbacks st + 1\<rparr>) e"

definition count_attempt :: "path_end \<Rightarrow> path_end" where
  "count_attempt e = set_status (\<lambda>st. st\<lparr>st_attempts := st_attempts st + 1\<rparr>) e"

text \<open>The handshake is awaited; then the evidence is looked up.\<close>

definition probe :: "observed \<Rightarrow> path_end \<Rightarrow> path_end" where
  "probe ob e =
     (if \<not> ob_running ob then e\<lparr>pe_phase := P_End\<rparr>
      else let e = set_status (\<lambda>st. st\<lparr>st_state := St_Probe\<rparr>) e
           in if \<not> ob_socket ob then e
              else (set_status (\<lambda>st. st\<lparr>st_state := St_Negotiate\<rparr>) e)\<lparr>pe_phase := P_Decide\<rparr>)"

definition evidence_of :: "options \<Rightarrow> observed \<Rightarrow> evidence" where
  "evidence_of opts ob = (if op_force_no_evidence opts then no_evidence else case ob_peer ob of None \<Rightarrow> no_evidence | Some ev \<Rightarrow> ev)"

text \<open>A leg that is being built; an exception leaves none, and the attempt fails at once.\<close>

definition establish_failed :: "bool \<Rightarrow> bool \<Rightarrow> FallbackReason \<Rightarrow> path_end \<Rightarrow> path_end" where
  "establish_failed server peer_gone reason e =
     (let e = withdraw_to_socket server (if peer_gone then WithdrawnByPeer else reason) e;
          e = (if server then e else set_status (\<lambda>st. st\<lparr>st_decision := (if peer_gone then D_Timeout else ShmNotReady)\<rparr>) e)
      in watch_path (count_fallback e))"

definition build_leg :: "bool \<Rightarrow> observed \<Rightarrow> path_end \<Rightarrow> path_end" where
  "build_leg server ob e =
     (let e = set_status (\<lambda>st. st\<lparr>st_state := St_Establish\<rparr>) (count_attempt e);
          e = (if server then e\<lparr>pe_signal := path_state_byte ProposeShm\<rparr> else e)
      in if ob_throws ob then establish_failed server (\<not> ob_socket ob) ShmEstablishFailed e
         else e\<lparr>pe_shm_leg := True, pe_phase := P_Establish\<rparr>)"

definition establish :: "bool \<Rightarrow> observed \<Rightarrow> path_end \<Rightarrow> path_end" where
  "establish server ob e =
     (if ob_running ob \<and> \<not> ob_late ob \<and> ob_shm ob
      then watch_path (set_status (\<lambda>st. st\<lparr>st_selected := K_Shm, st_successes := st_successes st + 1\<rparr>)
             (e\<lparr>pe_signal := path_state_byte ConfirmShm, pe_data_plane := False, pe_use_shm := True\<rparr>))
      else if \<not> ob_running ob \<or> ob_late ob \<or> \<not> ob_socket ob
           then establish_failed server (\<not> ob_socket ob) ShmRendezvousTimeout e
      else e)"

definition ser_decide :: "options \<Rightarrow> observed \<Rightarrow> path_end \<Rightarrow> path_end" where
  "ser_decide opts ob e =
     (if op_allow_shm opts \<and> \<not> pe_attempted e
      then let ev = evidence_of opts ob; e = set_status (\<lambda>st. st\<lparr>st_evidence := ev\<rparr>) e
           in if ev_kind ev = 0 then watch_path (set_status (\<lambda>st. st\<lparr>st_decision := NoEvidence\<rparr>) e)
              else if ob_occupied ob
                   then watch_path (count_fallback (count_attempt
                     (set_status (\<lambda>st. st\<lparr>st_decision := ChannelOccupied, st_fallback := ShmChannelOccupied\<rparr>)
                       (e\<lparr>pe_attempted := True, pe_signal := wire_signal_for_fallback ShmChannelOccupied\<rparr>))))
              else build_leg True ob (set_status (\<lambda>st. st\<lparr>st_decision := PeerInPool\<rparr>) (e\<lparr>pe_attempted := True\<rparr>))
      else if \<not> op_allow_shm opts then watch_path (set_status (\<lambda>st. st\<lparr>st_decision := NoEvidence\<rparr>) e)
      else watch_path e)"

definition cli_decide :: "options \<Rightarrow> observed \<Rightarrow> path_end \<Rightarrow> path_end" where
  "cli_decide opts ob e =
     (if op_allow_shm opts \<and> \<not> pe_attempted e
      then let ev = evidence_of opts ob; e = set_status (\<lambda>st. st\<lparr>st_evidence := ev\<rparr>) e
           in if ev_kind ev = 0 then watch_path (set_status (\<lambda>st. st\<lparr>st_decision := NoEvidence\<rparr>) e)
              else (set_status (\<lambda>st. st\<lparr>st_decision := PeerInPool\<rparr>) e)\<lparr>pe_attempted := True, pe_phase := P_Answer\<rparr>
      else if \<not> op_allow_shm opts then watch_path (set_status (\<lambda>st. st\<lparr>st_decision := NoEvidence\<rparr>) e)
      else watch_path e)"

text \<open>A client waits until the server has built the leg or withdraws.\<close>

definition await_answer :: "observed \<Rightarrow> path_end \<Rightarrow> path_end" where
  "await_answer ob e =
     (if \<not> ob_running ob \<or> ob_late ob then watch_path e
      else if ob_signal ob = path_state_byte ProposeShm \<or> ob_signal ob = path_state_byte ConfirmShm then build_leg False ob e
      else case decode_peer_withdraw (ob_signal ob) of
             Some (decision, fallback) \<Rightarrow>
               watch_path (count_fallback (count_attempt
                 (set_status (\<lambda>st. st\<lparr>st_decision := decision, st_fallback := fallback\<rparr>) (e\<lparr>pe_signal := path_state_byte WithdrawToSocket\<rparr>))))
           | None \<Rightarrow> if \<not> ob_socket ob then watch_path e else e)"

text \<open>An established path is given up when the peer is gone, or when the shared memory fails.\<close>

definition patrol :: "bool \<Rightarrow> observed \<Rightarrow> path_end \<Rightarrow> path_end" where
  "patrol server ob e =
     (if \<not> ob_running ob then e\<lparr>pe_phase := P_End\<rparr>
      else if \<not> ob_socket ob
      then (set_status (\<lambda>st. st\<lparr>st_decision := Pending, st_evidence := no_evidence\<rparr>)
             (withdraw_to_socket server WithdrawnByPeer (set_status (\<lambda>st. st\<lparr>st_state := St_Withdraw\<rparr>) e)))
             \<lparr>pe_attempted := False, pe_phase := P_Probe\<rparr>
      else if pe_use_shm e \<and> \<not> (pe_shm_leg e \<and> ob_shm ob)
      then set_status (\<lambda>st. st\<lparr>st_state := St_Active\<rparr>) (count_fallback
             (withdraw_to_socket server RemoteIoFailure (set_status (\<lambda>st. st\<lparr>st_state := St_Withdraw\<rparr>) e)))
      else e)"

definition supervise :: "bool \<Rightarrow> options \<Rightarrow> path_end \<Rightarrow> observed \<Rightarrow> path_end" where
  "supervise server opts e ob =
     (case pe_phase e of
        P_Probe \<Rightarrow> probe ob e
      | P_Decide \<Rightarrow> if server then ser_decide opts ob e else cli_decide opts ob e
      | P_Answer \<Rightarrow> await_answer ob e
      | P_Establish \<Rightarrow> establish server ob e
      | P_Watch \<Rightarrow> patrol server ob e
      | P_End \<Rightarrow> e)"

definition teardown_all :: "int \<Rightarrow> path_end \<Rightarrow> path_end" where
  "teardown_all now e =
     set_status (\<lambda>st. mark_cleanup_done now (st\<lparr>st_state := St_Closed\<rparr>)) (e\<lparr>pe_shm_leg := False, pe_data_plane := False, pe_use_shm := False\<rparr>)"

text \<open>The leg a request goes through, and what the path tells its user.\<close>

datatype leg = Socket_leg | Shm_leg

definition send_leg :: "path_end \<Rightarrow> leg option" where
  "send_leg e = (if pe_use_shm e then (if pe_shm_leg e then Some Shm_leg else None) else Some Socket_leg)"

definition transport_current :: "path_end \<Rightarrow> Kind" where
  "transport_current e = (if pe_use_shm e then K_Shm else K_Socket)"

definition ser_handshake_completed :: "observed \<Rightarrow> path_end \<Rightarrow> bool" where
  "ser_handshake_completed ob e = (if pe_use_shm e \<and> pe_shm_leg e then ob_socket ob \<and> ob_shm ob else ob_socket ob)"

definition cli_handshake_completed :: "observed \<Rightarrow> path_end \<Rightarrow> bool" where
  "cli_handshake_completed ob e = (if pe_use_shm e \<and> pe_shm_leg e then ob_shm ob else ob_socket ob)"

section \<open>Runs of a thread\<close>

text \<open>
  A run starts when the channel is opened and takes one round after the other, whatever each of
  them observes.
\<close>

definition path_start :: "path_end \<Rightarrow> bool" where
  "path_start e \<longleftrightarrow> e = path_init"

definition path_round :: "bool \<Rightarrow> options \<Rightarrow> path_end \<Rightarrow> path_end \<Rightarrow> bool" where
  "path_round server opts e f \<longleftrightarrow> (\<exists>ob. f = supervise server opts e ob)"

text \<open>The one leg in use is there, the status names it, and a switch is only counted once it is decided.\<close>

definition in_flight :: "path_end \<Rightarrow> nat" where
  "in_flight e = of_bool (pe_phase e = P_Establish)"

definition legs_ok :: "path_end \<Rightarrow> bool" where
  "legs_ok e \<longleftrightarrow> pe_use_shm e = (\<not> pe_data_plane e) \<and>
     (pe_use_shm e \<longrightarrow> pe_shm_leg e \<and> (pe_phase e = P_Watch \<or> pe_phase e = P_End)) \<and>
     (pe_shm_leg e \<longleftrightarrow> pe_use_shm e \<or> pe_phase e = P_Establish) \<and>
     st_selected (pe_status e) = transport_current e"

definition counts_ok :: "path_end \<Rightarrow> bool" where
  "counts_ok e \<longleftrightarrow>
     st_attempts (pe_status e) \<le> st_successes (pe_status e) + st_fallbacks (pe_status e) + in_flight e \<and>
     st_successes (pe_status e) + in_flight e \<le> st_attempts (pe_status e) \<and>
     st_fallbacks (pe_status e) + of_bool (pe_use_shm e) + in_flight e \<le> st_attempts (pe_status e)"

definition phase_ok :: "path_end \<Rightarrow> bool" where
  "phase_ok e \<longleftrightarrow>
     (case pe_phase e of
        P_Probe \<Rightarrow> \<not> pe_attempted e \<and> st_state (pe_status e) \<in> {St_Probe, St_Withdraw}
      | P_Decide \<Rightarrow> \<not> pe_attempted e \<and> st_state (pe_status e) = St_Negotiate
      | P_Answer \<Rightarrow> pe_attempted e \<and> st_state (pe_status e) = St_Negotiate
      | P_Establish \<Rightarrow> pe_attempted e \<and> st_state (pe_status e) = St_Establish
      | P_Watch \<Rightarrow> st_state (pe_status e) = St_Active \<and> (pe_use_shm e \<longrightarrow> pe_attempted e)
      | P_End \<Rightarrow> True)"

definition path_inv :: "path_end \<Rightarrow> bool" where
  "path_inv e \<longleftrightarrow> legs_ok e \<and> counts_ok e \<and> phase_ok e"

lemmas path_inv_defs = path_inv_def legs_ok_def counts_ok_def phase_ok_def in_flight_def transport_current_def

lemmas path_step_defs = set_status_def withdraw_to_socket_def watch_path_def count_fallback_def count_attempt_def
  establish_failed_def build_leg_def

lemma path_inv_start: "path_start e \<Longrightarrow> path_inv e"
  by (simp add: path_start_def path_init_def new_status_def path_inv_defs)

lemma probe_inv: "pe_phase e = P_Probe \<Longrightarrow> path_inv e \<Longrightarrow> path_inv (probe ob e)"
  by (auto simp: probe_def path_inv_defs set_status_def Let_def split: if_splits)

lemma ser_decide_inv: "pe_phase e = P_Decide \<Longrightarrow> path_inv e \<Longrightarrow> path_inv (ser_decide opts ob e)"
  by (auto simp: ser_decide_def path_inv_defs path_step_defs Let_def split: if_splits)

lemma cli_decide_inv: "pe_phase e = P_Decide \<Longrightarrow> path_inv e \<Longrightarrow> path_inv (cli_decide opts ob e)"
  by (auto simp: cli_decide_def path_inv_defs path_step_defs Let_def split: if_splits)

lemma await_answer_inv: "pe_phase e = P_Answer \<Longrightarrow> path_inv e \<Longrightarrow> path_inv (await_answer ob e)"
  by (auto simp: await_answer_def path_inv_defs path_step_defs Let_def split: if_splits option.splits)

lemma establish_inv: "pe_phase e = P_Establish \<Longrightarrow> path_inv e \<Longrightarrow> path_inv (establish server ob e)"
  by (cases server) (auto simp: establish_def path_inv_defs path_step_defs Let_def split: if_splits)

lemma patrol_inv: "pe_phase e = P_Watch \<Longrightarrow> path_inv e \<Longrightarrow> path_inv (patrol server ob e)"
  by (auto simp: patrol_def path_inv_defs path_step_defs Let_def split: if_splits)

lemma supervise_inv: "path_inv e \<Longrightarrow> path_inv (supervise server opts e ob)"
  by (cases "pe_phase e"; cases server)
    (simp_all add: supervise_def probe_inv ser_decide_inv cli_decide_inv await_answer_inv establish_inv patrol_inv)

lemma path_inv_round: "path_inv e \<Longrightarrow> path_round server opts e f \<Longrightarrow> path_inv f"
  by (auto simp: path_round_def supervise_inv)

interpretation path: step_invariant path_start "path_round server opts" path_inv for server opts
  by unfold_locales (auto intro: path_inv_start path_inv_round)

text \<open>
  C16. In every state a run reaches a request has a leg to go through and that leg is up, the
  other one is not used, the status names the transport in use, and the counters of switches
  bound each other.
\<close>

theorem path_always_has_leg:
  assumes "reach path_start (path_round server opts) e"
  shows "(send_leg e = Some Shm_leg \<and> pe_shm_leg e \<and> \<not> pe_data_plane e \<and> st_selected (pe_status e) = K_Shm \<or>
          send_leg e = Some Socket_leg \<and> pe_data_plane e \<and> st_selected (pe_status e) = K_Socket) \<and>
         st_successes (pe_status e) + in_flight e \<le> st_attempts (pe_status e) \<and>
         st_fallbacks (pe_status e) + in_flight e \<le> st_attempts (pe_status e) \<and>
         st_attempts (pe_status e) \<le> st_successes (pe_status e) + st_fallbacks (pe_status e) + in_flight e"
proof -
  have I: "legs_ok e" "counts_ok e" using path.reach_inv [OF assms] by (simp_all add: path_inv_def)
  have "send_leg e = Some Shm_leg \<and> pe_shm_leg e \<and> \<not> pe_data_plane e \<and> st_selected (pe_status e) = K_Shm \<or>
        send_leg e = Some Socket_leg \<and> pe_data_plane e \<and> st_selected (pe_status e) = K_Socket"
    using I(1) by (auto simp: legs_ok_def send_leg_def transport_current_def)
  with I(2) show ?thesis by (simp add: counts_ok_def)
qed

text \<open>Two counters of the status are declared and never counted: a refused request leaves no trace in them.\<close>

definition idle_counters :: "path_end \<Rightarrow> nat \<times> nat" where
  "idle_counters e = (st_window (pe_status e), st_dup (pe_status e))"

lemma idle_counters_steps [simp]:
  "idle_counters (watch_path e) = idle_counters e" "idle_counters (count_fallback e) = idle_counters e"
  "idle_counters (count_attempt e) = idle_counters e" "idle_counters (withdraw_to_socket server reason e) = idle_counters e"
  "idle_counters (build_leg server ob e) = idle_counters e" "idle_counters (establish_failed server g reason e) = idle_counters e"
  "idle_counters (probe ob e) = idle_counters e" "idle_counters (patrol server ob e) = idle_counters e"
  by (auto simp: idle_counters_def path_step_defs probe_def patrol_def Let_def)

lemma idle_counters_round: "idle_counters (supervise server opts e ob) = idle_counters e"
  by (cases "pe_phase e")
    (auto simp: supervise_def ser_decide_def cli_decide_def await_answer_def establish_def Let_def
      idle_counters_def path_step_defs probe_def patrol_def split: option.splits)

lemma never_counted: "idle_counters (foldl (supervise server opts) path_init obs) = (0, 0)"
  by (induction obs rule: rev_induct) (simp_all add: idle_counters_round, simp add: idle_counters_def path_init_def new_status_def)

lemma reach_rounds: "reach path_start (path_round server opts) (foldl (supervise server opts) path_init obs)"
proof (induction obs rule: rev_induct)
  case Nil
  show ?case by (auto intro: reach_init simp: path_start_def)
next
  case (snoc ob obs)
  then show ?case by (auto intro: reach_step simp: path_round_def)
qed

text \<open>A server that finds its peer in the pool, builds the leg and switches.\<close>

definition seen :: "bool \<Rightarrow> bool \<Rightarrow> observed" where
  "seen socket shm = \<lparr>ob_running = True, ob_socket = socket, ob_shm = shm, ob_late = False,
     ob_peer = Some \<lparr>ev_kind = kind_code ShmClient, ev_pid = 7, ev_ts = 5\<rparr>, ob_occupied = False, ob_throws = False, ob_signal = 2\<rparr>"

definition switching :: options where
  "switching = \<lparr>op_allow_shm = True, op_force_no_evidence = False\<rparr>"

text \<open>The property at the run of the next theorem: the leg in shared memory is up after three rounds.\<close>

theorem path_always_has_leg_witness:
  "let e = foldl (supervise True switching) path_init [seen True False, seen True False, seen True True]
   in send_leg e = Some Shm_leg \<and> pe_shm_leg e \<and> \<not> pe_data_plane e \<and> st_selected (pe_status e) = K_Shm"
proof -
  define e where "e = foldl (supervise True switching) path_init [seen True False, seen True False, seen True True]"
  have "reach path_start (path_round True switching) e" unfolding e_def by (rule reach_rounds)
  note leg = path_always_has_leg [OF this]
  have "send_leg e = Some Shm_leg" unfolding e_def by code_simp
  with leg show ?thesis unfolding Let_def e_def [symmetric] by simp
qed

text \<open>
  After a switch that fails later the attempt counts as a success and as a fallback: the counters
  no longer add up.
\<close>

theorem switch_counted_twice:
  "let e = foldl (supervise True switching) path_init [seen True False, seen True False, seen True True, seen True False]
   in pe_phase e = P_Watch \<and> \<not> pe_use_shm e \<and> st_attempts (pe_status e) = 1 \<and> st_successes (pe_status e) = 1 \<and> st_fallbacks (pe_status e) = 1"
  by code_simp

text \<open>The client learns the reason of the server.\<close>

lemma withdraw_reason_travels:
  "reason \<in> {ShmEstablishFailed, ShmRendezvousTimeout, ShmChannelOccupied, RemoteIoFailure, WithdrawnByPeer} \<Longrightarrow>
   map_option snd (decode_peer_withdraw (wire_signal_for_fallback reason)) = Some reason"
  by (auto simp: decode_peer_withdraw_def path_state_of_def)

text \<open>Leaving the two phases that wait.\<close>

lemma waiting_is_bounded:
  assumes "ob_late ob" and "pe_phase e = P_Answer \<or> pe_phase e = P_Establish"
  shows "pe_phase (supervise server opts e ob) = P_Watch"
  using assms by (auto simp: supervise_def await_answer_def establish_def path_step_defs Let_def)

end
