(* ===== verification/LocalRegistry.thy ===== *)
theory LocalRegistry
  imports DzFlat
begin

text \<open>
  What the ends of a channel share inside one process: the directory of the queues of local
  subscribers (\<open>src/src/dzIPC/common/local_pub_sub_registry.cc\<close>) and the switches and counters of
  the process (\<open>src/src/dzIPC/common/nodelet_config.cc\<close>).
\<close>

section \<open>The directory\<close>

datatype ChannelKind = ShmPubSub | SocketPubSub | ShmService

record channel_key =
  ck_topic :: string
  ck_domain :: nat
  ck_msg_id :: u32
  ck_kind :: ChannelKind

text \<open>
  Queues are named by numbers; \<open>live q\<close> says that somebody still owns the queue, so that a weak
  pointer to it can be locked. A key that is not in the map has no vector.
\<close>

type_synonym registry = "channel_key \<rightharpoonup> nat list"

definition no_subscribers :: registry where
  "no_subscribers = Map.empty"

definition register_subscriber :: "(nat \<Rightarrow> bool) \<Rightarrow> channel_key \<Rightarrow> nat \<Rightarrow> registry \<Rightarrow> registry" where
  "register_subscriber live key queue reg =
     (let vec = (case reg key of None \<Rightarrow> [] | Some v \<Rightarrow> v);
          reg = reg(key \<mapsto> vec)
      in if \<not> live queue then reg
         else if \<exists>w \<in> set vec. live w \<and> w = queue then reg
         else reg(key \<mapsto> vec @ [queue]))"

definition unregister_subscriber :: "(nat \<Rightarrow> bool) \<Rightarrow> channel_key \<Rightarrow> nat \<Rightarrow> registry \<Rightarrow> registry" where
  "unregister_subscriber live key queue reg =
     (case reg key of
        None \<Rightarrow> reg
      | Some vec \<Rightarrow>
          let vec = filter (\<lambda>w. live w \<and> \<not> (live queue \<and> w = queue)) vec
          in if vec = [] then reg(key := None) else reg(key \<mapsto> vec))"

definition cleanup_expired :: "(nat \<Rightarrow> bool) \<Rightarrow> nat list \<Rightarrow> nat list" where
  "cleanup_expired live vec = filter live vec"

definition subscriber_snapshot :: "(nat \<Rightarrow> bool) \<Rightarrow> channel_key \<Rightarrow> registry \<Rightarrow> nat list \<times> registry" where
  "subscriber_snapshot live key reg =
     (case reg key of
        None \<Rightarrow> ([], reg)
      | Some vec \<Rightarrow>
          let res = filter live vec
          in if \<exists>w \<in> set vec. \<not> live w
             then (let vec = cleanup_expired live vec in (res, if vec = [] then reg(key := None) else reg(key \<mapsto> vec)))
             else (res, reg))"

text \<open>What the directory says: the live queues of a key.\<close>

definition listeners :: "(nat \<Rightarrow> bool) \<Rightarrow> registry \<Rightarrow> channel_key \<Rightarrow> nat list" where
  "listeners live reg key = (case reg key of None \<Rightarrow> [] | Some vec \<Rightarrow> filter live vec)"

definition registry_ok :: "registry \<Rightarrow> bool" where
  "registry_ok reg \<longleftrightarrow> (\<forall>key vec. reg key = Some vec \<longrightarrow> distinct vec)"

lemma registry_ok_empty: "registry_ok no_subscribers"
  by (simp add: registry_ok_def no_subscribers_def)

lemma register_ok: "registry_ok reg \<Longrightarrow> registry_ok (register_subscriber live key q reg)"
  by (auto simp: registry_ok_def register_subscriber_def Let_def split: option.splits)

lemma unregister_ok: "registry_ok reg \<Longrightarrow> registry_ok (unregister_subscriber live key q reg)"
  by (auto simp: registry_ok_def unregister_subscriber_def Let_def split: option.splits if_splits)

lemma snapshot_ok: "registry_ok reg \<Longrightarrow> registry_ok (snd (subscriber_snapshot live key reg))"
  by (auto simp: registry_ok_def subscriber_snapshot_def cleanup_expired_def Let_def split: option.splits if_splits)

lemma listeners_register:
  "listeners live (register_subscriber live key q reg) k =
     (if k = key \<and> live q \<and> q \<notin> set (listeners live reg key) then listeners live reg key @ [q] else listeners live reg k)"
  by (auto simp: listeners_def register_subscriber_def Let_def split: option.splits)

lemma listeners_unregister:
  "live q \<Longrightarrow> listeners live (unregister_subscriber live key q reg) k =
     (if k = key then filter (\<lambda>w. w \<noteq> q) (listeners live reg key) else listeners live reg k)"
  by (auto simp: listeners_def unregister_subscriber_def Let_def filter_empty_conv split: option.splits intro!: filter_cong)

lemma snapshot_listeners: "fst (subscriber_snapshot live key reg) = listeners live reg key"
  by (auto simp: listeners_def subscriber_snapshot_def Let_def split: option.splits)

lemma listeners_snapshot [simp]: "listeners live (snd (subscriber_snapshot live key reg)) k = listeners live reg k"
  by (auto simp: listeners_def subscriber_snapshot_def cleanup_expired_def Let_def filter_empty_conv split: option.splits)

lemma listeners_distinct: "registry_ok reg \<Longrightarrow> distinct (listeners live reg key)"
  by (auto simp: listeners_def registry_ok_def split: option.splits)

section \<open>Switches and counters of the process\<close>

fun rx_index :: "rx_event \<Rightarrow> nat" where
  "rx_index kDzFlatAccepted = 0"
| "rx_index kDzFlatIdSkipped = 1"
| "rx_index kDzFlatHeaderBad = 2"
| "rx_index kDzFlatSchemaDrop = 3"
| "rx_index kTlvAccepted = 4"
| "rx_index kTlvIdSkipped = 5"
| "rx_index kTlvCorruptDrop = 6"
| "rx_index kCount = 7"

record nodelet_config =
  nc_nodelet :: bool
  nc_dzflat :: bool
  nc_published :: u64
  nc_fallback :: u64
  nc_rx :: "u64 list"

definition initial_config :: nodelet_config where
  "initial_config = \<lparr>nc_nodelet = False, nc_dzflat = False, nc_published = 0, nc_fallback = 0, nc_rx = replicate 7 0\<rparr>"

definition EnableDzFlat :: "bool \<Rightarrow> nodelet_config \<Rightarrow> nodelet_config" where
  "EnableDzFlat enabled c = c\<lparr>nc_dzflat := enabled\<rparr>"

definition EnableNodelet :: "bool \<Rightarrow> nodelet_config \<Rightarrow> nodelet_config" where
  "EnableNodelet enabled c = c\<lparr>nc_nodelet := enabled\<rparr>"

definition ResetDzFlatCounters :: "nodelet_config \<Rightarrow> nodelet_config" where
  "ResetDzFlatCounters c = c\<lparr>nc_published := 0, nc_fallback := 0\<rparr>"

definition NoteDzFlatPublish :: "bool \<Rightarrow> nodelet_config \<Rightarrow> nodelet_config" where
  "NoteDzFlatPublish used c = (if used then c\<lparr>nc_published := nc_published c + 1\<rparr> else c\<lparr>nc_fallback := nc_fallback c + 1\<rparr>)"

definition NoteDzFlatRx :: "rx_event \<Rightarrow> nodelet_config \<Rightarrow> nodelet_config" where
  "NoteDzFlatRx ev c =
     (let i = rx_index ev in if i < rx_index kCount then c\<lparr>nc_rx := (nc_rx c)[i := nc_rx c ! i + 1]\<rparr> else c)"

definition ResetDzFlatRxCounters :: "nodelet_config \<Rightarrow> nodelet_config" where
  "ResetDzFlatRxCounters c = c\<lparr>nc_rx := replicate (rx_index kCount) 0\<rparr>"

record rx_stats =
  dzflat_accepted :: u64
  dzflat_id_skipped :: u64
  dzflat_header_bad :: u64
  dzflat_schema_drop :: u64
  tlv_accepted :: u64
  tlv_id_skipped :: u64
  tlv_corrupt_drop :: u64

definition DzFlatRxCounters :: "nodelet_config \<Rightarrow> rx_stats" where
  "DzFlatRxCounters c =
     (let at = (\<lambda>e. nc_rx c ! rx_index e)
      in \<lparr>dzflat_accepted = at kDzFlatAccepted, dzflat_id_skipped = at kDzFlatIdSkipped, dzflat_header_bad = at kDzFlatHeaderBad,
          dzflat_schema_drop = at kDzFlatSchemaDrop, tlv_accepted = at kTlvAccepted, tlv_id_skipped = at kTlvIdSkipped,
          tlv_corrupt_drop = at kTlvCorruptDrop\<rparr>)"

definition defects :: "rx_stats \<Rightarrow> u64" where
  "defects st = dzflat_header_bad st + dzflat_schema_drop st + tlv_corrupt_drop st"

text \<open>Every event has a counter of its own, which it increases by one.\<close>

definition config_ok :: "nodelet_config \<Rightarrow> bool" where
  "config_ok c \<longleftrightarrow> length (nc_rx c) = 7"

lemma rx_index_inj: "rx_index a = rx_index b \<Longrightarrow> a = b"
  by (cases a; cases b; simp)

lemma rx_index_less: "ev \<noteq> kCount \<Longrightarrow> rx_index ev < 7"
  by (cases ev) simp_all

lemma config_ok_steps:
  "config_ok initial_config"
  "config_ok c \<Longrightarrow> config_ok (NoteDzFlatRx ev c)" "config_ok c \<Longrightarrow> config_ok (NoteDzFlatPublish used c)"
  "config_ok c \<Longrightarrow> config_ok (EnableDzFlat b c)" "config_ok c \<Longrightarrow> config_ok (EnableNodelet b c)"
  "config_ok c \<Longrightarrow> config_ok (ResetDzFlatCounters c)" "config_ok (ResetDzFlatRxCounters c)"
  by (simp_all add: config_ok_def initial_config_def NoteDzFlatRx_def NoteDzFlatPublish_def EnableDzFlat_def
      EnableNodelet_def ResetDzFlatCounters_def ResetDzFlatRxCounters_def Let_def)

lemma note_rx:
  assumes "config_ok c" and "ev \<noteq> kCount" and "e \<noteq> kCount"
  shows "nc_rx (NoteDzFlatRx ev c) ! rx_index e = nc_rx c ! rx_index e + (if e = ev then 1 else 0)"
  using assms rx_index_less [of ev] rx_index_less [of e] rx_index_inj [of ev e]
  by (auto simp: NoteDzFlatRx_def config_ok_def Let_def nth_list_update)

lemma sum_list_word_update: "k < length xs \<Longrightarrow> sum_list (xs[k := x]) = sum_list xs + x - (xs ! k :: u64)"
  by (induction xs arbitrary: k) (auto split: nat.splits)

lemma note_rx_sum:
  assumes "config_ok c" and "ev \<noteq> kCount"
  shows "sum_list (nc_rx (NoteDzFlatRx ev c)) = sum_list (nc_rx c) + 1"
proof -
  have "rx_index ev < length (nc_rx c)" using assms rx_index_less by (simp add: config_ok_def)
  then show ?thesis using rx_index_less [OF assms(2)]
    by (simp add: NoteDzFlatRx_def Let_def sum_list_word_update)
qed

end
