(* ===== verification/PubSub.thy ===== *)
theory PubSub
  imports LocalRegistry CircularQueue ChannelLaws
begin

text \<open>
  The publisher and the subscriber of a topic over shared memory (\<open>src/src/dzIPC/shm_pub_sub_ipc.cc\<close>):
  how a message is published (inside the process, as a flat segment or serialised), and how a
  received buffer finds its queue. The handshake that connects them is in \<open>ShmHandshake\<close>.
\<close>

section \<open>Messages and topics\<close>

text \<open>
  The virtual methods of a message type, which the generator writes: its identifier, the hash of its
  layout (zero for a type without one), the size and the writing of a flat segment, the reading
  of one by copy or by adoption, and the paged wire. A reader returns the message read and
  whether it could be read.
\<close>

record 'm msg_class =
  mc_msg_id :: "'m \<Rightarrow> u32"
  mc_set_msg_id :: "u32 \<Rightarrow> 'm \<Rightarrow> 'm"
  mc_hash :: u32
  mc_size :: "'m \<Rightarrow> u32"
  mc_write :: "'m \<Rightarrow> u32 \<Rightarrow> bytes option"
  mc_read :: "'m \<Rightarrow> bytes \<Rightarrow> 'm \<times> bool"
  mc_adopt :: "'m \<Rightarrow> bytes \<Rightarrow> u32 \<Rightarrow> 'm \<times> bool"
  mc_serialize :: "'m \<Rightarrow> bytes"
  mc_deserialize :: "'m \<Rightarrow> bytes \<Rightarrow> 'm \<times> bool"

record 'm topic_data =
  td_topic :: 'm
  td_cache :: 'm
  td_msg_id :: u32

definition TopicData :: "'m msg_class \<Rightarrow> 'm \<Rightarrow> u32 \<Rightarrow> 'm topic_data" where
  "TopicData cls topic i = \<lparr>td_topic = mc_set_msg_id cls i topic, td_cache = mc_set_msg_id cls i topic, td_msg_id = i\<rparr>"

definition td_update :: "'m \<Rightarrow> 'm topic_data \<Rightarrow> 'm topic_data" where
  "td_update other td = td\<lparr>td_topic := other\<rparr>"

definition td_swap :: "'m topic_data \<Rightarrow> 'm \<times> 'm topic_data" where
  "td_swap td = (td_topic td, td\<lparr>td_topic := td_cache td\<rparr>)"

definition td_check_msg_id :: "'m msg_class \<Rightarrow> bytes \<Rightarrow> 'm topic_data \<Rightarrow> bool" where
  "td_check_msg_id cls data td = check_id data (mc_msg_id cls (td_cache td))"

definition td_check_dzflat_msg_id :: "'m msg_class \<Rightarrow> bytes option \<Rightarrow> 'm topic_data \<Rightarrow> bool" where
  "td_check_dzflat_msg_id cls data td = check_dzflat_id (mc_msg_id cls (td_cache td)) data"

text \<open>A sample on loan: the buffer of a flat segment and what its header says.\<close>

record sample =
  sp_buf :: bytes
  sp_msg_id :: u32
  sp_hash :: u32

definition no_sample :: sample where
  "no_sample = \<lparr>sp_buf = [], sp_msg_id = 0, sp_hash = 0\<rparr>"

definition sample_valid :: "sample \<Rightarrow> bool" where
  "sample_valid s \<longleftrightarrow> sp_buf s \<noteq> []"

definition sample_view :: "u32 \<Rightarrow> nat \<Rightarrow> sample \<Rightarrow> dz_reader" where
  "sample_view h root_size s = bind_segment (Some (sp_buf s)) h root_size"

section \<open>The process and its publishers\<close>

text \<open>What the ends in one process share: switches and counters, the directory, and the queues it names.\<close>

record 'm process =
  pr_config :: nodelet_config
  pr_registry :: registry
  pr_queues :: "nat \<Rightarrow> 'm circular_queue"

record publisher =
  pb_topic :: string
  pb_domain :: nat
  pb_key :: channel_key
  pb_size :: nat
  pb_recv :: nat
  pb_consecutive :: nat
  pb_warned :: byte
  pb_channel :: "msg ring chan"

definition kFastPathConfirm :: nat where
  "kFastPathConfirm = 3"

definition no_key :: channel_key where
  "no_key = \<lparr>ck_topic = [], ck_domain = 0, ck_msg_id = 0, ck_kind = ShmPubSub\<rparr>"

definition new_publisher :: "string \<Rightarrow> nat \<Rightarrow> msg ring chan \<Rightarrow> publisher" where
  "new_publisher topic domain ch =
     \<lparr>pb_topic = topic, pb_domain = domain, pb_key = no_key, pb_size = 0, pb_recv = 0, pb_consecutive = 0, pb_warned = 0, pb_channel = ch\<rparr>"

definition recv_count :: "msg ring chan \<Rightarrow> nat" where
  "recv_count ch = unat (conn_count Route (connections (ch_head ch)))"

text \<open>The new message type of a publisher has to be confirmed again.\<close>

definition pub_reset_message :: "publisher \<Rightarrow> publisher" where
  "pub_reset_message p = p\<lparr>pb_consecutive := 0\<rparr>"

section \<open>Publishing a flat segment\<close>

definition try_publish_dzflat :: "(nat \<Rightarrow> msg ring chan \<Rightarrow> msg ring chan) \<Rightarrow> nat \<Rightarrow> u32 \<Rightarrow> 'm msg_class \<Rightarrow> bool \<Rightarrow> 'm \<Rightarrow> msg ring chan \<Rightarrow>
    (bool \<times> msg ring chan) option" where
  "try_publish_dzflat env n cc cls enabled m ch =
     (if \<not> enabled \<or> mc_hash cls = 0 then Some (False, ch)
      else if recv_count ch = 0 then Some (False, ch)
      else let need = mc_size cls m
           in if need = 0 then Some (False, ch)
              else do {
                (lo, ch) \<leftarrow> loan_chunk Route (ucast need) ch;
                case lo of
                  None \<Rightarrow> Some (False, ch)
                | Some lo \<Rightarrow>
                    (case mc_write cls m (ucast (loan_size lo)) of
                       None \<Rightarrow> do { ch \<leftarrow> discard_loan lo ch; Some (False, ch) }
                     | Some bs \<Rightarrow>
                         do {
                           st \<leftarrow> write_chunk (calc_chunk_size (loan_size lo)) (loan_id lo) bs (ch_store ch);
                           publish_loan env n cc lo (ch\<lparr>ch_store := st\<rparr>)
                         })
              })"

definition publish_for_sniffer :: "(nat \<Rightarrow> msg ring chan \<Rightarrow> msg ring chan) \<Rightarrow> nat \<Rightarrow> u32 \<Rightarrow> 'm msg_class \<Rightarrow> 'm \<Rightarrow>
    'm process \<times> publisher \<Rightarrow> (bool \<times> 'm process \<times> publisher) option" where
  "publish_for_sniffer env n cc cls m = (\<lambda>(pr, p).
     do {
       (sent, ch) \<leftarrow> try_publish_dzflat env n cc cls (nc_dzflat (pr_config pr)) m (pb_channel p);
       if sent then Some (True, pr\<lparr>pr_config := NoteDzFlatPublish True (pr_config pr)\<rparr>, p\<lparr>pb_channel := ch\<rparr>)
       else do {
         (ok, ch) \<leftarrow> no_member_try_send env n cc (mc_serialize cls m) ch;
         Some (ok, pr\<lparr>pr_config := NoteDzFlatPublish False (pr_config pr)\<rparr>, p\<lparr>pb_channel := ch\<rparr>)
       }
     })"

definition publish_blocking :: "(nat \<Rightarrow> msg ring chan \<Rightarrow> msg ring chan) \<Rightarrow> nat \<Rightarrow> nat \<Rightarrow> u32 \<Rightarrow> 'm msg_class \<Rightarrow> 'm \<Rightarrow>
    'm process \<times> publisher \<Rightarrow> (bool \<times> 'm process \<times> publisher) option" where
  "publish_blocking env n0 n cc cls m = (\<lambda>(pr, p).
     do {
       (sent, ch) \<leftarrow> try_publish_dzflat env n cc cls (nc_dzflat (pr_config pr)) m (pb_channel p);
       if sent then Some (True, pr\<lparr>pr_config := NoteDzFlatPublish True (pr_config pr)\<rparr>, p\<lparr>pb_channel := ch\<rparr>)
       else do {
         (ok, ch) \<leftarrow> (if recv_count ch = 0 then no_member_try_send env n0 cc (mc_serialize cls m) ch
                     else route_try_send env n cc (mc_serialize cls m) ch);
         Some (ok, pr\<lparr>pr_config := NoteDzFlatPublish False (pr_config pr)\<rparr>, p\<lparr>pb_channel := ch\<rparr>)
       }
     })"

section \<open>Publishing inside the process\<close>

text \<open>The gate: three times in a row the same key, as many queues in the process, and as many readers of the ring as queues.\<close>

definition fast_path_gate :: "channel_key \<Rightarrow> nat \<Rightarrow> nat \<Rightarrow> publisher \<Rightarrow> bool \<times> publisher" where
  "fast_path_gate key found conns p =
     (let p = (if key \<noteq> pb_key p \<or> found \<noteq> pb_size p \<or> conns \<noteq> pb_recv p
               then p\<lparr>pb_consecutive := 0, pb_key := key, pb_size := found, pb_recv := conns\<rparr> else p)
      in if found \<noteq> 0 \<and> conns = found
         then let c = pb_consecutive p + 1 in (kFastPathConfirm \<le> c, p\<lparr>pb_consecutive := c\<rparr>)
         else (False, p\<lparr>pb_consecutive := 0\<rparr>))"

definition fanout :: "nat \<Rightarrow> 'm \<Rightarrow> nat list \<Rightarrow> (nat \<Rightarrow> 'm circular_queue) \<Rightarrow> (nat \<Rightarrow> 'm circular_queue) option" where
  "fanout n m qs queues = foldM (\<lambda>queues q. do { r \<leftarrow> push_owned n m (queues q); Some (queues(q := r)) }) queues qs"

definition warn_fallback :: "nat \<Rightarrow> nat \<Rightarrow> publisher \<Rightarrow> publisher" where
  "warn_fallback found conns p =
     (if found = 0 then p\<lparr>pb_warned := pb_warned p OR 1\<rparr>
      else if conns \<noteq> found then p\<lparr>pb_warned := pb_warned p OR 2\<rparr> else p)"

definition publish_best_effort :: "(nat \<Rightarrow> msg ring chan \<Rightarrow> msg ring chan) \<Rightarrow> nat \<Rightarrow> nat \<Rightarrow> u32 \<Rightarrow> 'm msg_class \<Rightarrow> (nat \<Rightarrow> bool) \<Rightarrow> 'm \<Rightarrow>
    'm process \<times> publisher \<Rightarrow> (bool \<times> 'm process \<times> publisher) option" where
  "publish_best_effort env n k cc cls live m = (\<lambda>(pr, p).
     if \<not> nc_nodelet (pr_config pr) then publish_for_sniffer env n cc cls m (pr, p)
     else let key = \<lparr>ck_topic = pb_topic p, ck_domain = pb_domain p, ck_msg_id = mc_msg_id cls m, ck_kind = ShmPubSub\<rparr>;
              (qs, reg) = subscriber_snapshot live key (pr_registry pr);
              conns = recv_count (pb_channel p);
              (fast, p) = fast_path_gate key (length qs) conns p;
              pr = pr\<lparr>pr_registry := reg\<rparr>
          in if fast
             then do { queues \<leftarrow> fanout k m qs (pr_queues pr); Some (True, pr\<lparr>pr_queues := queues\<rparr>, p) }
             else publish_for_sniffer env n cc cls m (pr, warn_fallback (length qs) conns p))"

definition shm_publish :: "(nat \<Rightarrow> msg ring chan \<Rightarrow> msg ring chan) \<Rightarrow> nat \<Rightarrow> nat \<Rightarrow> u32 \<Rightarrow> 'm msg_class \<Rightarrow> (nat \<Rightarrow> bool) \<Rightarrow> 'm \<Rightarrow>
    'm process \<times> publisher \<Rightarrow> (bool \<times> 'm process \<times> publisher) option" where
  "shm_publish = publish_best_effort"

section \<open>The subscriber\<close>

text \<open>\<open>se_queue\<close> is the number of the queue of messages, which publishers of the process may fill as well.\<close>

record 'm sub_end =
  se_topic :: string
  se_domain :: nat
  se_template :: "'m topic_data"
  se_msg_id :: u32
  se_registered :: bool
  se_queue :: nat
  se_views :: "sample circular_queue"

definition sub_key :: "'m sub_end \<Rightarrow> u32 \<Rightarrow> channel_key" where
  "sub_key s i = \<lparr>ck_topic = se_topic s, ck_domain = se_domain s, ck_msg_id = i, ck_kind = ShmPubSub\<rparr>"

definition new_sub :: "'m msg_class \<Rightarrow> 'm topic_data \<Rightarrow> string \<Rightarrow> nat \<Rightarrow> nat \<Rightarrow> nat \<Rightarrow> 'm process \<Rightarrow> 'm sub_end \<times> 'm process" where
  "new_sub cls td topic domain c q pr =
     (\<lparr>se_topic = topic, se_domain = domain, se_template = td, se_msg_id = mc_msg_id cls (td_topic td), se_registered = False,
       se_queue = q, se_views = CircularQueue c\<rparr>,
      pr\<lparr>pr_queues := (pr_queues pr)(q := CircularQueue c)\<rparr>)"

definition sub_init :: "(nat \<Rightarrow> bool) \<Rightarrow> 'm sub_end \<times> 'm process \<Rightarrow> 'm sub_end \<times> 'm process" where
  "sub_init live = (\<lambda>(s, pr).
     if se_registered s then (s, pr)
     else (s\<lparr>se_registered := True\<rparr>,
           pr\<lparr>pr_registry := register_subscriber live (sub_key s (se_msg_id s)) (se_queue s) (pr_registry pr)\<rparr>))"

definition sub_reset_message :: "'m msg_class \<Rightarrow> (nat \<Rightarrow> bool) \<Rightarrow> 'm topic_data \<Rightarrow> 'm sub_end \<times> 'm process \<Rightarrow> 'm sub_end \<times> 'm process" where
  "sub_reset_message cls live td = (\<lambda>(s, pr).
     let i = mc_msg_id cls (td_topic td);
         s' = s\<lparr>se_template := td, se_msg_id := i\<rparr>
     in if se_registered s \<and> se_msg_id s \<noteq> i
        then (s', pr\<lparr>pr_registry := register_subscriber live (sub_key s i) (se_queue s)
                       (unregister_subscriber live (sub_key s (se_msg_id s)) (se_queue s) (pr_registry pr))\<rparr>)
        else (s', pr))"

definition sub_close :: "(nat \<Rightarrow> bool) \<Rightarrow> 'm sub_end \<times> 'm process \<Rightarrow> 'm sub_end \<times> 'm process" where
  "sub_close live = (\<lambda>(s, pr).
     if se_registered s
     then (s\<lparr>se_registered := False\<rparr>,
           pr\<lparr>pr_registry := unregister_subscriber live (sub_key s (se_msg_id s)) (se_queue s) (pr_registry pr)\<rparr>)
     else (s, pr))"

text \<open>Where a received buffer goes, and what is counted.\<close>

datatype 'm buffer_route = Drop | View sample | Own 'm

definition dispatch :: "'m msg_class \<Rightarrow> 'm sub_end \<Rightarrow> bytes \<Rightarrow> 'm buffer_route \<times> rx_event" where
  "dispatch cls s raw =
     (let h = header_of raw
      in if looks_like_dzflat (Some raw)
         then if mc_hash cls \<noteq> 0
              then if dzflat_peek_msg_id (Some raw) \<noteq> Some (se_msg_id s) then (Drop, kDzFlatIdSkipped)
                   else if sh_schema_hash h \<noteq> mc_hash cls then (Drop, kDzFlatSchemaDrop)
                   else (View \<lparr>sp_buf = raw, sp_msg_id = se_msg_id s, sp_hash = mc_hash cls\<rparr>, kDzFlatAccepted)
              else if dzflat_peek_msg_id (Some raw) \<noteq> Some (se_msg_id s) then (Drop, kDzFlatIdSkipped)
              else let (m, ok) = mc_adopt cls (td_topic (se_template s)) raw (sh_schema_hash h)
                   in (if ok then Own m else Drop, kDzFlatAccepted)
         else if has_dzflat_magic (Some raw) then (Drop, kDzFlatHeaderBad)
         else let (m, ok, ev) = AcceptWire (mc_read cls) (mc_deserialize cls) raw (td_msg_id (se_template s)) (td_topic (se_template s))
              in (if ok then Own m else Drop, ev))"

definition sub_receive :: "'m msg_class \<Rightarrow> nat \<Rightarrow> bytes \<Rightarrow> 'm sub_end \<times> 'm process \<Rightarrow> ('m sub_end \<times> 'm process) option" where
  "sub_receive cls k raw = (\<lambda>(s, pr).
     if raw = [] then Some (s, pr)
     else let (d, ev) = dispatch cls s raw;
              pr = pr\<lparr>pr_config := NoteDzFlatRx ev (pr_config pr)\<rparr>
          in case d of
               Drop \<Rightarrow> Some (s, pr)
             | View sp \<Rightarrow> do { vs \<leftarrow> push_owned k sp (se_views s); Some (s\<lparr>se_views := vs\<rparr>, pr) }
             | Own m \<Rightarrow>
                 do { q \<leftarrow> push_owned k m (pr_queues pr (se_queue s)); Some (s, pr\<lparr>pr_queues := (pr_queues pr)(se_queue s := q)\<rparr>) })"

text \<open>Taking a sample or a message; \<open>PopWaits\<close> is a wait that does not end, or ends with its time.\<close>

definition get_view :: "nat \<Rightarrow> 'm sub_end \<Rightarrow> (sample option popped \<times> 'm sub_end) option" where
  "get_view k s = do { (r, vs) \<leftarrow> pop k (se_views s); Some (r, s\<lparr>se_views := vs\<rparr>) }"

definition try_get_view :: "nat \<Rightarrow> 'm sub_end \<Rightarrow> (sample option \<times> 'm sub_end) option" where
  "try_get_view k s =
     do { (r, vs) \<leftarrow> try_dequeue k (se_views s); Some (case r of None \<Rightarrow> None | Some sp \<Rightarrow> sp, s\<lparr>se_views := vs\<rparr>) }"

definition get_clone :: "nat \<Rightarrow> 'm sub_end \<times> 'm process \<Rightarrow> ('m option popped \<times> 'm process) option" where
  "get_clone k = (\<lambda>(s, pr).
     do { (r, q) \<leftarrow> pop k (pr_queues pr (se_queue s)); Some (r, pr\<lparr>pr_queues := (pr_queues pr)(se_queue s := q)\<rparr>) })"

definition try_get_clone :: "nat \<Rightarrow> 'm topic_data \<Rightarrow> 'm sub_end \<times> 'm process \<Rightarrow> (bool \<times> 'm topic_data \<times> 'm process) option" where
  "try_get_clone k td = (\<lambda>(s, pr).
     do {
       (r, q) \<leftarrow> try_dequeue k (pr_queues pr (se_queue s));
       let pr = pr\<lparr>pr_queues := (pr_queues pr)(se_queue s := q)\<rparr>;
       Some (case r of Some (Some m) \<Rightarrow> (True, td_update m td, pr) | _ \<Rightarrow> (False, td, pr))
     })"

end
