(* ===== verification/ShmService.thy ===== *)
theory ShmService
  imports ShmHandshake PubSub
begin

text \<open>
  A service over shared memory (\<open>src/src/dzIPC/shm_ser_cli_ipc.cc\<close>): the handshake of the server and its
  clients, requests inside the process, and requests over the two rings of the service.
\<close>

section \<open>Requests and responses\<close>

record 'm service_data =
  sd_request :: 'm
  sd_response :: 'm
  sd_req_sample :: "sample option"
  sd_resp_sample :: "sample option"
  sd_msg_id :: u32

definition ServiceData :: "'m msg_class \<Rightarrow> 'm msg_class \<Rightarrow> 'm \<Rightarrow> 'm \<Rightarrow> u32 \<Rightarrow> 'm service_data" where
  "ServiceData req resp a b i =
     \<lparr>sd_request = mc_set_msg_id req i a, sd_response = mc_set_msg_id resp i b, sd_req_sample = None, sd_resp_sample = None, sd_msg_id = i\<rparr>"

text \<open>A copy has no samples: they cannot be copied.\<close>

definition sd_clone :: "'m service_data \<Rightarrow> 'm service_data" where
  "sd_clone sd = sd\<lparr>sd_req_sample := None, sd_resp_sample := None\<rparr>"

definition request_is_view :: "'m service_data \<Rightarrow> bool" where
  "request_is_view sd \<longleftrightarrow> sd_req_sample sd \<noteq> None"

definition response_is_view :: "'m service_data \<Rightarrow> bool" where
  "response_is_view sd \<longleftrightarrow> sd_resp_sample sd \<noteq> None"

definition response_view :: "u32 \<Rightarrow> nat \<Rightarrow> 'm service_data \<Rightarrow> dz_reader" where
  "response_view h root_size sd = (case sd_resp_sample sd of None \<Rightarrow> null_reader | Some s \<Rightarrow> sample_view h root_size s)"

definition owned_copy :: "'m msg_class \<Rightarrow> 'm \<Rightarrow> sample option \<Rightarrow> 'm" where
  "owned_copy cls m s = (case s of None \<Rightarrow> m | Some s \<Rightarrow> fst (mc_read cls m (sp_buf s)))"

definition response_owned_copy :: "'m msg_class \<Rightarrow> 'm service_data \<Rightarrow> 'm" where
  "response_owned_copy cls sd = owned_copy cls (sd_response sd) (sd_resp_sample sd)"

section \<open>The handshake\<close>

text \<open>What the processes share: the control plane and the connections of the rings of requests and of responses.\<close>

record shm_service =
  sv_ctl :: topic_control
  sv_req :: conn_head
  sv_resp :: conn_head

definition ser_init :: "(nat \<Rightarrow> topic_control \<Rightarrow> topic_control) \<Rightarrow> nat \<Rightarrow> int \<Rightarrow> int \<Rightarrow> topic_control \<Rightarrow> shm_service" where
  "ser_init env polls pid now c =
     (let (g, c) = begin_rebuild env polls pid now now c
      in \<lparr>sv_ctl = set_ready now c, sv_req = snd (connect_receiver Server new_head), sv_resp = snd (connect_sender Server new_head)\<rparr>)"

definition ser_round :: "int \<Rightarrow> shm_service \<Rightarrow> bool \<times> shm_service" where
  "ser_round now v =
     (let c = plane_heartbeat now (sv_ctl v);
          (stale, c) = collect_stale_peers now kPeerDeadTimeoutNs c;
          v = v\<lparr>sv_ctl := c\<rparr>;
          v = (if stale \<noteq> 0 then v\<lparr>sv_resp := snd (disconnect_receiver Server stale (sv_resp v))\<rparr> else v)
      in (0 < tc_peer_count c, v))"

definition ser_stop :: "int \<Rightarrow> shm_service \<Rightarrow> shm_service" where
  "ser_stop now v = v\<lparr>sv_ctl := set_stopping now (sv_ctl v)\<rparr>"

text \<open>A client: what it is attached to, its reading connection (0 when it has none), and whether it is the sender.\<close>

record client_peer =
  cp_generation :: u32
  cp_registered :: bool
  cp_slot :: int
  cp_done :: bool
  cp_cc :: u32
  cp_sending :: bool

definition new_client :: client_peer where
  "new_client = \<lparr>cp_generation = 0, cp_registered = False, cp_slot = - 1, cp_done = False, cp_cc = 0, cp_sending = False\<rparr>"

definition cli_unregister :: "client_peer \<Rightarrow> topic_control \<Rightarrow> client_peer \<times> topic_control" where
  "cli_unregister b c =
     (if cp_registered b
      then (b\<lparr>cp_slot := - 1, cp_registered := False\<rparr>, release_peer_slot (cp_slot b) (remove_peer (cp_generation b) c))
      else (b, c))"

text \<open>Releasing the channels: the reader disconnects if it is connected, the sender gives up its flag.\<close>

definition cli_release :: "client_peer \<Rightarrow> shm_service \<Rightarrow> client_peer \<times> shm_service" where
  "cli_release b v =
     (let resp = (if head_connected Server (cp_cc b) (connections (sv_resp v)) then snd (disconnect_receiver Server (cp_cc b) (sv_resp v)) else sv_resp v);
          req = (if cp_sending b then disconnect_sender Server (sv_req v) else sv_req v)
      in (b\<lparr>cp_cc := 0, cp_sending := False\<rparr>, v\<lparr>sv_req := req, sv_resp := resp\<rparr>))"

text \<open>
  Attaching opens the rings of the new generation; those of the old one are other segments. The
  first component says whether the round goes on to the heartbeat.
\<close>

definition cli_attach :: "int \<Rightarrow> int \<Rightarrow> client_peer \<Rightarrow> shm_service \<Rightarrow> bool \<times> client_peer \<times> shm_service" where
  "cli_attach pid now b v =
     (let (b, c) = cli_unregister b (sv_ctl v);
          g = tc_generation c;
          (cc, resp) = connect_receiver Server (sv_resp v);
          (snd_ok, req) = connect_sender Server (sv_req v);
          b = b\<lparr>cp_cc := cc, cp_sending := snd_ok, cp_generation := g\<rparr>;
          v = \<lparr>sv_ctl = c, sv_req = req, sv_resp = resp\<rparr>;
          (ok, c) = add_peer g c
      in if \<not> ok then (let (b, v) = cli_release b v in (False, b, v))
         else let (i, c) = acquire_peer_slot pid now g cc c
              in (True, b\<lparr>cp_registered := True, cp_slot := i, cp_done := True\<rparr>, v\<lparr>sv_ctl := c\<rparr>))"

definition cli_detach :: "client_peer \<Rightarrow> shm_service \<Rightarrow> client_peer \<times> shm_service" where
  "cli_detach b v =
     (let (b, c) = cli_unregister b (sv_ctl v) in cli_release (b\<lparr>cp_done := False\<rparr>) (v\<lparr>sv_ctl := c\<rparr>))"

definition cli_beat :: "int \<Rightarrow> client_peer \<Rightarrow> shm_service \<Rightarrow> shm_service" where
  "cli_beat now b v = v\<lparr>sv_ctl := peer_heartbeat now (cp_slot b) (sv_ctl v)\<rparr>"

definition cli_round :: "int \<Rightarrow> int \<Rightarrow> client_peer \<Rightarrow> shm_service \<Rightarrow> client_peer \<times> shm_service" where
  "cli_round pid now b v =
     (let c = sv_ctl v
      in if tc_state c = state_code TS_Ready \<and> tc_generation c \<noteq> 0
         then if \<not> cp_done b \<or> cp_generation b \<noteq> tc_generation c
              then let (ok, b, v) = cli_attach pid now b v in (b, if ok then cli_beat now b v else v)
              else (b, cli_beat now b v)
         else let (b, v) = (if cp_done b then cli_detach b v else (b, v)) in (b, cli_beat now b v))"

definition cli_leave :: "client_peer \<Rightarrow> shm_service \<Rightarrow> client_peer \<times> shm_service" where
  "cli_leave b v =
     (let c = (if cp_registered b then remove_peer (cp_generation b) (sv_ctl v) else sv_ctl v);
          c = release_peer_slot (cp_slot b) c
      in cli_release (b\<lparr>cp_slot := - 1\<rparr>) (v\<lparr>sv_ctl := c\<rparr>))"

section \<open>One buffer\<close>

datatype classified = Borrowed sample | Materialise | Rejected

definition classify_received :: "'m msg_class \<Rightarrow> 'm \<Rightarrow> bytes \<Rightarrow> nodelet_config \<Rightarrow> classified \<times> nodelet_config" where
  "classify_received cls tpl raw cfg =
     (if \<not> looks_like_dzflat (Some raw) then (Materialise, cfg)
      else if mc_hash cls = 0 then (Materialise, cfg)
      else if dzflat_peek_msg_id (Some raw) \<noteq> Some (mc_msg_id cls tpl) then (Rejected, NoteDzFlatRx kDzFlatIdSkipped cfg)
      else let h = sh_schema_hash (header_of raw)
           in if h \<noteq> mc_hash cls then (Rejected, NoteDzFlatRx kDzFlatSchemaDrop cfg)
              else (Borrowed \<lparr>sp_buf = raw, sp_msg_id = mc_msg_id cls tpl, sp_hash = h\<rparr>, NoteDzFlatRx kDzFlatAccepted cfg))"

definition accept_wire :: "'m msg_class \<Rightarrow> bytes \<Rightarrow> 'm \<Rightarrow> nodelet_config \<Rightarrow> 'm \<times> bool \<times> nodelet_config" where
  "accept_wire cls raw target cfg =
     (let (m, ok, ev) = AcceptWire (mc_read cls) (mc_deserialize cls) raw (mc_msg_id cls target) target
      in (m, ok, NoteDzFlatRx ev cfg))"

text \<open>The two in a row: the sample, the message after the attempt, and whether the buffer was taken.\<close>

definition take_wire :: "'m msg_class \<Rightarrow> bytes \<Rightarrow> 'm \<Rightarrow> nodelet_config \<Rightarrow> sample option \<times> 'm \<times> bool \<times> nodelet_config" where
  "take_wire cls raw target cfg =
     (case classify_received cls target raw cfg of
        (Borrowed s, cfg) \<Rightarrow> (Some s, target, True, cfg)
      | (Materialise, cfg) \<Rightarrow> (let (m, ok, cfg) = accept_wire cls raw target cfg in (None, m, ok, cfg))
      | (Rejected, cfg) \<Rightarrow> (None, target, False, cfg))"

section \<open>Sending over a ring of the service\<close>

definition server_loan_push :: "nat \<Rightarrow> u32 \<Rightarrow> loan \<Rightarrow> msg uring chan \<Rightarrow> (bool \<times> msg uring chan) option" where
  "server_loan_push n cc lo ch =
     (let i = ch_acc ch
      in do {
           (ok, ch) \<leftarrow> wait_push (\<lambda>_ ch. ch) n (server_push cc i (ucast (loan_size lo) - of_nat data_length, Ref (loan_id lo))) (ch\<lparr>ch_acc := i + 1\<rparr>);
           if ok then Some (True, ch)
           else let (forced, h) = uni_force_push (ch_head ch)
                in do { ch \<leftarrow> discard_loan lo (ch\<lparr>ch_head := h\<rparr>); Some (forced, ch) }
         })"

definition try_send_dzflat :: "nat \<Rightarrow> u32 \<Rightarrow> 'm msg_class \<Rightarrow> nodelet_config \<Rightarrow> 'm \<Rightarrow> msg uring chan \<Rightarrow>
    (bool \<times> nodelet_config \<times> msg uring chan) option" where
  "try_send_dzflat n cc cls cfg m ch =
     (let fails = (\<lambda>ch. Some (False, NoteDzFlatPublish False cfg, ch))
      in if \<not> nc_dzflat cfg \<or> mc_hash cls = 0 then fails ch
         else if conn_count Server (connections (ch_head ch)) = 0 then fails ch
         else let need = mc_size cls m
              in if need = 0 then fails ch
                 else do {
                   (lo, ch) \<leftarrow> loan_chunk Server (ucast need) ch;
                   case lo of
                     None \<Rightarrow> fails ch
                   | Some lo \<Rightarrow>
                       (case mc_write cls m (ucast (loan_size lo)) of
                          None \<Rightarrow> do { ch \<leftarrow> discard_loan lo ch; fails ch }
                        | Some bs \<Rightarrow>
                            do {
                              st \<leftarrow> write_chunk (calc_chunk_size (loan_size lo)) (loan_id lo) bs (ch_store ch);
                              (ok, ch) \<leftarrow> server_loan_push n cc lo (ch\<lparr>ch_store := st\<rparr>);
                              Some (ok, NoteDzFlatPublish ok cfg, ch)
                            })
                 })"

text \<open>Serialised messages are tried eleven times.\<close>

definition kSendRetries :: nat where
  "kSendRetries = 10"

primrec send_retry :: "nat \<Rightarrow> (nat \<Rightarrow> msg uring chan \<Rightarrow> msg uring chan) \<Rightarrow> nat \<Rightarrow> u32 \<Rightarrow> bytes \<Rightarrow> msg uring chan \<Rightarrow> (bool \<times> msg uring chan) option" where
  "send_retry 0 env n cc data ch = server_try_send env n cc data ch"
| "send_retry (Suc k) env n cc data ch =
     do { (ok, ch) \<leftarrow> server_try_send env n cc data ch; if ok then Some (True, ch) else send_retry k env n cc data ch }"

definition send_message :: "(nat \<Rightarrow> msg uring chan \<Rightarrow> msg uring chan) \<Rightarrow> nat \<Rightarrow> u32 \<Rightarrow> 'm msg_class \<Rightarrow> nodelet_config \<Rightarrow> 'm \<Rightarrow> msg uring chan \<Rightarrow>
    (bool \<times> nodelet_config \<times> msg uring chan) option" where
  "send_message env n cc cls cfg m ch =
     do {
       (sent, cfg, ch) \<leftarrow> try_send_dzflat 0 cc cls cfg m ch;
       if sent then Some (True, cfg, ch)
       else do { (ok, ch) \<leftarrow> send_retry kSendRetries env n cc (mc_serialize cls m) ch; Some (ok, cfg, ch) }
     }"

end
