(* ===== verification/PubSubLaws.thy ===== *)
theory PubSubLaws
  imports PubSub
begin

text \<open>
  Messages inside a process reach every queue of the topic once, when the gate of the fast path
  opens, what a received buffer is counted as, and the way of a flat segment from the publisher to
  the subscriber.
\<close>

section \<open>The gate\<close>

text \<open>What a publisher observes: the key of the message, the queues in the process, the readers of the ring.\<close>

type_synonym observation = "channel_key \<times> nat \<times> nat"

definition all_local :: "observation \<Rightarrow> bool" where
  "all_local ob \<longleftrightarrow> fst (snd ob) \<noteq> 0 \<and> snd (snd ob) = fst (snd ob)"

definition gate :: "observation \<Rightarrow> publisher \<Rightarrow> bool \<times> publisher" where
  "gate ob p = fast_path_gate (fst ob) (fst (snd ob)) (snd (snd ob)) p"

definition gate_run :: "observation list \<Rightarrow> publisher \<Rightarrow> publisher" where
  "gate_run obs p = fold (\<lambda>ob p. snd (gate ob p)) obs p"

text \<open>How many of the last observations are the same and have all readers in the process.\<close>

fun steady :: "observation list \<Rightarrow> nat" where
  "steady [] = 0"
| "steady (ob # obs) = (if all_local ob then length (takeWhile (\<lambda>x. x = ob) (ob # obs)) else 0)"

lemma gate_step:
  "gate ob p =
     (let c = (if ob = (pb_key p, pb_size p, pb_recv p) then pb_consecutive p else 0)
      in if all_local ob then (3 \<le> c + 1, p\<lparr>pb_key := fst ob, pb_size := fst (snd ob), pb_recv := snd (snd ob), pb_consecutive := c + 1\<rparr>)
         else (False, p\<lparr>pb_key := fst ob, pb_size := fst (snd ob), pb_recv := snd (snd ob), pb_consecutive := 0\<rparr>))"
  by (cases ob) (auto simp: gate_def fast_path_gate_def all_local_def kFastPathConfirm_def Let_def)

lemma steady_Cons:
  "steady (ob # obs) = (if all_local ob then (if obs \<noteq> [] \<and> hd obs = ob then steady obs + 1 else 1) else 0)"
  by (cases obs) auto

lemma gate_run_fields:
  assumes "pb_consecutive p = 0"
  shows "pb_consecutive (gate_run obs p) = steady (rev obs) \<and>
    (obs \<noteq> [] \<longrightarrow> last obs = (pb_key (gate_run obs p), pb_size (gate_run obs p), pb_recv (gate_run obs p)))"
proof (induction obs rule: rev_induct)
  case Nil
  then show ?case using assms by (simp add: gate_run_def)
next
  case (snoc ob obs)
  let ?p = "gate_run obs p"
  have run: "gate_run (obs @ [ob]) p = snd (gate ob ?p)" by (simp add: gate_run_def)
  have zero: "obs = [] \<Longrightarrow> pb_consecutive ?p = 0" using assms by (simp add: gate_run_def)
  have hd: "obs \<noteq> [] \<Longrightarrow> hd (rev obs) = (pb_key ?p, pb_size ?p, pb_recv ?p)" using snoc by (simp add: hd_rev)
  show ?case
  proof (cases "obs = []")
    case True
    then show ?thesis unfolding run gate_step using zero by (cases ob) (auto simp: Let_def)
  next
    case False
    then show ?thesis unfolding run gate_step using snoc hd
      by (cases ob) (auto simp: Let_def steady_Cons simp del: steady.simps(2))
  qed
qed

text \<open>
  The gate opens exactly when the message and the two before it were published with the same
  key and found the same number of queues in the process and of readers of the ring, at least one
  and as many of the one as of the other.
\<close>

theorem gate_exact:
  assumes "pb_consecutive p = 0"
  shows "fst (gate ob (gate_run obs p)) \<longleftrightarrow>
    all_local ob \<and> 2 \<le> length obs \<and> drop (length obs - 2) obs = [ob, ob]"
proof -
  let ?p = "gate_run obs p"
  have c: "fst (gate ob ?p) \<longleftrightarrow> 3 \<le> steady (ob # rev obs)"
  proof -
    have "pb_consecutive (gate_run (obs @ [ob]) p) = steady (ob # rev obs)"
      using gate_run_fields [OF assms, of "obs @ [ob]"] by simp
    moreover have "gate_run (obs @ [ob]) p = snd (gate ob ?p)" by (simp add: gate_run_def)
    ultimately show ?thesis unfolding gate_step by (auto simp: Let_def)
  qed
  have "3 \<le> steady (ob # xs) \<longleftrightarrow> all_local ob \<and> take 2 xs = [ob, ob]" for xs
    by (cases xs; cases "tl xs") (auto simp: numeral_2_eq_2)
  then have "fst (gate ob ?p) \<longleftrightarrow> all_local ob \<and> take 2 (rev obs) = [ob, ob]" using c by simp
  moreover have "take 2 (rev obs) = [ob, ob] \<longleftrightarrow> 2 \<le> length obs \<and> drop (length obs - 2) obs = [ob, ob]"
  proof -
    have "take 2 (rev obs) = rev (drop (length obs - 2) obs)" by (simp add: take_rev)
    moreover have "rev ys = [ob, ob] \<longleftrightarrow> ys = [ob, ob]" for ys using rev_swap [of ys "[ob, ob]"] by simp
    moreover have "drop (length obs - 2) obs = [ob, ob] \<Longrightarrow> 2 \<le> length obs"
      using length_drop [of "length obs - 2" obs] by auto
    ultimately show ?thesis by auto
  qed
  ultimately show ?thesis by simp
qed

definition topic_key :: channel_key where
  "topic_key = \<lparr>ck_topic = ''t'', ck_domain = 0, ck_msg_id = 7, ck_kind = ShmPubSub\<rparr>"

definition some_chan :: "msg ring chan" where
  "some_chan = example_chan \<lparr>ring_wt = 0, ring_epoch = 0, ring_slots = []\<rparr>"

theorem gate_exact_witness:
  "fst (gate (topic_key, 1, 1) (gate_run [(topic_key, 2, 1), (topic_key, 1, 1), (topic_key, 1, 1)] (new_publisher ''t'' 0 some_chan))) \<and>
   \<not> fst (gate (topic_key, 1, 1) (gate_run [(topic_key, 1, 1)] (new_publisher ''t'' 0 some_chan)))"
  using gate_exact [of "new_publisher ''t'' 0 some_chan" "(topic_key, 1, 1)"] by (simp add: new_publisher_def all_local_def)

section \<open>Delivery inside the process\<close>

lemma fanout_all:
  "distinct qs \<Longrightarrow> \<forall>q \<in> set qs. cq_inv (Suc k) (queues q) \<Longrightarrow>
     \<exists>queues'. fanout 2 m qs queues = Some queues' \<and> (\<forall>q. q \<notin> set qs \<longrightarrow> queues' q = queues q) \<and>
       (\<forall>q \<in> set qs. cq_inv k (queues' q) \<and>
          queue_content (queues' q) =
            drop (length (queue_content (queues q)) + 1 - cq_capacity (queues q)) (queue_content (queues q) @ [m]))"
proof (induction qs arbitrary: queues)
  case Nil
  then show ?case by (simp add: fanout_def)
next
  case (Cons q qs)
  obtain r where r: "push_owned 2 m (queues q) = Some r" "cq_inv k r"
      "queue_content r = drop (length (queue_content (queues q)) + 1 - cq_capacity (queues q)) (queue_content (queues q) @ [m])"
    using cq.push_law [of k "queues q" m] Cons.prems(2) by auto
  have pre: "\<forall>w \<in> set qs. cq_inv (Suc k) ((queues(q := r)) w)" using Cons.prems by auto
  obtain queues' where q': "fanout 2 m qs (queues(q := r)) = Some queues'" "\<forall>w. w \<notin> set qs \<longrightarrow> queues' w = (queues(q := r)) w"
      "\<forall>w \<in> set qs. cq_inv k (queues' w) \<and> queue_content (queues' w) =
         drop (length (queue_content ((queues(q := r)) w)) + 1 - cq_capacity ((queues(q := r)) w)) (queue_content ((queues(q := r)) w) @ [m])"
    using Cons.IH [OF _ pre] Cons.prems(1) by (metis distinct.simps(2))
  have "fanout 2 m (q # qs) queues = Some queues'" using r(1) q'(1) by (simp add: fanout_def)
  moreover have "queues' q = r" using q'(2) Cons.prems(1) by simp
  ultimately show ?case using q'(2,3) r Cons.prems(1) by (intro exI [of _ queues']) auto
qed

definition pub_key :: "publisher \<Rightarrow> u32 \<Rightarrow> channel_key" where
  "pub_key p i = \<lparr>ck_topic = pb_topic p, ck_domain = pb_domain p, ck_msg_id = i, ck_kind = ShmPubSub\<rparr>"

text \<open>The fast path is open for a message: the last two found the same.\<close>

definition confirmed :: "nat list \<Rightarrow> u32 \<Rightarrow> publisher \<Rightarrow> bool" where
  "confirmed qs i p \<longleftrightarrow> qs \<noteq> [] \<and> recv_count (pb_channel p) = length qs \<and> 2 \<le> pb_consecutive p \<and>
     pb_key p = pub_key p i \<and> pb_size p = length qs \<and> pb_recv p = length qs"

text \<open>
  C18. Once the fast path is confirmed, a published message is appended once to every live queue
  registered for its key, which keep their last samples; no other queue and not the ring changes.
\<close>

theorem local_delivery:
  assumes "nc_nodelet (pr_config pr)" and "registry_ok (pr_registry pr)"
    and "confirmed (listeners live (pr_registry pr) (pub_key p (mc_msg_id cls m))) (mc_msg_id cls m) p"
    and "\<forall>q \<in> set (listeners live (pr_registry pr) (pub_key p (mc_msg_id cls m))). cq_inv (Suc k) (pr_queues pr q)"
  shows "\<exists>pr' p'. publish_best_effort env n 2 cc cls live m (pr, p) = Some (True, pr', p') \<and> pb_channel p' = pb_channel p \<and>
    (\<forall>q. if q \<in> set (listeners live (pr_registry pr) (pub_key p (mc_msg_id cls m)))
         then queue_content (pr_queues pr' q) =
           drop (length (queue_content (pr_queues pr q)) + 1 - cq_capacity (pr_queues pr q)) (queue_content (pr_queues pr q) @ [m])
         else pr_queues pr' q = pr_queues pr q)"
proof -
  let ?i = "mc_msg_id cls m" and ?qs = "listeners live (pr_registry pr) (pub_key p (mc_msg_id cls m))"
  obtain reg where reg: "subscriber_snapshot live (pub_key p ?i) (pr_registry pr) = (?qs, reg)"
    using snapshot_listeners by (metis prod.collapse)
  have c: "fast_path_gate (pub_key p ?i) (length ?qs) (length ?qs) p = (True, p\<lparr>pb_consecutive := pb_consecutive p + 1\<rparr>)"
    using assms(3) by (simp add: fast_path_gate_def confirmed_def kFastPathConfirm_def Let_def)
  obtain queues where f: "fanout 2 m ?qs (pr_queues pr) = Some queues" "\<forall>q. q \<notin> set ?qs \<longrightarrow> queues q = pr_queues pr q"
      "\<forall>q \<in> set ?qs. queue_content (queues q) =
         drop (length (queue_content (pr_queues pr q)) + 1 - cq_capacity (pr_queues pr q)) (queue_content (pr_queues pr q) @ [m])"
    using fanout_all [OF listeners_distinct [OF assms(2)] assms(4)] by blast
  have "publish_best_effort env n 2 cc cls live m (pr, p) =
      Some (True, pr\<lparr>pr_registry := reg, pr_queues := queues\<rparr>, p\<lparr>pb_consecutive := pb_consecutive p + 1\<rparr>)"
    using assms(1,3) reg c f(1)
    by (simp add: publish_best_effort_def confirmed_def pub_key_def Let_def)
  then show ?thesis using f(2,3) by auto
qed

text \<open>
  The gate compares numbers only. The ring of the witness has one reader, the process one queue: whether
  they belong to the same subscriber is not asked, and a reader in another process gets nothing.
\<close>

definition local_process :: "nat process" where
  "local_process = \<lparr>pr_config = initial_config\<lparr>nc_nodelet := True\<rparr>, pr_registry = [topic_key \<mapsto> [0]],
     pr_queues = (\<lambda>_. CircularQueue 2)\<rparr>"

definition confirmed_publisher :: publisher where
  "confirmed_publisher = (new_publisher ''t'' 0 some_chan)
     \<lparr>pb_key := topic_key, pb_size := 1, pb_recv := 1, pb_consecutive := 2\<rparr>"

definition number_class :: "nat msg_class" where
  "number_class = \<lparr>mc_msg_id = (\<lambda>_. 7), mc_set_msg_id = (\<lambda>_ m. m), mc_hash = 5, mc_size = (\<lambda>_. 40), mc_write = (\<lambda>_ _. None),
     mc_read = (\<lambda>m _. (m, False)), mc_adopt = (\<lambda>m _ _. (m, False)), mc_serialize = (\<lambda>_. []), mc_deserialize = (\<lambda>m _. (m, False))\<rparr>"

theorem local_delivery_witness:
  "\<exists>pr' p'. publish_best_effort (\<lambda>_ ch. ch) 0 2 2 number_class (\<lambda>_. True) 9 (local_process, confirmed_publisher) = Some (True, pr', p') \<and>
     pb_channel p' = pb_channel confirmed_publisher \<and> queue_content (pr_queues pr' 0) = [9]"
proof -
  have l: "listeners (\<lambda>_. True) (pr_registry local_process) (pub_key confirmed_publisher 7) = [0]"
    by (simp add: listeners_def local_process_def pub_key_def confirmed_publisher_def new_publisher_def topic_key_def)
  have c: "confirmed [0] 7 confirmed_publisher"
    by (simp add: confirmed_def confirmed_publisher_def new_publisher_def pub_key_def topic_key_def some_chan_def example_chan_def
        recv_count_def conn_count_def count_bits.simps)
  have q: "cq_inv 1 (pr_queues local_process 0)" "queue_content (pr_queues local_process 0) = []" "cq_capacity (pr_queues local_process 0) = 2"
    using CircularQueue_inv [of 2 1] by (simp_all add: local_process_def CircularQueue_def)
  have i: "mc_msg_id number_class 9 = 7" by (simp add: number_class_def)
  have ok: "nc_nodelet (pr_config local_process)" "registry_ok (pr_registry local_process)"
    by (simp_all add: local_process_def registry_ok_def)
  have "\<forall>q \<in> set [0]. cq_inv (Suc 0) (pr_queues local_process q)" using q(1) by simp
  then obtain pr' p' where r: "publish_best_effort (\<lambda>_ ch. ch) 0 2 2 number_class (\<lambda>_. True) 9 (local_process, confirmed_publisher) = Some (True, pr', p')"
      "pb_channel p' = pb_channel confirmed_publisher"
      "queue_content (pr_queues pr' 0) = drop (length (queue_content (pr_queues local_process 0)) + 1 - cq_capacity (pr_queues local_process 0))
         (queue_content (pr_queues local_process 0) @ [9])"
    using local_delivery [OF ok, of "\<lambda>_. True" confirmed_publisher number_class 9 0 "\<lambda>_ ch. ch" 0 2, unfolded i l, OF c] by auto
  then show ?thesis using q(2,3) by auto
qed

section \<open>What a received buffer is counted as\<close>

lemma dispatch_cases:
  "snd (dispatch cls s raw) \<noteq> kCount"
  "snd (dispatch cls s raw) \<notin> {kDzFlatAccepted, kTlvAccepted} \<Longrightarrow> fst (dispatch cls s raw) = Drop"
  "mc_hash cls \<noteq> 0 \<Longrightarrow> snd (dispatch cls s raw) \<in> {kDzFlatAccepted, kTlvAccepted} \<Longrightarrow> fst (dispatch cls s raw) \<noteq> Drop"
  by (auto simp: dispatch_def AcceptWire_def Let_def split: prod.splits if_splits)

text \<open>
  A received buffer is counted by exactly one counter, once. If it is not counted as accepted, it
  goes to no queue; if the topic has a layout of its own and it is counted as accepted, it does.
\<close>

theorem receive_counts_once:
  assumes "raw \<noteq> []" and "config_ok (pr_config pr)" and "cq_inv (Suc j) (se_views s)" and "cq_inv (Suc j) (pr_queues pr (se_queue s))"
  shows "\<exists>s' pr' ev. sub_receive cls 2 raw (s, pr) = Some (s', pr') \<and> ev \<noteq> kCount \<and>
    (\<forall>e. e \<noteq> kCount \<longrightarrow> nc_rx (pr_config pr') ! rx_index e = nc_rx (pr_config pr) ! rx_index e + (if e = ev then 1 else 0)) \<and>
    (if ev \<notin> {kDzFlatAccepted, kTlvAccepted} then s' = s \<and> pr_queues pr' = pr_queues pr
     else mc_hash cls \<noteq> 0 \<longrightarrow>
       (\<exists>sp. queue_content (se_views s') = drop (length (queue_content (se_views s)) + 1 - cq_capacity (se_views s)) (queue_content (se_views s) @ [sp])) \<or>
       (\<exists>m. queue_content (pr_queues pr' (se_queue s)) =
          drop (length (queue_content (pr_queues pr (se_queue s))) + 1 - cq_capacity (pr_queues pr (se_queue s)))
            (queue_content (pr_queues pr (se_queue s)) @ [m])))"
proof -
  obtain d ev where d: "dispatch cls s raw = (d, ev)" by fastforce
  note D = dispatch_cases [of cls s raw, unfolded d fst_conv snd_conv]
  have rx: "\<forall>e. e \<noteq> kCount \<longrightarrow> nc_rx (NoteDzFlatRx ev (pr_config pr)) ! rx_index e = nc_rx (pr_config pr) ! rx_index e + (if e = ev then 1 else 0)"
    using note_rx [OF assms(2) D(1)] by blast
  show ?thesis
  proof (cases d)
    case Drop
    then show ?thesis using d D rx assms(1) by (intro exI [of _ s] exI [of _ "pr\<lparr>pr_config := NoteDzFlatRx ev (pr_config pr)\<rparr>"] exI [of _ ev])
      (auto simp: sub_receive_def)
  next
    case (View sp)
    obtain vs where vs: "push_owned 2 sp (se_views s) = Some vs"
        "queue_content vs = drop (length (queue_content (se_views s)) + 1 - cq_capacity (se_views s)) (queue_content (se_views s) @ [sp])"
      using cq.push_law [OF assms(3)] by blast
    then show ?thesis using View d D rx assms(1)
      by (intro exI [of _ "s\<lparr>se_views := vs\<rparr>"] exI [of _ "pr\<lparr>pr_config := NoteDzFlatRx ev (pr_config pr)\<rparr>"] exI [of _ ev])
        (auto simp: sub_receive_def)
  next
    case (Own m)
    obtain q where q: "push_owned 2 m (pr_queues pr (se_queue s)) = Some q"
        "queue_content q = drop (length (queue_content (pr_queues pr (se_queue s))) + 1 - cq_capacity (pr_queues pr (se_queue s)))
           (queue_content (pr_queues pr (se_queue s)) @ [m])"
      using cq.push_law [OF assms(4)] by blast
    then show ?thesis using Own d D rx assms(1)
      by (intro exI [of _ s] exI [of _ "pr\<lparr>pr_config := NoteDzFlatRx ev (pr_config pr), pr_queues := (pr_queues pr)(se_queue s := q)\<rparr>"] exI [of _ ev])
        (auto simp: sub_receive_def)
  qed
qed

text \<open>
  Two buffers that are counted as accepted and still not read: a flat segment on a topic whose type has
  neither a layout nor a place for a segment, and a segment of the right hash and the wrong size.
\<close>

lemma foreign_segment_counted:
  assumes "looks_like_dzflat (Some raw)" and "dzflat_peek_msg_id (Some raw) = Some (se_msg_id s)" and "mc_hash cls = 0"
    and "\<not> snd (mc_adopt cls (td_topic (se_template s)) raw (sh_schema_hash (header_of raw)))"
  shows "dispatch cls s raw = (Drop, kDzFlatAccepted)"
  using assms by (auto simp: dispatch_def Let_def split: prod.splits)

lemma short_segment_counted:
  assumes "looks_like_dzflat (Some raw)" and "dzflat_peek_msg_id (Some raw) = Some (se_msg_id s)" and "mc_hash cls \<noteq> 0"
    and "sh_schema_hash (header_of raw) = mc_hash cls" and "unat (sh_root_size (header_of raw)) \<noteq> root_size"
  shows "\<exists>sp. dispatch cls s raw = (View sp, kDzFlatAccepted) \<and> sample_view (mc_hash cls) root_size sp = null_reader"
  using assms by (auto simp: dispatch_def sample_view_def bind_segment_def bind_copies_def Let_def)

section \<open>A flat segment from end to end\<close>

lemma looks_like_append:
  assumes "looks_like_dzflat (Some bs)"
  shows "looks_like_dzflat (Some (bs @ rest))" "header_of (bs @ rest) = header_of bs"
proof -
  have "32 \<le> length bs" using assms by (simp add: looks_like_dzflat_def split: if_splits)
  then show h: "header_of (bs @ rest) = header_of bs" by (simp add: header_of_def)
  show "looks_like_dzflat (Some (bs @ rest))" using assms h by (auto simp: looks_like_dzflat_def Let_def split: if_splits)
qed

lemma write_read_chunk:
  assumes "st cs = Some info" and "info_ok info ids" and "k < max_count" and "roomy cs info" and "length bs \<le> N" and "N + 16 \<le> unat cs"
  shows "\<exists>info' rest. write_chunk cs (int k) bs st = Some (st(cs \<mapsto> info')) \<and> length rest = N - length bs \<and>
    read_chunk cs (int k) N (st(cs \<mapsto> info')) = Some (bs @ rest)"
proof -
  let ?c = "ci_chunks info ! k"
  have k: "k < length (ci_chunks info)" using assms(2,3) by (simp add: info_ok_def)
  then have len: "length (chunk_data ?c) = unat cs - 16" using assms(4) nth_mem by (fastforce simp: roomy_def)
  let ?d = "bs @ drop (length bs) (chunk_data ?c)"
  let ?info = "info\<lparr>ci_chunks := (ci_chunks info)[k := ?c\<lparr>chunk_data := ?d\<rparr>]\<rparr>"
  have "write_chunk cs (int k) bs st = Some (st(cs \<mapsto> ?info))"
    using assms(1,5,6) k len by (simp add: write_chunk_def put_bytes_def)
  moreover have "read_chunk cs (int k) N (st(cs \<mapsto> ?info)) = Some (bs @ take (N - length bs) (drop (length bs) (chunk_data ?c)))"
    using assms(5,6) k len by (simp add: read_chunk_def get_bytes_def)
  ultimately show ?thesis using assms(5,6) len
    by (intro exI [of _ ?info] exI [of _ "take (N - length bs) (drop (length bs) (chunk_data ?c))"]) simp
qed

lemma frame_size_value: "64 < n \<Longrightarrow> n < 2 ^ 31 \<Longrightarrow> sint (of_int (int n - 64) :: u32) = int n - 64"
  by (simp add: signed_of_int signed_take_bit_int_eq_self del: of_int_diff)

text \<open>The capacity of the loan for a message.\<close>

definition loan_capacity :: "'m msg_class \<Rightarrow> 'm \<Rightarrow> u64 option" where
  "loan_capacity cls m =
     loan_size_class (if ucast (mc_size cls m) \<le> (of_nat large_msg_limit :: u64) then of_nat large_msg_limit + 1 else ucast (mc_size cls m))"

lemma loan_capacity_large:
  assumes "loan_capacity cls m = Some cap"
  shows "64 < unat cap"
proof -
  let ?need = "if ucast (mc_size cls m) \<le> (of_nat large_msg_limit :: u64) then of_nat large_msg_limit + 1 else ucast (mc_size cls m) :: u64"
  have "?need \<le> cap" using loan_size_class_returns [of ?need] assms by (auto simp: loan_capacity_def)
  moreover have "64 < unat ?need" by (auto simp: large_msg_limit_def data_length_def word_le_nat_alt)
  ultimately show ?thesis by (simp add: word_le_nat_alt)
qed

text \<open>
  C17. A typed message published as a flat segment into a ring with room takes one frame; the
  subscriber that pops this frame finds a chunk that starts with the segment the message wrote,
  and hands it out as a sample of its type, without a copy.
\<close>

theorem segment_travels:
  assumes hash: "mc_hash cls \<noteq> 0" and size: "mc_size cls m \<noteq> 0"
    and cap: "loan_capacity cls m = Some cap" "unat cap < 2 ^ 31"
    and ends: "sending (ch_end ch)" "recv_count ch \<noteq> 0" "cc \<noteq> my"
    and store: "ch_store ch (calc_chunk_size cap) = Some info" "info_ok info ids" "length ids < max_count" "roomy (calc_chunk_size cap) info"
    and seg: "mc_write cls m (ucast cap) = Some bs" "length bs \<le> unat cap" "looks_like_dzflat (Some bs)"
      "sh_schema_hash (header_of bs) = mc_hash cls" "dzflat_peek_msg_id (Some bs) = Some (se_msg_id s)"
    and ring: "\<forall>x. \<exists>old r. ring_push (connections (ch_head ch)) x (ch_ring ch) = (Some (old, 0), r)"
  shows "\<exists>ch' x old k raw. try_publish_dzflat env n cc cls True m ch = Some (True, ch') \<and>
    ring_push (connections (ch_head ch)) x (ch_ring ch) = (Some (old, 0), ch_ring ch') \<and>
    recv_msg junk my (ch_store ch') x rc = (Chunk (int k) (unat cap), rc) \<and>
    read_chunk (calc_chunk_size cap) (int k) (unat cap) (ch_store ch') = Some raw \<and> take (length bs) raw = bs \<and>
    dispatch cls s raw = (View \<lparr>sp_buf = raw, sp_msg_id = se_msg_id s, sp_hash = mc_hash cls\<rparr>, kDzFlatAccepted)"
proof -
  let ?cs = "calc_chunk_size cap" and ?N = "unat cap"
  have conns: "connections (ch_head ch) \<noteq> 0"
    using ends(2) by (auto simp: recv_count_def conn_count_def count_bits.simps)
  have N: "64 < ?N" using loan_capacity_large [OF cap(1)] .
  have room: "?N + 16 \<le> unat ?cs" using room_for [of "replicate ?N (0 :: byte)"] cap(2) by simp
  obtain k info1 where k: "acquire_storage cap (connections (ch_head ch)) (ch_store ch) = Some ((int k, True), (ch_store ch)(?cs \<mapsto> info1))"
      "k < max_count" "info_ok info1 (ids @ [k])" "roomy ?cs info1"
    using acquire_storage_room [where st = "ch_store ch", OF store] by blast
  let ?st1 = "(ch_store ch)(?cs \<mapsto> info1)" and ?lo = "\<lparr>loan_id = int k, loan_size = cap\<rparr>"
  have lo: "loan_chunk Route (ucast (mc_size cls m)) ch = Some (Some ?lo, ch\<lparr>ch_store := ?st1\<rparr>)"
    using cap(1) ends(1) conns k(1) by (simp add: loan_chunk_def loan_capacity_def ready_sending_def Let_def)
  obtain info2 rest where w: "write_chunk ?cs (int k) bs ?st1 = Some (?st1(?cs \<mapsto> info2))"
      "read_chunk ?cs (int k) ?N (?st1(?cs \<mapsto> info2)) = Some (bs @ rest)"
    using write_read_chunk [of ?st1 ?cs info1 "ids @ [k]" k bs ?N] k(2-4) seg(2) room by auto
  let ?ch = "ch\<lparr>ch_store := ?st1(?cs \<mapsto> info2)\<rparr>" and ?x = "make_msg cc (ch_acc ch) (ucast cap - 64, Ref (int k))"
  obtain old r where push: "ring_push (connections (ch_head ch)) ?x (ch_ring ch) = (Some (old, 0), r)" using ring by blast
  have once: "try_push env j cc (ch_acc ch) (ucast cap - 64, Ref (int k)) (?ch\<lparr>ch_acc := a\<rparr>) = Some (True, ?ch\<lparr>ch_acc := a, ch_ring := r\<rparr>)" for j a
    using push by (cases j) (simp_all add: try_push_def route_push_def after_push_def clear_message_def)
  have publish: "try_publish_dzflat env n cc cls True m ch = Some (True, ?ch\<lparr>ch_acc := ch_acc ch + 1, ch_ring := r\<rparr>)"
    using hash size ends(2) lo seg(1) w(1) once
    by (simp add: try_publish_dzflat_def publish_loan_def push_or_force_def data_length_def Let_def)
  have id: "msg_chunk_id ?x = int k" using chunk_id_msg [of "int k"] k(2) by (simp add: max_count_def)
  have "(ucast cap :: u32) = of_nat ?N" by simp
  then have "(ucast cap - 64 :: u32) = of_int (int ?N - 64)" by simp
  then have len: "msg_size ?x = int ?N" using frame_size_value [OF N cap(2)] by (simp only: msg_size_def make_msg.simps msg.simps data_length_def)
  have recv: "recv_msg junk my (?st1(?cs \<mapsto> info2)) ?x rc = (Chunk (int k) ?N, rc)"
  proof -
    have "cap \<noteq> 0" using N by auto
    then show ?thesis using ends(3) id len N by (simp add: recv_msg_def Let_def uint_0_iff)
  qed
  have "dispatch cls s (bs @ rest) = (View \<lparr>sp_buf = bs @ rest, sp_msg_id = se_msg_id s, sp_hash = mc_hash cls\<rparr>, kDzFlatAccepted)"
    using hash seg(3-5) looks_like_append [OF seg(3), of rest] by (simp add: dispatch_def dzflat_peek_msg_id_def Let_def)
  then show ?thesis using publish push recv w(2)
    by (intro exI [of _ "?ch\<lparr>ch_acc := ch_acc ch + 1, ch_ring := r\<rparr>"] exI [of _ ?x] exI [of _ old] exI [of _ k] exI [of _ "bs @ rest"]) simp
qed

definition eight_header :: seg_header where
  "eight_header = \<lparr>sh_magic = kMagic, sh_schema_hash = 5, sh_root_off = 32, sh_root_size = 8, sh_total_size = 40,
     sh_layout_ver = kLayoutVer, sh_flags = 0, sh_msg_id = 7, sh_reserved = 0\<rparr>"

definition eight_class :: "nat msg_class" where
  "eight_class = number_class\<lparr>mc_write := (\<lambda>_ _. Some (header_bytes eight_header @ replicate 8 1))\<rparr>"

definition eight_sub :: "nat sub_end" where
  "eight_sub = \<lparr>se_topic = ''t'', se_domain = 0, se_template = TopicData eight_class 0 7, se_msg_id = 7, se_registered = True,
     se_queue = 0, se_views = CircularQueue 2\<rparr>"

definition open_chan :: "msg ring chan" where
  "open_chan = example_chan (new_ring (make_msg 2 0 (0, Frag [7])) 0)"

lemma open_ring: "\<forall>x. \<exists>old r. ring_push (connections (ch_head open_chan)) x (ch_ring open_chan) = (Some (old, 0), r)"
  by (simp add: open_chan_def example_chan_def new_ring_def ring_push_def rc_readers_def index_of_def Let_def)

theorem segment_travels_witness:
  "\<exists>ch' raw k x old. try_publish_dzflat (\<lambda>_ ch. ch) 0 2 eight_class True 3 open_chan = Some (True, ch') \<and>
     ring_push 1 x (ch_ring open_chan) = (Some (old, 0), ch_ring ch') \<and>
     recv_msg (\<lambda>_. 0) 1 (ch_store ch') x [] = (Chunk (int k) 1024, []) \<and>
     read_chunk (calc_chunk_size 1024) (int k) 1024 (ch_store ch') = Some raw \<and>
     dispatch eight_class eight_sub raw = (View \<lparr>sp_buf = raw, sp_msg_id = 7, sp_hash = 5\<rparr>, kDzFlatAccepted)"
proof -
  have cls: "mc_hash eight_class = 5" "mc_size eight_class 3 = 40" "se_msg_id eight_sub = 7"
      "mc_write eight_class 3 (ucast (1024 :: u64)) = Some (header_bytes eight_header @ replicate 8 1)"
    by (simp_all add: eight_class_def number_class_def eight_sub_def)
  have cap: "loan_capacity eight_class 3 = Some 1024"
    by (simp add: loan_capacity_def cls large_msg_limit_def data_length_def loan_size_class_def)
  have ends: "sending (ch_end open_chan)" "recv_count open_chan \<noteq> 0" "connections (ch_head open_chan) = 1"
    by (simp_all add: open_chan_def example_chan_def recv_count_def conn_count_def count_bits.simps)
  have seg: "looks_like_dzflat (Some (header_bytes eight_header @ replicate 8 1))"
      "sh_schema_hash (header_of (header_bytes eight_header @ replicate 8 1)) = 5"
      "dzflat_peek_msg_id (Some (header_bytes eight_header @ replicate 8 1)) = Some 7"
    by (simp_all add: looks_like_dzflat_def dzflat_peek_msg_id_def eight_header_def)
  have store: "ch_store open_chan (calc_chunk_size 1024) = Some (zero_info (calc_chunk_size 1024))" by (simp add: open_chan_def example_chan_def)
  obtain ch' x old k raw where "try_publish_dzflat (\<lambda>_ ch. ch) 0 2 eight_class True 3 open_chan = Some (True, ch')"
      "ring_push 1 x (ch_ring open_chan) = (Some (old, 0), ch_ring ch')"
      "recv_msg (\<lambda>_. 0) 1 (ch_store ch') x [] = (Chunk (int k) 1024, [])"
      "read_chunk (calc_chunk_size 1024) (int k) 1024 (ch_store ch') = Some raw"
      "dispatch eight_class eight_sub raw = (View \<lparr>sp_buf = raw, sp_msg_id = 7, sp_hash = 5\<rparr>, kDzFlatAccepted)"
    using segment_travels [of eight_class 3 1024 open_chan 2 1 "zero_info (calc_chunk_size 1024)" "[]"
        "header_bytes eight_header @ replicate 8 1" eight_sub "\<lambda>_ ch. ch" 0 "\<lambda>_. 0" "[]"]
      cls cap ends seg store zero_info_ok open_ring by (auto simp: max_count_def)
  then show ?thesis by blast
qed

theorem receive_counts_once_witness:
  "\<exists>s' pr' ev. sub_receive number_class 2 [0, 0] (eight_sub, local_process) = Some (s', pr') \<and> ev \<noteq> kCount \<and>
     nc_rx (pr_config pr') ! rx_index ev = 1"
proof -
  have "cq_inv 1 (se_views eight_sub)" "cq_inv 1 (pr_queues local_process (se_queue eight_sub))"
    using CircularQueue_inv [of 2 1] by (simp_all add: eight_sub_def local_process_def)
  moreover have "config_ok (pr_config local_process)" by (simp add: local_process_def config_ok_def initial_config_def)
  moreover have "nc_rx (pr_config local_process) ! rx_index ev = 0" if "ev \<noteq> kCount" for ev
    using rx_index_less [OF that] by (simp add: local_process_def initial_config_def del: replicate.simps)
  ultimately obtain s' pr' ev where "sub_receive number_class 2 [0, 0] (eight_sub, local_process) = Some (s', pr')" "ev \<noteq> kCount"
      "\<forall>e. e \<noteq> kCount \<longrightarrow> nc_rx (pr_config pr') ! rx_index e = (if e = ev then 1 else 0)"
    using receive_counts_once [of "[0, 0]" local_process 0 eight_sub number_class] by auto
  then show ?thesis by auto
qed

section \<open>A subscriber is listed under its current type\<close>

text \<open>
  The steps of a process around one subscriber: it registers, changes its message type and closes;
  other queues come and go, and publishers look into the directory.
\<close>

inductive sub_step :: "'m msg_class \<Rightarrow> (nat \<Rightarrow> bool) \<Rightarrow> 'm sub_end \<times> 'm process \<Rightarrow> 'm sub_end \<times> 'm process \<Rightarrow> bool"
  for cls live where
  step_init: "sub_step cls live (s, pr) (sub_init live (s, pr))"
| step_type: "sub_step cls live (s, pr) (sub_reset_message cls live td (s, pr))"
| step_close: "sub_step cls live (s, pr) (sub_close live (s, pr))"
| step_join: "q \<noteq> se_queue s \<Longrightarrow> sub_step cls live (s, pr) (s, pr\<lparr>pr_registry := register_subscriber live key q (pr_registry pr)\<rparr>)"
| step_leave: "q \<noteq> se_queue s \<Longrightarrow> live q \<Longrightarrow>
    sub_step cls live (s, pr) (s, pr\<lparr>pr_registry := unregister_subscriber live key q (pr_registry pr)\<rparr>)"
| step_look: "sub_step cls live (s, pr) (s, pr\<lparr>pr_registry := snd (subscriber_snapshot live key (pr_registry pr))\<rparr>)"

inductive_cases sub_stepE: "sub_step cls live x y"

definition sub_start :: "(nat \<Rightarrow> bool) \<Rightarrow> 'm sub_end \<times> 'm process \<Rightarrow> bool" where
  "sub_start live = (\<lambda>(s, pr). \<not> se_registered s \<and> live (se_queue s) \<and> pr_registry pr = no_subscribers)"

definition sub_inv :: "(nat \<Rightarrow> bool) \<Rightarrow> 'm sub_end \<times> 'm process \<Rightarrow> bool" where
  "sub_inv live = (\<lambda>(s, pr). live (se_queue s) \<and> registry_ok (pr_registry pr) \<and>
     (\<forall>key. se_queue s \<in> set (listeners live (pr_registry pr) key) \<longleftrightarrow> se_registered s \<and> key = sub_key s (se_msg_id s)))"

lemma sub_key_inj [simp]: "sub_key s i = sub_key s j \<longleftrightarrow> i = j"
  by (simp add: sub_key_def)

lemma sub_key_update [simp]:
  "sub_key (s\<lparr>se_template := td, se_msg_id := j\<rparr>) i = sub_key s i" "sub_key (s\<lparr>se_registered := b\<rparr>) i = sub_key s i"
  by (simp_all add: sub_key_def)

lemma sub_inv_start: "sub_start live x \<Longrightarrow> sub_inv live x"
  by (cases x) (auto simp: sub_start_def sub_inv_def no_subscribers_def listeners_def registry_ok_def)

lemma sub_inv_step: "sub_inv live x \<Longrightarrow> sub_step cls live x y \<Longrightarrow> sub_inv live y"
  by (erule sub_stepE)
    (auto simp: sub_inv_def sub_init_def sub_reset_message_def sub_close_def Let_def listeners_register listeners_unregister
      register_ok unregister_ok snapshot_ok split: if_splits)

interpretation local: step_invariant "sub_start live" "sub_step cls live" "sub_inv live" for cls live
  by unfold_locales (auto intro: sub_inv_start sub_inv_step)

lemma count_list_distinct: "distinct xs \<Longrightarrow> count_list xs x = of_bool (x \<in> set xs)"
  by (induction xs) auto

text \<open>
  C29. While a subscriber is registered its queue is in the directory once, under the key of the message type
  it has now and under no other; before it registers and after it closes it is under none.
\<close>

theorem listed_under_current_type:
  assumes "reach (sub_start live) (sub_step cls live) (s, pr)"
  shows "count_list (listeners live (pr_registry pr) key) (se_queue s) = of_bool (se_registered s \<and> key = sub_key s (se_msg_id s))"
proof -
  have "sub_inv live (s, pr)" using local.reach_inv [OF assms] .
  then have "distinct (listeners live (pr_registry pr) key)"
      "se_queue s \<in> set (listeners live (pr_registry pr) key) \<longleftrightarrow> se_registered s \<and> key = sub_key s (se_msg_id s)"
    using listeners_distinct by (auto simp: sub_inv_def)
  then show ?thesis by (simp add: count_list_distinct)
qed

definition typed_sub :: "nat sub_end \<times> nat process" where
  "typed_sub = (eight_sub\<lparr>se_registered := False, se_msg_id := 5\<rparr>, local_process\<lparr>pr_registry := no_subscribers\<rparr>)"

theorem listed_under_current_type_witness:
  "case sub_reset_message eight_class (\<lambda>_. True) (TopicData eight_class 0 7) (sub_init (\<lambda>_. True) typed_sub) of (s, pr) \<Rightarrow>
     count_list (listeners (\<lambda>_. True) (pr_registry pr) (sub_key s 7)) (se_queue s) = 1 \<and>
     count_list (listeners (\<lambda>_. True) (pr_registry pr) (sub_key s 5)) (se_queue s) = 0"
proof -
  let ?x = "sub_init (\<lambda>_. True) typed_sub"
  obtain s0 pr0 where x0: "typed_sub = (s0, pr0)" by (cases typed_sub)
  obtain s1 pr1 where x1: "?x = (s1, pr1)" by (cases ?x)
  obtain s pr where y: "sub_reset_message eight_class (\<lambda>_. True) (TopicData eight_class 0 7) ?x = (s, pr)" by fastforce
  have "reach (sub_start (\<lambda>_. True)) (sub_step eight_class (\<lambda>_. True)) typed_sub"
    by (rule reach_init) (simp add: sub_start_def typed_sub_def)
  moreover have "sub_step eight_class (\<lambda>_. True) typed_sub ?x" using step_init x0 by metis
  moreover have "sub_step eight_class (\<lambda>_. True) ?x (s, pr)" using step_type [of eight_class "\<lambda>_. True" s1 pr1 "TopicData eight_class 0 7"] x1 y by metis
  ultimately have "reach (sub_start (\<lambda>_. True)) (sub_step eight_class (\<lambda>_. True)) (s, pr)" by (meson reach_step)
  moreover have "se_registered s" "se_msg_id s = 7"
    using y by (auto simp: sub_reset_message_def sub_init_def typed_sub_def eight_sub_def TopicData_def eight_class_def number_class_def split: prod.splits if_splits)
  ultimately show ?thesis using listed_under_current_type [of "\<lambda>_. True" eight_class s pr] y by simp
qed

end
