(* ===== verification/ServiceCalls.thy ===== *)
theory ServiceCalls
  imports ShmService PubSubLaws
begin

text \<open>
  Calls of a service over shared memory: the server's rounds, the client's requests inside the
  process and over the rings, and what they guarantee.
\<close>

section \<open>Inside the process\<close>

text \<open>
  An envelope carries a request and the number of the queue for its reply. A process has the
  queues of requests of its servers, which the directory names, and the queues of replies, one for
  each call.
\<close>

record 'm service_process =
  sr_config :: nodelet_config
  sr_registry :: registry
  sr_requests :: "nat \<Rightarrow> ('m \<times> nat) circular_queue"
  sr_replies :: "nat \<Rightarrow> 'm circular_queue"

text \<open>A server: its template, and what it calls, \<open>None\<close> when nothing is set.\<close>

record 'm service_end =
  ve_topic :: string
  ve_domain :: nat
  ve_message :: "'m service_data"
  ve_callback :: "('m service_data \<Rightarrow> 'm service_data) option"
  ve_queue :: nat
  ve_registered :: bool
  ve_msg_id :: u32

definition service_key :: "'m service_end \<Rightarrow> u32 \<Rightarrow> channel_key" where
  "service_key s i = \<lparr>ck_topic = ve_topic s, ck_domain = ve_domain s, ck_msg_id = i, ck_kind = ShmService\<rparr>"

definition new_service :: "string \<Rightarrow> nat \<Rightarrow> 'm service_data \<Rightarrow> ('m service_data \<Rightarrow> 'm service_data) option \<Rightarrow> nat \<Rightarrow> 'm service_process \<Rightarrow>
    'm service_end \<times> 'm service_process" where
  "new_service topic domain sd callback q pr =
     (\<lparr>ve_topic = topic, ve_domain = domain, ve_message = sd_clone sd, ve_callback = callback, ve_queue = q, ve_registered = False, ve_msg_id = 0\<rparr>,
      pr\<lparr>sr_requests := (sr_requests pr)(q := CircularQueue 16)\<rparr>)"

definition service_register :: "'m msg_class \<Rightarrow> (nat \<Rightarrow> bool) \<Rightarrow> 'm service_end \<times> 'm service_process \<Rightarrow> 'm service_end \<times> 'm service_process" where
  "service_register cls live = (\<lambda>(s, pr).
     let i = mc_msg_id cls (sd_request (ve_message s))
     in (s\<lparr>ve_registered := True, ve_msg_id := i\<rparr>,
         pr\<lparr>sr_registry := register_subscriber live (service_key s i) (ve_queue s) (sr_registry pr)\<rparr>))"

definition service_reset_message :: "'m msg_class \<Rightarrow> (nat \<Rightarrow> bool) \<Rightarrow> 'm service_data \<Rightarrow> 'm service_end \<times> 'm service_process \<Rightarrow> 'm service_end \<times> 'm service_process" where
  "service_reset_message cls live sd = (\<lambda>(s, pr).
     let i = mc_msg_id cls (sd_request sd);
         s' = s\<lparr>ve_message := sd_clone sd\<rparr>
     in if ve_registered s \<and> ve_msg_id s \<noteq> i
        then (s'\<lparr>ve_msg_id := i\<rparr>,
              pr\<lparr>sr_registry := register_subscriber live (service_key s i) (ve_queue s)
                   (unregister_subscriber live (service_key s (ve_msg_id s)) (ve_queue s) (sr_registry pr))\<rparr>)
        else (s', pr))"

definition service_reset_callback :: "('m service_data \<Rightarrow> 'm service_data) option \<Rightarrow> 'm service_end \<Rightarrow> 'm service_end" where
  "service_reset_callback callback s = s\<lparr>ve_callback := callback\<rparr>"

definition service_close :: "(nat \<Rightarrow> bool) \<Rightarrow> 'm service_end \<times> 'm service_process \<Rightarrow> 'm service_end \<times> 'm service_process" where
  "service_close live = (\<lambda>(s, pr).
     if ve_registered s
     then (s\<lparr>ve_registered := False\<rparr>,
           pr\<lparr>sr_registry := unregister_subscriber live (service_key s (ve_msg_id s)) (ve_queue s) (sr_registry pr)\<rparr>)
     else (s, pr))"

text \<open>The answer to a request that came inside the process: the callback works on a copy of the template with the request in it.\<close>

definition answer :: "('m service_data \<Rightarrow> 'm service_data) \<Rightarrow> 'm service_end \<Rightarrow> 'm \<Rightarrow> 'm" where
  "answer callback s request = sd_response (callback ((sd_clone (ve_message s))\<lparr>sd_request := request\<rparr>))"

text \<open>
  One round of the server over its queue. The result says whether an envelope was there; with
  no callback it is thrown away.
\<close>

definition serve_local :: "nat \<Rightarrow> 'm service_end \<Rightarrow> 'm service_process \<Rightarrow> (bool \<times> 'm service_process) option" where
  "serve_local k s pr =
     do {
       (item, q) \<leftarrow> try_dequeue k (sr_requests pr (ve_queue s));
       let pr = pr\<lparr>sr_requests := (sr_requests pr)(ve_queue s := q)\<rparr>;
       case item of
         Some (Some (request, rq)) \<Rightarrow>
           (case ve_callback s of
              None \<Rightarrow> Some (True, pr)
            | Some callback \<Rightarrow>
                do { r \<leftarrow> push_owned k (answer callback s request) (sr_replies pr rq); Some (True, pr\<lparr>sr_replies := (sr_replies pr)(rq := r)\<rparr>) })
       | _ \<Rightarrow> Some (False, pr)
     }"

text \<open>A buffer that came over the ring. The result is the response to send, \<open>None\<close> for a buffer that is dropped.\<close>

definition serve_remote :: "'m msg_class \<Rightarrow> 'm service_end \<Rightarrow> bytes \<Rightarrow> nodelet_config \<Rightarrow> 'm option \<times> nodelet_config" where
  "serve_remote cls s raw cfg =
     (if raw = [] then (None, cfg)
      else let sd = sd_clone (ve_message s);
               (sample, m, ok, cfg) = take_wire cls raw (sd_request sd) cfg
           in if \<not> ok then (None, cfg)
              else let sd = (case sample of Some sp \<Rightarrow> sd\<lparr>sd_req_sample := Some sp\<rparr> | None \<Rightarrow> sd\<lparr>sd_request := m\<rparr>);
                       sd = (case ve_callback s of None \<Rightarrow> sd | Some callback \<Rightarrow> callback sd)
                   in (Some (sd_response sd), cfg))"

definition serve_round :: "nat \<Rightarrow> (nat \<Rightarrow> msg uring chan \<Rightarrow> msg uring chan) \<Rightarrow> nat \<Rightarrow> u32 \<Rightarrow> 'm msg_class \<Rightarrow> 'm msg_class \<Rightarrow> 'm service_end \<Rightarrow> bytes \<Rightarrow>
    'm service_process \<times> msg uring chan \<Rightarrow> ('m service_process \<times> msg uring chan) option" where
  "serve_round k env n cc req resp s raw = (\<lambda>(pr, ch).
     do {
       (done, pr) \<leftarrow> serve_local k s pr;
       if done then Some (pr, ch)
       else let (out, cfg) = serve_remote req s raw (sr_config pr); pr = pr\<lparr>sr_config := cfg\<rparr>
            in case out of
                 None \<Rightarrow> Some (pr, ch)
               | Some m \<Rightarrow> do { (sent, cfg, ch) \<leftarrow> send_message env n cc resp cfg m ch; Some (pr\<lparr>sr_config := cfg\<rparr>, ch) }
     })"

section \<open>The client\<close>

record service_client =
  sc_topic :: string
  sc_domain :: nat
  sc_done :: bool
  sc_key :: channel_key
  sc_size :: nat
  sc_consecutive :: nat
  sc_no_server_warned :: bool
  sc_anomaly_warned :: bool

definition service_gate :: "channel_key \<Rightarrow> nat \<Rightarrow> service_client \<Rightarrow> bool \<times> service_client" where
  "service_gate key count c =
     (let c = (if key \<noteq> sc_key c \<or> count \<noteq> sc_size c then c\<lparr>sc_consecutive := 0, sc_key := key, sc_size := count\<rparr> else c)
      in if count = 1 then let n = sc_consecutive c + 1 in (kFastPathConfirm \<le> n, c\<lparr>sc_consecutive := n\<rparr>)
         else (False, c\<lparr>sc_consecutive := 0\<rparr>))"

definition service_warn :: "nat \<Rightarrow> service_client \<Rightarrow> service_client" where
  "service_warn count c =
     (if count = 0 \<and> \<not> sc_no_server_warned c then c\<lparr>sc_no_server_warned := True\<rparr>
      else if 1 < count \<and> \<not> sc_anomaly_warned c then c\<lparr>sc_anomaly_warned := True\<rparr> else c)"

datatype route = No_route | Local_route nat | Ring_route

definition request_route :: "'m msg_class \<Rightarrow> (nat \<Rightarrow> bool) \<Rightarrow> 'm service_data \<Rightarrow> service_client \<times> 'm service_process \<Rightarrow>
    route \<times> service_client \<times> 'm service_process" where
  "request_route cls live sd = (\<lambda>(c, pr).
     if \<not> sc_done c then (No_route, if nc_nodelet (sr_config pr) then c\<lparr>sc_no_server_warned := True\<rparr> else c, pr)
     else if \<not> nc_nodelet (sr_config pr) then (Ring_route, c, pr)
     else let key = \<lparr>ck_topic = sc_topic c, ck_domain = sc_domain c, ck_msg_id = mc_msg_id cls (sd_request sd), ck_kind = ShmService\<rparr>;
              (qs, reg) = subscriber_snapshot live key (sr_registry pr);
              (fast, c) = service_gate key (length qs) c;
              pr = pr\<lparr>sr_registry := reg\<rparr>
          in if fast then (Local_route (hd qs), c, pr) else (Ring_route, service_warn (length qs) c, pr))"

text \<open>
  A call inside the process: \<open>rq\<close> is the new queue for its reply, \<open>env\<close> is what the server does while the
  client waits for it.
\<close>

definition call_local :: "nat \<Rightarrow> ('m service_process \<Rightarrow> 'm service_process option) \<Rightarrow> nat \<Rightarrow> nat \<Rightarrow> 'm service_data \<Rightarrow> 'm service_process \<Rightarrow>
    (bool \<times> 'm service_data \<times> 'm service_process) option" where
  "call_local k env q rq sd pr =
     do {
       let pr = pr\<lparr>sr_replies := (sr_replies pr)(rq := CircularQueue 1)\<rparr>;
       r \<leftarrow> push_owned k (sd_request sd, rq) (sr_requests pr q);
       pr \<leftarrow> env (pr\<lparr>sr_requests := (sr_requests pr)(q := r)\<rparr>);
       (out, r) \<leftarrow> pop k (sr_replies pr rq);
       let pr = pr\<lparr>sr_replies := (sr_replies pr)(rq := r)\<rparr>;
       case out of
         Popped (Some m) \<Rightarrow> Some (True, sd\<lparr>sd_response := m\<rparr>, pr)
       | _ \<Rightarrow> Some (False, sd, pr)
     }"

text \<open>
  What \<open>recv\<close> gives, one buffer after the other, an empty one when the time is over. A buffer that
  cannot be taken is skipped.
\<close>

primrec receive_response :: "'m msg_class \<Rightarrow> bytes list \<Rightarrow> 'm service_data \<Rightarrow> nodelet_config \<Rightarrow> bool \<times> 'm service_data \<times> nodelet_config" where
  "receive_response cls [] sd cfg = (False, sd, cfg)"
| "receive_response cls (raw # raws) sd cfg =
     (if raw = [] then (False, sd, cfg)
      else let (sample, m, ok, cfg) = take_wire cls raw (sd_response sd) cfg; sd = sd\<lparr>sd_response := m\<rparr>
           in if ok then (True, (case sample of Some sp \<Rightarrow> sd\<lparr>sd_resp_sample := Some sp\<rparr> | None \<Rightarrow> sd), cfg)
              else receive_response cls raws sd cfg)"

definition call_ring :: "(nat \<Rightarrow> msg uring chan \<Rightarrow> msg uring chan) \<Rightarrow> nat \<Rightarrow> u32 \<Rightarrow> 'm msg_class \<Rightarrow> 'm msg_class \<Rightarrow> bytes list \<Rightarrow> 'm service_data \<Rightarrow>
    nodelet_config \<Rightarrow> msg uring chan \<Rightarrow> (bool \<times> 'm service_data \<times> nodelet_config \<times> msg uring chan) option" where
  "call_ring env n cc req resp raws sd cfg ch =
     do {
       (sent, cfg, ch) \<leftarrow> send_message env n cc req cfg (sd_request sd) ch;
       if \<not> sent then Some (False, sd, cfg, ch)
       else let (ok, sd, cfg) = receive_response resp raws (sd\<lparr>sd_resp_sample := None\<rparr>) cfg in Some (ok, sd, cfg, ch)
     }"

definition send_request :: "nat \<Rightarrow> ('m service_process \<Rightarrow> 'm service_process option) \<Rightarrow> (nat \<Rightarrow> msg uring chan \<Rightarrow> msg uring chan) \<Rightarrow> nat \<Rightarrow> u32 \<Rightarrow>
    'm msg_class \<Rightarrow> 'm msg_class \<Rightarrow> (nat \<Rightarrow> bool) \<Rightarrow> nat \<Rightarrow> bytes list \<Rightarrow> 'm service_data \<Rightarrow> service_client \<times> 'm service_process \<times> msg uring chan \<Rightarrow>
    (bool \<times> 'm service_data \<times> service_client \<times> 'm service_process \<times> msg uring chan) option" where
  "send_request k server env n cc req resp live rq raws sd = (\<lambda>(c, pr, ch).
     case request_route req live sd (c, pr) of
       (No_route, c, pr) \<Rightarrow> Some (False, sd, c, pr, ch)
     | (Local_route q, c, pr) \<Rightarrow> do { (ok, sd, pr) \<leftarrow> call_local k server q rq sd pr; Some (ok, sd, c, pr, ch) }
     | (Ring_route, c, pr) \<Rightarrow>
         do { (ok, sd, cfg, ch) \<leftarrow> call_ring env n cc req resp raws sd (sr_config pr) ch; Some (ok, sd, c, pr\<lparr>sr_config := cfg\<rparr>, ch) })"

section \<open>A call inside the process gets its own answer\<close>

text \<open>A queue for one reply, with the reply.\<close>

definition one_reply :: "'m \<Rightarrow> 'm circular_queue" where
  "one_reply m = \<lparr>cq_capacity = 1, cq_cells = [\<lparr>cell_seq = 1, cell_data = Some m\<rparr>], cq_enqueue = 1, cq_dequeue = 0\<rparr>"

lemma push_one_reply: "push_owned (Suc k) m (CircularQueue 1) = Some (one_reply m)"
  by (simp add: CircularQueue_def one_reply_def cell_at_def set_cell_def add64_def as_signed_def Let_def)

lemma pop_one_reply: "\<exists>q. pop (Suc k) (one_reply m) = Some (Popped (Some m), q)"
  by (simp add: pop_def one_reply_def cell_at_def add64_def as_signed_def Let_def)

primrec serve_times :: "nat \<Rightarrow> 'm service_end \<Rightarrow> 'm service_process \<Rightarrow> 'm service_process option" where
  "serve_times 0 s pr = Some pr"
| "serve_times (Suc n) s pr = do { (done, pr) \<leftarrow> serve_local 2 s pr; serve_times n s pr }"

lemma serve_local_first:
  assumes "ve_callback s = Some callback" and "cq_inv j (sr_requests pr (ve_queue s))"
    and "queue_content (sr_requests pr (ve_queue s)) = (m, rq) # items" and "sr_replies pr rq = CircularQueue 1"
  shows "\<exists>pr'. serve_local 2 s pr = Some (True, pr') \<and> cq_inv j (sr_requests pr' (ve_queue s)) \<and>
    queue_content (sr_requests pr' (ve_queue s)) = items \<and> sr_replies pr' = (sr_replies pr)(rq := one_reply (answer callback s m))"
proof -
  obtain q where q: "try_dequeue 2 (sr_requests pr (ve_queue s)) = Some (Some (Some (m, rq)), q)" "cq_inv j q" "queue_content q = items"
    using try_dequeue_some [OF assms(2,3), of 1] by (auto simp: numeral_2_eq_2)
  then show ?thesis using assms(1,4) push_one_reply [of 1 "answer callback s m"]
    by (simp add: serve_local_def numeral_2_eq_2 del: push_owned.simps try_dequeue.simps)
qed

lemma serve_times_all:
  assumes "ve_callback s = Some callback"
  shows "cq_inv j (sr_requests pr (ve_queue s)) \<Longrightarrow> queue_content (sr_requests pr (ve_queue s)) = items \<Longrightarrow> distinct (map snd items) \<Longrightarrow>
    \<forall>(m, rq) \<in> set items. sr_replies pr rq = CircularQueue 1 \<Longrightarrow>
    \<exists>pr'. serve_times (length items) s pr = Some pr' \<and> (\<forall>(m, rq) \<in> set items. sr_replies pr' rq = one_reply (answer callback s m)) \<and>
      (\<forall>rq. rq \<notin> snd ` set items \<longrightarrow> sr_replies pr' rq = sr_replies pr rq)"
proof (induction items arbitrary: pr)
  case Nil
  then show ?case by simp
next
  case (Cons item items)
  obtain m rq where item: "item = (m, rq)" by (cases item)
  obtain pr1 where pr1: "serve_local 2 s pr = Some (True, pr1)" "cq_inv j (sr_requests pr1 (ve_queue s))"
      "queue_content (sr_requests pr1 (ve_queue s)) = items" "sr_replies pr1 = (sr_replies pr)(rq := one_reply (answer callback s m))"
    using serve_local_first [OF assms Cons.prems(1)] Cons.prems(2,4) item by auto
  have fresh: "rq \<notin> snd ` set items" using Cons.prems(3) item by auto
  then have "\<forall>(m, rq) \<in> set items. sr_replies pr1 rq = CircularQueue 1" using Cons.prems(4) pr1(4) by (auto simp: image_iff split_beta)
  then obtain pr2 where pr2: "serve_times (length items) s pr1 = Some pr2"
      "\<forall>(m, rq) \<in> set items. sr_replies pr2 rq = one_reply (answer callback s m)"
      "\<forall>rq. rq \<notin> snd ` set items \<longrightarrow> sr_replies pr2 rq = sr_replies pr1 rq"
    using Cons.IH [OF pr1(2,3)] Cons.prems(3) by auto
  have "sr_replies pr2 rq = one_reply (answer callback s m)" using pr2(3) fresh pr1(4) by simp
  then show ?case using pr1(1,4) pr2 item by (intro exI [of _ pr2]) (auto simp: split_beta)
qed

text \<open>
  C24. A call inside the process returns the answer to its own request, whatever requests of other calls
  wait before it in the queue of the server, with the server taking one request after the other; every other call finds its own answer in
  its own queue.
\<close>

theorem local_call_answers:
  assumes callback: "ve_callback s = Some callback"
    and queue: "cq_inv (Suc j) (sr_requests pr (ve_queue s))" "queue_content (sr_requests pr (ve_queue s)) = items"
      "length items < cq_capacity (sr_requests pr (ve_queue s))"
    and others: "distinct (rq # map snd items)" "\<forall>(m, r) \<in> set items. sr_replies pr r = CircularQueue 1"
  shows "\<exists>pr'. call_local 2 (serve_times (Suc (length items)) s) (ve_queue s) rq sd pr =
      Some (True, sd\<lparr>sd_response := answer callback s (sd_request sd)\<rparr>, pr') \<and>
    (\<forall>(m, r) \<in> set items. sr_replies pr' r = one_reply (answer callback s m))"
proof -
  let ?pr = "pr\<lparr>sr_replies := (sr_replies pr)(rq := CircularQueue 1)\<rparr>"
  obtain q where q: "push_owned 2 (sd_request sd, rq) (sr_requests pr (ve_queue s)) = Some q" "cq_inv j q"
      "queue_content q = items @ [(sd_request sd, rq)]"
    using cq.push_law [OF queue(1), of "(sd_request sd, rq)"] queue(2,3) by auto
  let ?pr1 = "?pr\<lparr>sr_requests := (sr_requests pr)(ve_queue s := q)\<rparr>"
  have q1: "cq_inv j (sr_requests ?pr1 (ve_queue s))" "queue_content (sr_requests ?pr1 (ve_queue s)) = items @ [(sd_request sd, rq)]"
    using q(2,3) by simp_all
  have d: "distinct (map snd (items @ [(sd_request sd, rq)]))" using others(1) by simp
  have f: "\<forall>(m, r) \<in> set (items @ [(sd_request sd, rq)]). sr_replies ?pr1 r = CircularQueue 1"
    using others by (auto simp: image_iff)
  obtain pr2 where pr2: "serve_times (Suc (length items)) s ?pr1 = Some pr2"
      "\<forall>(m, r) \<in> set (items @ [(sd_request sd, rq)]). sr_replies pr2 r = one_reply (answer callback s m)"
    using serve_times_all [OF callback q1 d f] by auto
  obtain r where r: "pop 2 (one_reply (answer callback s (sd_request sd))) = Some (Popped (Some (answer callback s (sd_request sd))), r)"
    using pop_one_reply [of 1] by (metis numeral_2_eq_2 One_nat_def)
  have "call_local 2 (serve_times (Suc (length items)) s) (ve_queue s) rq sd pr =
      Some (True, sd\<lparr>sd_response := answer callback s (sd_request sd)\<rparr>, pr2\<lparr>sr_replies := (sr_replies pr2)(rq := r)\<rparr>)"
    using q(1) pr2 r by (simp add: call_local_def del: push_owned.simps serve_times.simps)
  then show ?thesis using pr2(2) others(1) by (auto simp: image_iff)
qed

section \<open>Responses over the ring\<close>

text \<open>
  A response has no mark of its request. The response of a call that gave up waiting is taken by
  the next call, whose own response stays in the ring for the one after it.
\<close>

theorem late_response_taken:
  assumes sent: "send_message env n cc req cfg (sd_request sd1) ch = Some (True, cfg1, ch1)"
      "send_message env n cc req cfg1 (sd_request sd2) ch1 = Some (True, cfg2, ch2)"
    and late: "late \<noteq> []" "looks_like_dzflat (Some late)" "dzflat_peek_msg_id (Some late) = Some (mc_msg_id resp (sd_response sd2))"
      "sh_schema_hash (header_of late) = mc_hash resp" "mc_hash resp \<noteq> 0"
  shows "do { (ok1, sd1', cfg, ch) \<leftarrow> call_ring env n cc req resp [[]] sd1 cfg ch;
             (ok2, sd2', cfg, ch) \<leftarrow> call_ring env n cc req resp [late, own] sd2 cfg ch;
             Some (ok1, ok2, sd_resp_sample sd2') } =
    Some (False, True, Some \<lparr>sp_buf = late, sp_msg_id = mc_msg_id resp (sd_response sd2), sp_hash = mc_hash resp\<rparr>)"
  using assms by (simp add: call_ring_def take_wire_def classify_received_def Let_def)

text \<open>A call inside the process leaves the sample of an earlier response where it is, and this sample is what a view shows.\<close>

lemma local_call_keeps_view:
  assumes "call_local k env q rq sd pr = Some (ok, sd', pr')"
  shows "sd_resp_sample sd' = sd_resp_sample sd" "response_view h root_size sd' = response_view h root_size sd"
  using assms by (auto simp: call_local_def response_view_def Let_def split: bind_splits option.splits popped.splits)

section \<open>A second client\<close>

lemma refused_sender:
  assumes "\<not> sending (ch_end ch)" and "sender_flag (ch_head ch)"
  shows "send_message env n cc cls cfg m ch = Some (False, NoteDzFlatPublish False cfg, ch)"
proof -
  have r: "ready_sending Server (ch_end ch) (ch_head ch) = (False, ch_end ch, ch_head ch)"
    using assms by (simp add: ready_sending_def connect_sender_def is_multi_producer_def)
  have "server_try_send env n cc data ch = Some (False, ch)" for data
    using r by (simp add: server_try_send_def send_def Let_def)
  then have "send_retry k env n cc data ch = Some (False, ch)" for k data by (induction k) simp_all
  moreover have "try_send_dzflat 0 cc cls cfg m ch = Some (False, NoteDzFlatPublish False cfg, ch)"
    using r by (simp add: try_send_dzflat_def loan_chunk_def Let_def)
  ultimately show ?thesis by (simp add: send_message_def)
qed

text \<open>
  The rings of a service have one sender and one reader each. A second client completes its handshake
  and is counted as a peer, but it is neither the sender of the requests nor the reader of the responses, has no
  slot, and every request it makes is refused, while the first client stays.
\<close>

theorem second_client_refused:
  assumes "tc_state (sv_ctl v) = state_code TS_Ready" and "tc_generation (sv_ctl v) \<noteq> 0"
    and first: "sender_flag (sv_req v)" "receiver_flag (sv_resp v)"
  shows "\<exists>b v'. cli_round pid now new_client v = (b, v') \<and> cp_done b \<and> cp_cc b = 0 \<and> cp_slot b = - 1 \<and>
    sv_req v' = sv_req v \<and> sv_resp v' = sv_resp v \<and> tc_peer_count (sv_ctl v') = tc_peer_count (sv_ctl v) + 1 \<and>
    (\<forall>ch. ch_head ch = sv_req v' \<and> sending (ch_end ch) = cp_sending b \<longrightarrow>
       call_ring env n cc req resp raws sd cfg ch = Some (False, sd, NoteDzFlatPublish False cfg, ch))"
proof -
  have r: "connect_receiver Server (sv_resp v) = (0, sv_resp v)" using first(2) by (simp add: connect_receiver_def is_multi_consumer_def)
  have s: "connect_sender Server (sv_req v) = (False, sv_req v)" using first(1) by (simp add: connect_sender_def is_multi_producer_def)
  let ?c = "(sv_ctl v)\<lparr>tc_peer_count := tc_peer_count (sv_ctl v) + 1\<rparr>"
  have "cli_round pid now new_client v =
      (\<lparr>cp_generation = tc_generation (sv_ctl v), cp_registered = True, cp_slot = - 1, cp_done = True, cp_cc = 0, cp_sending = False\<rparr>, v\<lparr>sv_ctl := ?c\<rparr>)"
    using assms(1,2) r s
    by (simp add: cli_round_def cli_attach_def cli_unregister_def new_client_def add_peer_def acquire_peer_slot_def cli_beat_def peer_heartbeat_def Let_def)
  moreover have "call_ring env n cc req resp raws sd cfg ch = Some (False, sd, NoteDzFlatPublish False cfg, ch)"
    if "ch_head ch = sv_req v" "\<not> sending (ch_end ch)" for ch
    using refused_sender [of ch env n cc req cfg "sd_request sd"] that first(1) by (simp add: call_ring_def)
  ultimately show ?thesis by auto
qed

section \<open>A full ring\<close>

lemma refused_wait:
  assumes "\<forall>x. uni_push x (ch_ring ch) = (False, ch_ring ch)"
  shows "wait_push (\<lambda>_ ch. ch) n (server_push cc i f) ch = Some (False, ch)"
  using assms by (induction n) (simp_all add: server_push_def)

lemma no_reader_refused:
  assumes "connections (ch_head ch) = 0" and "sending (ch_end ch)"
  shows "send_retry k env n cc data ch = Some (False, ch)"
proof -
  have "server_try_send env n cc data ch = Some (False, ch)"
    using assms by (cases ch) (auto simp: server_try_send_def send_def ready_sending_def Let_def)
  then show ?thesis by (induction k) simp_all
qed

text \<open>
  A flat message that finds the ring of the service full ends in the forced push of this ring, which gives
  the reader up: the message is refused without waiting, with all its retries, and the reader is no longer
  connected. The same message in the paged wire waits for room.
\<close>

theorem flat_send_drops_reader:
  assumes hash: "mc_hash cls \<noteq> 0" and flat: "nc_dzflat cfg" and size: "mc_size cls m \<noteq> 0"
    and cap: "loan_capacity cls m = Some cap" "unat cap < 2 ^ 31"
    and ends: "sending (ch_end ch)" "connections (ch_head ch) \<noteq> 0"
    and store: "ch_store ch (calc_chunk_size cap) = Some info" "info_ok info ids" "length ids < max_count" "roomy (calc_chunk_size cap) info"
    and seg: "mc_write cls m (ucast cap) = Some bs" "length bs \<le> unat cap"
    and full: "\<forall>x. uni_push x (ch_ring ch) = (False, ch_ring ch)"
  shows "\<exists>ch'. send_message env n cc cls cfg m ch = Some (False, NoteDzFlatPublish False cfg, ch') \<and>
    connections (ch_head ch') = 0 \<and> ch_ring ch' = ch_ring ch"
proof -
  let ?cs = "calc_chunk_size cap" and ?N = "unat cap"
  have room: "?N + 16 \<le> unat ?cs" using room_for [of "replicate ?N (0 :: byte)"] cap(2) by simp
  obtain k info1 where k: "acquire_storage cap (connections (ch_head ch)) (ch_store ch) = Some ((int k, True), (ch_store ch)(?cs \<mapsto> info1))"
      "k < max_count" "info_ok info1 (ids @ [k])" "roomy ?cs info1"
    using acquire_storage_room [where st = "ch_store ch", OF store] by blast
  let ?st1 = "(ch_store ch)(?cs \<mapsto> info1)" and ?lo = "\<lparr>loan_id = int k, loan_size = cap\<rparr>"
  have lo: "loan_chunk Server (ucast (mc_size cls m)) ch = Some (Some ?lo, ch\<lparr>ch_store := ?st1\<rparr>)"
    using cap(1) ends k(1) by (simp add: loan_chunk_def loan_capacity_def ready_sending_def Let_def)
  obtain info2 where w: "write_chunk ?cs (int k) bs ?st1 = Some (?st1(?cs \<mapsto> info2))" "info_ok info2 (ids @ [k])"
    using write_chunk_roomy [of ?st1 ?cs info1 "ids @ [k]" k bs] k(2-4) seg(2) room by auto
  let ?st2 = "?st1(?cs \<mapsto> info2)"
  obtain p where p: "release_in (int k) ?cs info2 ?st2 = Some (?st2(?cs \<mapsto> info2\<lparr>ci_pool := p\<rparr>))"
    using release_ok [of info2 ids k "[]" ?cs ?st2] w(2) by auto
  let ?h = "snd (uni_force_push (ch_head ch))"
  let ?ch = "ch\<lparr>ch_acc := ch_acc ch + 1, ch_head := ?h, ch_store := ?st2(?cs \<mapsto> info2\<lparr>ci_pool := p\<rparr>)\<rparr>"
  have h: "connections ?h = 0"
    by (simp add: uni_force_push_def disconnect_receiver_def head_disconnect_def is_broadcast_def)
  have push: "server_loan_push 0 cc ?lo (ch\<lparr>ch_store := ?st2\<rparr>) = Some (False, ?ch)"
    using full p by (simp add: server_loan_push_def server_push_def discard_loan_def release_storage_def uni_force_push_def Let_def)
  have flatly: "try_send_dzflat 0 cc cls cfg m ch = Some (False, NoteDzFlatPublish False cfg, ?ch)"
    using hash flat size ends lo seg(1) w(1) push
    by (simp add: try_send_dzflat_def conn_count_def is_broadcast_def Let_def)
  have "send_retry kSendRetries env n cc (mc_serialize cls m) ?ch = Some (False, ?ch)"
    using no_reader_refused [of ?ch] h ends(1) by simp
  then have "send_message env n cc cls cfg m ch = Some (False, NoteDzFlatPublish False cfg, ?ch)"
    using flatly by (simp add: send_message_def)
  then show ?thesis using h by (intro exI [of _ ?ch]) simp
qed

section \<open>Examples\<close>

lemma index_values: "index_of 0 = 0" "index_of 1 = 1" "index_of 255 = 255" "index_of (- 1) = 255"
  by code_simp+

definition number_service :: "nat service_end" where
  "number_service = \<lparr>ve_topic = ''t'', ve_domain = 0, ve_message = ServiceData eight_class eight_class 0 0 7,
     ve_callback = Some (\<lambda>sd. sd\<lparr>sd_response := sd_request sd + 1\<rparr>), ve_queue = 0, ve_registered = True, ve_msg_id = 7\<rparr>"

definition service_process0 :: "nat service_process" where
  "service_process0 = \<lparr>sr_config = initial_config, sr_registry = no_subscribers, sr_requests = (\<lambda>_. CircularQueue 16), sr_replies = (\<lambda>_. CircularQueue 1)\<rparr>"

theorem local_call_answers_witness:
  "\<exists>pr'. call_local 2 (serve_times 1 number_service) 0 3 (ServiceData eight_class eight_class 41 0 7) service_process0 =
     Some (True, (ServiceData eight_class eight_class 41 0 7)\<lparr>sd_response := 42\<rparr>, pr')"
proof -
  have q: "cq_inv (Suc 0) (sr_requests service_process0 (ve_queue number_service))"
      "queue_content (sr_requests service_process0 (ve_queue number_service)) = []"
      "length [] < cq_capacity (sr_requests service_process0 (ve_queue number_service))"
    using CircularQueue_inv [of 16 1] by (simp_all add: service_process0_def CircularQueue_def)
  have "ve_callback number_service = Some (\<lambda>sd. sd\<lparr>sd_response := sd_request sd + 1\<rparr>)" "ve_queue number_service = 0"
    by (simp_all add: number_service_def)
  moreover have "answer (\<lambda>sd. sd\<lparr>sd_response := sd_request sd + 1\<rparr>) number_service (sd_request (ServiceData eight_class eight_class 41 0 7)) = 42"
    by (simp add: answer_def ServiceData_def eight_class_def number_class_def)
  ultimately show ?thesis
    using local_call_answers [OF _ q, of "\<lambda>sd. sd\<lparr>sd_response := sd_request sd + 1\<rparr>" 3 "ServiceData eight_class eight_class 41 0 7"] by auto
qed

definition full_service_chan :: "msg uring chan" where
  "full_service_chan = example_chan \<lparr>u_rd = 0, u_wt = 255, u_slots = []\<rparr>"

definition empty_service_chan :: "msg uring chan" where
  "empty_service_chan = example_chan \<lparr>u_rd = 0, u_wt = 0, u_slots = replicate 256 (make_msg 2 0 (0, Frag [7]))\<rparr>"

theorem flat_send_drops_reader_witness:
  "\<exists>cfg ch'. send_message (\<lambda>_ ch. ch) 5 2 eight_class (initial_config\<lparr>nc_dzflat := True\<rparr>) 3 full_service_chan = Some (False, cfg, ch') \<and>
     connections (ch_head ch') = 0"
proof -
  have cls: "mc_hash eight_class \<noteq> 0" "mc_size eight_class 3 = 40" "mc_size eight_class 3 \<noteq> 0"
      "mc_write eight_class 3 (ucast (1024 :: u64)) = Some (header_bytes eight_header @ replicate 8 1)"
    by (simp_all add: eight_class_def number_class_def)
  have cap: "loan_capacity eight_class 3 = Some 1024" "unat (1024 :: u64) < 2 ^ 31"
    by (simp_all add: loan_capacity_def cls large_msg_limit_def data_length_def loan_size_class_def)
  have ends: "sending (ch_end full_service_chan)" "connections (ch_head full_service_chan) \<noteq> 0"
    by (simp_all add: full_service_chan_def example_chan_def)
  have store: "ch_store full_service_chan (calc_chunk_size 1024) = Some (zero_info (calc_chunk_size 1024))"
    by (simp add: full_service_chan_def example_chan_def)
  have full: "\<forall>x. uni_push x (ch_ring full_service_chan) = (False, ch_ring full_service_chan)"
    by (simp add: full_service_chan_def example_chan_def uni_push_def index_values)
  have flat: "nc_dzflat (initial_config\<lparr>nc_dzflat := True\<rparr>)" by simp
  have len: "length (header_bytes eight_header @ replicate 8 (1 :: byte)) \<le> unat (1024 :: u64)" "length ([] :: nat list) < max_count"
    by (simp_all add: max_count_def)
  show ?thesis
    using flat_send_drops_reader [OF cls(1) flat cls(3) cap ends store zero_info_ok(1) len(2) zero_info_ok(2) cls(4) len(1) full, of "\<lambda>_ ch. ch" 5 2]
    by blast
qed

definition ready_service :: shm_service where
  "ready_service = \<lparr>sv_ctl = \<lparr>tc_magic = kTopicControlMagic, tc_generation = 3, tc_state = state_code TS_Ready, tc_owner = 9,
      tc_heartbeat = 5, tc_peer_count = 0, tc_peers = replicate 64 free_peer\<rparr>,
     sv_req = snd (connect_receiver Server new_head), sv_resp = snd (connect_sender Server new_head)\<rparr>"

theorem second_client_refused_witness:
  "let v = snd (cli_round 11 6 new_client ready_service); (b, v') = cli_round 12 7 new_client v
   in cp_done b \<and> cp_cc b = 0 \<and> tc_peer_count (sv_ctl v') = 2 \<and>
      call_ring (\<lambda>_ ch. ch) 5 2 eight_class eight_class [] (ServiceData eight_class eight_class 1 0 7) initial_config
        (empty_service_chan\<lparr>ch_head := sv_req v', ch_end := (ch_end empty_service_chan)\<lparr>sending := cp_sending b\<rparr>\<rparr>) =
      Some (False, ServiceData eight_class eight_class 1 0 7, NoteDzFlatPublish False initial_config,
        empty_service_chan\<lparr>ch_head := sv_req v', ch_end := (ch_end empty_service_chan)\<lparr>sending := cp_sending b\<rparr>\<rparr>)"
proof -
  define v where "v = snd (cli_round 11 6 new_client ready_service)"
  have v: "tc_state (sv_ctl v) = state_code TS_Ready" "tc_generation (sv_ctl v) \<noteq> 0" "sender_flag (sv_req v)" "receiver_flag (sv_resp v)"
      "tc_peer_count (sv_ctl v) = 1"
    unfolding v_def by code_simp+
  obtain b v' where "cli_round 12 7 new_client v = (b, v')" "cp_done b" "cp_cc b = 0" "tc_peer_count (sv_ctl v') = tc_peer_count (sv_ctl v) + 1"
      "\<forall>ch. ch_head ch = sv_req v' \<and> sending (ch_end ch) = cp_sending b \<longrightarrow>
         call_ring (\<lambda>_ ch. ch) 5 2 eight_class eight_class [] (ServiceData eight_class eight_class 1 0 7) initial_config ch =
           Some (False, ServiceData eight_class eight_class 1 0 7, NoteDzFlatPublish False initial_config, ch)"
    using second_client_refused [OF v(1-4), of 12 7 "\<lambda>_ ch. ch" 5 2 eight_class eight_class "[]" "ServiceData eight_class eight_class 1 0 7" initial_config]
    by blast
  then show ?thesis using v(5) unfolding v_def [symmetric] by simp
qed

lemma small_sent:
  assumes "sending (ch_end ch)" and "connections (ch_head ch) \<noteq> 0" and "\<And>x. fst (uni_push x (ch_ring ch))"
    and "\<not> nc_dzflat cfg" and "mc_serialize cls m = [b]"
  shows "\<exists>x r. send_message env n cc cls cfg m ch = Some (True, NoteDzFlatPublish False cfg, ch\<lparr>ch_acc := ch_acc ch + 1, ch_ring := r\<rparr>) \<and>
    uni_push x (ch_ring ch) = (True, r)"
proof -
  let ?x = "make_msg cc (ch_acc ch) (of_nat 1 - of_nat data_length, Frag [b])"
  obtain r where r: "uni_push ?x (ch_ring ch) = (True, r)" using assms(3) [of ?x] by (metis prod.collapse)
  have "wait_push env j (server_push cc (ch_acc ch) (of_nat 1 - of_nat data_length, Frag [b])) (ch\<lparr>ch_acc := a\<rparr>) =
      Some (True, ch\<lparr>ch_acc := a, ch_ring := r\<rparr>)" for j a
    using r by (cases j) (simp_all add: server_push_def)
  then have "server_try_send env n cc [b] ch = Some (True, ch\<lparr>ch_acc := ch_acc ch + 1, ch_ring := r\<rparr>)"
    using assms(1,2) by (cases ch) (simp add: server_try_send_def send_def ready_sending_def send_payload_def send_fragments_def
      large_msg_limit_def data_length_def get_bytes_def Let_def)
  moreover have "try_send_dzflat 0 cc cls cfg m ch = Some (False, NoteDzFlatPublish False cfg, ch)"
    using assms(4) by (simp add: try_send_dzflat_def Let_def)
  ultimately have "send_message env n cc cls cfg m ch = Some (True, NoteDzFlatPublish False cfg, ch\<lparr>ch_acc := ch_acc ch + 1, ch_ring := r\<rparr>)"
    using assms(5) by (simp add: send_message_def kSendRetries_def numeral_eq_Suc)
  then show ?thesis using r by blast
qed

theorem late_response_taken_witness:
  "do { (ok1, sd1, cfg, ch) \<leftarrow> call_ring (\<lambda>_ ch. ch) 5 2 (eight_class\<lparr>mc_serialize := \<lambda>_. [1]\<rparr>) eight_class [[]]
           (ServiceData eight_class eight_class 1 0 7) initial_config empty_service_chan;
         (ok2, sd2, cfg, ch) \<leftarrow> call_ring (\<lambda>_ ch. ch) 5 2 (eight_class\<lparr>mc_serialize := \<lambda>_. [1]\<rparr>) eight_class
           [header_bytes eight_header @ replicate 8 1, header_bytes eight_header @ replicate 8 2]
           (ServiceData eight_class eight_class 2 0 7) cfg ch;
         Some (ok1, ok2, sd_resp_sample sd2) } =
    Some (False, True, Some \<lparr>sp_buf = header_bytes eight_header @ replicate 8 1, sp_msg_id = 7, sp_hash = 5\<rparr>)"
proof -
  let ?req = "eight_class\<lparr>mc_serialize := \<lambda>_. [1]\<rparr>" and ?late = "header_bytes eight_header @ replicate 8 (1 :: byte)"
  let ?sd1 = "ServiceData eight_class eight_class 1 0 7" and ?sd2 = "ServiceData eight_class eight_class 2 0 7"
  let ?cfg = "NoteDzFlatPublish False initial_config"
  have e: "sending (ch_end empty_service_chan)" "connections (ch_head empty_service_chan) \<noteq> 0"
    by (simp_all add: empty_service_chan_def example_chan_def)
  have push0: "fst (uni_push x (ch_ring empty_service_chan))" for x
    by (simp add: empty_service_chan_def example_chan_def uni_push_def index_values)
  obtain x r1 where s1: "send_message (\<lambda>_ ch. ch) 5 2 ?req initial_config (sd_request ?sd1) empty_service_chan =
        Some (True, ?cfg, empty_service_chan\<lparr>ch_acc := ch_acc empty_service_chan + 1, ch_ring := r1\<rparr>)" "uni_push x (ch_ring empty_service_chan) = (True, r1)"
    using small_sent [OF e push0, of initial_config ?req "sd_request ?sd1" 1 "\<lambda>_ ch. ch" 5 2] by (auto simp: initial_config_def)
  let ?ch1 = "empty_service_chan\<lparr>ch_acc := ch_acc empty_service_chan + 1, ch_ring := r1\<rparr>"
  have push1: "fst (uni_push y (ch_ring ?ch1))" for y
    using s1(2) by (auto simp: empty_service_chan_def example_chan_def uni_push_def index_values)
  have e1: "sending (ch_end ?ch1)" "connections (ch_head ?ch1) \<noteq> 0" using e by simp_all
  obtain y r2 where s2: "send_message (\<lambda>_ ch. ch) 5 2 ?req ?cfg (sd_request ?sd2) ?ch1 =
        Some (True, NoteDzFlatPublish False ?cfg, ?ch1\<lparr>ch_acc := ch_acc ?ch1 + 1, ch_ring := r2\<rparr>)" "uni_push y (ch_ring ?ch1) = (True, r2)"
    using small_sent [OF e1 push1, of ?cfg ?req "sd_request ?sd2" 1 "\<lambda>_ ch. ch" 5 2] by (auto simp: initial_config_def NoteDzFlatPublish_def)
  have late: "?late \<noteq> []" "looks_like_dzflat (Some ?late)" "dzflat_peek_msg_id (Some ?late) = Some (mc_msg_id eight_class (sd_response ?sd2))"
      "sh_schema_hash (header_of ?late) = mc_hash eight_class" "mc_hash eight_class \<noteq> 0"
    by (simp_all add: looks_like_dzflat_def dzflat_peek_msg_id_def eight_header_def eight_class_def number_class_def header_bytes_def header_of_def)
  have "mc_msg_id eight_class (sd_response ?sd2) = 7" "mc_hash eight_class = 5" by (simp_all add: eight_class_def number_class_def)
  then show ?thesis
    using late_response_taken [OF s1(1) s2(1) late, of "header_bytes eight_header @ replicate 8 2"] by (simp only: )
qed

end
