(* ===== verification/Locks.thy ===== *)
theory Locks
  imports Interfaces
begin

text \<open>
  The locks that live in shared memory (\<open>src/include/libipc/rw_lock.h\<close>): the spin lock and the lock of one
  writer or many readers, one atomic access of a thread per step, and the counting semaphore
  (\<open>src/include/libipc/count_sem.h\<close>), whose operations run under a mutex.
\<close>

section \<open>The spin lock\<close>

text \<open>A thread that holds nothing, spins in \<open>lock\<close>, or holds the lock.\<close>

datatype spin_pc = SOut | SSpin | SHeld

record spin_state =
  sp_lc :: u32
  sp_pc :: "spin_pc list"

definition spin_exchange :: "u32 \<Rightarrow> u32 \<times> spin_pc" where
  "spin_exchange lc = (1, if lc \<noteq> 0 then SSpin else SHeld)"

definition spin_unlock :: "u32 \<Rightarrow> u32 \<times> spin_pc" where
  "spin_unlock lc = (0, SOut)"

inductive spin_step :: "spin_state \<Rightarrow> spin_state \<Rightarrow> bool" where
  spin_call: "i < length (sp_pc s) \<Longrightarrow> sp_pc s ! i = SOut \<Longrightarrow> spin_step s (s\<lparr>sp_pc := (sp_pc s)[i := SSpin]\<rparr>)"
| spin_try: "i < length (sp_pc s) \<Longrightarrow> sp_pc s ! i = SSpin \<Longrightarrow> spin_exchange (sp_lc s) = (l, p) \<Longrightarrow>
     spin_step s \<lparr>sp_lc = l, sp_pc = (sp_pc s)[i := p]\<rparr>"
| spin_out: "i < length (sp_pc s) \<Longrightarrow> sp_pc s ! i = SHeld \<Longrightarrow> spin_unlock (sp_lc s) = (l, p) \<Longrightarrow>
     spin_step s \<lparr>sp_lc = l, sp_pc = (sp_pc s)[i := p]\<rparr>"

definition spin_init :: "nat \<Rightarrow> spin_state" where
  "spin_init n = \<lparr>sp_lc = 0, sp_pc = replicate n SOut\<rparr>"

abbreviation spin_reachable :: "nat \<Rightarrow> spin_state \<Rightarrow> bool" where
  "spin_reachable n \<equiv> reach (\<lambda>s. s = spin_init n) spin_step"

section \<open>The lock of readers and writers\<close>

definition w_mask :: u32 where
  "w_mask = 0x7FFFFFFF"

definition w_flag :: u32 where
  "w_flag = w_mask + 1"

text \<open>
  Where a thread is: outside, in the loop of \<open>lock\<close>, waiting for the readers, writing, before the first load of
  \<open>lock_shared\<close>, in its loop with the value it read last, and reading.
\<close>

datatype rw_pc = Out | Lock | Drain | Writing | SharedLoad | SharedTry u32 | Reading

text \<open>
  A thread outside calls \<open>lock\<close> or \<open>lock_shared\<close>; every other step of a thread is its next atomic access, where
  a compare-and-exchange may fail without a reason.
\<close>

datatype rw_act = CallLock | CallShared | Access bool

fun rw_next :: "rw_act \<Rightarrow> u32 \<Rightarrow> rw_pc \<Rightarrow> (u32 \<times> rw_pc) option" where
  "rw_next CallLock lc Out = Some (lc, Lock)"
| "rw_next CallShared lc Out = Some (lc, SharedLoad)"
| "rw_next (Access ok) lc Lock =
     Some (lc OR w_flag, if lc = 0 then Writing else if lc AND w_flag = 0 then Drain else Lock)"
| "rw_next (Access ok) lc Drain = Some (lc, if lc AND w_mask \<noteq> 0 then Drain else Writing)"
| "rw_next (Access ok) lc Writing = Some (0, Out)"
| "rw_next (Access ok) lc SharedLoad = Some (lc, SharedTry lc)"
| "rw_next (Access ok) lc (SharedTry old) =
     (if old AND w_flag \<noteq> 0 then Some (lc, SharedTry lc)
      else if lc = old \<and> ok then Some (old + 1, Reading)
      else Some (lc, SharedTry lc))"
| "rw_next (Access ok) lc Reading = Some (lc - 1, Out)"
| "rw_next a lc p = None"

record rw_state =
  rw_lc :: u32
  rw_threads :: "rw_pc list"

definition rw_run :: "nat \<Rightarrow> rw_act \<Rightarrow> rw_state \<Rightarrow> rw_state option" where
  "rw_run i a s =
     (if i < length (rw_threads s)
      then map_option (\<lambda>(l, p). \<lparr>rw_lc = l, rw_threads = (rw_threads s)[i := p]\<rparr>) (rw_next a (rw_lc s) (rw_threads s ! i))
      else None)"

inductive rw_step :: "rw_state \<Rightarrow> rw_state \<Rightarrow> bool" where
  rw_stepI: "rw_run i a s = Some s' \<Longrightarrow> rw_step s s'"

inductive_cases rw_stepE: "rw_step s s'"

definition rw_init :: "nat \<Rightarrow> rw_state" where
  "rw_init n = \<lparr>rw_lc = 0, rw_threads = replicate n Out\<rparr>"

abbreviation rw_reachable :: "nat \<Rightarrow> rw_state \<Rightarrow> bool" where
  "rw_reachable n \<equiv> reach (\<lambda>s. s = rw_init n) rw_step"

text \<open>How many threads are at a place.\<close>

definition at :: "('p \<Rightarrow> bool) \<Rightarrow> 'p list \<Rightarrow> nat" where
  "at P ps = length (filter P ps)"

abbreviation readers_in :: "rw_state \<Rightarrow> nat" where
  "readers_in s \<equiv> at (\<lambda>p. p = Reading) (rw_threads s)"

abbreviation writers_in :: "rw_state \<Rightarrow> nat" where
  "writers_in s \<equiv> at (\<lambda>p. p = Writing) (rw_threads s)"

section \<open>The counting semaphore\<close>

record count_sem =
  sem_count :: u32
  sem_max :: u32

definition try_wait :: "count_sem \<Rightarrow> bool \<times> count_sem" where
  "try_wait s = (if sem_count s = 0 then (False, s) else (True, s\<lparr>sem_count := sem_count s - 1\<rparr>))"

text \<open>\<open>wait\<close> without a limit returns when the count is positive; with one, the time may be over before: \<open>late\<close>.\<close>

definition sem_wait :: "u64 \<Rightarrow> bool \<Rightarrow> count_sem \<Rightarrow> (bool \<times> count_sem) option" where
  "sem_wait tm late s =
     (if tm = - 1 then (if 0 < sem_count s then Some (True, s\<lparr>sem_count := sem_count s - 1\<rparr>) else None)
      else if tm = 0 then Some (try_wait s)
      else if 0 < sem_count s then Some (True, s\<lparr>sem_count := sem_count s - 1\<rparr>)
      else if late then Some (False, s)
      else None)"

definition sem_post :: "u32 \<Rightarrow> count_sem \<Rightarrow> bool \<times> count_sem" where
  "sem_post count s =
     (if count = 0 then (True, s)
      else if sem_max s - count < sem_count s then (False, s)
      else (True, s\<lparr>sem_count := sem_count s + count\<rparr>))"

section \<open>Threads at a place\<close>

lemma at_update: "i < length ps \<Longrightarrow> at P (ps[i := p]) + of_bool (P (ps ! i)) = at P ps + of_bool (P p)"
proof (induction ps arbitrary: i)
  case (Cons q ps)
  then show ?case by (cases i) (auto simp: at_def)
qed simp

lemma at_le: "at P ps \<le> length ps"
  by (simp add: at_def)

lemma at_mono: "(\<And>p. P p \<Longrightarrow> Q p) \<Longrightarrow> at P ps \<le> at Q ps"
  by (induction ps) (auto simp: at_def)

lemma at_replicate [simp]: "at P (replicate n p) = (if P p then n else 0)"
  by (simp add: at_def)

lemma at_pos: "i < length ps \<Longrightarrow> P (ps ! i) \<Longrightarrow> 0 < at P ps"
  by (auto simp: at_def filter_empty_conv)

lemma at_none: "at P ps = 0 \<Longrightarrow> i < length ps \<Longrightarrow> \<not> P (ps ! i)"
  using at_pos by fastforce

lemma at_some: "0 < at P ps \<Longrightarrow> \<exists>i < length ps. P (ps ! i)"
  by (metis at_def bot_nat_0.extremum_strict filter_False in_set_conv_nth list.size(3))

section \<open>The lock word\<close>

text \<open>The number of readers in the low bits, and in the top bit whether a writer has the lock or waits for the readers.\<close>

definition lock_word :: "nat \<Rightarrow> bool \<Rightarrow> u32" where
  "lock_word r f = of_nat r + (if f then w_flag else 0)"

lemma w_flag_exp: "w_flag = 2 ^ 31"
  by (simp add: w_flag_def w_mask_def)

lemma w_mask_mask: "w_mask = mask 31"
  by (simp add: w_mask_def mask_eq_exp_minus_1)

lemma low_bits: "r < 2 ^ 31 \<Longrightarrow> take_bit 31 (of_nat r :: u32) = of_nat r"
  by (rule word_unat_eq_iff [THEN iffD2]) (simp add: unsigned_take_bit_eq unsigned_of_nat take_bit_nat_eq_self)

lemma low_flag: "r < 2 ^ 31 \<Longrightarrow> (of_nat r :: u32) AND w_flag = 0"
  unfolding w_flag_exp
  by (metis (no_types, lifting) and_exp_eq_0_iff_not_bit bit_take_bit_iff less_irrefl low_bits)

lemma lock_word_or: "r < 2 ^ 31 \<Longrightarrow> lock_word r f = of_nat r OR (if f then w_flag else 0)"
  by (cases f) (simp_all add: lock_word_def disjunctive_add_eq_or low_flag)

lemma w_flag_bits [simp]: "w_flag \<noteq> 0" "w_flag AND w_mask = 0" "w_flag AND w_flag = w_flag" "w_flag OR w_flag = w_flag"
  by (simp_all add: w_flag_def w_mask_def)

lemma lock_word_flag: "r < 2 ^ 31 \<Longrightarrow> lock_word r f AND w_flag = (if f then w_flag else 0)"
  by (simp add: lock_word_or bit.conj_disj_distrib2 low_flag)

lemma lock_word_mask: "r < 2 ^ 31 \<Longrightarrow> lock_word r f AND w_mask = of_nat r"
  by (simp add: lock_word_or bit.conj_disj_distrib2 w_mask_mask take_bit_eq_mask [symmetric] low_bits)
     (simp add: w_flag_exp take_bit_eq_mod)

lemma lock_word_set: "r < 2 ^ 31 \<Longrightarrow> lock_word r f OR w_flag = lock_word r True"
  by (simp add: lock_word_or or.assoc)

lemma of_nat_low_zero: "r < 2 ^ 31 \<Longrightarrow> (of_nat r :: u32) = 0 \<longleftrightarrow> r = 0"
  by (auto simp: word_of_nat_eq_0_iff dest: nat_dvd_not_less [rotated])

lemma lock_word_zero:
  assumes "r < 2 ^ 31"
  shows "lock_word r f = 0 \<longleftrightarrow> r = 0 \<and> \<not> f"
proof (cases f)
  case True
  then show ?thesis using lock_word_flag [OF assms, of True] by auto
next
  case False
  then show ?thesis using of_nat_low_zero [OF assms] by (simp add: lock_word_def)
qed

lemma lock_word_inc: "lock_word r f + 1 = lock_word (r + 1) f"
  by (simp add: lock_word_def)

lemma lock_word_dec: "0 < r \<Longrightarrow> lock_word r f - 1 = lock_word (r - 1) f"
  by (simp add: lock_word_def of_nat_diff)

section \<open>Writers and readers exclude each other\<close>

abbreviation owners_in :: "rw_state \<Rightarrow> nat" where
  "owners_in s \<equiv> at (\<lambda>p. p = Writing \<or> p = Drain) (rw_threads s)"

definition rw_inv :: "nat \<Rightarrow> rw_state \<Rightarrow> bool" where
  "rw_inv n s \<longleftrightarrow>
     length (rw_threads s) = n \<and> owners_in s \<le> 1 \<and> rw_lc s = lock_word (readers_in s) (owners_in s = 1) \<and>
     (0 < writers_in s \<longrightarrow> readers_in s = 0)"

lemma rw_inv_init: "rw_inv n (rw_init n)"
  by (simp add: rw_inv_def rw_init_def lock_word_def)

lemma rw_inv_step:
  assumes "rw_inv n s" "n < 2 ^ 31" "rw_step s s'"
  shows "rw_inv n s'"
proof -
  from assms(3) obtain i a where run: "rw_run i a s = Some s'" by (rule rw_stepE)
  then obtain l p where i: "i < length (rw_threads s)" and nxt: "rw_next a (rw_lc s) (rw_threads s ! i) = Some (l, p)"
    and s': "s' = \<lparr>rw_lc = l, rw_threads = (rw_threads s)[i := p]\<rparr>"
    by (auto simp: rw_run_def split: if_splits)
  let ?q = "rw_threads s ! i"
  have r: "readers_in s < 2 ^ 31"
    using assms(1,2) at_le [of "\<lambda>p. p = Reading" "rw_threads s"] by (simp add: rw_inv_def)
  have up: "readers_in s' + of_bool (?q = Reading) = readers_in s + of_bool (p = Reading)"
    "writers_in s' + of_bool (?q = Writing) = writers_in s + of_bool (p = Writing)"
    "owners_in s' + of_bool (?q = Writing \<or> ?q = Drain) = owners_in s + of_bool (p = Writing \<or> p = Drain)"
    using at_update [OF i, of "\<lambda>p. p = Reading" p] at_update [OF i, of "\<lambda>p. p = Writing" p]
      at_update [OF i, of "\<lambda>p. p = Writing \<or> p = Drain" p]
    by (simp_all only: s' rw_state.simps)
  have pos: "?q = Reading \<Longrightarrow> 0 < readers_in s" "?q = Writing \<Longrightarrow> 0 < writers_in s" "?q = Writing \<or> ?q = Drain \<Longrightarrow> 0 < owners_in s"
    using at_pos [OF i] by simp_all
  have le: "writers_in s \<le> owners_in s"
    by (rule at_mono) simp
  show ?thesis
  proof (cases ?q)
    case Reading
    then have p: "p = Out" "l = rw_lc s - 1" using nxt by (cases a; simp)+
    have "readers_in s - 1 = readers_in s'" using up(1) Reading p by simp
    then have "l = lock_word (readers_in s') (owners_in s = 1)"
      using lock_word_dec [OF pos(1) [OF Reading]] p assms(1) by (simp add: rw_inv_def)
    then show ?thesis using up pos le assms(1) p Reading by (auto simp: rw_inv_def s')
  next
    case Writing
    then show ?thesis using nxt up pos le assms(1) r
      by (cases a) (auto simp: rw_inv_def s' lock_word_def)
  next
    case Drain
    then show ?thesis using nxt up pos le assms(1) r
      by (cases a) (auto simp: rw_inv_def s' lock_word_mask of_nat_low_zero split: if_splits)
  next
    case Lock
    then show ?thesis using nxt up pos le assms(1) r
      by (cases a) (auto simp: rw_inv_def s' lock_word_flag lock_word_set lock_word_zero split: if_splits)
  next
    case (SharedTry old)
    show ?thesis
    proof (cases "p = Reading")
      case True
      then have lc: "rw_lc s AND w_flag = 0" "l = rw_lc s + 1" using nxt SharedTry by (cases a; simp split: if_splits)+
      then have "owners_in s \<noteq> 1" using lock_word_flag [OF r, of True] assms(1) by (auto simp: rw_inv_def)
      then have "owners_in s = 0" using assms(1) by (auto simp: rw_inv_def)
      then show ?thesis using lc up pos le assms(1) True SharedTry lock_word_inc [of "readers_in s" False]
        by (simp add: rw_inv_def s')
    next
      case False
      then show ?thesis using nxt up pos le assms(1) SharedTry
        by (cases a) (auto simp: rw_inv_def s' split: if_splits)
    qed
  qed (use nxt up pos le assms(1) in \<open>cases a; auto simp: rw_inv_def s'\<close>)+
qed

interpretation rw: step_invariant "\<lambda>s. s = rw_init n" rw_step "\<lambda>s. n < 2 ^ 31 \<longrightarrow> rw_inv n s" for n
  by unfold_locales (auto intro: rw_inv_init rw_inv_step)

lemma rw_invariant: "rw_reachable n s \<Longrightarrow> n < 2 ^ 31 \<Longrightarrow> rw_inv n s"
  using rw.reach_inv by blast

text \<open>The word says who is inside: it is zero when nobody holds the lock or waits for the readers.\<close>

lemma rw_free:
  assumes "rw_reachable n s" "n < 2 ^ 31"
  shows "rw_lc s = 0 \<longleftrightarrow> readers_in s = 0 \<and> owners_in s = 0"
proof -
  have i: "rw_inv n s" by (rule rw_invariant [OF assms])
  then have "readers_in s < 2 ^ 31" using at_le [of "\<lambda>p. p = Reading" "rw_threads s"] assms(2) by (simp add: rw_inv_def)
  then show ?thesis using i by (auto simp: rw_inv_def lock_word_zero)
qed

section \<open>No thread waits when nobody holds the lock\<close>

text \<open>\<open>k\<close> accesses of thread \<open>i\<close>, none of which fails without a reason.\<close>

primrec rw_accesses :: "nat \<Rightarrow> nat \<Rightarrow> rw_state \<Rightarrow> rw_state option" where
  "rw_accesses i 0 s = Some s"
| "rw_accesses i (Suc k) s = Option.bind (rw_run i (Access True) s) (rw_accesses i k)"

definition waits :: "rw_pc \<Rightarrow> bool" where
  "waits p \<longleftrightarrow> p \<noteq> Out \<and> p \<noteq> Writing \<and> p \<noteq> Reading"

definition holds :: "rw_pc \<Rightarrow> bool" where
  "holds p \<longleftrightarrow> p = Writing \<or> p = Reading"

section \<open>Executions\<close>

primrec rw_exec :: "(nat \<times> rw_act) list \<Rightarrow> rw_state \<Rightarrow> rw_state option" where
  "rw_exec [] s = Some s"
| "rw_exec (x # xs) s = Option.bind (rw_run (fst x) (snd x) s) (rw_exec xs)"

lemma rw_exec_reachable: "rw_exec xs s = Some s' \<Longrightarrow> rw_reachable n s \<Longrightarrow> rw_reachable n s'"
  by (induction xs arbitrary: s) (auto simp: bind_eq_Some_conv, metis reach_step rw_stepI)

section \<open>The spin lock\<close>

definition spin_inv :: "spin_state \<Rightarrow> bool" where
  "spin_inv s \<longleftrightarrow> sp_lc s = of_nat (at (\<lambda>p. p = SHeld) (sp_pc s)) \<and> at (\<lambda>p. p = SHeld) (sp_pc s) \<le> 1"

lemma spin_inv_step:
  assumes "spin_step s s'" "spin_inv s"
  shows "spin_inv s'"
  using assms(1)
proof cases
  case (spin_call i)
  then show ?thesis using assms(2) at_update [OF spin_call(2), of "\<lambda>p. p = SHeld" SSpin] by (simp add: spin_inv_def)
next
  case (spin_try i l p)
  have "at (\<lambda>p. p = SHeld) (sp_pc s) = 0 \<or> at (\<lambda>p. p = SHeld) (sp_pc s) = 1" using assms(2) by (auto simp: spin_inv_def)
  then show ?thesis using spin_try assms(2) at_update [OF spin_try(2), of "\<lambda>p. p = SHeld" p]
    by (auto simp: spin_inv_def spin_exchange_def split: if_splits)
next
  case (spin_out i l p)
  moreover have "at (\<lambda>p. p = SHeld) (sp_pc s) = 0 \<or> at (\<lambda>p. p = SHeld) (sp_pc s) = 1" using assms(2) by (auto simp: spin_inv_def)
  ultimately show ?thesis using at_update [OF spin_out(2), of "\<lambda>p. p = SHeld" p]
    by (auto simp: spin_inv_def spin_unlock_def)
qed

interpretation spin: step_invariant "\<lambda>s. s = spin_init n" spin_step spin_inv for n
proof unfold_locales
  show "spin_inv s" if "s = spin_init n" for s using that by (simp add: spin_inv_def spin_init_def)
qed (rule spin_inv_step)

lemma spin_exclusion: "spin_reachable n s \<Longrightarrow> at (\<lambda>p. p = SHeld) (sp_pc s) \<le> 1"
  using spin.reach_inv unfolding spin_inv_def by blast

section \<open>The counting semaphore\<close>

lemma sem_post_past_maximum:
  "sem_post 2 \<lparr>sem_count = 0, sem_max = 1\<rparr> = (True, \<lparr>sem_count = 2, sem_max = 1\<rparr>)"
  by (simp add: sem_post_def)

section \<open>Properties\<close>

text \<open>
  C15. However the accesses of the threads interleave, at most one thread writes, and no thread reads while one
  writes.
\<close>

theorem rw_exclusion:
  assumes "rw_reachable n s" "n < 2 ^ 31"
  shows "writers_in s \<le> 1 \<and> (0 < writers_in s \<longrightarrow> readers_in s = 0)"
proof -
  have "writers_in s \<le> owners_in s" by (rule at_mono) simp
  then show ?thesis using rw_invariant [OF assms] by (auto simp: rw_inv_def)
qed

lemma rw_exclusion_witness:
  "\<exists>s :: rw_state. rw_threads s = [Writing, Lock, SharedTry 0x80000000] \<and> writers_in s \<le> 1 \<and> (0 < writers_in s \<longrightarrow> readers_in s = 0)"
proof -
  let ?run = "[(1, CallLock), (0, CallLock), (2, CallShared), (0, Access True), (1, Access True), (2, Access True)]"
  obtain s where s: "rw_exec ?run (rw_init 3) = Some s" "rw_threads s = [Writing, Lock, SharedTry 0x80000000]"
    by (simp add: rw_init_def rw_run_def numeral_3_eq_3 w_flag_def w_mask_def)
  have "rw_reachable 3 s" by (rule rw_exec_reachable [OF s(1)]) (rule reach_init, simp)
  then show ?thesis using rw_exclusion [of 3 s] s(2) by auto
qed

text \<open>
  C20. The lock is never stuck: when nobody holds it, some thread that waits for it holds it after at most three of
  its own accesses.
\<close>

theorem rw_progress:
  assumes "rw_reachable n s" "n < 2 ^ 31" "at holds (rw_threads s) = 0" "0 < at waits (rw_threads s)"
  shows "\<exists>i k s'. k \<le> 3 \<and> rw_accesses i k s = Some s' \<and> i < n \<and> waits (rw_threads s ! i) \<and> holds (rw_threads s' ! i)"
proof -
  have inv: "rw_inv n s" by (rule rw_invariant [OF assms(1,2)])
  have none: "readers_in s = 0" "writers_in s = 0"
    using assms(3) by (auto simp: at_def filter_empty_conv holds_def)
  have lc: "rw_lc s = lock_word 0 (owners_in s = 1)" using inv none by (simp add: rw_inv_def)
  show ?thesis
  proof (cases "0 < owners_in s")
    case True
    then obtain i where i: "i < n" "rw_threads s ! i = Drain"
      using at_some [OF True] at_none [OF none(2)] inv by (auto simp: rw_inv_def)
    have "rw_accesses i 1 s = Some (s\<lparr>rw_threads := (rw_threads s)[i := Writing]\<rparr>)"
      using i inv lc True by (auto simp: rw_run_def rw_inv_def lock_word_mask [of 0, simplified])
    then show ?thesis using i inv
      by (intro exI [of _ i] exI [of _ 1] exI) (auto simp: waits_def holds_def rw_inv_def)
  next
    case False
    then have z: "rw_lc s = 0" using lc by (simp add: lock_word_def)
    obtain i where i: "i < n" "waits (rw_threads s ! i)" using at_some [OF assms(4)] inv by (auto simp: rw_inv_def)
    have l: "length (rw_threads s) = n" using inv by (simp add: rw_inv_def)
    have "\<exists>k s'. k \<le> 3 \<and> rw_accesses i k s = Some s' \<and> holds (rw_threads s' ! i)"
    proof (cases "rw_threads s ! i")
      case Lock
      then show ?thesis using i l z by (intro exI [of _ 1]) (simp add: rw_run_def holds_def)
    next
      case SharedLoad
      then show ?thesis using i l z
        by (intro exI [of _ 2]) (simp add: rw_run_def holds_def numeral_2_eq_2)
    next
      case (SharedTry old)
      show ?thesis
      proof (cases "old = 0")
        case True
        then show ?thesis using SharedTry i l z by (intro exI [of _ 1]) (simp add: rw_run_def holds_def)
      next
        case False
        then show ?thesis using SharedTry i l z
          by (intro exI [of _ 2]) (simp add: rw_run_def holds_def numeral_2_eq_2)
      qed
    next
      case Drain
      then show ?thesis using False at_pos [of i "rw_threads s" "\<lambda>p. p = Writing \<or> p = Drain"] i l by simp
    qed (use i in \<open>simp_all add: waits_def\<close>)
    then show ?thesis using i by blast
  qed
qed

lemma rw_progress_witness:
  "\<exists>(s :: rw_state) i k s'. rw_threads s = [Lock, Drain] \<and> k \<le> 3 \<and> rw_accesses i k s = Some s' \<and> i < 2 \<and> holds (rw_threads s' ! i)"
proof -
  let ?run = "[(0, CallShared), (0, Access True), (0, Access True), (1, CallLock), (1, Access True), (0, Access True),
               (0, CallLock)]"
  obtain s where s: "rw_exec ?run (rw_init 2) = Some s" "rw_threads s = [Lock, Drain]"
    by (simp add: rw_init_def rw_run_def numeral_2_eq_2 w_flag_def w_mask_def)
  have "rw_reachable 2 s" by (rule rw_exec_reachable [OF s(1)]) (rule reach_init, simp)
  moreover have "at holds (rw_threads s) = 0" "0 < at waits (rw_threads s)" using s(2) by (simp_all add: at_def holds_def waits_def)
  ultimately show ?thesis using rw_progress [of 2 s] s(2) by auto
qed

text \<open>
  A post within the maximum keeps the count of the semaphore below it, and adds exactly what was posted.
\<close>

theorem sem_post_bound:
  assumes "sem_post count s = (True, s')" "sem_count s \<le> sem_max s" "count \<le> sem_max s"
  shows "sem_count s' \<le> sem_max s' \<and> sem_max s' = sem_max s \<and> uint (sem_count s') = uint (sem_count s) + uint count"
proof -
  have "uint (sem_max s - count) = uint (sem_max s) - uint count" if "count \<le> sem_max s"
    using that by (simp add: uint_minus_simple_alt [symmetric] word_le_def)
  moreover have "uint (sem_max s) < 2 ^ 32" using uint_bounded [of "sem_max s"] by simp
  ultimately show ?thesis using assms
    by (auto simp: sem_post_def word_le_def word_less_def not_less uint_word_ariths split: if_splits)
qed

lemma sem_post_bound_witness:
  "sem_count \<lparr>sem_count = 5, sem_max = 7\<rparr> \<le> 7 \<and> sem_post 2 \<lparr>sem_count = 3, sem_max = 7\<rparr> = (True, \<lparr>sem_count = 5, sem_max = 7\<rparr>)"
proof -
  have p: "sem_post 2 \<lparr>sem_count = 3, sem_max = 7\<rparr> = (True, \<lparr>sem_count = 5, sem_max = 7\<rparr>)" by (simp add: sem_post_def)
  then show ?thesis using sem_post_bound [OF p] by simp
qed

end
