(* ===== verification/Waiter.thy ===== *)
theory Waiter
  imports Locks
begin

text \<open>
  Waiting for a change of the shared data (\<open>src/src/libipc/waiter.h\<close>): a mutex, a condition variable and the
  number of threads that wait, shared by all processes. Threads wait with \<open>wait_if\<close> until their predicate is
  false; a thread that has changed the data calls \<open>notify\<close> or \<open>broadcast\<close>, which look for waiting threads under
  the mutex and signal the condition variable after it. One access to the shared state per step; the mutex and the
  condition variable behave as POSIX documents them.
\<close>

section \<open>Threads and shared state\<close>

text \<open>
  Places in \<open>wait_if\<close>: before the mutex, at the test of \<open>quit_\<close>, at the predicate, before and after the count of the
  waiters goes up, asleep, awake without the mutex, before the count goes down, and at the return of a result. Places in
  \<open>wake\<close>, with whether all are to be woken: before \<open>seq\<close>, before the mutex, at the test of the count, at the end of the
  barrier with whether nobody waits, and before the signal.
\<close>

datatype wt_pc = Idle
  | WEnter | WQuit | WPred | WCount | WCall | WAsleep | WWoken bool | WBack bool | WDone bool
  | KSeq bool | KEnter bool | KTest bool | KLeave bool bool | KSignal bool

record 'd wt_shared =
  wt_data :: 'd
  wt_quit :: "nat \<Rightarrow> bool"
  wt_waiters :: u32
  wt_seq :: u32
  wt_lock :: "nat option"

text \<open>
  What a thread does next: an idle one calls \<open>wait_if\<close>, changes the data and calls \<open>broadcast\<close> or \<open>notify\<close>,
  changes the data without a call, or calls \<open>quit_waiting\<close>; \<open>Go\<close> is the next access of a call, \<open>Timeout\<close> the end of the time of a sleeper, \<open>Spurious\<close> its
  waking without a signal, and \<open>Signal\<close> the signal to one thread.
\<close>

datatype 'd wt_act = CallWait | Change 'd bool | Quiet 'd | QuitWaiting | Go | Timeout | Spurious | Signal nat

definition wt_acquire :: "nat \<Rightarrow> 'd wt_shared \<Rightarrow> wt_pc \<Rightarrow> ('d wt_shared \<times> wt_pc) option" where
  "wt_acquire i s p = (if wt_lock s = None then Some (s\<lparr>wt_lock := Some i\<rparr>, p) else None)"

text \<open>
  \<open>pred i d\<close> is the predicate of thread \<open>i\<close>, true when it has to wait, with its effect on the data; \<open>obj i\<close> is the
  object, and with it the flag \<open>quit_\<close>, that the thread uses.
\<close>

definition on_go :: "'d wt_act \<Rightarrow> 'r option \<Rightarrow> 'r option" where
  "on_go a r = (case a of Go \<Rightarrow> r | _ \<Rightarrow> None)"

definition wait_next :: "(nat \<Rightarrow> nat) \<Rightarrow> (nat \<Rightarrow> 'd \<Rightarrow> bool \<times> 'd) \<Rightarrow> nat \<Rightarrow> 'd wt_act \<Rightarrow> 'd wt_shared \<Rightarrow> wt_pc \<Rightarrow>
    ('d wt_shared \<times> wt_pc) option" where
  "wait_next obj pred i a s p =
     (case p of
        Idle \<Rightarrow> (case a of CallWait \<Rightarrow> Some (s, WEnter) | _ \<Rightarrow> None)
      | WEnter \<Rightarrow> on_go a (wt_acquire i s WQuit)
      | WQuit \<Rightarrow> on_go a (Some (s, if wt_quit s (obj i) then WDone True else WPred))
      | WPred \<Rightarrow> on_go a (let (w, d) = pred i (wt_data s) in Some (s\<lparr>wt_data := d\<rparr>, if w then WCount else WDone True))
      | WCount \<Rightarrow> on_go a (Some (s\<lparr>wt_waiters := wt_waiters s + 1\<rparr>, WCall))
      | WCall \<Rightarrow> on_go a (Some (s\<lparr>wt_lock := None\<rparr>, WAsleep))
      | WAsleep \<Rightarrow> (case a of Timeout \<Rightarrow> Some (s, WWoken False) | Spurious \<Rightarrow> Some (s, WWoken True) | _ \<Rightarrow> None)
      | WWoken ok \<Rightarrow> on_go a (wt_acquire i s (WBack ok))
      | WBack ok \<Rightarrow> on_go a (Some (s\<lparr>wt_waiters := wt_waiters s - 1\<rparr>, if ok then WQuit else WDone False))
      | WDone r \<Rightarrow> on_go a (Some (s\<lparr>wt_lock := None\<rparr>, Idle))
      | _ \<Rightarrow> None)"

definition wake_next :: "(nat \<Rightarrow> nat) \<Rightarrow> nat \<Rightarrow> 'd wt_act \<Rightarrow> 'd wt_shared \<Rightarrow> wt_pc \<Rightarrow> ('d wt_shared \<times> wt_pc) option" where
  "wake_next obj i a s p =
     (case p of
        Idle \<Rightarrow>
          (case a of
             Change d all \<Rightarrow> Some (s\<lparr>wt_data := d\<rparr>, KSeq all)
           | Quiet d \<Rightarrow> Some (s\<lparr>wt_data := d\<rparr>, Idle)
           | QuitWaiting \<Rightarrow> Some (s\<lparr>wt_quit := (wt_quit s)(obj i := True)\<rparr>, KSeq True)
           | _ \<Rightarrow> None)
      | KSeq all \<Rightarrow> on_go a (Some (s\<lparr>wt_seq := wt_seq s + 1\<rparr>, KEnter all))
      | KEnter all \<Rightarrow> on_go a (wt_acquire i s (KTest all))
      | KTest all \<Rightarrow> on_go a (Some (s, KLeave all (wt_waiters s = 0)))
      | KLeave all none \<Rightarrow> on_go a (Some (s\<lparr>wt_lock := None\<rparr>, if none then Idle else KSignal all))
      | _ \<Rightarrow> None)"

text \<open>The signal wakes the sleepers.\<close>

definition wake_sleeper :: "wt_pc \<Rightarrow> wt_pc" where
  "wake_sleeper p = (if p = WAsleep then WWoken True else p)"

definition signal_next :: "'d wt_act \<Rightarrow> wt_pc \<Rightarrow> wt_pc list \<Rightarrow> wt_pc list option" where
  "signal_next a p ps =
     (case p of
        KSignal all \<Rightarrow>
          if all then on_go a (Some (map wake_sleeper ps))
          else (case a of
                  Signal j \<Rightarrow>
                    if j < length ps \<and> ps ! j = WAsleep then Some (ps[j := WWoken True])
                    else if WAsleep \<notin> set ps then Some ps
                    else None
                | _ \<Rightarrow> None)
      | _ \<Rightarrow> None)"

record 'd wt_state =
  wt_shared :: "'d wt_shared"
  wt_threads :: "wt_pc list"

definition wt_run :: "(nat \<Rightarrow> nat) \<Rightarrow> (nat \<Rightarrow> 'd \<Rightarrow> bool \<times> 'd) \<Rightarrow> nat \<Rightarrow> 'd wt_act \<Rightarrow> 'd wt_state \<Rightarrow> 'd wt_state option" where
  "wt_run obj pred i a s =
     (let ps = wt_threads s
      in if length ps \<le> i then None
         else case signal_next a (ps ! i) ps of
                Some ps' \<Rightarrow> Some (s\<lparr>wt_threads := ps'[i := Idle]\<rparr>)
              | None \<Rightarrow>
                  (case wait_next obj pred i a (wt_shared s) (ps ! i) of
                     Some (h, p) \<Rightarrow> Some \<lparr>wt_shared = h, wt_threads = ps[i := p]\<rparr>
                   | None \<Rightarrow> map_option (\<lambda>(h, p). \<lparr>wt_shared = h, wt_threads = ps[i := p]\<rparr>)
                               (wake_next obj i a (wt_shared s) (ps ! i))))"

text \<open>
  Changes are announced with \<open>broadcast\<close>, or some with \<open>notify\<close>; a change that is not announced lets nobody go on
  who had to wait.
\<close>

inductive wt_step :: "bool \<Rightarrow> (nat \<Rightarrow> nat) \<Rightarrow> (nat \<Rightarrow> 'd \<Rightarrow> bool \<times> 'd) \<Rightarrow> 'd wt_state \<Rightarrow> 'd wt_state \<Rightarrow> bool" for one obj pred where
  wt_stepI: "wt_run obj pred i a s = Some s' \<Longrightarrow> one \<or> (\<forall>d. a \<noteq> Change d False) \<Longrightarrow>
     (\<And>d j. a = Quiet d \<Longrightarrow> fst (pred j (wt_data (wt_shared s))) \<Longrightarrow> fst (pred j d)) \<Longrightarrow> wt_step one obj pred s s'"

inductive_cases wt_stepE: "wt_step one obj pred s s'"

definition wt_init :: "'d \<Rightarrow> nat \<Rightarrow> 'd wt_state" where
  "wt_init d n = \<lparr>wt_shared = \<lparr>wt_data = d, wt_quit = (\<lambda>_. False), wt_waiters = 0, wt_seq = 0, wt_lock = None\<rparr>,
                  wt_threads = replicate n Idle\<rparr>"

abbreviation wt_reachable :: "bool \<Rightarrow> (nat \<Rightarrow> nat) \<Rightarrow> (nat \<Rightarrow> 'd \<Rightarrow> bool \<times> 'd) \<Rightarrow> 'd \<Rightarrow> nat \<Rightarrow> 'd wt_state \<Rightarrow> bool" where
  "wt_reachable one obj pred d n \<equiv> reach (\<lambda>s. s = wt_init d n) (wt_step one obj pred)"

section \<open>Polling before the wait\<close>

text \<open>
  \<open>wait_for\<close> of \<open>ipc.cpp\<close>: the answers of the predicate in the order of its calls, and the result of \<open>wait_if\<close>,
  which is called after 32 answers have been true.
\<close>

function wait_polls :: "nat \<Rightarrow> (nat \<Rightarrow> bool) \<Rightarrow> bool \<Rightarrow> bool" where
  "wait_polls k p w = (if \<not> p k then True else if k < 32 then wait_polls (k + 1) p w else w)"
  by auto

termination by (relation "measure (\<lambda>(k, p, w). 32 - k)") auto

declare wait_polls.simps [simp del]

definition wait_for :: "u64 \<Rightarrow> (nat \<Rightarrow> bool) \<Rightarrow> bool \<Rightarrow> bool" where
  "wait_for tm p w = (if tm = 0 then \<not> p 0 else wait_polls 0 p w)"

section \<open>The mutex and the count\<close>

definition in_mutex :: "wt_pc \<Rightarrow> bool" where
  "in_mutex p = (case p of WQuit \<Rightarrow> True | WPred \<Rightarrow> True | WCount \<Rightarrow> True | WCall \<Rightarrow> True | WBack _ \<Rightarrow> True | WDone _ \<Rightarrow> True
                 | KTest _ \<Rightarrow> True | KLeave _ _ \<Rightarrow> True | _ \<Rightarrow> False)"

definition counted :: "wt_pc \<Rightarrow> bool" where
  "counted p = (case p of WCall \<Rightarrow> True | WAsleep \<Rightarrow> True | WWoken _ \<Rightarrow> True | WBack _ \<Rightarrow> True | _ \<Rightarrow> False)"

definition mutex_inv :: "'d wt_state \<Rightarrow> bool" where
  "mutex_inv s \<longleftrightarrow> (\<forall>i < length (wt_threads s). in_mutex (wt_threads s ! i) \<longleftrightarrow> wt_lock (wt_shared s) = Some i)"

definition count_inv :: "'d wt_state \<Rightarrow> bool" where
  "count_inv s \<longleftrightarrow> wt_waiters (wt_shared s) = of_nat (at counted (wt_threads s))"

lemma wait_next_mutex:
  "wait_next obj pred i a h p = Some (h', p') \<Longrightarrow> in_mutex p = (wt_lock h = Some i) \<Longrightarrow>
     in_mutex p' = (wt_lock h' = Some i) \<and> (\<forall>j. j \<noteq> i \<longrightarrow> (wt_lock h' = Some j) = (wt_lock h = Some j))"
  by (cases p; cases a) (auto simp: wait_next_def on_go_def in_mutex_def wt_acquire_def split: if_splits prod.splits)

lemma wake_next_mutex:
  "wake_next obj i a h p = Some (h', p') \<Longrightarrow> in_mutex p = (wt_lock h = Some i) \<Longrightarrow>
     in_mutex p' = (wt_lock h' = Some i) \<and> (\<forall>j. j \<noteq> i \<longrightarrow> (wt_lock h' = Some j) = (wt_lock h = Some j))"
  by (cases p; cases a) (auto simp: wake_next_def on_go_def in_mutex_def wt_acquire_def split: if_splits)

lemma wait_next_count:
  "wait_next obj pred i a h p = Some (h', p') \<Longrightarrow>
     wt_waiters h' + of_bool (counted p) = wt_waiters h + of_bool (counted p')"
  by (cases p; cases a) (auto simp: wait_next_def on_go_def counted_def wt_acquire_def split: if_splits prod.splits)

lemma wake_next_count:
  "wake_next obj i a h p = Some (h', p') \<Longrightarrow> wt_waiters h' = wt_waiters h \<and> \<not> counted p \<and> \<not> counted p'"
  by (cases p; cases a) (auto simp: wake_next_def on_go_def counted_def wt_acquire_def split: if_splits)

lemma signal_next_wakes:
  "signal_next a p ps = Some ps' \<Longrightarrow> length ps' = length ps \<and> (\<exists>all. p = KSignal all) \<and>
     (\<forall>j < length ps. ps' ! j = ps ! j \<or> ps ! j = WAsleep \<and> ps' ! j = WWoken True) \<and>
     (p = KSignal True \<longrightarrow> WAsleep \<notin> set ps')"
  by (cases p; cases a) (auto simp: signal_next_def on_go_def wake_sleeper_def nth_list_update split: if_splits)

text \<open>The three kinds of steps.\<close>

lemma wt_run_cases:
  assumes "wt_run obj pred i a s = Some s'"
  obtains (signal) ps' where "i < length (wt_threads s)" "signal_next a (wt_threads s ! i) (wt_threads s) = Some ps'"
      "s' = s\<lparr>wt_threads := ps'[i := Idle]\<rparr>"
  | (wait) h p where "i < length (wt_threads s)" "wait_next obj pred i a (wt_shared s) (wt_threads s ! i) = Some (h, p)"
      "s' = \<lparr>wt_shared = h, wt_threads = (wt_threads s)[i := p]\<rparr>"
  | (wake) h p where "i < length (wt_threads s)" "wake_next obj i a (wt_shared s) (wt_threads s ! i) = Some (h, p)"
      "s' = \<lparr>wt_shared = h, wt_threads = (wt_threads s)[i := p]\<rparr>"
  using assms by (auto simp: wt_run_def Let_def split: if_splits option.splits)

lemma at_cong: "length ps' = length ps \<Longrightarrow> (\<And>j. j < length ps \<Longrightarrow> P (ps' ! j) = P (ps ! j)) \<Longrightarrow> at P ps' = at P ps"
proof (induction ps arbitrary: ps')
  case (Cons q ps)
  then obtain q' qs where q: "ps' = q' # qs" by (cases ps') auto
  then show ?case using Cons.IH [of qs] Cons.prems Cons.prems(2) [of 0] Cons.prems(2) [of "Suc _"]
    by (auto simp: at_def)
qed (simp add: at_def)

definition wt_inv :: "'d wt_state \<Rightarrow> bool" where
  "wt_inv s \<longleftrightarrow> mutex_inv s \<and> count_inv s"

lemma wt_inv_run:
  assumes run: "wt_run obj pred i a s = Some s'" and inv: "wt_inv s"
  shows "wt_inv s' \<and> length (wt_threads s') = length (wt_threads s)"
  using run
proof (cases rule: wt_run_cases)
  case (signal ps')
  note w = signal_next_wakes [OF signal(2)]
  have "in_mutex (ps'[i := Idle] ! j) = in_mutex (wt_threads s ! j) \<and> counted (ps'[i := Idle] ! j) = counted (wt_threads s ! j)"
    if "j < length (wt_threads s)" for j
    using w signal(1) that by (cases "j = i") (auto simp: in_mutex_def counted_def)
  then have "at counted (ps'[i := Idle]) = at counted (wt_threads s)"
    "\<And>j. j < length (wt_threads s) \<Longrightarrow> in_mutex (ps'[i := Idle] ! j) = in_mutex (wt_threads s ! j)"
    using w by (auto intro!: at_cong)
  then show ?thesis using inv w by (simp add: wt_inv_def mutex_inv_def count_inv_def signal(3))
next
  case (wait h p)
  let ?n = "\<lambda>ps. of_nat (at counted ps) :: u32"
  have "wt_waiters h + of_bool (counted (wt_threads s ! i)) = ?n (wt_threads s) + of_bool (counted p)"
    using wait_next_count [OF wait(2)] inv by (simp add: wt_inv_def count_inv_def)
  moreover have "?n ((wt_threads s)[i := p]) + of_bool (counted (wt_threads s ! i)) = ?n (wt_threads s) + of_bool (counted p)"
    using arg_cong [OF at_update [OF wait(1), of counted p], of "of_nat :: nat \<Rightarrow> u32"] by simp
  ultimately have "wt_waiters h = ?n ((wt_threads s)[i := p])" by (metis add_right_cancel)
  then show ?thesis using inv wait wait_next_mutex [OF wait(2)]
    by (auto simp: wt_inv_def mutex_inv_def count_inv_def nth_list_update)
next
  case (wake h p)
  then show ?thesis using inv wake_next_mutex [OF wake(2)] wake_next_count [OF wake(2)] at_update [OF wake(1), of counted p]
    by (auto simp: wt_inv_def mutex_inv_def count_inv_def nth_list_update)
qed

interpretation wt: step_invariant "\<lambda>s. s = wt_init d n" "wt_step one obj pred" "\<lambda>s. wt_inv s \<and> length (wt_threads s) = n"
  for d n one obj pred
  by unfold_locales
     (auto simp: wt_inv_def mutex_inv_def count_inv_def wt_init_def in_mutex_def counted_def elim!: wt_stepE
           dest: wt_inv_run [unfolded wt_inv_def mutex_inv_def count_inv_def])

section \<open>No wake-up is lost\<close>

definition stays :: "(nat \<Rightarrow> nat) \<Rightarrow> (nat \<Rightarrow> 'd \<Rightarrow> bool \<times> 'd) \<Rightarrow> nat \<Rightarrow> 'd wt_shared \<Rightarrow> bool" where
  "stays obj pred i h \<longleftrightarrow> \<not> wt_quit h (obj i) \<and> fst (pred i (wt_data h))"

text \<open>A call of \<open>broadcast\<close> before its test of the count, and one that is going to signal.\<close>

definition early :: "wt_pc \<Rightarrow> bool" where
  "early p \<longleftrightarrow> p = KSeq True \<or> p = KEnter True"

definition waking :: "wt_pc \<Rightarrow> bool" where
  "waking p \<longleftrightarrow> early p \<or> p = KTest True \<or> p = KLeave True False \<or> p = KSignal True"

definition to_one :: "wt_pc \<Rightarrow> bool" where
  "to_one p \<longleftrightarrow> p = KSeq False \<or> p = KEnter False \<or> p = KTest False \<or> (\<exists>b. p = KLeave False b) \<or> p = KSignal False"

lemma to_one_wait [simp]: "\<not> to_one Idle" "\<not> to_one (WWoken b)"
  by (simp_all add: to_one_def)

lemma in_mutex_wait [simp]: "in_mutex WPred" "in_mutex WCount" "in_mutex WCall"
  by (simp_all add: in_mutex_def)

definition some_at :: "(wt_pc \<Rightarrow> bool) \<Rightarrow> wt_pc list \<Rightarrow> bool" where
  "some_at P ps \<longleftrightarrow> (\<exists>k < length ps. P (ps ! k))"

definition wakeup_inv :: "(nat \<Rightarrow> nat) \<Rightarrow> (nat \<Rightarrow> 'd \<Rightarrow> bool \<times> 'd) \<Rightarrow> 'd wt_state \<Rightarrow> bool" where
  "wakeup_inv obj pred s \<longleftrightarrow>
     (\<forall>i < length (wt_threads s).
        \<not> to_one (wt_threads s ! i) \<and>
        (wt_threads s ! i = WPred \<longrightarrow> \<not> wt_quit (wt_shared s) (obj i) \<or> some_at early (wt_threads s)) \<and>
        (wt_threads s ! i = WCount \<or> wt_threads s ! i = WCall \<longrightarrow> stays obj pred i (wt_shared s) \<or> some_at early (wt_threads s)) \<and>
        (wt_threads s ! i = WAsleep \<longrightarrow> stays obj pred i (wt_shared s) \<or> some_at waking (wt_threads s)))"

lemma wait_next_facts:
  "wait_next obj pred i a h p = Some (h', p') \<Longrightarrow>
     wt_quit h' = wt_quit h \<and> (wt_data h' = wt_data h \<or> wt_data h' = snd (pred i (wt_data h))) \<and>
     \<not> waking p \<and> \<not> waking p' \<and> \<not> early p \<and> \<not> early p' \<and> \<not> to_one p' \<and>
     (p' = WPred \<longrightarrow> \<not> wt_quit h (obj i)) \<and>
     (p' = WCount \<longrightarrow> p = WPred \<and> fst (pred i (wt_data h)) \<and> wt_data h' = snd (pred i (wt_data h))) \<and>
     (p' = WCall \<longrightarrow> p = WCount \<and> wt_data h' = wt_data h) \<and>
     (p' = WAsleep \<longrightarrow> p = WCall \<and> wt_data h' = wt_data h)"
  by (cases p; cases a) (auto simp: wait_next_def on_go_def waking_def early_def to_one_def wt_acquire_def split: if_splits prod.splits)

lemma wake_next_facts:
  "wake_next obj i a h p = Some (h', p') \<Longrightarrow> (\<forall>d. a \<noteq> Change d False) \<Longrightarrow> \<not> to_one p \<Longrightarrow>
     p' \<notin> {WPred, WCount, WCall, WAsleep} \<and> \<not> to_one p' \<and>
     (early p' \<or> wt_quit h' = wt_quit h \<and> (wt_data h' = wt_data h \<or> (\<exists>d. a = Quiet d \<and> wt_data h' = d))) \<and>
     (early p \<longrightarrow> early p' \<or> wt_lock h = None) \<and>
     (waking p \<longrightarrow> waking p' \<or> wt_waiters h = 0)"
  by (cases p; cases a) (auto simp: wake_next_def on_go_def waking_def early_def to_one_def wt_acquire_def split: if_splits)

lemma some_at_keeps: "some_at P ps \<Longrightarrow> i < length ps \<Longrightarrow> (P (ps ! i) \<longrightarrow> P p) \<Longrightarrow> some_at P (ps[i := p])"
  unfolding some_at_def by (metis length_list_update nth_list_update)

lemma some_at_here: "i < length ps \<Longrightarrow> P p \<Longrightarrow> some_at P (ps[i := p])"
  unfolding some_at_def by (metis length_list_update nth_list_update_eq)

lemma early_waking: "some_at early ps \<Longrightarrow> some_at waking ps"
  by (auto simp: some_at_def waking_def)

text \<open>What the predicate of a thread does to the data lets nobody go on who has to wait.\<close>

definition harmless :: "(nat \<Rightarrow> 'd \<Rightarrow> bool \<times> 'd) \<Rightarrow> bool" where
  "harmless pred \<longleftrightarrow> (\<forall>i j d. fst (pred j d) \<longrightarrow> fst (pred j (snd (pred i d))))"

lemma wakeup_signal:
  assumes inv: "wakeup_inv obj pred s" and i: "i < length (wt_threads s)"
    and sig: "signal_next a (wt_threads s ! i) (wt_threads s) = Some ps'"
  shows "wakeup_inv obj pred (s\<lparr>wt_threads := ps'[i := Idle]\<rparr>)"
proof -
  note w = signal_next_wakes [OF sig]
  have "wt_threads s ! i = KSignal True" using w inv i by (auto simp: wakeup_inv_def to_one_def)
  then have none: "WAsleep \<notin> set ps'" and not_early: "\<not> early (wt_threads s ! i)" using w by (auto simp: early_def)
  have early: "some_at early (ps'[i := Idle])" if "some_at early (wt_threads s)"
  proof -
    from that obtain k where k: "k < length (wt_threads s)" "early (wt_threads s ! k)" by (auto simp: some_at_def)
    then have "k \<noteq> i" "ps' ! k = wt_threads s ! k" using not_early w by (auto simp: early_def)
    then show ?thesis using k w unfolding some_at_def by (intro exI [of _ k]) auto
  qed
  have asleep: "ps' ! j \<noteq> WAsleep" if "j < length ps'" for j using none that by (metis nth_mem)
  show ?thesis unfolding wakeup_inv_def
  proof (intro allI impI, goal_cases)
    case (1 j)
    then have j: "j < length (wt_threads s)" "j < length ps'" using w by auto
    show ?case
    proof (cases "j = i")
      case True
      then show ?thesis using j by simp
    next
      case False
      then have "ps' ! j = wt_threads s ! j \<or> ps' ! j = WWoken True" using w j by auto
      then show ?thesis using False asleep [OF j(2)] early inv [unfolded wakeup_inv_def, rule_format, OF j(1)]
        by (auto simp: stays_def)
    qed
  qed
qed

lemma wakeup_wait:
  assumes inv: "wakeup_inv obj pred s" and i: "i < length (wt_threads s)" and h: "harmless pred"
    and go: "wait_next obj pred i a (wt_shared s) (wt_threads s ! i) = Some (h', p)"
  shows "wakeup_inv obj pred \<lparr>wt_shared = h', wt_threads = (wt_threads s)[i := p]\<rparr>"
proof -
  note f = wait_next_facts [OF go]
  have stay: "stays obj pred j h'" if "stays obj pred j (wt_shared s)" for j
    using that f h by (auto simp: stays_def harmless_def)
  have keep: "some_at P ((wt_threads s)[i := p])" if "some_at P (wt_threads s)" "P = early \<or> P = waking" for P
    using that f by (auto intro!: some_at_keeps i)
  have "fst (pred i (wt_data h'))" if "p = WCount" using that f h by (simp add: harmless_def)
  then show ?thesis using inv f stay keep early_waking [of "wt_threads s"] i unfolding wakeup_inv_def
    by (simp add: nth_list_update stays_def) blast
qed

lemma wakeup_wake:
  assumes inv: "wakeup_inv obj pred s" "wt_inv s" and i: "i < length (wt_threads s)"
    and go: "wake_next obj i a (wt_shared s) (wt_threads s ! i) = Some (h', p)"
    and all: "\<forall>d. a \<noteq> Change d False"
    and quiet: "\<And>d j. a = Quiet d \<Longrightarrow> fst (pred j (wt_data (wt_shared s))) \<Longrightarrow> fst (pred j d)"
    and small: "length (wt_threads s) < 2 ^ 32"
  shows "wakeup_inv obj pred \<lparr>wt_shared = h', wt_threads = (wt_threads s)[i := p]\<rparr>"
proof -
  let ?ps = "(wt_threads s)[i := p]"
  have "\<not> to_one (wt_threads s ! i)" using inv(1) i by (simp add: wakeup_inv_def)
  note f = wake_next_facts [OF go all this]
  show ?thesis
  proof (cases "early p")
    case True
    then have "some_at early ?ps" by (rule some_at_here [OF i])
    then have "some_at early ?ps" "some_at waking ?ps" by (simp_all add: early_waking)
    then show ?thesis unfolding wakeup_inv_def
    proof (intro allI impI, goal_cases)
      case (1 j)
      then show ?case using f inv(1) i by (cases "j = i") (simp_all add: wakeup_inv_def)
    qed
  next
    case False
    have stay: "stays obj pred j h'" if "stays obj pred j (wt_shared s)" for j
      using that f False quiet by (auto simp: stays_def)
    have early: "some_at early ?ps" if "some_at early (wt_threads s)" "wt_lock (wt_shared s) \<noteq> None"
      using that f False by (auto intro!: some_at_keeps i)
    have waking: "some_at waking ?ps" if "some_at waking (wt_threads s)" "j < length (wt_threads s)" "wt_threads s ! j = WAsleep" for j
    proof -
      have "0 < at counted (wt_threads s)" using at_pos [OF that(2), of counted] that(3) by (simp add: counted_def)
      moreover have "at counted (wt_threads s) < 2 ^ 32" using at_le [of counted "wt_threads s"] small by simp
      ultimately have "wt_waiters (wt_shared s) \<noteq> 0"
        using inv(2) by (auto simp: wt_inv_def count_inv_def word_of_nat_eq_0_iff dest: nat_dvd_not_less [rotated])
      then show ?thesis using that(1) f by (auto intro!: some_at_keeps i)
    qed
    have locked: "wt_lock (wt_shared s) \<noteq> None" if "j < length (wt_threads s)" "in_mutex (wt_threads s ! j)" for j
      using inv(2) that by (auto simp: wt_inv_def mutex_inv_def)
    show ?thesis unfolding wakeup_inv_def
    proof (intro allI impI, goal_cases)
      case (1 j)
      then have j: "j < length (wt_threads s)" by simp
      show ?case
      proof (cases "j = i")
        case True
        then show ?thesis using f j by simp
      next
        case False
        have "wt_quit h' = wt_quit (wt_shared s)" using f \<open>\<not> early p\<close> by simp
        then show ?thesis
          using False inv(1) [unfolded wakeup_inv_def, rule_format, OF j] stay [of j] early waking [OF _ j] locked [OF j]
          by (cases "wt_threads s ! j") auto
      qed
    qed
  qed
qed

lemma wakeup_step:
  assumes step: "wt_step False obj pred s s'" and inv: "wt_inv s" "wakeup_inv obj pred s"
    and "harmless pred" "length (wt_threads s) < 2 ^ 32"
  shows "wakeup_inv obj pred s'"
proof -
  from step obtain k a where run: "wt_run obj pred k a s = Some s'" "\<forall>d. a \<noteq> Change d False"
    "\<And>d j. a = Quiet d \<Longrightarrow> fst (pred j (wt_data (wt_shared s))) \<Longrightarrow> fst (pred j d)"
    by (auto elim!: wt_stepE)
  from run(1) show ?thesis
  proof (cases rule: wt_run_cases)
    case (signal ps')
    then show ?thesis using wakeup_signal [OF inv(2)] by simp
  next
    case (wait h p)
    then show ?thesis using wakeup_wait [OF inv(2) _ assms(4)] by simp
  next
    case (wake h p)
    then show ?thesis using wakeup_wake [OF inv(2,1) wake(1,2) run(2,3) assms(5)] by simp
  qed
qed

interpretation wk: step_invariant "\<lambda>s. s = wt_init d n" "wt_step False obj pred"
    "\<lambda>s. wt_inv s \<and> length (wt_threads s) = n \<and> (harmless pred \<longrightarrow> n < 2 ^ 32 \<longrightarrow> wakeup_inv obj pred s)"
  for d n obj pred
proof unfold_locales
  fix s :: "'a wt_state" assume "s = wt_init d n"
  then show "wt_inv s \<and> length (wt_threads s) = n \<and> (harmless pred \<longrightarrow> n < 2 ^ 32 \<longrightarrow> wakeup_inv obj pred s)"
    using wt.inv_init [of s d n] by (simp add: wakeup_inv_def wt_init_def)
next
  fix s s' :: "'a wt_state"
  assume "wt_inv s \<and> length (wt_threads s) = n \<and> (harmless pred \<longrightarrow> n < 2 ^ 32 \<longrightarrow> wakeup_inv obj pred s)"
    and "wt_step False obj pred s s'"
  then show "wt_inv s' \<and> length (wt_threads s') = n \<and> (harmless pred \<longrightarrow> n < 2 ^ 32 \<longrightarrow> wakeup_inv obj pred s')"
    using wakeup_step [of obj pred s s'] wt.inv_step [of s n False obj pred s'] by blast
qed

section \<open>Executions\<close>

primrec wt_exec :: "(nat \<Rightarrow> nat) \<Rightarrow> (nat \<Rightarrow> 'd \<Rightarrow> bool \<times> 'd) \<Rightarrow> (nat \<times> 'd wt_act) list \<Rightarrow> 'd wt_state \<Rightarrow> 'd wt_state option" where
  "wt_exec obj pred [] s = Some s"
| "wt_exec obj pred (x # xs) s = Option.bind (wt_run obj pred (fst x) (snd x) s) (wt_exec obj pred xs)"

lemma wt_exec_reachable:
  "wt_exec obj pred xs s = Some s' \<Longrightarrow> (\<And>x d. x \<in> set xs \<Longrightarrow> snd x \<noteq> Change d False \<and> snd x \<noteq> Quiet d) \<Longrightarrow>
     wt_reachable False obj pred d n s \<Longrightarrow> wt_reachable False obj pred d n s'"
proof (induction xs arbitrary: s)
  case (Cons x xs)
  from Cons.prems(1) obtain r where r: "wt_run obj pred (fst x) (snd x) s = Some r" "wt_exec obj pred xs r = Some s'"
    by (auto simp: bind_eq_Some_conv)
  have "wt_step False obj pred s r" using wt_stepI [OF r(1)] Cons.prems(2) [of x] by simp
  then have "wt_reachable False obj pred d n r" using Cons.prems(3) by (rule reach_step [rotated])
  then show ?case using Cons.IH [OF r(2)] Cons.prems(2) by simp
qed simp

section \<open>Polling\<close>

lemma wait_polls_true: "wait_polls k p w \<longleftrightarrow> (\<exists>j. k \<le> j \<and> j \<le> max 32 k \<and> \<not> p j) \<or> w"
proof (induction k p w rule: wait_polls.induct)
  case (1 k p w)
  show ?case
  proof (cases "p k \<and> k < 32")
    case True
    then have "wait_polls k p w = wait_polls (k + 1) p w" by (simp add: wait_polls.simps [of k])
    moreover have "k \<le> j \<and> j \<le> max 32 k \<and> \<not> p j \<longleftrightarrow> k + 1 \<le> j \<and> j \<le> max 32 (k + 1) \<and> \<not> p j" for j
      using True by (cases "j = k") auto
    ultimately show ?thesis using 1 True by simp
  next
    case False
    then show ?thesis by (auto simp: wait_polls.simps [of k])
  qed
qed

section \<open>Properties\<close>

text \<open>
  C14. No wake-up is lost: when every call of \<open>broadcast\<close> has ended, a thread that sleeps in \<open>wait_if\<close> has not been
  asked to quit and its predicate still holds, whatever the interleaving, time-outs and spurious wake-ups.
\<close>

theorem no_lost_wakeup:
  assumes "wt_reachable False obj pred d n s" "harmless pred" "n < 2 ^ 32"
    and "i < n" "wt_threads s ! i = WAsleep"
    and "\<forall>p \<in> set (wt_threads s). \<not> waking p"
  shows "\<not> wt_quit (wt_shared s) (obj i) \<and> fst (pred i (wt_data (wt_shared s)))"
proof -
  have "length (wt_threads s) = n" "wakeup_inv obj pred s" using wk.reach_inv [OF assms(1)] assms(2,3) by auto
  then show ?thesis using assms(4-6) by (fastforce simp: wakeup_inv_def stays_def some_at_def)
qed

lemma no_lost_wakeup_witness:
  "\<exists>s :: nat wt_state. wt_threads s = [WAsleep, Idle] \<and> wt_waiters (wt_shared s) = 1 \<and> wt_data (wt_shared s) = (0::nat)"
proof -
  let ?pred = "\<lambda>_ n. (n = (0::nat), n - 1)"
  let ?run = "[(1, Change 1 True), (0, CallWait), (1, Go), (1, Go), (1, Go), (1, Go), (0, Go), (0, Go), (0, Go), (0, Go),
               (0, CallWait), (0, Go), (0, Go), (0, Go), (0, Go), (0, Go)]"
  obtain s where s: "wt_exec id ?pred ?run (wt_init 0 2) = Some s" "wt_threads s = [WAsleep, Idle]" "wt_waiters (wt_shared s) = 1"
    by (simp add: wt_init_def wt_run_def numeral_2_eq_2 signal_next_def wait_next_def wake_next_def on_go_def wt_acquire_def)
  have "wt_reachable False id ?pred 0 2 s" by (rule wt_exec_reachable [OF s(1)]) (auto intro: reach_init)
  moreover have "harmless ?pred" by (simp add: harmless_def)
  ultimately have "fst (?pred 0 (wt_data (wt_shared s)))"
    using no_lost_wakeup [of 0 2 id ?pred s 0] s(2) by (auto simp: waking_def early_def)
  then show ?thesis using s(2,3) by (intro exI [of _ s]) simp
qed

end
