(* ===== verification/ShmSegments.thy ===== *)
theory ShmSegments
  imports Interfaces
begin

text \<open>
  Shared-memory segments of the POSIX systems (\<open>src/src/libipc/platform/posix/shm_posix.cpp\<close>) and their handles
  (\<open>src/src/libipc/shm.cpp\<close>). A segment ends with a counter of its mappings; the last release removes its name. The
  calls of the system behave as POSIX documents them.
\<close>

section \<open>The system\<close>

text \<open>An object has a size and, at every offset, the counter that a mapping of that size would use.\<close>

record segment =
  sg_size :: nat
  sg_acc :: "nat \<Rightarrow> u32"

record shm_os =
  os_names :: "string \<rightharpoonup> nat"
  os_segs :: "nat \<Rightarrow> segment"
  os_next :: nat
  os_fds :: nat

datatype shm_mode = Create | Open | CreateOrOpen

definition new_object :: "string \<Rightarrow> shm_os \<Rightarrow> nat \<times> shm_os" where
  "new_object n os =
     (os_next os, os\<lparr>os_names := (os_names os)(n \<mapsto> os_next os),
                    os_segs := (os_segs os)(os_next os := \<lparr>sg_size = 0, sg_acc = (\<lambda>_. 0)\<rparr>), os_next := os_next os + 1\<rparr>)"

definition shm_open :: "string \<Rightarrow> shm_mode \<Rightarrow> shm_os \<Rightarrow> nat option \<times> shm_os" where
  "shm_open n mode os =
     (let opened = (case os_names os n of
                      Some i \<Rightarrow> if mode = Create then None else Some (i, os)
                    | None \<Rightarrow> if mode = Open then None else Some (new_object n os))
      in case opened of
           None \<Rightarrow> (None, os)
         | Some (i, os) \<Rightarrow> (Some i, os\<lparr>os_fds := os_fds os + 1\<rparr>))"

definition shm_unlink :: "string \<Rightarrow> shm_os \<Rightarrow> shm_os" where
  "shm_unlink n os = os\<lparr>os_names := (os_names os)(n := None)\<rparr>"

definition ftruncate :: "nat \<Rightarrow> nat \<Rightarrow> shm_os \<Rightarrow> shm_os" where
  "ftruncate i sz os =
     os\<lparr>os_segs := (os_segs os)(i := \<lparr>sg_size = sz,
          sg_acc = (\<lambda>k. if k + 4 \<le> min sz (sg_size (os_segs os i)) then sg_acc (os_segs os i) k else 0)\<rparr>)\<rparr>"

section \<open>Segments\<close>

record id_info =
  ii_fd :: "nat option"
  ii_mem :: "nat option"
  ii_size :: nat
  ii_name :: string

definition calc_size :: "nat \<Rightarrow> nat" where
  "calc_size sz = (((sz - 1) div 4 + 1) * 4 + 4) mod 2 ^ 64"

text \<open>The counter at the end of a mapping; an access beyond the end of the object is a fault.\<close>

definition acc_of :: "nat \<Rightarrow> nat \<Rightarrow> shm_os \<Rightarrow> u32 option" where
  "acc_of mem sz os = (if sz \<le> sg_size (os_segs os mem) then Some (sg_acc (os_segs os mem) (sz - 4)) else None)"

definition acc_add :: "nat \<Rightarrow> nat \<Rightarrow> u32 \<Rightarrow> shm_os \<Rightarrow> shm_os" where
  "acc_add mem sz k os =
     os\<lparr>os_segs := (os_segs os)(mem := (os_segs os mem)\<lparr>sg_acc := (sg_acc (os_segs os mem))(sz - 4 := sg_acc (os_segs os mem) (sz - 4) + k)\<rparr>)\<rparr>"

definition object_name :: "string \<Rightarrow> string" where
  "object_name n = (if n \<noteq> [] \<and> hd n = CHR ''/'' then n else CHR ''/'' # n)"

definition shm_acquire :: "string \<Rightarrow> nat \<Rightarrow> shm_mode \<Rightarrow> shm_os \<Rightarrow> id_info option \<times> shm_os" where
  "shm_acquire n sz mode os =
     (if n = [] then (None, os)
      else case shm_open (object_name n) mode os of
             (None, os) \<Rightarrow> (None, os)
           | (Some fd, os) \<Rightarrow>
               (Some \<lparr>ii_fd = Some fd, ii_mem = None, ii_size = (if mode = Open then 0 else sz), ii_name = object_name n\<rparr>, os))"

definition get_ref :: "id_info option \<Rightarrow> shm_os \<Rightarrow> int option" where
  "get_ref d os =
     (case d of
        None \<Rightarrow> Some 0
      | Some ii \<Rightarrow>
          (case ii_mem ii of
             None \<Rightarrow> Some 0
           | Some mem \<Rightarrow> if ii_size ii = 0 then Some 0 else map_option sint (acc_of mem (ii_size ii) os)))"

definition sub_ref :: "id_info option \<Rightarrow> shm_os \<Rightarrow> shm_os option" where
  "sub_ref d os =
     (case d of
        None \<Rightarrow> Some os
      | Some ii \<Rightarrow>
          (case ii_mem ii of
             None \<Rightarrow> Some os
           | Some mem \<Rightarrow>
               if ii_size ii = 0 then Some os
               else map_option (\<lambda>_. acc_add mem (ii_size ii) (- 1) os) (acc_of mem (ii_size ii) os)))"

text \<open>Whether \<open>fstat\<close>, \<open>ftruncate\<close> and \<open>mmap\<close> succeed.\<close>

record map_env =
  ok_fstat :: bool
  ok_truncate :: bool
  ok_mmap :: bool

abbreviation all_ok :: map_env where
  "all_ok \<equiv> \<lparr>ok_fstat = True, ok_truncate = True, ok_mmap = True\<rparr>"

definition bad_size :: "nat \<Rightarrow> bool" where
  "bad_size sz \<longleftrightarrow> sz \<le> 4 \<or> sz mod 4 \<noteq> 0"

text \<open>The size of the mapping, and whether it can be made: first the size of the object, or of the caller.\<close>

definition map_size :: "map_env \<Rightarrow> nat \<Rightarrow> id_info \<Rightarrow> shm_os \<Rightarrow> bool \<times> nat \<times> shm_os" where
  "map_size env fd ii os =
     (if ii_size ii = 0
      then (if \<not> ok_fstat env then (False, 0, os)
            else let sz = sg_size (os_segs os fd) in (\<not> bad_size sz, sz, os))
      else let sz = calc_size (ii_size ii)
           in if \<not> ok_truncate env then (False, sz, os) else (True, sz, ftruncate fd sz os))"

text \<open>The object is given its size, mapped, and its descriptor closed; the mapping is counted after that.\<close>

definition map_object :: "map_env \<Rightarrow> nat \<Rightarrow> id_info \<Rightarrow> shm_os \<Rightarrow> (nat \<times> nat) option \<times> id_info \<times> shm_os" where
  "map_object env fd ii os =
     (let (ok, sz, os) = map_size env fd ii os;
          ii = ii\<lparr>ii_size := sz\<rparr>
      in if \<not> ok \<or> \<not> ok_mmap env then (None, ii, os)
         else (Some (fd, sz), ii\<lparr>ii_fd := None, ii_mem := Some fd\<rparr>, os\<lparr>os_fds := os_fds os - 1\<rparr>))"

definition get_mem :: "map_env \<Rightarrow> id_info \<Rightarrow> shm_os \<Rightarrow> (nat \<times> nat) option \<times> id_info \<times> shm_os" where
  "get_mem env ii os =
     (case ii_mem ii of
        Some mem \<Rightarrow> (Some (mem, ii_size ii), ii, os)
      | None \<Rightarrow>
          (case ii_fd ii of
             None \<Rightarrow> (None, ii, os)
           | Some fd \<Rightarrow>
               (case map_object env fd ii os of
                  (None, ii, os) \<Rightarrow> (None, ii, os)
                | (Some (mem, sz), ii, os) \<Rightarrow> (Some (mem, sz), ii, acc_add mem sz 1 os))))"

text \<open>
  \<open>release\<close> counts down and then, when it was the last, removes the name; a segment that was never mapped keeps its
  descriptor.
\<close>

definition release_count :: "id_info \<Rightarrow> shm_os \<Rightarrow> (int \<times> shm_os) option" where
  "release_count ii os =
     (case ii_mem ii of
        None \<Rightarrow> Some (- 1, os)
      | Some mem \<Rightarrow>
          if ii_size ii = 0 then Some (- 1, os)
          else map_option (\<lambda>a. (sint a, acc_add mem (ii_size ii) (- 1) os)) (acc_of mem (ii_size ii) os))"

definition release_name :: "id_info \<Rightarrow> int \<Rightarrow> shm_os \<Rightarrow> shm_os" where
  "release_name ii ret os =
     (if ii_mem ii \<noteq> None \<and> ii_size ii \<noteq> 0 \<and> ret \<le> 1 \<and> ii_name ii \<noteq> [] then shm_unlink (ii_name ii) os else os)"

definition shm_release :: "id_info option \<Rightarrow> shm_os \<Rightarrow> (int \<times> shm_os) option" where
  "shm_release d os =
     (case d of
        None \<Rightarrow> Some (- 1, os)
      | Some ii \<Rightarrow> map_option (\<lambda>(ret, os). (ret, release_name ii ret os)) (release_count ii os))"

definition release_no_unlink :: "id_info option \<Rightarrow> shm_os \<Rightarrow> (int \<times> shm_os) option" where
  "release_no_unlink d os =
     (case d of
        None \<Rightarrow> Some (- 1, os)
      | Some ii \<Rightarrow> map_option (\<lambda>(ret, os). (0, os)) (release_count ii os))"

definition remove_id :: "id_info option \<Rightarrow> shm_os \<Rightarrow> shm_os option" where
  "remove_id d os =
     (case d of
        None \<Rightarrow> Some os
      | Some ii \<Rightarrow> map_option (\<lambda>(ret, os). if ii_name ii \<noteq> [] then shm_unlink (ii_name ii) os else os)
                     (shm_release (Some (ii\<lparr>ii_name := []\<rparr>)) os))"

definition remove_name :: "string \<Rightarrow> shm_os \<Rightarrow> shm_os" where
  "remove_name n os = (if n = [] then os else shm_unlink (object_name n) os)"

section \<open>Handles\<close>

record handle =
  h_id :: "id_info option"
  h_mem :: "nat option"
  h_name :: string
  h_size :: nat

definition empty_handle :: handle where
  "empty_handle = \<lparr>h_id = None, h_mem = None, h_name = [], h_size = 0\<rparr>"

definition handle_valid :: "handle \<Rightarrow> bool" where
  "handle_valid h \<longleftrightarrow> h_mem h \<noteq> None"

definition handle_ref :: "handle \<Rightarrow> shm_os \<Rightarrow> int option" where
  "handle_ref h os = get_ref (h_id h) os"

definition handle_detach :: "handle \<Rightarrow> id_info option \<times> handle" where
  "handle_detach h = (h_id h, empty_handle)"

definition handle_release :: "handle \<Rightarrow> shm_os \<Rightarrow> (int \<times> handle \<times> shm_os) option" where
  "handle_release h os =
     (if h_id h = None then Some (- 1, h, os)
      else let (d, h) = handle_detach h in map_option (\<lambda>(ret, os). (ret, h, os)) (shm_release d os))"

definition handle_release_no_unlink :: "handle \<Rightarrow> shm_os \<Rightarrow> (int \<times> handle \<times> shm_os) option" where
  "handle_release_no_unlink h os =
     (if h_id h = None then Some (- 1, h, os)
      else let (d, h) = handle_detach h in map_option (\<lambda>(ret, os). (ret, h, os)) (release_no_unlink d os))"

definition handle_clear :: "handle \<Rightarrow> shm_os \<Rightarrow> (handle \<times> shm_os) option" where
  "handle_clear h os =
     (if h_id h = None then Some (h, os)
      else let (d, h) = handle_detach h in map_option (\<lambda>os. (h, os)) (remove_id d os))"

definition handle_map :: "map_env \<Rightarrow> id_info \<Rightarrow> handle \<Rightarrow> shm_os \<Rightarrow> handle \<times> shm_os" where
  "handle_map env ii h os =
     (let (m, ii, os) = get_mem env ii os
      in (case m of
            None \<Rightarrow> (h\<lparr>h_id := Some ii, h_mem := None\<rparr>, os)
          | Some (mem, sz) \<Rightarrow> (h\<lparr>h_id := Some ii, h_mem := Some mem, h_size := sz\<rparr>, os)))"

definition handle_acquire :: "map_env \<Rightarrow> string \<Rightarrow> nat \<Rightarrow> shm_mode \<Rightarrow> handle \<Rightarrow> shm_os \<Rightarrow> (bool \<times> handle \<times> shm_os) option" where
  "handle_acquire env n sz mode h os =
     (if n = [] then Some (False, h, os)
      else if sz = 0 then Some (False, h, os)
      else case handle_release h os of
             None \<Rightarrow> None
           | Some (_, h, os) \<Rightarrow>
               (case shm_acquire n sz mode os of
                  (None, os) \<Rightarrow> Some (False, h, os)
                | (Some ii, os) \<Rightarrow>
                    let (h, os) = handle_map env ii (h\<lparr>h_name := n\<rparr>) os in Some (handle_valid h, h, os)))"

definition handle_attach :: "map_env \<Rightarrow> id_info option \<Rightarrow> handle \<Rightarrow> shm_os \<Rightarrow> (handle \<times> shm_os) option" where
  "handle_attach env d h os =
     (case d of
        None \<Rightarrow> Some (h, os)
      | Some ii \<Rightarrow> map_option (\<lambda>(_, h, os). handle_map env ii h os) (handle_release h os))"

section \<open>The users of one segment\<close>

text \<open>
  Processes that map the segment of a name with the same size and release it. Their steps interleave in any order: a
  process opens the object, gives it its size and maps it, counts its mapping, counts it down again, and removes the
  name if it read that it was the last one. Processes stay in the list, in the order of their opening.
\<close>

datatype stage = Opened | Mapped | Counted | Left int | Gone

type_synonym users = "shm_os \<times> (id_info \<times> stage) list"

fun alive :: "stage \<Rightarrow> bool" where
  "alive Opened = True"
| "alive Mapped = True"
| "alive Counted = True"
| "alive (Left r) = False"
| "alive Gone = False"

definition active :: "(id_info \<times> stage) list \<Rightarrow> nat" where
  "active us = length (filter (\<lambda>(ii, st). alive st) us)"

definition object_of :: "id_info \<Rightarrow> nat option" where
  "object_of ii = (case ii_mem ii of None \<Rightarrow> ii_fd ii | Some m \<Rightarrow> Some m)"

text \<open>The processes that have counted their mapping of an object and have not counted it down.\<close>

definition counting :: "nat option \<Rightarrow> (id_info \<times> stage) list \<Rightarrow> nat" where
  "counting m us = length (filter (\<lambda>(ii, st). st = Counted \<and> ii_mem ii = m) us)"

inductive users_step :: "string \<Rightarrow> nat \<Rightarrow> users \<Rightarrow> users \<Rightarrow> bool" for n sz where
  users_open: "shm_acquire n sz CreateOrOpen os = (Some ii, os') \<Longrightarrow> Suc (active us) < 2 ^ 31 \<Longrightarrow>
     users_step n sz (os, us) (os', us @ [(ii, Opened)])"
| users_map: "k < length us \<Longrightarrow> us ! k = (ii, Opened) \<Longrightarrow> ii_fd ii = Some fd \<Longrightarrow> map_object all_ok fd ii os = (Some m, ii', os') \<Longrightarrow>
     users_step n sz (os, us) (os', us[k := (ii', Mapped)])"
| users_count: "k < length us \<Longrightarrow> us ! k = (ii, Mapped) \<Longrightarrow> ii_mem ii = Some m \<Longrightarrow>
     users_step n sz (os, us) (acc_add m (ii_size ii) 1 os, us[k := (ii, Counted)])"
| users_leave: "k < length us \<Longrightarrow> us ! k = (ii, Counted) \<Longrightarrow> release_count ii os = Some (r, os') \<Longrightarrow>
     users_step n sz (os, us) (os', us[k := (ii, Left r)])"
| users_unlink: "k < length us \<Longrightarrow> us ! k = (ii, Left r) \<Longrightarrow>
     users_step n sz (os, us) (release_name ii r os, us[k := (ii, Gone)])"

inductive_cases users_step_cases: "users_step n sz (os, us) t"

definition users_start :: "string \<Rightarrow> users \<Rightarrow> bool" where
  "users_start n s \<longleftrightarrow> snd s = [] \<and> os_names (fst s) (object_name n) = None \<and> (\<forall>m i. os_names (fst s) m = Some i \<longrightarrow> i < os_next (fst s))"

definition user_ok :: "string \<Rightarrow> nat \<Rightarrow> shm_os \<Rightarrow> id_info \<times> stage \<Rightarrow> bool" where
  "user_ok n sz os u \<longleftrightarrow>
     (\<exists>i < os_next os.
        if snd u = Opened then fst u = \<lparr>ii_fd = Some i, ii_mem = None, ii_size = sz, ii_name = object_name n\<rparr>
        else fst u = \<lparr>ii_fd = None, ii_mem = Some i, ii_size = calc_size sz, ii_name = object_name n\<rparr> \<and>
             sg_size (os_segs os i) = calc_size sz)"

definition used :: "string \<Rightarrow> shm_os \<Rightarrow> (id_info \<times> stage) list \<Rightarrow> nat \<Rightarrow> bool" where
  "used n os us i \<longleftrightarrow> os_names os (object_name n) = Some i \<or> (\<exists>u \<in> set us. object_of (fst u) = Some i)"

definition counted_ok :: "nat \<Rightarrow> shm_os \<Rightarrow> (id_info \<times> stage) list \<Rightarrow> nat \<Rightarrow> bool" where
  "counted_ok sz os us i \<longleftrightarrow>
     (sg_size (os_segs os i) = 0 \<or> sg_size (os_segs os i) = calc_size sz) \<and>
     sg_acc (os_segs os i) (calc_size sz - 4) = of_nat (counting (Some i) us)"

definition users_inv :: "string \<Rightarrow> nat \<Rightarrow> users \<Rightarrow> bool" where
  "users_inv n sz s \<longleftrightarrow>
     (let (os, us) = s
      in (\<forall>m i. os_names os m = Some i \<longrightarrow> i < os_next os) \<and> active us < 2 ^ 31 \<and> (\<forall>u \<in> set us. user_ok n sz os u) \<and>
         (\<forall>i. used n os us i \<longrightarrow> counted_ok sz os us i))"

lemma object_name_nonempty [simp]: "object_name n \<noteq> []"
  by (auto simp: object_name_def)

lemma calc_size_bound: "0 < sz \<Longrightarrow> sz < 2 ^ 63 \<Longrightarrow> 8 \<le> calc_size sz"
proof -
  assume h: "0 < sz" "sz < 2 ^ 63"
  have "((sz - 1) div 4 + 1) * 4 + 4 \<le> sz + 7" using div_times_less_eq_dividend [of "sz - 1" 4] h by simp
  then have "calc_size sz = ((sz - 1) div 4 + 1) * 4 + 4" using h by (simp add: calc_size_def)
  then show ?thesis by simp
qed

lemma user_at:
  assumes "k < length us"
  obtains xs ys where "us = xs @ us ! k # ys" and "\<And>u. us[k := u] = xs @ u # ys"
  using that [of "take k us" "drop (Suc k) us"] id_take_nth_drop [OF assms] upd_conv_take_nth_drop [OF assms] by simp

lemma counting_append [simp]: "counting m (xs @ ys) = counting m xs + counting m ys"
  by (simp add: counting_def)

lemma counting_Cons: "counting m ((ii, st) # us) = of_bool (st = Counted \<and> ii_mem ii = m) + counting m us"
  by (simp add: counting_def)

lemma counting_Nil [simp]: "counting m [] = 0"
  by (simp add: counting_def)

lemma active_append [simp]: "active (xs @ ys) = active xs + active ys"
  by (simp add: active_def)

lemma active_Cons: "active ((ii, st) # us) = of_bool (alive st) + active us"
  by (simp add: active_def)

lemma active_Nil [simp]: "active [] = 0"
  by (simp add: active_def)

lemma counting_active: "counting m us \<le> active us"
  by (induction us) (auto simp: counting_Cons active_Cons)

lemma sint_count: "k < 2 ^ 31 \<Longrightarrow> sint (of_nat k :: u32) = int k"
  by (simp add: sint_uint unsigned_of_nat signed_take_bit_int_eq_self take_bit_nat_eq_self)

text \<open>Nobody has counted an object that has no size yet, or that does not exist yet.\<close>

lemma counting_none:
  assumes "\<forall>u \<in> set us. user_ok n sz os u" and "sg_size (os_segs os i) \<noteq> calc_size sz \<or> os_next os \<le> i"
  shows "counting (Some i) us = 0"
  using assms by (auto simp: counting_def user_ok_def filter_empty_conv split: if_splits)

lemma user_object: "user_ok n sz os u \<Longrightarrow> \<exists>i < os_next os. object_of (fst u) = Some i"
  by (auto simp: user_ok_def object_of_def split: if_splits)

lemma used_less: "users_inv n sz (os, us) \<Longrightarrow> used n os us i \<Longrightarrow> i < os_next os"
  using user_object by (fastforce simp: users_inv_def used_def)

lemma users_open_inv:
  assumes inv: "users_inv n sz (os, us)" and sz: "8 \<le> calc_size sz" and few: "Suc (active us) < 2 ^ 31"
    and acq: "shm_acquire n sz CreateOrOpen os = (Some ii, os')"
  shows "users_inv n sz (os', us @ [(ii, Opened)])"
proof (cases "os_names os (object_name n)")
  case None
  let ?i = "os_next os"
  have o: "ii = \<lparr>ii_fd = Some ?i, ii_mem = None, ii_size = sz, ii_name = object_name n\<rparr>"
    and os': "os' = (snd (new_object (object_name n) os))\<lparr>os_fds := os_fds os + 1\<rparr>"
    using acq None by (auto simp: shm_acquire_def shm_open_def new_object_def split: if_splits)
  have n: "os_names os' = (os_names os)(object_name n \<mapsto> ?i)" "os_next os' = Suc ?i"
    "os_segs os' = (os_segs os)(?i := \<lparr>sg_size = 0, sg_acc = (\<lambda>_. 0)\<rparr>)"
    using os' by (simp_all add: new_object_def)
  have names: "\<forall>m i. os_names os m = Some i \<longrightarrow> i < ?i" and users: "\<forall>u \<in> set us. user_ok n sz os u"
    and objs: "\<And>i. used n os us i \<Longrightarrow> counted_ok sz os us i"
    using inv by (simp_all add: users_inv_def)
  have users': "\<forall>u \<in> set us. user_ok n sz os' u" using users by (fastforce simp: user_ok_def n split: if_splits)
  have "user_ok n sz os' (ii, Opened)" by (simp add: user_ok_def o n)
  moreover have "counted_ok sz os' (us @ [(ii, Opened)]) i" if "used n os' (us @ [(ii, Opened)]) i" for i
  proof (cases "i = ?i")
    case True
    then show ?thesis using counting_none [OF users, of ?i] by (simp add: counted_ok_def counting_Cons n)
  next
    case False
    then have "used n os us i" using that by (auto simp: used_def n o object_of_def)
    then show ?thesis using objs [of i] False by (simp add: counted_ok_def counting_Cons n)
  qed
  moreover have "\<forall>m i. os_names os' m = Some i \<longrightarrow> i < os_next os'" using names by (auto simp: n less_SucI)
  ultimately show ?thesis using few users' by (simp add: users_inv_def active_Cons)
next
  case (Some i)
  have o: "ii = \<lparr>ii_fd = Some i, ii_mem = None, ii_size = sz, ii_name = object_name n\<rparr>" and os': "os' = os\<lparr>os_fds := os_fds os + 1\<rparr>"
    using acq Some by (auto simp: shm_acquire_def shm_open_def split: if_splits)
  have "i < os_next os" using inv Some by (auto simp: users_inv_def)
  then have "user_ok n sz os' (ii, Opened)" by (simp add: user_ok_def o os')
  moreover have "used n os' (us @ [(ii, Opened)]) j \<Longrightarrow> used n os us j" for j using Some by (auto simp: used_def os' o object_of_def)
  moreover have "user_ok n sz os' = user_ok n sz os" by (simp add: user_ok_def os' fun_eq_iff)
  moreover have "counted_ok sz os' (us @ [(ii, Opened)]) j = counted_ok sz os us j" for j by (simp add: counted_ok_def counting_Cons os')
  ultimately show ?thesis using inv few by (simp add: users_inv_def active_Cons) (simp add: os')
qed

text \<open>A process goes on: the others keep what they have, and its object gets a new count.\<close>

lemma users_move_inv:
  assumes inv: "users_inv n sz (os, xs @ (ii, st) # ys)" and act: "alive st' \<Longrightarrow> alive st"
    and obj: "object_of ii' = Some i" "object_of ii = Some i" and ok: "user_ok n sz os' (ii', st')"
    and names: "\<And>m j. os_names os' m = Some j \<Longrightarrow> os_names os m = Some j" and nxt: "os_next os' = os_next os"
    and segs: "\<And>j. j \<noteq> i \<Longrightarrow> os_segs os' j = os_segs os j"
    and size: "sg_size (os_segs os' i) = sg_size (os_segs os i) \<or> sg_size (os_segs os' i) = calc_size sz"
    and acc: "sg_acc (os_segs os' i) (calc_size sz - 4) = of_nat (counting (Some i) (xs @ (ii', st') # ys))"
    and others: "\<And>j. j \<noteq> i \<Longrightarrow> counting (Some j) (xs @ (ii', st') # ys) = counting (Some j) (xs @ (ii, st) # ys)"
  shows "users_inv n sz (os', xs @ (ii', st') # ys)"
proof -
  have u: "user_ok n sz os' u" if "u \<in> set (xs @ ys)" for u
  proof -
    have "user_ok n sz os u" using inv that by (auto simp: users_inv_def)
    then obtain j where j: "j < os_next os" "if snd u = Opened then fst u = \<lparr>ii_fd = Some j, ii_mem = None, ii_size = sz, ii_name = object_name n\<rparr>
        else fst u = \<lparr>ii_fd = None, ii_mem = Some j, ii_size = calc_size sz, ii_name = object_name n\<rparr> \<and>
             sg_size (os_segs os j) = calc_size sz"
      by (auto simp: user_ok_def)
    have "sg_size (os_segs os' j) = calc_size sz" if "sg_size (os_segs os j) = calc_size sz"
      using that size segs [of j] by (cases "j = i") auto
    then show ?thesis using j by (auto simp: user_ok_def nxt split: if_splits)
  qed
  have "counted_ok sz os' (xs @ (ii', st') # ys) j" if "used n os' (xs @ (ii', st') # ys) j" for j
  proof -
    have "used n os (xs @ (ii, st) # ys) j" using that names obj by (auto simp: used_def)
    then have c: "counted_ok sz os (xs @ (ii, st) # ys) j" using inv by (simp add: users_inv_def)
    show ?thesis
    proof (cases "j = i")
      case True
      then show ?thesis using c acc size by (auto simp: counted_ok_def)
    next
      case False
      then show ?thesis using c others [of j] segs [of j] by (simp add: counted_ok_def)
    qed
  qed
  moreover have "active (xs @ (ii', st') # ys) \<le> active (xs @ (ii, st) # ys)" using act by (auto simp: active_Cons)
  moreover have "\<forall>m j. os_names os' m = Some j \<longrightarrow> j < os_next os'" using inv names by (auto simp: users_inv_def nxt)
  ultimately show ?thesis using inv ok u by (auto simp: users_inv_def)
qed

lemma used_at: "object_of ii = Some i \<Longrightarrow> used n os (xs @ (ii, st) # ys) i"
  by (auto simp: used_def)

lemma users_map_inv:
  assumes inv: "users_inv n sz (os, us)" and sz: "0 < sz" "8 \<le> calc_size sz" and k: "k < length us" "us ! k = (ii, Opened)"
    and m: "ii_fd ii = Some fd" "map_object all_ok fd ii os = (Some m, ii', os')"
  shows "users_inv n sz (os', us[k := (ii', Mapped)])" and "object_of ii' = object_of ii" and "os_names os' = os_names os"
proof -
  obtain xs ys where us: "us = xs @ (ii, Opened) # ys" "\<And>u. us[k := u] = xs @ u # ys"
    using user_at [OF k(1)] k(2) by metis
  note inv' = inv [unfolded us(1)]
  have ok: "user_ok n sz os (ii, Opened)" using inv' by (auto simp: users_inv_def)
  then have ii: "ii = \<lparr>ii_fd = Some fd, ii_mem = None, ii_size = sz, ii_name = object_name n\<rparr>" "fd < os_next os"
    using m(1) by (auto simp: user_ok_def)
  let ?os = "ftruncate fd (calc_size sz) os"
  have o: "ii' = \<lparr>ii_fd = None, ii_mem = Some fd, ii_size = calc_size sz, ii_name = object_name n\<rparr>" and os': "os' = ?os\<lparr>os_fds := os_fds ?os - 1\<rparr>"
    using m(2) sz(1) by (auto simp: ii(1) map_object_def map_size_def Let_def)
  have obj: "object_of ii = Some fd" "object_of ii' = Some fd" by (simp_all add: ii(1) o object_of_def)
  have same: "counting j (xs @ (ii', Mapped) # ys) = counting j (xs @ (ii, Opened) # ys)" for j by (simp add: counting_Cons)
  have c: "counted_ok sz os us fd" using inv' used_at [OF obj(1)] us(1) by (simp add: users_inv_def)
  have acc: "sg_acc (os_segs os' fd) (calc_size sz - 4) = of_nat (counting (Some fd) us)"
  proof (cases "sg_size (os_segs os fd) = calc_size sz")
    case True
    then show ?thesis using c sz(2) by (simp add: os' ftruncate_def counted_ok_def)
  next
    case False
    then have "sg_size (os_segs os fd) = 0" using c by (simp add: counted_ok_def)
    moreover have "counting (Some fd) us = 0" using counting_none [of us n sz os fd] inv False by (simp add: users_inv_def)
    ultimately show ?thesis using sz(2) by (simp add: os' ftruncate_def)
  qed
  have "users_inv n sz (os', xs @ (ii', Mapped) # ys)"
  proof (rule users_move_inv [OF inv' _ obj(2,1)])
    show "user_ok n sz os' (ii', Mapped)" using ii(2) by (simp add: user_ok_def o os' ftruncate_def)
    show "sg_acc (os_segs os' fd) (calc_size sz - 4) = of_nat (counting (Some fd) (xs @ (ii', Mapped) # ys))"
      using acc unfolding same us(1) by simp
    show "counting (Some j) (xs @ (ii', Mapped) # ys) = counting (Some j) (xs @ (ii, Opened) # ys)" for j by (rule same)
  qed (simp_all add: os' ftruncate_def)
  then show "users_inv n sz (os', us[k := (ii', Mapped)])" by (simp add: us(2))
  show "object_of ii' = object_of ii" "os_names os' = os_names os" by (simp_all add: obj os' ftruncate_def)
qed

lemma users_mapped:
  assumes "users_inv n sz (os, us)" and "k < length us" "us ! k = (ii, st)" "st \<noteq> Opened"
  obtains i where "ii = \<lparr>ii_fd = None, ii_mem = Some i, ii_size = calc_size sz, ii_name = object_name n\<rparr>" "i < os_next os"
    "sg_size (os_segs os i) = calc_size sz" "counted_ok sz os us i"
proof -
  have mem: "(ii, st) \<in> set us" using assms(2,3) nth_mem by metis
  then have "user_ok n sz os (ii, st)" using assms(1) by (auto simp: users_inv_def)
  then obtain i where i: "ii = \<lparr>ii_fd = None, ii_mem = Some i, ii_size = calc_size sz, ii_name = object_name n\<rparr>" "i < os_next os"
    "sg_size (os_segs os i) = calc_size sz" using assms(4) by (auto simp: user_ok_def)
  have "object_of ii = Some i" by (simp add: i(1) object_of_def)
  then have "used n os us i" using mem by (force simp: used_def)
  then have "counted_ok sz os us i" using assms(1) by (simp add: users_inv_def)
  then show thesis using that i by blast
qed

lemma users_mem:
  assumes "users_inv n sz (os, us)" and "k < length us" "us ! k = (ii, st)" "st \<noteq> Opened"
  shows "ii_mem ii \<noteq> None" and "object_of ii = ii_mem ii"
  by (rule users_mapped [OF assms]; simp add: object_of_def)+

lemma users_count_inv:
  assumes inv: "users_inv n sz (os, us)" and k: "k < length us" "us ! k = (ii, Mapped)" and m: "ii_mem ii = Some m"
  shows "users_inv n sz (acc_add m (ii_size ii) 1 os, us[k := (ii, Counted)])"
proof -
  obtain i where i: "ii = \<lparr>ii_fd = None, ii_mem = Some i, ii_size = calc_size sz, ii_name = object_name n\<rparr>" "i < os_next os"
    "sg_size (os_segs os i) = calc_size sz" "counted_ok sz os us i"
    using users_mapped [OF inv k] by auto
  have mi: "m = i" using m i(1) by simp
  obtain xs ys where us: "us = xs @ (ii, Mapped) # ys" "\<And>u. us[k := u] = xs @ u # ys"
    using user_at [OF k(1)] k(2) by metis
  have obj: "object_of ii = Some i" by (simp add: i(1) object_of_def)
  let ?os = "acc_add m (ii_size ii) 1 os"
  have "users_inv n sz (?os, xs @ (ii, Counted) # ys)"
  proof (rule users_move_inv [OF inv [unfolded us(1)] _ obj obj])
    show "user_ok n sz ?os (ii, Counted)" using i(2,3) by (simp add: user_ok_def i(1) mi acc_add_def)
    have "counting (Some i) (xs @ (ii, Counted) # ys) = Suc (counting (Some i) us)" by (simp add: us(1) counting_Cons i(1))
    then show "sg_acc (os_segs ?os i) (calc_size sz - 4) = of_nat (counting (Some i) (xs @ (ii, Counted) # ys))"
      using i(4) by (simp add: mi i(1) acc_add_def counted_ok_def)
    show "counting (Some j) (xs @ (ii, Counted) # ys) = counting (Some j) (xs @ (ii, Mapped) # ys)" if "j \<noteq> i" for j
      using that by (simp add: counting_Cons i(1))
  qed (simp_all add: acc_add_def mi)
  then show ?thesis by (simp add: us(2))
qed

lemma users_leave_inv:
  assumes inv: "users_inv n sz (os, us)" and k: "k < length us" "us ! k = (ii, Counted)" and big: "8 \<le> calc_size sz"
  shows "\<exists>os'. release_count ii os = Some (int (counting (ii_mem ii) us), os') \<and> users_inv n sz (os', us[k := (ii, Left r)]) \<and>
    os_names os' = os_names os" and "get_ref (Some ii) os = Some (int (counting (ii_mem ii) us))"
proof -
  obtain i where i: "ii = \<lparr>ii_fd = None, ii_mem = Some i, ii_size = calc_size sz, ii_name = object_name n\<rparr>" "i < os_next os"
    "sg_size (os_segs os i) = calc_size sz" "counted_ok sz os us i"
    using users_mapped [OF inv k] by auto
  obtain xs ys where us: "us = xs @ (ii, Counted) # ys" "\<And>u. us[k := u] = xs @ u # ys"
    using user_at [OF k(1)] k(2) by metis
  have obj: "object_of ii = Some i" by (simp add: i(1) object_of_def)
  have few: "counting (Some i) us < 2 ^ 31" using counting_active [of "Some i" us] inv by (simp add: users_inv_def)
  let ?os = "acc_add i (calc_size sz) (- 1) os"
  have acc: "sg_acc (os_segs os i) (calc_size sz - 4) = of_nat (counting (Some i) us)" using i(4) by (simp add: counted_ok_def)
  have rel: "release_count ii os = Some (int (counting (ii_mem ii) us), ?os)"
    using i(1,3) big acc sint_count [OF few] by (simp add: release_count_def acc_of_def)
  show "get_ref (Some ii) os = Some (int (counting (ii_mem ii) us))"
    using i(1,3) big acc sint_count [OF few] by (simp add: get_ref_def acc_of_def)
  have "users_inv n sz (?os, xs @ (ii, Left r) # ys)"
  proof (rule users_move_inv [OF inv [unfolded us(1)] _ obj obj])
    show "user_ok n sz ?os (ii, Left r)" using i(2,3) by (simp add: user_ok_def i(1) acc_add_def)
    have "counting (Some i) us = Suc (counting (Some i) (xs @ (ii, Left r) # ys))" by (simp add: us(1) counting_Cons i(1))
    then show "sg_acc (os_segs ?os i) (calc_size sz - 4) = of_nat (counting (Some i) (xs @ (ii, Left r) # ys))"
      using acc by (simp add: acc_add_def)
    show "counting (Some j) (xs @ (ii, Left r) # ys) = counting (Some j) (xs @ (ii, Counted) # ys)" if "j \<noteq> i" for j
      using that by (simp add: counting_Cons i(1))
  qed (simp_all add: acc_add_def)
  then have "users_inv n sz (?os, us[k := (ii, Left r)])" by (simp add: us(2))
  then show "\<exists>os'. release_count ii os = Some (int (counting (ii_mem ii) us), os') \<and> users_inv n sz (os', us[k := (ii, Left r)]) \<and>
    os_names os' = os_names os"
    using rel by (simp add: acc_add_def)
qed

lemma users_unlink_inv:
  assumes inv: "users_inv n sz (os, us)" and k: "k < length us" "us ! k = (ii, Left r)"
  shows "users_inv n sz (release_name ii r os, us[k := (ii, Gone)])"
proof -
  obtain i where i: "ii = \<lparr>ii_fd = None, ii_mem = Some i, ii_size = calc_size sz, ii_name = object_name n\<rparr>" "i < os_next os"
    "sg_size (os_segs os i) = calc_size sz" "counted_ok sz os us i"
    using users_mapped [OF inv k] by auto
  obtain xs ys where us: "us = xs @ (ii, Left r) # ys" "\<And>u. us[k := u] = xs @ u # ys"
    using user_at [OF k(1)] k(2) by metis
  have obj: "object_of ii = Some i" by (simp add: i(1) object_of_def)
  have same: "counting j (xs @ (ii, Gone) # ys) = counting j us" for j by (simp add: us(1) counting_Cons)
  have "users_inv n sz (release_name ii r os, xs @ (ii, Gone) # ys)"
  proof (rule users_move_inv [OF inv [unfolded us(1)] _ obj obj])
    show "user_ok n sz (release_name ii r os) (ii, Gone)"
      using i(2,3) by (simp add: user_ok_def i(1) release_name_def shm_unlink_def)
    show "sg_acc (os_segs (release_name ii r os) i) (calc_size sz - 4) = of_nat (counting (Some i) (xs @ (ii, Gone) # ys))"
      using i(4) unfolding same by (simp add: release_name_def shm_unlink_def counted_ok_def)
    show "counting (Some j) (xs @ (ii, Gone) # ys) = counting (Some j) (xs @ (ii, Left r) # ys)" for j
      using same [of "Some j"] by (simp add: us(1))
    show "os_names (release_name ii r os) m = Some j \<Longrightarrow> os_names os m = Some j" for m j
      by (auto simp: release_name_def shm_unlink_def split: if_splits)
  qed (simp_all add: release_name_def shm_unlink_def)
  then show ?thesis by (simp add: us(2))
qed

lemma users_step_inv:
  assumes "users_step n sz s t" and "users_inv n sz s" and sz: "0 < sz" "sz < 2 ^ 63"
  shows "users_inv n sz t"
proof -
  have big: "8 \<le> calc_size sz" by (rule calc_size_bound [OF sz])
  show ?thesis
    using assms(1,2)
  proof cases
    case (users_leave k us ii os r os')
    then show ?thesis using users_leave_inv(1) [of n sz os us k ii r] assms(2) big by auto
  qed (use assms(2) sz(1) big users_open_inv users_map_inv(1) users_count_inv users_unlink_inv in \<open>auto\<close>)
qed

interpretation users: step_invariant "users_start n" "users_step n sz" "\<lambda>s. 0 < sz \<longrightarrow> sz < 2 ^ 63 \<longrightarrow> users_inv n sz s" for n sz
proof unfold_locales
  show "0 < sz \<longrightarrow> sz < 2 ^ 63 \<longrightarrow> users_inv n sz s" if "users_start n s" for s
    using that by (cases s) (auto simp: users_start_def users_inv_def used_def counted_ok_def)
qed (use users_step_inv in blast)

text \<open>
  A process that has the segment counted, while the name is that of its object, nobody is in another object of the name
  and nobody is about to remove the name.
\<close>

definition anchored :: "string \<Rightarrow> nat \<Rightarrow> users \<Rightarrow> bool" where
  "anchored n k s \<longleftrightarrow>
     (let (os, us) = s; m = ii_mem (fst (us ! k))
      in k < length us \<and> snd (us ! k) = Counted \<and> os_names os (object_name n) = m \<and>
         (\<forall>(ii, st) \<in> set us. (alive st \<longrightarrow> object_of ii = m) \<and> (\<forall>r. st = Left r \<longrightarrow> 1 < r)))"

lemma counting_two:
  assumes "k < length us" "us ! k = (ii, Counted)" "j < length us" "us ! j = (ii', Counted)" "ii_mem ii = m" "ii_mem ii' = m" "k \<noteq> j"
  shows "1 < counting m us"
proof -
  have "card {k, j} \<le> card {l. l < length us \<and> (case us ! l of (ii, st) \<Rightarrow> st = Counted \<and> ii_mem ii = m)}"
    by (rule card_mono) (use assms in auto)
  then show ?thesis using assms(7) by (simp add: counting_def length_filter_conv_card)
qed

text \<open>While such a process stays, a step of the others keeps the segment and its name.\<close>

lemma anchored_step:
  assumes st: "users_step n sz s t" and a: "anchored n k s" and stay: "snd t ! k = snd s ! k" and inv: "users_inv n sz s"
    and sz: "0 < sz" "sz < 2 ^ 63"
  shows "anchored n k t"
proof -
  have big: "8 \<le> calc_size sz" by (rule calc_size_bound [OF sz])
  obtain os us os' us' where s: "s = (os, us)" and t: "t = (os', us')" by (metis surj_pair)
  define m where "m = ii_mem (fst (us ! k))"
  have A: "k < length us" "snd (us ! k) = Counted" "os_names os (object_name n) = m" "us' ! k = us ! k"
    "\<And>ii st. (ii, st) \<in> set us \<Longrightarrow> (alive st \<longrightarrow> object_of ii = m) \<and> (\<forall>r. st = Left r \<longrightarrow> 1 < r)"
    using a stay by (auto simp: anchored_def s t m_def Let_def)
  obtain a where a: "us ! k = (a, Counted)" using A(2) by (cases "us ! k") auto
  have am: "ii_mem a = m" "m \<noteq> None" using users_mem(1) [OF inv [unfolded s] A(1) a] by (simp_all add: m_def a)
  have goal: "anchored n k t"
    if "os_names os' (object_name n) = m" and "length us \<le> length us'"
      and "\<And>ii st. (ii, st) \<in> set us' \<Longrightarrow> (ii, st) \<in> set us \<or> ((alive st \<longrightarrow> object_of ii = m) \<and> (\<forall>r. st = Left r \<longrightarrow> 1 < r))"
    using that A by (fastforce simp: anchored_def t m_def Let_def)
  have moved: "anchored n k t"
    if "us' = us[j := (ii, st)]" "os_names os' (object_name n) = m" "alive st \<longrightarrow> object_of ii = m" "\<forall>r. st = Left r \<longrightarrow> 1 < r" for j ii st
  proof (rule goal)
    show "(ii', st') \<in> set us \<or> ((alive st' \<longrightarrow> object_of ii' = m) \<and> (\<forall>r. st' = Left r \<longrightarrow> 1 < r))" if "(ii', st') \<in> set us'" for ii' st'
      using that \<open>us' = _\<close> \<open>alive st \<longrightarrow> _\<close> \<open>\<forall>r. st = _ \<longrightarrow> _\<close> set_update_subset_insert [of us j "(ii, st)"] by auto
  qed (use that in simp_all)
  from st [unfolded s t] show ?thesis
  proof cases
    case (users_open ii)
    obtain i where i: "os_names os (object_name n) = Some i" using A(3) am by auto
    then have o: "object_of ii = m" "os_names os' = os_names os"
      using users_open(2) A(3) by (auto simp: shm_acquire_def shm_open_def object_of_def split: if_splits)
    show ?thesis by (rule goal) (use users_open(1) o A(3) in auto)
  next
    case (users_map j ii fd mm ii')
    note f = users_map_inv [OF inv [unfolded s] sz(1) big users_map(2-5)]
    have "object_of ii = m" using A(5) [of ii Opened] nth_mem [OF users_map(2)] users_map(3) by simp
    then show ?thesis by (intro moved [OF users_map(1)]) (simp_all add: f A(3))
  next
    case (users_count j ii mm)
    have "object_of ii = m" using A(5) [of ii Mapped] nth_mem [OF users_count(3)] users_count(4) by simp
    then show ?thesis by (intro moved [OF users_count(2)]) (simp_all add: users_count(1) acc_add_def A(3))
  next
    case (users_leave j ii r)
    have "object_of ii = m" using A(5) [of ii Counted] nth_mem [OF users_leave(2)] users_leave(3) by simp
    then have mem: "ii_mem ii = m" using users_mem(2) [OF inv [unfolded s] users_leave(2,3)] by simp
    have "j \<noteq> k" using A(1,4) a users_leave(1) by auto
    then have two: "1 < counting m us" using counting_two [OF A(1) a users_leave(2,3) am(1) mem] by blast
    have rel: "r = int (counting m us)" "os_names os' = os_names os"
      using users_leave_inv(1) [OF inv [unfolded s] users_leave(2,3) big, of r] users_leave(4) mem by auto
    show ?thesis by (rule moved [OF users_leave(1)]) (use two in \<open>simp_all add: rel A(3)\<close>)
  next
    case (users_unlink j ii r)
    have "1 < r" using A(5) [of ii "Left r"] nth_mem [OF users_unlink(3)] users_unlink(4) by simp
    then have "os' = os" using users_unlink(1) by (simp add: release_name_def)
    then show ?thesis by (intro moved [OF users_unlink(2)]) (simp_all add: A(3))
  qed
qed

lemma anchored_run:
  assumes "(\<lambda>s t. users_step n sz s t \<and> snd t ! k = snd s ! k)\<^sup>*\<^sup>* s t" and "users_inv n sz s" and "anchored n k s" and "0 < sz" "sz < 2 ^ 63"
  shows "users_inv n sz t \<and> anchored n k t \<and> snd t ! k = snd s ! k"
  using assms(1)
proof (induction rule: rtranclp_induct)
  case (step t u)
  then have t: "users_inv n sz t" "anchored n k t" "snd t ! k = snd s ! k" and st: "users_step n sz t u" "snd u ! k = snd t ! k"
    by auto
  show ?case using anchored_step [OF st(1) t(2) st(2) t(1) assms(4,5)] users_step_inv [OF st(1) t(1) assms(4,5)] t(3) st(2) by simp
qed (use assms(2,3) in simp)

section \<open>Names that go away too early\<close>

text \<open>The steps of two processes and of a third one, with the names and the counters they leave behind.\<close>

definition empty_os :: shm_os where
  "empty_os = \<lparr>os_names = Map.empty, os_segs = (\<lambda>_. \<lparr>sg_size = 0, sg_acc = (\<lambda>_. 0)\<rparr>), os_next = 0, os_fds = 0\<rparr>"

definition open_segment :: "string \<Rightarrow> nat \<Rightarrow> shm_os \<Rightarrow> id_info option \<times> shm_os" where
  "open_segment n sz os =
     (case shm_acquire n sz CreateOrOpen os of
        (None, os) \<Rightarrow> (None, os)
      | (Some ii, os) \<Rightarrow> (let (m, ii, os) = get_mem all_ok ii os in (Some ii, os)))"

lemmas shm_defs = empty_os_def open_segment_def shm_acquire_def shm_open_def new_object_def get_mem_def map_object_def map_size_def ftruncate_def
  acc_add_def acc_of_def calc_size_def object_name_def shm_release_def release_count_def release_name_def get_ref_def
  remove_name_def shm_unlink_def

text \<open>
  Between the count and the removal of the name another process maps the segment: it is the first one there, and the
  name it used is gone, so that the next process gets a segment of its own.
\<close>

lemma release_race:
  "let (a, os) = open_segment ''x'' 4 empty_os;
       (ret, os) = the (release_count (the a) os);
       (b, os) = open_segment ''x'' 4 os;
       os = release_name (the a) ret os;
       (c, os) = open_segment ''x'' 4 os
   in get_ref b os = Some 1 \<and> get_ref c os = Some 1 \<and> ii_mem (the b) \<noteq> ii_mem (the c)"
  by (simp add: shm_defs)

text \<open>A process that still maps a removed segment takes the name of the new one away when it releases its own.\<close>

lemma stale_release:
  "let (a, os) = open_segment ''x'' 4 empty_os;
       os = remove_name ''x'' os;
       (b, os) = open_segment ''x'' 4 os;
       (ret, os) = the (shm_release a os);
       (c, os) = open_segment ''x'' 4 os
   in get_ref b os = Some 1 \<and> get_ref c os = Some 1 \<and> ii_mem (the b) \<noteq> ii_mem (the c)"
  by (simp add: shm_defs)

text \<open>Two sizes of one segment have two counters: the second process is the first again.\<close>

lemma sizes_disagree:
  "let (a, os) = open_segment ''x'' 4 empty_os;
       (b, os) = open_segment ''x'' 8 os
   in ii_mem (the a) = ii_mem (the b) \<and> get_ref b os = Some 1"
  by (simp add: shm_defs)

text \<open>A mapping that fails leaves its descriptor open.\<close>

lemma failed_mapping_leaks:
  "let (a, os) = shm_acquire ''x'' 4 CreateOrOpen empty_os;
       (m, ii, os) = get_mem \<lparr>ok_fstat = True, ok_truncate = True, ok_mmap = False\<rparr> (the a) os;
       (ret, os) = the (shm_release (Some ii) os)
   in ret = - 1 \<and> m = None \<and> os_fds os = 1"
  by (simp add: shm_defs)

section \<open>Properties\<close>


text \<open>A process that is alone gets the segment to itself, and others join it.\<close>

definition first_user :: id_info where
  "first_user = \<lparr>ii_fd = None, ii_mem = Some 0, ii_size = 8, ii_name = ''/x''\<rparr>"

lemma first_run:
  "\<exists>os. reach (users_start ''x'') (users_step ''x'' 4) (os, [(first_user, Counted)]) \<and> os_names os ''/x'' = Some 0"
proof -
  let ?o = "\<lparr>ii_fd = Some 0, ii_mem = None, ii_size = 4, ii_name = ''/x''\<rparr>"
  define os1 where "os1 = snd (shm_acquire ''x'' 4 CreateOrOpen empty_os)"
  define os2 where "os2 = snd (snd (map_object all_ok 0 ?o os1))"
  have a: "shm_acquire ''x'' 4 CreateOrOpen empty_os = (Some ?o, os1)" by (simp add: os1_def shm_defs)
  have m: "map_object all_ok 0 ?o os1 = (Some (0, 8), first_user, os2)"
    by (simp add: os2_def map_object_def map_size_def calc_size_def first_user_def Let_def)
  have "reach (users_start ''x'') (users_step ''x'' 4) (empty_os, [])"
    by (rule reach_init) (simp add: users_start_def empty_os_def)
  moreover have "users_step ''x'' 4 (empty_os, []) (os1, [(?o, Opened)])" using users_open [OF a, of "[]"] by simp
  moreover have "users_step ''x'' 4 (os1, [(?o, Opened)]) (os2, [(first_user, Mapped)])"
    using users_map [of 0 "[(?o, Opened)]" ?o 0 os1 "(0, 8)" first_user os2 "''x''" 4] m by simp
  moreover have "users_step ''x'' 4 (os2, [(first_user, Mapped)]) (acc_add 0 8 1 os2, [(first_user, Counted)])"
    using users_count [of 0 "[(first_user, Mapped)]" first_user 0 "''x''" 4 os2] by (simp add: first_user_def)
  ultimately have "reach (users_start ''x'') (users_step ''x'' 4) (acc_add 0 8 1 os2, [(first_user, Counted)])"
    by (blast intro: reach_step)
  moreover have "os_names (acc_add 0 8 1 os2) ''/x'' = Some 0"
    by (simp add: os2_def os1_def acc_add_def map_object_def map_size_def shm_defs)
  ultimately show ?thesis by blast
qed


end
