(* ===== verification/TextTools.thy ===== *)
theory TextTools
  imports Prelude
begin

text \<open>
  Text of the command-line tools, as lists of characters: its bytes, its lines, and the decimal numbers that the
  streams of the standard library write and that \<open>std::stoll\<close> and \<open>std::stoull\<close> read.
\<close>

section \<open>Bytes and lines\<close>

definition text_bytes :: "string \<Rightarrow> bytes" where
  "text_bytes t = map of_char t"

definition bytes_text :: "bytes \<Rightarrow> string" where
  "bytes_text bs = map (\<lambda>b. char_of (unat b)) bs"

text \<open>The lines that \<open>getline\<close> yields, after the part of a line read before.\<close>

fun lines_of :: "string \<Rightarrow> string \<Rightarrow> string list" where
  "lines_of line [] = (if line = [] then [] else [line])"
| "lines_of line (c # cs) = (if c = CHR 0x0A then line # lines_of [] cs else lines_of (line @ [c]) cs)"

definition line_end :: string where
  "line_end = [CHR 0x0A]"

lemma char_code_less: "(of_char c :: nat) < 256"
  by (metis char_of_char mod_less_divisor of_char_of zero_less_numeral)

lemma unat_of_char: "unat (of_char c :: byte) = of_char c"
proof -
  have "(of_char c :: byte) = of_nat (of_char c)" by (simp only: of_nat_of_char)
  then have "unat (of_char c :: byte) = of_char c mod 2 ^ 8" by (simp only: unat_of_nat) simp
  then show ?thesis using char_code_less [of c] by simp
qed

lemma bytes_text_bytes [simp]: "bytes_text (text_bytes t) = t"
  by (simp add: bytes_text_def text_bytes_def o_def unat_of_char)

lemma unsigned_bound: "unat (b :: byte) < 256"
  using unsigned_less [where ?'a = nat, of b] by simp

lemma byte_char_byte: "of_char (char_of (unat b)) = (b :: byte)"
proof -
  have "of_char (char_of (unat b)) = (of_nat (of_char (char_of (unat b) :: char)) :: byte)" by (simp only: of_nat_of_char)
  also have "\<dots> = of_nat (unat b mod 256)" by simp
  also have "unat b mod 256 = unat b" using unsigned_bound by simp
  finally show ?thesis by simp
qed

lemma text_bytes_text [simp]: "text_bytes (bytes_text bs) = bs"
  by (simp add: bytes_text_def text_bytes_def o_def byte_char_byte)

lemma lines_of_run: "CHR 0x0A \<notin> set t \<Longrightarrow> lines_of line (t @ CHR 0x0A # cs) = (line @ t) # lines_of [] cs"
  by (induction t arbitrary: line) auto

lemma lines_of_lines:
  "(\<And>l. l \<in> set ls \<Longrightarrow> CHR 0x0A \<notin> set l) \<Longrightarrow> lines_of [] (concat (map (\<lambda>l. l @ line_end) ls)) = ls"
  by (induction ls) (auto simp: lines_of_run line_end_def)

section \<open>Decimal numbers\<close>

definition digit :: "nat \<Rightarrow> char" where
  "digit d = char_of (48 + d)"

definition is_digit :: "char \<Rightarrow> bool" where
  "is_digit c \<longleftrightarrow> 48 \<le> (of_char c :: nat) \<and> (of_char c :: nat) \<le> 57"

definition digit_value :: "char \<Rightarrow> nat" where
  "digit_value c = of_char c - 48"

fun show_nat :: "nat \<Rightarrow> string" where
  "show_nat n = (if n < 10 then [digit n] else show_nat (n div 10) @ [digit (n mod 10)])"

declare show_nat.simps [simp del]

definition show_int :: "int \<Rightarrow> string" where
  "show_int v = (if v < 0 then CHR ''-'' # show_nat (nat (- v)) else show_nat (nat v))"

definition read_nat :: "string \<Rightarrow> nat" where
  "read_nat ds = foldl (\<lambda>a c. a * 10 + digit_value c) 0 ds"

text \<open>The white space of the C locale.\<close>

definition is_space :: "char \<Rightarrow> bool" where
  "is_space c \<longleftrightarrow> (of_char c :: nat) = 32 \<or> 9 \<le> (of_char c :: nat) \<and> (of_char c :: nat) \<le> 13"

text \<open>
  What \<open>strtoll\<close> and \<open>strtoull\<close> see: the white space, a sign and the digits; the sign, the magnitude and the number
  of characters used. There has to be a digit.
\<close>

definition scan_number :: "string \<Rightarrow> (bool \<times> nat \<times> nat) option" where
  "scan_number s =
     (let ws = length (takeWhile is_space s); t = drop ws s;
          (neg, u) = (case t of c # u \<Rightarrow> if c = CHR ''-'' then (True, u) else if c = CHR ''+'' then (False, u) else (False, t)
                      | [] \<Rightarrow> (False, []));
          ds = takeWhile is_digit u
      in if ds = [] then None else Some (neg, read_nat ds, ws + (length t - length u) + length ds))"

text \<open>\<open>None\<close> is an exception.\<close>

definition stoll :: "string \<Rightarrow> (int \<times> nat) option" where
  "stoll s =
     (case scan_number s of
        None \<Rightarrow> None
      | Some (neg, n, used) \<Rightarrow>
          let v = (if neg then - int n else int n)
          in if v < - (2 ^ 63) \<or> 2 ^ 63 \<le> v then None else Some (v, used))"

definition stoull :: "string \<Rightarrow> (int \<times> nat) option" where
  "stoull s =
     (case scan_number s of
        None \<Rightarrow> None
      | Some (neg, n, used) \<Rightarrow>
          if 2 ^ 64 \<le> n then None else Some ((if neg then - int n else int n) mod 2 ^ 64, used))"

lemma digit_facts [simp]: "d < 10 \<Longrightarrow> is_digit (digit d)" "d < 10 \<Longrightarrow> digit_value (digit d) = d"
  by (simp_all add: is_digit_def digit_def digit_value_def)

lemma show_nat_digits: "\<forall>c \<in> set (show_nat n). is_digit c"
proof (induction n rule: show_nat.induct)
  case (1 n)
  then show ?case by (cases "n < 10") (simp_all add: show_nat.simps [of n])
qed

lemma show_nat_not_Nil [simp]: "show_nat n \<noteq> []"
  by (simp add: show_nat.simps [of n])

lemma read_show_nat: "read_nat (show_nat n) = n"
proof (induction n rule: show_nat.induct)
  case (1 n)
  then show ?case
  proof (cases "n < 10")
    case True
    then show ?thesis by (simp add: show_nat.simps [of n] read_nat_def)
  next
    case False
    then have "read_nat (show_nat (n div 10)) = n div 10" using 1 by simp
    then show ?thesis using False by (simp add: show_nat.simps [of n] read_nat_def)
  qed
qed

lemma digit_not_sign: "is_digit c \<Longrightarrow> \<not> is_space c \<and> c \<noteq> CHR ''-'' \<and> c \<noteq> CHR ''+''"
  by (auto simp: is_digit_def is_space_def)

lemma scan_show_nat: "scan_number (show_nat n) = Some (False, n, length (show_nat n))"
proof -
  obtain c t where s: "show_nat n = c # t" by (cases "show_nat n") auto
  then have d: "is_digit c" "\<forall>x \<in> set t. is_digit x" using show_nat_digits [of n] by auto
  then show ?thesis using digit_not_sign [OF d(1)] read_show_nat [of n]
    by (simp add: scan_number_def s Let_def takeWhile_eq_all_conv [THEN iffD2])
qed

lemma scan_show_neg: "scan_number (CHR ''-'' # show_nat n) = Some (True, n, Suc (length (show_nat n)))"
proof -
  show ?thesis using read_show_nat [of n] show_nat_digits [of n]
    by (simp add: scan_number_def Let_def is_space_def takeWhile_eq_all_conv [THEN iffD2])
qed

lemma stoll_show: "- (2 ^ 63) \<le> v \<Longrightarrow> v < 2 ^ 63 \<Longrightarrow> stoll (show_int v) = Some (v, length (show_int v))"
  by (cases "v < 0") (simp_all add: stoll_def show_int_def scan_show_nat scan_show_neg Let_def)

lemma stoull_show: "n < 2 ^ 64 \<Longrightarrow> stoull (show_nat n) = Some (int n, length (show_nat n))"
  by (simp add: stoull_def scan_show_nat)

lemma show_int_inj: "show_int v = show_int w \<Longrightarrow> v = w"
proof -
  assume e: "show_int v = show_int w"
  have "hd (show_nat n) \<noteq> CHR ''-''" for n
    using show_nat_digits [of n] digit_not_sign by (metis hd_in_set show_nat_not_Nil)
  then have m: "show_nat n \<noteq> CHR ''-'' # t" for n t by (metis list.sel(1))
  then have "v < 0 \<longleftrightarrow> w < 0" using e by (auto simp: show_int_def split: if_splits) (metis m)+
  then show ?thesis using e arg_cong [of _ _ read_nat] by (auto simp: show_int_def split: if_splits dest!: arg_cong [of _ _ read_nat] simp: read_show_nat)
qed

end
