(* ===== verification/MsgSchema.thy ===== *)
theory MsgSchema
  imports GenericLaws TextTools
begin

text \<open>
  The schemas of messages that the publishing tool reads
  (\<open>src/exec/dzipc_pub/include/msg_schema.h\<close>): lines of a type and a name, and a registry that loads the
  schemas of nested types as well. Text is a list of characters, and fields of messages are named by its bytes.
\<close>

section \<open>Text\<close>

definition blank :: "char \<Rightarrow> bool" where
  "blank c \<longleftrightarrow> c = CHR '' '' \<or> c = CHR 0x09"

definition to_upper :: "char \<Rightarrow> char" where
  "to_upper c = (let n = of_char c :: nat in if 97 \<le> n \<and> n \<le> 122 then char_of (n - 32) else c)"

text \<open>What follows the last character that satisfies \<open>p\<close>, and what precedes the last dot.\<close>

definition after_last :: "(char \<Rightarrow> bool) \<Rightarrow> string \<Rightarrow> string" where
  "after_last p s = rev (takeWhile (\<lambda>c. \<not> p c) (rev s))"

definition before_dot :: "string \<Rightarrow> string" where
  "before_dot s = (if CHR ''.'' \<in> set s then rev (tl (dropWhile (\<lambda>c. c \<noteq> CHR ''.'') (rev s))) else s)"

section \<open>Schemas\<close>

record msg_field =
  mf_name :: string
  mf_type :: byte
  mf_nested :: string

record msg_schema =
  ms_name :: string
  ms_fields :: "msg_field list"

primrec find_in :: "string \<Rightarrow> msg_field list \<Rightarrow> msg_field option" where
  "find_in name [] = None"
| "find_in name (f # fs) = (if mf_name f = name then Some f else find_in name fs)"

definition find_schema_field :: "string \<Rightarrow> msg_schema \<Rightarrow> msg_field option" where
  "find_schema_field name s = find_in name (ms_fields s)"

primrec pascal_from :: "bool \<Rightarrow> string \<Rightarrow> string" where
  "pascal_from capitalize [] = []"
| "pascal_from capitalize (c # cs) =
     (if c = CHR ''_'' then pascal_from True cs
      else if capitalize then to_upper c # pascal_from False cs
      else c # pascal_from False cs)"

definition snake_to_pascal :: "string \<Rightarrow> string" where
  "snake_to_pascal snake = pascal_from True snake"

definition is_array_type :: "string \<Rightarrow> bool" where
  "is_array_type t \<longleftrightarrow> 2 < length t \<and> t ! (length t - 2) = CHR ''['' \<and> t ! (length t - 1) = CHR '']''"

definition base_type :: "string \<Rightarrow> string" where
  "base_type t = (if is_array_type t then take (length t - 2) t else t)"

text \<open>The names of the types, with their codes.\<close>

definition scalar_names :: "(string \<times> byte \<times> byte) list" where
  "scalar_names =
     [(''bool'', FT_BOOL, FT_BOOL_ARRAY), (''int8'', FT_INT8, FT_INT8_ARRAY), (''uint8'', FT_UINT8, FT_UINT8_ARRAY),
      (''int16'', FT_INT16, FT_INT16_ARRAY), (''uint16'', FT_UINT16, FT_UINT16_ARRAY), (''int32'', FT_INT32, FT_INT32_ARRAY),
      (''uint32'', FT_UINT32, FT_UINT32_ARRAY), (''int64'', FT_INT64, FT_INT64_ARRAY), (''uint64'', FT_UINT64, FT_UINT64_ARRAY),
      (''float32'', FT_FLOAT32, FT_FLOAT32_ARRAY), (''float64'', FT_FLOAT64, FT_FLOAT64_ARRAY), (''string'', FT_STRING, FT_STRING_ARRAY)]"

definition msg_field_type_byte :: "string \<Rightarrow> byte \<times> bool" where
  "msg_field_type_byte t =
     (let is_array = is_array_type t
      in case map_of scalar_names (base_type t) of
           Some (single, arr) \<Rightarrow> (if is_array then arr else single, False)
         | None \<Rightarrow> (if is_array then FT_NESTED_ARRAY else FT_NESTED, True))"

definition field_type_name :: "byte \<Rightarrow> string" where
  "field_type_name t =
     (case map_of (map (\<lambda>(n, single, arr). (single, n)) scalar_names) t of
        Some n \<Rightarrow> n
      | None \<Rightarrow>
          (case map_of (map (\<lambda>(n, single, arr). (arr, n)) scalar_names) t of
             Some n \<Rightarrow> n @ ''[]''
           | None \<Rightarrow> if t = FT_NESTED then ''nested'' else if t = FT_NESTED_ARRAY then ''nested[]'' else ''unknown''))"

text \<open>One line: nothing for a blank line, a comment, or a line that is not a type and a name.\<close>

definition parse_msg_line :: "string \<Rightarrow> msg_field option" where
  "parse_msg_line line =
     (let s = dropWhile blank line
      in if s = [] then None
         else if hd s = CHR ''#'' then None
         else let content = rev (dropWhile (\<lambda>c. blank c \<or> c = CHR 0x0D) (rev s))
              in if \<not> (\<exists>c \<in> set content. blank c) then None
                 else let type_str = takeWhile (\<lambda>c. \<not> blank c) content;
                          name = dropWhile blank (tl (dropWhile (\<lambda>c. \<not> blank c) content))
                      in if name = [] \<or> type_str = [] then None
                         else let (t, is_nested) = msg_field_type_byte type_str
                              in Some \<lparr>mf_name = name, mf_type = t,
                                       mf_nested = (if is_nested then snake_to_pascal (base_type type_str) else [])\<rparr>)"

definition parse_msg_lines :: "string list \<Rightarrow> msg_field list" where
  "parse_msg_lines ls = List.map_filter parse_msg_line ls"

text \<open>A file is its text, \<open>None\<close> when it cannot be opened.\<close>

definition schema_name :: "string \<Rightarrow> string" where
  "schema_name path = snake_to_pascal (before_dot (after_last (\<lambda>c. c = CHR ''/'' \<or> c = CHR 0x5C) path))"

definition parse_msg_file :: "(string \<Rightarrow> string option) \<Rightarrow> string \<Rightarrow> msg_schema" where
  "parse_msg_file text path =
     \<lparr>ms_name = schema_name path,
      ms_fields = (case text path of None \<Rightarrow> [] | Some t \<Rightarrow> parse_msg_lines (lines_of [] t))\<rparr>"

text \<open>\<open>stem\<close> of a path; a leading dot does not start an extension.\<close>

definition path_stem :: "string \<Rightarrow> string" where
  "path_stem path = (let f = after_last (\<lambda>c. c = CHR ''/'') path in if before_dot f = [] then f else before_dot f)"

text \<open>The entries of the directory in the order of its iterator, each with whether it is a regular file; \<open>None\<close> is no directory.\<close>

primrec find_msg_in :: "string \<Rightarrow> (string \<times> bool) list \<Rightarrow> string" where
  "find_msg_in type_name [] = []"
| "find_msg_in type_name (e # es) =
     (let (path, regular) = e
      in if regular \<and> 4 \<le> length path \<and> drop (length path - 4) path = ''.msg'' \<and> snake_to_pascal (path_stem path) = type_name
         then path else find_msg_in type_name es)"

definition find_msg_file :: "(string \<times> bool) list option \<Rightarrow> string \<Rightarrow> string" where
  "find_msg_file dir type_name = (case dir of None \<Rightarrow> [] | Some es \<Rightarrow> find_msg_in type_name es)"

section \<open>The registry\<close>

text \<open>The directory, the texts of its files, and the schemas loaded.\<close>

record schema_registry =
  sg_dir :: "(string \<times> bool) list option"
  sg_text :: "string \<Rightarrow> string option"
  sg_cache :: "string \<rightharpoonup> msg_schema"

definition new_schema_registry :: "(string \<times> bool) list option \<Rightarrow> (string \<Rightarrow> string option) \<Rightarrow> schema_registry" where
  "new_schema_registry dir text = \<lparr>sg_dir = dir, sg_text = text, sg_cache = Map.empty\<rparr>"

definition kMaxDepth :: nat where
  "kMaxDepth = 16"

text \<open>The first argument is the number of levels left. Schemas are cached before their nested types are loaded.\<close>

primrec load_recursive :: "nat \<Rightarrow> string \<Rightarrow> schema_registry \<Rightarrow> msg_schema option \<times> schema_registry" where
  "load_recursive 0 type_name r = (sg_cache r type_name, r)"
| "load_recursive (Suc n) type_name r =
     (case sg_cache r type_name of
        Some s \<Rightarrow> (Some s, r)
      | None \<Rightarrow>
          let path = find_msg_file (sg_dir r) type_name
          in if path = [] then (None, r)
             else let s = parse_msg_file (sg_text r) path;
                      r = r\<lparr>sg_cache := (sg_cache r)(type_name \<mapsto> s)\<rparr>
                  in (Some s, fold (\<lambda>f r. if mf_nested f = [] then r else snd (load_recursive n (mf_nested f) r)) (ms_fields s) r))"

definition load_schema :: "string \<Rightarrow> schema_registry \<Rightarrow> msg_schema option \<times> schema_registry" where
  "load_schema type_name r = load_recursive (kMaxDepth + 1) type_name r"

definition get_schema :: "string \<Rightarrow> schema_registry \<Rightarrow> msg_schema option" where
  "get_schema type_name r = sg_cache r type_name"

section \<open>Names\<close>

lemma to_upper_idem [simp]: "to_upper (to_upper c) = to_upper c"
  by (auto simp: to_upper_def Let_def)

lemma to_upper_underscore: "c \<noteq> CHR ''_'' \<Longrightarrow> to_upper c \<noteq> CHR ''_''"
proof
  assume c: "c \<noteq> CHR ''_''" "to_upper c = CHR ''_''"
  then have n: "97 \<le> (of_char c :: nat)" "(of_char c :: nat) \<le> 122" "char_of ((of_char c :: nat) - 32) = CHR ''_''"
    by (auto simp: to_upper_def Let_def split: if_splits)
  have "of_char (char_of ((of_char c :: nat) - 32)) = (95 :: nat)" unfolding n(3) by simp
  then have "(of_char c :: nat) = 127" using n(1,2) by simp
  then show False using n(2) by simp
qed

lemma pascal_no_underscore: "CHR ''_'' \<notin> set (pascal_from b s)"
  by (induction s arbitrary: b) (auto dest: to_upper_underscore)

lemma pascal_False_id: "CHR ''_'' \<notin> set s \<Longrightarrow> pascal_from False s = s"
  by (induction s) auto

lemma pascal_head: "pascal_from True s \<noteq> [] \<Longrightarrow> to_upper (hd (pascal_from True s)) = hd (pascal_from True s)"
  by (induction s) auto

lemma snake_to_pascal_idem: "snake_to_pascal (snake_to_pascal s) = snake_to_pascal s"
proof (cases "pascal_from True s")
  case Nil
  then show ?thesis by (simp add: snake_to_pascal_def)
next
  case (Cons c cs)
  then have "c \<noteq> CHR ''_''" "CHR ''_'' \<notin> set cs" "to_upper c = c"
    using pascal_no_underscore [of True s] pascal_head [of s] by auto
  then show ?thesis using Cons by (simp add: snake_to_pascal_def pascal_False_id)
qed

section \<open>Lines\<close>

text \<open>
  A file that declares fields: lines without a declaration, which are blank or a comment, and declarations with white
  space before, between and after their parts.
\<close>

datatype msg_line = Noise string | Decl string string string msg_field

definition type_text :: "msg_field \<Rightarrow> string" where
  "type_text f =
     (if mf_type f = FT_NESTED then mf_nested f
      else if mf_type f = FT_NESTED_ARRAY then mf_nested f @ ''[]''
      else field_type_name (mf_type f))"

primrec render_line :: "msg_line \<Rightarrow> string" where
  "render_line (Noise l) = l"
| "render_line (Decl before between after f) = before @ type_text f @ between @ mf_name f @ after"

primrec declared :: "msg_line \<Rightarrow> msg_field list" where
  "declared (Noise l) = []"
| "declared (Decl before between after f) = [f]"

definition name_ok :: "string \<Rightarrow> bool" where
  "name_ok n \<longleftrightarrow> n \<noteq> [] \<and> \<not> blank (hd n) \<and> \<not> blank (last n) \<and> last n \<noteq> CHR 0x0D \<and> CHR 0x0A \<notin> set n"

definition nested_ok :: "string \<Rightarrow> bool" where
  "nested_ok n \<longleftrightarrow> n \<noteq> [] \<and> snake_to_pascal n = n \<and> hd n \<noteq> CHR ''#'' \<and> \<not> is_array_type n \<and>
     (\<forall>c \<in> set n. \<not> blank c \<and> c \<noteq> CHR 0x0A)"

definition field_ok :: "msg_field \<Rightarrow> bool" where
  "field_ok f \<longleftrightarrow> name_ok (mf_name f) \<and>
     (if mf_type f = FT_NESTED \<or> mf_type f = FT_NESTED_ARRAY then nested_ok (mf_nested f)
      else mf_nested f = [] \<and> 1 \<le> mf_type f \<and> mf_type f \<le> 24)"

primrec line_ok :: "msg_line \<Rightarrow> bool" where
  "line_ok (Noise l) \<longleftrightarrow> CHR 0x0A \<notin> set l \<and> (dropWhile blank l = [] \<or> hd (dropWhile blank l) = CHR ''#'')"
| "line_ok (Decl before between after f) \<longleftrightarrow>
     list_all blank before \<and> between \<noteq> [] \<and> list_all blank between \<and> list_all (\<lambda>c. blank c \<or> c = CHR 0x0D) after \<and> field_ok f"

text \<open>What the type at the front of a line has to be for the line to be taken apart.\<close>

definition type_ok :: "string \<Rightarrow> bool" where
  "type_ok t \<longleftrightarrow> t \<noteq> [] \<and> hd t \<noteq> CHR ''#'' \<and> (\<forall>c \<in> set t. \<not> blank c \<and> c \<noteq> CHR 0x0A)"

lemma array_type_append: "t \<noteq> [] \<Longrightarrow> is_array_type (t @ ''[]'')" "base_type (t @ ''[]'') = t \<or> t = []"
  by (auto simp: is_array_type_def base_type_def nth_append length_greater_0_conv [symmetric] simp del: length_greater_0_conv)

lemma lower_letters:
  "to_upper CHR ''b'' \<noteq> CHR ''b''" "to_upper CHR ''i'' \<noteq> CHR ''i''" "to_upper CHR ''u'' \<noteq> CHR ''u''"
  "to_upper CHR ''f'' \<noteq> CHR ''f''" "to_upper CHR ''s'' \<noteq> CHR ''s''"
  by code_simp+

lemma nested_not_scalar:
  assumes "nested_ok n"
  shows "map_of scalar_names n = None"
proof -
  obtain c t where n: "n = c # t" using assms by (cases n) (auto simp: nested_ok_def)
  have "to_upper c = c" using assms pascal_head [of n] by (simp add: nested_ok_def snake_to_pascal_def n)
  then show ?thesis
    using lower_letters unfolding map_of_eq_None_iff by (auto simp: n scalar_names_def)
qed

lemma primitive_names:
  assumes "1 \<le> (t :: byte)" and "t \<le> 24"
  shows "msg_field_type_byte (field_type_name t) = (t, False) \<and> type_ok (field_type_name t) \<and> t \<noteq> FT_NESTED \<and> t \<noteq> FT_NESTED_ARRAY"
proof -
  have all: "\<forall>n \<in> set [1..<25]. let t = of_nat n :: byte in
      msg_field_type_byte (field_type_name t) = (t, False) \<and> type_ok (field_type_name t) \<and> t \<noteq> FT_NESTED \<and> t \<noteq> FT_NESTED_ARRAY"
    by code_simp
  have u: "unat t \<in> set [1..<25]" using assms by (auto simp: word_le_nat_alt)
  have "of_nat (unat t) = t" by simp
  then show ?thesis using bspec [OF all u] by (simp only: Let_def simp_thms)
qed

lemma type_text_parses:
  assumes "field_ok f"
  shows "type_ok (type_text f) \<and> msg_field_type_byte (type_text f) = (mf_type f, mf_type f = FT_NESTED \<or> mf_type f = FT_NESTED_ARRAY) \<and>
     (if mf_type f = FT_NESTED \<or> mf_type f = FT_NESTED_ARRAY then snake_to_pascal (base_type (type_text f)) else []) = mf_nested f"
proof (cases "mf_type f = FT_NESTED \<or> mf_type f = FT_NESTED_ARRAY")
  case True
  then have n: "nested_ok (mf_nested f)" using assms by (auto simp: field_ok_def)
  have "FT_NESTED \<noteq> FT_NESTED_ARRAY" by (simp add: field_type_defs)
  then show ?thesis
    using True n nested_not_scalar [OF n] array_type_append [of "mf_nested f"]
    by (auto simp: type_text_def type_ok_def nested_ok_def msg_field_type_byte_def Let_def base_type_def blank_def)
next
  case False
  then show ?thesis using assms primitive_names [of "mf_type f"] by (auto simp: type_text_def field_ok_def)
qed

lemma drop_blanks: "list_all blank b \<Longrightarrow> dropWhile blank (b @ s) = dropWhile blank s"
  by (induction b) auto

lemma parse_declaration:
  assumes "line_ok (Decl before between after f)"
  shows "parse_msg_line (render_line (Decl before between after f)) = Some f"
proof -
  have ok: "list_all blank before" "between \<noteq> []" "list_all blank between" "list_all (\<lambda>c. blank c \<or> c = CHR 0x0D) after" "field_ok f"
    using assms by simp_all
  note ty = type_text_parses [OF ok(5)]
  obtain c t where t: "type_text f = c # t" using ty by (cases "type_text f") (auto simp: type_ok_def)
  have nm: "mf_name f \<noteq> []" "\<not> blank (hd (mf_name f))" "\<not> blank (last (mf_name f))" "last (mf_name f) \<noteq> CHR 0x0D"
    using ok(5) by (auto simp: field_ok_def name_ok_def)
  obtain d e where d: "between = d # e" using ok(2) by (cases between) auto
  let ?body = "type_text f @ between @ mf_name f"
  have s: "dropWhile blank (render_line (Decl before between after f)) = ?body @ after"
    using drop_blanks [OF ok(1)] ty t by (simp add: type_ok_def)
  have "dropWhile (\<lambda>c. blank c \<or> c = CHR 0x0D) (rev after @ rev ?body) = rev ?body"
  proof -
    have "list_all (\<lambda>c. blank c \<or> c = CHR 0x0D) (rev after)" using ok(4) by (simp add: list_all_iff)
    then have "dropWhile (\<lambda>c. blank c \<or> c = CHR 0x0D) (rev after @ rev ?body) = dropWhile (\<lambda>c. blank c \<or> c = CHR 0x0D) (rev ?body)"
      by (induction "rev after") (auto simp: list_all_iff dropWhile_append)
    also have "\<dots> = rev ?body" using nm(1,3,4) by (cases "mf_name f" rule: rev_cases) auto
    finally show ?thesis .
  qed
  then have content: "rev (dropWhile (\<lambda>c. blank c \<or> c = CHR 0x0D) (rev (?body @ after))) = ?body" by simp
  have word: "\<forall>x \<in> set (type_text f). \<not> blank x" "blank d" "list_all blank e" using ty ok(3) d by (auto simp: type_ok_def)
  have split: "takeWhile (\<lambda>c. \<not> blank c) ?body = type_text f" "dropWhile (\<lambda>c. \<not> blank c) ?body = between @ mf_name f"
    using word d by (simp_all add: takeWhile_append dropWhile_append takeWhile_eq_all_conv [THEN iffD2] dropWhile_eq_Nil_conv [THEN iffD2])
  have name: "dropWhile blank (tl (between @ mf_name f)) = mf_name f"
    using drop_blanks [OF word(3), of "mf_name f"] d nm(1,2) by (cases "mf_name f") auto
  have "\<exists>c \<in> set ?body. blank c" using word(2) d by auto
  moreover have "?body @ after \<noteq> []" "hd (?body @ after) \<noteq> CHR ''#''" using ty t by (auto simp: type_ok_def)
  moreover have "mf_name f \<noteq> []" "type_text f \<noteq> []" using nm(1) t by simp_all
  ultimately show ?thesis
    using ty unfolding parse_msg_line_def s content split name Let_def by simp
qed

lemma parse_noise: "dropWhile blank l = [] \<or> hd (dropWhile blank l) = CHR ''#'' \<Longrightarrow> parse_msg_line l = None"
  by (cases "dropWhile blank l = []") (simp_all only: parse_msg_line_def Let_def if_True if_False simp_thms)

lemma parse_line: "line_ok l \<Longrightarrow> parse_msg_line (render_line l) = (case declared l of [] \<Rightarrow> None | f # fs \<Rightarrow> Some f)"
proof (cases l)
  case (Noise t)
  then show "line_ok l \<Longrightarrow> ?thesis" using parse_noise [of t] by simp
next
  case (Decl before between after f)
  then show "line_ok l \<Longrightarrow> ?thesis" using parse_declaration by (simp del: line_ok.simps render_line.simps)
qed

lemma parse_lines: "\<forall>l \<in> set ls. line_ok l \<Longrightarrow> parse_msg_lines (map render_line ls) = concat (map declared ls)"
proof (induction ls)
  case (Cons l ls)
  have ih: "parse_msg_lines (map render_line ls) = concat (map declared ls)" using Cons by simp
  have "parse_msg_line (render_line l) = (case declared l of [] \<Rightarrow> None | f # fs \<Rightarrow> Some f)" using Cons.prems by (intro parse_line) simp
  then show ?case using ih by (cases l) (simp_all add: parse_msg_lines_def del: render_line.simps line_ok.simps)
qed (simp add: parse_msg_lines_def)

lemma line_in_line:
  assumes "line_ok l"
  shows "CHR 0x0A \<notin> set (render_line l)"
proof (cases l)
  case (Noise t)
  then show ?thesis using assms by simp
next
  case (Decl before between after f)
  have white: "\<not> blank CHR 0x0A" by (simp add: blank_def)
  have f: "field_ok f" "list_all blank before" "list_all blank between" "list_all (\<lambda>c. blank c \<or> c = CHR 0x0D) after"
    using assms Decl by simp_all
  have "CHR 0x0A \<notin> set (type_text f)" using type_text_parses [OF f(1)] by (metis type_ok_def)
  moreover have "CHR 0x0A \<notin> set (mf_name f)" using f(1) by (simp add: field_ok_def name_ok_def)
  moreover have "CHR 0x0A \<notin> set before" "CHR 0x0A \<notin> set between" "CHR 0x0A \<notin> set after"
    using f(2-4) white by (auto simp: list_all_iff)
  ultimately show ?thesis using Decl by simp
qed

text \<open>
  The schema of a file has exactly the fields its lines declare, in order, with the codes of their types and the
  class names of nested messages, whatever blank lines, comments and white space stand around them.
\<close>

theorem schema_of_file:
  assumes "\<forall>l \<in> set ls. line_ok l" and "text path = Some (concat (map (\<lambda>l. render_line l @ line_end) ls))"
  shows "parse_msg_file text path = \<lparr>ms_name = schema_name path, ms_fields = concat (map declared ls)\<rparr>"
proof -
  have "lines_of [] (concat (map (\<lambda>l. l @ line_end) (map render_line ls))) = map render_line ls"
    by (rule lines_of_lines) (use line_in_line assms(1) in auto)
  then show ?thesis using assms parse_lines [OF assms(1)] by (simp add: parse_msg_file_def o_def)
qed

definition point_text :: "string \<Rightarrow> string option" where
  "point_text path =
     Some (''# a point'' @ line_end @ ''float64  x '' @ line_end @ line_end @ ''StdHeader[] origins'' @ line_end)"

lemma schema_of_file_witness:
  "parse_msg_file point_text ''msg/std_point.msg'' = \<lparr>ms_name = ''StdPoint'', ms_fields =
     [\<lparr>mf_name = ''x'', mf_type = FT_FLOAT64, mf_nested = []\<rparr>, \<lparr>mf_name = ''origins'', mf_type = FT_NESTED_ARRAY, mf_nested = ''StdHeader''\<rparr>]\<rparr>"
proof -
  let ?ls = "[Noise ''# a point'', Decl [] ''  '' '' '' \<lparr>mf_name = ''x'', mf_type = FT_FLOAT64, mf_nested = []\<rparr>, Noise [],
    Decl [] '' '' [] \<lparr>mf_name = ''origins'', mf_type = FT_NESTED_ARRAY, mf_nested = ''StdHeader''\<rparr>]"
  have "\<forall>l \<in> set ?ls. line_ok l" by code_simp
  moreover have "field_type_name FT_FLOAT64 = ''float64''" by code_simp
  then have "point_text ''msg/std_point.msg'' = Some (concat (map (\<lambda>l. render_line l @ line_end) ?ls))"
    by (simp add: point_text_def line_end_def type_text_def field_type_defs)
  ultimately have "parse_msg_file point_text ''msg/std_point.msg'' = \<lparr>ms_name = schema_name ''msg/std_point.msg'', ms_fields = concat (map declared ?ls)\<rparr>"
    by (rule schema_of_file)
  moreover have "schema_name ''msg/std_point.msg'' = ''StdPoint''" by code_simp
  ultimately show ?thesis by simp
qed

text \<open>A comment behind a declaration becomes part of the name.\<close>

lemma trailing_comment_in_name:
  "parse_msg_line ''int32 n # count'' = Some \<lparr>mf_name = ''n # count'', mf_type = FT_INT32, mf_nested = []\<rparr>"
  by code_simp

section \<open>The registry answers from the files\<close>

definition schema_in :: "(string \<times> bool) list option \<Rightarrow> (string \<Rightarrow> string option) \<Rightarrow> string \<Rightarrow> msg_schema option" where
  "schema_in dir text type_name =
     (let path = find_msg_file dir type_name in if path = [] then None else Some (parse_msg_file text path))"

definition cache_sound :: "schema_registry \<Rightarrow> bool" where
  "cache_sound r \<longleftrightarrow> (\<forall>n s. sg_cache r n = Some s \<longrightarrow> schema_in (sg_dir r) (sg_text r) n = Some s)"

text \<open>The same files, and nothing cached is lost.\<close>

definition grown :: "schema_registry \<Rightarrow> schema_registry \<Rightarrow> bool" where
  "grown r r' \<longleftrightarrow> sg_dir r' = sg_dir r \<and> sg_text r' = sg_text r \<and> sg_cache r \<subseteq>\<^sub>m sg_cache r'"

lemma grown_refl [simp]: "grown r r"
  by (simp add: grown_def)

lemma grown_trans: "grown r r' \<Longrightarrow> grown r' r'' \<Longrightarrow> grown r r''"
  by (auto simp: grown_def intro: map_le_trans)

lemma load_recursive_grows: "cache_sound r \<Longrightarrow> grown r (snd (load_recursive k n r)) \<and> cache_sound (snd (load_recursive k n r))"
proof (induction k arbitrary: n r)
  case (Suc k)
  let ?path = "find_msg_file (sg_dir r) n" and ?s = "parse_msg_file (sg_text r) (find_msg_file (sg_dir r) n)"
  let ?r = "r\<lparr>sg_cache := (sg_cache r)(n \<mapsto> ?s)\<rparr>"
  have many: "grown r' (fold (\<lambda>f r. if mf_nested f = [] then r else snd (load_recursive k (mf_nested f) r)) fs r') \<and>
      cache_sound (fold (\<lambda>f r. if mf_nested f = [] then r else snd (load_recursive k (mf_nested f) r)) fs r')" if "cache_sound r'" for fs r'
    using that
  proof (induction fs arbitrary: r')
    case (Cons f fs)
    let ?r' = "if mf_nested f = [] then r' else snd (load_recursive k (mf_nested f) r')"
    have r: "grown r' ?r'" "cache_sound ?r'" using Suc.IH [OF Cons.prems] Cons.prems by simp_all
    show ?case unfolding fold_simps o_apply using Cons.IH [OF r(2)] grown_trans [OF r(1)] by blast
  qed simp
  show ?case
  proof (cases "sg_cache r n = None \<and> ?path \<noteq> []")
    case True
    then have r: "grown r ?r" by (auto simp: grown_def map_le_def dom_def)
    have s: "cache_sound ?r" unfolding cache_sound_def
    proof (intro allI impI)
      fix m s assume m: "sg_cache ?r m = Some s"
      show "schema_in (sg_dir ?r) (sg_text ?r) m = Some s"
      proof (cases "m = n")
        case True
        then show ?thesis using m \<open>sg_cache r n = None \<and> ?path \<noteq> []\<close> by (simp add: schema_in_def Let_def)
      next
        case False
        then show ?thesis using m Suc.prems by (simp add: cache_sound_def)
      qed
    qed
    have "snd (load_recursive (Suc k) n r) =
        fold (\<lambda>f r. if mf_nested f = [] then r else snd (load_recursive k (mf_nested f) r)) (ms_fields ?s) ?r"
      using True by (simp add: Let_def)
    then show ?thesis using many [OF s, of "ms_fields ?s"] grown_trans [OF r] by (simp del: load_recursive.simps)
  next
    case False
    then have "snd (load_recursive (Suc k) n r) = r" by (auto simp: Let_def split: option.splits)
    then show ?thesis using Suc.prems by (simp del: load_recursive.simps)
  qed
qed simp

lemma load_recursive_value: "cache_sound r \<Longrightarrow> fst (load_recursive (Suc k) n r) = schema_in (sg_dir r) (sg_text r) n"
  by (cases "sg_cache r n") (simp_all add: cache_sound_def schema_in_def Let_def)

definition after_loads :: "string list \<Rightarrow> schema_registry \<Rightarrow> schema_registry" where
  "after_loads ns r = fold (\<lambda>n r. snd (load_schema n r)) ns r"

lemma after_loads_grows: "cache_sound r \<Longrightarrow> grown r (after_loads ns r) \<and> cache_sound (after_loads ns r)"
proof (induction ns arbitrary: r)
  case (Cons n ns)
  let ?r = "snd (load_schema n r)"
  have r: "grown r ?r" "cache_sound ?r" using load_recursive_grows [OF Cons.prems] unfolding load_schema_def by blast+
  have "after_loads (n # ns) r = after_loads ns ?r" by (simp only: after_loads_def fold_simps)
  then show ?case using Cons.IH [OF r(2)] grown_trans [OF r(1)] by metis
qed (simp add: after_loads_def)

text \<open>
  Loading a type returns the schema in the directory's first file of the type, or nothing when there is none,
  whatever has been loaded before, and the schemas returned before stay as they are.
\<close>

theorem load_is_transparent:
  "fst (load_schema n (after_loads ns (new_schema_registry dir text))) = schema_in dir text n \<and>
   sg_cache (after_loads ns (new_schema_registry dir text)) \<subseteq>\<^sub>m sg_cache (snd (load_schema n (after_loads ns (new_schema_registry dir text))))"
proof -
  let ?r = "after_loads ns (new_schema_registry dir text)"
  have "cache_sound (new_schema_registry dir text)" by (simp add: cache_sound_def new_schema_registry_def)
  then have r: "grown (new_schema_registry dir text) ?r" "cache_sound ?r" using after_loads_grows by blast+
  then show ?thesis
    using load_recursive_grows [OF r(2), of "kMaxDepth + 1" n] load_recursive_value [OF r(2), of kMaxDepth n]
    by (simp only: load_schema_def grown_def new_schema_registry_def schema_registry.simps Suc_eq_plus1 simp_thms)
qed

end
