(* ===== verification/MsgText.thy ===== *)
theory MsgText
  imports GenericLaws TextTools
begin

text \<open>
  The text that \<open>dzipc_topic_cat\<close> prints for a message without knowing its type
  (\<open>src/exec/dzipc_topic_cat/include/msg_type_identify.h\<close>): it walks through the paged bytes by the type codes in
  them. Nothing in it compares a position with the end of the buffer except the loop over the fields.
\<close>

section \<open>Reading\<close>

text \<open>What a message leads to besides text: a read outside the buffer and the exceptions of the library and the code.\<close>

datatype cat_error = Outside | Bad_size | Unsupported byte bytes | Runs_on

definition and_then :: "cat_error + 'a \<Rightarrow> ('a \<Rightarrow> cat_error + 'b) \<Rightarrow> cat_error + 'b" where
  "and_then r f = (case r of Inl e \<Rightarrow> Inl e | Inr x \<Rightarrow> f x)"

primrec plain_cuts :: "nat \<Rightarrow> bytes \<Rightarrow> nat \<Rightarrow> bytes \<Rightarrow> nat \<Rightarrow> nat \<Rightarrow> cat_error + bytes \<times> nat" where
  "plain_cuts 0 buf n acc offset pure =
     (let r = sub32 n (length acc)
      in if 0 < r
         then (case get_bytes buf offset r of None \<Rightarrow> Inl Outside | Some bs \<Rightarrow> Inr (acc @ bs, wrap32 (offset + r)))
         else Inr (acc, offset))"
| "plain_cuts (Suc k) buf n acc offset pure =
     (let copy = min (1460 - pure mod 1460) (sub32 n (length acc))
      in case get_bytes buf offset copy of
           None \<Rightarrow> Inl Outside
         | Some bs \<Rightarrow> plain_cuts k buf n (acc @ bs) (wrap32 (offset + copy + 12)) (wrap32 (pure + copy)))"

definition read_plain :: "bytes \<Rightarrow> nat \<Rightarrow> nat \<Rightarrow> cat_error + bytes \<times> nat" where
  "read_plain buf n offset =
     (let passed = offset div 1472; pure = sub32 offset (wrap32 (passed * 12));
          cut_cnt = sub32 (wrap32 (pure + n) div 1460) (pure div 1460)
      in plain_cuts cut_cnt buf n [] offset pure)"

definition read_value_from_buffer :: "nat \<Rightarrow> bytes \<Rightarrow> nat \<Rightarrow> cat_error + bytes \<times> nat" where
  "read_value_from_buffer n buf offset = read_plain buf n offset"

definition read_size :: "bytes \<Rightarrow> nat \<Rightarrow> cat_error + int \<times> nat" where
  "read_size buf offset =
     and_then (read_value_from_buffer 4 buf offset) (\<lambda>(bs, offset). Inr (sint (of_le bs :: u32), offset))"

definition read_string_from_buffer :: "bytes \<Rightarrow> nat \<Rightarrow> cat_error + bytes \<times> nat" where
  "read_string_from_buffer buf offset =
     and_then (read_size buf offset) (\<lambda>(sz, offset). if 0 < sz then read_plain buf (nat sz) offset else Inr ([], offset))"

definition read_raw_buffer_from_buffer :: "bytes \<Rightarrow> nat \<Rightarrow> int \<Rightarrow> cat_error + bytes \<times> nat" where
  "read_raw_buffer_from_buffer buf offset sz =
     (if sz < 0 then Inl Bad_size
      else if sz = 0 then Inr ([], offset)
      else read_plain buf (nat sz) offset)"

text \<open>The elements of an array; their total size is an \<open>int32_t\<close>, and elements that it does not cover are zero.\<close>

definition read_array_from_buffer :: "nat \<Rightarrow> bytes \<Rightarrow> nat \<Rightarrow> int \<Rightarrow> cat_error + bytes list \<times> nat" where
  "read_array_from_buffer n buf offset count =
     (if count < 0 then Inl Bad_size
      else and_then (read_plain buf (wrap32 (nat count * n)) offset)
             (\<lambda>(bs, offset).
                let all = bs @ replicate (nat count * n - length bs) 0
                in Inr (map (\<lambda>i. take n (drop (i * n) all)) [0..<nat count], offset)))"

primrec read_strings :: "nat \<Rightarrow> bytes \<Rightarrow> nat \<Rightarrow> cat_error + bytes list \<times> nat" where
  "read_strings 0 buf offset = Inr ([], offset)"
| "read_strings (Suc k) buf offset =
     and_then (read_string_from_buffer buf offset) (\<lambda>(s, offset).
       and_then (read_strings k buf offset) (\<lambda>(ss, offset). Inr (s # ss, offset)))"

section \<open>Text\<close>

definition indent_lines :: "string \<Rightarrow> string \<Rightarrow> string" where
  "indent_lines input indent = concat (map (\<lambda>line. indent @ line @ line_end) (lines_of [] input))"

text \<open>
  A value of a scalar type, given the texts of floating-point numbers, which the library prints. A Boolean is compared
  with 1 as a value and with 0 as an element.
\<close>

record float_text =
  text32 :: "u32 \<Rightarrow> string"
  text64 :: "u64 \<Rightarrow> string"

definition bit_text :: "bool \<Rightarrow> string" where
  "bit_text b = (if b then ''1'' else ''0'')"

definition number_text :: "float_text \<Rightarrow> byte \<Rightarrow> bytes \<Rightarrow> string" where
  "number_text fl t bs =
     (if t = FT_INT8 then show_int (sint (of_le bs :: byte))
      else if t = FT_UINT8 then show_nat (unat (of_le bs :: byte))
      else if t = FT_INT16 then show_int (sint (of_le bs :: u16))
      else if t = FT_UINT16 then show_nat (unat (of_le bs :: u16))
      else if t = FT_INT32 then show_int (sint (of_le bs :: u32))
      else if t = FT_UINT32 then show_nat (unat (of_le bs :: u32))
      else if t = FT_INT64 then show_int (sint (of_le bs :: u64))
      else if t = FT_UINT64 then show_nat (unat (of_le bs :: u64))
      else if t = FT_FLOAT32 then text32 fl (of_le bs)
      else text64 fl (of_le bs))"

definition scalar_text :: "float_text \<Rightarrow> byte \<Rightarrow> bytes \<Rightarrow> string" where
  "scalar_text fl t bs = (if t = FT_BOOL then bit_text ((of_le bs :: byte) = 1) else number_text fl t bs)"

definition elem_text :: "float_text \<Rightarrow> byte \<Rightarrow> bytes \<Rightarrow> string" where
  "elem_text fl t bs = (if t = FT_BOOL then bit_text ((of_le bs :: byte) \<noteq> 0) else number_text fl t bs)"

fun commas :: "string list \<Rightarrow> string" where
  "commas [] = []"
| "commas [x] = x"
| "commas (x # xs) = x @ '', '' @ commas xs"

definition line_text :: "bytes \<Rightarrow> string \<Rightarrow> string" where
  "line_text name v = bytes_text name @ '': '' @ v @ line_end"

definition list_text :: "string list \<Rightarrow> string" where
  "list_text xs = ''[ '' @ commas xs @ '' ]''"

definition quoted :: "bytes \<Rightarrow> string" where
  "quoted s = CHR 0x22 # bytes_text s @ [CHR 0x22]"

definition nested_text :: "bytes \<Rightarrow> string \<Rightarrow> string" where
  "nested_text name t = bytes_text name @ '':'' @ line_end @ indent_lines t ''  ''"

definition nested_elem :: "string \<Rightarrow> string" where
  "nested_elem t = ''  -'' @ line_end @ indent_lines t ''    ''"

definition nested_list :: "bytes \<Rightarrow> string list \<Rightarrow> string" where
  "nested_list name ts = bytes_text name @ '': ['' @ line_end @ concat (map nested_elem ts) @ '']'' @ line_end"

section \<open>The message\<close>

primrec read_nested :: "nat \<Rightarrow> (bytes \<Rightarrow> cat_error + string) \<Rightarrow> bytes \<Rightarrow> nat \<Rightarrow> cat_error + string list \<times> nat" where
  "read_nested 0 sub buf offset = Inr ([], offset)"
| "read_nested (Suc k) sub buf offset =
     and_then (read_size buf offset) (\<lambda>(sz, offset).
     and_then (read_raw_buffer_from_buffer buf offset sz) (\<lambda>(b, offset).
     and_then (sub b) (\<lambda>t.
     and_then (read_nested k sub buf offset) (\<lambda>(ts, offset). Inr (t # ts, offset)))))"

text \<open>The element type of an array type.\<close>

definition elem_type :: "byte \<Rightarrow> byte" where
  "elem_type t = t - 12"

definition value_text :: "float_text \<Rightarrow> (bytes \<Rightarrow> cat_error + string) \<Rightarrow> bytes \<Rightarrow> byte \<Rightarrow> bytes \<Rightarrow> nat \<Rightarrow> cat_error + string \<times> nat" where
  "value_text fl sub name t buf offset =
     (case shape_of t of
        Some (Scalar n) \<Rightarrow>
          and_then (read_value_from_buffer n buf offset) (\<lambda>(bs, offset). Inr (line_text name (scalar_text fl t bs), offset))
      | Some Str \<Rightarrow>
          if t = FT_STRING
          then and_then (read_string_from_buffer buf offset) (\<lambda>(s, offset). Inr (line_text name (bytes_text s), offset))
          else and_then (read_size buf offset) (\<lambda>(sz, offset).
               and_then (read_raw_buffer_from_buffer buf offset sz) (\<lambda>(b, offset).
               and_then (sub b) (\<lambda>x. Inr (nested_text name x, offset))))
      | Some (Array n) \<Rightarrow>
          and_then (read_size buf offset) (\<lambda>(count, offset).
          and_then (read_array_from_buffer n buf offset count) (\<lambda>(bss, offset).
            Inr (line_text name (list_text (map (elem_text fl (elem_type t)) bss)), offset)))
      | Some Strs \<Rightarrow>
          and_then (read_size buf offset) (\<lambda>(count, offset).
            if t = FT_STRING_ARRAY
            then if count < 0 then Inl Bad_size
                 else and_then (read_strings (nat count) buf offset) (\<lambda>(ss, offset).
                   Inr (line_text name (list_text (map quoted ss)), offset))
            else and_then (read_nested (nat count) sub buf offset) (\<lambda>(ts, offset). Inr (nested_list name ts, offset)))
      | None \<Rightarrow> Inl (Unsupported t name))"

primrec cat_rounds :: "nat \<Rightarrow> float_text \<Rightarrow> (bytes \<Rightarrow> cat_error + string) \<Rightarrow> bytes \<Rightarrow> nat \<Rightarrow> cat_error + string" where
  "cat_rounds 0 fl sub buf offset = Inl Runs_on"
| "cat_rounds (Suc k) fl sub buf offset =
     (if wrap32 (length buf) \<le> wrap32 (offset + 12) then Inr []
      else let offset = (if offset mod 1472 = 1460 then wrap32 (offset + 12) else offset)
           in and_then (read_string_from_buffer buf offset) (\<lambda>(name, offset).
              and_then (read_value_from_buffer 1 buf offset) (\<lambda>(t, offset).
              and_then (value_text fl sub name (hd t) buf offset) (\<lambda>(x, offset).
              and_then (cat_rounds k fl sub buf offset) (\<lambda>more. Inr (x @ more))))))"

primrec msg_text :: "nat \<Rightarrow> float_text \<Rightarrow> bytes \<Rightarrow> cat_error + string" where
  "msg_text 0 fl buf = Inl Runs_on"
| "msg_text (Suc d) fl buf = (if buf = [] then Inr [] else cat_rounds (length buf + 1) fl (msg_text d fl) buf 0)"

text \<open>The fuel is the length of the buffer: every round and every nested message uses bytes of it.\<close>

definition msg_to_string :: "float_text \<Rightarrow> bytes \<Rightarrow> cat_error + string" where
  "msg_to_string fl buf = msg_text (length buf + 1) fl buf"

section \<open>Progress\<close>

named_theorems cat_simps "sums of a result and what follows"

lemma and_then_simps [simp, cat_simps]: "and_then (Inl e) f = Inl e" "and_then (Inr x) f = f x"
  by (simp_all add: and_then_def)

lemma and_then_Inr: "and_then r f = Inr y \<longleftrightarrow> (\<exists>x. r = Inr x \<and> f x = Inr y)"
  by (cases r) auto

text \<open>A read that succeeds was inside the buffer.\<close>

lemma plain_cuts_inside:
  assumes "plain_cuts k buf n acc offset pure = Inr (bs, offset')" and "length buf < 2 ^ 31" and "offset \<le> length buf + 12"
    and "length acc \<le> n" and "n < 2 ^ 32"
  shows "length bs = n \<and> offset + (n - length acc) \<le> offset' \<and> offset' \<le> length buf + 12 \<and>
         (length acc < n \<longrightarrow> offset + (n - length acc) \<le> length buf)"
  using assms
proof (induction k arbitrary: acc offset pure)
  case 0
  have "sub32 n (length acc) = n - length acc" using 0 by (simp add: wrap_simps)
  then show ?case using 0 by (auto simp: Let_def get_bytes_def wrap_simps split: if_splits option.splits)
next
  case (Suc k)
  have s: "sub32 n (length acc) = n - length acc" using Suc.prems by (simp add: wrap_simps)
  define c where "c = min (1460 - pure mod 1460) (n - length acc)"
  obtain b where b: "get_bytes buf offset c = Some b" "plain_cuts k buf n (acc @ b) (wrap32 (offset + c + 12)) (wrap32 (pure + c)) = Inr (bs, offset')"
    using Suc.prems(1) by (auto simp: Let_def s c_def split: option.splits)
  have i: "length b = c" "offset + c \<le> length buf" using b(1) by (auto simp: get_bytes_def split: if_splits)
  have w: "wrap32 (offset + c + 12) = offset + c + 12" using i Suc.prems(2) by (simp add: wrap_simps)
  have "c \<le> n - length acc" by (simp add: c_def)
  then have "length (acc @ b) \<le> n" using i Suc.prems(4) by simp
  from Suc.IH [OF b(2) Suc.prems(2) _ this Suc.prems(5)] show ?case using i w \<open>c \<le> n - length acc\<close> by auto
qed

lemma read_plain_inside:
  assumes "read_plain buf n offset = Inr (bs, offset')" and "length buf < 2 ^ 31" and "offset \<le> length buf + 12" and "n < 2 ^ 32"
  shows "length bs = n" "offset + n \<le> offset'" "offset' \<le> length buf + 12" "0 < n \<Longrightarrow> offset + n \<le> length buf"
  using plain_cuts_inside [where acc = "[]", OF assms(1) [unfolded read_plain_def Let_def] assms(2,3) _ assms(4)] by auto

text \<open>A read that moves on inside the buffer, or fails for a reason of its own.\<close>

definition tame :: "bytes \<Rightarrow> nat \<Rightarrow> (cat_error + 'a \<times> nat) \<Rightarrow> bool" where
  "tame buf off r \<longleftrightarrow> r \<noteq> Inl Runs_on \<and> (\<forall>x off'. r = Inr (x, off') \<longrightarrow> off \<le> off' \<and> off' \<le> length buf + 12)"

lemma tame_Inr [simp]: "tame buf off (Inr (x, off')) \<longleftrightarrow> off \<le> off' \<and> off' \<le> length buf + 12"
  by (auto simp: tame_def)

lemma tame_Inl [simp]: "tame buf off (Inl e) \<longleftrightarrow> e \<noteq> Runs_on"
  by (auto simp: tame_def)

lemma tame_and_then:
  "tame buf off r \<Longrightarrow> (\<And>x off'. r = Inr (x, off') \<Longrightarrow> off \<le> off' \<Longrightarrow> off' \<le> length buf + 12 \<Longrightarrow> tame buf off' (f (x, off'))) \<Longrightarrow>
     tame buf off (and_then r f)"
proof (cases r)
  case (Inr y)
  assume r: "tame buf off r" and f: "\<And>x off'. r = Inr (x, off') \<Longrightarrow> off \<le> off' \<Longrightarrow> off' \<le> length buf + 12 \<Longrightarrow> tame buf off' (f (x, off'))"
  obtain x off' where y: "y = (x, off')" by (cases y)
  then have "off \<le> off'" "off' \<le> length buf + 12" using r Inr by simp_all
  then show ?thesis using f [of x off'] Inr y by (auto simp: tame_def)
qed simp

lemma plain_cuts_fails: "plain_cuts k buf n acc offset pure = Inl e \<Longrightarrow> e = Outside"
  by (induction k arbitrary: acc offset pure) (auto simp: Let_def split: if_splits option.splits)

lemma tame_read_plain: "length buf < 2 ^ 31 \<Longrightarrow> off \<le> length buf + 12 \<Longrightarrow> n < 2 ^ 32 \<Longrightarrow> tame buf off (read_plain buf n off)"
  using read_plain_inside [of buf n off] plain_cuts_fails
  by (fastforce simp: tame_def read_plain_def Let_def)

lemma tame_read_size: "length buf < 2 ^ 31 \<Longrightarrow> off \<le> length buf + 12 \<Longrightarrow> tame buf off (read_size buf off)"
  unfolding read_size_def read_value_from_buffer_def by (auto intro!: tame_and_then tame_read_plain)

lemma read_size_at: "read_size buf off = Inr (sz, off') \<Longrightarrow> length buf < 2 ^ 31 \<Longrightarrow> off \<le> length buf + 12 \<Longrightarrow>
    off + 4 \<le> off' \<and> off' \<le> length buf + 12 \<and> sz < 2 ^ 31"
  using read_plain_inside [of buf 4 off _ off'] sint_u32_bound
  by (fastforce simp: read_size_def read_value_from_buffer_def and_then_Inr)

lemma nat_small: "sz < 2 ^ 31 \<Longrightarrow> nat sz < 2 ^ 32"
  by (simp add: nat_less_iff)

lemma tame_read_string: "length buf < 2 ^ 31 \<Longrightarrow> off \<le> length buf + 12 \<Longrightarrow> tame buf off (read_string_from_buffer buf off)"
  unfolding read_string_from_buffer_def
  by (auto intro!: tame_and_then tame_read_size tame_read_plain nat_small dest: read_size_at simp del: power_numeral)

lemma tame_read_raw: "length buf < 2 ^ 31 \<Longrightarrow> off \<le> length buf + 12 \<Longrightarrow> sz < 2 ^ 31 \<Longrightarrow> tame buf off (read_raw_buffer_from_buffer buf off sz)"
  by (auto simp: read_raw_buffer_from_buffer_def intro!: tame_read_plain nat_small)

lemma read_raw_shorter:
  assumes "read_raw_buffer_from_buffer buf off sz = Inr (b, off')" and "length buf < 2 ^ 31" "off \<le> length buf + 12" "sz < 2 ^ 31"
    and "0 < off" "buf \<noteq> []"
  shows "length b < length buf"
  using assms(1,5,6) read_plain_inside [OF _ assms(2,3) nat_small [OF assms(4)], of b off']
  by (cases "sz = 0") (auto simp: read_raw_buffer_from_buffer_def split: if_splits)

lemma tame_read_array: "length buf < 2 ^ 31 \<Longrightarrow> off \<le> length buf + 12 \<Longrightarrow> tame buf off (read_array_from_buffer n buf off count)"
  unfolding read_array_from_buffer_def using wrap32_less
  by (auto simp: Let_def intro!: tame_and_then tame_read_plain)

lemma tame_read_strings: "length buf < 2 ^ 31 \<Longrightarrow> off \<le> length buf + 12 \<Longrightarrow> tame buf off (read_strings k buf off)"
  by (induction k arbitrary: off) (auto intro!: tame_and_then tame_read_string)

text \<open>Only shorter messages are nested in a message.\<close>

definition agree_below :: "nat \<Rightarrow> (bytes \<Rightarrow> 'r) \<Rightarrow> (bytes \<Rightarrow> 'r) \<Rightarrow> bool" where
  "agree_below n s1 s2 \<longleftrightarrow> (\<forall>b. length b < n \<longrightarrow> s1 b = s2 b)"

definition returns_below :: "nat \<Rightarrow> (bytes \<Rightarrow> cat_error + string) \<Rightarrow> bool" where
  "returns_below n s \<longleftrightarrow> (\<forall>b. length b < n \<longrightarrow> s b \<noteq> Inl Runs_on)"

lemma and_then_cong: "r = r' \<Longrightarrow> (\<And>x. r = Inr x \<Longrightarrow> f x = f' x) \<Longrightarrow> and_then r f = and_then r' f'"
  by (cases r) auto

lemma read_nested_cong:
  assumes "length buf < 2 ^ 31" "buf \<noteq> []" "agree_below (length buf) s1 s2"
  shows "off \<le> length buf + 12 \<Longrightarrow> read_nested k s1 buf off = read_nested k s2 buf off"
proof (induction k arbitrary: off)
  case (Suc k)
  show ?case unfolding read_nested.simps
  proof (rule and_then_cong [OF refl], clarsimp)
    fix sz off1 assume r: "read_size buf off = Inr (sz, off1)"
    note a = read_size_at [OF r assms(1) Suc.prems]
    show "and_then (read_raw_buffer_from_buffer buf off1 sz) (\<lambda>(b, off). and_then (s1 b) (\<lambda>t.
        and_then (read_nested k s1 buf off) (\<lambda>(ts, off). Inr (t # ts, off)))) =
      and_then (read_raw_buffer_from_buffer buf off1 sz) (\<lambda>(b, off). and_then (s2 b) (\<lambda>t.
        and_then (read_nested k s2 buf off) (\<lambda>(ts, off). Inr (t # ts, off))))"
    proof (rule and_then_cong [OF refl], clarsimp)
      fix b off2 assume b: "read_raw_buffer_from_buffer buf off1 sz = Inr (b, off2)"
      have "s1 b = s2 b" using read_raw_shorter [OF b assms(1)] a assms(2,3) by (auto simp: agree_below_def)
      moreover have "tame buf off1 (Inr (b, off2) :: cat_error + bytes \<times> nat)" using tame_read_raw [OF assms(1), of off1 sz] a b by simp
      then have "read_nested k s1 buf off2 = read_nested k s2 buf off2" using Suc.IH [of off2] by simp
      ultimately show "and_then (s1 b) (\<lambda>t. and_then (read_nested k s1 buf off2) (\<lambda>(ts, off). Inr (t # ts, off))) =
          and_then (s2 b) (\<lambda>t. and_then (read_nested k s2 buf off2) (\<lambda>(ts, off). Inr (t # ts, off)))" by simp
    qed
  qed
qed simp

lemma value_text_cong:
  assumes "length buf < 2 ^ 31" "buf \<noteq> []" "agree_below (length buf) s1 s2" "off \<le> length buf + 12"
  shows "value_text fl s1 name t buf off = value_text fl s2 name t buf off"
proof -
  have one: "(case (sz, off1) of (sz, off1) \<Rightarrow> and_then (read_raw_buffer_from_buffer buf off1 sz) (\<lambda>(b, off).
      and_then (s1 b) (\<lambda>x. Inr (nested_text name x, off)))) =
    (case (sz, off1) of (sz, off1) \<Rightarrow> and_then (read_raw_buffer_from_buffer buf off1 sz) (\<lambda>(b, off).
      and_then (s2 b) (\<lambda>x. Inr (nested_text name x, off))))" if r: "read_size buf off = Inr (sz, off1)" for sz off1
  proof (simp only: prod.case, rule and_then_cong [OF refl], clarsimp)
    fix b off2 assume b: "read_raw_buffer_from_buffer buf off1 sz = Inr (b, off2)"
    have "s1 b = s2 b" using read_raw_shorter [OF b assms(1)] read_size_at [OF r assms(1,4)] assms(2,3) by (auto simp: agree_below_def)
    then show "and_then (s1 b) (\<lambda>x. Inr (nested_text name x, off2)) = and_then (s2 b) (\<lambda>x. Inr (nested_text name x, off2))" by simp
  qed
  have many: "read_nested (nat count) s1 buf off1 = read_nested (nat count) s2 buf off1"
    if "read_size buf off = Inr (count, off1)" for count off1
    using read_nested_cong [OF assms(1-3)] read_size_at [OF that assms(1,4)] by simp
  show ?thesis
  proof (cases "shape_of t")
    case (Some sh)
    then show ?thesis
    proof (cases sh)
      case Str
      then show ?thesis using Some one by (cases "read_size buf off") (auto simp: value_text_def)
    next
      case Strs
      then show ?thesis using Some many by (cases "read_size buf off") (auto simp: value_text_def)
    qed (simp_all add: value_text_def Some)
  qed (simp add: value_text_def)
qed

text \<open>The same without the question why a read failed.\<close>

definition moves :: "bytes \<Rightarrow> nat \<Rightarrow> (cat_error + 'a \<times> nat) \<Rightarrow> bool" where
  "moves buf off r \<longleftrightarrow> (\<forall>x off'. r = Inr (x, off') \<longrightarrow> off \<le> off' \<and> off' \<le> length buf + 12)"

lemma moves_Inl [simp]: "moves buf off (Inl e)"
  by (simp add: moves_def)

lemma moves_Inr [simp]: "moves buf off (Inr (x, off')) \<longleftrightarrow> off \<le> off' \<and> off' \<le> length buf + 12"
  by (simp add: moves_def)

lemma tame_moves: "tame buf off r \<Longrightarrow> moves buf off r"
  by (auto simp: tame_def moves_def)

lemma moves_and_then:
  "tame buf off r \<Longrightarrow> (\<And>x off'. r = Inr (x, off') \<Longrightarrow> off \<le> off' \<Longrightarrow> off' \<le> length buf + 12 \<Longrightarrow> moves buf off' (f (x, off'))) \<Longrightarrow>
     moves buf off (and_then r f)"
  by (cases r) (fastforce simp: tame_def moves_def)+

lemma moves_result: "(\<And>x. r = Inr x \<Longrightarrow> moves buf off (f x)) \<Longrightarrow> moves buf off (and_then r f)"
  by (cases r) auto

lemma moves_text: "off \<le> length buf + 12 \<Longrightarrow> moves buf off (and_then r (\<lambda>x. Inr (g x, off)))"
  by (cases r) auto

lemma moves_read_nested: "length buf < 2 ^ 31 \<Longrightarrow> off \<le> length buf + 12 \<Longrightarrow> moves buf off (read_nested k sub buf off)"
proof (induction k arbitrary: off)
  case (Suc k)
  show ?case unfolding read_nested.simps
  proof (rule moves_and_then [OF tame_read_size [OF Suc.prems]], simp only: prod.case, rule moves_and_then)
    fix sz off1 assume a: "read_size buf off = Inr (sz, off1)" "off1 \<le> length buf + 12"
    then show "tame buf off1 (read_raw_buffer_from_buffer buf off1 sz)"
      using read_size_at [OF a(1) Suc.prems] by (intro tame_read_raw [OF Suc.prems(1)]) auto
  next
    fix off2 b sz off1 assume b: "off2 \<le> length buf + 12"
    have "moves buf off2 (and_then (read_nested k sub buf off2) (\<lambda>(ts, off). Inr (t # ts, off)))" for t
      using Suc.IH [OF Suc.prems(1) b] by (cases "read_nested k sub buf off2") auto
    then show "moves buf off2 (case (b, off2) of (b, off) \<Rightarrow> and_then (sub b) (\<lambda>t.
        and_then (read_nested k sub buf off) (\<lambda>(ts, off). Inr (t # ts, off))))"
      by (auto intro: moves_result)
  qed
qed simp

lemma moves_value_text:
  assumes "length buf < 2 ^ 31" "off \<le> length buf + 12"
  shows "moves buf off (value_text fl sub name t buf off)"
proof (cases "shape_of t")
  case (Some sh)
  note size = read_size_at [OF _ assms]
  show ?thesis
  proof (cases sh)
    case (Scalar n)
    then have "n < 2 ^ 32" using Some by (auto simp: shape_of_def split: if_splits)
    then show ?thesis using Some Scalar assms
      by (auto simp: value_text_def read_value_from_buffer_def intro!: moves_and_then tame_read_plain)
  next
    case Str
    then show ?thesis using Some assms size
      by (cases "t = FT_STRING")
         (auto simp: value_text_def intro!: moves_and_then tame_read_string tame_read_size tame_read_raw moves_text)
  next
    case (Array n)
    then show ?thesis using Some assms
      by (auto simp: value_text_def intro!: moves_and_then tame_read_size tame_read_array)
  next
    case Strs
    have "moves buf off1 (and_then (read_nested k sub buf off1) (\<lambda>(ts, off). Inr (nested_list name ts, off)))"
      if "off1 \<le> length buf + 12" for k off1
      using moves_read_nested [OF assms(1) that, of k sub] by (cases "read_nested k sub buf off1") auto
    then show ?thesis using Some Strs assms
      by (auto simp: value_text_def intro!: moves_and_then tame_read_size tame_read_strings)
  qed
qed (simp add: value_text_def)

text \<open>One round: the field that begins at \<open>off\<close>.\<close>

definition round_text :: "float_text \<Rightarrow> (bytes \<Rightarrow> cat_error + string) \<Rightarrow> bytes \<Rightarrow> nat \<Rightarrow> cat_error + string \<times> nat" where
  "round_text fl sub buf off =
     and_then (read_string_from_buffer buf off) (\<lambda>(name, off).
     and_then (read_value_from_buffer 1 buf off) (\<lambda>(t, off). value_text fl sub name (hd t) buf off))"

definition skip_tail :: "nat \<Rightarrow> nat" where
  "skip_tail off = (if off mod 1472 = 1460 then wrap32 (off + 12) else off)"

lemma and_then_assoc: "and_then (and_then r f) g = and_then r (\<lambda>x. and_then (f x) g)"
  by (cases r) auto

lemma cat_rounds_round:
  "cat_rounds (Suc k) fl sub buf off =
     (if wrap32 (length buf) \<le> wrap32 (off + 12) then Inr []
      else and_then (round_text fl sub buf (skip_tail off)) (\<lambda>(x, off).
           and_then (cat_rounds k fl sub buf off) (\<lambda>more. Inr (x @ more))))"
  by (simp add: round_text_def skip_tail_def and_then_assoc Let_def case_prod_unfold)

lemma round_text_cong:
  assumes "length buf < 2 ^ 31" "buf \<noteq> []" "agree_below (length buf) s1 s2" "off \<le> length buf + 12"
  shows "round_text fl s1 buf off = round_text fl s2 buf off"
  unfolding round_text_def
proof (rule and_then_cong [OF refl], clarsimp, rule and_then_cong [OF refl], clarsimp)
  fix name off1 t off2
  assume "read_string_from_buffer buf off = Inr (name, off1)" "read_value_from_buffer (Suc 0) buf off1 = Inr (t, off2)"
  then have "off2 \<le> length buf + 12"
    using tame_read_string [OF assms(1,4)] tame_read_plain [OF assms(1), of off1 1] by (simp add: read_value_from_buffer_def)
  then show "value_text fl s1 name (hd t) buf off2 = value_text fl s2 name (hd t) buf off2"
    by (rule value_text_cong [OF assms(1-3)])
qed

text \<open>A round reads at least the size of the name and the type.\<close>

lemma round_text_at:
  assumes "round_text fl sub buf off = Inr (x, off')" "length buf < 2 ^ 31" "off \<le> length buf + 12"
  shows "off + 5 \<le> off' \<and> off' \<le> length buf + 12"
proof -
  obtain name off1 where n: "read_string_from_buffer buf off = Inr (name, off1)"
    and r: "and_then (read_value_from_buffer 1 buf off1) (\<lambda>(t, off). value_text fl sub name (hd t) buf off) = Inr (x, off')"
    using assms(1) by (auto simp: round_text_def and_then_Inr)
  obtain t off2 where t: "read_plain buf 1 off1 = Inr (t, off2)" "value_text fl sub name (hd t) buf off2 = Inr (x, off')"
    using r by (auto simp: read_value_from_buffer_def and_then_Inr)
  obtain sz off0 where s: "read_size buf off = Inr (sz, off0)" "(if 0 < sz then read_plain buf (nat sz) off0 else Inr ([], off0)) = Inr (name, off1)"
    using n by (auto simp: read_string_from_buffer_def and_then_Inr)
  note a = read_size_at [OF s(1) assms(2,3)]
  have "off0 \<le> off1 \<and> off1 \<le> length buf + 12"
    using s(2) read_plain_inside [of buf "nat sz" off0 name off1] a assms(2) nat_small [of sz] by (auto split: if_splits)
  moreover have "off1 + 1 \<le> off2 \<and> off2 \<le> length buf + 12"
    using read_plain_inside [OF t(1) assms(2)] calculation by auto
  moreover have "off2 \<le> off' \<and> off' \<le> length buf + 12"
    using moves_value_text [OF assms(2), of off2 fl sub name "hd t"] t(2) calculation by (simp add: moves_def)
  ultimately show ?thesis using a by simp
qed

lemma skip_tail_at: "length buf < 2 ^ 31 \<Longrightarrow> \<not> wrap32 (length buf) \<le> wrap32 (off + 12) \<Longrightarrow> off \<le> length buf + 12 \<Longrightarrow>
    off \<le> skip_tail off \<and> skip_tail off \<le> length buf \<and> off + 12 < length buf"
  by (simp add: skip_tail_def wrap_simps)

lemma cat_rounds_cong:
  assumes "length buf < 2 ^ 31" "buf \<noteq> []" "agree_below (length buf) s1 s2"
  shows "off \<le> length buf + 12 \<Longrightarrow> cat_rounds k fl s1 buf off = cat_rounds k fl s2 buf off"
proof (induction k arbitrary: off)
  case (Suc k)
  show ?case
  proof (cases "wrap32 (length buf) \<le> wrap32 (off + 12)")
    case False
    then have at: "skip_tail off \<le> length buf + 12" using skip_tail_at [OF assms(1) False Suc.prems] by simp
    show ?thesis unfolding cat_rounds_round round_text_cong [OF assms at]
      using round_text_at [OF _ assms(1) at] Suc.IH by (auto intro!: and_then_cong simp del: cat_rounds.simps)
  qed (simp add: cat_rounds_round del: cat_rounds.simps)
qed simp

section \<open>The tool returns\<close>

lemma and_then_Inl: "and_then r f = Inl e \<longleftrightarrow> r = Inl e \<or> (\<exists>x. r = Inr x \<and> f x = Inl e)"
  by (cases r) auto

named_theorems no_fuel "reads do not run out of fuel"

lemma read_plain_fuel [no_fuel]: "read_plain buf n off \<noteq> Inl Runs_on"
  using plain_cuts_fails by (fastforce simp: read_plain_def Let_def)

lemma read_size_fuel [no_fuel]: "read_size buf off \<noteq> Inl Runs_on"
  by (auto simp: read_size_def read_value_from_buffer_def and_then_Inl no_fuel)

lemma read_string_fuel [no_fuel]: "read_string_from_buffer buf off \<noteq> Inl Runs_on"
  by (auto simp: read_string_from_buffer_def and_then_Inl no_fuel split: if_splits)

lemma read_raw_fuel [no_fuel]: "read_raw_buffer_from_buffer buf off sz \<noteq> Inl Runs_on"
  by (simp add: read_raw_buffer_from_buffer_def no_fuel)

lemma read_array_fuel [no_fuel]: "read_array_from_buffer n buf off count \<noteq> Inl Runs_on"
  by (auto simp: read_array_from_buffer_def and_then_Inl Let_def no_fuel)

lemma read_strings_fuel [no_fuel]: "read_strings k buf off \<noteq> Inl Runs_on"
  by (induction k arbitrary: off) (auto simp: and_then_Inl no_fuel)

lemma nested_fuel:
  assumes "length buf < 2 ^ 31" "buf \<noteq> []" "returns_below (length buf) sub" "off \<le> length buf + 12"
    and "read_size buf off = Inr (sz, off1)" "read_raw_buffer_from_buffer buf off1 sz = Inr (b, off2)"
  shows "sub b \<noteq> Inl Runs_on" "off2 \<le> length buf + 12"
proof -
  note a = read_size_at [OF assms(5,1,4)]
  show "sub b \<noteq> Inl Runs_on" using read_raw_shorter [OF assms(6,1)] a assms(2,3) by (auto simp: returns_below_def)
  show "off2 \<le> length buf + 12" using tame_read_raw [OF assms(1), of off1 sz] a assms(6) by simp
qed

lemma read_nested_fuel:
  assumes "length buf < 2 ^ 31" "buf \<noteq> []" "returns_below (length buf) sub"
  shows "off \<le> length buf + 12 \<Longrightarrow> read_nested k sub buf off \<noteq> Inl Runs_on"
proof (induction k arbitrary: off)
  case (Suc k)
  show ?case
  proof
    assume "read_nested (Suc k) sub buf off = Inl Runs_on"
    then obtain sz off1 b off2 where "read_size buf off = Inr (sz, off1)" "read_raw_buffer_from_buffer buf off1 sz = Inr (b, off2)"
      "and_then (sub b) (\<lambda>t. and_then (read_nested k sub buf off2) (\<lambda>(ts, off). Inr (t # ts, off))) = Inl Runs_on"
      by (auto simp: and_then_Inl no_fuel)
    then show False using nested_fuel [OF assms Suc.prems] Suc.IH [of off2] by (auto simp: and_then_Inl)
  qed
qed simp

lemma value_text_fuel:
  assumes "length buf < 2 ^ 31" "buf \<noteq> []" "returns_below (length buf) sub" "off \<le> length buf + 12"
  shows "value_text fl sub name t buf off \<noteq> Inl Runs_on"
proof (cases "shape_of t")
  case (Some sh)
  then show ?thesis
  proof (cases sh)
    case Str
    then show ?thesis using Some nested_fuel(1) [OF assms]
      by (auto simp: value_text_def and_then_Inl no_fuel)
  next
    case Strs
    then show ?thesis using Some read_nested_fuel [OF assms(1-3)] read_size_at [OF _ assms(1,4)]
      by (auto simp: value_text_def and_then_Inl no_fuel split: if_splits)
  qed (auto simp: value_text_def read_value_from_buffer_def and_then_Inl no_fuel)
qed (simp add: value_text_def)

lemma round_text_fuel:
  assumes "length buf < 2 ^ 31" "buf \<noteq> []" "returns_below (length buf) sub" "off \<le> length buf + 12"
  shows "round_text fl sub buf off \<noteq> Inl Runs_on"
proof
  assume "round_text fl sub buf off = Inl Runs_on"
  then obtain name off1 t off2 where r: "read_string_from_buffer buf off = Inr (name, off1)" "read_plain buf 1 off1 = Inr (t, off2)"
    "value_text fl sub name (hd t) buf off2 = Inl Runs_on"
    by (auto simp: round_text_def read_value_from_buffer_def and_then_Inl no_fuel)
  then have "off2 \<le> length buf + 12" using tame_read_string [OF assms(1,4)] tame_read_plain [OF assms(1), of off1 1] by simp
  then show False using value_text_fuel [OF assms(1-3)] r(3) by blast
qed

lemma cat_rounds_fuel:
  assumes "length buf < 2 ^ 31" "buf \<noteq> []" "returns_below (length buf) sub"
  shows "off \<le> length buf + 12 \<Longrightarrow> length buf < off + k \<Longrightarrow> 0 < k \<Longrightarrow> cat_rounds k fl sub buf off \<noteq> Inl Runs_on"
proof (induction k arbitrary: off)
  case (Suc k)
  show ?case
  proof (cases "wrap32 (length buf) \<le> wrap32 (off + 12)")
    case False
    note at = skip_tail_at [OF assms(1) False Suc.prems(1)]
    show ?thesis
    proof
      assume "cat_rounds (Suc k) fl sub buf off = Inl Runs_on"
      then obtain x off' where r: "round_text fl sub buf (skip_tail off) = Inr (x, off')" "cat_rounds k fl sub buf off' = Inl Runs_on"
        using False round_text_fuel [OF assms, of "skip_tail off" fl] at
        by (auto simp: cat_rounds_round and_then_Inl simp del: cat_rounds.simps)
      then have "off + 5 \<le> off'" "off' \<le> length buf + 12" using round_text_at [OF r(1) assms(1)] at by auto
      then show False using Suc.IH [of off'] r(2) Suc.prems at by simp
    qed
  qed (simp add: cat_rounds_round del: cat_rounds.simps)
qed simp

text \<open>More fuel than the length of the buffer gives the same result, which is not the end of the fuel.\<close>

lemma msg_text_enough:
  "length buf < 2 ^ 31 \<Longrightarrow> length buf < d \<Longrightarrow> length buf < e \<Longrightarrow> msg_text d fl buf = msg_text e fl buf \<and> msg_text d fl buf \<noteq> Inl Runs_on"
proof (induction "length buf" arbitrary: buf d e rule: less_induct)
  case less
  obtain d' e' where de: "d = Suc d'" "e = Suc e'" using less.prems by (cases d; cases e) auto
  show ?case
  proof (cases "buf = []")
    case False
    have "msg_text d' fl b = msg_text e' fl b \<and> msg_text d' fl b \<noteq> Inl Runs_on" if "length b < length buf" for b
      by (rule less.hyps [OF that]) (use less.prems de that in auto)
    then have "agree_below (length buf) (msg_text d' fl) (msg_text e' fl)" "returns_below (length buf) (msg_text d' fl)"
      unfolding agree_below_def returns_below_def by blast+
    note below = this
    have "cat_rounds (length buf + 1) fl (msg_text d' fl) buf 0 = cat_rounds (length buf + 1) fl (msg_text e' fl) buf 0"
      by (rule cat_rounds_cong [OF less.prems(1) False below(1)]) simp
    moreover have "cat_rounds (length buf + 1) fl (msg_text d' fl) buf 0 \<noteq> Inl Runs_on"
      by (rule cat_rounds_fuel [OF less.prems(1) False below(2)]) simp_all
    ultimately show ?thesis using de False by (simp only: msg_text.simps if_False simp_thms)
  qed (simp add: de)
qed

section \<open>What the tool prints\<close>

text \<open>The text of a field, from its data as the getters see them.\<close>

definition elems_of :: "nat \<Rightarrow> bytes \<Rightarrow> bytes list" where
  "elems_of n d = map (\<lambda>i. take n (drop (i * n) (drop 4 d))) [0..<nat (sint (read_raw 4 d 0 :: u32))]"

primrec texts_of :: "(bytes \<Rightarrow> cat_error + string) \<Rightarrow> bytes list \<Rightarrow> cat_error + string list" where
  "texts_of sub [] = Inr []"
| "texts_of sub (b # bs) = and_then (sub b) (\<lambda>t. and_then (texts_of sub bs) (\<lambda>ts. Inr (t # ts)))"

definition field_text :: "float_text \<Rightarrow> (bytes \<Rightarrow> cat_error + string) \<Rightarrow> field \<Rightarrow> cat_error + string" where
  "field_text fl sub f =
     (let name = f_name f; t = f_type f; d = f_data f
      in case shape_of t of
           Some (Scalar n) \<Rightarrow> Inr (line_text name (scalar_text fl t d))
         | Some Str \<Rightarrow>
             if t = FT_STRING then Inr (line_text name (bytes_text (drop 4 d)))
             else and_then (sub (drop 4 d)) (\<lambda>x. Inr (nested_text name x))
         | Some (Array n) \<Rightarrow> Inr (line_text name (list_text (map (elem_text fl (elem_type t)) (elems_of n d))))
         | Some Strs \<Rightarrow>
             (case strings_from (nat (sint (read_raw 4 d 0 :: u32))) d 4 of
                Inl e \<Rightarrow> Inl Bad_size
              | Inr ss \<Rightarrow>
                  if t = FT_STRING_ARRAY then Inr (line_text name (list_text (map quoted ss)))
                  else and_then (texts_of sub ss) (\<lambda>ts. Inr (nested_list name ts)))
         | None \<Rightarrow> Inl (Unsupported t name))"

primrec fields_text :: "float_text \<Rightarrow> (bytes \<Rightarrow> cat_error + string) \<Rightarrow> field list \<Rightarrow> cat_error + string" where
  "fields_text fl sub [] = Inr []"
| "fields_text fl sub (f # fs) = and_then (field_text fl sub f) (\<lambda>x. and_then (fields_text fl sub fs) (\<lambda>more. Inr (x @ more)))"

lemma plain_cuts_tods:
  "tods_cuts k m src n acc off pure (length acc) = Some (m', bs, off') \<Longrightarrow> \<not> mb_overflow m' \<Longrightarrow> length acc \<le> n \<Longrightarrow> n < 2 ^ 32 \<Longrightarrow>
     plain_cuts k src n acc off pure = Inr (bs, off')"
proof (induction k arbitrary: acc off pure)
  case 0
  then show ?case by (auto simp: Let_def split: if_splits bind_splits)
next
  case (Suc k)
  define c where "c = min (1460 - pure mod 1460) (sub32 n (length acc))"
  have s: "sub32 n (length acc) = n - length acc" using Suc.prems by (simp add: wrap_simps)
  obtain b where b: "get_bytes src off c = Some b"
    "tods_cuts k m src n (acc @ b) (wrap32 (off + c + 12)) (wrap32 (pure + c)) (wrap32 (length acc + c)) = Some (m', bs, off')"
    using Suc.prems(1,2) by (auto simp: Let_def c_def split: if_splits bind_splits)
  have l: "length b = c" "c \<le> n - length acc" using get_bytes_length [OF b(1)] s by (simp_all add: c_def)
  then have w: "wrap32 (length acc + c) = length (acc @ b)" using Suc.prems(3,4) by (simp add: wrap_simps)
  have "length (acc @ b) \<le> n" using l Suc.prems(3) by simp
  from Suc.IH [OF b(2) [unfolded w] Suc.prems(2) this Suc.prems(4)] show ?case using b(1) by (simp add: Let_def c_def)
qed

lemma read_plain_framed:
  assumes "framed buf d" and "suffix (f @ s) d"
  shows "read_plain buf (length f) (rest_at d (f @ s)) = Inr (f, rest_at d s)"
proof -
  let ?p = "length d - length (f @ s)"
  note sf = suffix_at [OF assms(2)]
  obtain mm pg t where buf: "buf = frames mm pg d @ t" "length t = 12" and d: "length d < max_payload"
    using assms(1) by (auto simp: framed_def)
  define m where "m = deserialize_data_cut (msg_base_init 0) (of_nat (phys (length d)))"
  have tot: "phys (length d) \<le> unat (mb_total_size m)" "\<not> mb_overflow m"
    using phys_bound [OF d] by (simp_all add: m_def deserialize_data_cut_def unat_of_nat take_bit_nat_eq_self)
  have "adapt_memcpy_tods m False (Some buf) (phys ?p) (length f) = Some (m, take (length f) (drop ?p d), phys (?p + length f))"
    unfolding buf(1) by (rule adapt_memcpy_tods_frames) (use sf d tot in auto)
  then have "tods_cuts (sub32 (wrap32 (to_pure_offset (phys ?p) + length f) div 1460) (to_pure_offset (phys ?p) div 1460)) m buf (length f) []
      (phys ?p) (to_pure_offset (phys ?p)) (length ([] :: bytes)) = Some (m, f, phys (?p + length f))"
    using sf(2) by (simp add: adapt_memcpy_tods_def Let_def)
  then have "plain_cuts (sub32 (wrap32 (to_pure_offset (phys ?p) + length f) div 1460) (to_pure_offset (phys ?p) div 1460)) buf (length f) []
      (phys ?p) (to_pure_offset (phys ?p)) = Inr (f, phys (?p + length f))"
    by (rule plain_cuts_tods) (use tot(2) sf(4) max_payload_small [OF d] in auto)
  then show ?thesis using sf(1) by (simp add: read_plain_def rest_at_def to_pure_offset_def Let_def)
qed

lemma read_size_framed:
  assumes "framed buf d" and "suffix (size_bytes c @ s) d" and "c < 2 ^ 31"
  shows "read_size buf (rest_at d (size_bytes c @ s)) = Inr (int c, rest_at d s)"
  using read_plain_framed [OF assms(1,2)] size_value [OF assms(3)] by (simp add: read_size_def read_value_from_buffer_def)

lemma read_sized_framed:
  assumes "framed buf d" and "suffix (sized f @ s) d" and "length f < 2 ^ 31"
  shows "read_string_from_buffer buf (rest_at d (sized f @ s)) = Inr (f, rest_at d s)"
    "and_then (read_size buf (rest_at d (sized f @ s))) (\<lambda>(sz, off). and_then (read_raw_buffer_from_buffer buf off sz) g) = g (f, rest_at d s)"
proof -
  have su: "suffix (size_bytes (length f) @ (f @ s)) d" using assms(2) by (simp add: sized_def)
  have at: "read_size buf (rest_at d (sized f @ s)) = Inr (int (length f), rest_at d (f @ s))"
    using read_size_framed [OF assms(1) su assms(3)] by (simp add: sized_def)
  then show "read_string_from_buffer buf (rest_at d (sized f @ s)) = Inr (f, rest_at d s)"
    "and_then (read_size buf (rest_at d (sized f @ s))) (\<lambda>(sz, off). and_then (read_raw_buffer_from_buffer buf off sz) g) = g (f, rest_at d s)"
    using read_plain_framed [OF assms(1) suffix_rest [OF su]]
    by (auto simp: read_string_from_buffer_def read_raw_buffer_from_buffer_def)
qed

lemma read_strings_framed:
  assumes "framed buf d"
  shows "suffix (concat (map sized ss) @ s) d \<Longrightarrow> \<forall>f \<in> set ss. length f < 2 ^ 31 \<Longrightarrow>
    read_strings (length ss) buf (rest_at d (concat (map sized ss) @ s)) = Inr (ss, rest_at d s)"
proof (induction ss)
  case (Cons f ss)
  have su: "suffix (sized f @ (concat (map sized ss) @ s)) d" using Cons.prems(1) by simp
  show ?case using read_sized_framed(1) [OF assms su] Cons.IH [OF suffix_rest [OF su]] Cons.prems(2) by simp
qed simp

lemma read_nested_framed:
  assumes "framed buf d"
  shows "suffix (concat (map sized ss) @ s) d \<Longrightarrow> \<forall>f \<in> set ss. length f < 2 ^ 31 \<Longrightarrow>
    read_nested (length ss) sub buf (rest_at d (concat (map sized ss) @ s)) = and_then (texts_of sub ss) (\<lambda>ts. Inr (ts, rest_at d s))"
proof (induction ss)
  case (Cons f ss)
  have su: "suffix (sized f @ (concat (map sized ss) @ s)) d" using Cons.prems(1) by simp
  have f: "length f < 2 ^ 31" using Cons.prems(2) by simp
  show ?case using read_sized_framed(2) [OF assms su f, of "\<lambda>(b, offset). and_then (sub b) (\<lambda>t.
      and_then (read_nested (length ss) sub buf offset) (\<lambda>(ts, offset). Inr (t # ts, offset)))"]
      Cons.IH [OF suffix_rest [OF su]] Cons.prems(2)
    by (simp add: and_then_assoc)
qed simp

lemma elems_of_sized: "c < 2 ^ 31 \<Longrightarrow> elems_of n (size_bytes c @ e) = map (\<lambda>i. take n (drop (i * n) e)) [0..<c]"
  by (simp add: elems_of_def read_size)

lemma read_array_framed:
  assumes "framed buf d" and "suffix (e @ s) d" and "length e = c * n"
  shows "read_array_from_buffer n buf (rest_at d (e @ s)) (int c) = Inr (map (\<lambda>i. take n (drop (i * n) e)) [0..<c], rest_at d s)"
proof -
  have "length e < 2 ^ 32" using suffix_at(4) [OF assms(2)] max_payload_small assms(1) by (force simp: framed_def)
  then show ?thesis using read_plain_framed [OF assms(1,2)] assms(3)
    by (simp add: read_array_from_buffer_def wrap_simps)
qed

lemma value_text_framed:
  assumes "framed buf d" and "suffix (v @ s) d" and "shape_of t = Some sh" "typed sh v"
  shows "value_text fl sub name t buf (rest_at d (v @ s)) =
     and_then (field_text fl sub \<lparr>f_name = name, f_type = t, f_data = v\<rparr>) (\<lambda>x. Inr (x, rest_at d s))"
  using assms(4)
proof (cases rule: typed.cases)
  case (typed_scalar n)
  then show ?thesis using read_plain_framed [OF assms(1,2)] assms(3)
    by (simp add: value_text_def field_text_def read_value_from_buffer_def)
next
  case (typed_str f)
  have su: "suffix (sized f @ s) d" using assms(2) typed_str by simp
  have "drop 4 v = f" using typed_str by (simp add: sized_def)
  then show ?thesis
    using read_sized_framed(1) [OF assms(1) su typed_str(3)]
      read_sized_framed(2) [OF assms(1) su typed_str(3), of "\<lambda>(b, offset). and_then (sub b) (\<lambda>x. Inr (nested_text name x, offset))"]
      assms(3) typed_str(1,2)
    by (simp add: value_text_def field_text_def and_then_assoc)
next
  case (typed_array c e n)
  have su: "suffix (size_bytes c @ (e @ s)) d" using assms(2) typed_array by simp
  show ?thesis
    using read_size_framed [OF assms(1) su typed_array(3)] read_array_framed [OF assms(1) suffix_rest [OF su] typed_array(4)]
      assms(3) typed_array(1,2) elems_of_sized [OF typed_array(3), of n e]
    by (simp add: value_text_def field_text_def)
next
  case (typed_strs ss)
  have su: "suffix (size_bytes (length ss) @ (concat (map sized ss) @ s)) d" using assms(2) typed_strs by simp
  have "strings_from (length ss) v 4 = Inr ss" using strings_all [of ss] typed_strs by simp
  then show ?thesis
    using read_size_framed [OF assms(1) su typed_strs(3)] read_strings_framed [OF assms(1) suffix_rest [OF su] typed_strs(4)]
      read_nested_framed [OF assms(1) suffix_rest [OF su] typed_strs(4), of sub]
      assms(3) typed_strs(1-3)
    by (simp add: value_text_def field_text_def read_size and_then_assoc)
qed

lemma field_eta: "\<lparr>f_name = f_name f, f_type = f_type f, f_data = f_data f\<rparr> = f"
  by simp

lemma round_text_framed:
  assumes "framed buf d" and "suffix (concat (field_pieces f) @ s) d" and "field_typed f"
  shows "round_text fl sub buf (rest_at d (concat (field_pieces f) @ s)) = and_then (field_text fl sub f) (\<lambda>x. Inr (x, rest_at d s))"
proof -
  obtain sh where sh: "shape_of (f_type f) = Some sh" "typed sh (f_data f)" using assms(3) by (auto simp: field_typed_def)
  have pieces: "concat (field_pieces f) @ s = sized (f_name f) @ ([f_type f] @ (f_data f @ s))" by (simp add: field_pieces_def sized_def)
  have s1: "suffix (sized (f_name f) @ ([f_type f] @ (f_data f @ s))) d" using assms(2) unfolding pieces .
  have "length d < 2 ^ 30" using assms(1) max_payload_small by (auto simp: framed_def)
  then have name: "length (f_name f) < 2 ^ 31" using suffix_at(4) [OF s1] by (simp add: sized_def)
  note s2 = suffix_rest [OF s1] and s3 = suffix_rest [OF suffix_rest [OF s1]]
  have "read_plain buf (Suc 0) (rest_at d ([f_type f] @ (f_data f @ s))) = Inr ([f_type f], rest_at d (f_data f @ s))"
    using read_plain_framed [OF assms(1) s2] by simp
  then show ?thesis unfolding pieces
    using read_sized_framed(1) [OF assms(1) s1 name] value_text_framed [OF assms(1) s3 sh, of fl sub "f_name f"]
    by (simp add: round_text_def read_value_from_buffer_def field_eta)
qed

lemma cat_rounds_framed:
  assumes "framed buf d"
  shows "suffix (concat (concat (map field_pieces fs))) d \<Longrightarrow> \<forall>f \<in> set fs. field_typed f \<Longrightarrow> length fs < k \<Longrightarrow>
    cat_rounds k fl sub buf (rest_at d (concat (concat (map field_pieces fs)))) = fields_text fl sub fs"
proof (induction fs arbitrary: k)
  case Nil
  obtain mm pg t where "buf = frames mm pg d @ t" "length t = 12" using assms by (auto simp: framed_def)
  then have "rest_at d [] + 12 = length buf" by (simp add: rest_at_def)
  then show ?case using Nil by (cases k) (simp_all add: cat_rounds_round del: cat_rounds.simps)
next
  case (Cons f fs)
  let ?s = "concat (concat (map field_pieces fs))"
  obtain k' where k: "k = Suc k'" "length fs < k'" using Cons.prems(3) by (cases k) auto
  have su: "suffix (concat (field_pieces f) @ ?s) d" using Cons.prems(1) by simp
  let ?o = "rest_at d (concat (field_pieces f) @ ?s)"
  note room = framed_room [OF assms su]
  have ne: "0 < length (concat (field_pieces f))" by (simp add: length_field_pieces)
  have "skip_tail ?o = ?o" using room(4) by (simp add: skip_tail_def)
  moreover have "wrap32 (?o + 12) < wrap32 (length buf)"
    using room(1,2) ne wrap32_le [of "?o + 12"] by linarith
  ultimately show ?case using round_text_framed [OF assms su] Cons.IH [OF suffix_rest [OF su] _ k(2)] Cons.prems(2)
    by (simp add: k(1) cat_rounds_round and_then_assoc not_le del: cat_rounds.simps)
qed

section \<open>Properties\<close>

text \<open>
  For every buffer of less than two gigabytes the walk of the tool through a message ends: with text, with an
  exception, or with a read outside the buffer.
\<close>

theorem cat_returns:
  assumes "length buf < 2 ^ 31"
  shows "msg_to_string fl buf \<noteq> Inl Runs_on"
  using msg_text_enough [OF assms, of "length buf + 1" "length buf + 1" fl] by (simp add: msg_to_string_def)

definition no_floats :: float_text where
  "no_floats = \<lparr>text32 = (\<lambda>_. []), text64 = (\<lambda>_. [])\<rparr>"

lemma cat_returns_witness: "msg_to_string no_floats (replicate 2000 0) \<noteq> Inl Runs_on"
  by (rule cat_returns) simp

lemma msg_to_string_rounds:
  "buf \<noteq> [] \<Longrightarrow> msg_to_string fl buf = cat_rounds (Suc (length buf)) fl (msg_text (length buf) fl) buf 0"
  by (simp add: msg_to_string_def del: cat_rounds.simps)

text \<open>Sixteen bytes that announce a name of sixteen bytes make the tool read past their end.\<close>

lemma cat_reads_outside: "msg_to_string no_floats (size_bytes 16 @ replicate 12 0) = Inl Outside"
proof -
  let ?b = "size_bytes 16 @ replicate 12 (0 :: byte)"
  have "read_plain ?b 4 0 = Inr (size_bytes 16, 4)" by (simp add: read_plain_def Let_def wrap_simps get_bytes_def)
  then have "read_size ?b 0 = Inr (16, 4)" by (simp add: read_size_def read_value_from_buffer_def size_value)
  moreover have "read_plain ?b 16 4 = Inl Outside" by (simp add: read_plain_def Let_def wrap_simps get_bytes_def)
  ultimately have "read_string_from_buffer ?b 0 = Inl Outside" by (simp add: read_string_from_buffer_def)
  moreover have "?b \<noteq> []" "length ?b = 16" by simp_all
  ultimately show ?thesis
    unfolding msg_to_string_rounds [OF \<open>?b \<noteq> []\<close>] cat_rounds_round by (simp add: round_text_def skip_tail_def wrap_simps)
qed

text \<open>
  C36. For a message of typed fields the tool prints exactly its fields: each with its name and its value as the
  getters of a message see it, in order, and nested messages by the same rule, indented.
\<close>

theorem cat_prints_fields:
  assumes "msg_typed g" "gm_fields g \<noteq> []" "length (message_bytes g) < max_payload" "gm_serialize junk g = Some (g', data)"
  shows "msg_to_string fl data = fields_text fl (msg_to_string fl) (gm_fields g)"
proof -
  let ?d = "message_bytes g"
  have data: "data = wire (gm_base g) ?d" using gm_serialize_wire [OF assms(3,2)] assms(4) by simp
  have small: "length data < 2 ^ 31" "data \<noteq> []" using phys_bound [OF assms(3)] by (auto simp: data simp flip: length_greater_0_conv)
  have "agree_below (length data) (msg_text (length data) fl) (msg_to_string fl)"
    unfolding agree_below_def msg_to_string_def
    by (intro allI impI conjunct1 [OF msg_text_enough]) (use small(1) in auto)
  then have "msg_to_string fl data = cat_rounds (length data + 1) fl (msg_to_string fl) data 0"
    using cat_rounds_cong [OF small, of _ "msg_to_string fl" 0] small(2)
    by (simp add: msg_to_string_def [of fl data] del: cat_rounds.simps)
  moreover have "rest_at ?d ?d = 0" by (simp add: rest_at_def phys_def)
  moreover have "length (gm_fields g) < length data + 1"
  proof -
    have "length fs \<le> length (concat (concat (map field_pieces fs)))" for fs
      by (induction fs) (auto simp: length_field_pieces)
    then have "length (gm_fields g) \<le> length ?d" by (simp add: message_bytes_def)
    then show ?thesis by (simp add: data phys_def)
  qed
  ultimately show ?thesis
    using cat_rounds_framed [OF framed_wire [OF assms(3)], of "gm_fields g" "length data + 1" fl "msg_to_string fl" "gm_base g"] assms(1) data
    by (simp add: message_bytes_def msg_typed_def)
qed

lemma some_chars: "char_of (110 :: nat) = CHR ''n''" "char_of (55 :: nat) = CHR ''7''"
  by code_simp+

lemma cat_prints_fields_witness:
  "\<exists>g' data. gm_serialize (\<lambda>_. 0) (set_value [110] (V_int32 7) new_message) = Some (g', data) \<and>
     msg_to_string no_floats data = Inr (''n: 7'' @ line_end)"
proof -
  let ?g = "set_value [110] (V_int32 7) new_message"
  have f: "gm_fields ?g = [\<lparr>f_name = [110], f_type = FT_INT32, f_data = le_bytes 4 (7 :: u32)\<rparr>]"
    by (simp add: set_int32_def set_scalar_def store_fields new_message_def append_raw_def)
  have ty: "msg_typed ?g" unfolding msg_typed_def f using typed_values(1) by (simp add: field_typed_def shape_of_def field_type_defs)
  have ne: "gm_fields ?g \<noteq> []" by (simp only: f list.distinct not_False_eq_True)
  have len: "length (message_bytes ?g) < max_payload"
    unfolding message_bytes_def f by (simp add: field_pieces_def max_payload_def)
  obtain g' data where s: "gm_serialize (\<lambda>_. 0) ?g = Some (g', data)" using gm_serialize_total [OF len] by blast
  have "msg_to_string no_floats data = fields_text no_floats (msg_to_string no_floats) (gm_fields ?g)"
    by (rule cat_prints_fields [OF ty ne len s])
  also have "\<dots> = Inr (''n: 7'' @ line_end)"
    unfolding f by (simp add: field_text_def shape_of_def field_type_defs scalar_text_def number_text_def line_text_def
        bytes_text_def show_int_def show_nat.simps digit_def some_chars)
  finally show ?thesis using s by blast
qed

end
