(* ===== verification/MsgBuilder.thy ===== *)
theory MsgBuilder
  imports MsgSchema MsgText
begin

text \<open>
  How the publishing tool fills a message (\<open>src/exec/dzipc_pub/include/msg_builder.h\<close>): with default values for the
  fields of its schema, and with the values given on the command line, as \<open>name=value\<close> or \<open>name:type:value\<close>,
  with dots between the names of nested messages.
\<close>

section \<open>Default values\<close>

definition default_value :: "byte \<Rightarrow> gm_value option" where
  "default_value t = map_of
     [(FT_BOOL, V_bool False), (FT_INT8, V_int8 0), (FT_UINT8, V_uint8 0), (FT_INT16, V_int16 0),
      (FT_UINT16, V_uint16 0), (FT_INT32, V_int32 0), (FT_UINT32, V_uint32 0), (FT_INT64, V_int64 0),
      (FT_UINT64, V_uint64 0), (FT_FLOAT32, V_float32 0), (FT_FLOAT64, V_float64 0), (FT_STRING, V_string []),
      (FT_BOOL_ARRAY, V_bool_array []), (FT_INT8_ARRAY, V_int8_array []), (FT_UINT8_ARRAY, V_uint8_array []), (FT_INT16_ARRAY, V_int16_array []),
      (FT_UINT16_ARRAY, V_uint16_array []), (FT_INT32_ARRAY, V_int32_array []), (FT_UINT32_ARRAY, V_uint32_array []), (FT_INT64_ARRAY, V_int64_array []),
      (FT_UINT64_ARRAY, V_uint64_array []), (FT_FLOAT32_ARRAY, V_float32_array []), (FT_FLOAT64_ARRAY, V_float64_array []), (FT_STRING_ARRAY, V_string_array [])] t"

text \<open>
  One field, given how nested messages are built; the state is whether all schemas were found, the message and the
  registry. \<open>None\<close> is a message that does not fit into its wire format, whose buffer is written past.
\<close>

type_synonym building = "bool \<times> generic_message \<times> schema_registry"

definition load_nested :: "string \<Rightarrow> schema_registry \<Rightarrow> msg_schema option \<times> schema_registry" where
  "load_nested t r = (if t = [] then (None, r) else load_schema t r)"

definition default_field :: "(nat \<Rightarrow> byte) \<Rightarrow> (msg_schema \<Rightarrow> generic_message \<Rightarrow> schema_registry \<Rightarrow> building option) \<Rightarrow>
    building \<Rightarrow> msg_field \<Rightarrow> building option" where
  "default_field junk sub b f =
     (let (ok, g, r) = b; name = text_bytes (mf_name f)
      in if mf_type f = FT_NESTED
         then let (s, r) = load_nested (mf_nested f) r
              in do {
                   (ok, nested, r) \<leftarrow>
                     (case s of
                        None \<Rightarrow> Some (False, new_message, r)
                      | Some s \<Rightarrow> do { (b, nested, r) \<leftarrow> sub s new_message r; Some (b \<and> ok, nested, r) });
                   g \<leftarrow> set_nested junk name nested g;
                   Some (ok, g, r)
                 }
         else if mf_type f = FT_NESTED_ARRAY
         then do { g \<leftarrow> set_nested_array junk name [] g; Some (ok, g, r) }
         else case default_value (mf_type f) of
                None \<Rightarrow> Some (ok, g, r)
              | Some v \<Rightarrow> Some (ok, set_value name v g, r))"

text \<open>The first argument is the number of levels left.\<close>

primrec build_levels :: "nat \<Rightarrow> (nat \<Rightarrow> byte) \<Rightarrow> msg_schema \<Rightarrow> generic_message \<Rightarrow> schema_registry \<Rightarrow> building option" where
  "build_levels 0 junk s g r = Some (False, g, r)"
| "build_levels (Suc n) junk s g r = foldM (default_field junk (build_levels n junk)) (True, g, r) (ms_fields s)"

definition build_default_message :: "(nat \<Rightarrow> byte) \<Rightarrow> msg_schema \<Rightarrow> generic_message \<Rightarrow> schema_registry \<Rightarrow> building option" where
  "build_default_message junk s g r = build_levels 17 junk s g r"

section \<open>Overrides\<close>

record field_override =
  ov_path :: string
  ov_value :: string
  ov_type :: string

text \<open>The texts of the errors, with their parts.\<close>

datatype override_error =
    Empty_name string
  | Invalid_spec string
  | Empty_path
  | No_field string string "string list"
  | Declared_as string string string
  | Not_a_message string string
  | No_schema string
  | Invalid_bool string
  | Out_of_range string int int
  | Invalid_integer string
  | Negative_value string
  | Invalid_unsigned string
  | Invalid_float string
  | Is_message string
  | Unsupported_type

definition parse_override_spec :: "string \<Rightarrow> override_error + field_override" where
  "parse_override_spec spec =
     (if CHR ''='' \<in> set spec
      then let path = takeWhile (\<lambda>c. c \<noteq> CHR ''='') spec; v = tl (dropWhile (\<lambda>c. c \<noteq> CHR ''='') spec)
           in if path = [] then Inl (Empty_name spec) else Inr \<lparr>ov_path = path, ov_value = v, ov_type = []\<rparr>
      else if CHR '':'' \<notin> set spec then Inl (Invalid_spec spec)
      else let path = takeWhile (\<lambda>c. c \<noteq> CHR '':'') spec; rest = tl (dropWhile (\<lambda>c. c \<noteq> CHR '':'') spec)
           in if CHR '':'' \<notin> set rest then Inl (Invalid_spec spec)
              else let t = takeWhile (\<lambda>c. c \<noteq> CHR '':'') rest; v = tl (dropWhile (\<lambda>c. c \<noteq> CHR '':'') rest)
                   in if path = [] then Inl (Empty_name spec) else Inr \<lparr>ov_path = path, ov_value = v, ov_type = t\<rparr>)"

definition trim :: "string \<Rightarrow> string" where
  "trim s = rev (dropWhile blank (rev (dropWhile blank s)))"

fun split_commas :: "string \<Rightarrow> string \<Rightarrow> string list" where
  "split_commas item [] = [item]"
| "split_commas item (c # cs) = (if c = CHR '','' then item # split_commas [] cs else split_commas (item @ [c]) cs)"

definition unbracket :: "string \<Rightarrow> string" where
  "unbracket s = (if 2 \<le> length s \<and> hd s = CHR ''['' \<and> last s = CHR '']'' then tl (butlast s) else s)"

definition split_array_literal :: "string \<Rightarrow> string list" where
  "split_array_literal raw =
     (let body = trim (unbracket (trim raw)) in if body = [] then [] else map trim (split_commas [] body))"

definition parse_bool :: "string \<Rightarrow> override_error + bool" where
  "parse_bool s =
     (if s = ''true'' \<or> s = ''1'' \<or> s = ''True'' then Inr True
      else if s = ''false'' \<or> s = ''0'' \<or> s = ''False'' then Inr False
      else Inl (Invalid_bool s))"

definition parse_signed :: "int \<Rightarrow> int \<Rightarrow> string \<Rightarrow> override_error + int" where
  "parse_signed lo hi s =
     (case stoll s of
        None \<Rightarrow> Inl (Invalid_integer s)
      | Some (v, pos) \<Rightarrow>
          if pos \<noteq> length s then Inl (Invalid_integer s)
          else if v < lo \<or> hi < v then Inl (Out_of_range s lo hi)
          else Inr v)"

definition parse_unsigned :: "int \<Rightarrow> string \<Rightarrow> override_error + int" where
  "parse_unsigned hi s =
     (if s \<noteq> [] \<and> hd s = CHR ''-'' then Inl (Negative_value s)
      else case stoull s of
             None \<Rightarrow> Inl (Invalid_unsigned s)
           | Some (v, pos) \<Rightarrow>
               if pos \<noteq> length s then Inl (Invalid_unsigned s)
               else if hi < v then Inl (Out_of_range s 0 hi)
               else Inr v)"

text \<open>The floating-point numbers of the library: \<open>std::stod\<close>, as bits, and the conversion to \<open>float\<close>.\<close>

record float_read =
  stod :: "string \<Rightarrow> (u64 \<times> nat) option"
  narrow :: "u64 \<Rightarrow> u32"

definition parse_double :: "float_read \<Rightarrow> string \<Rightarrow> override_error + u64" where
  "parse_double fr s =
     (case stod fr s of
        None \<Rightarrow> Inl (Invalid_float s)
      | Some (v, pos) \<Rightarrow> if pos \<noteq> length s then Inl (Invalid_float s) else Inr v)"

primrec parse_items :: "(string \<Rightarrow> override_error + 'a) \<Rightarrow> string list \<Rightarrow> override_error + 'a list" where
  "parse_items parse_one [] = Inr []"
| "parse_items parse_one (item # items) =
     (case parse_one item of
        Inl e \<Rightarrow> Inl e
      | Inr v \<Rightarrow> (case parse_items parse_one items of Inl e \<Rightarrow> Inl e | Inr vs \<Rightarrow> Inr (v # vs)))"

definition parse_array :: "(string \<Rightarrow> override_error + 'a) \<Rightarrow> string \<Rightarrow> override_error + 'a list" where
  "parse_array parse_one raw = parse_items parse_one (split_array_literal raw)"

text \<open>The value of a field that is not a message, and the field set to it.\<close>

definition leaf_value :: "float_read \<Rightarrow> msg_field \<Rightarrow> string \<Rightarrow> override_error + gm_value" where
  "leaf_value fr field value =
     (let t = mf_type field
      in if t = FT_BOOL then map_sum id V_bool (parse_bool value)
      else if t = FT_INT8 then map_sum id (V_int8 \<circ> word_of_int) (parse_signed (- (2 ^ 7)) (2 ^ 7 - 1) value)
      else if t = FT_UINT8 then map_sum id (V_uint8 \<circ> word_of_int) (parse_unsigned (2 ^ 8 - 1) value)
      else if t = FT_INT16 then map_sum id (V_int16 \<circ> word_of_int) (parse_signed (- (2 ^ 15)) (2 ^ 15 - 1) value)
      else if t = FT_UINT16 then map_sum id (V_uint16 \<circ> word_of_int) (parse_unsigned (2 ^ 16 - 1) value)
      else if t = FT_INT32 then map_sum id (V_int32 \<circ> word_of_int) (parse_signed (- (2 ^ 31)) (2 ^ 31 - 1) value)
      else if t = FT_UINT32 then map_sum id (V_uint32 \<circ> word_of_int) (parse_unsigned (2 ^ 32 - 1) value)
      else if t = FT_INT64 then map_sum id (V_int64 \<circ> word_of_int) (parse_signed (- (2 ^ 63)) (2 ^ 63 - 1) value)
      else if t = FT_UINT64 then map_sum id (V_uint64 \<circ> word_of_int) (parse_unsigned (2 ^ 64 - 1) value)
      else if t = FT_FLOAT32 then map_sum id (V_float32 \<circ> narrow fr) (parse_double fr value)
      else if t = FT_FLOAT64 then map_sum id V_float64 (parse_double fr value)
      else if t = FT_STRING then Inr (V_string (text_bytes value))
      else if t = FT_BOOL_ARRAY then map_sum id V_bool_array (parse_array (\<lambda>s. map_sum id (\<lambda>b. if b then 1 else 0) (parse_bool s)) value)
      else if t = FT_INT8_ARRAY then map_sum id V_int8_array (parse_array (\<lambda>s. map_sum id word_of_int (parse_signed (- (2 ^ 7)) (2 ^ 7 - 1) s)) value)
      else if t = FT_UINT8_ARRAY then map_sum id V_uint8_array (parse_array (\<lambda>s. map_sum id word_of_int (parse_unsigned (2 ^ 8 - 1) s)) value)
      else if t = FT_INT16_ARRAY then map_sum id V_int16_array (parse_array (\<lambda>s. map_sum id word_of_int (parse_signed (- (2 ^ 15)) (2 ^ 15 - 1) s)) value)
      else if t = FT_UINT16_ARRAY then map_sum id V_uint16_array (parse_array (\<lambda>s. map_sum id word_of_int (parse_unsigned (2 ^ 16 - 1) s)) value)
      else if t = FT_INT32_ARRAY then map_sum id V_int32_array (parse_array (\<lambda>s. map_sum id word_of_int (parse_signed (- (2 ^ 31)) (2 ^ 31 - 1) s)) value)
      else if t = FT_UINT32_ARRAY then map_sum id V_uint32_array (parse_array (\<lambda>s. map_sum id word_of_int (parse_unsigned (2 ^ 32 - 1) s)) value)
      else if t = FT_INT64_ARRAY then map_sum id V_int64_array (parse_array (\<lambda>s. map_sum id word_of_int (parse_signed (- (2 ^ 63)) (2 ^ 63 - 1) s)) value)
      else if t = FT_UINT64_ARRAY then map_sum id V_uint64_array (parse_array (\<lambda>s. map_sum id word_of_int (parse_unsigned (2 ^ 64 - 1) s)) value)
      else if t = FT_FLOAT32_ARRAY then map_sum id V_float32_array (parse_array (\<lambda>s. map_sum id (narrow fr) (parse_double fr s)) value)
      else if t = FT_FLOAT64_ARRAY then map_sum id V_float64_array (parse_array (parse_double fr) value)
      else if t = FT_STRING_ARRAY then Inr (V_string_array (map text_bytes (split_array_literal value)))
      else if t = FT_NESTED \<or> t = FT_NESTED_ARRAY then Inl (Is_message (mf_name field))
      else Inl Unsupported_type)"

definition set_leaf :: "float_read \<Rightarrow> msg_field \<Rightarrow> string \<Rightarrow> generic_message \<Rightarrow> override_error option \<times> generic_message" where
  "set_leaf fr field value g =
     (case leaf_value fr field value of
        Inl e \<Rightarrow> (Some e, g)
      | Inr v \<Rightarrow> (None, set_value (text_bytes (mf_name field)) v g))"

text \<open>
  A path is followed from its first name. The result is an error or none, the message and the registry; \<open>None\<close>
  outside is a nested message that cannot be read or written.
\<close>

definition path_head :: "string \<Rightarrow> string" where
  "path_head path = takeWhile (\<lambda>c. c \<noteq> CHR ''.'') path"

definition path_rest :: "string \<Rightarrow> string" where
  "path_rest path = tl (dropWhile (\<lambda>c. c \<noteq> CHR ''.'') path)"

type_synonym overridden = "override_error option \<times> generic_message \<times> schema_registry"

definition nested_child :: "(nat \<Rightarrow> byte) \<Rightarrow> msg_schema \<Rightarrow> bytes \<Rightarrow> generic_message \<Rightarrow> schema_registry \<Rightarrow>
    (generic_message \<times> schema_registry) option" where
  "nested_child junk s name g r =
     do {
       found \<leftarrow> get_nested name g;
       (case found of
          Inr child \<Rightarrow> Some (child, r)
        | Inl e \<Rightarrow> do { (ok, child, r) \<leftarrow> build_default_message junk s new_message r; Some (child, r) })
     }"

lemma path_rest_shorter: "CHR ''.'' \<in> set path \<Longrightarrow> length (path_rest path) < length path"
proof -
  assume "CHR ''.'' \<in> set path"
  then have "path \<noteq> []" by auto
  then show ?thesis
    using length_dropWhile_le [of "\<lambda>c. c \<noteq> CHR ''.''" path] by (cases path) (simp_all add: path_rest_def less_eq_Suc_le)
qed

function apply_override_recursive :: "(nat \<Rightarrow> byte) \<Rightarrow> float_read \<Rightarrow> msg_schema \<Rightarrow> field_override \<Rightarrow> string \<Rightarrow>
    generic_message \<Rightarrow> schema_registry \<Rightarrow> overridden option" where
  "apply_override_recursive junk fr schema ov path g r =
     (case find_schema_field (path_head path) schema of
        None \<Rightarrow> Some (Some (No_field (ms_name schema) (path_head path) (map mf_name (ms_fields schema))), g, r)
      | Some field \<Rightarrow>
          if CHR ''.'' \<notin> set path
          then if ov_type ov \<noteq> [] \<and> ov_type ov \<noteq> field_type_name (mf_type field)
               then Some (Some (Declared_as (path_head path) (field_type_name (mf_type field)) (ov_type ov)), g, r)
               else let (e, g) = set_leaf fr field (ov_value ov) g in Some (e, g, r)
          else if mf_type field \<noteq> FT_NESTED
          then Some (Some (Not_a_message (path_head path) (field_type_name (mf_type field))), g, r)
          else case load_schema (mf_nested field) r of
                 (None, r) \<Rightarrow> Some (Some (No_schema (mf_nested field)), g, r)
               | (Some s, r) \<Rightarrow>
                   do {
                     (child, r) \<leftarrow> nested_child junk s (text_bytes (path_head path)) g r;
                     (e, child, r) \<leftarrow> apply_override_recursive junk fr s ov (path_rest path) child r;
                     (case e of
                        Some e \<Rightarrow> Some (Some e, g, r)
                      | None \<Rightarrow> do { g \<leftarrow> set_nested junk (text_bytes (path_head path)) child g; Some (None, g, r) })
                   })"
  by pat_completeness auto
termination by (relation "measure (\<lambda>(junk, fr, schema, ov, path, g, r). length path)") (auto simp: path_rest_shorter)

declare apply_override_recursive.simps [simp del]

definition apply_field_override :: "(nat \<Rightarrow> byte) \<Rightarrow> float_read \<Rightarrow> msg_schema \<Rightarrow> field_override \<Rightarrow> generic_message \<Rightarrow>
    schema_registry \<Rightarrow> overridden option" where
  "apply_field_override junk fr schema ov g r =
     (if ov_path ov = [] then Some (Some Empty_path, g, r) else apply_override_recursive junk fr schema ov (ov_path ov) g r)"

definition apply_override_spec :: "(nat \<Rightarrow> byte) \<Rightarrow> float_read \<Rightarrow> msg_schema \<Rightarrow> string \<Rightarrow> generic_message \<Rightarrow>
    schema_registry \<Rightarrow> overridden option" where
  "apply_override_spec junk fr schema spec g r =
     (case parse_override_spec spec of
        Inl e \<Rightarrow> Some (Some e, g, r)
      | Inr ov \<Rightarrow> apply_field_override junk fr schema ov g r)"

section \<open>Errors\<close>

lemma set_leaf_error: "set_leaf fr field value g = (Some e, g') \<Longrightarrow> g' = g"
  by (auto simp: set_leaf_def split: sum.splits)

lemma override_error_keeps:
  assumes "apply_override_recursive junk fr schema ov path g r = Some (Some e, g', r')"
  shows "g' = g"
  using assms by (subst (asm) apply_override_recursive.simps)
    (auto split: option.splits if_splits prod.splits bind_splits dest: set_leaf_error)

lemma failed_override_keeps_message:
  assumes "apply_override_spec junk fr schema spec g r = Some (Some e, g', r')"
  shows "g' = g"
  using assms by (auto simp: apply_override_spec_def apply_field_override_def split: sum.splits if_splits dest: override_error_keeps)

text \<open>
  A number below zero is accepted for an unsigned field of 64 bits behind a blank: the test for a sign looks at the
  first character only.
\<close>

lemma negative_accepted: "parse_unsigned (2 ^ 64 - 1) '' -5'' = Inr (2 ^ 64 - 5)"
  by (simp add: parse_unsigned_def stoull_def scan_number_def is_space_def is_digit_def read_nat_def digit_value_def)

section \<open>Default messages\<close>

lemma text_bytes_inj: "text_bytes s = text_bytes t \<longleftrightarrow> s = t"
  by (metis bytes_text_bytes)

lemma with_field_cong: "field_of name g = field_of name h \<Longrightarrow> with_field name n get g = with_field name n get h"
  by (simp add: with_field_of)

lemma get_value_cong:
  assumes "field_of name g = field_of name h"
  shows "get_value t name g = get_value t name h"
  by (simp only: get_value_def getter_defs get_scalar_def get_array_impl_def get_string_def get_string_array_def
      with_field_cong [OF assms])

lemma default_value_facts:
  assumes "default_value t = Some v"
  shows "value_type v = t \<and> value_fits v \<and> t \<noteq> FT_NESTED \<and> t \<noteq> FT_NESTED_ARRAY"
proof -
  have "value_type v = t" "value_fits v" using map_of_SomeD [OF assms [unfolded default_value_def]] by auto
  moreover have "value_type v \<noteq> FT_NESTED \<and> value_type v \<noteq> FT_NESTED_ARRAY" by (cases v) (simp_all add: field_type_defs)
  ultimately show ?thesis by simp
qed

lemma default_values_exist: "1 \<le> t \<Longrightarrow> t \<le> 26 \<Longrightarrow> t \<noteq> FT_NESTED \<Longrightarrow> t \<noteq> FT_NESTED_ARRAY \<Longrightarrow> \<exists>v. default_value t = Some v"
proof -
  assume t: "1 \<le> t" "t \<le> 26" "t \<noteq> FT_NESTED" "t \<noteq> FT_NESTED_ARRAY"
  have all: "\<forall>n \<in> set [1..<25]. default_value (of_nat n) \<noteq> None" by code_simp
  have "unat t \<noteq> 25" "unat t \<noteq> 26" using t(3,4) by (auto simp: field_type_defs word_unat_eq_iff)
  then have u: "unat t \<in> set [1..<25]" using t(1,2) by (auto simp: word_le_nat_alt)
  have "of_nat (unat t) = t" by simp
  then show ?thesis using bspec [OF all u] by (simp only: not_None_eq)
qed

definition known_type :: "msg_field \<Rightarrow> bool" where
  "known_type f \<longleftrightarrow> 1 \<le> mf_type f \<and> mf_type f \<le> 26"

lemma default_field_store:
  assumes "default_field junk sub (ok, g, r) f = Some (ok', g', r')" and "known_type f"
  shows "(\<exists>d. g' = store_field (text_bytes (mf_name f)) (mf_type f) d g) \<and>
     (\<forall>v. default_value (mf_type f) = Some v \<longrightarrow> g' = set_value (text_bytes (mf_name f)) v g)"
proof -
  consider (message) "mf_type f = FT_NESTED" | (messages) "mf_type f = FT_NESTED_ARRAY" | (plain) v where "default_value (mf_type f) = Some v"
    using assms(2) default_values_exist [of "mf_type f"] by (auto simp: known_type_def)
  then show ?thesis
  proof cases
    case message
    have "default_value FT_NESTED = None" by (simp add: default_value_def field_type_defs)
    then show ?thesis using assms(1) message
      by (auto simp: default_field_def Let_def set_nested_def set_string_impl_def split: prod.splits option.splits bind_splits)
  next
    case messages
    have "default_value FT_NESTED_ARRAY = None" "FT_NESTED_ARRAY \<noteq> FT_NESTED" by (simp_all add: default_value_def field_type_defs)
    then show ?thesis using assms(1) messages
      by (auto simp: default_field_def Let_def set_nested_array_def set_strings_impl_def)
  next
    case plain
    then have ty: "value_type v = mf_type f" "mf_type f \<noteq> FT_NESTED" "mf_type f \<noteq> FT_NESTED_ARRAY"
      using default_value_facts by blast+
    then have "g' = set_value (text_bytes (mf_name f)) v g" using assms(1) plain by (simp add: default_field_def)
    then show ?thesis using plain ty(1) set_value_store [of "text_bytes (mf_name f)" v g] by auto
  qed
qed

lemma store_new: "field_of name g = None \<Longrightarrow> gm_fields (store_field name t d g) = gm_fields g @ [\<lparr>f_name = name, f_type = t, f_data = d\<rparr>]"
  by (simp add: field_of_find store_field_def Let_def split: option.splits)

lemma field_of_set_value: "field_of other (set_value name v g) = (if other = name then field_of other (set_value name v g) else field_of other g)"
  using set_value_store [of name v g] field_of_store by (metis (no_types))

text \<open>The names and types of the fields of a message, and those that a schema declares.\<close>

definition signature :: "generic_message \<Rightarrow> (bytes \<times> byte) list" where
  "signature g = map (\<lambda>f. (f_name f, f_type f)) (gm_fields g)"

definition declares :: "msg_field \<Rightarrow> bytes \<times> byte" where
  "declares f = (text_bytes (mf_name f), mf_type f)"

lemma foldM_default:
  "foldM (default_field junk sub) (ok, g, r) fs = Some (ok', g', r') \<Longrightarrow> distinct (map mf_name fs) \<Longrightarrow> \<forall>f \<in> set fs. known_type f \<Longrightarrow>
     \<forall>f \<in> set fs. field_of (text_bytes (mf_name f)) g = None \<Longrightarrow>
     signature g' = signature g @ map declares fs \<and>
     (\<forall>f \<in> set fs. \<forall>v. default_value (mf_type f) = Some v \<longrightarrow> get_value (mf_type f) (text_bytes (mf_name f)) g' = Some (Inr v)) \<and>
     (\<forall>name. name \<notin> text_bytes ` mf_name ` set fs \<longrightarrow> field_of name g' = field_of name g)"
proof (induction fs arbitrary: ok g r)
  case (Cons f fs)
  let ?n = "text_bytes (mf_name f)"
  obtain ok1 g1 r1 where step: "default_field junk sub (ok, g, r) f = Some (ok1, g1, r1)"
    and rest: "foldM (default_field junk sub) (ok1, g1, r1) fs = Some (ok', g', r')"
    using Cons.prems(1) by (auto split: bind_splits)
  have k: "known_type f" "field_of ?n g = None" using Cons.prems by auto
  obtain d where d: "g1 = store_field ?n (mf_type f) d g" using default_field_store [OF step k(1)] by blast
  have v: "g1 = set_value ?n v g" if "default_value (mf_type f) = Some v" for v using default_field_store [OF step k(1)] that by blast
  have new: "mf_name f \<notin> mf_name ` set fs" using Cons.prems(2) by simp
  then have apart: "?n \<notin> text_bytes ` mf_name ` set fs" by (auto simp: text_bytes_inj)
  have other: "field_of name g1 = field_of name g" if "name \<noteq> ?n" for name using that by (simp add: d field_of_store)
  have free: "\<forall>h \<in> set fs. field_of (text_bytes (mf_name h)) g1 = None"
  proof
    fix h assume h: "h \<in> set fs"
    then have "mf_name h \<noteq> mf_name f" using new by (metis imageI)
    then show "field_of (text_bytes (mf_name h)) g1 = None" using Cons.prems(4) h other by (simp add: text_bytes_inj)
  qed
  have ih: "signature g' = signature g1 @ map declares fs"
    "\<forall>f \<in> set fs. \<forall>v. default_value (mf_type f) = Some v \<longrightarrow> get_value (mf_type f) (text_bytes (mf_name f)) g' = Some (Inr v)"
    "\<forall>name. name \<notin> text_bytes ` mf_name ` set fs \<longrightarrow> field_of name g' = field_of name g1"
    using Cons.IH [OF rest _ _ free] Cons.prems(2,3) by simp_all
  have "signature g1 = signature g @ [declares f]" by (simp add: d signature_def declares_def store_new [OF k(2)])
  moreover have "get_value (mf_type f) ?n g' = Some (Inr v)" if "default_value (mf_type f) = Some v" for v
  proof -
    have "get_value (mf_type f) ?n g1 = Some (Inr v)"
      using get_after_set_value default_value_facts [OF that] v [OF that] by metis
    then show ?thesis using get_value_cong [of ?n g' g1] ih(3) apart by metis
  qed
  ultimately show ?case using ih other by auto
qed simp

text \<open>
  A message built from a schema has exactly the declared fields, in order and with their types, each with the
  default value of its type.
\<close>

theorem default_message_fields:
  assumes "build_default_message junk s new_message r = Some (ok, g, r')"
    and "distinct (map mf_name (ms_fields s))" and "\<forall>f \<in> set (ms_fields s). known_type f"
  shows "signature g = map declares (ms_fields s) \<and>
    (\<forall>f \<in> set (ms_fields s). \<forall>v. default_value (mf_type f) = Some v \<longrightarrow>
       get_value (mf_type f) (text_bytes (mf_name f)) g = Some (Inr v))"
proof -
  have "foldM (default_field junk (build_levels 16 junk)) (True, new_message, r) (ms_fields s) = Some (ok, g, r')"
    using assms(1) by (simp add: build_default_message_def build_levels_def numeral_eq_Suc)
  moreover have "field_of n new_message = None" for n by (simp add: field_of_def new_message_def)
  moreover have "signature new_message = []" by (simp add: signature_def new_message_def)
  ultimately show ?thesis using foldM_default [OF _ assms(2,3)] by (metis append_Nil)
qed

definition point_schema :: msg_schema where
  "point_schema = \<lparr>ms_name = ''Point'', ms_fields = [\<lparr>mf_name = ''n'', mf_type = FT_INT8, mf_nested = []\<rparr>]\<rparr>"

definition no_files :: schema_registry where
  "no_files = new_schema_registry None (\<lambda>_. None)"

lemma default_message_fields_witness:
  "\<exists>g. build_default_message (\<lambda>_. 0) point_schema new_message no_files = Some (True, g, no_files) \<and>
     signature g = [(text_bytes ''n'', FT_INT8)] \<and> get_value FT_INT8 (text_bytes ''n'') g = Some (Inr (V_int8 0))"
proof -
  let ?g = "set_value (text_bytes ''n'') (V_int8 0) new_message"
  have v: "default_value FT_INT8 = Some (V_int8 0)" by (simp add: default_value_def field_type_defs)
  have f: "default_field (\<lambda>_. 0) sub (True, new_message, no_files) \<lparr>mf_name = ''n'', mf_type = FT_INT8, mf_nested = []\<rparr> = Some (True, ?g, no_files)" for sub
    using default_value_facts [OF v] by (simp add: default_field_def v)
  then have b: "build_default_message (\<lambda>_. 0) point_schema new_message no_files = Some (True, ?g, no_files)"
    by (simp add: build_default_message_def numeral_eq_Suc point_schema_def)
  have d: "distinct (map mf_name (ms_fields point_schema))" "\<forall>f \<in> set (ms_fields point_schema). known_type f"
    by (simp_all add: point_schema_def known_type_def field_type_defs)
  show ?thesis
    using default_message_fields [OF b d] b v by (simp add: point_schema_def declares_def del: set_value.simps)
qed

section \<open>From the text of a value back to the value\<close>

text \<open>A text without blanks and commas, as numbers have.\<close>

definition plain_item :: "string \<Rightarrow> bool" where
  "plain_item x \<longleftrightarrow> x \<noteq> [] \<and> (\<forall>c \<in> set x. \<not> blank c \<and> c \<noteq> CHR '','')"

lemma drop_blanks_word: "x \<noteq> [] \<Longrightarrow> \<not> blank (hd x) \<Longrightarrow> list_all blank b \<Longrightarrow> dropWhile blank (b @ x) = x"
  by (cases x) (simp_all add: drop_blanks)

lemma trim_word:
  assumes "x \<noteq> []" "\<not> blank (hd x)" "\<not> blank (last x)" "list_all blank b" "list_all blank a"
  shows "trim (b @ x @ a) = x"
proof -
  have "dropWhile blank (b @ x @ a) = x @ a" using drop_blanks_word [of "x @ a" b] assms by simp
  moreover have "list_all blank (rev a)" using assms(5) by (simp add: list_all_iff)
  then have "dropWhile blank (rev a @ rev x) = rev x" using drop_blanks_word [of "rev x" "rev a"] assms(1,3) by (simp add: hd_rev)
  ultimately show ?thesis by (simp add: trim_def)
qed

lemma trim_blanks: "list_all blank b \<Longrightarrow> trim b = []"
  by (simp add: trim_def dropWhile_eq_Nil_conv [THEN iffD2] list_all_iff)

lemma plain_ends: "plain_item x \<Longrightarrow> x \<noteq> [] \<and> \<not> blank (hd x) \<and> \<not> blank (last x)"
  by (simp add: plain_item_def)

lemma split_commas_run: "CHR '','' \<notin> set t \<Longrightarrow> split_commas item (t @ CHR '','' # cs) = (item @ t) # split_commas [] cs"
  by (induction t arbitrary: item) auto

lemma split_commas_end: "CHR '','' \<notin> set t \<Longrightarrow> split_commas item t = [item @ t]"
  by (induction t arbitrary: item) auto

lemma split_commas_list:
  "xs \<noteq> [] \<Longrightarrow> \<forall>x \<in> set xs. plain_item x \<Longrightarrow> list_all blank b \<Longrightarrow> map trim (split_commas b (commas xs)) = xs"
proof (induction xs arbitrary: b rule: commas.induct)
  case (2 x)
  then have "split_commas b (commas [x]) = [b @ x]" using split_commas_end [of x b] by (auto simp: plain_item_def)
  then show ?case using 2 trim_word [of x b "[]"] plain_ends [of x] by simp
next
  case (3 x y ys)
  have x: "plain_item x" using 3 by simp
  have "split_commas b (commas (x # y # ys)) = (b @ x) # split_commas '' '' (commas (y # ys))"
    using split_commas_run [of x b "CHR '' '' # commas (y # ys)"] x by (auto simp: plain_item_def)
  moreover have "map trim (split_commas '' '' (commas (y # ys))) = y # ys" using 3 by (intro "3.IH") (simp_all add: blank_def)
  moreover have "trim (b @ x) = x" using trim_word [of x b "[]"] plain_ends [OF x] 3 by simp
  ultimately show ?case by simp
qed simp

lemma commas_ends:
  "xs \<noteq> [] \<Longrightarrow> \<forall>x \<in> set xs. plain_item x \<Longrightarrow> commas xs \<noteq> [] \<and> \<not> blank (hd (commas xs)) \<and> \<not> blank (last (commas xs))"
proof (induction xs rule: commas.induct)
  case (3 x y ys)
  then have "x \<noteq> []" "\<not> blank (hd x)" "commas (y # ys) \<noteq> []" "\<not> blank (last (commas (y # ys)))" using plain_ends [of x] by simp_all
  then show ?case by simp
qed (simp_all add: plain_ends)

lemma split_list_text:
  assumes "\<forall>x \<in> set xs. plain_item x"
  shows "split_array_literal (list_text xs) = xs"
proof -
  have sp: "list_all blank '' ''" by (simp add: blank_def)
  have "trim (list_text xs) = list_text xs"
    using trim_word [of "list_text xs" "[]" "[]"] by (simp add: list_text_def blank_def)
  moreover have "unbracket (list_text xs) = '' '' @ commas xs @ '' ''"
    by (simp add: unbracket_def list_text_def butlast_append)
  moreover have "trim ('' '' @ commas xs @ '' '') = commas xs"
  proof (cases "xs = []")
    case True
    then show ?thesis using trim_blanks [of "''  ''"] by (simp add: blank_def)
  next
    case False
    then show ?thesis using commas_ends [OF False assms] sp by (intro trim_word) simp_all
  qed
  ultimately show ?thesis
    using commas_ends [OF _ assms] split_commas_list [OF _ assms, of "[]"] by (cases "xs = []") (simp_all add: split_array_literal_def)
qed

lemma digit_plain: "is_digit c \<Longrightarrow> \<not> blank c \<and> c \<noteq> CHR '',''"
  by (auto simp: is_digit_def blank_def)

lemma numbers_plain: "plain_item (show_nat n)" "plain_item (show_int v)" "plain_item (bit_text b)"
proof -
  show n: "plain_item (show_nat n)" for n using show_nat_digits [of n] digit_plain by (auto simp: plain_item_def)
  show "plain_item (show_int v)" using n [of "nat (- v)"] n [of "nat v"] by (auto simp: show_int_def plain_item_def blank_def)
  show "plain_item (bit_text b)" by (simp add: plain_item_def bit_text_def blank_def)
qed

text \<open>
  The values whose text the tools agree on: not those of floating-point types, whose text is the library's, nor lists
  of strings, which are printed with quotation marks that the other tool keeps.
\<close>

fun printable :: "gm_value \<Rightarrow> bool" where
  "printable (V_float32 v) = False"
| "printable (V_float64 v) = False"
| "printable (V_float32_array v) = False"
| "printable (V_float64_array v) = False"
| "printable (V_string_array v) = False"
| "printable (V_bool_array v) = (set v \<subseteq> {0, 1})"
| "printable v = True"

lemma parse_show_int:
  "- (2 ^ 63) \<le> lo \<Longrightarrow> hi < 2 ^ 63 \<Longrightarrow> lo \<le> v \<Longrightarrow> v \<le> hi \<Longrightarrow> parse_signed lo hi (show_int v) = Inr v"
  by (simp add: parse_signed_def stoll_show)

lemma parse_show_nat: "n < 2 ^ 64 \<Longrightarrow> int n \<le> hi \<Longrightarrow> parse_unsigned hi (show_nat n) = Inr (int n)"
proof -
  assume "n < 2 ^ 64" "int n \<le> hi"
  moreover have "hd (show_nat n) \<noteq> CHR ''-''" using show_nat_digits [of n] digit_not_sign by (metis hd_in_set show_nat_not_Nil)
  ultimately show ?thesis by (simp add: parse_unsigned_def stoull_show)
qed

lemma parse_bit: "parse_bool (bit_text b) = Inr b"
  by (simp add: parse_bool_def bit_text_def)

lemma signed_range: "- (2 ^ (LENGTH('a) - 1)) \<le> sint (w :: 'a::len word)" "sint (w :: 'a::len word) \<le> 2 ^ (LENGTH('a) - 1) - 1"
  using sint_greater_eq [of w] sint_less [of w] by simp_all

lemma parse_word:
  "parse_signed (- (2 ^ 7)) (2 ^ 7 - 1) (show_int (sint (a :: byte))) = Inr (sint a)"
  "parse_unsigned (2 ^ 8 - 1) (show_nat (unat (a :: byte))) = Inr (int (unat a))"
  "parse_signed (- (2 ^ 15)) (2 ^ 15 - 1) (show_int (sint (b :: u16))) = Inr (sint b)"
  "parse_unsigned (2 ^ 16 - 1) (show_nat (unat (b :: u16))) = Inr (int (unat b))"
  "parse_signed (- (2 ^ 31)) (2 ^ 31 - 1) (show_int (sint (c :: u32))) = Inr (sint c)"
  "parse_unsigned (2 ^ 32 - 1) (show_nat (unat (c :: u32))) = Inr (int (unat c))"
  "parse_signed (- (2 ^ 63)) (2 ^ 63 - 1) (show_int (sint (d :: u64))) = Inr (sint d)"
  "parse_unsigned (2 ^ 64 - 1) (show_nat (unat (d :: u64))) = Inr (int (unat d))"
proof -
  note u = unsigned_less [where ?'a = nat] and i = unsigned_less [where ?'a = int]
  show "parse_signed (- (2 ^ 7)) (2 ^ 7 - 1) (show_int (sint a)) = Inr (sint a)" using signed_range [of a] by (intro parse_show_int) simp_all
  show "parse_unsigned (2 ^ 8 - 1) (show_nat (unat a)) = Inr (int (unat a))" using u [of a] i [of a] by (intro parse_show_nat) simp_all
  show "parse_signed (- (2 ^ 15)) (2 ^ 15 - 1) (show_int (sint b)) = Inr (sint b)" using signed_range [of b] by (intro parse_show_int) simp_all
  show "parse_unsigned (2 ^ 16 - 1) (show_nat (unat b)) = Inr (int (unat b))" using u [of b] i [of b] by (intro parse_show_nat) simp_all
  show "parse_signed (- (2 ^ 31)) (2 ^ 31 - 1) (show_int (sint c)) = Inr (sint c)" using signed_range [of c] by (intro parse_show_int) simp_all
  show "parse_unsigned (2 ^ 32 - 1) (show_nat (unat c)) = Inr (int (unat c))" using u [of c] i [of c] by (intro parse_show_nat) simp_all
  show "parse_signed (- (2 ^ 63)) (2 ^ 63 - 1) (show_int (sint d)) = Inr (sint d)" using signed_range [of d] by (intro parse_show_int) simp_all
  show "parse_unsigned (2 ^ 64 - 1) (show_nat (unat d)) = Inr (int (unat d))" using u [of d] i [of d] by (intro parse_show_nat) simp_all
qed

lemma parse_items_map: "(\<And>x. x \<in> set xs \<Longrightarrow> parse (shown x) = Inr x) \<Longrightarrow> parse_items parse (map shown xs) = Inr xs"
  by (induction xs) auto

lemma parse_list_text:
  assumes "\<And>x. plain_item (shown x)" and "\<And>x. x \<in> set xs \<Longrightarrow> parse (shown x) = Inr x"
  shows "parse_array parse (list_text (map shown xs)) = Inr xs"
proof -
  have "parse_items parse (map shown xs) = Inr xs" by (rule parse_items_map) (rule assms(2))
  then show ?thesis using split_list_text [of "map shown xs"] assms(1) by (simp add: parse_array_def)
qed

lemma elems_of_blocks: "length vs < 2 ^ 31 \<Longrightarrow> elems_of n (size_bytes (length vs) @ concat (map (le_bytes n) vs)) = map (le_bytes n) vs"
proof (rule nth_equalityI)
  assume n: "length vs < 2 ^ 31"
  show "length (elems_of n (size_bytes (length vs) @ concat (map (le_bytes n) vs))) = length (map (le_bytes n) vs)"
    by (simp add: elems_of_sized [OF n])
  fix i assume "i < length (elems_of n (size_bytes (length vs) @ concat (map (le_bytes n) vs)))"
  then show "elems_of n (size_bytes (length vs) @ concat (map (le_bytes n) vs)) ! i = map (le_bytes n) vs ! i"
    using block_at [of i vs n] by (simp add: elems_of_sized [OF n])
qed

fun print_value :: "gm_value \<Rightarrow> string" where
  "print_value (V_bool b) = bit_text b"
| "print_value (V_int8 w) = show_int (sint w)"
| "print_value (V_uint8 w) = show_nat (unat w)"
| "print_value (V_int16 w) = show_int (sint w)"
| "print_value (V_uint16 w) = show_nat (unat w)"
| "print_value (V_int32 w) = show_int (sint w)"
| "print_value (V_uint32 w) = show_nat (unat w)"
| "print_value (V_int64 w) = show_int (sint w)"
| "print_value (V_uint64 w) = show_nat (unat w)"
| "print_value (V_string s) = bytes_text s"
| "print_value (V_bool_array ws) = list_text (map (\<lambda>w. bit_text (w \<noteq> 0)) ws)"
| "print_value (V_int8_array ws) = list_text (map (\<lambda>w. show_int (sint w)) ws)"
| "print_value (V_uint8_array ws) = list_text (map (\<lambda>w. show_nat (unat w)) ws)"
| "print_value (V_int16_array ws) = list_text (map (\<lambda>w. show_int (sint w)) ws)"
| "print_value (V_uint16_array ws) = list_text (map (\<lambda>w. show_nat (unat w)) ws)"
| "print_value (V_int32_array ws) = list_text (map (\<lambda>w. show_int (sint w)) ws)"
| "print_value (V_uint32_array ws) = list_text (map (\<lambda>w. show_nat (unat w)) ws)"
| "print_value (V_int64_array ws) = list_text (map (\<lambda>w. show_int (sint w)) ws)"
| "print_value (V_uint64_array ws) = list_text (map (\<lambda>w. show_nat (unat w)) ws)"
| "print_value v = []"

lemma of_le_words: "of_le (le_bytes 1 (a :: byte)) = a" "of_le (le_bytes 2 (b :: u16)) = b"
  "of_le (le_bytes 4 (c :: u32)) = c" "of_le (le_bytes 8 (d :: u64)) = d"
  using read_raw_le [of 1 a] read_raw_le [of 2 b] read_raw_le [of 4 c] read_raw_le [of 8 d] by (simp_all add: read_raw_def)

lemma field_text_printed:
  assumes "printable v" and "value_fits v"
  shows "\<exists>f. field_of name (set_value name v g) = Some f \<and> field_text fl sub f = Inr (line_text name (print_value v))"
proof -
  note defs = setter_defs set_scalar_def set_string_impl_def set_array_impl_def append_raw_def field_of_store field_text_def
    shape_of_def field_type_defs scalar_text_def number_text_def elem_text_def elem_type_def
  show ?thesis
    using assms by (cases v) (simp_all add: defs elems_of_blocks of_le_words [simplified] o_def)
qed

lemma parse_int_list:
  "(\<And>w :: 'a::len word. p (show_int (sint w)) = Inr (sint w)) \<Longrightarrow>
     parse_array (\<lambda>s. map_sum id word_of_int (p s)) (list_text (map (\<lambda>w. show_int (sint w)) ws)) = Inr (ws :: 'a word list)"
  using numbers_plain(2) by (intro parse_list_text) simp_all

lemma parse_nat_list:
  "(\<And>w :: 'a::len word. p (show_nat (unat w)) = Inr (int (unat w))) \<Longrightarrow>
     parse_array (\<lambda>s. map_sum id word_of_int (p s)) (list_text (map (\<lambda>w. show_nat (unat w)) ws)) = Inr (ws :: 'a word list)"
  using numbers_plain(1) by (intro parse_list_text) simp_all

lemma parse_bit_list:
  "set ws \<subseteq> {0, 1} \<Longrightarrow>
     parse_array (\<lambda>s. map_sum id (\<lambda>b. if b then 1 else 0) (parse_bool s)) (list_text (map (\<lambda>w. bit_text (w \<noteq> 0)) ws)) = Inr (ws :: byte list)"
  using numbers_plain(3) by (intro parse_list_text) (auto simp: parse_bit)

lemmas parse_lists =
  parse_int_list [OF parse_word(1)] parse_nat_list [OF parse_word(2)] parse_int_list [OF parse_word(3)] parse_nat_list [OF parse_word(4)]
  parse_int_list [OF parse_word(5)] parse_nat_list [OF parse_word(6)] parse_int_list [OF parse_word(7)] parse_nat_list [OF parse_word(8)]
  parse_bit_list

lemma leaf_printed:
  assumes "printable v" and "mf_type fd = value_type v"
  shows "leaf_value fr fd (print_value v) = Inr v"
  using assms parse_word parse_lists
  by (cases v) (simp_all add: leaf_value_def field_type_defs parse_bit)

text \<open>
  Arrays of strings do not travel that way: they are printed with quotation marks, which the publishing tool takes for
  part of the strings.
\<close>

lemma printed_strings_keep_quotes:
  assumes "length s < 2 ^ 31" and "plain_item (quoted s)" and "mf_type fd = FT_STRING_ARRAY"
  shows "\<exists>f. field_of name (set_value name (V_string_array [s]) g) = Some f \<and>
    field_text fl sub f = Inr (line_text name (list_text [quoted s])) \<and>
    leaf_value fr fd (list_text [quoted s]) = Inr (V_string_array [text_bytes (quoted s)]) \<and> text_bytes (quoted s) \<noteq> s"
proof -
  have "length (text_bytes (quoted s)) = length s + 2" by (simp add: quoted_def text_bytes_def bytes_text_def)
  then have "text_bytes (quoted s) \<noteq> s" by (metis add_cancel_right_right numeral_neq_zero zero_neq_numeral)
  moreover have "leaf_value fr fd (list_text [quoted s]) = Inr (V_string_array [text_bytes (quoted s)])"
    using split_list_text [of "[quoted s]"] assms(2,3) by (simp add: leaf_value_def field_type_defs)
  moreover have "\<exists>f. field_of name (set_value name (V_string_array [s]) g) = Some f \<and> field_text fl sub f = Inr (line_text name (list_text [quoted s]))"
    using assms(1) read_size [of 1 "sized s"] strings_all [of "[s]"]
    by (simp add: setter_defs set_strings_impl_def append_raw_def field_of_store field_text_def shape_of_def field_type_defs sized_def Let_def)
  ultimately show ?thesis by blast
qed

text \<open>
  C35. What \<open>dzipc_topic_cat\<close> prints for a field that holds a bool, an integer of any width, a string, or an array of bools
  or of integers is understood by the publishing tool: an override of the field's name with the printed text sets the
  field to the same value, bit for bit, and leaves the other fields. The other types are excluded (\<open>printable\<close>):
  numbers of floating-point types and arrays of them, whose text the library rounds, and arrays of strings, which come
  back with quotation marks.
\<close>

theorem printed_value_overrides:
  assumes "find_schema_field n schema = Some fd" and "mf_type fd = value_type v" and "n \<noteq> []"
    and "CHR ''='' \<notin> set n" and "CHR ''.'' \<notin> set n" and "printable v" and "value_fits v"
  shows "\<exists>f text g'. field_of (text_bytes n) (set_value (text_bytes n) v h) = Some f \<and>
    field_text fl sub f = Inr (line_text (text_bytes n) text) \<and>
    apply_override_spec junk fr schema (n @ ''='' @ text) g r = Some (None, g', r) \<and>
    get_value (value_type v) (text_bytes n) g' = Some (Inr v) \<and>
    (\<forall>other. other \<noteq> text_bytes n \<longrightarrow> field_of other g' = field_of other g)"
proof -
  let ?text = "print_value v"
  obtain f where f: "field_of (text_bytes n) (set_value (text_bytes n) v h) = Some f"
    "field_text fl sub f = Inr (line_text (text_bytes n) ?text)"
    using field_text_printed [OF assms(6,7)] by blast
  have spec: "parse_override_spec (n @ ''='' @ ?text) = Inr \<lparr>ov_path = n, ov_value = ?text, ov_type = []\<rparr>"
  proof -
    have "takeWhile (\<lambda>c. c \<noteq> CHR ''='') (n @ CHR ''='' # ?text) = n" "dropWhile (\<lambda>c. c \<noteq> CHR ''='') (n @ CHR ''='' # ?text) = CHR ''='' # ?text"
      using assms(4) by (simp_all add: takeWhile_tail dropWhile_append3) (metis (mono_tags, lifting) takeWhile_tail append_Nil2 takeWhile_eq_all_conv)+
    then show ?thesis using assms(3) by (simp add: parse_override_spec_def)
  qed
  have head: "path_head n = n" using assms(5) by (auto simp: path_head_def takeWhile_eq_all_conv)
  have nm: "mf_name fd = n" "length n \<noteq> 0"
  proof -
    have "find_in n fs = Some fd \<Longrightarrow> mf_name fd = n" for fs by (induction fs) (auto split: if_splits)
    then show "mf_name fd = n" using assms(1) by (simp add: find_schema_field_def)
  qed (use assms(3) in simp)
  have "apply_override_spec junk fr schema (n @ ''='' @ ?text) g r = Some (None, set_value (text_bytes n) v g, r)"
    using assms(1,3,5) leaf_printed [OF assms(6,2), of fr] nm(1)
    by (simp add: apply_override_spec_def spec [simplified] apply_field_override_def apply_override_recursive.simps head set_leaf_def)
  then show ?thesis using f get_after_set_value [OF assms(7), of "text_bytes n" g] by blast
qed

lemma printed_value_overrides_witness:
  "\<exists>f text g'. field_of (text_bytes ''n'') (set_value (text_bytes ''n'') (V_int8 (- 5)) new_message) = Some f \<and>
    field_text no_floats (\<lambda>_. Inr []) f = Inr (line_text (text_bytes ''n'') text) \<and>
    apply_override_spec (\<lambda>_. 0) \<lparr>stod = (\<lambda>_. None), narrow = (\<lambda>_. 0)\<rparr> point_schema (''n'' @ ''='' @ text) new_message no_files = Some (None, g', no_files) \<and>
    get_value FT_INT8 (text_bytes ''n'') g' = Some (Inr (V_int8 (- 5)))"
  using printed_value_overrides [of "''n''" point_schema "\<lparr>mf_name = ''n'', mf_type = FT_INT8, mf_nested = []\<rparr>" "V_int8 (- 5)"
      new_message no_floats "\<lambda>_. Inr []" "\<lambda>_. 0" "\<lparr>stod = (\<lambda>_. None), narrow = (\<lambda>_. 0)\<rparr>" new_message no_files]
  by (auto simp: point_schema_def find_schema_field_def)

end
