(* ===== verification/SocketPubSub.thy ===== *)
theory SocketPubSub
  imports PubSubLaws ReceiverLaws SenderLaws InfoPool Naming TextTools GenericLaws
begin

text \<open>
  The publisher and the subscriber of a topic over UDP (\<open>src/src/dzIPC/socket_pub_sub_ipc.cc\<close>). They find each other
  through the pool of registrations, exchange messages with the drivers of \<open>Sender\<close> and \<open>Receiver\<close>, and inside one
  process through the directory of queues. Sockets are the datagrams that have arrived on them.
\<close>

section \<open>The publisher\<close>

text \<open>
  \<open>kp_inbox\<close> is what has arrived on the data socket and \<open>kp_acks\<close> on the socket for acknowledgements, if there is one;
  \<open>kp_slot\<close> is the registration. The warnings given are three bits.
\<close>

record sock_publisher =
  kp_topic :: string
  kp_domain :: nat
  kp_port :: u16
  kp_addr :: string
  kp_key :: channel_key
  kp_size :: nat
  kp_total :: nat
  kp_consecutive :: nat
  kp_warned :: byte
  kp_node :: sender
  kp_inbox :: "bytes list"
  kp_acks :: "bytes list option"
  kp_subscribed :: bool
  kp_slot :: int

definition new_sock_publisher :: "string \<Rightarrow> nat \<Rightarrow> sender \<Rightarrow> sock_publisher" where
  "new_sock_publisher topic domain sd =
     \<lparr>kp_topic = topic, kp_domain = domain, kp_port = udp_discovery_port_calculate topic (int domain),
      kp_addr = udp_discovery_addr_calculate topic, kp_key = no_key, kp_size = 0, kp_total = 0, kp_consecutive = 0,
      kp_warned = 0, kp_node = sd, kp_inbox = [], kp_acks = None, kp_subscribed = False, kp_slot = - 1\<rparr>"

text \<open>
  What an end registers: \<open>domain\<close> is cut to 32 bits. \<open>acks\<close> says whether the socket for acknowledgements could be
  opened.
\<close>

definition topic_info :: "EntryKind \<Rightarrow> string \<Rightarrow> string \<Rightarrow> nat \<Rightarrow> string \<Rightarrow> register_info" where
  "topic_info kind topic type_name domain extra =
     \<lparr>ri_kind = kind, ri_topic = text_bytes topic, ri_type = text_bytes (extract_last_segment type_name),
      ri_domain = sint (of_nat domain :: u32), ri_extra = text_bytes extra\<rparr>"

definition sock_pub_init :: "bool \<Rightarrow> bool \<Rightarrow> int \<Rightarrow> int \<Rightarrow> string \<Rightarrow> string \<Rightarrow> sock_publisher \<times> pool_entry list \<Rightarrow>
    sock_publisher \<times> pool_entry list" where
  "sock_pub_init acks locked pid now type_name extra = (\<lambda>(p, pool).
     let (slot, pool) = rebind locked pid now (topic_info SocketPub (kp_topic p) type_name (kp_domain p) extra) (kp_slot p) pool
     in (p\<lparr>kp_acks := (if acks then Some [] else None), kp_slot := slot\<rparr>, pool))"

definition sock_pub_close :: "bool \<Rightarrow> sock_publisher \<times> pool_entry list \<Rightarrow> sock_publisher \<times> pool_entry list" where
  "sock_pub_close locked = (\<lambda>(p, pool).
     let (slot, pool) = reset_registration locked (kp_slot p) pool in (p\<lparr>kp_subscribed := False, kp_slot := slot\<rparr>, pool))"

definition sock_pub_reset_message :: "sock_publisher \<Rightarrow> sock_publisher" where
  "sock_pub_reset_message p = p\<lparr>kp_consecutive := 0\<rparr>"

text \<open>The subscribers over sockets of the topic that the pool lists; looking clears the entries of dead processes.\<close>

definition is_socket_sub :: "string \<Rightarrow> nat \<Rightarrow> entry_snapshot \<Rightarrow> bool" where
  "is_socket_sub topic domain e \<longleftrightarrow>
     es_kind e = kind_code SocketSub \<and> es_topic e = text_bytes topic \<and> es_domain e = sint (of_nat domain :: u32) \<and> es_alive e"

definition socket_subs :: "(int \<Rightarrow> bool) \<Rightarrow> bool \<Rightarrow> string \<Rightarrow> nat \<Rightarrow> pool_entry list \<Rightarrow> nat \<times> pool_entry list" where
  "socket_subs runs locked topic domain pool =
     (let (es, pool) = snapshot runs locked True pool in (length (filter (is_socket_sub topic domain) es), pool))"

text \<open>One round of the discovery.\<close>

definition discovery_round :: "(int \<Rightarrow> bool) \<Rightarrow> bool \<Rightarrow> sock_publisher \<times> pool_entry list \<Rightarrow> sock_publisher \<times> pool_entry list" where
  "discovery_round runs locked = (\<lambda>(p, pool).
     let (n, pool) = socket_subs runs locked (kp_topic p) (kp_domain p) pool in (p\<lparr>kp_subscribed := 0 < n\<rparr>, pool))"

definition sock_gate :: "channel_key \<Rightarrow> nat \<Rightarrow> nat \<Rightarrow> sock_publisher \<Rightarrow> bool \<times> sock_publisher" where
  "sock_gate key found subs p =
     (let p = (if key \<noteq> kp_key p \<or> found \<noteq> kp_size p \<or> subs \<noteq> kp_total p
               then p\<lparr>kp_consecutive := 0, kp_key := key, kp_size := found, kp_total := subs\<rparr> else p)
      in if found \<noteq> 0 \<and> 0 < subs \<and> subs = found
         then let c = kp_consecutive p + 1 in (kFastPathConfirm \<le> c, p\<lparr>kp_consecutive := c\<rparr>)
         else (False, p\<lparr>kp_consecutive := 0,
                 kp_warned := kp_warned p OR (if found = 0 then 1 else if subs = 0 then 2 else if subs \<noteq> found then 4 else 0)\<rparr>))"

text \<open>Sending over the network, with the acknowledgements on the socket of their own where the options ask for it.\<close>

definition sock_send :: "nat \<Rightarrow> send_ctx \<Rightarrow> send_options \<Rightarrow> bytes \<Rightarrow> sock_publisher \<Rightarrow> (bool \<times> sock_publisher) option" where
  "sock_send fuel ctx opts data p =
     do {
       (rep, sd, inbox) \<leftarrow> chunk_send_ex fuel ctx opts data (kp_node p) (kp_inbox p);
       Some (report_ok rep, p\<lparr>kp_node := sd, kp_inbox := inbox\<rparr>)
     }"

definition sock_publish_for_sniffer :: "nat \<Rightarrow> send_ctx \<Rightarrow> 'm msg_class \<Rightarrow> 'm \<Rightarrow> sock_publisher \<Rightarrow> (bool \<times> sock_publisher) option" where
  "sock_publish_for_sniffer fuel ctx cls m p =
     sock_send fuel ctx (SocketSendOptions\<lparr>so_delivery := BestEffort, so_integrity := IntegrityNone\<rparr>) (mc_serialize cls m) p"

definition sock_publish_blocking :: "nat \<Rightarrow> send_ctx \<Rightarrow> nat \<Rightarrow> 'm msg_class \<Rightarrow> 'm \<Rightarrow> sock_publisher \<Rightarrow> (bool \<times> sock_publisher) option" where
  "sock_publish_blocking fuel ctx tm cls m p =
     do {
       (rep, sd, inbox) \<leftarrow> chunk_send_ex fuel ctx
         (SocketSendOptions\<lparr>so_delivery := Reliable, so_integrity := IntegrityCRC32C, so_ack_timeout_ms := tm\<rparr>)
         (mc_serialize cls m) (kp_node p) (case kp_acks p of None \<Rightarrow> kp_inbox p | Some q \<Rightarrow> q);
       let p = p\<lparr>kp_node := sd\<rparr>;
       Some (report_ok rep, (case kp_acks p of None \<Rightarrow> p\<lparr>kp_inbox := inbox\<rparr> | Some q \<Rightarrow> p\<lparr>kp_acks := Some inbox\<rparr>))
     }"

text \<open>
  Publishing: inside the process when three messages in a row found the same key and every subscriber that the pool
  knows in the process, else over the network.
\<close>

definition sock_key :: "string \<Rightarrow> nat \<Rightarrow> u32 \<Rightarrow> channel_key" where
  "sock_key topic domain i = \<lparr>ck_topic = topic, ck_domain = domain, ck_msg_id = i, ck_kind = SocketPubSub\<rparr>"

definition sock_publish_best_effort :: "nat \<Rightarrow> send_ctx \<Rightarrow> nat \<Rightarrow> (int \<Rightarrow> bool) \<Rightarrow> bool \<Rightarrow> (nat \<Rightarrow> bool) \<Rightarrow> 'm msg_class \<Rightarrow> 'm \<Rightarrow>
    sock_publisher \<times> 'm process \<times> pool_entry list \<Rightarrow> (bool \<times> sock_publisher \<times> 'm process \<times> pool_entry list) option" where
  "sock_publish_best_effort fuel ctx k runs locked live cls m = (\<lambda>(p, pr, pool).
     if \<not> nc_nodelet (pr_config pr)
     then do { (ok, p) \<leftarrow> sock_publish_for_sniffer fuel ctx cls m p; Some (ok, p, pr, pool) }
     else let key = sock_key (kp_topic p) (kp_domain p) (mc_msg_id cls m);
              (qs, reg) = subscriber_snapshot live key (pr_registry pr);
              (subs, pool) = socket_subs runs locked (kp_topic p) (kp_domain p) pool;
              (fast, p) = sock_gate key (length qs) subs p;
              pr = pr\<lparr>pr_registry := reg\<rparr>
          in if fast
             then do { queues \<leftarrow> fanout k m qs (pr_queues pr); Some (True, p, pr\<lparr>pr_queues := queues\<rparr>, pool) }
             else do { (ok, p) \<leftarrow> sock_publish_for_sniffer fuel ctx cls m p; Some (ok, p, pr, pool) })"

section \<open>The subscriber\<close>

text \<open>
  \<open>ks_inbox\<close> is what has arrived on the data socket. Acknowledgements go to \<open>ks_ack\<close>, or to the data socket
  \<open>ks_node\<close> when there is no socket for them.
\<close>

record 'm sock_sub =
  ks_topic :: string
  ks_domain :: nat
  ks_template :: "'m topic_data"
  ks_msg_id :: u32
  ks_registered :: bool
  ks_queue :: nat
  ks_views :: "sample circular_queue"
  ks_inbox :: "bytes list"
  ks_node :: socket
  ks_ack :: "socket option"
  ks_stats :: frag_track_state
  ks_slot :: int

definition new_sock_sub :: "'m msg_class \<Rightarrow> 'm topic_data \<Rightarrow> string \<Rightarrow> nat \<Rightarrow> nat \<Rightarrow> nat \<Rightarrow> 'm process \<Rightarrow> 'm sock_sub \<times> 'm process" where
  "new_sock_sub cls td topic domain c q pr =
     (\<lparr>ks_topic = topic, ks_domain = domain, ks_template = td, ks_msg_id = mc_msg_id cls (td_topic td), ks_registered = False,
       ks_queue = q, ks_views = CircularQueue c, ks_inbox = [], ks_node = \<lparr>sk_calls = 0, sk_out = []\<rparr>, ks_ack = None,
       ks_stats = frag_track_init, ks_slot = - 1\<rparr>,
      pr\<lparr>pr_queues := (pr_queues pr)(q := CircularQueue c)\<rparr>)"

definition sock_sub_key :: "'m sock_sub \<Rightarrow> channel_key" where
  "sock_sub_key s = sock_key (ks_topic s) (ks_domain s) (ks_msg_id s)"

definition sock_sub_init :: "bool \<Rightarrow> bool \<Rightarrow> int \<Rightarrow> int \<Rightarrow> string \<Rightarrow> string \<Rightarrow> (nat \<Rightarrow> bool) \<Rightarrow>
    'm sock_sub \<times> 'm process \<times> pool_entry list \<Rightarrow> 'm sock_sub \<times> 'm process \<times> pool_entry list" where
  "sock_sub_init acks locked pid now type_name extra live = (\<lambda>(s, pr, pool).
     let (slot, pool) = rebind locked pid now (topic_info SocketSub (ks_topic s) type_name (ks_domain s) extra) (ks_slot s) pool;
         s = s\<lparr>ks_ack := (if acks then Some \<lparr>sk_calls = 0, sk_out = []\<rparr> else None), ks_slot := slot\<rparr>
     in if ks_registered s then (s, pr, pool)
        else (s\<lparr>ks_registered := True\<rparr>, pr\<lparr>pr_registry := register_subscriber live (sock_sub_key s) (ks_queue s) (pr_registry pr)\<rparr>, pool))"

definition sock_sub_reset_message :: "'m msg_class \<Rightarrow> (nat \<Rightarrow> bool) \<Rightarrow> 'm topic_data \<Rightarrow> 'm sock_sub \<times> 'm process \<Rightarrow> 'm sock_sub \<times> 'm process" where
  "sock_sub_reset_message cls live td = (\<lambda>(s, pr).
     let s' = s\<lparr>ks_template := td, ks_msg_id := mc_msg_id cls (td_topic td)\<rparr>
     in if ks_registered s \<and> ks_msg_id s \<noteq> ks_msg_id s'
        then (s', pr\<lparr>pr_registry := register_subscriber live (sock_sub_key s') (ks_queue s)
                       (unregister_subscriber live (sock_sub_key s) (ks_queue s) (pr_registry pr))\<rparr>)
        else (s', pr))"

definition sock_sub_close :: "bool \<Rightarrow> (nat \<Rightarrow> bool) \<Rightarrow> 'm sock_sub \<times> 'm process \<times> pool_entry list \<Rightarrow> 'm sock_sub \<times> 'm process \<times> pool_entry list" where
  "sock_sub_close locked live = (\<lambda>(s, pr, pool).
     let pr = (if ks_registered s
               then pr\<lparr>pr_registry := unregister_subscriber live (sock_sub_key s) (ks_queue s) (pr_registry pr)\<rparr> else pr);
         (slot, pool) = reset_registration locked (ks_slot s) pool
     in (s\<lparr>ks_registered := False, ks_slot := slot\<rparr>, pr, pool))"

text \<open>
  Where a received message goes, and what is counted: deserialised messages go to the queue of messages as they are,
  flat segments are lent out when the type has a layout.
\<close>

definition sock_route :: "'m msg_class \<Rightarrow> 'm sock_sub \<Rightarrow> delivery \<Rightarrow> 'm buffer_route \<times> rx_event option" where
  "sock_route cls s d =
     (let topic = td_topic (ks_template s)
      in case d of
           Deserialized buf \<Rightarrow> (Own (fst (mc_deserialize cls topic buf)), None)
         | Borrowed seg \<Rightarrow>
             if seg = [] then (Own topic, None)
             else if mc_hash cls = 0
             then let (m, ok, ev) = AcceptWire (mc_read cls) (mc_deserialize cls) seg (ks_msg_id s) topic
                  in (if ok then Own m else Drop, Some ev)
             else if dzflat_peek_msg_id (Some seg) \<noteq> Some (ks_msg_id s) then (Drop, Some kDzFlatIdSkipped)
             else if sh_schema_hash (header_of seg) \<noteq> mc_hash cls then (Drop, Some kDzFlatSchemaDrop)
             else (View \<lparr>sp_buf = seg, sp_msg_id = ks_msg_id s, sp_hash = mc_hash cls\<rparr>, Some kDzFlatAccepted))"

definition sock_deliver :: "'m msg_class \<Rightarrow> nat \<Rightarrow> delivery \<Rightarrow> 'm sock_sub \<times> 'm process \<Rightarrow> ('m sock_sub \<times> 'm process) option" where
  "sock_deliver cls k d = (\<lambda>(s, pr).
     let (route, ev) = sock_route cls s d;
         pr = (case ev of None \<Rightarrow> pr | Some e \<Rightarrow> pr\<lparr>pr_config := NoteDzFlatRx e (pr_config pr)\<rparr>)
     in case route of
          Drop \<Rightarrow> Some (s, pr)
        | View sp \<Rightarrow> do { vs \<leftarrow> push_owned k sp (ks_views s); Some (s\<lparr>ks_views := vs\<rparr>, pr) }
        | Own m \<Rightarrow> do { q \<leftarrow> push_owned k m (pr_queues pr (ks_queue s)); Some (s, pr\<lparr>pr_queues := (pr_queues pr)(ks_queue s := q)\<rparr>) })"

text \<open>One round of the thread that receives.\<close>

definition sock_sub_receive :: "'m msg_class \<Rightarrow> nat \<Rightarrow> recv_ctx \<Rightarrow> 'm sock_sub \<times> 'm process \<Rightarrow> ('m sock_sub \<times> 'm process) option" where
  "sock_sub_receive cls k ctx = (\<lambda>(s, pr).
     do {
       (r, inbox, out, fs) \<leftarrow> chunk_rev_topic ctx (mc_msg_id cls (td_topic (ks_template s))) True 50 (ks_inbox s) (ks_node s) (ks_ack s) (ks_stats s);
       let s = s\<lparr>ks_inbox := inbox, ks_stats := fs\<rparr>;
       let s = (if ks_ack s = None then s\<lparr>ks_node := out\<rparr> else s\<lparr>ks_ack := Some out\<rparr>);
       (case r of Received d \<Rightarrow> sock_deliver cls k d (s, pr) | _ \<Rightarrow> Some (s, pr))
     })"

definition sock_get_view :: "nat \<Rightarrow> 'm sock_sub \<Rightarrow> (sample option popped \<times> 'm sock_sub) option" where
  "sock_get_view k s = do { (r, vs) \<leftarrow> pop k (ks_views s); Some (r, s\<lparr>ks_views := vs\<rparr>) }"

definition sock_try_get_view :: "nat \<Rightarrow> 'm sock_sub \<Rightarrow> (sample option \<times> 'm sock_sub) option" where
  "sock_try_get_view k s =
     do { (r, vs) \<leftarrow> try_dequeue k (ks_views s); Some (case r of None \<Rightarrow> None | Some sp \<Rightarrow> sp, s\<lparr>ks_views := vs\<rparr>) }"

definition sock_get_clone :: "nat \<Rightarrow> 'm sock_sub \<times> 'm process \<Rightarrow> ('m option popped \<times> 'm process) option" where
  "sock_get_clone k = (\<lambda>(s, pr).
     do { (r, q) \<leftarrow> pop k (pr_queues pr (ks_queue s)); Some (r, pr\<lparr>pr_queues := (pr_queues pr)(ks_queue s := q)\<rparr>) })"

definition sock_try_get_clone :: "nat \<Rightarrow> 'm topic_data \<Rightarrow> 'm sock_sub \<times> 'm process \<Rightarrow> (bool \<times> 'm topic_data \<times> 'm process) option" where
  "sock_try_get_clone k td = (\<lambda>(s, pr).
     do {
       (r, q) \<leftarrow> try_dequeue k (pr_queues pr (ks_queue s));
       let pr = pr\<lparr>pr_queues := (pr_queues pr)(ks_queue s := q)\<rparr>;
       Some (case r of Some (Some m) \<Rightarrow> (True, td_update m td, pr) | _ \<Rightarrow> (False, td, pr))
     })"

end
