(* ===== verification/SocketLaws.thy ===== *)
theory SocketLaws
  imports SocketPubSub
begin

text \<open>
  What the ends of a topic over UDP promise: the fast path is that of the ends over shared memory, a registered
  subscriber is discovered, a confirmed message was acknowledged, what a subscriber queues is what was published, and
  a message of one page is queued by the round that finds its page. The pages of two messages of one size mix.
\<close>

section \<open>The gate is the one over shared memory\<close>

definition shm_view :: "sock_publisher \<Rightarrow> publisher" where
  "shm_view p = \<lparr>pb_topic = kp_topic p, pb_domain = kp_domain p, pb_key = kp_key p, pb_size = kp_size p, pb_recv = kp_total p,
     pb_consecutive = kp_consecutive p, pb_warned = 0, pb_channel = some_chan\<rparr>"

lemma sock_gate_shm: "map_prod id shm_view (sock_gate key found n p) = fast_path_gate key found n (shm_view p)"
  by (auto simp: sock_gate_def fast_path_gate_def shm_view_def Let_def kFastPathConfirm_def)

lemma sock_gate_frame:
  "kp_node (snd (sock_gate key found n p)) = kp_node p" "kp_inbox (snd (sock_gate key found n p)) = kp_inbox p"
  "kp_acks (snd (sock_gate key found n p)) = kp_acks p"
  by (simp_all add: sock_gate_def Let_def)

definition sock_confirmed :: "nat list \<Rightarrow> nat \<Rightarrow> u32 \<Rightarrow> sock_publisher \<Rightarrow> bool" where
  "sock_confirmed qs n i p \<longleftrightarrow> qs \<noteq> [] \<and> n = length qs \<and> 2 \<le> kp_consecutive p \<and> kp_key p = sock_key (kp_topic p) (kp_domain p) i \<and>
     kp_size p = length qs \<and> kp_total p = length qs"

text \<open>
  Once the fast path of a publisher over UDP is confirmed, a message is appended once to every live queue
  registered for its key, which keep their last samples; no other queue changes and no datagram is sent.
\<close>

lemma sock_local_delivery:
  assumes "nc_nodelet (pr_config pr)" and "registry_ok (pr_registry pr)"
    and "qs = listeners live (pr_registry pr) (sock_key (kp_topic p) (kp_domain p) (mc_msg_id cls m))"
    and "sock_confirmed qs (fst (socket_subs runs locked (kp_topic p) (kp_domain p) pool)) (mc_msg_id cls m) p"
    and "\<forall>q \<in> set qs. cq_inv (Suc k) (pr_queues pr q)"
  shows "\<exists>p' pr' pool'. sock_publish_best_effort fuel ctx 2 runs locked live cls m (p, pr, pool) = Some (True, p', pr', pool') \<and>
    kp_node p' = kp_node p \<and>
    (\<forall>q. if q \<in> set qs
         then queue_content (pr_queues pr' q) =
           drop (length (queue_content (pr_queues pr q)) + 1 - cq_capacity (pr_queues pr q)) (queue_content (pr_queues pr q) @ [m])
         else pr_queues pr' q = pr_queues pr q)"
proof -
  let ?key = "sock_key (kp_topic p) (kp_domain p) (mc_msg_id cls m)"
  obtain reg where reg: "subscriber_snapshot live ?key (pr_registry pr) = (qs, reg)"
    using snapshot_listeners assms(3) by (metis prod.collapse)
  obtain pool' where n: "socket_subs runs locked (kp_topic p) (kp_domain p) pool = (length qs, pool')"
    using assms(4) by (metis sock_confirmed_def prod.collapse)
  have g: "sock_gate ?key (length qs) (length qs) p = (True, p\<lparr>kp_consecutive := kp_consecutive p + 1\<rparr>)"
    using assms(4) by (simp add: sock_gate_def sock_confirmed_def kFastPathConfirm_def Let_def)
  obtain queues where f: "fanout 2 m qs (pr_queues pr) = Some queues" "\<forall>q. q \<notin> set qs \<longrightarrow> queues q = pr_queues pr q"
      "\<forall>q \<in> set qs. queue_content (queues q) =
         drop (length (queue_content (pr_queues pr q)) + 1 - cq_capacity (pr_queues pr q)) (queue_content (pr_queues pr q) @ [m])"
    using fanout_all [OF _ assms(5)] listeners_distinct [OF assms(2)] assms(3) by metis
  have "sock_publish_best_effort fuel ctx 2 runs locked live cls m (p, pr, pool) =
      Some (True, p\<lparr>kp_consecutive := kp_consecutive p + 1\<rparr>, pr\<lparr>pr_registry := reg, pr_queues := queues\<rparr>, pool')"
    using assms(1) by (simp add: sock_publish_best_effort_def reg n g f(1))
  then show ?thesis using f(2,3) by auto
qed

section \<open>Discovery\<close>

definition pool_ok :: "pool_entry list \<Rightarrow> bool" where
  "pool_ok p \<longleftrightarrow> length p = kMaxEntries \<and>
     (\<forall>e \<in> set p. length (pe_topic e) = kMaxTopicName \<and> length (pe_type e) = kMaxTypeName \<and> length (pe_extra e) = kMaxExtra)"

lemma pool_ok_update: "pool_ok p \<Longrightarrow> length (pe_topic e) = kMaxTopicName \<Longrightarrow> length (pe_type e) = kMaxTypeName \<Longrightarrow>
    length (pe_extra e) = kMaxExtra \<Longrightarrow> pool_ok (p[i := e])"
  using set_update_subset_insert [of p i e] by (auto simp: pool_ok_def)

lemma pool_ok_reset:
  assumes "pool_ok p"
  shows "pool_ok (snd (reset_registration locked slot p))"
proof (cases "0 \<le> slot \<and> nat slot < kMaxEntries \<and> locked \<and> pe_in_use (p ! nat slot) \<noteq> 0")
  case True
  then have "p ! nat slot \<in> set p" using assms by (simp add: pool_ok_def)
  then have "pool_ok (p[nat slot := clear_entry (p ! nat slot)])"
    using assms by (intro pool_ok_update) (simp_all add: clear_entry_def cleared_def pool_ok_def)
  then show ?thesis using True by (simp add: reset_registration_def unregister_entry_def)
next
  case False
  then show ?thesis using assms by (auto simp: reset_registration_def unregister_entry_def)
qed

lemma kept_name: "\<forall>c \<in> set s. c \<noteq> 0 \<Longrightarrow> length s \<le> n \<Longrightarrow> takeWhile (\<lambda>c. c \<noteq> 0) (take n s) = s"
  by (simp add: takeWhile_eq_all_conv [THEN iffD2])

text \<open>
  C23. A subscriber over UDP that has registered, of a topic whose name is shorter than 128 bytes and contains no NUL, is
  discovered: whatever the processes do with the pool, until it unregisters or ends, every round in which a publisher
  of the topic gets the lock finds it. (A longer name is cut in the pool and never found, \<open>long_topic_invisible\<close>.)
\<close>

theorem subscriber_discovered:
  assumes "pool_ok pool" and "0 < pid" and "runs pid"
    and "sock_sub_init acks True pid now type_name extra live (s, pr, pool) = (s', pr', pool1)" and "ks_slot s' = int k"
    and "\<forall>x \<in> set xs. spares k pid x"
    and "kp_topic p = ks_topic s" and "kp_domain p = ks_domain s" and "length (ks_topic s) < 128" and "\<forall>c \<in> set (text_bytes (ks_topic s)). c \<noteq> 0"
  shows "kp_subscribed (fst (discovery_round runs True (p, fold pool_step xs pool1)))"
proof -
  let ?info = "topic_info SocketSub (ks_topic s) type_name (ks_domain s) extra"
  obtain slot0 pool0 where r0: "reset_registration True (ks_slot s) pool = (slot0, pool0)" by (cases "reset_registration True (ks_slot s) pool")
  have ok: "pool_ok pool0" using pool_ok_reset [OF assms(1), of True "ks_slot s"] r0 by simp
  obtain slot p1 where reg: "register_entry True pid now ?info pool0 = (slot, p1)" by (cases "register_entry True pid now ?info pool0")
  have "slot = int k" "p1 = pool1"
    using assms(4,5) by (auto simp: sock_sub_init_def rebind_def r0 reg Let_def split: if_splits)
  then have reg: "register_entry True pid now ?info pool0 = (int k, pool1)" using reg by simp
  obtain x where x: "x \<in> set (fst (snapshot runs True True (fold pool_step xs pool1)))" "es_kind x = kind_code SocketSub"
      "es_domain x = ri_domain ?info" "es_alive x" "es_topic x = takeWhile (\<lambda>c. c \<noteq> 0) (take 127 (ri_topic ?info))"
    using registered_listed [where runs = runs and pid = pid, OF _ _ assms(2) reg assms(6,3), of True] ok
    by (auto simp: pool_ok_def topic_info_def)
  have "es_topic x = text_bytes (ks_topic s)"
    using x(5) kept_name [OF assms(10), of 127] assms(9) by (simp add: topic_info_def text_bytes_def)
  then have "is_socket_sub (kp_topic p) (kp_domain p) x"
    using x(2-4) assms(7,8) by (simp add: is_socket_sub_def topic_info_def)
  then have "filter (is_socket_sub (kp_topic p) (kp_domain p)) (fst (snapshot runs True True (fold pool_step xs pool1))) \<noteq> []"
    using x(1) by (auto simp: filter_empty_conv)
  then show ?thesis by (simp add: discovery_round_def socket_subs_def split_beta)
qed

lemma empty_pool_facts: "pool_ok empty_pool" "\<exists>p. register_entry True pid now info empty_pool = (0, p)"
proof -
  show "pool_ok empty_pool" by (simp add: pool_ok_def empty_pool_def kMaxTopicName_def kMaxTypeName_def kMaxExtra_def)
  have e: "empty_pool = \<lparr>pe_in_use = 0, pe_pid = 0, pe_kind = 0, pe_register_ts = 0, pe_heartbeat = 0,
     pe_topic = replicate 128 0, pe_type = replicate 64 0, pe_domain = 0, pe_extra = replicate 64 0\<rparr> # tl empty_pool"
    by (simp add: empty_pool_def kMaxEntries_def numeral_eq_Suc)
  have "first_free (\<lambda>e. pe_in_use e \<noteq> 0) 0 empty_pool = Some 0" by (subst e) simp
  then show "\<exists>p. register_entry True pid now info empty_pool = (0, p)" by (simp add: register_entry_def)
qed

definition number_sub :: "nat sock_sub" where
  "number_sub = fst (new_sock_sub number_class \<lparr>td_topic = 0, td_cache = 0, td_msg_id = 7\<rparr> ''hi'' 3 2 0 local_process)"

theorem subscriber_discovered_witness:
  "\<exists>s pr pool. sock_sub_init True True 7 5 ''m/T'' '''' (\<lambda>_. True) (number_sub, local_process, empty_pool) = (s, pr, pool) \<and>
     kp_subscribed (fst (discovery_round (\<lambda>_. True) True
       (new_sock_publisher ''hi'' 3 example_sender, fold pool_step [Beat 9 0, Collect (\<lambda>_. True) True] pool)))"
proof -
  let ?info = "topic_info SocketSub ''hi'' ''m/T'' 3 ''''"
  obtain pool where p: "register_entry True 7 5 ?info empty_pool = (0, pool)" using empty_pool_facts(2) by blast
  have r: "rebind True 7 5 ?info (- 1) empty_pool = (0, pool)"
    by (simp add: rebind_def reset_registration_def p)
  obtain s' pr' where i: "sock_sub_init True True 7 5 ''m/T'' '''' (\<lambda>_. True) (number_sub, local_process, empty_pool) = (s', pr', pool)"
      "ks_slot s' = int 0"
    by (simp add: sock_sub_init_def number_sub_def new_sock_sub_def r)
  have s: "\<forall>x \<in> set [Beat 9 0, Collect (\<lambda>_. True) True]. spares 0 7 x" by simp
  have "kp_subscribed (fst (discovery_round (\<lambda>_. True) True
      (new_sock_publisher ''hi'' 3 example_sender, fold pool_step [Beat 9 0, Collect (\<lambda>_. True) True] pool)))"
    by (rule subscriber_discovered [OF empty_pool_facts(1) _ _ i s])
      (simp_all add: number_sub_def new_sock_sub_def new_sock_publisher_def text_bytes_def)
  with i(1) show ?thesis by blast
qed

text \<open>
  A round that does not get the lock sees an empty pool, and the publisher forgets its subscribers; a topic whose
  name does not fit into the pool is never found.
\<close>

lemma pool_failure_forgets: "fst (discovery_round runs False (p, pool)) = p\<lparr>kp_subscribed := False\<rparr>"
  by (simp add: discovery_round_def socket_subs_def snapshot_def)

lemma long_topic_invisible:
  assumes "pool_ok pool" and "128 < length (kp_topic p)"
  shows "\<not> kp_subscribed (fst (discovery_round runs locked (p, pool)))"
proof -
  have "\<not> is_socket_sub (kp_topic p) (kp_domain p) x" if "x \<in> set (fst (snapshot_from runs True 0 pool))" for x
  proof -
    have "x \<in> set (fst (snapshot_from runs True 0 pool))" by fact
    then obtain j where j: "j < length pool" "x = snapshot_of runs j (pool ! j)" by (auto simp: snapshot_from_lists)
    then have "length (pe_topic (pool ! j)) = 128" using assms(1) by (simp add: pool_ok_def kMaxTopicName_def)
    then have "length (es_topic x) \<le> 128" using j(2) length_takeWhile_le [of "\<lambda>c. c \<noteq> 0" "pe_topic (pool ! j)"]
      by (simp add: snapshot_of_def c_string_def)
    then show ?thesis using assms(2) by (auto simp: is_socket_sub_def text_bytes_def)
  qed
  then have "filter (is_socket_sub (kp_topic p) (kp_domain p)) (fst (snapshot_from runs True 0 pool)) = []"
    by (simp add: filter_empty_conv)
  then show ?thesis by (simp add: discovery_round_def socket_subs_def snapshot_def split_beta)
qed

section \<open>Confirmed messages\<close>

lemma send_rounds_reliable:
  "sj_delivery j = Reliable \<Longrightarrow> send_rounds n ctx j v rate = Some (st, v', rate') \<Longrightarrow> st \<noteq> SentUnconfirmed"
proof (induction n arbitrary: v rate)
  case (Suc n)
  have acked: "finish_acked ctx j a w r = Some (st, v', rate') \<Longrightarrow> st \<noteq> SentUnconfirmed" for a w r
    by (auto simp: finish_acked_def Let_def split: prod.splits if_splits bind_splits)
  have timed: "finish_timeout ctx j w r = (st, v', rate') \<Longrightarrow> st \<noteq> SentUnconfirmed" for w r
    by (auto simp: finish_timeout_def split: prod.splits)
  show ?case
    using Suc.prems Suc.IH acked timed
    by (auto simp: Let_def split: bind_splits prod.splits if_splits option.splits)
qed simp

lemma confirm_message_reliable:
  assumes "confirm_message fuel ctx opts meta chunks crc rate report sd inbox = Some (rep, sd', rest)" and "so_delivery opts = Reliable"
  shows "sr_status rep \<noteq> SentUnconfirmed"
proof -
  obtain j v where jv: "\<And>fuel. confirm_message fuel ctx opts meta chunks crc rate report sd inbox =
      do { (status, v, rate) \<leftarrow> send_rounds fuel ctx j v (sd_rate sd);
        Some (report\<lparr>sr_status := status, sr_ack_crc32c := ss_ack_crc v\<rparr>,
              sd\<lparr>sd_sock := ss_sock v, sd_stats := ss_stats v, sd_rtt := ss_rtt v, sd_peers := fb_peers (ss_fb v),
                 sd_rate := rate\<rparr>, ss_inbox v) }"
      "sj_delivery j = Reliable"
    using confirm_message_rounds [OF assms(2), of ctx meta chunks crc rate report sd inbox] by blast
  show ?thesis using assms(1) send_rounds_reliable [OF jv(2)] by (auto simp: jv(1) split: bind_splits)
qed

lemma reliable_not_unconfirmed:
  assumes "chunk_send_ex fuel ctx opts data sd inbox = Some (rep, sd', rest)" and "so_delivery opts = Reliable"
  shows "sr_status rep \<noteq> SentUnconfirmed"
  using assms confirm_message_reliable [OF _ assms(2)]
  by (auto simp: chunk_send_ex_def Let_def split: bind_splits prod.splits option.splits if_splits)

text \<open>
  C22. When a blocking publish reports success, an acknowledgement was received on the socket for acknowledgements
  that names this message and its number, with the checksum of the pages that were sent.
\<close>

theorem blocking_publish_confirmed:
  assumes "sock_publish_blocking fuel ctx tm cls m p = Some (True, p')" and "kp_acks p = Some q"
    and "\<forall>f \<in> set q. length f < 2 ^ 32" and "\<forall>k ps. set (sc_order ctx k ps) = set ps"
  shows "\<exists>chunks tail a. correct_pages (split_chunks (mc_serialize cls m)) = Some chunks \<and> parse_tail (hd chunks) = Some tail \<and>
    ack_matches a (meta_of_tail tail (sd_counter (kp_node p))) \<and> acked_in (set q) a \<and> ak_payload_crc32c a = send_crc ctx (concat chunks)"
proof -
  let ?opts = "SocketSendOptions\<lparr>so_delivery := Reliable, so_integrity := IntegrityCRC32C, so_ack_timeout_ms := tm\<rparr>"
  obtain rep sd rest where r: "chunk_send_ex fuel ctx ?opts (mc_serialize cls m) (kp_node p) q = Some (rep, sd, rest)" "report_ok rep"
    using assms(1,2) by (auto simp: sock_publish_blocking_def Let_def split: bind_splits)
  have d: "so_delivery ?opts = Reliable" "so_integrity ?opts = IntegrityCRC32C" by simp_all
  have "sr_status rep \<noteq> SentUnconfirmed" using reliable_not_unconfirmed [OF r(1) d(1)] .
  then have "sr_status rep = DeliveredAcked" using r(2) by (auto simp: report_ok_def)
  then show ?thesis
    using chunk_send_ex_result [OF assms(3,4) r(1)] d(2) by (auto simp: send_outcome_def confirmed_by_def)
qed

definition number_pub :: sock_publisher where
  "number_pub = (new_sock_publisher ''t'' 0 example_sender)\<lparr>kp_acks := Some [example_ack]\<rparr>"

definition page_class :: "nat msg_class" where
  "page_class = number_class\<lparr>mc_serialize := (\<lambda>_. example_page)\<rparr>"

theorem blocking_publish_confirmed_witness:
  "\<exists>p' a. sock_publish_blocking 1 example_send_ctx 100 page_class 9 number_pub = Some (True, p') \<and>
     ack_matches a example_meta \<and> acked_in {example_ack} a \<and> ak_payload_crc32c a = send_crc example_send_ctx example_page"
proof -
  obtain rep sd rest where r: "chunk_send_ex 1 example_send_ctx example_opts example_page example_sender [example_ack] = Some (rep, sd, rest)"
      "sr_status rep = DeliveredAcked" using example_sent by blast
  have n: "kp_node number_pub = example_sender" "kp_acks number_pub = Some [example_ack]"
    by (simp_all add: number_pub_def new_sock_publisher_def)
  have c: "mc_serialize page_class 9 = example_page" by (simp add: page_class_def)
  have b: "sock_publish_blocking 1 example_send_ctx 100 page_class 9 number_pub =
      Some (True, number_pub\<lparr>kp_node := sd, kp_acks := Some rest\<rparr>)"
    using r by (simp add: sock_publish_blocking_def n c example_opts_def report_ok_def)
  from blocking_publish_confirmed [OF b n(2) example_inbox]
  have "\<exists>a. ack_matches a example_meta \<and> acked_in {example_ack} a \<and> ak_payload_crc32c a = send_crc example_send_ctx example_page"
    by (auto simp: c n example_page_facts meta_of_tail_def example_sender_def example_meta_def)
  with b show ?thesis by blast
qed

section \<open>What a subscriber queues is what was published\<close>

text \<open>Pages of one message among the pages of another are all its pages.\<close>

lemma same_pages:
  assumes "message_pages meta pages" and "message_pages meta' ps" and "set pages \<subseteq> set ps"
  shows "pages = ps"
proof -
  have at: "\<exists>k < length ps. pages ! i = ps ! k \<and> page_tail meta i = page_tail meta' k" if i: "i < length pages" for i
  proof -
    have "pages ! i \<in> set ps" using assms(3) i nth_mem by blast
    then obtain k where k: "k < length ps" "pages ! i = ps ! k" by (metis in_set_conv_nth)
    then show ?thesis using assms(1,2) i unfolding message_pages_def by (metis option.inject)
  qed
  have "0 < length pages" using assms(1) by (simp add: message_pages_def meta_wf_def)
  then have "cm_page_cnt meta = cm_page_cnt meta'" using at by (auto simp: page_tail_def)
  then have len: "length pages = length ps" using assms(1,2) by (simp add: message_pages_def)
  have "pages ! i = ps ! i" if i: "i < length pages" for i
  proof -
    obtain k where k: "k < length ps" "pages ! i = ps ! k" "(of_nat (i + 1) :: u16) = of_nat (k + 1)"
      using at [OF i] by (auto simp: page_tail_def simp del: of_nat_Suc of_nat_add)
    then have "i + 1 = k + 1" using now_of_index [OF assms(1) i] now_of_index [OF assms(2) k(1)] by metis
    then show ?thesis using k(2) by simp
  qed
  then show ?thesis using len by (simp add: nth_equalityI)
qed

text \<open>A message with named fields does not look like a flat segment.\<close>

lemma fields_not_flat:
  assumes "framed buf (message_bytes g)" and "gm_fields g \<noteq> []"
  shows "\<not> wire_is_dzflat buf"
proof -
  obtain mm pg t where b: "buf = frames mm pg (message_bytes g) @ t" "length (message_bytes g) < max_payload"
    using assms(1) by (auto simp: framed_def)
  obtain f fs where f: "gm_fields g = f # fs" using assms(2) by (cases "gm_fields g") auto
  let ?n = "length (f_name f)"
  obtain r where r: "message_bytes g = size_bytes ?n @ r" by (simp add: message_bytes_def f field_pieces_def)
  have n: "?n < 2 ^ 30"
    using b(2) max_payload_small [of "length (message_bytes g)"] by (simp add: message_bytes_def f length_field_pieces)
  have "take 4 buf = take 4 (message_bytes g)"
    using frames_take_drop [of 0 4 "message_bytes g" mm pg t] b(1) r by (simp add: phys_def size_bytes_def)
  then have m: "take 4 buf = size_bytes ?n" using r by (simp add: size_bytes_def)
  have "of_le (size_bytes ?n) = (of_nat ?n :: u32)" by (simp add: size_bytes_def)
  moreover have "(of_nat ?n :: u32) \<noteq> kMagic"
  proof
    assume "(of_nat ?n :: u32) = kMagic"
    then have "unat (of_nat ?n :: u32) = unat kMagic" by simp
    then show False using n by (simp add: unat_of_nat kMagic_def)
  qed
  ultimately show ?thesis using m by (auto simp: wire_is_dzflat_def looks_like_dzflat_def Let_def header_of_def)
qed

text \<open>The virtual methods of a message with named fields.\<close>

definition generic_class :: "(nat \<Rightarrow> byte) \<Rightarrow> generic_message msg_class" where
  "generic_class junk =
     \<lparr>mc_msg_id = (\<lambda>g. mb_msg_id (gm_base g)), mc_set_msg_id = (\<lambda>i g. g\<lparr>gm_base := (gm_base g)\<lparr>mb_msg_id := i\<rparr>\<rparr>),
      mc_hash = 0, mc_size = (\<lambda>_. 0), mc_write = (\<lambda>_ _. None),
      mc_read = (\<lambda>g seg. (case gm_dzflat_read (Some seg) g of (ok, g) \<Rightarrow> (g, ok))),
      mc_adopt = (\<lambda>g seg h. (case gm_dzflat_adopt (Some seg) h g of (ok, g) \<Rightarrow> (g, ok))),
      mc_serialize = (\<lambda>g. case gm_serialize junk g of None \<Rightarrow> [] | Some (g, data) \<Rightarrow> data),
      mc_deserialize = (\<lambda>g buf. case gm_deserialize buf g of None \<Rightarrow> (g, False) | Some g \<Rightarrow> (g, deserialize_ok (gm_base g)))\<rparr>"

definition published_well :: "generic_message \<Rightarrow> bool" where
  "published_well g \<longleftrightarrow> msg_typed g \<and> gm_fields g \<noteq> [] \<and> (\<forall>f \<in> set (gm_fields g). f_name f \<noteq> []) \<and>
     phys (length (message_bytes g)) + 12 \<le> MAX_RECV_TOTAL_SIZE"

lemma framed_wire_pages: "length d < max_payload \<Longrightarrow> framed (concat (wire_pages m d)) d"
  unfolding framed_def concat_wire_pages by (metis length_tail_bytes)

lemma published_reads_back:
  assumes "published_well g"
  shows "\<exists>ok. mc_deserialize (generic_class junk) h (concat (wire_pages (gm_base g) (message_bytes g))) = (h1, ok) \<Longrightarrow>
    gm_fields h1 = gm_fields g" and "\<not> wire_is_dzflat (concat (wire_pages (gm_base g) (message_bytes g)))"
proof -
  let ?d = "message_bytes g" and ?w = "concat (wire_pages (gm_base g) (message_bytes g))"
  have mp: "length ?d < max_payload" using wire_meta_wf(1) assms by (simp add: published_well_def)
  have fr: "framed ?w ?d" by (rule framed_wire_pages [OF mp])
  show "\<not> wire_is_dzflat ?w" using fields_not_flat [OF fr] assms by (simp add: published_well_def)
  have "rest_at ?d ?d = 0" by (simp add: rest_at_def phys_def)
  then have "read_fields_from ?w 0 = Some (gm_fields g)"
    using read_fields_framed [OF fr, of "gm_fields g"] assms by (simp add: message_bytes_def msg_typed_def published_well_def)
  moreover have "\<not> length ?w < 12" by (simp add: concat_wire_pages)
  ultimately show "gm_fields h1 = gm_fields g" if "\<exists>ok. mc_deserialize (generic_class junk) h ?w = (h1, ok)"
    using that by (auto simp: generic_class_def gm_deserialize_def Let_def)
qed

lemma page_check_id:
  assumes "message_pages meta pages" and "f \<in> set pages"
  shows "check_id f (cm_msg_id meta)"
proof -
  obtain k where "k < length pages" "f = pages ! k" using assms(2) by (metis in_set_conv_nth)
  then have "parse_tail f = Some (page_tail meta k)" using assms(1) by (simp add: message_pages_def)
  then show ?thesis by (auto simp: parse_tail_def check_id_def page_tail_def Let_def TAIL_SIZE_def split: if_splits)
qed

text \<open>What a best-effort send puts on the network: pages of the message and heartbeats.\<close>

lemma chunk_send_frames:
  assumes "chunk_send_ex fuel ctx (SocketSendOptions\<lparr>so_delivery := BestEffort, so_integrity := IntegrityNone\<rparr>) (wire m d) sd inbox = Some (rep, sd', rest)"
    and "\<forall>f \<in> set inbox. length f < 2 ^ 32" and "\<forall>k ps. set (sc_order ctx k ps) = set ps"
    and "f \<in> set (sk_out (sd_sock sd')) - set (sk_out (sd_sock sd))"
  shows "f \<in> set (wire_pages m d) \<or> check_hb_id f"
  using chunk_send_ex_result [OF assms(2,3,1)] assms(4)
  by (auto simp: send_outcome_def own_frames_def announces_def correct_pages_wire)

lemma generic_wire:
  assumes "published_well g"
  shows "mc_serialize (generic_class junk) g = wire (gm_base g) (message_bytes g)"
proof -
  have "length (message_bytes g) < max_payload" using wire_meta_wf(1) assms by (simp add: published_well_def)
  then show ?thesis using gm_serialize_wire [of g junk] assms by (simp add: generic_class_def published_well_def)
qed

lemma best_effort_frames:
  assumes "sock_publish_for_sniffer fuel ctx (generic_class junk) g p = Some (ok, p')" and "published_well g"
    and "\<forall>f \<in> set (kp_inbox p). length f < 2 ^ 32" and "\<forall>k ps. set (sc_order ctx k ps) = set ps"
    and "f \<in> set (sk_out (sd_sock (kp_node p'))) - set (sk_out (sd_sock (kp_node p)))"
  shows "f \<in> set (wire_pages (gm_base g) (message_bytes g)) \<or> check_hb_id f"
proof -
  let ?opts = "SocketSendOptions\<lparr>so_delivery := BestEffort, so_integrity := IntegrityNone\<rparr>"
  obtain rep sd rest where r: "chunk_send_ex fuel ctx ?opts (wire (gm_base g) (message_bytes g)) (kp_node p) (kp_inbox p) = Some (rep, sd, rest)"
      "kp_node p' = sd"
    using assms(1) by (auto simp: sock_publish_for_sniffer_def sock_send_def generic_wire [OF assms(2)] split: bind_splits)
  show ?thesis using chunk_send_frames [OF r(1) assms(3,4)] assms(5) r(2) by blast
qed

text \<open>
  A receiver that finds only datagrams of one message, heartbeats and foreign traffic receives that message or nothing.
\<close>

lemma received_is_sent:
  assumes "published_well g" and "i \<noteq> kRtpsHeartbeatMsgId"
    and "\<forall>f \<in> set inbox. check_id f i \<longrightarrow> f \<in> set (wire_pages (gm_base g) (message_bytes g)) \<or> check_hb_id f" and "rc_msg_id ctx = i"
  shows "\<exists>r inbox' s' fs'. recv_chunk_common_impl ctx tm inbox s fs = Some (r, inbox', s', fs') \<and>
    (r = RecvBlocked \<or> r = RecvFailed \<or> r = Received (Deserialized (concat (wire_pages (gm_base g) (message_bytes g)))))"
proof -
  let ?ps = "wire_pages (gm_base g) (message_bytes g)"
  have "d = Deserialized (concat ?ps)" if ok: "received_ok ctx (set inbox) s' d" for s' d
  proof -
    obtain meta pages where d: "delivers pages meta d" "set pages \<subseteq> set inbox" "cm_msg_id meta = rc_msg_id ctx"
      using ok by (auto simp: received_ok_def)
    have mp: "message_pages meta pages" using d(1) by (simp add: delivers_def)
    have "set pages \<subseteq> set ?ps"
    proof
      fix f assume f: "f \<in> set pages"
      have id: "check_id f i" using page_check_id [OF mp f] d(3) assms(4) by simp
      then have "f \<in> set ?ps \<or> check_hb_id f" using assms(3) d(2) f by blast
      then show "f \<in> set ?ps" using id assms(2) by (auto simp: check_hb_id_def check_id_def split: if_splits)
    qed
    then have "pages = ?ps" using same_pages [OF mp wire_pages_message] assms(1) by (simp add: published_well_def)
    then show ?thesis using d(1) published_reads_back(2) [OF assms(1)] by (auto simp: delivers_def split: delivery.splits)
  qed
  then show ?thesis using recv_impl_ok [of ctx tm inbox s fs] by metis
qed

definition sent_by :: "sock_publisher \<Rightarrow> sock_publisher \<Rightarrow> bytes set" where
  "sent_by p p' = set (sk_out (sd_sock (kp_node p'))) - set (sk_out (sd_sock (kp_node p)))"

text \<open>
  C5. End to end over UDP: when the datagrams of a topic that reach a subscriber are among those that one publish
  sent, in any order, some lost, some repeated, among foreign traffic, then a round of its receiving thread ends, and
  it either queues nothing or exactly one message, whose fields are those of the message published.
\<close>

theorem socket_exchange:
  assumes "sock_publish_for_sniffer fuel ctx (generic_class junk) g p = Some (ok, p')" and "published_well g"
    and "\<forall>f \<in> set (kp_inbox p). length f < 2 ^ 32" and "\<forall>k ps. set (sc_order ctx k ps) = set ps"
    and "mc_msg_id (generic_class junk) (td_topic (ks_template s)) = i" and "i \<noteq> kRtpsHeartbeatMsgId"
    and "\<forall>f \<in> set (ks_inbox s). check_id f i \<longrightarrow> f \<in> sent_by p p'"
    and "cq_inv (Suc k) (pr_queues pr (ks_queue s))"
  shows "\<exists>s' pr'. sock_sub_receive (generic_class junk) 2 rctx (s, pr) = Some (s', pr') \<and> ks_views s' = ks_views s \<and>
    (pr' = pr \<or> (\<exists>m q. gm_fields m = gm_fields g \<and> pr' = pr\<lparr>pr_queues := (pr_queues pr)(ks_queue s := q)\<rparr> \<and>
       queue_content q = drop (length (queue_content (pr_queues pr (ks_queue s))) + 1 - cq_capacity (pr_queues pr (ks_queue s)))
         (queue_content (pr_queues pr (ks_queue s)) @ [m])))"
proof -
  let ?cls = "generic_class junk" and ?ctx = "rctx\<lparr>rc_msg_id := i, rc_want_payload := True\<rparr>" and ?q = "pr_queues pr (ks_queue s)"
  let ?ps = "wire_pages (gm_base g) (message_bytes g)" and ?sock = "case ks_ack s of None \<Rightarrow> ks_node s | Some s \<Rightarrow> s"
  obtain r inbox out fs where r: "recv_chunk_common_impl ?ctx 50 (ks_inbox s) ?sock (ks_stats s) = Some (r, inbox, out, fs)"
      "r = RecvBlocked \<or> r = RecvFailed \<or> r = Received (Deserialized (concat ?ps))"
    using received_is_sent [of g i "ks_inbox s" ?ctx 50 ?sock "ks_stats s"] best_effort_frames [OF assms(1-4)] assms(2,6,7)
    by (auto simp: sent_by_def)
  let ?s = "if ks_ack (s\<lparr>ks_inbox := inbox, ks_stats := fs\<rparr>) = None then s\<lparr>ks_inbox := inbox, ks_stats := fs, ks_node := out\<rparr>
            else s\<lparr>ks_inbox := inbox, ks_stats := fs, ks_ack := Some out\<rparr>"
  have run: "sock_sub_receive ?cls 2 rctx (s, pr) = (case r of Received d \<Rightarrow> sock_deliver ?cls 2 d (?s, pr) | _ \<Rightarrow> Some (?s, pr))"
    using r(1) by (simp add: sock_sub_receive_def chunk_rev_topic_def assms(5) Let_def)
  show ?thesis
  proof (cases "\<exists>d. r = Received d")
    case False
    then show ?thesis using r(2) run by auto
  next
    case True
    then have d: "r = Received (Deserialized (concat ?ps))" using r(2) by auto
    let ?d = "Deserialized (concat ?ps)"
    obtain m where m: "sock_route ?cls ?s ?d = (Own m, None)" "gm_fields m = gm_fields g"
      using published_reads_back(1) [OF assms(2), of junk "td_topic (ks_template s)" "fst (mc_deserialize ?cls (td_topic (ks_template s)) (concat ?ps))"]
      by (auto simp: sock_route_def Let_def prod_eq_iff)
    obtain q where q: "push_owned 2 m ?q = Some q"
        "queue_content q = drop (length (queue_content ?q) + 1 - cq_capacity ?q) (queue_content ?q @ [m])"
      using cq.push_law [of k ?q m] assms(8) by auto
    have "sock_sub_receive ?cls 2 rctx (s, pr) = Some (?s, pr\<lparr>pr_queues := (pr_queues pr)(ks_queue s := q)\<rparr>)"
      using run d m(1) q(1) by (simp add: sock_deliver_def)
    then show ?thesis using m(2) q(2) by auto
  qed
qed

text \<open>A message of one page is received as soon as its page is the next datagram.\<close>

lemma next_page_received:
  assumes "message_pages meta [page]" and "cm_sequence meta = 0" and "cm_msg_id meta = rc_msg_id ctx" and "rc_msg_id ctx \<noteq> kRtpsHeartbeatMsgId"
    and "elapsed_ms ctx 1 (rc_clk ctx 0) < tm" and "\<not> wire_is_dzflat page"
  shows "\<exists>s'. recv_chunk_common_impl ctx tm (page # rest) s fs = Some (Received (Deserialized page), rest, s', fs)"
proof -
  have cnt: "cm_page_cnt meta = 1" "meta_wf meta" using assms(1) by (auto simp: message_pages_def word_unat_eq_iff)
  have t: "parse_tail page = Some (page_tail meta 0)" "length page = expected_page_size meta 1"
    using assms(1) by (simp_all add: message_pages_def)
  have m: "meta_of_tail (page_tail meta 0) 0 = meta" using assms(2) by (simp add: meta_of_tail_def page_tail_def)
  have id: "check_id page (rc_msg_id ctx)" "\<not> check_hb_id page" "page \<noteq> []"
    using page_check_id [OF assms(1), of page] assms(3,4) by (auto simp: check_hb_id_def check_id_def split: if_splits)
  have v: "valid_chunk_meta (page_tail meta 0)"
    using cnt by (simp add: valid_chunk_meta_def page_tail_def meta_wf_def udp_consts)
  have len: "length page = unat (cm_total_size meta)"
    using pages_total [OF assms(1)] by simp
  obtain s' where s': "send_ack (rc_ok ctx) (rc_junk ctx) (rc_me ctx) s meta (rc_crc ctx page) False 0 0 = Some s'"
    using send_ack_acknowledges by blast
  show ?thesis
    using assms(5,6) id v t len s' m cnt(1)
    by (simp add: recv_chunk_common_impl_def page_tail_def recv_single_def deliver_def)
qed

text \<open>
  C21. A published message that fits into one page is queued for a subscriber over UDP by the round of its receiving
  thread that finds the page, with the fields that were published.
\<close>

theorem small_message_arrives:
  assumes "sock_publish_for_sniffer fuel ctx (generic_class junk) g p = Some (ok, p')" and "published_well g"
    and "\<forall>f \<in> set (kp_inbox p). length f < 2 ^ 32" and "\<forall>k ps. set (sc_order ctx k ps) = set ps"
    and "length (message_bytes g) < 1460" and "i = mb_msg_id (gm_base g)" and "i \<noteq> kRtpsHeartbeatMsgId"
    and "mc_msg_id (generic_class junk) (td_topic (ks_template s)) = i"
    and "ks_inbox s = f # rest" and "f \<in> sent_by p p'" and "check_id f i" and "elapsed_ms rctx 1 (rc_clk rctx 0) < 50"
    and "cq_inv (Suc k) (pr_queues pr (ks_queue s))"
  shows "\<exists>s' pr' m. sock_sub_receive (generic_class junk) 2 rctx (s, pr) = Some (s', pr') \<and> ks_inbox s' = rest \<and> gm_fields m = gm_fields g \<and>
    queue_content (pr_queues pr' (ks_queue s)) =
      drop (length (queue_content (pr_queues pr (ks_queue s))) + 1 - cq_capacity (pr_queues pr (ks_queue s)))
        (queue_content (pr_queues pr (ks_queue s)) @ [m])"
proof -
  let ?cls = "generic_class junk" and ?ctx = "rctx\<lparr>rc_msg_id := i, rc_want_payload := True\<rparr>" and ?q = "pr_queues pr (ks_queue s)"
  let ?ps = "wire_pages (gm_base g) (message_bytes g)" and ?sock = "case ks_ack s of None \<Rightarrow> ks_node s | Some s \<Rightarrow> s"
  let ?meta = "wire_meta (gm_base g) (length (message_bytes g)) 0"
  have mp: "message_pages ?meta ?ps" using wire_pages_message assms(2) by (simp add: published_well_def)
  have "length ?ps = 1" using assms(5) by (simp add: wire_pages_def)
  moreover have "f \<in> set ?ps"
    using best_effort_frames [OF assms(1-4), of f] assms(7,10,11) by (auto simp: sent_by_def check_hb_id_def check_id_def split: if_splits)
  ultimately have ps: "?ps = [f]" by (auto simp: length_Suc_conv)
  have flat: "\<not> wire_is_dzflat f" using published_reads_back(2) [OF assms(2)] ps by simp
  obtain out where r: "recv_chunk_common_impl ?ctx 50 (f # rest) ?sock (ks_stats s) = Some (Received (Deserialized f), rest, out, ks_stats s)"
    using next_page_received [of ?meta f ?ctx 50 rest ?sock "ks_stats s"] mp ps flat assms(6,7,12)
    by (auto simp: wire_meta_def elapsed_ms_def)
  obtain m ev where m: "mc_deserialize ?cls (td_topic (ks_template s)) f = (m, ev)" by fastforce
  then have g: "gm_fields m = gm_fields g"
    using published_reads_back(1) [OF assms(2), of junk "td_topic (ks_template s)" m] ps by simp
  obtain q where q: "push_owned 2 m ?q = Some q"
      "queue_content q = drop (length (queue_content ?q) + 1 - cq_capacity ?q) (queue_content ?q @ [m])"
    using cq.push_law [of k ?q m] assms(13) by auto
  show ?thesis
    using r q g m
    by (simp add: sock_sub_receive_def chunk_rev_topic_def assms(8,9) sock_deliver_def sock_route_def Let_def exI [of _ m])
qed

section \<open>A message on its way\<close>

definition count_message :: generic_message where "count_message = set_value [110] (V_int32 7) new_message"

definition count_class :: "generic_message msg_class" where "count_class = generic_class (\<lambda>_. 0)"

definition count_page :: bytes where
  "count_page = [1, 0, 0, 0, 110, FT_INT32, 7, 0, 0, 0, 0, 1, 0, 1, 0, 0, 0, 22, 0, 0, 0, 0]"

definition count_process :: "generic_message process" where
  "count_process = \<lparr>pr_config = initial_config, pr_registry = Map.empty, pr_queues = (\<lambda>_. CircularQueue 2)\<rparr>"

definition count_pub :: sock_publisher where "count_pub = new_sock_publisher ''t'' 0 example_sender"

definition count_sub :: "bytes list \<Rightarrow> generic_message sock_sub" where
  "count_sub inbox = (fst (new_sock_sub count_class \<lparr>td_topic = new_message, td_cache = new_message, td_msg_id = 0\<rparr> ''t'' 0 2 0 count_process))
     \<lparr>ks_inbox := inbox\<rparr>"

lemma count_message_facts:
  "gm_fields count_message = [\<lparr>f_name = [110], f_type = FT_INT32, f_data = le_bytes 4 (7 :: u32)\<rparr>]" "gm_base count_message = msg_base_init 0"
  "published_well count_message" "length (message_bytes count_message) = 10" "wire (gm_base count_message) (message_bytes count_message) = count_page"
proof -
  show f: "gm_fields count_message = [\<lparr>f_name = [110], f_type = FT_INT32, f_data = le_bytes 4 (7 :: u32)\<rparr>]"
    by (simp add: count_message_def set_int32_def set_scalar_def store_fields new_message_def append_raw_def)
  show b: "gm_base count_message = msg_base_init 0"
    by (simp add: count_message_def set_int32_def set_scalar_def store_field_def Let_def new_message_def append_raw_def split: option.split)
  have d: "message_bytes count_message = size_bytes 1 @ [110, FT_INT32] @ le_bytes 4 (7 :: u32)"
    by (simp add: message_bytes_def f field_pieces_def)
  show l: "length (message_bytes count_message) = 10" by (simp add: d)
  have "msg_typed count_message" unfolding msg_typed_def f using typed_values(1) by (simp add: field_typed_def shape_of_def field_type_defs)
  then show "published_well count_message" unfolding published_well_def l by (simp add: f phys_def udp_consts)
  show "wire (gm_base count_message) (message_bytes count_message) = count_page"
    unfolding b d count_page_def by code_simp
qed

lemma count_page_facts:
  "correct_pages (split_chunks count_page) = Some [count_page]" "count_page \<noteq> []" "length count_page = 22"
  "parse_tail count_page = Some \<lparr>tm_page_cnt = 1, tm_now_page = 1, tm_total_size = 22, tm_msg_id = 0\<rparr>" "check_id count_page 0"
  by code_simp+

lemma count_published:
  "\<exists>p'. sock_publish_for_sniffer 1 example_send_ctx count_class count_message count_pub = Some (True, p') \<and> count_page \<in> sent_by count_pub p'"
proof -
  let ?opts = "SocketSendOptions\<lparr>so_delivery := BestEffort, so_integrity := IntegrityNone\<rparr>"
  have one: "SEND_RETRY_MAX = Suc 9" "kMaxDrain = Suc 8191" by (simp_all add: SEND_RETRY_MAX_def kMaxDrain_def)
  have "\<exists>s'. send_chunk_with_retry (\<lambda>k. True) \<lparr>sk_calls = 0, sk_out = []\<rparr> count_page = (True, s')"
    unfolding send_chunk_with_retry_def one send_attempts.simps by (simp add: node_send_def)
  then obtain s2 ps where b: "send_all_chunks (\<lambda>k. True) (sc_burst_us example_send_ctx) \<lparr>sk_calls = 0, sk_out = []\<rparr> [count_page] 0 = (True, s2, ps)"
    by (auto simp: send_all_chunks_def)
  have dq: "drain_queue 0 xs = xs" for xs
    unfolding drain_queue_def drain_self_loopback_def one drain_loop.simps take_0 drop_0 by simp
  have few: "\<not> kBestEffortHeartbeatMinPages \<le> 1" by code_simp
  have ser: "mc_serialize count_class count_message = count_page"
    using gm_serialize_wire [of count_message "\<lambda>_. 0"] count_message_facts
    by (simp add: count_class_def generic_class_def published_well_def max_payload_def)
  have n: "kp_node count_pub = example_sender" "kp_inbox count_pub = []" by (simp_all add: count_pub_def new_sock_publisher_def)
  obtain rep sd rest where r: "chunk_send_ex 1 example_send_ctx ?opts count_page example_sender [] = Some (rep, sd, rest)"
      "sr_status rep = SentUnconfirmed"
    by (simp add: chunk_send_ex_def count_page_facts SocketSendOptions_def example_sender_def udp_consts few
       valid_chunk_meta_def meta_of_tail_def example_ctx_fields dq effective_rate_bps_def Let_def b)
  have "send_outcome example_send_ctx ?opts count_page example_sender (set []) rep sd"
    by (rule chunk_send_ex_result [OF _ _ r(1)]) (simp_all add: example_ctx_fields)
  then have "count_page \<in> set (sk_out (sd_sock sd))" using r(2) by (auto simp: send_outcome_def count_page_facts)
  then show ?thesis
    using r by (auto simp: sock_publish_for_sniffer_def sock_send_def ser n report_ok_def sent_by_def example_sender_def)
qed

theorem socket_exchange_witness:
  "\<exists>p' s' pr'. sock_publish_for_sniffer 1 example_send_ctx count_class count_message count_pub = Some (True, p') \<and>
     count_page \<in> sent_by count_pub p' \<and>
     sock_sub_receive count_class 2 example_ctx (count_sub [[1], count_page, count_page], count_process) = Some (s', pr') \<and>
     (pr' = count_process \<or> map gm_fields (queue_content (pr_queues pr' 0)) = [gm_fields count_message])"
proof -
  obtain p' where p': "sock_publish_for_sniffer 1 example_send_ctx count_class count_message count_pub = Some (True, p')"
      "count_page \<in> sent_by count_pub p'" using count_published by blast
  have s: "mc_msg_id (generic_class (\<lambda>_. 0)) (td_topic (ks_template (count_sub inbox))) = 0" "ks_inbox (count_sub inbox) = inbox"
      "ks_queue (count_sub inbox) = 0" for inbox
    by (simp_all add: count_sub_def new_sock_sub_def generic_class_def new_message_def msg_base_init_def)
  have q: "cq_inv 1 (pr_queues count_process 0)" "queue_content (pr_queues count_process 0) = []" "cq_capacity (pr_queues count_process 0) = 2"
    using CircularQueue_inv [of 2 1] by (simp_all add: count_process_def CircularQueue_def)
  have i: "\<forall>f \<in> set (ks_inbox (count_sub [[1], count_page, count_page])). check_id f 0 \<longrightarrow> f \<in> sent_by count_pub p'"
    using p'(2) by (simp add: s check_id_def)
  have k: "kp_inbox count_pub = []" by (simp add: count_pub_def new_sock_publisher_def)
  from socket_exchange [OF p'(1) [unfolded count_class_def] count_message_facts(3) _ _ s(1) _ i, of 0 count_process example_ctx] q
  obtain s' pr' where r: "sock_sub_receive count_class 2 example_ctx (count_sub [[1], count_page, count_page], count_process) = Some (s', pr')"
      "pr' = count_process \<or> map gm_fields (queue_content (pr_queues pr' 0)) = [gm_fields count_message]"
    by (auto simp: s k example_ctx_fields kRtpsHeartbeatMsgId_def count_class_def)
  show ?thesis using p' r by (intro exI conjI)
qed

theorem small_message_arrives_witness:
  "\<exists>p' s' pr'. sock_publish_for_sniffer 1 example_send_ctx count_class count_message count_pub = Some (True, p') \<and>
     sock_sub_receive count_class 2 example_ctx (count_sub [count_page, [1]], count_process) = Some (s', pr') \<and>
     ks_inbox s' = [[1]] \<and> map gm_fields (queue_content (pr_queues pr' 0)) = [gm_fields count_message]"
proof -
  obtain p' where p': "sock_publish_for_sniffer 1 example_send_ctx count_class count_message count_pub = Some (True, p')"
      "count_page \<in> sent_by count_pub p'" using count_published by blast
  have s: "mc_msg_id (generic_class (\<lambda>_. 0)) (td_topic (ks_template (count_sub inbox))) = 0" "ks_inbox (count_sub inbox) = inbox"
      "ks_queue (count_sub inbox) = 0" for inbox
    by (simp_all add: count_sub_def new_sock_sub_def generic_class_def new_message_def msg_base_init_def)
  have q: "cq_inv 1 (pr_queues count_process 0)" "queue_content (pr_queues count_process 0) = []" "cq_capacity (pr_queues count_process 0) = 2"
    using CircularQueue_inv [of 2 1] by (simp_all add: count_process_def CircularQueue_def)
  have k: "kp_inbox count_pub = []" by (simp add: count_pub_def new_sock_publisher_def)
  have c: "elapsed_ms example_ctx (Suc 0) (rc_clk example_ctx 0) = 0" by (simp add: elapsed_ms_def example_ctx_def)
  from small_message_arrives [OF p'(1) [unfolded count_class_def] count_message_facts(3) _ _ _ _ _ s(1) s(2) [of "[count_page, [1]]"] p'(2) count_page_facts(5),
      of example_ctx 0 count_process] q
  obtain s' pr' where r: "sock_sub_receive count_class 2 example_ctx (count_sub [count_page, [1]], count_process) = Some (s', pr')"
      "ks_inbox s' = [[1]]" "map gm_fields (queue_content (pr_queues pr' 0)) = [gm_fields count_message]"
    by (auto simp: s k c example_ctx_fields kRtpsHeartbeatMsgId_def count_class_def count_message_facts(2,4) msg_base_init_def)
  show ?thesis using p'(1) r by (intro exI conjI)
qed

section \<open>Pages of different messages\<close>

text \<open>
  The tails of the pages do not carry the number of the message: the first pages of one message and the last
  pages of another of the same type and size are the pages of a message, and a receiver assembles them.
\<close>

lemma pages_mix:
  assumes "message_pages meta ps" and "message_pages meta qs" and "j \<le> length ps"
  shows "message_pages meta (take j ps @ drop j qs) \<and>
    (\<exists>a. receive_all meta (fresh_assembly meta) (take j ps @ drop j qs) = Some a \<and>
       asm_cnt a = unat (cm_page_cnt meta) \<and> asm_bytes a = concat (take j ps) @ concat (drop j qs))"
proof -
  have "length ps = length qs" using assms(1,2) by (simp add: message_pages_def)
  then have m: "message_pages meta (take j ps @ drop j qs)"
    using assms unfolding message_pages_def by (auto simp: nth_append min_def simp del: of_nat_Suc of_nat_add)
  obtain a where "receive_all meta (fresh_assembly meta) (take j ps @ drop j qs) = Some a"
      "asm_cnt a = unat (cm_page_cnt meta)" "asm_bytes a = concat (take j ps @ drop j qs)"
    using reassembly_facts [OF m, of "take j ps @ drop j qs"] by (auto split: if_splits)
  then show ?thesis using m by simp
qed

end
