(* ===== verification/SocketService.thy ===== *)
theory SocketService
  imports SocketLaws ServiceCalls InitMsg
begin

text \<open>
  A service over UDP (\<open>src/src/dzIPC/socket_ser_cli_ipc.cc\<close>): the handshake of server and client, which is also the
  only authority on whether the other end lives, the opening and closing of the sockets for data, and the calls. A
  handshake is a sequence of rounds of its thread, each with what it meets.
\<close>

section \<open>The handshake\<close>

datatype hs_state = RunHS | StopHS

text \<open>
  The thread's variables and the three atomic members it writes: the frame it sends, for which signal it was made (255
  before the first), whether the peer was heard after the handshake and when, the failed sends of the client, whether
  the handshake is complete, and the signal of the peer.
\<close>

record handshake =
  hk_msg :: init_msg
  hk_frame :: bytes
  hk_last :: byte
  hk_state :: hs_state
  hk_seen :: bool
  hk_heard :: nat
  hk_tries :: nat
  hk_completed :: bool
  hk_peer :: byte

text \<open>
  What a round meets: the signal to send, read twice, the results of its sends, the frame that arrived (none is the
  empty one), the clock when it did and after that, and whether the object still runs.
\<close>

record hs_input =
  hi_signal :: byte
  hi_signal2 :: byte
  hi_sends :: "nat \<Rightarrow> bool"
  hi_frame :: bytes
  hi_now :: nat
  hi_now2 :: nat
  hi_running :: bool

definition kPeerSilentTimeoutNs :: nat where "kPeerSilentTimeoutNs = 1500000000"

definition refresh_out_frame :: "(nat \<Rightarrow> byte) \<Rightarrow> byte \<Rightarrow> handshake \<Rightarrow> handshake option" where
  "refresh_out_frame junk sig k =
     (if sig = hk_last k then Some k
      else do {
        (m, f) \<leftarrow> init_serialize junk ((hk_msg k)\<lparr>im_path_state := path_state_of sig\<rparr>);
        Some (k\<lparr>hk_msg := m, hk_frame := f, hk_last := sig\<rparr>)
      })"

definition handshake_start :: "(nat \<Rightarrow> byte) \<Rightarrow> bool \<Rightarrow> byte \<Rightarrow> nat \<Rightarrow> handshake option" where
  "handshake_start junk server sig now =
     refresh_out_frame junk sig
       \<lparr>hk_msg = IpcPubSubIdInitMsg\<lparr>im_host_flag := server, im_cli_flag := \<not> server\<rparr>, hk_frame = [], hk_last = 255,
        hk_state = RunHS, hk_seen = False, hk_heard = now, hk_tries = 0, hk_completed = False, hk_peer = 0\<rparr>"

text \<open>Watching the peer after the handshake; \<open>is_peer\<close> tells its frames from the end's own.\<close>

definition hs_silence :: "hs_input \<Rightarrow> handshake \<Rightarrow> handshake" where
  "hs_silence i k =
     (if hk_seen k \<and> kPeerSilentTimeoutNs < hi_now2 i - hk_heard k \<and> hi_running i
      then k\<lparr>hk_completed := False, hk_state := RunHS, hk_seen := False\<rparr> else k)"

definition hs_watch :: "(bytes \<Rightarrow> bool option) \<Rightarrow> hs_input \<Rightarrow> handshake \<Rightarrow> handshake option" where
  "hs_watch is_peer i k =
     (if hi_frame i = [] then Some (hs_silence i k)
      else do {
        peer \<leftarrow> is_peer (hi_frame i);
        if \<not> peer then Some (hs_silence i k)
        else do {
          p \<leftarrow> peek_path_state (hi_frame i);
          let k = k\<lparr>hk_seen := True, hk_heard := hi_now i, hk_peer := path_state_byte p\<rparr>;
          run \<leftarrow> check_run_status (hi_frame i);
          Some (if run then hs_silence i k else k\<lparr>hk_completed := False, hk_state := RunHS\<rparr>)
        }
      })"

text \<open>In both states an end looks at what arrived; before the handshake it takes the signal of any frame.\<close>

definition hs_meet :: "(bytes \<Rightarrow> bool option) \<Rightarrow> hs_input \<Rightarrow> handshake \<Rightarrow> (bool \<times> handshake) option" where
  "hs_meet is_peer i k =
     (if hi_frame i = [] then Some (False, k)
      else do {
        p \<leftarrow> peek_path_state (hi_frame i);
        let k = k\<lparr>hk_peer := path_state_byte p\<rparr>;
        peer \<leftarrow> is_peer (hi_frame i);
        if \<not> peer then Some (False, k)
        else do { run \<leftarrow> check_run_status (hi_frame i); Some (run, k) }
      })"

text \<open>A round after the handshake, which both ends share, and the rounds of the two ends, with the frames they sent.\<close>

definition hs_stopped :: "(nat \<Rightarrow> byte) \<Rightarrow> (bytes \<Rightarrow> bool option) \<Rightarrow> hs_input \<Rightarrow> handshake \<Rightarrow> (bytes list \<times> handshake) option" where
  "hs_stopped junk is_peer i k =
     do {
       k \<leftarrow> refresh_out_frame junk (hi_signal2 i) k;
       if \<not> hi_sends i 0 then Some ([], k)
       else do { k' \<leftarrow> hs_watch is_peer i k; Some ([hk_frame k], k') }
     }"

definition server_handshake :: "(nat \<Rightarrow> byte) \<Rightarrow> hs_input \<Rightarrow> handshake \<Rightarrow> (bytes list \<times> handshake) option" where
  "server_handshake junk i k =
     do {
       k \<leftarrow> refresh_out_frame junk (hi_signal i) k;
       if hk_state k = StopHS then hs_stopped junk check_cli i k
       else if \<not> hi_sends i 0 then Some ([], k)
       else do {
         (met, k') \<leftarrow> hs_meet check_cli i k;
         Some ([hk_frame k], if met then k'\<lparr>hk_completed := True, hk_state := StopHS\<rparr> else k')
       }
     }"

text \<open>
  The client sends until it succeeds or has failed eleven times; the count of failures goes on where it stopped when a
  send succeeds. The first argument is the number of failures that are still allowed, the last one that of the sends.
\<close>

primrec hs_send :: "nat \<Rightarrow> (nat \<Rightarrow> bool) \<Rightarrow> nat \<Rightarrow> bool \<times> nat" where
  "hs_send 0 sends j = (if sends j then (True, 10) else (False, 0))"
| "hs_send (Suc n) sends j = (if sends j then (True, 10 - Suc n) else hs_send n sends (Suc j))"

definition client_handshake :: "(nat \<Rightarrow> byte) \<Rightarrow> hs_input \<Rightarrow> handshake \<Rightarrow> (bytes list \<times> handshake) option" where
  "client_handshake junk i k =
     do {
       k \<leftarrow> refresh_out_frame junk (hi_signal i) k;
       if hk_state k = StopHS then hs_stopped junk check_host i k
       else do {
         (met, k) \<leftarrow> hs_meet check_host i k;
         if \<not> met then Some ([], k)
         else let (sent, tries) = hs_send (10 - hk_tries k) (hi_sends i) 0; k = k\<lparr>hk_tries := tries\<rparr>
              in if \<not> sent then Some ([], k)
                 else Some ([hk_frame k], k\<lparr>hk_completed := True, hk_state := StopHS\<rparr>)
       }
     }"

text \<open>The last frame, when the thread ends.\<close>

definition hs_leave :: "(nat \<Rightarrow> byte) \<Rightarrow> handshake \<Rightarrow> bytes option" where
  "hs_leave junk k = do { (m, f) \<leftarrow> init_serialize junk ((hk_msg k)\<lparr>im_run_status := False\<rparr>); Some f }"

section \<open>The server\<close>

text \<open>
  \<open>su_inbox\<close> is what has arrived on the socket of requests, \<open>su_sender\<close> the socket of responses with what arrived on
  it, \<open>su_data\<close> whether the sockets for data are open.
\<close>

record 'm sock_server =
  su_topic :: string
  su_domain :: nat
  su_message :: "'m service_data"
  su_callback :: "('m service_data \<Rightarrow> 'm service_data) option"
  su_running :: bool
  su_data :: bool
  su_inbox :: "bytes list"
  su_node :: socket
  su_ack :: "socket option"
  su_stats :: frag_track_state
  su_sender :: sender
  su_winbox :: "bytes list"
  su_slot :: int

definition new_sock_server :: "string \<Rightarrow> nat \<Rightarrow> 'm service_data \<Rightarrow> ('m service_data \<Rightarrow> 'm service_data) option \<Rightarrow> sender \<Rightarrow> 'm sock_server" where
  "new_sock_server topic domain sd callback sn =
     \<lparr>su_topic = topic, su_domain = domain, su_message = sd_clone sd, su_callback = callback, su_running = True, su_data = False,
      su_inbox = [], su_node = \<lparr>sk_calls = 0, sk_out = []\<rparr>, su_ack = None, su_stats = frag_track_init, su_sender = sn,
      su_winbox = [], su_slot = - 1\<rparr>"

definition server_reset_message :: "'m service_data \<Rightarrow> 'm sock_server \<Rightarrow> 'm sock_server" where
  "server_reset_message sd s = s\<lparr>su_message := sd_clone sd\<rparr>"

definition server_reset_callback :: "('m service_data \<Rightarrow> 'm service_data) option \<Rightarrow> 'm sock_server \<Rightarrow> 'm sock_server" where
  "server_reset_callback callback s = s\<lparr>su_callback := callback\<rparr>"

text \<open>
  Opening connects the two sockets, which is repeated until it succeeds or the object is closed (\<open>linked\<close> is
  whether it did); sockets that are opened have received nothing. \<open>acks\<close> is whether the socket for acknowledgements
  of requests could be opened.
\<close>

definition server_open_data :: "bool \<Rightarrow> bool \<Rightarrow> sender \<Rightarrow> 'm sock_server \<Rightarrow> bool \<times> 'm sock_server" where
  "server_open_data linked acks sn s =
     (let new = \<lparr>sk_calls = 0, sk_out = []\<rparr>;
          s = s\<lparr>su_inbox := [], su_node := new, su_ack := Some new, su_sender := sn, su_winbox := []\<rparr>
      in if linked then (True, s\<lparr>su_ack := (if acks then Some new else None), su_data := True\<rparr>) else (False, s))"

definition server_stop_data :: "'m sock_server \<Rightarrow> 'm sock_server" where
  "server_stop_data s = s\<lparr>su_data := False\<rparr>"

definition server_restart_data :: "bool \<Rightarrow> bool \<Rightarrow> sender \<Rightarrow> 'm sock_server \<Rightarrow> 'm sock_server" where
  "server_restart_data linked acks sn s =
     (if su_data s \<or> \<not> su_running s then s else snd (server_open_data linked acks sn s))"

definition sock_server_init :: "bool \<Rightarrow> bool \<Rightarrow> sender \<Rightarrow> bool \<Rightarrow> int \<Rightarrow> int \<Rightarrow> string \<Rightarrow> string \<Rightarrow> 'm sock_server \<times> pool_entry list \<Rightarrow>
    'm sock_server \<times> pool_entry list" where
  "sock_server_init linked acks sn locked pid now type_name extra = (\<lambda>(s, pool).
     let (ok, s) = server_open_data linked acks sn s
     in if \<not> ok then (s, pool)
        else let (slot, pool) = rebind locked pid now (topic_info SocketServer (su_topic s) type_name (su_domain s) extra) (su_slot s) pool
             in (s\<lparr>su_slot := slot\<rparr>, pool))"

definition sock_server_close :: "bool \<Rightarrow> 'm sock_server \<times> pool_entry list \<Rightarrow> 'm sock_server \<times> pool_entry list" where
  "sock_server_close locked = (\<lambda>(s, pool).
     let (slot, pool) = reset_registration locked (su_slot s) pool in (s\<lparr>su_running := False, su_data := False, su_slot := slot\<rparr>, pool))"

text \<open>A round of the thread that answers.\<close>

definition answer_request :: "'m msg_class \<Rightarrow> 'm sock_server \<Rightarrow> bytes \<Rightarrow> 'm service_data" where
  "answer_request req s buf =
     (let sd = sd_clone (su_message s);
          sd = sd\<lparr>sd_request := fst (mc_deserialize req (sd_request sd) buf)\<rparr>
      in case su_callback s of None \<Rightarrow> sd | Some callback \<Rightarrow> callback sd)"

definition sock_serve :: "'m msg_class \<Rightarrow> 'm msg_class \<Rightarrow> nat \<Rightarrow> send_ctx \<Rightarrow> recv_ctx \<Rightarrow> 'm sock_server \<Rightarrow> 'm sock_server option" where
  "sock_serve req resp fuel sctx rctx s =
     (if \<not> su_running s \<or> \<not> su_data s then Some s
      else do {
        let sd = su_message s;
        (r, inbox, out, fs) \<leftarrow> chunk_rev_server rctx (mc_msg_id req (sd_request sd)) (mc_msg_id resp (sd_response sd)) 200 True
          (su_inbox s) (su_node s) (su_ack s) (su_stats s);
        let s = s\<lparr>su_inbox := inbox, su_stats := fs\<rparr>;
        let s = (if su_ack s = None then s\<lparr>su_node := out\<rparr> else s\<lparr>su_ack := Some out\<rparr>);
        (case r of
           Received (Deserialized buf) \<Rightarrow>
             do {
               (ok, sn, winbox) \<leftarrow> chunk_send fuel sctx (mc_serialize resp (sd_response (answer_request req s buf))) (su_sender s) (su_winbox s);
               Some (s\<lparr>su_sender := sn, su_winbox := winbox\<rparr>)
             }
         | _ \<Rightarrow> Some s)
      })"

section \<open>The client\<close>

record 'm sock_client =
  cu_topic :: string
  cu_domain :: nat
  cu_message :: "'m service_data"
  cu_running :: bool
  cu_data :: bool
  cu_completed :: bool
  cu_sender :: sender
  cu_rinbox :: "bytes list"
  cu_inbox :: "bytes list"
  cu_node :: socket
  cu_ack :: "socket option"
  cu_stats :: frag_track_state
  cu_slot :: int

definition new_sock_client :: "string \<Rightarrow> nat \<Rightarrow> 'm service_data \<Rightarrow> sender \<Rightarrow> 'm sock_client" where
  "new_sock_client topic domain sd sn =
     \<lparr>cu_topic = topic, cu_domain = domain, cu_message = sd_clone sd, cu_running = True, cu_data = False, cu_completed = False,
      cu_sender = sn, cu_rinbox = [], cu_inbox = [], cu_node = \<lparr>sk_calls = 0, sk_out = []\<rparr>, cu_ack = None, cu_stats = frag_track_init,
      cu_slot = - 1\<rparr>"

definition client_reset_message :: "'m service_data \<Rightarrow> 'm sock_client \<Rightarrow> 'm sock_client" where
  "client_reset_message sd c = c\<lparr>cu_message := sd_clone sd\<rparr>"

definition client_open_data :: "bool \<Rightarrow> bool \<Rightarrow> sender \<Rightarrow> 'm sock_client \<Rightarrow> bool \<times> 'm sock_client" where
  "client_open_data linked acks sn c =
     (let new = \<lparr>sk_calls = 0, sk_out = []\<rparr>;
          c = c\<lparr>cu_inbox := [], cu_node := new, cu_ack := Some new, cu_sender := sn, cu_rinbox := []\<rparr>
      in if linked then (True, c\<lparr>cu_ack := (if acks then Some new else None), cu_data := True\<rparr>) else (False, c))"

definition client_stop_data :: "'m sock_client \<Rightarrow> 'm sock_client" where
  "client_stop_data c = c\<lparr>cu_data := False\<rparr>"

definition client_restart_data :: "bool \<Rightarrow> bool \<Rightarrow> sender \<Rightarrow> 'm sock_client \<Rightarrow> 'm sock_client" where
  "client_restart_data linked acks sn c =
     (if cu_data c \<or> \<not> cu_running c then c else snd (client_open_data linked acks sn c))"

definition sock_client_init :: "bool \<Rightarrow> bool \<Rightarrow> sender \<Rightarrow> bool \<Rightarrow> int \<Rightarrow> int \<Rightarrow> string \<Rightarrow> string \<Rightarrow> 'm sock_client \<times> pool_entry list \<Rightarrow>
    'm sock_client \<times> pool_entry list" where
  "sock_client_init linked acks sn locked pid now type_name extra = (\<lambda>(c, pool).
     let (ok, c) = client_open_data linked acks sn c
     in if \<not> ok then (c, pool)
        else let (slot, pool) = rebind locked pid now (topic_info SocketClient (cu_topic c) type_name (cu_domain c) extra) (cu_slot c) pool
             in (c\<lparr>cu_slot := slot\<rparr>, pool))"

definition sock_client_close :: "bool \<Rightarrow> 'm sock_client \<times> pool_entry list \<Rightarrow> 'm sock_client \<times> pool_entry list" where
  "sock_client_close locked = (\<lambda>(c, pool).
     let (slot, pool) = reset_registration locked (cu_slot c) pool in (c\<lparr>cu_running := False, cu_data := False, cu_slot := slot\<rparr>, pool))"

text \<open>
  A call. \<open>arrive\<close> is what arrives on the socket of responses after the request was sent, which may depend on what was
  sent. A call may wait for ever.
\<close>

datatype call_result = Call_waits | Call_returns bool

definition sock_call :: "'m msg_class \<Rightarrow> 'm msg_class \<Rightarrow> nat \<Rightarrow> send_ctx \<Rightarrow> recv_ctx \<Rightarrow> (sender \<Rightarrow> bytes list) \<Rightarrow> nat \<Rightarrow> 'm service_data \<Rightarrow>
    'm sock_client \<Rightarrow> (call_result \<times> 'm service_data \<times> 'm sock_client) option" where
  "sock_call req resp fuel sctx rctx arrive tm sd c =
     (if \<not> cu_data c \<or> \<not> cu_completed c then Some (Call_returns False, sd, c)
      else do {
        (ok, sn, rinbox) \<leftarrow> chunk_send fuel sctx (mc_serialize req (sd_request sd)) (cu_sender c) (cu_rinbox c);
        let c = c\<lparr>cu_sender := sn, cu_rinbox := rinbox\<rparr>;
        if \<not> ok then Some (Call_returns False, sd, c)
        else do {
          (r, inbox, out, fs) \<leftarrow> chunk_rev_server rctx (mc_msg_id req (sd_request sd)) (mc_msg_id resp (sd_response sd)) tm False
            (cu_inbox c @ arrive sn) (cu_node c) (cu_ack c) (cu_stats c);
          let c = c\<lparr>cu_inbox := inbox, cu_stats := fs\<rparr>;
          let c = (if cu_ack c = None then c\<lparr>cu_node := out\<rparr> else c\<lparr>cu_ack := Some out\<rparr>);
          Some (case r of
                  Received (Deserialized buf) \<Rightarrow> (Call_returns True, sd\<lparr>sd_response := fst (mc_deserialize resp (sd_response sd) buf)\<rparr>, c)
                | RecvBlocked \<Rightarrow> (Call_waits, sd, c)
                | _ \<Rightarrow> (Call_returns False, sd, c))
        }
      })"

end
