(* ===== verification/SocketArrival.thy ===== *)
theory SocketArrival
  imports SocketLaws
begin

text \<open>
  When a message arrives: a receiver that finds all its pages, in any order and with repetitions, among heartbeats and
  datagrams of other types, within the time it waits, delivers it, whatever number of pages it has.
\<close>

section \<open>What arrives, and when\<close>

text \<open>
  \<open>fair_traffic i ps pre\<close>: none of the datagrams \<open>pre\<close> is empty (an empty one is a read that timed out), and those of
  the type \<open>i\<close> are pages of the message. \<open>in_time\<close>: the readings of the clock, three at most per datagram, lie within
  ten milliseconds, and within two if there is a heartbeat among the datagrams, after which a receiver waits no longer.
\<close>

definition fair_traffic :: "u32 \<Rightarrow> bytes list \<Rightarrow> bytes list \<Rightarrow> bool" where
  "fair_traffic i ps pre \<longleftrightarrow> (\<forall>f \<in> set pre. f \<noteq> [] \<and> (f \<in> set ps \<or> check_hb_id f \<or> \<not> check_id f i))"

definition patience :: "bytes list \<Rightarrow> nat" where
  "patience pre = (if \<exists>f \<in> set pre. check_hb_id f then 2 else 10)"

definition in_time :: "recv_ctx \<Rightarrow> bytes list \<Rightarrow> bool" where
  "in_time ctx pre \<longleftrightarrow> (\<forall>l \<le> 3 * length pre + 4. \<forall>k \<le> 3 * length pre + 4. elapsed_ms ctx l (rc_clk ctx k) < patience pre)"

lemma fair_traffic_Cons: "fair_traffic i ps (f # pre) \<longleftrightarrow> f \<noteq> [] \<and> (f \<in> set ps \<or> check_hb_id f \<or> \<not> check_id f i) \<and> fair_traffic i ps pre"
  by (auto simp: fair_traffic_def)

section \<open>A page of the message\<close>

lemma message_page_facts:
  assumes "message_pages meta ps" and "k < length ps" and "cm_msg_id meta \<noteq> kRtpsHeartbeatMsgId"
  shows "check_id (ps ! k) (cm_msg_id meta)" "\<not> check_hb_id (ps ! k)" "ps ! k \<noteq> []" "valid_chunk_meta (page_tail meta k)"
    "(of_nat (k + 1) :: u16) \<noteq> 0" "\<not> cm_page_cnt meta < of_nat (k + 1)"
proof -
  show c: "check_id (ps ! k) (cm_msg_id meta)" using page_check_id [OF assms(1)] assms(2) by simp
  then show "\<not> check_hb_id (ps ! k)" "ps ! k \<noteq> []" using assms(3) by (auto simp: check_hb_id_def check_id_def split: if_splits)
  have "meta_of_tail (page_tail meta k) (cm_sequence meta) = meta" by (simp add: meta_of_tail_def page_tail_def)
  then show "valid_chunk_meta (page_tail meta k)"
    using assms(1) valid_chunk_meta_wf [of "page_tail meta k" "cm_sequence meta"] by (simp add: message_pages_def)
  have n: "unat (of_nat (k + 1) :: u16) = k + 1" "k + 1 \<le> unat (cm_page_cnt meta)"
    using now_of_index [OF assms(1,2)] assms(1,2) by (auto simp: message_pages_def)
  show "(of_nat (k + 1) :: u16) \<noteq> 0"
  proof
    assume "(of_nat (k + 1) :: u16) = 0"
    then have "unat (of_nat (k + 1) :: u16) = 0" by simp
    then show False using n(1) by simp
  qed
  show "\<not> cm_page_cnt meta < of_nat (k + 1)" using n by (simp add: word_less_nat_alt del: of_nat_add of_nat_Suc)
qed

lemma message_pages_distinct:
  assumes "message_pages meta ps" and "i < length ps" and "k < length ps" and "ps ! i = ps ! k"
  shows "i = k"
proof -
  have "(of_nat (i + 1) :: u16) = of_nat (k + 1)"
    using assms unfolding message_pages_def by (metis option.inject page_tail_def tail_msg.ext_inject)
  then show ?thesis using now_of_index [OF assms(1,2)] now_of_index [OF assms(1,3)] by (metis add_right_cancel)
qed

section \<open>The first page\<close>

lemma first_page_found:
  assumes "message_pages meta ps" and "cm_msg_id meta = rc_msg_id ctx" and "rc_msg_id ctx \<noteq> kRtpsHeartbeatMsgId"
    and "fair_traffic (rc_msg_id ctx) ps pre" and "set pre \<inter> set ps \<noteq> {}" and "\<forall>l \<le> B. elapsed_ms ctx l b < tm" and "ticks + length pre \<le> B"
  shows "\<exists>q k t h hv us. wait_first_data_chunk ctx b tm ticks hb have (pre @ rest) =
      Some (FirstFound (meta\<lparr>cm_sequence := q\<rparr>) (ps ! k), t, h, hv, us @ rest) \<and> k < length ps \<and>
    suffix us pre \<and> set pre \<inter> set ps \<subseteq> insert (ps ! k) (set us) \<and> t + length us \<le> ticks + length pre"
  using assms(4,5,7)
proof (induction pre arbitrary: ticks hb "have")
  case Nil
  then show ?case by simp
next
  case (Cons f pre)
  define t1 where "t1 = (if tm \<noteq> invalid_value then ticks + 1 else ticks)"
  have el: "\<not> (tm \<noteq> invalid_value \<and> tm \<le> elapsed_ms ctx ticks b)" "f \<noteq> []"
    using assms(6) Cons.prems by (auto simp: not_le fair_traffic_Cons)
  note unf = append_Cons wait_first_data_chunk.simps(2) if_not_P [OF el(1)] if_not_P [OF el(2)] Let_def t1_def [symmetric]
  show ?case
  proof (cases "f \<in> set ps")
    case True
    then obtain k where k: "k < length ps" "f = ps ! k" by (metis in_set_conv_nth)
    note F = message_page_facts [OF assms(1) k(1)]
    have t: "parse_tail f = Some (page_tail meta k)" "length f = expected_page_size meta (of_nat (k + 1))"
      using assms(1) k by (auto simp: message_pages_def)
    have m: "meta_of_tail (page_tail meta k) 0 = meta\<lparr>cm_sequence := 0\<rparr>" by (simp add: meta_of_tail_def page_tail_def)
    have "\<exists>q. wait_first_data_chunk ctx b tm ticks hb have ((f # pre) @ rest) =
        Some (FirstFound (meta\<lparr>cm_sequence := q\<rparr>) (ps ! k), t1, hb, have, pre @ rest)"
      using F assms(2,3) t k(2) m unfolding unf by (auto simp: page_tail_def simp del: of_nat_Suc of_nat_add)
    moreover have "t1 + length pre \<le> ticks + length (f # pre)" by (simp add: t1_def)
    moreover have "suffix pre (f # pre)" by (simp add: suffix_ConsI)
    moreover have "set (f # pre) \<inter> set ps \<subseteq> insert (ps ! k) (set pre)" using k(2) by auto
    ultimately show ?thesis using k(1) by blast
  next
    case False
    obtain hb1 where hb1: "heartbeat_deserialize hb f = Some hb1" using heartbeat_deserialize_total by blast
    have "check_hb_id f \<or> \<not> check_id f (rc_msg_id ctx)" using False Cons.prems(1) by (auto simp: fair_traffic_Cons)
    then have "\<exists>h hv. wait_first_data_chunk ctx b tm ticks hb have ((f # pre) @ rest) = wait_first_data_chunk ctx b tm t1 h hv (pre @ rest)"
      using hb1 unfolding unf by auto
    then obtain h0 hv0 where e: "wait_first_data_chunk ctx b tm ticks hb have ((f # pre) @ rest) = wait_first_data_chunk ctx b tm t1 h0 hv0 (pre @ rest)"
      by blast
    have p: "fair_traffic (rc_msg_id ctx) ps pre" "set (f # pre) \<inter> set ps = set pre \<inter> set ps" "t1 \<le> ticks + 1"
      using Cons.prems(1) False by (auto simp: fair_traffic_Cons t1_def)
    have "set pre \<inter> set ps \<noteq> {}" "t1 + length pre \<le> B" using Cons.prems(2,3) p(2,3) by auto
    from Cons.IH [OF p(1) this, of h0 hv0]
    obtain q k t h hv us where i: "wait_first_data_chunk ctx b tm t1 h0 hv0 (pre @ rest) =
        Some (FirstFound (meta\<lparr>cm_sequence := q\<rparr>) (ps ! k), t, h, hv, us @ rest)" "k < length ps"
      "suffix us pre" "set pre \<inter> set ps \<subseteq> insert (ps ! k) (set us)" "t + length us \<le> t1 + length pre" by blast
    have "suffix us (f # pre)" "t + length us \<le> ticks + length (f # pre)" using i(3,5) p(3) by (auto simp: suffix_ConsI)
    then show ?thesis unfolding e p(2) using i(1,2,4) by blast
  qed
qed

section \<open>The rest of the pages\<close>

definition gathers :: "chunk_meta \<Rightarrow> bytes list \<Rightarrow> nat set \<Rightarrow> recv_state \<Rightarrow> bool" where
  "gathers meta ps S v \<longleftrightarrow> placed meta ps S (rv_asm v) \<and> (\<exists>q. rv_meta v = meta\<lparr>cm_sequence := q\<rparr>)"

lemma placed_sequence [simp]: "placed (meta\<lparr>cm_sequence := q\<rparr>) ps S a = placed meta ps S a"
  by (simp add: placed_def)

lemma gathers_complete:
  assumes "message_pages meta ps" and "gathers meta ps S v"
  shows "recv_complete v \<longleftrightarrow> S = {..<length ps}"
proof -
  have n: "length ps = unat (cm_page_cnt (rv_meta v))" "S \<subseteq> {..<length ps}" "asm_cnt (rv_asm v) = card S"
    using assms by (auto simp: gathers_def message_pages_def placed_def)
  then have "unat (cm_page_cnt (rv_meta v)) \<le> card S \<longleftrightarrow> S = {..<length ps}"
    by (metis card_lessThan card_seteq finite_lessThan order_refl)
  then show ?thesis using n(3) by (simp add: recv_complete_def)
qed

lemma recv_round_gathers:
  assumes "message_pages meta ps" and "cm_msg_id meta = rc_msg_id ctx" and "rc_msg_id ctx \<noteq> kRtpsHeartbeatMsgId"
    and "\<forall>l \<le> B. elapsed_ms ctx l rb < w \<and> elapsed_ms ctx l ab < w" and "w \<le> etm"
  shows "gathers meta ps S v \<Longrightarrow> fair_traffic (rc_msg_id ctx) ps pre \<Longrightarrow> \<forall>i < length ps. i \<in> S \<or> ps ! i \<in> set pre \<Longrightarrow>
    rv_ticks v + 3 * length pre \<le> B \<Longrightarrow> w \<le> budget \<Longrightarrow> (\<exists>f \<in> set pre. check_hb_id f) \<longrightarrow> w \<le> 2 \<Longrightarrow>
    \<exists>v'. recv_round ctx rb ab etm v budget (pre @ rest) = Some (RoundOver, v') \<and> gathers meta ps {..<length ps} v'"
proof (induction pre arbitrary: S v budget)
  case Nil
  then have S: "S = {..<length ps}" by (auto simp: gathers_def placed_def)
  then have c: "recv_complete v" using gathers_complete [OF assms(1) Nil.prems(1)] by simp
  show ?case using c Nil.prems(1) S by (cases rest) (auto simp: round_timeout_def gathers_def)
next
  case (Cons f pre)
  show ?case
  proof (cases "recv_complete v")
    case True
    then have "S = {..<length ps}" using gathers_complete [OF assms(1) Cons.prems(1)] by simp
    then show ?thesis using True Cons.prems(1) by (auto simp: round_timeout_def gathers_def)
  next
    case False
    define v1 where "v1 = snd (round_timeout ctx rb ab etm v budget)"
    have b: "elapsed_ms ctx (rv_ticks v) rb < budget" "elapsed_ms ctx (rv_ticks v + 1) ab < etm"
      using assms(4) [rule_format, of "rv_ticks v"] assms(4) [rule_format, of "rv_ticks v + 1"] assms(5) Cons.prems(4,5) by auto
    have "round_timeout ctx rb ab etm v budget = (None, v1) \<and> v1 = v\<lparr>rv_ticks := rv_ticks v1\<rparr> \<and> rv_ticks v1 \<le> rv_ticks v + 2"
      using False b by (auto simp: round_timeout_def v1_def not_le)
    then have v1: "round_timeout ctx rb ab etm v budget = (None, v1)" "rv_asm v1 = rv_asm v" "rv_meta v1 = rv_meta v" "rv_ticks v1 \<le> rv_ticks v + 2"
      by (metis, metis recv_state.select_convs(6) recv_state.surjective recv_state.update_convs(1),
          metis recv_state.select_convs(5) recv_state.surjective recv_state.update_convs(1), blast)
    have g1: "gathers meta ps S v1" using Cons.prems(1) v1(2,3) by (simp add: gathers_def)
    have ne: "f \<noteq> []" "fair_traffic (rc_msg_id ctx) ps pre" using Cons.prems(2) by (simp_all add: fair_traffic_Cons)
    note unf = append_Cons recv_round.simps(2) v1(1) prod.case option.case if_not_P [OF ne(1)]
    show ?thesis
    proof (cases "f \<in> set ps")
      case True
      then obtain k where k: "k < length ps" "f = ps ! k" by (metis in_set_conv_nth)
      note F = message_page_facts [OF assms(1) k(1)]
      have "message_pages (rv_meta v1) ps" "placed (rv_meta v1) ps S (rv_asm v1)" using g1 assms(1) by (auto simp: gathers_def)
      from place_page_message [OF this(1) k(1) this(2)]
      obtain a where a: "place_page f (rv_meta v1) (rv_asm v1) = Some (a, True)" "placed (rv_meta v1) ps (insert k S) a" using k(2) by blast
      have g2: "gathers meta ps (insert k S) (v1\<lparr>rv_asm := a\<rparr>)" using a(2) g1 by (auto simp: gathers_def)
      have mm: "\<forall>i < length ps. i \<in> insert k S \<or> ps ! i \<in> set pre"
        using Cons.prems(3) message_pages_distinct [OF assms(1) _ k(1)] k(2) by (metis insertCI set_ConsD)
      have "\<exists>v'. recv_round ctx rb ab etm (v1\<lparr>rv_asm := a\<rparr>) budget (pre @ rest) = Some (RoundOver, v') \<and> gathers meta ps {..<length ps} v'"
        by (rule Cons.IH [OF g2 ne(2) mm]) (use Cons.prems(4-6) v1(4) in auto)
      then show ?thesis using F assms(2,3) k(2) a(1) unfolding unf by simp
    next
      case other: False
      have m: "\<forall>i < length ps. i \<in> S \<or> ps ! i \<in> set pre" using Cons.prems(3) other by auto
      show ?thesis
      proof (cases "check_hb_id f")
        case True
        obtain hb1 where hb1: "heartbeat_deserialize (rv_hb v1) f = Some hb1" using heartbeat_deserialize_total by blast
        have w2: "w \<le> 2" using True Cons.prems(6) by simp
        obtain v2 b2 where h: "take_heartbeat ctx rb f (v1, budget) = Some (v2, b2)"
          by (cases "hb_matches hb1 (rv_meta v1)"; cases "rv_hb_seen v1") (simp_all add: take_heartbeat_def hb1 Let_def)
        have h2: "rv_asm v2 = rv_asm v1" "\<exists>q. rv_meta v2 = (rv_meta v1)\<lparr>cm_sequence := q\<rparr>" "rv_ticks v2 \<le> rv_ticks v1 + 1" "w \<le> b2"
          using h Cons.prems(5) w2
          by (auto simp: take_heartbeat_def hb1 kHbGraceMs_def Let_def intro: exI [of _ "cm_sequence (rv_meta v1)"] split: if_splits)
        have g2: "gathers meta ps S v2" using g1 h2(1,2) by (auto simp: gathers_def)
        have "\<exists>v'. recv_round ctx rb ab etm v2 b2 (pre @ rest) = Some (RoundOver, v') \<and> gathers meta ps {..<length ps} v'"
          by (rule Cons.IH [OF g2 ne(2) m]) (use Cons.prems(4,6) v1(4) h2(3,4) in auto)
        then show ?thesis using True h unfolding unf by simp
      next
        case False
        then have "\<not> check_id f (rc_msg_id ctx)" using other Cons.prems(2) by (simp add: fair_traffic_Cons)
        moreover have "\<exists>v'. recv_round ctx rb ab etm v1 budget (pre @ rest) = Some (RoundOver, v') \<and> gathers meta ps {..<length ps} v'"
          by (rule Cons.IH [OF g1 ne(2) m]) (use Cons.prems(4-6) v1(4) in auto)
        ultimately show ?thesis using False unfolding unf by simp
      qed
    qed
  qed
qed

text \<open>The whole message has been put together.\<close>

lemma gathered_bytes:
  assumes "gathers meta ps {..<length ps} v"
  shows "asm_bytes (rv_asm v) = concat ps"
proof -
  obtain bs where "length bs = length ps" "asm_bytes (rv_asm v) = concat bs" "\<forall>i < length ps. bs ! i = ps ! i"
    using assms by (auto simp: gathers_def placed_def)
  then show ?thesis by (metis nth_equalityI)
qed

lemma gathered_finish:
  assumes "message_pages meta ps" and "gathers meta ps {..<length ps} v" and "rc_want_payload ctx \<longrightarrow> \<not> wire_is_dzflat (concat ps)"
  shows "\<exists>v'. recv_finish ctx ab v = Some (Received (Deserialized (concat ps)), v') \<and> rv_inbox v' = rv_inbox v"
proof -
  have c: "recv_complete v" using gathers_complete [OF assms(1,2)] by simp
  have "length (asm_received (rv_asm v)) = unat (cm_page_cnt (rv_meta v)) + 1"
    using assms(1,2) by (auto simp: gathers_def placed_def message_pages_def)
  then obtain st where st: "record_fragment_gaps (rc_track ctx) (rv_stats v) (asm_received (rv_asm v)) (cm_page_cnt (rv_meta v)) True = Some st"
    using record_fragment_gaps_total by blast
  have d: "deliver ctx (asm_bytes (rv_asm v)) = Some (Some (Deserialized (concat ps)))"
    using assms(3) by (auto simp: deliver_def gathered_bytes [OF assms(2)])
  obtain s' where "send_ack (rc_ok ctx) (rc_junk ctx) (rc_me ctx) (rv_sock v) (rv_meta v) (rc_crc ctx (asm_bytes (rv_asm v)))
      (rv_feedback_ok v) (rv_lost v) (observed_rate (cm_total_size (rv_meta v)) (elapsed_ms ctx (rv_ticks v) ab)) = Some s'"
    using send_ack_acknowledges by blast
  then show ?thesis using c st d by (simp add: recv_finish_def Let_def)
qed

section \<open>The driver\<close>

lemma effective_tm_ge: "tm \<le> effective_tm glob cnt tm"
  by (auto simp: effective_tm_def Let_def)

lemma round_wait_ge: "10 \<le> calc_round_wait_ms glob cnt tm"
  by (auto simp: calc_round_wait_ms_def pages_wait_ms_def Let_def)

lemma all_pages_received:
  assumes "message_pages meta ps" and "cm_msg_id meta = rc_msg_id ctx" and "rc_msg_id ctx \<noteq> kRtpsHeartbeatMsgId"
    and "fair_traffic (rc_msg_id ctx) ps pre" and "set ps \<subseteq> set pre" and "in_time ctx pre" and "10 \<le> tm"
    and "rc_want_payload ctx \<longrightarrow> \<not> wire_is_dzflat (concat ps)"
  shows "\<exists>inbox s' fs'. recv_chunk_common_impl ctx tm (pre @ rest) s fs = Some (Received (Deserialized (concat ps)), inbox, s', fs')"
proof -
  define B where "B = 3 * length pre + 4"
  define w where "w = patience pre"
  have w: "w \<le> 10" "(\<exists>f \<in> set pre. check_hb_id f) \<longrightarrow> w \<le> 2" by (auto simp: w_def patience_def)
  have cl: "elapsed_ms ctx l (rc_clk ctx k) < w" if "l \<le> B" "k \<le> B" for l k
    using assms(6) that by (auto simp: in_time_def w_def B_def)
  have l0: "0 < length ps" using assms(1) by (simp add: message_pages_def meta_wf_def)
  have ne: "set pre \<inter> set ps \<noteq> {}" using l0 assms(5) by (metis inf.absorb2 length_greater_0_conv set_empty)
  have "\<forall>l \<le> B. elapsed_ms ctx l (rc_clk ctx 0) < tm" using cl [of _ 0] w(1) assms(7) by (metis le0 less_le_trans)
  moreover have "1 + length pre \<le> B" by (simp add: B_def)
  ultimately obtain q k t h hv us where f: "wait_first_data_chunk ctx (rc_clk ctx 0) tm 1 IpcRtpsHeartbeatMsg False (pre @ rest) =
        Some (FirstFound (meta\<lparr>cm_sequence := q\<rparr>) (ps ! k), t, h, hv, us @ rest)" "k < length ps" "suffix us pre"
      "set pre \<inter> set ps \<subseteq> insert (ps ! k) (set us)" "t + length us \<le> 1 + length pre"
    using first_page_found [OF assms(1-4) ne, of B "rc_clk ctx 0" tm 1 IpcRtpsHeartbeatMsg False rest] by blast
  let ?m = "meta\<lparr>cm_sequence := q\<rparr>" and ?p = "ps ! k"
  have mp: "message_pages ?m ps" using assms(1) by simp
  show ?thesis
  proof (cases "cm_page_cnt meta = 1")
    case True
    then have "length ps = 1" using assms(1) by (simp add: message_pages_def)
    then have ps: "ps = [?p]" using f(2) by (cases ps) auto
    then have len: "length ?p = unat (cm_total_size meta)" using pages_total [OF assms(1)] by (metis concat.simps append_Nil2)
    have d: "deliver ctx ?p = Some (Some (Deserialized ?p))"
      using assms(8) ps by (metis concat.simps append_Nil2 deliver_def)
    obtain s' where "send_ack (rc_ok ctx) (rc_junk ctx) (rc_me ctx) s ?m (rc_crc ctx ?p) (hv \<and> hb_matches h ?m \<and> hb_flag h kFlagRateFeedback) 0 0 = Some s'"
      using send_ack_acknowledges by blast
    then have "recv_single ctx ?m ?p h hv s = Some (Received (Deserialized ?p), s')"
      using d len by (simp add: recv_single_def)
    moreover have "concat ps = ?p" using ps by (metis concat.simps append_Nil2)
    ultimately show ?thesis using f(1) True by (simp add: recv_chunk_common_impl_def)
  next
    case multi: False
    obtain a where a: "place_page ?p ?m (fresh_assembly ?m) = Some (a, True)" "placed ?m ps {k} a"
      using place_page_message [OF mp f(2) fresh_placed [OF mp]] by auto
    define etm where "etm = effective_tm (rc_glob ctx) (cm_page_cnt meta) tm"
    define wt where "wt = calc_round_wait_ms (rc_glob ctx) (cm_page_cnt meta) etm"
    define v0 where "v0 = start_assembly (t + 1) (us @ rest) s fs ?m h hv a"
    have v0: "rv_ticks v0 = t + 1" "rv_inbox v0 = us @ rest" "gathers meta ps {k} v0"
      using a(2) by (auto simp: v0_def start_assembly_def gathers_def Let_def)
    have tl: "t + 3 * length us + 2 \<le> B" "t + 1 \<le> B" using f(5) suffix_length_le [OF f(3)] by (auto simp: B_def)
    have "\<exists>v1. recv_rounds RTPS_MAX_NACK_ROUND ctx (rc_clk ctx t) etm wt v0 = Some (None, v1) \<and> gathers meta ps {..<length ps} v1"
    proof (cases "recv_complete v0")
      case True
      then have "{k} = {..<length ps}" using gathers_complete [OF assms(1) v0(3)] by simp
      then show ?thesis using True v0(3) by (simp add: RTPS_MAX_NACK_ROUND_def numeral_eq_Suc)
    next
      case False
      let ?v = "v0\<lparr>rv_ticks := rv_ticks v0 + 1, rv_hb_seen := False\<rparr>" and ?rb = "rc_clk ctx (rv_ticks v0)"
      have g: "gathers meta ps {k} ?v" using v0(3) by (simp add: gathers_def)
      have "fair_traffic (rc_msg_id ctx) ps us" using assms(4) set_mono_suffix [OF f(3)] by (auto simp: fair_traffic_def)
      moreover have "\<forall>i < length ps. i \<in> {k} \<or> ps ! i \<in> set us"
      proof (intro allI impI)
        fix i assume i: "i < length ps"
        then have "ps ! i \<in> set pre \<inter> set ps" using assms(5) by auto
        then have "ps ! i = ps ! k \<or> ps ! i \<in> set us" using f(4) by blast
        then show "i \<in> {k} \<or> ps ! i \<in> set us" using message_pages_distinct [OF assms(1) i f(2)] by blast
      qed
      moreover have "\<forall>l \<le> B. elapsed_ms ctx l ?rb < w \<and> elapsed_ms ctx l (rc_clk ctx t) < w"
        using cl tl(2) v0(1) by simp
      moreover have "w \<le> etm" using w(1) assms(7) effective_tm_ge [of tm "rc_glob ctx" "cm_page_cnt meta"] by (simp add: etm_def)
      moreover have "rv_ticks ?v + 3 * length us \<le> B" using tl(1) v0(1) by simp
      moreover have "w \<le> wt" using w(1) round_wait_ge [of "rc_glob ctx" "cm_page_cnt meta" etm] by (simp add: wt_def)
      moreover have "(\<exists>f \<in> set us. check_hb_id f) \<longrightarrow> w \<le> 2" using w(2) set_mono_suffix [OF f(3)] by blast
      ultimately obtain v1 where v1: "recv_round ctx ?rb (rc_clk ctx t) etm ?v wt (us @ rest) = Some (RoundOver, v1)" "gathers meta ps {..<length ps} v1"
        using recv_round_gathers [OF assms(1-3), of B ?rb w "rc_clk ctx t" etm "{k}" ?v us wt rest] g by blast
      have "recv_complete v1" using gathers_complete [OF assms(1) v1(2)] by simp
      then show ?thesis using False v1 v0(2) by (simp add: RTPS_MAX_NACK_ROUND_def numeral_eq_Suc)
    qed
    then obtain v1 where v1: "recv_rounds RTPS_MAX_NACK_ROUND ctx (rc_clk ctx t) etm wt v0 = Some (None, v1)" "gathers meta ps {..<length ps} v1" by blast
    obtain v2 where "recv_finish ctx (rc_clk ctx t) v1 = Some (Received (Deserialized (concat ps)), v2)" using gathered_finish [OF assms(1) v1(2) assms(8)] by blast
    then show ?thesis using f(1) a(1) multi v1(1) by (simp add: recv_chunk_common_impl_def etm_def wt_def v0_def Let_def)
  qed
qed

section \<open>What a best-effort send puts on the network\<close>

text \<open>The datagrams that a send added to those sent before, and that a reader gets all of them that are of the type \<open>i\<close>.\<close>

definition sent_between :: "sender \<Rightarrow> sender \<Rightarrow> bytes list" where
  "sent_between sn sn' = drop (length (sk_out (sd_sock sn))) (sk_out (sd_sock sn'))"

definition all_arrive :: "u32 \<Rightarrow> bytes list \<Rightarrow> bytes list \<Rightarrow> bool" where
  "all_arrive i sent pre \<longleftrightarrow> (\<forall>f \<in> set sent. check_id f i \<longrightarrow> f \<in> set pre) \<and> (\<forall>f \<in> set pre. f \<noteq> [] \<and> (check_id f i \<longrightarrow> f \<in> set sent))"

lemma send_heartbeat_out:
  "\<exists>s' fs. send_heartbeat ok junk me s meta reliable final_hb rnd = Some s' \<and> sk_out s' = sk_out s @ fs \<and> (\<forall>f \<in> set fs. check_hb_id f)"
proof -
  define hb where "hb = IpcRtpsHeartbeatMsg\<lparr>hb_page_cnt := cm_page_cnt meta, hb_total_size := cm_total_size meta,
    hb_data_msg_id := cm_msg_id meta, hb_sender_id := me, hb_sequence := cm_sequence meta,
    hb_flags := (if reliable then kFlagReliable else 0) OR (if final_hb then kFlagFinal else 0)
      OR kFlagBitmapNack OR kFlagRateFeedback,
    hb_round := rnd\<rparr>"
  define w where "w = wire (hb_base hb) (concat (hb_fields hb))"
  obtain b s' where s: "send_chunk_with_retry ok s w = (b, s')" by fastforce
  have "check_hb_id w" by (simp add: w_def check_hb_id_def check_id_wire hb_def IpcRtpsHeartbeatMsg_def msg_base_init_def)
  moreover have "send_heartbeat ok junk me s meta reliable final_hb rnd = Some s'"
    using s by (simp add: send_heartbeat_def heartbeat_serialize_wire flip: hb_def) (simp add: w_def)
  ultimately show ?thesis using send_chunk_with_retry_out [OF s] by (auto split: if_splits)
qed

lemma all_taken: "\<forall>k. ok k \<Longrightarrow> fst (send_from ok el rl i prev sent s cs)"
proof (induction cs arbitrary: i prev sent s)
  case (Cons c cs)
  have one: "SEND_RETRY_MAX = Suc 9" by (simp add: SEND_RETRY_MAX_def)
  have "fst (send_chunk_with_retry ok s c)"
    using Cons.prems unfolding send_chunk_with_retry_def one send_attempts.simps by (simp add: node_send_def)
  then obtain s' where "send_chunk_with_retry ok s c = (True, s')" by (metis prod.collapse)
  then show ?case using Cons.IH [OF Cons.prems] by (simp add: Let_def split_beta)
qed simp

lemma chunk_send_out:
  assumes "phys (length d) + 12 \<le> MAX_RECV_TOTAL_SIZE"
  shows "\<exists>ok sn' rest fs. chunk_send fuel ctx (wire m d) sn inbox = Some (ok, sn', rest) \<and> sk_out (sd_sock sn') = sk_out (sd_sock sn) @ fs \<and>
    (\<forall>f \<in> set fs. f \<in> set (wire_pages m d) \<or> check_hb_id f) \<and> (ok \<longrightarrow> set (wire_pages m d) \<subseteq> set fs) \<and> ((\<forall>k. sc_ok ctx k) \<longrightarrow> ok)"
proof -
  let ?opts = "SocketSendOptions\<lparr>so_delivery := BestEffort, so_integrity := IntegrityNone\<rparr>"
  let ?meta = "wire_meta m (length d) 0" and ?ps = "wire_pages m d"
  have mp: "message_pages ?meta ?ps" by (rule wire_pages_message [OF assms(1)])
  then have n: "length ?ps = unat (cm_page_cnt ?meta)" "meta_wf ?meta" "?ps \<noteq> []"
    by (auto simp: message_pages_def meta_wf_def)
  have t: "parse_tail (hd ?ps) = Some (page_tail ?meta 0)"
    using mp n(3) unfolding message_pages_def by (metis hd_conv_nth length_greater_0_conv)
  have v: "valid_chunk_meta (page_tail ?meta 0)" "unat (tm_page_cnt (page_tail ?meta 0)) = length ?ps"
    using n by (auto simp: valid_chunk_meta_def page_tail_def meta_wf_def udp_consts)
  have "12 \<le> length (wire m d)" by simp
  then have l: "\<not> (wire m d = [] \<or> length (wire m d) < TAIL_SIZE)" by (auto simp: TAIL_SIZE_def simp del: length_wire)
  define sq where "sq = meta_of_tail (page_tail ?meta 0) (sd_counter sn)"
  obtain rl rate where er: "effective_rate_bps (sc_glob ctx) (sd_rate sn) (so_rate_limit_bps ?opts) = (rl, rate)" by fastforce
  obtain sent s2 pauses where b: "send_all_chunks (sc_ok ctx) (sc_burst_us ctx) (sd_sock sn) ?ps rl = (sent, s2, pauses)"
    using prod_cases3 by blast
  then obtain k where k: "k \<le> length ?ps" "sent \<longleftrightarrow> k = length ?ps" "sk_out s2 = sk_out (sd_sock sn) @ take k ?ps"
    using send_from_spec unfolding send_all_chunks_def by metis
  have all: "(\<forall>k. sc_ok ctx k) \<longrightarrow> sent"
    using b unfolding send_all_chunks_def by (metis all_taken fst_conv)
  have rl: "so_delivery ?opts = BestEffort" "so_integrity ?opts = IntegrityNone" "so_send_heartbeat ?opts" "so_rate_limit_bps ?opts = so_rate_limit_bps SocketSendOptions"
    by (simp_all add: SocketSendOptions_def)
  note unf = chunk_send_def chunk_send_ex_def if_not_P [OF l] correct_pages_wire option.case t Let_def
  show ?thesis
  proof (cases sent)
    case False
    then show ?thesis using k v all set_take_subset [of k ?ps]
      unfolding unf by (auto simp: report_ok_def Let_def er [unfolded rl] b rl)
  next
    case True
    obtain s3 fs where h: "(if kBestEffortHeartbeatMinPages \<le> cm_page_cnt sq then send_heartbeat (sc_ok ctx) (sc_junk ctx) (sc_me ctx) s2 sq False True 1
        else Some s2) = Some s3" "sk_out s3 = sk_out s2 @ fs" "\<forall>f \<in> set fs. check_hb_id f"
    proof (cases "kBestEffortHeartbeatMinPages \<le> cm_page_cnt sq")
      case True
      then show ?thesis using that send_heartbeat_out [of "sc_ok ctx" "sc_junk ctx" "sc_me ctx" s2 sq False True 1] by auto
    next
      case False
      then show ?thesis using that [of s2 "[]"] by simp
    qed
    then show ?thesis using k v True h(1) [unfolded sq_def]
      unfolding unf by (simp add: report_ok_def Let_def er [unfolded rl] b rl) (auto simp: ex_bool_eq)
  qed
qed

text \<open>So all pages of the message are among the datagrams that arrive, and nothing else of its type.\<close>

lemma sent_arrives:
  assumes "chunk_send fuel ctx (mc_serialize (generic_class junk) g) sn inbox = Some (True, sn', rest)" and "published_well g"
    and "all_arrive i (sent_between sn sn') pre" and "i = mb_msg_id (gm_base g)"
  shows "fair_traffic i (wire_pages (gm_base g) (message_bytes g)) pre" "set (wire_pages (gm_base g) (message_bytes g)) \<subseteq> set pre"
proof -
  let ?ps = "wire_pages (gm_base g) (message_bytes g)"
  have p: "phys (length (message_bytes g)) + 12 \<le> MAX_RECV_TOTAL_SIZE" using assms(2) by (simp add: published_well_def)
  have "\<exists>fs. sent_between sn sn' = fs \<and> (\<forall>f \<in> set fs. f \<in> set ?ps \<or> check_hb_id f) \<and> set ?ps \<subseteq> set fs"
    using chunk_send_out [OF p, of fuel ctx "gm_base g" sn inbox] assms(1)
    by (auto simp: sent_between_def generic_wire [OF assms(2)])
  then have f: "\<forall>f \<in> set (sent_between sn sn'). f \<in> set ?ps \<or> check_hb_id f" "set ?ps \<subseteq> set (sent_between sn sn')" by auto
  show "fair_traffic i ?ps pre" using f(1) assms(3) by (auto simp: fair_traffic_def all_arrive_def)
  have "check_id f i" if "f \<in> set ?ps" for f
    using page_check_id [OF wire_pages_message [OF p] that] assms(4) by (simp add: wire_meta_def)
  then show "set ?ps \<subseteq> set pre" using f(2) assms(3) by (auto simp: all_arrive_def)
qed

lemma sent_received:
  assumes "published_well g" and "i = mb_msg_id (gm_base g)" and "i \<noteq> kRtpsHeartbeatMsgId" and "rc_msg_id ctx = i"
    and "fair_traffic i (wire_pages (gm_base g) (message_bytes g)) pre" and "set (wire_pages (gm_base g) (message_bytes g)) \<subseteq> set pre"
    and "in_time ctx pre" and "10 \<le> tm"
  shows "\<exists>inbox s' fs'. recv_chunk_common_impl ctx tm (pre @ rest) s fs =
    Some (Received (Deserialized (concat (wire_pages (gm_base g) (message_bytes g)))), inbox, s', fs')"
proof -
  have "message_pages (wire_meta (gm_base g) (length (message_bytes g)) 0) (wire_pages (gm_base g) (message_bytes g))"
    using wire_pages_message assms(1) by (simp add: published_well_def)
  from all_pages_received [OF this _ _ _ assms(6-8)] show ?thesis
    using assms(2-5) published_reads_back(2) [OF assms(1)] by (simp add: wire_meta_def)
qed

end
