(* ===== verification/SocketServiceLaws.thy ===== *)
theory SocketServiceLaws
  imports SocketService SocketArrival
begin

text \<open>
  What a service over UDP promises: its handshake completes and notices when the peer leaves, a request that arrives is
  answered with the callback's response, and a call that succeeds has a response that was sent.
\<close>

section \<open>The frames of the handshake\<close>

definition hs_frame :: "bool \<Rightarrow> bool \<Rightarrow> byte \<Rightarrow> bytes \<Rightarrow> bool" where
  "hs_frame server run sig f \<longleftrightarrow> f \<noteq> [] \<and> check_host f = Some server \<and> check_cli f = Some (\<not> server) \<and>
     check_run_status f = Some run \<and> peek_path_state f = Some (path_state_of sig)"

lemma path_state_of_wf [simp]: "path_state_wf (path_state_of b)"
  by (simp add: path_state_wf_def)

lemma serialized_frame:
  assumes "im_path_state m = path_state_of sig" and "im_cli_flag m = (\<not> im_host_flag m)"
  shows "\<exists>f. init_serialize junk m = Some (m\<lparr>im_base := cut_base (im_base m) 4\<rparr>, f) \<and> hs_frame (im_host_flag m) (im_run_status m) sig f"
proof -
  obtain m2 f where f: "init_serialize junk m = Some (m2, f)" "check_host f = Some (im_host_flag m)" "check_cli f = Some (im_cli_flag m)"
      "check_run_status f = Some (im_run_status m)" "peek_path_state f = Some (im_path_state m)"
    using init_roundtrip [of m junk IpcPubSubIdInitMsg] assms(1) by auto
  have "f \<noteq> []" using f(2) by (auto simp: check_host_def raw_flag_def)
  then show ?thesis using f assms by (auto simp: hs_frame_def init_serialize_wire)
qed

lemma hs_frame_peer: "hs_frame server run sig f \<Longrightarrow> (if server then check_host else check_cli) f = Some True"
  "hs_frame server run sig f \<Longrightarrow> (if server then check_cli else check_host) f = Some False"
  by (auto simp: hs_frame_def)

lemma peek_total: "\<exists>p. peek_path_state f = Some p"
  by (auto simp: peek_path_state_def has_path_state_def pure_payload_size_def split: if_splits)

section \<open>The invariant of the handshake\<close>

definition hs_ok :: "bool \<Rightarrow> handshake \<Rightarrow> bool" where
  "hs_ok server k \<longleftrightarrow> im_host_flag (hk_msg k) = server \<and> im_cli_flag (hk_msg k) = (\<not> server) \<and> im_run_status (hk_msg k) \<and>
     im_path_state (hk_msg k) = (if hk_last k = 255 then Unknown else path_state_of (hk_last k)) \<and>
     (hk_last k \<noteq> 255 \<longrightarrow> hs_frame server True (hk_last k) (hk_frame k)) \<and> hk_tries k \<le> 10 \<and>
     (hk_completed k \<longleftrightarrow> hk_state k = StopHS)"

lemma refreshed:
  assumes "hs_ok server k" and "sig \<noteq> 255"
  shows "\<exists>m f. refresh_out_frame junk sig k = Some (k\<lparr>hk_msg := m, hk_frame := f, hk_last := sig\<rparr>) \<and>
    hs_ok server (k\<lparr>hk_msg := m, hk_frame := f, hk_last := sig\<rparr>) \<and> hs_frame server True sig f"
proof (cases "sig = hk_last k")
  case True
  then show ?thesis
    using assms by (intro exI [of _ "hk_msg k"] exI [of _ "hk_frame k"]) (simp add: refresh_out_frame_def hs_ok_def)
next
  case False
  let ?m = "(hk_msg k)\<lparr>im_path_state := path_state_of sig\<rparr>"
  obtain f where f: "init_serialize junk ?m = Some (?m\<lparr>im_base := cut_base (im_base ?m) 4\<rparr>, f)" "hs_frame server True sig f"
    using serialized_frame [of ?m sig junk] assms by (auto simp: hs_ok_def)
  then show ?thesis
    using False assms by (intro exI [of _ "?m\<lparr>im_base := cut_base (im_base ?m) 4\<rparr>"] exI [of _ f]) (simp add: refresh_out_frame_def hs_ok_def)
qed

text \<open>What a round may meet: signals that are states of the negotiation, and frames of at least three bytes, or none.\<close>

definition sane :: "hs_input \<Rightarrow> bool" where
  "sane i \<longleftrightarrow> hi_signal i \<noteq> 255 \<and> hi_signal2 i \<noteq> 255 \<and> (hi_frame i = [] \<or> 3 \<le> length (hi_frame i))"

lemma flags_total:
  assumes "3 \<le> length f"
  shows "\<exists>b. check_host f = Some b" "\<exists>b. check_cli f = Some b" "\<exists>b. check_run_status f = Some b"
  using assms by (auto simp: check_host_def check_cli_def check_run_status_def raw_flag_def)

definition is_peer :: "bool \<Rightarrow> bytes \<Rightarrow> bool option" where
  "is_peer server = (if server then check_cli else check_host)"

lemma is_peer_total: "3 \<le> length f \<Longrightarrow> \<exists>b. is_peer server f = Some b"
  using flags_total by (simp add: is_peer_def)

lemma silence_ok: "hs_ok server k \<Longrightarrow> hs_ok server (hs_silence i k)"
  by (auto simp: hs_silence_def hs_ok_def)

lemma watch_ok:
  assumes "hs_ok server k" and "sane i"
  shows "\<exists>k'. hs_watch (is_peer server) i k = Some k' \<and> hs_ok server k'"
proof (cases "hi_frame i = []")
  case True
  then show ?thesis using assms silence_ok by (auto simp: hs_watch_def)
next
  case False
  then have l: "3 \<le> length (hi_frame i)" using assms(2) by (auto simp: sane_def)
  obtain b r p where b: "is_peer server (hi_frame i) = Some b" "check_run_status (hi_frame i) = Some r" "peek_path_state (hi_frame i) = Some p"
    using is_peer_total [OF l] flags_total(3) [OF l] peek_total by meson
  let ?k = "k\<lparr>hk_seen := True, hk_heard := hi_now i, hk_peer := path_state_byte p\<rparr>"
  have "hs_ok server ?k" "hs_ok server (?k\<lparr>hk_completed := False, hk_state := RunHS\<rparr>)" using assms(1) by (simp_all add: hs_ok_def)
  then show ?thesis using False b silence_ok [OF assms(1), of i] silence_ok [of server ?k i] by (auto simp: hs_watch_def Let_def)
qed

lemma meet_ok:
  assumes "hs_ok server k" and "sane i"
  shows "\<exists>b p. hs_meet (is_peer server) i k = Some (b, k\<lparr>hk_peer := p\<rparr>) \<and> hs_ok server (k\<lparr>hk_peer := p\<rparr>)"
proof (cases "hi_frame i = []")
  case True
  then show ?thesis using assms by (intro exI [of _ False] exI [of _ "hk_peer k"]) (simp add: hs_meet_def)
next
  case False
  then have l: "3 \<le> length (hi_frame i)" using assms(2) by (auto simp: sane_def)
  obtain b r p where b: "is_peer server (hi_frame i) = Some b" "check_run_status (hi_frame i) = Some r" "peek_path_state (hi_frame i) = Some p"
    using is_peer_total [OF l] flags_total(3) [OF l] peek_total by meson
  then show ?thesis
    using False assms(1) by (intro exI [of _ "b \<and> r"] exI [of _ "path_state_byte p"]) (simp add: hs_meet_def hs_ok_def Let_def)
qed

lemma stopped_ok:
  assumes "hs_ok server k" and "sane i"
  shows "\<exists>fs k'. hs_stopped junk (is_peer server) i k = Some (fs, k') \<and> hs_ok server k' \<and> (\<forall>f \<in> set fs. hs_frame server True (hi_signal2 i) f)"
proof -
  obtain m f where r: "refresh_out_frame junk (hi_signal2 i) k = Some (k\<lparr>hk_msg := m, hk_frame := f, hk_last := hi_signal2 i\<rparr>)"
      "hs_ok server (k\<lparr>hk_msg := m, hk_frame := f, hk_last := hi_signal2 i\<rparr>)" "hs_frame server True (hi_signal2 i) f"
    using refreshed [OF assms(1), of "hi_signal2 i" junk] assms(2) by (auto simp: sane_def)
  then show ?thesis using watch_ok [OF r(2) assms(2)] by (auto simp: hs_stopped_def)
qed

definition hs_round :: "(nat \<Rightarrow> byte) \<Rightarrow> bool \<Rightarrow> hs_input \<Rightarrow> handshake \<Rightarrow> (bytes list \<times> handshake) option" where
  "hs_round junk server = (if server then server_handshake junk else client_handshake junk)"

lemma hs_send_tries: "snd (hs_send n sends j) \<le> 10"
  by (induction n arbitrary: j) auto

lemma hs_round_ok:
  assumes "hs_ok server k" and "sane i"
  shows "\<exists>fs k'. hs_round junk server i k = Some (fs, k') \<and> hs_ok server k' \<and>
    (\<forall>f \<in> set fs. \<exists>sig \<in> {hi_signal i, hi_signal2 i}. hs_frame server True sig f)"
proof -
  obtain m f where r: "refresh_out_frame junk (hi_signal i) k = Some (k\<lparr>hk_msg := m, hk_frame := f, hk_last := hi_signal i\<rparr>)"
      "hs_ok server (k\<lparr>hk_msg := m, hk_frame := f, hk_last := hi_signal i\<rparr>)" "hs_frame server True (hi_signal i) f"
    using refreshed [OF assms(1), of "hi_signal i" junk] assms(2) by (auto simp: sane_def)
  let ?k = "k\<lparr>hk_msg := m, hk_frame := f, hk_last := hi_signal i\<rparr>"
  obtain b p where m: "hs_meet (is_peer server) i ?k = Some (b, ?k\<lparr>hk_peer := p\<rparr>)" "hs_ok server (?k\<lparr>hk_peer := p\<rparr>)"
    using meet_ok [OF r(2) assms(2)] by blast
  obtain sent tries where t: "hs_send (10 - hk_tries k) (hi_sends i) 0 = (sent, tries)" by fastforce
  then have tr: "tries \<le> 10" using hs_send_tries by (metis snd_conv)
  show ?thesis
  proof (cases "hk_state k = StopHS")
    case True
    then show ?thesis
      using r stopped_ok [OF r(2) assms(2), of junk]
      by (auto simp: hs_round_def server_handshake_def client_handshake_def is_peer_def)
  next
    case False
    let ?q = "?k\<lparr>hk_peer := p\<rparr>"
    have q: "hs_ok server (?q\<lparr>hk_completed := True, hk_state := StopHS\<rparr>)" "hs_ok server (?q\<lparr>hk_tries := tries\<rparr>)"
        "hs_ok server (?q\<lparr>hk_tries := tries, hk_completed := True, hk_state := StopHS\<rparr>)" "hk_state ?k \<noteq> StopHS"
      using m(2) tr False by (simp_all add: hs_ok_def)
    show ?thesis
    proof (cases server)
      case True
      then show ?thesis using r m q by (auto simp: hs_round_def server_handshake_def is_peer_def)
    next
      case client: False
      then show ?thesis using r m q t by (auto simp: hs_round_def client_handshake_def is_peer_def Let_def)
    qed
  qed
qed

primrec hs_run :: "(nat \<Rightarrow> byte) \<Rightarrow> bool \<Rightarrow> hs_input list \<Rightarrow> handshake \<Rightarrow> (bytes list \<times> handshake) option" where
  "hs_run junk server [] k = Some ([], k)"
| "hs_run junk server (i # is) k =
     do { (fs, k) \<leftarrow> hs_round junk server i k; (gs, k) \<leftarrow> hs_run junk server is k; Some (fs @ gs, k) }"

lemma run_ok:
  "hs_ok server k \<Longrightarrow> \<forall>i \<in> set is. sane i \<Longrightarrow> \<exists>fs k'. hs_run junk server is k = Some (fs, k') \<and> hs_ok server k' \<and>
    (\<forall>f \<in> set fs. \<exists>i \<in> set is. \<exists>sig \<in> {hi_signal i, hi_signal2 i}. hs_frame server True sig f)"
proof (induction "is" arbitrary: k)
  case Nil
  then show ?case by simp
next
  case (Cons i xs)
  obtain fs k1 where r: "hs_round junk server i k = Some (fs, k1)" "hs_ok server k1"
      "\<forall>f \<in> set fs. \<exists>sig \<in> {hi_signal i, hi_signal2 i}. hs_frame server True sig f"
    using hs_round_ok [of server k i junk] Cons.prems by auto
  obtain gs k2 where s: "hs_run junk server xs k1 = Some (gs, k2)" "hs_ok server k2"
      "\<forall>f \<in> set gs. \<exists>i \<in> set xs. \<exists>sig \<in> {hi_signal i, hi_signal2 i}. hs_frame server True sig f"
    using Cons.IH [OF r(2)] Cons.prems(2) by auto
  have "\<forall>f \<in> set (fs @ gs). \<exists>i \<in> set (i # xs). \<exists>sig \<in> {hi_signal i, hi_signal2 i}. hs_frame server True sig f"
    using r(3) s(3) by auto
  then show ?case using r(1) s(1,2) by (intro exI [of _ "fs @ gs"] exI [of _ k2]) simp
qed

lemma start_ok:
  assumes "sig \<noteq> 255"
  shows "\<exists>k. handshake_start junk server sig now = Some k \<and> hs_ok server k \<and> hk_state k = RunHS \<and> \<not> hk_completed k"
proof -
  let ?k = "\<lparr>hk_msg = IpcPubSubIdInitMsg\<lparr>im_host_flag := server, im_cli_flag := \<not> server\<rparr>, hk_frame = [], hk_last = 255,
        hk_state = RunHS, hk_seen = False, hk_heard = now, hk_tries = 0, hk_completed = False, hk_peer = 0\<rparr>"
  have "hs_ok server ?k" by (simp add: hs_ok_def IpcPubSubIdInitMsg_def)
  then show ?thesis using refreshed [of server ?k sig junk] assms by (auto simp: handshake_start_def)
qed

text \<open>
  Whatever arrives in frames of three bytes and more, however sends fail and clocks run: the threads of the
  handshake go on, every frame they send names its end, says that it lives and carries a signal of the end, and the
  handshake counts as complete exactly while the thread watches its peer.
\<close>

theorem handshake_runs:
  assumes "sig \<noteq> 255" and "\<forall>i \<in> set is. sane i"
  shows "\<exists>k0 fs k. handshake_start junk server sig now = Some k0 \<and> hs_run junk server is k0 = Some (fs, k) \<and>
    (hk_completed k \<longleftrightarrow> hk_state k = StopHS) \<and>
    (\<forall>f \<in> set fs. \<exists>i \<in> set is. \<exists>sig \<in> {hi_signal i, hi_signal2 i}. hs_frame server True sig f)"
proof -
  obtain k0 where k0: "handshake_start junk server sig now = Some k0" "hs_ok server k0" using start_ok [OF assms(1)] by blast
  obtain fs k where "hs_run junk server is k0 = Some (fs, k)" "hs_ok server k"
      "\<forall>f \<in> set fs. \<exists>i \<in> set is. \<exists>sig \<in> {hi_signal i, hi_signal2 i}. hs_frame server True sig f"
    using run_ok [OF k0(2) assms(2)] by blast
  then show ?thesis using k0(1) by (simp add: hs_ok_def)
qed

text \<open>A frame of one byte is read past its end.\<close>

lemma short_frame_overrun:
  assumes "hs_ok server k" and "hi_signal i \<noteq> 255" and "hk_state k = RunHS" and "hi_sends i 0" and "hi_frame i = [x]"
  shows "server_handshake junk i k = None"
proof -
  obtain m f where r: "refresh_out_frame junk (hi_signal i) k = Some (k\<lparr>hk_msg := m, hk_frame := f, hk_last := hi_signal i\<rparr>)"
    using refreshed [OF assms(1,2)] by blast
  show ?thesis
    using assms(3-5)
    by (simp add: server_handshake_def r hs_meet_def check_cli_def raw_flag_def peek_path_state_def has_path_state_def pure_payload_size_def Let_def)
qed

section \<open>Completing the handshake\<close>

lemma hs_send_succeeds: "j \<le> m \<Longrightarrow> m \<le> j + n \<Longrightarrow> sends m \<Longrightarrow> fst (hs_send n sends j)"
proof (induction n arbitrary: j)
  case (Suc n)
  then show ?case using Suc.IH [of "Suc j"] by (cases "j = m") auto
qed (use le_antisym in fastforce)

lemma frame_met:
  assumes "hs_frame (\<not> server) True sig (hi_frame i)"
  shows "hs_meet (is_peer server) i k = Some (True, k\<lparr>hk_peer := sig\<rparr>)"
  using assms by (auto simp: hs_meet_def hs_frame_def is_peer_def Let_def)

lemma client_completes:
  assumes "hs_ok False k" and "hk_state k = RunHS" and "hs_frame True True sig (hi_frame i)" and "hi_signal i \<noteq> 255"
    and "m \<le> 10 - hk_tries k" and "hi_sends i m"
  shows "\<exists>f k'. client_handshake junk i k = Some ([f], k') \<and> hk_completed k' \<and> hk_peer k' = sig \<and> hs_frame False True (hi_signal i) f \<and> hs_ok False k'"
proof -
  obtain mm f where r: "refresh_out_frame junk (hi_signal i) k = Some (k\<lparr>hk_msg := mm, hk_frame := f, hk_last := hi_signal i\<rparr>)"
      "hs_ok False (k\<lparr>hk_msg := mm, hk_frame := f, hk_last := hi_signal i\<rparr>)" "hs_frame False True (hi_signal i) f"
    using refreshed [OF assms(1,4)] by blast
  obtain tries where t: "hs_send (10 - hk_tries k) (hi_sends i) 0 = (True, tries)"
    using hs_send_succeeds [of 0 m "10 - hk_tries k" "hi_sends i"] assms(5,6) by (metis le0 add_0 prod.collapse)
  have "tries \<le> 10" using hs_send_tries t by (metis snd_conv)
  then show ?thesis
    using r t assms(2) frame_met [of False sig i] assms(3)
    by (auto simp: client_handshake_def is_peer_def Let_def hs_ok_def)
qed

lemma server_completes:
  assumes "hs_ok True k" and "hk_state k = RunHS" and "hs_frame False True sig (hi_frame i)" and "hi_signal i \<noteq> 255" and "hi_sends i 0"
  shows "\<exists>f k'. server_handshake junk i k = Some ([f], k') \<and> hk_completed k' \<and> hk_peer k' = sig \<and> hs_frame True True (hi_signal i) f \<and> hs_ok True k'"
proof -
  obtain mm f where r: "refresh_out_frame junk (hi_signal i) k = Some (k\<lparr>hk_msg := mm, hk_frame := f, hk_last := hi_signal i\<rparr>)"
      "hs_ok True (k\<lparr>hk_msg := mm, hk_frame := f, hk_last := hi_signal i\<rparr>)" "hs_frame True True (hi_signal i) f"
    using refreshed [OF assms(1,4)] by blast
  show ?thesis
    using r assms(2,5) frame_met [of True sig i] assms(3)
    by (auto simp: server_handshake_def is_peer_def Let_def hs_ok_def)
qed

text \<open>
  C27. A server and a client that are not connected complete their handshake with two frames: the client when it meets
  the server's frame and one of its sends succeeds, the server when it meets the client's. Each then knows the other's signal.
\<close>

theorem handshake_completes:
  assumes "hs_ok True s" and "hk_state s = RunHS" and "hs_ok False c" and "hk_state c = RunHS"
    and "server_handshake junk i s = Some ([f], s1)" and "hk_state s1 = RunHS" and "sane i"
    and "hi_frame j = f" and "hi_signal j \<noteq> 255" and "n \<le> 10 - hk_tries c" and "hi_sends j n"
  shows "\<exists>g c1. client_handshake junk j c = Some ([g], c1) \<and> hk_completed c1 \<and> hk_peer c1 = hi_signal i \<and>
    (\<forall>i'. hi_frame i' = g \<and> hi_signal i' \<noteq> 255 \<and> hi_sends i' 0 \<longrightarrow>
       (\<exists>f' s2. server_handshake junk i' s1 = Some ([f'], s2) \<and> hk_completed s2 \<and> hk_peer s2 = hi_signal j))"
proof -
  have i: "hi_signal i \<noteq> 255" using assms(7) by (simp add: sane_def)
  obtain m f0 where r: "refresh_out_frame junk (hi_signal i) s = Some (s\<lparr>hk_msg := m, hk_frame := f0, hk_last := hi_signal i\<rparr>)"
      "hs_frame True True (hi_signal i) f0"
    using refreshed [OF assms(1) i] by blast
  have f: "f = f0" using assms(2,5) r(1) by (auto simp: server_handshake_def split: if_splits bind_splits)
  have ok: "hs_ok True s1" using hs_round_ok [OF assms(1,7), of junk] assms(5) by (auto simp: hs_round_def)
  obtain g c1 where c: "client_handshake junk j c = Some ([g], c1)" "hk_completed c1" "hk_peer c1 = hi_signal i" "hs_frame False True (hi_signal j) g"
    using client_completes [OF assms(3,4) _ assms(9-11), of "hi_signal i" junk] assms(8) r(2) f by auto
  show ?thesis using c server_completes [OF ok assms(6)] by blast
qed

section \<open>Watching the peer\<close>

lemma watched:
  assumes "hs_ok server k" and "hk_state k = StopHS" and "sane i" and "hi_sends i 0"
    and "from_peer = (hi_frame i \<noteq> [] \<and> is_peer server (hi_frame i) = Some True)"
    and "heard = (if from_peer then hi_now i else hk_heard k)"
  shows "\<exists>f k'. hs_round junk server i k = Some ([f], k') \<and> hs_frame server True (hi_signal2 i) f \<and>
    hs_ok server k' \<and>
    (hk_completed k' \<longleftrightarrow> (from_peer \<longrightarrow> check_run_status (hi_frame i) = Some True) \<and>
       \<not> (hi_running i \<and> (from_peer \<or> hk_seen k) \<and> 1500000000 < hi_now2 i - heard)) \<and>
    (hk_completed k' \<longrightarrow> (hk_seen k' \<longleftrightarrow> from_peer \<or> hk_seen k) \<and> hk_heard k' = heard)"
proof -
  have sig: "hi_signal i \<noteq> 255" "hi_signal2 i \<noteq> 255" using assms(3) by (simp_all add: sane_def)
  obtain m1 f1 where r1: "refresh_out_frame junk (hi_signal i) k = Some (k\<lparr>hk_msg := m1, hk_frame := f1, hk_last := hi_signal i\<rparr>)"
      "hs_ok server (k\<lparr>hk_msg := m1, hk_frame := f1, hk_last := hi_signal i\<rparr>)"
    using refreshed [OF assms(1) sig(1)] by blast
  let ?k1 = "k\<lparr>hk_msg := m1, hk_frame := f1, hk_last := hi_signal i\<rparr>"
  obtain m2 f2 where r2: "refresh_out_frame junk (hi_signal2 i) ?k1 = Some (?k1\<lparr>hk_msg := m2, hk_frame := f2, hk_last := hi_signal2 i\<rparr>)"
      "hs_ok server (?k1\<lparr>hk_msg := m2, hk_frame := f2, hk_last := hi_signal2 i\<rparr>)" "hs_frame server True (hi_signal2 i) f2"
    using refreshed [OF r1(2) sig(2)] by blast
  let ?k2 = "?k1\<lparr>hk_msg := m2, hk_frame := f2, hk_last := hi_signal2 i\<rparr>"
  have cp: "hk_completed k" using assms(1,2) by (simp add: hs_ok_def)
  obtain kw where kw: "hs_watch (is_peer server) i ?k2 = Some kw" "hs_ok server kw" using watch_ok [OF r2(2) assms(3)] by blast
  have "\<exists>k'. hs_watch (is_peer server) i ?k2 = Some k' \<and>
      (hk_completed k' \<longleftrightarrow> (from_peer \<longrightarrow> check_run_status (hi_frame i) = Some True) \<and>
         \<not> (hi_running i \<and> (from_peer \<or> hk_seen k) \<and> 1500000000 < hi_now2 i - heard)) \<and>
      (hk_completed k' \<longrightarrow> (hk_seen k' \<longleftrightarrow> from_peer \<or> hk_seen k) \<and> hk_heard k' = heard)"
  proof (cases "hi_frame i = []")
    case True
    then show ?thesis using assms(5,6) cp by (auto simp: hs_watch_def hs_silence_def kPeerSilentTimeoutNs_def)
  next
    case False
    then have l: "3 \<le> length (hi_frame i)" using assms(3) by (auto simp: sane_def)
    obtain b r p where b: "is_peer server (hi_frame i) = Some b" "check_run_status (hi_frame i) = Some r" "peek_path_state (hi_frame i) = Some p"
      using is_peer_total [OF l] flags_total(3) [OF l] peek_total by meson
    then show ?thesis
      using False assms(5,6) cp by (cases b) (auto simp: hs_watch_def hs_silence_def kPeerSilentTimeoutNs_def Let_def)
  qed
  then show ?thesis
    using kw r1(1) r2(1,3) assms(2,4)
    by (auto simp: hs_round_def server_handshake_def client_handshake_def hs_stopped_def is_peer_def)
qed

text \<open>A round whose send fails looks at no frame. One that finds the end able to send but not its clock may hear nothing.\<close>

lemma unheard:
  assumes "hs_ok server k" and "hk_state k = StopHS" and "sane i" and "\<not> hi_sends i 0"
  shows "\<exists>k'. hs_round junk server i k = Some ([], k') \<and> hs_ok server k' \<and> hk_completed k' \<and> hk_seen k' = hk_seen k \<and> hk_heard k' = hk_heard k"
proof -
  have sig: "hi_signal i \<noteq> 255" "hi_signal2 i \<noteq> 255" using assms(3) by (simp_all add: sane_def)
  obtain m1 f1 where r1: "refresh_out_frame junk (hi_signal i) k = Some (k\<lparr>hk_msg := m1, hk_frame := f1, hk_last := hi_signal i\<rparr>)"
      "hs_ok server (k\<lparr>hk_msg := m1, hk_frame := f1, hk_last := hi_signal i\<rparr>)"
    using refreshed [OF assms(1) sig(1)] by blast
  obtain m2 f2 where r2: "refresh_out_frame junk (hi_signal2 i) (k\<lparr>hk_msg := m1, hk_frame := f1, hk_last := hi_signal i\<rparr>) =
      Some (k\<lparr>hk_msg := m2, hk_frame := f2, hk_last := hi_signal2 i\<rparr>)" "hs_ok server (k\<lparr>hk_msg := m2, hk_frame := f2, hk_last := hi_signal2 i\<rparr>)"
    using refreshed [OF r1(2) sig(2), of junk] by auto
  then show ?thesis
    using r1(1) assms(1,2,4) by (auto simp: hs_round_def server_handshake_def client_handshake_def hs_stopped_def hs_ok_def)
qed

text \<open>
  \<open>from_peer\<close>: a round that receives a frame of the peer; \<open>farewell\<close>: the frame says that the peer leaves;
  \<open>live\<close>: that it lives. \<open>last_heard\<close> is the time of the last frame of the peer in a sequence of rounds, and
  \<open>kept\<close> that in none of the rounds the peer left, nor was silent for more than one and a half seconds since it
  was last heard in these rounds.
\<close>

definition from_peer :: "bool \<Rightarrow> hs_input \<Rightarrow> bool" where
  "from_peer server i \<longleftrightarrow> hi_sends i 0 \<and> hi_frame i \<noteq> [] \<and> is_peer server (hi_frame i) = Some True"

definition farewell :: "bool \<Rightarrow> hs_input \<Rightarrow> bool" where
  "farewell server i \<longleftrightarrow> from_peer server i \<and> check_run_status (hi_frame i) = Some False"

definition live :: "bool \<Rightarrow> hs_input \<Rightarrow> bool" where
  "live server i \<longleftrightarrow> from_peer server i \<and> check_run_status (hi_frame i) = Some True"

definition last_heard :: "bool \<Rightarrow> hs_input list \<Rightarrow> nat option" where
  "last_heard server is = (case filter (from_peer server) (rev is) of [] \<Rightarrow> None | i # _ \<Rightarrow> Some (hi_now i))"

definition silent :: "bool \<Rightarrow> hs_input list \<Rightarrow> hs_input \<Rightarrow> bool" where
  "silent server before i \<longleftrightarrow> hi_running i \<and> hi_sends i 0 \<and>
     (\<exists>t. last_heard server (before @ [i]) = Some t \<and> t + 1500000000 < hi_now2 i)"

definition kept :: "bool \<Rightarrow> hs_input list \<Rightarrow> bool" where
  "kept server is \<longleftrightarrow> (\<forall>us i vs. is = us @ i # vs \<longrightarrow> \<not> farewell server i \<and> \<not> silent server us i)"

lemma last_heard_nil [simp]: "last_heard server [] = None"
  by (simp add: last_heard_def)

lemma last_heard_snoc [simp]: "last_heard server (is @ [i]) = (if from_peer server i then Some (hi_now i) else last_heard server is)"
  by (simp add: last_heard_def)

lemma kept_nil [simp]: "kept server []"
  by (simp add: kept_def)

lemma kept_snoc [simp]: "kept server (is @ [i]) \<longleftrightarrow> kept server is \<and> \<not> farewell server i \<and> \<not> silent server is i"
proof
  assume k: "kept server (is @ [i])"
  have "\<not> farewell server j \<and> \<not> silent server us j" if "is = us @ j # vs" for us j vs
    using k [unfolded kept_def, rule_format, of us j "vs @ [i]"] that by simp
  then show "kept server is \<and> \<not> farewell server i \<and> \<not> silent server is i"
    using k [unfolded kept_def, rule_format, of "is" i "[]"] by (simp add: kept_def)
next
  assume k: "kept server is \<and> \<not> farewell server i \<and> \<not> silent server is i"
  show "kept server (is @ [i])"
    unfolding kept_def
  proof (intro allI impI)
    fix us j vs assume "is @ [i] = us @ j # vs"
    then show "\<not> farewell server j \<and> \<not> silent server us j"
      using k by (cases vs rule: rev_cases) (auto simp: kept_def)
  qed
qed

lemma hs_run_append:
  "hs_run junk server (xs @ ys) k = do { (fs, k) \<leftarrow> hs_run junk server xs k; (gs, k) \<leftarrow> hs_run junk server ys k; Some (fs @ gs, k) }"
  by (induction xs arbitrary: k) (auto split: bind_splits)

text \<open>As long as no peer leaves, an end that is not connected has marked none as heard.\<close>

lemma fresh_round:
  assumes "hs_ok server k" and "\<not> hk_completed k \<longrightarrow> \<not> hk_seen k" and "sane i" and "\<not> farewell server i"
    and "hs_round junk server i k = Some (fs, k')"
  shows "hs_ok server k' \<and> (\<not> hk_completed k' \<longrightarrow> \<not> hk_seen k')"
proof -
  have ok: "hs_ok server k'" using hs_round_ok [OF assms(1,3), of junk] assms(5) by auto
  have st: "hk_completed k \<longleftrightarrow> hk_state k = StopHS" using assms(1) by (simp add: hs_ok_def)
  have rc: "hk_completed k2 = hk_completed k1 \<and> hk_state k2 = hk_state k1 \<and> hk_seen k2 = hk_seen k1"
    if "refresh_out_frame junk sig k1 = Some k2" for sig k1 k2
    using that by (auto simp: refresh_out_frame_def split: if_splits bind_splits)
  have m: "hk_seen k2 = hk_seen k1" if "hs_meet p i k1 = Some (b, k2)" for p b k1 k2
    using that by (auto simp: hs_meet_def Let_def split: if_splits bind_splits)
  have w: "\<not> hk_completed k2 \<longrightarrow> \<not> hk_seen k2" if "hs_watch (is_peer server) i k1 = Some k2" "hk_completed k1" "hi_sends i 0" for k1 k2
    using that assms(4)
    by (auto simp: hs_watch_def hs_silence_def farewell_def from_peer_def Let_def split: if_splits bind_splits)
  show ?thesis
  proof (cases "hk_state k = StopHS")
    case True
    obtain k1 where k1: "refresh_out_frame junk (hi_signal i) k = Some k1" "hs_stopped junk (is_peer server) i k1 = Some (fs, k')"
      using assms(5) True rc
      by (cases server) (auto simp: hs_round_def server_handshake_def client_handshake_def is_peer_def split: bind_splits if_splits)
    obtain k2 where k2: "refresh_out_frame junk (hi_signal2 i) k1 = Some k2" "\<not> hi_sends i 0 \<and> k' = k2 \<or> hi_sends i 0 \<and> hs_watch (is_peer server) i k2 = Some k'"
      using k1(2) by (auto simp: hs_stopped_def split: bind_splits if_splits)
    have "hk_completed k2" using rc k1(1) k2(1) st True by blast
    then show ?thesis using ok k2(2) w by blast
  next
    case False
    then have s: "\<not> hk_seen k" using assms(2) st by blast
    have "\<not> hk_seen k'"
      using assms(5) s False
      by (cases server) (auto simp: hs_round_def server_handshake_def client_handshake_def Let_def split: bind_splits if_splits prod.splits dest!: rc m)
    then show ?thesis using ok by blast
  qed
qed

lemma fresh_run:
  "hs_ok server k \<Longrightarrow> (\<not> hk_completed k \<longrightarrow> \<not> hk_seen k) \<Longrightarrow> \<forall>i \<in> set is. sane i \<and> \<not> farewell server i \<Longrightarrow>
   hs_run junk server is k = Some (fs, k') \<Longrightarrow> hs_ok server k' \<and> (\<not> hk_completed k' \<longrightarrow> \<not> hk_seen k')"
proof (induction "is" arbitrary: k fs)
  case (Cons i xs)
  obtain gs hs k1 where "hs_round junk server i k = Some (gs, k1)" "hs_run junk server xs k1 = Some (hs, k')"
    using Cons.prems(4) by (auto split: bind_splits)
  then show ?case using Cons.IH [of k1] fresh_round [OF Cons.prems(1,2)] Cons.prems(3) by (metis list.set_intros)
qed simp

text \<open>Meeting a frame of a live peer completes the handshake of an end that can send.\<close>

lemma round_completes:
  assumes "hs_ok server k" and "\<not> hk_completed k" and "\<not> hk_seen k" and "sane j" and "live server j"
  shows "\<exists>fs k'. hs_round junk server j k = Some (fs, k') \<and> hs_ok server k' \<and> hk_completed k' \<and> \<not> hk_seen k'"
proof -
  have sig: "hi_signal j \<noteq> 255" using assms(4) by (simp add: sane_def)
  obtain m f where r: "refresh_out_frame junk (hi_signal j) k = Some (k\<lparr>hk_msg := m, hk_frame := f, hk_last := hi_signal j\<rparr>)"
    using refreshed [OF assms(1) sig] by blast
  have l: "hi_sends j 0" "hi_frame j \<noteq> []" "is_peer server (hi_frame j) = Some True" "check_run_status (hi_frame j) = Some True"
    using assms(5) by (auto simp: live_def from_peer_def)
  obtain p where p: "peek_path_state (hi_frame j) = Some p" using peek_total by blast
  have st: "hk_state k \<noteq> StopHS" using assms(1,2) by (auto simp: hs_ok_def)
  have snt: "fst (hs_send n (hi_sends j) 0)" for n using l(1) by (cases n) auto
  have "\<exists>fs k'. hs_round junk server j k = Some (fs, k') \<and> hk_completed k' \<and> \<not> hk_seen k'"
    using r l p st assms(3) snt [of "10 - hk_tries k"]
    by (cases server) (auto simp: hs_round_def server_handshake_def client_handshake_def hs_meet_def is_peer_def Let_def split: prod.split)
  then show ?thesis using hs_round_ok [OF assms(1,4), of junk] by fastforce
qed

text \<open>The rounds after it.\<close>

lemma kept_run:
  assumes "hs_ok server k" and "hk_completed k" and "\<not> hk_seen k"
  shows "\<forall>i \<in> set ys. sane i \<Longrightarrow> kept server (butlast ys) \<Longrightarrow>
    \<exists>gs k'. hs_run junk server ys k = Some (gs, k') \<and> hs_ok server k' \<and> (hk_completed k' \<longleftrightarrow> kept server ys) \<and>
      (kept server ys \<longrightarrow> (case last_heard server ys of None \<Rightarrow> \<not> hk_seen k' | Some t \<Rightarrow> hk_seen k' \<and> hk_heard k' = t))"
proof (induction ys rule: rev_induct)
  case Nil
  then show ?case using assms by simp
next
  case (snoc i ys)
  have kp: "kept server ys" using snoc.prems(2) by simp
  then have "kept server (butlast ys)" by (cases ys rule: rev_cases) auto
  then obtain gs k1 where k1: "hs_run junk server ys k = Some (gs, k1)" "hs_ok server k1" "hk_completed k1"
      "case last_heard server ys of None \<Rightarrow> \<not> hk_seen k1 | Some t \<Rightarrow> hk_seen k1 \<and> hk_heard k1 = t"
    using snoc.IH snoc.prems(1) kp by auto
  have st: "hk_state k1 = StopHS" using k1(2,3) by (simp add: hs_ok_def)
  have s: "sane i" using snoc.prems(1) by simp
  show ?case
  proof (cases "hi_sends i 0")
    case False
    then have "\<not> from_peer server i" "\<not> farewell server i" "\<not> silent server ys i" by (simp_all add: from_peer_def farewell_def silent_def)
    moreover obtain k2 where "hs_round junk server i k1 = Some ([], k2)" "hs_ok server k2" "hk_completed k2" "hk_seen k2 = hk_seen k1" "hk_heard k2 = hk_heard k1"
      using unheard [OF k1(2) st s False] by blast
    ultimately show ?thesis using k1 kp by (auto simp: hs_run_append split: option.splits)
  next
    case True
    have fp: "from_peer server i = (hi_frame i \<noteq> [] \<and> is_peer server (hi_frame i) = Some True)" using True by (simp add: from_peer_def)
    obtain f k2 where k2: "hs_round junk server i k1 = Some ([f], k2)" "hs_ok server k2"
        "hk_completed k2 \<longleftrightarrow> (from_peer server i \<longrightarrow> check_run_status (hi_frame i) = Some True) \<and>
           \<not> (hi_running i \<and> (from_peer server i \<or> hk_seen k1) \<and> 1500000000 < hi_now2 i - (if from_peer server i then hi_now i else hk_heard k1))"
        "hk_completed k2 \<longrightarrow> (hk_seen k2 \<longleftrightarrow> from_peer server i \<or> hk_seen k1) \<and> hk_heard k2 = (if from_peer server i then hi_now i else hk_heard k1)"
      using watched [OF k1(2) st s True fp refl, of junk] by blast
    have fw: "farewell server i \<longleftrightarrow> \<not> (from_peer server i \<longrightarrow> check_run_status (hi_frame i) = Some True)"
    proof (cases "from_peer server i")
      case True
      then have "3 \<le> length (hi_frame i)" using s by (auto simp: sane_def from_peer_def)
      then show ?thesis using flags_total(3) by (fastforce simp: farewell_def)
    qed (simp add: farewell_def)
    have sl: "silent server ys i \<longleftrightarrow> hi_running i \<and> (from_peer server i \<or> hk_seen k1) \<and>
        1500000000 < hi_now2 i - (if from_peer server i then hi_now i else hk_heard k1)"
      using k1(4) True by (auto simp: silent_def split: option.splits)
    show ?thesis using k1(1,4) kp k2 fw sl by (auto simp: hs_run_append split: option.splits)
  qed
qed


text \<open>
  A peer that says farewell stays marked as heard, and completing a handshake does not set the clock: if more than one
  and a half seconds lie between, the first round with a new client that brings no frame of it ends the connection.
\<close>

lemma new_peer_dropped:
  assumes "hs_ok True k" and "hk_state k = StopHS"
    and "sane i1" and "hs_frame False False sig1 (hi_frame i1)" and "hi_sends i1 0"
    and "sane i2" and "hs_frame False True sig2 (hi_frame i2)" and "hi_sends i2 0"
    and "sane i3" and "hi_frame i3 = []" and "hi_sends i3 0" and "hi_running i3" and "1500000000 < hi_now2 i3 - hi_now i1"
  shows "\<exists>f1 f2 f3 k1 k2 k3. server_handshake junk i1 k = Some ([f1], k1) \<and> \<not> hk_completed k1 \<and>
    server_handshake junk i2 k1 = Some ([f2], k2) \<and> hk_completed k2 \<and> server_handshake junk i3 k2 = Some ([f3], k3) \<and> \<not> hk_completed k3"
proof -
  have sig: "hi_signal i1 \<noteq> 255" "hi_signal2 i1 \<noteq> 255" "hi_signal i2 \<noteq> 255" using assms(3,6) by (simp_all add: sane_def)
  obtain m1 g1 where r1: "refresh_out_frame junk (hi_signal i1) k = Some (k\<lparr>hk_msg := m1, hk_frame := g1, hk_last := hi_signal i1\<rparr>)"
      "hs_ok True (k\<lparr>hk_msg := m1, hk_frame := g1, hk_last := hi_signal i1\<rparr>)"
    using refreshed [OF assms(1) sig(1)] by blast
  obtain m2 g2 where r2: "refresh_out_frame junk (hi_signal2 i1) (k\<lparr>hk_msg := m1, hk_frame := g1, hk_last := hi_signal i1\<rparr>) =
      Some (k\<lparr>hk_msg := m2, hk_frame := g2, hk_last := hi_signal2 i1\<rparr>)"
    using refreshed [OF r1(2) sig(2), of junk] by auto
  let ?k1 = "k\<lparr>hk_msg := m2, hk_frame := g2, hk_last := hi_signal2 i1, hk_seen := True, hk_heard := hi_now i1, hk_peer := sig1,
     hk_completed := False, hk_state := RunHS\<rparr>"
  have s1: "server_handshake junk i1 k = Some ([g2], ?k1)"
    using r1(1) r2 assms(2,4,5) by (simp add: server_handshake_def hs_stopped_def hs_watch_def hs_frame_def Let_def)
  have k1: "hs_ok True ?k1" using hs_round_ok [OF assms(1,3), of junk] s1 by (auto simp: hs_round_def)
  obtain m3 g3 where r3: "refresh_out_frame junk (hi_signal i2) ?k1 = Some (?k1\<lparr>hk_msg := m3, hk_frame := g3, hk_last := hi_signal i2\<rparr>)"
    using refreshed [OF k1 sig(3)] by blast
  let ?k2 = "?k1\<lparr>hk_msg := m3, hk_frame := g3, hk_last := hi_signal i2, hk_peer := sig2, hk_completed := True, hk_state := StopHS\<rparr>"
  have s2: "server_handshake junk i2 ?k1 = Some ([g3], ?k2)"
    using r3 assms(7,8) by (simp add: server_handshake_def hs_meet_def hs_frame_def Let_def)
  have k2: "hs_ok True ?k2" using hs_round_ok [OF k1 assms(6), of junk] s2 by (auto simp: hs_round_def)
  obtain f3 k3 where "server_handshake junk i3 ?k2 = Some ([f3], k3)" "\<not> hk_completed k3"
    using watched [OF k2 _ assms(9,11), of False "hi_now i1" junk] assms(10,12,13) by (auto simp: hs_round_def)
  then show ?thesis using s1 s2 by auto
qed

text \<open>Before the handshake an end takes the signal of any frame for the peer's, also of its own, which the network brings back.\<close>

lemma own_signal_taken:
  assumes "hs_ok True k" and "hk_state k = RunHS" and "sane i" and "hi_sends i 0" and "hs_frame True True sig (hi_frame i)"
  shows "\<exists>f k'. server_handshake junk i k = Some ([f], k') \<and> hk_peer k' = sig \<and> \<not> hk_completed k'"
proof -
  have sig: "hi_signal i \<noteq> 255" using assms(3) by (simp add: sane_def)
  obtain m g where r: "refresh_out_frame junk (hi_signal i) k = Some (k\<lparr>hk_msg := m, hk_frame := g, hk_last := hi_signal i\<rparr>)"
    using refreshed [OF assms(1) sig] by blast
  show ?thesis
    using r assms(1,2,4,5) by (auto simp: server_handshake_def hs_meet_def hs_frame_def hs_ok_def Let_def)
qed

definition quiet_input :: hs_input where
  "quiet_input = \<lparr>hi_signal = 1, hi_signal2 = 1, hi_sends = (\<lambda>_. True), hi_frame = [], hi_now = 5, hi_now2 = 5, hi_running = True\<rparr>"

lemma idle_round:
  assumes "hs_ok True k" and "hk_state k = RunHS"
  shows "\<exists>f k'. server_handshake junk quiet_input k = Some ([f], k') \<and> hk_state k' = RunHS \<and> hs_frame True True 1 f"
proof -
  obtain m f where "refresh_out_frame junk 1 k = Some (k\<lparr>hk_msg := m, hk_frame := f, hk_last := 1\<rparr>)" "hs_frame True True 1 f"
    using refreshed [OF assms(1), of 1 junk] by auto
  then show ?thesis using assms(2) by (auto simp: server_handshake_def hs_meet_def quiet_input_def)
qed

lemma quiet_sane: "sane quiet_input"
  by (simp add: sane_def quiet_input_def)

theorem handshake_runs_witness:
  "\<exists>k0 fs k. handshake_start (\<lambda>_. 0) False 1 0 = Some k0 \<and>
     hs_run (\<lambda>_. 0) False [quiet_input\<lparr>hi_frame := [1, 0, 1]\<rparr>, quiet_input] k0 = Some (fs, k) \<and> (hk_completed k \<longleftrightarrow> hk_state k = StopHS) \<and>
     (\<forall>f \<in> set fs. hs_frame False True 1 f)"
proof -
  have "\<forall>i \<in> set [quiet_input\<lparr>hi_frame := [1, 0, 1]\<rparr>, quiet_input]. sane i" by (simp add: sane_def quiet_input_def)
  from handshake_runs [OF _ this, of 1 "\<lambda>_. 0" False 0] show ?thesis by (simp add: quiet_input_def)
qed

theorem handshake_completes_witness:
  "\<exists>s c f s1 g c1. handshake_start (\<lambda>_. 0) True 1 0 = Some s \<and> handshake_start (\<lambda>_. 0) False 2 0 = Some c \<and>
     server_handshake (\<lambda>_. 0) quiet_input s = Some ([f], s1) \<and>
     client_handshake (\<lambda>_. 0) (quiet_input\<lparr>hi_frame := f, hi_signal := 2\<rparr>) c = Some ([g], c1) \<and> hk_completed c1 \<and> hk_peer c1 = 1 \<and>
     (\<exists>f' s2. server_handshake (\<lambda>_. 0) (quiet_input\<lparr>hi_frame := g\<rparr>) s1 = Some ([f'], s2) \<and> hk_completed s2 \<and> hk_peer s2 = 2)"
proof -
  obtain s where s: "handshake_start (\<lambda>_. 0) True 1 0 = Some s" "hs_ok True s" "hk_state s = RunHS" using start_ok [of 1 "\<lambda>_. 0" True 0] by auto
  obtain c where c: "handshake_start (\<lambda>_. 0) False 2 0 = Some c" "hs_ok False c" "hk_state c = RunHS" using start_ok [of 2 "\<lambda>_. 0" False 0] by auto
  obtain f s1 where r: "server_handshake (\<lambda>_. 0) quiet_input s = Some ([f], s1)" "hk_state s1 = RunHS"
    using idle_round [OF s(2,3)] by blast
  have j: "hi_frame (quiet_input\<lparr>hi_frame := f, hi_signal := 2\<rparr>) = f" "hi_signal (quiet_input\<lparr>hi_frame := f, hi_signal := 2\<rparr>) \<noteq> 255"
      "hi_sends (quiet_input\<lparr>hi_frame := f, hi_signal := 2\<rparr>) 0"
    by (simp_all add: quiet_input_def)
  from handshake_completes [OF s(2,3) c(2,3) r quiet_sane j(1,2) _ j(3)]
  obtain g c1 where g: "client_handshake (\<lambda>_. 0) (quiet_input\<lparr>hi_frame := f, hi_signal := 2\<rparr>) c = Some ([g], c1)" "hk_completed c1" "hk_peer c1 = 1"
      "\<forall>i'. hi_frame i' = g \<and> hi_signal i' \<noteq> 255 \<and> hi_sends i' 0 \<longrightarrow>
       (\<exists>f' s2. server_handshake (\<lambda>_. 0) i' s1 = Some ([f'], s2) \<and> hk_completed s2 \<and> hk_peer s2 = 2)"
    by (auto simp: quiet_input_def)
  have "\<exists>f' s2. server_handshake (\<lambda>_. 0) (quiet_input\<lparr>hi_frame := g\<rparr>) s1 = Some ([f'], s2) \<and> hk_completed s2 \<and> hk_peer s2 = 2"
    using g(4) by (simp add: quiet_input_def)
  then show ?thesis using s(1) c(1) r(1) g(1-3) by blast
qed


section \<open>Calls\<close>

text \<open>A best-effort send returns.\<close>

lemma best_effort_returns: "\<exists>ok sd' rest. chunk_send fuel ctx data sd inbox = Some (ok, sd', rest)"
proof -
  let ?opts = "SocketSendOptions\<lparr>so_delivery := BestEffort, so_integrity := IntegrityNone\<rparr>"
  have hb: "(send_heartbeat ok junk me s meta r f rnd = None) = False" for ok junk me s meta r f rnd
    using send_heartbeat_announces [of ok junk me s meta r f rnd] by auto
  have "\<exists>r. chunk_send_ex fuel ctx ?opts data sd inbox = Some r"
    by (auto simp: hb chunk_send_ex_def Let_def split: option.splits prod.splits if_splits bind_splits)
  then show ?thesis by (auto simp: chunk_send_def)
qed

definition reply_to :: "'m sock_server \<Rightarrow> 'm \<Rightarrow> 'm" where
  "reply_to s h = (let sd = (sd_clone (su_message s))\<lparr>sd_request := h\<rparr> in sd_response (case su_callback s of None \<Rightarrow> sd | Some callback \<Rightarrow> callback sd))"

text \<open>A request all of whose pages arrive is answered, and the answer is sent.\<close>

lemma serve_answers:
  assumes "su_running s" and "su_data s" and "su_inbox s = pre @ rest" and "mc_msg_id (generic_class junk) (sd_request (su_message s)) = i"
    and "published_well g" and "fair_traffic i (wire_pages (gm_base g) (message_bytes g)) pre"
    and "set (wire_pages (gm_base g) (message_bytes g)) \<subseteq> set pre" and "i = mb_msg_id (gm_base g)" and "i \<noteq> kRtpsHeartbeatMsgId" and "in_time rctx pre"
  shows "\<exists>h s' ok sn' wrest. gm_fields h = gm_fields g \<and> sock_serve (generic_class junk) (generic_class junk) fuel sctx rctx s = Some s' \<and>
    chunk_send fuel sctx (mc_serialize (generic_class junk) (reply_to s h)) (su_sender s) (su_winbox s) = Some (ok, sn', wrest) \<and> su_sender s' = sn'"
proof -
  let ?cls = "generic_class junk" and ?buf = "concat (wire_pages (gm_base g) (message_bytes g))"
  let ?ctx = "rctx\<lparr>rc_msg_id := i, rc_want_payload := False\<rparr>" and ?sock = "case su_ack s of None \<Rightarrow> su_node s | Some s \<Rightarrow> s"
  have t: "in_time ?ctx pre" using assms(10) by (simp add: in_time_def elapsed_ms_def)
  obtain inbox out fs where r: "recv_chunk_common_impl ?ctx 200 (pre @ rest) ?sock (su_stats s) = Some (Received (Deserialized ?buf), inbox, out, fs)"
    using sent_received [OF assms(5,8,9) _ assms(6,7) t, of 200 rest ?sock "su_stats s"] by auto
  obtain h ev where h: "mc_deserialize ?cls (sd_request (sd_clone (su_message s))) ?buf = (h, ev)" by fastforce
  then have g: "gm_fields h = gm_fields g" using published_reads_back(1) [OF assms(5)] by blast
  have a: "sd_response (answer_request ?cls s' ?buf) = reply_to s h" if "su_message s' = su_message s" "su_callback s' = su_callback s" for s'
    using that h by (simp add: answer_request_def reply_to_def Let_def split: option.split)
  obtain ok sn' wrest where c: "chunk_send fuel sctx (mc_serialize ?cls (reply_to s h)) (su_sender s) (su_winbox s) = Some (ok, sn', wrest)"
    using best_effort_returns by blast
  show ?thesis
    using g c r assms(1-4) by (auto simp: sock_serve_def chunk_rev_server_def a Let_def)
qed

lemma call_answered:
  assumes "cu_data c" and "cu_completed c" and "chunk_send fuel sctx (mc_serialize (generic_class junk) (sd_request sd)) (cu_sender c) (cu_rinbox c) = Some (True, sn', crest)"
    and "cu_inbox c @ arrive sn' = pre @ rest" and "mc_msg_id (generic_class junk) (sd_response sd) = i"
    and "published_well g" and "fair_traffic i (wire_pages (gm_base g) (message_bytes g)) pre"
    and "set (wire_pages (gm_base g) (message_bytes g)) \<subseteq> set pre" and "i = mb_msg_id (gm_base g)" and "i \<noteq> kRtpsHeartbeatMsgId"
    and "in_time rctx pre" and "10 \<le> tm"
  shows "\<exists>m c'. sock_call (generic_class junk) (generic_class junk) fuel sctx rctx arrive tm sd c = Some (Call_returns True, sd\<lparr>sd_response := m\<rparr>, c') \<and>
    gm_fields m = gm_fields g"
proof -
  let ?cls = "generic_class junk" and ?buf = "concat (wire_pages (gm_base g) (message_bytes g))"
  let ?ctx = "rctx\<lparr>rc_msg_id := i, rc_want_payload := False\<rparr>" and ?sock = "case cu_ack c of None \<Rightarrow> cu_node c | Some s \<Rightarrow> s"
  have t: "in_time ?ctx pre" using assms(11) by (simp add: in_time_def elapsed_ms_def)
  obtain inbox out fs where r: "recv_chunk_common_impl ?ctx tm (pre @ rest) ?sock (cu_stats c) = Some (Received (Deserialized ?buf), inbox, out, fs)"
    using sent_received [OF assms(6,9,10) _ assms(7,8) t assms(12), of rest ?sock "cu_stats c"] by auto
  obtain m ev where m: "mc_deserialize ?cls (sd_response sd) ?buf = (m, ev)" by fastforce
  then have g: "gm_fields m = gm_fields g" using published_reads_back(1) [OF assms(6)] by blast
  show ?thesis
    using g m r assms(1-5) by (auto simp: sock_call_def chunk_rev_server_def Let_def)
qed


text \<open>
  C26. Whatever reaches the client, a call ends or waits. It succeeds only when the client is connected and its data
  sockets are open, and then only the response changes, to what a complete message of the response's type says that
  was put together from datagrams received; a call that fails or waits leaves the data of the service as they were. As
  long as the datagrams of the response's type are the pages of one response, or heartbeats, the response has its fields.
\<close>

theorem call_returns_sent:
  assumes "mc_msg_id (generic_class junk) (sd_response sd) = i"
  shows "\<exists>res sd' c'. sock_call req (generic_class junk) fuel sctx rctx arrive tm sd c = Some (res, sd', c') \<and>
    (res \<noteq> Call_returns True \<and> sd' = sd \<or>
     res = Call_returns True \<and> cu_data c \<and> cu_completed c \<and>
     (\<exists>meta pages. message_pages meta pages \<and> cm_msg_id meta = i \<and> set pages \<subseteq> set (cu_inbox c @ arrive (cu_sender c')) \<and>
        sd' = sd\<lparr>sd_response := fst (mc_deserialize (generic_class junk) (sd_response sd) (concat pages))\<rparr>)) \<and>
    (\<forall>g. published_well g \<and> i \<noteq> kRtpsHeartbeatMsgId \<and>
       (\<forall>f \<in> set (cu_inbox c @ arrive (cu_sender c')). check_id f i \<longrightarrow> f \<in> set (wire_pages (gm_base g) (message_bytes g)) \<or> check_hb_id f) \<longrightarrow>
       res = Call_returns True \<longrightarrow> gm_fields (sd_response sd') = gm_fields g)"
proof (cases "cu_data c \<and> cu_completed c")
  case False
  then show ?thesis by (auto simp: sock_call_def)
next
  case ready: True
  let ?cls = "generic_class junk" and ?ctx = "rctx\<lparr>rc_msg_id := i, rc_want_payload := False\<rparr>"
  let ?sock = "case cu_ack c of None \<Rightarrow> cu_node c | Some s \<Rightarrow> s"
  obtain ok sn crest where s: "chunk_send fuel sctx (mc_serialize req (sd_request sd)) (cu_sender c) (cu_rinbox c) = Some (ok, sn, crest)"
    using best_effort_returns by blast
  let ?in = "cu_inbox c @ arrive sn"
  obtain r inbox out fs where r: "recv_chunk_common_impl ?ctx tm ?in ?sock (cu_stats c) = Some (r, inbox, out, fs)"
      "r = RecvBlocked \<or> r = RecvFailed \<or> (\<exists>d. r = Received d \<and> received_ok ?ctx (set ?in) out d)"
    using recv_impl_ok [of ?ctx tm ?in ?sock "cu_stats c"] by auto
  have one: "r = RecvBlocked \<or> r = RecvFailed \<or> r = Received (Deserialized (concat (wire_pages (gm_base g) (message_bytes g))))"
    if "published_well g" "i \<noteq> kRtpsHeartbeatMsgId"
      "\<forall>f \<in> set ?in. check_id f i \<longrightarrow> f \<in> set (wire_pages (gm_base g) (message_bytes g)) \<or> check_hb_id f" for g
    using received_is_sent [OF that, of ?ctx tm ?sock "cu_stats c"] r(1) by auto
  have g: "gm_fields (fst (mc_deserialize ?cls (sd_response sd) (concat (wire_pages (gm_base g) (message_bytes g))))) = gm_fields g"
    if "published_well g" for g
    using published_reads_back(1) [OF that] by (metis prod.collapse)
  have b: "\<exists>meta pages. message_pages meta pages \<and> cm_msg_id meta = i \<and> set pages \<subseteq> set ?in \<and> buf = concat pages" if "r = Received (Deserialized buf)" for buf
    using r(2) that by (auto simp: received_ok_def delivers_def)
  show ?thesis
  proof (cases "ok \<and> (\<exists>buf. r = Received (Deserialized buf))")
    case False
    then show ?thesis using ready s r(1) by (auto simp: sock_call_def chunk_rev_server_def assms Let_def split: recv_result.split delivery.split)
  next
    case True
    then obtain buf where d: "r = Received (Deserialized buf)" by blast
    obtain meta pages where p: "message_pages meta pages" "cm_msg_id meta = i" "set pages \<subseteq> set ?in" "buf = concat pages" using b [OF d] by blast
    let ?sd = "sd\<lparr>sd_response := fst (mc_deserialize ?cls (sd_response sd) buf)\<rparr>"
    obtain c' where c: "sock_call req ?cls fuel sctx rctx arrive tm sd c = Some (Call_returns True, ?sd, c')" "cu_sender c' = sn"
      using ready s r(1) True d by (auto simp: sock_call_def chunk_rev_server_def assms Let_def)
    have "gm_fields (sd_response ?sd) = gm_fields g" if "published_well g" "i \<noteq> kRtpsHeartbeatMsgId"
        "\<forall>f \<in> set ?in. check_id f i \<longrightarrow> f \<in> set (wire_pages (gm_base g) (message_bytes g)) \<or> check_hb_id f" for g
      using one [OF that] d g [OF that(1)] by simp
    then show ?thesis using c ready p by (intro exI [of _ "Call_returns True"] exI [of _ ?sd] exI [of _ c']) auto
  qed
qed

text \<open>Nothing ties a response to its request: a response that a call left behind is taken for that of the next one.\<close>

lemma late_reply_taken:
  assumes "cu_data c" and "cu_completed c" and "chunk_send fuel sctx (mc_serialize (generic_class junk) (sd_request sd)) (cu_sender c) (cu_rinbox c) = Some (True, sn', crest)"
    and "cu_inbox c = pre @ old" and "mc_msg_id (generic_class junk) (sd_response sd) = i"
    and "published_well g" and "fair_traffic i (wire_pages (gm_base g) (message_bytes g)) pre"
    and "set (wire_pages (gm_base g) (message_bytes g)) \<subseteq> set pre" and "i = mb_msg_id (gm_base g)" and "i \<noteq> kRtpsHeartbeatMsgId"
    and "in_time rctx pre" and "10 \<le> tm"
  shows "\<exists>m c'. sock_call (generic_class junk) (generic_class junk) fuel sctx rctx arrive tm sd c = Some (Call_returns True, sd\<lparr>sd_response := m\<rparr>, c') \<and>
    gm_fields m = gm_fields g"
  using call_answered [OF assms(1-3) _ assms(5-12), of arrive "old @ arrive sn'"] assms(4) by simp

section \<open>A call on its way\<close>

text \<open>A message of two pages, sent as the request and as the response.\<close>

definition long_message :: generic_message where
  "long_message = set_value [110] (V_string (replicate 2000 120)) new_message"

definition long_data :: "generic_message service_data" where
  "long_data = \<lparr>sd_request = long_message, sd_response = new_message, sd_req_sample = None, sd_resp_sample = None, sd_msg_id = 0\<rparr>"

definition long_server :: "bytes list \<Rightarrow> generic_message sock_server" where
  "long_server inbox = (new_sock_server ''t'' 0 long_data (Some (\<lambda>sd. sd\<lparr>sd_response := long_message\<rparr>)) example_sender)
     \<lparr>su_data := True, su_inbox := inbox\<rparr>"

definition long_client :: "generic_message sock_client" where
  "long_client = (new_sock_client ''t'' 0 long_data example_sender)\<lparr>cu_data := True, cu_completed := True\<rparr>"

lemma long_message_facts:
  "gm_base long_message = msg_base_init 0" "published_well long_message" "length (wire_pages (gm_base long_message) (message_bytes long_message)) = 2"
proof -
  let ?d = "size_bytes 2000 @ replicate 2000 (120 :: byte)"
  have f: "gm_fields long_message = [\<lparr>f_name = [110], f_type = FT_STRING, f_data = ?d\<rparr>]"
    by (simp add: long_message_def set_string_def set_string_impl_def store_fields new_message_def append_raw_def)
  show b: "gm_base long_message = msg_base_init 0"
    by (simp add: long_message_def set_string_def set_string_impl_def store_field_def Let_def new_message_def append_raw_def split: option.split)
  have l: "length (message_bytes long_message) = 2010"
    by (simp add: message_bytes_def f field_pieces_def)
  have "typed Str ?d" using typed_values(2) [of "replicate 2000 (120 :: byte)"] by simp
  then have "msg_typed long_message" unfolding msg_typed_def f by (simp add: field_typed_def shape_of_def field_type_defs)
  then show "published_well long_message" unfolding published_well_def l by (simp add: f phys_def udp_consts)
  show "length (wire_pages (gm_base long_message) (message_bytes long_message)) = 2" by (simp add: wire_pages_def l)
qed

lemma long_service_facts:
  "cu_data long_client" "cu_completed long_client" "cu_sender long_client = example_sender" "cu_rinbox long_client = []" "cu_inbox long_client = []"
  "su_running (long_server fs)" "su_data (long_server fs)" "su_inbox (long_server fs) = fs" "su_sender (long_server fs) = example_sender"
  "su_winbox (long_server fs) = []" "sd_request long_data = long_message" "reply_to (long_server fs) h = long_message"
  "mc_msg_id (generic_class junk) (sd_request (su_message (long_server fs))) = 0" "mc_msg_id (generic_class junk) (sd_response long_data) = 0"
  "mb_msg_id (gm_base long_message) = 0" "\<forall>k. sc_ok example_send_ctx k" "kRtpsHeartbeatMsgId \<noteq> 0" "0 \<noteq> kRtpsHeartbeatMsgId"
  by (simp_all add: long_client_def new_sock_client_def long_server_def new_sock_server_def long_data_def reply_to_def sd_clone_def generic_class_def
      long_message_facts msg_base_init_def new_message_def example_ctx_fields kRtpsHeartbeatMsgId_def)

lemma example_in_time: "length pre < 1000 \<Longrightarrow> in_time example_ctx pre"
  by (auto simp: in_time_def patience_def elapsed_ms_def example_ctx_def)

text \<open>The pages, the second one first and twice, behind a datagram of another type.\<close>

definition long_arrival :: "bytes list" where
  "long_arrival = (let ps = wire_pages (gm_base long_message) (message_bytes long_message) in [[1], ps ! 1, ps ! 1, ps ! 0])"

lemma long_arrives:
  assumes "chunk_send fuel sctx (mc_serialize (generic_class junk) long_message) sn inbox = Some (True, sn', rest)"
  shows "all_arrive 0 (sent_between sn sn') long_arrival" "in_time example_ctx long_arrival"
proof -
  let ?ps = "wire_pages (gm_base long_message) (message_bytes long_message)"
  have p: "phys (length (message_bytes long_message)) + 12 \<le> MAX_RECV_TOTAL_SIZE" using long_message_facts(2) by (simp add: published_well_def)
  have mp: "message_pages (wire_meta (gm_base long_message) (length (message_bytes long_message)) 0) ?ps" by (rule wire_pages_message [OF p])
  have id: "cm_msg_id (wire_meta (gm_base long_message) (length (message_bytes long_message)) 0) = 0"
    by (simp add: wire_meta_def long_message_facts msg_base_init_def)
  have in_ps: "?ps ! 0 \<in> set ?ps" "?ps ! 1 \<in> set ?ps" by (rule nth_mem, simp add: long_message_facts(3))+
  have S: "set ?ps = {?ps ! 0, ?ps ! 1}"
    using long_message_facts(3) by (cases ?ps; cases "tl ?ps") auto
  have n: "f \<noteq> []" if "f \<in> set ?ps" for f
    using page_check_id [OF mp that] id by (auto simp: check_id_def)
  have "\<exists>fs. sent_between sn sn' = fs \<and> (\<forall>f \<in> set fs. f \<in> set ?ps \<or> check_hb_id f) \<and> set ?ps \<subseteq> set fs"
    using chunk_send_out [OF p, of fuel sctx "gm_base long_message" sn inbox] assms
    by (auto simp: sent_between_def generic_wire [OF long_message_facts(2)])
  then obtain fs where fs: "sent_between sn sn' = fs" "\<forall>f \<in> set fs. f \<in> set ?ps \<or> check_hb_id f" "set ?ps \<subseteq> set fs" by blast
  have h: "\<not> check_hb_id f \<or> \<not> check_id f 0" for f by (auto simp: check_hb_id_def check_id_def kRtpsHeartbeatMsgId_def split: if_splits)
  have one: "\<not> check_id [1] 0" by (simp add: check_id_def)
  show "all_arrive 0 (sent_between sn sn') long_arrival"
    using fs h one in_ps n S unfolding all_arrive_def long_arrival_def Let_def by auto
  show "in_time example_ctx long_arrival" by (rule example_in_time) (simp add: long_arrival_def Let_def)
qed

lemma long_sent:
  "\<exists>sn rest. chunk_send 1 example_send_ctx (mc_serialize (generic_class junk) long_message) example_sender [] = Some (True, sn, rest)"
proof -
  have p: "phys (length (message_bytes long_message)) + 12 \<le> MAX_RECV_TOTAL_SIZE" using long_message_facts(2) by (simp add: published_well_def)
  show ?thesis
    using chunk_send_out [OF p, of 1 example_send_ctx "gm_base long_message" example_sender "[]"] long_service_facts(16)
    by (auto simp: generic_wire [OF long_message_facts(2)])
qed


theorem call_returns_sent_witness:
  "\<exists>res sd' c'. sock_call (generic_class (\<lambda>_. 0)) (generic_class (\<lambda>_. 0)) 1 example_send_ctx example_ctx (\<lambda>_. long_arrival) 200
       long_data long_client = Some (res, sd', c') \<and>
    (sd' = long_data \<or> gm_fields (sd_response sd') = gm_fields long_message)"
proof -
  let ?cls = "generic_class (\<lambda>_. 0)"
  obtain sn rest where sn: "chunk_send 1 example_send_ctx (mc_serialize ?cls long_message) example_sender [] = Some (True, sn, rest)"
    using long_sent by blast
  have fr: "\<forall>f \<in> set (cu_inbox long_client @ long_arrival). check_id f 0 \<longrightarrow>
      f \<in> set (wire_pages (gm_base long_message) (message_bytes long_message)) \<or> check_hb_id f"
    using sent_arrives(1) [OF sn long_message_facts(2) long_arrives(1) [OF sn]] by (auto simp: long_service_facts fair_traffic_def)
  obtain res sd' c' where c: "sock_call ?cls ?cls 1 example_send_ctx example_ctx (\<lambda>_. long_arrival) 200 long_data long_client = Some (res, sd', c')"
      "res \<noteq> Call_returns True \<and> sd' = long_data \<or> res = Call_returns True"
      "\<forall>g. published_well g \<and> (0 :: u32) \<noteq> kRtpsHeartbeatMsgId \<and>
         (\<forall>f \<in> set (cu_inbox long_client @ long_arrival). check_id f 0 \<longrightarrow> f \<in> set (wire_pages (gm_base g) (message_bytes g)) \<or> check_hb_id f) \<longrightarrow>
         res = Call_returns True \<longrightarrow> gm_fields (sd_response sd') = gm_fields g"
    using call_returns_sent [where req = ?cls and fuel = 1 and sctx = example_send_ctx and rctx = example_ctx and arrive = "\<lambda>_. long_arrival"
        and tm = 200 and c = long_client, OF long_service_facts(14)] by blast
  then show ?thesis using fr long_message_facts(2) long_service_facts(18) by blast
qed

end
