(* ===== verification/Spec2Isabelle.thy ===== *)
theory Spec2Isabelle
  imports CircularQueue DzFlat InitMsg Naming RateLaws SenderLaws BroadcastLaws RingRace ChannelLaws GenericLaws SnifferLaws ShmHandshake InfoPool PathSwitch ServiceCalls Waiter ShmSegments MsgBuilder SocketServiceLaws
begin

text \<open>
  \<^bold>\<open>What the program is.\<close> Cpp-IPC-DDS passes messages between processes, over shared memory inside a machine and over
  UDP between machines. Messages are encoded page by page or as flat segments. A topic has publishers and subscribers,
  a service has a server and clients; each of them comes in a variant over shared memory and one over sockets, and a service may
  switch from sockets to shared memory while it runs. The development models the encodings, the protocols
  and the shared data structures, as functions on their state, and proves what they promise to each other.

  \<^bold>\<open>Foundations.\<close>
  \<^item> \<open>Prelude\<close>: words, byte strings, byte orders, reads and writes that fail outside of their buffer.
  \<^item> \<open>Interfaces\<close>, \<open>QueueContract\<close>, \<open>AllocContract\<close>: the interfaces between components as locales. A byte stream that is written and
    read field by field (\<open>byte_stream\<close>, provided by the page codec in \<open>MsgBase\<close>); a transition system with an invariant (\<open>step_invariant\<close>, provided by
    the rate limiter, the two racing rings, the handshake, the path switch and the registered subscriber); a queue that keeps the last samples
    (\<open>keep_last_queue\<close>, provided by \<open>CircularQueue\<close>); an allocator of slots (\<open>slot_allocator\<close>, provided by \<open>IdPool\<close>, \<open>Connections\<close> and \<open>InfoPool\<close>). The
    interpretations are in the theories of the providers.

  \<^bold>\<open>Messages\<close> (\<open>src/include/ipc_msg/ipc_msg_base\<close>).
  \<^item> \<open>MsgBase\<close> (\<open>ipc_msg_base.hpp\<close>): pages of 1460 bytes with tails, the writing and reading of fields across pages, the size a
    message needs. Fields that were written are read back, no read leaves the buffer, and the size is exact up to 65534 full pages.
  \<^item> \<open>DzFlat\<close> (\<open>dzflat.h\<close>, \<open>wire_accept.cc\<close>): flat segments, their header, writer and reader (its header is read twice, and what
    a writer can do in between), and the choice between the two encodings.
  \<^item> \<open>GenericMsg\<close>, \<open>GenericLaws\<close> (\<open>generic_message.hpp\<close>): messages without a schema, with all setters and getters. Round trip, well-typedness of
    whatever was read, and the end of reading.
  \<^item> \<open>RtpsMsgs\<close>, \<open>InitMsg\<close>, \<open>Checksums\<close>, \<open>Naming\<close>: control frames, the handshake frame, CRC-32C on its two paths (with the
    instruction described as in the processor's manual), and the names of topics, segments and ports.

  \<^bold>\<open>Transport over UDP\<close> (\<open>src/src/dzIPC/common/data_rev.cc\<close>).
  \<^item> \<open>Fragments\<close>: a message cut into pages and put together again from pages in any order, with duplicates and foreign pages.
  \<^item> \<open>Feedback\<close>, \<open>FeedbackLaws\<close>: acknowledgements, lists and bitmaps of missing pages.
  \<^item> \<open>RateControl\<close>, \<open>RateLaws\<close>: the rate limiter; its bounds in every reachable state, its reaction to loss and its recovery.
  \<^item> \<open>Sender\<close>, \<open>SenderLaws\<close>, \<open>Receiver\<close>, \<open>ReceiverLaws\<close>: the two drivers, with what arrives in each round as an input. The sender
    returns, and confirms only what a received frame acknowledged, with the checksum where it is asked for; the receiver delivers only complete messages.

  \<^bold>\<open>Shared memory\<close> (\<open>src/src/libipc\<close>).
  \<^item> \<open>BroadcastRing\<close>, \<open>BroadcastLaws\<close>, \<open>UnicastRing\<close> (\<open>prod_cons.h\<close>, \<open>queue.h\<close>): the ring of a topic implements a board of messages that readers go through in order; the
    ring of a service is a queue. \<open>RingRace\<close> and the race in \<open>UnicastRing\<close> split the operations into atomic steps, in any interleaving.
  \<^item> \<open>Connections\<close>, \<open>IdPool\<close>, \<open>ChunkStorage\<close> (\<open>elem_def.h\<close>, \<open>id_pool.h\<close>, \<open>ipc.cpp\<close>): bits of readers, identifiers, and the chunks of large messages with the readers that hold them.
    Chunks are accounted for as long as no reader disconnects, also when slots are overwritten that all readers have left.
  \<^item> \<open>Channel\<close>, \<open>ChannelLaws\<close> (\<open>ipc.cpp\<close>): sending and receiving over a ring, in fragments, in chunks and as loans.
  \<^item> \<open>Sniffer\<close>, \<open>SnifferLaws\<close> (\<open>sniffer.cpp\<close>): the passive observer, which sees the messages in order while it is not lapped,
    those in fragments as they were sent and those in chunks as the chunk is when it is copied.
  \<^item> \<open>CircularQueue\<close> (\<open>circularqueue.h\<close>): the queue of received samples inside a process.
  \<^item> \<open>Locks\<close> (\<open>rw_lock.h\<close>, \<open>count_sem.h\<close>), \<open>Waiter\<close> (\<open>waiter.h\<close>): the spin lock, the lock of readers and writers and the waiting
    protocol as atomic steps of any number of threads. Writers exclude each other and the readers, some thread can always go on, and no
    thread sleeps through a change of what it waits for.
  \<^item> \<open>ShmSegments\<close> (\<open>shm_posix.cpp\<close>, \<open>shm.cpp\<close>): segments by name and their handles, over the calls of POSIX. Opening, mapping,
    counting up, counting down and removing the name are steps that interleave; the counter in a segment is the number of processes that
    have it counted, and its name lasts as long as a process stays in it while nobody is about to remove the name.

  \<^bold>\<open>Topics and services\<close> (\<open>src/src/dzIPC\<close>).
  \<^item> \<open>SlotTable\<close>, \<open>ControlPlane\<close> (\<open>control_plane.cc\<close>): generations, slots of peers, heartbeats, reaping.
  \<^item> \<open>InfoPool\<close> (\<open>ipc_info_pool.cc\<close>): the directory of the ends on a machine. \<open>LocalRegistry\<close> (\<open>local_pub_sub_registry.cc\<close>,
    \<open>nodelet_config.cc\<close>): the directory of the queues in a process, the switches and the counters.
  \<^item> \<open>ShmHandshake\<close>, \<open>PubSub\<close>, \<open>PubSubLaws\<close> (\<open>shm_pub_sub_ipc.cc\<close>): how publisher and subscribers find each other, and the three ways of a message: to the queues
    of the process, as a flat segment, serialised.
  \<^item> \<open>ShmService\<close>, \<open>ServiceCalls\<close> (\<open>shm_ser_cli_ipc.cc\<close>): the same for a service, its requests and responses.
  \<^item> \<open>PathSwitch\<close> (\<open>auto_ser_cli_ipc.cc\<close>, \<open>path_switch.h\<close>): the two threads that move a service between sockets and shared memory, as functions of what they
    observe in a round.

  \<^item> \<open>SocketPubSub\<close>, \<open>SocketLaws\<close> (\<open>socket_pub_sub_ipc.cc\<close>): a topic over UDP, from the publisher's message through the two drivers to
    the subscriber's queue. What is queued has the fields that were published, a small message arrives with its page, a
    blocking publish that succeeds was acknowledged, and a registered subscriber is discovered.
  \<^item> \<open>SocketArrival\<close>: a receiver that finds all pages of a message within the time it waits delivers it, whatever their number and
    order, and a best-effort send that succeeds puts them all on the network.
  \<^item> \<open>SocketService\<close>, \<open>SocketServiceLaws\<close> (\<open>socket_ser_cli_ipc.cc\<close>): a service over UDP. The threads of the handshake, as rounds with
    what they meet, complete it with one frame of each end, and from then on count the peer as connected until it says farewell or is silent
    for too long; a call whose request and response arrive succeeds with the fields of the server's answer, and one that fails changes nothing.

  \<^bold>\<open>Tools\<close> (\<open>src/exec\<close>).
  \<^item> \<open>TextTools\<close>, \<open>MsgText\<close> (\<open>msg_type_identify.h\<close>): the text that \<open>dzipc_topic_cat\<close> prints of a message; it has exactly the fields of the message.
  \<^item> \<open>MsgSchema\<close>, \<open>MsgBuilder\<close> (\<open>msg_schema.h\<close>, \<open>msg_builder.h\<close>): the schemas of \<open>dzipc_pub\<close>, the messages built from them and the values
    given as text. A printed bool, integer, string, or array of bools or integers, given back as text, is the same value.

  \<^bold>\<open>How states correspond.\<close> Every class with state is a record with its members, every method a function from the state
  (and what it is given) to its result and the new state, named as in the code where the name is free. Words have the
  width of the code; sizes and positions that the code keeps in 64 bits are natural numbers with the wrap-around written out where it
  can happen. Reads outside of a buffer, and operations that the code leaves undefined, are \<open>None\<close>. Loops over time (waiting for room, for an acknowledgement, for a
  response) take what they meet in each round as an argument: a list of datagrams or buffers, or a function \<open>env\<close> that says what others do
  between two attempts. Virtual methods of generated message types, the clock, processes that run, and locks that are taken are arguments as well.

  \<^bold>\<open>Bounds.\<close> The queue operations take a number of rounds; one thread alone ends in two (\<open>push_owned\<close>) and one (\<open>try_dequeue\<close>) of them, which
  the laws of \<open>CircularQueue\<close> prove for capacities of at least two. The loops of \<open>Sender\<close> end with the list of rounds or the deadline (\<open>sender_returns\<close>).
  The search of a capacity in \<open>loan_size_class\<close> ends for every size (\<open>loan_size_class_returns\<close>). The reading of self-describing messages ends on
  every buffer (\<open>deserialize_returns\<close>). The loops of \<open>MsgText\<close> take the length of the buffer as their bound, since every round moves
  on; the directory of schemas is followed to the depth of the code, sixteen files below the first. Everything else is structural recursion.
  A receiver over UDP ends a round ten milliseconds after its start at the earliest and two after a heartbeat (\<open>in_time\<close>), which is why the
  claims that a message arrives ask for its pages within that time.

  \<^bold>\<open>Not modelled.\<close> The mutex, the condition variable and the named semaphore, which forward to the system, the sockets of the
  system, and the memory allocators of C++. The rings with several producers, which no end of the library opens. Threads as such: the drivers
  are sequences of rounds; the rings, the locks and the waiting protocol are interleaved step by step, with sequentially consistent steps. The
  wrappers that choose between the variants of topics and services. The logger, the thread pool, the parsing of
  command lines, Python bindings, code generators, tests and vendored code.
\<close>

end
